(* ===== verification/Prelude.thy ===== *)
theory Prelude
  imports Complex_Main "HOL-Library.Multiset" "HOL-Library.AList" "HOL-Library.Char_ord"
    "HOL-Library.List_Lexorder"
begin

text \<open>
  The vocabulary shared by every component: the exceptions of the Python 2 source as values,
  the result type \<open>'a res\<close> and its sequencing functions, Python's two kinds of number,
  the ceiling logarithm and ceiling division that size the packet headers, decimal rendering,
  and the generic lemmas on lists that the component theories use.  Two collections are
  declared here: \<open>res_simps\<close> unfolds the sequencing of results and \<open>num_simps\<close> moves
  from Python numbers to the rationals they stand for.
\<close>

named_theorems res_simps
named_theorems num_simps

section \<open>Exceptions and results\<close>

text \<open>
  Every way the modelled code leaves a function early: the exceptions raised by the language
  itself, the ones the code raises, and \<open>exit(n)\<close> / \<open>sys.exit(n)\<close>.
\<close>

datatype py_error =
    IndexError
  | KeyError string
  | ZeroDivisionError
  | ValueError
  | NameError string
  | UnboundLocalError string
  | AttributeError string
  | TypeError
  | SyntaxError string
  | SystemExit int
  | OSError string

type_synonym 'a res = "py_error + 'a"

fun bindR :: "'a res \<Rightarrow> ('a \<Rightarrow> 'b res) \<Rightarrow> 'b res" where
  "bindR (Inl e) f = Inl e"
| "bindR (Inr x) f = f x"

fun mapR :: "('a \<Rightarrow> 'b res) \<Rightarrow> 'a list \<Rightarrow> 'b list res" where
  "mapR f [] = Inr []"
| "mapR f (x # xs) = bindR (f x) (\<lambda>y. bindR (mapR f xs) (\<lambda>ys. Inr (y # ys)))"

fun foldR :: "('s \<Rightarrow> 'a \<Rightarrow> 's res) \<Rightarrow> 's \<Rightarrow> 'a list \<Rightarrow> 's res" where
  "foldR f s [] = Inr s"
| "foldR f s (x # xs) = bindR (f s x) (\<lambda>s'. foldR f s' xs)"

lemma bindR_eq_Inr [res_simps]: "bindR m f = Inr y \<longleftrightarrow> (\<exists>x. m = Inr x \<and> f x = Inr y)"
  by (cases m) auto

lemma bindR_Inr_right [simp]: "bindR m Inr = m"
  by (cases m) auto

lemma bindR_assoc: "bindR (bindR m f) g = bindR m (\<lambda>x. bindR (f x) g)"
  by (cases m) auto

lemma bindR_if: "bindR (if b then m else m') f = (if b then bindR m f else bindR m' f)"
  by simp

lemma mapR_eq_Inr:
  "mapR f xs = Inr ys \<longleftrightarrow> length ys = length xs \<and> (\<forall>i<length xs. f (xs ! i) = Inr (ys ! i))"
proof (induction xs arbitrary: ys)
  case Nil
  then show ?case by auto
next
  case (Cons x xs)
  show ?case
  proof (cases ys)
    case Nil
    then show ?thesis by (auto simp: bindR_eq_Inr)
  next
    case (Cons y zs)
    have "mapR f (x # xs) = Inr ys \<longleftrightarrow> f x = Inr y \<and> mapR f xs = Inr zs"
      using Cons by (auto simp: bindR_eq_Inr)
    also have "\<dots> \<longleftrightarrow> length ys = length (x # xs) \<and>
        (\<forall>i<length (x # xs). f ((x # xs) ! i) = Inr (ys ! i))"
      unfolding Cons.IH using Cons
      by (auto simp: nth_Cons' less_Suc_eq_0_disj split: if_splits)
    finally show ?thesis .
  qed
qed

lemma mapR_Inr_map: "(\<And>x. x \<in> set xs \<Longrightarrow> f x = Inr (g x)) \<Longrightarrow> mapR f xs = Inr (map g xs)"
  by (induction xs) auto

lemma mapR_total: "(\<And>x. x \<in> set xs \<Longrightarrow> \<exists>y. f x = Inr y) \<Longrightarrow> \<exists>ys. mapR f xs = Inr ys"
proof -
  assume "\<And>x. x \<in> set xs \<Longrightarrow> \<exists>y. f x = Inr y"
  then obtain g where "\<And>x. x \<in> set xs \<Longrightarrow> f x = Inr (g x)" by metis
  then have "mapR f xs = Inr (map g xs)" by (rule mapR_Inr_map)
  then show ?thesis by blast
qed

lemma foldR_append: "foldR f s (xs @ ys) = bindR (foldR f s xs) (\<lambda>s'. foldR f s' ys)"
  by (induction xs arbitrary: s) (auto simp: bindR_assoc)

lemma foldR_invariant:
  assumes "foldR f s xs = Inr s'" and "P s"
    and "\<And>s x s'. x \<in> set xs \<Longrightarrow> P s \<Longrightarrow> f s x = Inr s' \<Longrightarrow> P s'"
  shows "P s'"
  using assms
proof (induction xs arbitrary: s)
  case Nil
  then show ?case by simp
next
  case (Cons x xs)
  from Cons.prems(1) obtain t where t: "f s x = Inr t" "foldR f t xs = Inr s'"
    by (auto simp: bindR_eq_Inr)
  show ?case
    by (rule Cons.IH [OF t(2)]) (use Cons.prems t(1) in auto)
qed

lemma foldR_error:
  assumes "foldR f s xs = Inl e" and "\<And>s x e. x \<in> set xs \<Longrightarrow> f s x = Inl e \<Longrightarrow> P e"
  shows "P e"
  using assms
proof (induction xs arbitrary: s)
  case Nil
  then show ?case by simp
next
  case (Cons x xs)
  show ?case
  proof (cases "f s x")
    case (Inl e')
    with Cons.prems show ?thesis by auto
  next
    case (Inr t)
    show ?thesis
      by (rule Cons.IH [of t]) (use Cons.prems Inr in auto)
  qed
qed

text \<open>A loop that checks each item and appends something for it.\<close>

lemma foldR_checked:
  assumes "\<And>s s' x. x \<in> set xs \<Longrightarrow> f s x = Inr s' \<longleftrightarrow> ok x \<and> s' = s @ h x"
  shows "foldR f s xs = Inr s' \<longleftrightarrow> (\<forall>x \<in> set xs. ok x) \<and> s' = s @ concat (map h xs)"
  using assms
proof (induction xs arbitrary: s)
  case Nil
  then show ?case by auto
next
  case (Cons x xs)
  have "foldR f t xs = Inr s' \<longleftrightarrow> (\<forall>x \<in> set xs. ok x) \<and> s' = t @ concat (map h xs)" for t
    by (rule Cons.IH) (use Cons.prems in auto)
  with Cons.prems show ?case
    by (auto simp: bindR_eq_Inr)
qed

text \<open>A loop whose body succeeds under an invariant, and re-establishes it, succeeds.\<close>

lemma foldR_total:
  assumes "P s" and "\<And>s x. x \<in> set xs \<Longrightarrow> P s \<Longrightarrow> \<exists>s'. f s x = Inr s' \<and> P s'"
  shows "\<exists>s'. foldR f s xs = Inr s' \<and> P s'"
  using assms
proof (induction xs arbitrary: s)
  case Nil
  then show ?case by simp
next
  case (Cons x xs)
  from Cons.prems obtain t where "f s x = Inr t" and "P t"
    by (meson list.set_intros(1))
  with Cons.IH [of t] Cons.prems(2) show ?case
    by auto
qed

text \<open>
  Results of code that may also run for ever: \<open>None\<close> is "does not return".
\<close>

type_synonym 'a run = "'a res option"

fun bindO :: "'a run \<Rightarrow> ('a \<Rightarrow> 'b run) \<Rightarrow> 'b run" where
  "bindO None f = None"
| "bindO (Some (Inl e)) f = Some (Inl e)"
| "bindO (Some (Inr x)) f = f x"

fun mapO :: "('a \<Rightarrow> 'b run) \<Rightarrow> 'a list \<Rightarrow> 'b list run" where
  "mapO f [] = Some (Inr [])"
| "mapO f (x # xs) = bindO (f x) (\<lambda>y. bindO (mapO f xs) (\<lambda>ys. Some (Inr (y # ys))))"

lemma bindO_returns [res_simps]:
  "bindO m f = Some (Inr y) \<longleftrightarrow> (\<exists>x. m = Some (Inr x) \<and> f x = Some (Inr y))"
  by (cases "(m, f)" rule: bindO.cases) auto

lemma mapO_map: "(\<And>x. x \<in> set xs \<Longrightarrow> f x = Some (Inr (g x))) \<Longrightarrow> mapO f xs = Some (Inr (map g xs))"
  by (induction xs) auto

lemma mapO_returns:
  assumes "\<And>x. x \<in> set xs \<Longrightarrow> \<exists>y. f x = Some (Inr y)"
  shows "\<exists>ys. mapO f xs = Some (Inr ys) \<and> list_all2 (\<lambda>x y. f x = Some (Inr y)) xs ys"
  using assms
proof (induction xs)
  case Nil
  then show ?case by simp
next
  case (Cons x xs)
  then obtain y ys where "f x = Some (Inr y)" "mapO f xs = Some (Inr ys)"
    "list_all2 (\<lambda>x y. f x = Some (Inr y)) xs ys"
    by (metis list.set_intros)
  then show ?case by (intro exI [of _ "y # ys"]) simp
qed

lemma mapO_list_all2: "mapO f xs = Some (Inr ys) \<Longrightarrow> list_all2 (\<lambda>x y. f x = Some (Inr y)) xs ys"
  by (induction xs arbitrary: ys) (auto simp: bindO_returns)

text \<open>Loops over such code, and loops that fill a dictionary.\<close>

fun foldO :: "('s \<Rightarrow> 'a \<Rightarrow> 's run) \<Rightarrow> 's \<Rightarrow> 'a list \<Rightarrow> 's run" where
  "foldO f s [] = Some (Inr s)"
| "foldO f s (x # xs) = bindO (f s x) (\<lambda>s'. foldO f s' xs)"

lemma bindO_assoc: "bindO (bindO m f) g = bindO m (\<lambda>x. bindO (f x) g)"
  by (cases "(m, f)" rule: bindO.cases) auto

lemma foldO_append: "foldO f s (xs @ ys) = bindO (foldO f s xs) (\<lambda>s'. foldO f s' ys)"
  by (induction xs arbitrary: s) (auto simp: bindO_assoc)

lemma foldO_total:
  assumes "P [] xs s"
    and "\<And>pre x todo s. xs = pre @ x # todo \<Longrightarrow> P pre (x # todo) s \<Longrightarrow>
      \<exists>s'. f s x = Some (Inr s') \<and> P (pre @ [x]) todo s'"
  shows "\<exists>s'. foldO f s xs = Some (Inr s') \<and> P xs [] s'"
proof -
  have "\<exists>s'. foldO f s todo = Some (Inr s') \<and> P xs [] s'" if "xs = pre @ todo" "P pre todo s" for pre todo s
    using that
  proof (induction todo arbitrary: pre s)
    case Nil
    then show ?case by simp
  next
    case (Cons x todo)
    from assms(2) [OF Cons.prems] obtain t where "f s x = Some (Inr t)" "P (pre @ [x]) todo t"
      by blast
    with Cons.IH [of "pre @ [x]" t] Cons.prems(1) show ?case by simp
  qed
  from this [of "[]" xs s] assms(1) show ?thesis by simp
qed

lemma foldR_build:
  assumes "distinct xs" and "\<And>x. x \<in> set xs \<Longrightarrow> g x = Inr (h x)"
  shows "\<exists>m'. foldR (\<lambda>m x. bindR (g x) (\<lambda>v. Inr (m(x \<mapsto> v)))) m xs = Inr m'
    \<and> (\<forall>x. m' x = (if x \<in> set xs then Some (h x) else m x))"
  using assms
proof (induction xs arbitrary: m)
  case Nil
  then show ?case by simp
next
  case (Cons x xs)
  from Cons.IH [of "m(x \<mapsto> h x)"] Cons.prems show ?case by auto
qed

definition raise_if :: "bool \<Rightarrow> py_error \<Rightarrow> unit res" where
  "raise_if b e = (if b then Inl e else Inr ())"

lemma raise_if_Inr [simp]: "raise_if b e = Inr u \<longleftrightarrow> \<not> b"
  by (simp add: raise_if_def)

definition nth_res :: "'a list \<Rightarrow> nat \<Rightarrow> 'a res" where
  "nth_res xs i = (if i < length xs then Inr (xs ! i) else Inl IndexError)"

lemma nth_res_Inr [simp]: "i < length xs \<Longrightarrow> nth_res xs i = Inr (xs ! i)"
  by (simp add: nth_res_def)

text \<open>\<open>xs[i:]\<close> and \<open>xs[:i]\<close>; a negative index counts from the end.\<close>

definition slice_index :: "'a list \<Rightarrow> int \<Rightarrow> nat" where
  "slice_index xs i = (if i < 0 then nat (int (length xs) + i) else nat i)"

definition slice_from :: "'a list \<Rightarrow> int \<Rightarrow> 'a list" where
  "slice_from xs i = drop (slice_index xs i) xs"

definition slice_to :: "'a list \<Rightarrow> int \<Rightarrow> 'a list" where
  "slice_to xs i = take (slice_index xs i) xs"

lemma slice_append: "slice_to xs i @ slice_from xs i = xs"
  by (simp add: slice_to_def slice_from_def)

lemma slice_nat [simp]: "slice_from xs (int n) = drop n xs" "slice_to xs (int n) = take n xs"
  by (simp_all add: slice_from_def slice_to_def slice_index_def)

definition get_key :: "('k \<times> 'v) list \<Rightarrow> 'k \<Rightarrow> py_error \<Rightarrow> 'v res" where
  "get_key m k e = (case map_of m k of None \<Rightarrow> Inl e | Some v \<Rightarrow> Inr v)"

lemma get_key_Inr [res_simps]: "get_key m k e = Inr v \<longleftrightarrow> map_of m k = Some v"
  by (auto simp: get_key_def split: option.splits)

text \<open>
  A dictionary is an association list with distinct keys; \<open>d[k] = v\<close> is \<open>put k v d\<close>.  The order
  of the list stands for the iteration order, which Python 2 leaves unspecified.
\<close>

abbreviation put :: "'k \<Rightarrow> 'v \<Rightarrow> ('k \<times> 'v) list \<Rightarrow> ('k \<times> 'v) list" where
  "put \<equiv> AList.update"

definition keys :: "('k \<times> 'v) list \<Rightarrow> 'k list" where
  "keys m = map fst m"

lemma map_of_put: "map_of (put k v m) = (map_of m)(k \<mapsto> v)"
  by (rule update_conv')

lemma distinct_keys_put: "distinct (keys m) \<Longrightarrow> distinct (keys (put k v m))"
  unfolding keys_def by (rule distinct_update)

lemma set_keys_put [simp]: "set (keys (put k v m)) = insert k (set (keys m))"
  by (induction m) (auto simp: keys_def split: if_splits)

lemma keys_map_of: "k \<in> set (keys m) \<longleftrightarrow> map_of m k \<noteq> None"
  by (auto simp: keys_def map_of_eq_None_iff)

lemma map_of_key_mem: "map_of m k = Some v \<Longrightarrow> k \<in> set (keys m)"
  by (simp add: keys_map_of)

lemma distinct_keys_map_of: "distinct (keys m) \<Longrightarrow> (k, v) \<in> set m \<longleftrightarrow> map_of m k = Some v"
  by (auto simp: keys_def)

lemma foldl_put_distinct: "distinct (keys (acc @ m)) \<Longrightarrow> foldl (\<lambda>d (k, v). put k v d) acc m = acc @ m"
proof (induction m arbitrary: acc)
  case (Cons e m)
  obtain k v where e: "e = (k, v)" by (cases e)
  have "k \<notin> set (keys acc)" using Cons.prems e by (auto simp: keys_def)
  then have "put k v acc = acc @ [(k, v)]" by (induction acc) (auto simp: keys_def)
  with Cons.IH [of "acc @ [(k, v)]"] Cons.prems e show ?case by simp
qed simp

text \<open>A sum in which one item counts.\<close>

lemma sum_list_single:
  fixes f :: "'a \<Rightarrow> 'b::comm_monoid_add"
  assumes "distinct xs" and "p \<in> set xs" and "\<And>q. q \<in> set xs \<Longrightarrow> q \<noteq> p \<Longrightarrow> f q = 0"
  shows "sum_list (map f xs) = f p"
  using assms
proof (induction xs)
  case (Cons x xs)
  show ?case
  proof (cases "x = p")
    case True
    with Cons.prems have "map f xs = map (\<lambda>_. 0) xs" by auto
    then have "sum_list (map f xs) = 0" by (simp only: sum_list_0)
    with True show ?thesis by simp
  next
    case False
    with Cons show ?thesis by auto
  qed
qed simp

text \<open>Python's \<open>xs.index(x)\<close>: the first position, or ValueError.\<close>

fun index_of :: "'a list \<Rightarrow> 'a \<Rightarrow> nat res" where
  "index_of [] a = Inl ValueError"
| "index_of (x # xs) a = (if x = a then Inr 0 else bindR (index_of xs a) (\<lambda>i. Inr (Suc i)))"

lemma index_of_Inr: "index_of xs a = Inr i \<Longrightarrow> i < length xs \<and> xs ! i = a"
  by (induction xs arbitrary: i) (auto simp: bindR_eq_Inr split: if_splits)

lemma index_of_total: "a \<in> set xs \<Longrightarrow> \<exists>i. index_of xs a = Inr i"
  by (induction xs) auto

lemma index_of_nth: "distinct xs \<Longrightarrow> i < length xs \<Longrightarrow> index_of xs (xs ! i) = Inr i"
  by (induction xs arbitrary: i) (auto simp: nth_Cons' split: if_splits)

section \<open>Python numbers\<close>

text \<open>
  The code mixes Python 2 integers and floats: a traffic count read from a file is an
  integer, a default activity is a float, and \<open>/\<close> floors only between two integers.
  A float is represented by the rational it denotes; rounding is not modelled.
\<close>

datatype pynum = PyInt int | PyFloat rat

fun num_val :: "pynum \<Rightarrow> rat" where
  "num_val (PyInt i) = of_int i"
| "num_val (PyFloat q) = q"

fun py_add :: "pynum \<Rightarrow> pynum \<Rightarrow> pynum" where
  "py_add (PyInt a) (PyInt b) = PyInt (a + b)"
| "py_add a b = PyFloat (num_val a + num_val b)"

fun py_mul :: "pynum \<Rightarrow> pynum \<Rightarrow> pynum" where
  "py_mul (PyInt a) (PyInt b) = PyInt (a * b)"
| "py_mul a b = PyFloat (num_val a * num_val b)"

fun py_div :: "pynum \<Rightarrow> pynum \<Rightarrow> pynum res" where
  "py_div (PyInt a) (PyInt b) = (if b = 0 then Inl ZeroDivisionError else Inr (PyInt (a div b)))"
| "py_div a b =
     (if num_val b = 0 then Inl ZeroDivisionError else Inr (PyFloat (num_val a / num_val b)))"

definition py_lt :: "pynum \<Rightarrow> pynum \<Rightarrow> bool" where
  "py_lt a b \<longleftrightarrow> num_val a < num_val b"

lemma num_val_add [num_simps]: "num_val (py_add a b) = num_val a + num_val b"
  by (cases a; cases b) auto

lemma num_val_mul [num_simps]: "num_val (py_mul a b) = num_val a * num_val b"
  by (cases a; cases b) auto

declare py_lt_def [num_simps]

section \<open>Ceiling logarithm and ceiling division\<close>

text \<open>
  \<open>int(math.ceil(math.log(n, 2)))\<close> for \<open>1 \<le> n\<close>.  The source computes it in floating point,
  which agrees with this exact value for every \<open>n < 2 ^ 29\<close>.
\<close>

fun clog2 :: "nat \<Rightarrow> nat" where
  "clog2 n = (if n \<le> 1 then 0 else Suc (clog2 ((n + 1) div 2)))"

declare clog2.simps [simp del]

lemma clog2_small [simp]: "clog2 0 = 0" "clog2 (Suc 0) = 0" "clog2 1 = 0"
  by (simp_all add: clog2.simps)

lemma clog2_le_iff: "clog2 n \<le> k \<longleftrightarrow> n \<le> 2 ^ k"
proof (induction n arbitrary: k rule: clog2.induct)
  case (1 n)
  show ?case
  proof (cases "n \<le> 1")
    case True
    then have "n \<le> 2 ^ k"
      using one_le_power [of "2::nat" k] by linarith
    with True show ?thesis by (simp add: clog2.simps)
  next
    case False
    note IH = "1" [OF False]
    show ?thesis
    proof (cases k)
      case 0
      with False show ?thesis by (simp add: clog2.simps)
    next
      case (Suc j)
      have "clog2 n \<le> k \<longleftrightarrow> clog2 ((n + 1) div 2) \<le> j"
        using False Suc by (simp add: clog2.simps [of n])
      also have "\<dots> \<longleftrightarrow> (n + 1) div 2 \<le> 2 ^ j"
        by (rule IH)
      also have "\<dots> \<longleftrightarrow> n \<le> 2 ^ k"
        using Suc by auto
      finally show ?thesis .
    qed
  qed
qed

lemma le_pow_clog2: "n \<le> 2 ^ clog2 n"
  using clog2_le_iff [of n "clog2 n"] by simp

lemma clog2_mono: "m \<le> n \<Longrightarrow> clog2 m \<le> clog2 n"
  using clog2_le_iff le_pow_clog2 le_trans by blast

lemma clog2_tight:
  assumes "1 < n"
  shows "2 ^ (clog2 n - 1) < n"
proof -
  have "clog2 n \<noteq> 0"
    using assms by (simp add: clog2.simps)
  then have "\<not> clog2 n \<le> clog2 n - 1"
    by simp
  then show ?thesis
    by (simp add: clog2_le_iff del: not_le)
qed

lemma clog2_le_half: "clog2 (Suc n) \<le> n div 2 + 1"
proof -
  have "Suc n \<le> 2 * 2 ^ (n div 2)"
  proof -
    have "Suc (n div 2) \<le> 2 ^ (n div 2)"
      by (simp add: Suc_leI)
    then show ?thesis by linarith
  qed
  then show ?thesis by (simp add: clog2_le_iff)
qed

text \<open>\<open>math.ceil(float(a) / b)\<close> for integers \<open>a\<close>, \<open>b\<close> with \<open>b\<close> not zero.\<close>

definition cdiv :: "int \<Rightarrow> int \<Rightarrow> int" where
  "cdiv a b = - ((- a) div b)"

lemma le_div_iff_mult_le:
  fixes a b c :: int
  assumes "0 < b"
  shows "c \<le> a div b \<longleftrightarrow> c * b \<le> a"
proof
  assume "c \<le> a div b"
  then have "c * b \<le> (a div b) * b"
    using assms by (simp add: mult_right_mono)
  also have "\<dots> \<le> a"
    using assms by (metis div_mod_decomp_int mult.commute pos_mod_sign le_add_same_cancel1)
  finally show "c * b \<le> a" .
next
  assume "c * b \<le> a"
  then have "(c * b) div b \<le> a div b"
    using assms by (rule zdiv_mono1)
  then show "c \<le> a div b"
    using assms by simp
qed

lemma cdiv_le_iff: "0 < b \<Longrightarrow> cdiv a b \<le> c \<longleftrightarrow> a \<le> c * b"
  using le_div_iff_mult_le [of b "- c" "- a"] by (simp add: cdiv_def) linarith

lemma cdiv_mono: "0 < b \<Longrightarrow> a \<le> a' \<Longrightarrow> cdiv a b \<le> cdiv a' b"
  by (simp add: cdiv_def zdiv_mono1)

lemma cdiv_nonneg: "0 < b \<Longrightarrow> 0 \<le> a \<Longrightarrow> 0 \<le> cdiv a b"
  using cdiv_mono [of b 0 a] by (simp add: cdiv_def)

lemma cdiv_pos: "0 < b \<Longrightarrow> 0 < a \<Longrightarrow> 0 < cdiv a b"
  using cdiv_le_iff [of b a 0] by linarith

lemma cdiv_le_self: "0 < b \<Longrightarrow> 0 \<le> a \<Longrightarrow> cdiv a b \<le> a"
  by (simp add: cdiv_le_iff mult_le_cancel_left1)

section \<open>Decimal rendering\<close>

text \<open>\<open>str(n)\<close> for the integers that the generated text contains.\<close>

definition digit_char :: "nat \<Rightarrow> char" where
  "digit_char d = char_of (48 + d)"

fun str_of_nat :: "nat \<Rightarrow> string" where
  "str_of_nat n =
     (if n < 10 then [digit_char n] else str_of_nat (n div 10) @ [digit_char (n mod 10)])"

declare str_of_nat.simps [simp del]

definition str_of_int :: "int \<Rightarrow> string" where
  "str_of_int i = (if i < 0 then ''-'' @ str_of_nat (nat (- i)) else str_of_nat (nat i))"

text \<open>The number a string of decimal digits denotes.\<close>

definition is_digit :: "char \<Rightarrow> bool" where
  "is_digit c \<longleftrightarrow> 48 \<le> (of_char c :: nat) \<and> (of_char c :: nat) \<le> 57"

definition nat_of_str :: "string \<Rightarrow> nat" where
  "nat_of_str s = foldl (\<lambda>n c. 10 * n + (of_char c - 48)) 0 s"

lemma of_char_digit [simp]: "d < 10 \<Longrightarrow> of_char (digit_char d) = 48 + d"
  by (simp add: digit_char_def)

lemma is_digit_digit_char [simp]: "d < 10 \<Longrightarrow> is_digit (digit_char d)"
  by (simp add: is_digit_def)

lemma str_of_nat_digits: "\<forall>c \<in> set (str_of_nat n). is_digit c"
proof (induction n rule: str_of_nat.induct)
  case (1 n)
  then show ?case
    by (cases "n < 10") (simp_all add: str_of_nat.simps [of n])
qed

lemma str_of_nat_not_Nil [simp]: "str_of_nat n \<noteq> []"
  by (subst str_of_nat.simps) simp

lemma nat_of_str_of_nat [simp]: "nat_of_str (str_of_nat n) = n"
proof (induction n rule: str_of_nat.induct)
  case (1 n)
  then show ?case
    by (cases "n < 10") (simp_all add: str_of_nat.simps [of n] nat_of_str_def)
qed

lemma str_of_nat_inj: "str_of_nat m = str_of_nat n \<longleftrightarrow> m = n"
  by (metis nat_of_str_of_nat)

text \<open>\<open>s.replace(c, t)\<close> for a one-character \<open>c\<close>, and for the two-character arrow.\<close>

definition replace_char :: "char \<Rightarrow> string \<Rightarrow> string \<Rightarrow> string" where
  "replace_char c t s = concat (map (\<lambda>x. if x = c then t else [x]) s)"

fun replace_pair :: "char \<Rightarrow> char \<Rightarrow> string \<Rightarrow> string \<Rightarrow> string" where
  "replace_pair a b t [] = []"
| "replace_pair a b t [x] = [x]"
| "replace_pair a b t (x # y # s) =
     (if x = a \<and> y = b then t @ replace_pair a b t s else x # replace_pair a b t (y # s))"

lemma replace_char_removes: "c \<notin> set t \<Longrightarrow> c \<notin> set (replace_char c t s)"
  by (auto simp: replace_char_def)

section \<open>Sorting\<close>

text \<open>
  Python's \<open>sorted(xs, key=k)\<close> is a stable sort, as \<open>sort_key\<close> is; with \<open>reverse=True\<close> it
  orders by descending key and still keeps the order of equal elements.
\<close>

definition sort_desc :: "('a \<Rightarrow> 'k::linorder) \<Rightarrow> 'a list \<Rightarrow> 'a list" where
  "sort_desc k xs = rev (sort_key k (rev xs))"

lemma set_sort_desc [simp]: "set (sort_desc k xs) = set xs"
  by (simp add: sort_desc_def)

lemma length_sort_desc [simp]: "length (sort_desc k xs) = length xs"
  by (simp add: sort_desc_def)

lemma mset_sort_desc [simp]: "mset (sort_desc k xs) = mset xs"
  by (simp add: sort_desc_def)

lemma sorted_sort_desc: "sorted (rev (map k (sort_desc k xs)))"
  by (simp add: sort_desc_def rev_map)

lemma distinct_sort_desc [simp]: "distinct (sort_desc k xs) = distinct xs"
  by (simp add: sort_desc_def)

end
