(* ===== verification/UmfType.thy ===== *)
theory UmfType
  imports Prelude
begin

text \<open>
  \<^verbatim>\<open>lim_connect/common/umfType.py\<close>: the packet header layout of one via.
  \<open>umf_type\<close> is the class, \<open>mk_umf\<close> its constructor with the check that the fields add up,
  and \<open>generateRouterTypes\<close> the sizing of a header by iteration to a fixed point.  The loop is
  a partial function: \<open>None\<close> would be a loop that never stops, \<open>Inl\<close> an exception.  The lemmas
  show that it stops for every positive via width and that what it returns can address the links
  and count the chunks.
\<close>

section \<open>The class\<close>

record umf_type =
  channelIDBits :: int
  serviceIDBits :: int
  methodIDBits :: int
  msgLengthBits :: int
  phyChannelReservedBits :: int
  fillerBits :: int
  totalBits :: int

definition mk_umf :: "int \<Rightarrow> int \<Rightarrow> int \<Rightarrow> int \<Rightarrow> int \<Rightarrow> int \<Rightarrow> int \<Rightarrow> umf_type res" where
  "mk_umf chan serv meth len phy fill tot =
     (if tot \<noteq> chan + serv + meth + len + phy + fill then Inl (SystemExit 1)
      else Inr \<lparr>channelIDBits = chan, serviceIDBits = serv, methodIDBits = meth,
                msgLengthBits = len, phyChannelReservedBits = phy, fillerBits = fill,
                totalBits = tot\<rparr>)"

definition umf_header_sum :: "umf_type \<Rightarrow> int" where
  "umf_header_sum t = channelIDBits t + serviceIDBits t + methodIDBits t + msgLengthBits t
     + phyChannelReservedBits t + fillerBits t"

subsection \<open>Rendering as Bluespec and C++ types\<close>

definition headerTypeBSV :: "umf_type \<Rightarrow> string" where
  "headerTypeBSV t =
     ''GENERIC_UMF_PACKET_HEADER#(\<newline>'' @
     ''             '' @ str_of_int (channelIDBits t) @ '', '' @ str_of_int (serviceIDBits t) @
       '',//Log links\<newline>'' @
     ''             '' @ str_of_int (methodIDBits t) @ '', '' @ str_of_int (msgLengthBits t) @
       '',//Log chunks\<newline>'' @
     ''             '' @ str_of_int (phyChannelReservedBits t) @ '', '' @
       str_of_int (fillerBits t) @ '')//filler width\<newline>''"

definition bodyTypeBSV :: "umf_type \<Rightarrow> string" where
  "bodyTypeBSV t = ''Bit#('' @ str_of_int (totalBits t) @ '')''"

definition typeBSV :: "umf_type \<Rightarrow> string" where
  "typeBSV t = ''GENERIC_UMF_PACKET#('' @ headerTypeBSV t @ '', '' @ bodyTypeBSV t @ '')''"

definition typeCPP :: "umf_type \<Rightarrow> string" where
  "typeCPP t =
     ''UMF_MESSAGE_TEMPLATE_CLASS<'' @ str_of_int (channelIDBits t) @ '','' @
     str_of_int (serviceIDBits t) @ '','' @ str_of_int (methodIDBits t) @ '','' @
     str_of_int (msgLengthBits t) @ ''>''"

definition factoryClassNameCPP :: "string \<Rightarrow> string" where
  "factoryClassNameCPP target =
     (let m1 = replace_pair (CHR ''-'') (CHR ''>'') ''_arrow_'' target;
          m2 = replace_char (CHR ''('') ''_lparen_'' m1;
          m3 = replace_char (CHR '')'') ''_rparen_'' m2
      in ''UMF_FACTORY_'' @ m3 @ ''_CLASS'')"

definition factoryClassCPP :: "umf_type \<Rightarrow> string \<Rightarrow> string" where
  "factoryClassCPP t target =
     ''class '' @ factoryClassNameCPP target @ '': public UMF_FACTORY_CLASS {\<newline>'' @
     [CHR 0x09] @ ''public:\<newline>'' @
     [CHR 0x09] @ ''UMF_MESSAGE createUMFMessage() {\<newline>'' @
     [CHR 0x09, CHR 0x09] @ ''return new '' @ typeCPP t @ ''();\<newline>'' @
     [CHR 0x09] @ ''}\<newline>'' @
     ''};\<newline>''"

section \<open>Sizing a header\<close>

text \<open>The build parameters the function reads through \<open>moduleList.getAWBParam\<close>.\<close>

record umf_awb =
  ENABLE_AGRESSIVE_UMF_PARAMETERS :: bool
  USE_DEFAULT_UMF_PARAMETERS :: bool
  UMF_PHY_CHANNEL_RESERVED_BITS :: int
  UMF_CHANNEL_ID_BITS :: int
  UMF_SERVICE_ID_BITS :: int
  UMF_METHOD_ID_BITS :: int
  UMF_MSG_LENGTH_BITS :: int

definition link_bits :: "int \<Rightarrow> int" where
  "link_bits viaLinks = (if viaLinks > 0 then max 1 (int (clog2 (nat viaLinks))) else 1)"

definition chunk_count :: "bool \<Rightarrow> int \<Rightarrow> int \<Rightarrow> int \<Rightarrow> int res" where
  "chunk_count aggr viaWidth maxWidth fillerWidth =
     (if viaWidth = 0 then Inl ZeroDivisionError
      else let c = 1 + cdiv (max 0 (maxWidth - fillerWidth)) viaWidth
           in if c \<le> 0 then Inl ValueError
              else Inr ((if aggr then 0 else 1) + max 1 (int (clog2 (nat c)))))"

partial_function (option) router_loop ::
  "bool \<Rightarrow> int \<Rightarrow> int \<Rightarrow> int \<Rightarrow> int \<Rightarrow> int \<Rightarrow> int \<Rightarrow> int \<Rightarrow> (int \<times> int \<times> int) res option" where
  "router_loop aggr viaWidth links maxWidth fillerWidth fillerWidthNext chunks methodDummy =
     (if fillerWidth = fillerWidthNext then Some (Inr (fillerWidthNext, chunks, methodDummy))
      else (case chunk_count aggr viaWidth maxWidth fillerWidthNext of
              Inl e \<Rightarrow> Some (Inl e)
            | Inr c \<Rightarrow>
                (let dummy = (if aggr then methodDummy else max 0 (10 - c))
                 in router_loop aggr viaWidth links maxWidth fillerWidthNext
                      (viaWidth - links - c - dummy) c dummy)))"

definition generateRouterTypes ::
  "umf_awb \<Rightarrow> int \<Rightarrow> int \<Rightarrow> int \<Rightarrow> bool option \<Rightarrow> bool option \<Rightarrow> umf_type res option" where
  "generateRouterTypes awb viaWidth viaLinks maxWidth aggrArg defaultArg =
     (let aggr = (case aggrArg of None \<Rightarrow> ENABLE_AGRESSIVE_UMF_PARAMETERS awb | Some b \<Rightarrow> b);
          useDefault = (case defaultArg of None \<Rightarrow> USE_DEFAULT_UMF_PARAMETERS awb | Some b \<Rightarrow> b)
      in if useDefault then
           (let fillerWidth = viaWidth - UMF_PHY_CHANNEL_RESERVED_BITS awb
                  - UMF_CHANNEL_ID_BITS awb - UMF_SERVICE_ID_BITS awb
                  - UMF_METHOD_ID_BITS awb - UMF_MSG_LENGTH_BITS awb
            in Some (mk_umf (UMF_CHANNEL_ID_BITS awb) (UMF_SERVICE_ID_BITS awb)
                 (UMF_METHOD_ID_BITS awb) (UMF_MSG_LENGTH_BITS awb)
                 (UMF_PHY_CHANNEL_RESERVED_BITS awb) fillerWidth viaWidth))
         else
           (let links = link_bits viaLinks
            in map_option
                 (\<lambda>r. bindR r (\<lambda>(filler, chunks, methodDummy).
                    mk_umf 0 links methodDummy chunks 0 filler viaWidth))
                 (router_loop aggr viaWidth links maxWidth (-1) 0 (-1) 0)))"

section \<open>The loop stops\<close>

text \<open>
  One iteration as a function of the filler width it starts from.  It is monotone: a wider
  filler leaves less to carry in extra chunks, so the header shrinks.  Iterating a monotone
  function on the integers moves in one direction only, upwards (bounded by the via width) or
  downwards (bounded because the chunk field grows logarithmically).
\<close>

definition chunk_field :: "bool \<Rightarrow> int \<Rightarrow> int \<Rightarrow> int \<Rightarrow> int" where
  "chunk_field aggr W M fw =
     (if aggr then 0 else 1) + max 1 (int (clog2 (nat (1 + cdiv (max 0 (M - fw)) W))))"

definition dummy_field :: "bool \<Rightarrow> int \<Rightarrow> int" where
  "dummy_field aggr c = (if aggr then 0 else max 0 (10 - c))"

definition next_filler :: "bool \<Rightarrow> int \<Rightarrow> int \<Rightarrow> int \<Rightarrow> int \<Rightarrow> int" where
  "next_filler aggr W l M fw =
     W - l - chunk_field aggr W M fw - dummy_field aggr (chunk_field aggr W M fw)"

lemma chunk_count_Inr:
  "0 < W \<Longrightarrow> chunk_count aggr W M fw = Inr (chunk_field aggr W M fw)"
  using cdiv_nonneg [of W "max 0 (M - fw)"]
  by (simp add: chunk_count_def chunk_field_def Let_def)

lemma chunk_field_antimono:
  assumes "0 < W" and "fw \<le> fw'"
  shows "chunk_field aggr W M fw' \<le> chunk_field aggr W M fw"
proof -
  have "cdiv (max 0 (M - fw')) W \<le> cdiv (max 0 (M - fw)) W"
    using assms by (intro cdiv_mono) auto
  then have "clog2 (nat (1 + cdiv (max 0 (M - fw')) W))
      \<le> clog2 (nat (1 + cdiv (max 0 (M - fw)) W))"
    by (intro clog2_mono) auto
  then show ?thesis
    by (simp add: chunk_field_def max_def)
qed

lemma chunk_field_pos: "1 \<le> chunk_field aggr W M fw"
  by (auto simp: chunk_field_def)

lemma chunk_field_linear:
  assumes "0 < W"
  shows "chunk_field aggr W M fw \<le> max 0 (M - fw) div 2 + 2"
proof -
  define y where "y = cdiv (max 0 (M - fw)) W"
  have y: "0 \<le> y" "y \<le> max 0 (M - fw)"
    using assms by (simp_all add: y_def cdiv_nonneg cdiv_le_self)
  have "nat (1 + y) = Suc (nat y)"
    using y by simp
  then have "int (clog2 (nat (1 + y))) \<le> int (nat y div 2 + 1)"
    using clog2_le_half [of "nat y"] by simp
  also have "\<dots> = y div 2 + 1"
    using y by (simp add: zdiv_int)
  also have "\<dots> \<le> max 0 (M - fw) div 2 + 1"
    using y by (simp add: zdiv_mono1)
  finally show ?thesis
    using y by (auto simp: chunk_field_def y_def [symmetric])
qed

lemma chunk_field_enough:
  assumes "0 < W"
  shows "1 + cdiv (max 0 (M - fw)) W \<le> 2 ^ nat (chunk_field aggr W M fw)"
proof -
  define c where "c = nat (1 + cdiv (max 0 (M - fw)) W)"
  have "c \<le> 2 ^ clog2 c"
    by (rule le_pow_clog2)
  also have "\<dots> \<le> (2::nat) ^ nat (chunk_field aggr W M fw)"
    by (intro power_increasing) (auto simp: chunk_field_def c_def)
  finally have "int c \<le> 2 ^ nat (chunk_field aggr W M fw)"
    using of_nat_mono by fastforce
  moreover have "int c = 1 + cdiv (max 0 (M - fw)) W"
    using cdiv_nonneg [OF assms, of "max 0 (M - fw)"] by (simp add: c_def)
  ultimately show ?thesis by simp
qed

lemma next_filler_mono:
  assumes "0 < W" and "fw \<le> fw'"
  shows "next_filler aggr W l M fw \<le> next_filler aggr W l M fw'"
  using chunk_field_antimono [OF assms, of aggr M]
  by (auto simp: next_filler_def dummy_field_def)

lemma next_filler_upper: "next_filler aggr W l M fw < W - l"
  using chunk_field_pos [of aggr W M fw] by (auto simp: next_filler_def dummy_field_def)

definition filler_floor :: "int \<Rightarrow> int \<Rightarrow> int" where
  "filler_floor l M = - (2 * l + 24 + max 0 M)"

lemma next_filler_floor:
  assumes "0 < W" and "0 \<le> l"
  shows "filler_floor l M \<le> next_filler aggr W l M (filler_floor l M)"
proof -
  define L where "L = filler_floor l M"
  have "chunk_field aggr W M L \<le> max 0 (M - L) div 2 + 2"
    by (rule chunk_field_linear [OF assms(1)])
  moreover have "max 0 (M - L) div 2 \<le> max 0 M + l + 12"
    using assms(2) by (simp add: L_def filler_floor_def)
  moreover have "max 0 (M - L) \<le> 2 * l + 24 + 2 * max 0 M"
    using assms(2) by (simp add: L_def filler_floor_def)
  moreover have "dummy_field aggr (chunk_field aggr W M L) + chunk_field aggr W M L
      \<le> chunk_field aggr W M L + 9"
    using chunk_field_pos [of aggr W M L] by (auto simp: dummy_field_def)
  ultimately show ?thesis
    using assms unfolding L_def [symmetric] next_filler_def
    by (simp add: L_def filler_floor_def)
qed

lemma router_loop_unfold:
  assumes "0 < W" and "aggr \<Longrightarrow> dummy = 0" and "fw \<noteq> nx"
  shows "router_loop aggr W l M fw nx chunks dummy =
    router_loop aggr W l M nx (next_filler aggr W l M nx) (chunk_field aggr W M nx)
      (dummy_field aggr (chunk_field aggr W M nx))"
  using assms
  by (subst router_loop.simps)
    (auto simp: chunk_count_Inr Let_def next_filler_def dummy_field_def)

text \<open>What the loop returns: the fixed point reached, and the fields computed from it.\<close>

definition router_fixpoint :: "bool \<Rightarrow> int \<Rightarrow> int \<Rightarrow> int \<Rightarrow> int \<Rightarrow> bool" where
  "router_fixpoint aggr W l M fw \<longleftrightarrow> next_filler aggr W l M fw = fw"

definition router_result :: "bool \<Rightarrow> int \<Rightarrow> int \<Rightarrow> int \<Rightarrow> (int \<times> int \<times> int) res option" where
  "router_result aggr W M fw =
     Some (Inr (fw, chunk_field aggr W M fw, dummy_field aggr (chunk_field aggr W M fw)))"

lemma router_loop_up:
  assumes "0 < W" and "nx \<le> next_filler aggr W l M nx"
  shows "\<exists>fw\<ge>nx. router_fixpoint aggr W l M fw \<and>
    router_loop aggr W l M nx (next_filler aggr W l M nx) (chunk_field aggr W M nx)
      (dummy_field aggr (chunk_field aggr W M nx)) = router_result aggr W M fw"
  using assms(2)
proof (induction "nat (W - l - nx)" arbitrary: nx rule: less_induct)
  case less
  let ?g = "next_filler aggr W l M"
  show ?case
  proof (cases "?g nx = nx")
    case True
    then show ?thesis
      by (intro exI [of _ nx]) (simp add: router_fixpoint_def router_loop.simps router_result_def)
  next
    case False
    then have lt: "nx < ?g nx" using less.prems by simp
    have "?g nx \<le> ?g (?g nx)"
      using next_filler_mono [OF assms(1)] lt by simp
    moreover have "nat (W - l - ?g nx) < nat (W - l - nx)"
      using lt next_filler_upper [of aggr W l M nx] by simp
    ultimately obtain fw where "?g nx \<le> fw" "router_fixpoint aggr W l M fw"
      "router_loop aggr W l M (?g nx) (?g (?g nx)) (chunk_field aggr W M (?g nx))
        (dummy_field aggr (chunk_field aggr W M (?g nx))) = router_result aggr W M fw"
      using less.hyps by blast
    then show ?thesis
      using lt assms(1)
      by (intro exI [of _ fw]) (simp add: router_loop_unfold dummy_field_def)
  qed
qed

lemma router_loop_down:
  assumes "0 < W" and "0 \<le> l" and "next_filler aggr W l M nx \<le> nx" and "filler_floor l M \<le> nx"
  shows "\<exists>fw\<ge>filler_floor l M. router_fixpoint aggr W l M fw \<and>
    router_loop aggr W l M nx (next_filler aggr W l M nx) (chunk_field aggr W M nx)
      (dummy_field aggr (chunk_field aggr W M nx)) = router_result aggr W M fw"
  using assms(3,4)
proof (induction "nat (nx - filler_floor l M)" arbitrary: nx rule: less_induct)
  case less
  let ?g = "next_filler aggr W l M" and ?L = "filler_floor l M"
  show ?case
  proof (cases "?g nx = nx")
    case True
    then show ?thesis
      using less.prems
      by (intro exI [of _ nx]) (simp add: router_fixpoint_def router_loop.simps router_result_def)
  next
    case False
    then have lt: "?g nx < nx" using less.prems by simp
    have "?L \<le> ?g ?L"
      by (rule next_filler_floor [OF assms(1,2)])
    also have "\<dots> \<le> ?g nx"
      using next_filler_mono [OF assms(1)] less.prems(2) by simp
    finally have L: "?L \<le> ?g nx" .
    have "?g (?g nx) \<le> ?g nx"
      using next_filler_mono [OF assms(1)] lt by simp
    moreover have "nat (?g nx - ?L) < nat (nx - ?L)"
      using lt L by simp
    ultimately obtain fw where "?L \<le> fw" "router_fixpoint aggr W l M fw"
      "router_loop aggr W l M (?g nx) (?g (?g nx)) (chunk_field aggr W M (?g nx))
        (dummy_field aggr (chunk_field aggr W M (?g nx))) = router_result aggr W M fw"
      using less.hyps L by blast
    then show ?thesis
      using lt assms(1)
      by (intro exI [of _ fw]) (simp add: router_loop_unfold dummy_field_def)
  qed
qed

lemma router_loop_returns:
  assumes "0 < W" and "0 \<le> l"
  shows "\<exists>fw\<ge>filler_floor l M. router_fixpoint aggr W l M fw \<and>
    router_loop aggr W l M (-1) 0 (-1) 0 = router_result aggr W M fw"
proof -
  have start: "router_loop aggr W l M (-1) 0 (-1) 0 =
      router_loop aggr W l M 0 (next_filler aggr W l M 0) (chunk_field aggr W M 0)
        (dummy_field aggr (chunk_field aggr W M 0))"
    using assms(1) by (simp add: router_loop_unfold)
  have L: "filler_floor l M \<le> 0"
    using assms(2) by (simp add: filler_floor_def)
  show ?thesis
  proof (cases "0 \<le> next_filler aggr W l M 0")
    case True
    from router_loop_up [OF assms(1) True] show ?thesis
      unfolding start using L by (meson order_trans)
  next
    case False
    then have "next_filler aggr W l M 0 \<le> 0" by simp
    from router_loop_down [OF assms this L] show ?thesis
      unfolding start .
  qed
qed

lemma link_bits_pos: "1 \<le> link_bits n"
  by (simp add: link_bits_def)

lemma link_bits_enough: "n \<le> 2 ^ nat (link_bits n)"
proof (cases "0 < n")
  case True
  have "nat n \<le> 2 ^ clog2 (nat n)"
    by (rule le_pow_clog2)
  also have "\<dots> \<le> (2::nat) ^ nat (link_bits n)"
    using True by (intro power_increasing) (auto simp: link_bits_def max_def)
  finally show ?thesis
    using True by (simp add: nat_le_iff)
next
  case False
  then show ?thesis
    by (meson dual_order.trans not_le zero_le_numeral zero_le_power less_imp_le)
qed

lemma link_bits_le: "0 \<le> n \<Longrightarrow> link_bits n \<le> n + 1"
proof -
  assume "0 \<le> n"
  have "clog2 (nat n) \<le> nat n"
    by (simp add: clog2_le_iff less_imp_le [OF less_exp])
  then show ?thesis
    using \<open>0 \<le> n\<close> by (auto simp: link_bits_def)
qed

text \<open>The header of a sized via: everything in front of the filler.\<close>

definition header_size :: "umf_type \<Rightarrow> int" where
  "header_size t = totalBits t - fillerBits t"

lemma generateRouterTypes_sized:
  fixes aggr dflt :: "bool option" and W n M :: int
  assumes "0 < W" and "\<not> (case dflt of None \<Rightarrow> USE_DEFAULT_UMF_PARAMETERS awb | Some b \<Rightarrow> b)"
  defines "ag \<equiv> (case aggr of None \<Rightarrow> ENABLE_AGRESSIVE_UMF_PARAMETERS awb | Some b \<Rightarrow> b)"
    and "l \<equiv> link_bits n"
  shows "\<exists>fw\<ge>filler_floor l M. router_fixpoint ag W l M fw \<and>
    generateRouterTypes awb W n M aggr dflt =
      Some (Inr \<lparr>channelIDBits = 0, serviceIDBits = l,
        methodIDBits = dummy_field ag (chunk_field ag W M fw),
        msgLengthBits = chunk_field ag W M fw, phyChannelReservedBits = 0, fillerBits = fw,
        totalBits = W\<rparr>)"
proof -
  have "0 \<le> l"
    using link_bits_pos [of n] by (simp add: l_def)
  from router_loop_returns [OF assms(1) this, of M ag] obtain fw where
    fw: "filler_floor l M \<le> fw" "router_fixpoint ag W l M fw"
      "router_loop ag W l M (-1) 0 (-1) 0 = router_result ag W M fw"
    by blast
  have "W = l + dummy_field ag (chunk_field ag W M fw) + chunk_field ag W M fw + fw"
    using fw(2) by (simp add: router_fixpoint_def next_filler_def)
  with fw assms(2) show ?thesis
    by (intro exI [of _ fw])
      (simp add: generateRouterTypes_def ag_def [symmetric] l_def [symmetric] router_result_def
        mk_umf_def)
qed

lemma generateRouterTypes_total:
  assumes "0 < viaWidth"
  shows "\<exists>t. generateRouterTypes awb viaWidth viaLinks maxWidth aggr dflt = Some (Inr t)"
proof (cases "case dflt of None \<Rightarrow> USE_DEFAULT_UMF_PARAMETERS awb | Some b \<Rightarrow> b")
  case True
  then show ?thesis
    by (simp add: generateRouterTypes_def mk_umf_def Let_def)
next
  case False
  from generateRouterTypes_sized [OF assms this] show ?thesis by blast
qed

section \<open>Properties\<close>

definition dense_awb :: umf_awb where
  "dense_awb = \<lparr>ENABLE_AGRESSIVE_UMF_PARAMETERS = False, USE_DEFAULT_UMF_PARAMETERS = False,
     UMF_PHY_CHANNEL_RESERVED_BITS = 96, UMF_CHANNEL_ID_BITS = 4, UMF_SERVICE_ID_BITS = 8,
     UMF_METHOD_ID_BITS = 4, UMF_MSG_LENGTH_BITS = 10\<rparr>"

text \<open>
  Header sizing always returns a header type: for every positive via width, any number of
  links, any message width and either parameter setting, the fixed-point loop of
  \<open>generateRouterTypes\<close> stops, no arithmetic error is raised, and the constructor's check that
  the fields add up to the via width passes.
\<close>

theorem generateRouterTypes_returns:
  assumes "0 < viaWidth"
  shows "\<exists>t. generateRouterTypes awb viaWidth viaLinks maxWidth aggr dflt = Some (Inr t)"
  by (rule generateRouterTypes_total [OF assms])

theorem generateRouterTypes_returns_witness:
  "\<exists>t. generateRouterTypes dense_awb 64 10 200 None None = Some (Inr t)"
  by (rule generateRouterTypes_returns) simp

text \<open>
  C27: The sized header does its job: its fields add up to the via width, the service field can
  name every link of the via, the length field can count the chunks of the widest message, and
  without aggressive sizing the method and length fields together have at least ten bits, the
  width the RRR packets need.
\<close>

theorem generateRouterTypes_header:
  assumes "0 < viaWidth" and "\<not> USE_DEFAULT_UMF_PARAMETERS awb"
    and "generateRouterTypes awb viaWidth viaLinks maxWidth None None = Some (Inr t)"
  shows "umf_header_sum t = viaWidth \<and> totalBits t = viaWidth
    \<and> viaLinks \<le> 2 ^ nat (serviceIDBits t)
    \<and> 1 + cdiv (max 0 (maxWidth - fillerBits t)) viaWidth \<le> 2 ^ nat (msgLengthBits t)
    \<and> (\<not> ENABLE_AGRESSIVE_UMF_PARAMETERS awb \<longrightarrow> 10 \<le> methodIDBits t + msgLengthBits t)"
proof -
  let ?ag = "ENABLE_AGRESSIVE_UMF_PARAMETERS awb"
  obtain fw where fp: "router_fixpoint ?ag viaWidth (link_bits viaLinks) maxWidth fw"
    and t: "t = \<lparr>channelIDBits = 0, serviceIDBits = link_bits viaLinks,
        methodIDBits = dummy_field ?ag (chunk_field ?ag viaWidth maxWidth fw),
        msgLengthBits = chunk_field ?ag viaWidth maxWidth fw, phyChannelReservedBits = 0,
        fillerBits = fw, totalBits = viaWidth\<rparr>"
    using generateRouterTypes_sized
      [where W = viaWidth and dflt = None and awb = awb and aggr = None and M = maxWidth and n = viaLinks] assms by auto
  have "1 + cdiv (max 0 (maxWidth - fw)) viaWidth
      \<le> 2 ^ nat (chunk_field ?ag viaWidth maxWidth fw)"
    by (rule chunk_field_enough [OF assms(1)])
  with fp link_bits_enough [of viaLinks] show ?thesis
    by (auto simp: t umf_header_sum_def router_fixpoint_def next_filler_def dummy_field_def)
qed

theorem generateRouterTypes_header_witness:
  "\<exists>t. generateRouterTypes dense_awb 64 10 200 None None = Some (Inr t)
    \<and> (10::int) \<le> 2 ^ nat (serviceIDBits t)
    \<and> 1 + cdiv (max 0 (200 - fillerBits t)) 64 \<le> 2 ^ nat (msgLengthBits t)"
proof -
  obtain t where t: "generateRouterTypes dense_awb 64 10 200 None None = Some (Inr t)"
    using generateRouterTypes_sized
      [where W = 64 and dflt = None and awb = dense_awb and aggr = None and M = 200 and n = 10]
    by (auto simp: dense_awb_def)
  show ?thesis
    using generateRouterTypes_header [OF _ _ t] t by (auto simp: dense_awb_def)
qed

text \<open>
  A via narrower than eleven bits gets a header with a negative filler width: without
  aggressive sizing the link field takes at least one bit and the method and length fields at
  least ten, whatever the via has.
\<close>

theorem generateRouterTypes_narrow:
  assumes "0 < viaWidth" and "viaWidth < 11" and "\<not> USE_DEFAULT_UMF_PARAMETERS awb"
    and "\<not> ENABLE_AGRESSIVE_UMF_PARAMETERS awb"
    and "generateRouterTypes awb viaWidth viaLinks maxWidth None None = Some (Inr t)"
  shows "fillerBits t < 0"
proof -
  obtain fw where fp: "router_fixpoint False viaWidth (link_bits viaLinks) maxWidth fw"
    and t: "fillerBits t = fw"
    using generateRouterTypes_sized
      [where W = viaWidth and dflt = None and awb = awb and aggr = None and M = maxWidth and n = viaLinks] assms by auto
  show ?thesis
    using fp assms(2) link_bits_pos [of viaLinks]
    by (auto simp: t router_fixpoint_def next_filler_def dummy_field_def)
qed

theorem generateRouterTypes_narrow_witness:
  "\<exists>t. generateRouterTypes dense_awb 8 1 4 None None = Some (Inr t) \<and> fillerBits t < 0"
proof -
  obtain t where t: "generateRouterTypes dense_awb 8 1 4 None None = Some (Inr t)"
    using generateRouterTypes_sized
      [where W = 8 and dflt = None and awb = dense_awb and aggr = None and M = 4 and n = 1]
    by (auto simp: dense_awb_def)
  show ?thesis
    using generateRouterTypes_narrow [OF _ _ _ _ t] t by (auto simp: dense_awb_def)
qed

lemmas umf_field_defs = chunk_field_def dummy_field_def next_filler_def router_fixpoint_def

end
