(* ===== verification/Slots.thy ===== *)
theory Slots
  imports Prelude
begin

text \<open>
  Handing out link numbers.  Two passes of the network analysis do the same thing: they visit
  items in order, choose a lane for each, give the item the lane's next free link number and
  advance the lane's counter.  Link allocation does it for the channels of a platform pair,
  flow-control allocation for the ingress lanes.  \<open>take_slots\<close> is that discipline as a function
  of the choices made; its lemmas say that the slots handed out are pairwise different and, per
  lane, consecutive from the lane's first free number.
\<close>

fun take_slots :: "(nat \<Rightarrow> int) \<Rightarrow> nat list \<Rightarrow> (nat \<times> int) list" where
  "take_slots k [] = []"
| "take_slots k (c # cs) = (c, k c) # take_slots (k(c := k c + 1)) cs"

fun after_slots :: "(nat \<Rightarrow> int) \<Rightarrow> nat list \<Rightarrow> (nat \<Rightarrow> int)" where
  "after_slots k [] = k"
| "after_slots k (c # cs) = after_slots (k(c := k c + 1)) cs"

lemma length_take_slots [simp]: "length (take_slots k cs) = length cs"
  by (induction cs arbitrary: k) auto

lemma map_fst_take_slots [simp]: "map fst (take_slots k cs) = cs"
  by (induction cs arbitrary: k) auto

lemma fst_take_slots_nth: "i < length cs \<Longrightarrow> fst (take_slots k cs ! i) = cs ! i"
  by (metis length_take_slots map_fst_take_slots nth_map)

lemma after_slots_count: "after_slots k cs v = k v + int (count_list cs v)"
  by (induction cs arbitrary: k) auto

lemma take_slots_append:
  "take_slots k (cs @ ds) = take_slots k cs @ take_slots (after_slots k cs) ds"
  by (induction cs arbitrary: k) auto

lemma after_slots_append: "after_slots k (cs @ ds) = after_slots (after_slots k cs) ds"
  by (induction cs arbitrary: k) auto

lemma set_take_slots:
  "set (take_slots k cs) = {(v, j). k v \<le> j \<and> j < k v + int (count_list cs v)}"
proof (induction cs arbitrary: k)
  case Nil
  then show ?case by auto
next
  case (Cons c cs)
  show ?case by (auto simp: Cons.IH split: if_splits)
qed

lemma distinct_take_slots: "distinct (take_slots k cs)"
  by (induction cs arbitrary: k) (auto simp: set_take_slots)

text \<open>The same with the counters read off a list of lanes.\<close>

definition lane_counts :: "int list \<Rightarrow> nat \<Rightarrow> int" where
  "lane_counts ks v = (if v < length ks then ks ! v else 0)"

lemma lane_counts_update [simp]:
  "c < length ks \<Longrightarrow> lane_counts (ks[c := x]) = (lane_counts ks)(c := x)"
  by (auto simp: lane_counts_def fun_eq_iff)

end
