(* ===== verification/Connections.thy ===== *)
theory Connections
  imports Prelude
begin

text \<open>
  The logical connections between platforms as the network analysis sees them.  The classes
  \<open>LIChannel\<close> and \<open>LIChain\<close> come from the \<open>li_module\<close> package, which is not part of this
  repository; the record holds exactly the attributes this code reads and writes.  Connections
  are shared objects (a channel and its partner are assigned together), so they live in a store
  indexed by reference.
\<close>

datatype conn_class = LIChannel | LIChain

record connection =
  conn_class :: conn_class
  conn_name :: string
  sc_type :: string
  bitwidth :: int
  activity :: pynum
  conn_module :: string
  partnerChannel :: nat
  sourcePartnerChain :: nat
  sinkPartnerChain :: nat
  via_idx_egress :: int
  via_link_egress :: int
  via_idx_ingress :: int
  via_link_ingress :: int

type_synonym store = "nat \<Rightarrow> connection"

text \<open>\<^verbatim>\<open>analyzeNetwork.py: getPartner\<close>\<close>

definition getPartner :: "store \<Rightarrow> nat \<Rightarrow> nat" where
  "getPartner H c =
     (case conn_class (H c) of
        LIChannel \<Rightarrow> partnerChannel (H c)
      | LIChain \<Rightarrow> sourcePartnerChain (H c))"

text \<open>The key both sorts of the longest-job-first passes use: busiest first, then narrowest.\<close>

definition ljf_key :: "store \<Rightarrow> nat \<Rightarrow> rat" where
  "ljf_key H c = num_val (activity (H c)) * (- 2048) + rat_of_int (bitwidth (H c))"

end
