(* ===== verification/ViaAllocation.thy ===== *)
theory ViaAllocation
  imports UmfType Slots Connections
begin

text \<open>
  \<^verbatim>\<open>lim_connect/analyze-network/analyzeNetwork.py: allocateLJF, allocateLJFWithHeaders\<close> and the
  classes \<open>ViaAssignment\<close> and \<open>LinkAssignment\<close> of \<open>lim_connect/common\<close>.  The links of a platform
  pair are handed out to the lanes (vias) longest job first; each goes to the lane on which it
  finishes earliest, given a reserved header width per lane.  When a lane turns out to need a
  wider header than was reserved, the pass is repeated with the wider reservation.
  The locale \<open>header_sizing\<close> states what the repetition needs of header sizing: that it returns,
  and that what it returns is bounded.  \<open>generateRouterTypes\<close> provides it.
\<close>

section \<open>Data\<close>

record via_assignment =
  va_width :: int
  va_load :: pynum
  va_links :: int

record link_assignment =
  la_name :: string
  la_sc_type :: string
  la_via_idx :: nat
  la_via_link :: int

section \<open>One pass\<close>

definition link_chunks :: "int \<Rightarrow> int \<Rightarrow> int \<Rightarrow> int res" where
  "link_chunks bits header width =
     (if width = 0 then Inl ZeroDivisionError
      else (let extraChunk = (if (bits + header) mod width > 0 then 1 else 0)
            in Inr ((bits + header) div width + extraChunk)))"

text \<open>
  The scan over the lanes: \<open>best\<close> is \<open>(minIdx, minLoad)\<close>, \<open>None\<close> while \<open>minIdx\<close> is -1.
\<close>

fun pick_via :: "connection \<Rightarrow> nat \<Rightarrow> (via_assignment \<times> int) list \<Rightarrow> (nat \<times> pynum) option
    \<Rightarrow> (nat \<times> pynum) option res" where
  "pick_via link v [] best = Inr best"
| "pick_via link v ((via, headerSize) # rest) best =
     bindR (link_chunks (bitwidth link) headerSize (va_width via)) (\<lambda>chunks.
       let load = py_add (py_mul (activity link) (PyInt chunks)) (va_load via)
       in pick_via link (Suc v) rest
            (case best of
               None \<Rightarrow> Some (v, load)
             | Some (minIdx, minLoad) \<Rightarrow> if py_lt load minLoad then Some (v, load) else best))"

record alloc_state =
  al_vias :: "via_assignment list"
  al_maxLinkWidth :: "int list"
  al_platform :: "link_assignment list"
  al_target :: "link_assignment list"

text \<open>
  The body of the loop over the links.  With no lane at all \<open>minIdx\<close> stays -1 and
  \<open>vias[minIdx]\<close> raises IndexError.
\<close>

definition assign_link :: "store \<Rightarrow> int list \<Rightarrow> alloc_state \<Rightarrow> nat \<Rightarrow> alloc_state res" where
  "assign_link H headers st c =
     bindR (pick_via (H c) 0 (zip (al_vias st) headers) None) (\<lambda>best.
       case best of
         None \<Rightarrow> Inl IndexError
       | Some (minIdx, minLoad) \<Rightarrow>
           (let via = (al_vias st ! minIdx)\<lparr>va_load := minLoad\<rparr>;
                bits = bitwidth (H c);
                maxw = al_maxLinkWidth st;
                p = H (getPartner H c)
            in Inr \<lparr>al_vias = (al_vias st)[minIdx := via\<lparr>va_links := va_links via + 1\<rparr>],
                     al_maxLinkWidth =
                       (if bits > maxw ! minIdx then maxw[minIdx := bits] else maxw),
                     al_platform = al_platform st @
                       [\<lparr>la_name = conn_name (H c), la_sc_type = sc_type (H c),
                         la_via_idx = minIdx, la_via_link = va_links via\<rparr>],
                     al_target = al_target st @
                       [\<lparr>la_name = conn_name p, la_sc_type = sc_type p,
                         la_via_idx = minIdx, la_via_link = va_links via\<rparr>]\<rparr>))"

definition ljf_sort :: "store \<Rightarrow> nat list \<Rightarrow> nat list" where
  "ljf_sort H cs = sort_key (ljf_key H) cs"

definition ljf_pass :: "store \<Rightarrow> nat list \<Rightarrow> via_assignment list \<Rightarrow> int list \<Rightarrow> alloc_state res" where
  "ljf_pass H platformLinks vias headers =
     foldR (assign_link H headers)
       \<lparr>al_vias = vias, al_maxLinkWidth = map (\<lambda>via. - 1) vias,
        al_platform = [], al_target = []\<rparr>
       (ljf_sort H platformLinks)"

section \<open>Repeating until the headers fit\<close>

text \<open>
  \<open>hdr width links maxWidth\<close> is \<open>vias[via].width - umfType.fillerBits\<close> of the sized header.
\<close>

definition header_actual :: "umf_awb \<Rightarrow> int \<Rightarrow> int \<Rightarrow> int \<Rightarrow> int run" where
  "header_actual awb width links maxWidth =
     bindO (generateRouterTypes awb width links maxWidth None None)
       (\<lambda>t. Some (Inr (width - fillerBits t)))"

definition check_headers :: "(int \<Rightarrow> int \<Rightarrow> int \<Rightarrow> int run) \<Rightarrow> alloc_state \<Rightarrow> int list run" where
  "check_headers hdr st =
     mapO (\<lambda>(via, m). hdr (va_width via) (va_links via) m) (zip (al_vias st) (al_maxLinkWidth st))"

definition needRecurse :: "int list \<Rightarrow> int list \<Rightarrow> bool" where
  "needRecurse headers actual = list_ex (\<lambda>(h, a). h < a) (zip headers actual)"

definition headersNext :: "int list \<Rightarrow> int list \<Rightarrow> int list" where
  "headersNext headers actual = map2 (\<lambda>h a. max a h) headers actual"

partial_function (option) allocateLJFWithHeaders ::
  "(int \<Rightarrow> int \<Rightarrow> int \<Rightarrow> int run) \<Rightarrow> store \<Rightarrow> nat list \<Rightarrow> via_assignment list \<Rightarrow> int list
     \<Rightarrow> alloc_state run" where
  "allocateLJFWithHeaders hdr H platformLinks vias headers =
     (case ljf_pass H platformLinks vias headers of
        Inl e \<Rightarrow> Some (Inl e)
      | Inr st \<Rightarrow>
          (case check_headers hdr st of
             None \<Rightarrow> None
           | Some (Inl e) \<Rightarrow> Some (Inl e)
           | Some (Inr actual) \<Rightarrow>
               (if \<not> needRecurse headers actual then Some (Inr st)
                else allocateLJFWithHeaders hdr H platformLinks vias
                       (headersNext headers actual))))"

definition allocateLJF :: "umf_awb \<Rightarrow> store \<Rightarrow> nat list \<Rightarrow> via_assignment list \<Rightarrow> alloc_state run" where
  "allocateLJF awb H platformLinks vias =
     allocateLJFWithHeaders (header_actual awb) H platformLinks vias (map (\<lambda>via. 1) vias)"

text \<open>
  The reservations the repetition goes through: from one that a pass over the links shows to be too narrow to
  the next one.
\<close>

inductive widened ::
  "(int \<Rightarrow> int \<Rightarrow> int \<Rightarrow> int run) \<Rightarrow> store \<Rightarrow> nat list \<Rightarrow> via_assignment list \<Rightarrow> int list \<Rightarrow> int list \<Rightarrow> bool"
  for hdr H links vias where
    kept: "widened hdr H links vias hs hs"
  | widen: "ljf_pass H links vias hs = Inr st \<Longrightarrow> check_headers hdr st = Some (Inr actual) \<Longrightarrow> needRecurse hs actual
      \<Longrightarrow> widened hdr H links vias (headersNext hs actual) hs' \<Longrightarrow> widened hdr H links vias hs hs'"

text \<open>The run ends with a pass whose headers fit the reservation it was made with.\<close>

lemma allocate_last_pass:
  "allocateLJFWithHeaders hdr H links vias headers = Some r \<Longrightarrow> r = Inr st \<Longrightarrow>
     \<exists>hs actual. widened hdr H links vias headers hs \<and> ljf_pass H links vias hs = Inr st
       \<and> check_headers hdr st = Some (Inr actual) \<and> \<not> needRecurse hs actual"
proof (induction rule: allocateLJFWithHeaders.raw_induct [rotated, consumes 1, case_names 1])
  case (1 run hdr H links vias headers r)
  obtain st1 where pass: "ljf_pass H links vias headers = Inr st1"
    using 1(2,3) by (cases "ljf_pass H links vias headers") auto
  obtain actual where chk: "check_headers hdr st1 = Some (Inr actual)"
    using 1(2,3) pass by (auto split: option.splits sum.splits)
  show ?case
  proof (cases "needRecurse headers actual")
    case True
    then have "run hdr H links vias (headersNext headers actual) = Some r" using 1(2) pass chk by simp
    from 1(1) [OF this 1(3)] widened.widen [OF pass chk True] show ?thesis by blast
  next
    case False
    then have "st1 = st" using 1(2,3) pass chk by simp
    with pass chk False show ?thesis by (blast intro: widened.kept)
  qed
qed

section \<open>What a pass does\<close>

text \<open>
  The cost of a link on a lane, and the abstract pass: loads are rationals, the choice is the
  first lane with the least finishing load.
\<close>

definition chunks_on :: "int \<Rightarrow> int \<Rightarrow> int \<Rightarrow> int" where
  "chunks_on bits header width = cdiv (bits + header) width"

definition link_cost :: "store \<Rightarrow> int list \<Rightarrow> int list \<Rightarrow> nat \<Rightarrow> nat \<Rightarrow> rat" where
  "link_cost H ws hs c v =
     num_val (activity (H c)) * of_int (chunks_on (bitwidth (H c)) (hs ! v) (ws ! v))"

text \<open>The index of the first least element.\<close>

fun argmin_from :: "nat \<Rightarrow> rat list \<Rightarrow> (nat \<times> rat) option \<Rightarrow> (nat \<times> rat) option" where
  "argmin_from v [] best = best"
| "argmin_from v (q # qs) best =
     argmin_from (Suc v) qs
       (case best of None \<Rightarrow> Some (v, q)
        | Some (i, m) \<Rightarrow> if q < m then Some (v, q) else best)"

definition argmin :: "rat list \<Rightarrow> nat" where
  "argmin qs = (case argmin_from 0 qs None of None \<Rightarrow> 0 | Some (i, m) \<Rightarrow> i)"

definition finish_loads :: "store \<Rightarrow> int list \<Rightarrow> int list \<Rightarrow> rat list \<Rightarrow> nat \<Rightarrow> rat list" where
  "finish_loads H ws hs loads c = map (\<lambda>v. loads ! v + link_cost H ws hs c v) [0..<length ws]"

fun greedy :: "store \<Rightarrow> int list \<Rightarrow> int list \<Rightarrow> rat list \<Rightarrow> nat list \<Rightarrow> nat list" where
  "greedy H ws hs loads [] = []"
| "greedy H ws hs loads (c # cs) =
     (let finish = finish_loads H ws hs loads c; v = argmin finish
      in v # greedy H ws hs (loads[v := finish ! v]) cs)"

fun greedy_loads :: "store \<Rightarrow> int list \<Rightarrow> int list \<Rightarrow> rat list \<Rightarrow> nat list \<Rightarrow> rat list" where
  "greedy_loads H ws hs loads [] = loads"
| "greedy_loads H ws hs loads (c # cs) =
     (let finish = finish_loads H ws hs loads c; v = argmin finish
      in greedy_loads H ws hs (loads[v := finish ! v]) cs)"

text \<open>The widest link of each lane, given the lanes chosen.\<close>

fun lane_widest :: "store \<Rightarrow> int list \<Rightarrow> nat list \<Rightarrow> nat list \<Rightarrow> int list" where
  "lane_widest H ms (c # cs) (v # vs) = lane_widest H (ms[v := max (ms ! v) (bitwidth (H c))]) cs vs"
| "lane_widest H ms cs vs = ms"

definition mk_link :: "connection \<Rightarrow> nat \<times> int \<Rightarrow> link_assignment" where
  "mk_link c s = \<lparr>la_name = conn_name c, la_sc_type = sc_type c,
     la_via_idx = fst s, la_via_link = snd s\<rparr>"

lemma cdiv_chunks:
  assumes "0 < w"
  shows "a div w + (if a mod w > 0 then 1 else 0) = cdiv a w"
proof -
  have "a mod w = 0 \<or> 0 < a mod w"
    using pos_mod_sign [OF assms, of a] by linarith
  then show ?thesis
    using assms by (auto simp: cdiv_def zdiv_zminus1_eq_if)
qed

lemma link_chunks_Inr [simp]:
  "0 < w \<Longrightarrow> link_chunks bits header w = Inr (chunks_on bits header w)"
  using cdiv_chunks [of w "bits + header"] by (simp add: link_chunks_def chunks_on_def Let_def)

lemma argmin_from_Some:
  "argmin_from v qs (Some (i, m)) = Some (j, n) \<Longrightarrow>
     (j = i \<and> n = m \<or> v \<le> j \<and> j < v + length qs \<and> n = qs ! (j - v)) \<and> n \<le> m
     \<and> (\<forall>q \<in> set qs. n \<le> q)"
proof (induction qs arbitrary: v i m)
  case Nil
  then show ?case by simp
next
  case (Cons q qs)
  show ?case
  proof (cases "q < m")
    case True
    with Cons.prems have "argmin_from (Suc v) qs (Some (v, q)) = Some (j, n)" by simp
    from Cons.IH [OF this] True show ?thesis
      by (auto simp: nth_Cons' Suc_le_eq)
  next
    case False
    with Cons.prems have "argmin_from (Suc v) qs (Some (i, m)) = Some (j, n)" by simp
    from Cons.IH [OF this] False show ?thesis
      by (auto simp: nth_Cons' Suc_le_eq)
  qed
qed

lemma argmin_from_is_Some: "\<exists>j n. argmin_from v qs (Some b) = Some (j, n)"
  by (induction qs arbitrary: v b) (auto split: prod.splits)

lemma argmin_props:
  assumes "qs \<noteq> []"
  shows "argmin_from 0 qs None = Some (argmin qs, qs ! argmin qs)"
    and "argmin qs < length qs" and "\<And>q. q \<in> set qs \<Longrightarrow> qs ! argmin qs \<le> q"
proof -
  obtain q qs' where qs: "qs = q # qs'" using assms by (cases qs) auto
  obtain j n where jn: "argmin_from (Suc 0) qs' (Some (0, q)) = Some (j, n)"
    using argmin_from_is_Some by blast
  from argmin_from_Some [OF jn]
  have "(j = 0 \<and> n = q \<or> 0 < j \<and> j < Suc (length qs') \<and> n = qs' ! (j - 1)) \<and> n \<le> q
     \<and> (\<forall>r \<in> set qs'. n \<le> r)"
    by auto
  moreover have "argmin qs = j"
    using jn by (simp add: argmin_def qs)
  ultimately show "argmin_from 0 qs None = Some (argmin qs, qs ! argmin qs)"
    and "argmin qs < length qs" and "\<And>q. q \<in> set qs \<Longrightarrow> qs ! argmin qs \<le> q"
    using jn by (auto simp: qs nth_Cons')
qed

lemma pick_via_argmin:
  assumes "\<forall>(via, h) \<in> set zs. 0 < va_width via"
  shows "\<exists>r. pick_via link v zs best = Inr r \<and>
    map_option (map_prod id num_val) r =
      argmin_from v
        (map (\<lambda>(via, h). num_val (va_load via) + num_val (activity link) *
            of_int (chunks_on (bitwidth link) h (va_width via))) zs)
        (map_option (map_prod id num_val) best)"
  using assms
proof (induction zs arbitrary: v best)
  case Nil
  then show ?case by simp
next
  case (Cons z zs)
  obtain via h where z: "z = (via, h)" by (cases z)
  with Cons.prems have w: "0 < va_width via" and rest: "\<forall>(via, h) \<in> set zs. 0 < va_width via"
    by auto
  let ?load = "py_add (py_mul (activity link) (PyInt (chunks_on (bitwidth link) h (va_width via)))) (va_load via)"
  let ?best = "case best of None \<Rightarrow> Some (v, ?load)
    | Some (i, m) \<Rightarrow> if py_lt ?load m then Some (v, ?load) else best"
  obtain r where r: "pick_via link (Suc v) zs ?best = Inr r"
    "map_option (map_prod id num_val) r =
      argmin_from (Suc v)
        (map (\<lambda>(via, h). num_val (va_load via) + num_val (activity link) *
            of_int (chunks_on (bitwidth link) h (va_width via))) zs)
        (map_option (map_prod id num_val) ?best)"
    using Cons.IH [OF rest, of "Suc v" ?best] by blast
  have "pick_via link v (z # zs) best = Inr r"
    using w r(1) by (simp add: z Let_def cong: option.case_cong)
  then show ?case
    using r(2) by (auto simp: z id_def num_simps add.commute split: option.splits)
qed


abbreviation via_loads :: "via_assignment list \<Rightarrow> rat list" where
  "via_loads vias \<equiv> map (\<lambda>via. num_val (va_load via)) vias"

abbreviation via_counts :: "via_assignment list \<Rightarrow> nat \<Rightarrow> int" where
  "via_counts vias \<equiv> lane_counts (map va_links vias)"

lemma length_finish_loads [simp]: "length (finish_loads H ws hs loads c) = length ws"
  by (simp add: finish_loads_def)

lemma argmin_finish_less [simp]: "ws \<noteq> [] \<Longrightarrow> argmin (finish_loads H ws hs loads c) < length ws"
  using argmin_props(2) [of "finish_loads H ws hs loads c"] by (metis length_finish_loads length_0_conv)

lemma assign_link_step:
  fixes H :: store and c :: nat and hs :: "int list" and st :: alloc_state
  assumes "al_vias st \<noteq> []" and "\<forall>via \<in> set (al_vias st). 0 < va_width via"
    and "length hs = length (al_vias st)" and "length (al_maxLinkWidth st) = length (al_vias st)"
  defines "finish \<equiv> finish_loads H (map va_width (al_vias st)) hs (via_loads (al_vias st)) c"
  defines "v \<equiv> argmin finish"
  shows "\<exists>load. num_val load = finish ! v \<and> v < length (al_vias st) \<and>
    assign_link H hs st c = Inr
      \<lparr>al_vias = (al_vias st)[v := (al_vias st ! v)
         \<lparr>va_load := load, va_links := va_links (al_vias st ! v) + 1\<rparr>],
       al_maxLinkWidth =
         (al_maxLinkWidth st)[v := max (al_maxLinkWidth st ! v) (bitwidth (H c))],
       al_platform = al_platform st @ [mk_link (H c) (v, va_links (al_vias st ! v))],
       al_target = al_target st @ [mk_link (H (getPartner H c)) (v, va_links (al_vias st ! v))]\<rparr>"
proof -
  let ?zs = "zip (al_vias st) hs"
  have pos: "\<forall>(via, h) \<in> set ?zs. 0 < va_width via"
    using assms(2) by (auto dest: set_zip_leftD)
  have fin: "map (\<lambda>(via, h). num_val (va_load via) + num_val (activity (H c)) *
      of_int (chunks_on (bitwidth (H c)) h (va_width via))) ?zs = finish"
    using assms(3) by (auto simp: finish_def finish_loads_def link_cost_def intro!: nth_equalityI)
  have ne: "finish \<noteq> []" and len: "length finish = length (al_vias st)"
    using assms(1) by (auto simp: finish_def finish_loads_def)
  obtain r where r: "pick_via (H c) 0 ?zs None = Inr r"
    "map_option (map_prod id num_val) r = argmin_from 0 finish None"
    using pick_via_argmin [OF pos, of "H c" 0 None] unfolding fin by auto
  then obtain load where load: "r = Some (v, load)" "num_val load = finish ! v"
    using argmin_props(1) [OF ne] by (auto simp: v_def)
  have v: "v < length (al_vias st)"
    using argmin_props(2) [OF ne] len by (simp add: v_def)
  with r(1) load show ?thesis
    using assms(4)
    by (intro exI [of _ load]) (auto simp: assign_link_def Let_def mk_link_def max_def)
qed

text \<open>The abstract pass, as a predicate on the state a run of the loop ends in.\<close>

definition pass_outcome ::
  "store \<Rightarrow> int list \<Rightarrow> nat list \<Rightarrow> nat list \<Rightarrow> alloc_state \<Rightarrow> alloc_state \<Rightarrow> bool" where
  "pass_outcome H hs links lanes st st' \<longleftrightarrow>
     (let ws = map va_width (al_vias st); loads = via_loads (al_vias st);
          slots = take_slots (via_counts (al_vias st)) lanes
      in lanes = greedy H ws hs loads links
       \<and> map va_width (al_vias st') = ws
       \<and> via_loads (al_vias st') = greedy_loads H ws hs loads links
       \<and> via_counts (al_vias st') = after_slots (via_counts (al_vias st)) lanes
       \<and> al_maxLinkWidth st' = lane_widest H (al_maxLinkWidth st) links lanes
       \<and> al_platform st' = al_platform st @ map2 (\<lambda>c. mk_link (H c)) links slots
       \<and> al_target st' = al_target st @ map2 (\<lambda>c. mk_link (H (getPartner H c))) links slots)"

lemma pass_outcome_Cons:
  fixes H :: store and c :: nat and hs :: "int list" and st :: alloc_state
  assumes step: "st1 =
      \<lparr>al_vias = (al_vias st)[v := (al_vias st ! v)
         \<lparr>va_load := load, va_links := va_links (al_vias st ! v) + 1\<rparr>],
       al_maxLinkWidth =
         (al_maxLinkWidth st)[v := max (al_maxLinkWidth st ! v) (bitwidth (H c))],
       al_platform = al_platform st @ [mk_link (H c) (v, va_links (al_vias st ! v))],
       al_target = al_target st @ [mk_link (H (getPartner H c)) (v, va_links (al_vias st ! v))]\<rparr>"
    and v: "v = argmin finish" "v < length (al_vias st)"
    and finish: "finish = finish_loads H (map va_width (al_vias st)) hs (via_loads (al_vias st)) c"
    and load: "num_val load = finish ! v"
    and rest: "pass_outcome H hs links lanes st1 st'"
  shows "pass_outcome H hs (c # links) (v # lanes) st st'"
proof -
  let ?ws = "map va_width (al_vias st)"
  let ?via = "al_vias st ! v"
  have ws: "map va_width (al_vias st1) = ?ws"
    using v(2) by (simp add: step map_update list_update_same_conv)
  have loads: "via_loads (al_vias st1) = (via_loads (al_vias st))[v := finish ! v]"
    using load by (simp add: step map_update)
  have counts: "via_counts (al_vias st1) = (via_counts (al_vias st))(v := va_links ?via + 1)"
    using v(2) by (simp add: step map_update)
  have count_v: "via_counts (al_vias st) v = va_links ?via"
    using v(2) by (simp add: lane_counts_def)
  have greedy: "greedy H ?ws hs (via_loads (al_vias st)) (c # links)
      = v # greedy H ?ws hs ((via_loads (al_vias st))[v := finish ! v]) links"
    and greedy_loads: "greedy_loads H ?ws hs (via_loads (al_vias st)) (c # links)
      = greedy_loads H ?ws hs ((via_loads (al_vias st))[v := finish ! v]) links"
    by (simp_all add: v(1) finish Let_def)
  show ?thesis
    using rest
    unfolding pass_outcome_def Let_def ws loads counts greedy greedy_loads
    by (simp add: step count_v)
qed

lemma ljf_fold:
  assumes "al_vias st \<noteq> []" and "\<forall>via \<in> set (al_vias st). 0 < va_width via"
    and "length hs = length (al_vias st)" and "length (al_maxLinkWidth st) = length (al_vias st)"
  shows "\<exists>st' lanes. foldR (assign_link H hs) st links = Inr st' \<and> pass_outcome H hs links lanes st st'"
  using assms
proof (induction links arbitrary: st)
  case Nil
  show ?case by (intro exI [of _ st] exI [of _ "[]"]) (simp add: pass_outcome_def)
next
  case (Cons c links)
  let ?finish = "finish_loads H (map va_width (al_vias st)) hs (via_loads (al_vias st)) c"
  let ?v = "argmin ?finish"
  obtain load where load: "num_val load = ?finish ! ?v" and v: "?v < length (al_vias st)"
    and step: "assign_link H hs st c = Inr
      \<lparr>al_vias = (al_vias st)[?v := (al_vias st ! ?v)
         \<lparr>va_load := load, va_links := va_links (al_vias st ! ?v) + 1\<rparr>],
       al_maxLinkWidth =
         (al_maxLinkWidth st)[?v := max (al_maxLinkWidth st ! ?v) (bitwidth (H c))],
       al_platform = al_platform st @ [mk_link (H c) (?v, va_links (al_vias st ! ?v))],
       al_target = al_target st @ [mk_link (H (getPartner H c)) (?v, va_links (al_vias st ! ?v))]\<rparr>"
      (is "_ = Inr ?st")
    using assign_link_step [OF Cons.prems] by blast
  have "\<forall>via \<in> set (al_vias ?st). 0 < va_width via"
    using Cons.prems(2) v by (auto dest!: set_update_subset_insert [THEN subsetD])
  moreover have "al_vias ?st \<noteq> []" "length hs = length (al_vias ?st)"
    "length (al_maxLinkWidth ?st) = length (al_vias ?st)"
    using Cons.prems by auto
  ultimately obtain st' lanes where
    "foldR (assign_link H hs) ?st links = Inr st'" "pass_outcome H hs links lanes ?st st'"
    using Cons.IH by blast
  with pass_outcome_Cons [OF refl refl v refl load this(2)] step show ?case
    by (intro exI [of _ st'] exI [of _ "?v # lanes"]) simp
qed

lemma greedy_lanes:
  assumes "ws \<noteq> []"
  shows "length (greedy H ws hs loads links) = length links"
    and "set (greedy H ws hs loads links) \<subseteq> {..<length ws}"
  using assms by (induction links arbitrary: loads) (auto simp: Let_def)

lemma length_lane_widest [simp]: "length (lane_widest H ms cs vs) = length ms"
  by (induction H ms cs vs rule: lane_widest.induct) auto

definition widest :: "store \<Rightarrow> nat list \<Rightarrow> int" where
  "widest H cs = fold (\<lambda>c m. max m (bitwidth (H c))) cs (- 1)"

lemma widest_acc_le: "a \<le> fold (\<lambda>c m. max m (bitwidth (H c))) cs a"
  by (induction cs arbitrary: a) (auto intro: order_trans [OF max.cobounded1])

lemma widest_mem: "c \<in> set cs \<Longrightarrow> bitwidth (H c) \<le> fold (\<lambda>c m. max m (bitwidth (H c))) cs a"
  by (induction cs arbitrary: a) (auto intro: order_trans [OF max.cobounded2 widest_acc_le])

lemma widest_bounds: "- 1 \<le> widest H cs" "c \<in> set cs \<Longrightarrow> bitwidth (H c) \<le> widest H cs"
  using widest_acc_le [of "- 1"] widest_mem by (auto simp: widest_def)

lemma lane_widest_le:
  assumes "\<forall>m \<in> set ms. m \<le> b" and "\<forall>c \<in> set cs. bitwidth (H c) \<le> b"
  shows "\<forall>m \<in> set (lane_widest H ms cs vs). m \<le> b"
  using assms
proof (induction H ms cs vs rule: lane_widest.induct)
  case (1 H ms c cs v vs)
  show ?case
  proof (cases "v < length ms")
    case True
    then have "\<forall>m \<in> set (ms[v := max (ms ! v) (bitwidth (H c))]). m \<le> b"
      using "1.prems" by (auto dest!: set_update_subset_insert [THEN subsetD])
    with "1.IH" "1.prems" show ?thesis by simp
  next
    case False
    with "1.IH" "1.prems" show ?thesis by (simp add: list_update_beyond)
  qed
qed auto

lemma lane_widest_grows: "v < length ms \<Longrightarrow> ms ! v \<le> lane_widest H ms cs vs ! v"
proof (induction H ms cs vs rule: lane_widest.induct)
  case (1 H ms c cs u vs)
  then show ?case
    by (cases "u = v") (auto intro: order_trans [OF max.cobounded1])
qed auto

lemma lane_widest_covers:
  assumes "length vs = length cs" and "set vs \<subseteq> {..<length ms}" and "i < length cs"
  shows "bitwidth (H (cs ! i)) \<le> lane_widest H ms cs vs ! (vs ! i)"
  using assms
proof (induction H ms cs vs arbitrary: i rule: lane_widest.induct)
  case (1 H ms c cs v vs)
  show ?case
  proof (cases i)
    case 0
    let ?ms = "ms[v := max (ms ! v) (bitwidth (H c))]"
    have "bitwidth (H c) \<le> ?ms ! v" using "1.prems" by simp
    also have "\<dots> \<le> lane_widest H ?ms cs vs ! v"
      using "1.prems" by (intro lane_widest_grows) simp
    finally show ?thesis using 0 by simp
  next
    case (Suc j)
    with "1.IH" [of j] "1.prems" show ?thesis by simp
  qed
qed auto

abbreviation pass_start :: "via_assignment list \<Rightarrow> alloc_state" where
  "pass_start vias \<equiv> \<lparr>al_vias = vias, al_maxLinkWidth = map (\<lambda>via. - 1) vias,
     al_platform = [], al_target = []\<rparr>"

lemma set_ljf_sort [simp]: "set (ljf_sort H cs) = set cs"
  and length_ljf_sort [simp]: "length (ljf_sort H cs) = length cs"
  by (simp_all add: ljf_sort_def)

definition usable_vias :: "via_assignment list \<Rightarrow> bool" where
  "usable_vias vias \<longleftrightarrow> vias \<noteq> [] \<and> (\<forall>via \<in> set vias. 0 < va_width via \<and> 0 \<le> va_links via)"

lemma ljf_pass_outcome:
  assumes "usable_vias vias" and "length hs = length vias"
  shows "\<exists>st lanes. ljf_pass H links vias hs = Inr st
    \<and> pass_outcome H hs (ljf_sort H links) lanes (pass_start vias) st"
  using ljf_fold [of "pass_start vias" hs H "ljf_sort H links"] assms
  by (simp add: ljf_pass_def usable_vias_def)

lemma pass_outcome_lanes:
  assumes "pass_outcome H hs links lanes (pass_start vias) st" and "vias \<noteq> []"
  shows "length (al_vias st) = length vias" and "length lanes = length links"
    and "set lanes \<subseteq> {..<length vias}" and "length (al_maxLinkWidth st) = length vias"
    and "v < length vias \<Longrightarrow> va_width (al_vias st ! v) = va_width (vias ! v)"
    and "v < length vias \<Longrightarrow>
      va_links (al_vias st ! v) = va_links (vias ! v) + int (count_list lanes v)"
proof -
  let ?ws = "map va_width vias"
  from assms(1) have out: "lanes = greedy H ?ws hs (via_loads vias) links"
    "map va_width (al_vias st) = ?ws"
    "via_counts (al_vias st) = after_slots (via_counts vias) lanes"
    "al_maxLinkWidth st = lane_widest H (map (\<lambda>via. - 1) vias) links lanes"
    by (simp_all add: pass_outcome_def Let_def)
  show len: "length (al_vias st) = length vias"
    using out(2) by (metis length_map)
  show "length lanes = length links" and "set lanes \<subseteq> {..<length vias}"
    using greedy_lanes [of ?ws] assms(2) out(1) by (metis Nil_is_map_conv length_map)+
  show "length (al_maxLinkWidth st) = length vias"
    by (simp add: out(4))
  show "v < length vias \<Longrightarrow> va_width (al_vias st ! v) = va_width (vias ! v)"
    using out(2) len by (metis nth_map)
  show "va_links (al_vias st ! v) = va_links (vias ! v) + int (count_list lanes v)"
    if "v < length vias"
    using fun_cong [OF out(3), of v] that len by (simp add: lane_counts_def after_slots_count)
qed

section \<open>The repetition stops\<close>

text \<open>
  What the repetition asks of header sizing: an answer for every positive width, and a bound on
  the header that only grows with the number and width of the links.
\<close>

locale header_sizing =
  fixes hdr :: "int \<Rightarrow> int \<Rightarrow> int \<Rightarrow> int run"
    and bound :: "int \<Rightarrow> int \<Rightarrow> int \<Rightarrow> int"
  assumes hdr_returns: "0 < w \<Longrightarrow> 0 \<le> n \<Longrightarrow> \<exists>h. hdr w n m = Some (Inr h) \<and> h \<le> bound w n m"
    and bound_mono: "n \<le> n' \<Longrightarrow> m \<le> m' \<Longrightarrow> bound w n m \<le> bound w n' m'"

lemma needRecurse_iff:
  "length hs = length as \<Longrightarrow> needRecurse hs as \<longleftrightarrow> (\<exists>v<length hs. hs ! v < as ! v)"
  by (auto simp: needRecurse_def list_ex_iff set_zip)

lemma headersNext_nth:
  "v < length hs \<Longrightarrow> length hs = length as \<Longrightarrow> headersNext hs as ! v = max (as ! v) (hs ! v)"
  by (simp add: headersNext_def)

lemma length_headersNext [simp]: "length (headersNext hs as) = min (length hs) (length as)"
  by (simp add: headersNext_def)

text \<open>
  The distance of a reservation from the bounds, and that a repetition shortens it.
\<close>

definition header_gap :: "int list \<Rightarrow> int list \<Rightarrow> nat" where
  "header_gap bs hs = (\<Sum>v<length hs. nat (bs ! v - hs ! v))"

lemma header_gap_decreases:
  assumes "length hs = length as" and "\<forall>v<length hs. as ! v \<le> bs ! v" and "needRecurse hs as"
  shows "header_gap bs (headersNext hs as) < header_gap bs hs"
proof -
  obtain v where v: "v < length hs" "hs ! v < as ! v"
    using assms(1,3) by (auto simp: needRecurse_iff)
  have "as ! v \<le> bs ! v"
    using assms(2) v(1) by blast
  then have "nat (bs ! v - max (as ! v) (hs ! v)) < nat (bs ! v - hs ! v)"
    using v(2) by simp
  moreover have "\<forall>u<length hs. nat (bs ! u - max (as ! u) (hs ! u)) \<le> nat (bs ! u - hs ! u)"
    by auto
  ultimately have "(\<Sum>u<length hs. nat (bs ! u - max (as ! u) (hs ! u)))
      < (\<Sum>u<length hs. nat (bs ! u - hs ! u))"
    using v(1) by (intro sum_strict_mono_ex1) auto
  then show ?thesis
    using assms(1) by (simp add: header_gap_def headersNext_nth cong: sum.cong_simp)
qed

context header_sizing
begin

lemma check_headers_returns:
  assumes "usable_vias vias" and "pass_outcome H hs links lanes (pass_start vias) st"
  shows "\<exists>actual. check_headers hdr st = Some (Inr actual) \<and> length actual = length vias
    \<and> (\<forall>v<length vias. actual ! v \<le>
        bound (va_width (vias ! v)) (va_links (vias ! v) + int (length links)) (widest H links))
    \<and> (\<forall>v<length vias. hdr (va_width (vias ! v)) (va_links (al_vias st ! v))
        (al_maxLinkWidth st ! v) = Some (Inr (actual ! v)))"
proof -
  note lanes = pass_outcome_lanes [OF assms(2)]
  have ne: "vias \<noteq> []" using assms(1) by (simp add: usable_vias_def)
  let ?zs = "zip (al_vias st) (al_maxLinkWidth st)"
  have len: "length ?zs = length vias"
    using lanes(1,4) ne by simp
  have via: "0 < va_width (al_vias st ! v)" "0 \<le> va_links (al_vias st ! v)" if "v < length vias" for v
    using assms(1) that lanes(5,6) [OF ne] by (auto simp: usable_vias_def)
  have "\<exists>y. (case z of (via, m) \<Rightarrow> hdr (va_width via) (va_links via) m) = Some (Inr y)"
    if "z \<in> set ?zs" for z
  proof -
    obtain v where "v < length vias" "z = (al_vias st ! v, al_maxLinkWidth st ! v)"
      using \<open>z \<in> set ?zs\<close> lanes(1,4) ne by (auto simp: set_zip)
    with hdr_returns [OF via] show ?thesis by fastforce
  qed
  then obtain actual where actual: "check_headers hdr st = Some (Inr actual)"
    "list_all2 (\<lambda>z y. (case z of (via, m) \<Rightarrow> hdr (va_width via) (va_links via) m) = Some (Inr y))
       ?zs actual"
    using mapO_returns [of ?zs] unfolding check_headers_def by blast
  have lact: "length actual = length vias"
    using list_all2_lengthD [OF actual(2)] len by simp
  have val: "hdr (va_width (vias ! v)) (va_links (al_vias st ! v)) (al_maxLinkWidth st ! v)
      = Some (Inr (actual ! v))" if "v < length vias" for v
    using list_all2_nthD [OF actual(2), of v] that len lanes(1,4,5) [OF ne] by simp
  have "actual ! v \<le> bound (va_width (vias ! v)) (va_links (vias ! v) + int (length links))
      (widest H links)" if "v < length vias" for v
  proof -
    have "actual ! v \<le> bound (va_width (vias ! v)) (va_links (al_vias st ! v))
        (al_maxLinkWidth st ! v)"
      using hdr_returns [OF via [OF that], of "al_maxLinkWidth st ! v"] val [OF that]
        lanes(5) [OF ne that] by auto
    also have "\<dots> \<le> bound (va_width (vias ! v)) (va_links (vias ! v) + int (length links))
        (widest H links)"
    proof (rule bound_mono)
      show "va_links (al_vias st ! v) \<le> va_links (vias ! v) + int (length links)"
        using lanes(2,6) [OF ne] that count_le_length [of lanes v] by simp
      have "al_maxLinkWidth st = lane_widest H (map (\<lambda>via. - 1) vias) links lanes"
        using assms(2) by (simp add: pass_outcome_def Let_def)
      moreover have "\<forall>m \<in> set (lane_widest H (map (\<lambda>via. - 1) vias) links lanes). m \<le> widest H links"
        by (rule lane_widest_le) (auto simp: widest_bounds)
      ultimately show "al_maxLinkWidth st ! v \<le> widest H links"
        using lanes(4) [OF ne] that by (metis nth_mem)
    qed
    finally show ?thesis .
  qed
  with actual(1) lact val show ?thesis by blast
qed

lemma allocate_returns:
  assumes "usable_vias vias" and "length headers = length vias"
  shows "\<exists>st hs lanes. allocateLJFWithHeaders hdr H links vias headers = Some (Inr st)
    \<and> length hs = length vias \<and> (\<forall>v<length vias. headers ! v \<le> hs ! v)
    \<and> pass_outcome H hs (ljf_sort H links) lanes (pass_start vias) st
    \<and> (\<forall>v<length vias. \<exists>h \<le> hs ! v. hdr (va_width (vias ! v)) (va_links (al_vias st ! v))
        (al_maxLinkWidth st ! v) = Some (Inr h))"
  using assms(2)
proof (induction "header_gap
    (map (\<lambda>via. bound (va_width via) (va_links via + int (length links)) (widest H (ljf_sort H links))) vias)
    headers" arbitrary: headers rule: less_induct)
  case less
  let ?bs = "map (\<lambda>via. bound (va_width via) (va_links via + int (length links))
    (widest H (ljf_sort H links))) vias"
  obtain st lanes where pass: "ljf_pass H links vias headers = Inr st"
    and out: "pass_outcome H headers (ljf_sort H links) lanes (pass_start vias) st"
    using ljf_pass_outcome [OF assms(1) less.prems] by blast
  obtain actual where chk: "check_headers hdr st = Some (Inr actual)"
    and len: "length actual = length vias"
    and bnd: "\<forall>v<length vias. actual ! v \<le> ?bs ! v"
    and val: "\<forall>v<length vias. hdr (va_width (vias ! v)) (va_links (al_vias st ! v))
        (al_maxLinkWidth st ! v) = Some (Inr (actual ! v))"
    using check_headers_returns [OF assms(1) out] by auto
  show ?case
  proof (cases "needRecurse headers actual")
    case False
    then have "\<forall>v<length vias. actual ! v \<le> headers ! v"
      using len less.prems by (metis needRecurse_iff not_less)
    moreover have "allocateLJFWithHeaders hdr H links vias headers = Some (Inr st)"
      using pass chk False by (subst allocateLJFWithHeaders.simps) simp
    ultimately show ?thesis
      using out val less.prems by blast
  next
    case True
    let ?hs = "headersNext headers actual"
    have eq: "allocateLJFWithHeaders hdr H links vias headers =
        allocateLJFWithHeaders hdr H links vias ?hs"
      using pass chk True by (subst allocateLJFWithHeaders.simps) simp
    have "header_gap ?bs ?hs < header_gap ?bs headers"
      using len less.prems bnd by (intro header_gap_decreases [OF _ _ True]) auto
    moreover have "length ?hs = length vias" "\<forall>v<length vias. headers ! v \<le> ?hs ! v"
      using len less.prems by (auto simp: headersNext_nth)
    ultimately show ?thesis
      using less.hyps [of ?hs] unfolding eq by (meson order_trans)
  qed
qed

end

text \<open>Header sizing keeps the contract.\<close>

definition header_bound :: "umf_awb \<Rightarrow> int \<Rightarrow> int \<Rightarrow> int \<Rightarrow> int" where
  "header_bound awb w n m =
     (if USE_DEFAULT_UMF_PARAMETERS awb
      then UMF_PHY_CHANNEL_RESERVED_BITS awb + UMF_CHANNEL_ID_BITS awb + UMF_SERVICE_ID_BITS awb
        + UMF_METHOD_ID_BITS awb + UMF_MSG_LENGTH_BITS awb
      else w + 2 * (n + 1) + 24 + max 0 m)"

lemma header_actual_bounded:
  assumes "0 < w" and "0 \<le> n"
  shows "\<exists>h. header_actual awb w n m = Some (Inr h) \<and> h \<le> header_bound awb w n m"
proof (cases "USE_DEFAULT_UMF_PARAMETERS awb")
  case True
  then show ?thesis
    by (simp add: header_actual_def header_bound_def generateRouterTypes_def mk_umf_def Let_def)
next
  case False
  with generateRouterTypes_sized
    [where W = w and dflt = None and awb = awb and aggr = None and M = m and n = n, OF assms(1)]
  obtain fw t where "filler_floor (link_bits n) m \<le> fw"
    "generateRouterTypes awb w n m None None = Some (Inr t)" "fillerBits t = fw"
    by auto
  then show ?thesis
    using link_bits_le [OF assms(2)] False
    by (simp add: header_actual_def header_bound_def filler_floor_def)
qed

interpretation sized: header_sizing "header_actual awb" "header_bound awb" for awb :: umf_awb
proof
  fix w n m :: int
  assume "0 < w" and "0 \<le> n"
  then show "\<exists>h. header_actual awb w n m = Some (Inr h) \<and> h \<le> header_bound awb w n m"
    by (rule header_actual_bounded)
next
  fix n n' m m' w :: int
  assume "n \<le> n'" and "m \<le> m'"
  then show "header_bound awb w n m \<le> header_bound awb w n' m'"
    by (auto simp: header_bound_def)
qed

text \<open>What \<open>allocateLJF\<close> returns, in the terms of the abstract pass.\<close>

lemma allocateLJF_outcome:
  assumes "usable_vias vias"
  obtains st hs lanes where "allocateLJF awb H links vias = Some (Inr st)"
    and "length hs = length vias"
    and "pass_outcome H hs (ljf_sort H links) lanes (pass_start vias) st"
    and "\<forall>v<length vias. \<exists>h \<le> hs ! v. header_actual awb (va_width (vias ! v))
      (va_links (al_vias st ! v)) (al_maxLinkWidth st ! v) = Some (Inr h)"
  using sized.allocate_returns [OF assms, of "map (\<lambda>via. 1) vias" awb H links] that
  by (auto simp: allocateLJF_def)

lemma allocateLJF_outcomeD:
  assumes "usable_vias vias" and "allocateLJF awb H links vias = Some (Inr st)"
  obtains hs lanes where "length hs = length vias"
    and "pass_outcome H hs (ljf_sort H links) lanes (pass_start vias) st"
    and "\<forall>v<length vias. \<exists>h \<le> hs ! v. header_actual awb (va_width (vias ! v))
      (va_links (al_vias st ! v)) (al_maxLinkWidth st ! v) = Some (Inr h)"
proof -
  obtain st' hs lanes where out: "allocateLJF awb H links vias = Some (Inr st')"
    "length hs = length vias"
    "pass_outcome H hs (ljf_sort H links) lanes (pass_start vias) st'"
    "\<forall>v<length vias. \<exists>h \<le> hs ! v. header_actual awb (va_width (vias ! v))
      (va_links (al_vias st' ! v)) (al_maxLinkWidth st' ! v) = Some (Inr h)"
    by (rule allocateLJF_outcome [OF assms(1)])
  moreover have "st' = st" using out(1) assms(2) by simp
  ultimately show ?thesis using that by blast
qed

lemma greedy_loads_sum:
  assumes "ws \<noteq> []" and "length loads = length ws" and "v < length ws"
  shows "greedy_loads H ws hs loads links ! v =
    loads ! v + sum_list (map (\<lambda>(c, l). if l = v then link_cost H ws hs c v else 0)
      (zip links (greedy H ws hs loads links)))"
  using assms(2)
proof (induction links arbitrary: loads)
  case Nil
  then show ?case by simp
next
  case (Cons c links)
  let ?f = "finish_loads H ws hs loads c"
  let ?v = "argmin ?f"
  have "?v < length ws" using assms(1) by simp
  then have "?f ! ?v = loads ! ?v + link_cost H ws hs c ?v"
    by (simp add: finish_loads_def)
  with Cons.IH [of "loads[?v := ?f ! ?v]"] Cons.prems assms(3) show ?case
    by (cases "?v = v") (simp_all add: Let_def)
qed

text \<open>Any assignment of the links to lanes bounds the greedy loads by its total work.\<close>

lemma greedy_loads_bound:
  assumes "ws \<noteq> []" and "length loads = length ws" and "\<forall>q \<in> set loads. q \<le> b"
    and "\<forall>c \<in> set links. f c < length ws" and "\<forall>c \<in> set links. 0 \<le> link_cost H ws hs c (f c)"
  shows "\<forall>q \<in> set (greedy_loads H ws hs loads links). q \<le> b + (\<Sum>c\<leftarrow>links. link_cost H ws hs c (f c))"
  using assms(2-)
proof (induction links arbitrary: loads b)
  case Nil
  then show ?case by simp
next
  case (Cons c links)
  let ?f = "finish_loads H ws hs loads c"
  let ?b = "b + link_cost H ws hs c (f c)"
  have "?f ! argmin ?f \<le> ?f ! f c"
    using Cons.prems(3) assms(1) by (intro argmin_props(3) nth_mem) (auto simp flip: length_0_conv)
  also have "\<dots> = loads ! f c + link_cost H ws hs c (f c)"
    using Cons.prems(3) by (simp add: finish_loads_def)
  also have "\<dots> \<le> ?b"
    using Cons.prems(1,2,3) by simp
  finally have "\<forall>q \<in> set (loads[argmin ?f := ?f ! argmin ?f]). q \<le> ?b"
    using Cons.prems(2,4) by (fastforce dest!: set_update_subset_insert [THEN subsetD])
  with Cons.IH [of "loads[argmin ?f := ?f ! argmin ?f]" ?b] Cons.prems show ?case
    by (simp add: Let_def add.assoc)
qed

section \<open>Properties\<close>

definition slot_of :: "link_assignment \<Rightarrow> nat \<times> int" where
  "slot_of a = (la_via_idx a, la_via_link a)"

lemma slots_of_links:
  "length xs = length ss \<Longrightarrow> map slot_of (map2 (\<lambda>c. mk_link (f c)) xs ss) = ss"
  "length xs = length ss \<Longrightarrow>
     map la_name (map2 (\<lambda>c. mk_link (f c)) xs ss) = map (\<lambda>c. conn_name (f c)) xs"
  by (induction xs ss rule: list_induct2) (simp_all add: slot_of_def mk_link_def)

lemma pass_outcome_slots:
  assumes "pass_outcome H hs links lanes (pass_start vias) st" and "vias \<noteq> []"
  shows "map slot_of (al_platform st) = take_slots (via_counts vias) lanes"
    and "map slot_of (al_target st) = take_slots (via_counts vias) lanes"
    and "map la_name (al_platform st) = map (\<lambda>c. conn_name (H c)) links"
    and "map la_name (al_target st) = map (\<lambda>c. conn_name (H (getPartner H c))) links"
proof -
  have "length links = length (take_slots (via_counts vias) lanes)"
    using pass_outcome_lanes(2) [OF assms] by simp
  note slots = slots_of_links [OF this]
  have "al_platform st = map2 (\<lambda>c. mk_link (H c)) links (take_slots (via_counts vias) lanes)"
    and "al_target st =
      map2 (\<lambda>c. mk_link (H (getPartner H c))) links (take_slots (via_counts vias) lanes)"
    using assms(1) by (simp_all add: pass_outcome_def Let_def)
  then show "map slot_of (al_platform st) = take_slots (via_counts vias) lanes"
    and "map slot_of (al_target st) = take_slots (via_counts vias) lanes"
    and "map la_name (al_platform st) = map (\<lambda>c. conn_name (H c)) links"
    and "map la_name (al_target st) = map (\<lambda>c. conn_name (H (getPartner H c))) links"
    by (simp_all only: slots)
qed

lemma pass_outcome_slot_set:
  assumes "pass_outcome H hs links lanes (pass_start vias) st" and "vias \<noteq> []"
  shows "set (take_slots (via_counts vias) lanes) = {(v, j). v < length vias
      \<and> va_links (vias ! v) \<le> j \<and> j < va_links (al_vias st ! v)}"
proof -
  note lanes = pass_outcome_lanes [OF assms]
  have unused: "count_list lanes v = 0" if "\<not> v < length vias" for v
    using lanes(3) that by (auto simp: count_list_0_iff)
  show ?thesis
  proof (intro set_eqI, clarify)
    fix v j
    show "(v, j) \<in> set (take_slots (via_counts vias) lanes) \<longleftrightarrow>
        (v, j) \<in> {(v, j). v < length vias
          \<and> va_links (vias ! v) \<le> j \<and> j < va_links (al_vias st ! v)}"
      using unused lanes(6) [of v]
      by (cases "v < length vias") (simp_all add: set_take_slots lane_counts_def)
  qed
qed

text \<open>A store of two links between a pair of platforms, for the concrete instances.\<close>

definition two_links :: store where
  "two_links = (\<lambda>c. \<lparr>conn_class = LIChannel, conn_name = (if c mod 2 = 0 then ''req'' else ''rsp''),
     sc_type = ''Send'', bitwidth = 20, activity = PyInt 3, conn_module = ''m'',
     partnerChannel = c + 2, sourcePartnerChain = 0, sinkPartnerChain = 0,
     via_idx_egress = 0, via_link_egress = 0, via_idx_ingress = 0, via_link_ingress = 0\<rparr>)"

definition two_lanes :: "via_assignment list" where
  "two_lanes = [\<lparr>va_width = 40, va_load = PyInt 0, va_links = 0\<rparr>,
     \<lparr>va_width = 23, va_load = PyInt 0, va_links = 0\<rparr>]"

lemma usable_two_lanes: "usable_vias two_lanes"
  by (simp add: usable_vias_def two_lanes_def)

text \<open>
  C16: Link allocation always terminates with an assignment.  Given at least one lane, all of
  positive width, \<open>allocateLJF\<close> returns: the repetition with wider header reservations stops
  and no lane arithmetic raises.
\<close>

theorem allocateLJF_returns:
  assumes "usable_vias vias"
  shows "\<exists>st. allocateLJF awb H links vias = Some (Inr st)"
  by (rule allocateLJF_outcome [OF assms]) blast

theorem allocateLJF_returns_witness:
  "\<exists>st. allocateLJF dense_awb two_links [0, 1] two_lanes = Some (Inr st)"
  by (rule allocateLJF_returns [OF usable_two_lanes])

text \<open>
  C4: The assignment is complete and free of collisions: the links come out once each in
  longest-job-first order, each end's record names the link at that end, both ends get the same
  lane and link number, no two links share a lane and number, and the numbers used on a lane are
  exactly those from its first free one up to its new count.
\<close>

theorem allocateLJF_slots:
  assumes "usable_vias vias" and "allocateLJF awb H links vias = Some (Inr st)"
  shows "map la_name (al_platform st) = map (\<lambda>c. conn_name (H c)) (ljf_sort H links)
    \<and> map la_name (al_target st) = map (\<lambda>c. conn_name (H (getPartner H c))) (ljf_sort H links)
    \<and> map slot_of (al_target st) = map slot_of (al_platform st)
    \<and> distinct (map slot_of (al_platform st))
    \<and> set (map slot_of (al_platform st)) = {(v, j). v < length vias
        \<and> va_links (vias ! v) \<le> j \<and> j < va_links (al_vias st ! v)}"
proof -
  have ne: "vias \<noteq> []" using assms(1) by (simp add: usable_vias_def)
  obtain hs lanes where out: "pass_outcome H hs (ljf_sort H links) lanes (pass_start vias) st"
    by (rule allocateLJF_outcomeD [OF assms])
  note slots = pass_outcome_slots [OF out ne]
  have "set (take_slots (via_counts vias) lanes) = {(v, j). v < length vias
      \<and> va_links (vias ! v) \<le> j \<and> j < va_links (al_vias st ! v)}"
    by (rule pass_outcome_slot_set [OF out ne])
  with slots show ?thesis
    by (simp add: distinct_take_slots del: set_map)
qed

theorem allocateLJF_slots_witness:
  "\<exists>st. allocateLJF dense_awb two_links [0, 1] two_lanes = Some (Inr st)
     \<and> map la_name (al_platform st) = [''req'', ''rsp''] \<and> distinct (map slot_of (al_platform st))"
proof -
  obtain st hs lanes where st: "allocateLJF dense_awb two_links [0, 1] two_lanes = Some (Inr st)"
    by (rule allocateLJF_outcome [OF usable_two_lanes])
  show ?thesis
    using allocateLJF_slots [OF usable_two_lanes st] st
    by (simp add: ljf_sort_def ljf_key_def two_links_def)
qed

text \<open>Every record names a lane of the pair.\<close>

lemma allocateLJF_lane:
  assumes "usable_vias vias" and "allocateLJF awb H links vias = Some (Inr st)" and "a \<in> set (al_platform st)"
  shows "la_via_idx a < length vias"
proof -
  have ne: "vias \<noteq> []" using assms(1) by (simp add: usable_vias_def)
  obtain hs lanes where out: "pass_outcome H hs (ljf_sort H links) lanes (pass_start vias) st"
    by (rule allocateLJF_outcomeD [OF assms(1,2)])
  have "slot_of a \<in> set (map slot_of (al_platform st))" using assms(3) by simp
  then show ?thesis
    unfolding pass_outcome_slots(1) [OF out ne] pass_outcome_slot_set [OF out ne] by (simp add: slot_of_def)
qed

text \<open>
  C17: The final assignment is feasible: for every lane there is a reserved header width that the
  sized header of the lane (for its links and its widest link) does not exceed, the lane's load is
  the traffic of its links counted in chunks of link plus reserved header, and no link is wider
  than the width its lane's header was sized for.
\<close>

theorem allocateLJF_feasible:
  assumes "usable_vias vias" and "allocateLJF awb H links vias = Some (Inr st)"
  shows "\<exists>hs lanes. length lanes = length links \<and> length hs = length vias
    \<and> map slot_of (al_platform st) = take_slots (via_counts vias) lanes
    \<and> (\<forall>v<length vias.
        (\<exists>h \<le> hs ! v. header_actual awb (va_width (vias ! v)) (va_links (al_vias st ! v))
            (al_maxLinkWidth st ! v) = Some (Inr h))
      \<and> num_val (va_load (al_vias st ! v)) = num_val (va_load (vias ! v)) +
          (\<Sum>(c, l)\<leftarrow>zip (ljf_sort H links) lanes.
             if l = v then link_cost H (map va_width vias) hs c v else 0)
      \<and> (\<forall>i<length links. lanes ! i = v \<longrightarrow>
           bitwidth (H (ljf_sort H links ! i)) \<le> al_maxLinkWidth st ! v))"
proof -
  have ne: "vias \<noteq> []" using assms(1) by (simp add: usable_vias_def)
  obtain hs lanes where
    len: "length hs = length vias"
    and out: "pass_outcome H hs (ljf_sort H links) lanes (pass_start vias) st"
    and fit: "\<forall>v<length vias. \<exists>h \<le> hs ! v. header_actual awb (va_width (vias ! v))
      (va_links (al_vias st ! v)) (al_maxLinkWidth st ! v) = Some (Inr h)"
    by (rule allocateLJF_outcomeD [OF assms])
  note lanes = pass_outcome_lanes [OF out ne]
  have spec: "lanes = greedy H (map va_width vias) hs (via_loads vias) (ljf_sort H links)"
    "via_loads (al_vias st) =
      greedy_loads H (map va_width vias) hs (via_loads vias) (ljf_sort H links)"
    "al_maxLinkWidth st = lane_widest H (map (\<lambda>via. - 1) vias) (ljf_sort H links) lanes"
    using out by (simp_all add: pass_outcome_def Let_def)
  have load: "num_val (va_load (al_vias st ! v)) = num_val (va_load (vias ! v)) +
      (\<Sum>(c, l)\<leftarrow>zip (ljf_sort H links) lanes.
         if l = v then link_cost H (map va_width vias) hs c v else 0)" if "v < length vias" for v
  proof -
    have "num_val (va_load (al_vias st ! v)) = via_loads (al_vias st) ! v"
      using that lanes(1) by simp
    also have "\<dots> = via_loads vias ! v + (\<Sum>(c, l)\<leftarrow>zip (ljf_sort H links) lanes.
        if l = v then link_cost H (map va_width vias) hs c v else 0)"
      unfolding spec(1,2) by (rule greedy_loads_sum) (use that ne in simp_all)
    finally show ?thesis using that by simp
  qed
  have wide: "bitwidth (H (ljf_sort H links ! i)) \<le> al_maxLinkWidth st ! (lanes ! i)"
    if "i < length links" for i
    using lane_widest_covers [of lanes "ljf_sort H links" "map (\<lambda>via. - 1) vias" i H]
      lanes(2,3) that spec(3) by simp
  show ?thesis
    using len fit load wide lanes(2) pass_outcome_slots(1) [OF out ne]
    by (intro exI [of _ hs] exI [of _ lanes]) auto
qed

theorem allocateLJF_feasible_witness:
  "\<exists>st hs. allocateLJF dense_awb two_links [0, 1] two_lanes = Some (Inr st)
     \<and> (\<exists>h \<le> hs ! 1. header_actual dense_awb 23 (va_links (al_vias st ! 1))
          (al_maxLinkWidth st ! 1) = Some (Inr h))"
proof -
  obtain st hs lanes where st: "allocateLJF dense_awb two_links [0, 1] two_lanes = Some (Inr st)"
    by (rule allocateLJF_outcome [OF usable_two_lanes])
  have "1 < length two_lanes" "va_width (two_lanes ! 1) = 23"
    by (simp_all add: two_lanes_def)
  with allocateLJF_feasible [OF usable_two_lanes st] st show ?thesis
    by metis
qed

text \<open>
  The work on a lane after the first \<open>k\<close> links: the load it started with, and the cost of every link that was
  given to it.
\<close>

definition lane_work ::
  "store \<Rightarrow> int list \<Rightarrow> via_assignment list \<Rightarrow> nat list \<Rightarrow> nat list \<Rightarrow> nat \<Rightarrow> nat \<Rightarrow> rat" where
  "lane_work H hs vias links lanes k v = num_val (va_load (vias ! v)) +
     (\<Sum>(c, l)\<leftarrow>take k (zip links lanes). if l = v then link_cost H (map va_width vias) hs c v else 0)"

lemma greedy_take: "greedy H ws hs loads (take k links) = take k (greedy H ws hs loads links)"
  by (induction links arbitrary: loads k) (auto simp: Let_def take_Cons' )

lemma greedy_choice:
  assumes "ws \<noteq> []" and "length loads = length ws" and "k < length links" and "v < length ws"
  shows "greedy_loads H ws hs loads (take k links) ! (greedy H ws hs loads links ! k)
      + link_cost H ws hs (links ! k) (greedy H ws hs loads links ! k)
    \<le> greedy_loads H ws hs loads (take k links) ! v + link_cost H ws hs (links ! k) v"
  using assms(2,3)
proof (induction links arbitrary: loads k)
  case (Cons c links)
  let ?f = "finish_loads H ws hs loads c"
  show ?case
  proof (cases k)
    case 0
    have "?f ! argmin ?f \<le> ?f ! v"
      using assms(1,4) by (intro argmin_props(3) nth_mem) (auto simp flip: length_0_conv)
    moreover have "?f ! u = loads ! u + link_cost H ws hs c u" if "u < length ws" for u
      using that by (simp add: finish_loads_def)
    ultimately show ?thesis using 0 assms(1,4) by (simp add: Let_def)
  next
    case (Suc j)
    with Cons.IH [of "loads[argmin ?f := ?f ! argmin ?f]" j] Cons.prems show ?thesis by (simp add: Let_def)
  qed
qed simp

lemma lane_work_greedy:
  assumes "vias \<noteq> []" and "v < length vias" and "lanes = greedy H (map va_width vias) hs (via_loads vias) links"
  shows "lane_work H hs vias links lanes k v
    = greedy_loads H (map va_width vias) hs (via_loads vias) (take k links) ! v"
proof -
  have "greedy_loads H (map va_width vias) hs (via_loads vias) (take k links) ! v =
      via_loads vias ! v + sum_list (map (\<lambda>(c, l). if l = v then link_cost H (map va_width vias) hs c v else 0)
        (zip (take k links) (greedy H (map va_width vias) hs (via_loads vias) (take k links))))"
    by (rule greedy_loads_sum) (use assms in simp_all)
  then show ?thesis using assms by (simp add: lane_work_def greedy_take take_zip)
qed

lemma allocateLJF_last_pass:
  assumes "usable_vias vias" and "allocateLJF awb H links vias = Some (Inr st)"
  obtains hs actual lanes where "widened (header_actual awb) H links vias (map (\<lambda>via. 1) vias) hs"
    and "ljf_pass H links vias hs = Inr st" and "check_headers (header_actual awb) st = Some (Inr actual)"
    and "\<not> needRecurse hs actual" and "length hs = length vias"
    and "pass_outcome H hs (ljf_sort H links) lanes (pass_start vias) st"
proof -
  from allocate_last_pass [OF assms(2) [unfolded allocateLJF_def] refl] obtain hs actual where
    r: "widened (header_actual awb) H links vias (map (\<lambda>via. 1) vias) hs" "ljf_pass H links vias hs = Inr st"
      "check_headers (header_actual awb) st = Some (Inr actual)" "\<not> needRecurse hs actual" by blast
  have "length hs = length vias"
    if "widened (header_actual awb) H links vias hs0 hs" "length hs0 = length vias" for hs0 hs
    using that
  proof (induction rule: widened.induct)
    case (widen hs st actual hs')
    from ljf_pass_outcome [OF assms(1) widen.prems, of H links] widen.hyps(1) obtain lanes where
      "pass_outcome H hs (ljf_sort H links) lanes (pass_start vias) st" by auto
    from sized.check_headers_returns [OF assms(1) this, of awb] widen.hyps(2) have "length actual = length vias" by auto
    then show ?case using widen.IH widen.prems by simp
  qed simp
  then have len: "length hs = length vias" using r(1) by simp
  obtain st' lanes where out: "ljf_pass H links vias hs = Inr st'"
    "pass_outcome H hs (ljf_sort H links) lanes (pass_start vias) st'"
    using ljf_pass_outcome [OF assms(1) len] by blast
  then have "pass_outcome H hs (ljf_sort H links) lanes (pass_start vias) st" using r(2) by simp
  with r len that show ?thesis by blast
qed

text \<open>
  C18: Every link goes to the lane on which it finishes first.  The run of \<open>allocateLJF\<close> ends with a pass, made
  with the reservation of header widths that the repetition has reached from one bit per lane and that the
  sized headers fit.  In that pass the links are taken in longest-job-first order; when a link is handed
  out, the work already on its lane plus the link's own cost there is at most what it would be on any other
  lane.  The load a lane ends with is the work it was given, and no lane ends up busier than the
  busiest lane was at the start plus the total work of any assignment of the links to the lanes.
\<close>

theorem allocateLJF_load_bound:
  assumes "usable_vias vias" and "allocateLJF awb H links vias = Some (Inr st)"
  shows "\<exists>hs actual. widened (header_actual awb) H links vias (map (\<lambda>via. 1) vias) hs
    \<and> ljf_pass H links vias hs = Inr st \<and> check_headers (header_actual awb) st = Some (Inr actual)
    \<and> \<not> needRecurse hs actual \<and> length (al_platform st) = length links
    \<and> (let cs = ljf_sort H links; lanes = map la_via_idx (al_platform st); ws = map va_width vias in
        (\<forall>k < length links. \<forall>v < length vias.
           lane_work H hs vias cs lanes k (lanes ! k) + link_cost H ws hs (cs ! k) (lanes ! k)
             \<le> lane_work H hs vias cs lanes k v + link_cost H ws hs (cs ! k) v)
      \<and> (\<forall>v < length vias. num_val (va_load (al_vias st ! v)) = lane_work H hs vias cs lanes (length links) v)
      \<and> (\<forall>f b. (\<forall>via \<in> set vias. num_val (va_load via) \<le> b)
           \<and> (\<forall>c \<in> set links. f c < length vias \<and> 0 \<le> link_cost H ws hs c (f c)) \<longrightarrow>
           (\<forall>via \<in> set (al_vias st). num_val (va_load via) \<le> b + (\<Sum>c\<leftarrow>cs. link_cost H ws hs c (f c)))))"
proof -
  have ne: "vias \<noteq> []" using assms(1) by (simp add: usable_vias_def)
  obtain hs actual lanes where run: "widened (header_actual awb) H links vias (map (\<lambda>via. 1) vias) hs"
    "ljf_pass H links vias hs = Inr st" "check_headers (header_actual awb) st = Some (Inr actual)"
    "\<not> needRecurse hs actual" and len: "length hs = length vias"
    and out: "pass_outcome H hs (ljf_sort H links) lanes (pass_start vias) st"
    by (rule allocateLJF_last_pass [OF assms])
  let ?ws = "map va_width vias" and ?cs = "ljf_sort H links"
  have loads: "lanes = greedy H ?ws hs (via_loads vias) ?cs"
    "via_loads (al_vias st) = greedy_loads H ?ws hs (via_loads vias) ?cs"
    using out by (simp_all add: pass_outcome_def Let_def)
  have chosen: "map la_via_idx (al_platform st) = lanes"
  proof -
    have "map la_via_idx (al_platform st) = map fst (map slot_of (al_platform st))" by (simp add: slot_of_def comp_def)
    then show ?thesis unfolding pass_outcome_slots(1) [OF out ne] by simp
  qed
  have all: "length (al_platform st) = length links"
    using chosen pass_outcome_lanes(2) [OF out ne] by (metis length_ljf_sort length_map)
  have least: "lane_work H hs vias ?cs lanes k (lanes ! k) + link_cost H ?ws hs (?cs ! k) (lanes ! k)
      \<le> lane_work H hs vias ?cs lanes k v + link_cost H ?ws hs (?cs ! k) v"
    if "k < length links" "v < length vias" for k v
  proof -
    have "lanes ! k < length vias"
      using pass_outcome_lanes(2,3) [OF out ne] that(1) by (metis length_ljf_sort lessThan_iff nth_mem subsetD)
    with greedy_choice [of ?ws "via_loads vias" k ?cs v H hs] that ne show ?thesis
      by (simp add: lane_work_greedy [OF ne _ loads(1)] flip: loads(1))
  qed
  have final: "num_val (va_load (al_vias st ! v)) = lane_work H hs vias ?cs lanes (length links) v"
    if "v < length vias" for v
  proof -
    have "num_val (va_load (al_vias st ! v)) = via_loads (al_vias st) ! v"
      using that pass_outcome_lanes(1) [OF out ne] by simp
    then show ?thesis unfolding loads(2) lane_work_greedy [OF ne that loads(1)] by simp
  qed
  have "\<forall>q \<in> set (via_loads (al_vias st)). q \<le> b + (\<Sum>c\<leftarrow>?cs. link_cost H ?ws hs c (f c))"
    if "\<forall>via \<in> set vias. num_val (va_load via) \<le> b"
      "\<forall>c \<in> set links. f c < length vias \<and> 0 \<le> link_cost H ?ws hs c (f c)" for f b
    unfolding loads(2) by (rule greedy_loads_bound) (use that ne in auto)
  then have bound: "\<forall>via \<in> set (al_vias st). num_val (va_load via) \<le> b + (\<Sum>c\<leftarrow>?cs. link_cost H ?ws hs c (f c))"
    if "\<forall>via \<in> set vias. num_val (va_load via) \<le> b"
      "\<forall>c \<in> set links. f c < length vias \<and> 0 \<le> link_cost H ?ws hs c (f c)" for f b
    using that by auto
  show ?thesis unfolding Let_def chosen using run all least final bound by blast
qed

theorem allocateLJF_load_bound_witness:
  "\<exists>st hs. allocateLJF dense_awb two_links [0, 1] two_lanes = Some (Inr st)
     \<and> widened (header_actual dense_awb) two_links [0, 1] two_lanes [1, 1] hs
     \<and> (let u = la_via_idx (al_platform st ! 0) in
         link_cost two_links [40, 23] hs 0 u \<le> link_cost two_links [40, 23] hs 0 (1 - u))"
proof -
  obtain st hs lanes where st: "allocateLJF dense_awb two_links [0, 1] two_lanes = Some (Inr st)"
    by (rule allocateLJF_outcome [OF usable_two_lanes])
  have shape: "length two_lanes = 2" "map va_width two_lanes = [40, 23]" "map (\<lambda>via. 1) two_lanes = [1, 1]"
    by (simp_all add: two_lanes_def)
  have order: "ljf_sort two_links [0, 1] = [0, 1]"
    by (simp add: ljf_sort_def ljf_key_def two_links_def)
  have idle: "lane_work two_links hs two_lanes cs ls 0 v = 0" if "v < 2" for hs cs ls v
    using that by (auto simp: lane_work_def two_lanes_def less_Suc_eq numeral_2_eq_2)
  from allocateLJF_load_bound [OF usable_two_lanes st] obtain hs' where
    w: "widened (header_actual dense_awb) two_links [0, 1] two_lanes [1, 1] hs'"
    and n: "length (al_platform st) = 2"
    and least: "\<forall>k < 2. \<forall>v < 2.
      lane_work two_links hs' two_lanes [0, 1] (map la_via_idx (al_platform st)) k (map la_via_idx (al_platform st) ! k)
        + link_cost two_links [40, 23] hs' ([0, 1] ! k) (map la_via_idx (al_platform st) ! k)
      \<le> lane_work two_links hs' two_lanes [0, 1] (map la_via_idx (al_platform st)) k v
        + link_cost two_links [40, 23] hs' ([0, 1] ! k) v"
    unfolding Let_def shape order by auto
  let ?lanes = "map la_via_idx (al_platform st)"
  have "la_via_idx (al_platform st ! 0) < 2"
    using allocateLJF_lane [OF usable_two_lanes st nth_mem] n shape(1) by simp
  then have u: "?lanes ! 0 < 2" "1 - ?lanes ! 0 < 2" "la_via_idx (al_platform st ! 0) = ?lanes ! 0" using n by auto
  from least [rule_format, of 0 "1 - ?lanes ! 0"] u
  have "link_cost two_links [40, 23] hs' 0 (?lanes ! 0) \<le> link_cost two_links [40, 23] hs' 0 (1 - ?lanes ! 0)"
    by (simp add: idle)
  with st w u(3) show ?thesis by (metis (no_types, lifting))
qed

end
