(* ===== verification/PlatformDesc.thy ===== *)
theory PlatformDesc
  imports Prelude
begin

text \<open>
  \<^verbatim>\<open>parsers/environment/platform.py\<close>, \<^verbatim>\<open>physical_via.py\<close> and \<^verbatim>\<open>parameter.py\<close>: a platform, its
  physical connections and its parameters.  A connection object is reachable under two
  dictionaries (by the platform at its other end and by its physical name) and is updated in
  place, so a platform keeps its connections in one list, in the order they were declared, and the
  dictionaries hold positions of that list.
\<close>

section \<open>Connections and parameters\<close>

datatype via_direction = Ingress | Egress

record physical_via =
  endpointName :: string
  direction :: via_direction
  physicalName :: string
  pv_width :: "int option"

definition mk_PhysicalVia :: "via_direction \<Rightarrow> string \<Rightarrow> string \<Rightarrow> physical_via" where
  "mk_PhysicalVia d endpoint physical =
     \<lparr>endpointName = endpoint, direction = d, physicalName = physical, pv_width = None\<rparr>"

datatype param_value = IntValue int | StrValue string

record parameter =
  param_name :: string
  param_value :: param_value
  param_type :: string

fun str_of_value :: "param_value \<Rightarrow> string" where
  "str_of_value (IntValue i) = str_of_int i"
| "str_of_value (StrValue s) = s"

definition getAWBRepresentation :: "parameter \<Rightarrow> string" where
  "getAWBRepresentation p =
     (if param_type p = ''INT'' then str_of_value (param_value p)
      else [CHR 0x22] @ str_of_value (param_value p) @ [CHR 0x22])"

datatype descriptor = DescVia physical_via | DescParam parameter

section \<open>Platforms\<close>

record platform =
  pl_name :: string
  platformType :: string
  pl_path :: string
  master :: bool
  parameters :: "(string \<times> parameter) list"
  attributes :: "(string \<times> string) list"
  physicalVias :: "physical_via list"
  ingresses :: "(string \<times> nat) list"
  egresses :: "(string \<times> nat) list"
  ingressesByPhysicalName :: "(string \<times> nat) list"
  egressesByPhysicalName :: "(string \<times> nat) list"

definition insertIngress :: "string \<Rightarrow> nat \<Rightarrow> platform \<Rightarrow> platform" where
  "insertIngress target i p = p\<lparr>ingresses := put target i (ingresses p)\<rparr>"

definition insertEgress :: "string \<Rightarrow> nat \<Rightarrow> platform \<Rightarrow> platform" where
  "insertEgress target i p = p\<lparr>egresses := put target i (egresses p)\<rparr>"

fun add_descriptor :: "descriptor \<Rightarrow> platform \<Rightarrow> platform" where
  "add_descriptor (DescVia via) p =
     (let i = length (physicalVias p);
          q = p\<lparr>physicalVias := physicalVias p @ [via]\<rparr>
      in if direction via = Ingress then
           (insertIngress (endpointName via) i q)
             \<lparr>ingressesByPhysicalName := put (physicalName via) i (ingressesByPhysicalName p)\<rparr>
         else
           (insertEgress (endpointName via) i q)
             \<lparr>egressesByPhysicalName := put (physicalName via) i (egressesByPhysicalName p)\<rparr>)"
| "add_descriptor (DescParam prm) p =
     p\<lparr>parameters := put (param_name prm) prm (parameters p)\<rparr>"

definition mk_platform :: "string \<Rightarrow> string \<Rightarrow> bool \<Rightarrow> string \<Rightarrow> descriptor list \<Rightarrow> platform" where
  "mk_platform ptype name isMaster path ds =
     fold add_descriptor ds
       \<lparr>pl_name = name, platformType = ptype, pl_path = path, master = isMaster, parameters = [],
        attributes = [], physicalVias = [], ingresses = [], egresses = [],
        ingressesByPhysicalName = [], egressesByPhysicalName = []\<rparr>"

definition via_at :: "platform \<Rightarrow> (string \<times> nat) list \<Rightarrow> string \<Rightarrow> physical_via option" where
  "via_at p m k = map_option (\<lambda>i. physicalVias p ! i) (map_of m k)"

definition getEgress :: "platform \<Rightarrow> string \<Rightarrow> physical_via res" where
  "getEgress p target =
     (case via_at p (egresses p) target of None \<Rightarrow> Inl (KeyError target) | Some v \<Rightarrow> Inr v)"

definition getIngress :: "platform \<Rightarrow> string \<Rightarrow> physical_via res" where
  "getIngress p target =
     (case via_at p (ingresses p) target of None \<Rightarrow> Inl (KeyError target) | Some v \<Rightarrow> Inr v)"

definition getEgressByPhysicalName :: "platform \<Rightarrow> string \<Rightarrow> physical_via option" where
  "getEgressByPhysicalName p name = via_at p (egressesByPhysicalName p) name"

definition getIngressByPhysicalName :: "platform \<Rightarrow> string \<Rightarrow> physical_via option" where
  "getIngressByPhysicalName p name = via_at p (ingressesByPhysicalName p) name"

definition getEgresses :: "platform \<Rightarrow> (string \<times> physical_via) list" where
  "getEgresses p = map (\<lambda>(k, i). (k, physicalVias p ! i)) (egresses p)"

definition getIngresses :: "platform \<Rightarrow> (string \<times> physical_via) list" where
  "getIngresses p = map (\<lambda>(k, i). (k, physicalVias p ! i)) (ingresses p)"

definition getAPMName :: "platform \<Rightarrow> string" where
  "getAPMName p = rev (takeWhile (\<lambda>c. c \<noteq> CHR ''/'') (rev (pl_path p)))"

definition putAttribute :: "string \<Rightarrow> string \<Rightarrow> platform \<Rightarrow> platform" where
  "putAttribute k v p = p\<lparr>attributes := put k v (attributes p)\<rparr>"

definition getAttribute :: "platform \<Rightarrow> string \<Rightarrow> string res" where
  "getAttribute p k = get_key (attributes p) k (KeyError k)"

section \<open>What the constructor builds\<close>

text \<open>
  The dictionaries of a platform agree with its list of connections: positions are in range,
  keys are the names of the connections they lead to, and directions are kept apart.
\<close>

definition dict_ok :: "physical_via list \<Rightarrow> via_direction \<Rightarrow> (physical_via \<Rightarrow> string)
    \<Rightarrow> (string \<times> nat) list \<Rightarrow> bool" where
  "dict_ok vs d key m \<longleftrightarrow> distinct (keys m) \<and>
     (\<forall>k. map_of m k = None \<longleftrightarrow> \<not> (\<exists>v \<in> set vs. direction v = d \<and> key v = k)) \<and>
     (\<forall>k i. map_of m k = Some i \<longrightarrow> i < length vs \<and> direction (vs ! i) = d \<and> key (vs ! i) = k \<and>
        (\<forall>j. i < j \<and> j < length vs \<longrightarrow> \<not> (direction (vs ! j) = d \<and> key (vs ! j) = k)))"

definition platform_ok :: "platform \<Rightarrow> bool" where
  "platform_ok p \<longleftrightarrow>
     dict_ok (physicalVias p) Ingress endpointName (ingresses p) \<and>
     dict_ok (physicalVias p) Egress endpointName (egresses p) \<and>
     dict_ok (physicalVias p) Ingress physicalName (ingressesByPhysicalName p) \<and>
     dict_ok (physicalVias p) Egress physicalName (egressesByPhysicalName p)"

lemma dict_ok_insert:
  assumes "dict_ok vs d key m" and "direction v = d"
  shows "dict_ok (vs @ [v]) d key (put (key v) (length vs) m)"
  using assms
  by (auto simp: dict_ok_def distinct_keys_put map_of_put nth_append less_Suc_eq)

lemma dict_ok_skip:
  assumes "dict_ok vs d key m" and "direction v \<noteq> d"
  shows "dict_ok (vs @ [v]) d key m"
  using assms by (auto simp: dict_ok_def nth_append less_Suc_eq)

lemma add_descriptor_ok: "platform_ok p \<Longrightarrow> platform_ok (add_descriptor d p)"
proof (cases d)
  case (DescVia via)
  assume "platform_ok p"
  with DescVia show ?thesis
    by (cases "direction via")
      (simp_all add: platform_ok_def insertIngress_def insertEgress_def Let_def dict_ok_insert
        dict_ok_skip)
qed (simp_all add: platform_ok_def)

lemma mk_platform_ok: "platform_ok (mk_platform ptype name isMaster path ds)"
proof -
  have "platform_ok (fold add_descriptor ds p)" if "platform_ok p" for p
    using that by (induction ds arbitrary: p) (simp_all add: add_descriptor_ok)
  then show ?thesis
    by (simp add: mk_platform_def platform_ok_def dict_ok_def keys_def)
qed

lemma mk_platform_fields [simp]:
  "pl_name (mk_platform ptype name isMaster path ds) = name"
  "platformType (mk_platform ptype name isMaster path ds) = ptype"
  "master (mk_platform ptype name isMaster path ds) = isMaster"
  "pl_path (mk_platform ptype name isMaster path ds) = path"
  "attributes (mk_platform ptype name isMaster path ds) = []"
proof -
  have "pl_name (fold add_descriptor ds p) = pl_name p
      \<and> platformType (fold add_descriptor ds p) = platformType p
      \<and> master (fold add_descriptor ds p) = master p
      \<and> pl_path (fold add_descriptor ds p) = pl_path p
      \<and> attributes (fold add_descriptor ds p) = attributes p" for p
  proof (induction ds arbitrary: p)
    case Nil
    show ?case by simp
  next
    case (Cons d ds)
    show ?case using Cons.IH [of "add_descriptor d p"]
      by (cases d) (auto simp: insertIngress_def insertEgress_def Let_def)
  qed
  then show "pl_name (mk_platform ptype name isMaster path ds) = name"
    "platformType (mk_platform ptype name isMaster path ds) = ptype"
    "master (mk_platform ptype name isMaster path ds) = isMaster"
    "pl_path (mk_platform ptype name isMaster path ds) = path"
    "attributes (mk_platform ptype name isMaster path ds) = []"
    by (simp_all add: mk_platform_def)
qed

definition desc_vias :: "descriptor list \<Rightarrow> physical_via list" where
  "desc_vias ds = concat (map (\<lambda>d. case d of DescVia v \<Rightarrow> [v] | DescParam _ \<Rightarrow> []) ds)"

lemma mk_platform_vias [simp]: "physicalVias (mk_platform ptype name isMaster path ds) = desc_vias ds"
proof -
  have "physicalVias (fold add_descriptor ds p) = physicalVias p @ desc_vias ds" for p
  proof (induction ds arbitrary: p)
    case Nil
    show ?case by (simp add: desc_vias_def)
  next
    case (Cons d ds)
    show ?case using Cons.IH [of "add_descriptor d p"]
      by (cases d) (auto simp: desc_vias_def insertIngress_def insertEgress_def Let_def)
  qed
  then show ?thesis by (simp add: mk_platform_def)
qed

text \<open>A lookup is the last connection of its direction and name.\<close>

lemma dict_ok_lookup:
  assumes "dict_ok vs d key m"
  shows "map_option (\<lambda>i. vs ! i) (map_of m k) = find (\<lambda>v. direction v = d \<and> key v = k) (rev vs)"
proof (cases "map_of m k")
  case None
  with assms have "\<not> (\<exists>v \<in> set vs. direction v = d \<and> key v = k)"
    by (simp add: dict_ok_def)
  then show ?thesis
    using None by (auto simp: find_None_iff2)
next
  case (Some i)
  with assms have i: "i < length vs" "direction (vs ! i) = d" "key (vs ! i) = k"
    "\<forall>j. i < j \<and> j < length vs \<longrightarrow> \<not> (direction (vs ! j) = d \<and> key (vs ! j) = k)"
    by (simp_all add: dict_ok_def)
  have r: "rev vs ! (length vs - Suc i) = vs ! i" "length vs - Suc i < length (rev vs)"
    using i(1) by (simp_all add: rev_nth)
  have "i < length vs - Suc j \<and> length vs - Suc j < length vs" if "j < length vs - Suc i" for j
    using that by linarith
  then have later: "\<not> (direction (rev vs ! j) = d \<and> key (rev vs ! j) = k)"
    if "j < length vs - Suc i" for j
    using i(4) that by (simp add: rev_nth)
  have "find (\<lambda>v. direction v = d \<and> key v = k) (rev vs) = Some (vs ! i)"
    unfolding find_Some_iff
    by (rule exI [of _ "length vs - Suc i"]) (use i(2,3) r later in auto)
  with Some show ?thesis by simp
qed

lemma via_at_find:
  assumes "platform_ok p"
  shows "via_at p (egresses p) k = find (\<lambda>v. direction v = Egress \<and> endpointName v = k) (rev (physicalVias p))"
    and "via_at p (ingresses p) k = find (\<lambda>v. direction v = Ingress \<and> endpointName v = k) (rev (physicalVias p))"
    and "via_at p (egressesByPhysicalName p) k =
      find (\<lambda>v. direction v = Egress \<and> physicalName v = k) (rev (physicalVias p))"
    and "via_at p (ingressesByPhysicalName p) k =
      find (\<lambda>v. direction v = Ingress \<and> physicalName v = k) (rev (physicalVias p))"
  using assms unfolding platform_ok_def via_at_def
  by (metis dict_ok_lookup)+

lemma egress_key:
  assumes "platform_ok p" and "(k, v) \<in> set (getEgresses p)"
  shows "endpointName v = k"
  using assms by (auto simp: getEgresses_def platform_ok_def dict_ok_def distinct_keys_map_of)

lemma ingress_key:
  assumes "platform_ok p" and "(k, v) \<in> set (getIngresses p)"
  shows "endpointName v = k"
  using assms by (auto simp: getIngresses_def platform_ok_def dict_ok_def distinct_keys_map_of)

section \<open>Properties\<close>

text \<open>
  The platform constructor files every connection under both of its names: looking a platform
  up as an egress (or ingress) endpoint, or by physical name, gives the last declared connection
  of that direction and name, and nothing when none was declared.
\<close>

theorem mk_platform_lookup:
  "getEgress (mk_platform ptype name isMaster path ds) t =
     (case find (\<lambda>v. direction v = Egress \<and> endpointName v = t) (rev (desc_vias ds)) of
        None \<Rightarrow> Inl (KeyError t) | Some v \<Rightarrow> Inr v)
   \<and> getIngress (mk_platform ptype name isMaster path ds) t =
     (case find (\<lambda>v. direction v = Ingress \<and> endpointName v = t) (rev (desc_vias ds)) of
        None \<Rightarrow> Inl (KeyError t) | Some v \<Rightarrow> Inr v)
   \<and> getEgressByPhysicalName (mk_platform ptype name isMaster path ds) t =
     find (\<lambda>v. direction v = Egress \<and> physicalName v = t) (rev (desc_vias ds))
   \<and> getIngressByPhysicalName (mk_platform ptype name isMaster path ds) t =
     find (\<lambda>v. direction v = Ingress \<and> physicalName v = t) (rev (desc_vias ds))"
  using mk_platform_ok [of ptype name isMaster path ds]
  by (simp add: getEgress_def getIngress_def getEgressByPhysicalName_def
      getIngressByPhysicalName_def via_at_find)

end
