(* ===== verification/FpgaEnvironment.thy ===== *)
theory FpgaEnvironment
  imports PlatformDesc
begin

text \<open>
  \<^verbatim>\<open>parsers/environment/environment.py\<close>: the environment, its connection graph and the transit
  tables that say which physical connection a message for a platform leaves and arrives by.
  The graph library is not part of the repository: a graph is the set of edges the code adds, and
  \<open>shortest_path\<close> is a parameter whose documented behaviour is the predicate
  \<open>shortest_path_spec\<close>.
\<close>

section \<open>Graph and environment\<close>

text \<open>
  \<open>pygraph.algorithms.minmax.shortest_path(graph, source)\<close> returns two dictionaries over the
  nodes reachable from \<open>source\<close>: the predecessor on a shortest path (\<open>None\<close> for the source) and
  the distance.
\<close>

type_synonym graph = "(string \<times> string) list"
type_synonym paths = "(string \<rightharpoonup> string option) \<times> (string \<rightharpoonup> nat)"

record fpga_env =
  platforms :: "(string \<times> platform) list"
  env_graph :: graph
  transitTablesOutgoing :: "(string \<times> (string \<times> string) list) list"
  transitTablesIncoming :: "(string \<times> (string \<times> string) list) list"

definition getPlatform :: "fpga_env \<Rightarrow> string \<Rightarrow> platform res" where
  "getPlatform env name = get_key (platforms env) name (KeyError name)"

definition getPlatformNames :: "fpga_env \<Rightarrow> string list" where
  "getPlatformNames env = keys (platforms env)"

definition addPlatform :: "platform \<Rightarrow> (string \<times> platform) list \<Rightarrow> (string \<times> platform) list" where
  "addPlatform p ps = put (pl_name p) p ps"

definition getSynthesisBoundaryPlatformID :: "(string \<times> platform) list \<Rightarrow> string \<Rightarrow> nat res" where
  "getSynthesisBoundaryPlatformID ps boundary =
     (let isFPGA = (\<lambda>p. platformType p = ''FPGA'' \<or> platformType p = ''BLUESIM'');
          masterList = map fst (filter (\<lambda>(n, p). master p) ps);
          fpgaList = map fst (filter (\<lambda>(n, p). \<not> master p \<and> isFPGA p) ps);
          otherList = map fst (filter (\<lambda>(n, p). \<not> (master p \<or> isFPGA p)) ps)
      in index_of (masterList @ sort fpgaList @ sort otherList) boundary)"

section \<open>The connection graph\<close>

definition improper :: "string \<Rightarrow> string \<Rightarrow> py_error" where
  "improper other name = SyntaxError (other @ '' and '' @ name @ '' improperly connected'')"

definition check_egress ::
  "(string \<times> platform) list \<Rightarrow> string \<Rightarrow> graph \<Rightarrow> string \<times> physical_via \<Rightarrow> graph res" where
  "check_egress ps name g egress =
     (let other = endpointName (snd egress)
      in case map_of ps other of
           None \<Rightarrow> Inl (improper other name)
         | Some q \<Rightarrow>
             if name \<in> set (keys (ingresses q)) then Inr (g @ [(name, other)])
             else Inl (improper other name))"

definition check_ingress ::
  "(string \<times> platform) list \<Rightarrow> string \<Rightarrow> graph \<Rightarrow> string \<times> physical_via \<Rightarrow> graph res" where
  "check_ingress ps name g ingress =
     (let other = endpointName (snd ingress)
      in case map_of ps other of
           None \<Rightarrow> Inl (improper other name)
         | Some q \<Rightarrow>
             if name \<in> set (keys (egresses q)) then Inr g
             else Inl (improper other name))"

definition graphize :: "(string \<times> platform) list \<Rightarrow> graph res" where
  "graphize ps =
     foldR (\<lambda>g (name, p).
       bindR (foldR (check_egress ps name) g (getEgresses p)) (\<lambda>g'.
         foldR (check_ingress ps name) g' (getIngresses p)))
       [] ps"

section \<open>Paths\<close>

definition getPathLength :: "(graph \<Rightarrow> string \<Rightarrow> paths) \<Rightarrow> graph \<Rightarrow> string \<Rightarrow> string \<Rightarrow> int" where
  "getPathLength shortest_path g ingress egress =
     (case snd (shortest_path g ingress) egress of None \<Rightarrow> - 1 | Some d \<Rightarrow> int d)"

text \<open>
  The two loops that walk the predecessors back from the target.  A missing key raises; a walk
  that never meets the source would not return.
\<close>

definition prev_of :: "paths \<Rightarrow> string \<Rightarrow> string option res" where
  "prev_of ps n = (case fst ps n of None \<Rightarrow> Inl (KeyError n) | Some h \<Rightarrow> Inr h)"

partial_function (option) path_walk ::
  "paths \<Rightarrow> string \<Rightarrow> string option \<Rightarrow> string list \<Rightarrow> string list run" where
  "path_walk ps ingress hop path =
     (case hop of
        None \<Rightarrow> Some (Inl (KeyError ''None''))
      | Some n \<Rightarrow>
          (case prev_of ps n of
             Inl e \<Rightarrow> Some (Inl e)
           | Inr h \<Rightarrow>
               if h = Some ingress then Some (Inr path)
               else (case h of
                       None \<Rightarrow> path_walk ps ingress None path
                     | Some m \<Rightarrow> path_walk ps ingress h (path @ [m]))))"

definition getPath :: "(graph \<Rightarrow> string \<Rightarrow> paths) \<Rightarrow> graph \<Rightarrow> string \<Rightarrow> string \<Rightarrow> string list run" where
  "getPath shortest_path g ingress egress =
     (let ps = shortest_path g ingress
      in case prev_of ps egress of
           Inl e \<Rightarrow> Some (Inl e)
         | Inr None \<Rightarrow> Some (Inr [])
         | Inr (Some h) \<Rightarrow>
             bindO (path_walk ps ingress (Some egress) []) (\<lambda>path. Some (Inr (rev path))))"

partial_function (option) first_hop :: "paths \<Rightarrow> string \<Rightarrow> string option \<Rightarrow> string run" where
  "first_hop ps ingress hop =
     (case hop of
        None \<Rightarrow> Some (Inl (KeyError ''None''))
      | Some n \<Rightarrow>
          (case prev_of ps n of
             Inl e \<Rightarrow> Some (Inl e)
           | Inr h \<Rightarrow> if h = Some ingress then Some (Inr n) else first_hop ps ingress h))"

definition getPathHopFirst :: "(graph \<Rightarrow> string \<Rightarrow> paths) \<Rightarrow> graph \<Rightarrow> string \<Rightarrow> string \<Rightarrow> string run" where
  "getPathHopFirst shortest_path g ingress egress =
     first_hop (shortest_path g ingress) ingress (Some egress)"

definition getPathHopLast ::
  "(graph \<Rightarrow> string \<Rightarrow> paths) \<Rightarrow> graph \<Rightarrow> string \<Rightarrow> string \<Rightarrow> string option res" where
  "getPathHopLast shortest_path g ingress egress = prev_of (shortest_path g ingress) egress"

section \<open>Transit tables\<close>

definition getPhysicalEgress :: "(string \<times> platform) list \<Rightarrow> string \<Rightarrow> string \<Rightarrow> string res" where
  "getPhysicalEgress ps p egress =
     bindR (get_key ps p (KeyError p)) (\<lambda>pl.
       bindR (getEgress pl egress) (\<lambda>v. Inr (physicalName v)))"

definition getPhysicalIngress :: "(string \<times> platform) list \<Rightarrow> string \<Rightarrow> string option \<Rightarrow> string res" where
  "getPhysicalIngress ps p ingress =
     bindR (get_key ps p (KeyError p)) (\<lambda>pl.
       case ingress of
         None \<Rightarrow> Inl (KeyError ''None'')
       | Some i \<Rightarrow> bindR (getIngress pl i) (\<lambda>v. Inr (physicalName v)))"

text \<open>One cell of each table: \<open>Inr None\<close> when the pair is unlisted.\<close>

definition outgoing_cell ::
  "(graph \<Rightarrow> string \<Rightarrow> paths) \<Rightarrow> (string \<times> platform) list \<Rightarrow> graph \<Rightarrow> string \<Rightarrow> string
     \<Rightarrow> string option run" where
  "outgoing_cell sp ps g p target =
     (if getPathLength sp g p target > 0 then
        bindO (getPathHopFirst sp g p target) (\<lambda>hop.
          bindO (Some (getPhysicalEgress ps p hop)) (\<lambda>via. Some (Inr (Some via))))
      else Some (Inr None))"

definition incoming_cell ::
  "(graph \<Rightarrow> string \<Rightarrow> paths) \<Rightarrow> (string \<times> platform) list \<Rightarrow> graph \<Rightarrow> string \<Rightarrow> string
     \<Rightarrow> string option run" where
  "incoming_cell sp ps g p target =
     (if getPathLength sp g target p > 0 then
        bindO (Some (getPathHopLast sp g target p)) (\<lambda>hop.
          bindO (Some (getPhysicalIngress ps p hop)) (\<lambda>via. Some (Inr (Some via))))
      else Some (Inr None))"

definition table_row :: "(string \<Rightarrow> string option run) \<Rightarrow> string list \<Rightarrow> (string \<times> string) list run" where
  "table_row cell targets =
     bindO (mapO cell targets) (\<lambda>cs.
       Some (Inr [(t, v). (t, c) \<leftarrow> zip targets cs, v \<leftarrow> (case c of None \<Rightarrow> [] | Some v \<Rightarrow> [v])]))"

definition buildTransitTables ::
  "(graph \<Rightarrow> string \<Rightarrow> paths) \<Rightarrow> (string \<times> platform) list \<Rightarrow> graph
     \<Rightarrow> ((string \<times> (string \<times> string) list) list \<times> (string \<times> (string \<times> string) list) list) run" where
  "buildTransitTables sp ps g =
     (let names = keys ps
      in bindO (mapO (\<lambda>p.
           bindO (table_row (outgoing_cell sp ps g p) names) (\<lambda>out.
             bindO (table_row (incoming_cell sp ps g p) names) (\<lambda>inc. Some (Inr (out, inc))))) names)
         (\<lambda>rows. Some (Inr (zip names (map fst rows), zip names (map snd rows)))))"

definition mk_FPGAEnvironment ::
  "(graph \<Rightarrow> string \<Rightarrow> paths) \<Rightarrow> platform list \<Rightarrow> fpga_env run" where
  "mk_FPGAEnvironment sp platformList =
     (let ps = fold addPlatform platformList []
      in bindO (Some (graphize ps)) (\<lambda>g.
           bindO (buildTransitTables sp ps g) (\<lambda>(out, inc).
             Some (Inr \<lparr>platforms = ps, env_graph = g, transitTablesOutgoing = out,
                        transitTablesIncoming = inc\<rparr>))))"

section \<open>The graph is the paired connections\<close>

definition egress_paired :: "(string \<times> platform) list \<Rightarrow> string \<Rightarrow> string \<times> physical_via \<Rightarrow> bool" where
  "egress_paired ps name e \<longleftrightarrow>
     (\<exists>q. map_of ps (endpointName (snd e)) = Some q \<and> name \<in> set (keys (ingresses q)))"

definition ingress_paired :: "(string \<times> platform) list \<Rightarrow> string \<Rightarrow> string \<times> physical_via \<Rightarrow> bool" where
  "ingress_paired ps name i \<longleftrightarrow>
     (\<exists>q. map_of ps (endpointName (snd i)) = Some q \<and> name \<in> set (keys (egresses q)))"

definition all_paired :: "(string \<times> platform) list \<Rightarrow> bool" where
  "all_paired ps \<longleftrightarrow> (\<forall>(n, p) \<in> set ps.
     (\<forall>e \<in> set (getEgresses p). egress_paired ps n e)
   \<and> (\<forall>i \<in> set (getIngresses p). ingress_paired ps n i))"

definition egress_edges :: "(string \<times> platform) list \<Rightarrow> graph" where
  "egress_edges ps = concat (map (\<lambda>(n, p). map (\<lambda>e. (n, endpointName (snd e))) (getEgresses p)) ps)"

lemma check_egress_Inr:
  "check_egress ps n g e = Inr g' \<longleftrightarrow> egress_paired ps n e \<and> g' = g @ [(n, endpointName (snd e))]"
  by (auto simp: check_egress_def egress_paired_def Let_def split: option.splits if_splits)

lemma check_ingress_Inr:
  "check_ingress ps n g i = Inr g' \<longleftrightarrow> ingress_paired ps n i \<and> g' = g @ []"
  by (auto simp: check_ingress_def ingress_paired_def Let_def split: option.splits if_splits)

lemma graphize_iff: "graphize ps = Inr g \<longleftrightarrow> all_paired ps \<and> g = egress_edges ps"
proof -
  let ?f = "\<lambda>g (name, p). bindR (foldR (check_egress ps name) g (getEgresses p)) (\<lambda>g'.
         foldR (check_ingress ps name) g' (getIngresses p))"
  let ?ok = "\<lambda>(n, p). (\<forall>e \<in> set (getEgresses p). egress_paired ps n e)
   \<and> (\<forall>i \<in> set (getIngresses p). ingress_paired ps n i)"
  let ?h = "\<lambda>(n, p). map (\<lambda>e. (n, endpointName (snd e))) (getEgresses p)"
  have egr: "foldR (check_egress ps n) g es = Inr g' \<longleftrightarrow>
      (\<forall>e \<in> set es. egress_paired ps n e) \<and> g' = g @ map (\<lambda>e. (n, endpointName (snd e))) es"
    for n g es g'
    by (subst foldR_checked [where ok = "egress_paired ps n" and h = "\<lambda>e. [(n, endpointName (snd e))]"])
      (auto simp: check_egress_Inr)
  have ing: "foldR (check_ingress ps n) g es = Inr g' \<longleftrightarrow>
      (\<forall>e \<in> set es. ingress_paired ps n e) \<and> g' = g"
    for n g es g'
    by (subst foldR_checked [where ok = "ingress_paired ps n" and h = "\<lambda>e. []"])
      (auto simp: check_ingress_Inr)
  have "foldR ?f [] ps = Inr g \<longleftrightarrow> (\<forall>x \<in> set ps. ?ok x) \<and> g = [] @ concat (map ?h ps)"
    by (rule foldR_checked) (auto simp: bindR_eq_Inr egr ing split: prod.splits)
  then show ?thesis
    by (simp add: graphize_def all_paired_def egress_edges_def split_def)
qed

text \<open>
  The platforms an environment is built from: dictionaries filed under their own names.
\<close>

definition env_ok :: "(string \<times> platform) list \<Rightarrow> bool" where
  "env_ok ps \<longleftrightarrow> distinct (keys ps) \<and> (\<forall>(n, p) \<in> set ps. pl_name p = n \<and> platform_ok p)"

lemma env_ok_addPlatform:
  assumes "env_ok ps" and "platform_ok p"
  shows "env_ok (addPlatform p ps)"
proof -
  have "(n, q) \<in> set (put (pl_name p) p ps) \<Longrightarrow> (n, q) = (pl_name p, p) \<or> (n, q) \<in> set ps" for n q
    by (induction ps) (auto split: if_splits)
  with assms show ?thesis
    by (fastforce simp: env_ok_def addPlatform_def distinct_keys_put)
qed

lemma env_ok_fold: "env_ok ps \<Longrightarrow> \<forall>p \<in> set pl. platform_ok p \<Longrightarrow> env_ok (fold addPlatform pl ps)"
  by (induction pl arbitrary: ps) (auto simp: env_ok_addPlatform)

lemma env_ok_build: "\<forall>p \<in> set pl. platform_ok p \<Longrightarrow> env_ok (fold addPlatform pl [])"
  by (rule env_ok_fold) (simp_all add: env_ok_def keys_def)

lemma getEgresses_lookup:
  assumes "platform_ok p"
  shows "(k, v) \<in> set (getEgresses p) \<longleftrightarrow> getEgress p k = Inr v"
    and "(k, v) \<in> set (getIngresses p) \<longleftrightarrow> getIngress p k = Inr v"
proof -
  have "distinct (keys (egresses p))" "distinct (keys (ingresses p))"
    using assms by (simp_all add: platform_ok_def dict_ok_def)
  then show "(k, v) \<in> set (getEgresses p) \<longleftrightarrow> getEgress p k = Inr v"
    and "(k, v) \<in> set (getIngresses p) \<longleftrightarrow> getIngress p k = Inr v"
    by (auto simp: getEgresses_def getEgress_def getIngresses_def getIngress_def via_at_def
        distinct_keys_map_of split: option.splits)
qed

lemma key_lookup:
  "k \<in> set (keys (egresses p)) \<longleftrightarrow> (\<exists>v. getEgress p k = Inr v)"
  "k \<in> set (keys (ingresses p)) \<longleftrightarrow> (\<exists>v. getIngress p k = Inr v)"
  by (auto simp: keys_map_of getEgress_def getIngress_def via_at_def split: option.splits)

text \<open>An edge has a usable connection at both ends.\<close>

lemma egress_edge_ends:
  assumes "env_ok ps" and "all_paired ps" and "(a, b) \<in> set (egress_edges ps)"
  obtains p q v w where "map_of ps a = Some p" "map_of ps b = Some q"
    "getEgress p b = Inr v" "getIngress q a = Inr w"
proof -
  from assms(3) obtain p e where p: "(a, p) \<in> set ps" "e \<in> set (getEgresses p)"
    "b = endpointName (snd e)"
    by (auto simp: egress_edges_def)
  obtain k v where e: "e = (k, v)" by (cases e)
  have ok: "platform_ok p" and dist: "distinct (keys ps)"
    using assms(1) p(1) by (auto simp: env_ok_def)
  have "k = b" using egress_key [OF ok] p(2,3) e by simp
  then have "getEgress p b = Inr v"
    using getEgresses_lookup(1) [OF ok] p(2) e by blast
  moreover have "map_of ps a = Some p"
    using p(1) dist by (simp add: distinct_keys_map_of)
  moreover have "egress_paired ps a e"
    using assms(2) p(1,2) unfolding all_paired_def by fastforce
  then obtain q where "map_of ps b = Some q" "a \<in> set (keys (ingresses q))"
    using p(3) by (auto simp: egress_paired_def)
  ultimately show ?thesis
    using that by (auto simp: key_lookup)
qed

lemma egress_edge_names:
  assumes "env_ok ps" and "all_paired ps" and "(a, b) \<in> set (egress_edges ps)"
  shows "a \<in> set (keys ps)" and "b \<in> set (keys ps)"
  using egress_edge_ends [OF assms] by (metis map_of_key_mem)+

section \<open>Shortest paths\<close>

inductive walk :: "graph \<Rightarrow> nat \<Rightarrow> string \<Rightarrow> string \<Rightarrow> bool" for g where
  walk_refl: "walk g 0 u u"
| walk_step: "walk g n u w \<Longrightarrow> (w, v) \<in> set g \<Longrightarrow> walk g (Suc n) u v"

inductive_simps walk_0: "walk g 0 u v"
inductive_simps walk_Suc: "walk g (Suc n) u v"

lemma walk_Cons: "(u, w) \<in> set g \<Longrightarrow> walk g n w v \<Longrightarrow> walk g (Suc n) u v"
proof (induction n arbitrary: v)
  case 0
  then show ?case by (auto simp: walk_0 walk_Suc)
next
  case (Suc n)
  from Suc.prems(2) obtain x where "walk g n w x" "(x, v) \<in> set g"
    by (auto simp: walk_Suc)
  with Suc show ?case by (meson walk_step)
qed

definition shortest_path_spec :: "graph \<Rightarrow> string \<Rightarrow> paths \<Rightarrow> bool" where
  "shortest_path_spec g src ps \<longleftrightarrow>
     (\<forall>v. snd ps v = None \<longleftrightarrow> (\<forall>n. \<not> walk g n src v)) \<and>
     (\<forall>v d. snd ps v = Some d \<longrightarrow> walk g d src v \<and> (\<forall>n. walk g n src v \<longrightarrow> d \<le> n)) \<and>
     fst ps src = Some None \<and>
     (\<forall>v. v \<noteq> src \<longrightarrow>
        (case snd ps v of
           None \<Rightarrow> fst ps v = None
         | Some d \<Rightarrow> (\<exists>u. fst ps v = Some (Some u) \<and> (u, v) \<in> set g \<and> walk g (d - 1) src u \<and> 0 < d)))"

locale path_finder =
  fixes sp :: "graph \<Rightarrow> string \<Rightarrow> paths"
  assumes spec: "shortest_path_spec g src (sp g src)"
begin

lemma dist_None: "snd (sp g src) v = None \<longleftrightarrow> (\<forall>n. \<not> walk g n src v)"
  using spec [of g src] by (simp add: shortest_path_spec_def)

lemma dist_Some:
  assumes "snd (sp g src) v = Some d"
  shows "walk g d src v" and "walk g n src v \<Longrightarrow> d \<le> n"
  using spec [of g src] assms by (auto simp: shortest_path_spec_def)

lemma dist_eq_Some: "snd (sp g src) v = Some d \<longleftrightarrow> walk g d src v \<and> (\<forall>n. walk g n src v \<longrightarrow> d \<le> n)"
proof
  assume r: "walk g d src v \<and> (\<forall>n. walk g n src v \<longrightarrow> d \<le> n)"
  then have "snd (sp g src) v \<noteq> None"
    using dist_None [of g src v] by blast
  then obtain e where e: "snd (sp g src) v = Some e"
    by blast
  have "d = e"
    using dist_Some(1) [OF e] dist_Some(2) [OF e, of d] r by (simp add: le_antisym)
  with e show "snd (sp g src) v = Some d" by simp
qed (simp add: dist_Some)

lemma dist_self: "snd (sp g src) src = Some 0"
  by (simp add: dist_eq_Some walk_0)

lemma prev_self: "fst (sp g src) src = Some None"
  using spec [of g src] by (simp add: shortest_path_spec_def)

lemma prev_Some:
  assumes "snd (sp g src) v = Some d" and "v \<noteq> src"
  obtains u where "fst (sp g src) v = Some (Some u)" "(u, v) \<in> set g"
    "snd (sp g src) u = Some (d - 1)" "0 < d"
proof -
  have "\<exists>u. fst (sp g src) v = Some (Some u) \<and> (u, v) \<in> set g \<and> walk g (d - 1) src u \<and> 0 < d"
    using spec [of g src] assms unfolding shortest_path_spec_def
    by (elim conjE allE [of _ v]) simp
  then obtain u where u: "fst (sp g src) v = Some (Some u)" "(u, v) \<in> set g"
    "walk g (d - 1) src u" "0 < d"
    by blast
  have "d - 1 \<le> n" if "walk g n src u" for n
    using dist_Some(2) [OF assms(1) walk_step [OF that u(2)]] by simp
  with u that show ?thesis by (simp add: dist_eq_Some)
qed

lemma prev_None: "snd (sp g src) v = None \<Longrightarrow> fst (sp g src) v = None"
  using spec [of g src] dist_self [of g src]
  by (cases "v = src") (auto simp: shortest_path_spec_def split: option.splits)

lemma first_hop_edge:
  assumes "snd (sp g src) v = Some d" and "v \<noteq> src"
  shows "\<exists>h. first_hop (sp g src) src (Some v) = Some (Inr h) \<and> (src, h) \<in> set g \<and> walk g (d - 1) h v"
  using assms
proof (induction d arbitrary: v)
  case 0
  then show ?case by (metis prev_Some less_irrefl)
next
  case (Suc d)
  obtain u where u: "fst (sp g src) v = Some (Some u)" "(u, v) \<in> set g" "snd (sp g src) u = Some d"
    by (rule prev_Some [OF Suc.prems]) simp
  show ?case
  proof (cases "u = src")
    case True
    with u(3) have "d = 0" by (simp add: dist_self)
    with True u show ?thesis
      by (subst first_hop.simps) (simp add: prev_of_def walk_0)
  next
    case False
    from Suc.IH [OF u(3) this] obtain h where
      h: "first_hop (sp g src) src (Some u) = Some (Inr h)" "(src, h) \<in> set g" "walk g (d - 1) h u"
      by blast
    have "0 < d" by (rule prev_Some [OF u(3) False])
    then have "walk g d h v"
      using walk_step [OF h(3) u(2)] by simp
    with h False u(1) show ?thesis
      by (subst first_hop.simps) (simp add: prev_of_def)
  qed
qed

lemma path_walk_chain:
  assumes "snd (sp g src) v = Some d" and "v \<noteq> src"
  shows "\<exists>p. path_walk (sp g src) src (Some v) acc = Some (Inr (acc @ p)) \<and> length p = d - 1
    \<and> successively (\<lambda>a b. (a, b) \<in> set g) (src # rev p @ [v])"
  using assms
proof (induction d arbitrary: v acc)
  case 0
  then show ?case by (metis prev_Some less_irrefl)
next
  case (Suc d)
  obtain u where u: "fst (sp g src) v = Some (Some u)" "(u, v) \<in> set g" "snd (sp g src) u = Some d"
    by (rule prev_Some [OF Suc.prems]) simp
  show ?case
  proof (cases "u = src")
    case True
    with u(3) have "d = 0" by (simp add: dist_self)
    with True u show ?thesis
      by (intro exI [of _ "[]"], subst path_walk.simps) (simp add: prev_of_def)
  next
    case False
    from Suc.IH [OF u(3) this, of "acc @ [u]"] obtain p where
      p: "path_walk (sp g src) src (Some u) (acc @ [u]) = Some (Inr ((acc @ [u]) @ p))"
        "length p = d - 1" "successively (\<lambda>a b. (a, b) \<in> set g) (src # rev p @ [u])"
      by blast
    have "0 < d" by (rule prev_Some [OF u(3) False])
    moreover have "successively (\<lambda>a b. (a, b) \<in> set g) ((src # rev p @ [u]) @ [v])"
      unfolding successively_append_iff using p(3) u(2) by simp
    ultimately show ?thesis
      using p False u(1)
      by (intro exI [of _ "u # p"], subst path_walk.simps) (simp add: prev_of_def)
  qed
qed

end

section \<open>The tables are complete and lead to their targets\<close>

lemma map_of_optional:
  assumes "length ts = length cs" and "distinct ts" and "i < length ts"
  shows "map_of [(t, v). (t, c) \<leftarrow> zip ts cs, v \<leftarrow> (case c of None \<Rightarrow> [] | Some v \<Rightarrow> [v])] (ts ! i) = cs ! i"
  using assms
proof (induction ts cs arbitrary: i rule: list_induct2)
  case Nil
  then show ?case by simp
next
  case (Cons t ts c cs)
  let ?row = "[(t, v). (t, c) \<leftarrow> zip ts cs, v \<leftarrow> (case c of None \<Rightarrow> [] | Some v \<Rightarrow> [v])]"
  have new: "map_of ?row t = None"
    using Cons.prems(1) by (auto simp: map_of_eq_None_iff dest: set_zip_leftD)
  show ?case
  proof (cases i)
    case 0
    with new show ?thesis by (cases c) auto
  next
    case (Suc j)
    with Cons.prems have "t \<noteq> ts ! j" "j < length ts" by auto
    with Suc Cons show ?thesis by (cases c) auto
  qed
qed

lemma table_row_returns:
  assumes "distinct ts" and "\<And>t. t \<in> set ts \<Longrightarrow> \<exists>c. cell t = Some (Inr c)"
  shows "\<exists>row. table_row cell ts = Some (Inr row) \<and> (\<forall>t \<in> set ts. cell t = Some (Inr (map_of row t)))"
proof -
  obtain cs where cs: "mapO cell ts = Some (Inr cs)" "list_all2 (\<lambda>t c. cell t = Some (Inr c)) ts cs"
    using mapO_returns [of ts cell] assms(2) by blast
  let ?row = "[(t, v). (t, c) \<leftarrow> zip ts cs, v \<leftarrow> (case c of None \<Rightarrow> [] | Some v \<Rightarrow> [v])]"
  have len: "length ts = length cs" by (rule list_all2_lengthD [OF cs(2)])
  have "cell t = Some (Inr (map_of ?row t))" if "t \<in> set ts" for t
  proof -
    from that obtain i where i: "i < length ts" "t = ts ! i"
      by (auto simp: in_set_conv_nth)
    have "cell (ts ! i) = Some (Inr (cs ! i))"
      by (rule list_all2_nthD [OF cs(2) i(1)])
    with map_of_optional [OF len assms(1) i(1)] i(2) show ?thesis by (simp only:)
  qed
  with cs(1) show ?thesis
    by (intro exI [of _ ?row]) (simp add: table_row_def)
qed

context path_finder
begin

lemma getPathLength_pos: "getPathLength sp g a b > 0 \<longleftrightarrow> (\<exists>d>0. snd (sp g a) b = Some d)"
  by (auto simp: getPathLength_def split: option.splits)

lemma outgoing_cell_returns:
  assumes ok: "env_ok ps" "all_paired ps" and g: "g = egress_edges ps"
  shows "\<exists>c. outgoing_cell sp ps g p t = Some (Inr c) \<and>
    (\<forall>d>0. snd (sp g p) t = Some d \<longrightarrow>
       (\<exists>h q v. map_of ps p = Some q \<and> getEgress q h = Inr v \<and> c = Some (physicalName v)
          \<and> (p, h) \<in> set g \<and> walk g (d - 1) h t))"
proof (cases "getPathLength sp g p t > 0")
  case False
  moreover have "snd (sp g p) t \<noteq> Some d" if "0 < d" for d
    using False that getPathLength_pos by blast
  ultimately show ?thesis
    by (intro exI [of _ None]) (auto simp: outgoing_cell_def)
next
  case True
  then obtain d where d: "0 < d" "snd (sp g p) t = Some d"
    by (auto simp: getPathLength_pos)
  then have "t \<noteq> p" by (auto simp: dist_self)
  from first_hop_edge [OF d(2) this] obtain h where
    h: "first_hop (sp g p) p (Some t) = Some (Inr h)" "(p, h) \<in> set g" "walk g (d - 1) h t"
    by blast
  obtain q v where q: "map_of ps p = Some q" "getEgress q h = Inr v"
    by (rule egress_edge_ends [OF ok h(2) [unfolded g]])
  have "getPhysicalEgress ps p h = Inr (physicalName v)"
    using q by (simp add: getPhysicalEgress_def get_key_def)
  then have "outgoing_cell sp ps g p t = Some (Inr (Some (physicalName v)))"
    using True h(1) by (simp add: outgoing_cell_def getPathHopFirst_def)
  moreover have "d' = d" if "snd (sp g p) t = Some d'" for d'
    using d that by simp
  ultimately show ?thesis
    using q h by (intro exI [of _ "Some (physicalName v)"]) blast
qed

lemma incoming_cell_returns:
  assumes ok: "env_ok ps" "all_paired ps" and g: "g = egress_edges ps"
  shows "\<exists>c. incoming_cell sp ps g p t = Some (Inr c) \<and>
    (\<forall>d>0. snd (sp g t) p = Some d \<longrightarrow>
       (\<exists>h q v. map_of ps p = Some q \<and> getIngress q h = Inr v \<and> c = Some (physicalName v)
          \<and> (h, p) \<in> set g \<and> snd (sp g t) h = Some (d - 1)))"
proof (cases "getPathLength sp g t p > 0")
  case False
  moreover have "snd (sp g t) p \<noteq> Some d" if "0 < d" for d
    using False that getPathLength_pos by blast
  ultimately show ?thesis
    by (intro exI [of _ None]) (auto simp: incoming_cell_def)
next
  case True
  then obtain d where d: "0 < d" "snd (sp g t) p = Some d"
    by (auto simp: getPathLength_pos)
  then have "p \<noteq> t" by (auto simp: dist_self)
  then obtain h where h: "fst (sp g t) p = Some (Some h)" "(h, p) \<in> set g"
    "snd (sp g t) h = Some (d - 1)"
    using prev_Some [OF d(2)] by metis
  obtain q v where q: "map_of ps p = Some q" "getIngress q h = Inr v"
    by (rule egress_edge_ends [OF ok h(2) [unfolded g]])
  have "getPhysicalIngress ps p (Some h) = Inr (physicalName v)"
    using q by (simp add: getPhysicalIngress_def get_key_def)
  then have "incoming_cell sp ps g p t = Some (Inr (Some (physicalName v)))"
    using True h(1) by (simp add: incoming_cell_def getPathHopLast_def prev_of_def)
  moreover have "d' = d" if "snd (sp g t) p = Some d'" for d'
    using d that by simp
  ultimately show ?thesis
    using q h by (intro exI [of _ "Some (physicalName v)"]) blast
qed

lemma buildTransitTables_returns:
  assumes ok: "env_ok ps" "all_paired ps" and g: "g = egress_edges ps"
  shows "\<exists>out inc. buildTransitTables sp ps g = Some (Inr (out, inc)) \<and>
    (\<forall>p \<in> set (keys ps). \<exists>orow irow. map_of out p = Some orow \<and> map_of inc p = Some irow \<and>
      (\<forall>t \<in> set (keys ps). outgoing_cell sp ps g p t = Some (Inr (map_of orow t))
         \<and> incoming_cell sp ps g p t = Some (Inr (map_of irow t))))"
proof -
  let ?names = "keys ps"
  have dist: "distinct ?names" using ok(1) by (simp add: env_ok_def)
  let ?orow = "\<lambda>p. table_row (outgoing_cell sp ps g p) ?names"
  let ?irow = "\<lambda>p. table_row (incoming_cell sp ps g p) ?names"
  let ?row = "\<lambda>p. bindO (?orow p) (\<lambda>out. bindO (?irow p) (\<lambda>inc. Some (Inr (out, inc))))"
  have rows: "\<exists>r. ?row p = Some (Inr r) \<and>
      (\<forall>t \<in> set ?names. outgoing_cell sp ps g p t = Some (Inr (map_of (fst r) t))
         \<and> incoming_cell sp ps g p t = Some (Inr (map_of (snd r) t)))" for p
  proof -
    obtain o1 where o1: "?orow p = Some (Inr o1)"
      "\<forall>t \<in> set ?names. outgoing_cell sp ps g p t = Some (Inr (map_of o1 t))"
      using table_row_returns [OF dist, of "outgoing_cell sp ps g p"]
        outgoing_cell_returns [OF ok g] by blast
    obtain i1 where i1: "?irow p = Some (Inr i1)"
      "\<forall>t \<in> set ?names. incoming_cell sp ps g p t = Some (Inr (map_of i1 t))"
      using table_row_returns [OF dist, of "incoming_cell sp ps g p"]
        incoming_cell_returns [OF ok g] by blast
    show ?thesis using o1 i1 by (intro exI [of _ "(o1, i1)"]) simp
  qed
  obtain rs where rs: "mapO ?row ?names = Some (Inr rs)"
    "list_all2 (\<lambda>p r. ?row p = Some (Inr r)) ?names rs"
    using mapO_returns [of ?names ?row] rows by blast
  let ?out = "zip ?names (map fst rs)" and ?inc = "zip ?names (map snd rs)"
  have "\<exists>orow irow. map_of ?out p = Some orow \<and> map_of ?inc p = Some irow \<and>
      (\<forall>t \<in> set ?names. outgoing_cell sp ps g p t = Some (Inr (map_of orow t))
         \<and> incoming_cell sp ps g p t = Some (Inr (map_of irow t)))" if "p \<in> set ?names" for p
  proof -
    have len: "length ?names = length rs" by (rule list_all2_lengthD [OF rs(2)])
    from that obtain i where i: "i < length ?names" "p = ?names ! i"
      by (auto simp: in_set_conv_nth)
    have "?row p = Some (Inr (rs ! i))"
      using list_all2_nthD [OF rs(2) i(1)] i(2) by simp
    moreover have "map_of ?out p = Some (fst (rs ! i))" "map_of ?inc p = Some (snd (rs ! i))"
      using i len dist by (simp_all add: map_of_zip_nth)
    ultimately show ?thesis using rows [of p] by auto
  qed
  with rs(1) show ?thesis
    by (intro exI [of _ ?out] exI [of _ ?inc]) (simp add: buildTransitTables_def Let_def)
qed

end

section \<open>A shortest path search\<close>

text \<open>
  Breadth-first layers, as an instance of the contract: \<open>layer g src n\<close> lists the nodes that
  a walk of \<open>n\<close> edges reaches.
\<close>

fun layer :: "graph \<Rightarrow> string \<Rightarrow> nat \<Rightarrow> string list" where
  "layer g src 0 = [src]"
| "layer g src (Suc n) = map snd (filter (\<lambda>(u, v). u \<in> set (layer g src n)) g)"

definition bfs_dist :: "graph \<Rightarrow> string \<Rightarrow> string \<Rightarrow> nat option" where
  "bfs_dist g src v = find (\<lambda>n. v \<in> set (layer g src n)) [0..<Suc (length g)]"

definition bfs_prev :: "graph \<Rightarrow> string \<Rightarrow> string \<Rightarrow> string option option" where
  "bfs_prev g src v =
     (case bfs_dist g src v of
        None \<Rightarrow> None
      | Some 0 \<Rightarrow> Some None
      | Some (Suc d) \<Rightarrow> Some (map_option fst (find (\<lambda>(u, w). w = v \<and> u \<in> set (layer g src d)) g)))"

definition bfs :: "graph \<Rightarrow> string \<Rightarrow> paths" where
  "bfs g src = (bfs_prev g src, bfs_dist g src)"

lemma layer_walk: "v \<in> set (layer g src n) \<longleftrightarrow> walk g n src v"
  by (induction n arbitrary: v) (force simp: walk_0 walk_Suc image_iff)+

lemma shortest_prefix:
  assumes "walk g d u v" and "\<And>n. walk g n u v \<Longrightarrow> d \<le> n" and "i < d"
  shows "\<exists>a b. (a, b) \<in> set g \<and> walk g (Suc i) u b \<and> (\<forall>n. walk g n u b \<longrightarrow> Suc i \<le> n)"
  using assms
proof (induction d arbitrary: v)
  case 0
  then show ?case by simp
next
  case (Suc d)
  from Suc.prems(1) obtain w where w: "walk g d u w" "(w, v) \<in> set g"
    by (auto simp: walk_Suc)
  have min: "d \<le> n" if "walk g n u w" for n
    using Suc.prems(2) [OF walk_step [OF that w(2)]] by simp
  show ?case
  proof (cases "i = d")
    case True
    with Suc.prems w(2) show ?thesis by blast
  next
    case False
    with Suc.prems(3) Suc.IH [OF w(1) min] show ?thesis by simp
  qed
qed

lemma shortest_length:
  assumes "walk g d u v" and "\<And>n. walk g n u v \<Longrightarrow> d \<le> n"
  shows "d \<le> length g"
proof -
  let ?at = "\<lambda>i b. walk g (Suc i) u b \<and> (\<forall>n. walk g n u b \<longrightarrow> Suc i \<le> n)"
  have "\<forall>i \<in> {..<d}. \<exists>e. e \<in> set g \<and> ?at i (snd e)"
    using shortest_prefix [OF assms] by fastforce
  then obtain f where f: "\<forall>i \<in> {..<d}. f i \<in> set g \<and> ?at i (snd (f i))"
    by (rule bchoice [THEN exE])
  have "inj_on f {..<d}"
  proof (rule inj_onI)
    fix i j
    assume "i \<in> {..<d}" "j \<in> {..<d}" "f i = f j"
    with f have "?at i (snd (f i))" "?at j (snd (f i))" by metis+
    then show "i = j" by (meson Suc_le_mono le_antisym)
  qed
  then have "d \<le> card (set g)"
    using f card_inj_on_le [of f "{..<d}" "set g"] by auto
  also have "\<dots> \<le> length g" by (rule card_length)
  finally show ?thesis .
qed

lemma bfs_dist_spec:
  "bfs_dist g src v = Some d \<longleftrightarrow> walk g d src v \<and> (\<forall>n. walk g n src v \<longrightarrow> d \<le> n)"
proof
  assume "bfs_dist g src v = Some d"
  then obtain i where i: "i < Suc (length g)" "v \<in> set (layer g src i)" "d = i"
    "\<forall>j<i. v \<notin> set (layer g src j)"
    by (auto simp: bfs_dist_def find_Some_iff nth_upt simp del: upt_Suc)
  then show "walk g d src v \<and> (\<forall>n. walk g n src v \<longrightarrow> d \<le> n)"
    by (simp add: layer_walk) (meson not_le)
next
  assume w: "walk g d src v \<and> (\<forall>n. walk g n src v \<longrightarrow> d \<le> n)"
  then have "d < Suc (length g)"
    using shortest_length [of g d src v] by simp
  then show "bfs_dist g src v = Some d"
    using w by (auto simp: bfs_dist_def find_Some_iff nth_upt layer_walk not_le [symmetric]
        simp del: upt_Suc intro!: exI [of _ d])
qed

lemma shortest_exists:
  assumes "walk g n src v"
  obtains d where "walk g d src v" "\<And>m. walk g m src v \<Longrightarrow> d \<le> m"
  using LeastI [of "\<lambda>n. walk g n src v", OF assms] Least_le [of "\<lambda>n. walk g n src v"] by blast

lemma bfs_dist_None: "bfs_dist g src v = None \<longleftrightarrow> (\<forall>n. \<not> walk g n src v)"
proof
  assume "bfs_dist g src v = None"
  then show "\<forall>n. \<not> walk g n src v"
    by (metis bfs_dist_spec option.distinct(1) shortest_exists)
next
  assume "\<forall>n. \<not> walk g n src v"
  then show "bfs_dist g src v = None"
    using bfs_dist_spec by (cases "bfs_dist g src v") blast+
qed

lemma bfs_prev_spec:
  assumes "bfs_dist g src v = Some d" and "v \<noteq> src"
  shows "\<exists>u. bfs_prev g src v = Some (Some u) \<and> (u, v) \<in> set g \<and> walk g (d - 1) src u \<and> 0 < d"
proof (cases d)
  case 0
  with assms show ?thesis by (simp add: bfs_dist_spec walk_0)
next
  case (Suc e)
  let ?P = "\<lambda>(u, w). w = v \<and> u \<in> set (layer g src e)"
  have "walk g (Suc e) src v" using assms(1) Suc by (simp add: bfs_dist_spec)
  then obtain u where "walk g e src u" "(u, v) \<in> set g" by (auto simp: walk_Suc)
  then have "find ?P g \<noteq> None" by (auto simp: find_None_iff layer_walk)
  then obtain x where x: "find ?P g = Some x" by blast
  then have "x \<in> set g" "?P x" unfolding find_Some_iff by (metis nth_mem)+
  then show ?thesis
    using assms(1) Suc x by (auto simp: bfs_prev_def layer_walk)
qed

interpretation bfs_paths: path_finder bfs
proof
  fix g src
  have "bfs_dist g src src = Some 0" by (simp add: bfs_dist_spec walk_0)
  then have self: "bfs_prev g src src = Some None" by (simp add: bfs_prev_def)
  have none: "bfs_prev g src v = None" if "bfs_dist g src v = None" for v
    using that by (simp add: bfs_prev_def)
  show "shortest_path_spec g src (bfs g src)"
    unfolding shortest_path_spec_def bfs_def
    using bfs_prev_spec [of g src]
    by (auto simp: bfs_dist_None self none split: option.split) (auto simp: bfs_dist_spec)
qed

section \<open>Properties\<close>

definition chain_platforms :: "platform list" where
  "chain_platforms =
     [mk_platform ''FPGA'' ''A'' True ''hw/a''
        [DescVia (mk_PhysicalVia Egress ''B'' ''ab''), DescVia (mk_PhysicalVia Ingress ''B'' ''ba'')],
      mk_platform ''CPU'' ''B'' False ''hw/b''
        [DescVia (mk_PhysicalVia Egress ''A'' ''ba''), DescVia (mk_PhysicalVia Ingress ''A'' ''ab'')]]"

lemma chain_ok: "\<forall>p \<in> set chain_platforms. platform_ok p"
  by (simp add: chain_platforms_def mk_platform_ok)

lemma chain_built:
  "fold addPlatform chain_platforms [] = [(''A'', chain_platforms ! 0), (''B'', chain_platforms ! 1)]"
  by (simp add: chain_platforms_def addPlatform_def)

lemmas platform_eval = mk_platform_def mk_PhysicalVia_def insertIngress_def insertEgress_def Let_def
  getEgresses_def getIngresses_def keys_def

lemma chain_paired: "all_paired (fold addPlatform chain_platforms [])"
  unfolding chain_built
  by (simp add: all_paired_def egress_paired_def ingress_paired_def chain_platforms_def platform_eval)

lemma chain_env_ok: "env_ok (fold addPlatform chain_platforms [])"
  by (rule env_ok_build [OF chain_ok])

text \<open>
  C26: The connection graph is legal or refused: \<open>graphize\<close> raises SyntaxError unless every
  egress has a matching ingress at the platform it names and every ingress a matching egress;
  otherwise the edges are exactly the declared egresses, and each has an ingress at its far end.
\<close>

theorem graphize_legal:
  assumes "env_ok ps"
  shows "case graphize ps of
      Inl e \<Rightarrow> \<not> all_paired ps \<and> (\<exists>m. e = SyntaxError m)
    | Inr g \<Rightarrow> all_paired ps \<and> (\<forall>a b. (a, b) \<in> set g \<longleftrightarrow>
          (\<exists>p v. map_of ps a = Some p \<and> getEgress p b = Inr v)) \<and>
        (\<forall>a b. (a, b) \<in> set g \<longrightarrow> (\<exists>q w. map_of ps b = Some q \<and> getIngress q a = Inr w))"
proof (cases "graphize ps")
  case (Inl e)
  have "\<exists>m. e = SyntaxError m"
  proof (rule foldR_error [OF Inl [unfolded graphize_def]], clarify)
    fix g n p e'
    assume "bindR (foldR (check_egress ps n) g (getEgresses p)) (\<lambda>g'.
         foldR (check_ingress ps n) g' (getIngresses p)) = Inl e'"
    then consider "foldR (check_egress ps n) g (getEgresses p) = Inl e'"
      | g' where "foldR (check_ingress ps n) g' (getIngresses p) = Inl e'"
      by (cases "foldR (check_egress ps n) g (getEgresses p)") auto
    then show "\<exists>m. e' = SyntaxError m"
    proof cases
      case 1
      show ?thesis
        by (rule foldR_error [OF 1])
          (auto simp: check_egress_def improper_def Let_def split: option.splits if_splits)
    next
      case 2
      show ?thesis
        by (rule foldR_error [OF 2])
          (auto simp: check_ingress_def improper_def Let_def split: option.splits if_splits)
    qed
  qed
  moreover have "\<not> all_paired ps"
    using graphize_iff [of ps "egress_edges ps"] Inl by auto
  ultimately show ?thesis using Inl by simp
next
  case (Inr g)
  then have ok: "all_paired ps" and g: "g = egress_edges ps"
    by (simp_all add: graphize_iff)
  have "(a, b) \<in> set g" if "map_of ps a = Some p" "getEgress p b = Inr v" for a b p v
  proof -
    have mem: "(a, p) \<in> set ps" using that(1) by (rule map_of_SomeD)
    then have p: "platform_ok p" using assms by (auto simp: env_ok_def)
    have "(b, v) \<in> set (getEgresses p)"
      using that(2) getEgresses_lookup(1) [OF p] by blast
    moreover from this have "endpointName v = b" by (rule egress_key [OF p])
    ultimately show ?thesis using mem by (force simp: g egress_edges_def)
  qed
  then show ?thesis
    using Inr ok egress_edge_ends [OF assms ok] unfolding g
    by (simp only: sum.case) metis
qed

theorem graphize_legal_witness:
  "\<exists>g. graphize (fold addPlatform chain_platforms []) = Inr g
     \<and> (\<exists>q w. map_of (fold addPlatform chain_platforms []) ''B'' = Some q \<and> getIngress q ''A'' = Inr w)"
proof -
  let ?ps = "fold addPlatform chain_platforms []"
  obtain g where g: "graphize ?ps = Inr g"
    using chain_paired graphize_iff by blast
  have egress: "\<exists>p v. map_of ?ps ''A'' = Some p \<and> getEgress p ''B'' = Inr v"
    unfolding chain_built
    by (simp add: chain_platforms_def platform_eval getEgress_def via_at_def)
  from graphize_legal [OF chain_env_ok] g
  have "(\<forall>a b. (a, b) \<in> set g \<longleftrightarrow> (\<exists>p v. map_of ?ps a = Some p \<and> getEgress p b = Inr v)) \<and>
      (\<forall>a b. (a, b) \<in> set g \<longrightarrow> (\<exists>q w. map_of ?ps b = Some q \<and> getIngress q a = Inr w))"
    by simp
  with egress have "\<exists>q w. map_of ?ps ''B'' = Some q \<and> getIngress q ''A'' = Inr w"
    by blast
  with g show ?thesis by blast
qed

text \<open>
  Building an environment either refuses an illegal set of platforms with SyntaxError or
  returns an environment with complete tables: the loops over the shortest paths stop, no lookup
  misses a key, and every platform has a row in both tables.
\<close>

theorem mk_FPGAEnvironment_returns:
  assumes "path_finder sp" and "\<forall>p \<in> set pl. platform_ok p"
  shows "if all_paired (fold addPlatform pl [])
    then \<exists>env. mk_FPGAEnvironment sp pl = Some (Inr env) \<and> platforms env = fold addPlatform pl []
      \<and> (\<forall>p \<in> set (getPlatformNames env). \<exists>orow irow.
           map_of (transitTablesOutgoing env) p = Some orow
         \<and> map_of (transitTablesIncoming env) p = Some irow)
    else \<exists>e. mk_FPGAEnvironment sp pl = Some (Inl e)"
proof -
  let ?ps = "fold addPlatform pl []"
  have ok: "env_ok ?ps" by (rule env_ok_build [OF assms(2)])
  show ?thesis
  proof (cases "all_paired ?ps")
    case True
    from path_finder.buildTransitTables_returns [OF assms(1) ok True refl] obtain out inc where
      t: "buildTransitTables sp ?ps (egress_edges ?ps) = Some (Inr (out, inc))"
      and rows: "\<forall>p \<in> set (keys ?ps). \<exists>orow irow. map_of out p = Some orow \<and> map_of inc p = Some irow"
      by blast
    moreover have "graphize ?ps = Inr (egress_edges ?ps)"
      using True by (simp add: graphize_iff)
    ultimately show ?thesis
      using True by (simp add: mk_FPGAEnvironment_def Let_def getPlatformNames_def)
  next
    case False
    then obtain e where "graphize ?ps = Inl e"
      by (metis graphize_iff sum.exhaust)
    then show ?thesis
      using False by (simp add: mk_FPGAEnvironment_def Let_def)
  qed
qed

theorem mk_FPGAEnvironment_returns_witness:
  "\<exists>env. mk_FPGAEnvironment bfs chain_platforms = Some (Inr env)
     \<and> platforms env = fold addPlatform chain_platforms []"
  using mk_FPGAEnvironment_returns [OF bfs_paths.path_finder_axioms chain_ok] chain_paired
  by (auto split: if_splits)

text \<open>
  A platform forwards messages for \<open>target\<close> to \<open>h\<close>: the outgoing table names the physical
  connection of its egress to \<open>h\<close>, and \<open>h\<close> has the ingress that ends it.
\<close>

definition forwards :: "fpga_env \<Rightarrow> string \<Rightarrow> string \<Rightarrow> string \<Rightarrow> bool" where
  "forwards env target p h \<longleftrightarrow> (\<exists>row pl v q w.
     map_of (transitTablesOutgoing env) p = Some row \<and> map_of (platforms env) p = Some pl \<and>
     getEgress pl h = Inr v \<and> map_of row target = Some (physicalName v) \<and>
     map_of (platforms env) h = Some q \<and> getIngress q p = Inr w)"

lemma forwards_step:
  assumes "path_finder sp" and "\<forall>p \<in> set pl. platform_ok p"
    and env: "mk_FPGAEnvironment sp pl = Some (Inr env)"
    and "p \<in> set (getPlatformNames env)" and "t \<in> set (getPlatformNames env)"
    and d: "snd (sp (env_graph env) p) t = Some (Suc d)"
  obtains h where "forwards env t p h" and "walk (env_graph env) d h t" and "(p, h) \<in> set (env_graph env)"
    and "h \<in> set (getPlatformNames env)"
proof -
  let ?ps = "fold addPlatform pl []"
  have ok: "env_ok ?ps" by (rule env_ok_build [OF assms(2)])
  from env obtain g out inc where g: "graphize ?ps = Inr g"
    and t: "buildTransitTables sp ?ps g = Some (Inr (out, inc))"
    and e: "platforms env = ?ps" "env_graph env = g" "transitTablesOutgoing env = out"
    by (auto simp: mk_FPGAEnvironment_def Let_def bindO_returns)
  from g have pair: "all_paired ?ps" and gd: "g = egress_edges ?ps"
    by (simp_all add: graphize_iff)
  have names: "p \<in> set (keys ?ps)" "t \<in> set (keys ?ps)"
    using assms(4,5) e(1) by (simp_all add: getPlatformNames_def)
  from path_finder.buildTransitTables_returns [OF assms(1) ok pair gd] t names obtain row where
    row: "map_of out p = Some row" "outgoing_cell sp ?ps g p t = Some (Inr (map_of row t))"
    by force
  from path_finder.outgoing_cell_returns [OF assms(1) ok pair gd, of p t] row(2) d e(2)
  obtain h q v where h: "map_of ?ps p = Some q" "getEgress q h = Inr v"
    "map_of row t = Some (physicalName v)" "(p, h) \<in> set g" "walk g d h t"
    by auto
  obtain q' w where q: "map_of ?ps h = Some q'" "getIngress q' p = Inr w"
    by (rule egress_edge_ends [OF ok pair h(4) [unfolded gd]])
  show ?thesis
  proof (rule that)
    show "forwards env t p h"
      unfolding forwards_def e using row(1) h q by blast
    show "h \<in> set (getPlatformNames env)"
      using q(1) e(1) by (simp add: map_of_key_mem getPlatformNames_def)
  qed (use h e in auto)
qed

text \<open>
  C5: Following the outgoing tables delivers: in an environment the constructor returned, a message
  that starts at \<open>p\<close> and at every platform leaves by the connection the table names for the target
  can reach the target, in exactly the shortest distance.
\<close>

theorem transit_forwarding:
  assumes "path_finder sp" and "\<forall>p \<in> set pl. platform_ok p"
    and "mk_FPGAEnvironment sp pl = Some (Inr env)"
    and "p \<in> set (getPlatformNames env)" and "t \<in> set (getPlatformNames env)"
    and "getPathLength sp (env_graph env) p t = int d"
  shows "\<exists>route. length route = Suc d \<and> hd route = p \<and> last route = t
    \<and> successively (forwards env t) route"
proof -
  have "snd (sp (env_graph env) p) t = Some d"
    using assms(6) by (simp add: getPathLength_def split: option.splits)
  with assms(4) show ?thesis
  proof (induction d arbitrary: p)
    case 0
    then have "p = t"
      by (simp add: path_finder.dist_eq_Some [OF assms(1)] walk_0)
    then show ?case by (intro exI [of _ "[p]"]) simp
  next
    case (Suc d)
    obtain h where h: "forwards env t p h" "walk (env_graph env) d h t" "(p, h) \<in> set (env_graph env)"
      "h \<in> set (getPlatformNames env)"
      by (rule forwards_step [OF assms(1-3) Suc.prems(1) assms(5) Suc.prems(2)])
    have "d \<le> n" if "walk (env_graph env) n h t" for n
      using path_finder.dist_Some(2) [OF assms(1) Suc.prems(2) walk_Cons [OF h(3) that]] by simp
    with h(2) have "snd (sp (env_graph env) h) t = Some d"
      by (simp add: path_finder.dist_eq_Some [OF assms(1)])
    from Suc.IH [OF h(4) this] obtain route where
      r: "length route = Suc d" "hd route = h" "last route = t" "successively (forwards env t) route"
      by blast
    then show ?case
      using h(1) by (intro exI [of _ "p # route"]) (cases route, auto)
  qed
qed

lemma chain_env:
  obtains env where "mk_FPGAEnvironment bfs chain_platforms = Some (Inr env)"
    "platforms env = fold addPlatform chain_platforms []"
    "env_graph env = [(''A'', ''B''), (''B'', ''A'')]"
proof -
  let ?ps = "fold addPlatform chain_platforms []"
  have g: "graphize ?ps = Inr [(''A'', ''B''), (''B'', ''A'')]"
  proof -
    have "egress_edges ?ps = [(''A'', ''B''), (''B'', ''A'')]"
      unfolding chain_built by (simp add: egress_edges_def chain_platforms_def platform_eval)
    then show ?thesis
      using chain_paired by (simp only: graphize_iff)
  qed
  then obtain out inc where "buildTransitTables bfs ?ps [(''A'', ''B''), (''B'', ''A'')] = Some (Inr (out, inc))"
    using bfs_paths.buildTransitTables_returns [OF chain_env_ok chain_paired]
    by (metis graphize_iff)
  with g that show ?thesis
    by (simp add: mk_FPGAEnvironment_def Let_def)
qed

theorem transit_forwarding_witness:
  "\<exists>env route. mk_FPGAEnvironment bfs chain_platforms = Some (Inr env) \<and> length route = 2
     \<and> hd route = ''A'' \<and> last route = ''B'' \<and> successively (forwards env ''B'') route"
proof -
  obtain env where env: "mk_FPGAEnvironment bfs chain_platforms = Some (Inr env)"
    "platforms env = fold addPlatform chain_platforms []"
    "env_graph env = [(''A'', ''B''), (''B'', ''A'')]"
    by (rule chain_env)
  have names: "''A'' \<in> set (getPlatformNames env)" "''B'' \<in> set (getPlatformNames env)"
    using env(2) by (simp_all add: getPlatformNames_def chain_built keys_def)
  have "getPathLength bfs (env_graph env) ''A'' ''B'' = int 1"
    unfolding env(3) by (simp add: getPathLength_def bfs_def bfs_dist_def)
  from transit_forwarding [OF bfs_paths.path_finder_axioms chain_ok env(1) names this] env(1)
  show ?thesis unfolding numeral_2_eq_2 One_nat_def by blast
qed

text \<open>
  C9: \<open>getPath\<close> returns the nodes strictly between two platforms: with the end points it is a path
  of the graph of exactly the length \<open>getPathLength\<close> reports, it is empty for a platform and
  itself, and an unreachable target is a KeyError, never an endless loop.
\<close>

theorem getPath_correct:
  assumes "path_finder sp"
  shows "case getPathLength sp g a b of len \<Rightarrow>
    if len = - 1 then getPath sp g a b = Some (Inl (KeyError b))
    else if a = b then len = 0 \<and> getPath sp g a b = Some (Inr [])
    else \<exists>p. getPath sp g a b = Some (Inr p) \<and> int (length p) = len - 1
      \<and> successively (\<lambda>x y. (x, y) \<in> set g) (a # p @ [b])"
proof (cases "snd (sp g a) b")
  case None
  then show ?thesis
    by (simp add: getPathLength_def getPath_def prev_of_def path_finder.prev_None [OF assms])
next
  case (Some d)
  show ?thesis
  proof (cases "a = b")
    case True
    then show ?thesis
      by (simp add: getPathLength_def getPath_def prev_of_def path_finder.prev_self [OF assms]
          path_finder.dist_self [OF assms])
  next
    case False
    then have "b \<noteq> a" by simp
    obtain u where u: "fst (sp g a) b = Some (Some u)" "0 < d"
      by (rule path_finder.prev_Some [OF assms Some \<open>b \<noteq> a\<close>])
    obtain p where p: "path_walk (sp g a) a (Some b) [] = Some (Inr p)" "length p = d - 1"
      "successively (\<lambda>x y. (x, y) \<in> set g) (a # rev p @ [b])"
      using path_finder.path_walk_chain [OF assms Some \<open>b \<noteq> a\<close>, of "[]"] by auto
    have "getPath sp g a b = Some (Inr (rev p))"
      using u p(1) by (simp add: getPath_def prev_of_def Let_def)
    then show ?thesis
      using p u Some False by (simp add: getPathLength_def of_nat_diff)
  qed
qed

theorem getPath_correct_witness:
  "getPath bfs [(''A'', ''B''), (''B'', ''C'')] ''A'' ''D'' = Some (Inl (KeyError ''D''))"
  using getPath_correct [OF bfs_paths.path_finder_axioms, of "[(''A'', ''B''), (''B'', ''C'')]" "''A''" "''D''"]
  by (simp add: getPathLength_def bfs_def bfs_dist_def)

text \<open>
  Platform numbers are a bijection between the platforms and \<open>0 \<dots> n - 1\<close>, and the masters
  get the lowest of them.
\<close>

theorem platform_ids_bijective:
  assumes "distinct (keys ps)"
  shows "\<exists>ident. bij_betw ident (set (keys ps)) {..<length ps}
    \<and> (\<forall>n \<in> set (keys ps). getSynthesisBoundaryPlatformID ps n = Inr (ident n))
    \<and> (\<forall>(n, p) \<in> set ps. master p \<longleftrightarrow> ident n < length (filter (\<lambda>(n, p). master p) ps))"
proof -
  let ?F = "\<lambda>p. platformType p = ''FPGA'' \<or> platformType p = ''BLUESIM''"
  let ?m = "map fst (filter (\<lambda>(n, p). master p) ps)"
  let ?f = "map fst (filter (\<lambda>(n, p). \<not> master p \<and> ?F p) ps)"
  let ?o = "map fst (filter (\<lambda>(n, p). \<not> (master p \<or> ?F p)) ps)"
  define L where "L = ?m @ sort ?f @ sort ?o"
  have "mset (map fst (filter (\<lambda>(n, p). master p) xs)) +
      (mset (map fst (filter (\<lambda>(n, p). \<not> master p \<and> ?F p) xs)) +
       mset (map fst (filter (\<lambda>(n, p). \<not> (master p \<or> ?F p)) xs))) = mset (map fst xs)" for xs
    by (induction xs) auto
  then have "mset L = mset (keys ps)"
    by (simp add: keys_def L_def)
  then have L: "distinct L" "set L = set (keys ps)" "length L = length ps"
    using assms mset_eq_imp_distinct_iff mset_eq_setD mset_eq_length
    by (metis, metis, metis keys_def length_map)
  define ident where "ident = (\<lambda>n. case index_of L n of Inr i \<Rightarrow> i | Inl _ \<Rightarrow> 0)"
  have ident: "ident (L ! i) = i" if "i < length L" for i
    using index_of_nth [OF L(1) that] by (simp add: ident_def)
  have index: "index_of L n = Inr (ident n) \<and> ident n < length L \<and> L ! ident n = n" if "n \<in> set L" for n
    using index_of_total [OF that] index_of_Inr [of L n] by (auto simp: ident_def)
  have "bij_betw ident (set L) {..<length L}"
    by (rule bij_betw_byWitness [where f' = "\<lambda>i. L ! i"]) (auto simp: index ident)
  moreover have "getSynthesisBoundaryPlatformID ps n = Inr (ident n)" if "n \<in> set L" for n
    using index [OF that] by (simp add: getSynthesisBoundaryPlatformID_def Let_def L_def)
  moreover have "master p \<longleftrightarrow> ident n < length ?m" if np: "(n, p) \<in> set ps" for n p
  proof -
    have n: "n \<in> set L" using np L(2) by (force simp: keys_def)
    have "n \<in> set ?m" if "master p" using np that by force
    moreover have "master p" if "n \<in> set ?m"
    proof -
      from that obtain q where "(n, q) \<in> set ps" "master q" by auto
      with np assms show ?thesis by (auto simp: distinct_keys_map_of)
    qed
    ultimately have "master p \<longleftrightarrow> n \<in> set ?m" by blast
    also have "\<dots> \<longleftrightarrow> ident n < length ?m"
    proof
      assume "n \<in> set ?m"
      then obtain j where j: "j < length ?m" "n = ?m ! j" by (metis in_set_conv_nth)
      then have "L ! j = n" "j < length L" by (simp_all add: nth_append L_def)
      with ident [of j] j(1) show "ident n < length ?m" by simp
    next
      assume i: "ident n < length ?m"
      have "n = L ! ident n" using index [OF n] by simp
      also have "\<dots> = ?m ! ident n" using i by (simp add: L_def nth_append)
      finally show "n \<in> set ?m" using i by (metis nth_mem)
    qed
    finally show ?thesis .
  qed
  ultimately show ?thesis
    unfolding L(2,3) by (intro exI [of _ ident]) auto
qed

theorem platform_ids_bijective_witness:
  "\<exists>ident. bij_betw ident {''A'', ''B''} {..<2}
     \<and> getSynthesisBoundaryPlatformID (fold addPlatform chain_platforms []) ''B'' = Inr (ident ''B'')"
proof -
  have "distinct (keys (fold addPlatform chain_platforms []))"
    by (simp add: chain_built keys_def)
  from platform_ids_bijective [OF this] show ?thesis
    by (auto simp: chain_built keys_def numeral_2_eq_2)
qed

end
