(* ===== verification/GenerateVias.thy ===== *)
theory GenerateVias
  imports ViaAllocation FpgaEnvironment
begin

text \<open>
  \<^verbatim>\<open>lim_connect/analyze-network/analyzeNetwork.py: generateViaLJF, assignLinks\<close> and the per-pair
  parameters.  A physical connection is partitioned into lanes by carving off lanes sized for the
  busiest links; every partition is tried with link allocation, and the links of the better ones
  are written to both ends.  Connections are shared objects, so the writes go to the store.
\<close>

section \<open>Pair parameters\<close>

record net_awb =
  MAX_NUMBER_OF_VIAS :: int
  MIN_NUMBER_OF_VIAS :: int
  net_umf :: umf_awb

definition cpu_pair :: "fpga_env \<Rightarrow> string \<Rightarrow> string \<Rightarrow> bool res" where
  "cpu_pair env p t =
     bindR (get_key (platforms env) p (KeyError p)) (\<lambda>pl.
       if platformType pl = ''CPU'' then Inr True
       else bindR (get_key (platforms env) t (KeyError t)) (\<lambda>tl. Inr (platformType tl = ''CPU'')))"

definition getMaxViasPair :: "net_awb \<Rightarrow> fpga_env \<Rightarrow> string \<Rightarrow> string \<Rightarrow> int res" where
  "getMaxViasPair awb env p t =
     bindR (cpu_pair env p t) (\<lambda>cpu. Inr (if cpu then 1 else MAX_NUMBER_OF_VIAS awb))"

definition getMinViasPair :: "net_awb \<Rightarrow> fpga_env \<Rightarrow> string \<Rightarrow> string \<Rightarrow> int res" where
  "getMinViasPair awb env p t =
     bindR (cpu_pair env p t) (\<lambda>cpu. Inr (if cpu then 1 else MIN_NUMBER_OF_VIAS awb))"

definition generateRouterTypesPair ::
  "net_awb \<Rightarrow> fpga_env \<Rightarrow> string \<Rightarrow> string \<Rightarrow> int \<Rightarrow> int \<Rightarrow> int \<Rightarrow> umf_type run" where
  "generateRouterTypesPair awb env p t viaWidth viaLinks maxWidth =
     bindO (Some (cpu_pair env p t)) (\<lambda>cpu.
       if cpu then
         generateRouterTypes (net_umf awb) viaWidth viaLinks maxWidth (Some False) (Some True)
       else generateRouterTypes (net_umf awb) viaWidth viaLinks maxWidth None None)"

section \<open>Writing the assignment to the connections\<close>

definition sink_of :: "store \<Rightarrow> nat \<Rightarrow> nat" where
  "sink_of H c =
     (case conn_class (H c) of
        LIChannel \<Rightarrow> partnerChannel (H c)
      | LIChain \<Rightarrow> sinkPartnerChain (H c))"

definition assign_pair :: "store \<Rightarrow> nat \<Rightarrow> nat \<Rightarrow> int \<Rightarrow> store" where
  "assign_pair H c idx lnk =
     (let H1 = H(c := (H c)\<lparr>via_idx_egress := int idx, via_link_egress := lnk\<rparr>);
          k = sink_of H1 c
      in H1(k := (H1 k)\<lparr>via_idx_ingress := int idx, via_link_ingress := lnk\<rparr>))"

fun assign_named :: "link_assignment \<Rightarrow> nat list \<Rightarrow> store \<times> bool \<Rightarrow> store \<times> bool" where
  "assign_named p [] st = st"
| "assign_named p (c # cs) (H, assigned) =
     (if conn_name (H c) = la_name p
      then assign_named p cs (assign_pair H c (la_via_idx p) (la_via_link p), True)
      else assign_named p cs (H, assigned))"

text \<open>
  The error message names \<open>platformConnections[idx]\<close>, where \<open>idx\<close> is unbound if there are no
  connections at all.
\<close>

definition assignLinks :: "link_assignment list \<Rightarrow> nat list \<Rightarrow> store \<Rightarrow> store res" where
  "assignLinks provisional conns H =
     foldR (\<lambda>H p.
       case assign_named p conns (H, False) of
         (H', True) \<Rightarrow> Inr H'
       | (H', False) \<Rightarrow>
           (if conns = [] then Inl (UnboundLocalError ''idx'') else Inl (SystemExit 0)))
       H provisional"

section \<open>Carving lanes\<close>

definition ljf_headerSize :: int where
  "ljf_headerSize = 12"

definition find_link :: "store \<Rightarrow> nat list \<Rightarrow> bool list \<Rightarrow> int \<Rightarrow> nat option" where
  "find_link H sortedLinks used width0 =
     find (\<lambda>i. \<not> used ! i \<and>
             width0 > bitwidth (H (sortedLinks ! i)) + 2 * (ljf_headerSize + 1))
       [0..<length sortedLinks]"

record carve_state =
  cv_widths :: "int list"
  cv_used :: "bool list"
  cv_noViasRemaining :: bool

definition carve_via :: "store \<Rightarrow> nat list \<Rightarrow> carve_state \<Rightarrow> carve_state" where
  "carve_via H sortedLinks cv =
     (let ws = cv_widths cv;
          ws1 = (if length ws = 1 then ws[0 := ws ! 0 - 1] else ws)
      in case find_link H sortedLinks (cv_used cv) (ws1 ! 0) of
           None \<Rightarrow>
             cv\<lparr>cv_widths := (if length ws1 = 1 then ws1[0 := ws1 ! 0 + 1] else ws1),
                cv_noViasRemaining := True\<rparr>
         | Some i \<Rightarrow>
             (let bits = bitwidth (H (sortedLinks ! i))
              in cv\<lparr>cv_widths := ws1[0 := ws1 ! 0 - (bits + ljf_headerSize + 1)]
                                    @ [bits + ljf_headerSize],
                    cv_used := (cv_used cv)[i := True],
                    cv_noViasRemaining := False\<rparr>))"

definition carve :: "store \<Rightarrow> nat list \<Rightarrow> int \<Rightarrow> nat \<Rightarrow> bool list \<Rightarrow> carve_state" where
  "carve H sortedLinks width numberOfVias used =
     (if numberOfVias = 0 then \<lparr>cv_widths = [], cv_used = used, cv_noViasRemaining = False\<rparr>
      else (carve_via H sortedLinks ^^ (numberOfVias - 1))
             \<lparr>cv_widths = [width], cv_used = used, cv_noViasRemaining = False\<rparr>)"

section \<open>Trying partitions\<close>

record via_state =
  vs_used :: "bool list"
  vs_store :: store
  vs_final :: "via_assignment list"
  vs_maxLoad :: pynum
  vs_first :: bool

fun max_load :: "pynum list \<Rightarrow> pynum res" where
  "max_load [] = Inl ValueError"
| "max_load (q # qs) = Inr (foldl (\<lambda>m x. if py_lt m x then x else m) q qs)"

text \<open>One turn of the loop over the number of vias; the flag says whether it goes on.\<close>

definition via_turn ::
  "net_awb \<Rightarrow> nat list \<Rightarrow> int \<Rightarrow> nat \<Rightarrow> via_state \<Rightarrow> (via_state \<times> bool) run" where
  "via_turn awb sortedLinks width numberOfVias vs =
     (let H = vs_store vs;
          cv = carve H sortedLinks width numberOfVias (vs_used vs)
      in if list_ex (\<lambda>w. w < 0) (cv_widths cv) then Some (Inl (SystemExit 1))
         else if cv_noViasRemaining cv then Some (Inr (vs\<lparr>vs_used := cv_used cv\<rparr>, False))
         else
           (let conns = sort_key (\<lambda>c. conn_name (H c)) sortedLinks;
                vias = map (\<lambda>w. \<lparr>va_width = w, va_load = PyInt 0, va_links = 0\<rparr>) (cv_widths cv)
            in bindO (allocateLJF (net_umf awb) H conns vias) (\<lambda>st.
                 bindO (Some (max_load (map va_load (al_vias st)))) (\<lambda>m.
                   if py_lt m (vs_maxLoad vs) \<or> vs_first vs then
                     bindO (Some (assignLinks (al_platform st) conns H)) (\<lambda>H'.
                       Some (Inr (\<lparr>vs_used = cv_used cv, vs_store = H', vs_final = al_vias st,
                                   vs_maxLoad = m, vs_first = False\<rparr>, True)))
                   else Some (Inr (vs\<lparr>vs_used := cv_used cv, vs_first := False\<rparr>, True))))))"

fun via_turns :: "net_awb \<Rightarrow> nat list \<Rightarrow> int \<Rightarrow> nat list \<Rightarrow> via_state \<Rightarrow> via_state run" where
  "via_turns awb sortedLinks width [] vs = Some (Inr vs)"
| "via_turns awb sortedLinks width (n # ns) vs =
     bindO (via_turn awb sortedLinks width n vs) (\<lambda>(vs', go).
       if go then via_turns awb sortedLinks width ns vs' else Some (Inr vs'))"

text \<open>
  Python's \<open>range(a, b + 1)\<close>; a negative number of vias carves nothing, as zero does.
\<close>

definition via_range :: "int \<Rightarrow> int \<Rightarrow> nat list" where
  "via_range lo hi = map nat [lo..hi]"

definition table_entry :: "(string \<times> (string \<times> string) list) list \<Rightarrow> string \<Rightarrow> string \<Rightarrow> string res" where
  "table_entry table p t =
     bindR (get_key table p (KeyError p)) (\<lambda>row. get_key row t (KeyError t))"

text \<open>
  \<open>moduleLinks\<close> are the channels and chains of the platform that leave for the target, as
  \<open>li_module\<close> lists them.  The connection's width is read on every turn; an unassigned width is
  the string \<open>'unassigned'\<close>, on which the arithmetic raises TypeError.
\<close>

definition generateViaLJF ::
  "net_awb \<Rightarrow> fpga_env \<Rightarrow> string \<Rightarrow> string \<Rightarrow> nat list \<Rightarrow> store
     \<Rightarrow> (via_assignment list \<times> store) run" where
  "generateViaLJF awb env p t moduleLinks H =
     bindO (Some (getMaxViasPair awb env p t)) (\<lambda>maxVias.
     bindO (Some (getMinViasPair awb env p t)) (\<lambda>minVias.
     bindO (Some (table_entry (transitTablesIncoming env) p t)) (\<lambda>hopFromTarget.
     bindO (Some (table_entry (transitTablesOutgoing env) t p)) (\<lambda>hopToTarget.
       if via_range minVias maxVias = [] then Some (Inr ([], H))
       else bindO (Some (bindR (getPlatform env p) (\<lambda>pl. getEgress pl t))) (\<lambda>via.
         case pv_width via of
           None \<Rightarrow> Some (Inl TypeError)
         | Some width \<Rightarrow>
             (let sortedLinks = ljf_sort H moduleLinks
              in bindO (via_turns awb sortedLinks width (via_range minVias maxVias)
                     \<lparr>vs_used = map (\<lambda>c. False) sortedLinks, vs_store = H, vs_final = [],
                       vs_maxLoad = PyInt 0, vs_first = True\<rparr>)
                   (\<lambda>vs. Some (Inr (vs_final vs, vs_store vs)))))))))"

section \<open>Lane widths\<close>

text \<open>
  What carving keeps: a single lane has the whole width and no valid bit; from two lanes on, the
  widths and one valid bit per lane add up to it; every lane is positive.
\<close>

definition lanes_ok :: "int \<Rightarrow> int list \<Rightarrow> bool" where
  "lanes_ok width ws \<longleftrightarrow> ws \<noteq> [] \<and> (\<forall>w \<in> set ws. 0 < w) \<and>
     (if length ws = 1 then ws ! 0 = width else sum_list ws + int (length ws) = width)"

lemma find_link_Some:
  "find_link H cs used w = Some i \<Longrightarrow> i < length cs \<and> \<not> used ! i \<and> bitwidth (H (cs ! i)) + 26 < w"
  by (auto simp: find_link_def find_Some_iff nth_upt ljf_headerSize_def)

lemma carve_via_lanes:
  assumes "lanes_ok width (cv_widths cv)" and "\<forall>c \<in> set cs. 0 \<le> bitwidth (H c)"
  shows "lanes_ok width (cv_widths (carve_via H cs cv))"
proof -
  obtain w ws where ws: "cv_widths cv = w # ws"
    using assms(1) by (cases "cv_widths cv") (auto simp: lanes_ok_def)
  define w1 where "w1 = (if ws = [] then w - 1 else w)"
  have w1: "(if length (cv_widths cv) = 1 then (cv_widths cv)[0 := cv_widths cv ! 0 - 1]
      else cv_widths cv) = w1 # ws"
    by (simp add: ws w1_def)
  show ?thesis
  proof (cases "find_link H cs (cv_used cv) w1")
    case None
    then show ?thesis
      using assms(1) by (auto simp: carve_via_def Let_def w1 [unfolded ws] ws w1_def lanes_ok_def)
  next
    case (Some i)
    then have i: "i < length cs" "bitwidth (H (cs ! i)) + 26 < w1"
      by (auto dest: find_link_Some)
    then have "0 \<le> bitwidth (H (cs ! i))" using assms(2) by simp
    with i(2) show ?thesis
      using assms(1) Some
      by (auto simp: carve_via_def Let_def w1 [unfolded ws] ws w1_def lanes_ok_def ljf_headerSize_def
          split: if_splits)
  qed
qed

lemma carve_length: "length (cv_widths (carve H cs width n used)) \<le> n"
proof -
  have "length (cv_widths (carve_via H cs cv)) \<le> Suc (length (cv_widths cv))" for cv
    by (simp add: carve_via_def Let_def split: option.split)
  then have many: "length (cv_widths ((carve_via H cs ^^ k) cv)) \<le> k + length (cv_widths cv)" for k cv
    by (induction k) (simp_all, meson Suc_le_mono order_trans)
  show ?thesis
  proof (cases n)
    case (Suc k)
    then show ?thesis
      using many [of k "\<lparr>cv_widths = [width], cv_used = used, cv_noViasRemaining = False\<rparr>"]
      by (simp add: carve_def)
  qed (simp add: carve_def)
qed

lemma carve_lanes:
  assumes "0 < width" and "0 < n" and "\<forall>c \<in> set cs. 0 \<le> bitwidth (H c)"
  shows "lanes_ok width (cv_widths (carve H cs width n used))"
proof -
  have "lanes_ok width (cv_widths ((carve_via H cs ^^ k)
      \<lparr>cv_widths = [width], cv_used = used, cv_noViasRemaining = False\<rparr>))" for k
  proof (induction k)
    case 0
    show ?case using assms(1) by (simp add: lanes_ok_def)
  next
    case (Suc k)
    then show ?case by (simp add: carve_via_lanes assms(3))
  qed
  then show ?thesis using assms(2) by (simp add: carve_def)
qed

section \<open>Both ends agree\<close>

text \<open>The part of a connection that allocation reads is not changed by the writes.\<close>

definition same_links :: "store \<Rightarrow> store \<Rightarrow> bool" where
  "same_links H H' \<longleftrightarrow> (\<forall>c.
     conn_class (H' c) = conn_class (H c) \<and> conn_name (H' c) = conn_name (H c) \<and>
     sc_type (H' c) = sc_type (H c) \<and> bitwidth (H' c) = bitwidth (H c) \<and>
     activity (H' c) = activity (H c) \<and> conn_module (H' c) = conn_module (H c) \<and>
     partnerChannel (H' c) = partnerChannel (H c) \<and>
     sourcePartnerChain (H' c) = sourcePartnerChain (H c) \<and>
     sinkPartnerChain (H' c) = sinkPartnerChain (H c))"

lemma same_links_refl [simp]: "same_links H H"
  by (simp add: same_links_def)

lemma same_links_trans: "same_links H H' \<Longrightarrow> same_links H' H'' \<Longrightarrow> same_links H H''"
  by (simp add: same_links_def)

lemma same_linksD:
  assumes "same_links H H'"
  shows "conn_name (H' c) = conn_name (H c)" and "bitwidth (H' c) = bitwidth (H c)"
    and "sink_of H' c = sink_of H c" and "ljf_key H' c = ljf_key H c"
  using assms by (cases "conn_class (H c)"; simp add: same_links_def sink_of_def ljf_key_def)+

definition egress_slot :: "store \<Rightarrow> nat \<Rightarrow> int \<times> int" where
  "egress_slot H c = (via_idx_egress (H c), via_link_egress (H c))"

definition ingress_slot :: "store \<Rightarrow> nat \<Rightarrow> int \<times> int" where
  "ingress_slot H c = (via_idx_ingress (H c), via_link_ingress (H c))"

lemma assign_pair_same: "same_links H (assign_pair H c i l)"
  by (simp add: assign_pair_def same_links_def Let_def)

lemma assign_pair_slots:
  "egress_slot (assign_pair H c i l) d = (if d = c then (int i, l) else egress_slot H d)"
  "ingress_slot (assign_pair H c i l) d = (if d = sink_of H c then (int i, l) else ingress_slot H d)"
proof -
  have "sink_of (H(c := (H c)\<lparr>via_idx_egress := int i, via_link_egress := l\<rparr>)) c = sink_of H c"
    by (cases "conn_class (H c)") (simp_all add: sink_of_def)
  then show "egress_slot (assign_pair H c i l) d = (if d = c then (int i, l) else egress_slot H d)"
    "ingress_slot (assign_pair H c i l) d = (if d = sink_of H c then (int i, l) else ingress_slot H d)"
    by (simp_all add: assign_pair_def Let_def egress_slot_def ingress_slot_def)
qed

text \<open>With different names, the loop over the connections updates the one of the given name.\<close>

lemma assign_named_none:
  "\<forall>c \<in> set cs. conn_name (H c) \<noteq> la_name p \<Longrightarrow> assign_named p cs (H, b) = (H, b)"
  by (induction cs) auto

lemma assign_named_one:
  assumes "distinct (map (\<lambda>c. conn_name (H c)) cs)" and "c \<in> set cs" and "conn_name (H c) = la_name p"
  shows "assign_named p cs (H, b) = (assign_pair H c (la_via_idx p) (la_via_link p), True)"
  using assms
proof (induction cs)
  case Nil
  then show ?case by simp
next
  case (Cons d ds)
  show ?case
  proof (cases "c = d")
    case True
    let ?H = "assign_pair H d (la_via_idx p) (la_via_link p)"
    have "\<forall>e \<in> set ds. conn_name (?H e) \<noteq> la_name p"
      using Cons.prems True by (auto simp: same_linksD(1) [OF assign_pair_same] image_iff)
    then show ?thesis
      using True Cons.prems(3) by (simp add: assign_named_none)
  next
    case False
    with Cons.prems have "conn_name (H d) \<noteq> la_name p" by (auto simp: image_iff)
    with False Cons show ?thesis by simp
  qed
qed

text \<open>The writes of a whole assignment.\<close>

fun write_slots :: "store \<Rightarrow> (nat \<times> nat \<times> int) list \<Rightarrow> store" where
  "write_slots H [] = H"
| "write_slots H ((c, i, l) # xs) = write_slots (assign_pair H c i l) xs"

lemma write_slots_same: "same_links H (write_slots H xs)"
  by (induction H xs rule: write_slots.induct) (auto intro: same_links_trans assign_pair_same)

lemma sink_assign_pair [simp]: "sink_of (assign_pair H c i l) = sink_of H"
  by (rule ext) (rule same_linksD(3) [OF assign_pair_same])

lemma write_slots_egress: "d \<notin> fst ` set xs \<Longrightarrow> egress_slot (write_slots H xs) d = egress_slot H d"
  by (induction H xs rule: write_slots.induct) (auto simp: assign_pair_slots)

lemma write_slots_ingress:
  "d \<notin> sink_of H ` fst ` set xs \<Longrightarrow> ingress_slot (write_slots H xs) d = ingress_slot H d"
  by (induction H xs rule: write_slots.induct) (auto simp: assign_pair_slots)

lemma write_slots_set:
  assumes "distinct (map fst xs)" and "inj_on (sink_of H) (fst ` set xs)" and "(c, i, l) \<in> set xs"
  shows "egress_slot (write_slots H xs) c = (int i, l)
    \<and> ingress_slot (write_slots H xs) (sink_of H c) = (int i, l)"
  using assms
proof (induction H xs rule: write_slots.induct)
  case (1 H)
  then show ?case by simp
next
  case (2 H d j m xs)
  show ?case
  proof (cases "(c, i, l) \<in> set xs")
    case True
    with 2 show ?thesis by simp
  next
    case False
    with 2 have c: "c = d" "i = j" "l = m" by auto
    moreover have "d \<notin> fst ` set xs" using 2 by simp
    moreover from this have "sink_of H d \<notin> sink_of H ` fst ` set xs"
      using 2(3) by (auto simp: inj_on_def)
    ultimately show ?thesis
      by (simp add: write_slots_egress write_slots_ingress assign_pair_slots)
  qed
qed

lemma assignLinks_write:
  assumes "distinct (map (\<lambda>c. conn_name (H c)) conns)" and "set cs \<subseteq> set conns"
    and "length ss = length cs" and "\<And>c. conn_name (G c) = conn_name (H c)"
  shows "assignLinks (map2 (\<lambda>c. mk_link (G c)) cs ss) conns H = Inr (write_slots H (zip cs ss))"
  using assms
proof (induction cs ss arbitrary: H rule: list_induct2')
  case (4 c cs s ss)
  obtain i l where s: "s = (i, l)" by (cases s)
  let ?p = "mk_link (G c) (i, l)"
  let ?H = "assign_pair H c i l"
  have names: "conn_name (?H d) = conn_name (H d)" for d
    by (rule same_linksD(1) [OF assign_pair_same])
  have "assign_named ?p conns (H, False) = (?H, True)"
    using assign_named_one [of H conns c ?p False] 4 by (simp add: mk_link_def)
  moreover have "assignLinks (map2 (\<lambda>c. mk_link (G c)) cs ss) conns ?H
      = Inr (write_slots ?H (zip cs ss))"
    by (rule "4.IH") (use 4 names in simp_all)
  ultimately show ?case by (simp add: assignLinks_def s)
qed (simp_all add: assignLinks_def)

section \<open>The search keeps both ends in agreement\<close>

definition links_wf :: "store \<Rightarrow> nat list \<Rightarrow> bool" where
  "links_wf H cs \<longleftrightarrow> distinct (map (\<lambda>c. conn_name (H c)) cs) \<and> inj_on (sink_of H) (set cs)
     \<and> (\<forall>c \<in> set cs. 0 \<le> bitwidth (H c))"

definition slots_agree :: "store \<Rightarrow> nat list \<Rightarrow> int list \<Rightarrow> bool" where
  "slots_agree H cs counts \<longleftrightarrow> inj_on (egress_slot H) (set cs) \<and>
     (\<forall>c \<in> set cs. ingress_slot H (sink_of H c) = egress_slot H c \<and>
        (\<exists>i l. egress_slot H c = (int i, l) \<and> i < length counts \<and> 0 \<le> l \<and> l < counts ! i)) \<and>
     (\<forall>i l. i < length counts \<and> 0 \<le> l \<and> l < counts ! i \<longrightarrow> (int i, l) \<in> egress_slot H ` set cs) \<and>
     (\<forall>n \<in> set counts. 0 \<le> n)"

lemma links_wf_same:
  assumes "same_links H H'" and "links_wf H cs"
  shows "links_wf H' cs"
proof -
  have "sink_of H' = sink_of H" by (rule ext) (rule same_linksD(3) [OF assms(1)])
  with assms(2) show ?thesis by (simp add: links_wf_def same_linksD(1,2) [OF assms(1)])
qed

lemma write_slots_agree:
  assumes "links_wf H cs" and "set ds = set cs" and "distinct ds"
    and "length ss = length ds" and "distinct ss"
    and "set ss = {(v, j). v < length ns \<and> 0 \<le> j \<and> j < ns ! v}" and "\<forall>n \<in> set ns. 0 \<le> n"
  shows "slots_agree (write_slots H (zip ds ss)) cs ns"
proof -
  let ?H = "write_slots H (zip ds ss)"
  have sink: "sink_of ?H = sink_of H"
    by (rule ext) (rule same_linksD(3) [OF write_slots_same])
  have fsts: "map fst (zip ds ss) = ds" using assms(4) by simp
  then have fs: "fst ` set (zip ds ss) = set ds" by (metis list.set_map)
  have slot: "egress_slot ?H (ds ! k) = (int (fst (ss ! k)), snd (ss ! k))
      \<and> ingress_slot ?H (sink_of H (ds ! k)) = (int (fst (ss ! k)), snd (ss ! k))"
    if "k < length ds" for k
  proof (rule write_slots_set)
    show "distinct (map fst (zip ds ss))" using fsts assms(3) by simp
    show "inj_on (sink_of H) (fst ` set (zip ds ss))"
      using assms(1,2) fs by (simp add: links_wf_def)
    show "(ds ! k, fst (ss ! k), snd (ss ! k)) \<in> set (zip ds ss)"
      using that assms(4) by (force simp: set_zip)
  qed
  have "inj_on (egress_slot ?H) (set ds)"
  proof (rule inj_onI)
    fix c d
    assume "c \<in> set ds" "d \<in> set ds" and eq: "egress_slot ?H c = egress_slot ?H d"
    then obtain j k where jk: "j < length ds" "c = ds ! j" "k < length ds" "d = ds ! k"
      by (metis in_set_conv_nth)
    with eq slot [of j] slot [of k] have "ss ! j = ss ! k" by (simp add: prod_eq_iff)
    with assms(4,5) jk show "c = d" by (simp add: nth_eq_iff_index_eq)
  qed
  moreover have "ingress_slot ?H (sink_of H c) = egress_slot ?H c \<and>
      (\<exists>i l. egress_slot ?H c = (int i, l) \<and> i < length ns \<and> 0 \<le> l \<and> l < ns ! i)"
    if "c \<in> set ds" for c
  proof -
    from that obtain k where k: "k < length ds" "c = ds ! k" by (metis in_set_conv_nth)
    then have "ss ! k \<in> set ss" using assms(4) by simp
    with assms(6) slot [OF k(1)] k(2) show ?thesis by (auto simp: case_prod_beta)
  qed
  moreover have "(int i, l) \<in> egress_slot ?H ` set ds" if "i < length ns" "0 \<le> l" "l < ns ! i" for i l
  proof -
    from that assms(6) have "(i, l) \<in> set ss" by simp
    then obtain k where k: "k < length ds" "ss ! k = (i, l)" using assms(4) by (metis in_set_conv_nth)
    with slot [OF k(1)] have "egress_slot ?H (ds ! k) = (int i, l)" by simp
    with k(1) show ?thesis by (metis image_eqI nth_mem)
  qed
  ultimately show ?thesis
    using assms(2,7) by (simp add: slots_agree_def sink)
qed

text \<open>Connections that are not among the links, or do not end one, are not written.\<close>

definition slots_framed :: "store \<Rightarrow> store \<Rightarrow> nat list \<Rightarrow> bool" where
  "slots_framed H H' cs \<longleftrightarrow> (\<forall>c. c \<notin> set cs \<longrightarrow> egress_slot H' c = egress_slot H c) \<and>
     (\<forall>k. k \<notin> sink_of H ` set cs \<longrightarrow> ingress_slot H' k = ingress_slot H k)"

lemma slots_framed_refl [simp]: "slots_framed H H cs"
  by (simp add: slots_framed_def)

lemma write_slots_framed:
  assumes "same_links H H'" and "slots_framed H H' cs" and "fst ` set xs \<subseteq> set cs"
  shows "slots_framed H (write_slots H' xs) cs"
proof -
  have "sink_of H' = sink_of H" by (rule ext) (rule same_linksD(3) [OF assms(1)])
  moreover have "c \<notin> fst ` set xs" if "c \<notin> set cs" for c using assms(3) that by blast
  moreover have "k \<notin> sink_of H ` fst ` set xs" if "k \<notin> sink_of H ` set cs" for k
    using assms(3) that by blast
  ultimately show ?thesis
    using assms(2) by (simp add: slots_framed_def write_slots_egress write_slots_ingress)
qed

definition search_ok :: "nat \<Rightarrow> store \<Rightarrow> nat list \<Rightarrow> int \<Rightarrow> via_state \<Rightarrow> bool" where
  "search_ok N H cs width vs \<longleftrightarrow> length (vs_final vs) \<le> N \<and> same_links H (vs_store vs) \<and> slots_framed H (vs_store vs) cs \<and>
     (if vs_first vs then vs_final vs = []
      else lanes_ok width (map va_width (vs_final vs)) \<and> slots_agree (vs_store vs) cs (map va_links (vs_final vs)))"

abbreviation idle_vias :: "int list \<Rightarrow> via_assignment list" where
  "idle_vias ws \<equiv> map (\<lambda>w. \<lparr>va_width = w, va_load = PyInt 0, va_links = 0\<rparr>) ws"

lemma usable_idle: "ws \<noteq> [] \<Longrightarrow> \<forall>w \<in> set ws. 0 < w \<Longrightarrow> usable_vias (idle_vias ws)"
  by (auto simp: usable_vias_def)

lemma via_turn_ok:
  assumes "0 < width" and "0 < n" and "n \<le> N" and "links_wf H cs" and "search_ok N H cs width vs"
  shows "\<exists>vs' go. via_turn awb cs width n vs = Some (Inr (vs', go)) \<and> search_ok N H cs width vs'
    \<and> (go \<longrightarrow> \<not> vs_first vs') \<and> (n = 1 \<longrightarrow> go)"
proof -
  let ?H = "vs_store vs"
  let ?cv = "carve ?H cs width n (vs_used vs)"
  let ?ws = "cv_widths ?cv"
  let ?conns = "sort_key (\<lambda>c. conn_name (?H c)) cs"
  have same: "same_links H ?H" using assms(5) by (simp add: search_ok_def)
  have wf: "links_wf ?H cs" by (rule links_wf_same [OF same assms(4)])
  have lanes: "lanes_ok width ?ws"
    by (rule carve_lanes) (use assms(1,2) wf in \<open>auto simp: links_wf_def\<close>)
  then have ws: "?ws \<noteq> []" "\<forall>w \<in> set ?ws. 0 < w" by (auto simp: lanes_ok_def)
  then have nonneg: "\<not> list_ex (\<lambda>w. w < 0) ?ws" by (fastforce simp: list_ex_iff)
  have one: "n = 1 \<Longrightarrow> \<not> cv_noViasRemaining ?cv" by (simp add: carve_def)
  have few: "length ?ws \<le> N" using carve_length [of ?H cs width n "vs_used vs"] assms(3) by simp
  show ?thesis
  proof (cases "cv_noViasRemaining ?cv")
    case True
    then show ?thesis
      using nonneg one assms(5)
      by (intro exI [of _ "vs\<lparr>vs_used := cv_used ?cv\<rparr>"] exI [of _ False])
        (auto simp: via_turn_def Let_def search_ok_def)
  next
    case False
    obtain st hs ls where st: "allocateLJF (net_umf awb) ?H ?conns (idle_vias ?ws) = Some (Inr st)"
      and out: "pass_outcome ?H hs (ljf_sort ?H ?conns) ls (pass_start (idle_vias ?ws)) st"
      by (rule allocateLJF_outcome [OF usable_idle [OF ws]])
    have ne: "idle_vias ?ws \<noteq> []" using ws(1) by simp
    note lanes_st = pass_outcome_lanes [OF out ne]
    let ?ss = "take_slots (via_counts (idle_vias ?ws)) ls"
    obtain m where m: "max_load (map va_load (al_vias st)) = Inr m"
      using lanes_st(1) ws(1) by (cases "map va_load (al_vias st)") auto
    have names: "distinct (map (\<lambda>c. conn_name (?H c)) ?conns)"
      using wf by (simp add: links_wf_def distinct_map)
    have "al_platform st = map2 (\<lambda>c. mk_link (?H c)) (ljf_sort ?H ?conns) ?ss"
      using out by (simp add: pass_outcome_def Let_def)
    then have written: "assignLinks (al_platform st) ?conns ?H
        = Inr (write_slots ?H (zip (ljf_sort ?H ?conns) ?ss))"
      using assignLinks_write [OF names, of "ljf_sort ?H ?conns" ?ss ?H] lanes_st(2) by simp
    let ?H' = "write_slots ?H (zip (ljf_sort ?H ?conns) ?ss)"
    have "slots_agree ?H' cs (map va_links (al_vias st))"
    proof (rule write_slots_agree [OF wf])
      show "set (ljf_sort ?H ?conns) = set cs" "length ?ss = length (ljf_sort ?H ?conns)"
        using lanes_st(2) by simp_all
      show "distinct (ljf_sort ?H ?conns)"
        using names by (simp add: ljf_sort_def distinct_map)
      show "distinct ?ss" by (rule distinct_take_slots)
      have "va_links (idle_vias ?ws ! v) = 0" if "v < length (idle_vias ?ws)" for v
        using that by simp
      then show "set ?ss = {(v, j). v < length (map va_links (al_vias st)) \<and> 0 \<le> j
          \<and> j < map va_links (al_vias st) ! v}"
        unfolding pass_outcome_slot_set [OF out ne] using lanes_st(1) by auto
      have "0 \<le> va_links (al_vias st ! v)" if "v < length (al_vias st)" for v
        using lanes_st(6) [of v] lanes_st(1) that by simp
      then show "\<forall>n \<in> set (map va_links (al_vias st)). 0 \<le> n" by (auto simp: in_set_conv_nth)
    qed
    moreover have widths: "map va_width (al_vias st) = ?ws"
      using out by (simp add: pass_outcome_def Let_def comp_def)
    moreover have "length (al_vias st) \<le> N" using few arg_cong [OF widths, of length] by simp
    moreover have "same_links H ?H'"
      by (rule same_links_trans [OF same write_slots_same])
    moreover have "slots_framed H ?H' cs"
      by (rule write_slots_framed [OF same])
        (use assms(5) in \<open>auto simp: search_ok_def dest: set_zip_leftD\<close>)
    ultimately have ok: "search_ok N H cs width
        \<lparr>vs_used = cv_used ?cv, vs_store = ?H', vs_final = al_vias st, vs_maxLoad = m, vs_first = False\<rparr>"
      using lanes by (simp add: search_ok_def)
    show ?thesis
    proof (cases "py_lt m (vs_maxLoad vs) \<or> vs_first vs")
      case True
      with False nonneg st m written ok show ?thesis
        by (intro exI [of _ "\<lparr>vs_used = cv_used ?cv, vs_store = ?H', vs_final = al_vias st,
              vs_maxLoad = m, vs_first = False\<rparr>"] exI [of _ True])
          (simp add: via_turn_def Let_def)
    next
      case better: False
      with False nonneg st m assms(5) show ?thesis
        by (intro exI [of _ "vs\<lparr>vs_used := cv_used ?cv, vs_first := False\<rparr>"] exI [of _ True])
          (simp add: via_turn_def Let_def search_ok_def)
    qed
  qed
qed

lemma via_turns_ok:
  assumes "0 < width" and "\<forall>n \<in> set ns. 0 < n \<and> n \<le> N" and "links_wf H cs" and "search_ok N H cs width vs"
  shows "\<exists>vs'. via_turns awb cs width ns vs = Some (Inr vs') \<and> search_ok N H cs width vs'
    \<and> (\<not> vs_first vs \<or> ns \<noteq> [] \<and> hd ns = 1 \<longrightarrow> \<not> vs_first vs')"
  using assms(2,4)
proof (induction ns arbitrary: vs)
  case Nil
  then show ?case by simp
next
  case (Cons n ns)
  then have "0 < n" "n \<le> N" by simp_all
  from via_turn_ok [OF assms(1) this assms(3) Cons.prems(2), of awb] obtain vs' go where
    t: "via_turn awb cs width n vs = Some (Inr (vs', go))" "search_ok N H cs width vs'"
      "go \<longrightarrow> \<not> vs_first vs'" "n = 1 \<longrightarrow> go"
    by blast
  have first: "vs_first vs' \<longrightarrow> vs_first vs"
    using t(1) by (auto simp: via_turn_def Let_def bindO_returns split: if_splits)
  show ?case
  proof (cases go)
    case True
    from Cons.IH [OF _ t(2)] Cons.prems(1) t True show ?thesis by auto
  next
    case False
    with t first show ?thesis by auto
  qed
qed

section \<open>Properties\<close>

text \<open>What the code takes for granted of a pair of platforms that exchange messages.\<close>

definition pair_ready :: "fpga_env \<Rightarrow> string \<Rightarrow> string \<Rightarrow> int \<Rightarrow> bool" where
  "pair_ready env p t width \<longleftrightarrow>
     (\<exists>pl v. map_of (platforms env) p = Some pl \<and> getEgress pl t = Inr v \<and> pv_width v = Some width)
   \<and> t \<in> set (keys (platforms env))
   \<and> (\<exists>x. table_entry (transitTablesIncoming env) p t = Inr x)
   \<and> (\<exists>y. table_entry (transitTablesOutgoing env) t p = Inr y)"

lemma cpu_pair_ready: "pair_ready env p t width \<Longrightarrow> \<exists>b. cpu_pair env p t = Inr b"
  by (auto simp: pair_ready_def cpu_pair_def get_key_def keys_map_of split: option.splits)

definition lane_bound :: "net_awb \<Rightarrow> fpga_env \<Rightarrow> string \<Rightarrow> string \<Rightarrow> nat" where
  "lane_bound awb env p t = (case getMaxViasPair awb env p t of Inl e \<Rightarrow> 0 | Inr n \<Rightarrow> nat n)"

lemma generateViaLJF_outcome:
  assumes "pair_ready env p t width" and "0 < width" and "links_wf H links"
    and "0 < MIN_NUMBER_OF_VIAS awb"
  shows "\<exists>vias H'. generateViaLJF awb env p t links H = Some (Inr (vias, H')) \<and> same_links H H'
    \<and> slots_framed H H' links
    \<and> (vias = [] \<or> lanes_ok width (map va_width vias) \<and> slots_agree H' links (map va_links vias))
    \<and> (MIN_NUMBER_OF_VIAS awb = 1 \<and> 1 \<le> MAX_NUMBER_OF_VIAS awb \<longrightarrow> vias \<noteq> [])
    \<and> length vias \<le> lane_bound awb env p t"
proof -
  obtain cpu where cpu: "cpu_pair env p t = Inr cpu"
    using cpu_pair_ready [OF assms(1)] by blast
  define lo where "lo = (if cpu then 1 else MIN_NUMBER_OF_VIAS awb)"
  define hi where "hi = (if cpu then 1 else MAX_NUMBER_OF_VIAS awb)"
  have pair: "getMinViasPair awb env p t = Inr lo" "getMaxViasPair awb env p t = Inr hi"
    by (simp_all add: getMinViasPair_def getMaxViasPair_def cpu lo_def hi_def)
  obtain pl v x y where pl: "map_of (platforms env) p = Some pl" "getEgress pl t = Inr v"
    "pv_width v = Some width" "table_entry (transitTablesIncoming env) p t = Inr x"
    "table_entry (transitTablesOutgoing env) t p = Inr y"
    using assms(1) by (auto simp: pair_ready_def)
  have lo: "0 < lo" using assms(4) by (simp add: lo_def)
  show ?thesis
  proof (cases "via_range lo hi = []")
    case True
    then have "\<not> (MIN_NUMBER_OF_VIAS awb = 1 \<and> 1 \<le> MAX_NUMBER_OF_VIAS awb)"
      by (auto simp: via_range_def lo_def hi_def upto_Nil split: if_splits)
    with True pl pair show ?thesis
      by (simp add: generateViaLJF_def)
  next
    case False
    let ?cs = "ljf_sort H links"
    let ?vs = "\<lparr>vs_used = map (\<lambda>c. False) ?cs, vs_store = H, vs_final = [],
      vs_maxLoad = PyInt 0, vs_first = True\<rparr>"
    have wf: "links_wf H ?cs"
      using assms(3) by (simp add: links_wf_def distinct_map ljf_sort_def)
    have pos: "\<forall>n \<in> set (via_range lo hi). 0 < n \<and> n \<le> nat hi"
      using lo by (auto simp: via_range_def)
    have start: "search_ok (nat hi) H ?cs width ?vs" by (simp add: search_ok_def)
    obtain vs where vs: "via_turns awb ?cs width (via_range lo hi) ?vs = Some (Inr vs)"
      "search_ok (nat hi) H ?cs width vs" "hd (via_range lo hi) = 1 \<longrightarrow> \<not> vs_first vs"
      using via_turns_ok [OF assms(2) pos wf start, of awb] False by auto
    have "hd (via_range lo hi) = 1" if "MIN_NUMBER_OF_VIAS awb = 1"
    proof -
      have "lo = 1" using that by (simp add: lo_def)
      then show ?thesis using False by (cases "1 \<le> hi") (simp_all add: via_range_def upto_rec1)
    qed
    moreover have "slots_agree (vs_store vs) ?cs (map va_links (vs_final vs)) =
        slots_agree (vs_store vs) links (map va_links (vs_final vs))"
      and "slots_framed H (vs_store vs) ?cs = slots_framed H (vs_store vs) links"
      by (simp_all add: slots_agree_def slots_framed_def)
    ultimately show ?thesis
      using False pl pair vs
      by (intro exI [of _ "vs_final vs"] exI [of _ "vs_store vs"])
        (auto simp: generateViaLJF_def search_ok_def getPlatform_def get_key_def Let_def lanes_ok_def lane_bound_def
          split: if_splits)
  qed
qed

text \<open>The two-platform environment with its connections measured, for the concrete instances.\<close>

definition wired_env :: fpga_env where
  "wired_env =
     \<lparr>platforms = [(''A'', (chain_platforms ! 0)\<lparr>physicalVias :=
          [(mk_PhysicalVia Egress ''B'' ''ab'')\<lparr>pv_width := Some 128\<rparr>,
           (mk_PhysicalVia Ingress ''B'' ''ba'')\<lparr>pv_width := Some 128\<rparr>]\<rparr>),
        (''B'', (chain_platforms ! 1)\<lparr>platformType := ''FPGA'', physicalVias :=
          [(mk_PhysicalVia Egress ''A'' ''ba'')\<lparr>pv_width := Some 128\<rparr>,
           (mk_PhysicalVia Ingress ''A'' ''ab'')\<lparr>pv_width := Some 128\<rparr>]\<rparr>)],
      env_graph = [(''A'', ''B''), (''B'', ''A'')],
      transitTablesOutgoing = [(''A'', [(''B'', ''ab'')]), (''B'', [(''A'', ''ba'')])],
      transitTablesIncoming = [(''A'', [(''B'', ''ba'')]), (''B'', [(''A'', ''ab'')])]\<rparr>"

lemma wired_ready: "pair_ready wired_env ''A'' ''B'' 128" "pair_ready wired_env ''B'' ''A'' 128"
  by (simp_all add: pair_ready_def wired_env_def chain_platforms_def platform_eval getEgress_def via_at_def
      table_entry_def get_key_def)

definition small_net :: net_awb where
  "small_net = \<lparr>MAX_NUMBER_OF_VIAS = 2, MIN_NUMBER_OF_VIAS = 1, net_umf = dense_awb\<rparr>"

lemma two_links_wf: "links_wf two_links [0, 1]"
  by (simp add: links_wf_def two_links_def sink_of_def)

text \<open>
  Lane generation never fails on a connected pair: with a positive connection width, a positive
  minimum number of lanes and links of nonnegative width and different names, \<open>generateViaLJF\<close>
  returns. In particular the search stops, no lane width becomes negative, and no link is left
  without an assignment.  With the usual minimum of one lane it returns at least one.
\<close>

theorem generateViaLJF_returns:
  assumes "pair_ready env p t width" and "0 < width" and "links_wf H links"
    and "0 < MIN_NUMBER_OF_VIAS awb"
  shows "\<exists>vias H'. generateViaLJF awb env p t links H = Some (Inr (vias, H'))
    \<and> (MIN_NUMBER_OF_VIAS awb = 1 \<and> 1 \<le> MAX_NUMBER_OF_VIAS awb \<longrightarrow> vias \<noteq> [])"
  using generateViaLJF_outcome [OF assms] by blast

theorem generateViaLJF_returns_witness:
  "\<exists>vias H'. generateViaLJF small_net wired_env ''A'' ''B'' [0, 1] two_links = Some (Inr (vias, H'))
     \<and> vias \<noteq> []"
  using generateViaLJF_returns [OF wired_ready(1) _ two_links_wf, of small_net]
  by (simp add: small_net_def)

text \<open>
  Both ends of every link agree on where it travels: after \<open>generateViaLJF\<close> the sending
  connection's lane and link number are those written to the receiving connection, they name an
  existing lane and a number below that lane's count, no two links share them, and the lanes
  partition the connection: one lane takes the whole width, several lanes take it with one valid
  bit each.
\<close>

theorem generateViaLJF_agree:
  assumes "pair_ready env p t width" and "0 < width" and "links_wf H links"
    and "0 < MIN_NUMBER_OF_VIAS awb"
    and "generateViaLJF awb env p t links H = Some (Inr (vias, H'))" and "vias \<noteq> []"
  shows "inj_on (egress_slot H') (set links)
    \<and> (\<forall>c \<in> set links. ingress_slot H' (sink_of H c) = egress_slot H' c
        \<and> (\<exists>i l. egress_slot H' c = (int i, l) \<and> i < length vias
             \<and> 0 \<le> l \<and> l < va_links (vias ! i)))
    \<and> (\<forall>v \<in> set vias. 0 < va_width v)
    \<and> (if length vias = 1 then va_width (vias ! 0) = width
       else sum_list (map va_width vias) + int (length vias) = width)"
proof -
  from generateViaLJF_outcome [OF assms(1-4)] assms(5,6) have
    same: "same_links H H'" and lanes: "lanes_ok width (map va_width vias)"
    and agree: "slots_agree H' links (map va_links vias)"
    by auto
  have "sink_of H' = sink_of H" by (rule ext) (rule same_linksD(3) [OF same])
  with agree lanes assms(6) show ?thesis
    by (auto simp: slots_agree_def lanes_ok_def split: if_splits)
qed

theorem generateViaLJF_agree_witness:
  "\<exists>vias H'. generateViaLJF small_net wired_env ''A'' ''B'' [0, 1] two_links = Some (Inr (vias, H'))
     \<and> ingress_slot H' 2 = egress_slot H' 0 \<and> egress_slot H' 0 \<noteq> egress_slot H' 1"
proof -
  have awb: "0 < MIN_NUMBER_OF_VIAS small_net" by (simp add: small_net_def)
  obtain vias H' where r:
    "generateViaLJF small_net wired_env ''A'' ''B'' [0, 1] two_links = Some (Inr (vias, H'))" "vias \<noteq> []"
    using generateViaLJF_outcome [OF wired_ready(1) _ two_links_wf awb] by (auto simp: small_net_def)
  from generateViaLJF_agree [OF wired_ready(1) _ two_links_wf awb r]
  have "inj_on (egress_slot H') {0, 1}" "ingress_slot H' (sink_of two_links 0) = egress_slot H' 0"
    by simp_all
  with r(1) show ?thesis
    by (intro exI [of _ vias] exI [of _ H']) (simp add: sink_of_def two_links_def eval_nat_numeral)
qed

end
