(* ===== verification/FlowControl.thy ===== *)
theory FlowControl
  imports GenerateVias
begin

text \<open>
  \<^verbatim>\<open>lim_connect/analyze-network/analyzeNetwork.py: analyzeNetworkNonuniform, analyzeNetworkLJF\<close> and
  the class \<open>Via\<close> of \<open>lim_connect/common/via.py\<close>.  For every ordered pair of connected platforms
  the connection is divided into lanes and its links allocated (the allocation function is an
  argument, as in the code); then every ingress lane gets a flow-control link on a local egress
  lane, counted after that lane's data links; then the routers are finalised on both sides.
  The dictionaries of dictionaries are maps keyed by the pair.
\<close>

section \<open>Data\<close>

record via =
  via_source :: string
  via_sink :: string
  via_direction :: string
  via_umfType :: umf_type
  via_width :: int
  via_links :: int
  via_io_links :: int
  via_flowcontrol_links :: int
  via_method :: string
  via_switch :: string
  via_outgoing_flowcontrol_link :: int
  via_outgoing_flowcontrol_via :: int
  via_load :: pynum
  via_filler_width :: int

definition mk_Via :: "string \<Rightarrow> string \<Rightarrow> string \<Rightarrow> umf_type \<Rightarrow> int \<Rightarrow> int \<Rightarrow> int \<Rightarrow> int \<Rightarrow> string
    \<Rightarrow> string \<Rightarrow> int \<Rightarrow> int \<Rightarrow> pynum \<Rightarrow> int \<Rightarrow> via" where
  "mk_Via source sink dir umf width links io_links fc_links meth switch fc_link fc_via load filler =
     \<lparr>via_source = source, via_sink = sink, via_direction = dir, via_umfType = umf,
      via_width = width, via_links = links, via_io_links = io_links,
      via_flowcontrol_links = fc_links, via_method = meth, via_switch = switch,
      via_outgoing_flowcontrol_link = fc_link, via_outgoing_flowcontrol_via = fc_via,
      via_load = load, via_filler_width = filler\<rparr>"

type_synonym 'a pairmap = "string \<times> string \<Rightarrow> 'a option"

definition at_pair :: "'a pairmap \<Rightarrow> string \<Rightarrow> string \<Rightarrow> 'a res" where
  "at_pair m p t = (case m (p, t) of None \<Rightarrow> Inl (KeyError t) | Some x \<Rightarrow> Inr x)"

lemma at_pair_Inr [res_simps]: "at_pair m p t = Inr x \<longleftrightarrow> m (p, t) = Some x"
  by (simp add: at_pair_def split: option.splits)

section \<open>First pass: lanes of every connection\<close>

text \<open>\<open>egressPlatforms\<close>: the pairs in the order the three passes visit them.\<close>

definition egressPlatforms :: "fpga_env \<Rightarrow> (string \<times> string) list" where
  "egressPlatforms env =
     concat (map (\<lambda>(n, pl). map (\<lambda>(k, v). (n, endpointName v)) (getEgresses pl)) (platforms env))"

record lanes_state =
  egressViasInitial :: "via list pairmap"
  ingressViasInitial :: "via list pairmap"
  ls_store :: store

definition setup_vias :: "fpga_env \<Rightarrow> store \<Rightarrow> lanes_state res" where
  "setup_vias env H =
     foldR (\<lambda>ls (p, t).
       if t \<in> set (getPlatformNames env) then
         Inr (ls\<lparr>egressViasInitial := (egressViasInitial ls)((p, t) \<mapsto> []),
                 ingressViasInitial := (ingressViasInitial ls)((t, p) \<mapsto> [])\<rparr>)
       else Inl (KeyError t))
       \<lparr>egressViasInitial = Map.empty, ingressViasInitial = Map.empty, ls_store = H\<rparr>
       (egressPlatforms env)"

definition plain_name :: "string \<Rightarrow> string" where
  "plain_name s = replace_char (CHR '']'') ''_'' (replace_char (CHR ''['') ''_''
     (replace_char (CHR ''.'') ''_'' s))"

definition maxWidth_on :: "store \<Rightarrow> nat list \<Rightarrow> nat \<Rightarrow> int" where
  "maxWidth_on H links v =
     fold (\<lambda>c m. max m (bitwidth (H c))) (filter (\<lambda>c. via_idx_egress (H c) = int v) links) 0"

definition first_vias ::
  "net_awb \<Rightarrow> fpga_env \<Rightarrow> string \<Rightarrow> string \<Rightarrow> nat list \<Rightarrow> store \<Rightarrow> string \<Rightarrow> string
     \<Rightarrow> nat \<times> via_assignment \<Rightarrow> (via \<times> via) run" where
  "first_vias awb env p t links H hopFromTarget hopToTarget x =
     (let (v, va) = x
      in bindO (generateRouterTypesPair awb env p t (va_width va) (va_links va) (maxWidth_on H links v))
        (\<lambda>umf. Some (Inr
          (mk_Via p t ''egress'' umf (va_width va) (va_links va) (va_links va) 0
             (plain_name hopFromTarget @ str_of_nat v @ ''_write'')
             (''switch_egress_'' @ p @ ''_to_'' @ t @ ''_'' @ plain_name hopFromTarget @ str_of_nat v)
             (- 1) (- 1) (va_load va) (fillerBits umf),
           mk_Via t p ''ingress'' umf (va_width va) (va_links va) (va_links va) 0
             (plain_name hopToTarget @ str_of_nat v @ ''_read'')
             (''switch_ingress_'' @ t @ ''_from_'' @ p @ ''_'' @ plain_name hopToTarget @ str_of_nat v)
             (- 1) (- 1) (va_load va) (fillerBits umf)))))"

type_synonym allocator = "string \<Rightarrow> string \<Rightarrow> store \<Rightarrow> (via_assignment list \<times> store) run"

definition has_connection :: "fpga_env \<Rightarrow> string \<Rightarrow> string \<Rightarrow> unit res" where
  "has_connection env p t =
     bindR (getPlatform env p) (\<lambda>pl. bindR (getEgress pl t) (\<lambda>e.
       bindR (getPlatform env t) (\<lambda>tl. bindR (getIngress tl p) (\<lambda>i. Inr ()))))"

definition lanes_pair ::
  "allocator \<Rightarrow> net_awb \<Rightarrow> fpga_env \<Rightarrow> (string \<Rightarrow> string \<Rightarrow> nat list) \<Rightarrow> lanes_state
     \<Rightarrow> string \<times> string \<Rightarrow> lanes_state run" where
  "lanes_pair allocateFunction awb env linksOf ls pt =
     (let (p, t) = pt
      in bindO (allocateFunction p t (ls_store ls)) (\<lambda>(viasFinal, H).
           bindO (Some (table_entry (transitTablesIncoming env) p t)) (\<lambda>hopFromTarget.
           bindO (Some (table_entry (transitTablesOutgoing env) t p)) (\<lambda>hopToTarget.
           bindO (Some (has_connection env p t)) (\<lambda>u.
           bindO (Some (at_pair (egressViasInitial ls) p t)) (\<lambda>es.
           bindO (Some (at_pair (ingressViasInitial ls) t p)) (\<lambda>is.
           bindO (mapO (first_vias awb env p t (linksOf p t) H hopFromTarget hopToTarget)
                    (enumerate 0 viasFinal)) (\<lambda>vs.
             Some (Inr
               \<lparr>egressViasInitial = (egressViasInitial ls)((p, t) \<mapsto> es @ map fst vs),
                ingressViasInitial = (ingressViasInitial ls)((t, p) \<mapsto> is @ map snd vs),
                ls_store = H\<rparr>)))))))))"

section \<open>Second pass: flow control\<close>

definition fc_chunks :: "int \<Rightarrow> int res" where
  "fc_chunks width =
     (let bitwidth = 8; headerSize = 7
      in if width = 0 then Inl ZeroDivisionError
         else Inr ((bitwidth + headerSize) div width
                + (if (bitwidth + headerSize) mod width \<noteq> 0 then 1 else 0)))"

fun pick_flow :: "nat \<Rightarrow> (int \<times> pynum \<times> pynum) list \<Rightarrow> (nat \<times> pynum) option
    \<Rightarrow> (nat \<times> pynum) option res" where
  "pick_flow v [] best = Inr best"
| "pick_flow v ((width, loadOld, loadNow) # rest) best =
     bindR (fc_chunks width) (\<lambda>chunks.
     bindR (py_div loadOld (PyInt 128)) (\<lambda>unit_load.
       let load = py_add (py_mul unit_load (PyInt chunks)) loadNow
       in pick_flow (Suc v) rest
            (case best of
               None \<Rightarrow> Some (v, load)
             | Some (minIdx, minLoad) \<Rightarrow> if py_lt load minLoad then Some (v, load) else best)))"

record flow_state =
  fs_links :: "int list"
  fs_loads :: "pynum list"
  fs_assigned :: "(nat \<times> int) list"

definition flow_step :: "via list \<Rightarrow> flow_state \<Rightarrow> via \<Rightarrow> flow_state res" where
  "flow_step localEgress fs ingress =
     bindR (pick_flow 0 (zip (map via_width localEgress)
              (zip (map via_load localEgress) (fs_loads fs))) None) (\<lambda>best.
       case best of
         None \<Rightarrow> Inl IndexError
       | Some (minIdx, minLoad) \<Rightarrow>
           Inr \<lparr>fs_links = (fs_links fs)[minIdx := fs_links fs ! minIdx + 1],
                fs_loads = (fs_loads fs)[minIdx := minLoad],
                fs_assigned = fs_assigned fs @ [(minIdx, fs_links fs ! minIdx)]\<rparr>)"

definition flow_pair :: "via list \<Rightarrow> via list \<Rightarrow> flow_state res" where
  "flow_pair localEgress localIngress =
     foldR (flow_step localEgress)
       \<lparr>fs_links = map via_links localEgress, fs_loads = map via_load localEgress,
        fs_assigned = []\<rparr>
       localIngress"

text \<open>
  \<open>ingressFlowcontrolAssignment\<close> has a row only for platforms that are somebody's target.
\<close>

definition flow_control :: "fpga_env \<Rightarrow> lanes_state \<Rightarrow> flow_state pairmap res" where
  "flow_control env ls =
     foldR (\<lambda>F (p, t).
       bindR (at_pair (egressViasInitial ls) p t) (\<lambda>localEgress.
       bindR (at_pair (ingressViasInitial ls) p t) (\<lambda>localIngress.
         if p \<notin> snd ` set (egressPlatforms env) then Inl (KeyError p)
         else bindR (flow_pair localEgress localIngress) (\<lambda>fs. Inr (F((p, t) \<mapsto> fs))))))
       Map.empty (egressPlatforms env)"

section \<open>Third pass: the final routers\<close>

definition final_via ::
  "net_awb \<Rightarrow> fpga_env \<Rightarrow> (string \<Rightarrow> string \<Rightarrow> nat list) \<Rightarrow> lanes_state \<Rightarrow> flow_state pairmap
     \<Rightarrow> string \<Rightarrow> string \<Rightarrow> nat \<Rightarrow> (via \<times> via) run" where
  "final_via awb env linksOf ls F p t v =
     bindO (Some (at_pair F p t)) (\<lambda>fs.
     bindO (Some (bindR (at_pair (egressViasInitial ls) p t) (\<lambda>es. nth_res es v))) (\<lambda>e1.
     bindO (Some (bindR (at_pair (ingressViasInitial ls) t p) (\<lambda>is. nth_res is v))) (\<lambda>i1.
     bindO (Some (has_connection env p t)) (\<lambda>u.
     bindO (generateRouterTypesPair awb env p t (via_width e1) (fs_links fs ! v)
              (maxWidth_on (ls_store ls) (linksOf p t) v)) (\<lambda>umf.
       if via_width e1 \<noteq> via_width i1 then Some (Inl (SystemExit 0))
       else if via_links e1 \<noteq> via_links i1 then Some (Inl (SystemExit 0))
       else
         bindO (Some (bindR (at_pair F t p) (\<lambda>gs. nth_res (fs_assigned gs) v))) (\<lambda>(fvia, flink).
           Some (Inr
             (mk_Via p t ''egress'' umf (via_width e1) (fs_links fs ! v) (via_links e1)
                (fs_links fs ! v - via_links e1) (via_method e1) (via_switch e1) flink (int fvia)
                (fs_loads fs ! v) (fillerBits umf),
              mk_Via t p ''ingress'' umf (via_width i1) (fs_links fs ! v) (via_links i1)
                (fs_links fs ! v - via_links i1) (via_method i1) (via_switch i1) flink (int fvia)
                (fs_loads fs ! v) (fillerBits umf)))))))))"

record network =
  logicalEgress :: "via list pairmap"
  logicalIngress :: "via list pairmap"
  net_store :: store

definition final_pair ::
  "net_awb \<Rightarrow> fpga_env \<Rightarrow> (string \<Rightarrow> string \<Rightarrow> nat list) \<Rightarrow> lanes_state \<Rightarrow> flow_state pairmap
     \<Rightarrow> network \<Rightarrow> string \<times> string \<Rightarrow> network run" where
  "final_pair awb env linksOf ls F net pt =
     (let (p, t) = pt
      in bindO (Some (at_pair F p t)) (\<lambda>fs.
         bindO (mapO (final_via awb env linksOf ls F p t) [0..<length (fs_links fs)]) (\<lambda>vs.
           Some (Inr (net\<lparr>logicalEgress := (logicalEgress net)((p, t) \<mapsto> map fst vs),
                          logicalIngress := (logicalIngress net)((t, p) \<mapsto> map snd vs)\<rparr>)))))"

definition analyzeNetworkNonuniform ::
  "allocator \<Rightarrow> net_awb \<Rightarrow> fpga_env \<Rightarrow> (string \<Rightarrow> string \<Rightarrow> nat list) \<Rightarrow> store \<Rightarrow> network run" where
  "analyzeNetworkNonuniform allocateFunction awb env linksOf H =
     bindO (Some (setup_vias env H)) (\<lambda>ls0.
     bindO (foldO (lanes_pair allocateFunction awb env linksOf) ls0 (egressPlatforms env)) (\<lambda>ls.
     bindO (Some (flow_control env ls)) (\<lambda>F.
       foldO (final_pair awb env linksOf ls F)
         \<lparr>logicalEgress = Map.empty, logicalIngress = Map.empty, net_store = ls_store ls\<rparr>
         (egressPlatforms env))))"

definition analyzeNetworkLJF ::
  "net_awb \<Rightarrow> fpga_env \<Rightarrow> (string \<Rightarrow> string \<Rightarrow> nat list) \<Rightarrow> store \<Rightarrow> network run" where
  "analyzeNetworkLJF awb env linksOf H =
     analyzeNetworkNonuniform (\<lambda>p t. generateViaLJF awb env p t (linksOf p t)) awb env linksOf H"

section \<open>The other analyses\<close>

text \<open>
  The parameter of \<open>generateViaCombinational\<close> is spelled \<open>moduelList\<close>, and its first statement
  reads \<open>moduleList\<close>, which is not a global name.  \<open>analyzeNetworkUniform\<close> reads \<open>platform\<close>
  before the loop that binds it, and the parameter of \<open>analyzeNetworkRandom\<close> is spelled
  \<open>platformLIGraph\<close>.
\<close>

definition generateViaCombinational :: allocator where
  "generateViaCombinational p t H = Some (Inl (NameError ''moduleList''))"

definition analyzeNetworkComb ::
  "net_awb \<Rightarrow> fpga_env \<Rightarrow> (string \<Rightarrow> string \<Rightarrow> nat list) \<Rightarrow> store \<Rightarrow> network run" where
  "analyzeNetworkComb awb env linksOf H =
     analyzeNetworkNonuniform generateViaCombinational awb env linksOf H"

definition analyzeNetworkUniform :: "bool \<Rightarrow> store \<Rightarrow> network run" where
  "analyzeNetworkUniform useActivity H = Some (Inl (UnboundLocalError ''platform''))"

definition analyzeNetworkCompletelyRandom :: "store \<Rightarrow> network run" where
  "analyzeNetworkCompletelyRandom H = analyzeNetworkUniform False H"

definition analyzeNetworkRandom :: "store \<Rightarrow> network run" where
  "analyzeNetworkRandom H = Some (Inl (NameError ''platformGraph''))"

text \<open>\<open>analyzeNetwork\<close> evaluates the parameter \<open>ANALYZE_NETWORK\<close> as the name of a function.\<close>

definition analyzeNetwork ::
  "string \<Rightarrow> net_awb \<Rightarrow> fpga_env \<Rightarrow> (string \<Rightarrow> string \<Rightarrow> nat list) \<Rightarrow> store \<Rightarrow> network run" where
  "analyzeNetwork name awb env linksOf H =
     (if name = ''analyzeNetworkLJF'' then analyzeNetworkLJF awb env linksOf H
      else if name = ''analyzeNetworkComb'' then analyzeNetworkComb awb env linksOf H
      else if name = ''analyzeNetworkCompletelyRandom'' then analyzeNetworkCompletelyRandom H
      else if name = ''analyzeNetworkRandom'' then analyzeNetworkRandom H
      else Some (Inl (NameError name)))"

section \<open>Flow-control links follow the data links\<close>

lemma fc_chunks_total: "0 < w \<Longrightarrow> \<exists>n. fc_chunks w = Inr n"
  by (simp add: fc_chunks_def Let_def)

lemma py_div_128: "\<exists>q. py_div x (PyInt 128) = Inr q"
  by (cases x) auto

lemma pick_flow_best:
  assumes "\<forall>(w, _) \<in> set zs. 0 < w"
  shows "\<exists>r. pick_flow v zs (Some (i, m)) = Inr (Some r)
    \<and> (fst r = i \<or> v \<le> fst r \<and> fst r < v + length zs)"
  using assms
proof (induction zs arbitrary: v i m)
  case Nil
  then show ?case by simp
next
  case (Cons z zs)
  obtain w lo ln where z: "z = (w, lo, ln)" by (cases z)
  obtain n q where nq: "fc_chunks w = Inr n" "py_div lo (PyInt 128) = Inr q"
    using Cons.prems z fc_chunks_total py_div_128 by force
  have rest: "\<forall>(w, _) \<in> set zs. 0 < w" using Cons.prems by auto
  let ?load = "py_add (py_mul q (PyInt n)) ln"
  show ?case
  proof (cases "py_lt ?load m")
    case True
    with Cons.IH [OF rest, of "Suc v" v ?load] show ?thesis by (auto simp: z nq Let_def)
  next
    case False
    with Cons.IH [OF rest, of "Suc v" i m] show ?thesis by (auto simp: z nq Let_def)
  qed
qed

lemma pick_flow_range:
  assumes "\<forall>(w, _) \<in> set zs. 0 < w" and "zs \<noteq> []"
  obtains i m where "pick_flow 0 zs None = Inr (Some (i, m))" and "i < length zs"
proof -
  obtain w lo ln zs' where zs: "zs = (w, lo, ln) # zs'"
    using assms(2) by (cases zs) auto
  obtain n q where nq: "fc_chunks w = Inr n" "py_div lo (PyInt 128) = Inr q"
    using assms(1) zs fc_chunks_total py_div_128 by force
  have rest: "\<forall>(w, _) \<in> set zs'. 0 < w" using assms(1) zs by auto
  from pick_flow_best [OF rest, of "Suc 0" 0 "py_add (py_mul q (PyInt n)) ln"] that show ?thesis
    by (auto simp: zs nq Let_def)
qed

lemma flow_steps:
  assumes "es \<noteq> []" and "\<forall>e \<in> set es. 0 < via_width e"
    and "length (fs_links fs) = length es" and "length (fs_loads fs) = length es"
  shows "\<exists>fs' lanes. foldR (flow_step es) fs is = Inr fs' \<and> length lanes = length is
    \<and> set lanes \<subseteq> {..<length es}
    \<and> length (fs_links fs') = length es \<and> length (fs_loads fs') = length es
    \<and> lane_counts (fs_links fs') = after_slots (lane_counts (fs_links fs)) lanes
    \<and> fs_assigned fs' = fs_assigned fs @ take_slots (lane_counts (fs_links fs)) lanes"
  using assms(3,4)
proof (induction "is" arbitrary: fs)
  case Nil
  show ?case by (intro exI [of _ fs] exI [of _ "[]"]) (simp add: Nil)
next
  case (Cons x "is")
  let ?zs = "zip (map via_width es) (zip (map via_load es) (fs_loads fs))"
  have zs: "\<forall>(w, _) \<in> set ?zs. 0 < w" "?zs \<noteq> []" "length ?zs = length es"
    using assms(1,2) Cons.prems by (auto dest!: set_zip_leftD)
  obtain i m where im: "pick_flow 0 ?zs None = Inr (Some (i, m))" "i < length es"
    using pick_flow_range [OF zs(1,2)] zs(3) by metis
  let ?fs = "\<lparr>fs_links = (fs_links fs)[i := fs_links fs ! i + 1], fs_loads = (fs_loads fs)[i := m],
    fs_assigned = fs_assigned fs @ [(i, fs_links fs ! i)]\<rparr>"
  have step: "flow_step es fs x = Inr ?fs"
    using im(1) by (simp add: flow_step_def)
  have i: "lane_counts (fs_links fs) i = fs_links fs ! i" "i < length (fs_links fs)"
    using im(2) Cons.prems by (simp_all add: lane_counts_def)
  obtain fs' lanes where fs': "foldR (flow_step es) ?fs is = Inr fs'" "length lanes = length is"
    "set lanes \<subseteq> {..<length es}" "length (fs_links fs') = length es" "length (fs_loads fs') = length es"
    "lane_counts (fs_links fs') = after_slots (lane_counts (fs_links ?fs)) lanes"
    "fs_assigned fs' = fs_assigned ?fs @ take_slots (lane_counts (fs_links ?fs)) lanes"
    using Cons.IH [of ?fs] Cons.prems by auto
  show ?case
    by (intro exI [of _ fs'] exI [of _ "i # lanes"]) (use step fs' im(2) i in simp)
qed

text \<open>
  What flow control does for one direction of a pair: one slot per ingress lane, all different, in
  the numbers between each egress lane's data links and its new count.
\<close>

definition flow_ok :: "via list \<Rightarrow> nat \<Rightarrow> flow_state \<Rightarrow> bool" where
  "flow_ok es n fs \<longleftrightarrow> length (fs_links fs) = length es \<and> length (fs_loads fs) = length es
     \<and> length (fs_assigned fs) = n \<and> distinct (fs_assigned fs)
     \<and> set (fs_assigned fs) = {(v, j). v < length es \<and> via_links (es ! v) \<le> j \<and> j < fs_links fs ! v}
     \<and> (\<forall>v<length es. via_links (es ! v) \<le> fs_links fs ! v)"

lemma flow_pair_ok:
  assumes "es \<noteq> []" and "\<forall>e \<in> set es. 0 < via_width e"
  shows "\<exists>fs. flow_pair es is = Inr fs \<and> flow_ok es (length is) fs"
proof -
  let ?k = "lane_counts (map via_links es)"
  obtain fs lanes where fs: "flow_pair es is = Inr fs" "length lanes = length is"
    "set lanes \<subseteq> {..<length es}" "length (fs_links fs) = length es" "length (fs_loads fs) = length es"
    "lane_counts (fs_links fs) = after_slots ?k lanes" "fs_assigned fs = take_slots ?k lanes"
    using flow_steps [OF assms, of "\<lparr>fs_links = map via_links es, fs_loads = map via_load es,
      fs_assigned = []\<rparr>" "is"] by (auto simp: flow_pair_def)
  have count: "fs_links fs ! v = via_links (es ! v) + int (count_list lanes v)" if "v < length es" for v
    using fun_cong [OF fs(6), of v] that fs(4) by (simp add: lane_counts_def after_slots_count)
  have "count_list lanes v = 0" if "\<not> v < length es" for v
    using fs(3) that by (auto simp: count_list_0_iff)
  then have "(v, j) \<in> set (take_slots ?k lanes) \<longleftrightarrow>
      v < length es \<and> via_links (es ! v) \<le> j \<and> j < fs_links fs ! v" for v j
    using count [of v] by (cases "v < length es") (simp_all add: set_take_slots lane_counts_def)
  then have "set (fs_assigned fs) = {(v, j). v < length es \<and> via_links (es ! v) \<le> j \<and> j < fs_links fs ! v}"
    unfolding fs(7) by auto
  with fs count show ?thesis
    by (auto simp: flow_ok_def distinct_take_slots)
qed

section \<open>The analysis completes\<close>

text \<open>
  The contract between the analysis and the allocation function it is given: from a state in
  which a pair is ready it returns at least one lane, all of positive width, whose slots agree at
  both ends of every link, and it writes only the links of the pair.
\<close>

locale lane_allocator =
  fixes allocate :: allocator
    and linksOf :: "string \<Rightarrow> string \<Rightarrow> nat list"
    and ready :: "store \<Rightarrow> string \<Rightarrow> string \<Rightarrow> bool"
    and most :: "string \<Rightarrow> string \<Rightarrow> nat"
  assumes allocate_ok: "ready H p t \<Longrightarrow> \<exists>vias H'. allocate p t H = Some (Inr (vias, H'))
      \<and> same_links H H' \<and> slots_framed H H' (linksOf p t)
      \<and> vias \<noteq> [] \<and> length vias \<le> most p t \<and> (\<forall>v \<in> set vias. 0 < va_width v)
      \<and> slots_agree H' (linksOf p t) (map va_links vias)"
    and ready_same: "same_links H H' \<Longrightarrow> ready H p t \<Longrightarrow> ready H' p t"

definition ljf_ready ::
  "net_awb \<Rightarrow> fpga_env \<Rightarrow> (string \<Rightarrow> string \<Rightarrow> nat list) \<Rightarrow> store \<Rightarrow> string \<Rightarrow> string \<Rightarrow> bool" where
  "ljf_ready awb env linksOf H p t \<longleftrightarrow> (\<exists>width>0. pair_ready env p t width)
     \<and> links_wf H (linksOf p t) \<and> MIN_NUMBER_OF_VIAS awb = 1 \<and> 1 \<le> MAX_NUMBER_OF_VIAS awb"

interpretation ljf: lane_allocator "\<lambda>p t. generateViaLJF awb env p t (linksOf p t)" linksOf
    "ljf_ready awb env linksOf" "lane_bound awb env" for awb env linksOf
proof
  fix H p t
  assume "ljf_ready awb env linksOf H p t"
  then obtain width where r: "pair_ready env p t width" "0 < width" "links_wf H (linksOf p t)"
    "MIN_NUMBER_OF_VIAS awb = 1" "1 \<le> MAX_NUMBER_OF_VIAS awb"
    by (auto simp: ljf_ready_def)
  from generateViaLJF_outcome [OF r(1-3), of awb] r(4,5) obtain vias H' where
    o: "generateViaLJF awb env p t (linksOf p t) H = Some (Inr (vias, H'))" "same_links H H'"
      "slots_framed H H' (linksOf p t)" "vias \<noteq> []" "lanes_ok width (map va_width vias)"
      "slots_agree H' (linksOf p t) (map va_links vias)" "length vias \<le> lane_bound awb env p t"
    by auto
  from o(5) have "\<forall>v \<in> set vias. 0 < va_width v" by (simp add: lanes_ok_def)
  with o show "\<exists>vias H'. generateViaLJF awb env p t (linksOf p t) H = Some (Inr (vias, H'))
      \<and> same_links H H' \<and> slots_framed H H' (linksOf p t)
      \<and> vias \<noteq> [] \<and> length vias \<le> lane_bound awb env p t \<and> (\<forall>v \<in> set vias. 0 < va_width v)
      \<and> slots_agree H' (linksOf p t) (map va_links vias)"
    by blast
next
  fix H H' p t
  assume "same_links H H'" "ljf_ready awb env linksOf H p t"
  then show "ljf_ready awb env linksOf H' p t"
    by (auto simp: ljf_ready_def links_wf_same)
qed

text \<open>What the pairs of an environment need for the analysis.\<close>

definition pair_wired :: "fpga_env \<Rightarrow> string \<Rightarrow> string \<Rightarrow> bool" where
  "pair_wired env p t \<longleftrightarrow> has_connection env p t = Inr ()
     \<and> (\<exists>x. table_entry (transitTablesIncoming env) p t = Inr x)
     \<and> (\<exists>y. table_entry (transitTablesOutgoing env) t p = Inr y)"

definition links_apart :: "store \<Rightarrow> nat list \<Rightarrow> nat list \<Rightarrow> bool" where
  "links_apart H cs ds \<longleftrightarrow> set cs \<inter> set ds = {} \<and> sink_of H ` set cs \<inter> sink_of H ` set ds = {}"

definition network_wired :: "fpga_env \<Rightarrow> (string \<Rightarrow> string \<Rightarrow> nat list) \<Rightarrow> store \<Rightarrow> bool" where
  "network_wired env linksOf H \<longleftrightarrow> distinct (egressPlatforms env)
     \<and> (\<forall>(p, t) \<in> set (egressPlatforms env). pair_wired env p t
          \<and> p \<in> set (getPlatformNames env) \<and> t \<in> set (getPlatformNames env)
          \<and> (t, p) \<in> set (egressPlatforms env)
          \<and> (\<forall>(q, u) \<in> set (egressPlatforms env). (q, u) \<noteq> (p, t) \<longrightarrow>
               links_apart H (linksOf p t) (linksOf q u)))"

lemma network_wired_apart:
  assumes "network_wired env linksOf H" and "(p, t) \<in> set (egressPlatforms env)"
    and "(q, u) \<in> set (egressPlatforms env)" and "(p, t) \<noteq> (q, u)"
  shows "links_apart H (linksOf p t) (linksOf q u)"
proof -
  have "\<forall>(q, u) \<in> set (egressPlatforms env). (q, u) \<noteq> (p, t) \<longrightarrow>
      links_apart H (linksOf p t) (linksOf q u)"
    using assms(1) unfolding network_wired_def
    by (elim conjE) (drule bspec [OF _ assms(2)], simp)
  from bspec [OF this assms(3)] assms(4) show ?thesis by auto
qed

lemma cpu_pair_total:
  "p \<in> set (getPlatformNames env) \<Longrightarrow> t \<in> set (getPlatformNames env) \<Longrightarrow> \<exists>b. cpu_pair env p t = Inr b"
  by (auto simp: cpu_pair_def getPlatformNames_def get_key_def keys_map_of split: option.splits)

lemma generateRouterTypesPair_total:
  assumes "p \<in> set (getPlatformNames env)" and "t \<in> set (getPlatformNames env)" and "0 < w"
  shows "\<exists>umf. generateRouterTypesPair awb env p t w n m = Some (Inr umf)"
  using cpu_pair_total [OF assms(1,2)] generateRouterTypes_total [OF assms(3)]
  by (auto simp: generateRouterTypesPair_def)

lemma slots_agree_framed:
  assumes "slots_agree H cs ns" and "same_links H H'" and "slots_framed H H' ds"
    and "links_apart H cs ds"
  shows "slots_agree H' cs ns"
proof -
  have sink: "sink_of H' = sink_of H" by (rule ext) (rule same_linksD(3) [OF assms(2)])
  have "egress_slot H' c = egress_slot H c" "ingress_slot H' (sink_of H c) = ingress_slot H (sink_of H c)"
    if "c \<in> set cs" for c
    using assms(3,4) that unfolding slots_framed_def links_apart_def by blast+
  with assms(1) show ?thesis
    by (auto simp: slots_agree_def sink inj_on_def)
qed

text \<open>The lanes of a pair after the first pass.\<close>

definition lanes_done :: "(string \<Rightarrow> string \<Rightarrow> nat) \<Rightarrow> (string \<Rightarrow> string \<Rightarrow> nat list) \<Rightarrow> lanes_state \<Rightarrow> string \<Rightarrow> string \<Rightarrow> bool" where
  "lanes_done most linksOf ls p t \<longleftrightarrow> (\<exists>es is. egressViasInitial ls (p, t) = Some es
     \<and> ingressViasInitial ls (t, p) = Some is \<and> es \<noteq> [] \<and> length es \<le> most p t \<and> (\<forall>e \<in> set es. 0 < via_width e)
     \<and> map via_width is = map via_width es \<and> map via_links is = map via_links es
     \<and> slots_agree (ls_store ls) (linksOf p t) (map via_links es))"

lemma first_vias_fields:
  assumes "first_vias awb env p t links H h1 h2 (v, va) = Some (Inr y)"
  shows "via_width (fst y) = va_width va" and "via_width (snd y) = va_width va"
    and "via_links (fst y) = va_links va" and "via_links (snd y) = va_links va"
  using assms by (auto simp: first_vias_def bindO_returns mk_Via_def)

lemma first_vias_total:
  assumes "p \<in> set (getPlatformNames env)" and "t \<in> set (getPlatformNames env)"
    and "\<forall>v \<in> set vias. 0 < va_width v"
  shows "\<exists>vs. mapO (first_vias awb env p t links H h1 h2) (enumerate 0 vias) = Some (Inr vs)
    \<and> map (\<lambda>x. via_width (fst x)) vs = map va_width vias
    \<and> map (\<lambda>x. via_width (snd x)) vs = map va_width vias
    \<and> map (\<lambda>x. via_links (fst x)) vs = map va_links vias
    \<and> map (\<lambda>x. via_links (snd x)) vs = map va_links vias"
proof -
  let ?f = "first_vias awb env p t links H h1 h2"
  have "\<exists>y. ?f x = Some (Inr y)" if x: "x \<in> set (enumerate 0 vias)" for x
  proof -
    obtain v va where xv: "x = (v, va)" by (cases x)
    with x have "va \<in> set vias" by (auto simp: in_set_enumerate_eq)
    with assms(3) have "0 < va_width va" by blast
    from generateRouterTypesPair_total [OF assms(1,2) this] obtain umf where
      "generateRouterTypesPair awb env p t (va_width va) (va_links va) (maxWidth_on H links v)
        = Some (Inr umf)"
      by blast
    then show ?thesis by (simp add: first_vias_def xv)
  qed
  then obtain vs where vs: "mapO ?f (enumerate 0 vias) = Some (Inr vs)"
    "list_all2 (\<lambda>x y. ?f x = Some (Inr y)) (enumerate 0 vias) vs"
    using mapO_returns [of "enumerate 0 vias" ?f] by blast
  have len: "length vs = length vias" using list_all2_lengthD [OF vs(2)] by simp
  have "via_width (fst (vs ! i)) = va_width (vias ! i) \<and> via_width (snd (vs ! i)) = va_width (vias ! i)
      \<and> via_links (fst (vs ! i)) = va_links (vias ! i) \<and> via_links (snd (vs ! i)) = va_links (vias ! i)"
    if "i < length vias" for i
    using list_all2_nthD [OF vs(2), of i] that
    by (simp add: nth_enumerate_eq first_vias_fields)
  with vs(1) len show ?thesis
    by (intro exI [of _ vs]) (auto intro!: nth_equalityI)
qed

lemma setup_vias_ok:
  assumes "network_wired env linksOf H"
  shows "\<exists>ls. setup_vias env H = Inr ls \<and> ls_store ls = H
    \<and> (\<forall>(p, t) \<in> set (egressPlatforms env). egressViasInitial ls (p, t) = Some []
         \<and> ingressViasInitial ls (t, p) = Some [])"
proof -
  let ?f = "\<lambda>ls (p, t). if t \<in> set (getPlatformNames env) then
         Inr (ls\<lparr>egressViasInitial := (egressViasInitial ls)((p, t) \<mapsto> []),
                 ingressViasInitial := (ingressViasInitial ls)((t, p) \<mapsto> [])\<rparr>)
       else Inl (KeyError t)"
  have "\<exists>ls'. foldR ?f ls xs = Inr ls' \<and> ls_store ls' = ls_store ls
      \<and> (\<forall>x. egressViasInitial ls' x = (if x \<in> set xs then Some [] else egressViasInitial ls x))
      \<and> (\<forall>p t. ingressViasInitial ls' (t, p) = (if (p, t) \<in> set xs then Some [] else ingressViasInitial ls (t, p)))"
    if "set xs \<subseteq> set (egressPlatforms env)" for xs ls
    using that
  proof (induction xs arbitrary: ls)
    case Nil
    then show ?case by simp
  next
    case (Cons x xs)
    obtain p t where x: "x = (p, t)" by (cases x)
    then have "t \<in> set (getPlatformNames env)"
      using Cons.prems assms by (auto simp: network_wired_def)
    with x Cons.IH [of "ls\<lparr>egressViasInitial := (egressViasInitial ls)((p, t) \<mapsto> []),
                 ingressViasInitial := (ingressViasInitial ls)((t, p) \<mapsto> [])\<rparr>"] Cons.prems
    show ?case by (auto simp del: foldR.simps(2) simp: foldR.simps(2) [of ?f])
  qed
  from this [of "egressPlatforms env" "\<lparr>egressViasInitial = Map.empty,
      ingressViasInitial = Map.empty, ls_store = H\<rparr>"] show ?thesis
    by (auto simp: setup_vias_def)
qed

context lane_allocator
begin

lemma lanes_pair_ok:
  assumes wired: "network_wired env linksOf H" and pt: "(p, t) \<in> set (egressPlatforms env)"
    and same: "same_links H (ls_store ls)" and rdy: "ready H p t"
    and init: "egressViasInitial ls (p, t) = Some []" "ingressViasInitial ls (t, p) = Some []"
  shows "\<exists>ls'. lanes_pair allocate awb env linksOf ls (p, t) = Some (Inr ls')
    \<and> same_links H (ls_store ls') \<and> slots_framed (ls_store ls) (ls_store ls') (linksOf p t)
    \<and> lanes_done most linksOf ls' p t
    \<and> (\<forall>x. x \<noteq> (p, t) \<longrightarrow> egressViasInitial ls' x = egressViasInitial ls x)
    \<and> (\<forall>x. x \<noteq> (t, p) \<longrightarrow> ingressViasInitial ls' x = ingressViasInitial ls x)"
proof -
  have w: "pair_wired env p t" "p \<in> set (getPlatformNames env)" "t \<in> set (getPlatformNames env)"
    using wired pt by (auto simp: network_wired_def)
  obtain h1 h2 where hops: "table_entry (transitTablesIncoming env) p t = Inr h1"
    "table_entry (transitTablesOutgoing env) t p = Inr h2" "has_connection env p t = Inr ()"
    using w(1) by (auto simp: pair_wired_def)
  obtain vias H' where al: "allocate p t (ls_store ls) = Some (Inr (vias, H'))"
    "same_links (ls_store ls) H'" "slots_framed (ls_store ls) H' (linksOf p t)" "vias \<noteq> []"
    "\<forall>v \<in> set vias. 0 < va_width v" "slots_agree H' (linksOf p t) (map va_links vias)"
    "length vias \<le> most p t"
    using allocate_ok [OF ready_same [OF same rdy]] by blast
  obtain vs where vs:
    "mapO (first_vias awb env p t (linksOf p t) H' h1 h2) (enumerate 0 vias) = Some (Inr vs)"
    "map (\<lambda>x. via_width (fst x)) vs = map va_width vias"
    "map (\<lambda>x. via_width (snd x)) vs = map va_width vias"
    "map (\<lambda>x. via_links (fst x)) vs = map va_links vias"
    "map (\<lambda>x. via_links (snd x)) vs = map va_links vias"
    using first_vias_total [OF w(2,3) al(5)] by blast
  let ?ls = "\<lparr>egressViasInitial = (egressViasInitial ls)((p, t) \<mapsto> map fst vs),
    ingressViasInitial = (ingressViasInitial ls)((t, p) \<mapsto> map snd vs), ls_store = H'\<rparr>"
  have step: "lanes_pair allocate awb env linksOf ls (p, t) = Some (Inr ?ls)"
    using al(1) hops vs(1) init by (simp add: lanes_pair_def at_pair_def)
  have "0 < via_width (fst x)" if "x \<in> set vs" for x
    using al(5) that arg_cong [OF vs(2), of set] by (metis (no_types, lifting) image_eqI image_iff list.set_map)
  moreover have "vs \<noteq> []" using vs(2) al(4) by auto
  moreover have "length vs \<le> most p t" using al(7) arg_cong [OF vs(2), of length] by simp
  ultimately have "lanes_done most linksOf ?ls p t"
    using vs al(6) by (simp add: lanes_done_def comp_def)
  moreover have "same_links H H'" by (rule same_links_trans [OF same al(2)])
  ultimately show ?thesis
    using step al(3) by (intro exI [of _ ?ls]) simp
qed

lemma lanes_pass_ok:
  assumes wired: "network_wired env linksOf H"
    and rdy: "\<forall>(p, t) \<in> set (egressPlatforms env). ready H p t"
    and start: "ls_store ls = H" "\<forall>(p, t) \<in> set (egressPlatforms env).
      egressViasInitial ls (p, t) = Some [] \<and> ingressViasInitial ls (t, p) = Some []"
  shows "\<exists>ls'. foldO (lanes_pair allocate awb env linksOf) ls (egressPlatforms env) = Some (Inr ls')
    \<and> same_links H (ls_store ls') \<and> (\<forall>(p, t) \<in> set (egressPlatforms env). lanes_done most linksOf ls' p t)"
proof -
  let ?P = "\<lambda>pre todo ls. same_links H (ls_store ls)
    \<and> (\<forall>(p, t) \<in> set pre. lanes_done most linksOf ls p t)
    \<and> (\<forall>(p, t) \<in> set todo. egressViasInitial ls (p, t) = Some [] \<and> ingressViasInitial ls (t, p) = Some [])"
  have "\<exists>ls'. foldO (lanes_pair allocate awb env linksOf) ls (egressPlatforms env) = Some (Inr ls')
      \<and> ?P (egressPlatforms env) [] ls'"
  proof (rule foldO_total)
    show "?P [] (egressPlatforms env) ls" using start by simp
  next
    fix pre x todo ls
    assume split: "egressPlatforms env = pre @ x # todo" and P: "?P pre (x # todo) ls"
    obtain p t where x: "x = (p, t)" by (cases x)
    have mem: "(p, t) \<in> set (egressPlatforms env)" using split x by simp
    have dist: "x \<notin> set pre" "x \<notin> set todo"
      using wired split by (auto simp: network_wired_def)
    obtain ls' where ls': "lanes_pair allocate awb env linksOf ls (p, t) = Some (Inr ls')"
      "same_links H (ls_store ls')" "slots_framed (ls_store ls) (ls_store ls') (linksOf p t)"
      "lanes_done most linksOf ls' p t"
      "\<forall>x. x \<noteq> (p, t) \<longrightarrow> egressViasInitial ls' x = egressViasInitial ls x"
      "\<forall>x. x \<noteq> (t, p) \<longrightarrow> ingressViasInitial ls' x = ingressViasInitial ls x"
    proof -
      have "ready H p t" using rdy mem by blast
      from lanes_pair_ok [OF wired mem _ this, of ls awb] that P x show ?thesis by auto
    qed
    have same: "same_links (ls_store ls) (ls_store ls')"
      using P ls'(2) by (simp add: same_links_def)
    have "lanes_done most linksOf ls' q u" if qu: "(q, u) \<in> set pre" for q u
    proof -
      have ne: "(q, u) \<noteq> (p, t)" using that dist x by auto
      have "links_apart H (linksOf q u) (linksOf p t)"
        by (rule network_wired_apart [OF wired _ mem ne]) (use that split in simp)
      moreover have "sink_of (ls_store ls) = sink_of H"
        using P by (intro ext) (simp add: same_linksD(3))
      ultimately have apart: "links_apart (ls_store ls) (linksOf q u) (linksOf p t)"
        by (simp add: links_apart_def)
      obtain es "is" where old: "egressViasInitial ls (q, u) = Some es" "ingressViasInitial ls (u, q) = Some is"
        "es \<noteq> [] \<and> length es \<le> most q u" "\<forall>e \<in> set es. 0 < via_width e" "map via_width is = map via_width es"
        "map via_links is = map via_links es" "slots_agree (ls_store ls) (linksOf q u) (map via_links es)"
        proof -
        have "lanes_done most linksOf ls q u" using P qu by blast
        then show ?thesis using that unfolding lanes_done_def by blast
      qed
      have "egressViasInitial ls' (q, u) = Some es" "ingressViasInitial ls' (u, q) = Some is"
        using ls'(5,6) old(1,2) ne by auto
      then show ?thesis
        using old(3-6) slots_agree_framed [OF old(7) same ls'(3) apart] by (simp add: lanes_done_def)
    qed
    moreover have "egressViasInitial ls' (q, u) = Some [] \<and> ingressViasInitial ls' (u, q) = Some []"
      if "(q, u) \<in> set todo" for q u
    proof -
      have "(q, u) \<noteq> (p, t)" using that dist x by auto
      then show ?thesis using P that ls'(5,6) by auto
    qed
    ultimately have "?P (pre @ [x]) todo ls'"
      using ls'(2,4) x by auto
    with ls'(1) x show "\<exists>ls'. lanes_pair allocate awb env linksOf ls x = Some (Inr ls') \<and> ?P (pre @ [x]) todo ls'"
      by blast
  qed
  then show ?thesis by blast
qed

end

lemma flow_control_ok:
  assumes wired: "network_wired env linksOf H"
    and lanes: "\<forall>(p, t) \<in> set (egressPlatforms env). lanes_done most linksOf ls p t"
  shows "\<exists>F. flow_control env ls = Inr F \<and> (\<forall>(p, t) \<in> set (egressPlatforms env). \<exists>es is fs.
      egressViasInitial ls (p, t) = Some es \<and> ingressViasInitial ls (p, t) = Some is
    \<and> F (p, t) = Some fs \<and> flow_ok es (length is) fs)"
proof -
  let ?g = "\<lambda>(p, t). bindR (at_pair (egressViasInitial ls) p t) (\<lambda>localEgress.
       bindR (at_pair (ingressViasInitial ls) p t) (\<lambda>localIngress.
         if p \<notin> snd ` set (egressPlatforms env) then Inl (KeyError p)
         else flow_pair localEgress localIngress))"
  let ?Q = "\<lambda>(p, t) fs. \<exists>es is. egressViasInitial ls (p, t) = Some es
    \<and> ingressViasInitial ls (p, t) = Some is \<and> flow_ok es (length is) fs"
  have cell: "\<exists>fs. ?g x = Inr fs \<and> ?Q x fs" if "x \<in> set (egressPlatforms env)" for x
  proof -
    obtain p t where x: "x = (p, t)" by (cases x)
    have twin: "(t, p) \<in> set (egressPlatforms env)"
      using wired that x by (auto simp: network_wired_def)
    have ready: "lanes_done most linksOf ls p t" "lanes_done most linksOf ls t p"
      using lanes that x twin by blast+
    obtain es where es: "egressViasInitial ls (p, t) = Some es" "es \<noteq> []" "\<forall>e \<in> set es. 0 < via_width e"
      using ready(1) by (auto simp: lanes_done_def)
    obtain ins where ins: "ingressViasInitial ls (p, t) = Some ins"
      using ready(2) by (auto simp: lanes_done_def)
    have "p \<in> snd ` set (egressPlatforms env)" using twin by force
    with es ins flow_pair_ok [OF es(2,3), of ins] show ?thesis
      by (auto simp: x at_pair_def)
  qed
  define h where "h = (\<lambda>x. case ?g x of Inr fs \<Rightarrow> fs | Inl _ \<Rightarrow> undefined)"
  have h: "?g x = Inr (h x)" "?Q x (h x)" if "x \<in> set (egressPlatforms env)" for x
    using cell [OF that] by (auto simp: h_def simp del: split_paired_All)
  have dist: "distinct (egressPlatforms env)" using wired by (simp add: network_wired_def)
  have "\<exists>F. foldR (\<lambda>m x. bindR (?g x) (\<lambda>v. Inr (m(x \<mapsto> v)))) Map.empty (egressPlatforms env) = Inr F
      \<and> (\<forall>x. F x = (if x \<in> set (egressPlatforms env) then Some (h x) else Map.empty x))"
    by (rule foldR_build [OF dist]) (rule h(1))
  then obtain F where
    F: "foldR (\<lambda>m x. bindR (?g x) (\<lambda>v. Inr (m(x \<mapsto> v)))) Map.empty (egressPlatforms env) = Inr F"
    "\<And>x. F x = (if x \<in> set (egressPlatforms env) then Some (h x) else Map.empty x)"
    by blast
  have "(\<lambda>m x. bindR (?g x) (\<lambda>v. Inr (m(x \<mapsto> v)))) = (\<lambda>F (p, t).
       bindR (at_pair (egressViasInitial ls) p t) (\<lambda>localEgress.
       bindR (at_pair (ingressViasInitial ls) p t) (\<lambda>localIngress.
         if p \<notin> snd ` set (egressPlatforms env) then Inl (KeyError p)
         else bindR (flow_pair localEgress localIngress) (\<lambda>fs. Inr (F((p, t) \<mapsto> fs))))))"
    by (auto simp: fun_eq_iff bindR_assoc bindR_if cong: if_cong)
  with F(1) have "flow_control env ls = Inr F" by (simp add: flow_control_def)
  moreover have "?Q (p, t) (h (p, t))" if "(p, t) \<in> set (egressPlatforms env)" for p t
    using h(2) [OF that] .
  ultimately show ?thesis using F(2) by fastforce
qed

text \<open>What the third pass leaves for a pair.\<close>

definition fc_slot :: "via \<Rightarrow> int \<times> int" where
  "fc_slot v = (via_outgoing_flowcontrol_via v, via_outgoing_flowcontrol_link v)"

definition routers_done ::
  "lanes_state \<Rightarrow> flow_state pairmap \<Rightarrow> network \<Rightarrow> string \<Rightarrow> string \<Rightarrow> bool" where
  "routers_done ls F net p t \<longleftrightarrow> (\<exists>es fs gs eg ing.
     egressViasInitial ls (p, t) = Some es \<and> F (p, t) = Some fs \<and> F (t, p) = Some gs
   \<and> logicalEgress net (p, t) = Some eg \<and> logicalIngress net (t, p) = Some ing
   \<and> map via_io_links eg = map via_links es \<and> map via_links eg = fs_links fs
   \<and> map via_width eg = map via_width es
   \<and> map via_flowcontrol_links eg = map2 (\<lambda>n m. n - m) (fs_links fs) (map via_links es)
   \<and> map fc_slot eg = map (\<lambda>(i, l). (int i, l)) (take (length es) (fs_assigned gs))
   \<and> map (\<lambda>v. (via_umfType v, via_width v, via_links v, via_io_links v, fc_slot v)) ing
     = map (\<lambda>v. (via_umfType v, via_width v, via_links v, via_io_links v, fc_slot v)) eg)"

lemma final_via_fields:
  assumes "final_via awb env linksOf ls F p t v = Some (Inr y)"
    and "egressViasInitial ls (p, t) = Some es" and "ingressViasInitial ls (t, p) = Some is"
    and "F (p, t) = Some fs" and "F (t, p) = Some gs"
    and "v < length es" and "v < length is" and "v < length (fs_assigned gs)"
  shows "via_io_links (fst y) = via_links (es ! v)" and "via_links (fst y) = fs_links fs ! v"
    and "via_width (fst y) = via_width (es ! v)"
    and "via_flowcontrol_links (fst y) = fs_links fs ! v - via_links (es ! v)"
    and "fc_slot (fst y) = (case fs_assigned gs ! v of (i, l) \<Rightarrow> (int i, l))"
    and "(via_umfType (snd y), via_width (snd y), via_links (snd y), via_io_links (snd y), fc_slot (snd y))
      = (via_umfType (fst y), via_width (fst y), via_links (fst y), via_io_links (fst y), fc_slot (fst y))"
proof -
  from assms obtain umf i l where "fs_assigned gs ! v = (i, l)"
    "via_width (es ! v) = via_width (is ! v)" "via_links (es ! v) = via_links (is ! v)"
    "y = (mk_Via p t ''egress'' umf (via_width (es ! v)) (fs_links fs ! v) (via_links (es ! v))
                (fs_links fs ! v - via_links (es ! v)) (via_method (es ! v)) (via_switch (es ! v)) l (int i)
                (fs_loads fs ! v) (fillerBits umf),
          mk_Via t p ''ingress'' umf (via_width (is ! v)) (fs_links fs ! v) (via_links (is ! v))
                (fs_links fs ! v - via_links (is ! v)) (via_method (is ! v)) (via_switch (is ! v)) l (int i)
                (fs_loads fs ! v) (fillerBits umf))"
    by (cases "fs_assigned gs ! v")
      (auto simp: final_via_def bindO_returns at_pair_def nth_res_def split: if_splits)
  then show "via_io_links (fst y) = via_links (es ! v)" and "via_links (fst y) = fs_links fs ! v"
    and "via_width (fst y) = via_width (es ! v)"
    and "via_flowcontrol_links (fst y) = fs_links fs ! v - via_links (es ! v)"
    and "fc_slot (fst y) = (case fs_assigned gs ! v of (i, l) \<Rightarrow> (int i, l))"
    and "(via_umfType (snd y), via_width (snd y), via_links (snd y), via_io_links (snd y), fc_slot (snd y))
      = (via_umfType (fst y), via_width (fst y), via_links (fst y), via_io_links (fst y), fc_slot (fst y))"
    by (simp_all add: mk_Via_def fc_slot_def)
qed

lemma final_via_total:
  assumes "network_wired env linksOf H" and pt: "(p, t) \<in> set (egressPlatforms env)"
    and "egressViasInitial ls (p, t) = Some es" and "ingressViasInitial ls (t, p) = Some is"
    and "F (p, t) = Some fs" and "F (t, p) = Some gs"
    and "map via_width is = map via_width es" and "map via_links is = map via_links es"
    and "\<forall>e \<in> set es. 0 < via_width e" and "v < length es" and "v < length (fs_assigned gs)"
  shows "\<exists>y. final_via awb env linksOf ls F p t v = Some (Inr y)"
proof -
  have w: "has_connection env p t = Inr ()" "p \<in> set (getPlatformNames env)" "t \<in> set (getPlatformNames env)"
    using assms(1) pt by (auto simp: network_wired_def pair_wired_def)
  have len: "length is = length es" using assms(7) by (metis length_map)
  have eq: "via_width (is ! v) = via_width (es ! v)" "via_links (is ! v) = via_links (es ! v)"
    using assms(7,8,10) len by (metis nth_map)+
  have "0 < via_width (es ! v)" using assms(9,10) by simp
  from generateRouterTypesPair_total [OF w(2,3) this] obtain umf where
    "generateRouterTypesPair awb env p t (via_width (es ! v)) (fs_links fs ! v)
       (maxWidth_on (ls_store ls) (linksOf p t) v) = Some (Inr umf)"
    by blast
  then show ?thesis
    using assms w(1) len eq
    by (cases "fs_assigned gs ! v") (simp add: final_via_def at_pair_def nth_res_def)
qed

lemma final_pair_ok:
  assumes wired: "network_wired env linksOf H" and pt: "(p, t) \<in> set (egressPlatforms env)"
    and lanes: "lanes_done most linksOf ls p t"
    and F: "F (p, t) = Some fs" "F (t, p) = Some gs"
    and fl: "\<And>es. egressViasInitial ls (p, t) = Some es \<Longrightarrow>
      length (fs_links fs) = length es \<and> length (fs_assigned gs) = length es"
  shows "\<exists>net'. final_pair awb env linksOf ls F net (p, t) = Some (Inr net')
    \<and> routers_done ls F net' p t \<and> net_store net' = net_store net
    \<and> (\<forall>x. x \<noteq> (p, t) \<longrightarrow> logicalEgress net' x = logicalEgress net x)
    \<and> (\<forall>x. x \<noteq> (t, p) \<longrightarrow> logicalIngress net' x = logicalIngress net x)"
proof -
  obtain es "is" where d: "egressViasInitial ls (p, t) = Some es" "ingressViasInitial ls (t, p) = Some is"
    "\<forall>e \<in> set es. 0 < via_width e" "map via_width is = map via_width es" "map via_links is = map via_links es"
    using lanes by (auto simp: lanes_done_def)
  have len: "length (fs_links fs) = length es" "length (fs_assigned gs) = length es" "length is = length es"
    using fl [OF d(1)] d(4) by (auto dest: map_eq_imp_length_eq)
  let ?f = "final_via awb env linksOf ls F p t"
  have "\<exists>y. ?f v = Some (Inr y)" if "v \<in> set [0..<length (fs_links fs)]" for v
    using final_via_total [OF wired pt d(1,2) F d(4,5,3)] that len by simp
  then obtain vs where vs: "mapO ?f [0..<length (fs_links fs)] = Some (Inr vs)"
    "list_all2 (\<lambda>v y. ?f v = Some (Inr y)) [0..<length (fs_links fs)] vs"
    using mapO_returns [of "[0..<length (fs_links fs)]" ?f] by blast
  have lvs: "length vs = length es" using list_all2_lengthD [OF vs(2)] len by simp
  have "?f v = Some (Inr (vs ! v))" if "v < length es" for v
    using list_all2_nthD [OF vs(2), of v] that len by simp
  note fields = final_via_fields [OF this d(1,2) F, unfolded len]
  let ?net = "net\<lparr>logicalEgress := (logicalEgress net)((p, t) \<mapsto> map fst vs),
    logicalIngress := (logicalIngress net)((t, p) \<mapsto> map snd vs)\<rparr>"
  have "final_pair awb env linksOf ls F net (p, t) = Some (Inr ?net)"
    using F(1) vs(1) by (simp add: final_pair_def at_pair_def)
  moreover have "routers_done ls F ?net p t"
    unfolding routers_done_def
  proof (intro exI conjI)
    show "egressViasInitial ls (p, t) = Some es" "F (p, t) = Some fs" "F (t, p) = Some gs"
      by (fact d F)+
    show "logicalEgress ?net (p, t) = Some (map fst vs)" "logicalIngress ?net (t, p) = Some (map snd vs)"
      by simp_all
    show "map via_io_links (map fst vs) = map via_links es"
      by (rule nth_equalityI) (simp_all add: lvs fields)
    show "map via_links (map fst vs) = fs_links fs"
      by (rule nth_equalityI) (simp_all add: lvs len fields)
    show "map via_width (map fst vs) = map via_width es"
      by (rule nth_equalityI) (simp_all add: lvs fields)
    show "map via_flowcontrol_links (map fst vs) = map2 (\<lambda>n m. n - m) (fs_links fs) (map via_links es)"
      by (rule nth_equalityI) (simp_all add: lvs len fields)
    show "map fc_slot (map fst vs) = map (\<lambda>(i, l). (int i, l)) (take (length es) (fs_assigned gs))"
      by (rule nth_equalityI) (simp_all add: lvs len fields)
    show "map (\<lambda>v. (via_umfType v, via_width v, via_links v, via_io_links v, fc_slot v)) (map snd vs)
      = map (\<lambda>v. (via_umfType v, via_width v, via_links v, via_io_links v, fc_slot v)) (map fst vs)"
      by (rule nth_equalityI) (simp_all add: lvs fields(6))
  qed
  ultimately show ?thesis by (intro exI [of _ ?net]) simp
qed

text \<open>The facts about a finished network that the properties state pair by pair.\<close>

definition pair_routed :: "(string \<Rightarrow> string \<Rightarrow> nat) \<Rightarrow> (string \<Rightarrow> string \<Rightarrow> nat list) \<Rightarrow> network \<Rightarrow> string \<Rightarrow> string \<Rightarrow> bool" where
  "pair_routed most linksOf net p t \<longleftrightarrow> (\<exists>eg ing. logicalEgress net (p, t) = Some eg
     \<and> logicalIngress net (p, t) = Some ing \<and> eg \<noteq> [] \<and> length eg \<le> most p t \<and> (\<forall>e \<in> set eg. 0 < via_width e)
     \<and> slots_agree (net_store net) (linksOf p t) (map via_io_links eg)
     \<and> distinct (map fc_slot ing)
     \<and> set (map fc_slot ing) = {(int i, l) |i l. i < length eg
          \<and> via_io_links (eg ! i) \<le> l \<and> l < via_links (eg ! i)}
     \<and> (\<forall>e \<in> set eg. via_links e = via_io_links e + via_flowcontrol_links e
          \<and> 0 \<le> via_flowcontrol_links e)
     \<and> (\<exists>ing'. logicalIngress net (t, p) = Some ing' \<and>
          map (\<lambda>v. (via_umfType v, via_width v, via_links v, via_io_links v, fc_slot v)) ing'
        = map (\<lambda>v. (via_umfType v, via_width v, via_links v, via_io_links v, fc_slot v)) eg))"

lemma pair_routed_from_passes:
  assumes "lanes_done most linksOf ls p t" and "routers_done ls F net p t" and "routers_done ls F net t p"
    and "net_store net = ls_store ls"
    and "F (p, t) = Some fs" and "egressViasInitial ls (p, t) = Some es"
    and "egressViasInitial ls (t, p) = Some es'" and "flow_ok es (length es') fs"
  shows "pair_routed most linksOf net p t"
proof -
  obtain eg ing' where r: "logicalEgress net (p, t) = Some eg" "logicalIngress net (t, p) = Some ing'"
    "map via_io_links eg = map via_links es" "map via_links eg = fs_links fs"
    "map via_width eg = map via_width es"
    "map via_flowcontrol_links eg = map2 (\<lambda>n m. n - m) (fs_links fs) (map via_links es)"
    "map (\<lambda>v. (via_umfType v, via_width v, via_links v, via_io_links v, fc_slot v)) ing'
     = map (\<lambda>v. (via_umfType v, via_width v, via_links v, via_io_links v, fc_slot v)) eg"
    using assms(2,5,6) unfolding routers_done_def by auto
  obtain eg' ing where q: "logicalEgress net (t, p) = Some eg'" "logicalIngress net (p, t) = Some ing"
    "map fc_slot eg' = map (\<lambda>(i, l). (int i, l)) (take (length es') (fs_assigned fs))"
    "map (\<lambda>v. (via_umfType v, via_width v, via_links v, via_io_links v, fc_slot v)) ing
     = map (\<lambda>v. (via_umfType v, via_width v, via_links v, via_io_links v, fc_slot v)) eg'"
    using assms(3,5,7) unfolding routers_done_def by auto
  have "map fc_slot ing = map fc_slot eg'"
    using arg_cong [OF q(4), of "map (\<lambda>(a, b, c, d, e). e)"] by (simp add: comp_def)
  then have slots: "map fc_slot ing = map (\<lambda>(i, l). (int i, l)) (fs_assigned fs)"
    using q(3) assms(8) by (simp add: flow_ok_def)
  have len: "length eg = length es" using r(5) by (metis length_map)
  have nth: "via_io_links (eg ! i) = via_links (es ! i) \<and> via_links (eg ! i) = fs_links fs ! i
      \<and> via_flowcontrol_links (eg ! i) = fs_links fs ! i - via_links (es ! i)" if "i < length es" for i
  proof -
    have i: "i < length eg" "i < length (fs_links fs)"
      using that len assms(8) by (auto simp: flow_ok_def)
    have "map via_io_links eg ! i = map via_links es ! i" "map via_links eg ! i = fs_links fs ! i"
      "map via_flowcontrol_links eg ! i = map2 (\<lambda>n m. n - m) (fs_links fs) (map via_links es) ! i"
      using r(3,4,6) by simp_all
    with i that show ?thesis by simp
  qed
  have inj: "inj (\<lambda>(i, l). (int i, l :: int))" by (auto simp: inj_def)
  have "distinct (map fc_slot ing)"
    using assms(8) inj unfolding slots by (simp add: distinct_map flow_ok_def inj_on_subset [OF inj])
  moreover have "set (map fc_slot ing) = {(int i, l) |i l. i < length eg
      \<and> via_io_links (eg ! i) \<le> l \<and> l < via_links (eg ! i)}"
  proof -
    have "set (map fc_slot ing) = (\<lambda>(i, l). (int i, l)) `
        {(v, j). v < length es \<and> via_links (es ! v) \<le> j \<and> j < fs_links fs ! v}"
      using assms(8) unfolding slots by (simp add: flow_ok_def)
    also have "\<dots> = {(int i, l) |i l. i < length eg
        \<and> via_io_links (eg ! i) \<le> l \<and> l < via_links (eg ! i)}"
      using nth len by auto
    finally show ?thesis .
  qed
  moreover have "\<forall>e \<in> set eg. via_links e = via_io_links e + via_flowcontrol_links e
      \<and> 0 \<le> via_flowcontrol_links e"
    using nth len assms(8) by (auto simp: in_set_conv_nth flow_ok_def)
  moreover have "\<forall>e \<in> set eg. 0 < via_width e" "eg \<noteq> []" "length eg \<le> most p t"
    "slots_agree (net_store net) (linksOf p t) (map via_io_links eg)"
  proof -
    have d: "es \<noteq> []" "\<forall>e \<in> set es. 0 < via_width e"
      "slots_agree (ls_store ls) (linksOf p t) (map via_links es)" "length es \<le> most p t"
      using assms(1,6) by (auto simp: lanes_done_def)
    show "slots_agree (net_store net) (linksOf p t) (map via_io_links eg)"
      using d(3) r(3) assms(4) by simp
    show "eg \<noteq> []" "length eg \<le> most p t" using d(1,4) len by auto
    have "set (map via_width eg) = set (map via_width es)" using r(5) by simp
    then show "\<forall>e \<in> set eg. 0 < via_width e" using d(2) by (metis (mono_tags, lifting) image_iff list.set_map)
  qed
  ultimately show ?thesis
    using r(1,2,7) q(2) unfolding pair_routed_def by blast
qed

context lane_allocator
begin

lemma analysis_routes:
  assumes wired: "network_wired env linksOf H"
    and rdy: "\<forall>(p, t) \<in> set (egressPlatforms env). ready H p t"
  shows "\<exists>net. analyzeNetworkNonuniform allocate awb env linksOf H = Some (Inr net)
    \<and> same_links H (net_store net) \<and> (\<forall>(p, t) \<in> set (egressPlatforms env). pair_routed most linksOf net p t)"
proof -
  let ?E = "egressPlatforms env"
  obtain ls0 where ls0: "setup_vias env H = Inr ls0" "ls_store ls0 = H"
    "\<forall>(p, t) \<in> set ?E. egressViasInitial ls0 (p, t) = Some [] \<and> ingressViasInitial ls0 (t, p) = Some []"
    using setup_vias_ok [OF wired] by blast
  obtain ls where ls: "foldO (lanes_pair allocate awb env linksOf) ls0 ?E = Some (Inr ls)"
    "\<forall>(p, t) \<in> set ?E. lanes_done most linksOf ls p t" "same_links H (ls_store ls)"
    using lanes_pass_ok [OF wired rdy ls0(2,3)] by blast
  obtain F where F: "flow_control env ls = Inr F"
    and Fok: "\<forall>(p, t) \<in> set ?E. \<exists>es is fs. egressViasInitial ls (p, t) = Some es
      \<and> ingressViasInitial ls (p, t) = Some is \<and> F (p, t) = Some fs \<and> flow_ok es (length is) fs"
    using flow_control_ok [OF wired ls(2)] by blast
  let ?net0 = "\<lparr>logicalEgress = Map.empty, logicalIngress = Map.empty, net_store = ls_store ls\<rparr>"
  have twin: "(t, p) \<in> set ?E" if "(p, t) \<in> set ?E" for p t
    using wired that by (auto simp: network_wired_def)
  have cell: "\<exists>es es' fs gs. egressViasInitial ls (p, t) = Some es \<and> egressViasInitial ls (t, p) = Some es'
      \<and> F (p, t) = Some fs \<and> F (t, p) = Some gs \<and> flow_ok es (length es') fs \<and> flow_ok es' (length es) gs"
    if pt: "(p, t) \<in> set ?E" for p t
  proof -
    have d: "lanes_done most linksOf ls p t" "lanes_done most linksOf ls t p"
      using ls(2) pt twin [OF pt] by blast+
    have f: "\<exists>es is fs. egressViasInitial ls (p, t) = Some es
        \<and> ingressViasInitial ls (p, t) = Some is \<and> F (p, t) = Some fs \<and> flow_ok es (length is) fs"
      "\<exists>es is fs. egressViasInitial ls (t, p) = Some es
        \<and> ingressViasInitial ls (t, p) = Some is \<and> F (t, p) = Some fs \<and> flow_ok es (length is) fs"
      using Fok pt twin [OF pt] by blast+
    from d f show ?thesis
      by (fastforce simp: lanes_done_def dest: map_eq_imp_length_eq)
  qed
  let ?P = "\<lambda>pre todo net. net_store net = ls_store ls \<and> (\<forall>(p, t) \<in> set pre. routers_done ls F net p t)"
  have "\<exists>net. foldO (final_pair awb env linksOf ls F) ?net0 ?E = Some (Inr net) \<and> ?P ?E [] net"
  proof (rule foldO_total)
    show "?P [] ?E ?net0" by simp
  next
    fix pre x todo net
    assume split: "?E = pre @ x # todo" and P: "?P pre (x # todo) net"
    obtain p t where x: "x = (p, t)" by (cases x)
    have pt: "(p, t) \<in> set ?E" using split x by simp
    have notin: "(p, t) \<notin> set pre"
      using wired split x by (auto simp: network_wired_def)
    obtain fs gs where fg: "F (p, t) = Some fs" "F (t, p) = Some gs"
      and fl: "\<And>es. egressViasInitial ls (p, t) = Some es \<Longrightarrow>
        length (fs_links fs) = length es \<and> length (fs_assigned gs) = length es"
      using cell [OF pt] by (fastforce simp: flow_ok_def)
    have "lanes_done most linksOf ls p t" using ls(2) pt by blast
    from final_pair_ok [OF wired pt this fg fl, of awb net] obtain net' where
      net': "final_pair awb env linksOf ls F net (p, t) = Some (Inr net')"
        "routers_done ls F net' p t" "net_store net' = net_store net"
        "\<forall>x. x \<noteq> (p, t) \<longrightarrow> logicalEgress net' x = logicalEgress net x"
        "\<forall>x. x \<noteq> (t, p) \<longrightarrow> logicalIngress net' x = logicalIngress net x"
      by blast
    have "routers_done ls F net' q u" if qu: "(q, u) \<in> set pre" for q u
    proof -
      have ne: "(q, u) \<noteq> (p, t)" using qu notin by auto
      have "routers_done ls F net q u" using P qu by blast
      then show ?thesis
        unfolding routers_done_def using net'(4,5) ne by auto
    qed
    with net' P x show "\<exists>net'. final_pair awb env linksOf ls F net x = Some (Inr net') \<and> ?P (pre @ [x]) todo net'"
      by (intro exI [of _ net']) auto
  qed
  then obtain net where net: "foldO (final_pair awb env linksOf ls F) ?net0 ?E = Some (Inr net)"
    "net_store net = ls_store ls" "\<forall>(p, t) \<in> set ?E. routers_done ls F net p t"
    by blast
  have "pair_routed most linksOf net p t" if pt: "(p, t) \<in> set ?E" for p t
  proof -
    obtain es es' fs where c: "egressViasInitial ls (p, t) = Some es" "egressViasInitial ls (t, p) = Some es'"
      "F (p, t) = Some fs" "flow_ok es (length es') fs"
      using cell [OF pt] by blast
    have d: "lanes_done most linksOf ls p t" "routers_done ls F net p t" "routers_done ls F net t p"
      using ls(2) net(3) pt twin [OF pt] by blast+
    show ?thesis by (rule pair_routed_from_passes [OF d net(2) c(3,1,2,4)])
  qed
  with ls0(1) ls(1,3) F net(1,2) show ?thesis
    by (auto simp: analyzeNetworkNonuniform_def)
qed

end

section \<open>Properties\<close>

text \<open>Two platforms with two links each way, for the concrete instances.\<close>

definition wired_links :: "string \<Rightarrow> string \<Rightarrow> nat list" where
  "wired_links p t = (if p = ''A'' then [0, 1] else [4, 5])"

lemma wired_pairs: "egressPlatforms wired_env = [(''A'', ''B''), (''B'', ''A'')]"
  by (simp add: egressPlatforms_def wired_env_def chain_platforms_def platform_eval)

lemma wired_network: "network_wired wired_env wired_links two_links"
  unfolding network_wired_def wired_pairs
  by (simp add: pair_wired_def has_connection_def getPlatform_def getPlatformNames_def get_key_def
      wired_env_def chain_platforms_def platform_eval getEgress_def getIngress_def via_at_def
      table_entry_def links_apart_def wired_links_def sink_of_def two_links_def)

lemma wired_ljf_ready: "\<forall>(p, t) \<in> set (egressPlatforms wired_env). ljf_ready small_net wired_env wired_links two_links p t"
proof -
  have "links_wf two_links [4, 5]"
    by (simp add: links_wf_def two_links_def sink_of_def)
  moreover have "\<exists>width>0. pair_ready wired_env ''A'' ''B'' width" "\<exists>width>0. pair_ready wired_env ''B'' ''A'' width"
    using wired_ready by (intro exI [of _ 128]; simp)+
  ultimately show ?thesis
    using two_links_wf unfolding wired_pairs by (simp add: ljf_ready_def wired_links_def small_net_def)
qed

text \<open>
  C14: Network analysis completes on every well-wired system: when every connection is
  bidirectional, has a positive width and transit-table entries, and its links have different
  names, nonnegative widths and sinks of their own, \<open>analyzeNetworkLJF\<close> runs through its three
  passes without an exception, an exit, a missing key or an endless loop, and gives every
  connection at least one router lane in each direction, all of positive width, and no more than the
  configuration allows; a connection of a software platform gets exactly one (\<open>lane_bound\<close> is 1).
\<close>

theorem analyzeNetworkLJF_returns:
  assumes "network_wired env linksOf H"
    and "\<forall>(p, t) \<in> set (egressPlatforms env). ljf_ready awb env linksOf H p t"
  shows "\<exists>net. analyzeNetworkLJF awb env linksOf H = Some (Inr net)
    \<and> (\<forall>(p, t) \<in> set (egressPlatforms env). \<exists>eg ing. logicalEgress net (p, t) = Some eg
         \<and> logicalIngress net (t, p) = Some ing \<and> eg \<noteq> [] \<and> length ing = length eg
         \<and> length eg \<le> lane_bound awb env p t \<and> (\<forall>e \<in> set eg. 0 < via_width e))"
proof -
  obtain net where net: "analyzeNetworkLJF awb env linksOf H = Some (Inr net)"
    "\<forall>(p, t) \<in> set (egressPlatforms env). pair_routed (lane_bound awb env) linksOf net p t"
    using ljf.analysis_routes [OF assms] by (auto simp: analyzeNetworkLJF_def)
  have "\<exists>eg ing. logicalEgress net (p, t) = Some eg \<and> logicalIngress net (t, p) = Some ing
      \<and> eg \<noteq> [] \<and> length ing = length eg \<and> length eg \<le> lane_bound awb env p t \<and> (\<forall>e \<in> set eg. 0 < via_width e)"
    if "(p, t) \<in> set (egressPlatforms env)" for p t
  proof -
    have "pair_routed (lane_bound awb env) linksOf net p t" using net(2) that by blast
    then show ?thesis by (auto simp: pair_routed_def dest: map_eq_imp_length_eq)
  qed
  with net(1) show ?thesis by blast
qed

theorem analyzeNetworkLJF_returns_witness:
  "\<exists>net. analyzeNetworkLJF small_net wired_env wired_links two_links = Some (Inr net)"
  using analyzeNetworkLJF_returns [OF wired_network wired_ljf_ready] by blast

text \<open>
  C15: No two users of a router share a virtual channel.  In the analysed network, on the routers
  from \<open>p\<close> to \<open>t\<close>: the data links have pairwise different lanes and numbers, each below its lane's
  data count and the same at the receiving end; the flow-control links of the ingress lanes from
  \<open>t\<close> are pairwise different and use exactly the numbers from a lane's data count up to its total
  count; so the two kinds never collide and nothing is allocated in vain.
\<close>

theorem analyzeNetworkLJF_channels:
  assumes "network_wired env linksOf H"
    and "\<forall>(p, t) \<in> set (egressPlatforms env). ljf_ready awb env linksOf H p t"
    and "analyzeNetworkLJF awb env linksOf H = Some (Inr net)"
    and "(p, t) \<in> set (egressPlatforms env)"
  shows "\<exists>eg ing. logicalEgress net (p, t) = Some eg \<and> logicalIngress net (p, t) = Some ing
    \<and> inj_on (egress_slot (net_store net)) (set (linksOf p t))
    \<and> (\<forall>c \<in> set (linksOf p t).
         ingress_slot (net_store net) (sink_of (net_store net) c) = egress_slot (net_store net) c
       \<and> (\<exists>i l. egress_slot (net_store net) c = (int i, l) \<and> i < length eg
            \<and> 0 \<le> l \<and> l < via_io_links (eg ! i)))
    \<and> distinct (map fc_slot ing)
    \<and> set (map fc_slot ing) = {(int i, l) |i l. i < length eg
         \<and> via_io_links (eg ! i) \<le> l \<and> l < via_links (eg ! i)}"
proof -
  obtain net' where "analyzeNetworkLJF awb env linksOf H = Some (Inr net')"
    "\<forall>(p, t) \<in> set (egressPlatforms env). pair_routed (lane_bound awb env) linksOf net' p t"
    using ljf.analysis_routes [OF assms(1,2)] by (auto simp: analyzeNetworkLJF_def)
  with assms(3,4) have "pair_routed (lane_bound awb env) linksOf net p t" by auto
  then obtain eg ing where r: "logicalEgress net (p, t) = Some eg" "logicalIngress net (p, t) = Some ing"
    "slots_agree (net_store net) (linksOf p t) (map via_io_links eg)" "distinct (map fc_slot ing)"
    "set (map fc_slot ing) = {(int i, l) |i l. i < length eg
       \<and> via_io_links (eg ! i) \<le> l \<and> l < via_links (eg ! i)}"
    unfolding pair_routed_def by blast
  have "inj_on (egress_slot (net_store net)) (set (linksOf p t))"
    "\<forall>c \<in> set (linksOf p t).
       ingress_slot (net_store net) (sink_of (net_store net) c) = egress_slot (net_store net) c
     \<and> (\<exists>i l. egress_slot (net_store net) c = (int i, l) \<and> i < length eg
          \<and> 0 \<le> l \<and> l < via_io_links (eg ! i))"
    using r(3) by (fastforce simp: slots_agree_def)+
  with r show ?thesis by blast
qed

theorem analyzeNetworkLJF_channels_witness:
  "\<exists>net. analyzeNetworkLJF small_net wired_env wired_links two_links = Some (Inr net)
     \<and> egress_slot (net_store net) 4 \<noteq> egress_slot (net_store net) 5"
proof -
  obtain net where net: "analyzeNetworkLJF small_net wired_env wired_links two_links = Some (Inr net)"
    using ljf.analysis_routes [OF wired_network wired_ljf_ready] by (auto simp: analyzeNetworkLJF_def)
  have "inj_on (egress_slot (net_store net)) (set (wired_links ''B'' ''A''))"
    using analyzeNetworkLJF_channels [OF wired_network wired_ljf_ready net, of "''B''" "''A''"]
    by (auto simp: wired_pairs)
  then show ?thesis using net by (auto simp: wired_links_def inj_on_def)
qed

text \<open>
  C6: The two ends of a connection get the same routers: lane by lane, the egress of \<open>p\<close> towards \<open>t\<close>
  and the ingress of \<open>t\<close> from \<open>p\<close> have the same header type, width, data and total link counts and
  flow-control slot, and the total is the data links plus the flow-control links.
\<close>

theorem analyzeNetworkLJF_symmetric:
  assumes "network_wired env linksOf H"
    and "\<forall>(p, t) \<in> set (egressPlatforms env). ljf_ready awb env linksOf H p t"
    and "analyzeNetworkLJF awb env linksOf H = Some (Inr net)"
    and "(p, t) \<in> set (egressPlatforms env)"
  shows "\<exists>eg ing. logicalEgress net (p, t) = Some eg \<and> logicalIngress net (t, p) = Some ing
    \<and> map (\<lambda>v. (via_umfType v, via_width v, via_links v, via_io_links v, fc_slot v)) ing
      = map (\<lambda>v. (via_umfType v, via_width v, via_links v, via_io_links v, fc_slot v)) eg
    \<and> (\<forall>e \<in> set eg. via_links e = via_io_links e + via_flowcontrol_links e)"
proof -
  obtain net' where "analyzeNetworkLJF awb env linksOf H = Some (Inr net')"
    "\<forall>(p, t) \<in> set (egressPlatforms env). pair_routed (lane_bound awb env) linksOf net' p t"
    using ljf.analysis_routes [OF assms(1,2)] by (auto simp: analyzeNetworkLJF_def)
  with assms(3,4) have "pair_routed (lane_bound awb env) linksOf net p t" by auto
  then show ?thesis unfolding pair_routed_def by blast
qed

theorem analyzeNetworkLJF_symmetric_witness:
  "\<exists>net eg ing. analyzeNetworkLJF small_net wired_env wired_links two_links = Some (Inr net)
     \<and> logicalEgress net (''A'', ''B'') = Some eg \<and> logicalIngress net (''B'', ''A'') = Some ing
     \<and> map via_umfType ing = map via_umfType eg"
proof -
  obtain net where net: "analyzeNetworkLJF small_net wired_env wired_links two_links = Some (Inr net)"
    using ljf.analysis_routes [OF wired_network wired_ljf_ready] by (auto simp: analyzeNetworkLJF_def)
  have "(''A'', ''B'') \<in> set (egressPlatforms wired_env)" by (simp add: wired_pairs)
  from analyzeNetworkLJF_symmetric [OF wired_network wired_ljf_ready net this] obtain eg ing where
    r: "logicalEgress net (''A'', ''B'') = Some eg" "logicalIngress net (''B'', ''A'') = Some ing"
      "map (\<lambda>v. (via_umfType v, via_width v, via_links v, via_io_links v, fc_slot v)) ing
      = map (\<lambda>v. (via_umfType v, via_width v, via_links v, via_io_links v, fc_slot v)) eg"
    by blast
  from arg_cong [OF r(3), of "map fst"] have "map via_umfType ing = map via_umfType eg"
    by (simp add: comp_def)
  with net r show ?thesis by blast
qed

text \<open>
  Only the longest-job-first analysis can succeed: on a system with at least one well-wired
  connection every other choice of \<open>ANALYZE_NETWORK\<close> ends in an error, the combinational one at
  the first pair it allocates.
\<close>

theorem analyzeNetwork_only_LJF:
  assumes "network_wired env linksOf H" and "egressPlatforms env \<noteq> []"
    and "name \<noteq> ''analyzeNetworkLJF''"
  shows "\<exists>e. analyzeNetwork name awb env linksOf H = Some (Inl e)"
proof -
  obtain ls0 where ls0: "setup_vias env H = Inr ls0"
    using setup_vias_ok [OF assms(1)] by blast
  obtain p t ps where ps: "egressPlatforms env = (p, t) # ps"
    using assms(2) by (metis list.exhaust surj_pair)
  have "analyzeNetworkComb awb env linksOf H = Some (Inl (NameError ''moduleList''))"
    by (simp add: analyzeNetworkComb_def analyzeNetworkNonuniform_def ls0 ps lanes_pair_def
        generateViaCombinational_def)
  then show ?thesis
    using assms(3)
    by (simp add: analyzeNetwork_def analyzeNetworkCompletelyRandom_def analyzeNetworkUniform_def
        analyzeNetworkRandom_def)
qed

theorem analyzeNetwork_only_LJF_witness:
  "\<exists>e. analyzeNetwork ''analyzeNetworkComb'' small_net wired_env wired_links two_links = Some (Inl e)"
  by (rule analyzeNetwork_only_LJF [OF wired_network]) (simp_all add: wired_pairs)

end
