(* ===== verification/Scratchpads.thy ===== *)
theory Scratchpads
  imports Prelude
begin

text \<open>
  \<^verbatim>\<open>lim_memory/remap-scratchpad/scratchpadModules.py\<close>: scratchpad clients, rings, trees and
  platforms.  Clients are shared, mutable objects, so they live in a store indexed by reference;
  \<open>conn_ref\<close> stands for the identity of the service connection a client was made from.
\<close>

section \<open>Scratchpad clients\<close>

record scratchpad =
  sp_id :: string
  remappedIds :: "(nat \<times> string) list"
  conn_ref :: nat
  sp_conn_name :: string
  platformName :: string
  traffic :: int
  sp_partition :: "int list"
  controllerIdx :: "nat list"
  matchingPorts :: "(nat \<times> (string \<times> string)) list"
  level :: nat
  latency :: rat
  bandwidth :: int
  priority :: int
  weightVals :: "rat list"

type_synonym sp_store = "nat \<Rightarrow> scratchpad"

definition mk_Scratchpad :: "string \<Rightarrow> nat \<Rightarrow> string \<Rightarrow> string \<Rightarrow> scratchpad" where
  "mk_Scratchpad ident ref name plat =
     \<lparr>sp_id = ident, remappedIds = [], conn_ref = ref, sp_conn_name = name, platformName = plat,
      traffic = 0, sp_partition = [], controllerIdx = [], matchingPorts = [], level = 0, latency = 0,
      bandwidth = 1, priority = 1, weightVals = []\<rparr>"

text \<open>Python 2's \<open>round\<close> rounds halves away from zero.\<close>

definition py_round :: "rat \<Rightarrow> int" where
  "py_round q = (if 0 \<le> q then \<lfloor>q + 1 / 2\<rfloor> else - \<lfloor>1 / 2 - q\<rfloor>)"

definition getBandwidthFraction :: "scratchpad \<Rightarrow> nat \<Rightarrow> int res" where
  "getBandwidthFraction s i =
     (if sp_partition s = [] then Inr (bandwidth s)
      else bindR (index_of (controllerIdx s) i) (\<lambda>idx.
        if idx < length (sp_partition s) then
          if sum_list (sp_partition s) = 0 then Inl ZeroDivisionError
          else Inr (py_round (rat_of_int (sp_partition s ! idx * bandwidth s)
                              / rat_of_int (sum_list (sp_partition s))))
        else Inl IndexError))"

text \<open>A partitioned client has a share for each of its controllers, and the shares are not all zero.\<close>

definition partition_ok :: "scratchpad \<Rightarrow> bool" where
  "partition_ok s \<longleftrightarrow> sp_partition s = []
     \<or> length (controllerIdx s) \<le> length (sp_partition s) \<and> sum_list (sp_partition s) \<noteq> 0"

lemma getBandwidthFraction_returns:
  assumes "partition_ok s" and "i \<in> set (controllerIdx s)"
  shows "\<exists>b. getBandwidthFraction s i = Inr b"
proof (cases "sp_partition s = []")
  case True
  then show ?thesis by (simp add: getBandwidthFraction_def)
next
  case False
  obtain j where "index_of (controllerIdx s) i = Inr j" "j < length (controllerIdx s)"
    using index_of_total [OF assms(2)] index_of_Inr by metis
  with assms(1) False show ?thesis by (simp add: getBandwidthFraction_def partition_ok_def)
qed

text \<open>
  \<open>depth\<close> is at least one where the weight is asked for: \<open>weightVals[depth-1]\<close> of depth zero
  would be the last value.
\<close>

definition treeWeight :: "scratchpad \<Rightarrow> nat \<Rightarrow> rat" where
  "treeWeight s depth =
     (if weightVals s = [] then 0
      else if depth > length (weightVals s) then latency s * (of_nat depth - 1) + 1
      else if depth = 0 then last (weightVals s)
      else weightVals s ! (depth - 1))"

section \<open>Rings\<close>

record scratchpad_ring =
  ring_baseName :: string
  ring_level :: nat
  ring_minId :: nat
  ring_maxId :: nat

definition mk_ring :: "string \<Rightarrow> nat \<Rightarrow> scratchpad_ring" where
  "mk_ring base lvl = \<lparr>ring_baseName = base, ring_level = lvl, ring_minId = 0, ring_maxId = 0\<rparr>"

section \<open>Trees\<close>

text \<open>
  A leaf carries its client, new id, bandwidth and depth; an inner node its name, children, range
  of ids, bandwidth and depth.
\<close>

datatype sp_tree =
    SpLeaf nat string int nat
  | SpNode string "sp_tree list" "nat \<times> nat" int nat

fun idRange :: "sp_tree \<Rightarrow> nat \<times> nat" where
  "idRange (SpLeaf c i b d) = (nat_of_str i, nat_of_str i)"
| "idRange (SpNode n cs r b d) = r"

fun tree_bandwidth :: "sp_tree \<Rightarrow> int" where
  "tree_bandwidth (SpLeaf c i b d) = b"
| "tree_bandwidth (SpNode n cs r b d) = b"

fun tree_depth :: "sp_tree \<Rightarrow> nat" where
  "tree_depth (SpLeaf c i b d) = d"
| "tree_depth (SpNode n cs r b d) = d"

definition mk_leaf :: "nat \<Rightarrow> string \<Rightarrow> int \<Rightarrow> sp_tree" where
  "mk_leaf c newId bw = SpLeaf c newId (max bw 1) 0"

definition mk_node :: "string \<Rightarrow> sp_tree" where
  "mk_node name = SpNode name [] (0, 0) 0 0"

fun add_child :: "sp_tree \<Rightarrow> sp_tree \<Rightarrow> sp_tree" where
  "add_child (SpNode n cs r b d) c =
     (let r' = (if cs = [] then idRange c
                else (min (fst r) (fst (idRange c)), max (snd r) (snd (idRange c))))
      in SpNode n (cs @ [c]) r' (b + tree_bandwidth c) d)"
| "add_child (SpLeaf i j b d) c = SpLeaf i j b d"

definition add_children :: "sp_tree \<Rightarrow> sp_tree list \<Rightarrow> sp_tree" where
  "add_children t cs = foldl add_child t cs"

fun traverse_post_order :: "sp_tree \<Rightarrow> sp_tree list" where
  "traverse_post_order (SpLeaf c i b d) = [SpLeaf c i b d]"
| "traverse_post_order (SpNode n cs r b d) =
     concat (map traverse_post_order cs) @ [SpNode n cs r b d]"

fun assign_depth :: "nat \<Rightarrow> sp_tree \<Rightarrow> sp_tree" where
  "assign_depth k (SpLeaf c i b d) = SpLeaf c i b k"
| "assign_depth k (SpNode n cs r b d) = SpNode n (map (assign_depth (k + 1)) cs) r b k"

fun tree_weight :: "sp_store \<Rightarrow> nat \<Rightarrow> sp_tree \<Rightarrow> rat" where
  "tree_weight H k (SpLeaf c i b d) = treeWeight (H c) k"
| "tree_weight H k (SpNode n cs r b d) = sum_list (map (tree_weight H (k + 1)) cs)"

text \<open>The leaves of a tree from left to right, and its leaves with their depths.\<close>

fun tree_leaves :: "sp_tree \<Rightarrow> sp_tree list" where
  "tree_leaves (SpLeaf c i b d) = [SpLeaf c i b d]"
| "tree_leaves (SpNode n cs r b d) = concat (map tree_leaves cs)"

section \<open>Platforms\<close>

text \<open>What the code reads of a service connection (an \<open>LIService\<close>).\<close>

record li_service =
  svc_name :: string
  svc_platform :: string
  svc_isClient :: bool
  client_idx :: string
  req_bitwidth :: nat
  resp_bitwidth :: nat
  idx_bitwidth :: nat

datatype sp_network = NoNetwork | TreeNetwork "sp_tree list" | RingNetwork "scratchpad_ring list list"

record scratchpad_platform =
  spp_name :: string
  spp_id :: nat
  spp_clients :: "nat list"
  partitionedClients :: "nat list"
  restClients :: "nat list"
  spp_controllers :: "li_service list"
  spp_network :: sp_network
  networkType :: string
  remapFile :: string

definition mk_ScratchpadPlatform :: "string \<Rightarrow> nat \<Rightarrow> string \<Rightarrow> scratchpad_platform" where
  "mk_ScratchpadPlatform name ident path =
     \<lparr>spp_name = name, spp_id = ident, spp_clients = [], partitionedClients = [], restClients = [],
      spp_controllers = [], spp_network = NoNetwork, networkType = [], remapFile = path\<rparr>"

section \<open>Trees keep their ranges and bandwidths\<close>

text \<open>
  A well-formed tree: every inner node's id range spans its children and its bandwidth is their
  sum.
\<close>

fun tree_ok :: "sp_tree \<Rightarrow> bool" where
  "tree_ok (SpLeaf c i b d) \<longleftrightarrow> True"
| "tree_ok (SpNode n cs r b d) \<longleftrightarrow>
     (\<forall>c \<in> set cs. tree_ok c) \<and> b = sum_list (map tree_bandwidth cs) \<and>
     (if cs = [] then r = (0, 0)
      else fst r = Min (set (map (\<lambda>c. fst (idRange c)) cs))
         \<and> snd r = Max (set (map (\<lambda>c. snd (idRange c)) cs)))"

lemma add_child_ok: "tree_ok (SpNode n cs r b d) \<Longrightarrow> tree_ok c \<Longrightarrow> tree_ok (add_child (SpNode n cs r b d) c)"
  by (auto simp: Let_def min.commute max.commute)

lemma add_children_node:
  "tree_ok (SpNode n cs r b d) \<Longrightarrow> \<forall>c \<in> set ds. tree_ok c \<Longrightarrow>
   \<exists>r'. add_children (SpNode n cs r b d) ds = SpNode n (cs @ ds) r' (b + sum_list (map tree_bandwidth ds)) d
     \<and> tree_ok (add_children (SpNode n cs r b d) ds)"
proof (induction ds arbitrary: cs r b)
  case Nil
  then show ?case by (simp add: add_children_def)
next
  case (Cons c ds)
  obtain r1 where r1: "add_child (SpNode n cs r b d) c = SpNode n (cs @ [c]) r1 (b + tree_bandwidth c) d"
    by (simp add: Let_def)
  have "tree_ok (add_child (SpNode n cs r b d) c)"
    by (rule add_child_ok) (use Cons.prems in auto)
  then have ok: "tree_ok (SpNode n (cs @ [c]) r1 (b + tree_bandwidth c) d)"
    by (simp only: r1)
  have step: "add_children (SpNode n cs r b d) (c # ds)
      = add_children (SpNode n (cs @ [c]) r1 (b + tree_bandwidth c) d) ds"
    by (simp add: add_children_def r1 del: add_child.simps)
  have "\<forall>c \<in> set ds. tree_ok c" using Cons.prems(2) by simp
  from Cons.IH [OF ok this] show ?case
    unfolding step by (simp only: append_assoc append.simps list.map sum_list.Cons add.assoc) 
qed

lemma add_children_new:
  assumes "\<forall>c \<in> set cs. tree_ok c"
  obtains r where "add_children (mk_node n) cs = SpNode n cs r (sum_list (map tree_bandwidth cs)) 0"
    and "tree_ok (add_children (mk_node n) cs)"
  using add_children_node [of n "[]" "(0, 0)" 0 0 cs] assms by (auto simp: mk_node_def)

lemma tree_leaves_new: "\<forall>c \<in> set cs. tree_ok c \<Longrightarrow>
    tree_leaves (add_children (mk_node n) cs) = concat (map tree_leaves cs)"
  by (rule add_children_new [of cs n]) auto

end
