(* ===== verification/TreeTopology.thy ===== *)
theory TreeTopology
  imports Scratchpads
begin

text \<open>
  \<^verbatim>\<open>lim_memory/remap-scratchpad/scratchpadTree.py\<close>: the shape of a scratchpad tree.
  \<open>constructTreeTopologyUsingDP\<close> chooses the number of leaves per depth by dynamic programming
  over tables of costs (\<open>None\<close> is infinity) and of leaf counts; \<open>constructBalancedTreeTopology\<close>
  fills the bottom two levels.  The abstract specification is \<open>best\<close>, the recursion that the tables
  tabulate, and the lemmas show that it is optimal and that it yields full trees.
\<close>

section \<open>The tables\<close>

definition cell_at :: "'a list list \<Rightarrow> nat \<Rightarrow> nat \<Rightarrow> 'a res" where
  "cell_at t i j = bindR (nth_res t i) (\<lambda>row. nth_res row j)"

type_synonym cost_table = "rat option list list"
type_synonym leaf_table = "nat list list list"

text \<open>\<open>min(int(math.ceil(float(N)/K)), int(math.pow(K, d)))\<close>\<close>

definition dp_rows :: "nat \<Rightarrow> nat \<Rightarrow> nat \<Rightarrow> nat" where
  "dp_rows K N d = min (nat (cdiv (int N) (int K))) (K ^ d)"

definition suffix_sum :: "rat list \<Rightarrow> nat \<Rightarrow> rat" where
  "suffix_sum a n = sum_list (drop (length a - n) a)"

text \<open>\<open>sum(a[N-n:N-n+x])\<close> and \<open>sum(a[N-n+x:])\<close>\<close>

definition head_sum :: "rat list \<Rightarrow> nat \<Rightarrow> nat \<Rightarrow> rat" where
  "head_sum a n x = sum_list (take x (drop (length a - n) a))"

definition tail_sum :: "rat list \<Rightarrow> nat \<Rightarrow> nat \<Rightarrow> rat" where
  "tail_sum a n x = sum_list (drop x (drop (length a - n) a))"

definition dp_base :: "nat \<Rightarrow> nat \<Rightarrow> rat list \<Rightarrow> cost_table \<times> leaf_table" where
  "dp_base K D a =
     (let N = length a; B = dp_rows K N (D - 1);
          fits = (\<lambda>b_idx n_idx. (b_idx + 1) * K \<ge> n_idx + 1)
      in (map (\<lambda>b_idx. map (\<lambda>n_idx. if fits b_idx n_idx
             then Some (suffix_sum a (n_idx + 1) * of_nat D) else None) [0..<N]) [0..<B],
          map (\<lambda>b_idx. map (\<lambda>n_idx. if fits b_idx n_idx
             then [n_idx + 1] else replicate D 0) [0..<N]) [0..<B]))"

definition dp_candidate ::
  "nat \<Rightarrow> rat list \<Rightarrow> nat \<Rightarrow> cost_table \<Rightarrow> nat \<Rightarrow> nat \<Rightarrow> nat \<Rightarrow> rat option res" where
  "dp_candidate K a d vnext b n x =
     (if (b - x) * K \<ge> n - x then
        Inr (Some (head_sum a n x * of_nat d + tail_sum a n x * (of_nat d + 1)))
      else bindR (cell_at vnext (b - x - 1) (n - x - 1)) (\<lambda>v.
        Inr (map_option (\<lambda>c. head_sum a n x * of_nat d + c) v)))"

text \<open>\<open>min(candidates)\<close> with infinity, and the last index at which it is attained.\<close>

fun inf_le :: "rat option \<Rightarrow> rat option \<Rightarrow> bool" where
  "inf_le a None \<longleftrightarrow> True"
| "inf_le None (Some y) \<longleftrightarrow> False"
| "inf_le (Some x) (Some y) \<longleftrightarrow> x \<le> y"

fun inf_min :: "rat option list \<Rightarrow> rat option" where
  "inf_min [] = None"
| "inf_min (c # cs) = (let m = inf_min cs in if inf_le c m then c else m)"

definition last_index :: "rat option list \<Rightarrow> rat option \<Rightarrow> nat" where
  "last_index cs m = last (filter (\<lambda>i. cs ! i = m) [0..<length cs])"

definition dp_cell ::
  "nat \<Rightarrow> rat list \<Rightarrow> nat \<Rightarrow> cost_table \<Rightarrow> leaf_table \<Rightarrow> nat \<Rightarrow> nat \<Rightarrow> (rat option \<times> nat list) res" where
  "dp_cell K a d vnext leaves b_idx n_idx =
     (let b = (b_idx + 1) * K; n = n_idx + 1
      in if b \<ge> n then Inr (Some (suffix_sum a n * of_nat d), [n])
         else bindR (mapR (dp_candidate K a d vnext b n) [0..<b]) (\<lambda>candidates.
           let min_val = inf_min candidates; min_idx = last_index candidates min_val
           in if (b - min_idx) * K \<ge> n - min_idx then Inr (min_val, [min_idx, n - min_idx])
              else bindR (cell_at leaves (b - min_idx - 1) (n - min_idx - 1)) (\<lambda>rest.
                Inr (min_val, min_idx # rest))))"

definition dp_level ::
  "nat \<Rightarrow> nat \<Rightarrow> rat list \<Rightarrow> cost_table \<times> leaf_table \<Rightarrow> nat \<Rightarrow> (cost_table \<times> leaf_table) res" where
  "dp_level K D a t d =
     (let N = length a; B = dp_rows K N (d - 1); B' = dp_rows K N (D - 1)
      in bindR (mapR (\<lambda>b_idx. mapR (dp_cell K a d (fst t) (snd t) b_idx) [0..<N]) [0..<B]) (\<lambda>rows.
           Inr (map (map fst) rows,
                map (map snd) rows @ replicate (B' - B) (replicate N (replicate D 0)))))"

definition dp_tables :: "nat \<Rightarrow> nat \<Rightarrow> rat list \<Rightarrow> (cost_table \<times> leaf_table) res" where
  "dp_tables K D a = foldR (dp_level K D a) (dp_base K D a) (rev [1..<D])"

section \<open>The topology functions\<close>

text \<open>\<open>num_internals[d-1] = tree_nodes / K\<close>, from the bottom up.\<close>

fun internals_of :: "nat \<Rightarrow> nat list \<Rightarrow> nat list \<times> nat" where
  "internals_of K [] = ([], 0)"
| "internals_of K [x] = ([], x)"
| "internals_of K (x # y # xs) =
     (let (ins, nodes) = internals_of K (y # xs); i = nodes div K in (i # ins, i + x))"

text \<open>
  \<open>num_leaves[-1] -= P\<close>: a count of leaves may become negative.
\<close>

definition drop_dummies :: "nat \<Rightarrow> nat list \<Rightarrow> int list" where
  "drop_dummies P xs = (map int xs)[length xs - 1 := int (last xs) - int P]"

type_synonym topology = "nat list \<times> int list \<times> nat list"

definition constructTreeTopologyUsingDP :: "sp_store \<Rightarrow> nat list \<Rightarrow> nat \<Rightarrow> topology res" where
  "constructTreeTopologyUsingDP H clients K =
     (let clients = sort_desc (\<lambda>c. latency (H c)) clients
      in if K = 1 then Inl ZeroDivisionError
         else
           (let D = (length clients - 2) div (K - 1) + 1;
                P = D * (K - 1) + 1 - length clients;
                N = P + length clients;
                a = map (\<lambda>c. latency (H c)) clients @ replicate P 0
            in bindR (dp_tables K D a) (\<lambda>t.
               bindR (cell_at (snd t) 0 (N - 1)) (\<lambda>num_leaves.
                 Inr (clients, drop_dummies P num_leaves, fst (internals_of K num_leaves))))))"

text \<open>
  \<open>int(math.ceil(math.log(n, K)))\<close> for \<open>2 \<le> K\<close>: the least \<open>d\<close> with \<open>n \<le> K ^ d\<close>.
\<close>

function clog :: "nat \<Rightarrow> nat \<Rightarrow> nat" where
  "clog K n = (if n \<le> 1 \<or> K \<le> 1 then 0 else Suc (clog K ((n + K - 1) div K)))"
  by pat_completeness auto
termination
proof (relation "measure snd", simp)
  fix K n :: nat
  assume "\<not> (n \<le> 1 \<or> K \<le> 1)"
  then have "n + K - 1 < n * K"
    by (cases n; cases K) (auto simp: algebra_simps)
  then show "((K, (n + K - 1) div K), K, n) \<in> measure snd"
    by (simp add: less_mult_imp_div_less)
qed

declare clog.simps [simp del]

text \<open>
  The loop that moves leaves of the last level but one down until the level's nodes fit in its
  \<open>cap\<close> places.
\<close>

partial_function (option) balance_loop ::
  "int \<Rightarrow> int \<Rightarrow> int \<Rightarrow> int \<Rightarrow> int \<Rightarrow> int \<Rightarrow> (int \<times> int \<times> int) option" where
  "balance_loop K cap tot upper ret internals =
     (if upper + internals > cap then
        (let upper' = cap - internals; ret' = tot - upper'
         in balance_loop K cap tot upper' ret' (cdiv ret' K))
      else Some (upper, ret, internals))"

declare balance_loop.simps [code]

definition constructBalancedTreeTopology :: "sp_store \<Rightarrow> nat list \<Rightarrow> nat \<Rightarrow> topology run" where
  "constructBalancedTreeTopology H clients K =
     (let clients = sort_desc (\<lambda>c. latency (H c)) clients;
          tot = length clients; depth = clog K tot; cap = int (K ^ (depth - 1));
          ret = int tot - cap
      in map_option (\<lambda>(upper, ret, internals). Inr
           (clients,
            (replicate depth 0)[depth - 2 := upper, depth - 1 := ret],
            (replicate (depth - 1) K)[depth - 2 := nat internals]))
          (balance_loop (int K) cap (int tot) cap ret (cdiv ret (int K))))"

section \<open>The recursion behind the tables\<close>

text \<open>
  \<open>best K d m b as\<close> places the leaves \<open>as\<close> on \<open>b\<close> places at depth \<open>d\<close> and on at most \<open>m\<close> deeper
  levels: the least cost and the leaf counts that attain it, with as many leaves as possible
  near the root.
\<close>

fun add_level :: "nat \<Rightarrow> rat list \<Rightarrow> nat \<Rightarrow> (rat \<times> nat list) option \<Rightarrow> (rat \<times> nat list) option" where
  "add_level d as x None = None"
| "add_level d as x (Some (c, xs)) = Some (sum_list (take x as) * of_nat d + c, x # xs)"

fun pick_best :: "(rat \<times> nat list) option list \<Rightarrow> (rat \<times> nat list) option" where
  "pick_best [] = None"
| "pick_best (r # rs) =
     (case (r, pick_best rs) of
        (None, q) \<Rightarrow> q
      | (Some x, None) \<Rightarrow> Some x
      | (Some x, Some y) \<Rightarrow> if fst x < fst y then Some x else Some y)"

fun best :: "nat \<Rightarrow> nat \<Rightarrow> nat \<Rightarrow> nat \<Rightarrow> rat list \<Rightarrow> (rat \<times> nat list) option" where
  "best K d 0 b as =
     (if length as \<le> b then Some (sum_list as * of_nat d, [length as]) else None)"
| "best K d (Suc m) b as =
     (if length as \<le> b then Some (sum_list as * of_nat d, [length as])
      else pick_best (map (\<lambda>x. add_level d as x (best K (d + 1) m ((b - x) * K) (drop x as))) [0..<b]))"

lemma best_fits: "length as \<le> b \<Longrightarrow> best K d m b as = Some (sum_list as * of_nat d, [length as])"
  by (cases m) auto

lemma pick_best_None: "pick_best rs = None \<longleftrightarrow> (\<forall>r \<in> set rs. r = None)"
  by (induction rs) (auto split: option.splits)

text \<open>The chosen one is the last of the least.\<close>

lemma pick_best_Some:
  "pick_best rs = Some x \<Longrightarrow> \<exists>i<length rs. rs ! i = Some x
     \<and> (\<forall>j<length rs. \<forall>y. rs ! j = Some y \<longrightarrow> fst x \<le> fst y \<and> (i < j \<longrightarrow> fst x < fst y))"
proof (induction rs arbitrary: x)
  case Nil
  then show ?case by simp
next
  case (Cons r rs)
  consider (tail) "pick_best rs = Some x" "\<forall>y. r = Some y \<longrightarrow> fst x \<le> fst y"
    | (alone) "r = Some x" "pick_best rs = None"
    | (head) z where "r = Some x" "pick_best rs = Some z" "fst x < fst z"
    using Cons.prems by (cases r; cases "pick_best rs") (auto split: if_splits)
  then show ?case
  proof cases
    case tail
    from Cons.IH [OF tail(1)] obtain i where "i < length rs" "rs ! i = Some x"
      "\<forall>j<length rs. \<forall>y. rs ! j = Some y \<longrightarrow> fst x \<le> fst y \<and> (i < j \<longrightarrow> fst x < fst y)"
      by blast
    with tail(2) show ?thesis
      by (intro exI [of _ "Suc i"]) (auto simp: nth_Cons' less_Suc_eq_0_disj)
  next
    case alone
    then have "\<forall>j<length rs. rs ! j = None" by (simp add: pick_best_None)
    with alone(1) show ?thesis
      by (intro exI [of _ 0]) (auto simp: less_Suc_eq_0_disj)
  next
    case head
    from Cons.IH [OF head(2)] have "\<forall>j<length rs. \<forall>y. rs ! j = Some y \<longrightarrow> fst x < fst y"
      using head(3) by fastforce
    with head(1) show ?thesis
      by (intro exI [of _ 0]) (auto simp: less_Suc_eq_0_disj)
  qed
qed

lemma pick_best_le:
  "pick_best rs = Some r \<Longrightarrow> j < length rs \<Longrightarrow> rs ! j = Some y \<Longrightarrow> fst r \<le> fst y"
  using pick_best_Some by blast

lemma pick_best_index: "pick_best rs = Some r \<Longrightarrow> \<exists>i<length rs. rs ! i = Some r"
  using pick_best_Some by blast

lemma pick_best_total: "j < length rs \<Longrightarrow> rs ! j = Some y \<Longrightarrow> \<exists>r. pick_best rs = Some r"
  by (metis not_None_eq nth_mem pick_best_None)

section \<open>Optimality\<close>

text \<open>
  A profile \<open>xs\<close> of leaf counts per depth fits \<open>n\<close> leaves on \<open>b\<close> places, every inner node having at
  most \<open>K\<close> children; its cost when the leaves \<open>as\<close> are placed in order from depth \<open>d\<close> on.
\<close>

fun fits_profile :: "nat \<Rightarrow> nat \<Rightarrow> nat \<Rightarrow> nat list \<Rightarrow> bool" where
  "fits_profile K b n [] \<longleftrightarrow> False"
| "fits_profile K b n [x] \<longleftrightarrow> x = n \<and> n \<le> b"
| "fits_profile K b n (x # y # xs) \<longleftrightarrow> x < b \<and> x \<le> n \<and> fits_profile K ((b - x) * K) (n - x) (y # xs)"

fun profile_cost :: "nat \<Rightarrow> rat list \<Rightarrow> nat list \<Rightarrow> rat" where
  "profile_cost d as [] = 0"
| "profile_cost d as (x # xs) = sum_list (take x as) * of_nat d + profile_cost (d + 1) (drop x as) xs"

lemma sum_list_nonneg': "\<forall>a \<in> set as. (0::rat) \<le> a \<Longrightarrow> 0 \<le> sum_list as"
  by (induction as) auto

lemma profile_cost_lower:
  assumes "\<forall>a \<in> set as. (0::rat) \<le> a" and "fits_profile K b (length as) xs"
  shows "sum_list as * of_nat d \<le> profile_cost d as xs"
  using assms
proof (induction K b "length as" xs arbitrary: as d rule: fits_profile.induct)
  case (3 K b x y xs)
  have nn: "\<forall>a \<in> set (drop x as). 0 \<le> a" using 3(2) by (meson in_set_dropD)
  have "sum_list (drop x as) * of_nat d \<le> sum_list (drop x as) * of_nat (d + 1)"
    using sum_list_nonneg' [OF nn] by (simp add: mult_left_mono)
  also have "\<dots> \<le> profile_cost (d + 1) (drop x as) (y # xs)"
    using 3(1) [of "drop x as" "d + 1"] 3(3) nn by simp
  finally have "sum_list (drop x as) * of_nat d \<le> profile_cost (d + 1) (drop x as) (y # xs)" .
  moreover have "sum_list as = sum_list (take x as) + sum_list (drop x as)"
    by (metis append_take_drop_id sum_list_append)
  ultimately show ?case by (simp add: distrib_right)
qed simp_all

lemma best_optimal:
  assumes "\<forall>a \<in> set as. (0::rat) \<le> a" and "fits_profile K b (length as) xs" and "length xs \<le> Suc m"
  shows "\<exists>c ys. best K d m b as = Some (c, ys) \<and> c \<le> profile_cost d as xs"
  using assms
proof (induction m arbitrary: d b as xs)
  case 0
  then obtain x where "xs = [x]" by (cases "(K, b, length as, xs)" rule: fits_profile.cases) auto
  with 0 show ?case by simp
next
  case (Suc m)
  show ?case
  proof (cases "length as \<le> b")
    case True
    then show ?thesis
      using profile_cost_lower [OF Suc.prems(1,2)] by (simp add: best_fits)
  next
    case False
    then obtain x y ys where xs: "xs = x # y # ys" "x < b" "fits_profile K ((b - x) * K) (length as - x) (y # ys)"
      using Suc.prems(2) by (cases "(K, b, length as, xs)" rule: fits_profile.cases) auto
    have nn: "\<forall>a \<in> set (drop x as). 0 \<le> a" using Suc.prems(1) by (meson in_set_dropD)
    obtain c zs where cz: "best K (d + 1) m ((b - x) * K) (drop x as) = Some (c, zs)"
      "c \<le> profile_cost (d + 1) (drop x as) (y # ys)"
      using Suc.IH [OF nn, of "(b - x) * K" "y # ys" "d + 1"] xs Suc.prems(3) by auto
    let ?rs = "map (\<lambda>x. add_level d as x (best K (d + 1) m ((b - x) * K) (drop x as))) [0..<b]"
    have x: "x < length ?rs" "?rs ! x = Some (sum_list (take x as) * of_nat d + c, x # zs)"
      using xs(2) cz(1) by simp_all
    from pick_best_total [OF x] obtain r where r: "pick_best ?rs = Some r" by blast
    have "fst r \<le> sum_list (take x as) * of_nat d + c"
      using pick_best_le [OF r x] by simp
    with cz(2) xs(1) r False show ?thesis
      by (cases r) auto
  qed
qed

lemma best_profile:
  "best K d m b as = Some (c, xs) \<Longrightarrow>
     fits_profile K b (length as) xs \<and> profile_cost d as xs = c \<and> length xs \<le> Suc m \<and> xs \<noteq> []"
proof (induction m arbitrary: d b as c xs)
  case 0
  then show ?case by (auto split: if_splits)
next
  case (Suc m)
  show ?case
  proof (cases "length as \<le> b")
    case True
    with Suc.prems show ?thesis by (auto simp: best_fits)
  next
    case False
    let ?rs = "map (\<lambda>x. add_level d as x (best K (d + 1) m ((b - x) * K) (drop x as))) [0..<b]"
    from Suc.prems False have "pick_best ?rs = Some (c, xs)" by simp
    from pick_best_index [OF this] obtain x where x: "x < b" "?rs ! x = Some (c, xs)"
      by auto
    then have "add_level d as x (best K (d + 1) m ((b - x) * K) (drop x as)) = Some (c, xs)"
      by simp
    then obtain c' zs where z: "best K (d + 1) m ((b - x) * K) (drop x as) = Some (c', zs)"
      "c = sum_list (take x as) * of_nat d + c'" "xs = x # zs"
      by (cases "best K (d + 1) m ((b - x) * K) (drop x as)") auto
    from Suc.IH [OF z(1)] have "fits_profile K ((b - x) * K) (length as - x) zs"
      "profile_cost (d + 1) (drop x as) zs = c'" "length zs \<le> Suc m" "zs \<noteq> []"
      by simp_all
    with x(1) False z(2,3) show ?thesis by (cases zs) auto
  qed
qed

section \<open>Full trees\<close>

text \<open>Every place of every level is taken, by a leaf or by an inner node with \<open>K\<close> children.\<close>

fun full_profile :: "nat \<Rightarrow> nat \<Rightarrow> nat list \<Rightarrow> bool" where
  "full_profile K b [] \<longleftrightarrow> False"
| "full_profile K b [x] \<longleftrightarrow> x = b"
| "full_profile K b (x # y # xs) \<longleftrightarrow> x < b \<and> full_profile K ((b - x) * K) (y # xs)"

lemma later_leaf_cheaper:
  assumes "\<forall>a \<in> set as. (0::rat) \<le> a" and "x < length as"
  shows "sum_list (take (x + 1) as) * of_nat d + sum_list (drop (x + 1) as) * of_nat (d + 1)
    \<le> sum_list (take x as) * of_nat d + sum_list (drop x as) * of_nat (d + 1)"
proof -
  have "0 \<le> as ! x" using assms by simp
  moreover have "sum_list (take (x + 1) as) = sum_list (take x as) + as ! x"
    using assms(2) by (simp add: take_Suc_conv_app_nth)
  moreover have "sum_list (drop x as) = as ! x + sum_list (drop (x + 1) as)"
    using assms(2) by (metis Cons_nth_drop_Suc Suc_eq_plus1 sum_list.Cons)
  ultimately show ?thesis by (simp add: algebra_simps)
qed

lemma best_full:
  assumes "2 \<le> K" and "\<forall>a \<in> set as. (0::rat) \<le> a" and "length as = b + j * (K - 1)"
    and "best K d m b as = Some (c, xs)"
  shows "full_profile K b xs"
  using assms(2-)
proof (induction m arbitrary: d b as c xs j)
  case 0
  then show ?case using assms(1) by (auto split: if_splits)
next
  case (Suc m)
  show ?case
  proof (cases "length as \<le> b")
    case True
    with Suc.prems(2,3) show ?thesis by (auto simp: best_fits)
  next
    case False
    let ?f = "\<lambda>x. add_level d as x (best K (d + 1) m ((b - x) * K) (drop x as))"
    let ?rs = "map ?f [0..<b]"
    from Suc.prems(3) False have "pick_best ?rs = Some (c, xs)" by simp
    from pick_best_Some [OF this] obtain x where x: "x < b" "?f x = Some (c, xs)"
      and later: "\<And>i y. i < b \<Longrightarrow> ?f i = Some y \<Longrightarrow> x < i \<Longrightarrow> c < fst y"
      by auto
    obtain c' zs where z: "best K (d + 1) m ((b - x) * K) (drop x as) = Some (c', zs)"
      "c = sum_list (take x as) * of_nat d + c'" "xs = x # zs"
      using x(2) by (cases "best K (d + 1) m ((b - x) * K) (drop x as)") auto
    have nn: "\<forall>a \<in> set (drop x as). 0 \<le> a" using Suc.prems(1) by (meson in_set_dropD)
    have split: "(b - x) * K = (b - x) + (b - x) * (K - 1)" for x
      using assms(1) by (metis One_nat_def Suc_1 Suc_le_lessD le_add_diff_inverse less_imp_le mult.right_neutral distrib_left)
    have "b - x \<le> j"
    proof (rule ccontr)
      assume "\<not> b - x \<le> j"
      then have lt: "j < b - x" by simp
      have "j \<noteq> 0" using False Suc.prems(2) by auto
      then have x1: "x + 1 < b" using lt by simp
      have fit: "length (drop y as) \<le> (b - y) * K" if "j \<le> b - y" "y \<le> b" for y
      proof -
        have "j * (K - 1) \<le> (b - y) * (K - 1)" using that(1) by (rule mult_le_mono1)
        then have "length as - y \<le> (b - y) * K"
          using Suc.prems(2) that(2) split [of y] by linarith
        then show ?thesis by (simp only: length_drop)
      qed
      have "?f x = Some (sum_list (take x as) * of_nat d + sum_list (drop x as) * of_nat (d + 1),
          [x, length as - x])"
        using best_fits [OF fit [of x], of K "d + 1" m] lt x(1) by simp
      then have cx: "c = sum_list (take x as) * of_nat d + sum_list (drop x as) * of_nat (d + 1)"
        using x(2) by simp
      have "?f (x + 1) = Some (sum_list (take (x + 1) as) * of_nat d
          + sum_list (drop (x + 1) as) * of_nat (d + 1), [x + 1, length as - (x + 1)])"
        using best_fits [OF fit [of "x + 1"], of K "d + 1" m] lt x1 by simp
      from later [OF x1 this] have "c < sum_list (take (x + 1) as) * of_nat d
          + sum_list (drop (x + 1) as) * of_nat (d + 1)" by simp
      moreover have "x < length as" using x(1) False by simp
      ultimately show False
        using later_leaf_cheaper [OF Suc.prems(1), of x d] cx by simp
    qed
    then have "j * (K - 1) = (b - x) * (K - 1) + (j - (b - x)) * (K - 1)"
      by (metis add_mult_distrib le_add_diff_inverse)
    then have "length as - x = (b - x) * K + (j - (b - x)) * (K - 1)"
      using Suc.prems(2) x(1) split [of x] by linarith
    then have "length (drop x as) = (b - x) * K + (j - (b - x)) * (K - 1)"
      by (simp only: length_drop)
    from Suc.IH [OF nn this z(1)] x(1) z(3) show ?thesis
      by (cases zs) auto
  qed
qed

lemma best_exists:
  assumes "2 \<le> K" and "0 < b" and "length as = b + j * (K - 1)" and "j \<le> m"
  shows "\<exists>r. best K d m b as = Some r"
  using assms(2-)
proof (induction m arbitrary: d b as j)
  case 0
  then show ?case by simp
next
  case (Suc m)
  show ?case
  proof (cases "length as \<le> b")
    case True
    then show ?thesis by (simp add: best_fits)
  next
    case False
    then have j: "0 < j" using Suc.prems(2) by (cases j) auto
    let ?x = "b - 1"
    have "length (drop ?x as) = K + (j - 1) * (K - 1)"
      using Suc.prems(1,2) j assms(1) by (cases j) auto
    moreover have "0 < K" "j - 1 \<le> m" using assms(1) Suc.prems(3) by simp_all
    ultimately obtain r where r: "best K (d + 1) m K (drop ?x as) = Some r"
      using Suc.IH by blast
    let ?rs = "map (\<lambda>x. add_level d as x (best K (d + 1) m ((b - x) * K) (drop x as))) [0..<b]"
    obtain c zs where "r = (c, zs)" by (cases r)
    with r Suc.prems(1) have "?rs ! ?x = Some (sum_list (take ?x as) * of_nat d + c, ?x # zs)"
      by simp
    from pick_best_total [OF _ this] Suc.prems(1) False show ?thesis by simp
  qed
qed

text \<open>A full profile has the inner nodes that \<open>num_internals\<close> is computed to be.\<close>

fun inner_counts :: "nat \<Rightarrow> nat \<Rightarrow> nat list \<Rightarrow> nat list" where
  "inner_counts K b (x # y # xs) = (b - x) # inner_counts K ((b - x) * K) (y # xs)"
| "inner_counts K b xs = []"

lemma internals_of_full:
  "0 < K \<Longrightarrow> full_profile K b xs \<Longrightarrow> internals_of K xs = (inner_counts K b xs, b)"
  by (induction K b xs rule: full_profile.induct) (auto simp: Let_def)

section \<open>The tables hold the recursion\<close>

lemma cell_at_Inr: "i < length t \<Longrightarrow> j < length (t ! i) \<Longrightarrow> cell_at t i j = Inr (t ! i ! j)"
  by (simp add: cell_at_def)

lemma inf_min_pick_best: "inf_min (map (map_option fst) rs) = map_option fst (pick_best rs)"
proof (induction rs)
  case Nil
  show ?case by simp
next
  case (Cons r rs)
  show ?case
    by (cases r; cases "pick_best rs") (auto simp: Cons Let_def split: if_splits)
qed

lemma last_index_eq:
  assumes "i < length cs" and "cs ! i = m" and "\<And>j. i < j \<Longrightarrow> j < length cs \<Longrightarrow> cs ! j \<noteq> m"
  shows "last_index cs m = i"
proof -
  have "[0..<length cs] = [0..<i] @ i # [Suc i..<length cs]"
    using assms(1) by (metis append_assoc append_Cons append_Nil less_imp_le_nat upt_add_eq_append
        le_add_diff_inverse upt_conv_Cons zero_le)
  moreover have "filter (\<lambda>j. cs ! j = m) [Suc i..<length cs] = []"
    using assms(3) by (auto simp: filter_empty_conv)
  ultimately show ?thesis
    using assms(2) by (simp add: last_index_def)
qed

definition leaves_suffix :: "rat list \<Rightarrow> nat \<Rightarrow> rat list" where
  "leaves_suffix a n = drop (length a - n) a"

lemma leaves_suffix_length [simp]: "n \<le> length a \<Longrightarrow> length (leaves_suffix a n) = n"
  by (simp add: leaves_suffix_def)

lemma leaves_suffix_drop: "x \<le> n \<Longrightarrow> n \<le> length a \<Longrightarrow> drop x (leaves_suffix a n) = leaves_suffix a (n - x)"
  by (simp add: leaves_suffix_def add.commute)

definition table_ok :: "nat \<Rightarrow> nat \<Rightarrow> rat list \<Rightarrow> nat \<Rightarrow> cost_table \<times> leaf_table \<Rightarrow> bool" where
  "table_ok K D a d t \<longleftrightarrow>
     length (fst t) = dp_rows K (length a) (d - 1) \<and> length (snd t) = dp_rows K (length a) (D - 1) \<and>
     (\<forall>row \<in> set (fst t). length row = length a) \<and> (\<forall>row \<in> set (snd t). length row = length a) \<and>
     (\<forall>i<dp_rows K (length a) (d - 1). \<forall>j<length a.
        fst t ! i ! j = map_option fst (best K d (D - d) ((i + 1) * K) (leaves_suffix a (j + 1)))
      \<and> (\<forall>c xs. best K d (D - d) ((i + 1) * K) (leaves_suffix a (j + 1)) = Some (c, xs) \<longrightarrow>
           snd t ! i ! j = xs))"

lemma table_ok_base: "table_ok K D a D (dp_base K D a)"
  by (auto simp: table_ok_def dp_base_def Let_def suffix_sum_def leaves_suffix_def)

lemma dp_rows_index:
  assumes "0 < K" and "b \<le> K ^ d" and "y * K < N" and "0 < y" and "y \<le> b"
  shows "y - 1 < dp_rows K N d"
proof -
  have "y - 1 < K ^ d" using assms(2,4,5) by linarith
  moreover have "int y < cdiv (int N) (int K) \<or> int y = cdiv (int N) (int K)"
  proof -
    have "\<not> cdiv (int N) (int K) \<le> int y - 1 "
    proof
      assume "cdiv (int N) (int K) \<le> int y - 1"
      then have "int N \<le> (int y - 1) * int K"
        using assms(1) cdiv_le_iff [of "int K" "int N" "int y - 1"] by linarith
      also have "\<dots> \<le> int y * int K" by (simp add: mult_right_mono)
      finally show False using assms(3) by (simp add: of_nat_mult [symmetric] del: of_nat_mult)
    qed
    then show ?thesis by linarith
  qed
  then have "y - 1 < nat (cdiv (int N) (int K))" using assms(4) by linarith
  ultimately show ?thesis by (simp add: dp_rows_def)
qed

lemma dp_rows_mono: "0 < K \<Longrightarrow> d \<le> d' \<Longrightarrow> dp_rows K N d \<le> dp_rows K N d'"
  by (simp add: dp_rows_def min.coboundedI2 power_increasing)

lemma table_okD:
  assumes "table_ok K D a d t" and "i < dp_rows K (length a) (d - 1)" and "j < length a"
  shows "cell_at (fst t) i j =
      Inr (map_option fst (best K d (D - d) ((i + 1) * K) (leaves_suffix a (j + 1))))"
    and "0 < K \<Longrightarrow> d \<le> D \<Longrightarrow> \<exists>xs. cell_at (snd t) i j = Inr xs
      \<and> (\<forall>c ys. best K d (D - d) ((i + 1) * K) (leaves_suffix a (j + 1)) = Some (c, ys) \<longrightarrow> xs = ys)"
proof -
  show "cell_at (fst t) i j =
      Inr (map_option fst (best K d (D - d) ((i + 1) * K) (leaves_suffix a (j + 1))))"
    using assms by (simp add: table_ok_def cell_at_Inr)
  assume "0 < K" "d \<le> D"
  then have "dp_rows K (length a) (d - 1) \<le> dp_rows K (length a) (D - 1)"
    by (simp add: dp_rows_mono)
  then have "i < length (snd t)" using assms(1,2) by (simp add: table_ok_def)
  moreover from this have "length (snd t ! i) = length a" using assms(1) by (simp add: table_ok_def)
  ultimately show "\<exists>xs. cell_at (snd t) i j = Inr xs
      \<and> (\<forall>c ys. best K d (D - d) ((i + 1) * K) (leaves_suffix a (j + 1)) = Some (c, ys) \<longrightarrow> xs = ys)"
    using assms by (simp add: table_ok_def cell_at_Inr)
qed

lemma dp_candidate_best:
  assumes t: "table_ok K D a (d + 1) t" and d: "0 < K" "0 < d" "d < D"
    and b: "b \<le> K ^ d" and n: "n \<le> length a" "b < n" and x: "x < b"
  shows "dp_candidate K a d (fst t) b n x =
    Inr (map_option fst (add_level d (leaves_suffix a n) x
      (best K (d + 1) (D - (d + 1)) ((b - x) * K) (drop x (leaves_suffix a n)))))"
proof -
  let ?as = "leaves_suffix a n"
  have drop: "drop x ?as = leaves_suffix a (n - x)" using n x by (simp add: leaves_suffix_drop)
  have sums: "head_sum a n x = sum_list (take x ?as)" "tail_sum a n x = sum_list (drop x ?as)"
    by (simp_all add: head_sum_def tail_sum_def leaves_suffix_def)
  show ?thesis
  proof (cases "(b - x) * K \<ge> n - x")
    case True
    then have "best K (d + 1) (D - (d + 1)) ((b - x) * K) (drop x ?as)
        = Some (sum_list (drop x ?as) * of_nat (d + 1), [n - x])"
      using n by (simp add: best_fits)
    then show ?thesis using True by (simp add: dp_candidate_def sums)
  next
    case False
    have "b - x - 1 < dp_rows K (length a) ((d + 1) - 1)"
      using dp_rows_index [OF d(1), of b d "b - x" "length a"] b x False n by simp
    moreover have "n - x - 1 < length a" "n - x - 1 + 1 = n - x" "b - x - 1 + 1 = b - x"
      using n x by simp_all
    ultimately have "cell_at (fst t) (b - x - 1) (n - x - 1) =
        Inr (map_option fst (best K (d + 1) (D - (d + 1)) ((b - x) * K) (leaves_suffix a (n - x))))"
      using table_okD(1) [OF t, of "b - x - 1" "n - x - 1"] by simp
    then show ?thesis
      using False unfolding drop
      by (cases "best K (d + 1) (D - (d + 1)) ((b - x) * K) (leaves_suffix a (n - x))")
        (auto simp: dp_candidate_def sums)
  qed
qed

lemma dp_cell_best:
  assumes t: "table_ok K D a (d + 1) t" and d: "0 < K" "0 < d" "d < D"
    and i: "i < dp_rows K (length a) (d - 1)" and j: "j < length a"
  shows "\<exists>v xs. dp_cell K a d (fst t) (snd t) i j = Inr (v, xs)
    \<and> v = map_option fst (best K d (D - d) ((i + 1) * K) (leaves_suffix a (j + 1)))
    \<and> (\<forall>c ys. best K d (D - d) ((i + 1) * K) (leaves_suffix a (j + 1)) = Some (c, ys) \<longrightarrow> xs = ys)"
proof -
  define b where "b = (i + 1) * K"
  define n where "n = j + 1"
  define as where "as = leaves_suffix a n"
  have n: "n \<le> length a" and len: "length as = n" using j by (simp_all add: n_def as_def)
  have bK: "b \<le> K ^ d"
  proof -
    have "i + 1 \<le> K ^ (d - 1)" using i by (simp add: dp_rows_def)
    then have "b \<le> K ^ (d - 1) * K" unfolding b_def by (rule mult_le_mono1)
    then show ?thesis using d(2) by (cases d) (simp_all add: mult.commute)
  qed
  have b0: "0 < b" using d(1) by (simp add: b_def)
  obtain m where m: "D - d = Suc m" "D - Suc d = m"
    using d(3) by (metis Suc_diff_Suc)
  show ?thesis
  proof (cases "n \<le> b")
    case True
    then show ?thesis
      unfolding dp_cell_def Let_def b_def [symmetric] n_def [symmetric] as_def [symmetric]
      using len by (simp add: best_fits suffix_sum_def as_def leaves_suffix_def)
  next
    case False
    let ?f = "\<lambda>x. add_level d as x (best K (d + 1) m ((b - x) * K) (drop x as))"
    let ?rs = "map ?f [0..<b]"
    let ?cs = "map (map_option fst) ?rs"
    have "dp_candidate K a d (fst t) b n x = Inr (map_option fst (?f x))" if "x \<in> set [0..<b]" for x
      using dp_candidate_best [OF t d bK n] False that by (simp add: as_def m(2))
    from mapR_Inr_map [of "[0..<b]", OF this]
    have cands: "mapR (dp_candidate K a d (fst t) b n) [0..<b] = Inr ?cs"
      by (simp add: comp_def)
    have best: "best K d (D - d) b as = pick_best ?rs"
      using False len by (simp add: m(1))
    have minv: "inf_min ?cs = map_option fst (pick_best ?rs)"
      by (rule inf_min_pick_best)
    define k where "k = last_index ?cs (inf_min ?cs)"
    have k: "k < b \<and> (\<forall>r. pick_best ?rs = Some r \<longrightarrow> ?f k = Some r)"
    proof (cases "pick_best ?rs")
      case None
      then have "\<forall>r \<in> set ?rs. r = None" by (simp only: pick_best_None)
      then have all: "?cs ! x = None" if "x < b" for x using that by simp
      have "last_index ?cs None = b - 1"
      proof (rule last_index_eq)
        show "b - 1 < length ?cs" using b0 by simp
        show "?cs ! (b - 1) = None" by (rule all) (use b0 in simp)
      qed (use b0 in simp)
      with None minv have "k = b - 1" by (simp only: k_def option.map)
      with b0 None show ?thesis by simp
    next
      case (Some r)
      from pick_best_Some [OF Some] obtain x where x: "x < b" "?f x = Some r"
        and later: "\<And>y z. y < b \<Longrightarrow> x < y \<Longrightarrow> ?f y = Some z \<Longrightarrow> fst r < fst z"
        by auto
      have "last_index ?cs (Some (fst r)) = x"
      proof (rule last_index_eq)
        fix y
        assume "x < y" "y < length ?cs"
        with later [of y] show "?cs ! y \<noteq> Some (fst r)" by (cases "?f y") auto
      qed (use x in auto)
      with x Some minv show ?thesis by (simp add: k_def)
    qed
    define cs q where defs: "cs = ?cs" "q = pick_best ?rs"
    have cs: "mapR (dp_candidate K a d (fst t) b n) [0..<b] = Inr cs"
      "inf_min cs = map_option fst q" "last_index cs (map_option fst q) = k"
      using cands minv k_def unfolding defs by (simp_all only:)
    have q: "best K d (D - d) b as = q" "\<And>r. q = Some r \<Longrightarrow> ?f k = Some r"
      using best k unfolding defs by (simp_all only:)
    have cell: "dp_cell K a d (fst t) (snd t) i j =
        (if (b - k) * K \<ge> n - k then Inr (map_option fst q, [k, n - k])
         else bindR (cell_at (snd t) (b - k - 1) (n - k - 1)) (\<lambda>rest. Inr (map_option fst q, k # rest)))"
      unfolding dp_cell_def Let_def b_def [symmetric] n_def [symmetric] cs(1)
      using False by (simp only: bindR.simps cs(2,3) if_False)
    show ?thesis
    proof (cases "(b - k) * K \<ge> n - k")
      case True
      have two: "?f k = Some (sum_list (take k as) * of_nat d + sum_list (drop k as) * of_nat (d + 1), [k, n - k])"
        using True len by (simp add: best_fits)
      have "snd r = [k, n - k]" if "q = Some r" for r
        using trans [OF two [symmetric] q(2) [OF that]] by auto
      then show ?thesis
        unfolding cell b_def [symmetric] n_def [symmetric] as_def [symmetric] q(1)
        using True by auto
    next
      case nofit: False
      have kb: "k < b" using k by simp
      have idx: "b - k - 1 < dp_rows K (length a) ((d + 1) - 1)" "n - k - 1 < length a"
        "n - k - 1 + 1 = n - k" "b - k - 1 + 1 = b - k"
        using dp_rows_index [OF d(1), of b d "b - k" "length a"] bK kb nofit n False by simp_all
      from table_okD(2) [OF t idx(1,2) d(1), unfolded idx(3,4)] d(3) obtain ys where
        ys: "cell_at (snd t) (b - k - 1) (n - k - 1) = Inr ys"
          "\<forall>c zs. best K (d + 1) m ((b - k) * K) (leaves_suffix a (n - k)) = Some (c, zs) \<longrightarrow> ys = zs"
        by (auto simp: m(2))
      have "drop k as = leaves_suffix a (n - k)"
        using kb n False by (simp add: as_def leaves_suffix_drop)
      then have "snd r = k # ys" if "q = Some r" for r
        using q(2) [OF that] ys(2) by (cases "best K (d + 1) m ((b - k) * K) (drop k as)") auto
      then show ?thesis
        unfolding cell b_def [symmetric] n_def [symmetric] as_def [symmetric] q(1)
        using nofit ys(1) by auto
    qed
  qed
qed

lemma dp_level_ok:
  assumes t: "table_ok K D a (d + 1) t" and d: "0 < K" "0 < d" "d < D"
  shows "\<exists>t'. dp_level K D a t d = Inr t' \<and> table_ok K D a d t'"
proof -
  let ?N = "length a"
  let ?B = "dp_rows K ?N (d - 1)" and ?B' = "dp_rows K ?N (D - 1)"
  define cell where "cell = (\<lambda>i j. case dp_cell K a d (fst t) (snd t) i j of Inr c \<Rightarrow> c | Inl _ \<Rightarrow> (None, []))"
  have cell: "dp_cell K a d (fst t) (snd t) i j = Inr (cell i j)
      \<and> fst (cell i j) = map_option fst (best K d (D - d) ((i + 1) * K) (leaves_suffix a (j + 1)))
      \<and> (\<forall>c ys. best K d (D - d) ((i + 1) * K) (leaves_suffix a (j + 1)) = Some (c, ys) \<longrightarrow> snd (cell i j) = ys)"
    if "i < ?B" "j < ?N" for i j
    using dp_cell_best [OF t d that] by (auto simp: cell_def)
  let ?rows = "map (\<lambda>i. map (cell i) [0..<?N]) [0..<?B]"
  have "mapR (\<lambda>i. mapR (dp_cell K a d (fst t) (snd t) i) [0..<?N]) [0..<?B] = Inr ?rows"
    by (intro mapR_Inr_map) (use cell in auto)
  then have step: "dp_level K D a t d = Inr (map (map fst) ?rows,
      map (map snd) ?rows @ replicate (?B' - ?B) (replicate ?N (replicate D 0)))"
    by (simp add: dp_level_def Let_def)
  have "?B \<le> ?B'" using d by (simp add: dp_rows_mono)
  then have "table_ok K D a d (map (map fst) ?rows,
      map (map snd) ?rows @ replicate (?B' - ?B) (replicate ?N (replicate D 0)))"
    using cell by (auto simp: table_ok_def nth_append)
  with step show ?thesis by blast
qed

lemma dp_tables_ok:
  assumes "0 < K" and "0 < D"
  shows "\<exists>t. dp_tables K D a = Inr t \<and> table_ok K D a 1 t"
proof -
  have "\<exists>t. foldR (dp_level K D a) (dp_base K D a) (rev [Suc k..<D]) = Inr t \<and> table_ok K D a (Suc k) t"
    if "Suc k \<le> D" for k
    using that
  proof (induction "D - Suc k" arbitrary: k)
    case 0
    then show ?case using table_ok_base [of K D a] by simp
  next
    case (Suc n)
    then have lt: "Suc k < D" by simp
    have "n = D - Suc (Suc k)" "Suc (Suc k) \<le> D" using Suc.hyps(2) lt by simp_all
    from Suc.hyps(1) [OF this] obtain t where
      t: "foldR (dp_level K D a) (dp_base K D a) (rev [Suc (Suc k)..<D]) = Inr t" "table_ok K D a (Suc k + 1) t"
      by auto
    from dp_level_ok [OF t(2) assms(1) _ lt] obtain t' where
      "dp_level K D a t (Suc k) = Inr t'" "table_ok K D a (Suc k) t'" by auto
    moreover have "rev [Suc k..<D] = rev [Suc (Suc k)..<D] @ [Suc k]"
      using lt by (simp add: upt_conv_Cons)
    ultimately show ?case using t(1) by (simp add: foldR_append)
  qed
  from this [of 0] assms(2) show ?thesis by (simp add: dp_tables_def)
qed

section \<open>The result of the dynamic program\<close>

lemma full_profile_ne: "full_profile K b xs \<Longrightarrow> xs \<noteq> []"
  by (cases xs) auto

lemma full_profile_last: "0 < K \<Longrightarrow> full_profile K b xs \<Longrightarrow> K \<le> b \<Longrightarrow> K \<le> last xs"
  by (induction K b xs rule: full_profile.induct) auto

lemma fits_profile_sum: "fits_profile K b n xs \<Longrightarrow> sum_list xs = n"
  by (induction K b n xs rule: fits_profile.induct) auto

definition add_dummies :: "nat \<Rightarrow> nat list \<Rightarrow> nat list" where
  "add_dummies P xs = xs[length xs - 1 := last xs + P]"

lemma add_dummies_simps [simp]:
  "add_dummies P [x] = [x + P]"
  "add_dummies P (x # y # xs) = x # add_dummies P (y # xs)"
  by (simp_all add: add_dummies_def)

lemma drop_added_dummies:
  assumes "P \<le> last xs" and "xs \<noteq> []"
  obtains ys where "drop_dummies P xs = map int ys" and "add_dummies P ys = xs"
proof -
  from assms(2) obtain ys z where "xs = ys @ [z]" by (cases xs rule: rev_cases) auto
  with assms(1) have "drop_dummies P xs = map int (ys @ [z - P])" "add_dummies P (ys @ [z - P]) = xs"
    using list_update_length [of "map int ys"] by (simp_all add: add_dummies_def drop_dummies_def of_nat_diff)
  then show ?thesis by (rule that)
qed

lemma sum_list_add_dummies: "xs \<noteq> [] \<Longrightarrow> sum_list (add_dummies P xs) = sum_list xs + P"
  by (cases xs rule: rev_cases) (simp_all add: add_dummies_def)

text \<open>
  A profile of the clients leaves at least the \<open>P\<close> places free that make the tree full, so the
  dummies fit on its last level, and cost nothing there.
\<close>

lemma fits_add_dummies:
  assumes "fits_profile K b n xs" and "2 \<le> K" and "P \<le> K - 2"
    and "int n + int P = int b + i * (int K - 1)"
  shows "fits_profile K b (n + P) (add_dummies P xs)"
  using assms
proof (induction K b n xs arbitrary: i rule: fits_profile.induct)
  case (1 K b n)
  then show ?case by simp
next
  case (2 K b n x)
  have "n + P \<le> b"
  proof (rule ccontr)
    assume "\<not> n + P \<le> b"
    with 2(4) have "0 < i * (int K - 1)" by linarith
    then have "1 \<le> i" using 2(2) by (simp add: zero_less_mult_iff)
    then have "1 * (int K - 1) \<le> i * (int K - 1)"
      by (rule mult_right_mono) (use 2(2) in simp)
    moreover have "n \<le> b" "int P \<le> int K - 2" using 2 by auto
    ultimately show False using 2(4) by (simp add: algebra_simps)
  qed
  with 2(1) show ?case by simp
next
  case (3 K b n x y xs)
  have "int (n - x) + int P = int ((b - x) * K) + (i - int (b - x)) * (int K - 1)"
    using 3(2,5) by (simp add: of_nat_diff algebra_simps)
  with 3(1) [of "i - int (b - x)"] 3(2-4)
  have "fits_profile K ((b - x) * K) (n - x + P) (add_dummies P (y # xs))" by simp
  moreover have "n - x + P = n + P - x" using 3(2) by simp
  moreover obtain z zs where "add_dummies P (y # xs) = z # zs"
    by (metis add_dummies_def list.exhaust list_update_nonempty list.distinct(1))
  ultimately show ?case using 3(2) by simp
qed

lemma profile_cost_dummies:
  "sum_list xs = length as \<Longrightarrow> xs \<noteq> [] \<Longrightarrow>
     profile_cost d (as @ replicate P 0) (add_dummies P xs) = profile_cost d as xs"
proof (induction xs arbitrary: as d)
  case Nil
  then show ?case by simp
next
  case (Cons x xs)
  show ?case
  proof (cases xs)
    case Nil
    then show ?thesis using Cons.prems by (simp add: sum_list_replicate)
  next
    case (Cons y ys)
    have "profile_cost (d + 1) (drop x as @ replicate P 0) (add_dummies P xs)
        = profile_cost (d + 1) (drop x as) xs"
      by (rule Cons.IH) (use Cons.prems Cons in simp_all)
    then show ?thesis using Cons Cons.prems(1) by simp
  qed
qed

text \<open>The arithmetic of the depth \<open>D\<close> and the number \<open>P\<close> of dummies.\<close>

lemma dp_sizes:
  fixes K n :: nat
  defines "D \<equiv> (n - 2) div (K - 1) + 1"
  defines "P \<equiv> D * (K - 1) + 1 - n"
  assumes "2 \<le> K" and "2 \<le> n"
  shows "n + P = K + (D - 1) * (K - 1)" and "P \<le> K - 2" and "0 < D"
proof -
  have eq: "n - 2 = (n - 2) div (K - 1) * (K - 1) + (n - 2) mod (K - 1)"
    by (rule div_mult_mod_eq [symmetric])
  have lt: "(n - 2) mod (K - 1) < K - 1" using assms(3) by simp
  have D: "D * (K - 1) = (n - 2) div (K - 1) * (K - 1) + (K - 1)"
    by (simp add: D_def)
  have D1: "(D - 1) * (K - 1) = (n - 2) div (K - 1) * (K - 1)"
    by (simp add: D_def)
  show "n + P = K + (D - 1) * (K - 1)"
    using eq lt assms(3,4) D D1 unfolding P_def by linarith
  show "P \<le> K - 2"
    using eq lt assms(3,4) D unfolding P_def by linarith
  show "0 < D" by (simp add: D_def)
qed

lemma dp_topology_best:
  fixes H :: sp_store and clients :: "nat list" and K :: nat
  defines "cl \<equiv> sort_desc (\<lambda>c. latency (H c)) clients"
  defines "D \<equiv> (length clients - 2) div (K - 1) + 1"
  defines "P \<equiv> D * (K - 1) + 1 - length clients"
  defines "a \<equiv> map (\<lambda>c. latency (H c)) cl @ replicate P 0"
  assumes K: "2 \<le> K" and n: "2 \<le> length clients" and nn: "\<forall>c \<in> set clients. 0 \<le> latency (H c)"
  shows "\<exists>c xs. best K 1 (D - 1) K a = Some (c, xs) \<and> full_profile K K xs \<and> P \<le> last xs
    \<and> constructTreeTopologyUsingDP H clients K = Inr (cl, drop_dummies P xs, inner_counts K K xs)"
proof -
  note sizes = dp_sizes [OF K n, folded D_def, folded P_def]
  have cl: "length cl = length clients" "set cl = set clients" by (simp_all add: cl_def)
  have len: "length a = K + (D - 1) * (K - 1)" using sizes(1) cl(1) by (simp add: a_def)
  have nna: "\<forall>x \<in> set a. 0 \<le> x" using nn cl(2) by (auto simp: a_def)
  obtain c xs where best: "best K 1 (D - 1) K a = Some (c, xs)"
    using best_exists [OF K _ len] K by fastforce
  have full: "full_profile K K xs" by (rule best_full [OF K nna len best])
  have last: "P \<le> last xs" using full_profile_last [OF _ full] sizes(2) K by simp
  obtain t where t: "dp_tables K D a = Inr t" "table_ok K D a 1 t"
    using dp_tables_ok [of K D a] K sizes(3) by auto
  have "0 < length a" using len K by simp
  then have rows: "0 < dp_rows K (length a) (1 - 1)" "length a - 1 < length a"
    using K cdiv_pos [of "int K" "int (length a)"] by (simp_all add: dp_rows_def)
  have whole: "leaves_suffix a (length a - 1 + 1) = a"
    using \<open>0 < length a\<close> by (simp add: leaves_suffix_def)
  from table_okD(2) [OF t(2) rows, unfolded whole] best K sizes(3)
  have "cell_at (snd t) 0 (length a - 1) = Inr xs" by auto
  then have cell: "cell_at (snd t) 0 (P + length clients - 1) = Inr xs"
    using cl(1) by (simp add: a_def add.commute)
  have "constructTreeTopologyUsingDP H clients K = Inr (cl, drop_dummies P xs, fst (internals_of K xs))"
    unfolding constructTreeTopologyUsingDP_def Let_def cl_def [symmetric] cl(1)
      D_def [symmetric] P_def [symmetric] a_def [symmetric]
    using K cell t(1) by simp
  with best full last internals_of_full [OF _ full] K show ?thesis by simp
qed

lemma dp_topology_profile:
  assumes "2 \<le> K" and "2 \<le> length clients" and "\<forall>c \<in> set clients. 0 \<le> latency (H c)"
    and "constructTreeTopologyUsingDP H clients K = Inr (cl, leaves, ni)"
  obtains nl P c where "leaves = map int nl" and "P \<le> K - 2" and "length clients + P = K + (length clients - 2) div (K - 1) * (K - 1)"
    and "cl = sort_desc (\<lambda>c. latency (H c)) clients"
    and "best K 1 ((length clients - 2) div (K - 1)) K
        (map (\<lambda>c. latency (H c)) cl @ replicate P 0) = Some (c, add_dummies P nl)"
    and "full_profile K K (add_dummies P nl)" and "ni = inner_counts K K (add_dummies P nl)"
    and "sum_list nl = length clients" and "nl \<noteq> []"
proof -
  define D where "D = (length clients - 2) div (K - 1) + 1"
  define P where "P = D * (K - 1) + 1 - length clients"
  note sizes = dp_sizes [OF assms(1,2), folded D_def, folded P_def]
  from dp_topology_best [OF assms(1-3), folded D_def, folded P_def] assms(4) obtain c xs where
    best: "best K 1 (D - 1) K (map (\<lambda>c. latency (H c)) cl @ replicate P 0) = Some (c, xs)"
    and full: "full_profile K K xs" "P \<le> last xs"
    and eqs: "cl = sort_desc (\<lambda>c. latency (H c)) clients" "leaves = drop_dummies P xs" "ni = inner_counts K K xs"
    by auto
  obtain nl where nl: "leaves = map int nl" and add: "add_dummies P nl = xs"
    using drop_added_dummies [OF full(2) full_profile_ne [OF full(1)]] eqs(2) by metis
  then have ne: "nl \<noteq> []" using full_profile_ne [OF full(1)] by (auto simp: add_dummies_def)
  have "sum_list xs = length clients + P"
    using fits_profile_sum [OF conjunct1 [OF best_profile [OF best]]] eqs(1) by simp
  then have "sum_list nl = length clients"
    using sum_list_add_dummies [OF ne, of P] add by simp
  then show ?thesis
    using that [of nl P c] sizes best full eqs ne add nl by (simp add: D_def)
qed

text \<open>
  C28: For at least two clients with non-negative latencies and trees of arity at least two, the
  dynamic program returns, without an index error, the clients in descending order of latency
  and leaf counts that sum to their number; completed by fewer than \<open>treeKary - 1\<close> dummies on the
  last level, every place of every level is taken by a leaf or an inner node, and
  \<open>num_internals\<close> is the number of inner nodes of each level.
\<close>

theorem constructTreeTopologyUsingDP_full:
  assumes "2 \<le> K" and "2 \<le> length clients" and "\<forall>c \<in> set clients. 0 \<le> latency (H c)"
  shows "\<exists>cl nl ni P. constructTreeTopologyUsingDP H clients K = Inr (cl, map int nl, ni)
    \<and> mset cl = mset clients \<and> sorted (rev (map (\<lambda>c. latency (H c)) cl))
    \<and> sum_list nl = length clients
    \<and> P \<le> K - 2 \<and> full_profile K K (add_dummies P nl) \<and> ni = inner_counts K K (add_dummies P nl)"
proof -
  obtain cl leaves ni where r: "constructTreeTopologyUsingDP H clients K = Inr (cl, leaves, ni)"
    using dp_topology_best [OF assms] by blast
  show ?thesis
  proof (rule dp_topology_profile [OF assms r])
    fix nl P
    assume "leaves = map int nl" "P \<le> K - 2" "cl = sort_desc (\<lambda>c. latency (H c)) clients"
      "full_profile K K (add_dummies P nl)" "ni = inner_counts K K (add_dummies P nl)" "sum_list nl = length clients"
    with r show ?thesis
      by (intro exI [of _ cl] exI [of _ nl] exI [of _ ni] exI [of _ P]) (simp add: sorted_sort_desc)
  qed
qed

section \<open>The least of all trees\<close>

text \<open>No deeper tree is cheaper: the optimum over any depth is full, so no deeper than the bound.\<close>

lemma full_profile_length:
  "1 \<le> K \<Longrightarrow> full_profile K b xs \<Longrightarrow> b + (length xs - 1) * (K - 1) \<le> sum_list xs"
proof (induction K b xs rule: full_profile.induct)
  case (3 K b x y xs)
  have "(b - x) + (b - x) * (K - 1) = (b - x) * K"
    using 3(2) by (cases K) simp_all
  moreover have "x + (b - x) = b" using 3(3) by simp
  moreover have "1 * (K - 1) \<le> (b - x) * (K - 1)" using 3(3) by (intro mult_le_mono1) auto
  moreover have "(b - x) * K + length xs * (K - 1) \<le> sum_list (y # xs)" using 3 by simp
  moreover have "(length (x # y # xs) - 1) * (K - 1) = 1 * (K - 1) + length xs * (K - 1)" by simp
  moreover have "sum_list (x # y # xs) = x + sum_list (y # xs)" by simp
  ultimately show ?case by linarith
qed simp_all

lemma best_deeper:
  assumes "2 \<le> K" and "0 < b" and "\<forall>a \<in> set as. (0::rat) \<le> a" and "length as = b + j * (K - 1)"
    and "fits_profile K b (length as) ys" and "best K d j b as = Some (c, xs)"
  shows "c \<le> profile_cost d as ys"
proof -
  let ?m = "j + length ys"
  obtain c' zs where z: "best K d ?m b as = Some (c', zs)" "c' \<le> profile_cost d as ys"
    using best_optimal [OF assms(3,5), of ?m d] by auto
  from best_profile [OF z(1)] have p: "fits_profile K b (length as) zs" "profile_cost d as zs = c'" by simp_all
  have "b + (length zs - 1) * (K - 1) \<le> b + j * (K - 1)"
    using full_profile_length [OF _ best_full [OF assms(1,3,4) z(1)]] fits_profile_sum [OF p(1)] assms(1,4) by simp
  then have "length zs \<le> Suc j" using assms(1) by simp
  from best_optimal [OF assms(3) p(1) this, of d] assms(6) p(2) z(2) show ?thesis by simp
qed

text \<open>
  Trees with numbered leaves: the leaves with their depths below a node of depth \<open>d\<close>, and trees whose inner
  nodes have at least one and at most \<open>K\<close> children.
\<close>

datatype ktree = KLeaf nat | KNode "ktree list"

fun leaf_depths :: "nat \<Rightarrow> ktree \<Rightarrow> (nat \<times> nat) list" where
  "leaf_depths d (KLeaf n) = [(n, d)]"
| "leaf_depths d (KNode ts) = concat (map (leaf_depths (d + 1)) ts)"

fun arity_at_most :: "nat \<Rightarrow> ktree \<Rightarrow> bool" where
  "arity_at_most K (KLeaf n) \<longleftrightarrow> True"
| "arity_at_most K (KNode ts) \<longleftrightarrow> ts \<noteq> [] \<and> length ts \<le> K \<and> (\<forall>t \<in> set ts. arity_at_most K t)"

text \<open>The depths of the places of a profile, from depth \<open>d\<close> on.\<close>

fun depths_of :: "nat \<Rightarrow> nat list \<Rightarrow> nat list" where
  "depths_of d [] = []"
| "depths_of d (x # xs) = replicate x d @ depths_of (d + 1) xs"

definition weighted_depths :: "rat list \<Rightarrow> nat list \<Rightarrow> rat" where
  "weighted_depths as es = sum_list (map2 (\<lambda>a e. a * of_nat e) as es)"

lemma weighted_depths_Cons [simp]: "weighted_depths (a # as) (e # es) = a * of_nat e + weighted_depths as es"
  by (simp add: weighted_depths_def)

lemma weighted_depths_replicate:
  "weighted_depths as (replicate x d @ es) = sum_list (take x as) * of_nat d + weighted_depths (drop x as) es"
proof (induction x arbitrary: as)
  case (Suc x)
  then show ?case by (cases as) (simp_all add: weighted_depths_def distrib_right)
qed simp

lemma profile_cost_depths: "profile_cost d as xs = weighted_depths as (depths_of d xs)"
  by (induction xs arbitrary: d as) (simp_all add: weighted_depths_replicate weighted_depths_def [of _ "[]"])

lemma depths_of_lower: "e \<in> set (depths_of d xs) \<Longrightarrow> d \<le> e"
  by (induction xs arbitrary: d) fastforce+

lemma sorted_depths_of: "sorted (depths_of d xs)"
  using depths_of_lower by (induction xs arbitrary: d) (fastforce simp: sorted_append)+

lemma length_depths_of: "length (depths_of d xs) = sum_list xs"
  by (induction xs arbitrary: d) auto

text \<open>Rearrangement: the largest weights on the smallest depths is the least sum.\<close>

lemma exchange_le:
  assumes "(b::rat) \<le> a" and "d \<le> (e::nat)"
  shows "a * of_nat d + b * of_nat e \<le> a * of_nat e + b * of_nat d"
proof -
  have "0 \<le> (a - b) * (of_nat e - of_nat d)" using assms by (intro mult_nonneg_nonneg) auto
  then show ?thesis by (simp add: algebra_simps)
qed

lemma rearrangement:
  assumes "sorted (rev as)" and "sorted es" and "mset (map fst ps) = mset as" and "mset (map snd ps) = mset es"
  shows "weighted_depths as es \<le> sum_list (map (\<lambda>(a, e). a * of_nat e) ps)"
  using assms
proof (induction as arbitrary: es ps)
  case Nil
  then show ?case by (simp add: weighted_depths_def)
next
  case (Cons a as)
  have "length es = length (a # as)"
    using Cons.prems(3,4) by (metis length_map size_mset)
  then obtain d ds where es: "es = d # ds" by (cases es) auto
  let ?f = "\<lambda>(a, e). a * of_nat e :: rat"
  have low: "\<forall>b \<in> set (a # as). b \<le> a" using Cons.prems(1) by (auto simp: sorted_append)
  have least: "\<forall>e \<in> set es. d \<le> e" using Cons.prems(2) es by auto
  have members: "set (map fst ps) = set (a # as)" "set (map snd ps) = set es"
    using Cons.prems(3,4) by (metis set_mset_mset)+
  have "sorted (rev as)" "sorted ds" using Cons.prems(1,2) es by (simp_all add: sorted_append)
  note IH = Cons.IH [OF this]
  show ?case
  proof (cases "(a, d) \<in> set ps")
    case True
    then obtain us vs where ps: "ps = us @ (a, d) # vs" by (meson split_list)
    then have "weighted_depths as ds \<le> sum_list (map ?f (us @ vs))"
      using Cons.prems(3,4) es by (intro IH) simp_all
    then show ?thesis unfolding es ps by simp
  next
    case False
    have "a \<in> set (map fst ps)" "d \<in> set (map snd ps)" using members es by simp_all
    then obtain e b where "(a, e) \<in> set ps" "(b, d) \<in> set ps" by force
    then obtain us vs where "ps = us @ (a, e) # vs" "(b, d) \<in> set (us @ vs)"
      using False by (metis (no_types, lifting) Un_iff in_set_conv_decomp prod.inject set_ConsD set_append)
    then obtain xs ys where s: "ps = us @ (a, e) # vs" "us @ vs = xs @ (b, d) # ys" by (meson split_list)
    have whole: "mset ps = {#(a, e), (b, d)#} + mset (xs @ ys)"
    proof -
      have "mset ps = {#(a, e)#} + mset (us @ vs)" using s(1) by simp
      then show ?thesis unfolding s(2) by simp
    qed
    have sums: "sum_list (map ?f ps) = a * of_nat e + b * of_nat d + sum_list (map ?f (xs @ ys))"
      by (simp add: whole flip: sum_mset_sum_list)
    have parts: "mset (map fst ps) = {#a, b#} + mset (map fst (xs @ ys))" "mset (map snd ps) = {#e, d#} + mset (map snd (xs @ ys))"
      by (simp_all add: whole)
    have "weighted_depths as ds \<le> sum_list (map ?f ((b, e) # xs @ ys))"
      using Cons.prems(3,4) es parts by (intro IH) simp_all
    moreover have "a * of_nat d + b * of_nat e \<le> a * of_nat e + b * of_nat d"
    proof (rule exchange_le)
      have "b \<in> set (map fst ps)" "e \<in> set (map snd ps)" using parts by (metis add_mset_add_single in_multiset_in_set multi_member_this union_iff union_mset_add_mset_left)+
      then show "b \<le> a" "d \<le> e" using low least members by auto
    qed
    ultimately show ?thesis unfolding es sums by simp
  qed
qed

text \<open>The levels of a forest.\<close>

fun own_leaf :: "ktree \<Rightarrow> nat list" where
  "own_leaf (KLeaf n) = [n]"
| "own_leaf (KNode ts) = []"

fun kids :: "ktree \<Rightarrow> ktree list" where
  "kids (KLeaf n) = []"
| "kids (KNode ts) = ts"

lemma length_own_leaf: "length (own_leaf t) = (if own_leaf t = [] then 0 else 1)"
  by (cases t) auto

lemma forest_level:
  "mset (concat (map (leaf_depths d) ts)) =
     mset (map (\<lambda>n. (n, d)) (concat (map own_leaf ts))) + mset (concat (map (leaf_depths (d + 1)) (concat (map kids ts))))"
proof (induction ts)
  case (Cons t ts)
  then show ?case by (cases t) simp_all
qed simp

lemma forest_kids:
  "\<forall>t \<in> set ts. arity_at_most K t \<Longrightarrow>
     length (concat (map kids ts)) + length (concat (map own_leaf ts)) * K \<le> length ts * K
     \<and> (\<forall>t \<in> set (concat (map kids ts)). arity_at_most K t)"
proof (induction ts)
  case (Cons t ts)
  then show ?case by (cases t) auto
qed simp

lemma forest_size: "sum_list (map size (concat (map kids ts))) \<le> sum_list (map size ts)
   \<and> (t \<in> set ts \<and> own_leaf t = [] \<longrightarrow> sum_list (map size (concat (map kids ts))) < sum_list (map size ts))"
proof (induction ts)
  case (Cons t ts)
  then show ?case by (cases t) (auto simp: size_list_conv_sum_list sum_list_Suc)
qed simp

lemma forest_profile:
  assumes "length ts \<le> b" and "\<forall>t \<in> set ts. arity_at_most K t"
  shows "\<exists>ys. fits_profile K b (length (concat (map (leaf_depths d) ts))) ys
    \<and> mset (map snd (concat (map (leaf_depths d) ts))) = mset (depths_of d ys)"
  using assms
proof (induction "sum_list (map size ts)" arbitrary: ts b d rule: less_induct)
  case less
  let ?x = "length (concat (map own_leaf ts))" and ?us = "concat (map kids ts)"
  have here: "mset (map snd (concat (map (leaf_depths d) ts))) =
      mset (replicate ?x d) + mset (map snd (concat (map (leaf_depths (d + 1)) ?us)))"
  proof -
    have "mset (map snd (concat (map (leaf_depths d) ts))) = image_mset snd (mset (concat (map (leaf_depths d) ts)))" by simp
    also have "\<dots> = image_mset snd (mset (map (\<lambda>n. (n, d)) (concat (map own_leaf ts)))) + image_mset snd (mset (concat (map (leaf_depths (d + 1)) ?us)))"
      unfolding forest_level [of d ts] by (rule image_mset_union)
    finally show ?thesis by (simp add: comp_def map_replicate_const flip: mset_map)
  qed
  then have len: "length (concat (map (leaf_depths d) ts)) = ?x + length (concat (map (leaf_depths (d + 1)) ?us))"
    by (metis length_map length_replicate size_mset size_union)
  show ?case
  proof (cases "\<forall>t \<in> set ts. own_leaf t \<noteq> []")
    case True
    have one: "own_leaf t \<noteq> [] \<Longrightarrow> kids t = [] \<and> length (own_leaf t) = 1" for t by (cases t) auto
    have us: "?us = []" and x: "?x = length ts" using True one by (induction ts) auto
    have "length (concat (map (leaf_depths d) ts)) = ?x" "mset (map snd (concat (map (leaf_depths d) ts))) = mset (depths_of d [?x])"
      using here len unfolding us by simp_all
    then show ?thesis using less.prems(1) x by (intro exI [of _ "[?x]"]) simp
  next
    case False
    then obtain t where t: "t \<in> set ts" "own_leaf t = []" by auto
    have x: "?x < length ts" using t
    proof (induction ts)
      case (Cons u us)
      have "length (concat (map own_leaf us)) \<le> length us"
        by (induction us) (auto simp: length_own_leaf)
      with Cons show ?case using length_own_leaf [of u] by auto
    qed simp
    have "length ?us \<le> (b - ?x) * K"
    proof -
      have "length ?us + ?x * K \<le> b * K"
        using forest_kids [OF less.prems(2)] mult_le_mono1 [OF less.prems(1), of K] by (meson le_trans)
      then show ?thesis by (simp add: diff_mult_distrib)
    qed
    from less.hyps [OF _ this, of "d + 1"] forest_size [of ts t] t forest_kids [OF less.prems(2)] obtain ys where
      ys: "fits_profile K ((b - ?x) * K) (length (concat (map (leaf_depths (d + 1)) ?us))) ys"
        "mset (map snd (concat (map (leaf_depths (d + 1)) ?us))) = mset (depths_of (d + 1) ys)" by blast
    then have "fits_profile K b (length (concat (map (leaf_depths d) ts))) (?x # ys)"
      using x less.prems(1) len by (cases ys) simp_all
    moreover have "mset (map snd (concat (map (leaf_depths d) ts))) = mset (depths_of d (?x # ys))"
      using here ys(2) by simp
    ultimately show ?thesis by blast
  qed
qed

text \<open>Every profile that fits is that of a tree.\<close>

lemma chunks_exist:
  "0 < K \<Longrightarrow> length fs \<le> m * K \<Longrightarrow> \<exists>us. length us \<le> m \<and> concat us = fs \<and> (\<forall>u \<in> set us. u \<noteq> [] \<and> length u \<le> K)"
proof (induction m arbitrary: fs)
  case (Suc m)
  show ?case
  proof (cases "fs = []")
    case False
    have "length (drop K fs) \<le> m * K" using Suc.prems(2) by simp
    from Suc.IH [OF Suc.prems(1) this] obtain us where
      us: "length us \<le> m" "concat us = drop K fs" "\<forall>u \<in> set us. u \<noteq> [] \<and> length u \<le> K" by blast
    with False Suc.prems(1) show ?thesis by (intro exI [of _ "take K fs # us"]) auto
  qed (rule exI [of _ "[]"], simp)
qed simp

lemma profile_forest:
  assumes "0 < K" and "length cs = n" and "fits_profile K b n xs"
  shows "\<exists>ts. length ts \<le> b \<and> (\<forall>t \<in> set ts. arity_at_most K t)
    \<and> mset (concat (map (leaf_depths d) ts)) = mset (zip cs (depths_of d xs))"
  using assms
proof (induction K b n xs arbitrary: cs d rule: fits_profile.induct)
  case (2 K b n x)
  then have "concat (map (leaf_depths d) (map KLeaf cs)) = zip cs (replicate x d)"
    by (simp add: zip_replicate2 comp_def)
  with 2 show ?case by (intro exI [of _ "map KLeaf cs"]) auto
next
  case (3 K b n x y xs)
  let ?here = "take x cs" and ?rest = "drop x cs"
  from 3 obtain ts where ts: "length ts \<le> (b - x) * K" "\<forall>t \<in> set ts. arity_at_most K t"
    "mset (concat (map (leaf_depths (d + 1)) ts)) = mset (zip ?rest (depths_of (d + 1) (y # xs)))"
    using 3(1) [of ?rest "d + 1"] by fastforce
  from chunks_exist [OF 3(2) ts(1)] obtain us where us: "length us \<le> b - x" "concat us = ts"
    "\<forall>u \<in> set us. u \<noteq> [] \<and> length u \<le> K" by blast
  let ?ts = "map KLeaf ?here @ map KNode us"
  have x: "x \<le> length cs" "x < b" using 3(3,4) by simp_all
  have "length ?ts \<le> b" using us(1) x by simp
  moreover have "\<forall>t \<in> set ?ts. arity_at_most K t" using us(2,3) ts(2) by auto
  moreover have "mset (concat (map (leaf_depths d) ?ts)) = mset (zip cs (depths_of d (x # y # xs)))"
  proof -
    have low: "concat (map (leaf_depths d) (map KNode us)) = concat (map (leaf_depths (d + 1)) ts)"
      unfolding us(2) [symmetric] by (induction us) simp_all
    have "concat (map (leaf_depths d) (map KLeaf ?here)) = zip ?here (replicate x d)"
      using x by (simp add: zip_replicate2 comp_def)
    moreover have "zip cs (depths_of d (x # y # xs)) = zip ?here (replicate x d) @ zip ?rest (depths_of (d + 1) (y # xs))"
      using x by (simp add: zip_append2)
    ultimately show ?thesis using low ts(3) by simp
  qed
  ultimately show ?case by blast
qed simp


text \<open>The profile without its dummies fits a tree, and costs no more than any other that does.\<close>

lemma fits_without_dummies:
  "fits_profile K b (n + P) (add_dummies P xs) \<Longrightarrow> xs \<noteq> [] \<Longrightarrow> sum_list xs = n \<Longrightarrow> fits_profile K b n xs"
proof (induction xs arbitrary: b n)
  case (Cons x xs)
  show ?case
  proof (cases xs)
    case Nil
    with Cons.prems show ?thesis by simp
  next
    case (Cons y ys)
    obtain z zs where z: "add_dummies P (y # ys) = z # zs"
      by (metis add_dummies_def list.exhaust list_update_nonempty list.distinct(1))
    have "fits_profile K ((b - x) * K) (n - x + P) (add_dummies P xs)"
      using Cons.prems z local.Cons by simp
    from Cons.IH [OF this] Cons.prems local.Cons z show ?thesis by simp
  qed
qed simp

lemma dp_profile_fits:
  assumes "length clients + P = K + (length clients - 2) div (K - 1) * (K - 1)"
    and "cl = sort_desc (\<lambda>c. latency (H c)) clients"
    and "best K 1 ((length clients - 2) div (K - 1)) K
      (map (\<lambda>c. latency (H c)) cl @ replicate P 0) = Some (c, add_dummies P nl)"
    and "sum_list nl = length clients" and "nl \<noteq> []"
  shows "fits_profile K K (length clients) nl"
proof (rule fits_without_dummies [OF _ assms(5,4)])
  have "length (map (\<lambda>c. latency (H c)) cl @ replicate P 0) = length clients + P" by (simp add: assms(2))
  then show "fits_profile K K (length clients + P) (add_dummies P nl)" using best_profile [OF assms(3)] by metis
qed

lemma dp_profile_least:
  assumes "2 \<le> K" and "\<forall>c \<in> set clients. 0 \<le> latency (H c)"
    and "P \<le> K - 2" and "length clients + P = K + (length clients - 2) div (K - 1) * (K - 1)"
    and "cl = sort_desc (\<lambda>c. latency (H c)) clients"
    and "best K 1 ((length clients - 2) div (K - 1)) K
      (map (\<lambda>c. latency (H c)) cl @ replicate P 0) = Some (c, add_dummies P nl)"
    and "sum_list nl = length clients" and "nl \<noteq> []"
    and "fits_profile K K (length clients) ys"
  shows "profile_cost 1 (map (\<lambda>c. latency (H c)) cl) nl \<le> profile_cost 1 (map (\<lambda>c. latency (H c)) cl) ys"
proof -
  let ?as = "map (\<lambda>c. latency (H c)) cl" and ?q = "(length clients - 2) div (K - 1)"
  have nn: "\<forall>a \<in> set (?as @ replicate P 0). 0 \<le> a" using assms(2,5) by auto
  have len: "length ?as = length clients" using assms(5) by simp
  have ys: "sum_list ys = length clients" "ys \<noteq> []"
    using fits_profile_sum [OF assms(9)] assms(9) by auto
  have "int (length clients) + int P = int K + int ?q * (int K - 1)"
  proof -
    have "int (length clients + P) = int (K + ?q * (K - 1))" by (simp only: assms(4))
    then show ?thesis using assms(1) by (simp add: of_nat_diff)
  qed
  from fits_add_dummies [OF assms(9,1,3) this]
  have "fits_profile K K (length (?as @ replicate P 0)) (add_dummies P ys)" using len by simp
  from best_deeper [OF assms(1) _ nn _ this assms(6)] assms(1,4) len
  have "c \<le> profile_cost 1 (?as @ replicate P 0) (add_dummies P ys)" by simp
  then show ?thesis
    using best_profile [OF assms(6)] profile_cost_dummies [of nl ?as 1 P] profile_cost_dummies [of ys ?as 1 P]
      assms(7,8) ys len by simp
qed

lemma fitting_tree:
  assumes "0 < K" and "cs \<noteq> []" and "fits_profile K K (length cs) xs"
  obtains t where "arity_at_most K t" and "mset (leaf_depths 0 t) = mset (zip cs (depths_of 1 xs))"
proof -
  from profile_forest [OF assms(1) refl assms(3), of 1] obtain ts where
    ts: "length ts \<le> K" "\<forall>t \<in> set ts. arity_at_most K t"
      "mset (concat (map (leaf_depths 1) ts)) = mset (zip cs (depths_of 1 xs))" by blast
  have "length (zip cs (depths_of 1 xs)) = length cs"
    using fits_profile_sum [OF assms(3)] by (simp add: length_depths_of)
  then have "ts \<noteq> []" using ts(3) assms(2) by auto
  with ts that [of "KNode ts"] show ?thesis by simp
qed

text \<open>The sum of latency times depth over the leaves of a tree of clients, the root at depth 0.\<close>

definition tree_latency :: "sp_store \<Rightarrow> ktree \<Rightarrow> rat" where
  "tree_latency H t = sum_list (map (\<lambda>(c, e). latency (H c) * of_nat e) (leaf_depths 0 t))"

lemma tree_latency_mset:
  "mset (leaf_depths 0 t) = mset ps \<Longrightarrow> tree_latency H t = sum_list (map (\<lambda>(c, e). latency (H c) * of_nat e) ps)"
  by (simp add: tree_latency_def flip: sum_mset_sum_list)

lemma placed_latency:
  "sum_list (map (\<lambda>(c, e). latency (H c) * of_nat e) (zip cl es)) = weighted_depths (map (\<lambda>c. latency (H c)) cl) es"
  by (simp add: weighted_depths_def zip_map1 comp_def case_prod_unfold)

lemma sorted_profile_least:
  assumes "sorted (rev (map (\<lambda>c. latency (H c)) cl))" and "2 \<le> length cl"
    and "arity_at_most K t" and "mset (map fst (leaf_depths 0 t)) = mset cl"
  obtains ys where "fits_profile K K (length cl) ys"
    and "profile_cost 1 (map (\<lambda>c. latency (H c)) cl) ys \<le> tree_latency H t"
proof -
  let ?lat = "\<lambda>c. latency (H c)" and ?ps = "leaf_depths 0 t"
  have len: "length ?ps = length cl" using assms(4) by (metis length_map size_mset)
  obtain ts where t: "t = KNode ts" using len assms(2) by (cases t) auto
  from forest_profile [of ts K K 1] assms(3) obtain ys where
    ys: "fits_profile K K (length ?ps) ys" "mset (map snd ?ps) = mset (depths_of 1 ys)" by (auto simp: t)
  let ?ws = "map (\<lambda>(c, e). (?lat c, e)) ?ps"
  have "mset (map fst ?ws) = mset (map ?lat cl)"
  proof -
    have "map fst ?ws = map ?lat (map fst ?ps)" by auto
    then show ?thesis using assms(4) by (metis mset_map)
  qed
  moreover have "mset (map snd ?ws) = mset (depths_of 1 ys)"
  proof -
    have "map snd ?ws = map snd ?ps" by auto
    then show ?thesis using ys(2) by metis
  qed
  ultimately have "weighted_depths (map ?lat cl) (depths_of 1 ys) \<le> sum_list (map (\<lambda>(a, e). a * of_nat e) ?ws)"
    by (rule rearrangement [OF assms(1) sorted_depths_of])
  also have "\<dots> = tree_latency H t" by (simp add: tree_latency_def comp_def case_prod_unfold)
  finally show ?thesis using that ys(1) unfolding len profile_cost_depths by simp
qed

text \<open>
  C3: The tree the dynamic program describes is the cheapest of all: the clients it returns, placed in their
  order on the levels below the root as the leaf counts say, are the leaves of a tree in which no node has more than
  \<open>treeKary\<close> children, and no tree of this arity with these clients as its leaves, of whatever depth and with the
  clients in whatever places, has a smaller sum of latency times depth.
\<close>

theorem constructTreeTopologyUsingDP_optimal:
  assumes "2 \<le> K" and "2 \<le> length clients" and "\<forall>c \<in> set clients. 0 \<le> latency (H c)"
    and "constructTreeTopologyUsingDP H clients K = Inr (cl, map int nl, ni)"
  shows "\<exists>t. arity_at_most K t \<and> mset (leaf_depths 0 t) = mset (zip cl (depths_of 1 nl))
    \<and> mset (map fst (leaf_depths 0 t)) = mset clients
    \<and> (\<forall>t'. arity_at_most K t' \<and> mset (map fst (leaf_depths 0 t')) = mset clients \<longrightarrow>
         tree_latency H t \<le> tree_latency H t')"
proof (rule dp_topology_profile [OF assms])
  fix nl' P c
  let ?q = "(length clients - 2) div (K - 1)"
  let ?lat = "\<lambda>c. latency (H c)"
  let ?as = "map ?lat cl"
  assume same: "map int nl = map int nl'"
    and P: "P \<le> K - 2" "length clients + P = K + ?q * (K - 1)"
    and cl: "cl = sort_desc ?lat clients"
    and best': "best K 1 ?q K (?as @ replicate P 0) = Some (c, add_dummies P nl')"
    and nl': "sum_list nl' = length clients" "nl' \<noteq> []"
  have "nl = nl'" using map_injective [OF same] by (simp add: inj_def)
  note best = best' [folded this] and nl = nl' [folded this]
  have len: "length cl = length clients" "mset cl = mset clients" using cl by simp_all
  note least = dp_profile_least [OF assms(1,3) P cl best nl]
  obtain t where t: "arity_at_most K t" "mset (leaf_depths 0 t) = mset (zip cl (depths_of 1 nl))"
  proof -
    have "0 < K" "cl \<noteq> []" using assms(1,2) len(1) by auto
    from fitting_tree [OF this dp_profile_fits [OF P(2) cl best nl, folded len(1)]] that show ?thesis by blast
  qed
  have "mset (map fst (leaf_depths 0 t)) = mset (map fst (zip cl (depths_of 1 nl)))" using t(2) by (metis mset_map)
  then have leaves: "mset (map fst (leaf_depths 0 t)) = mset clients" using len nl(1) by (simp add: length_depths_of)
  have cost: "tree_latency H t = profile_cost 1 ?as nl"
    unfolding tree_latency_mset [OF t(2)] placed_latency profile_cost_depths ..
  have "tree_latency H t \<le> tree_latency H t'"
    if t': "arity_at_most K t'" "mset (map fst (leaf_depths 0 t')) = mset clients" for t'
  proof (rule sorted_profile_least [of H cl K t'])
    show "sorted (rev (map ?lat cl))" using cl by (simp add: sorted_sort_desc)
    fix ys
    assume "fits_profile K K (length cl) ys" "profile_cost 1 ?as ys \<le> tree_latency H t'"
    with least [of ys] len cost show ?thesis by simp
  qed (use t' len assms(2) in simp_all)
  with t leaves show ?thesis by blast
qed

definition topology_example :: sp_store where
  "topology_example i = mk_Scratchpad [] i [] [] \<lparr>latency := of_nat ((i * 3) mod 7)\<rparr>"

lemma topology_example_dp:
  "constructTreeTopologyUsingDP topology_example [0, 1, 2] 2 = Inr ([2, 1, 0], map int [1, 2], [1])"
  by code_simp

theorem constructTreeTopologyUsingDP_full_witness:
  "\<exists>cl nl ni P. constructTreeTopologyUsingDP topology_example [0, 1, 2] 2 = Inr (cl, map int nl, ni)
    \<and> mset cl = mset [0, 1, 2] \<and> sorted (rev (map (\<lambda>c. latency (topology_example c)) cl))
    \<and> sum_list nl = length [0::nat, 1, 2]
    \<and> P \<le> 2 - 2 \<and> full_profile 2 2 (add_dummies P nl) \<and> ni = inner_counts 2 2 (add_dummies P nl)"
  by (rule constructTreeTopologyUsingDP_full) (simp_all add: topology_example_def mk_Scratchpad_def)

theorem constructTreeTopologyUsingDP_optimal_witness:
  "\<exists>t. arity_at_most 2 t \<and> mset (leaf_depths 0 t) = mset (zip [2, 1, 0] (depths_of 1 [1, 2]))
    \<and> mset (map fst (leaf_depths 0 t)) = mset [0, 1, 2]
    \<and> (\<forall>t'. arity_at_most 2 t' \<and> mset (map fst (leaf_depths 0 t')) = mset [0, 1, 2] \<longrightarrow>
         tree_latency topology_example t \<le> tree_latency topology_example t')"
  by (rule constructTreeTopologyUsingDP_optimal [OF _ _ _ topology_example_dp])
    (simp_all add: topology_example_def mk_Scratchpad_def)

section \<open>The balanced tree\<close>

lemma clog_bounds: "2 \<le> K \<Longrightarrow> n \<le> K ^ clog K n \<and> (1 < n \<longrightarrow> 0 < clog K n \<and> K ^ (clog K n - 1) < n)"
proof (induction K n rule: clog.induct)
  case (1 K n)
  show ?case
  proof (cases "n \<le> 1")
    case True
    then show ?thesis by (simp add: clog.simps)
  next
    case False
    let ?m = "(n + K - 1) div K"
    from False 1(2) have step: "clog K n = Suc (clog K ?m)" by (subst clog.simps) simp
    from 1 False have IH: "?m \<le> K ^ clog K ?m" "1 < ?m \<Longrightarrow> 0 < clog K ?m \<and> K ^ (clog K ?m - 1) < ?m"
      by auto
    have n: "n \<le> ?m * K" "(?m - 1) * K < n"
    proof -
      have m: "n + K - 1 = ?m * K + (n + K - 1) mod K" by (rule div_mult_mod_eq [symmetric])
      have lt: "(n + K - 1) mod K < K" using 1(2) by simp
      have "(?m - 1) * K = ?m * K - K" by (simp add: diff_mult_distrib)
      with m lt 1(2) False show "n \<le> ?m * K" "(?m - 1) * K < n" by linarith+
    qed
    have "?m * K \<le> K ^ clog K ?m * K" using IH(1) by (rule mult_le_mono1)
    with n(1) have up: "n \<le> K ^ Suc (clog K ?m)" unfolding power_Suc2 by (rule le_trans)
    have "K ^ clog K ?m < n"
    proof (cases "1 < ?m")
      case True
      with IH(2) obtain k where k: "clog K ?m = Suc k" "K ^ k \<le> ?m - 1"
        by (cases "clog K ?m") auto
      have "K ^ k * K \<le> (?m - 1) * K" using k(2) by (rule mult_le_mono1)
      then have "K ^ clog K ?m \<le> (?m - 1) * K" using k(1) by (simp only: power_Suc2)
      with n(2) show ?thesis by simp
    next
      case False
      then have "clog K ?m = 0" by (subst clog.simps) simp
      then show ?thesis using \<open>\<not> n \<le> 1\<close> by simp
    qed
    with up step show ?thesis by simp
  qed
qed

lemma balance_loop_returns:
  assumes "0 < K" and "tot \<le> cap * K" and "ret = tot - upper" and "internals = cdiv ret K"
    and "0 \<le> upper" and "upper \<le> cap" and "cap \<le> upper + internals"
  shows "\<exists>u r i. balance_loop K cap tot upper ret internals = Some (u, r, i)
    \<and> 0 \<le> u \<and> u + i = cap \<and> r = tot - u \<and> i = cdiv r K \<and> u \<le> upper"
  using assms
proof (induction "nat upper" arbitrary: upper ret internals rule: less_induct)
  case less
  show ?case
  proof (cases "upper + internals > cap")
    case False
    then show ?thesis
      using less.prems by (subst balance_loop.simps) auto
  next
    case True
    let ?u = "cap - internals"
    have "internals \<le> cap"
      using less.prems by (simp add: cdiv_le_iff)
    then have u: "0 \<le> ?u" "?u < upper" "?u \<le> cap" using True less.prems(6) by simp_all
    have "internals \<le> cdiv (tot - ?u) K"
      using less.prems u(2) by (simp add: cdiv_mono)
    then have up: "cap \<le> ?u + cdiv (tot - ?u) K" by simp
    have "nat ?u < nat upper" using u by simp
    from less.hyps [OF this less.prems(1,2) refl refl u(1,3) up] True u(2)
    show ?thesis by (subst balance_loop.simps) (auto simp: Let_def intro: order.trans less_imp_le)
  qed
qed

lemma replicate_two: "replicate (Suc (Suc e)) x = replicate e x @ [x, x]"
  by (induction e) auto

lemma replicate_one: "replicate (Suc e) x = replicate e x @ [x]"
  by (induction e) auto

lemma constructBalancedTreeTopology_shape:
  assumes "2 \<le> K" and "K < length clients"
  obtains u r i where "constructBalancedTreeTopology H clients K = Some (Inr
      (sort_desc (\<lambda>c. latency (H c)) clients,
       map int (replicate (clog K (length clients) - 2) 0 @ [u, r]),
       replicate (clog K (length clients) - 2) K @ [i]))"
    and "u + i = K ^ (clog K (length clients) - 1)" and "u + r = length clients"
    and "int i = cdiv (int r) (int K)" and "2 \<le> clog K (length clients)"
proof -
  define n d where nd: "n = length clients" "d = clog K n"
  let ?cap = "int (K ^ (d - 1))"
  have b: "n \<le> K ^ d" "0 < d" "K ^ (d - 1) < n"
    using clog_bounds [OF assms(1), of n] assms by (simp_all add: nd)
  have d: "2 \<le> d"
  proof (rule ccontr)
    assume "\<not> 2 \<le> d"
    with b(2) have "d = 1" by simp
    with b(1) assms(2) show False by (simp add: nd(1))
  qed
  obtain e where e: "d = Suc (Suc e)" using le_Suc_ex [OF d] by auto
  have "n \<le> K ^ (d - 1) * K" using b(1,2) by (cases d) (simp_all add: mult.commute)
  then have "int n \<le> int (K ^ (d - 1) * K)" by (simp only: of_nat_le_iff)
  then have le: "int n \<le> ?cap * int K" by simp
  have "0 \<le> cdiv (int n - ?cap) (int K)"
    using b(3) assms(1) by (intro cdiv_nonneg) auto
  then obtain u r i where loop: "balance_loop (int K) ?cap (int n) ?cap (int n - ?cap)
      (cdiv (int n - ?cap) (int K)) = Some (u, r, i)"
    "0 \<le> u" "u + i = ?cap" "r = int n - u" "i = cdiv r (int K)" "u \<le> ?cap"
    using balance_loop_returns [of "int K" "int n" ?cap "int n - ?cap" ?cap] le assms(1) by auto
  have pos: "0 \<le> r" "0 \<le> i" using loop(4,6,3) b(3) by linarith+
  have "constructBalancedTreeTopology H clients K = Some (Inr
      (sort_desc (\<lambda>c. latency (H c)) clients,
       (replicate d 0)[d - 2 := u, d - 1 := r],
       (replicate (d - 1) K)[d - 2 := nat i]))"
    unfolding constructBalancedTreeTopology_def Let_def length_sort_desc nd(1) [symmetric]
      nd(2) [symmetric] loop(1) by simp
  moreover have "(replicate d 0)[d - 2 := u, d - 1 := r] = map int (replicate (d - 2) 0 @ [nat u, nat r])"
    unfolding e replicate_two using loop(2) pos(1) by (simp add: list_update_append)
  moreover have "(replicate (d - 1) K)[d - 2 := nat i] = replicate (d - 2) K @ [nat i]"
    unfolding e diff_Suc_1 replicate_one by (simp add: list_update_append)
  moreover have "nat u + nat i = K ^ (d - 1)" "nat u + nat r = n" "int (nat i) = cdiv (int (nat r)) (int K)"
    using loop(2-5) pos by (simp_all add: nat_eq_iff flip: nat_add_distrib)
  ultimately show ?thesis using that [of "nat u" "nat r" "nat i"] d unfolding nd by (simp only:)
qed

text \<open>
  When the clients do not fit on the root, the balanced topology's loop ends; every leaf is on
  one of the two bottom levels, the level above the bottom is filled by leaves and inner nodes,
  and the inner nodes of that level are just enough for the bottom leaves.
\<close>

theorem constructBalancedTreeTopology_returns:
  assumes "2 \<le> K" and "K < length clients"
  shows "\<exists>cl u r is i. constructBalancedTreeTopology H clients K =
      Some (Inr (cl, map int (replicate (length is) 0 @ [u, r]), is @ [i]))
    \<and> mset cl = mset clients \<and> u + r = length clients
    \<and> u + i = K ^ (length is + 1) \<and> r \<le> i * K \<and> i * K < r + K"
proof (rule constructBalancedTreeTopology_shape [OF assms, of H])
  fix u r i
  let ?d = "clog K (length clients)"
  let ?is = "replicate (?d - 2) K"
  assume t: "constructBalancedTreeTopology H clients K = Some (Inr
      (sort_desc (\<lambda>c. latency (H c)) clients, map int (replicate (?d - 2) 0 @ [u, r]), ?is @ [i]))"
    and s: "u + i = K ^ (?d - 1)" "u + r = length clients" "int i = cdiv (int r) (int K)" "2 \<le> ?d"
  have "int r \<le> int i * int K" "\<not> int r \<le> (int i - 1) * int K"
    using cdiv_le_iff [of "int K" "int r" "int i"] cdiv_le_iff [of "int K" "int r" "int i - 1"] s(3) assms(1)
    by simp_all
  then have "int r \<le> int (i * K)" "int (i * K) < int (r + K)"
    by (simp_all add: algebra_simps)
  then have "r \<le> i * K" "i * K < r + K" by (simp_all only: of_nat_le_iff of_nat_less_iff)
  moreover have "u + i = K ^ (length ?is + 1)"
  proof -
    have "?d - 1 = length ?is + 1" using s(4) by simp
    with s(1) show ?thesis by (simp only:)
  qed
  moreover have "mset (sort_desc (\<lambda>c. latency (H c)) clients) = mset clients" by simp
  moreover have "replicate (?d - 2) 0 @ [u, r] = replicate (length ?is) 0 @ [u, r]" by simp
  ultimately show ?thesis using t s(2) by metis
qed

text \<open>
  From the fourth level on the inner nodes are too few: with more than \<open>treeKary ^ 3\<close> clients
  the level above the bottom has more nodes than the inner nodes of the level before it can have
  as children.
\<close>

theorem constructBalancedTreeTopology_missing:
  assumes "2 \<le> K" and "K ^ 3 < length clients"
    and "constructBalancedTreeTopology H clients K = Some (Inr (cl, map int nl, ni))"
  shows "K * ni ! (length ni - 2) < nl ! (length nl - 2) + ni ! (length ni - 1)"
proof -
  have "K ^ 1 \<le> K ^ 3" using assms(1) by (intro power_increasing) auto
  then have lt: "K < length clients" using assms(2) by simp
  show ?thesis
  proof (rule constructBalancedTreeTopology_shape [OF assms(1) lt, of H])
    fix u r i
    let ?d = "clog K (length clients)"
    assume t: "constructBalancedTreeTopology H clients K = Some (Inr
        (sort_desc (\<lambda>c. latency (H c)) clients, map int (replicate (?d - 2) 0 @ [u, r]), replicate (?d - 2) K @ [i]))"
      and s: "u + i = K ^ (?d - 1)"
    have "K ^ 3 < K ^ ?d"
      using clog_bounds [OF assms(1), of "length clients"] assms(2) by simp
    then have "3 < ?d" using assms(1) by (simp add: power_strict_increasing_iff)
    have "K * K = K ^ 2" by (simp add: power2_eq_square)
    also have "\<dots> < K ^ (?d - 1)"
      using assms(1) \<open>3 < ?d\<close> by (intro power_strict_increasing) auto
    finally have kk: "K * K < u + i" using s by simp
    have "map int nl = map int (replicate (?d - 2) 0 @ [u, r])" and ni: "ni = replicate (?d - 2) K @ [i]"
      using t assms(3) by simp_all
    then have eqs: "nl = replicate (?d - 2) 0 @ [u, r]" "ni = replicate (?d - 2) K @ [i]"
      using map_injective [of int nl] by (simp_all add: inj_def)
    have "length ni - 2 < ?d - 2" using \<open>3 < ?d\<close> eqs(2) by simp
    then have "ni ! (length ni - 2) = K" unfolding eqs(2) by (simp add: nth_append)
    moreover have "ni ! (length ni - 1) = i" "nl ! (length nl - 2) = u"
      unfolding eqs by (simp_all add: nth_append)
    ultimately show ?thesis using kk by simp
  qed
qed

theorem constructBalancedTreeTopology_returns_witness:
  "\<exists>cl u r is i. constructBalancedTreeTopology topology_example [0, 1, 2] 2 =
      Some (Inr (cl, map int (replicate (length is) 0 @ [u, r]), is @ [i]))
    \<and> mset cl = mset [0, 1, 2] \<and> u + r = length [0::nat, 1, 2]
    \<and> u + i = 2 ^ (length is + 1) \<and> r \<le> i * 2 \<and> i * 2 < r + 2"
  by (rule constructBalancedTreeTopology_returns) simp_all

lemma topology_example_balanced:
  "constructBalancedTreeTopology topology_example [0..<9] 2 =
     Some (Inr ([2, 4, 6, 1, 8, 3, 5, 0, 7], map int [0, 0, 7, 2], [2, 2, 1]))"
proof -
  have "sort_desc (\<lambda>c. latency (topology_example c)) [0..<9] = [2, 4, 6, 1, 8, 3, 5, 0, 7]"
    by code_simp
  moreover have "clog 2 9 = 4" by code_simp
  moreover have "balance_loop 2 8 9 8 1 1 = Some (7, 2, 1)"
    by (simp add: balance_loop.simps cdiv_def)
  ultimately show ?thesis
    by (simp add: constructBalancedTreeTopology_def cdiv_def eval_nat_numeral)
qed

theorem constructBalancedTreeTopology_missing_witness:
  "2 * [2, 2, 1] ! 1 < [0, 0, 7, 2] ! 2 + [2, 2, 1::nat] ! 2"
  using constructBalancedTreeTopology_missing [OF _ _ topology_example_balanced] by simp

end
