(* ===== verification/TreeSolver.thy ===== *)
theory TreeSolver
  imports TreeTopology
begin

text \<open>
  \<^verbatim>\<open>lim_memory/remap-scratchpad/scratchpadTree.py\<close>, the rest of \<open>constructScratchpadTreeTopology\<close>: the choice
  between the ways to build a tree, and the one that states the tree as an integer program for the
  Gurobi solver.  The solver is not part of this repository: \<open>gurobi\<close> takes a program to the value of
  every variable (\<open>None\<close>: there is no solution), and what the code relies on is \<open>solver_ok\<close>.  What the
  solutions of the program are is the subject of theory SolverTrees.
\<close>

section \<open>The program\<close>

text \<open>\<open>z[n][d]\<close>: leaf \<open>n\<close> is at depth \<open>d\<close>; \<open>x[d]\<close> and \<open>y[d]\<close>: the leaves and the inner nodes at depth \<open>d\<close>.\<close>

datatype tree_var = ZVar nat nat | XVar nat | YVar nat

text \<open>
  A constraint is a sum of terms and its value; in the objective \<open>None\<close> is the weight infinity.  Variables
  are not negative, which is the default of the solver.
\<close>

record tree_program =
  tp_binary :: "tree_var list"
  tp_continuous :: "tree_var list"
  tp_constraints :: "((rat \<times> tree_var) list \<times> rat) list"
  tp_objective :: "(rat option \<times> tree_var) list"

definition leaf_depth_one :: "nat \<Rightarrow> nat \<Rightarrow> (rat \<times> tree_var) list \<times> rat" where
  "leaf_depth_one D n = (map (\<lambda>d. (1, ZVar n d)) [0..<D + 1], 1)"

definition leaf_count :: "nat \<Rightarrow> nat \<Rightarrow> (rat \<times> tree_var) list \<times> rat" where
  "leaf_count N d = (map (\<lambda>n. (1, ZVar n d)) [0..<N] @ [(- 1, XVar d)], 0)"

definition node_children :: "nat \<Rightarrow> nat \<Rightarrow> (rat \<times> tree_var) list \<times> rat" where
  "node_children K d = ([(1, YVar d), (1, XVar d), (- of_nat K, YVar (d - 1))], 0)"

definition tree_constraints :: "nat \<Rightarrow> nat \<Rightarrow> nat \<Rightarrow> ((rat \<times> tree_var) list \<times> rat) list" where
  "tree_constraints K D N =
     map (leaf_depth_one D) [0..<N] @ map (leaf_count N) [0..<D + 1] @ [([(1, YVar 0), (1, XVar 0)], 1)]
       @ map (node_children K) [1..<D + 1] @ [([(1, YVar D)], 0)]"

text \<open>\<open>weightFunc\<close>: leaf \<open>n\<close> is given by its list of weights.\<close>

definition weightFunc :: "rat list list \<Rightarrow> nat \<Rightarrow> nat \<Rightarrow> rat option res" where
  "weightFunc weights n d =
     (if d = 0 then Inr None
      else bindR (nth_res weights n) (\<lambda>ws. bindR (nth_res ws (d - 1)) (\<lambda>w. Inr (Some ((w - 1) * 1000)))))"

definition tree_objective :: "rat list list \<Rightarrow> nat \<Rightarrow> nat \<Rightarrow> (rat option \<times> tree_var) list res" where
  "tree_objective weights D N =
     mapR (\<lambda>(n, d). bindR (weightFunc weights n d) (\<lambda>w. Inr (w, ZVar n d))) (List.product [0..<N] [0..<D + 1])"

definition tree_model :: "nat \<Rightarrow> nat \<Rightarrow> rat list list \<Rightarrow> tree_program res" where
  "tree_model K D weights =
     (let N = length weights
      in bindR (tree_objective weights D N) (\<lambda>obj.
           Inr \<lparr>tp_binary = map (\<lambda>(n, d). ZVar n d) (List.product [0..<N] [0..<D + 1]),
                tp_continuous = map XVar [0..<D + 1] @ map YVar [0..<D + 1],
                tp_constraints = tree_constraints K D N, tp_objective = obj\<rparr>))"

section \<open>The topology of a solution\<close>

text \<open>
  \<open>sorted_clients\<close>: the leaves of each depth, with the dummies, which follow the clients, left out by
  their name.
\<close>

definition solved_clients :: "sp_store \<Rightarrow> nat list \<Rightarrow> nat \<Rightarrow> nat \<Rightarrow> (tree_var \<Rightarrow> rat) \<Rightarrow> nat list" where
  "solved_clients H clients D N s =
     concat (map (\<lambda>d. concat (map (\<lambda>n.
       if s (ZVar n d) = 1 \<and> n < length clients \<and> sp_id (H (clients ! n)) \<noteq> ''dummy'' then [clients ! n] else [])
       [0..<N])) [1..<D + 1])"

text \<open>
  \<open>None\<close> instead of a solution makes the read of the first \<open>x\<close> attribute fail; without a level there is no
  last one to take the dummies from.  The counts of inner nodes are only used as bounds of ranges.
\<close>

type_synonym gurobi = "(tree_program \<Rightarrow> (tree_var \<Rightarrow> rat) option) option"

text \<open>
  \<open>D\<close> before it is reduced to the number of weights, \<open>P\<close>, \<open>D\<close>, and the weights of the clients and the
  dummies.
\<close>

definition max_depth :: "nat \<Rightarrow> nat list \<Rightarrow> nat" where
  "max_depth K clients = (length clients - 2) div (K - 1) + 1"

definition num_dummies :: "nat \<Rightarrow> nat list \<Rightarrow> nat" where
  "num_dummies K clients = max_depth K clients * (K - 1) + 1 - length clients"

definition solver_depth :: "sp_store \<Rightarrow> nat \<Rightarrow> nat list \<Rightarrow> nat" where
  "solver_depth H K clients = min (max_depth K clients) (length (weightVals (H (hd clients))))"

definition leaf_weights :: "sp_store \<Rightarrow> nat \<Rightarrow> nat list \<Rightarrow> rat list list" where
  "leaf_weights H K clients =
     map (\<lambda>c. weightVals (H c)) clients @ replicate (num_dummies K clients) (replicate (solver_depth H K clients) 1)"

definition solved_topology :: "sp_store \<Rightarrow> nat \<Rightarrow> nat list \<Rightarrow> (tree_var \<Rightarrow> rat) \<Rightarrow> topology res" where
  "solved_topology H K clients s =
     (let D = solver_depth H K clients; P = num_dummies K clients; N = P + length clients;
          num_leaves = map (\<lambda>d. py_round (s (XVar d))) [1..<D + 1]
      in bindR (raise_if (num_leaves = []) IndexError) (\<lambda>_.
           Inr (solved_clients H clients D N s,
                num_leaves[length num_leaves - 1 := last num_leaves - int P],
                map (\<lambda>d. nat (py_round (s (YVar d)))) [1..<D])))"

definition constructTreeTopologyUsingGurobi :: "gurobi \<Rightarrow> sp_store \<Rightarrow> nat list \<Rightarrow> nat \<Rightarrow> topology res" where
  "constructTreeTopologyUsingGurobi gurobi H clients K =
     (if K = 1 then Inl ZeroDivisionError
      else (case gurobi of
              None \<Rightarrow> Inl (UnboundLocalError ''gurobipy'')
            | Some optimize \<Rightarrow>
                bindR (tree_model K (solver_depth H K clients) (leaf_weights H K clients)) (\<lambda>m.
                  (case optimize m of
                     None \<Rightarrow> Inl (AttributeError ''x'')
                   | Some s \<Rightarrow> solved_topology H K clients s))))"

text \<open>\<open>gurobi\<close> is \<open>None\<close> when \<open>gurobipy\<close> cannot be imported.\<close>

definition constructScratchpadTreeTopology :: "gurobi \<Rightarrow> sp_store \<Rightarrow> nat list \<Rightarrow> nat \<Rightarrow> nat \<Rightarrow> topology run" where
  "constructScratchpadTreeTopology gurobi H clients treeKary treeMode =
     (if length clients \<le> treeKary then Some (Inr (clients, [int (length clients)], []))
      else if gurobi = None \<and> treeMode = 0 \<or> weightVals (H (hd clients)) = [] \<and> treeMode = 0
        \<or> treeMode = 2 then Some (constructTreeTopologyUsingDP H clients treeKary)
      else if treeMode = 1 \<or> treeMode = 3 then constructBalancedTreeTopology H clients treeKary
      else Some (constructTreeTopologyUsingGurobi gurobi H clients treeKary))"

end
