(* ===== verification/SolverTrees.thy ===== *)
theory SolverTrees
  imports TreeSolver
begin

text \<open>
  What the integer program of \<open>constructScratchpadTreeTopology\<close> says: its solutions are the depths of the
  leaves of trees in which every inner node has \<open>treeKary\<close> children, and an optimal solution is a tree of
  least weight.  The specification is the datatype of trees of \<open>TreeTopology\<close>.
\<close>

section \<open>Trees\<close>

fun kary :: "nat \<Rightarrow> ktree \<Rightarrow> bool" where
  "kary K (KLeaf n) \<longleftrightarrow> True"
| "kary K (KNode ts) \<longleftrightarrow> length ts = K \<and> (\<forall>t \<in> set ts. kary K t)"

text \<open>The inner nodes \<open>d\<close> levels below the root.\<close>

fun inner_at :: "ktree \<Rightarrow> nat \<Rightarrow> nat" where
  "inner_at (KLeaf n) d = 0"
| "inner_at (KNode ts) 0 = 1"
| "inner_at (KNode ts) (Suc d) = sum_list (map (\<lambda>t. inner_at t d) ts)"

text \<open>\<open>t\<close> is a tree of arity \<open>K\<close> with the leaves \<open>0, \<dots>, N - 1\<close>, leaf \<open>n\<close> at depth \<open>dep n\<close>.\<close>

definition tree_shape :: "nat \<Rightarrow> nat \<Rightarrow> (nat \<Rightarrow> nat) \<Rightarrow> ktree \<Rightarrow> bool" where
  "tree_shape K N dep t \<longleftrightarrow> kary K t \<and> mset (leaf_depths 0 t) = mset (map (\<lambda>n. (n, dep n)) [0..<N])"

text \<open>The number of leaves at a depth, and what the levels of a tree satisfy.\<close>

definition leaves_at :: "nat \<Rightarrow> (nat \<Rightarrow> nat) \<Rightarrow> nat \<Rightarrow> nat" where
  "leaves_at N dep d = length (filter (\<lambda>n. dep n = d) [0..<N])"

definition levels :: "nat \<Rightarrow> nat \<Rightarrow> nat \<Rightarrow> (nat \<Rightarrow> nat) \<Rightarrow> (nat \<Rightarrow> nat) \<Rightarrow> bool" where
  "levels K D N dep y \<longleftrightarrow> leaves_at N dep 0 + y 0 = 1
     \<and> (\<forall>d<D. leaves_at N dep (Suc d) + y (Suc d) = K * y d) \<and> y D = 0 \<and> (\<forall>n<N. dep n \<le> D)"

abbreviation count_depth :: "nat \<Rightarrow> (nat \<times> nat) list \<Rightarrow> nat" where
  "count_depth d ls \<equiv> length (filter (\<lambda>(n, e). e = d) ls)"

lemma leaf_depths_lower: "(n, e) \<in> set (leaf_depths d t) \<Longrightarrow> d \<le> e"
  by (induction d t rule: leaf_depths.induct) fastforce+

lemma same_count: "mset xs = mset ys \<Longrightarrow> length (filter P xs) = length (filter P ys)"
  by (metis mset_filter size_mset)

lemma count_depth_concat: "count_depth d (concat xss) = sum_list (map (count_depth d) xss)"
  by (induction xss) auto

lemma kary_level:
  "kary K t \<Longrightarrow> count_depth (Suc (d + j)) (leaf_depths j t) + inner_at t (Suc d) = K * inner_at t d"
proof (induction t arbitrary: d j)
  case (KLeaf n)
  then show ?case by simp
next
  case (KNode ts)
  have sub: "count_depth (Suc (e + i)) (leaf_depths i t) + inner_at t (Suc e) = K * inner_at t e" if "t \<in> set ts" for t e i
    using KNode that by simp
  show ?case
  proof (cases d)
    case 0
    have "count_depth (Suc j) (leaf_depths (Suc j) t) + inner_at t 0 = 1" if "t \<in> set ts" for t
    proof (cases t)
      case (KNode us)
      have "filter (\<lambda>(n, e). e = Suc j) (leaf_depths (Suc j) t) = []"
        unfolding filter_empty_conv KNode using leaf_depths_lower by fastforce
      with KNode show ?thesis by simp
    qed simp
    then have "sum_list (map (\<lambda>t. count_depth (Suc j) (leaf_depths (Suc j) t) + inner_at t 0) ts) = length ts"
      by (simp add: sum_list_triv cong: map_cong)
    then show ?thesis using KNode.prems 0 by (simp add: count_depth_concat sum_list_addf comp_def)
  next
    case (Suc e)
    have "sum_list (map (\<lambda>t. count_depth (Suc (e + Suc j)) (leaf_depths (Suc j) t) + inner_at t (Suc e)) ts)
        = sum_list (map (\<lambda>t. K * inner_at t e) ts)"
      by (intro arg_cong [of _ _ sum_list] map_cong refl sub)
    then show ?thesis using Suc by (simp add: count_depth_concat sum_list_addf comp_def sum_list_const_mult)
  qed
qed

lemma inner_above: "\<forall>(n, e) \<in> set (leaf_depths j t). e \<le> j + d \<Longrightarrow> kary K t \<Longrightarrow> 0 < K \<Longrightarrow> inner_at t d = 0"
proof (induction t arbitrary: d j)
  case (KLeaf n)
  then show ?case by simp
next
  case (KNode ts)
  obtain t ts' where ts: "ts = t # ts'" using KNode.prems(2,3) by (cases ts) auto
  have deep: "\<exists>n e. (n, e) \<in> set (leaf_depths i u)" if "kary K u" for i u
    using that KNode.prems(3)
  proof (induction u arbitrary: i)
    case (KNode us)
    then obtain u us' where "us = u # us'" by (cases us) auto
    with KNode show ?case by fastforce
  qed auto
  show ?case
  proof (cases d)
    case 0
    obtain n e where "(n, e) \<in> set (leaf_depths (Suc j) t)" using deep [of t "Suc j"] KNode.prems(2) ts by auto
    then have "Suc j \<le> e" "(n, e) \<in> set (leaf_depths j (KNode ts))" using leaf_depths_lower ts by auto
    with KNode.prems(1) 0 show ?thesis by fastforce
  next
    case (Suc e)
    have "inner_at u e = 0" if "u \<in> set ts" for u
      using KNode.IH [OF that, of "Suc j" e] KNode.prems Suc that by auto
    then show ?thesis using Suc by (simp add: sum_list_eq_0_iff)
  qed
qed

text \<open>The levels of a tree.\<close>

lemma tree_levels:
  assumes "tree_shape K N dep t" and "0 < K" and "\<forall>n<N. dep n \<le> D"
  shows "levels K D N dep (inner_at t)"
proof -
  have k: "kary K t" and m: "mset (leaf_depths 0 t) = mset (map (\<lambda>n. (n, dep n)) [0..<N])"
    using assms(1) by (auto simp: tree_shape_def)
  have cnt: "count_depth d (leaf_depths 0 t) = leaves_at N dep d" for d
    using same_count [OF m, of "\<lambda>(n, e). e = d"] by (simp add: leaves_at_def filter_map comp_def)
  have "count_depth 0 (leaf_depths 0 t) + inner_at t 0 = 1"
  proof (cases t)
    case (KNode ts)
    have "filter (\<lambda>(n, e). e = 0) (leaf_depths 0 t) = []"
      unfolding filter_empty_conv KNode using leaf_depths_lower by fastforce
    with KNode show ?thesis by simp
  qed simp
  moreover have "leaves_at N dep (Suc d) + inner_at t (Suc d) = K * inner_at t d" for d
    using kary_level [OF k, of d 0] cnt by simp
  moreover have "set (leaf_depths 0 t) = (\<lambda>n. (n, dep n)) ` {0..<N}"
    using arg_cong [OF m, of set_mset] by simp
  then have "\<forall>(n, e) \<in> set (leaf_depths 0 t). e \<le> 0 + D" using assms(3) by auto
  then have "inner_at t D = 0" using inner_above k assms(2) by blast
  ultimately show ?thesis using assms(3) cnt by (simp add: levels_def)
qed

text \<open>Conversely, from the bottom up: the nodes and leaves of each level are grouped by \<open>K\<close>.\<close>

lemma group_by:
  "length ts = K * m \<Longrightarrow> \<exists>gs. concat gs = ts \<and> length gs = m \<and> (\<forall>g \<in> set gs. length g = K)"
proof (induction m arbitrary: ts)
  case (Suc m)
  then have "length (drop K ts) = K * m" by simp
  then obtain gs where "concat gs = drop K ts" "length gs = m" "\<forall>g \<in> set gs. length g = K"
    using Suc.IH by blast
  then show ?case using Suc.prems by (intro exI [of _ "take K ts # gs"]) auto
qed simp

lemma filter_levels:
  "mset (filter (\<lambda>(n, e). d \<le> e) ls) = mset (filter (\<lambda>(n, e). e = d) ls) + mset (filter (\<lambda>(n, e). Suc d \<le> e) ls)"
  by (induction ls) (auto simp: le_less Suc_le_eq)

lemma level_leaves:
  "concat (map (leaf_depths d) (map KLeaf (filter (\<lambda>n. dep n = d) ns))) = filter (\<lambda>(n, e). e = d) (map (\<lambda>n. (n, dep n)) ns)"
  by (induction ns) auto

lemma level_trees:
  assumes "levels K D N dep y" and "j \<le> D"
  shows "\<exists>ts. length ts = leaves_at N dep (D - j) + y (D - j) \<and> (\<forall>t \<in> set ts. kary K t) \<and>
    mset (concat (map (leaf_depths (D - j)) ts)) = mset (filter (\<lambda>(n, e). D - j \<le> e) (map (\<lambda>n. (n, dep n)) [0..<N]))"
  using assms(2)
proof (induction j)
  case 0
  have "D \<le> dep n \<longleftrightarrow> dep n = D" if "n < N" for n
    using assms(1) that by (auto simp: levels_def intro: le_antisym)
  then have "filter (\<lambda>(n, e). D \<le> e) (map (\<lambda>n. (n, dep n)) [0..<N]) = filter (\<lambda>(n, e). e = D) (map (\<lambda>n. (n, dep n)) [0..<N])"
    by (intro filter_cong) auto
  then show ?case
    using assms(1) level_leaves [of D dep "[0..<N]"]
    by (intro exI [of _ "map KLeaf (filter (\<lambda>n. dep n = D) [0..<N])"]) (auto simp: levels_def leaves_at_def)
next
  case (Suc j)
  define d where "d = D - Suc j"
  have d: "D - j = Suc d" "d < D" using Suc.prems by (simp_all add: d_def)
  let ?ls = "map (\<lambda>n. (n, dep n)) [0..<N]"
  obtain ts where ts: "length ts = K * y d" "\<forall>t \<in> set ts. kary K t"
    "mset (concat (map (leaf_depths (Suc d)) ts)) = mset (filter (\<lambda>(n, e). Suc d \<le> e) ?ls)"
    using Suc assms(1) d by (auto simp: levels_def)
  obtain gs where gs: "concat gs = ts" "length gs = y d" "\<forall>g \<in> set gs. length g = K" using group_by [OF ts(1)] by blast
  let ?us = "map KLeaf (filter (\<lambda>n. dep n = d) [0..<N]) @ map KNode gs"
  have "concat (map (leaf_depths d) (map KNode gs)) = concat (map (leaf_depths (Suc d)) ts)"
    unfolding gs(1) [symmetric] by (induction gs) auto
  moreover note level_leaves [of d dep "[0..<N]"]
  ultimately have "mset (concat (map (leaf_depths d) ?us)) = mset (filter (\<lambda>(n, e). d \<le> e) ?ls)"
    using ts(3) filter_levels [of d ?ls] by simp
  moreover have "\<forall>t \<in> set ?us. kary K t" using ts(2) gs by fastforce
  moreover have "length ?us = leaves_at N dep d + y d" using gs(2) by (simp add: leaves_at_def)
  ultimately show ?case unfolding d_def [symmetric] by blast
qed

text \<open>The number of inner nodes is what the levels say.\<close>

lemma levels_unique: "levels K D N dep y \<Longrightarrow> levels K D N dep y' \<Longrightarrow> d \<le> D \<Longrightarrow> y d = y' d"
proof (induction d)
  case 0
  then show ?case unfolding levels_def by linarith
next
  case (Suc d)
  then have "leaves_at N dep (Suc d) + y (Suc d) = K * y d" "leaves_at N dep (Suc d) + y' (Suc d) = K * y' d" "y d = y' d"
    by (auto simp: levels_def)
  then show ?case by (metis add_left_imp_eq)
qed

lemma levels_tree:
  assumes "levels K D N dep y" and "0 < K"
  obtains t where "tree_shape K N dep t" and "\<forall>d \<le> D. inner_at t d = y d"
proof -
  obtain ts where ts: "length ts = 1" "\<forall>t \<in> set ts. kary K t"
    "mset (concat (map (leaf_depths 0) ts)) = mset (filter (\<lambda>(n, e). 0 \<le> e) (map (\<lambda>n. (n, dep n)) [0..<N]))"
    using level_trees [OF assms(1) order_refl] assms(1) by (auto simp: levels_def)
  then obtain t where "ts = [t]" by (auto simp: length_Suc_conv)
  with ts have shape: "tree_shape K N dep t" by (simp add: tree_shape_def)
  then have "levels K D N dep (inner_at t)" using tree_levels assms by (auto simp: levels_def)
  then show ?thesis using that [OF shape] levels_unique assms(1) by blast
qed

section \<open>The solutions of the program\<close>

definition row_value :: "(tree_var \<Rightarrow> rat) \<Rightarrow> (rat \<times> tree_var) list \<Rightarrow> rat" where
  "row_value s ts = sum_list (map (\<lambda>(c, v). c * s v) ts)"

definition tree_feasible :: "tree_program \<Rightarrow> (tree_var \<Rightarrow> rat) \<Rightarrow> bool" where
  "tree_feasible p s \<longleftrightarrow> (\<forall>v \<in> set (tp_binary p). s v = 0 \<or> s v = 1) \<and> (\<forall>v \<in> set (tp_continuous p). 0 \<le> s v)
     \<and> (\<forall>(ts, b) \<in> set (tp_constraints p). row_value s ts = b)"

text \<open>A solution of finite cost does not use a variable of infinite weight.\<close>

definition finite_cost :: "tree_program \<Rightarrow> (tree_var \<Rightarrow> rat) \<Rightarrow> bool" where
  "finite_cost p s \<longleftrightarrow> (\<forall>(w, v) \<in> set (tp_objective p). w = None \<longrightarrow> s v = 0)"

definition tree_cost :: "tree_program \<Rightarrow> (tree_var \<Rightarrow> rat) \<Rightarrow> rat" where
  "tree_cost p s = sum_list (map (\<lambda>(w, v). case w of None \<Rightarrow> 0 | Some c \<Rightarrow> c * s v) (tp_objective p))"

text \<open>
  What the code relies on: the solver returns a solution of least cost, and none only if there is none of
  finite cost.
\<close>

definition solver_ok :: "(tree_program \<Rightarrow> (tree_var \<Rightarrow> rat) option) \<Rightarrow> tree_program \<Rightarrow> bool" where
  "solver_ok optimize p \<longleftrightarrow>
     (case optimize p of
        None \<Rightarrow> \<forall>s. \<not> (tree_feasible p s \<and> finite_cost p s)
      | Some s \<Rightarrow> tree_feasible p s \<and> finite_cost p s \<and>
          (\<forall>s'. tree_feasible p s' \<and> finite_cost p s' \<longrightarrow> tree_cost p s \<le> tree_cost p s'))"

text \<open>A solution that is the levels of a tree.\<close>

definition encodes :: "nat \<Rightarrow> nat \<Rightarrow> (nat \<Rightarrow> nat) \<Rightarrow> (nat \<Rightarrow> nat) \<Rightarrow> (tree_var \<Rightarrow> rat) \<Rightarrow> bool" where
  "encodes D N dep y s \<longleftrightarrow> (\<forall>n<N. \<forall>d\<le>D. s (ZVar n d) = (if dep n = d then 1 else 0)) \<and>
     (\<forall>d\<le>D. s (XVar d) = of_nat (leaves_at N dep d) \<and> s (YVar d) = of_nat (y d))"

lemma binary_sum:
  "\<forall>x \<in> set xs. f x = 0 \<or> f x = (1::rat) \<Longrightarrow> sum_list (map f xs) = of_nat (length (filter (\<lambda>x. f x = 1) xs))"
  by (induction xs) auto

lemma indicator_sum: "distinct xs \<Longrightarrow> k \<in> set xs \<Longrightarrow> sum_list (map (\<lambda>x. if k = x then f x else (0::rat)) xs) = f k"
proof (induction xs)
  case (Cons x xs)
  have "sum_list (map (\<lambda>x. if k = x then f x else 0) xs) = 0" if "k \<notin> set xs"
    using that by (induction xs) auto
  with Cons show ?case by auto
qed simp

lemma count_sum: "sum_list (map (\<lambda>n. if dep n = d then 1 else (0::rat)) [0..<N]) = of_nat (leaves_at N dep d)"
  unfolding leaves_at_def by (subst binary_sum) auto

lemma tree_model_fields:
  assumes "tree_model K D weights = Inr p"
  shows "set (tp_binary p) = {ZVar n d |n d. n < length weights \<and> d \<le> D}"
    and "set (tp_continuous p) = XVar ` {..D} \<union> YVar ` {..D}"
    and "tp_constraints p = tree_constraints K D (length weights)"
  using assms by (auto simp: tree_model_def Let_def bindR_eq_Inr image_iff less_Suc_eq_le)

definition leaf_weight :: "rat list list \<Rightarrow> nat \<Rightarrow> nat \<Rightarrow> rat" where
  "leaf_weight weights n d = (weights ! n ! (d - 1) - 1) * 1000"

definition long_weights :: "nat \<Rightarrow> rat list list \<Rightarrow> bool" where
  "long_weights D weights \<longleftrightarrow> (\<forall>ws \<in> set weights. D \<le> length ws)"

lemma tree_model_objective:
  assumes "long_weights D weights"
  obtains p where "tree_model K D weights = Inr p"
    and "tp_objective p = map (\<lambda>(n, d). (if d = 0 then None else Some (leaf_weight weights n d), ZVar n d))
      (List.product [0..<length weights] [0..<D + 1])"
proof -
  let ?f = "\<lambda>(n, d). (if d = 0 then None else Some (leaf_weight weights n d), ZVar n d)"
  have "tree_objective weights D (length weights) = Inr (map ?f (List.product [0..<length weights] [0..<D + 1]))"
    unfolding tree_objective_def
  proof (rule mapR_Inr_map)
    fix x assume "x \<in> set (List.product [0..<length weights] [0..<D + 1])"
    then obtain n d where x: "x = (n, d)" "n < length weights" "d < Suc D" by auto
    moreover from this have "D \<le> length (weights ! n)" using assms by (simp add: long_weights_def)
    then have "0 < d \<Longrightarrow> d - 1 < length (weights ! n)" using x(3) by linarith
    ultimately show "(case x of (n, d) \<Rightarrow> bindR (weightFunc weights n d) (\<lambda>w. Inr (w, ZVar n d))) = Inr (?f x)"
      by (simp add: weightFunc_def leaf_weight_def)
  qed
  then show ?thesis using that by (simp add: tree_model_def Let_def)
qed

lemma model_constraints:
  "(\<forall>(ts, b) \<in> set (tree_constraints K D N). row_value s ts = b) \<longleftrightarrow>
     (\<forall>n<N. sum_list (map (\<lambda>d. s (ZVar n d)) [0..<D + 1]) = 1) \<and>
     (\<forall>d\<le>D. sum_list (map (\<lambda>n. s (ZVar n d)) [0..<N]) = s (XVar d)) \<and>
     s (YVar 0) + s (XVar 0) = 1 \<and>
     (\<forall>d<D. s (YVar (Suc d)) + s (XVar (Suc d)) = of_nat K * s (YVar d)) \<and> s (YVar D) = 0"
proof -
  have rows: "row_value s (fst (leaf_depth_one D n)) = sum_list (map (\<lambda>d. s (ZVar n d)) [0..<D + 1])"
    "row_value s (fst (leaf_count N d)) = sum_list (map (\<lambda>n. s (ZVar n d)) [0..<N]) - s (XVar d)"
    "row_value s (fst (node_children K (Suc d))) = s (YVar (Suc d)) + s (XVar (Suc d)) - of_nat K * s (YVar d)" for n d
    by (simp_all add: row_value_def leaf_depth_one_def leaf_count_def node_children_def comp_def)
  have *: "(\<forall>(ts, b) \<in> set (map f xs). row_value s ts = b) \<longleftrightarrow> (\<forall>x \<in> set xs. row_value s (fst (f x)) = snd (f x))"
    for f :: "nat \<Rightarrow> (rat \<times> tree_var) list \<times> rat" and xs
    by (auto simp: case_prod_beta)
  have snds: "snd (leaf_depth_one D n) = 1" "snd (leaf_count N n) = 0" "snd (node_children K n) = 0" for n
    by (simp_all add: leaf_depth_one_def leaf_count_def node_children_def)
  have shift: "[1..<D + 1] = map Suc [0..<D]" by (simp add: map_Suc_upt)
  show ?thesis
    unfolding tree_constraints_def set_append ball_Un shift map_map * rows snds comp_def
    by (auto simp: row_value_def less_Suc_eq_le)
qed

lemma encodes_feasible:
  assumes "tree_model K D weights = Inr p" and "levels K D (length weights) dep y" and "encodes D (length weights) dep y s"
  shows "tree_feasible p s"
proof -
  let ?N = "length weights"
  have z: "s (ZVar n d) = (if dep n = d then 1 else 0)" if "n < ?N" "d \<le> D" for n d
    using assms(3) that by (simp add: encodes_def)
  have xy: "s (XVar d) = of_nat (leaves_at ?N dep d)" "s (YVar d) = of_nat (y d)" if "d \<le> D" for d
    using assms(3) that by (simp_all add: encodes_def)
  have "sum_list (map (\<lambda>d. s (ZVar n d)) [0..<D + 1]) = 1" if "n < ?N" for n
  proof -
    have "sum_list (map (\<lambda>d. s (ZVar n d)) [0..<D + 1]) = sum_list (map (\<lambda>d. if dep n = d then 1 else 0) [0..<D + 1])"
      using z that by (intro arg_cong [of _ _ sum_list] map_cong) auto
    also have "\<dots> = 1" using assms(2) that by (subst indicator_sum) (auto simp: levels_def less_Suc_eq_le)
    finally show ?thesis .
  qed
  moreover have "sum_list (map (\<lambda>n. s (ZVar n d)) [0..<?N]) = s (XVar d)" if "d \<le> D" for d
  proof -
    have "sum_list (map (\<lambda>n. s (ZVar n d)) [0..<?N]) = sum_list (map (\<lambda>n. if dep n = d then 1 else 0) [0..<?N])"
      using z that by (intro arg_cong [of _ _ sum_list] map_cong) auto
    then show ?thesis using count_sum xy(1) that by simp
  qed
  moreover have "s (YVar 0) + s (XVar 0) = 1"
    using assms(2) xy [of 0] by (simp add: levels_def add.commute flip: of_nat_add)
  moreover have "s (YVar (Suc d)) + s (XVar (Suc d)) = of_nat K * s (YVar d)" if "d < D" for d
  proof -
    have "leaves_at ?N dep (Suc d) + y (Suc d) = K * y d" using assms(2) that by (simp add: levels_def)
    then have "rat_of_nat (leaves_at ?N dep (Suc d) + y (Suc d)) = rat_of_nat (K * y d)" by (simp only:)
    then show ?thesis using xy [of "Suc d"] xy(2) [of d] that by simp
  qed
  moreover have "s (YVar D) = 0" using assms(2) xy by (simp add: levels_def)
  moreover have "\<forall>v \<in> set (tp_binary p). s v = 0 \<or> s v = 1" using z by (auto simp: tree_model_fields(1) [OF assms(1)])
  moreover have "\<forall>v \<in> set (tp_continuous p). 0 \<le> s v" using xy by (auto simp: tree_model_fields(2) [OF assms(1)])
  ultimately show ?thesis
    unfolding tree_feasible_def tree_model_fields(3) [OF assms(1)] model_constraints by blast
qed

text \<open>Every solution of finite cost is the levels of a tree without a leaf at the root.\<close>

lemma unique_depth:
  fixes z :: "nat \<Rightarrow> rat"
  assumes "\<forall>d\<le>D. z d = 0 \<or> z d = 1" and "sum_list (map z [0..<D + 1]) = 1"
  shows "\<exists>e\<le>D. \<forall>d\<le>D. z d = (if e = d then 1 else 0)"
proof -
  have "rat_of_nat (length (filter (\<lambda>d. z d = 1) [0..<D + 1])) = 1"
    using binary_sum [of "[0..<D + 1]" z] assms by (simp add: less_Suc_eq_le)
  then have "length (filter (\<lambda>d. z d = 1) [0..<D + 1]) = Suc 0" by (simp only: of_nat_eq_1_iff One_nat_def)
  then obtain e where "filter (\<lambda>d. z d = 1) [0..<D + 1] = [e]" unfolding length_Suc_conv length_0_conv by blast
  then have "set (filter (\<lambda>d. z d = 1) [0..<D + 1]) = {e}" by simp
  then have "{d. d \<le> D \<and> z d = 1} = {e}" unfolding set_filter set_upt by (simp add: less_Suc_eq_le)
  then have "d \<le> D \<and> z d = 1 \<longleftrightarrow> d = e" for d by (simp add: set_eq_iff)
  then have "e \<le> D" "\<And>d. d \<le> D \<Longrightarrow> z d = 1 \<longleftrightarrow> e = d" by metis+
  moreover from this(2) assms(1) have "z d = (if e = d then 1 else 0)" if "d \<le> D" for d using that by (cases "e = d") metis+
  ultimately show ?thesis by blast
qed

lemma feasible_levels:
  assumes "tree_model K D weights = Inr p" and "long_weights D weights" and "tree_feasible p s" and "finite_cost p s"
  obtains dep y where "levels K D (length weights) dep y" and "encodes D (length weights) dep y s"
    and "\<forall>n < length weights. 0 < dep n"
proof -
  let ?N = "length weights"
  have c: "\<forall>n<?N. sum_list (map (\<lambda>d. s (ZVar n d)) [0..<D + 1]) = 1"
      "\<forall>d\<le>D. sum_list (map (\<lambda>n. s (ZVar n d)) [0..<?N]) = s (XVar d)"
      "s (YVar 0) + s (XVar 0) = 1" "\<forall>d<D. s (YVar (Suc d)) + s (XVar (Suc d)) = of_nat K * s (YVar d)" "s (YVar D) = 0"
    and bin: "\<forall>n<?N. \<forall>d\<le>D. s (ZVar n d) = 0 \<or> s (ZVar n d) = 1" and pos: "\<forall>d\<le>D. 0 \<le> s (YVar d)"
    using assms(3) unfolding tree_feasible_def tree_model_fields(3) [OF assms(1)] model_constraints
    by (auto simp: tree_model_fields(1,2) [OF assms(1)])
  have "\<forall>n<?N. \<exists>e\<le>D. \<forall>d\<le>D. s (ZVar n d) = (if e = d then 1 else 0)"
    using unique_depth [of D "\<lambda>d. s (ZVar _ d)"] bin c(1) by blast
  then obtain dep where dep: "\<forall>n<?N. dep n \<le> D \<and> (\<forall>d\<le>D. s (ZVar n d) = (if dep n = d then 1 else 0))" by metis
  have x: "s (XVar d) = of_nat (leaves_at ?N dep d)" if "d \<le> D" for d
  proof -
    have "sum_list (map (\<lambda>n. s (ZVar n d)) [0..<?N]) = sum_list (map (\<lambda>n. if dep n = d then 1 else 0) [0..<?N])"
      using dep that by (intro arg_cong [of _ _ sum_list] map_cong) auto
    then show ?thesis using c(2) count_sum that by simp
  qed
  have "\<exists>k. s (YVar d) = of_nat k" if "d \<le> D" for d
  proof -
    have "\<exists>i. s (YVar d) = of_int i"
      using that
    proof (induction d)
      case 0
      have "s (YVar 0) = of_int (1 - int (leaves_at ?N dep 0))" using c(3) x [of 0] by simp
      then show ?case by blast
    next
      case (Suc d)
      then obtain i where "s (YVar d) = of_int i" by auto
      then have "s (YVar (Suc d)) = of_int (int K * i - int (leaves_at ?N dep (Suc d)))"
        using c(4) [rule_format, of d] x [OF Suc.prems] Suc.prems by (simp add: eq_diff_eq)
      then show ?case by blast
    qed
    then obtain i where i: "s (YVar d) = of_int i" by blast
    then have "0 \<le> i" using pos that by auto
    then have "s (YVar d) = of_nat (nat i)" using i by simp
    then show ?thesis by blast
  qed
  then obtain y where y: "\<forall>d\<le>D. s (YVar d) = of_nat (y d)" by metis
  have "rat_of_nat (leaves_at ?N dep 0 + y 0) = rat_of_nat 1" using c(3) x y by (simp add: add.commute)
  then have l0: "leaves_at ?N dep 0 + y 0 = 1" by (simp only: of_nat_eq_iff)
  have lS: "leaves_at ?N dep (Suc d) + y (Suc d) = K * y d" if "d < D" for d
  proof -
    have "rat_of_nat (leaves_at ?N dep (Suc d) + y (Suc d)) = rat_of_nat (K * y d)"
      using c(4) [rule_format, OF that] x [of "Suc d"] y that by (simp add: add.commute)
    then show ?thesis by (simp only: of_nat_eq_iff)
  qed
  have "y D = 0" using c(5) y by simp
  with l0 lS dep have levels: "levels K D ?N dep y" by (simp add: levels_def)
  have enc: "encodes D ?N dep y s" using dep x y by (simp add: encodes_def)
  have "0 < dep n" if "n < ?N" for n
  proof -
    obtain p' where "tree_model K D weights = Inr p'"
      and obj: "tp_objective p' = map (\<lambda>(n, d). (if d = 0 then None else Some (leaf_weight weights n d), ZVar n d))
        (List.product [0..<?N] [0..<D + 1])"
      by (rule tree_model_objective [OF assms(2)])
    then have "(None, ZVar n 0) \<in> set (tp_objective p)" using that assms(1) by (force simp: image_iff)
    then have "s (ZVar n 0) = 0" using assms(4) by (fastforce simp: finite_cost_def)
    then show ?thesis using dep that by (metis (full_types) gr0I zero_le zero_neq_one)
  qed
  with levels enc that show ?thesis by blast
qed

section \<open>The cost\<close>

text \<open>The weight of a tree: the sum of the weights of its leaves at their depths.\<close>

definition depth_cost :: "rat list list \<Rightarrow> (nat \<Rightarrow> nat) \<Rightarrow> rat" where
  "depth_cost weights dep = sum_list (map (\<lambda>n. leaf_weight weights n (dep n)) [0..<length weights])"

lemma sum_list_product: "sum_list (map f (List.product xs ys)) = sum_list (map (\<lambda>x. sum_list (map (\<lambda>y. f (x, y)) ys)) xs)"
  for f :: "'a \<times> 'b \<Rightarrow> rat"
  by (induction xs) (simp_all add: comp_def)

lemma encodes_cost:
  assumes "tree_model K D weights = Inr p" and "long_weights D weights" and "levels K D (length weights) dep y"
    and "encodes D (length weights) dep y s" and "\<forall>n < length weights. 0 < dep n"
  shows "finite_cost p s" and "tree_cost p s = depth_cost weights dep"
proof -
  let ?N = "length weights"
  obtain p' where p': "tree_model K D weights = Inr p'"
    "tp_objective p' = map (\<lambda>(n, d). (if d = 0 then None else Some (leaf_weight weights n d), ZVar n d))
      (List.product [0..<?N] [0..<D + 1])"
    by (rule tree_model_objective [OF assms(2)])
  have obj: "tp_objective p = map (\<lambda>(n, d). (if d = 0 then None else Some (leaf_weight weights n d), ZVar n d))
      (List.product [0..<?N] [0..<D + 1])" using p' assms(1) by simp
  have z: "s (ZVar n d) = (if dep n = d then 1 else 0)" if "n < ?N" "d < D + 1" for n d
    using assms(4) that by (simp add: encodes_def)
  show "finite_cost p s"
    using z assms(5) by (auto simp: finite_cost_def obj split: if_splits)
  have "tree_cost p s = sum_list (map (\<lambda>n. sum_list (map (\<lambda>d. if d = 0 then 0 else leaf_weight weights n d * s (ZVar n d)) [0..<D + 1])) [0..<?N])"
    unfolding tree_cost_def obj map_map sum_list_product comp_def
    by (intro arg_cong [of _ _ sum_list] map_cong) auto
  also have "\<dots> = sum_list (map (\<lambda>n. sum_list (map (\<lambda>d. if dep n = d then leaf_weight weights n d else 0) [0..<D + 1])) [0..<?N])"
    using z assms(5) by (intro arg_cong [of _ _ sum_list] map_cong) auto
  also have "\<dots> = depth_cost weights dep"
    unfolding depth_cost_def
  proof (intro arg_cong [of _ _ sum_list] map_cong refl indicator_sum)
    fix n assume "n \<in> set [0..<?N]"
    then show "dep n \<in> set [0..<D + 1]" using assms(3) by (auto simp: levels_def less_Suc_eq_le)
  qed simp
  finally show "tree_cost p s = depth_cost weights dep" .
qed

section \<open>The topology\<close>

lemma py_round_nat: "py_round (of_nat k) = int k"
proof -
  have "\<lfloor>of_nat k + 1 / 2 :: rat\<rfloor> = int k" by (rule floor_unique) simp_all
  then show ?thesis by (simp add: py_round_def)
qed

text \<open>The clients by depth, in their order within a depth.\<close>

definition clients_by_depth :: "(nat \<Rightarrow> nat) \<Rightarrow> nat \<Rightarrow> nat list \<Rightarrow> nat list" where
  "clients_by_depth dep D clients =
     concat (map (\<lambda>d. map ((!) clients) (filter (\<lambda>n. dep n = d) [0..<length clients])) [1..<D + 1])"

text \<open>The leaf counts, without the dummies on the last level.\<close>

definition counted_leaves :: "nat \<Rightarrow> (nat \<Rightarrow> nat) \<Rightarrow> nat \<Rightarrow> nat \<Rightarrow> int list" where
  "counted_leaves N dep D P =
     (map (\<lambda>d. int (leaves_at N dep d)) [1..<D + 1])[D - 1 := int (leaves_at N dep D) - int P]"

lemma mset_by_value:
  "\<forall>n \<in> set ns. dep n \<in> set ds \<Longrightarrow> distinct ds \<Longrightarrow> mset (concat (map (\<lambda>d. filter (\<lambda>n. dep n = d) ns) ds)) = mset ns"
proof (induction ds arbitrary: ns)
  case (Cons d ds)
  let ?ms = "filter (\<lambda>n. dep n \<noteq> d) ns"
  have IH: "mset (concat (map (\<lambda>e. filter (\<lambda>n. dep n = e) ?ms) ds)) = mset ?ms"
    using Cons.prems by (intro Cons.IH) auto
  have same: "map (\<lambda>e. filter (\<lambda>n. dep n = e) ?ms) ds = map (\<lambda>e. filter (\<lambda>n. dep n = e) ns) ds"
    using Cons.prems(2) by (intro map_cong refl) (auto intro!: filter_cong)
  show ?case using IH unfolding same by (simp add: multiset_partition)
qed simp

lemma clients_by_depth_mset:
  assumes "\<forall>n < length clients. 0 < dep n \<and> dep n \<le> D"
  shows "mset (clients_by_depth dep D clients) = mset clients"
proof -
  have "clients_by_depth dep D clients = map ((!) clients) (concat (map (\<lambda>d. filter (\<lambda>n. dep n = d) [0..<length clients]) [1..<D + 1]))"
    by (simp add: clients_by_depth_def map_concat comp_def)
  then have "mset (clients_by_depth dep D clients) = image_mset ((!) clients) (mset (concat (map (\<lambda>d. filter (\<lambda>n. dep n = d) [0..<length clients]) [1..<D + 1])))"
    by (simp only: mset_map)
  also have "\<dots> = image_mset ((!) clients) (mset [0..<length clients])"
    using assms by (subst mset_by_value) auto
  also have "\<dots> = mset clients" by (simp only: map_nth flip: mset_map)
  finally show ?thesis .
qed

lemma int_sum_list: "sum_list (map (\<lambda>x. int (f x)) xs) = int (sum_list (map f xs))"
  by (induction xs) simp_all

lemma counted_leaves_sum:
  assumes "\<forall>n<N. 0 < dep n \<and> dep n \<le> D" and "0 < D"
  shows "sum_list (counted_leaves N dep D P) = int N - int P"
proof -
  have "mset (concat (map (\<lambda>d. filter (\<lambda>n. dep n = d) [0..<N]) [1..<D + 1])) = mset [0..<N]"
    using assms(1) by (intro mset_by_value) auto
  from arg_cong [OF this, of size] have "length (concat (map (\<lambda>d. filter (\<lambda>n. dep n = d) [0..<N]) [1..<D + 1])) = N"
    by (simp only: size_mset length_upt minus_nat.diff_0)
  then have "sum_list (map (\<lambda>d. leaves_at N dep d) [1..<D + 1]) = N"
    by (simp add: length_concat comp_def leaves_at_def del: upt_Suc)
  then have "sum_list (map (\<lambda>d. int (leaves_at N dep d)) [1..<D + 1]) = int N"
    by (simp add: int_sum_list comp_def flip: map_map)
  moreover have "[1..<D + 1] = [1..<D] @ [D]" using assms(2) by (simp add: Suc_le_eq)
  ultimately show ?thesis
    using assms(2) list_update_length [of "map (\<lambda>d. int (leaves_at N dep d)) [1..<D]"] by (simp add: counted_leaves_def)
qed

lemma solved_topology_encodes:
  assumes "encodes D N dep y s" and "D = solver_depth H K clients" and "N = length (leaf_weights H K clients)"
    and "0 < D" and "\<forall>c \<in> set clients. sp_id (H c) \<noteq> ''dummy''"
  shows "solved_topology H K clients s =
    Inr (clients_by_depth dep D clients, counted_leaves N dep D (num_dummies K clients), map y [1..<D])"
proof -
  have N: "N = num_dummies K clients + length clients" using assms(3) by (simp add: leaf_weights_def)
  have z: "s (ZVar n d) = (if dep n = d then 1 else 0)" if "n < N" "d \<le> D" for n d
    using assms(1) that by (simp add: encodes_def)
  have "concat (map (\<lambda>n. if s (ZVar n d) = 1 \<and> n < length clients \<and> sp_id (H (clients ! n)) \<noteq> ''dummy'' then [clients ! n] else []) [0..<N])
      = map ((!) clients) (filter (\<lambda>n. dep n = d) [0..<length clients])" if "d \<le> D" for d
  proof -
    let ?f = "\<lambda>n. if s (ZVar n d) = 1 \<and> n < length clients \<and> sp_id (H (clients ! n)) \<noteq> ''dummy'' then [clients ! n] else []"
    have "[0..<N] = [0..<length clients] @ [length clients..<N]" using N by (simp flip: upt_add_eq_append add: add.commute)
    then have "concat (map ?f [0..<N]) = concat (map ?f [0..<length clients]) @ concat (map ?f [length clients..<N])"
      by (simp only: map_append concat_append)
    moreover have "map ?f [length clients..<N] = map (\<lambda>n. []) [length clients..<N]" by (intro map_cong) auto
    moreover have "map ?f [0..<length clients] = map (\<lambda>n. if dep n = d then [clients ! n] else []) [0..<length clients]"
      using z that N assms(5) by (intro map_cong) auto
    moreover have "concat (map (\<lambda>n. if dep n = d then [clients ! n] else []) ns) = map ((!) clients) (filter (\<lambda>n. dep n = d) ns)" for ns
      by (induction ns) auto
    ultimately show ?thesis by (simp only: concat_replicate_trivial map_replicate_const append_Nil2)
  qed
  then have cl: "solved_clients H clients D N s = clients_by_depth dep D clients"
    unfolding solved_clients_def clients_by_depth_def by (intro arg_cong [of _ _ concat] map_cong refl) auto
  have xy: "map (\<lambda>d. py_round (s (XVar d))) [1..<D + 1] = map (\<lambda>d. int (leaves_at N dep d)) [1..<D + 1]"
    "map (\<lambda>d. nat (py_round (s (YVar d)))) [1..<D] = map y [1..<D]"
    using assms(1) by (auto simp: encodes_def py_round_nat intro!: map_cong)
  have bottom: "last (map (\<lambda>d. int (leaves_at N dep d)) [1..<D + 1]) = int (leaves_at N dep D)"
    "map (\<lambda>d. int (leaves_at N dep d)) [1..<D + 1] \<noteq> []"
    using assms(4) by (simp_all add: last_map)
  show ?thesis
    unfolding solved_topology_def Let_def counted_leaves_def assms(2) [symmetric] N [symmetric] xy bottom(1) cl
    using bottom(2) by (simp add: raise_if_def del: upt_Suc)
qed

section \<open>The solver finds the lightest tree\<close>

text \<open>With depth \<open>max_depth\<close> the program has a solution: one inner node at each level.\<close>

definition chain_depth :: "nat \<Rightarrow> nat \<Rightarrow> nat \<Rightarrow> nat" where
  "chain_depth K D n = min (n div (K - 1) + 1) D"

lemma leaves_at_card: "leaves_at N dep d = card {n. n < N \<and> dep n = d}"
  unfolding leaves_at_def length_filter_conv_card by (rule arg_cong [of _ _ card]) auto

lemma div_eq_iff_between: "0 < m \<Longrightarrow> n div m = d \<longleftrightarrow> d * m \<le> n \<and> n < Suc d * m" for n m d :: nat
  using div_nat_eqI [of m d n] dividend_less_times_div [of m n] by (auto simp: mult.commute)

lemma chain_levels:
  assumes "2 \<le> K" and "0 < D"
  shows "levels K D (D * (K - 1) + 1) (chain_depth K D) (\<lambda>d. if d < D then 1 else 0)"
proof -
  let ?N = "D * (K - 1) + 1"
  obtain E where E: "D = Suc E" using assms(2) by (cases D) auto
  have inner: "leaves_at ?N (chain_depth K D) (Suc d) = K - 1" if "Suc d < D" for d
  proof -
    have "{n. n < ?N \<and> chain_depth K D n = Suc d} = {d * (K - 1)..<Suc d * (K - 1)}"
    proof (intro set_eqI)
      fix n
      have "Suc d * (K - 1) \<le> D * (K - 1)" using that by (intro mult_le_mono1) simp
      then have "n < ?N" if "n < Suc d * (K - 1)" using that by linarith
      moreover have "chain_depth K D n = Suc d \<longleftrightarrow> n div (K - 1) = d" using that by (auto simp: chain_depth_def)
      moreover have "n div (K - 1) = d \<longleftrightarrow> d * (K - 1) \<le> n \<and> n < Suc d * (K - 1)"
        using assms(1) by (intro div_eq_iff_between) simp
      ultimately show "n \<in> {n. n < ?N \<and> chain_depth K D n = Suc d} \<longleftrightarrow> n \<in> {d * (K - 1)..<Suc d * (K - 1)}"
        unfolding mem_Collect_eq atLeastLessThan_iff by blast
    qed
    then show ?thesis by (simp add: leaves_at_card)
  qed
  have last: "leaves_at ?N (chain_depth K D) D = K"
  proof -
    have "{n. n < ?N \<and> chain_depth K D n = D} = {E * (K - 1)..<?N}"
    proof (intro set_eqI)
      fix n
      have "E \<le> n div (K - 1) \<longleftrightarrow> E * (K - 1) \<le> n" using assms(1) by (simp add: less_eq_div_iff_mult_less_eq)
      then show "n \<in> {n. n < ?N \<and> chain_depth K D n = D} \<longleftrightarrow> n \<in> {E * (K - 1)..<?N}"
        by (auto simp: chain_depth_def E min_def)
    qed
    moreover have "?N - E * (K - 1) = K" using assms(1) E by simp
    ultimately show ?thesis by (simp add: leaves_at_card)
  qed
  have "leaves_at ?N (chain_depth K D) 0 = 0" using assms(2) by (simp add: leaves_at_card chain_depth_def)
  moreover have "leaves_at ?N (chain_depth K D) (Suc d) + (if Suc d < D then 1 else 0) = K" if "d < D" for d
    using inner [of d] last that assms(1) by (cases "Suc d < D") (auto simp: not_less le_Suc_eq)
  ultimately show ?thesis using assms(2) by (simp add: levels_def chain_depth_def)
qed

text \<open>Every assignment of levels is encoded by a solution.\<close>

definition level_solution :: "nat \<Rightarrow> (nat \<Rightarrow> nat) \<Rightarrow> (nat \<Rightarrow> nat) \<Rightarrow> tree_var \<Rightarrow> rat" where
  "level_solution N dep y v =
     (case v of ZVar n d \<Rightarrow> (if dep n = d then 1 else 0) | XVar d \<Rightarrow> of_nat (leaves_at N dep d) | YVar d \<Rightarrow> of_nat (y d))"

lemma encodes_level_solution: "encodes D N dep y (level_solution N dep y)"
  by (simp add: encodes_def level_solution_def)

lemma tree_positive_depths:
  assumes "tree_shape K N dep t" and "2 \<le> N" and "n < N"
  shows "0 < dep n"
proof (rule ccontr)
  assume "\<not> 0 < dep n"
  have ls: "mset (leaf_depths 0 t) = mset (map (\<lambda>n. (n, dep n)) [0..<N])" using assms(1) by (simp add: tree_shape_def)
  have "set (leaf_depths 0 t) = set (map (\<lambda>n. (n, dep n)) [0..<N])" by (rule mset_eq_setD [OF ls])
  then have mem: "(n, 0) \<in> set (leaf_depths 0 t)" using assms(3) \<open>\<not> 0 < dep n\<close> by force
  show False
  proof (cases t)
    case (KLeaf k)
    then have "N = 1" using arg_cong [OF ls, of size] by simp
    with assms(2) show False by simp
  next
    case (KNode ts)
    with mem leaf_depths_lower show False by fastforce
  qed
qed

text \<open>The result for any depth at which the program has a solution.\<close>

lemma gurobi_topology:
  fixes H :: sp_store and K :: nat and clients :: "nat list"
  defines "W \<equiv> leaf_weights H K clients" and "D \<equiv> solver_depth H K clients"
  assumes "2 \<le> K" and "K < length clients" and "\<forall>c \<in> set clients. sp_id (H c) \<noteq> ''dummy''"
    and "long_weights D W" and "0 < D" and "levels K D (length W) dep0 y0"
    and "\<forall>p. tree_model K D W = Inr p \<longrightarrow> solver_ok optimize p"
  obtains dep t where "tree_shape K (length W) dep t" and "\<forall>n < length W. 0 < dep n \<and> dep n \<le> D"
    and "constructTreeTopologyUsingGurobi (Some optimize) H clients K =
      Inr (clients_by_depth dep D clients, counted_leaves (length W) dep D (num_dummies K clients), map (inner_at t) [1..<D])"
    and "\<And>dep' t'. tree_shape K (length W) dep' t' \<Longrightarrow> \<forall>n < length W. dep' n \<le> D \<Longrightarrow> depth_cost W dep \<le> depth_cost W dep'"
proof -
  have K: "0 < K" using assms(3) by simp
  have N: "2 \<le> length W" using assms(3,4) by (simp add: W_def leaf_weights_def)
  obtain p where p: "tree_model K D W = Inr p" by (rule tree_model_objective [OF assms(6)])
  have tree: "\<exists>s. tree_feasible p s \<and> finite_cost p s \<and> tree_cost p s = depth_cost W dep'"
    if "tree_shape K (length W) dep' t'" "\<forall>n < length W. dep' n \<le> D" for dep' t'
  proof -
    have lv: "levels K D (length W) dep' (inner_at t')" by (rule tree_levels [OF that(1) K that(2)])
    have pos: "\<forall>n < length W. 0 < dep' n" using tree_positive_depths [OF that(1) N] by blast
    let ?s = "level_solution (length W) dep' (inner_at t')"
    show ?thesis
      using encodes_feasible [OF p lv encodes_level_solution] encodes_cost [OF p assms(6) lv encodes_level_solution pos] by blast
  qed
  obtain t0 where t0: "tree_shape K (length W) dep0 t0" by (rule levels_tree [OF assms(8) K])
  moreover have "\<forall>n < length W. dep0 n \<le> D" using assms(8) by (simp add: levels_def)
  ultimately obtain s where s: "optimize p = Some s" "tree_feasible p s" "finite_cost p s"
    "\<And>s'. tree_feasible p s' \<Longrightarrow> finite_cost p s' \<Longrightarrow> tree_cost p s \<le> tree_cost p s'"
    using assms(9) p tree by (fastforce simp: solver_ok_def split: option.splits)
  obtain dep y where sol: "levels K D (length W) dep y" "encodes D (length W) dep y s" "\<forall>n < length W. 0 < dep n"
    by (rule feasible_levels [OF p assms(6) s(2,3)])
  obtain t where t: "tree_shape K (length W) dep t" "\<forall>d\<le>D. inner_at t d = y d" by (rule levels_tree [OF sol(1) K])
  have bounded: "\<forall>n < length W. 0 < dep n \<and> dep n \<le> D" using sol(1,3) by (simp add: levels_def)
  have "map y [1..<D] = map (inner_at t) [1..<D]" using t(2) by (intro map_cong) auto
  moreover have "solved_topology H K clients s =
      Inr (clients_by_depth dep D clients, counted_leaves (length W) dep D (num_dummies K clients), map y [1..<D])"
    by (rule solved_topology_encodes [OF sol(2) meta_eq_to_obj_eq [OF D_def] _ assms(7,5)]) (simp add: W_def)
  ultimately have "constructTreeTopologyUsingGurobi (Some optimize) H clients K =
      Inr (clients_by_depth dep D clients, counted_leaves (length W) dep D (num_dummies K clients), map (inner_at t) [1..<D])"
    unfolding constructTreeTopologyUsingGurobi_def D_def [symmetric] W_def [symmetric] p bindR.simps option.case s(1)
    using assms(3) by simp
  moreover have "depth_cost W dep \<le> depth_cost W dep'"
    if "tree_shape K (length W) dep' t'" "\<forall>n < length W. dep' n \<le> D" for dep' t'
    using tree [OF that] s(4) encodes_cost(2) [OF p assms(6) sol] by metis
  ultimately show ?thesis using that t(1) bounded by blast
qed

text \<open>The arithmetic of the sizes.\<close>

lemma solver_sizes:
  assumes "2 \<le> K" and "K < length clients"
  shows "length (leaf_weights H K clients) = max_depth K clients * (K - 1) + 1" and "0 < max_depth K clients"
proof -
  have "length clients + num_dummies K clients = K + (max_depth K clients - 1) * (K - 1)" "0 < max_depth K clients"
    using dp_sizes [OF assms(1), of "length clients"] assms by (simp_all add: max_depth_def num_dummies_def)
  moreover obtain m D where "K = Suc m" "max_depth K clients = Suc D"
    using assms(1) \<open>0 < max_depth K clients\<close> by (cases K; cases "max_depth K clients") auto
  ultimately show "length (leaf_weights H K clients) = max_depth K clients * (K - 1) + 1" "0 < max_depth K clients"
    by (simp_all add: leaf_weights_def)
qed

lemma long_leaf_weights:
  assumes "clients \<noteq> []" and "\<forall>c \<in> set clients. max_depth K clients \<le> length (weightVals (H c))"
  shows "solver_depth H K clients = max_depth K clients" and "long_weights (max_depth K clients) (leaf_weights H K clients)"
proof -
  show depth: "solver_depth H K clients = max_depth K clients" using assms by (simp add: solver_depth_def)
  show "long_weights (max_depth K clients) (leaf_weights H K clients)"
    using assms(2) unfolding long_weights_def leaf_weights_def depth by auto
qed

text \<open>
  C7: the solver's branch builds a tree of least weight.  With more clients than the arity, none of them named
  like a dummy, with a weight for every depth, and a solver that returns an optimal solution of the program
  if there is one, the function returns the clients ordered by the depths of the leaves of a tree in which
  every inner node has \<open>treeKary\<close> children; \<open>num_internals\<close> counts the inner nodes of its levels, the leaf counts
  sum to the number of clients, and no tree of this arity and depth with the same clients and dummies weighs less.
\<close>

theorem solver_tree_lightest:
  assumes "2 \<le> K" and "K < length clients"
    and "\<forall>c \<in> set clients. sp_id (H c) \<noteq> ''dummy'' \<and> max_depth K clients \<le> length (weightVals (H c))"
    and "\<forall>p. tree_model K (max_depth K clients) (leaf_weights H K clients) = Inr p \<longrightarrow> solver_ok optimize p"
  shows "\<exists>cl nl ni dep t. constructScratchpadTreeTopology (Some optimize) H clients K 0 = Some (Inr (cl, nl, ni))
    \<and> mset cl = mset clients \<and> sum_list nl = int (length clients)
    \<and> tree_shape K (max_depth K clients * (K - 1) + 1) dep t
    \<and> cl = clients_by_depth dep (max_depth K clients) clients
    \<and> nl = counted_leaves (max_depth K clients * (K - 1) + 1) dep (max_depth K clients) (num_dummies K clients)
    \<and> ni = map (inner_at t) [1..<max_depth K clients]
    \<and> (\<forall>dep' t'. tree_shape K (max_depth K clients * (K - 1) + 1) dep' t' \<and>
         (\<forall>n < max_depth K clients * (K - 1) + 1. dep' n \<le> max_depth K clients) \<longrightarrow>
         depth_cost (leaf_weights H K clients) dep \<le> depth_cost (leaf_weights H K clients) dep')"
proof -
  let ?D = "max_depth K clients" and ?W = "leaf_weights H K clients" and ?P = "num_dummies K clients"
  note sizes = solver_sizes(1) [OF assms(1,2), of H] solver_sizes(2) [OF assms(1,2)]
  have ne: "clients \<noteq> []" using assms(2) by auto
  have D: "solver_depth H K clients = ?D" "long_weights ?D ?W" using long_leaf_weights [OF ne] assms(3) by blast+
  obtain dep t where r: "tree_shape K (length ?W) dep t" "\<forall>n < length ?W. 0 < dep n \<and> dep n \<le> ?D"
    "constructTreeTopologyUsingGurobi (Some optimize) H clients K =
      Inr (clients_by_depth dep ?D clients, counted_leaves (length ?W) dep ?D ?P, map (inner_at t) [1..<?D])"
    "\<And>dep' t'. tree_shape K (length ?W) dep' t' \<Longrightarrow> \<forall>n < length ?W. dep' n \<le> ?D \<Longrightarrow> depth_cost ?W dep \<le> depth_cost ?W dep'"
    using gurobi_topology [OF assms(1,2), of H "chain_depth K ?D" "\<lambda>d. if d < ?D then 1 else 0" optimize] assms(3,4)
      chain_levels [OF assms(1) sizes(2)] unfolding D sizes(1) using D(2) sizes(2) by blast
  have len: "length ?W = ?P + length clients" by (simp add: leaf_weights_def)
  have "weightVals (H (hd clients)) \<noteq> []" using bspec [OF assms(3) hd_in_set [OF ne]] sizes(2) by auto
  then have "constructScratchpadTreeTopology (Some optimize) H clients K 0 =
      Some (Inr (clients_by_depth dep ?D clients, counted_leaves (length ?W) dep ?D ?P, map (inner_at t) [1..<?D]))"
    using assms(2) r(3) by (simp add: constructScratchpadTreeTopology_def)
  moreover have "mset (clients_by_depth dep ?D clients) = mset clients" using r(2) len by (intro clients_by_depth_mset) simp
  moreover have "sum_list (counted_leaves (length ?W) dep ?D ?P) = int (length clients)"
    using counted_leaves_sum [OF r(2) sizes(2)] len by simp
  ultimately show ?thesis using r(1,4) unfolding sizes(1) by blast
qed

text \<open>
  The dummies are taken from the last level wherever the solver put them: with six clients that are badly
  served at the third level, the lightest tree has two levels, and the last count is \<open>- 1\<close>.
\<close>

definition six_clients :: sp_store where
  "six_clients i = (mk_Scratchpad ''sp'' i [] []) \<lparr>weightVals := [1, 2, 1000]\<rparr>"

definition two_level_tree :: ktree where
  "two_level_tree = KNode [KNode [KLeaf 0, KLeaf 1, KLeaf 2], KNode [KLeaf 3, KLeaf 4, KLeaf 5], KLeaf 6]"

lemma six_clients_sizes:
  "max_depth 3 [0..<6] = 3" "num_dummies 3 [0..<6] = 1" "leaf_weights six_clients 3 [0..<6] = replicate 6 [1, 2, 1000] @ [[1, 1, 1]]"
proof -
  show "max_depth 3 [0..<6] = 3" "num_dummies 3 [0..<6] = 1" by (simp_all add: max_depth_def num_dummies_def)
  moreover have "replicate 3 (1::rat) = [1, 1, 1]" by (simp add: numeral_3_eq_3)
  ultimately show "leaf_weights six_clients 3 [0..<6] = replicate 6 [1, 2, 1000] @ [[1, 1, 1]]"
    by (simp add: leaf_weights_def solver_depth_def six_clients_def mk_Scratchpad_def map_replicate_const)
qed

lemma six_clients_no_bottom:
  assumes "tree_shape 3 7 dep t" and "\<forall>n<7. 0 < dep n \<and> dep n \<le> 3"
    and "\<And>dep' t'. tree_shape 3 7 dep' t' \<Longrightarrow> \<forall>n<7. dep' n \<le> 3 \<Longrightarrow>
      depth_cost (replicate 6 [1, 2, 1000] @ [[1, 1, 1]]) dep \<le> depth_cost (replicate 6 [1, 2, 1000] @ [[1, 1, 1]]) dep'"
  shows "leaves_at 7 dep 3 = 0"
proof (rule ccontr)
  let ?W = "replicate 6 [1, 2, 1000] @ [[1, 1, 1 :: rat]]"
  assume some: "leaves_at 7 dep 3 \<noteq> 0"
  have lv: "levels 3 3 7 dep (inner_at t)" using tree_levels [OF assms(1)] assms(2) by simp
  then have "leaves_at 7 dep 3 = 3 * inner_at t 2" by (auto simp: levels_def numeral_3_eq_3 numeral_2_eq_2 less_Suc_eq)
  with some have three: "3 \<le> leaves_at 7 dep 3" by (cases "inner_at t 2") auto
  have "\<exists>n<6. dep n = 3"
  proof (rule ccontr)
    assume "\<not> (\<exists>n<6. dep n = 3)"
    then have "{n. n < 7 \<and> dep n = 3} \<subseteq> {6}" by (auto simp: less_Suc_eq numeral_eq_Suc)
    then have "leaves_at 7 dep 3 \<le> 1" unfolding leaves_at_card by (metis card_mono finite.emptyI finite_insert is_singletonI is_singleton_altdef)
    with three show False by simp
  qed
  then obtain k where k: "k < 6" "dep k = 3" by blast
  have w: "0 \<le> leaf_weight ?W n (dep n)" if "n < 7" for n
  proof -
    have "dep n = 1 \<or> dep n = 2 \<or> dep n = 3" using assms(2) that by (metis One_nat_def Suc_leI antisym_conv3 less_2_cases_iff less_Suc_eq_le not_less_eq numeral_2_eq_2 numeral_3_eq_3 order_le_less)
    moreover have "n < 6 \<or> n = 6" using that by linarith
    ultimately show ?thesis by (auto simp: leaf_weight_def nth_append)
  qed
  have "leaf_weight ?W k (dep k) = 999000" using k by (simp add: leaf_weight_def nth_append)
  moreover have "depth_cost ?W dep = leaf_weight ?W k (dep k) + sum_list (map (\<lambda>n. leaf_weight ?W n (dep n)) (remove1 k [0..<7]))"
    using k(1) sum_list_map_remove1 [of k "[0..<7]" "\<lambda>n. leaf_weight ?W n (dep n)"] by (simp add: depth_cost_def)
  moreover have "0 \<le> sum_list (map (\<lambda>n. leaf_weight ?W n (dep n)) (remove1 k [0..<7]))"
    using w by (intro sum_list_nonneg) (auto dest!: notin_set_remove1 [THEN contrapos_nn] simp: set_remove1_eq)
  moreover have "depth_cost ?W dep \<le> depth_cost ?W (\<lambda>n. if n = 6 then 1 else 2)"
    by (rule assms(3) [of _ two_level_tree]) (simp_all add: tree_shape_def two_level_tree_def upt_rec numeral_eq_Suc)
  moreover have "depth_cost ?W (\<lambda>n. if n = 6 then 1 else 2) = 6000"
    by (simp add: depth_cost_def leaf_weight_def upt_rec numeral_eq_Suc)
  ultimately show False by simp
qed

lemma six_clients_negative:
  assumes "\<forall>p. tree_model 3 3 (replicate 6 [1, 2, 1000] @ [[1, 1, 1]]) = Inr p \<longrightarrow> solver_ok optimize p"
  shows "\<exists>cl nl ni. constructTreeTopologyUsingGurobi (Some optimize) six_clients [0..<6] 3 = Inr (cl, nl, ni) \<and> last nl = - 1"
proof -
  let ?W = "replicate 6 [1, 2, 1000] @ [[1, 1, 1 :: rat]]"
  have len: "length ?W = 7" by simp
  have D: "solver_depth six_clients 3 [0..<6] = 3"
    by (simp add: solver_depth_def six_clients_sizes six_clients_def mk_Scratchpad_def)
  have lv: "levels 3 3 7 (chain_depth 3 3) (\<lambda>d. if d < 3 then 1 else 0)" using chain_levels [of 3 3] by simp
  have long: "long_weights 3 ?W" by (simp add: long_weights_def)
  have ids: "\<forall>c \<in> set [0..<6]. sp_id (six_clients c) \<noteq> ''dummy''" by (simp add: six_clients_def mk_Scratchpad_def)
  have sizes: "(2::nat) \<le> 3" "3 < length [0..<6]" "(0::nat) < 3" by simp_all
  note g = gurobi_topology [of 3 "[0..<6]" six_clients "chain_depth 3 3" "\<lambda>d. if d < 3 then 1 else 0" optimize,
      unfolded D six_clients_sizes len]
  obtain dep t where r: "tree_shape 3 7 dep t" "\<forall>n<7. 0 < dep n \<and> dep n \<le> 3"
    "constructTreeTopologyUsingGurobi (Some optimize) six_clients [0..<6] 3 =
      Inr (clients_by_depth dep 3 [0..<6], counted_leaves 7 dep 3 1, map (inner_at t) [1..<3])"
    "\<And>dep' t'. tree_shape 3 7 dep' t' \<Longrightarrow> \<forall>n<7. dep' n \<le> 3 \<Longrightarrow> depth_cost ?W dep \<le> depth_cost ?W dep'"
    by (rule g [OF sizes(1,2) ids long sizes(3) lv assms]) blast
  have "leaves_at 7 dep 3 = 0" by (rule six_clients_no_bottom [OF r(1,2,4)])
  then have "last (counted_leaves 7 dep 3 1) = - 1" by (simp add: counted_leaves_def last_list_update last_conv_nth)
  with r(3) show ?thesis by blast
qed

section \<open>Concrete instances\<close>

text \<open>Three clients, the first of which suffers most from a deeper place.\<close>

definition solver_store :: sp_store where
  "solver_store i = (mk_Scratchpad ''sp'' i [] []) \<lparr>weightVals := (if i = 0 then [1, 3] else [1, 2])\<rparr>"

definition solver_depths :: "nat \<Rightarrow> nat" where
  "solver_depths n = (if n = 0 then 1 else 2)"

definition constant_solver :: "tree_program \<Rightarrow> (tree_var \<Rightarrow> rat) option" where
  "constant_solver p = Some (level_solution 3 solver_depths (\<lambda>d. if d < 2 then 1 else 0))"

lemma solver_store_sizes:
  "max_depth 2 [0, 1, 2] = 2" "num_dummies 2 [0, 1, 2] = 0" "leaf_weights solver_store 2 [0, 1, 2] = [[1, 3], [1, 2], [1, 2]]"
  by (simp_all add: max_depth_def num_dummies_def leaf_weights_def solver_store_def mk_Scratchpad_def)

lemma leaves_three: "leaves_at 3 dep d = (if dep 0 = d then 1 else 0) + (if dep 1 = d then 1 else 0) + (if dep 2 = d then 1 else 0)"
  by (simp add: leaves_at_def numeral_3_eq_3 numeral_2_eq_2)

lemma constant_solver_ok:
  assumes "tree_model 2 2 [[1, 3], [1, 2], [1, 2]] = Inr p"
  shows "solver_ok constant_solver p"
proof -
  let ?W = "[[1, 3], [1, 2], [1, 2::rat]]" and ?y = "\<lambda>d. if d < 2 then 1 else (0::nat)"
  let ?s = "level_solution 3 solver_depths ?y"
  have long: "long_weights 2 ?W" by (simp add: long_weights_def)
  have N: "length ?W = 3" by simp
  have lv: "levels 2 2 3 solver_depths ?y"
    by (simp add: levels_def leaves_three solver_depths_def numeral_2_eq_2 less_Suc_eq)
  note enc = encodes_level_solution [of 2 3 solver_depths ?y]
  have "tree_feasible p ?s" using encodes_feasible [OF assms] lv enc N by metis
  moreover have pos: "\<forall>n < length ?W. 0 < solver_depths n" by (simp add: solver_depths_def)
  have cost: "finite_cost p ?s" "tree_cost p ?s = depth_cost ?W solver_depths"
    using encodes_cost [OF assms long _ _ pos, unfolded N, OF lv enc] by blast+
  moreover have "depth_cost ?W solver_depths = 2000"
    by (simp add: depth_cost_def leaf_weight_def solver_depths_def upt_rec)
  moreover have "2000 \<le> tree_cost p s'" if f: "tree_feasible p s'" "finite_cost p s'" for s'
  proof -
    obtain dep y where d: "levels 2 2 3 dep y" "encodes 2 3 dep y s'" "\<forall>n<3. 0 < dep n"
      using feasible_levels [OF assms long f, unfolded N] by blast
    have "tree_cost p s' = depth_cost ?W dep" using encodes_cost(2) [OF assms long, unfolded N, OF d] .
    moreover have "0 < dep 0" "0 < dep 1" "0 < dep 2" "dep 0 \<le> 2" "dep 1 \<le> 2" "dep 2 \<le> 2"
      using d(1,3) by (simp_all add: levels_def)
    then have "dep 0 = 1 \<or> dep 0 = 2" "dep 1 = 1 \<or> dep 1 = 2" "dep 2 = 1 \<or> dep 2 = 2" by linarith+
    moreover have "leaves_at 3 dep 0 + y 0 = 1" "leaves_at 3 dep 1 + y 1 = 2 * y 0" "leaves_at 3 dep 2 = 2 * y 1"
      using d(1) by (auto simp: levels_def numeral_2_eq_2 less_Suc_eq)
    ultimately show ?thesis
      by (elim disjE) (simp_all add: depth_cost_def leaf_weight_def upt_rec leaves_three numeral_2_eq_2 [symmetric])
  qed
  ultimately show ?thesis by (auto simp: solver_ok_def constant_solver_def)
qed

lemma solver_tree_lightest_witness:
  "\<exists>cl nl ni. constructScratchpadTreeTopology (Some constant_solver) solver_store [0, 1, 2] 2 0 = Some (Inr (cl, nl, ni))
    \<and> mset cl = mset [0, 1, 2] \<and> sum_list nl = 3"
  using solver_tree_lightest [of 2 "[0, 1, 2]" solver_store constant_solver] constant_solver_ok
  unfolding solver_store_sizes by (auto simp: solver_store_def mk_Scratchpad_def)

end
