(* ===== verification/TreeBuild.thy ===== *)
theory TreeBuild
  imports TreeSolver
begin

text \<open>
  \<^verbatim>\<open>lim_memory/remap-scratchpad/scratchpadTree.py\<close>, \<open>buildScratchpadTrees\<close>: renumbers the
  clients of every controller and builds its tree level by level from the bottom.  The lemmas
  show that with a topology whose levels fit, the leaves of the tree are the renumbered clients
  from left to right, so the ids below every node are consecutive.
\<close>

section \<open>Renumbering\<close>

definition clients_of :: "sp_store \<Rightarrow> scratchpad_platform \<Rightarrow> nat \<Rightarrow> nat list" where
  "clients_of H p i = filter (\<lambda>c. i \<in> set (controllerIdx (H c))) (spp_clients p)"

type_synonym remap_state = "sp_store \<times> (string \<times> string) list \<times> nat"

fun remap_client :: "nat \<Rightarrow> remap_state \<Rightarrow> nat \<Rightarrow> remap_state" where
  "remap_client i (H, ids, new_id) c =
     (H(c := H c\<lparr>remappedIds := put i (str_of_nat new_id) (remappedIds (H c))\<rparr>),
      put (str_of_nat new_id)
        (if length (controllerIdx (H c)) > 1 then sp_id (H c) @ ''*'' else sp_id (H c)) ids,
      new_id + 1)"

section \<open>The tree of a controller\<close>

definition leaf_of :: "sp_store \<Rightarrow> nat \<Rightarrow> nat \<Rightarrow> sp_tree res" where
  "leaf_of H i c =
     bindR (get_key (remappedIds (H c)) i (KeyError (str_of_nat i))) (\<lambda>newId.
     bindR (getBandwidthFraction (H c) i) (\<lambda>bw.
       Inr (mk_leaf c newId bw)))"

text \<open>
  The inner nodes of a level: the first takes the remainder, the others \<open>treeKary\<close> children each.
\<close>

fun group_nodes :: "nat \<Rightarrow> nat \<Rightarrow> nat \<Rightarrow> sp_tree list \<Rightarrow> sp_tree list" where
  "group_nodes K nid 0 cs = []"
| "group_nodes K nid (Suc m) cs =
     (let k = (if length cs mod K > 0 then length cs mod K else K)
      in add_children (mk_node (''n'' @ str_of_nat nid)) (take k cs)
         # group_nodes K (nid + 1) m (drop k cs))"

type_synonym level_state = "sp_tree list \<times> nat list \<times> nat"

definition level_step ::
  "sp_store \<Rightarrow> nat \<Rightarrow> nat \<Rightarrow> int list \<Rightarrow> nat list \<Rightarrow> level_state \<Rightarrow> nat \<Rightarrow> level_state res" where
  "level_step H i K nl ni s d =
     (case s of (child_nodes, clients, nid) \<Rightarrow>
       bindR (nth_res ni (d - 1)) (\<lambda>m.
       let nodes = group_nodes K nid m child_nodes in
       bindR (nth_res nl (d - 1)) (\<lambda>leaves.
       let k = int (length clients) - leaves in
       bindR (mapR (leaf_of H i) (slice_from clients k)) (\<lambda>ls.
         Inr (ls @ nodes, slice_to clients k, nid + m)))))"

definition build_tree ::
  "sp_store \<Rightarrow> nat \<Rightarrow> nat \<Rightarrow> sp_tree \<Rightarrow> topology \<Rightarrow> nat \<Rightarrow> (sp_tree \<times> nat) res" where
  "build_tree H i K root_node t nid =
     (case t of (clients, nl, ni) \<Rightarrow>
       let depth = length nl in
       if depth = 1 then
         bindR (mapR (leaf_of H i) clients) (\<lambda>cs. Inr (add_children root_node cs, nid))
       else
         bindR (nth_res nl (depth - 1)) (\<lambda>leaves.
         let k = int (length clients) - leaves in
         bindR (mapR (leaf_of H i) (slice_from clients k)) (\<lambda>cs.
         bindR (foldR (level_step H i K nl ni) (cs, slice_to clients k, nid) (rev [1..<depth]))
           (\<lambda>(cs', _, nid'). Inr (add_children root_node cs', nid')))))"

text \<open>
  \<open>shuffle\<close> is \<open>random.shuffle\<close> after \<open>random.seed(1)\<close>, a function of the list.
\<close>

definition build_controller ::
  "gurobi \<Rightarrow> (nat list \<Rightarrow> nat list) \<Rightarrow> nat \<Rightarrow> nat
     \<Rightarrow> scratchpad_platform \<Rightarrow> (remap_state \<times> nat) \<times> sp_tree list \<Rightarrow> nat
     \<Rightarrow> ((remap_state \<times> nat) \<times> sp_tree list) run" where
  "build_controller gurobi shuffle K mode p s i =
     (case s of ((rs, nid), trees) \<Rightarrow>
       bindO (constructScratchpadTreeTopology gurobi (fst rs) (clients_of (fst rs) p i) K mode)
         (\<lambda>(clients, nl, ni).
           let clients = (if mode = 3 then shuffle clients else clients);
               rs' = foldl (remap_client i) rs clients
           in bindO (Some (build_tree (fst rs') i K (mk_node (''root'' @ str_of_nat i)) (clients, nl, ni) nid))
                (\<lambda>(tree, nid'). Some (Inr ((rs', nid'), trees @ [tree])))))"

definition build_platform ::
  "gurobi \<Rightarrow> (nat list \<Rightarrow> nat list) \<Rightarrow> nat \<Rightarrow> nat
     \<Rightarrow> (remap_state \<times> nat) \<times> scratchpad_platform list \<Rightarrow> scratchpad_platform
     \<Rightarrow> ((remap_state \<times> nat) \<times> scratchpad_platform list) run" where
  "build_platform gurobi shuffle K mode s p =
     (case s of (rs, ps) \<Rightarrow>
       bindO (foldO (build_controller gurobi shuffle K mode p) (rs, []) [0..<length (spp_controllers p)])
         (\<lambda>(rs', trees). Some (Inr (rs', ps @ [p\<lparr>spp_network := TreeNetwork trees, networkType := ''tree''\<rparr>]))))"

definition buildScratchpadTrees ::
  "gurobi \<Rightarrow> (nat list \<Rightarrow> nat list) \<Rightarrow> sp_store
     \<Rightarrow> scratchpad_platform list \<Rightarrow> nat \<Rightarrow> nat
     \<Rightarrow> (sp_store \<times> (string \<times> string) list \<times> scratchpad_platform list) run" where
  "buildScratchpadTrees gurobi shuffle H platforms treeKary treeMode =
     bindO (foldO (build_platform gurobi shuffle treeKary treeMode) (((H, [], 1), 1), []) platforms)
       (\<lambda>(((H', ids, _), _), ps). Some (Inr (H', ids, ps)))"

section \<open>Grouping keeps the leaves\<close>

abbreviation "leaves_of cs \<equiv> concat (map tree_leaves cs)"

fun arity_ok :: "nat \<Rightarrow> nat \<Rightarrow> sp_tree \<Rightarrow> bool" where
  "arity_ok lo hi (SpLeaf c i b d) \<longleftrightarrow> True"
| "arity_ok lo hi (SpNode n cs r b d) \<longleftrightarrow>
     lo \<le> length cs \<and> length cs \<le> hi \<and> (\<forall>c \<in> set cs. arity_ok lo hi c)"

lemma arity_ok_new:
  assumes "\<forall>c \<in> set cs. tree_ok c \<and> arity_ok lo hi c" and "lo \<le> length cs" and "length cs \<le> hi"
  shows "arity_ok lo hi (add_children (mk_node n) cs)"
  by (rule add_children_new [of cs n]) (use assms in auto)

lemma add_children_new_ok: "\<forall>c \<in> set cs. tree_ok c \<Longrightarrow> tree_ok (add_children (mk_node n) cs)"
  by (rule add_children_new [of cs n]) auto

lemma group_nodes_length [simp]: "length (group_nodes K nid m cs) = m"
  by (induction K nid m cs rule: group_nodes.induct) (auto simp: Let_def)

text \<open>
  \<open>m\<close> nodes take all of \<open>cs\<close> when at most \<open>P \<le> K - lo\<close> places stay free, and every one has between
  \<open>lo\<close> and \<open>K\<close> children.
\<close>

lemma first_group:
  assumes "0 < lo" "lo \<le> K" and "n + P = Suc m * K" and "P \<le> K - lo"
  defines "k \<equiv> (if n mod K > 0 then n mod K else K)"
  shows "lo \<le> k" and "k \<le> K" and "k \<le> n" and "n - k = m * K"
proof -
  have n: "n = m * K + (K - P)" using assms(1-4) by simp
  have "k = K - P"
  proof (cases "P = 0")
    case True
    then show ?thesis using n by (simp add: k_def)
  next
    case False
    have "n mod K = (K - P) mod K" unfolding n by (rule mod_mult_self3)
    then have "n mod K = K - P" using False assms(1,2,4) by simp
    then show ?thesis using assms(1,2,4) by (simp add: k_def)
  qed
  then show "lo \<le> k" "k \<le> K" "k \<le> n" "n - k = m * K"
    using n assms(1,2,4) by simp_all
qed

lemma group_nodes_ok:
  assumes "0 < lo" "lo \<le> K" and "\<forall>c \<in> set cs. tree_ok c \<and> arity_ok lo K c"
    and "length cs + P = m * K" and "P \<le> K - lo"
  shows "leaves_of (group_nodes K nid m cs) = leaves_of cs
    \<and> (\<forall>c \<in> set (group_nodes K nid m cs). tree_ok c \<and> arity_ok lo K c)"
  using assms(3-)
proof (induction m arbitrary: cs P nid)
  case 0
  then show ?case by simp
next
  case (Suc m)
  define k where "k = (if length cs mod K > 0 then length cs mod K else K)"
  note k = first_group [OF assms(1,2) Suc.prems(2,3), folded k_def]
  let ?n = "add_children (mk_node (''n'' @ str_of_nat nid)) (take k cs)"
  have take: "\<forall>c \<in> set (take k cs). tree_ok c \<and> arity_ok lo K c"
    and drop: "\<forall>c \<in> set (drop k cs). tree_ok c \<and> arity_ok lo K c"
    using Suc.prems(1) by (auto dest: in_set_takeD in_set_dropD)
  have len: "length (drop k cs) + 0 = m * K" using k(4) by simp
  have n: "tree_ok ?n" "arity_ok lo K ?n" "tree_leaves ?n = leaves_of (take k cs)"
    using take k(1-3) by (auto intro!: arity_ok_new add_children_new_ok tree_leaves_new)
  have g: "group_nodes K nid (Suc m) cs = ?n # group_nodes K (nid + 1) m (drop k cs)"
    by (simp add: k_def Let_def)
  have "leaves_of cs = leaves_of (take k cs) @ leaves_of (drop k cs)"
    by (metis append_take_drop_id concat_append map_append)
  with Suc.IH [OF drop len, of "nid + 1"] n show ?case
    unfolding g by simp
qed

section \<open>The levels\<close>

text \<open>
  The levels fit: the inner nodes of a level have as children the nodes of the next one, but for
  \<open>P\<close> free places at the bottom.
\<close>

definition levels_fit :: "nat \<Rightarrow> nat \<Rightarrow> nat list \<Rightarrow> nat list \<Rightarrow> bool" where
  "levels_fit K P nl ni \<longleftrightarrow> length nl = Suc (length ni)
     \<and> (\<forall>d<length ni. nl ! (d + 1) + (if d + 1 < length ni then ni ! (d + 1) else P) = ni ! d * K)"

definition level_inv ::
  "nat \<Rightarrow> nat \<Rightarrow> (nat \<Rightarrow> sp_tree) \<Rightarrow> nat list \<Rightarrow> nat list \<Rightarrow> nat list \<Rightarrow> nat \<Rightarrow> level_state \<Rightarrow> bool" where
  "level_inv lo K L clients nl ni d s \<longleftrightarrow>
     (case s of (cs, rem, nid) \<Rightarrow>
        rem = take (sum_list (take d nl)) clients
      \<and> leaves_of cs = map L (drop (sum_list (take d nl)) clients)
      \<and> length cs = nl ! d + (if d < length ni then ni ! d else 0)
      \<and> (\<forall>c \<in> set cs. tree_ok c \<and> arity_ok lo K c))"

definition is_leaf_map :: "(nat \<Rightarrow> sp_tree) \<Rightarrow> bool" where
  "is_leaf_map L \<longleftrightarrow> (\<forall>c. tree_leaves (L c) = [L c] \<and> tree_ok (L c) \<and> (\<forall>lo hi. arity_ok lo hi (L c)))"

lemma leaves_of_leaves: "is_leaf_map L \<Longrightarrow> leaves_of (map L cs) = map L cs"
  by (induction cs) (auto simp: is_leaf_map_def)

lemma drop_take_split:
  assumes "a + b \<le> length xs"
  shows "drop a (take (a + b) xs) @ drop (a + b) xs = drop a xs"
  using assms by (metis append_take_drop_id drop_drop take_drop add.commute)

lemma sum_list_take_le: "sum_list (take d (xs::nat list)) \<le> sum_list xs"
  by (metis append_take_drop_id le_add1 sum_list_append)

lemma level_step_ok:
  assumes K: "0 < lo" "lo \<le> K" "P \<le> K - lo" and fit: "levels_fit K P nl ni"
    and L: "is_leaf_map L" "\<forall>c \<in> set clients. leaf_of H i c = Inr (L c)"
    and sum: "sum_list nl = length clients" and d: "d < length ni"
    and inv: "level_inv lo K L clients nl ni (Suc d) (cs, rem, nid)"
  shows "\<exists>s. level_step H i K (map int nl) ni (cs, rem, nid) (Suc d) = Inr s
    \<and> level_inv lo K L clients nl ni d s \<and> snd (snd s) = nid + ni ! d"
proof -
  define a where "a = sum_list (take d nl)"
  have dn: "d < length nl" using fit d by (simp add: levels_fit_def)
  then have suc: "sum_list (take (Suc d) nl) = a + nl ! d"
    by (simp add: a_def take_Suc_conv_app_nth)
  have le: "a + nl ! d \<le> length clients"
    using sum_list_take_le [of "Suc d" nl] suc sum by simp
  have rem: "rem = take (a + nl ! d) clients"
    and leaves: "leaves_of cs = map L (drop (a + nl ! d) clients)"
    and len: "length cs = nl ! Suc d + (if Suc d < length ni then ni ! Suc d else 0)"
    and ok: "\<forall>c \<in> set cs. tree_ok c \<and> arity_ok lo K c"
    using inv suc by (simp_all add: level_inv_def)
  have "length cs + (if Suc d < length ni then 0 else P) = ni ! d * K"
    using fit d len by (auto simp: levels_fit_def)
  moreover have "(if Suc d < length ni then 0 else P) \<le> K - lo" using K by simp
  ultimately have g: "leaves_of (group_nodes K nid (ni ! d) cs) = leaves_of cs"
    "\<forall>c \<in> set (group_nodes K nid (ni ! d) cs). tree_ok c \<and> arity_ok lo K c"
    using group_nodes_ok [OF K(1,2) ok] by blast+
  have k: "int (length rem) - int (nl ! d) = int a" using rem le by simp
  let ?ls = "map L (drop a rem)"
  have "mapR (leaf_of H i) (drop a rem) = Inr ?ls"
    by (rule mapR_Inr_map) (use L(2) rem in \<open>auto dest: in_set_dropD in_set_takeD\<close>)
  then have step: "level_step H i K (map int nl) ni (cs, rem, nid) (Suc d)
      = Inr (?ls @ group_nodes K nid (ni ! d) cs, take a rem, nid + ni ! d)"
    using d dn by (simp add: level_step_def Let_def k)
  have "leaves_of (?ls @ group_nodes K nid (ni ! d) cs) = map L (drop a rem) @ map L (drop (a + nl ! d) clients)"
    using leaves_of_leaves [OF L(1)] g(1) leaves by simp
  also have "\<dots> = map L (drop a clients)"
    using drop_take_split [OF le] rem by (simp flip: map_append)
  finally have "level_inv lo K L clients nl ni d (?ls @ group_nodes K nid (ni ! d) cs, take a rem, nid + ni ! d)"
    using rem g(2) L(1) le d by (auto simp: level_inv_def a_def is_leaf_map_def min_def)
  with step show ?thesis by auto
qed

lemma levels_ok:
  assumes K: "0 < lo" "lo \<le> K" "P \<le> K - lo" and fit: "levels_fit K P nl ni"
    and L: "is_leaf_map L" "\<forall>c \<in> set clients. leaf_of H i c = Inr (L c)"
    and sum: "sum_list nl = length clients" and "d \<le> length ni" and "level_inv lo K L clients nl ni d s"
  shows "\<exists>s'. foldR (level_step H i K (map int nl) ni) s (rev [1..<Suc d]) = Inr s'
    \<and> level_inv lo K L clients nl ni 0 s' \<and> snd (snd s') = snd (snd s) + sum_list (take d ni)"
  using assms(8-)
proof (induction d arbitrary: s)
  case 0
  then show ?case by simp
next
  case (Suc d)
  obtain cs rem nid where s: "s = (cs, rem, nid)" by (cases s)
  from level_step_ok [OF K fit L sum _ Suc.prems(2) [unfolded s]] Suc.prems(1) obtain t where
    t: "level_step H i K (map int nl) ni (cs, rem, nid) (Suc d) = Inr t"
      "level_inv lo K L clients nl ni d t" "snd (snd t) = nid + ni ! d" by auto
  from Suc.IH [OF _ t(2)] Suc.prems(1) obtain s' where
    s': "foldR (level_step H i K (map int nl) ni) t (rev [1..<Suc d]) = Inr s'"
      "level_inv lo K L clients nl ni 0 s'" "snd (snd s') = snd (snd t) + sum_list (take d ni)" by auto
  have "rev [1..<Suc (Suc d)] = Suc d # rev [1..<Suc d]" by simp
  moreover have "sum_list (take (Suc d) ni) = ni ! d + sum_list (take d ni)"
    using Suc.prems(1) by (simp add: take_Suc_conv_app_nth)
  ultimately show ?case using s s' t(1,3) by simp
qed

lemma build_tree_ok:
  assumes K: "0 < lo" "lo \<le> K" "P \<le> K - lo" and fit: "levels_fit K P nl ni"
    and L: "is_leaf_map L" "\<forall>c \<in> set clients. leaf_of H i c = Inr (L c)"
    and sum: "sum_list nl = length clients"
  shows "\<exists>cs r b. build_tree H i K (mk_node name) (clients, map int nl, ni) nid = Inr (SpNode name cs r b 0, nid + sum_list ni)
    \<and> leaves_of cs = map L clients \<and> tree_ok (SpNode name cs r b 0)
    \<and> length cs = nl ! 0 + (if ni = [] then 0 else ni ! 0) \<and> (\<forall>c \<in> set cs. arity_ok lo K c)"
proof (cases "ni = []")
  case True
  then have depth: "length nl = 1" using fit by (simp add: levels_fit_def)
  then have nl: "nl ! 0 = length clients" using sum by (cases nl) auto
  have "mapR (leaf_of H i) clients = Inr (map L clients)"
    by (rule mapR_Inr_map) (use L(2) in auto)
  then have b: "build_tree H i K (mk_node name) (clients, map int nl, ni) nid
      = Inr (add_children (mk_node name) (map L clients), nid)"
    using depth by (simp add: build_tree_def)
  have "\<forall>c \<in> set (map L clients). tree_ok c" using L(1) by (auto simp: is_leaf_map_def)
  from add_children_new [OF this] obtain r where
    "add_children (mk_node name) (map L clients)
       = SpNode name (map L clients) r (sum_list (map tree_bandwidth (map L clients))) 0"
    "tree_ok (add_children (mk_node name) (map L clients))" by metis
  with b L(1) nl True leaves_of_leaves [OF L(1)] show ?thesis
    by (auto simp: is_leaf_map_def)
next
  case False
  define d where "d = length ni"
  have d: "length nl = Suc d" "0 < d" using fit False by (simp_all add: levels_fit_def d_def)
  define a where "a = sum_list (take d nl)"
  have len: "a + nl ! d = length clients"
  proof -
    have "nl = take d nl @ [nl ! d]" using d(1) by (metis take_Suc_conv_app_nth lessI order_refl take_all)
    then have "sum_list nl = a + nl ! d" unfolding a_def by (metis sum_list_append sum_list.Cons sum_list.Nil add_0_right)
    then show ?thesis using sum by simp
  qed
  then have k: "int (length clients) - int (nl ! d) = int a" by simp
  have cs: "mapR (leaf_of H i) (drop a clients) = Inr (map L (drop a clients))"
    by (rule mapR_Inr_map) (use L(2) in \<open>auto dest: in_set_dropD\<close>)
  have inv: "level_inv lo K L clients nl ni d (map L (drop a clients), take a clients, nid)"
    using L(1) leaves_of_leaves [OF L(1)] len
    by (auto simp: level_inv_def a_def d_def is_leaf_map_def)
  from levels_ok [OF K fit L sum _ inv] d_def obtain cs' rem nid' where
    f: "foldR (level_step H i K (map int nl) ni) (map L (drop a clients), take a clients, nid) (rev [1..<Suc d])
        = Inr (cs', rem, nid')" "level_inv lo K L clients nl ni 0 (cs', rem, nid')"
      "nid' = nid + sum_list ni" by auto
  have b: "build_tree H i K (mk_node name) (clients, map int nl, ni) nid = Inr (add_children (mk_node name) cs', nid')"
    using d k cs f(1) by (simp add: build_tree_def Let_def del: upt_Suc)
  from f(2) have c: "leaves_of cs' = map L clients" "\<forall>c \<in> set cs'. tree_ok c \<and> arity_ok lo K c"
    "length cs' = nl ! 0 + ni ! 0"
    using False by (simp_all add: level_inv_def)
  then have "\<forall>c \<in> set cs'. tree_ok c" by blast
  from add_children_new [OF this] obtain r where
    "add_children (mk_node name) cs' = SpNode name cs' r (sum_list (map tree_bandwidth cs')) 0"
    "tree_ok (add_children (mk_node name) cs')" by metis
  with b c f(3) False show ?thesis by auto
qed

section \<open>The topologies that are built\<close>

lemma full_levels:
  "0 < K \<Longrightarrow> full_profile K b xs \<Longrightarrow> levels_fit K 0 xs (inner_counts K b xs)
     \<and> xs ! 0 + (if inner_counts K b xs = [] then 0 else inner_counts K b xs ! 0) = b"
proof (induction K b xs rule: full_profile.induct)
  case (3 K b x y xs)
  let ?ni = "inner_counts K ((b - x) * K) (y # xs)"
  have IH: "levels_fit K 0 (y # xs) ?ni" "y + (if ?ni = [] then 0 else ?ni ! 0) = (b - x) * K"
    using 3 by auto
  have "(x # y # xs) ! (d + 1) + (if d + 1 < length ((b - x) # ?ni) then ((b - x) # ?ni) ! (d + 1) else 0)
      = ((b - x) # ?ni) ! d * K" if "d < length ((b - x) # ?ni)" for d
    using that IH by (cases d) (auto simp: levels_fit_def split: if_splits)
  then show ?case
    using IH(1) 3(3) by (simp add: levels_fit_def)
qed (auto simp: levels_fit_def)

lemma levels_fit_dummies:
  assumes "levels_fit K 0 (add_dummies P nl) ni"
  shows "levels_fit K P nl ni"
proof -
  have len: "length nl = Suc (length ni)"
    using assms by (simp add: levels_fit_def add_dummies_def)
  then have last: "last nl = nl ! length ni"
    by (metis diff_Suc_1 last_conv_nth length_0_conv nat.distinct(1))
  show ?thesis
    unfolding levels_fit_def
  proof (intro conjI allI impI len)
    fix d
    assume d: "d < length ni"
    have "add_dummies P nl ! (d + 1) + (if d + 1 < length ni then ni ! (d + 1) else 0) = ni ! d * K"
      using assms d by (simp add: levels_fit_def)
    with d len last show "nl ! (d + 1) + (if d + 1 < length ni then ni ! (d + 1) else P) = ni ! d * K"
      by (cases "d + 1 < length ni") (auto simp: add_dummies_def nth_list_update not_less le_Suc_eq)
  qed
qed

text \<open>
  The cases in which the levels of the topology fit: few clients, the dynamic program, and the balanced tree
  of up to \<open>treeKary ^ 3\<close> clients.  \<open>min_children\<close> is the least number of children of an inner node below
  the root; the balanced tree may have a node with one child.
\<close>

definition tree_case :: "gurobi \<Rightarrow> sp_store \<Rightarrow> nat \<Rightarrow> nat \<Rightarrow> nat list \<Rightarrow> bool" where
  "tree_case gurobi H K mode clients \<longleftrightarrow> length clients \<le> K
     \<or> mode = 2 \<or> mode = 0 \<and> (gurobi = None \<or> weightVals (H (hd clients)) = [])
     \<or> (mode = 1 \<or> mode = 3) \<and> length clients \<le> K ^ 3"

definition min_children :: "nat \<Rightarrow> nat" where
  "min_children mode = (if mode = 1 \<or> mode = 3 then 1 else 2)"

lemma min_children_bounds: "0 < min_children mode" "2 \<le> K \<Longrightarrow> min_children mode \<le> K"
  by (simp_all add: min_children_def)

lemma dp_topology_fits:
  assumes "2 \<le> K" and "2 \<le> length clients" and "\<forall>c \<in> set clients. 0 \<le> latency (H c)"
  shows "\<exists>cl nl ni P. constructTreeTopologyUsingDP H clients K = Inr (cl, map int nl, ni)
    \<and> mset cl = mset clients \<and> sum_list nl = length cl \<and> P \<le> K - 2 \<and> levels_fit K P nl ni
    \<and> nl ! 0 + (if ni = [] then 0 else ni ! 0) \<le> K"
proof -
  obtain cl leaves ni where r: "constructTreeTopologyUsingDP H clients K = Inr (cl, leaves, ni)"
    using dp_topology_best [OF assms] by blast
  obtain nl P where leaves: "leaves = map int nl" and P: "P \<le> K - 2" "cl = sort_desc (\<lambda>c. latency (H c)) clients"
    "full_profile K K (add_dummies P nl)" "ni = inner_counts K K (add_dummies P nl)"
    "sum_list nl = length clients" "nl \<noteq> []"
    by (rule dp_topology_profile [OF assms r]) blast
  have K: "0 < K" using assms(1) by simp
  note full = full_levels [OF K P(3), folded P(4)]
  have "nl ! 0 \<le> add_dummies P nl ! 0"
    using P(6) by (cases "(K, K, nl)" rule: full_profile.cases) simp_all
  with full have "nl ! 0 + (if ni = [] then 0 else ni ! 0) \<le> K" by simp
  then show ?thesis
    using r leaves P(1,2,5) levels_fit_dummies [OF conjunct1 [OF full]]
    by (intro exI [of _ cl] exI [of _ nl] exI [of _ ni] exI [of _ P]) simp
qed

lemma balanced_topology_fits:
  assumes "2 \<le> K" and "K < length clients" and "length clients \<le> K ^ 3"
  shows "\<exists>cl nl ni P. constructBalancedTreeTopology H clients K = Some (Inr (cl, map int nl, ni))
    \<and> mset cl = mset clients \<and> sum_list nl = length cl \<and> P \<le> K - 1 \<and> levels_fit K P nl ni
    \<and> nl ! 0 + (if ni = [] then 0 else ni ! 0) \<le> K"
proof (rule constructBalancedTreeTopology_shape [OF assms(1,2), of H])
  fix u r i
  let ?d = "clog K (length clients)" and ?cl = "sort_desc (\<lambda>c. latency (H c)) clients"
  let ?nl = "replicate (?d - 2) 0 @ [u, r]" and ?ni = "replicate (?d - 2) K @ [i]" and ?P = "i * K - r"
  assume t: "constructBalancedTreeTopology H clients K = Some (Inr (?cl, map int ?nl, ?ni))"
    and s: "u + i = K ^ (?d - 1)" "u + r = length clients" "int i = cdiv (int r) (int K)" "2 \<le> ?d"
  have "int r \<le> int i * int K" "\<not> int r \<le> (int i - 1) * int K"
    using cdiv_le_iff [of "int K" "int r" "int i"] cdiv_le_iff [of "int K" "int r" "int i - 1"] s(3) assms(1)
    by simp_all
  then have "int r \<le> int (i * K)" "int (i * K) < int (r + K)" by (simp_all add: algebra_simps)
  then have "r \<le> i * K" "i * K < r + K" by (simp_all only: of_nat_le_iff of_nat_less_iff)
  then have P: "r + ?P = i * K" "?P \<le> K - 1" by simp_all
  have "?d = 2 \<or> ?d = 3"
  proof -
    have "K ^ (?d - 1) < K ^ 3"
      using clog_bounds [OF assms(1), of "length clients"] assms s(4) by linarith
    then have "?d - 1 < 3" using assms(1) by (simp add: power_strict_increasing_iff)
    with s(4) show ?thesis by linarith
  qed
  then consider "?nl = [u, r]" "?ni = [i]" "u + i = K"
    | "?nl = [0, u, r]" "?ni = [K, i]" "u + i = K * K"
    using s(1) by (auto simp: numeral_2_eq_2 numeral_3_eq_3)
  then have "levels_fit K ?P ?nl ?ni \<and> ?nl ! 0 + (if ?ni = [] then 0 else ?ni ! 0) \<le> K \<and> sum_list ?nl = u + r"
  proof cases
    case 1
    then show ?thesis using P(1) unfolding 1(1,2) by (simp add: levels_fit_def)
  next
    case 2
    then show ?thesis using P(1) unfolding 2(1,2) by (auto simp: levels_fit_def less_Suc_eq)
  qed
  with t s(2) P(2) show ?thesis
    by (intro exI [of _ ?cl] exI [of _ ?nl] exI [of _ ?ni] exI [of _ ?P]) simp
qed

lemma topology_fits:
  assumes "2 \<le> K" and "\<forall>c \<in> set clients. 0 \<le> latency (H c)" and "tree_case gurobi H K mode clients"
  shows "\<exists>cl nl ni P. constructScratchpadTreeTopology gurobi H clients K mode = Some (Inr (cl, map int nl, ni))
    \<and> mset cl = mset clients \<and> sum_list nl = length cl \<and> P \<le> K - min_children mode \<and> levels_fit K P nl ni
    \<and> nl ! 0 + (if ni = [] then 0 else ni ! 0) \<le> K"
proof (cases "length clients \<le> K")
  case True
  then show ?thesis
    by (intro exI [of _ clients] exI [of _ "[length clients]"] exI [of _ "[]"] exI [of _ 0])
      (simp add: constructScratchpadTreeTopology_def levels_fit_def)
next
  case False
  then have n: "2 \<le> length clients" "K < length clients" using assms(1) by simp_all
  from assms(3) False consider (dp) "mode = 2 \<or> mode = 0 \<and> (gurobi = None \<or> weightVals (H (hd clients)) = [])"
    | (balanced) "mode = 1 \<or> mode = 3" "length clients \<le> K ^ 3" by (auto simp: tree_case_def)
  then show ?thesis
  proof cases
    case dp
    then have "constructScratchpadTreeTopology gurobi H clients K mode = Some (constructTreeTopologyUsingDP H clients K)"
      "min_children mode = 2"
      using False by (auto simp: constructScratchpadTreeTopology_def min_children_def)
    with dp_topology_fits [OF assms(1) n(1) assms(2)] show ?thesis by simp
  next
    case balanced
    then have "constructScratchpadTreeTopology gurobi H clients K mode = constructBalancedTreeTopology H clients K"
      "min_children mode = 1"
      using False by (auto simp: constructScratchpadTreeTopology_def min_children_def)
    with balanced_topology_fits [OF assms(1) n(2) balanced(2), of H] show ?thesis by simp
  qed
qed

section \<open>Renumbering a controller's clients\<close>

definition remap_name :: "sp_store \<Rightarrow> nat \<Rightarrow> string" where
  "remap_name H c = (if length (controllerIdx (H c)) > 1 then sp_id (H c) @ ''*'' else sp_id (H c))"

definition same_clients :: "sp_store \<Rightarrow> sp_store \<Rightarrow> bool" where
  "same_clients H H' \<longleftrightarrow> (\<forall>c. H' c\<lparr>remappedIds := []\<rparr> = H c\<lparr>remappedIds := []\<rparr>)"

lemma same_clients_fields:
  assumes "same_clients H H'"
  shows "controllerIdx (H' c) = controllerIdx (H c)" and "sp_id (H' c) = sp_id (H c)"
    and "latency (H' c) = latency (H c)" and "sp_partition (H' c) = sp_partition (H c)"
    and "bandwidth (H' c) = bandwidth (H c)" and "weightVals (H' c) = weightVals (H c)"
    and "remap_name H' c = remap_name H c" and "getBandwidthFraction (H' c) i = getBandwidthFraction (H c) i"
    and "clients_of H' p i = clients_of H p i"
proof -
  have *: "H' c\<lparr>remappedIds := []\<rparr> = H c\<lparr>remappedIds := []\<rparr>" for c
    using assms by (simp add: same_clients_def)
  have f: "controllerIdx (H' c) = controllerIdx (H c) \<and> sp_id (H' c) = sp_id (H c)
    \<and> latency (H' c) = latency (H c) \<and> sp_partition (H' c) = sp_partition (H c)
    \<and> bandwidth (H' c) = bandwidth (H c) \<and> weightVals (H' c) = weightVals (H c)" for c
    using arg_cong [OF * [of c], of controllerIdx] arg_cong [OF * [of c], of sp_id]
      arg_cong [OF * [of c], of latency] arg_cong [OF * [of c], of sp_partition]
      arg_cong [OF * [of c], of bandwidth] arg_cong [OF * [of c], of weightVals] by simp
  show "controllerIdx (H' c) = controllerIdx (H c)" "sp_id (H' c) = sp_id (H c)"
    "latency (H' c) = latency (H c)" "sp_partition (H' c) = sp_partition (H c)"
    "bandwidth (H' c) = bandwidth (H c)" "weightVals (H' c) = weightVals (H c)"
    "remap_name H' c = remap_name H c" "getBandwidthFraction (H' c) i = getBandwidthFraction (H c) i"
    "clients_of H' p i = clients_of H p i"
    by (simp_all add: f remap_name_def getBandwidthFraction_def clients_of_def cong: if_cong)
qed

lemma same_clients_trans: "same_clients H H' \<Longrightarrow> same_clients H' H'' \<Longrightarrow> same_clients H H''"
  by (simp add: same_clients_def)

lemma put_fresh: "k \<notin> set (keys m) \<Longrightarrow> put k v m = m @ [(k, v)]"
  by (induction m) (auto simp: keys_def)

lemma remap_clients:
  assumes "keys ids = map str_of_nat [1..<n]" and "distinct cl" and "1 \<le> n"
    and "foldl (remap_client i) (H, ids, n) cl = (H', ids', n')"
  shows "n' = n + length cl \<and> same_clients H H'
    \<and> ids' = ids @ map (\<lambda>j. (str_of_nat (n + j), remap_name H (cl ! j))) [0..<length cl]
    \<and> keys ids' = map str_of_nat [1..<n']
    \<and> (\<forall>c. c \<notin> set cl \<longrightarrow> H' c = H c)
    \<and> (\<forall>j<length cl. map_of (remappedIds (H' (cl ! j))) i = Some (str_of_nat (n + j)))"
  using assms
proof (induction cl arbitrary: H ids n)
  case Nil
  then show ?case by (simp add: same_clients_def)
next
  case (Cons c cl)
  define H1 where "H1 = H(c := H c\<lparr>remappedIds := put i (str_of_nat n) (remappedIds (H c))\<rparr>)"
  have fresh: "str_of_nat n \<notin> set (keys ids)"
    using Cons.prems(1) by (auto simp: str_of_nat_inj)
  define ids1 where "ids1 = ids @ [(str_of_nat n, remap_name H c)]"
  have step: "remap_client i (H, ids, n) c = (H1, ids1, n + 1)"
    using put_fresh [OF fresh] by (simp add: H1_def ids1_def remap_name_def)
  have keys1: "keys ids1 = map str_of_nat [1..<n + 1]"
    using Cons.prems(1,3) by (simp add: ids1_def keys_def)
  have same: "same_clients H H1" by (simp add: H1_def same_clients_def)
  have rest: "foldl (remap_client i) (H1, ids1, n + 1) cl = (H', ids', n')"
    using Cons.prems(4) step by simp
  from Cons.IH [OF keys1 _ _ rest] Cons.prems(2) have IH:
    "n' = n + 1 + length cl" "same_clients H1 H'"
    "ids' = ids1 @ map (\<lambda>j. (str_of_nat (n + 1 + j), remap_name H1 (cl ! j))) [0..<length cl]"
    "keys ids' = map str_of_nat [1..<n']" "\<forall>c. c \<notin> set cl \<longrightarrow> H' c = H1 c"
    "\<forall>j<length cl. map_of (remappedIds (H' (cl ! j))) i = Some (str_of_nat (n + 1 + j))" by auto
  have "[0..<length (c # cl)] = 0 # map Suc [0..<length cl]"
    by (simp only: list.size add_Suc_right map_Suc_upt upt_conv_Cons zero_less_Suc) simp
  then have "ids' = ids @ map (\<lambda>j. (str_of_nat (n + j), remap_name H ((c # cl) ! j))) [0..<length (c # cl)]"
    using IH(3) same_clients_fields(7) [OF same] by (simp add: ids1_def comp_def)
  moreover have "map_of (remappedIds (H' c)) i = Some (str_of_nat n)"
    using IH(5) Cons.prems(2) by (simp add: H1_def map_of_put)
  then have "\<forall>j<length (c # cl). map_of (remappedIds (H' ((c # cl) ! j))) i = Some (str_of_nat (n + j))"
    using IH(6) by (auto simp: less_Suc_eq_0_disj)
  moreover have "\<forall>c'. c' \<notin> set (c # cl) \<longrightarrow> H' c' = H c'" using IH(5) by (simp add: H1_def)
  ultimately show ?case
    using IH(1,4) same_clients_trans [OF same IH(2)] by simp
qed

section \<open>All controllers and platforms\<close>

fun leaf_client :: "sp_tree \<Rightarrow> nat" where
  "leaf_client (SpLeaf c i b d) = c"
| "leaf_client (SpNode n cs r b d) = 0"

fun leaf_id :: "sp_tree \<Rightarrow> string" where
  "leaf_id (SpLeaf c i b d) = i"
| "leaf_id (SpNode n cs r b d) = []"

definition leaf_entry :: "sp_store \<Rightarrow> sp_tree \<Rightarrow> string \<times> string" where
  "leaf_entry H t = (leaf_id t, remap_name H (leaf_client t))"

text \<open>A tree that serves exactly the clients of a controller.\<close>

definition serves :: "sp_store \<Rightarrow> nat \<Rightarrow> nat \<Rightarrow> scratchpad_platform \<Rightarrow> nat \<Rightarrow> sp_tree \<Rightarrow> bool" where
  "serves H lo K p i t \<longleftrightarrow> mset (map leaf_client (tree_leaves t)) = mset (clients_of H p i) \<and> tree_ok t
     \<and> (\<exists>cs r b. t = SpNode (''root'' @ str_of_nat i) cs r b 0
          \<and> length cs \<le> K \<and> (\<forall>c \<in> set cs. arity_ok lo K c))"

definition numbered :: "sp_store \<Rightarrow> remap_state \<Rightarrow> sp_tree list \<Rightarrow> bool" where
  "numbered H0 rs ts \<longleftrightarrow>
     (case rs of (H, ids, n) \<Rightarrow> same_clients H0 H \<and> 1 \<le> n \<and> keys ids = map str_of_nat [1..<n]
        \<and> ids = map (leaf_entry H0) (leaves_of ts))"

definition clients_ok :: "sp_store \<Rightarrow> scratchpad_platform \<Rightarrow> bool" where
  "clients_ok H p \<longleftrightarrow> distinct (spp_clients p)
     \<and> (\<forall>c \<in> set (spp_clients p). 0 \<le> latency (H c) \<and> partition_ok (H c))"

text \<open>The cases in which the trees of a platform hold all clients.\<close>

definition trees_fit :: "gurobi \<Rightarrow> sp_store \<Rightarrow> nat \<Rightarrow> nat \<Rightarrow> scratchpad_platform \<Rightarrow> bool" where
  "trees_fit gurobi H K mode p \<longleftrightarrow> clients_ok H p
     \<and> (\<forall>i<length (spp_controllers p). tree_case gurobi H K mode (clients_of H p i))"

definition shuffle_ok :: "(nat list \<Rightarrow> nat list) \<Rightarrow> nat \<Rightarrow> bool" where
  "shuffle_ok shuffle mode \<longleftrightarrow> (mode = 3 \<longrightarrow> (\<forall>xs. mset (shuffle xs) = mset xs))"

lemma build_controller_ok:
  assumes K: "2 \<le> K" and sh: "shuffle_ok shuffle mode" and p: "clients_ok H0 p"
    and fit: "tree_case gurobi H0 K mode (clients_of H0 p i)" and num: "numbered H0 rs all_trees"
  shows "\<exists>rs' nid' t. build_controller gurobi shuffle K mode p ((rs, nid), trees) i = Some (Inr ((rs', nid'), trees @ [t]))
    \<and> numbered H0 rs' (all_trees @ [t]) \<and> serves H0 (min_children mode) K p i t"
proof -
  obtain H ids n where rs: "rs = (H, ids, n)" by (cases rs)
  have same: "same_clients H0 H" and n: "1 \<le> n" and keys: "keys ids = map str_of_nat [1..<n]"
    and ids: "ids = map (leaf_entry H0) (leaves_of all_trees)"
    using num by (auto simp: numbered_def rs)
  note f = same_clients_fields [OF same]
  let ?clients = "clients_of H0 p i"
  have cl0: "clients_of H p i = ?clients" by (rule f(9))
  have props: "distinct ?clients" "\<forall>c \<in> set ?clients. 0 \<le> latency (H c)"
    "\<forall>c \<in> set ?clients. partition_ok (H0 c) \<and> i \<in> set (controllerIdx (H0 c))"
    using p f(3) by (auto simp: clients_ok_def clients_of_def)
  have "tree_case gurobi H K mode ?clients" using fit f(6) by (simp add: tree_case_def)
  from topology_fits [OF K props(2) this] obtain cl0 nl ni P where
    t0: "constructScratchpadTreeTopology gurobi H ?clients K mode = Some (Inr (cl0, map int nl, ni))"
      "mset cl0 = mset ?clients" "sum_list nl = length cl0" and fits: "P \<le> K - min_children mode" "levels_fit K P nl ni"
      "nl ! 0 + (if ni = [] then 0 else ni ! 0) \<le> K" by blast
  define cl where "cl = (if mode = 3 then shuffle cl0 else cl0)"
  have t: "mset cl = mset ?clients" "sum_list nl = length cl"
  proof -
    have "mset cl = mset cl0" using sh by (simp add: cl_def shuffle_ok_def)
    with t0(2,3) show "mset cl = mset ?clients" "sum_list nl = length cl" by (simp, metis size_mset)
  qed
  have cl: "distinct cl" "set cl = set ?clients"
    using t(1) props(1) by (metis mset_eq_imp_distinct_iff, metis mset_eq_setD)
  obtain H' ids' n' where fold: "foldl (remap_client i) (H, ids, n) cl = (H', ids', n')"
    by (cases "foldl (remap_client i) (H, ids, n) cl")
  note r = remap_clients [OF keys cl(1) n fold]
  have same': "same_clients H0 H'" using same_clients_trans [OF same] r by blast
  define bw where "bw c = (case getBandwidthFraction (H0 c) i of Inr b \<Rightarrow> b | Inl _ \<Rightarrow> 0)" for c
  define L where "L c = mk_leaf c (the (map_of (remappedIds (H' c)) i)) (bw c)" for c
  have leaf: "is_leaf_map L" by (simp add: is_leaf_map_def L_def mk_leaf_def)
  have "leaf_of H' i c = Inr (L c)" if "c \<in> set cl" for c
  proof -
    obtain j where j: "j < length cl" "cl ! j = c" using \<open>c \<in> set cl\<close> by (auto simp: in_set_conv_nth)
    with r have "map_of (remappedIds (H' c)) i = Some (str_of_nat (n + j))" by blast
    moreover obtain b where "getBandwidthFraction (H0 c) i = Inr b"
      using getBandwidthFraction_returns props(3) cl(2) \<open>c \<in> set cl\<close> by blast
    ultimately show ?thesis
      using same_clients_fields(8) [OF same']
      by (simp add: leaf_of_def L_def bw_def get_key_def)
  qed
  then have leaves: "\<forall>c \<in> set cl. leaf_of H' i c = Inr (L c)" by blast
  from build_tree_ok [OF min_children_bounds(1) min_children_bounds(2) [OF K] fits(1,2) leaf leaves t(2), of "''root'' @ str_of_nat i" nid] obtain cs rng b where
    b: "build_tree H' i K (mk_node (''root'' @ str_of_nat i)) (cl, map int nl, ni) nid
        = Inr (SpNode (''root'' @ str_of_nat i) cs rng b 0, nid + sum_list ni)"
      "leaves_of cs = map L cl" "tree_ok (SpNode (''root'' @ str_of_nat i) cs rng b 0)"
      "length cs = nl ! 0 + (if ni = [] then 0 else ni ! 0)" "\<forall>c \<in> set cs. arity_ok (min_children mode) K c" by auto
  let ?t = "SpNode (''root'' @ str_of_nat i) cs rng b 0"
  have lv: "tree_leaves ?t = map L cl" using b(2) by simp
  have "map leaf_client (map L cl) = cl" by (simp add: L_def mk_leaf_def comp_def)
  then have serves: "serves H0 (min_children mode) K p i ?t"
    using b(3-5) t(1) fits(3) lv by (simp add: serves_def)
  have "map (\<lambda>j. (str_of_nat (n + j), remap_name H (cl ! j))) [0..<length cl] = map (leaf_entry H0) (map L cl)"
    by (rule nth_equalityI) (use r f(7) in \<open>auto simp: leaf_entry_def L_def mk_leaf_def\<close>)
  then have "ids' = map (leaf_entry H0) (leaves_of (all_trees @ [?t]))"
    using r ids lv by simp
  then have "numbered H0 (H', ids', n') (all_trees @ [?t])"
    using r same' n unfolding numbered_def prod.case by linarith
  moreover have "build_controller gurobi shuffle K mode p ((rs, nid), trees) i
      = Some (Inr (((H', ids', n'), nid + sum_list ni), trees @ [?t]))"
    using t0(1) fold b(1) by (simp add: build_controller_def rs cl0 flip: cl_def)
  ultimately show ?thesis using serves by blast
qed

lemma build_platform_ok:
  assumes K: "2 \<le> K" and sh: "shuffle_ok shuffle mode" and p: "trees_fit gurobi H0 K mode p" and num: "numbered H0 rs all_trees"
  shows "\<exists>rs' nid' ts. build_platform gurobi shuffle K mode ((rs, nid), ps) p
      = Some (Inr ((rs', nid'), ps @ [p\<lparr>spp_network := TreeNetwork ts, networkType := ''tree''\<rparr>]))
    \<and> numbered H0 rs' (all_trees @ ts) \<and> length ts = length (spp_controllers p)
    \<and> (\<forall>i<length ts. serves H0 (min_children mode) K p i (ts ! i))"
proof -
  have "\<exists>rs' nid' ts. foldO (build_controller gurobi shuffle K mode p) ((rs, nid), []) [0..<m] = Some (Inr ((rs', nid'), ts))
    \<and> numbered H0 rs' (all_trees @ ts) \<and> length ts = m \<and> (\<forall>i<m. serves H0 (min_children mode) K p i (ts ! i))"
    if "m \<le> length (spp_controllers p)" for m
    using that
  proof (induction m)
    case 0
    then show ?case using num by simp
  next
    case (Suc m)
    then have i: "m < length (spp_controllers p)" by simp
    from Suc obtain rs' nid' ts where IH:
      "foldO (build_controller gurobi shuffle K mode p) ((rs, nid), []) [0..<m] = Some (Inr ((rs', nid'), ts))"
      "numbered H0 rs' (all_trees @ ts)" "length ts = m" "\<forall>i<m. serves H0 (min_children mode) K p i (ts ! i)" by fastforce
    have "clients_ok H0 p" "tree_case gurobi H0 K mode (clients_of H0 p m)" using p i by (simp_all add: trees_fit_def)
    from build_controller_ok [OF K sh this IH(2)] obtain rs'' nid'' t where
      "build_controller gurobi shuffle K mode p ((rs', nid'), ts) m = Some (Inr ((rs'', nid''), ts @ [t]))"
      "numbered H0 rs'' ((all_trees @ ts) @ [t])" "serves H0 (min_children mode) K p m t" by blast
    with IH show ?case
      by (auto simp: foldO_append nth_append less_Suc_eq)
  qed
  from this [of "length (spp_controllers p)"] obtain rs' nid' ts where
    "foldO (build_controller gurobi shuffle K mode p) ((rs, nid), []) [0..<length (spp_controllers p)]
       = Some (Inr ((rs', nid'), ts))"
    "numbered H0 rs' (all_trees @ ts)" "length ts = length (spp_controllers p)"
    "\<forall>i<length (spp_controllers p). serves H0 (min_children mode) K p i (ts ! i)" by blast
  then show ?thesis
    by (intro exI [of _ rs'] exI [of _ nid'] exI [of _ ts]) (simp add: build_platform_def)
qed

definition platform_trees :: "scratchpad_platform \<Rightarrow> sp_tree list" where
  "platform_trees p = (case spp_network p of TreeNetwork ts \<Rightarrow> ts | _ \<Rightarrow> [])"

definition platform_served :: "sp_store \<Rightarrow> nat \<Rightarrow> nat \<Rightarrow> scratchpad_platform \<Rightarrow> scratchpad_platform \<Rightarrow> bool" where
  "platform_served H lo K p p' \<longleftrightarrow>
     p' = p\<lparr>spp_network := TreeNetwork (platform_trees p'), networkType := ''tree''\<rparr>
     \<and> length (platform_trees p') = length (spp_controllers p)
     \<and> (\<forall>i<length (spp_controllers p). serves H lo K p i (platform_trees p' ! i))"

lemma build_platforms_ok:
  assumes K: "2 \<le> K" and sh: "shuffle_ok shuffle mode" and "\<forall>p \<in> set platforms. trees_fit gurobi H0 K mode p" and "numbered H0 rs (concat (map platform_trees ps))"
  shows "\<exists>rs' nid' ps'. foldO (build_platform gurobi shuffle K mode) ((rs, nid), ps) platforms
      = Some (Inr ((rs', nid'), ps @ ps'))
    \<and> numbered H0 rs' (concat (map platform_trees (ps @ ps')))
    \<and> list_all2 (platform_served H0 (min_children mode) K) platforms ps'"
  using assms(3,4)
proof (induction platforms arbitrary: rs nid ps)
  case Nil
  then show ?case by (intro exI [of _ rs] exI [of _ nid] exI [of _ "[]"]) simp
next
  case (Cons p platforms)
  have p: "trees_fit gurobi H0 K mode p" using Cons.prems(1) by simp
  from build_platform_ok [OF K sh p Cons.prems(2)] obtain rs1 nid1 ts where
    b: "build_platform gurobi shuffle K mode ((rs, nid), ps) p
        = Some (Inr ((rs1, nid1), ps @ [p\<lparr>spp_network := TreeNetwork ts, networkType := ''tree''\<rparr>]))"
      "numbered H0 rs1 (concat (map platform_trees ps) @ ts)" "length ts = length (spp_controllers p)"
      "\<forall>i<length ts. serves H0 (min_children mode) K p i (ts ! i)" by blast
  let ?p = "p\<lparr>spp_network := TreeNetwork ts, networkType := ''tree''\<rparr>"
  have ts: "platform_trees ?p = ts" by (simp add: platform_trees_def)
  have num: "numbered H0 rs1 (concat (map platform_trees (ps @ [?p])))" using b(2) ts by simp
  from Cons.IH [OF _ num] Cons.prems(1) obtain rs' nid' ps' where
    "foldO (build_platform gurobi shuffle K mode) ((rs1, nid1), ps @ [?p]) platforms
      = Some (Inr ((rs', nid'), (ps @ [?p]) @ ps'))"
    "numbered H0 rs' (concat (map platform_trees ((ps @ [?p]) @ ps')))"
    "list_all2 (platform_served H0 (min_children mode) K) platforms ps'" by (metis list.set_intros(2))
  moreover have "platform_served H0 (min_children mode) K p ?p"
    using b(3,4) ts by (simp add: platform_served_def)
  ultimately show ?case
    using b(1) by (intro exI [of _ rs'] exI [of _ nid'] exI [of _ "?p # ps'"]) simp
qed


section \<open>Ranges of ids\<close>

abbreviation "leaf_nums t \<equiv> map (\<lambda>l. nat_of_str (leaf_id l)) (tree_leaves t)"

lemma arity_ok_mono: "arity_ok lo hi t \<Longrightarrow> lo' \<le> lo \<Longrightarrow> hi \<le> hi' \<Longrightarrow> arity_ok lo' hi' t"
  by (induction lo hi t rule: arity_ok.induct) auto

lemma interval_parts:
  "concat xss = [a..<b] \<Longrightarrow> xs \<in> set xss \<Longrightarrow> \<exists>c d. xs = [c..<d]"
proof (induction xss arbitrary: a)
  case Nil
  then show ?case by simp
next
  case (Cons ys xss)
  have app: "ys @ concat xss = [a..<b]" using Cons.prems(1) by simp
  then have parts: "ys = take (length ys) [a..<b]" "concat xss = drop (length ys) [a..<b]"
    by (simp_all flip: app)
  have len: "length ys \<le> b - a" using arg_cong [OF app, of length] by simp
  have "ys = [a..<a + length ys]"
  proof (cases "ys = []")
    case False
    then have "0 < length ys" by simp
    with len have "a + length ys \<le> b" by linarith
    with parts(1) show ?thesis by (metis take_upt)
  qed simp
  then have split: "\<exists>d. ys = [a..<d]" "concat xss = [a + length ys..<b]"
    using parts(2) by (blast, simp)
  show ?case
    using Cons.IH [OF split(2)] Cons.prems(2) split(1) by auto
qed

lemma node_range:
  assumes "tree_ok t" and "arity_ok 1 hi t" and "leaf_nums t = [a..<b]"
  shows "a < b \<and> idRange t = (a, b - 1)"
  using assms
proof (induction t arbitrary: a b)
  case (SpLeaf c i bw d)
  then have eq: "[nat_of_str i] = [a..<b]" by simp
  have "1 = b - a" using arg_cong [OF eq, of length] by (simp only: length_upt list.size)
  then have "b = Suc a" by linarith
  with eq show ?case by simp
next
  case (SpNode n cs r bw d)
  let ?lo = "\<lambda>c. fst (idRange c)" and ?hi = "\<lambda>c. snd (idRange c)"
  have ne: "cs \<noteq> []" using SpNode.prems(2) by auto
  have all: "concat (map leaf_nums cs) = [a..<b]" using SpNode.prems(3) by (simp add: map_concat comp_def)
  have part: "\<exists>c d. leaf_nums t = [c..<d] \<and> c < d \<and> idRange t = (c, d - 1)" if "t \<in> set cs" for t
  proof -
    have "leaf_nums t \<in> set (map leaf_nums cs)" using that by simp
    from interval_parts [OF all this] obtain c d where "leaf_nums t = [c..<d]" by blast
    moreover have "tree_ok t" "arity_ok 1 hi t" using SpNode.prems(1,2) that by auto
    ultimately show ?thesis using SpNode.IH [OF that] by blast
  qed
  have mem: "x \<in> {a..<b} \<longleftrightarrow> (\<exists>t \<in> set cs. ?lo t \<le> x \<and> x \<le> ?hi t)" for x
  proof -
    have "x \<in> {a..<b} \<longleftrightarrow> x \<in> set (concat (map leaf_nums cs))" by (simp only: all set_upt)
    also have "\<dots> \<longleftrightarrow> (\<exists>t \<in> set cs. x \<in> set (leaf_nums t))" by simp
    also have "\<dots> \<longleftrightarrow> (\<exists>t \<in> set cs. ?lo t \<le> x \<and> x \<le> ?hi t)"
    proof (rule bex_cong [OF refl])
      fix t
      assume "t \<in> set cs"
      from part [OF this] obtain c d where c: "leaf_nums t = [c..<d]" "c < d" "idRange t = (c, d - 1)" by blast
      then show "x \<in> set (leaf_nums t) \<longleftrightarrow> ?lo t \<le> x \<and> x \<le> ?hi t"
        unfolding c(1,3) by auto
    qed
    finally show ?thesis .
  qed
  have ends: "?lo t \<le> ?hi t" "a \<le> ?lo t" "?hi t < b" if "t \<in> set cs" for t
  proof -
    show le: "?lo t \<le> ?hi t" using part [OF that] by auto
    show "a \<le> ?lo t" "?hi t < b" using mem [of "?lo t"] mem [of "?hi t"] that le by auto
  qed
  from ne obtain t where "t \<in> set cs" by (cases cs) auto
  with ends [OF this] have ab: "a < b" by simp
  obtain t1 where t1: "t1 \<in> set cs" "?lo t1 = a"
    using mem [of a] ab ends(2) by (auto intro: le_antisym)
  obtain t2 where t2: "t2 \<in> set cs" "?hi t2 = b - 1"
  proof -
    from mem [of "b - 1"] ab obtain u where "u \<in> set cs" "b - 1 \<le> ?hi u" by auto
    with ends(3) [of u] that [of u] show thesis by simp
  qed
  have "Min (set (map ?lo cs)) = a"
    by (rule Min_eqI) (use ends(2) t1 in auto)
  moreover have "Max (set (map ?hi cs)) = b - 1"
  proof (rule Max_eqI)
    show "b - 1 \<in> set (map ?hi cs)" using t2 by (metis image_eqI set_map)
    show "y \<le> b - 1" if "y \<in> set (map ?hi cs)" for y
      using that ends(3) by fastforce
  qed simp
  moreover have "fst r = Min (set (map ?lo cs))" "snd r = Max (set (map ?hi cs))"
    using SpNode.prems(1) ne by simp_all
  ultimately show ?case using ab by (simp add: prod_eq_iff)
qed

lemma subtree_interval:
  assumes "tree_ok t" and "arity_ok 1 hi t" and "leaf_nums t = [a..<b]" and "s \<in> set (traverse_post_order t)"
  shows "tree_ok s \<and> arity_ok 1 hi s \<and> (\<exists>c d. leaf_nums s = [c..<d]) \<and> set (tree_leaves s) \<subseteq> set (tree_leaves t)"
  using assms
proof (induction t arbitrary: a b)
  case (SpLeaf c i bw d)
  then show ?case by auto
next
  case (SpNode n cs r bw d)
  show ?case
  proof (cases "s = SpNode n cs r bw d")
    case True
    then show ?thesis using SpNode.prems by auto
  next
    case False
    then obtain t where t: "t \<in> set cs" "s \<in> set (traverse_post_order t)" using SpNode.prems(4) by auto
    have all: "concat (map leaf_nums cs) = [a..<b]" using SpNode.prems(3) by (simp add: map_concat comp_def)
    have "leaf_nums t \<in> set (map leaf_nums cs)" using t(1) by simp
    from interval_parts [OF all this] obtain c d where "leaf_nums t = [c..<d]" by blast
    from SpNode.IH [OF t(1) _ _ this t(2)] SpNode.prems(1,2) t(1) show ?thesis by auto
  qed
qed


section \<open>Examples\<close>

definition tree_example :: sp_store where
  "tree_example c = topology_example c\<lparr>sp_id := ''s'' @ str_of_nat c, controllerIdx := [0]\<rparr>"

definition example_controller :: li_service where
  "example_controller = \<lparr>svc_name = ''ctrl'', svc_platform = ''FPGA0'', svc_isClient = False,
     client_idx = [], req_bitwidth = 64, resp_bitwidth = 64, idx_bitwidth = 8\<rparr>"

definition example_platform :: "nat \<Rightarrow> scratchpad_platform" where
  "example_platform n = mk_ScratchpadPlatform ''FPGA0'' 0 ''remap.bsv''
     \<lparr>spp_clients := [0..<n], spp_controllers := [example_controller]\<rparr>"

lemma example_platform_ok: "clients_ok tree_example (example_platform n)"
  by (simp add: clients_ok_def tree_example_def topology_example_def example_platform_def
      mk_Scratchpad_def partition_ok_def)

lemma example_trees_fit: "mode = 2 \<Longrightarrow> trees_fit gurobi tree_example K mode (example_platform n)"
  "K = 2 \<Longrightarrow> n \<le> 8 \<Longrightarrow> mode = 3 \<Longrightarrow> trees_fit gurobi tree_example K mode (example_platform n)"
proof -
  have "length (clients_of tree_example (example_platform n) i) \<le> n" for i
    unfolding clients_of_def by (rule order_trans [OF length_filter_le]) (simp add: example_platform_def)
  then show "mode = 2 \<Longrightarrow> trees_fit gurobi tree_example K mode (example_platform n)"
    "K = 2 \<Longrightarrow> n \<le> 8 \<Longrightarrow> mode = 3 \<Longrightarrow> trees_fit gurobi tree_example K mode (example_platform n)"
    by (auto simp: trees_fit_def tree_case_def example_platform_ok intro: order_trans)
qed


lemma tree_example_built:
  "\<exists>H' ids p. buildScratchpadTrees None id tree_example [example_platform 3] 2 2 = Some (Inr (H', ids, [p]))
    \<and> platform_trees p = [SpNode ''root0'' [SpLeaf 2 ''1'' 1 0,
         SpNode ''n1'' [SpLeaf 1 ''2'' 1 0, SpLeaf 0 ''3'' 1 0] (2, 3) 2 0] (1, 3) 3 0]"
proof -
  have "case buildScratchpadTrees None id tree_example [example_platform 3] 2 2 of
      Some (Inr (H', ids, [p])) \<Rightarrow> platform_trees p = [SpNode ''root0'' [SpLeaf 2 ''1'' 1 0,
         SpNode ''n1'' [SpLeaf 1 ''2'' 1 0, SpLeaf 0 ''3'' 1 0] (2, 3) 2 0] (1, 3) 3 0]
    | _ \<Rightarrow> False"
    by code_simp
  then show ?thesis by (auto split: option.splits sum.splits prod.splits list.splits)
qed


text \<open>
  With the balanced topology (\<open>treeMode\<close> one) clients are lost: nine clients of one controller
  and binary nodes give nine new ids but a tree with four leaves.
\<close>

theorem buildScratchpadTrees_balanced_loses_clients:
  "\<exists>H' ids p. buildScratchpadTrees None id tree_example [example_platform 9] 2 1 = Some (Inr (H', ids, [p]))
    \<and> length ids = 9 \<and> length (leaves_of (platform_trees p)) = 4"
proof -
  have "case buildScratchpadTrees None id tree_example [example_platform 9] 2 1 of
      Some (Inr (H', ids, [p])) \<Rightarrow> length ids = 9 \<and> length (leaves_of (platform_trees p)) = 4
    | _ \<Rightarrow> False"
    by code_simp
  then show ?thesis by (auto split: option.splits sum.splits prod.splits list.splits)
qed

end
