(* ===== verification/Patterns.thy ===== *)
theory Patterns
  imports Prelude
begin

text \<open>
  The regular expressions of the program: sequences of literals, alternatives of literals and
  greedy repetitions of a character class, some of them captured.  \<open>re_match\<close> and
  \<open>re_search\<close> return the captured groups of the first match in Python's order of backtracking.
  Also here: \<open>split\<close>, and \<open>int\<close> and \<open>float\<close> of a string.
\<close>

section \<open>Patterns\<close>

datatype pat =
    Lit string
  | OneOf "string list"
  | Rep nat "char \<Rightarrow> bool"
  | Cap nat "char \<Rightarrow> bool"
  | Eol

definition any_char :: "char \<Rightarrow> bool" where
  "any_char c \<longleftrightarrow> c \<noteq> CHR 0x0A"

definition char_range :: "char \<Rightarrow> char \<Rightarrow> char \<Rightarrow> bool" where
  "char_range lo hi c \<longleftrightarrow> \<not> (c < lo \<or> hi < c)"

definition is_alpha :: "char \<Rightarrow> bool" where
  "is_alpha c \<longleftrightarrow> char_range (CHR ''A'') (CHR ''Z'') c \<or> char_range (CHR ''a'') (CHR ''z'') c"

definition is_word :: "char \<Rightarrow> bool" where
  "is_word c \<longleftrightarrow> is_alpha c \<or> is_digit c \<or> c = CHR ''_''"

definition is_space :: "char \<Rightarrow> bool" where
  "is_space c \<longleftrightarrow> c = CHR '' '' \<or> 9 \<le> (of_char c :: nat) \<and> (of_char c :: nat) \<le> 13"

definition run_of :: "(char \<Rightarrow> bool) \<Rightarrow> string \<Rightarrow> nat" where
  "run_of p s = length (takeWhile p s)"

definition starts_with :: "string \<Rightarrow> string \<Rightarrow> bool" where
  "starts_with t s \<longleftrightarrow> take (length t) s = t"

text \<open>Greedy repetition: the longest run first, down to \<open>lo\<close> characters.\<close>

primrec try_down :: "(nat \<Rightarrow> 'a option) \<Rightarrow> nat \<Rightarrow> nat \<Rightarrow> 'a option" where
  "try_down f lo 0 = (if lo = 0 then f 0 else None)"
| "try_down f lo (Suc k) =
     (if Suc k < lo then None
      else case f (Suc k) of Some r \<Rightarrow> Some r | None \<Rightarrow> try_down f lo k)"

fun first_some :: "'a option list \<Rightarrow> 'a option" where
  "first_some [] = None"
| "first_some (Some x # xs) = Some x"
| "first_some (None # xs) = first_some xs"

primrec re_match :: "pat list \<Rightarrow> string \<Rightarrow> string list option" where
  "re_match [] s = Some []"
| "re_match (p # ps) s =
     (case p of
        Lit t \<Rightarrow> if starts_with t s then re_match ps (drop (length t) s) else None
      | OneOf ts \<Rightarrow> first_some (map (\<lambda>t. if starts_with t s then re_match ps (drop (length t) s) else None) ts)
      | Rep lo c \<Rightarrow> try_down (\<lambda>k. re_match ps (drop k s)) lo (run_of c s)
      | Cap lo c \<Rightarrow> try_down (\<lambda>k. map_option ((#) (take k s)) (re_match ps (drop k s))) lo (run_of c s)
      | Eol \<Rightarrow> if s = [] \<or> s = [CHR 0x0A] then re_match ps s else None)"

primrec re_search :: "pat list \<Rightarrow> string \<Rightarrow> string list option" where
  "re_search ps [] = re_match ps []"
| "re_search ps (c # s) =
     (case re_match ps (c # s) of Some r \<Rightarrow> Some r | None \<Rightarrow> re_search ps s)"

section \<open>Splitting and numbers\<close>

text \<open>\<open>s.split(c)\<close>: the parts between the separators, one more than there are separators.\<close>

fun split_on :: "char \<Rightarrow> string \<Rightarrow> string list" where
  "split_on c [] = [[]]"
| "split_on c (x # xs) =
     (if x = c then [] # split_on c xs
      else (case split_on c xs of [] \<Rightarrow> [[x]] | p # ps \<Rightarrow> (x # p) # ps))"

text \<open>\<open>''.join(s.split())\<close> drops every blank.\<close>

definition drop_blanks :: "string \<Rightarrow> string" where
  "drop_blanks s = filter (\<lambda>c. \<not> is_space c) s"

definition strip :: "string \<Rightarrow> string" where
  "strip s = rev (dropWhile is_space (rev (dropWhile is_space s)))"

text \<open>\<open>int(s)\<close>\<close>

definition unsigned :: "string \<Rightarrow> bool" where
  "unsigned s \<longleftrightarrow> s \<noteq> [] \<and> (\<forall>c \<in> set s. is_digit c)"

definition py_int :: "string \<Rightarrow> int res" where
  "py_int s =
     (case strip s of
        [] \<Rightarrow> Inl ValueError
      | c # t \<Rightarrow>
          if c = CHR ''-'' \<and> unsigned t then Inr (- int (nat_of_str t))
          else if c = CHR ''+'' \<and> unsigned t then Inr (int (nat_of_str t))
          else if unsigned (c # t) then Inr (int (nat_of_str (c # t)))
          else Inl ValueError)"

text \<open>
  \<open>float(s)\<close> for decimal notation with an optional sign; exponents and the special values are not
  used in statistics files and are treated as malformed.
\<close>

definition unsigned_float :: "string \<Rightarrow> rat res" where
  "unsigned_float s =
     (case split_on (CHR ''.'') s of
        [w] \<Rightarrow> if unsigned w then Inr (of_nat (nat_of_str w)) else Inl ValueError
      | [w, f] \<Rightarrow>
          if (unsigned w \<or> w = []) \<and> (unsigned f \<or> f = []) \<and> \<not> (w = [] \<and> f = [])
          then Inr (of_nat (nat_of_str w) + of_nat (nat_of_str f) / 10 ^ length f)
          else Inl ValueError
      | _ \<Rightarrow> Inl ValueError)"

definition py_float :: "string \<Rightarrow> rat res" where
  "py_float s =
     (case strip s of
        [] \<Rightarrow> Inl ValueError
      | c # t \<Rightarrow>
          if c = CHR ''-'' then bindR (unsigned_float t) (\<lambda>q. Inr (- q))
          else if c = CHR ''+'' then unsigned_float t
          else unsigned_float (c # t))"

section \<open>What a match says\<close>

lemma try_down_Some:
  "try_down f lo k = Some r \<Longrightarrow> \<exists>i. lo \<le> i \<and> i \<le> k \<and> f i = Some r \<and> (\<forall>j. i < j \<and> j \<le> k \<longrightarrow> f j = None)"
proof (induction k)
  case 0
  then show ?case by (auto split: if_splits)
next
  case (Suc k)
  show ?case
  proof (cases "f (Suc k)")
    case None
    with Suc.prems have "try_down f lo k = Some r" by (simp split: if_splits)
    from Suc.IH [OF this] obtain i where
      "lo \<le> i" "i \<le> k" "f i = Some r" "\<forall>j. i < j \<and> j \<le> k \<longrightarrow> f j = None" by blast
    with None show ?thesis by (intro exI [of _ i]) (auto simp: le_Suc_eq)
  next
    case (Some x)
    with Suc.prems show ?thesis by (intro exI [of _ "Suc k"]) (auto split: if_splits)
  qed
qed

lemma try_down_None:
  "try_down f lo k = None \<longleftrightarrow> (\<forall>i. lo \<le> i \<and> i \<le> k \<longrightarrow> f i = None)"
proof (induction k)
  case 0
  then show ?case by auto
next
  case (Suc k)
  show ?case
  proof (cases "f (Suc k)")
    case None
    with Suc show ?thesis by (auto simp: le_Suc_eq)
  next
    case (Some x)
    then show ?thesis by (auto intro!: exI [of _ "Suc k"])
  qed
qed

lemma starts_with_append [simp]: "starts_with t (t @ s)"
  by (simp add: starts_with_def)

lemma run_of_take: "\<forall>c \<in> set (take k s). p c \<Longrightarrow> k \<le> length s \<Longrightarrow> k \<le> run_of p s"
proof (induction s arbitrary: k)
  case Nil
  then show ?case by (simp add: run_of_def)
next
  case (Cons x s)
  show ?case
  proof (cases k)
    case (Suc m)
    with Cons.prems have "p x" "\<forall>c \<in> set (take m s). p c" "m \<le> length s" by auto
    with Cons.IH [of m] Suc show ?thesis by (simp add: run_of_def)
  qed simp
qed

lemma set_take_run: "c \<in> set (take k s) \<Longrightarrow> k \<le> run_of p s \<Longrightarrow> p c"
  by (metis run_of_def set_takeWhileD set_take_subset_set_take subsetD takeWhile_eq_take)

lemma split_on_not_Nil [simp]: "split_on c s \<noteq> []"
  by (induction s) (auto split: list.splits)

lemma split_on_join: "concat (map (\<lambda>p. c # p) (split_on c s)) = c # s"
proof (induction s)
  case Nil
  then show ?case by simp
next
  case (Cons x s)
  then show ?case by (cases "split_on c s") auto
qed

lemma split_on_no_sep: "p \<in> set (split_on c s) \<Longrightarrow> c \<notin> set p"
proof (induction s arbitrary: p)
  case (Cons x s)
  then show ?case by (cases "split_on c s") (auto split: if_splits)
qed simp

lemma split_on_single [simp]: "c \<notin> set s \<Longrightarrow> split_on c s = [s]"
  by (induction s) auto

lemma split_on_append: "c \<notin> set s \<Longrightarrow> split_on c (s @ c # t) = s # split_on c t"
  by (induction s) auto

lemma unsigned_str_of_nat [simp]: "unsigned (str_of_nat n)"
  using str_of_nat_digits by (simp add: unsigned_def)

lemma is_digit_not_space: "is_digit c \<Longrightarrow> \<not> is_space c"
  by (auto simp: is_digit_def is_space_def)

lemma dropWhile_none: "\<forall>c \<in> set s. \<not> p c \<Longrightarrow> dropWhile p s = s"
  by (cases s) auto

lemma strip_unsigned: "unsigned s \<Longrightarrow> strip s = s"
  by (simp add: strip_def unsigned_def is_digit_not_space dropWhile_none)

lemma py_int_str_of_nat [simp]: "py_int (str_of_nat n) = Inr (int n)"
proof -
  obtain c t where s: "str_of_nat n = c # t" by (cases "str_of_nat n") auto
  have "is_digit c" using str_of_nat_digits [of n] s by auto
  then have "c \<noteq> CHR ''-''" "c \<noteq> CHR ''+''" by (auto simp: is_digit_def)
  moreover have "unsigned (c # t)" using s unsigned_str_of_nat [of n] by simp
  moreover from this have "strip (c # t) = c # t" by (rule strip_unsigned)
  moreover have "nat_of_str (c # t) = n" using s nat_of_str_of_nat [of n] by simp
  ultimately show ?thesis by (simp add: py_int_def s)
qed

end
