(* ===== verification/ScratchpadStats.thy ===== *)
theory ScratchpadStats
  imports Scratchpads Patterns
begin

text \<open>
  \<^verbatim>\<open>lim_memory/remap-scratchpad/remapScratchpad.py\<close>, \<open>parseStatsFile\<close>: the statistics of an
  earlier run (traffic, partitions, ring levels, latencies, bandwidths and priorities) are
  read into the clients.  A file is the list of its lines.
\<close>

section \<open>The lines\<close>

definition stat_number :: "char \<Rightarrow> bool" where
  "stat_number c \<longleftrightarrow> is_digit c \<or> c = CHR ''.''"

definition requests_pat :: "pat list" where
  "requests_pat = [Lit ''LEAP_SCRATCHPAD_'', Cap 1 is_digit, Lit ''_PLATFORM_'', Cap 1 is_digit,
     Lit ''_'', OneOf [''READ'', ''WRITE''], Lit ''_REQUESTS,'', Rep 0 any_char, Lit '','', Cap 1 is_digit]"

definition partition_pat :: "pat list" where
  "partition_pat = [Lit ''Scratchpad bandwidth partition:'', Rep 0 is_space, Lit ''ID:'', Rep 0 is_space,
     Cap 1 is_digit, Rep 0 any_char, Lit ''Ratio:'', Cap 0 any_char]"

definition hierarchy_pat :: "pat list" where
  "hierarchy_pat = [Lit ''Scratchpad hierarchical ring assignment:'', Cap 0 any_char]"

definition latency_pat :: "pat list" where
  "latency_pat = [Lit ''LEAP_SCRATCHPAD_'', Cap 1 is_digit, Lit ''_PLATFORM_'', Cap 1 is_digit,
     Lit ''_LATENCY,'', Cap 1 stat_number, Lit '' ('', Cap 1 any_char, Lit '')'']"

definition bandwidth_pat :: "pat list" where
  "bandwidth_pat = [Lit ''LEAP_SCRATCHPAD_'', Cap 1 is_digit, Lit ''_PLATFORM_'', Cap 1 is_digit,
     Lit ''_BANDWIDTH,'', Cap 1 is_digit]"

definition priority_pat :: "pat list" where
  "priority_pat = [Lit ''LEAP_SCRATCHPAD_'', Cap 1 is_digit, Lit ''_PLATFORM_'', Cap 1 is_digit,
     Lit ''_PRIORITY,'', Cap 1 is_digit]"

text \<open>\<open>next((x for x in clients if x.id == ident), None)\<close>\<close>

definition client_by_id :: "sp_store \<Rightarrow> nat list \<Rightarrow> string \<Rightarrow> nat option" where
  "client_by_id H clients ident = find (\<lambda>c. sp_id (H c) = ident) clients"

definition update_client ::
  "sp_store \<Rightarrow> nat list \<Rightarrow> string \<Rightarrow> (scratchpad \<Rightarrow> scratchpad) \<Rightarrow> sp_store" where
  "update_client H clients ident f =
     (case client_by_id H clients ident of None \<Rightarrow> H | Some c \<Rightarrow> H(c := f (H c)))"

text \<open>
  The ratio \<open>a:b:c\<close>, largest part first; a single part is no partition.  The conversion is only
  made when the client exists.
\<close>

definition parse_ratio :: "string \<Rightarrow> int list res" where
  "parse_ratio s =
     bindR (mapR py_int (split_on (CHR '':'') (drop_blanks s))) (\<lambda>ps.
       Inr (if length ps > 1 then sort_desc id ps else []))"

definition set_partition :: "sp_store \<Rightarrow> nat list \<Rightarrow> string \<Rightarrow> string \<Rightarrow> sp_store res" where
  "set_partition H clients ident ratio =
     (case client_by_id H clients ident of
        None \<Rightarrow> Inr H
      | Some c \<Rightarrow> bindR (parse_ratio ratio) (\<lambda>ps. Inr (H(c := H c\<lparr>sp_partition := ps\<rparr>))))"

text \<open>\<open>re.findall("\([0-9,]*\)", s)\<close> without the parentheses.\<close>

definition ring_char :: "char \<Rightarrow> bool" where
  "ring_char c \<longleftrightarrow> is_digit c \<or> c = CHR '',''"

fun ring_groups :: "string \<Rightarrow> string list" where
  "ring_groups [] = []"
| "ring_groups (c # s) =
     (if c = CHR ''('' \<and> starts_with '')'' (dropWhile ring_char s)
      then takeWhile ring_char s # ring_groups s else ring_groups s)"

definition set_levels :: "sp_store \<Rightarrow> nat list \<Rightarrow> string \<Rightarrow> sp_store" where
  "set_levels H clients s =
     foldl (\<lambda>H (i, lvl).
         if i = 0 then H
         else foldl (\<lambda>H n. update_client H clients n (\<lambda>c. c\<lparr>level := i\<rparr>)) H (split_on (CHR '','') lvl))
       H (zip [0..<length (ring_groups s)] (ring_groups s))"

definition set_latency :: "sp_store \<Rightarrow> nat list \<Rightarrow> string \<Rightarrow> string \<Rightarrow> string \<Rightarrow> sp_store res" where
  "set_latency H clients ident lat ws =
     (case client_by_id H clients ident of
        None \<Rightarrow> Inr H
      | Some c \<Rightarrow>
          bindR (py_float lat) (\<lambda>l.
          bindR (mapR py_float (split_on (CHR '' '') ws)) (\<lambda>vs.
            Inr (H(c := H c\<lparr>latency := l, weightVals := vs\<rparr>)))))"

definition stats_line :: "nat list \<Rightarrow> sp_store \<Rightarrow> string \<Rightarrow> sp_store res" where
  "stats_line clients H line =
     (if starts_with ''//'' line then Inr H
      else (case re_match requests_pat line of
        Some gs \<Rightarrow> Inr (update_client H clients (gs ! 0)
          (\<lambda>c. c\<lparr>traffic := traffic c + int (nat_of_str (gs ! 2))\<rparr>))
      | None \<Rightarrow> (case re_match partition_pat line of
        Some gs \<Rightarrow> set_partition H clients (gs ! 0) (gs ! 1)
      | None \<Rightarrow> (case re_match hierarchy_pat line of
        Some gs \<Rightarrow> Inr (set_levels H clients (gs ! 0))
      | None \<Rightarrow> (case re_match latency_pat line of
        Some gs \<Rightarrow> set_latency H clients (gs ! 0) (gs ! 2) (gs ! 3)
      | None \<Rightarrow> (case re_match bandwidth_pat line of
        Some gs \<Rightarrow> Inr (update_client H clients (gs ! 0) (\<lambda>c. c\<lparr>bandwidth := int (nat_of_str (gs ! 2))\<rparr>))
      | None \<Rightarrow> (case re_match priority_pat line of
        Some gs \<Rightarrow> Inr (update_client H clients (gs ! 0) (\<lambda>c. c\<lparr>priority := int (nat_of_str (gs ! 2))\<rparr>))
      | None \<Rightarrow> Inr H)))))))"

definition parseStatsFile :: "sp_store \<Rightarrow> nat list \<Rightarrow> string list list \<Rightarrow> sp_store res" where
  "parseStatsFile H clients files = foldR (stats_line clients) H (concat files)"

section \<open>What parsing leaves alone\<close>

text \<open>
  Parsing keeps the identity, controllers and renaming of every client, never lowers a traffic
  count, and touches no object but the clients.
\<close>

definition client_kept :: "scratchpad \<Rightarrow> scratchpad \<Rightarrow> bool" where
  "client_kept s s' \<longleftrightarrow> sp_id s' = sp_id s \<and> controllerIdx s' = controllerIdx s
     \<and> remappedIds s' = remappedIds s \<and> conn_ref s' = conn_ref s \<and> traffic s \<le> traffic s'
     \<and> (sp_partition s' = sp_partition s
        \<or> sorted (rev (sp_partition s')) \<and> length (sp_partition s') \<noteq> 1)"

definition stats_kept :: "nat list \<Rightarrow> sp_store \<Rightarrow> sp_store \<Rightarrow> bool" where
  "stats_kept clients H H' \<longleftrightarrow>
     (\<forall>c. client_kept (H c) (H' c) \<and> (c \<notin> set clients \<longrightarrow> H' c = H c))"

lemma client_kept_refl [simp]: "client_kept s s"
  by (simp add: client_kept_def)

lemma client_kept_trans: "client_kept s s' \<Longrightarrow> client_kept s' s'' \<Longrightarrow> client_kept s s''"
  by (cases "sp_partition s'' = sp_partition s'") (simp_all add: client_kept_def)

lemma stats_kept_refl [simp]: "stats_kept clients H H"
  by (simp add: stats_kept_def)

lemma stats_kept_trans:
  "stats_kept clients H H' \<Longrightarrow> stats_kept clients H' H'' \<Longrightarrow> stats_kept clients H H''"
  unfolding stats_kept_def using client_kept_trans by metis

lemma stats_kept_upd: "c \<in> set clients \<Longrightarrow> client_kept (H c) s \<Longrightarrow> stats_kept clients H (H(c := s))"
  by (auto simp: stats_kept_def)

lemma client_by_id_mem: "client_by_id H clients ident = Some c \<Longrightarrow> c \<in> set clients \<and> sp_id (H c) = ident"
  by (auto simp: client_by_id_def find_Some_iff)

lemma update_client_kept:
  "(\<And>c. client_kept c (f c)) \<Longrightarrow> stats_kept clients H (update_client H clients ident f)"
  using client_by_id_mem [of H clients ident]
  by (auto simp: update_client_def split: option.splits intro: stats_kept_upd)

lemma set_levels_kept: "stats_kept clients H (set_levels H clients s)"
proof -
  have inner: "stats_kept clients H (foldl (\<lambda>H n. update_client H clients n (\<lambda>c. c\<lparr>level := i\<rparr>)) H ns)" for H i ns
  proof (induction ns arbitrary: H)
    case (Cons n ns)
    have "stats_kept clients H (update_client H clients n (\<lambda>c. c\<lparr>level := i\<rparr>))"
      by (rule update_client_kept) (simp add: client_kept_def)
    from stats_kept_trans [OF this Cons.IH] show ?case by simp
  qed simp
  have "stats_kept clients H (foldl (\<lambda>H (i, lvl).
         if i = 0 then H
         else foldl (\<lambda>H n. update_client H clients n (\<lambda>c. c\<lparr>level := i\<rparr>)) H (split_on (CHR '','') lvl)) H gs)" for H and gs :: "(nat \<times> string) list"
  proof (induction gs arbitrary: H)
    case (Cons g gs)
    obtain i lvl where "g = (i, lvl)" by (cases g)
    with stats_kept_trans [OF inner Cons.IH] Cons.IH show ?case by simp
  qed simp
  then show ?thesis by (simp add: set_levels_def)
qed

lemma stats_line_kept:
  assumes "stats_line clients H line = Inr H'"
  shows "stats_kept clients H H'"
proof -
  have upd: "stats_kept clients H (update_client H clients i (\<lambda>c. c\<lparr>traffic := traffic c + int n\<rparr>))"
    "stats_kept clients H (update_client H clients i (\<lambda>c. c\<lparr>bandwidth := b\<rparr>))"
    "stats_kept clients H (update_client H clients i (\<lambda>c. c\<lparr>priority := b\<rparr>))" for i n b
    by (rule update_client_kept, simp add: client_kept_def)+
  have part: "stats_kept clients H H1" if "set_partition H clients i r = Inr H1" for i r H1
  proof (cases "client_by_id H clients i")
    case None
    then show ?thesis using that by (simp add: set_partition_def)
  next
    case (Some c)
    from that Some obtain ps where ps: "parse_ratio r = Inr ps" "H1 = H(c := H c\<lparr>sp_partition := ps\<rparr>)"
      by (auto simp: set_partition_def bindR_eq_Inr)
    then have "sorted (rev ps)" "length ps \<noteq> 1"
      using sorted_sort_desc [of id] by (auto simp: parse_ratio_def bindR_eq_Inr split: if_splits)
    with ps(2) client_by_id_mem [OF Some] show ?thesis
      by (auto simp: client_kept_def intro!: stats_kept_upd)
  qed
  have lat: "stats_kept clients H H1" if "set_latency H clients i l w = Inr H1" for i l w H1
  proof (cases "client_by_id H clients i")
    case None
    then show ?thesis using that by (simp add: set_latency_def)
  next
    case (Some c)
    from that Some client_by_id_mem [OF Some] show ?thesis
      by (auto simp: set_latency_def bindR_eq_Inr client_kept_def intro!: stats_kept_upd)
  qed
  from assms show ?thesis
    by (auto simp: stats_line_def upd set_levels_kept dest: part lat split: if_splits option.splits)
qed

lemma parseStatsFile_kept:
  assumes "parseStatsFile H clients files = Inr H'"
  shows "stats_kept clients H H'"
  using assms unfolding parseStatsFile_def
  by (rule foldR_invariant) (auto intro: stats_kept_trans stats_line_kept)

section \<open>Statistics for flat rings\<close>

text \<open>
  A line that can be read and that assigns no ring: a comment, a count of requests, a partition into at most
  \<open>n\<close> parts that are not negative and not all zero (with one controller partitions are not used), or a
  latency whose numbers are well formed; every other line but a ring assignment.
\<close>

definition ratio_ok :: "nat \<Rightarrow> string \<Rightarrow> bool" where
  "ratio_ok n ratio =
     (case parse_ratio ratio of
        Inl e \<Rightarrow> False
      | Inr ps \<Rightarrow> n > 1 \<and> ps \<noteq> [] \<longrightarrow> list_all (\<lambda>x. 0 \<le> x) ps \<and> 0 < sum_list ps \<and> length ps \<le> n)"

definition latency_ok :: "string \<Rightarrow> string \<Rightarrow> bool" where
  "latency_ok lat ws \<longleftrightarrow> (\<exists>l. py_float lat = Inr l) \<and> (\<exists>vs. mapR py_float (split_on (CHR '' '') ws) = Inr vs)"

lemma latency_ok_code [code]:
  "latency_ok lat ws \<longleftrightarrow> (case py_float lat of Inl e \<Rightarrow> False | Inr l \<Rightarrow> True)
     \<and> (case mapR py_float (split_on (CHR '' '') ws) of Inl e \<Rightarrow> False | Inr vs \<Rightarrow> True)"
  by (auto simp: latency_ok_def split: sum.splits)

definition flat_line :: "nat \<Rightarrow> string \<Rightarrow> bool" where
  "flat_line n line \<longleftrightarrow> starts_with ''//'' line
     \<or> (case re_match requests_pat line of
          Some gs \<Rightarrow> True
        | None \<Rightarrow> (case re_match partition_pat line of
            Some gs \<Rightarrow> ratio_ok n (gs ! 1)
          | None \<Rightarrow> re_match hierarchy_pat line = None
              \<and> (case re_match latency_pat line of None \<Rightarrow> True | Some gs \<Rightarrow> latency_ok (gs ! 2) (gs ! 3))))"

text \<open>A client as such statistics leave it.\<close>

definition flat_client :: "nat \<Rightarrow> scratchpad \<Rightarrow> bool" where
  "flat_client n s \<longleftrightarrow> controllerIdx s = [] \<and> level s = 0 \<and> remappedIds s = [] \<and> 0 \<le> traffic s
     \<and> (n > 1 \<and> sp_partition s \<noteq> [] \<longrightarrow> (\<forall>x \<in> set (sp_partition s). 0 \<le> x) \<and> 0 < sum_list (sp_partition s)
        \<and> length (sp_partition s) \<le> n \<and> sorted (rev (sp_partition s)))"

lemma update_client_flat:
  assumes "\<forall>c \<in> set clients. flat_client n (H c)" and "\<And>s. flat_client n s \<Longrightarrow> flat_client n (f s)"
  shows "\<forall>c \<in> set clients. flat_client n (update_client H clients ident f c)"
  using assms by (auto simp: update_client_def split: option.splits)

lemma set_partition_flat:
  assumes "ratio_ok n ratio" and "\<forall>c \<in> set clients. flat_client n (H c)"
  shows "\<exists>H'. set_partition H clients ident ratio = Inr H' \<and> (\<forall>c \<in> set clients. flat_client n (H' c))"
proof (cases "client_by_id H clients ident")
  case None
  then show ?thesis using assms(2) by (simp add: set_partition_def)
next
  case (Some c)
  obtain ps where ps: "parse_ratio ratio = Inr ps" using assms(1) by (cases "parse_ratio ratio") (auto simp: ratio_ok_def)
  then have "sorted (rev ps)"
    using sorted_sort_desc [of id] by (auto simp: parse_ratio_def bindR_eq_Inr split: if_splits)
  with Some ps assms show ?thesis
    by (auto simp: set_partition_def ratio_ok_def flat_client_def list_all_iff)
qed

lemma set_latency_flat:
  assumes "latency_ok lat ws" and "\<forall>c \<in> set clients. flat_client n (H c)"
  shows "\<exists>H'. set_latency H clients ident lat ws = Inr H' \<and> (\<forall>c \<in> set clients. flat_client n (H' c))"
  using assms by (auto simp: set_latency_def latency_ok_def flat_client_def split: option.splits)

lemma stats_line_flat:
  assumes "flat_line n line" and "\<forall>c \<in> set clients. flat_client n (H c)"
  shows "\<exists>H'. stats_line clients H line = Inr H' \<and> (\<forall>c \<in> set clients. flat_client n (H' c))"
proof -
  note upd = update_client_flat [OF assms(2)]
  have "\<forall>c \<in> set clients. flat_client n (update_client H clients i (\<lambda>c. c\<lparr>traffic := traffic c + int t\<rparr>) c)"
    "\<forall>c \<in> set clients. flat_client n (update_client H clients i (\<lambda>c. c\<lparr>bandwidth := b\<rparr>) c)"
    "\<forall>c \<in> set clients. flat_client n (update_client H clients i (\<lambda>c. c\<lparr>priority := b\<rparr>) c)" for i t b
    by (rule upd, simp add: flat_client_def)+
  note upd = this
  show ?thesis
  proof (cases "starts_with ''//'' line \<or> re_match requests_pat line \<noteq> None")
    case True
    then show ?thesis using upd(1) assms(2) by (auto simp: stats_line_def)
  next
    case False
    then have req: "\<not> starts_with ''//'' line" "re_match requests_pat line = None" by simp_all
    show ?thesis
    proof (cases "re_match partition_pat line")
      case (Some gs)
      with assms(1) req have "ratio_ok n (gs ! 1)" by (simp add: flat_line_def)
      from set_partition_flat [OF this assms(2)] Some req show ?thesis by (simp add: stats_line_def)
    next
      case part: None
      with assms(1) req have hier: "re_match hierarchy_pat line = None" by (simp add: flat_line_def)
      show ?thesis
      proof (cases "re_match latency_pat line")
        case (Some gs)
        with assms(1) req part have "latency_ok (gs ! 2) (gs ! 3)" by (simp add: flat_line_def)
        from set_latency_flat [OF this assms(2)] Some part hier req show ?thesis by (simp add: stats_line_def)
      next
        case None
        then show ?thesis using part hier req upd(2,3) assms(2)
          by (cases "re_match bandwidth_pat line"; cases "re_match priority_pat line") (simp_all add: stats_line_def)
      qed
    qed
  qed
qed

lemma parseStatsFile_flat:
  assumes "\<forall>line \<in> set (concat files). flat_line n line" and "\<forall>c \<in> set clients. flat_client n (H c)"
  shows "\<exists>H'. parseStatsFile H clients files = Inr H' \<and> (\<forall>c \<in> set clients. flat_client n (H' c))"
proof -
  have "\<exists>H'. foldR (stats_line clients) H ls = Inr H' \<and> (\<forall>c \<in> set clients. flat_client n (H' c))"
    if "\<forall>line \<in> set ls. flat_line n line" for ls
    using that assms(2)
  proof (induction ls arbitrary: H)
    case (Cons l ls)
    from stats_line_flat [of n l clients H] Cons.prems obtain H1 where
      "stats_line clients H l = Inr H1" "\<forall>c \<in> set clients. flat_client n (H1 c)" by auto
    with Cons.IH [of H1] Cons.prems show ?case by simp
  qed simp
  then show ?thesis using assms(1) by (simp add: parseStatsFile_def)
qed

end
