(* ===== verification/ScratchpadPartition.thy ===== *)
theory ScratchpadPartition
  imports ScratchpadStats
begin

text \<open>
  \<^verbatim>\<open>lim_memory/remap-scratchpad/remapScratchpad.py\<close>: the clients are sorted to their platforms
  (\<open>separateScratchpadConnections\<close>) and given to its controllers, either all interleaved
  (\<open>interleaveAllClients\<close>), balanced by traffic (\<open>bandwidthPartition\<close>) or in groups
  (\<open>assignScratchpadClients\<close>).  The abstract specification of the balancing is \<open>load\<close>, the
  traffic the assignment sends to a controller; the lemmas show that no two controllers differ
  by more than the busiest client.  The dictionary \<open>network\<close> is only printed and is left out.
\<close>

section \<open>Clients and controllers of a platform\<close>

definition copy_client :: "li_service \<Rightarrow> nat \<Rightarrow> scratchpad" where
  "copy_client s ref = mk_Scratchpad (client_idx s) ref (svc_name s) (svc_platform s)"

definition add_controller ::
  "string list \<Rightarrow> scratchpad_platform list \<Rightarrow> li_service \<Rightarrow> scratchpad_platform list res" where
  "add_controller names ps s =
     bindR (index_of names (svc_platform s)) (\<lambda>i.
       Inr (ps[i := (ps ! i)\<lparr>spp_controllers := spp_controllers (ps ! i) @ [s]\<rparr>]))"

text \<open>The second component of the state is the next free reference.\<close>

definition add_scratchpad ::
  "string list \<Rightarrow> sp_store \<times> nat \<times> scratchpad_platform list \<Rightarrow> li_service
     \<Rightarrow> (sp_store \<times> nat \<times> scratchpad_platform list) res" where
  "add_scratchpad names st s =
     (case st of (H, n, ps) \<Rightarrow>
       bindR (index_of names (svc_platform s)) (\<lambda>i.
         Inr (H(n := copy_client s n), n + 1,
              ps[i := (ps ! i)\<lparr>spp_clients := spp_clients (ps ! i) @ [n]\<rparr>])))"

definition separateScratchpadConnections ::
  "sp_store \<times> nat \<Rightarrow> li_service list \<Rightarrow> li_service list \<Rightarrow> scratchpad_platform list
     \<Rightarrow> (sp_store \<times> nat \<times> scratchpad_platform list) res" where
  "separateScratchpadConnections Hn clients controllers platforms =
     (let names = map spp_name platforms
      in bindR (foldR (add_controller names) platforms controllers) (\<lambda>ps.
           foldR (add_scratchpad names) (fst Hn, snd Hn, ps) clients))"

section \<open>Assignment to controllers\<close>

text \<open>
  The result of an assignment: the store, the client list (sorting and shuffling are in place),
  the partitioned clients and the others.
\<close>

type_synonym assignment = "sp_store \<times> nat list \<times> nat list \<times> nat list"

definition interleaveAllClients ::
  "nat \<Rightarrow> sp_store \<Rightarrow> nat list \<Rightarrow> string list list \<Rightarrow> assignment res" where
  "interleaveAllClients n H clients statsFiles =
     bindR (if statsFiles = [] then Inr H else parseStatsFile H clients statsFiles) (\<lambda>H1.
       Inr (foldl (\<lambda>H c. H(c := H c\<lparr>sp_partition := replicate n 1, controllerIdx := [0..<n]\<rparr>)) H1 clients,
            clients, clients, []))"

record bw_state =
  bw_store :: sp_store
  total_bandwidth :: "int list"
  ringstops :: "nat list list"

definition give :: "nat \<Rightarrow> nat \<Rightarrow> int \<Rightarrow> bw_state \<Rightarrow> bw_state" where
  "give c i b s =
     s\<lparr>bw_store := (bw_store s)(c := (bw_store s c)\<lparr>controllerIdx := controllerIdx (bw_store s c) @ [i]\<rparr>),
       total_bandwidth := (total_bandwidth s)[i := total_bandwidth s ! i + b],
       ringstops := (ringstops s)[i := ringstops s ! i @ [c]]\<rparr>"

definition client_bandwidth :: "scratchpad \<Rightarrow> int list" where
  "client_bandwidth s = map (\<lambda>x. x * traffic s div sum_list (sp_partition s)) (sp_partition s)"

definition split_step :: "nat \<Rightarrow> int list \<Rightarrow> int list \<Rightarrow> bw_state \<times> int list \<Rightarrow> nat \<Rightarrow> (bw_state \<times> int list) res" where
  "split_step c bs mins st i =
     (case st of (s, tmp) \<Rightarrow>
       bindR (nth_res mins i) (\<lambda>m.
       bindR (index_of tmp m) (\<lambda>idx.
         Inr (give c idx (bs ! i) s, tmp[idx := -1]))))"

definition split_client :: "bw_state \<Rightarrow> nat \<Rightarrow> bw_state res" where
  "split_client s c =
     (if sum_list (sp_partition (bw_store s c)) = 0 then Inl ZeroDivisionError
      else
        (let bs = client_bandwidth (bw_store s c);
             mins = take (length bs) (sort (total_bandwidth s))
         in bindR (foldR (split_step c bs mins) (s, total_bandwidth s) [0..<length bs]) (\<lambda>(s', _). Inr s')))"

text \<open>\<open>xs.index(min(xs))\<close>\<close>

definition argmin :: "'a::linorder list \<Rightarrow> nat res" where
  "argmin xs = (if xs = [] then Inl ValueError else index_of xs (min_list xs))"

definition place_client :: "bw_state \<Rightarrow> nat \<Rightarrow> bw_state res" where
  "place_client s c =
     bindR (if traffic (bw_store s c) > 0 then argmin (total_bandwidth s)
            else argmin (map length (ringstops s))) (\<lambda>i.
       Inr (give c i (traffic (bw_store s c)) s))"

text \<open>\<open>x in xs\<close> compares attribute dictionaries.\<close>

definition client_in :: "sp_store \<Rightarrow> nat \<Rightarrow> nat list \<Rightarrow> bool" where
  "client_in H c cs \<longleftrightarrow> list_ex (\<lambda>d. d = c \<or> H d = H c) cs"

definition bandwidth_groups :: "nat \<Rightarrow> sp_store \<Rightarrow> nat list \<Rightarrow> (bw_state \<times> nat list \<times> nat list) res" where
  "bandwidth_groups n H clients =
     (let s = \<lparr>bw_store = H, total_bandwidth = replicate n 0, ringstops = replicate n []\<rparr>;
          partitioned = (if n > 1 then filter (\<lambda>c. length (sp_partition (H c)) > 0) clients else [])
      in bindR (foldR split_client s partitioned) (\<lambda>s1.
         let rest = filter (\<lambda>c. \<not> client_in (bw_store s1) c partitioned) clients
         in bindR (foldR place_client s1 rest) (\<lambda>s2. Inr (s2, partitioned, rest))))"

definition bandwidthPartition ::
  "nat \<Rightarrow> sp_store \<Rightarrow> nat list \<Rightarrow> string list list \<Rightarrow> assignment res" where
  "bandwidthPartition n H clients statsFiles =
     bindR (parseStatsFile H clients statsFiles) (\<lambda>H1.
       let clients' = sort_desc (\<lambda>c. traffic (H1 c)) clients
       in bindR (bandwidth_groups n H1 clients') (\<lambda>(s, partitioned, rest).
            Inr (bw_store s, clients', partitioned, rest)))"

fun group_step :: "nat \<Rightarrow> sp_store \<Rightarrow> nat \<times> nat \<Rightarrow> sp_store res" where
  "group_step n H (k, c) =
     (if k < n then Inr (H(c := H c\<lparr>controllerIdx := controllerIdx (H c) @ [k]\<rparr>)) else Inl IndexError)"

text \<open>\<open>shuffle\<close> is \<open>random.shuffle\<close> after \<open>random.seed(1)\<close>.\<close>

definition assignScratchpadClients ::
  "(nat list \<Rightarrow> nat list) \<Rightarrow> nat \<Rightarrow> sp_store \<Rightarrow> nat list \<Rightarrow> string list list \<Rightarrow> nat \<Rightarrow> bool
     \<Rightarrow> assignment res" where
  "assignScratchpadClients shuffle n H clients stats remapMode interleaveAll =
     (if clients \<noteq> [] \<and> interleaveAll then interleaveAllClients n H clients stats
      else if stats \<noteq> [] \<and> clients \<noteq> [] \<and> remapMode \<noteq> 1 then bandwidthPartition n H clients stats
      else if n = 0 then Inl ZeroDivisionError
      else
        (let per_group = nat (cdiv (int (length clients)) (int n));
             cs = (if remapMode = 1 then shuffle clients else clients)
         in bindR (foldR (group_step n) H (map (\<lambda>i. (i div per_group, cs ! i)) [0..<length cs])) (\<lambda>H'.
              Inr (H', cs, [], cs))))"

section \<open>The load of a controller\<close>

definition shares :: "nat \<Rightarrow> scratchpad \<Rightarrow> int list" where
  "shares n s = (if n > 1 \<and> sp_partition s \<noteq> [] then client_bandwidth s else [traffic s])"

definition received :: "nat list \<Rightarrow> int list \<Rightarrow> nat \<Rightarrow> int" where
  "received ks bs j = (\<Sum>(k, b) \<leftarrow> zip ks bs. if k = j then b else 0)"

definition load :: "nat \<Rightarrow> sp_store \<Rightarrow> nat list \<Rightarrow> nat \<Rightarrow> int" where
  "load n H cs j = (\<Sum>c \<leftarrow> cs. received (controllerIdx (H c)) (shares n (H c)) j)"

definition placed :: "nat \<Rightarrow> scratchpad \<Rightarrow> bool" where
  "placed n s \<longleftrightarrow> distinct (controllerIdx s) \<and> set (controllerIdx s) \<subseteq> {..<n}
     \<and> length (controllerIdx s) = length (shares n s)"

lemma received_snoc:
  "length ks = length bs \<Longrightarrow> received (ks @ [k]) (bs @ [b]) j = received ks bs j + (if k = j then b else 0)"
  by (simp add: received_def)

lemma received_other: "j \<notin> set ks \<Longrightarrow> received ks bs j = 0"
  unfolding received_def
  by (induction ks bs rule: list_induct2') auto

lemma received_nth:
  "distinct ks \<Longrightarrow> length ks = length bs \<Longrightarrow> l < length ks \<Longrightarrow> received ks bs (ks ! l) = bs ! l"
proof (induction ks bs arbitrary: l rule: list_induct2')
  case (4 k ks b bs)
  show ?case
  proof (cases l)
    case 0
    have "received ks bs k = 0" using received_other 4 by auto
    with 0 show ?thesis by (simp add: received_def)
  next
    case (Suc m)
    then have "ks ! m \<noteq> k" using 4 by auto
    with Suc 4 show ?thesis by (simp add: received_def)
  qed
qed auto

lemma index_of_first: "a \<in> set xs \<Longrightarrow> \<exists>i. index_of xs a = Inr i \<and> i < length xs \<and> xs ! i = a"
  using index_of_total index_of_Inr by fastforce

section \<open>Splitting a client\<close>

text \<open>
  After \<open>m\<close> shares: the controllers chosen so far, the copy of the totals in which they are marked,
  and the totals that have received the shares.
\<close>

definition split_inv :: "bw_state \<Rightarrow> nat \<Rightarrow> int list \<Rightarrow> nat \<Rightarrow> nat list \<Rightarrow> bw_state \<times> int list \<Rightarrow> bool" where
  "split_inv s0 c bs m ks st \<longleftrightarrow>
     (case st of (s, tmp) \<Rightarrow>
        length ks = m \<and> distinct ks \<and> set ks \<subseteq> {..<length (total_bandwidth s0)}
      \<and> bw_store s = (bw_store s0)(c := (bw_store s0 c)\<lparr>controllerIdx := controllerIdx (bw_store s0 c) @ ks\<rparr>)
      \<and> length (ringstops s) = length (ringstops s0)
      \<and> length (total_bandwidth s) = length (total_bandwidth s0)
      \<and> (\<forall>j<length (total_bandwidth s0). total_bandwidth s ! j = total_bandwidth s0 ! j + received ks (take m bs) j)
      \<and> length tmp = length (total_bandwidth s0)
      \<and> (\<forall>j<length tmp. tmp ! j = (if j \<in> set ks then -1 else total_bandwidth s0 ! j))
      \<and> mset tmp = mset (drop m (sort (total_bandwidth s0))) + replicate_mset m (-1)
      \<and> (\<forall>l<m. total_bandwidth s0 ! (ks ! l) = sort (total_bandwidth s0) ! l))"

lemma split_step_ok:
  assumes inv: "split_inv s0 c bs m ks (s, tmp)" and m: "m < length bs" "length bs \<le> length (total_bandwidth s0)"
    and nn: "\<forall>t \<in> set (total_bandwidth s0). 0 \<le> t"
  shows "\<exists>st i. split_step c bs (take (length bs) (sort (total_bandwidth s0))) (s, tmp) m = Inr st
    \<and> split_inv s0 c bs (Suc m) (ks @ [i]) st"
proof -
  let ?T = "total_bandwidth s0" and ?S = "sort (total_bandwidth s0)"
  have len: "m < length ?S" using m by simp
  have mins: "nth_res (take (length bs) ?S) m = Inr (?S ! m)" using m by simp
  have "?S ! m \<in># mset (drop m ?S)" using len by (simp add: Cons_nth_drop_Suc [symmetric])
  then have "?S ! m \<in> set tmp" using inv by (simp add: split_inv_def flip: set_mset_mset)
  then obtain i where i: "index_of tmp (?S ! m) = Inr i" "i < length tmp" "tmp ! i = ?S ! m"
    using index_of_first by metis
  have "?S ! m \<in> set ?T" using len by (metis nth_mem set_sort)
  then have "0 \<le> ?S ! m" using nn by blast
  then have fresh: "i \<notin> set ks" and val: "?T ! i = ?S ! m"
    using inv i(2,3) by (auto simp: split_inv_def split: if_splits)
  have tmp: "length tmp = length ?T" "length ks = m" using inv by (simp_all add: split_inv_def)
  let ?s = "give c i (bs ! m) s"
  have step: "split_step c bs (take (length bs) ?S) (s, tmp) m = Inr (?s, tmp[i := -1])"
    using i(1) mins by (simp add: split_step_def)
  have store: "bw_store ?s = (bw_store s0)(c := (bw_store s0 c)\<lparr>controllerIdx := controllerIdx (bw_store s0 c) @ (ks @ [i])\<rparr>)"
    using inv by (simp add: split_inv_def give_def)
  have total: "total_bandwidth ?s ! j = ?T ! j + received (ks @ [i]) (take (Suc m) bs) j" if "j < length ?T" for j
  proof -
    have "take (Suc m) bs = take m bs @ [bs ! m]" using m(1) by (rule take_Suc_conv_app_nth)
    then have "received (ks @ [i]) (take (Suc m) bs) j = received ks (take m bs) j + (if i = j then bs ! m else 0)"
      using tmp(2) m(1) by (simp add: received_snoc)
    then show ?thesis
      using inv that i(2) tmp(1) by (auto simp: split_inv_def give_def nth_list_update)
  qed
  have "mset (tmp[i := -1]) = mset (drop (Suc m) ?S) + replicate_mset (Suc m) (-1)"
    using inv i(2,3) len by (simp add: split_inv_def mset_update Cons_nth_drop_Suc [symmetric])
  moreover have "\<forall>l<Suc m. ?T ! ((ks @ [i]) ! l) = ?S ! l"
    using inv val tmp(2) by (auto simp: split_inv_def nth_append less_Suc_eq)
  moreover have "\<forall>j<length (tmp[i := -1]). tmp[i := -1] ! j = (if j \<in> set (ks @ [i]) then -1 else ?T ! j)"
    using inv i(2) by (auto simp: split_inv_def nth_list_update)
  ultimately have "split_inv s0 c bs (Suc m) (ks @ [i]) (?s, tmp[i := -1])"
    using inv fresh i(2) store total tmp unfolding split_inv_def prod.case
    by (simp add: give_def)
  with step show ?thesis by blast
qed

lemma split_steps_ok:
  assumes "m \<le> length bs" and "length bs \<le> length (total_bandwidth s0)" and "\<forall>t \<in> set (total_bandwidth s0). 0 \<le> t"
  shows "\<exists>st ks. foldR (split_step c bs (take (length bs) (sort (total_bandwidth s0)))) (s0, total_bandwidth s0) [0..<m] = Inr st
    \<and> split_inv s0 c bs m ks st"
  using assms(1)
proof (induction m)
  case 0
  show ?case
    by (intro exI [of _ "(s0, total_bandwidth s0)"] exI [of _ "[]"]) (simp add: split_inv_def received_def)
next
  case (Suc m)
  then obtain st ks where st: "foldR (split_step c bs (take (length bs) (sort (total_bandwidth s0)))) (s0, total_bandwidth s0) [0..<m] = Inr st"
    "split_inv s0 c bs m ks st" by auto
  obtain s tmp where "st = (s, tmp)" by (cases st)
  with split_step_ok [OF st(2) [unfolded this] _ assms(2,3)] Suc.prems st(1) show ?case
    by (fastforce simp: foldR_append)
qed

lemma split_client_ok:
  assumes "sum_list (sp_partition (bw_store s c)) \<noteq> 0"
    and "length (sp_partition (bw_store s c)) \<le> length (total_bandwidth s)"
    and "\<forall>t \<in> set (total_bandwidth s). 0 \<le> t"
  shows "\<exists>s' ks tmp. split_client s c = Inr s'
    \<and> split_inv s c (client_bandwidth (bw_store s c)) (length (sp_partition (bw_store s c))) ks (s', tmp)"
proof -
  let ?bs = "client_bandwidth (bw_store s c)"
  have len: "length ?bs = length (sp_partition (bw_store s c))" by (simp add: client_bandwidth_def)
  then have le: "length ?bs \<le> length (total_bandwidth s)" using assms(2) by simp
  from split_steps_ok [OF order.refl le assms(3), of c] obtain s' tmp ks where
    f: "foldR (split_step c ?bs (take (length ?bs) (sort (total_bandwidth s)))) (s, total_bandwidth s) [0..<length ?bs] = Inr (s', tmp)"
      "split_inv s c ?bs (length ?bs) ks (s', tmp)" by fast
  have "split_client s c = Inr s'"
    unfolding split_client_def Let_def f(1) using assms(1) by simp
  with f(2) len show ?thesis by auto
qed

text \<open>Shares in descending order given to totals in ascending order keep the spread.\<close>

lemma split_spread:
  assumes inv: "split_inv s0 c bs (length bs) ks (s, tmp)" and le: "length bs \<le> length (total_bandwidth s0)"
    and nn: "\<forall>t \<in> set (total_bandwidth s0). 0 \<le> t"
    and bs: "sorted (rev bs)" "\<forall>b \<in> set bs. 0 \<le> b \<and> b \<le> M" and M: "0 \<le> M"
    and spread: "\<And>i j. i < length (total_bandwidth s0) \<Longrightarrow> j < length (total_bandwidth s0) \<Longrightarrow>
      total_bandwidth s0 ! i - total_bandwidth s0 ! j \<le> M"
    and ij: "i < length (total_bandwidth s0)" "j < length (total_bandwidth s0)"
  shows "total_bandwidth s ! i - total_bandwidth s ! j \<le> M"
proof -
  let ?T = "total_bandwidth s0" and ?S = "sort (total_bandwidth s0)"
  have dist: "distinct ks" "length ks = length bs" and
    tot: "\<And>j. j < length ?T \<Longrightarrow> total_bandwidth s ! j = ?T ! j + received ks bs j"
    and tmp: "length tmp = length ?T" "\<And>j. j < length ?T \<Longrightarrow> tmp ! j = (if j \<in> set ks then -1 else ?T ! j)"
    and ms: "mset tmp = mset (drop (length bs) ?S) + replicate_mset (length bs) (-1)"
    and val: "\<And>l. l < length bs \<Longrightarrow> ?T ! (ks ! l) = ?S ! l"
    using inv by (simp_all add: split_inv_def)
  have old: "received ks bs j = 0 \<and> (\<forall>l<length bs. ?S ! l \<le> ?T ! j)" if "j < length ?T" "j \<notin> set ks" for j
  proof
    show "received ks bs j = 0" using that(2) by (rule received_other)
    have "tmp ! j = ?T ! j" using tmp(2) that by simp
    then have "?T ! j \<in># mset tmp" using that(1) tmp(1) by (metis nth_mem set_mset_mset)
    moreover have "0 \<le> ?T ! j" using nn that(1) by simp
    ultimately have "?T ! j \<in> set (drop (length bs) ?S)"
      using ms by (auto simp: in_replicate_mset split: if_splits)
    then obtain i where i: "i < length (drop (length bs) ?S)" "drop (length bs) ?S ! i = ?T ! j"
      unfolding in_set_conv_nth by blast
    then have k: "length bs + i < length ?S" "?S ! (length bs + i) = ?T ! j" by simp_all
    show "\<forall>l<length bs. ?S ! l \<le> ?T ! j"
    proof (intro allI impI)
      fix l
      assume "l < length bs"
      then have "?S ! l \<le> ?S ! (length bs + i)" using k(1) by (intro sorted_nth_mono) simp_all
      then show "?S ! l \<le> ?T ! j" by (simp only: k(2))
    qed
  qed
  have new: "\<exists>l<length bs. ks ! l = j \<and> received ks bs j = bs ! l \<and> ?T ! j = ?S ! l" if "j \<in> set ks" for j
  proof -
    from that obtain l where l: "l < length ks" "ks ! l = j" by (auto simp: in_set_conv_nth)
    with received_nth [OF dist l(1)] val dist(2) show ?thesis by auto
  qed
  have asc: "?S ! l \<le> ?S ! k" if "l \<le> k" "k < length bs" for l k
    using that le by (simp add: sorted_nth_mono)
  have desc: "bs ! k \<le> bs ! l" if "l \<le> k" "k < length bs" for l k
    using bs(1) that by (simp add: sorted_rev_nth_mono)
  have b: "0 \<le> bs ! l" "bs ! l \<le> M" if "l < length bs" for l
    using bs(2) that by simp_all
  show ?thesis
  proof (cases "i \<in> set ks")
    case True
    then obtain l where l: "l < length bs" "received ks bs i = bs ! l" "?T ! i = ?S ! l" using new by blast
    show ?thesis
    proof (cases "j \<in> set ks")
      case True
      then obtain k where k: "k < length bs" "received ks bs j = bs ! k" "?T ! j = ?S ! k" using new by blast
      show ?thesis
      proof (cases "l \<le> k")
        case True
        then show ?thesis
          using tot ij l k asc [OF True k(1)] b [OF l(1)] b [OF k(1)] by simp
      next
        case False
        then have "bs ! l \<le> bs ! k" using desc [of k l] l(1) by simp
        then show ?thesis using tot ij l k spread [OF ij] by simp
      qed
    next
      case False
      then show ?thesis using tot ij l old [OF ij(2) False] b [OF l(1)] by fastforce
    qed
  next
    case False
    have "0 \<le> received ks bs j"
      using new [of j] old [OF ij(2)] b(1) by (cases "j \<in> set ks") auto
    then show ?thesis using tot ij old [OF ij(1) False] spread [OF ij] by simp
  qed
qed

section \<open>Placing a client\<close>

lemma argmin_ok:
  assumes "xs \<noteq> []"
  shows "\<exists>i. argmin xs = Inr i \<and> i < length xs \<and> (\<forall>j<length xs. xs ! i \<le> xs ! j)"
proof -
  have "min_list xs = Min (set xs)" using assms by (rule min_list_Min)
  moreover obtain i where "index_of xs (min_list xs) = Inr i" "i < length xs" "xs ! i = min_list xs"
    using index_of_first [of "min_list xs" xs] Min_in [of "set xs"] assms calculation by auto
  ultimately show ?thesis using assms by (auto simp: argmin_def)
qed

lemma place_client_ok:
  assumes "total_bandwidth s \<noteq> []" and "length (ringstops s) = length (total_bandwidth s)" and "0 \<le> traffic (bw_store s c)"
  shows "\<exists>i. place_client s c = Inr (give c i (traffic (bw_store s c)) s) \<and> i < length (total_bandwidth s)
    \<and> (0 < traffic (bw_store s c) \<longrightarrow> (\<forall>j<length (total_bandwidth s). total_bandwidth s ! i \<le> total_bandwidth s ! j))"
proof (cases "0 < traffic (bw_store s c)")
  case True
  then show ?thesis using argmin_ok [OF assms(1)] by (auto simp: place_client_def)
next
  case False
  have "map length (ringstops s) \<noteq> []" using assms(1,2) by auto
  from argmin_ok [OF this] False assms(2) show ?thesis by (auto simp: place_client_def)
qed

lemma place_spread:
  assumes "\<And>i j. i < length T \<Longrightarrow> j < length T \<Longrightarrow> T ! i - T ! j \<le> (M::int)"
    and "k < length T" and "0 \<le> t" and "t \<le> M" and "0 < t \<longrightarrow> (\<forall>j<length T. T ! k \<le> T ! j)"
    and "i < length T" and "j < length T"
  shows "T[k := T ! k + t] ! i - T[k := T ! k + t] ! j \<le> M"
proof -
  have "T ! i - T ! j \<le> M" using assms(1,6,7) by blast
  moreover have "0 < t \<Longrightarrow> T ! k \<le> T ! j" using assms(5,7) by blast
  ultimately show ?thesis
    using assms(2-4,6,7) by (cases "t = 0") (auto simp: nth_list_update)
qed

section \<open>Balancing\<close>

definition stats_valid :: "nat \<Rightarrow> scratchpad \<Rightarrow> bool" where
  "stats_valid n s \<longleftrightarrow> 0 \<le> traffic s \<and> controllerIdx s = []
     \<and> (n > 1 \<and> sp_partition s \<noteq> [] \<longrightarrow> (\<forall>x \<in> set (sp_partition s). 0 \<le> x)
        \<and> 0 < sum_list (sp_partition s) \<and> length (sp_partition s) \<le> n \<and> sorted (rev (sp_partition s)))"

definition balance_inv :: "nat \<Rightarrow> int \<Rightarrow> sp_store \<Rightarrow> nat list \<Rightarrow> bw_state \<Rightarrow> bool" where
  "balance_inv n M H dones s \<longleftrightarrow>
     length (total_bandwidth s) = n \<and> length (ringstops s) = n
   \<and> (\<forall>t \<in> set (total_bandwidth s). 0 \<le> t)
   \<and> (\<forall>i<n. \<forall>j<n. total_bandwidth s ! i - total_bandwidth s ! j \<le> M)
   \<and> (\<forall>j<n. total_bandwidth s ! j = load n (bw_store s) dones j)
   \<and> (\<forall>c \<in> set dones. placed n (bw_store s c))
   \<and> (\<forall>c. (bw_store s c)\<lparr>controllerIdx := []\<rparr> = (H c)\<lparr>controllerIdx := []\<rparr>)
   \<and> (\<forall>c. c \<notin> set dones \<longrightarrow> bw_store s c = H c)"

lemma balance_invD:
  assumes "balance_inv n M H dones s"
  shows "length (total_bandwidth s) = n" and "length (ringstops s) = n"
    and "\<forall>t \<in> set (total_bandwidth s). 0 \<le> t"
    and "i < n \<Longrightarrow> j < n \<Longrightarrow> total_bandwidth s ! i - total_bandwidth s ! j \<le> M"
    and "j < n \<Longrightarrow> total_bandwidth s ! j = load n (bw_store s) dones j"
    and "c \<in> set dones \<Longrightarrow> placed n (bw_store s c)"
    and "c \<notin> set dones \<Longrightarrow> bw_store s c = H c"
    and "(bw_store s c)\<lparr>controllerIdx := []\<rparr> = (H c)\<lparr>controllerIdx := []\<rparr>"
  using assms unfolding balance_inv_def by blast+

lemma shares_controllerIdx [simp]: "shares n (s\<lparr>controllerIdx := ks\<rparr>) = shares n s"
  by (simp add: shares_def client_bandwidth_def)

lemma load_upd: "c \<notin> set cs \<Longrightarrow> load n (H(c := s)) cs j = load n H cs j"
  unfolding load_def by (intro arg_cong [of _ _ sum_list] map_cong) auto

lemma load_snoc: "load n H (cs @ [c]) j = load n H cs j + received (controllerIdx (H c)) (shares n (H c)) j"
  by (simp add: load_def)

lemma received_nonneg: "\<forall>b \<in> set bs. 0 \<le> b \<Longrightarrow> 0 \<le> received ks bs j"
  unfolding received_def by (induction ks bs rule: list_induct2') auto

text \<open>Giving a new client its controllers keeps the invariant, if the spread stays bounded.\<close>

lemma balance_inv_step:
  assumes inv: "balance_inv n M H dones s" and c: "c \<notin> set dones" "controllerIdx (H c) = []"
    and ks: "distinct ks" "set ks \<subseteq> {..<n}" "length ks = length (shares n (H c))"
    and nn: "\<forall>b \<in> set (shares n (H c)). 0 \<le> b"
    and store: "bw_store s' = (bw_store s)(c := (bw_store s c)\<lparr>controllerIdx := ks\<rparr>)"
    and lens: "length (total_bandwidth s') = n" "length (ringstops s') = n"
    and tot: "\<And>j. j < n \<Longrightarrow> total_bandwidth s' ! j = total_bandwidth s ! j + received ks (shares n (H c)) j"
    and spread: "\<And>i j. i < n \<Longrightarrow> j < n \<Longrightarrow> total_bandwidth s' ! i - total_bandwidth s' ! j \<le> M"
  shows "balance_inv n M H (dones @ [c]) s'"
proof -
  have sc: "bw_store s c = H c" by (rule balance_invD(7) [OF inv c(1)])
  have load: "total_bandwidth s' ! j = load n (bw_store s') (dones @ [c]) j" if "j < n" for j
    using tot [OF that] balance_invD(5) [OF inv that] sc
    by (simp add: load_snoc load_upd [OF c(1)] store)
  have nn': "0 \<le> total_bandwidth s ! j" if "j < n" for j
    using balance_invD(1,3) [OF inv] that by (metis nth_mem)
  have "0 \<le> total_bandwidth s' ! j" if "j < n" for j
    using tot [OF that] nn' [OF that] received_nonneg [OF nn, of ks j] by linarith
  then have "\<forall>t \<in> set (total_bandwidth s'). 0 \<le> t"
    using lens(1) by (auto simp: in_set_conv_nth)
  moreover have "\<forall>d \<in> set (dones @ [c]). placed n (bw_store s' d)"
    using balance_invD(6) [OF inv] c(1) ks sc by (auto simp: store placed_def)
  moreover have "\<forall>d. (bw_store s' d)\<lparr>controllerIdx := []\<rparr> = (H d)\<lparr>controllerIdx := []\<rparr>"
    using balance_invD(8) [OF inv] sc by (simp add: store)
  moreover have "\<forall>d. d \<notin> set (dones @ [c]) \<longrightarrow> bw_store s' d = H d"
    using balance_invD(7) [OF inv] by (simp add: store)
  ultimately show ?thesis
    using lens load spread unfolding balance_inv_def by blast
qed

lemma client_bandwidth_shares:
  assumes "stats_valid n s" and "n > 1" and "sp_partition s \<noteq> []" and "traffic s \<le> M"
  shows "sorted (rev (client_bandwidth s))" and "\<forall>b \<in> set (client_bandwidth s). 0 \<le> b \<and> b \<le> M"
proof -
  let ?p = "sp_partition s"
  have p: "\<forall>x \<in> set ?p. 0 \<le> x" "0 < sum_list ?p" "sorted (rev ?p)" "0 \<le> traffic s"
    using assms(1-3) by (simp_all add: stats_valid_def)
  have mono: "x * traffic s div sum_list ?p \<le> y * traffic s div sum_list ?p" if "x \<le> y" for x y
    using that p(2,4) by (intro zdiv_mono1 mult_right_mono) auto
  have "sorted (map (\<lambda>x. x * traffic s div sum_list ?p) (rev ?p))"
    using p(3) mono by (simp add: sorted_map sorted_wrt_iff_nth_less)
  then show "sorted (rev (client_bandwidth s))" by (simp add: client_bandwidth_def rev_map)
  show "\<forall>b \<in> set (client_bandwidth s). 0 \<le> b \<and> b \<le> M"
  proof
    fix b
    assume "b \<in> set (client_bandwidth s)"
    then obtain x where x: "x \<in> set ?p" "b = x * traffic s div sum_list ?p"
      by (auto simp: client_bandwidth_def)
    have "x \<le> sum_list ?p" using x(1) p(1) by (simp add: member_le_sum_list)
    from mono [OF this] have "b \<le> sum_list ?p * traffic s div sum_list ?p" by (simp only: x(2))
    also have "\<dots> = traffic s" using p(2) by simp
    finally have "b \<le> traffic s" .
    moreover have "0 \<le> b" using mono [of 0 x] p(1) x by simp
    ultimately show "0 \<le> b \<and> b \<le> M" using assms(4) by simp
  qed
qed

lemma split_client_inv:
  assumes inv: "balance_inv n M H dones s" and c: "c \<notin> set dones" "stats_valid n (H c)" "traffic (H c) \<le> M"
    and part: "n > 1" "sp_partition (H c) \<noteq> []"
  shows "\<exists>s'. split_client s c = Inr s' \<and> balance_inv n M H (dones @ [c]) s'"
proof -
  have sc: "bw_store s c = H c" by (rule balance_invD(7) [OF inv c(1)])
  have lens: "length (total_bandwidth s) = n" "length (ringstops s) = n"
    and nn: "\<forall>t \<in> set (total_bandwidth s). 0 \<le> t"
    and spread: "\<And>i j. i < n \<Longrightarrow> j < n \<Longrightarrow> total_bandwidth s ! i - total_bandwidth s ! j \<le> M"
    using balance_invD [OF inv] by blast+
  have v: "0 < sum_list (sp_partition (H c))" "length (sp_partition (H c)) \<le> n" "controllerIdx (H c) = []"
    "0 \<le> traffic (H c)"
    using c(2) part by (simp_all add: stats_valid_def)
  let ?bs = "client_bandwidth (H c)"
  have bs: "shares n (H c) = ?bs" "length ?bs = length (sp_partition (H c))"
    using part by (simp_all add: shares_def client_bandwidth_def)
  have "\<exists>s' ks tmp. split_client s c = Inr s' \<and> split_inv s c ?bs (length ?bs) ks (s', tmp)"
    using split_client_ok [of s c] v(1,2) lens(1) nn by (simp add: sc bs(2))
  then obtain s' ks tmp where s': "split_client s c = Inr s'" "split_inv s c ?bs (length ?bs) ks (s', tmp)"
    by blast
  note b = client_bandwidth_shares [OF c(2) part c(3)]
  have si: "length ks = length ?bs" "distinct ks" "set ks \<subseteq> {..<n}"
    "bw_store s' = (bw_store s)(c := (bw_store s c)\<lparr>controllerIdx := ks\<rparr>)"
    "length (ringstops s') = n" "length (total_bandwidth s') = n"
    "\<And>j. j < n \<Longrightarrow> total_bandwidth s' ! j = total_bandwidth s ! j + received ks ?bs j"
    using s'(2) lens v(3) sc by (simp_all add: split_inv_def)
  have "total_bandwidth s' ! i - total_bandwidth s' ! j \<le> M" if "i < n" "j < n" for i j
    by (rule split_spread [OF s'(2) _ nn b]) (use that lens(1) spread v c(3) bs(2) in auto)
  then have "balance_inv n M H (dones @ [c]) s'"
    using si b(2) bs(1) v(3) by (intro balance_inv_step [OF inv c(1), where ks = ks]) auto
  with s'(1) show ?thesis by blast
qed

lemma place_client_inv:
  assumes inv: "balance_inv n M H dones s" and c: "c \<notin> set dones" "stats_valid n (H c)" "traffic (H c) \<le> M"
    and n: "0 < n" "n > 1 \<Longrightarrow> sp_partition (H c) = []"
  shows "\<exists>s'. place_client s c = Inr s' \<and> balance_inv n M H (dones @ [c]) s'"
proof -
  have sc: "bw_store s c = H c" by (rule balance_invD(7) [OF inv c(1)])
  have lens: "length (total_bandwidth s) = n" "length (ringstops s) = n"
    and spread: "\<And>i j. i < n \<Longrightarrow> j < n \<Longrightarrow> total_bandwidth s ! i - total_bandwidth s ! j \<le> M"
    using balance_invD [OF inv] by blast+
  have v: "controllerIdx (H c) = []" "0 \<le> traffic (H c)" using c(2) by (simp_all add: stats_valid_def)
  have sh: "shares n (H c) = [traffic (H c)]" using n(2) by (auto simp: shares_def)
  let ?t = "traffic (H c)"
  from place_client_ok [of s c] lens n(1) v(2) sc obtain k where
    k: "place_client s c = Inr (give c k ?t s)" "k < n"
      "0 < ?t \<longrightarrow> (\<forall>j<n. total_bandwidth s ! k \<le> total_bandwidth s ! j)" by fastforce
  have tot: "total_bandwidth (give c k ?t s) = (total_bandwidth s)[k := total_bandwidth s ! k + ?t]"
    by (simp add: give_def)
  have "balance_inv n M H (dones @ [c]) (give c k ?t s)"
  proof (rule balance_inv_step [OF inv c(1) v(1), where ks = "[k]"])
    show "bw_store (give c k ?t s) = (bw_store s)(c := (bw_store s c)\<lparr>controllerIdx := [k]\<rparr>)"
      using v(1) sc by (simp add: give_def)
    show "total_bandwidth (give c k ?t s) ! j = total_bandwidth s ! j + received [k] (shares n (H c)) j" if "j < n" for j
      using that k(2) lens(1) by (auto simp: tot sh received_def nth_list_update)
    show "total_bandwidth (give c k ?t s) ! i - total_bandwidth (give c k ?t s) ! j \<le> M" if "i < n" "j < n" for i j
      unfolding tot using place_spread [of "total_bandwidth s" M k ?t i j] spread lens(1) k(2,3) v(2) c(3) that by simp
  qed (use k(2) lens v sh in \<open>simp_all add: give_def\<close>)
  with k(1) show ?thesis by blast
qed

lemma fold_inv_snoc:
  assumes "P dones s" and "distinct (dones @ cs)"
    and "\<And>dones s c. c \<in> set cs \<Longrightarrow> c \<notin> set dones \<Longrightarrow> P dones s \<Longrightarrow> \<exists>s'. f s c = Inr s' \<and> P (dones @ [c]) s'"
  shows "\<exists>s'. foldR f s cs = Inr s' \<and> P (dones @ cs) s'"
  using assms
proof (induction cs arbitrary: dones s)
  case Nil
  then show ?case by simp
next
  case (Cons c cs)
  from Cons.prems(2) have "c \<notin> set dones" by simp
  from Cons.prems(3) [OF _ this Cons.prems(1)] obtain s1 where s1: "f s c = Inr s1" "P (dones @ [c]) s1" by auto
  have "\<exists>s'. foldR f s1 cs = Inr s' \<and> P ((dones @ [c]) @ cs) s'"
    by (rule Cons.IH [OF s1(2)]) (use Cons.prems(2,3) in auto)
  with s1(1) show ?case by simp
qed

lemma load_mset: "mset cs = mset ds \<Longrightarrow> load n H cs j = load n H ds j"
  unfolding load_def by (simp flip: sum_mset_sum_list)

lemma balance_inv_init:
  assumes "0 \<le> M"
  shows "balance_inv n M H [] \<lparr>bw_store = H, total_bandwidth = replicate n 0, ringstops = replicate n []\<rparr>"
  using assms by (simp add: balance_inv_def load_def)

lemma not_partitioned:
  assumes "\<And>c. (bw_store s c)\<lparr>controllerIdx := []\<rparr> = (H c)\<lparr>controllerIdx := []\<rparr>"
    and "partitioned = filter (\<lambda>c. length (sp_partition (H c)) > 0) clients" and "c \<in> set clients"
  shows "client_in (bw_store s) c partitioned \<longleftrightarrow> c \<in> set partitioned"
proof
  assume "client_in (bw_store s) c partitioned"
  then obtain d where d: "d \<in> set partitioned" "d = c \<or> bw_store s d = bw_store s c"
    by (auto simp: client_in_def list_ex_iff)
  have part: "sp_partition (bw_store s e) = sp_partition (H e)" for e
    using arg_cong [OF assms(1) [of e], of sp_partition] by simp
  have "sp_partition (H c) = sp_partition (H d)" using d(2) part by metis
  with d(1) assms(2,3) show "c \<in> set partitioned" by auto
qed (auto simp: client_in_def list_ex_iff)

lemma bandwidth_groups_ok:
  assumes n: "0 < n" and cl: "distinct clients" "\<forall>c \<in> set clients. stats_valid n (H c) \<and> traffic (H c) \<le> M"
    and M: "0 \<le> M"
  shows "\<exists>s parted rest. bandwidth_groups n H clients = Inr (s, parted, rest)
    \<and> mset (parted @ rest) = mset clients \<and> balance_inv n M H (parted @ rest) s
    \<and> (\<forall>c \<in> set parted. n > 1 \<and> sp_partition (H c) \<noteq> [])"
proof -
  define partitioned where "partitioned = (if n > 1 then filter (\<lambda>c. length (sp_partition (H c)) > 0) clients else [])"
  let ?s = "\<lparr>bw_store = H, total_bandwidth = replicate n 0, ringstops = replicate n []\<rparr>"
  have sub: "\<forall>c \<in> set partitioned. c \<in> set clients \<and> n > 1 \<and> sp_partition (H c) \<noteq> []"
    by (auto simp: partitioned_def split: if_splits)
  have "distinct ([] @ partitioned)" using cl(1) by (simp add: partitioned_def)
  from fold_inv_snoc [of "balance_inv n M H", OF balance_inv_init [OF M] this, of split_client]
  obtain s1 where s1: "foldR split_client ?s partitioned = Inr s1" "balance_inv n M H partitioned s1"
    using split_client_inv sub cl(2) by fastforce
  define rest where "rest = filter (\<lambda>c. \<not> client_in (bw_store s1) c partitioned) clients"
  have rest: "rest = filter (\<lambda>c. c \<notin> set partitioned) clients"
  proof (cases "n > 1")
    case True
    then have p: "partitioned = filter (\<lambda>c. length (sp_partition (H c)) > 0) clients"
      by (simp add: partitioned_def)
    show ?thesis
      unfolding rest_def using not_partitioned [OF balance_invD(8) [OF s1(2)] p] by (auto intro: filter_cong)
  qed (simp add: rest_def partitioned_def client_in_def)
  then have "distinct (partitioned @ rest)"
    using cl(1) by (auto simp: partitioned_def)
  from fold_inv_snoc [of "balance_inv n M H", OF s1(2) this, of place_client]
  obtain s2 where s2: "foldR place_client s1 rest = Inr s2" "balance_inv n M H (partitioned @ rest) s2"
    using place_client_inv [OF _ _ _ _ n] cl(2) rest by (fastforce simp: partitioned_def)
  have "mset (partitioned @ rest) = mset clients"
  proof -
    have "partitioned = filter (\<lambda>c. c \<in> set partitioned) clients"
      unfolding partitioned_def by (cases "n > 1") (auto intro!: filter_cong)
    then have "mset partitioned = filter_mset (\<lambda>c. c \<in> set partitioned) (mset clients)"
      by (metis mset_filter)
    then show ?thesis unfolding rest by simp
  qed
  moreover have "bandwidth_groups n H clients = Inr (s2, partitioned, rest)"
    unfolding bandwidth_groups_def Let_def partitioned_def [symmetric]
    by (simp add: s1(1) rest_def [symmetric] s2(1))
  ultimately show ?thesis using s2(2) sub by blast
qed

lemma bandwidthPartition_ok:
  assumes "0 < n" and "distinct clients" and "parseStatsFile H clients files = Inr H1"
    and "\<forall>c \<in> set clients. stats_valid n (H1 c) \<and> traffic (H1 c) \<le> M" and "0 \<le> M"
  shows "\<exists>s cl parted rest. bandwidthPartition n H clients files = Inr (bw_store s, cl, parted, rest)
    \<and> mset cl = mset clients \<and> mset (parted @ rest) = mset clients \<and> balance_inv n M H1 (parted @ rest) s
    \<and> (\<forall>c \<in> set parted. n > 1 \<and> sp_partition (H1 c) \<noteq> [])"
proof -
  define cl where "cl = sort_desc (\<lambda>c. traffic (H1 c)) clients"
  have cl: "mset cl = mset clients" "distinct cl" "set cl = set clients"
    using assms(2) by (simp_all add: cl_def)
  from bandwidth_groups_ok [OF assms(1) cl(2) _ assms(5)] assms(4) obtain s parted rest where
    g: "bandwidth_groups n H1 cl = Inr (s, parted, rest)" "mset (parted @ rest) = mset cl"
      "balance_inv n M H1 (parted @ rest) s" "\<forall>c \<in> set parted. n > 1 \<and> sp_partition (H1 c) \<noteq> []"
    unfolding cl(3) by blast
  have "bandwidthPartition n H clients files = Inr (bw_store s, cl, parted, rest)"
    by (simp add: bandwidthPartition_def assms(3) cl_def [symmetric] g(1))
  with g(2-4) cl(1) show ?thesis
    by (intro exI [of _ s] exI [of _ cl] exI [of _ parted] exI [of _ rest]) simp
qed

text \<open>
  C21: If the statistics are valid (non-negative traffic, partitions of at most as many non-negative
  parts as there are controllers, not all zero), the bandwidth assignment returns: every client
  is placed on distinct existing controllers, one for each of its shares, the clients are
  divided into partitioned and other ones, and the traffic sent to any two controllers differs
  by at most the traffic of the busiest client.
\<close>

theorem bandwidthPartition_balanced:
  assumes "0 < n" and "distinct clients" and "parseStatsFile H clients files = Inr H1"
    and "\<forall>c \<in> set clients. stats_valid n (H1 c) \<and> traffic (H1 c) \<le> M" and "0 \<le> M"
  shows "\<exists>H' cl parted rest. bandwidthPartition n H clients files = Inr (H', cl, parted, rest)
    \<and> mset cl = mset clients \<and> mset (parted @ rest) = mset clients
    \<and> (\<forall>c \<in> set clients. placed n (H' c))
    \<and> (\<forall>i<n. \<forall>j<n. load n H' clients i - load n H' clients j \<le> M)"
proof -
  obtain s cl parted rest where g: "bandwidthPartition n H clients files = Inr (bw_store s, cl, parted, rest)"
    "mset cl = mset clients" "mset (parted @ rest) = mset clients" "balance_inv n M H1 (parted @ rest) s"
    using bandwidthPartition_ok [OF assms] by blast
  have same: "set (parted @ rest) = set clients" using g(3) by (rule mset_eq_setD)
  have "load n (bw_store s) clients j = load n (bw_store s) (parted @ rest) j" for j
    by (rule load_mset) (simp only: g(3))
  then have "load n (bw_store s) clients i - load n (bw_store s) clients j \<le> M" if "i < n" "j < n" for i j
    using balance_invD(4) [OF g(4) that] balance_invD(5) [OF g(4) that(1)] balance_invD(5) [OF g(4) that(2)]
    by simp
  moreover have "\<forall>c \<in> set clients. placed n (bw_store s c)"
    using balance_invD(6) [OF g(4)] same by blast
  ultimately show ?thesis using g(1-3) by metis
qed

section \<open>Every client is assigned\<close>

definition assigned :: "nat \<Rightarrow> scratchpad \<Rightarrow> bool" where
  "assigned n s \<longleftrightarrow> controllerIdx s \<noteq> [] \<and> distinct (controllerIdx s) \<and> set (controllerIdx s) \<subseteq> {..<n}
     \<and> partition_ok s"

lemma placed_assigned:
  assumes "placed n s" and "sp_partition s = [] \<or> sum_list (sp_partition s) \<noteq> 0"
  shows "assigned n s"
proof -
  have len: "length (controllerIdx s) = length (shares n s)" using assms(1) by (simp add: placed_def)
  have "length (shares n s) \<le> length (sp_partition s)" if "sp_partition s \<noteq> []"
    using that by (auto simp: shares_def client_bandwidth_def Suc_le_eq)
  moreover have "shares n s \<noteq> []" by (auto simp: shares_def client_bandwidth_def)
  ultimately show ?thesis
    using assms len by (auto simp: assigned_def placed_def partition_ok_def)
qed

lemma interleave_store:
  "foldl (\<lambda>H c. H(c := H c\<lparr>sp_partition := replicate n 1, controllerIdx := [0..<n]\<rparr>)) H cs c =
     (if c \<in> set cs then H c\<lparr>sp_partition := replicate n 1, controllerIdx := [0..<n]\<rparr> else H c)"
  by (induction cs arbitrary: H) auto

lemma group_steps:
  assumes "distinct cs" and "\<forall>i<length cs. f i < n"
  shows "\<exists>H'. foldR (group_step n) H (map (\<lambda>i. (f i, cs ! i)) [0..<length cs]) = Inr H'
    \<and> (\<forall>i<length cs. H' (cs ! i) = (H (cs ! i))\<lparr>controllerIdx := controllerIdx (H (cs ! i)) @ [f i]\<rparr>)
    \<and> (\<forall>c. c \<notin> set cs \<longrightarrow> H' c = H c)"
proof -
  have "\<exists>H'. foldR (group_step n) H (map (\<lambda>i. (f i, cs ! i)) [0..<m]) = Inr H'
    \<and> (\<forall>i<m. H' (cs ! i) = (H (cs ! i))\<lparr>controllerIdx := controllerIdx (H (cs ! i)) @ [f i]\<rparr>)
    \<and> (\<forall>c. c \<notin> set (take m cs) \<longrightarrow> H' c = H c)" if "m \<le> length cs" for m
    using that
  proof (induction m)
    case 0
    show ?case by simp
  next
    case (Suc m)
    then obtain H1 where H1: "foldR (group_step n) H (map (\<lambda>i. (f i, cs ! i)) [0..<m]) = Inr H1"
      "\<forall>i<m. H1 (cs ! i) = (H (cs ! i))\<lparr>controllerIdx := controllerIdx (H (cs ! i)) @ [f i]\<rparr>"
      "\<forall>c. c \<notin> set (take m cs) \<longrightarrow> H1 c = H c" by auto
    have m: "m < length cs" using Suc.prems by simp
    have new: "cs ! m \<notin> set (take m cs)"
      using assms(1) m by (metis distinct_take take_Suc_conv_app_nth distinct_append list.set_intros(1) disjoint_iff)
    have other: "cs ! i \<noteq> cs ! m" if "i < m" for i
      using assms(1) m that by (simp add: nth_eq_iff_index_eq)
    have take: "set (take (Suc m) cs) = insert (cs ! m) (set (take m cs))"
      using m by (simp add: take_Suc_conv_app_nth)
    show ?case
      using H1 m assms(2) new other take
      by (auto simp: foldR_append less_Suc_eq)
  qed
  from this [of "length cs"] show ?thesis by simp
qed

lemma assign_groups:
  assumes "0 < n" and "distinct clients" and "mset (shuffle clients) = mset clients"
    and g1: "\<not> (clients \<noteq> [] \<and> interleaving)" and g2: "\<not> (stats \<noteq> [] \<and> clients \<noteq> [] \<and> remapMode \<noteq> 1)"
  shows "\<exists>H' cs. assignScratchpadClients shuffle n H clients stats remapMode interleaving = Inr (H', cs, [], cs)
    \<and> mset cs = mset clients
    \<and> (\<forall>c \<in> set clients. \<exists>k<n. H' c = (H c)\<lparr>controllerIdx := controllerIdx (H c) @ [k]\<rparr>)
    \<and> (\<forall>c. c \<notin> set clients \<longrightarrow> H' c = H c)"
proof -
  define cs where "cs = (if remapMode = 1 then shuffle clients else clients)"
  let ?per = "nat (cdiv (int (length clients)) (int n))"
  have cs: "mset cs = mset clients" using assms(3) by (simp add: cs_def)
  have cs': "distinct cs" "set cs = set clients" "length cs = length clients"
    using assms(2) mset_eq_imp_distinct_iff [OF cs] mset_eq_setD [OF cs] mset_eq_length [OF cs] by simp_all
  have idx: "i div ?per < n" if "i < length cs" for i
  proof -
    have "int (length clients) \<le> cdiv (int (length clients)) (int n) * int n"
      using cdiv_le_iff [of "int n" "int (length clients)" "cdiv (int (length clients)) (int n)"] assms(1) by simp
    also have "\<dots> = int (?per * n)"
      using cdiv_nonneg [of "int n" "int (length clients)"] assms(1) by simp
    finally have "length clients \<le> ?per * n" by (simp only: of_nat_le_iff)
    then have "i < n * ?per" using that cs'(3) by (simp add: mult.commute)
    then show ?thesis by (rule less_mult_imp_div_less)
  qed
  then have "\<forall>i<length cs. i div ?per < n" by blast
  from group_steps [OF cs'(1) this, of H] obtain H' where
    H': "foldR (group_step n) H (map (\<lambda>i. (i div ?per, cs ! i)) [0..<length cs]) = Inr H'"
      "\<forall>i<length cs. H' (cs ! i) = (H (cs ! i))\<lparr>controllerIdx := controllerIdx (H (cs ! i)) @ [i div ?per]\<rparr>"
      "\<forall>c. c \<notin> set cs \<longrightarrow> H' c = H c" by blast
  have "\<exists>k<n. H' c = (H c)\<lparr>controllerIdx := controllerIdx (H c) @ [k]\<rparr>" if "c \<in> set clients" for c
  proof -
    have "c \<in> set cs" using that cs'(2) by simp
    then obtain i where i: "i < length cs" "cs ! i = c" by (auto simp: in_set_conv_nth)
    with H'(2) idx show ?thesis by blast
  qed
  moreover have "assignScratchpadClients shuffle n H clients stats remapMode interleaving = Inr (H', cs, [], cs)"
  proof -
    have "assignScratchpadClients shuffle n H clients stats remapMode interleaving
        = bindR (foldR (group_step n) H (map (\<lambda>i. (i div ?per, cs ! i)) [0..<length cs])) (\<lambda>H'. Inr (H', cs, [], cs))"
      unfolding assignScratchpadClients_def Let_def cs_def [symmetric] if_not_P [OF g1]
        if_not_P [OF g2] using assms(1) by simp
    then show ?thesis by (simp only: H'(1) bindR.simps)
  qed
  moreover have "\<forall>c. c \<notin> set clients \<longrightarrow> H' c = H c" using H'(3) cs'(2) by simp
  ultimately show ?thesis using cs by blast
qed

text \<open>
  C30: Whatever the mode, assigning distinct, unassigned clients to at least one controller returns,
  given statistics that can be read and are valid: no client is lost or duplicated, and each
  has at least one controller, all of them distinct and existing, with a usable share for each.
\<close>

theorem assignScratchpadClients_assigns:
  assumes "0 < n" and "distinct clients" and "mset (shuffle clients) = mset clients"
    and "\<forall>c \<in> set clients. controllerIdx (H c) = [] \<and> sp_partition (H c) = []"
    and "parseStatsFile H clients stats = Inr H1"
    and "\<forall>c \<in> set clients. stats_valid n (H1 c)
      \<and> (sp_partition (H1 c) = [] \<or> sum_list (sp_partition (H1 c)) \<noteq> 0)"
  shows "\<exists>H' cl parted rest. assignScratchpadClients shuffle n H clients stats remapMode interleaving = Inr (H', cl, parted, rest)
    \<and> mset cl = mset clients \<and> mset (parted @ rest) = mset clients
    \<and> (\<forall>c \<in> set clients. assigned n (H' c))"
proof -
  consider (all) "clients \<noteq> [] \<and> interleaving"
    | (bandwidth) "\<not> (clients \<noteq> [] \<and> interleaving)" "stats \<noteq> [] \<and> clients \<noteq> [] \<and> remapMode \<noteq> 1"
    | (groups) "\<not> (clients \<noteq> [] \<and> interleaving)" "\<not> (stats \<noteq> [] \<and> clients \<noteq> [] \<and> remapMode \<noteq> 1)" by blast
  then show ?thesis
  proof cases
    case all
    let ?H = "foldl (\<lambda>H c. H(c := H c\<lparr>sp_partition := replicate n 1, controllerIdx := [0..<n]\<rparr>))
      (if stats = [] then H else H1) clients"
    have "assigned n (?H c)" if "c \<in> set clients" for c
      unfolding interleave_store using that assms(1)
      by (auto simp: assigned_def partition_ok_def sum_list_replicate)
    moreover have "assignScratchpadClients shuffle n H clients stats remapMode interleaving = Inr (?H, clients, clients, [])"
      using all assms(5) by (simp add: assignScratchpadClients_def interleaveAllClients_def)
    ultimately show ?thesis by fastforce
  next
    case bandwidth
    define M where "M = Max (insert 0 (traffic ` H1 ` set clients))"
    have M: "0 \<le> M" "\<forall>c \<in> set clients. stats_valid n (H1 c) \<and> traffic (H1 c) \<le> M"
      using assms(6) by (simp_all add: M_def)
    obtain s cl parted rest where g: "bandwidthPartition n H clients stats = Inr (bw_store s, cl, parted, rest)"
      "mset cl = mset clients" "mset (parted @ rest) = mset clients" "balance_inv n M H1 (parted @ rest) s"
      using bandwidthPartition_ok [OF assms(1,2,5) M(2,1)] by blast
    have "assigned n (bw_store s c)" if "c \<in> set clients" for c
    proof (rule placed_assigned)
      have "c \<in> set (parted @ rest)" using that g(3) by (metis mset_eq_setD)
      then show "placed n (bw_store s c)" by (rule balance_invD(6) [OF g(4)])
      have "sp_partition (bw_store s c) = sp_partition (H1 c)"
        using arg_cong [OF balance_invD(8) [OF g(4), of c], of sp_partition] by simp
      then show "sp_partition (bw_store s c) = [] \<or> sum_list (sp_partition (bw_store s c)) \<noteq> 0"
        using assms(6) that by simp
    qed
    then show ?thesis
      using g(1-3) bandwidth unfolding assignScratchpadClients_def by auto
  next
    case groups
    from assign_groups [where shuffle = shuffle and H = H, OF assms(1-3) groups] obtain H' cs where
      g: "assignScratchpadClients shuffle n H clients stats remapMode interleaving = Inr (H', cs, [], cs)"
        "mset cs = mset clients" "\<forall>c \<in> set clients. \<exists>k<n. H' c = (H c)\<lparr>controllerIdx := controllerIdx (H c) @ [k]\<rparr>" by blast
    have "assigned n (H' c)" if c: "c \<in> set clients" for c
    proof -
      obtain k where "k < n" "H' c = (H c)\<lparr>controllerIdx := controllerIdx (H c) @ [k]\<rparr>" using g(3) c by blast
      with assms(4) c show ?thesis by (simp add: assigned_def partition_ok_def)
    qed
    with g(1,2) show ?thesis by auto
  qed
qed

section \<open>Examples\<close>

definition stats_example :: sp_store where
  "stats_example c = mk_Scratchpad (str_of_nat c) c ''Scratchpad_c'' ''FPGA0''"

definition example_stats :: "string list list" where
  "example_stats = [[''LEAP_SCRATCHPAD_0_PLATFORM_0_READ_REQUESTS,reads,70'',
     ''LEAP_SCRATCHPAD_1_PLATFORM_0_READ_REQUESTS,reads,40'',
     ''LEAP_SCRATCHPAD_1_PLATFORM_0_WRITE_REQUESTS,writes,5'',
     ''LEAP_SCRATCHPAD_2_PLATFORM_0_READ_REQUESTS,reads,30'',
     ''Scratchpad bandwidth partition: ID: 0 Ratio: 3 : 4'']]"

lemma example_stats_read:
  obtains H1 where "parseStatsFile stats_example [0, 1, 2] example_stats = Inr H1"
    and "\<forall>c \<in> set [0, 1, 2]. stats_valid 2 (H1 c) \<and> traffic (H1 c) \<le> 70
      \<and> (sp_partition (H1 c) = [] \<or> sum_list (sp_partition (H1 c)) \<noteq> 0)"
proof -
  have "case parseStatsFile stats_example [0, 1, 2] example_stats of
      Inr H1 \<Rightarrow> (\<forall>c \<in> set [0, 1, 2]. stats_valid 2 (H1 c) \<and> traffic (H1 c) \<le> 70
      \<and> (sp_partition (H1 c) = [] \<or> sum_list (sp_partition (H1 c)) \<noteq> 0))
    | Inl _ \<Rightarrow> False"
    by code_simp
  then show ?thesis using that by (simp split: sum.splits)
qed

theorem bandwidthPartition_balanced_witness:
  "\<exists>H' cl parted rest. bandwidthPartition 2 stats_example [0, 1, 2] example_stats = Inr (H', cl, parted, rest)
    \<and> mset cl = mset [0, 1, 2] \<and> mset (parted @ rest) = mset [0, 1, 2]
    \<and> (\<forall>c \<in> set [0, 1, 2]. placed 2 (H' c))
    \<and> (\<forall>i<2. \<forall>j<2. load 2 H' [0, 1, 2] i - load 2 H' [0, 1, 2] j \<le> 70)"
proof (rule example_stats_read)
  fix H1
  assume H1: "parseStatsFile stats_example [0, 1, 2] example_stats = Inr H1"
    "\<forall>c \<in> set [0, 1, 2]. stats_valid 2 (H1 c) \<and> traffic (H1 c) \<le> 70
      \<and> (sp_partition (H1 c) = [] \<or> sum_list (sp_partition (H1 c)) \<noteq> 0)"
  from H1(2) have "\<forall>c \<in> set [0, 1, 2]. stats_valid 2 (H1 c) \<and> traffic (H1 c) \<le> 70" by blast
  from bandwidthPartition_balanced [OF _ _ H1(1) this] show ?thesis by simp
qed

theorem assignScratchpadClients_assigns_witness:
  "\<exists>H' cl parted rest. assignScratchpadClients id 2 stats_example [0, 1, 2] example_stats 0 False = Inr (H', cl, parted, rest)
    \<and> mset cl = mset [0, 1, 2] \<and> mset (parted @ rest) = mset [0, 1, 2]
    \<and> (\<forall>c \<in> set [0, 1, 2]. assigned 2 (H' c))"
proof (rule example_stats_read)
  fix H1
  assume H1: "parseStatsFile stats_example [0, 1, 2] example_stats = Inr H1"
    "\<forall>c \<in> set [0, 1, 2]. stats_valid 2 (H1 c) \<and> traffic (H1 c) \<le> 70
      \<and> (sp_partition (H1 c) = [] \<or> sum_list (sp_partition (H1 c)) \<noteq> 0)"
  from H1(2) have valid: "\<forall>c \<in> set [0, 1, 2]. stats_valid 2 (H1 c)
      \<and> (sp_partition (H1 c) = [] \<or> sum_list (sp_partition (H1 c)) \<noteq> 0)" by blast
  have new: "\<forall>c \<in> set [0, 1, 2]. controllerIdx (stats_example c) = [] \<and> sp_partition (stats_example c) = []"
    by (simp add: stats_example_def mk_Scratchpad_def)
  from assignScratchpadClients_assigns [OF _ _ _ new H1(1) valid, of id] show ?thesis by simp
qed

end
