(* ===== verification/RingBuild.thy ===== *)
theory RingBuild
  imports TreeBuild ScratchpadPartition
begin

text \<open>
  \<^verbatim>\<open>lim_memory/remap-scratchpad/remapScratchpad.py\<close>, \<open>buildHierarchicalRing\<close>: the clients of
  every controller are renumbered and joined to rings, one per level.  The lemmas show that the
  rings of a controller have strictly descending levels and consecutive ranges that hold
  exactly the ids of their clients, and that the loop around the whole computation, which
  repeats it once per platform, does not change its result.
\<close>

section \<open>The rings of a controller\<close>

definition close_last :: "scratchpad_ring list \<Rightarrow> nat \<Rightarrow> nat \<Rightarrow> scratchpad_ring list" where
  "close_last rings min_id max_id =
     (if rings = [] then []
      else rings[length rings - 1 := (last rings)\<lparr>ring_minId := min_id, ring_maxId := max_id - 1\<rparr>])"

type_synonym ring_state = "scratchpad_ring list \<times> nat \<times> nat"

text \<open>One client: a new ring is opened when no ring equal to it is there.\<close>

fun ring_client :: "string \<Rightarrow> nat \<Rightarrow> remap_state \<times> ring_state \<Rightarrow> nat \<Rightarrow> remap_state \<times> ring_state" where
  "ring_client base i ((H, ids, new_id), (rings, min_id, max_id)) c =
     (let ring = mk_ring base (level (H c));
          (rings', min', max') =
            (if ring \<in> set rings then (rings, min_id, max_id)
             else (close_last rings min_id max_id @ [ring], new_id, new_id))
      in (remap_client i (H, ids, new_id) c, (rings', min', max' + 1)))"

definition controller_rings ::
  "scratchpad_platform \<Rightarrow> remap_state \<times> scratchpad_ring list list \<Rightarrow> nat
     \<Rightarrow> remap_state \<times> scratchpad_ring list list" where
  "controller_rings p st i =
     (case st of ((H, ids, new_id), network) \<Rightarrow>
       let clients = sort_desc (\<lambda>c. level (H c)) (clients_of H p i);
           (rs, rings, min_id, max_id) =
             foldl (ring_client (svc_name (spp_controllers p ! i)) i) ((H, ids, new_id), ([], new_id, new_id)) clients
       in (rs, network @ [close_last rings min_id max_id]))"

definition platform_rings ::
  "remap_state \<times> scratchpad_platform list \<Rightarrow> scratchpad_platform \<Rightarrow> remap_state \<times> scratchpad_platform list" where
  "platform_rings st p =
     (case st of (rs, ps) \<Rightarrow>
       let (rs', network) = foldl (controller_rings p) (rs, []) [0..<length (spp_controllers p)]
       in (rs', ps @ [p\<lparr>spp_network := RingNetwork network, networkType := ''hring''\<rparr>]))"

type_synonym ring_result = "sp_store \<times> (string \<times> string) list \<times> scratchpad_platform list"

text \<open>The inner loop over the platforms, and the outer loop that repeats it.\<close>

definition ring_pass :: "ring_result \<Rightarrow> ring_result" where
  "ring_pass r =
     (case r of (H, ids, platforms) \<Rightarrow>
       let ((H', ids', _), ps) = foldl platform_rings ((H, ids, 1), []) platforms in (H', ids', ps))"

definition buildHierarchicalRing :: "sp_store \<Rightarrow> scratchpad_platform list \<Rightarrow> ring_result" where
  "buildHierarchicalRing H platforms = foldl (\<lambda>r _. ring_pass r) (H, [], platforms) platforms"

definition getHierarchyRingName :: "string \<Rightarrow> nat \<Rightarrow> string" where
  "getHierarchyRingName base lvl = (if lvl = 0 then base else base @ ''_l'' @ str_of_nat lvl)"

section \<open>Ranges and levels\<close>

text \<open>
  The rings cover the ids from \<open>n\<close> on, one after the other, and the \<open>j\<close>th client is on the ring
  of its level.
\<close>

definition rings_cover :: "nat \<Rightarrow> nat list \<Rightarrow> scratchpad_ring list \<Rightarrow> bool" where
  "rings_cover n levels rings \<longleftrightarrow>
     concat (map (\<lambda>r. [ring_minId r..<Suc (ring_maxId r)]) rings) = [n..<n + length levels]
   \<and> sorted_wrt (>) (map ring_level rings)
   \<and> ring_level ` set rings \<subseteq> set levels
   \<and> (\<forall>r \<in> set rings. ring_minId r \<le> ring_maxId r)
   \<and> (\<forall>j<length levels. \<exists>r \<in> set rings. ring_level r = levels ! j
        \<and> ring_minId r \<le> n + j \<and> n + j \<le> ring_maxId r)"

definition ring_inv :: "string \<Rightarrow> nat \<Rightarrow> nat list \<Rightarrow> ring_state \<Rightarrow> bool" where
  "ring_inv base n levels st \<longleftrightarrow>
     (case st of (rings, min_id, max_id) \<Rightarrow>
        max_id = n + length levels \<and> n \<le> min_id
      \<and> (if levels = [] then rings = [] \<and> min_id = n
         else \<exists>rs. rings = rs @ [mk_ring base (last levels)] \<and> min_id < max_id
           \<and> (\<forall>r \<in> set rs. 1 \<le> ring_minId r)
           \<and> rings_cover n levels (close_last rings min_id max_id)))"

lemma close_last_snoc [simp]:
  "close_last (rs @ [r]) a b = rs @ [r\<lparr>ring_minId := a, ring_maxId := b - 1\<rparr>]"
  by (simp add: close_last_def)

lemma close_last_Nil [simp]: "close_last [] a b = []"
  by (simp add: close_last_def)

lemma rings_cover_extend:
  assumes cov: "rings_cover n levels (rs @ [r\<lparr>ring_minId := a, ring_maxId := n + length levels - 1\<rparr>])"
    and a: "a < n + length levels" and lvl: "ring_level r = lvl"
  shows "rings_cover n (levels @ [lvl]) (rs @ [r\<lparr>ring_minId := a, ring_maxId := n + length levels\<rparr>])"
proof -
  let ?N = "n + length levels"
  have "[a..<Suc ?N] = [a..<?N] @ [?N]" using a by simp
  moreover have "[a..<Suc (?N - 1)] = [a..<?N]"
  proof -
    have "Suc (?N - 1) = ?N" using a by simp
    then show ?thesis by (simp only:)
  qed
  ultimately have "concat (map (\<lambda>r. [ring_minId r..<Suc (ring_maxId r)]) (rs @ [r\<lparr>ring_minId := a, ring_maxId := ?N\<rparr>]))
      = concat (map (\<lambda>r. [ring_minId r..<Suc (ring_maxId r)]) (rs @ [r\<lparr>ring_minId := a, ring_maxId := ?N - 1\<rparr>])) @ [?N]"
    by (simp del: upt_Suc)
  also have "\<dots> = [n..<n + length (levels @ [lvl])]"
    using cov by (simp add: rings_cover_def del: upt_Suc) simp
  finally have cat: "concat (map (\<lambda>r. [ring_minId r..<Suc (ring_maxId r)]) (rs @ [r\<lparr>ring_minId := a, ring_maxId := ?N\<rparr>]))
      = [n..<n + length (levels @ [lvl])]" .
  have "\<exists>q \<in> set (rs @ [r\<lparr>ring_minId := a, ring_maxId := ?N\<rparr>]). ring_level q = (levels @ [lvl]) ! j
      \<and> ring_minId q \<le> n + j \<and> n + j \<le> ring_maxId q" if "j < length (levels @ [lvl])" for j
  proof (cases "j < length levels")
    case True
    with cov obtain q where "q \<in> set (rs @ [r\<lparr>ring_minId := a, ring_maxId := ?N - 1\<rparr>])"
      "ring_level q = levels ! j" "ring_minId q \<le> n + j" "n + j \<le> ring_maxId q"
      unfolding rings_cover_def by blast
    with True show ?thesis by (auto simp: nth_append)
  next
    case False
    then have "j = length levels" using that by simp
    with a lvl show ?thesis by simp
  qed
  with cat cov a show ?thesis
    unfolding rings_cover_def by auto
qed

lemma rings_cover_new:
  assumes cov: "rings_cover n levels rs" and low: "\<forall>l \<in> set levels. lvl < l"
    and lvl: "ring_level r = lvl"
  shows "rings_cover n (levels @ [lvl])
    (rs @ [r\<lparr>ring_minId := n + length levels, ring_maxId := n + length levels\<rparr>])"
proof -
  let ?r = "r\<lparr>ring_minId := n + length levels, ring_maxId := n + length levels\<rparr>"
  have "\<exists>q \<in> set (rs @ [?r]). ring_level q = (levels @ [lvl]) ! j \<and> ring_minId q \<le> n + j \<and> n + j \<le> ring_maxId q"
    if "j < length (levels @ [lvl])" for j
  proof (cases "j < length levels")
    case True
    with cov obtain q where "q \<in> set rs" "ring_level q = levels ! j" "ring_minId q \<le> n + j" "n + j \<le> ring_maxId q"
      unfolding rings_cover_def by blast
    with True show ?thesis by (auto simp: nth_append)
  next
    case False
    then have "j = length levels" using that by simp
    with lvl show ?thesis by simp
  qed
  moreover have "sorted_wrt (>) (map ring_level (rs @ [?r]))"
    using cov low lvl by (auto simp: rings_cover_def sorted_wrt_append)
  ultimately show ?thesis
    using cov lvl by (auto simp: rings_cover_def)
qed

lemma ring_inv_step:
  assumes inv: "ring_inv base n levels (rings, min_id, max_id)" and n: "1 \<le> n"
    and desc: "\<forall>l \<in> set levels. lvl \<le> l"
  defines "ring \<equiv> mk_ring base lvl"
  shows "ring \<in> set rings \<Longrightarrow> ring_inv base n (levels @ [lvl]) (rings, min_id, max_id + 1)"
    and "ring \<notin> set rings \<Longrightarrow>
      ring_inv base n (levels @ [lvl]) (close_last rings min_id max_id @ [ring], max_id, max_id + 1)"
proof -
  have max_id: "max_id = n + length levels" "n \<le> min_id" using inv by (simp_all add: ring_inv_def)
  {
    assume mem: "ring \<in> set rings"
    then obtain rs where rs: "rings = rs @ [mk_ring base (last levels)]" "min_id < max_id"
      "\<forall>r \<in> set rs. 1 \<le> ring_minId r" "rings_cover n levels (close_last rings min_id max_id)" "levels \<noteq> []"
      using inv by (auto simp: ring_inv_def split: if_splits)
    have "ring \<notin> set rs" using rs(3) by (auto simp: ring_def mk_ring_def)
    then have lvl: "last levels = lvl" using mem rs(1) by (auto simp: ring_def mk_ring_def)
    have "rings_cover n (levels @ [lvl]) (rs @ [(mk_ring base lvl)\<lparr>ring_minId := min_id, ring_maxId := n + length levels\<rparr>])"
      using rs(1,2,4) lvl max_id(1) by (intro rings_cover_extend) (simp_all add: mk_ring_def)
    then show "ring_inv base n (levels @ [lvl]) (rings, min_id, max_id + 1)"
      using rs(1-3) lvl max_id by (simp add: ring_inv_def)
  next
    assume new: "ring \<notin> set rings"
    have cover: "rings_cover n levels (close_last rings min_id max_id)"
      using inv by (auto simp: ring_inv_def rings_cover_def split: if_splits)
    have low: "\<forall>l \<in> set levels. lvl < l"
    proof (cases "levels = []")
      case False
      then obtain rs where rs: "rings = rs @ [mk_ring base (last levels)]"
        "rings_cover n levels (close_last rings min_id max_id)"
        using inv by (auto simp: ring_inv_def)
      have ne: "lvl \<noteq> last levels" using new rs(1) by (auto simp: ring_def)
      have last: "last levels \<le> l" if l: "l \<in> set levels" for l
      proof -
        from l obtain j where j: "j < length levels" "levels ! j = l" by (auto simp: in_set_conv_nth)
        then obtain q where q: "q \<in> set (close_last rings min_id max_id)" "ring_level q = l"
          using rs(2) by (auto simp: rings_cover_def)
        have "sorted_wrt (>) (map ring_level (close_last rings min_id max_id))"
          using rs(2) by (simp add: rings_cover_def)
        then show ?thesis using q rs(1) by (auto simp: sorted_wrt_append mk_ring_def)
      qed
      have "last levels \<in> set levels" using False by simp
      with desc ne have "lvl < last levels" by (simp add: order.strict_iff_order)
      with last show ?thesis by (blast intro: less_le_trans)
    qed simp
    have pos: "\<forall>r \<in> set (close_last rings min_id max_id). 1 \<le> ring_minId r"
      using inv n max_id(2) by (auto simp: ring_inv_def split: if_splits)
    have "rings_cover n (levels @ [lvl]) (close_last rings min_id max_id
        @ [ring\<lparr>ring_minId := n + length levels, ring_maxId := n + length levels\<rparr>])"
      by (rule rings_cover_new [OF cover low]) (simp add: ring_def mk_ring_def)
    then show "ring_inv base n (levels @ [lvl]) (close_last rings min_id max_id @ [ring], max_id, max_id + 1)"
      using pos max_id by (simp add: ring_inv_def ring_def)
  }
qed

lemma ring_clients:
  assumes "sorted_wrt (\<ge>) (map (\<lambda>c. level (H0 c)) cl)" and "1 \<le> n"
  shows "\<exists>st. foldl (ring_client base i) ((H0, ids, n), ([], n, n)) cl = (foldl (remap_client i) (H0, ids, n) cl, st)
    \<and> ring_inv base n (map (\<lambda>c. level (H0 c)) cl) st"
  using assms(1)
proof (induction cl rule: rev_induct)
  case Nil
  show ?case by (simp add: ring_inv_def)
next
  case (snoc c cl)
  let ?levels = "map (\<lambda>c. level (H0 c)) cl"
  from snoc obtain rings a b where IH:
    "foldl (ring_client base i) ((H0, ids, n), ([], n, n)) cl = (foldl (remap_client i) (H0, ids, n) cl, rings, a, b)"
    "ring_inv base n ?levels (rings, a, b)"
    by (auto simp: sorted_wrt_append)
  have desc: "\<forall>l \<in> set ?levels. level (H0 c) \<le> l" using snoc.prems by (simp add: sorted_wrt_append)
  obtain H1 ids1 m where f: "foldl (remap_client i) (H0, ids, n) cl = (H1, ids1, m)"
    by (cases "foldl (remap_client i) (H0, ids, n) cl")
  have fold: "m = n + length cl \<and> level (H1 d) = level (H0 d)" for d
  proof -
    have "foldl (remap_client i) (H0, ids, n) cl = (H1, ids1, m) \<Longrightarrow> m = n + length cl \<and> (\<forall>d. level (H1 d) = level (H0 d))"
      for H0 ids n
    proof (induction cl arbitrary: H0 ids n)
      case (Cons d cl)
      then show ?case by (fastforce split: if_splits)
    qed simp
    with f show ?thesis by blast
  qed
  have "b = m" using IH(2) fold by (simp add: ring_inv_def)
  then show ?case
    using IH(1) f ring_inv_step [OF IH(2) assms(2) desc] fold
    by (cases "mk_ring base (level (H0 c)) \<in> set rings") (auto simp: Let_def)
qed

section \<open>One pass in closed form\<close>

definition remap_entry :: "remap_state \<Rightarrow> nat \<times> nat \<Rightarrow> remap_state" where
  "remap_entry rs e = remap_client (fst e) rs (snd e)"

definition level_clients :: "sp_store \<Rightarrow> scratchpad_platform \<Rightarrow> nat \<Rightarrow> nat list" where
  "level_clients H p i = sort_desc (\<lambda>c. level (H c)) (clients_of H p i)"

definition entries_to :: "sp_store \<Rightarrow> scratchpad_platform \<Rightarrow> nat \<Rightarrow> (nat \<times> nat) list" where
  "entries_to H p k = concat (map (\<lambda>i. map (Pair i) (level_clients H p i)) [0..<k])"

abbreviation "entries H p \<equiv> entries_to H p (length (spp_controllers p))"

definition the_rings :: "sp_store \<Rightarrow> scratchpad_platform \<Rightarrow> nat \<Rightarrow> nat \<Rightarrow> scratchpad_ring list" where
  "the_rings H p i n =
     (case foldl (ring_client (svc_name (spp_controllers p ! i)) i) ((H, [], n), ([], n, n)) (level_clients H p i) of
        (_, rings, min_id, max_id) \<Rightarrow> close_last rings min_id max_id)"

definition networks_to :: "sp_store \<Rightarrow> scratchpad_platform \<Rightarrow> nat \<Rightarrow> nat \<Rightarrow> scratchpad_ring list list" where
  "networks_to H p n k = map (\<lambda>i. the_rings H p i (n + length (entries_to H p i))) [0..<k]"

fun ringed :: "sp_store \<Rightarrow> nat \<Rightarrow> scratchpad_platform list \<Rightarrow> scratchpad_platform list" where
  "ringed H n [] = []"
| "ringed H n (p # ps) =
     p\<lparr>spp_network := RingNetwork (networks_to H p n (length (spp_controllers p))), networkType := ''hring''\<rparr>
     # ringed H (n + length (entries H p)) ps"

lemma foldl_pairs: "foldl remap_entry rs (map (Pair i) cl) = foldl (remap_client i) rs cl"
  by (induction cl arbitrary: rs) (simp_all add: remap_entry_def)

lemma same_clients_level: "same_clients H H' \<Longrightarrow> level (H' c) = level (H c)"
proof -
  assume "same_clients H H'"
  then have "H' c\<lparr>remappedIds := []\<rparr> = H c\<lparr>remappedIds := []\<rparr>" by (simp add: same_clients_def)
  from arg_cong [OF this, of level] show ?thesis by simp
qed

lemma same_clients_refl [simp]: "same_clients H H"
  by (simp add: same_clients_def)

lemma same_level_clients: "same_clients H H' \<Longrightarrow> level_clients H' p i = level_clients H p i"
  by (simp add: level_clients_def same_clients_level same_clients_fields(9))

lemma same_entries: "same_clients H H' \<Longrightarrow> entries_to H' p k = entries_to H p k"
  by (simp add: entries_to_def same_level_clients)

lemma remap_entry_same: "remap_entry (H, ids, n) e = (H', ids', n') \<Longrightarrow> same_clients H H' \<and> n' = Suc n"
  by (cases e) (auto simp: remap_entry_def same_clients_def)

lemma remap_entries_same:
  "foldl remap_entry (H, ids, n) es = (H', ids', n') \<Longrightarrow> same_clients H H' \<and> n' = n + length es"
proof (induction es arbitrary: H ids n)
  case (Cons e es)
  obtain H1 ids1 n1 where e: "remap_entry (H, ids, n) e = (H1, ids1, n1)" by (cases "remap_entry (H, ids, n) e")
  have "same_clients H1 H' \<and> n' = n1 + length es"
    by (rule Cons.IH) (use Cons.prems e in simp)
  with remap_entry_same [OF e] show ?case by (auto intro: same_clients_trans)
qed simp

lemma ring_client_snd:
  "same_clients H H' \<Longrightarrow> snd (ring_client base i ((H', ids', n), st) c) = snd (ring_client base i ((H, ids, n), st) c)"
  by (cases st) (auto simp: Let_def same_clients_level split: prod.splits)

lemma ring_client_fst: "fst (ring_client base i (rs, st) c) = remap_client i rs c"
  by (cases rs; cases st) (auto simp: Let_def split: prod.splits)

lemma ring_fold_snd:
  "same_clients H H' \<Longrightarrow> snd (foldl (ring_client base i) ((H', ids', n), st) cl)
     = snd (foldl (ring_client base i) ((H, ids, n), st) cl)"
proof (induction cl arbitrary: H H' ids ids' n st)
  case (Cons c cl)
  obtain G1 k1 n1 where g: "remap_client i (H, ids, n) c = (G1, k1, n1)" by (cases "remap_client i (H, ids, n) c")
  obtain G2 k2 n2 where g': "remap_client i (H', ids', n) c = (G2, k2, n2)" by (cases "remap_client i (H', ids', n) c")
  have n: "n1 = n2" using g g' by auto
  have "same_clients H G1" "same_clients H' G2"
    using g g' by (auto simp: same_clients_def)
  then have same: "same_clients G1 G2"
    using Cons.prems by (simp add: same_clients_def)
  obtain st' where st': "snd (ring_client base i ((H, ids, n), st) c) = st'" by blast
  have "ring_client base i ((H, ids, n), st) c = ((G1, k1, n2), st')"
    using ring_client_fst [of base i "(H, ids, n)" st c] g n st' by (metis prod.collapse)
  moreover have "ring_client base i ((H', ids', n), st) c = ((G2, k2, n2), st')"
    using ring_client_fst [of base i "(H', ids', n)" st c] ring_client_snd [OF Cons.prems] g' st' by (metis prod.collapse)
  ultimately show ?case using Cons.IH [OF same] by (simp del: ring_client.simps)
qed simp

lemma ring_fold_fst: "fst (foldl (ring_client base i) (rs, st) cl) = foldl (remap_client i) rs cl"
proof (induction cl arbitrary: rs st)
  case (Cons c cl)
  then show ?case
    using ring_client_fst [of base i rs st c] by (metis foldl_Cons prod.collapse)
qed simp

lemma the_rings_same: "same_clients H H' \<Longrightarrow> the_rings H' p i n = the_rings H p i n"
  unfolding the_rings_def same_level_clients
  using ring_fold_snd [where H = H and H' = H' and base = "svc_name (spp_controllers p ! i)" and i = i
      and ids = "[]" and ids' = "[]" and n = n and st = "([], n, n)" and cl = "level_clients H p i"]
  by (auto split: prod.splits)

lemma networks_same: "same_clients H H' \<Longrightarrow> networks_to H' p n k = networks_to H p n k"
  by (simp add: networks_to_def the_rings_same same_entries)

lemma controller_rings_eq:
  assumes "same_clients H0 H"
  shows "controller_rings p ((H, ids, n), net) i
    = (foldl remap_entry (H, ids, n) (map (Pair i) (level_clients H0 p i)), net @ [the_rings H0 p i n])"
proof -
  let ?f = "foldl (ring_client (svc_name (spp_controllers p ! i)) i) ((H, ids, n), ([], n, n)) (level_clients H0 p i)"
  have cl: "sort_desc (\<lambda>c. level (H c)) (clients_of H p i) = level_clients H0 p i"
    using same_level_clients [OF assms, of p i] by (simp add: level_clients_def)
  have 1: "fst ?f = foldl remap_entry (H, ids, n) (map (Pair i) (level_clients H0 p i))"
    by (simp only: ring_fold_fst foldl_pairs)
  have 2: "snd ?f = snd (foldl (ring_client (svc_name (spp_controllers p ! i)) i) ((H0, [], n), ([], n, n)) (level_clients H0 p i))"
    by (rule ring_fold_snd [OF assms])
  obtain rs rings a b where f: "?f = (rs, rings, a, b)" by (cases ?f)
  have "the_rings H0 p i n = close_last rings a b"
    using 2 f by (auto simp: the_rings_def split: prod.splits)
  then show ?thesis
    using f 1 by (simp add: controller_rings_def cl Let_def)
qed

lemma controllers_eq:
  assumes "same_clients H0 H"
  shows "foldl (controller_rings p) ((H, ids, n), []) [0..<k]
    = (foldl remap_entry (H, ids, n) (entries_to H0 p k), networks_to H0 p n k)"
proof (induction k)
  case 0
  show ?case by (simp add: entries_to_def networks_to_def)
next
  case (Suc k)
  obtain H1 ids1 n1 where f: "foldl remap_entry (H, ids, n) (entries_to H0 p k) = (H1, ids1, n1)"
    by (cases "foldl remap_entry (H, ids, n) (entries_to H0 p k)")
  from remap_entries_same [OF f] have s: "same_clients H0 H1" "n1 = n + length (entries_to H0 p k)"
    using assms by (auto intro: same_clients_trans)
  have "entries_to H0 p (Suc k) = entries_to H0 p k @ map (Pair k) (level_clients H0 p k)"
    by (simp add: entries_to_def)
  with Suc f controller_rings_eq [OF s(1)] s(2) show ?case
    by (simp add: networks_to_def)
qed

lemma platforms_eq:
  assumes "same_clients H0 H"
  shows "foldl platform_rings ((H, ids, n), done_ps) ps
    = (foldl remap_entry (H, ids, n) (concat (map (entries H0) ps)), done_ps @ ringed H0 n ps)"
  using assms
proof (induction ps arbitrary: H ids n done_ps)
  case (Cons p ps)
  obtain H1 ids1 n1 where f: "foldl remap_entry (H, ids, n) (entries H0 p) = (H1, ids1, n1)"
    by (cases "foldl remap_entry (H, ids, n) (entries H0 p)")
  from remap_entries_same [OF f] have s: "same_clients H0 H1" "n1 = n + length (entries H0 p)"
    using Cons.prems by (auto intro: same_clients_trans)
  have "platform_rings ((H, ids, n), done_ps) p = ((H1, ids1, n1), done_ps
      @ [p\<lparr>spp_network := RingNetwork (networks_to H0 p n (length (spp_controllers p))), networkType := ''hring''\<rparr>])"
    by (simp add: platform_rings_def controllers_eq [OF Cons.prems] f)
  with Cons.IH [OF s(1)] f s(2) show ?case by simp
qed simp

lemma ring_pass_eq:
  assumes "same_clients H0 H"
  shows "ring_pass (H, ids, ps) =
    (case foldl remap_entry (H, ids, 1) (concat (map (entries H0) ps)) of (H', ids', _) \<Rightarrow> (H', ids', ringed H0 1 ps))"
  unfolding ring_pass_def prod.case platforms_eq [OF assms] by (auto split: prod.splits)

section \<open>Repeating the pass\<close>

text \<open>The store and the table hold the new ids of the entries, counted from \<open>n\<close>.\<close>

definition holds_ids :: "sp_store \<Rightarrow> (string \<times> string) list \<Rightarrow> nat \<Rightarrow> (nat \<times> nat) list \<Rightarrow> bool" where
  "holds_ids H ids n es \<longleftrightarrow>
     (\<forall>j<length es. map_of (remappedIds (H (snd (es ! j)))) (fst (es ! j)) = Some (str_of_nat (n + j))
        \<and> map_of ids (str_of_nat (n + j)) = Some (remap_name H (snd (es ! j))))"

lemma put_same: "map_of m k = Some v \<Longrightarrow> put k v m = m"
  by (induction m) (auto split: if_splits)

lemma holds_ids_Cons:
  "holds_ids H ids n (e # es) \<longleftrightarrow>
     map_of (remappedIds (H (snd e))) (fst e) = Some (str_of_nat n)
   \<and> map_of ids (str_of_nat n) = Some (remap_name H (snd e)) \<and> holds_ids H ids (Suc n) es"
proof -
  have all: "(\<forall>j<Suc m. P j) \<longleftrightarrow> P 0 \<and> (\<forall>j<m. P (Suc j))" for P :: "nat \<Rightarrow> bool" and m
    by (auto simp: less_Suc_eq_0_disj)
  show ?thesis by (simp only: holds_ids_def list.size add_0_right add_Suc_right all nth_Cons_0 nth_Cons_Suc add_Suc) auto
qed

lemma remap_entries_again:
  "holds_ids H ids n es \<Longrightarrow> foldl remap_entry (H, ids, n) es = (H, ids, n + length es)"
proof (induction es arbitrary: n)
  case (Cons e es)
  then have h: "map_of (remappedIds (H (snd e))) (fst e) = Some (str_of_nat n)"
    "map_of ids (str_of_nat n) = Some (remap_name H (snd e))" "holds_ids H ids (Suc n) es"
    by (simp_all add: holds_ids_Cons)
  have "remap_entry (H, ids, n) e = (H, ids, Suc n)"
    using put_same [OF h(1)] put_same [OF h(2)] by (simp add: remap_entry_def remap_name_def)
  with Cons.IH [OF h(3)] show ?case by simp
qed simp

lemma remap_entries_hold:
  assumes "distinct es" and "foldl remap_entry (H, ids, n) es = (H', ids', n')"
  shows "holds_ids H' ids' n es"
  using assms
proof (induction es arbitrary: H' ids' n' rule: rev_induct)
  case (snoc e es)
  obtain H1 ids1 n1 where f: "foldl remap_entry (H, ids, n) es = (H1, ids1, n1)"
    by (cases "foldl remap_entry (H, ids, n) es")
  from snoc.IH [OF _ f] snoc.prems(1) have IH: "holds_ids H1 ids1 n es" by simp
  from remap_entries_same [OF f] have n1: "n1 = n + length es" by simp
  obtain i c where e: "e = (i, c)" by (cases e)
  have step: "remap_entry (H1, ids1, n1) (i, c) = (H', ids', n')" using snoc.prems(2) f e by simp
  have H': "H' = H1(c := H1 c\<lparr>remappedIds := put i (str_of_nat n1) (remappedIds (H1 c))\<rparr>)"
    and ids': "ids' = put (str_of_nat n1) (remap_name H1 c) ids1"
    using step by (auto simp: remap_entry_def remap_name_def)
  have name: "remap_name H' d = remap_name H1 d" for d
    by (simp add: H' remap_name_def)
  have old: "map_of (remappedIds (H' (snd (es ! j)))) (fst (es ! j)) = Some (str_of_nat (n + j))
      \<and> map_of ids' (str_of_nat (n + j)) = Some (remap_name H' (snd (es ! j)))" if j: "j < length es" for j
  proof -
    have "es ! j \<noteq> (i, c)" using snoc.prems(1) e nth_mem [OF j] by (metis distinct_append disjoint_iff list.set_intros(1))
    moreover have "str_of_nat (n + j) \<noteq> str_of_nat n1" using j n1 by (simp add: str_of_nat_inj)
    ultimately show ?thesis
      using IH j unfolding name by (cases "es ! j") (auto simp: holds_ids_def H' ids' map_of_put)
  qed
  have new: "map_of (remappedIds (H' c)) i = Some (str_of_nat n1) \<and> map_of ids' (str_of_nat n1) = Some (remap_name H' c)"
    unfolding name by (simp add: H' ids' map_of_put)
  show ?case
    unfolding holds_ids_def
  proof (intro allI impI)
    fix j
    assume "j < length (es @ [e])"
    then consider "j < length es" | "j = length es" by (auto simp: less_Suc_eq)
    then show "map_of (remappedIds (H' (snd ((es @ [e]) ! j)))) (fst ((es @ [e]) ! j)) = Some (str_of_nat (n + j))
      \<and> map_of ids' (str_of_nat (n + j)) = Some (remap_name H' (snd ((es @ [e]) ! j)))"
    proof cases
      case 1
      with old show ?thesis by (simp add: nth_append)
    next
      case 2
      with new e n1 show ?thesis by simp
    qed
  qed
qed (simp add: holds_ids_def)

lemma ringed_entries: "map (entries H) (ringed H0 n ps) = map (entries H) ps"
  by (induction ps arbitrary: n) (simp_all add: entries_to_def level_clients_def clients_of_def)

lemma the_rings_upd: "the_rings H (p\<lparr>spp_network := x, networkType := y\<rparr>) i n = the_rings H p i n"
  by (simp add: the_rings_def level_clients_def clients_of_def)

lemma ringed_again: "ringed H n (ringed H n ps) = ringed H n ps"
  by (induction ps arbitrary: n)
    (simp_all add: networks_to_def the_rings_upd entries_to_def level_clients_def clients_of_def)

lemma set_entries: "e \<in> set (entries_to H p k) \<Longrightarrow> snd e \<in> set (spp_clients p)"
  by (auto simp: entries_to_def level_clients_def clients_of_def)

lemma distinct_entries_to:
  assumes "distinct (spp_clients p)"
  shows "distinct (entries_to H p k)"
proof (induction k)
  case 0
  show ?case by (simp add: entries_to_def)
next
  case (Suc k)
  have "entries_to H p (Suc k) = entries_to H p k @ map (Pair k) (level_clients H p k)"
    by (simp add: entries_to_def)
  moreover have "distinct (map (Pair k) (level_clients H p k))"
    using assms by (simp add: distinct_map level_clients_def clients_of_def inj_on_def)
  moreover have "set (entries_to H p k) \<inter> set (map (Pair k) (level_clients H p k)) = {}"
    by (auto simp: entries_to_def)
  ultimately show ?case using Suc by simp
qed

lemma distinct_entries:
  "distinct (concat (map spp_clients ps)) \<Longrightarrow> distinct (concat (map (entries H) ps))"
proof (induction ps)
  case (Cons p ps)
  have "set (entries H p) \<inter> set (concat (map (entries H) ps)) = {}"
  proof (intro equals0I, elim IntE)
    fix e
    assume "e \<in> set (entries H p)" and "e \<in> set (concat (map (entries H) ps))"
    then obtain q where "snd e \<in> set (spp_clients p)" "q \<in> set ps" "snd e \<in> set (spp_clients q)"
      using set_entries by fastforce
    with Cons.prems show False by auto
  qed
  with Cons show ?case by (simp add: distinct_entries_to)
qed simp

lemma ring_pass_twice:
  assumes "distinct (concat (map spp_clients ps))"
  shows "ring_pass (ring_pass (H, [], ps)) = ring_pass (H, [], ps)"
proof -
  let ?es = "concat (map (entries H) ps)"
  obtain H' ids' n' where f: "foldl remap_entry (H, [], 1) ?es = (H', ids', n')"
    by (cases "foldl remap_entry (H, [], 1) ?es")
  have one: "ring_pass (H, [], ps) = (H', ids', ringed H 1 ps)"
    using ring_pass_eq [OF same_clients_refl] f by simp
  have same: "same_clients H H'" using remap_entries_same [OF f] by blast
  have "holds_ids H' ids' 1 ?es" by (rule remap_entries_hold [OF distinct_entries [OF assms] f])
  from remap_entries_again [OF this] show ?thesis
    unfolding one ring_pass_eq [OF same] by (simp only: ringed_entries ringed_again prod.case)
qed

lemma repeated_pass:
  assumes "platforms \<noteq> []" and "distinct (concat (map spp_clients platforms))"
  shows "buildHierarchicalRing H platforms = ring_pass (H, [], platforms)"
proof -
  have "foldl (\<lambda>r _. ring_pass r) (ring_pass (H, [], platforms)) ps = ring_pass (H, [], platforms)" for ps :: "scratchpad_platform list"
    by (induction ps) (simp_all add: ring_pass_twice [OF assms(2)])
  with assms(1) show ?thesis by (cases platforms) (simp_all add: buildHierarchicalRing_def)
qed

text \<open>
  The outer loop of \<open>buildHierarchicalRing\<close>, which repeats the whole renaming once per
  platform, is redundant: when no client object is listed twice, one pass gives the same clients,
  table and rings.
\<close>

theorem buildHierarchicalRing_single_pass:
  assumes "platforms \<noteq> []" and "distinct (concat (map spp_clients platforms))"
  shows "buildHierarchicalRing H platforms = ring_pass (H, [], platforms)"
  by (rule repeated_pass [OF assms])

section \<open>What the rings promise\<close>

lemma ring_inv_cover:
  "ring_inv base n levels (rings, a, b) \<Longrightarrow> rings_cover n levels (close_last rings a b)"
  by (cases "levels = []") (auto simp: ring_inv_def rings_cover_def)

lemma the_rings_cover:
  assumes "1 \<le> n"
  shows "rings_cover n (map (\<lambda>c. level (H c)) (level_clients H p i)) (the_rings H p i n)"
proof -
  have "sorted_wrt (\<ge>) (map (\<lambda>c. level (H c)) (level_clients H p i))"
    using sorted_sort_desc [of "\<lambda>c. level (H c)" "clients_of H p i"]
    by (simp add: level_clients_def sorted_wrt_rev)
  from ring_clients [OF this assms, where i = i and ids = "[]" and base = "svc_name (spp_controllers p ! i)"]
  obtain rings a b where st:
    "foldl (ring_client (svc_name (spp_controllers p ! i)) i) ((H, [], n), ([], n, n)) (level_clients H p i)
       = (foldl (remap_client i) (H, [], n) (level_clients H p i), rings, a, b)"
    "ring_inv (svc_name (spp_controllers p ! i)) n (map (\<lambda>c. level (H c)) (level_clients H p i)) (rings, a, b)"
    by (metis prod_cases3)
  show ?thesis
    unfolding the_rings_def st(1) prod.case by (rule ring_inv_cover [OF st(2)])
qed

definition ring_served ::
  "sp_store \<Rightarrow> sp_store \<Rightarrow> (string \<times> string) list \<Rightarrow> scratchpad_platform \<Rightarrow> scratchpad_platform \<Rightarrow> bool" where
  "ring_served H H' ids p p' \<longleftrightarrow>
     (\<exists>network. p' = p\<lparr>spp_network := RingNetwork network, networkType := ''hring''\<rparr>
      \<and> length network = length (spp_controllers p)
      \<and> (\<forall>i<length network. \<exists>n\<ge>1. rings_cover n (map (\<lambda>c. level (H c)) (level_clients H p i)) (network ! i)
           \<and> holds_ids H' ids n (map (Pair i) (level_clients H p i))))"

lemma holds_ids_append:
  assumes "holds_ids H ids n (es1 @ es2)"
  shows "holds_ids H ids n es1" and "holds_ids H ids (n + length es1) es2"
proof -
  have h: "map_of (remappedIds (H (snd ((es1 @ es2) ! j)))) (fst ((es1 @ es2) ! j)) = Some (str_of_nat (n + j))
    \<and> map_of ids (str_of_nat (n + j)) = Some (remap_name H (snd ((es1 @ es2) ! j)))" if "j < length es1 + length es2" for j
    using assms that by (simp add: holds_ids_def)
  show "holds_ids H ids n es1" unfolding holds_ids_def
  proof (intro allI impI)
    fix j
    assume "j < length es1"
    then show "map_of (remappedIds (H (snd (es1 ! j)))) (fst (es1 ! j)) = Some (str_of_nat (n + j))
      \<and> map_of ids (str_of_nat (n + j)) = Some (remap_name H (snd (es1 ! j)))"
      using h [of j] by (simp add: nth_append)
  qed
  show "holds_ids H ids (n + length es1) es2" unfolding holds_ids_def
  proof (intro allI impI)
    fix j
    assume "j < length es2"
    then show "map_of (remappedIds (H (snd (es2 ! j)))) (fst (es2 ! j)) = Some (str_of_nat (n + length es1 + j))
      \<and> map_of ids (str_of_nat (n + length es1 + j)) = Some (remap_name H (snd (es2 ! j)))"
      using h [of "length es1 + j"] by (simp add: add.assoc)
  qed
qed

lemma holds_ids_part:
  assumes "holds_ids H' ids n (entries_to H p k)" and "i < k"
  shows "holds_ids H' ids (n + length (entries_to H p i)) (map (Pair i) (level_clients H p i))"
  using assms
proof (induction k)
  case (Suc k)
  have e: "entries_to H p (Suc k) = entries_to H p k @ map (Pair k) (level_clients H p k)"
    by (simp add: entries_to_def)
  show ?case
  proof (cases "i = k")
    case True
    with holds_ids_append(2) Suc.prems(1) e show ?thesis by metis
  next
    case False
    with Suc holds_ids_append(1) e show ?thesis by (metis less_SucE)
  qed
qed simp

lemma ringed_served:
  assumes "holds_ids H' ids n (concat (map (entries H) ps))" and "1 \<le> n"
  shows "list_all2 (ring_served H H' ids) ps (ringed H n ps)"
  using assms
proof (induction ps arbitrary: n)
  case (Cons p ps)
  let ?net = "networks_to H p n (length (spp_controllers p))"
  have h: "holds_ids H' ids n (entries H p)" "holds_ids H' ids (n + length (entries H p)) (concat (map (entries H) ps))"
    using holds_ids_append [of H' ids n "entries H p"] Cons.prems(1) by simp_all
  have "\<exists>m\<ge>1. rings_cover m (map (\<lambda>c. level (H c)) (level_clients H p i)) (?net ! i)
      \<and> holds_ids H' ids m (map (Pair i) (level_clients H p i))" if i: "i < length (spp_controllers p)" for i
  proof (intro exI conjI)
    show "1 \<le> n + length (entries_to H p i)" using Cons.prems(2) by simp
    then show "rings_cover (n + length (entries_to H p i)) (map (\<lambda>c. level (H c)) (level_clients H p i)) (?net ! i)"
      using the_rings_cover i by (simp add: networks_to_def)
    show "holds_ids H' ids (n + length (entries_to H p i)) (map (Pair i) (level_clients H p i))"
      by (rule holds_ids_part [OF h(1) i])
  qed
  then have "ring_served H H' ids p (p\<lparr>spp_network := RingNetwork ?net, networkType := ''hring''\<rparr>)"
    unfolding ring_served_def by (intro exI [of _ ?net]) (simp add: networks_to_def)
  with Cons.IH [OF h(2)] Cons.prems(2) show ?case by simp
qed simp

lemma rings_served:
  assumes "platforms \<noteq> []" and "distinct (concat (map spp_clients platforms))"
    and "buildHierarchicalRing H platforms = (H', ids, ps)"
  shows "same_clients H H' \<and> list_all2 (ring_served H H' ids) platforms ps"
proof -
  have pass: "buildHierarchicalRing H platforms = ring_pass (H, [], platforms)"
    by (rule repeated_pass [OF assms(1,2)])
  let ?es = "concat (map (entries H) platforms)"
  obtain G tb m where f: "foldl remap_entry (H, [], 1) ?es = (G, tb, m)"
    by (cases "foldl remap_entry (H, [], 1) ?es")
  have "(H', ids, ps) = (G, tb, ringed H 1 platforms)"
    using assms(3) pass ring_pass_eq [OF same_clients_refl] f by simp
  then have r: "H' = G" "ids = tb" "ps = ringed H 1 platforms" by simp_all
  show ?thesis
    unfolding r using remap_entries_same [OF f]
    by (blast intro: ringed_served [OF remap_entries_hold [OF distinct_entries [OF assms(2)] f]] order_refl)
qed

text \<open>
  C20: \<open>buildHierarchicalRing\<close> gives every controller rings of strictly descending levels whose id
  ranges follow one another without gaps, every client of the controller gets, in the order of
  descending level, the next id of the range of the ring of its level, the table maps that id to
  the client, and nothing else of a client changes.
\<close>

theorem buildHierarchicalRing_rings:
  assumes "platforms \<noteq> []" and "distinct (concat (map spp_clients platforms))"
    and "buildHierarchicalRing H platforms = (H', ids, ps)"
  shows "same_clients H H' \<and> list_all2 (ring_served H H' ids) platforms ps"
  by (rule rings_served [OF assms])

section \<open>Examples\<close>

definition ring_example :: sp_store where
  "ring_example c = (tree_example c)\<lparr>level := c mod 2\<rparr>"

theorem buildHierarchicalRing_single_pass_witness:
  "buildHierarchicalRing ring_example [example_platform 3] = ring_pass (ring_example, [], [example_platform 3])"
  by (rule buildHierarchicalRing_single_pass) (simp_all add: example_platform_def)

theorem buildHierarchicalRing_rings_witness:
  "\<exists>H' ids ps. buildHierarchicalRing ring_example [example_platform 3] = (H', ids, ps)
    \<and> same_clients ring_example H' \<and> list_all2 (ring_served ring_example H' ids) [example_platform 3] ps"
proof -
  obtain H' ids ps where r: "buildHierarchicalRing ring_example [example_platform 3] = (H', ids, ps)"
    by (cases "buildHierarchicalRing ring_example [example_platform 3]")
  have "distinct (concat (map spp_clients [example_platform 3]))" by (simp add: example_platform_def)
  with buildHierarchicalRing_rings [OF _ _ r] r show ?thesis by blast
qed

end
