(* ===== verification/TextLines.thy ===== *)
theory TextLines
  imports Prelude
begin

text \<open>
  Generated files.  A file is the list of its lines; the expressions the code concatenates are
  strings of one line.
\<close>

abbreviation "num \<equiv> str_of_nat"

text \<open>A string between double quotes.\<close>

definition quoted :: "string \<Rightarrow> string" where
  "quoted s = [CHR 0x22] @ s @ [CHR 0x22]"

text \<open>\<open>range(n)\<close> and \<open>enumerate\<close> with a text of several lines for every item.\<close>

abbreviation lines_for :: "('a \<Rightarrow> string list) \<Rightarrow> 'a list \<Rightarrow> string list" where
  "lines_for f xs \<equiv> concat (map f xs)"

text \<open>Pieces of a text that is not built line by line: line end, tab and double quote.\<close>

definition nl :: string where
  "nl = [CHR 0x0A]"

definition tb :: string where
  "tb = [CHR 0x09]"

definition dq :: string where
  "dq = [CHR 0x22]"

abbreviation text_for :: "('a \<Rightarrow> string) \<Rightarrow> 'a list \<Rightarrow> string" where
  "text_for f xs \<equiv> concat (map f xs)"

abbreviation text_if :: "bool \<Rightarrow> string \<Rightarrow> string" where
  "text_if b s \<equiv> (if b then s else [])"

text \<open>\<open>sep.join(xs)\<close>\<close>

fun join :: "string \<Rightarrow> string list \<Rightarrow> string" where
  "join sep [] = []"
| "join sep [s] = s"
| "join sep (s # t # ss) = s @ sep @ join sep (t # ss)"

end
