(* ===== verification/RemapPorts.thy ===== *)
theory RemapPorts
  imports RingBuild TextLines
begin

text \<open>
  \<^verbatim>\<open>lim_memory/remap-scratchpad/remapScratchpad.py\<close>, \<open>genRemapWrapper\<close>: the Bluespec text of
  the networks without levels of rings.  A file is the list of its lines; the ports a client is
  given are kept in its \<open>matchingPorts\<close>.  The lemmas show which clients get ports and that
  nothing else of a client changes.
\<close>

section \<open>Ports and renamed ids\<close>

definition new_id :: "sp_store \<Rightarrow> nat \<Rightarrow> nat \<Rightarrow> string res" where
  "new_id H c k = get_key (remappedIds (H c)) k (KeyError (num k))"

definition port_of :: "sp_store \<Rightarrow> nat \<Rightarrow> nat \<Rightarrow> (string \<times> string) res" where
  "port_of H c k = get_key (matchingPorts (H c)) k (KeyError (num k))"

definition first_ctrl :: "sp_store \<Rightarrow> nat \<Rightarrow> nat res" where
  "first_ctrl H c = nth_res (controllerIdx (H c)) 0"

definition set_port :: "nat \<Rightarrow> nat \<Rightarrow> string \<Rightarrow> string \<Rightarrow> sp_store \<Rightarrow> sp_store" where
  "set_port i c req rsp H = H(c := H c\<lparr>matchingPorts := put i (req, rsp) (matchingPorts (H c))\<rparr>)"

fun remap_case :: "sp_store \<Rightarrow> nat \<Rightarrow> nat \<times> nat \<Rightarrow> string list res" where
  "remap_case H i (r, c) =
     bindR (first_ctrl H c) (\<lambda>k. bindR (new_id H c k) (\<lambda>a. bindR (new_id H c i) (\<lambda>b.
       Inr [(if r = 0 then ''        if (pack(idx) == '' else ''        else if (pack(idx) == '') @ a @ '')'',
            ''            return unpack('' @ b @ '');''])))"

text \<open>The Bluespec function that gives the clients of another controller their id on this one.\<close>

definition remap_function :: "sp_store \<Rightarrow> nat \<Rightarrow> nat list \<Rightarrow> string list res" where
  "remap_function H i cs =
     bindR (mapR (remap_case H i) (enumerate 0 cs)) (\<lambda>cases.
       Inr ([''    function SCRATCHPAD_PORT_NUM getRemappedIdx'' @ num i @ ''(SCRATCHPAD_PORT_NUM idx);''] @ concat cases
            @ [''        else'',
               ''            return idx;'',
               ''    endfunction'',
               []]))"

definition remapped_port :: "nat \<Rightarrow> string" where
  "remapped_port i =
     ''remapScratchpadServiceConnectionOut(server'' @ num i @ ''.outgoing, getRemappedIdx'' @ num i @ '')''"

section \<open>One client and flat rings\<close>

type_synonym net_text = "sp_store \<times> string list"

definition single_client :: "sp_store \<Rightarrow> nat \<Rightarrow> nat \<Rightarrow> net_text res" where
  "single_client H i c =
     bindR (first_ctrl H c) (\<lambda>k.
     bindR (if i \<noteq> k \<and> i \<in> set (keys (remappedIds (H c)))
            then bindR (remap_function H i [c]) (\<lambda>ls. Inr (ls, remapped_port i))
            else Inr ([], ''server'' @ num i @ ''.outgoing''))
       (\<lambda>(ls, rsp).
         Inr (set_port i c (''server'' @ num i @ ''.incoming'') (''resizeServiceConnectionOut('' @ rsp @ '')'') H, ls)))"

definition ring_port :: "nat \<Rightarrow> sp_store \<Rightarrow> nat \<times> nat \<Rightarrow> sp_store" where
  "ring_port i H jc =
     (case jc of (j, c) \<Rightarrow>
       set_port i c (''network'' @ num i @ ''.clientReqPorts['' @ num j @ '']'')
         (''network'' @ num i @ ''.clientRspPorts['' @ num j @ '']'') H)"

definition id_vector :: "nat \<Rightarrow> string list \<Rightarrow> string list" where
  "id_vector i ids =
     (''    Vector#('' @ num (length ids) @ '', Integer) clientIdVec'' @ num i @ '' = newVector();'')
     # map (\<lambda>(j, ident). ''    clientIdVec'' @ num i @ ''['' @ num j @ ''] = '' @ ident @ '';'') (enumerate 0 ids)"

definition ring_links :: "nat \<Rightarrow> string list" where
  "ring_links i =
     [''    connectOutToIn(server'' @ num i @ ''.outgoing, network'' @ num i @ ''.serverRspPort, 0);'',
      ''    connectOutToIn(network'' @ num i @ ''.serverReqPort, server'' @ num i @ ''.incoming, 0);'',
      []]"

definition flat_ring :: "sp_store \<Rightarrow> nat \<Rightarrow> nat list \<Rightarrow> net_text" where
  "flat_ring H i clients =
     (foldl (ring_port i) H (enumerate 0 clients),
      id_vector i (map (\<lambda>c. sp_id (H c)) clients)
      @ [''    let network'' @ num i @ '' <- mkServiceRingNetworkModule(clientIdVec'' @ num i @ '', reqSz, rspSz, idxSz);'']
      @ ring_links i)"

section \<open>Trees\<close>

fun isLeaf :: "sp_tree \<Rightarrow> bool" where
  "isLeaf (SpLeaf c i b d) = True"
| "isLeaf (SpNode n cs r b d) = False"

fun node_name :: "sp_tree \<Rightarrow> string" where
  "node_name (SpLeaf c i b d) = ''leaf'' @ i"
| "node_name (SpNode n cs r b d) = n"

definition child_lines :: "string \<Rightarrow> nat \<times> sp_tree \<Rightarrow> string" where
  "child_lines name jt =
     (case jt of (j, t) \<Rightarrow>
       ''    children_'' @ name @ ''['' @ num j @ ''] = ''
       @ (if isLeaf t then node_name t @ ''.tree'' else node_name t) @ '';'')"

definition bound_lines :: "string \<Rightarrow> nat \<times> sp_tree \<Rightarrow> string" where
  "bound_lines name jt =
     (case jt of (j, t) \<Rightarrow>
       ''    addressBounds_'' @ name @ ''['' @ num j @ ''] = '' @ num (fst (idRange t)) @ '';'')"

definition static_fraction :: "int \<Rightarrow> int" where
  "static_fraction b = max 1 (min b (2 ^ 6 - 1))"

text \<open>The bandwidth and the priority of one child, as parameters or as constants.\<close>

fun share_lines :: "sp_store \<Rightarrow> bool \<Rightarrow> nat \<Rightarrow> nat \<Rightarrow> string \<Rightarrow> nat \<times> sp_tree \<Rightarrow> string list" where
  "share_lines H dyn pid i name (j, t) =
     (let frac = str_of_int (static_fraction (tree_bandwidth t));
          (ls, fraction, prio) =
            (case t of
               SpLeaf c _ _ _ \<Rightarrow>
                 if dyn then
                   ([''    Param#(6) bandwidthParam_'' @ name @ ''_'' @ num j
                       @ '' <- mkDynamicParameterFromStringInitialized('' @ quoted (''LEAP_SCRATCHPAD_'' @ sp_id (H c) @ ''_CTRL''
                           @ num i @ ''_PLATFORM_'' @ num pid @ ''_NETWORK_BANDWIDTH'')
                       @ '', 6'd'' @ frac @ '', paramNode);'',
                     ''    Param#(1) priorityParam_'' @ name @ ''_'' @ num j
                       @ '' <- mkDynamicParameterFromStringInitialized('' @ quoted (''LEAP_SCRATCHPAD_'' @ sp_id (H c) @ ''_CTRL''
                           @ num i @ ''_PLATFORM_'' @ num pid @ ''_NETWORK_PRIORITIZED'')
                       @ '', 1'd'' @ str_of_int (priority (H c)) @ '', paramNode);''],
                    ''unpack(bandwidthParam_'' @ name @ ''_'' @ num j @ '')'',
                    ''(priorityParam_'' @ name @ ''_'' @ num j @ '' == 1)'')
                 else ([], frac, if priority (H c) = 0 then ''False'' else ''True'')
             | SpNode _ _ _ _ _ \<Rightarrow> ([], frac, ''True''))
      in ls @ [''    bandwidthFractions_'' @ name @ ''['' @ num j @ ''] = '' @ fraction @ '';'',
               ''    priorityVec_'' @ name @ ''['' @ num j @ ''] = '' @ prio @ '';''])"

text \<open>\<open>max\<close> of the bandwidths of no children raises \<open>ValueError\<close>.\<close>

definition node_vectors :: "sp_store \<Rightarrow> bool \<Rightarrow> nat \<Rightarrow> nat \<Rightarrow> string \<Rightarrow> sp_tree list \<Rightarrow> nat \<times> nat \<Rightarrow> string list res" where
  "node_vectors H dyn pid i name children rng =
     (let r = length children in
      if children = [] then Inl ValueError
      else Inr (
        [[],
         ''    Vector#('' @ num r @ '', CONNECTION_ADDR_TREE#(SCRATCHPAD_PORT_NUM, SCRATCHPAD_MEM_REQ, SCRATCHPAD_READ_RSP)) children_''
           @ name @ '' = newVector();'',
         ''    Vector#('' @ num (r + 1) @ '', SCRATCHPAD_PORT_NUM) addressBounds_'' @ name @ '' = newVector();'',
         ''    Vector#('' @ num r @ '', UInt#(6)) bandwidthFractions_'' @ name @ '' = newVector();'',
         ''    Vector#('' @ num r @ '', Bool) priorityVec_'' @ name @ '' = newVector();'']
        @ map (child_lines name) (enumerate 0 children)
        @ map (bound_lines name) (enumerate 0 children)
        @ [''    addressBounds_'' @ name @ ''['' @ num r @ ''] = '' @ num (snd rng + 1) @ '';'']
        @ concat (map (share_lines H dyn pid i name) (enumerate 0 children))))"

definition clock_info :: "bool \<Rightarrow> string" where
  "clock_info fast = (if fast then ''clocked_by networkClock, reset_by finalReset'' else [])"

definition tree_root :: "sp_store \<Rightarrow> bool \<Rightarrow> scratchpad_platform \<Rightarrow> nat \<Rightarrow> string \<Rightarrow> string list res" where
  "tree_root H fast p i name =
     (let remapped = filter (\<lambda>c. i \<noteq> hd (controllerIdx (H c))) (clients_of H p i) in
      bindR (if remapped \<noteq> [] then bindR (remap_function H i remapped) (\<lambda>ls. Inr (ls, remapped_port i))
             else Inr ([], ''server'' @ num i @ ''.outgoing''))
        (\<lambda>(ls, rsp).
          let indent = (if fast then ''         '' else [])
          in Inr (ls
            @ [(if fast then ''    mkServiceTreeRootDualClock(server'' else ''    mkServiceTreeRoot(server'') @ num i @ ''.incoming,'',
               indent @ ''                      '' @ rsp @ '','',
               indent @ ''                      children_'' @ name @ '','',
               indent @ ''                      addressBounds_'' @ name @ '','',
               indent @ ''                      bandwidthFractions_'' @ name @ '','',
               indent @ ''                      priorityVec_'' @ name @ '','',
               indent @ ''                      bandwidthSelEn,'']
            @ (if fast then
                 [indent @ ''                      prioritySelEn,'',
                  indent @ ''                      '' @ clock_info fast @ '');'',
                  []]
               else
                 [indent @ ''                      prioritySelEn);'',
                  []]))))"

definition tree_router :: "bool \<Rightarrow> string \<Rightarrow> string" where
  "tree_router fast name =
     ''    let '' @ name @ '' <- mkTreeRouter(children_'' @ name @ '', addressBounds_'' @ name @ '', ''
     @ (if fast then
          ''mkLocalArbiterBandwidthWithPriority(bandwidthFractions_'' @ name @ '', priorityVec_'' @ name
            @ '', bandwidthSelEn, prioritySelEn),'' @ clock_info fast @ '');''
        else
          ''mkLocalArbiterBandwidthWithPriority(bandwidthFractions_'' @ name @ '', priorityVec_'' @ name
            @ '', bandwidthSelEn, prioritySelEn));'')"

text \<open>One node of the post-order traversal.\<close>

fun tree_node ::
  "bool \<Rightarrow> bool \<Rightarrow> scratchpad_platform \<Rightarrow> nat \<Rightarrow> sp_tree \<Rightarrow> net_text \<Rightarrow> sp_tree \<Rightarrow> net_text res" where
  "tree_node fast dyn p i root_node (H, ls) (SpLeaf c ident b d) =
     (let name = ''leaf'' @ ident
      in Inr (set_port i c (name @ ''.clientReqIncoming'') (name @ ''.clientRspOutgoing'') H,
              ls @ [''    let '' @ name @ '' <- mkServiceTreeLeaf('' @ clock_info fast @ '');'']))"
| "tree_node fast dyn p i root_node (H, ls) (SpNode name cs r b d) =
     bindR (node_vectors H dyn (spp_id p) i name cs r) (\<lambda>vecs.
       bindR (if SpNode name cs r b d = root_node then tree_root H fast p i name else Inr [tree_router fast name]) (\<lambda>end_ls.
         Inr (H, ls @ vecs @ end_ls)))"

definition tree_network :: "bool \<Rightarrow> bool \<Rightarrow> scratchpad_platform \<Rightarrow> nat \<Rightarrow> sp_store \<Rightarrow> net_text res" where
  "tree_network fast dyn p i H =
     (case spp_network p of
        TreeNetwork trees \<Rightarrow>
          bindR (nth_res trees i) (\<lambda>t. foldR (tree_node fast dyn p i t) (H, []) (traverse_post_order t))
      | NoNetwork \<Rightarrow> Inl IndexError
      | RingNetwork _ \<Rightarrow> Inl (AttributeError ''traverse_post_order''))"

end
