(* ===== verification/RemapRings.thy ===== *)
theory RemapRings
  imports RemapPorts
begin

text \<open>
  \<^verbatim>\<open>remapScratchpad.py\<close>, \<open>genRemapWrapper\<close>, the \<open>hring\<close> branch: the Bluespec module that joins
  the clients of a controller to rings, one per level, with a connector between neighbouring
  levels.  The statements of the module are data, rendered as the code writes them.
\<close>

section \<open>Statements of the ring module\<close>

datatype ring_point = RingNode int | Connector int

datatype ring_stmt =
    Link ring_point string ring_point string
  | ChildFunc nat nat nat
  | NewConnector nat

fun point_text :: "ring_point \<Rightarrow> string" where
  "point_text (RingNode j) = ''ringNodes['' @ str_of_int j @ '']''"
| "point_text (Connector k) = ''connector'' @ str_of_int k"

fun stmt_text :: "ring_stmt \<Rightarrow> string" where
  "stmt_text (Link a p b q) =
     ''    connectOutToIn('' @ point_text a @ ''.'' @ p @ '', '' @ point_text b @ ''.'' @ q @ '', 0);''"
| "stmt_text (ChildFunc k hi lo) =
     ''    function Bool isChildFunc'' @ num k @ ''(t_IDX idx) = (idx <= '' @ num hi @ '') && (idx >= '' @ num lo @ '');''"
| "stmt_text (NewConnector k) =
     ''    let connector'' @ num k @ '' <- mkServiceRingNode(isChildFunc'' @ num k @ '');''"

section \<open>Links between the rings\<close>

definition connector_of :: "scratchpad_ring list \<Rightarrow> nat \<Rightarrow> nat res" where
  "connector_of hrings lvl = nth_res (filter (\<lambda>x. ring_level (hrings ! x) = lvl) [0..<length hrings]) 0"

text \<open>The distance of the first node of a ring from the first node of all.\<close>

definition ring_offset :: "scratchpad_ring list \<Rightarrow> scratchpad_ring \<Rightarrow> int" where
  "ring_offset hrings ring = int (ring_minId ring) - int (ring_minId (hd hrings))"

definition connector_stmts :: "scratchpad_ring list \<Rightarrow> nat \<Rightarrow> nat \<Rightarrow> ring_stmt list" where
  "connector_stmts hrings j k =
     (let ring = hrings ! k; node = int j; con = int k in
      [ChildFunc k (ring_maxId ring) (ring_minId (hd hrings)),
       NewConnector k,
       Link (RingNode node) ''reqChainOutgoing'' (Connector con) ''clientReqIncoming'']
      @ (if k = 0 then
           [Link (Connector con) ''clientRspOutgoing'' (RingNode (ring_offset hrings ring)) ''rspChainIncoming'']
         else
           [Link (Connector (con - 1)) ''reqChainOutgoing'' (Connector con) ''reqChainIncoming'',
            Link (Connector (con - 1)) ''rspChainOutgoing'' (RingNode (ring_offset hrings ring)) ''rspChainIncoming'',
            Link (Connector con) ''clientRspOutgoing'' (Connector (con - 1)) ''rspChainIncoming'']))"

definition node_stmts :: "nat list \<Rightarrow> scratchpad_ring list \<Rightarrow> nat \<Rightarrow> ring_stmt list res" where
  "node_stmts levels hrings j =
     (if levels ! j = levels ! (j + 1) then
        Inr [Link (RingNode (int j)) ''reqChainOutgoing'' (RingNode (int j + 1)) ''reqChainIncoming'',
             Link (RingNode (int j)) ''rspChainOutgoing'' (RingNode (int j + 1)) ''rspChainIncoming'']
      else bindR (connector_of hrings (levels ! j)) (\<lambda>k. Inr (connector_stmts hrings j k)))"

text \<open>The last ring is fed by the connector numbered \<open>len(hrings)-2\<close>.\<close>

definition last_connector :: "scratchpad_ring list \<Rightarrow> int" where
  "last_connector hrings = int (length hrings) - 2"

definition last_stmts :: "scratchpad_ring list \<Rightarrow> ring_stmt list res" where
  "last_stmts hrings =
     (if hrings = [] then Inl IndexError
      else let con = Connector (last_connector hrings); node = RingNode (ring_offset hrings (last hrings)) in
        Inr [Link con ''reqChainOutgoing'' node ''reqChainIncoming'',
             Link con ''rspChainOutgoing'' node ''rspChainIncoming''])"

definition ring_stmts :: "nat list \<Rightarrow> scratchpad_ring list \<Rightarrow> ring_stmt list res" where
  "ring_stmts levels hrings =
     bindR (mapR (node_stmts levels hrings) [0..<length levels - 1]) (\<lambda>ls.
     bindR (last_stmts hrings) (\<lambda>end_ls. Inr (concat ls @ end_ls)))"

section \<open>The text of the module\<close>

definition module_head :: "nat \<Rightarrow> nat \<Rightarrow> string list" where
  "module_head i n =
    [''module mkServiceHierarchicalRingNetworkModule'' @ num i @ ''#(Vector#('' @ num n @ '', Integer) clientIdVec,'',
     ''                                                NumTypeParam#(t_REQ_SZ) reqSz,'',
     ''                                                NumTypeParam#(t_RSP_SZ) rspSz,'',
     ''                                                NumTypeParam#(t_IDX_SZ) idxSz)'',
     ''    // Interface:'',
     ''    (CONNECTION_SERVICE_NETWORK_IFC#('' @ num n @ ''))'',
     ''    provisos(Alias#(Bit#(t_REQ_SZ), t_REQ),'',
     ''             Alias#(Bit#(t_RSP_SZ), t_RSP),'',
     ''             Alias#(Bit#(t_IDX_SZ), t_IDX));'',
     [],
     ''    Clock localClock <- exposeCurrentClock();'',
     ''    Reset localReset <- exposeCurrentReset();'',
     [],
     ''    function Bool isLocalFunc(Integer clientId, t_IDX idx);'',
     ''        return idx == fromInteger(clientId);'',
     ''    endfunction'',
     [],
     ''    Vector#('' @ num n @ '', CONNECTION_SERVICE_RING_NODE_IFC#(t_REQ_SZ, t_RSP_SZ, t_IDX_SZ)) ringNodes <- '',
     ''        mapM(mkServiceRingNode, map(isLocalFunc, clientIdVec));'',
     []]"

definition module_ports :: "nat \<Rightarrow> string list" where
  "module_ports n =
    [[],
     ''    Vector#('' @ num n @ '', CONNECTION_IN#(SERVICE_CON_DATA_SIZE))  clientReqPortsVec = newVector();'',
     ''    Vector#('' @ num n @ '', CONNECTION_OUT#(SERVICE_CON_DATA_SIZE)) clientRspPortsVec = newVector();'',
     [],
     ''    for (Integer x = 0; x < '' @ num n @ ''; x = x + 1)'',
     ''    begin'',
     ''        clientReqPortsVec[x] = (interface CONNECTION_IN#(SERVICE_CON_DATA_SIZE);'',
     ''                                    method Action try(Bit#(SERVICE_CON_DATA_SIZE) d);'',
     ''                                        ringNodes[x].clientReqIncoming.try(truncateNP(d));'',
     ''                                    endmethod'',
     ''                                    method Bool success = ringNodes[x].clientReqIncoming.success;'',
     ''                                    method Bool dequeued = ringNodes[x].clientReqIncoming.dequeued;'',
     ''                                    interface Clock clock = localClock;'',
     ''                                    interface Reset reset = localReset;'',
     ''                                endinterface); '',
     [],
     ''        clientRspPortsVec[x] = (interface CONNECTION_OUT#(SERVICE_CON_DATA_SIZE);'',
     ''                                    method Bit#(SERVICE_CON_DATA_SIZE) first();'',
     ''                                        Tuple2#(t_IDX, t_RSP) tmp = unpack(ringNodes[x].clientRspOutgoing.first());'',
     ''                                        return zeroExtendNP(tpl_2(tmp));'',
     ''                                    endmethod'',
     ''                                    method Action deq = ringNodes[x].clientRspOutgoing.deq;'',
     ''                                    method Bool notEmpty = ringNodes[x].clientRspOutgoing.notEmpty;'',
     ''                                    interface clock = localClock;'',
     ''                                    interface Reset reset = localReset;'',
     ''                                endinterface);'',
     ''    end'',
     []]"

definition module_server :: "nat \<Rightarrow> int \<Rightarrow> string list" where
  "module_server n con =
    [''    interface clientReqPorts = clientReqPortsVec;'',
     ''    interface clientRspPorts = clientRspPortsVec;'',
     [],
     ''    interface serverRspPort = interface CONNECTION_IN#(SERVICE_CON_RESP_SIZE);'',
     ''                                  method Action try(Bit#(SERVICE_CON_RESP_SIZE) d);'',
     ''                                      Tuple2#(Bit#(SERVICE_CON_IDX_SIZE),Bit#(SERVICE_CON_DATA_SIZE)) tmp = unpack(d);'',
     ''                                      t_IDX idx = truncateNP(tpl_1(tmp));'',
     ''                                      t_RSP rsp = truncateNP(tpl_2(tmp));'',
     ''                                      connector'' @ str_of_int con @ ''.rspChainIncoming.try(pack(tuple2(idx,rsp)));'',
     ''                                  endmethod'',
     ''                                  method Bool success  = connector'' @ str_of_int con @ ''.rspChainIncoming.success;'',
     ''                                  method Bool dequeued = connector'' @ str_of_int con @ ''.rspChainIncoming.dequeued;'',
     ''                                  interface Clock clock = localClock;'',
     ''                                  interface Reset reset = localReset;'',
     ''                              endinterface; '',
     [],
     ''    interface serverReqPort = interface CONNECTION_OUT#(SERVICE_CON_DATA_SIZE);'',
     ''                                  method Bit#(SERVICE_CON_DATA_SIZE) first();'',
     ''                                      t_REQ req = ringNodes['' @ str_of_int (int n - 1) @ ''].reqChainOutgoing.first();'',
     ''                                      return zeroExtendNP(req);'',
     ''                                  endmethod'',
     ''                                  method Action deq = ringNodes['' @ str_of_int (int n - 1) @ ''].reqChainOutgoing.deq;'',
     ''                                  method Bool notEmpty = ringNodes['' @ str_of_int (int n - 1) @ ''].reqChainOutgoing.notEmpty;'',
     ''                                  interface clock = localClock;'',
     ''                                  interface reset = localReset;'',
     ''                              endinterface;'',
     [],
     ''endmodule'',
     []]"

definition ring_module :: "nat \<Rightarrow> nat list \<Rightarrow> scratchpad_ring list \<Rightarrow> string list res" where
  "ring_module i levels hrings =
     (let n = length levels in
      bindR (ring_stmts levels hrings) (\<lambda>ls.
        Inr (module_head i n @ map stmt_text ls @ module_ports n @ module_server n (last_connector hrings))))"

section \<open>The network of a controller\<close>

text \<open>The clients in the order of their new ids.\<close>

definition by_new_id :: "sp_store \<Rightarrow> nat \<Rightarrow> nat list \<Rightarrow> (string \<times> nat) list res" where
  "by_new_id H i clients =
     bindR (mapR (\<lambda>c. bindR (new_id H c i) (\<lambda>s. bindR (py_int s) (\<lambda>k. Inr (k, s, c)))) clients) (\<lambda>ks.
       Inr (map snd (sort_key fst ks)))"

definition ring_network :: "scratchpad_platform \<Rightarrow> nat \<Rightarrow> sp_store \<Rightarrow> nat list \<Rightarrow> (net_text \<times> string list) res" where
  "ring_network p i H clients =
     bindR (by_new_id H i clients) (\<lambda>ids.
       let cs = map snd ids;
           ls = id_vector i (map fst ids)
             @ [''    let network'' @ num i @ '' <- mkServiceHierarchicalRingNetworkModule'' @ num i
                  @ ''(clientIdVec'' @ num i @ '', reqSz, rspSz, idxSz);'']
             @ RemapPorts.ring_links i
       in (case spp_network p of
             RingNetwork nets \<Rightarrow>
               bindR (nth_res nets i) (\<lambda>hrings.
               bindR (ring_module i (map (\<lambda>c. level (H c)) cs) hrings) (\<lambda>body.
                 Inr ((foldl (ring_port i) H (enumerate 0 cs), ls), body)))
           | NoNetwork \<Rightarrow> Inl IndexError
           | TreeNetwork _ \<Rightarrow> Inl TypeError))"

section \<open>The rings of a controller in sequence\<close>

lemma upt_parts_step:
  assumes eq: "concat (map (\<lambda>r. [lo r..<Suc (hi r)]) (r # rs)) = [n..<N]" and ok: "lo r \<le> hi r"
  shows "lo r = n" and "Suc (hi r) \<le> N" and "concat (map (\<lambda>r. [lo r..<Suc (hi r)]) rs) = [Suc (hi r)..<N]"
proof -
  have ne: "[lo r..<Suc (hi r)] = lo r # [Suc (lo r)..<Suc (hi r)]"
    using ok by (simp add: upt_conv_Cons del: upt_Suc)
  have nN: "n < N"
  proof (rule ccontr)
    assume "\<not> n < N"
    then have "[n..<N] = []" by simp
    with eq ne show False by (simp del: upt_Suc)
  qed
  then have "[n..<N] = n # [Suc n..<N]" by (rule upt_conv_Cons)
  with eq ne show lo: "lo r = n" by (simp del: upt_Suc)
  have "length [n..<Suc (hi r)] \<le> length [n..<N]"
    using arg_cong [OF eq, of length] lo by (simp del: upt_Suc length_upt)
  then show hi: "Suc (hi r) \<le> N" using nN ok lo by simp
  have "[n..<N] = [n..<Suc (hi r)] @ [Suc (hi r)..<N]"
  proof -
    have "n \<le> Suc (hi r)" using ok lo by simp
    then show ?thesis using upt_add_eq_append [of n "Suc (hi r)" "N - Suc (hi r)"] hi by simp
  qed
  with eq lo show "concat (map (\<lambda>r. [lo r..<Suc (hi r)]) rs) = [Suc (hi r)..<N]"
    by (simp del: upt_Suc)
qed

lemma upt_parts_nth:
  assumes "concat (map (\<lambda>r. [lo r..<Suc (hi r)]) rs) = [n..<N]" and "\<forall>r \<in> set rs. lo r \<le> hi r" and "k < length rs"
  shows "lo (rs ! k) = (if k = 0 then n else Suc (hi (rs ! (k - 1)))) \<and> n \<le> lo (rs ! k) \<and> hi (rs ! k) < N"
  using assms
proof (induction rs arbitrary: n k)
  case (Cons r rs)
  have "lo r \<le> hi r" using Cons.prems(2) by simp
  note s = upt_parts_step [OF Cons.prems(1) this]
  show ?case
  proof (cases k)
    case 0
    with s Cons.prems(2) show ?thesis by simp
  next
    case (Suc k')
    have "lo (rs ! k') = (if k' = 0 then Suc (hi r) else Suc (hi (rs ! (k' - 1)))) \<and> Suc (hi r) \<le> lo (rs ! k') \<and> hi (rs ! k') < N"
      by (rule Cons.IH [OF s(3)]) (use Cons.prems(2,3) Suc in auto)
    with Suc s \<open>lo r \<le> hi r\<close> show ?thesis by (cases k') auto
  qed
qed simp

lemma upt_parts_last:
  assumes "concat (map (\<lambda>r. [lo r..<Suc (hi r)]) rs) = [n..<N]" and "\<forall>r \<in> set rs. lo r \<le> hi r" and "rs \<noteq> []"
  shows "Suc (hi (last rs)) = N"
  using assms
proof (induction rs arbitrary: n)
  case (Cons r rs)
  have "lo r \<le> hi r" using Cons.prems(2) by simp
  note s = upt_parts_step [OF Cons.prems(1) this]
  show ?case
  proof (cases "rs = []")
    case True
    with s(3) have "[Suc (hi r)..<N] = []" by simp
    with s(2) True show ?thesis by simp
  next
    case False
    have "Suc (hi (last rs)) = N" by (rule Cons.IH [OF s(3)]) (use False Cons.prems(2) in auto)
    with False show ?thesis by simp
  qed
qed simp

text \<open>Position \<open>j\<close> lies on ring \<open>k\<close>.\<close>

definition on_ring :: "nat \<Rightarrow> scratchpad_ring list \<Rightarrow> nat \<Rightarrow> nat \<Rightarrow> bool" where
  "on_ring n rings j k \<longleftrightarrow> k < length rings \<and> ring_minId (rings ! k) \<le> n + j \<and> n + j \<le> ring_maxId (rings ! k)"

lemma cover_nth:
  assumes "rings_cover n levels rings" and "k < length rings"
  shows "ring_minId (rings ! k) = (if k = 0 then n else Suc (ring_maxId (rings ! (k - 1))))"
    and "n \<le> ring_minId (rings ! k)" and "ring_maxId (rings ! k) < n + length levels"
    and "ring_minId (rings ! k) \<le> ring_maxId (rings ! k)"
proof -
  have c: "concat (map (\<lambda>r. [ring_minId r..<Suc (ring_maxId r)]) rings) = [n..<n + length levels]"
    "\<forall>r \<in> set rings. ring_minId r \<le> ring_maxId r"
    using assms(1) unfolding rings_cover_def by blast+
  have "rings ! k \<in> set rings" using assms(2) by simp
  with c(2) show "ring_minId (rings ! k) \<le> ring_maxId (rings ! k)" by blast
  from upt_parts_nth [OF c assms(2)]
  show "ring_minId (rings ! k) = (if k = 0 then n else Suc (ring_maxId (rings ! (k - 1))))"
    "n \<le> ring_minId (rings ! k)" "ring_maxId (rings ! k) < n + length levels" by simp_all
qed

lemma cover_last: "rings_cover n levels rings \<Longrightarrow> rings \<noteq> [] \<Longrightarrow> Suc (ring_maxId (last rings)) = n + length levels"
  unfolding rings_cover_def by (elim conjE) (rule upt_parts_last)

lemma cover_mono:
  assumes "rings_cover n levels rings" and "k < k'" and "k' < length rings"
  shows "ring_maxId (rings ! k) < ring_minId (rings ! k')"
  using assms(2,3)
proof (induction k')
  case (Suc k')
  have min: "ring_minId (rings ! Suc k') = Suc (ring_maxId (rings ! k'))"
    using cover_nth(1) [OF assms(1) Suc.prems(2)] by simp
  show ?case
  proof (cases "k = k'")
    case True
    with min show ?thesis by simp
  next
    case False
    with Suc have "ring_maxId (rings ! k) < ring_minId (rings ! k')" by simp
    also have "\<dots> \<le> ring_maxId (rings ! k')" using cover_nth(4) [OF assms(1)] Suc.prems(2) by simp
    finally show ?thesis using min by simp
  qed
qed simp

lemma on_ring_unique:
  assumes "rings_cover n levels rings" and "on_ring n rings j k" and "on_ring n rings j k'"
  shows "k = k'"
proof (rule ccontr)
  assume "k \<noteq> k'"
  then consider "k < k'" | "k' < k" by linarith
  then show False
    by cases (use assms cover_mono [OF assms(1)] in \<open>fastforce simp: on_ring_def\<close>)+
qed

lemma on_ring_level:
  assumes "rings_cover n levels rings" and "on_ring n rings j k"
  shows "j < length levels" and "levels ! j = ring_level (rings ! k)"
proof -
  show j: "j < length levels" using cover_nth(3) [OF assms(1)] assms(2) by (fastforce simp: on_ring_def)
  then obtain r where r: "r \<in> set rings" "ring_level r = levels ! j" "ring_minId r \<le> n + j" "n + j \<le> ring_maxId r"
    using assms(1) unfolding rings_cover_def by blast
  then obtain k' where "k' < length rings" "rings ! k' = r" by (auto simp: in_set_conv_nth)
  with r have "on_ring n rings j k'" by (simp add: on_ring_def)
  with on_ring_unique [OF assms] r(2) \<open>rings ! k' = r\<close> show "levels ! j = ring_level (rings ! k)" by simp
qed

lemma on_ring_exists:
  assumes "rings_cover n levels rings" and "j < length levels"
  shows "\<exists>k. on_ring n rings j k"
proof -
  obtain r where "r \<in> set rings" "ring_minId r \<le> n + j" "n + j \<le> ring_maxId r"
    using assms unfolding rings_cover_def by blast
  then show ?thesis by (auto simp: in_set_conv_nth on_ring_def)
qed

lemma cover_levels_inj:
  assumes "rings_cover n levels rings" and "k < length rings" and "k' < length rings"
    and "ring_level (rings ! k) = ring_level (rings ! k')"
  shows "k = k'"
proof -
  have "sorted_wrt (>) (map ring_level rings)" using assms(1) by (simp add: rings_cover_def)
  then have "\<forall>i j. i < j \<longrightarrow> j < length rings \<longrightarrow> ring_level (rings ! j) < ring_level (rings ! i)"
    by (simp add: sorted_wrt_iff_nth_less)
  with assms(2-4) show ?thesis by (metis linorder_neqE_nat order_less_irrefl)
qed

lemma connector_of_ring:
  assumes "rings_cover n levels rings" and "k < length rings"
  shows "connector_of rings (ring_level (rings ! k)) = Inr k"
proof -
  have "filter (\<lambda>x. ring_level (rings ! x) = ring_level (rings ! k)) [0..<length rings]
      = filter (\<lambda>x. x = k) [0..<length rings]"
    using cover_levels_inj [OF assms(1) _ assms(2)] by (intro filter_cong) auto
  also have "\<dots> = [k]"
  proof -
    have "[0..<length rings] = [0..<k] @ k # [Suc k..<length rings]"
      using assms(2) upt_add_eq_append [of 0 k "length rings - k"] by (simp add: upt_conv_Cons)
    moreover have "filter (\<lambda>x. x = k) [0..<k] = []" "filter (\<lambda>x. x = k) [Suc k..<length rings] = []"
      by (auto simp: filter_empty_conv)
    ultimately show ?thesis by (simp del: upt_Suc)
  qed
  finally show ?thesis by (simp add: connector_of_def nth_res_def)
qed

text \<open>Two neighbours are on one ring, or the first ends its ring and the second starts the next.\<close>

lemma on_ring_next:
  assumes c: "rings_cover n levels rings" and k: "on_ring n rings j k" and j: "Suc j < length levels"
  shows "n + j < ring_maxId (rings ! k) \<and> on_ring n rings (Suc j) k \<and> levels ! j = levels ! Suc j
    \<or> n + j = ring_maxId (rings ! k) \<and> Suc k < length rings \<and> on_ring n rings (Suc j) (Suc k) \<and> levels ! j \<noteq> levels ! Suc j"
proof (cases "n + j < ring_maxId (rings ! k)")
  case True
  then have k': "on_ring n rings (Suc j) k" using k by (simp add: on_ring_def)
  with True on_ring_level(2) [OF c k] on_ring_level(2) [OF c k'] show ?thesis by simp
next
  case False
  then have e: "n + j = ring_maxId (rings ! k)" using k by (simp add: on_ring_def)
  have kl: "k < length rings" using k by (simp add: on_ring_def)
  have "Suc k < length rings"
  proof (rule ccontr)
    assume "\<not> Suc k < length rings"
    with kl have "length rings - 1 = k" by simp
    with kl have "last rings = rings ! k" by (metis last_conv_nth length_greater_0_conv less_nat_zero_code neq0_conv)
    with cover_last [OF c] kl e j show False by fastforce
  qed
  moreover from this have k': "on_ring n rings (Suc j) (Suc k)"
    using cover_nth(1,4) [OF c \<open>Suc k < length rings\<close>] e by (simp add: on_ring_def)
  moreover have "levels ! j \<noteq> levels ! Suc j"
    using on_ring_level(2) [OF c k] on_ring_level(2) [OF c k'] cover_levels_inj [OF c kl \<open>Suc k < length rings\<close>] by auto
  ultimately show ?thesis using e by blast
qed

section \<open>The module is well wired\<close>

text \<open>
  What the Bluespec module needs: no port of a node or connector is connected twice, a connector
  is declared once and before it is used, and the nodes it names are those of the vector.
\<close>

fun stmt_ports :: "ring_stmt \<Rightarrow> (ring_point \<times> string) list" where
  "stmt_ports (Link a p b q) = [(a, p), (b, q)]"
| "stmt_ports (ChildFunc k hi lo) = []"
| "stmt_ports (NewConnector k) = []"

fun in_scope :: "nat \<Rightarrow> nat list \<Rightarrow> ring_point \<Rightarrow> bool" where
  "in_scope m ks (RingNode j) \<longleftrightarrow> 0 \<le> j \<and> j < int m"
| "in_scope m ks (Connector k) \<longleftrightarrow> k \<in> set (map int ks)"

fun scoped :: "nat \<Rightarrow> nat list \<Rightarrow> ring_stmt list \<Rightarrow> bool" where
  "scoped m ks [] \<longleftrightarrow> True"
| "scoped m ks (Link a p b q # ss) \<longleftrightarrow> in_scope m ks a \<and> in_scope m ks b \<and> scoped m ks ss"
| "scoped m ks (ChildFunc k hi lo # ss) \<longleftrightarrow> scoped m ks ss"
| "scoped m ks (NewConnector k # ss) \<longleftrightarrow> k \<notin> set ks \<and> scoped m (ks @ [k]) ss"

definition well_wired :: "nat \<Rightarrow> ring_stmt list \<Rightarrow> bool" where
  "well_wired m ss \<longleftrightarrow> distinct (concat (map stmt_ports ss)) \<and> scoped m [] ss"

fun new_connectors :: "ring_stmt list \<Rightarrow> nat list" where
  "new_connectors [] = []"
| "new_connectors (NewConnector k # ss) = k # new_connectors ss"
| "new_connectors (Link a p b q # ss) = new_connectors ss"
| "new_connectors (ChildFunc k hi lo # ss) = new_connectors ss"

lemma scoped_append: "scoped m ks (xs @ ys) \<longleftrightarrow> scoped m ks xs \<and> scoped m (ks @ new_connectors xs) ys"
  by (induction m ks xs rule: scoped.induct) auto

lemma new_connectors_append: "new_connectors (xs @ ys) = new_connectors xs @ new_connectors ys"
  by (induction xs rule: new_connectors.induct) auto

lemma distinct_concat_owner:
  assumes "\<And>j x. j < m \<Longrightarrow> x \<in> set (f j) \<Longrightarrow> own x = (j::nat)" and "\<And>j. j < m \<Longrightarrow> distinct (f j)"
  shows "distinct (concat (map f [0..<m]))"
  using assms
proof (induction m)
  case (Suc m)
  have "distinct (concat (map f [0..<m]))" by (rule Suc.IH) (use Suc.prems in auto)
  moreover have "set (concat (map f [0..<m])) \<inter> set (f m) = {}"
  proof (intro equals0I, elim IntE)
    fix x
    assume "x \<in> set (concat (map f [0..<m]))" and x: "x \<in> set (f m)"
    then obtain j where "j < m" "x \<in> set (f j)" by auto
    then show False using Suc.prems(1) [of j x] Suc.prems(1) [of m x] x by simp
  qed
  ultimately show ?case using Suc.prems(2) by simp
qed simp

text \<open>The statements of position \<open>j\<close>, with \<open>k\<close> the ring of every position.\<close>

definition chain_stmts :: "nat \<Rightarrow> ring_stmt list" where
  "chain_stmts j =
     [Link (RingNode (int j)) ''reqChainOutgoing'' (RingNode (int j + 1)) ''reqChainIncoming'',
      Link (RingNode (int j)) ''rspChainOutgoing'' (RingNode (int j + 1)) ''rspChainIncoming'']"

definition stmts_at :: "scratchpad_ring list \<Rightarrow> (nat \<Rightarrow> nat) \<Rightarrow> nat \<Rightarrow> ring_stmt list" where
  "stmts_at rings k j = (if k j = k (Suc j) then chain_stmts j else connector_stmts rings j (k j))"

definition end_stmts :: "scratchpad_ring list \<Rightarrow> ring_stmt list" where
  "end_stmts rings =
     [Link (Connector (last_connector rings)) ''reqChainOutgoing'' (RingNode (ring_offset rings (last rings))) ''reqChainIncoming'',
      Link (Connector (last_connector rings)) ''rspChainOutgoing'' (RingNode (ring_offset rings (last rings))) ''rspChainIncoming'']"

lemma ring_map: "rings_cover n levels rings \<Longrightarrow> \<exists>k. \<forall>j<length levels. on_ring n rings j (k j)"
  using on_ring_exists by metis

lemma ring_map_next:
  assumes c: "rings_cover n levels rings" and k: "\<And>j. j < length levels \<Longrightarrow> on_ring n rings j (k j)"
    and j: "Suc j < length levels"
  shows "k (Suc j) = k j \<and> n + j < ring_maxId (rings ! k j) \<and> levels ! j = levels ! Suc j
    \<or> k (Suc j) = Suc (k j) \<and> Suc (k j) < length rings \<and> n + j = ring_maxId (rings ! k j) \<and> levels ! j \<noteq> levels ! Suc j"
proof -
  have j': "j < length levels" using j by simp
  from on_ring_next [OF c k [OF j'] j] consider
    (same) "n + j < ring_maxId (rings ! k j)" "on_ring n rings (Suc j) (k j)" "levels ! j = levels ! Suc j"
  | (new) "n + j = ring_maxId (rings ! k j)" "Suc (k j) < length rings" "on_ring n rings (Suc j) (Suc (k j))"
      "levels ! j \<noteq> levels ! Suc j" by blast
  then show ?thesis
  proof cases
    case same
    with on_ring_unique [OF c k [OF j] same(2)] show ?thesis by simp
  next
    case new
    with on_ring_unique [OF c k [OF j] new(3)] show ?thesis by simp
  qed
qed

lemma ring_stmts_closed:
  assumes c: "rings_cover n levels rings" and k: "\<And>j. j < length levels \<Longrightarrow> on_ring n rings j (k j)"
    and ne: "rings \<noteq> []"
  shows "ring_stmts levels rings = Inr (concat (map (stmts_at rings k) [0..<length levels - 1]) @ end_stmts rings)"
proof -
  have "mapR (node_stmts levels rings) [0..<length levels - 1] = Inr (map (stmts_at rings k) [0..<length levels - 1])"
  proof (rule mapR_Inr_map)
    fix j
    assume "j \<in> set [0..<length levels - 1]"
    then have j: "Suc j < length levels" and j': "j < length levels" by auto
    have "k j < length rings" using k [OF j'] by (simp add: on_ring_def)
    from connector_of_ring [OF c this] have con: "connector_of rings (levels ! j) = Inr (k j)"
      using on_ring_level(2) [OF c k [OF j']] by simp
    show "node_stmts levels rings j = Inr (stmts_at rings k j)"
    proof (cases "levels ! j = levels ! Suc j")
      case True
      then have "k j = k (Suc j)" using ring_map_next [OF c k j] by metis
      with True show ?thesis by (simp add: node_stmts_def stmts_at_def chain_stmts_def)
    next
      case False
      then have "k j \<noteq> k (Suc j)" using ring_map_next [OF c k j] by (metis n_not_Suc_n)
      with False con show ?thesis by (simp add: node_stmts_def stmts_at_def)
    qed
  qed
  with ne show ?thesis by (simp add: ring_stmts_def last_stmts_def end_stmts_def Let_def)
qed

lemma ring_map_ends:
  assumes c: "rings_cover n levels rings" and k: "\<And>j. j < length levels \<Longrightarrow> on_ring n rings j (k j)"
    and ne: "rings \<noteq> []"
  shows "0 < length levels" and "k 0 = 0" and "k (length levels - 1) = length rings - 1"
proof -
  have L: "0 < length rings" using ne by simp
  show m: "0 < length levels"
    using cover_nth(2,3) [OF c L] cover_nth(4) [OF c L] by linarith
  have "on_ring n rings 0 0"
    using cover_nth(1,4) [OF c L] L by (simp add: on_ring_def)
  then show "k 0 = 0" using on_ring_unique [OF c k [OF m]] by blast
  have last: "last rings = rings ! (length rings - 1)" using ne by (simp add: last_conv_nth)
  have "on_ring n rings (length levels - 1) (length rings - 1)"
  proof -
    have "Suc (ring_maxId (rings ! (length rings - 1))) = n + length levels"
      using cover_last [OF c ne] unfolding last .
    then have "n + (length levels - 1) = ring_maxId (rings ! (length rings - 1))" using m by linarith
    with cover_nth(4) [OF c, of "length rings - 1"] L show ?thesis unfolding on_ring_def by simp
  qed
  moreover have "length levels - 1 < length levels" using m by simp
  ultimately show "k (length levels - 1) = length rings - 1" using on_ring_unique [OF c k] by blast
qed

lemma ring_start_on:
  assumes c: "rings_cover n levels rings" and q: "q < length rings"
  shows "on_ring n rings (ring_minId (rings ! q) - n) q"
  using q cover_nth(2,4) [OF c q] by (simp add: on_ring_def)

lemma ring_offset_eq:
  assumes c: "rings_cover n levels rings" and q: "q < length rings"
  shows "ring_offset rings (rings ! q) = int (ring_minId (rings ! q) - n)"
proof -
  have "rings \<noteq> []" using q by auto
  then have "ring_minId (hd rings) = n" using cover_nth(1) [OF c, of 0] by (simp add: hd_conv_nth)
  with cover_nth(2) [OF c q] show ?thesis by (simp add: ring_offset_def)
qed

lemma ring_offset_scope:
  assumes c: "rings_cover n levels rings" and q: "q < length rings"
  shows "in_scope (length levels) ks (RingNode (ring_offset rings (rings ! q)))"
  unfolding ring_offset_eq [OF c q] using on_ring_level(1) [OF c ring_start_on [OF c q]] by simp

text \<open>The position whose statements connect a port.\<close>

fun port_owner :: "nat \<Rightarrow> scratchpad_ring list \<Rightarrow> (nat \<Rightarrow> nat) \<Rightarrow> ring_point \<times> string \<Rightarrow> nat" where
  "port_owner n rings k (RingNode x, p) =
     (if p = ''reqChainOutgoing'' \<or> p = ''rspChainOutgoing'' then nat x
      else if n + nat x = ring_minId (rings ! k (nat x)) then ring_maxId (rings ! k (nat x)) - n
      else nat x - 1)"
| "port_owner n rings k (Connector x, p) =
     (if p = ''clientReqIncoming'' \<or> p = ''clientRspOutgoing'' \<or> p = ''reqChainIncoming''
      then ring_maxId (rings ! nat x) - n else ring_maxId (rings ! Suc (nat x)) - n)"

lemma start_owner:
  assumes c: "rings_cover n levels rings" and k: "\<And>j. j < length levels \<Longrightarrow> on_ring n rings j (k j)"
    and q: "q < length rings" and p: "p = ''reqChainIncoming'' \<or> p = ''rspChainIncoming''"
  shows "port_owner n rings k (RingNode (ring_offset rings (rings ! q)), p) = ring_maxId (rings ! q) - n"
proof -
  let ?x = "ring_minId (rings ! q) - n"
  have "k ?x = q"
    using on_ring_unique [OF c k ring_start_on [OF c q]] on_ring_level(1) [OF c ring_start_on [OF c q]] by blast
  moreover have "nat (ring_offset rings (rings ! q)) = ?x" unfolding ring_offset_eq [OF c q] by (rule nat_int)
  moreover have "n + ?x = ring_minId (rings ! q)" using cover_nth(2) [OF c q] by simp
  ultimately show ?thesis using p by auto
qed

lemma connector_ports_owner:
  assumes c: "rings_cover n levels rings" and k: "\<And>j. j < length levels \<Longrightarrow> on_ring n rings j (k j)"
    and q: "q < length rings" and j: "n + j = ring_maxId (rings ! q)"
    and x: "x \<in> set (concat (map stmt_ports (connector_stmts rings j q)))"
  shows "port_owner n rings k x = j"
proof -
  have max: "ring_maxId (rings ! q) - n = j" using j by simp
  have off: "port_owner n rings k (RingNode (ring_offset rings (rings ! q)), ''rspChainIncoming'') = j"
    using start_owner [OF c k q] max by blast
  have con: "port_owner n rings k (Connector (int q), p) = j"
    if "p = ''clientReqIncoming'' \<or> p = ''clientRspOutgoing'' \<or> p = ''reqChainIncoming''" for p
    using that max by simp
  have prev: "port_owner n rings k (Connector (int q - 1), p) = j"
    if "q \<noteq> 0" "p = ''reqChainOutgoing'' \<or> p = ''rspChainOutgoing'' \<or> p = ''rspChainIncoming''" for p
  proof -
    have "Suc (nat (int q - 1)) = q" using that(1) by simp
    with that(2) max show ?thesis by auto
  qed
  have node: "port_owner n rings k (RingNode (int j), ''reqChainOutgoing'') = j" by simp
  show ?thesis
  proof (cases "q = 0")
    case True
    with x have "x \<in> {(RingNode (int j), ''reqChainOutgoing''), (Connector (int q), ''clientReqIncoming''),
       (Connector (int q), ''clientRspOutgoing''), (RingNode (ring_offset rings (rings ! q)), ''rspChainIncoming'')}"
      by (simp add: connector_stmts_def Let_def)
    then show ?thesis using off con node by blast
  next
    case False
    with x have "x \<in> {(RingNode (int j), ''reqChainOutgoing''), (Connector (int q), ''clientReqIncoming''),
       (Connector (int q - 1), ''reqChainOutgoing''), (Connector (int q), ''reqChainIncoming''),
       (Connector (int q - 1), ''rspChainOutgoing''), (RingNode (ring_offset rings (rings ! q)), ''rspChainIncoming''),
       (Connector (int q), ''clientRspOutgoing''), (Connector (int q - 1), ''rspChainIncoming'')}"
      by (simp add: connector_stmts_def Let_def)
    then show ?thesis using off con prev [OF False] node by blast
  qed
qed

lemma connector_ports_distinct: "distinct (concat (map stmt_ports (connector_stmts rings j q)))"
proof (cases "q = 0")
  case True
  then show ?thesis by (simp add: connector_stmts_def Let_def)
next
  case False
  then show ?thesis by (simp add: connector_stmts_def Let_def)
qed

definition ports_at :: "scratchpad_ring list \<Rightarrow> (nat \<Rightarrow> nat) \<Rightarrow> nat \<Rightarrow> nat \<Rightarrow> (ring_point \<times> string) list" where
  "ports_at rings k m j = concat (map stmt_ports (if Suc j < m then stmts_at rings k j else end_stmts rings))"

lemma ports_at_owner:
  assumes c: "rings_cover n levels rings" and k: "\<And>j. j < length levels \<Longrightarrow> on_ring n rings j (k j)"
    and L: "2 \<le> length rings" and j: "j < length levels" and x: "x \<in> set (ports_at rings k (length levels) j)"
  shows "port_owner n rings k x = j"
proof (cases "Suc j < length levels")
  case True
  show ?thesis
  proof (cases "k j = k (Suc j)")
    case same: True
    have "ring_minId (rings ! k j) \<le> n + j" using k [OF j] by (simp add: on_ring_def)
    then have ne: "n + Suc j \<noteq> ring_minId (rings ! k (Suc j))" using same by simp
    have nat: "nat (int j + 1) = Suc j" by simp
    have "x \<in> {(RingNode (int j), ''reqChainOutgoing''), (RingNode (int j + 1), ''reqChainIncoming''),
        (RingNode (int j), ''rspChainOutgoing''), (RingNode (int j + 1), ''rspChainIncoming'')}"
      using x True same by (simp add: ports_at_def stmts_at_def chain_stmts_def)
    moreover have "port_owner n rings k (RingNode (int j + 1), p) = j"
      if "p = ''reqChainIncoming'' \<or> p = ''rspChainIncoming''" for p
      using that ne nat by auto
    moreover have "port_owner n rings k (RingNode (int j), p) = j"
      if "p = ''reqChainOutgoing'' \<or> p = ''rspChainOutgoing''" for p
      using that by auto
    ultimately show ?thesis by blast
  next
    case False
    then have e: "n + j = ring_maxId (rings ! k j)" using ring_map_next [OF c k True] by metis
    have kj: "k j < length rings" using k [OF j] by (simp add: on_ring_def)
    have "x \<in> set (concat (map stmt_ports (connector_stmts rings j (k j))))"
      using x True False by (simp add: ports_at_def stmts_at_def)
    from connector_ports_owner [OF c k kj e this] show ?thesis .
  qed
next
  case False
  then have j': "j = length levels - 1" using j by simp
  have q: "length rings - 1 < length rings" and ne: "rings \<noteq> []" using L by auto
  have last: "last rings = rings ! (length rings - 1)" using ne by (simp add: last_conv_nth)
  have max: "ring_maxId (last rings) - n = j" using cover_last [OF c ne] j' j by linarith
  have "Suc (nat (last_connector rings)) = length rings - 1" using L by (simp add: last_connector_def)
  then have con: "port_owner n rings k (Connector (last_connector rings), p) = j"
    if "p = ''reqChainOutgoing'' \<or> p = ''rspChainOutgoing''" for p
    using that max last by auto
  have node: "port_owner n rings k (RingNode (ring_offset rings (last rings)), p) = j"
    if "p = ''reqChainIncoming'' \<or> p = ''rspChainIncoming''" for p
    using start_owner [OF c k q that] max last by simp
  have "x \<in> {(Connector (last_connector rings), ''reqChainOutgoing''), (RingNode (ring_offset rings (last rings)), ''reqChainIncoming''),
      (Connector (last_connector rings), ''rspChainOutgoing''), (RingNode (ring_offset rings (last rings)), ''rspChainIncoming'')}"
    using x False by (simp add: ports_at_def end_stmts_def)
  then show ?thesis using con node by blast
qed

lemma ports_at_distinct: "distinct (ports_at rings k m j)"
proof -
  have "distinct (concat (map stmt_ports (stmts_at rings k j)))"
    using connector_ports_distinct by (simp add: stmts_at_def chain_stmts_def)
  moreover have "distinct (concat (map stmt_ports (end_stmts rings)))" by (simp add: end_stmts_def)
  ultimately show ?thesis by (simp add: ports_at_def)
qed

lemma stmts_scoped:
  assumes c: "rings_cover n levels rings" and k: "\<And>j. j < length levels \<Longrightarrow> on_ring n rings j (k j)"
    and ne: "rings \<noteq> []" and q: "q < length levels"
  shows "scoped (length levels) [] (concat (map (stmts_at rings k) [0..<q]))
    \<and> new_connectors (concat (map (stmts_at rings k) [0..<q])) = [0..<k q]"
  using q
proof (induction q)
  case 0
  then show ?case using ring_map_ends(2) [OF c k ne] by simp
next
  case (Suc q)
  then have q: "q < length levels" by simp
  with Suc.IH have IH: "scoped (length levels) [] (concat (map (stmts_at rings k) [0..<q]))"
    "new_connectors (concat (map (stmts_at rings k) [0..<q])) = [0..<k q]" by auto
  show ?case
  proof (cases "k q = k (Suc q)")
    case True
    then have "scoped (length levels) ks (stmts_at rings k q)" "new_connectors (stmts_at rings k q) = []" for ks
      using Suc.prems by (simp_all add: stmts_at_def chain_stmts_def)
    with IH True show ?thesis by (simp add: scoped_append new_connectors_append)
  next
    case False
    then have next_k: "k (Suc q) = Suc (k q)" using ring_map_next [OF c k Suc.prems] by metis
    have kq: "k q < length rings" using k [OF q] by (simp add: on_ring_def)
    note off = ring_offset_scope [OF c kq]
    have prev: "k q \<noteq> 0 \<Longrightarrow> int (k q) - 1 \<in> int ` {0..<k q}"
      by (rule image_eqI [of _ _ "k q - 1"]) auto
    have "scoped (length levels) [0..<k q] (connector_stmts rings q (k q))
      \<and> new_connectors (connector_stmts rings q (k q)) = [k q]"
      using q off prev by (cases "k q = 0") (simp_all add: connector_stmts_def Let_def)
    then have "scoped (length levels) [0..<k q] (stmts_at rings k q)" "new_connectors (stmts_at rings k q) = [k q]"
      using False by (simp_all add: stmts_at_def)
    with IH next_k show ?thesis by (simp add: scoped_append new_connectors_append)
  qed
qed

lemma ports_concat: "concat (map stmt_ports (concat (map f xs))) = concat (map (\<lambda>x. concat (map stmt_ports (f x))) xs)"
  by (induction xs) simp_all

lemma ring_stmts_well_wired:
  assumes c: "rings_cover n levels rings" and L: "2 \<le> length rings"
  shows "\<exists>ss. ring_stmts levels rings = Inr ss \<and> well_wired (length levels) ss"
proof -
  obtain k where k': "\<forall>j<length levels. on_ring n rings j (k j)" using ring_map [OF c] by blast
  then have k: "on_ring n rings j (k j)" if "j < length levels" for j using that by blast
  have ne: "rings \<noteq> []" using L by auto
  note ends = ring_map_ends [OF c k ne]
  let ?m = "length levels"
  let ?ss = "concat (map (stmts_at rings k) [0..<?m - 1]) @ end_stmts rings"
  have r: "ring_stmts levels rings = Inr ?ss" by (rule ring_stmts_closed [OF c k ne])
  have "distinct (concat (map (ports_at rings k ?m) [0..<?m]))"
    using ports_at_owner [OF c k L] ports_at_distinct by (rule distinct_concat_owner)
  moreover have "concat (map (ports_at rings k ?m) [0..<?m]) = concat (map stmt_ports ?ss)"
  proof -
    have "[0..<?m] = [0..<?m - 1] @ [?m - 1]"
      using ends(1) by (metis Suc_pred' upt_Suc_append zero_le)
    moreover have "concat (map (ports_at rings k ?m) [0..<?m - 1])
        = concat (map stmt_ports (concat (map (stmts_at rings k) [0..<?m - 1])))"
      unfolding ports_concat by (intro arg_cong [where f = concat] map_cong) (auto simp: ports_at_def)
    moreover have "ports_at rings k ?m (?m - 1) = concat (map stmt_ports (end_stmts rings))"
      using ends(1) by (simp add: ports_at_def)
    ultimately show ?thesis by (simp only: map_append concat_append list.map concat.simps append_Nil2)
  qed
  ultimately have "distinct (concat (map stmt_ports ?ss))" by simp
  moreover have "scoped ?m [] ?ss"
  proof -
    have m: "?m - 1 < ?m" using ends(1) by simp
    note sc = stmts_scoped [OF c k ne m]
    have q: "length rings - 1 < length rings" using L by auto
    have last: "last rings = rings ! (length rings - 1)" using ne by (simp add: last_conv_nth)
    note off = ring_offset_scope [OF c q, folded last]
    have "last_connector rings \<in> int ` {0..<length rings - 1}"
      by (rule image_eqI [of _ _ "length rings - 2"]) (use L in \<open>auto simp: last_connector_def\<close>)
    with sc ends(3) off show ?thesis by (simp add: scoped_append end_stmts_def)
  qed
  ultimately show ?thesis using r by (simp add: well_wired_def)
qed
section \<open>From the rings to the module\<close>

lemma holds_ids_ring:
  assumes "holds_ids H' ids n (map (Pair i) cl)" and "j < length cl"
  shows "map_of (remappedIds (H' (cl ! j))) i = Some (num (n + j))"
  using assms by (simp add: holds_ids_def)

text \<open>Sorting by the new ids restores the order in which they were given.\<close>

lemma by_new_id_order:
  assumes h: "holds_ids H' ids n (map (Pair i) cl)" and d: "distinct cl" and m: "mset clients = mset cl"
  shows "by_new_id H' i clients = Inr (map (\<lambda>j. (num (n + j), cl ! j)) [0..<length cl])"
proof -
  define g where "g c = (let s = the (map_of (remappedIds (H' c)) i) in (int (nat_of_str s), s, c))" for c
  have g: "g (cl ! j) = (int (n + j), num (n + j), cl ! j)" if "j < length cl" for j
    using holds_ids_ring [OF h that] by (simp add: g_def Let_def)
  have "mapR (\<lambda>c. bindR (new_id H' c i) (\<lambda>s. bindR (py_int s) (\<lambda>k. Inr (k, s, c)))) clients = Inr (map g clients)"
  proof (rule mapR_Inr_map)
    fix c
    assume "c \<in> set clients"
    then have "c \<in> set cl" using m by (metis set_mset_mset)
    then obtain j where j: "j < length cl" "c = cl ! j" by (auto simp: in_set_conv_nth)
    show "bindR (new_id H' c i) (\<lambda>s. bindR (py_int s) (\<lambda>k. Inr (k, s, c))) = Inr (g c)"
      unfolding j(2) g [OF j(1)] using holds_ids_ring [OF h j(1)] by (simp add: new_id_def get_key_def)
  qed
  moreover have "sort_key fst (map g clients) = map g cl"
  proof (rule sort_key_inj_key_eq)
    show "mset (map g clients) = mset (map g cl)" using m by simp
    have "inj_on (\<lambda>c. fst (g c)) (set cl)"
    proof (rule inj_onI)
      fix c c'
      assume "c \<in> set cl" "c' \<in> set cl" "fst (g c) = fst (g c')"
      then obtain j j' where "j < length cl" "c = cl ! j" "j' < length cl" "c' = cl ! j'"
        by (auto simp: in_set_conv_nth)
      with \<open>fst (g c) = fst (g c')\<close> show "c = c'" by (simp add: g)
    qed
    moreover have "set clients = set cl" using m by (metis set_mset_mset)
    ultimately show "inj_on fst (set (map g clients))" by (auto simp: inj_on_def)
    have "map fst (map g cl) = map (\<lambda>j. int (n + j)) [0..<length cl]"
      by (rule nth_equalityI) (simp_all add: g)
    moreover have "sorted (map (\<lambda>j. int (n + j)) [0..<length cl])"
      by (simp add: sorted_iff_nth_mono)
    ultimately show "sorted (map fst (map g cl))" by (simp only:)
  qed
  moreover have "map snd (map g cl) = map (\<lambda>j. (num (n + j), cl ! j)) [0..<length cl]"
    by (rule nth_equalityI) (simp_all add: g)
  ultimately show ?thesis by (simp add: by_new_id_def)
qed

text \<open>
  C32: Composition of renaming and generation: for every controller whose clients are on at least
  two levels, the ring module generated from the rings of \<open>buildHierarchicalRing\<close> is well wired: no
  port of a ring node or connector is connected twice, every connector is declared once, before
  it is used, and only nodes of the vector are named.
\<close>

theorem ring_network_wired:
  assumes "platforms \<noteq> []" and "distinct (concat (map spp_clients platforms))"
    and "buildHierarchicalRing H platforms = (H', ids, ps)" and "p \<in> set ps"
    and "spp_network p = RingNetwork nets" and "i < length (spp_controllers p)" and "2 \<le> length (nets ! i)"
  shows "\<exists>st ss. let n = length (clients_of H' p i) in
      ring_network p i H' (clients_of H' p i)
        = Inr (st, module_head i n @ map stmt_text ss @ module_ports n @ module_server n (last_connector (nets ! i)))
    \<and> well_wired n ss"
proof -
  have sv: "same_clients H H'" "list_all2 (ring_served H H' ids) platforms ps"
    using rings_served [OF assms(1-3)] by simp_all
  obtain j where j: "j < length ps" "p = ps ! j" using assms(4) by (auto simp: in_set_conv_nth)
  define p0 where "p0 = platforms ! j"
  have p0: "p0 \<in> set platforms" "ring_served H H' ids p0 p"
    using sv(2) j by (simp_all add: p0_def list_all2_conv_all_nth)
  let ?cl = "level_clients H p0 i"
  obtain n where p: "p = p0\<lparr>spp_network := RingNetwork nets, networkType := ''hring''\<rparr>" "i < length nets"
    and cov: "rings_cover n (map (\<lambda>c. level (H c)) ?cl) (nets ! i)"
    and h: "holds_ids H' ids n (map (Pair i) ?cl)"
    using p0(2) assms(5,6) by (auto simp: ring_served_def)
  have clients: "clients_of H' p i = clients_of H p0 i"
    using same_clients_fields(9) [OF sv(1)] by (simp add: p(1) clients_of_def)
  have "distinct (spp_clients p0)" using assms(2) p0(1) by (auto simp: distinct_concat_iff)
  then have d: "distinct ?cl" by (simp add: level_clients_def clients_of_def)
  have m: "mset (clients_of H' p i) = mset ?cl" by (simp add: clients level_clients_def)
  have len: "length (clients_of H' p i) = length ?cl" using m by (metis size_mset)
  note ids = by_new_id_order [OF h d m]
  have lvl: "map (\<lambda>c. level (H' c)) (map snd (map (\<lambda>j. (num (n + j), ?cl ! j)) [0..<length ?cl])) = map (\<lambda>c. level (H c)) ?cl"
    by (rule nth_equalityI) (simp_all add: same_clients_level [OF sv(1)])
  from ring_stmts_well_wired [OF cov assms(7)] obtain ss where
    ss: "ring_stmts (map (\<lambda>c. level (H c)) ?cl) (nets ! i) = Inr ss" "well_wired (length ?cl) ss" by auto
  have net: "spp_network p = RingNetwork nets" "nth_res nets i = Inr (nets ! i)"
    using p by (simp_all add: nth_res_def)
  have body: "ring_module i (map (\<lambda>c. level (H c)) ?cl) (nets ! i)
      = Inr (module_head i (length ?cl) @ map stmt_text ss @ module_ports (length ?cl)
          @ module_server (length ?cl) (last_connector (nets ! i)))"
    by (simp add: ring_module_def ss(1) Let_def)
  show ?thesis
    unfolding ring_network_def ids bindR.simps Let_def net sp_network.case lvl body len using ss(2) by blast
qed

text \<open>
  A controller whose clients are all on one level has one ring; the code then names a connector
  numbered -1 that it never declares.
\<close>

lemma ring_stmts_one_level:
  assumes c: "rings_cover n levels rings" and L: "length rings = 1"
  shows "\<exists>ss. ring_stmts levels rings = Inr ss \<and> Link (Connector (-1)) ''reqChainOutgoing'' (RingNode 0) ''reqChainIncoming'' \<in> set ss
    \<and> \<not> well_wired (length levels) ss"
proof -
  obtain k where k': "\<forall>j<length levels. on_ring n rings j (k j)" using ring_map [OF c] by blast
  then have k: "on_ring n rings j (k j)" if "j < length levels" for j using that by blast
  have ne: "rings \<noteq> []" using L by auto
  let ?ss = "concat (map (stmts_at rings k) [0..<length levels - 1]) @ end_stmts rings"
  have "hd rings = last rings" using L by (cases rings) auto
  then have off: "ring_offset rings (last rings) = 0" by (simp add: ring_offset_def)
  have "last_connector rings = -1" using L by (simp add: last_connector_def)
  moreover from this have "\<not> scoped (length levels) [] ?ss" by (auto simp: scoped_append end_stmts_def)
  ultimately show ?thesis
    using ring_stmts_closed [OF c k ne] off by (auto simp: well_wired_def end_stmts_def)
qed

section \<open>Example\<close>

lemma ring_example_built:
  "\<exists>H' ids p. buildHierarchicalRing ring_example [example_platform 3] = (H', ids, [p])
    \<and> spp_network p = RingNetwork
        [ [\<lparr>ring_baseName = ''ctrl'', ring_level = 1, ring_minId = 1, ring_maxId = 1\<rparr>,
          \<lparr>ring_baseName = ''ctrl'', ring_level = 0, ring_minId = 2, ring_maxId = 3\<rparr>] ]
    \<and> length (spp_controllers p) = 1"
proof -
  have "case buildHierarchicalRing ring_example [example_platform 3] of
      (H', ids, [p]) \<Rightarrow> spp_network p = RingNetwork
        [ [\<lparr>ring_baseName = ''ctrl'', ring_level = 1, ring_minId = 1, ring_maxId = 1\<rparr>,
          \<lparr>ring_baseName = ''ctrl'', ring_level = 0, ring_minId = 2, ring_maxId = 3\<rparr>] ]
        \<and> length (spp_controllers p) = 1
    | _ \<Rightarrow> False"
    by code_simp
  then show ?thesis by (auto split: prod.splits list.splits)
qed

theorem ring_network_wired_witness:
  "\<exists>H' p st ss. let n = length (clients_of H' p 0) in
      ring_network p 0 H' (clients_of H' p 0)
        = Inr (st, module_head 0 n @ map stmt_text ss @ module_ports n @ module_server n 0)
    \<and> well_wired n ss"
proof -
  obtain H' ids p where b: "buildHierarchicalRing ring_example [example_platform 3] = (H', ids, [p])"
    "spp_network p = RingNetwork
        [ [\<lparr>ring_baseName = ''ctrl'', ring_level = 1, ring_minId = 1, ring_maxId = 1\<rparr>,
          \<lparr>ring_baseName = ''ctrl'', ring_level = 0, ring_minId = 2, ring_maxId = 3\<rparr>] ]"
    "length (spp_controllers p) = 1"
    using ring_example_built by blast
  have d: "distinct (concat (map spp_clients [example_platform 3]))" by (simp add: example_platform_def)
  have i: "0 < length (spp_controllers p)" using b(3) by simp
  show ?thesis
    using ring_network_wired [OF _ d b(1) _ b(2) i] by (simp add: last_connector_def) blast
qed

end
