(* ===== verification/RemapWrapper.thy ===== *)
theory RemapWrapper
  imports RemapRings
begin

text \<open>
  \<^verbatim>\<open>remapScratchpad.py\<close>, the rest of \<open>genRemapWrapper\<close>: crossbars, the clients that are not
  interleaved, the interleaved ones with their address selection, and the whole file.  The lemmas
  show that the address selection of an interleaved client splits the addresses so that every
  controller with a share gets some and no address is lost.
\<close>

section \<open>Crossbars\<close>

text \<open>\<open>xs.index(x)\<close> compares attribute dictionaries.\<close>

definition client_index :: "sp_store \<Rightarrow> nat list \<Rightarrow> nat \<Rightarrow> nat res" where
  "client_index H cs c =
     (case filter (\<lambda>j. cs ! j = c \<or> H (cs ! j) = H c) [0..<length cs] of [] \<Rightarrow> Inl ValueError | j # _ \<Rightarrow> Inr j)"

definition crossbar_fraction :: "int \<Rightarrow> int \<Rightarrow> int" where
  "crossbar_fraction bw bandwidth_max =
     max 1 (min bw (py_round (rat_of_int bw * (2 ^ 5 - 1) / rat_of_int bandwidth_max)))"

definition crossbar_share :: "sp_store \<Rightarrow> bool \<Rightarrow> nat \<Rightarrow> nat \<Rightarrow> nat \<Rightarrow> nat \<Rightarrow> int \<Rightarrow> string list" where
  "crossbar_share H dyn pid i j c amount =
     (let param = (\<lambda>suffix. quoted (''LEAP_SCRATCHPAD_'' @ sp_id (H c) @ ''_CTRL'' @ num i @ ''_PLATFORM_'' @ num pid @ suffix))
      in (if dyn then
            [''    Param#(5) bandwidthParam'' @ num i @ ''_'' @ num j @ '' <- mkDynamicParameterFromStringInitialized(''
               @ param ''_NETWORK_BANDWIDTH'' @ '', 5'd'' @ str_of_int amount @ '', paramNode);'',
             ''    Param#(1) priorityParam'' @ num i @ ''_'' @ num j @ '' <- mkDynamicParameterFromStringInitialized(''
               @ param ''_NETWORK_PRIORITIZED'' @ '', 1'd1, paramNode);'']
          else [])
         @ [''    bandwidthFractionVec'' @ num i @ ''['' @ num j @ ''] = ''
              @ (if dyn then ''unpack(bandwidthParam'' @ num i @ ''_'' @ num j @ '')'' else str_of_int amount) @ '';'',
            ''    priorityVec'' @ num i @ ''['' @ num j @ ''] = ''
              @ (if dyn then ''(priorityParam'' @ num i @ ''_'' @ num j @ '' == 1)'' else ''True'') @ '';''])"

definition find_client :: "sp_store \<Rightarrow> nat \<Rightarrow> nat \<Rightarrow> string" where
  "find_client H k c =
     ''    let client'' @ num k @ '' <- findMatchingServiceClient(clients, '' @ quoted (sp_conn_name (H c)) @ '', ''
       @ quoted (sp_id (H c)) @ '');''"

text \<open>The two ports of one client, directly or through connectors for the interleaver.\<close>

definition crossbar_ports :: "scratchpad_platform \<Rightarrow> nat \<Rightarrow> nat \<Rightarrow> nat \<Rightarrow> sp_store \<Rightarrow> net_text res" where
  "crossbar_ports p i j c H =
     (if sp_partition (H c) = [] then
        bindR (client_index H (restClients p) c) (\<lambda>k.
          Inr (H, [find_client H k c,
                   ''    clientReqPortsVec'' @ num i @ ''['' @ num j @ ''] = client'' @ num k @ ''.outgoing;'',
                   ''    clientRspPortsVec'' @ num i @ ''['' @ num j @ ''] = client'' @ num k @ ''.incoming;'']))
      else
        bindR (client_index H (partitionedClients p) c) (\<lambda>k.
          let con = ''connector'' @ num k @ ''Ctrl'' @ num i
          in Inr (set_port i c (con @ ''Req.incoming'') (con @ ''Rsp.outgoing'') H,
                  [''    let '' @ con @ ''Req <- mkServiceConnector();'',
                   ''    let '' @ con @ ''Rsp <- mkServiceConnector();'',
                   ''    clientReqPortsVec'' @ num i @ ''['' @ num j @ ''] = '' @ con @ ''Req.outgoing;'',
                   ''    clientRspPortsVec'' @ num i @ ''['' @ num j @ ''] = convertConnectionInToConnectionInWithIdx(''
                     @ con @ ''Rsp.incoming);''])))"

fun crossbar_client ::
  "bool \<Rightarrow> scratchpad_platform \<Rightarrow> nat \<Rightarrow> int \<Rightarrow> net_text \<Rightarrow> nat \<times> nat \<Rightarrow> net_text res" where
  "crossbar_client dyn p i bandwidth_max (H, ls) (j, c) =
     bindR (getBandwidthFraction (H c) i) (\<lambda>bw.
     bindR (crossbar_ports p i j c H) (\<lambda>(H', ports).
       Inr (H', ls @ [''    clientIdVec'' @ num i @ ''['' @ num j @ ''] = '' @ sp_id (H c) @ '';'']
                @ crossbar_share H dyn (spp_id p) i j c (crossbar_fraction bw bandwidth_max) @ ports)))"

definition crossbar_vectors :: "nat \<Rightarrow> nat \<Rightarrow> string list" where
  "crossbar_vectors i n =
     [''    Vector#('' @ num n @ '', Integer) clientIdVec'' @ num i @ '' = newVector();'',
      ''    Vector#('' @ num n @ '', UInt#(5)) bandwidthFractionVec'' @ num i @ '' = newVector();'',
      ''    Vector#('' @ num n @ '', Bool) priorityVec'' @ num i @ '' = newVector();'',
      ''    Vector#('' @ num n @ '', CONNECTION_OUT#(SERVICE_CON_DATA_SIZE)) clientReqPortsVec'' @ num i @ '' = newVector();'',
      ''    Vector#('' @ num n @ '', CONNECTION_IN_WITH_IDX#(SERVICE_CON_DATA_SIZE,SERVICE_CON_IDX_SIZE)) clientRspPortsVec''
        @ num i @ '' = newVector();'']"

definition crossbar_network :: "bool \<Rightarrow> scratchpad_platform \<Rightarrow> nat \<Rightarrow> sp_store \<Rightarrow> nat list \<Rightarrow> net_text res" where
  "crossbar_network dyn p i H clients =
     bindR (mapR (\<lambda>c. getBandwidthFraction (H c) i) clients) (\<lambda>bws.
     if bws = [] then Inl ValueError
     else
       let bandwidth_max = max 1 (Max (set bws))
       in bindR (foldR (crossbar_client dyn p i bandwidth_max) (H, crossbar_vectors i (length clients)) (enumerate 0 clients))
            (\<lambda>(H', ls).
              Inr (H', ls
                @ [''    connectManyOutToIn(clientReqPortsVec'' @ num i @ '', server'' @ num i
                     @ ''.incoming, 0, mkLocalArbiterBandwidthWithPriority(bandwidthFractionVec'' @ num i
                     @ '', priorityVec'' @ num i @ '', True, True));'',
                   ''    connectOutToManyInWithIdx(server'' @ num i @ ''.outgoing, clientRspPortsVec'' @ num i
                     @ '', clientIdVec'' @ num i @ '', 0);'',
                   []])))"

section \<open>Clients that are not interleaved\<close>

definition remapped_id :: "sp_store \<Rightarrow> nat \<Rightarrow> string res" where
  "remapped_id H c =
     (if remappedIds (H c) = [] then Inr (sp_id (H c))
      else bindR (first_ctrl H c) (new_id H c))"

definition rest_client :: "bool \<Rightarrow> sp_store \<Rightarrow> nat \<times> nat \<Rightarrow> string list res" where
  "rest_client fast H kc =
     (case kc of (k, c) \<Rightarrow>
       bindR (remapped_id H c) (\<lambda>ident.
       bindR (first_ctrl H c) (\<lambda>i.
       bindR (port_of H c i) (\<lambda>(req, rsp).
         Inr (if fast then
                [find_client H k c,
                 ''    connectOutToInDualClock(client'' @ num k @ ''.outgoing, '' @ req @ '', '' @ clock_info fast @ '');'',
                 ''    connectOutToInWithIdxDualClock('' @ rsp @ '', client'' @ num k @ ''.incoming, '' @ ident @ '', ''
                   @ clock_info fast @ '');'',
                 []]
              else
                [find_client H k c,
                 ''    connectOutToIn(client'' @ num k @ ''.outgoing, '' @ req @ '', 0);'',
                 ''    connectOutToInWithIdx('' @ rsp @ '', client'' @ num k @ ''.incoming, '' @ ident @ '', 0);'',
                 []])))))"

definition rest_text :: "bool \<Rightarrow> sp_store \<Rightarrow> nat list \<Rightarrow> string list res" where
  "rest_text fast H rest =
     bindR (mapR (rest_client fast H) (enumerate 0 rest)) (\<lambda>ls.
       Inr ([[], ''    // Connect non-interleaved service clients''] @ concat ls))"

section \<open>Interleaved clients\<close>

text \<open>\<open>interleave_addr_bit\<close> is 4.\<close>

definition addr_bits :: "bool \<Rightarrow> scratchpad \<Rightarrow> nat res" where
  "addr_bits interleaveAll s =
     (if interleaveAll then Inr 4
      else if sum_list (sp_partition s) \<le> 0 then Inl ValueError
      else Inr (clog2 (nat (sum_list (sp_partition s)))))"

text \<open>The threshold of share \<open>j\<close>, \<open>math.ceil\<close> of an exact quotient.\<close>

definition threshold :: "nat \<Rightarrow> int list \<Rightarrow> nat \<Rightarrow> int" where
  "threshold bits parts j = cdiv (2 ^ bits * sum_list (take (j + 1) parts)) (sum_list parts)"

fun equal_step ::
  "sp_store \<Rightarrow> nat \<Rightarrow> nat \<Rightarrow> nat \<Rightarrow> nat \<Rightarrow> string list \<times> string list \<Rightarrow> nat \<Rightarrow> string list \<times> string list" where
  "equal_step H pid i c portion (ls, ps) k =
     (let name = ''interleavePortionParam'' @ num i @ ''_c'' @ num k
      in (ls @ [''    Param#(5) '' @ name @ '' <- mkDynamicParameterFromStringInitialized(''
            @ quoted (''LEAP_SCRATCHPAD_'' @ sp_id (H c) @ ''_CTRL'' @ num k @ ''_PLATFORM_'' @ num pid @ ''_INTERLEAVE_PORTION'')
            @ '', 5'd'' @ num portion @ '', paramNode);''],
          ps @ [if ps \<noteq> [] then last ps @ '' + pack('' @ name @ '')'' else ''pack('' @ name @ '')'']))"

definition interleave_portions ::
  "bool \<Rightarrow> sp_store \<Rightarrow> nat \<Rightarrow> nat \<Rightarrow> nat \<Rightarrow> nat \<Rightarrow> (string list \<times> string list) res" where
  "interleave_portions interleaveAll H pid i bits c =
     (let parts = sp_partition (H c) in
      if interleaveAll then
        (if parts = [] then Inl ZeroDivisionError
         else let (ls, ps) = foldl (equal_step H pid i c (2 ^ 4 div length parts)) ([], []) (butlast (controllerIdx (H c)))
           in Inr (ls, map (\<lambda>x. ''('' @ x @ '')'') ps))
      else Inr ([], map (\<lambda>j. str_of_int (threshold bits parts j)) [0..<length parts]))"

text \<open>The cases of the selection function; the last one takes the remaining addresses.\<close>

definition select_case :: "nat \<Rightarrow> string list \<Rightarrow> nat \<Rightarrow> string list res" where
  "select_case n portions j =
     bindR (if j = 0 then bindR (nth_res portions 0) (\<lambda>x. Inr (''        if (test_addr < '' @ x @ '')''))
            else if j = n - 1 then Inr ''        else''
            else bindR (nth_res portions j) (\<lambda>x. Inr (''        else if (test_addr < '' @ x @ '')'')))
       (\<lambda>l. Inr [l, ''            return unpack('' @ num j @ '');''])"

definition select_function :: "nat \<Rightarrow> nat \<Rightarrow> nat \<Rightarrow> string list \<Rightarrow> string list res" where
  "select_function i bits n portions =
     bindR (mapR (select_case n portions) [0..<n]) (\<lambda>cases.
       Inr ([''    function t_CTRLR_IDX getControllerIdxFromAddr'' @ num i @ ''(SCRATCHPAD_MEM_ADDRESS addr);'',
             ''        Bit#('' @ num bits @ '') short_addr = truncate(addr);'',
             ''        Bit#('' @ num (bits + 1) @ '') test_addr = zeroExtend(short_addr);'']
            @ concat cases @ [''    endfunction'', []]))"

definition interleaved_ports :: "sp_store \<Rightarrow> nat \<Rightarrow> nat \<Rightarrow> string list res" where
  "interleaved_ports H i c =
     (let n = length (sp_partition (H c)) in
      bindR (mapR (\<lambda>(k, ctrl). bindR (port_of H c ctrl) (\<lambda>(req, rsp).
          Inr [''    controllerReqPortVec'' @ num i @ ''['' @ num k @ ''] = '' @ req @ '';'',
               ''    controllerRspPortVec'' @ num i @ ''['' @ num k @ ''] = '' @ rsp @ '';'']))
          (enumerate 0 (controllerIdx (H c)))) (\<lambda>ls.
        Inr ([''    Vector#('' @ num n @ '', CONNECTION_IN#(SERVICE_CON_DATA_SIZE)) controllerReqPortVec'' @ num i @ '' = newVector();'',
              ''    Vector#('' @ num n @ '', CONNECTION_OUT#(SERVICE_CON_DATA_SIZE)) controllerRspPortVec'' @ num i @ '' = newVector();'']
             @ concat ls)))"

definition interleaver :: "bool \<Rightarrow> sp_store \<Rightarrow> nat \<Rightarrow> nat \<Rightarrow> nat \<Rightarrow> string \<Rightarrow> string list" where
  "interleaver fast H i k c ident =
     [''    let interleaver'' @ num i @ '' <- mkScratchpadClientInterleaver(controllerReqPortVec'' @ num i @ '',''
        @ '' controllerRspPortVec'' @ num i @ '', '' @ ident @ '', getControllerIdxFromAddr'' @ num i
        @ (if fast then '', True, '' @ clock_info fast @ '');'' else '', False);''),
      find_client H k c]
     @ (if fast then
          [''    connectOutToInDualClock(client'' @ num k @ ''.outgoing, interleaver'' @ num i @ ''.clientReqIncoming, ''
             @ clock_info fast @ '');'',
           ''    connectOutToInWithIdxDualClock(interleaver'' @ num i @ ''.clientRspOutgoing, client'' @ num k @ ''.incoming, ''
             @ ident @ '', '' @ clock_info fast @ '');'',
           []]
        else
          [''    connectOutToIn(client'' @ num k @ ''.outgoing, interleaver'' @ num i @ ''.clientReqIncoming, 0);'',
           ''    connectOutToInWithIdx(interleaver'' @ num i @ ''.clientRspOutgoing, client'' @ num k @ ''.incoming, ''
             @ ident @ '', 0);'',
           []])"

definition interleaved_client ::
  "bool \<Rightarrow> bool \<Rightarrow> sp_store \<Rightarrow> scratchpad_platform \<Rightarrow> nat list \<Rightarrow> nat \<times> nat \<Rightarrow> string list res" where
  "interleaved_client fast interleaveAll H p bits ic =
     (case ic of (i, c) \<Rightarrow>
       bindR (interleave_portions interleaveAll H (spp_id p) i (bits ! i) c) (\<lambda>(params, portions).
       bindR (select_function i (bits ! i) (length (sp_partition (H c))) portions) (\<lambda>sel.
       bindR (interleaved_ports H i c) (\<lambda>ports.
       bindR (remapped_id H c) (\<lambda>ident.
         Inr (params @ sel @ ports @ interleaver fast H i (i + length (restClients p)) c ident))))))"

definition interleaved_text :: "bool \<Rightarrow> bool \<Rightarrow> sp_store \<Rightarrow> scratchpad_platform \<Rightarrow> nat list \<Rightarrow> string list res" where
  "interleaved_text fast interleaveAll H p bits =
     bindR (mapR (interleaved_client fast interleaveAll H p bits) (enumerate 0 (partitionedClients p))) (\<lambda>ls.
       Inr ([[], ''    // Connect interleaved service clients''] @ concat ls))"

section \<open>The file\<close>

definition include_line :: "string \<Rightarrow> string" where
  "include_line file = ''`include '' @ quoted file"

definition wrapper_includes :: "scratchpad_platform \<Rightarrow> (string \<times> string) list \<Rightarrow> bool \<Rightarrow> string list" where
  "wrapper_includes p remapIds fast =
     [''// Generated by build pipeline (lim_memory)'',
      [],
      include_line ''awb/provides/scratchpad_memory_common.bsh'',
      include_line ''awb/provides/scratchpad_memory_service.bsh'',
      include_line ''awb/provides/soft_connections.bsh'',
      include_line ''awb/provides/soft_connections_alg.bsh'',
      include_line ''awb/provides/clocks_device.bsh'']
     @ (if remapIds \<noteq> [] \<or> fast then [include_line ''awb/provides/fpga_components.bsh''] else [])
     @ (if networkType p = ''tree'' \<or> networkType p = ''crossbar''
        then [include_line ''awb/provides/common_services.bsh''] else [])
     @ [[], ''import Vector::*;'', []]"

definition wrapper_head :: "nat \<Rightarrow> nat list \<Rightarrow> string list" where
  "wrapper_head n bits =
     [''module [CONNECTED_MODULE] connectScratchpadNetwork#(CLOCKS_DRIVER clocksDriver)'',
      ''    // Interface:'']
     @ (if bits \<noteq> [] then
          [''    ()'',
           ''    provisos(NumAlias#(TLog#('' @ num n @ ''), t_CTRLR_IDX_SZ),'',
           ''             Alias#(UInt#(t_CTRLR_IDX_SZ), t_CTRLR_IDX),'',
           ''             Bits#(SCRATCHPAD_MEM_ADDRESS, t_ADDR_SZ),'',
           ''             Add#(b_, '' @ num (Max (set bits)) @ '', t_ADDR_SZ));'',
           []]
        else [''    ();'', []])"

definition wrapper_clock :: "bool \<Rightarrow> string list" where
  "wrapper_clock fast =
     (if fast then
        [''    let networkClockPackage <- mkUserClockFromFrequency(`CRYSTAL_CLOCK_FREQ,'',
         ''                                                        `MODEL_CLOCK_FREQ*16,'',
         ''                                                        clocked_by clocksDriver.rawClock,'',
         ''                                                        reset_by   clocksDriver.rawReset);'',
         [],
         ''    Clock networkClock = networkClockPackage.clk;'',
         ''    Reset networkReset = networkClockPackage.rst;'',
         [],
         ''    MakeResetIfc soft_reset_wrapper <- mkReset(64, True, networkClock,'',
         ''                                               clocked_by networkClock,'',
         ''                                               reset_by   networkReset);'',
         ''    Reset softReset = soft_reset_wrapper.new_rst;'',
         ''    let finalReset <- mkResetFanout(softReset, clocked_by networkClock);'',
         []]
      else [])
     @ [''    let clients <- getUnmatchedServiceClients();'',
        ''    let servers <- getUnmatchedServiceServers();'',
        []]"

definition wrapper_sizes :: "scratchpad_platform \<Rightarrow> string list res" where
  "wrapper_sizes p =
     (if networkType p \<noteq> ''tree'' then
        bindR (nth_res (spp_controllers p) 0) (\<lambda>s.
          Inr [''    NumTypeParam#('' @ num (req_bitwidth s) @ '') reqSz = ?;'',
               ''    NumTypeParam#('' @ num (resp_bitwidth s) @ '') rspSz = ?;'',
               ''    NumTypeParam#('' @ num (idx_bitwidth s) @ '') idxSz = ?;'',
               []])
      else Inr [])"

definition wrapper_params :: "scratchpad_platform \<Rightarrow> bool \<Rightarrow> bool \<Rightarrow> string list" where
  "wrapper_params p dyn interleaveAll =
     (if networkType p = ''crossbar'' \<and> (dyn \<or> interleaveAll) then
        [''    PARAMETER_NODE paramNode <- mkDynamicParameterNode();'',
         []]
      else if networkType p = ''tree'' then
        [''    PARAMETER_NODE paramNode <- mkDynamicParameterNode();'',
         ''    Param#(1) prioritySelEnParam <- mkDynamicParameterFromStringInitialized(''
           @ quoted (''LEAP_SCRATCHPAD_PLATFORM_'' @ num (spp_id p) @ ''_NETWORK_PRIORITY_SEL_EN'') @ '', 1'd1, paramNode);'',
         ''    Param#(1) bandwidthSelEnParam <- mkDynamicParameterFromStringInitialized(''
           @ quoted (''LEAP_SCRATCHPAD_PLATFORM_'' @ num (spp_id p) @ ''_NETWORK_BANDWIDTH_SEL_EN'') @ '', 1'd1, paramNode);'',
         ''    let prioritySelEn = (prioritySelEnParam == 1);'',
         ''    let bandwidthSelEn = (bandwidthSelEnParam == 1);'',
         []]
      else [])"

text \<open>
  One controller.  The state is the store, the text of the module and the bodies of the ring
  modules that follow it.
\<close>

type_synonym wrapper_state = "sp_store \<times> string list \<times> string list"

definition controller_network ::
  "bool \<Rightarrow> bool \<Rightarrow> scratchpad_platform \<Rightarrow> nat \<Rightarrow> sp_store \<Rightarrow> (net_text \<times> string list) res" where
  "controller_network fast dyn p i H =
     (let clients = clients_of H p i; plain = (\<lambda>r. bindR r (\<lambda>t. Inr (t, [])))
      in if length clients = 1 then plain (single_client H i (hd clients))
         else if networkType p = ''ring'' then plain (Inr (flat_ring H i clients))
         else if networkType p = ''tree'' then plain (tree_network fast dyn p i H)
         else if networkType p = ''hring'' then ring_network p i H clients
         else if networkType p = ''crossbar'' then plain (crossbar_network dyn p i H clients)
         else Inr ((H, []), []))"

definition controller_text ::
  "bool \<Rightarrow> bool \<Rightarrow> scratchpad_platform \<Rightarrow> wrapper_state \<Rightarrow> nat \<Rightarrow> wrapper_state res" where
  "controller_text fast dyn p st i =
     (case st of (H, ls, body) \<Rightarrow>
       bindR (controller_network fast dyn p i H) (\<lambda>((H', net), ring_body).
         Inr (H',
              ls @ [''    let server'' @ num i @ '' <- findMatchingServiceServer(servers, ''
                    @ quoted (svc_name (spp_controllers p ! i)) @ '');''] @ net,
              body @ ring_body)))"

definition genRemapWrapper ::
  "sp_store \<Rightarrow> scratchpad_platform \<Rightarrow> (string \<times> string) list \<Rightarrow> bool \<Rightarrow> bool \<Rightarrow> bool \<Rightarrow> net_text res" where
  "genRemapWrapper H p remapIds fast dyn interleaveAll =
     bindR (mapR (\<lambda>c. addr_bits interleaveAll (H c)) (partitionedClients p)) (\<lambda>bits.
     bindR (wrapper_sizes p) (\<lambda>sizes.
     bindR (foldR (controller_text fast dyn p) (H, [], []) [0..<length (spp_controllers p)]) (\<lambda>(H', nets, body).
     bindR (if restClients p \<noteq> [] \<and> networkType p \<noteq> ''crossbar'' then rest_text fast H' (restClients p) else Inr []) (\<lambda>rest.
     bindR (if partitionedClients p \<noteq> [] then interleaved_text fast interleaveAll H' p bits else Inr []) (\<lambda>inter.
       Inr (H', wrapper_includes p remapIds fast @ wrapper_head (length (spp_controllers p)) bits @ wrapper_clock fast
         @ sizes @ wrapper_params p dyn interleaveAll @ nets @ rest @ inter @ [''endmodule'', []] @ body))))))"

definition createDefaultRemapFile :: "string list" where
  "createDefaultRemapFile =
     [''// Generated by build pipeline (lim_memory)'',
      [],
      include_line ''awb/provides/clocks_device.bsh'',
      [],
      ''module connectScratchpadNetwork#(CLOCKS_DRIVER clocksDriver)();'',
      ''endmodule'',
      []]"

section \<open>Addresses of an interleaved client\<close>

text \<open>The controller the generated function selects for the low address bits \<open>a\<close>.\<close>

definition selected :: "nat \<Rightarrow> int list \<Rightarrow> int \<Rightarrow> nat" where
  "selected bits parts a =
     (case filter (\<lambda>j. a < threshold bits parts j) [0..<length parts - 1] of
        [] \<Rightarrow> length parts - 1 | j # _ \<Rightarrow> j)"

definition first_addr :: "nat \<Rightarrow> int list \<Rightarrow> nat \<Rightarrow> int" where
  "first_addr bits parts j = (if j = 0 then 0 else threshold bits parts (j - 1))"

lemma take_sum_mono:
  assumes "\<forall>x \<in> set parts. (0::int) \<le> x" and "i \<le> j"
  shows "sum_list (take i parts) \<le> sum_list (take j parts)"
proof -
  have "take j parts = take i parts @ take (j - i) (drop i parts)"
    using assms(2) by (metis le_add_diff_inverse take_add)
  moreover have "0 \<le> sum_list (take (j - i) (drop i parts))"
    by (rule sum_list_nonneg) (use assms(1) in \<open>auto dest: in_set_takeD in_set_dropD\<close>)
  ultimately show ?thesis by simp
qed

lemma threshold_mono:
  assumes "\<forall>x \<in> set parts. 0 \<le> x" and "0 < sum_list parts" and "i \<le> j"
  shows "threshold bits parts i \<le> threshold bits parts j"
  unfolding threshold_def using assms by (intro cdiv_mono mult_left_mono take_sum_mono) auto

lemma threshold_last:
  assumes "0 < sum_list parts"
  shows "threshold bits parts (length parts - 1) = 2 ^ bits"
proof -
  have "parts \<noteq> []" using assms by auto
  then have "take (length parts - 1 + 1) parts = parts" by simp
  moreover have "cdiv (2 ^ bits * sum_list parts) (sum_list parts) = 2 ^ bits"
  proof (rule antisym)
    show "cdiv (2 ^ bits * sum_list parts) (sum_list parts) \<le> 2 ^ bits" using assms by (simp add: cdiv_le_iff)
    have "\<not> cdiv (2 ^ bits * sum_list parts) (sum_list parts) \<le> 2 ^ bits - 1"
      unfolding cdiv_le_iff [OF assms] using assms by (simp add: algebra_simps)
    then show "2 ^ bits \<le> cdiv (2 ^ bits * sum_list parts) (sum_list parts)" by simp
  qed
  ultimately show ?thesis by (simp add: threshold_def)
qed

lemma first_addr_mono:
  assumes "\<forall>x \<in> set parts. 0 \<le> x" and "0 < sum_list parts"
  shows "first_addr bits parts j \<le> threshold bits parts j"
proof (cases j)
  case 0
  have "0 \<le> sum_list (take 1 parts)" by (rule sum_list_nonneg) (use assms(1) in \<open>auto dest: in_set_takeD\<close>)
  with 0 assms(2) show ?thesis by (simp add: first_addr_def threshold_def cdiv_nonneg)
qed (use threshold_mono [OF assms] in \<open>simp add: first_addr_def\<close>)

lemma selected_eq:
  assumes nn: "\<forall>x \<in> set parts. 0 \<le> x" and S: "0 < sum_list parts" and j: "j < length parts"
    and a: "first_addr bits parts j \<le> a" "a < threshold bits parts j"
  shows "selected bits parts a = j"
proof -
  let ?P = "\<lambda>j. a < threshold bits parts j"
  have low: "filter ?P [0..<j] = []"
  proof (rule filter_False, rule ballI)
    fix i
    assume "i \<in> set [0..<j]"
    then have "i \<le> j - 1" and "j \<noteq> 0" by auto
    with threshold_mono [OF nn S this(1), of bits] a(1) show "\<not> ?P i" by (simp add: first_addr_def)
  qed
  show ?thesis
  proof (cases "j < length parts - 1")
    case True
    then have "[0..<length parts - 1] = [0..<j] @ j # [Suc j..<length parts - 1]"
      using upt_add_eq_append [of 0 j "length parts - 1 - j"] by (simp add: upt_conv_Cons)
    with low a(2) show ?thesis by (simp add: selected_def)
  next
    case False
    then have "j = length parts - 1" using j by simp
    with low show ?thesis by (simp add: selected_def)
  qed
qed

lemma addr_exists:
  assumes S: "0 < sum_list parts" and a: "0 \<le> a" "a < 2 ^ bits"
  shows "\<exists>j<length parts. first_addr bits parts j \<le> a \<and> a < threshold bits parts j"
proof -
  let ?P = "\<lambda>j. a < threshold bits parts j"
  have ex: "?P (length parts - 1)" using a(2) threshold_last [OF S] by simp
  define j where "j = (LEAST j. ?P j)"
  have "?P j" unfolding j_def by (rule LeastI [of ?P]) (rule ex)
  moreover have le: "j \<le> length parts - 1" unfolding j_def by (rule Least_le) (rule ex)
  moreover have "first_addr bits parts j \<le> a"
  proof (cases j)
    case (Suc i)
    then have "\<not> ?P i" using not_less_Least [of i ?P] by (simp add: j_def)
    with Suc show ?thesis by (simp add: first_addr_def)
  qed (simp add: first_addr_def a(1))
  moreover have "parts \<noteq> []" using S by auto
  ultimately show ?thesis by (metis Suc_pred' le_imp_less_Suc length_greater_0_conv)
qed

lemma cdiv_bounds: "0 < b \<Longrightarrow> a \<le> cdiv a b * b \<and> cdiv a b * b < a + b"
  using cdiv_le_iff [of b a "cdiv a b"] cdiv_le_iff [of b a "cdiv a b - 1"] by (simp add: algebra_simps)

lemma share_bounds:
  assumes S: "0 < sum_list parts" and j: "j < length parts"
  shows "\<bar>(threshold bits parts j - first_addr bits parts j) * sum_list parts - 2 ^ bits * parts ! j\<bar> < sum_list parts"
proof -
  let ?S = "sum_list parts" and ?W = "2 ^ bits :: int"
  have t: "?W * sum_list (take (j + 1) parts) \<le> threshold bits parts j * ?S"
    "threshold bits parts j * ?S < ?W * sum_list (take (j + 1) parts) + ?S"
    unfolding threshold_def using cdiv_bounds [OF S] by blast+
  have f: "?W * sum_list (take j parts) \<le> first_addr bits parts j * ?S"
    "first_addr bits parts j * ?S < ?W * sum_list (take j parts) + ?S"
  proof -
    have "?W * sum_list (take j parts) \<le> first_addr bits parts j * ?S \<and> first_addr bits parts j * ?S < ?W * sum_list (take j parts) + ?S"
    proof (cases j)
      case 0
      with S show ?thesis by (simp add: first_addr_def)
    next
      case (Suc i)
      then have "first_addr bits parts j = cdiv (?W * sum_list (take j parts)) ?S"
        by (simp add: first_addr_def threshold_def)
      with cdiv_bounds [OF S] show ?thesis by simp
    qed
    then show "?W * sum_list (take j parts) \<le> first_addr bits parts j * ?S"
      "first_addr bits parts j * ?S < ?W * sum_list (take j parts) + ?S" by blast+
  qed
  have "sum_list (take (j + 1) parts) = sum_list (take j parts) + parts ! j"
    using j by (simp add: take_Suc_conv_app_nth)
  then have "?W * sum_list (take (j + 1) parts) = ?W * sum_list (take j parts) + ?W * parts ! j"
    by (simp add: distrib_left)
  with t f show ?thesis by (simp add: left_diff_distrib abs_less_iff)
qed

lemma share_positive:
  assumes S: "0 < sum_list parts" and j: "j < length parts" and p: "0 < parts ! j" and W: "sum_list parts \<le> 2 ^ bits"
  shows "first_addr bits parts j < threshold bits parts j"
proof (rule ccontr)
  assume "\<not> ?thesis"
  then have "(threshold bits parts j - first_addr bits parts j) * sum_list parts \<le> 0"
    using S by (simp add: mult_le_0_iff)
  moreover have "2 ^ bits * 1 \<le> 2 ^ bits * parts ! j"
    using p by (intro mult_left_mono) auto
  ultimately show False using share_bounds [OF S j, of bits] W by linarith
qed

text \<open>
  C33: The generated address selection of an interleaved client splits the \<open>2 ^ bits\<close> low addresses
  into one interval per controller: each gets its share rounded by less than one address, and every
  controller with a positive share gets at least one.
\<close>

theorem interleave_split:
  assumes "addr_bits False s = Inr bits" and "\<forall>x \<in> set (sp_partition s). 0 \<le> x" and "j < length (sp_partition s)"
  shows "{a. 0 \<le> a \<and> a < 2 ^ bits \<and> selected bits (sp_partition s) a = j}
      = {first_addr bits (sp_partition s) j..<threshold bits (sp_partition s) j}
    \<and> \<bar>(threshold bits (sp_partition s) j - first_addr bits (sp_partition s) j) * sum_list (sp_partition s)
        - 2 ^ bits * sp_partition s ! j\<bar> < sum_list (sp_partition s)
    \<and> (0 < sp_partition s ! j \<longrightarrow> first_addr bits (sp_partition s) j < threshold bits (sp_partition s) j)"
proof -
  let ?p = "sp_partition s"
  have S: "0 < sum_list ?p" and bits: "bits = clog2 (nat (sum_list ?p))"
    using assms(1) by (auto simp: addr_bits_def split: if_splits)
  have W: "sum_list ?p \<le> 2 ^ bits"
  proof -
    have "nat (sum_list ?p) \<le> 2 ^ bits" unfolding bits by (rule le_pow_clog2)
    then have "int (nat (sum_list ?p)) \<le> int (2 ^ bits)" by (rule zle_int [THEN iffD2])
    then show ?thesis using S by simp
  qed
  have range: "0 \<le> first_addr bits ?p j" "threshold bits ?p j \<le> 2 ^ bits"
  proof -
    have "0 \<le> first_addr bits ?p 0" by (simp add: first_addr_def)
    also have "\<dots> \<le> threshold bits ?p 0" by (rule first_addr_mono [OF assms(2) S])
    finally have "0 \<le> threshold bits ?p 0" .
    then show "0 \<le> first_addr bits ?p j"
      using threshold_mono [OF assms(2) S, of 0 "j - 1" bits] by (simp add: first_addr_def)
    have "threshold bits ?p j \<le> threshold bits ?p (length ?p - 1)"
      using assms(3) by (intro threshold_mono [OF assms(2) S]) simp
    then show "threshold bits ?p j \<le> 2 ^ bits" using threshold_last [OF S] by simp
  qed
  have "{a. 0 \<le> a \<and> a < 2 ^ bits \<and> selected bits ?p a = j} = {first_addr bits ?p j..<threshold bits ?p j}"
  proof (intro set_eqI iffI)
    fix a
    assume a: "a \<in> {a. 0 \<le> a \<and> a < 2 ^ bits \<and> selected bits ?p a = j}"
    then obtain k where k: "k < length ?p" "first_addr bits ?p k \<le> a" "a < threshold bits ?p k"
      using addr_exists [OF S] by blast
    with selected_eq [OF assms(2) S k] a show "a \<in> {first_addr bits ?p j..<threshold bits ?p j}" by simp
  next
    fix a
    assume "a \<in> {first_addr bits ?p j..<threshold bits ?p j}"
    with selected_eq [OF assms(2) S assms(3), of bits a] range
    show "a \<in> {a. 0 \<le> a \<and> a < 2 ^ bits \<and> selected bits ?p a = j}" by auto
  qed
  with share_bounds [OF S assms(3)] share_positive [OF S assms(3) _ W] show ?thesis by blast
qed

definition split_example :: scratchpad where
  "split_example = (mk_Scratchpad ''1'' 0 ''c'' ''FPGA0'')\<lparr>sp_partition := [3, 2, 1]\<rparr>"

theorem interleave_split_witness:
  "{a. 0 \<le> a \<and> a < 2 ^ 3 \<and> selected 3 [3, 2, 1] a = 1} = {first_addr 3 [3, 2, 1] 1..<threshold 3 [3, 2, 1] 1}
    \<and> first_addr 3 [3, 2, 1] 1 = 4 \<and> threshold 3 [3, 2, 1] 1 = 7"
proof -
  have p: "sp_partition split_example = [3, 2, 1]" by (simp add: split_example_def)
  have "addr_bits False split_example = Inr 3"
    by (simp add: addr_bits_def p) code_simp
  from interleave_split [OF this, of 1] p
  have "{a. 0 \<le> a \<and> a < 2 ^ 3 \<and> selected 3 [3, 2, 1] a = 1} = {first_addr 3 [3, 2, 1] 1..<threshold 3 [3, 2, 1] 1}" by simp
  moreover have "first_addr 3 [3, 2, 1] 1 = 4" "threshold 3 [3, 2, 1] 1 = 7"
    by (simp_all add: first_addr_def threshold_def cdiv_def)
  ultimately show ?thesis by blast
qed

text \<open>
  With one controller the equal portions of \<open>interleaveAll\<close> are no portions at all and the
  selection function cannot be written: the code raises \<open>IndexError\<close>.
\<close>

lemma interleave_all_single:
  assumes "controllerIdx (H c) = [k]" and "sp_partition (H c) = [1]"
  shows "interleaved_client fast True H p bits (i, c) = Inl IndexError"
  using assms by (simp add: interleaved_client_def interleave_portions_def select_function_def select_case_def
      nth_res_def Let_def)

end
