(* ===== verification/RemapTop.thy ===== *)
theory RemapTop
  imports RemapWrapper
begin

text \<open>
  \<^verbatim>\<open>remapScratchpad.py\<close>: the choice of the network (\<open>remapClientIds\<close>) and the function that takes
  the services of the modules to one Bluespec file per platform (\<open>remapScratchpadConnections\<close>).
  The lemmas follow flat rings, with and without statistics (the defaults of \<^verbatim>\<open>lim-memory.awb\<close> enable them),
  through every step and give conditions under which no step fails and the file of every platform is written.
\<close>

section \<open>Renaming\<close>

definition remapClientIds ::
  "gurobi \<Rightarrow> (nat list \<Rightarrow> nat list) \<Rightarrow> sp_store \<Rightarrow> scratchpad_platform list \<Rightarrow> nat \<Rightarrow> nat \<Rightarrow> nat \<Rightarrow> ring_result run" where
  "remapClientIds gurobi shuffle H platforms remapMode treeKary treeMode =
     (if remapMode = 2 \<or> remapMode = 3 then buildScratchpadTrees gurobi shuffle H platforms treeKary treeMode
      else if remapMode = 4 then Some (Inr (H, [], map (\<lambda>p. p\<lparr>networkType := ''crossbar''\<rparr>) platforms))
      else
        let hierarchy = sum_list (map (\<lambda>p. sum_list (map (\<lambda>c. level (H c)) (spp_clients p))) platforms)
        in if hierarchy = 0 \<or> remapMode = 1
           then Some (Inr (H, [], map (\<lambda>p. p\<lparr>networkType := ''ring''\<rparr>) platforms))
           else Some (Inr (buildHierarchicalRing H platforms)))"

section \<open>From services to files\<close>

text \<open>A module is given by its list of services.\<close>

definition scratchpad_services :: "bool \<Rightarrow> li_service list list \<Rightarrow> li_service list" where
  "scratchpad_services client liModules =
     filter (\<lambda>s. starts_with ''Scratchpad_'' (svc_name s) \<and> svc_isClient s = client) (concat liModules)"

definition assign_platform ::
  "(nat list \<Rightarrow> nat list) \<Rightarrow> string list list \<Rightarrow> nat \<Rightarrow> bool \<Rightarrow> sp_store \<times> scratchpad_platform list \<Rightarrow> scratchpad_platform
     \<Rightarrow> (sp_store \<times> scratchpad_platform list) res" where
  "assign_platform shuffle stats remapMode interleaveAll st p =
     (case st of (H, ps) \<Rightarrow>
       bindR (assignScratchpadClients shuffle (length (spp_controllers p)) H (spp_clients p) stats remapMode interleaveAll)
         (\<lambda>(H', clients, parted, rest).
           Inr (H', ps @ [p\<lparr>spp_clients := clients, partitionedClients := parted, restClients := rest\<rparr>])))"

definition remap_file ::
  "(string \<times> string) list \<Rightarrow> nat \<Rightarrow> bool \<Rightarrow> bool \<Rightarrow> sp_store \<times> (string \<times> string list) list \<Rightarrow> scratchpad_platform
     \<Rightarrow> (sp_store \<times> (string \<times> string list) list) res" where
  "remap_file remapIds remapMode dyn interleaveAll st p =
     (case st of (H, files) \<Rightarrow>
       bindR (if spp_clients p \<noteq> [] then genRemapWrapper H p remapIds (remapMode = 3) dyn interleaveAll
              else Inr (H, createDefaultRemapFile))
         (\<lambda>(H', out). Inr (H', files @ [(remapFile p, out)])))"

definition remapScratchpadConnections ::
  "gurobi \<Rightarrow> (nat list \<Rightarrow> nat list) \<Rightarrow> sp_store \<times> nat \<Rightarrow> li_service list list \<Rightarrow> scratchpad_platform list
     \<Rightarrow> string list list \<Rightarrow> nat \<Rightarrow> nat \<Rightarrow> nat \<Rightarrow> nat \<Rightarrow> nat \<Rightarrow> nat \<Rightarrow> (sp_store \<times> (string \<times> string list) list) run" where
  "remapScratchpadConnections gurobi shuffle Hn liModules platforms scratchpadStats remapMode treeKary treeMode
       dynBandwidthEn interleaveAll statsEn =
     (let stats = (if statsEn = 0 then [] else scratchpadStats)
      in bindO (Some (separateScratchpadConnections Hn (scratchpad_services True liModules)
                  (scratchpad_services False liModules) platforms)) (\<lambda>(H, _, ps).
         bindO (if sum_list (map (\<lambda>p. length (spp_clients p)) ps) > 0 then
                  bindO (Some (foldR (assign_platform shuffle stats remapMode (interleaveAll = 1)) (H, []) ps)) (\<lambda>(H1, ps1).
                    remapClientIds gurobi shuffle H1 ps1 remapMode treeKary treeMode)
                else Some (Inr (H, [], ps))) (\<lambda>(H2, remapIds, ps2).
         Some (foldR (remap_file remapIds remapMode (dynBandwidthEn = 1) (interleaveAll = 1)) (H2, []) ps2))))"

section \<open>Separation\<close>

definition fresh_client :: "scratchpad \<Rightarrow> bool" where
  "fresh_client s \<longleftrightarrow> controllerIdx s = [] \<and> sp_partition s = [] \<and> level s = 0 \<and> remappedIds s = [] \<and> 0 \<le> traffic s"

lemma fresh_flat: "fresh_client s \<Longrightarrow> flat_client n s"
  by (simp add: fresh_client_def flat_client_def)

definition same_platform :: "scratchpad_platform \<Rightarrow> scratchpad_platform \<Rightarrow> bool" where
  "same_platform p q \<longleftrightarrow> spp_name q = spp_name p \<and> remapFile q = remapFile p"

definition separated :: "scratchpad_platform list \<Rightarrow> nat \<Rightarrow> sp_store \<times> nat \<times> scratchpad_platform list \<Rightarrow> bool" where
  "separated platforms n0 st \<longleftrightarrow>
     (case st of (H, n, ps) \<Rightarrow>
        list_all2 same_platform platforms ps
      \<and> distinct (concat (map spp_clients ps))
      \<and> (\<forall>c \<in> set (concat (map spp_clients ps)). n0 \<le> c \<and> c < n \<and> fresh_client (H c)))"

lemma same_platform_refl [simp]: "same_platform p p"
  by (simp add: same_platform_def)

lemma distinct_concat_update:
  assumes "distinct (concat (map f ps))" and "i < length ps" and "f q = f (ps ! i) @ [x]" and "x \<notin> set (concat (map f ps))"
  shows "distinct (concat (map f (ps[i := q])))" and "set (concat (map f (ps[i := q]))) = insert x (set (concat (map f ps)))"
proof -
  have ps: "ps = take i ps @ ps ! i # drop (Suc i) ps" by (rule id_take_nth_drop [OF assms(2)])
  have ps': "ps[i := q] = take i ps @ q # drop (Suc i) ps" by (rule upd_conv_take_nth_drop [OF assms(2)])
  have c: "concat (map f ps) = concat (map f (take i ps)) @ f (ps ! i) @ concat (map f (drop (Suc i) ps))"
    by (subst ps) simp
  have c': "concat (map f (ps[i := q])) = concat (map f (take i ps)) @ (f (ps ! i) @ [x]) @ concat (map f (drop (Suc i) ps))"
    unfolding ps' by (simp add: assms(3))
  show "distinct (concat (map f (ps[i := q])))" using assms(1,4) unfolding c c' by auto
  show "set (concat (map f (ps[i := q]))) = insert x (set (concat (map f ps)))" unfolding c c' by auto
qed

lemma controllers_added:
  assumes "\<forall>s \<in> set cs. svc_platform s \<in> set names" and "length names = length ps"
  shows "\<exists>ps'. foldR (add_controller names) ps cs = Inr ps' \<and> list_all2 same_platform ps ps'
    \<and> map spp_clients ps' = map spp_clients ps
    \<and> (\<forall>i<length ps. length (spp_controllers (ps' ! i))
         = length (spp_controllers (ps ! i)) + length (filter (\<lambda>s. index_of names (svc_platform s) = Inr i) cs))"
  using assms(1)
proof (induction cs rule: rev_induct)
  case Nil
  then show ?case by (simp add: list_all2_refl)
next
  case (snoc s cs)
  then obtain ps' where IH: "foldR (add_controller names) ps cs = Inr ps'" "list_all2 same_platform ps ps'"
    "map spp_clients ps' = map spp_clients ps"
    "\<forall>i<length ps. length (spp_controllers (ps' ! i))
      = length (spp_controllers (ps ! i)) + length (filter (\<lambda>s. index_of names (svc_platform s) = Inr i) cs)" by auto
  obtain i where i: "index_of names (svc_platform s) = Inr i" "i < length ps'"
    using snoc.prems index_of_total [of "svc_platform s" names] index_of_Inr assms(2) list_all2_lengthD [OF IH(2)] by fastforce
  let ?q = "(ps' ! i)\<lparr>spp_controllers := spp_controllers (ps' ! i) @ [s]\<rparr>"
  have "foldR (add_controller names) ps (cs @ [s]) = Inr (ps'[i := ?q])"
    using IH(1) i(1) by (simp add: foldR_append add_controller_def)
  moreover have "list_all2 same_platform ps (ps'[i := ?q])"
    using IH(2) i(2) by (auto simp: list_all2_conv_all_nth nth_list_update same_platform_def)
  moreover have "map spp_clients (ps'[i := ?q]) = map spp_clients ps"
    using IH(3) by (simp add: map_update list_update_same_conv i(2)) (metis list_update_id map_update)
  moreover have "length (spp_controllers (ps'[i := ?q] ! k))
      = length (spp_controllers (ps ! k)) + length (filter (\<lambda>s. index_of names (svc_platform s) = Inr k) (cs @ [s]))"
    if "k < length ps" for k
    using that i IH(4) by (cases "k = i") simp_all
  ultimately show ?case by blast
qed

lemma clients_added:
  assumes "\<forall>s \<in> set cs. svc_platform s \<in> set names" and "length names = length platforms"
    and "separated platforms n0 (H, n, ps)" and "n0 \<le> n"
  shows "\<exists>H' n' ps'. foldR (add_scratchpad names) (H, n, ps) cs = Inr (H', n', ps') \<and> n0 \<le> n'
    \<and> separated platforms n0 (H', n', ps') \<and> map spp_controllers ps' = map spp_controllers ps"
  using assms(1)
proof (induction cs rule: rev_induct)
  case Nil
  with assms show ?case by simp
next
  case (snoc s cs)
  then obtain H1 n1 ps1 where IH: "foldR (add_scratchpad names) (H, n, ps) cs = Inr (H1, n1, ps1)" "n0 \<le> n1"
    "separated platforms n0 (H1, n1, ps1)" "map spp_controllers ps1 = map spp_controllers ps" by auto
  note sep = IH(3) [unfolded separated_def prod.case]
  obtain i where i: "index_of names (svc_platform s) = Inr i" "i < length ps1"
    using snoc.prems(1) index_of_total [of "svc_platform s" names] index_of_Inr assms(2) sep list_all2_lengthD by fastforce
  let ?q = "(ps1 ! i)\<lparr>spp_clients := spp_clients (ps1 ! i) @ [n1]\<rparr>"
  let ?H = "H1(n1 := copy_client s n1)"
  have new: "n1 \<notin> set (concat (map spp_clients ps1))" using sep by auto
  have q: "spp_clients ?q = spp_clients (ps1 ! i) @ [n1]" by simp
  note d = distinct_concat_update [of spp_clients ps1 i ?q n1, OF _ i(2) q new]
  have "foldR (add_scratchpad names) (H, n, ps) (cs @ [s]) = Inr (?H, n1 + 1, ps1[i := ?q])"
    using IH(1) i(1) by (simp add: foldR_append add_scratchpad_def)
  moreover have "list_all2 same_platform platforms (ps1[i := ?q])"
    using sep i(2) by (auto simp: list_all2_conv_all_nth nth_list_update same_platform_def)
  moreover have "\<forall>c \<in> set (concat (map spp_clients (ps1[i := ?q]))). n0 \<le> c \<and> c < n1 + 1 \<and> fresh_client (?H c)"
  proof
    fix c
    assume "c \<in> set (concat (map spp_clients (ps1[i := ?q])))"
    then have "c = n1 \<or> c \<in> set (concat (map spp_clients ps1))" using d(2) sep by blast
    moreover have "fresh_client (copy_client s n1)" by (simp add: fresh_client_def copy_client_def mk_Scratchpad_def)
    ultimately show "n0 \<le> c \<and> c < n1 + 1 \<and> fresh_client (?H c)"
      using sep IH(2) new by (cases "c = n1") fastforce+
  qed
  moreover have "map spp_controllers (ps1[i := ?q]) = map spp_controllers ps"
    using IH(4) by (simp add: map_update list_update_same_conv i(2)) (metis list_update_id map_update)
  ultimately show ?case
    using IH(2) d(1) sep by (simp add: separated_def del: map_update)
qed

definition servers_on :: "li_service list \<Rightarrow> scratchpad_platform \<Rightarrow> nat" where
  "servers_on controllers p = length (filter (\<lambda>s. svc_platform s = spp_name p) controllers)"

lemma separate_ok:
  assumes fresh: "\<forall>p \<in> set platforms. spp_clients p = [] \<and> spp_controllers p = []"
    and names: "\<forall>s \<in> set clients \<union> set controllers. svc_platform s \<in> spp_name ` set platforms"
    and dist: "distinct (map spp_name platforms)"
  shows "\<exists>H' n' ps. separateScratchpadConnections (H, n) clients controllers platforms = Inr (H', n', ps)
    \<and> separated platforms n (H', n', ps)
    \<and> list_all2 (\<lambda>p q. length (spp_controllers q) = servers_on controllers p) platforms ps"
proof -
  let ?names = "map spp_name platforms"
  from controllers_added [of controllers ?names platforms] names obtain ps where
    c: "foldR (add_controller ?names) platforms controllers = Inr ps" "list_all2 same_platform platforms ps"
      "map spp_clients ps = map spp_clients platforms"
      "\<forall>i<length platforms. length (spp_controllers (ps ! i)) = length (spp_controllers (platforms ! i))
        + length (filter (\<lambda>s. index_of ?names (svc_platform s) = Inr i) controllers)" by auto
  have "\<forall>p \<in> set ps. spp_clients p = []"
  proof
    fix p
    assume "p \<in> set ps"
    then have "spp_clients p \<in> set (map spp_clients ps)" by simp
    then show "spp_clients p = []" unfolding c(3) using fresh by auto
  qed
  then have "concat (map spp_clients ps) = []" by simp
  with c(2) have "separated platforms n (H, n, ps)" by (simp only: separated_def prod.case list.set ball_empty distinct.simps simp_thms)
  from clients_added [OF _ _ this, of clients ?names] names obtain H' n' ps' where
    a: "foldR (add_scratchpad ?names) (H, n, ps) clients = Inr (H', n', ps')"
      "separated platforms n (H', n', ps')" "map spp_controllers ps' = map spp_controllers ps" by auto
  have len: "length ps = length platforms" "length ps' = length ps"
    using list_all2_lengthD [OF c(2)] map_eq_imp_length_eq [OF a(3)] by simp_all
  have "length (spp_controllers (ps' ! i)) = servers_on controllers (platforms ! i)" if i: "i < length platforms" for i
  proof -
    have "index_of ?names x = Inr i \<longleftrightarrow> x = ?names ! i" for x
      using index_of_Inr [of ?names x i] index_of_nth [OF dist, of i] i by auto
    then have "length (spp_controllers (ps ! i)) = servers_on controllers (platforms ! i)"
      using c(4) i fresh by (simp add: servers_on_def)
    then show ?thesis using arg_cong [OF a(3), of "\<lambda>xs. xs ! i"] i len by simp
  qed
  then have "list_all2 (\<lambda>p q. length (spp_controllers q) = servers_on controllers p) platforms ps'"
    using len by (simp add: list_all2_conv_all_nth)
  then show ?thesis using c(1) a by (auto simp: separateScratchpadConnections_def Let_def)
qed

section \<open>Flat rings\<close>

text \<open>A client assigned to controllers, without level and renaming, and the interleaved ones with their shares.\<close>

definition ring_placed :: "nat \<Rightarrow> scratchpad \<Rightarrow> bool" where
  "ring_placed n s \<longleftrightarrow> controllerIdx s \<noteq> [] \<and> set (controllerIdx s) \<subseteq> {..<n} \<and> level s = 0 \<and> remappedIds s = []"

definition platform_placed :: "sp_store \<Rightarrow> scratchpad_platform \<Rightarrow> bool" where
  "platform_placed H p \<longleftrightarrow> spp_controllers p \<noteq> []
     \<and> (\<forall>c \<in> set (spp_clients p). ring_placed (length (spp_controllers p)) (H c))
     \<and> set (restClients p) \<subseteq> set (spp_clients p) \<and> set (partitionedClients p) \<subseteq> set (spp_clients p)
     \<and> (\<forall>c \<in> set (partitionedClients p). sp_partition (H c) \<noteq> [] \<and> 0 < sum_list (sp_partition (H c)))"

text \<open>The statistics in use can be read on every platform and assign no ring.\<close>

definition stats_flat :: "string list list \<Rightarrow> nat \<Rightarrow> nat \<Rightarrow> bool" where
  "stats_flat stats remapMode n \<longleftrightarrow> remapMode = 1 \<or> (\<forall>line \<in> set (concat stats). flat_line n line)"

lemma assign_flat:
  assumes n: "0 < n" and d: "distinct clients" and perm: "\<And>xs. mset (shuffle xs) = mset xs"
    and fresh: "\<forall>c \<in> set clients. fresh_client (H c)" and flat: "stats_flat stats remapMode n"
  shows "\<exists>H1 cs parted rest. assignScratchpadClients shuffle n H clients stats remapMode False = Inr (H1, cs, parted, rest)
    \<and> set cs = set clients \<and> set parted \<subseteq> set clients \<and> set rest \<subseteq> set clients \<and> distinct cs
    \<and> (\<forall>c \<in> set clients. ring_placed n (H1 c))
    \<and> (\<forall>c \<in> set parted. sp_partition (H1 c) \<noteq> [] \<and> 0 < sum_list (sp_partition (H1 c)))
    \<and> (\<forall>c. c \<notin> set clients \<longrightarrow> H1 c = H c)"
proof (cases "stats \<noteq> [] \<and> clients \<noteq> [] \<and> remapMode \<noteq> 1")
  case False
  from assign_groups [where shuffle = shuffle and H = H and stats = stats and interleaving = False and remapMode = remapMode,
      OF n d perm _ False] obtain H1 cs where
    g: "assignScratchpadClients shuffle n H clients stats remapMode False = Inr (H1, cs, [], cs)"
      "mset cs = mset clients" "\<forall>c \<in> set clients. \<exists>k<n. H1 c = (H c)\<lparr>controllerIdx := controllerIdx (H c) @ [k]\<rparr>"
      "\<forall>c. c \<notin> set clients \<longrightarrow> H1 c = H c" by auto
  have "ring_placed n (H1 c)" if c: "c \<in> set clients" for c
  proof -
    obtain k where "k < n" "H1 c = (H c)\<lparr>controllerIdx := controllerIdx (H c) @ [k]\<rparr>" using g(3) c by blast
    then show ?thesis using fresh c by (simp add: ring_placed_def fresh_client_def)
  qed
  moreover have "set cs = set clients" "distinct cs"
    using g(2) d by (metis mset_eq_setD, metis mset_eq_imp_distinct_iff)
  ultimately show ?thesis using g(1,4) by (intro exI [of _ H1] exI [of _ cs] exI [of _ "[]"] exI [of _ cs]) simp
next
  case True
  have lines: "\<forall>line \<in> set (concat stats). flat_line n line" using flat True by (simp add: stats_flat_def)
  have start: "\<forall>c \<in> set clients. flat_client n (H c)" using fresh fresh_flat by blast
  obtain H1 where H1: "parseStatsFile H clients stats = Inr H1" "\<forall>c \<in> set clients. flat_client n (H1 c)"
    using parseStatsFile_flat [OF lines start] by blast
  have kept: "c \<notin> set clients \<Longrightarrow> H1 c = H c" for c
    using parseStatsFile_kept [OF H1(1)] by (simp add: stats_kept_def)
  define M where "M = Max (insert 0 (traffic ` H1 ` set clients))"
  have M: "0 \<le> M" "\<forall>c \<in> set clients. stats_valid n (H1 c) \<and> traffic (H1 c) \<le> M"
    using H1(2) by (simp_all add: M_def stats_valid_def flat_client_def)
  obtain s cl parted rest where g: "bandwidthPartition n H clients stats = Inr (bw_store s, cl, parted, rest)"
    "mset cl = mset clients" "mset (parted @ rest) = mset clients" "balance_inv n M H1 (parted @ rest) s"
    "\<forall>c \<in> set parted. n > 1 \<and> sp_partition (H1 c) \<noteq> []"
    using bandwidthPartition_ok [OF n d H1(1) M(2,1)] by blast
  have sets: "set cl = set clients" "set parted \<union> set rest = set clients" "distinct cl"
    using g(2,3) d by (metis mset_eq_setD, metis mset_eq_setD set_append, metis mset_eq_imp_distinct_iff)
  have fields: "sp_partition (bw_store s c) = sp_partition (H1 c)" "level (bw_store s c) = level (H1 c)"
    "remappedIds (bw_store s c) = remappedIds (H1 c)" for c
    using arg_cong [OF balance_invD(8) [OF g(4), of c], of sp_partition] arg_cong [OF balance_invD(8) [OF g(4), of c], of level]
      arg_cong [OF balance_invD(8) [OF g(4), of c], of remappedIds] by simp_all
  have "ring_placed n (bw_store s c)" if c: "c \<in> set clients" for c
  proof -
    have pl: "placed n (bw_store s c)" using balance_invD(6) [OF g(4), of c] c sets(2) by auto
    have "shares n (bw_store s c) \<noteq> []" by (auto simp: shares_def client_bandwidth_def)
    then have "controllerIdx (bw_store s c) \<noteq> []" using pl by (metis placed_def length_0_conv)
    then show ?thesis using pl H1(2) c by (simp add: ring_placed_def placed_def flat_client_def fields)
  qed
  moreover have "sp_partition (bw_store s c) \<noteq> [] \<and> 0 < sum_list (sp_partition (bw_store s c))" if "c \<in> set parted" for c
    using g(5) that H1(2) sets(2) by (auto simp: flat_client_def fields)
  moreover have "bw_store s c = H c" if "c \<notin> set clients" for c
    using balance_invD(7) [OF g(4), of c] kept [OF that] that sets(2) by auto
  moreover have "assignScratchpadClients shuffle n H clients stats remapMode False = Inr (bw_store s, cl, parted, rest)"
    using True g(1) by (simp add: assignScratchpadClients_def)
  ultimately show ?thesis using sets by (intro exI [of _ "bw_store s"] exI [of _ cl] exI [of _ parted] exI [of _ rest]) auto
qed

lemma assign_platforms:
  assumes perm: "\<And>xs. mset (shuffle xs) = mset xs"
    and "distinct (concat (map spp_clients ps))" and "\<forall>c \<in> set (concat (map spp_clients ps)). fresh_client (H c)"
    and "\<forall>p \<in> set ps. spp_controllers p \<noteq> [] \<and> stats_flat stats remapMode (length (spp_controllers p))"
  shows "\<exists>H' ps'. foldR (assign_platform shuffle stats remapMode False) (H, acc) ps = Inr (H', acc @ ps')
    \<and> list_all2 same_platform ps ps' \<and> (\<forall>p \<in> set ps'. platform_placed H' p)
    \<and> (\<forall>c. c \<notin> set (concat (map spp_clients ps)) \<longrightarrow> H' c = H c)"
  using assms(2-4)
proof (induction ps arbitrary: H acc)
  case Nil
  then show ?case by simp
next
  case (Cons p ps)
  let ?n = "length (spp_controllers p)"
  have n: "0 < ?n" and d: "distinct (spp_clients p)" and fr: "\<forall>c \<in> set (spp_clients p). fresh_client (H c)"
    and fl: "stats_flat stats remapMode ?n" using Cons.prems by auto
  from assign_flat [OF n d perm fr fl] obtain H1 cs parted rest where
    g: "assignScratchpadClients shuffle ?n H (spp_clients p) stats remapMode False = Inr (H1, cs, parted, rest)"
      "set cs = set (spp_clients p)" "set parted \<subseteq> set (spp_clients p)" "set rest \<subseteq> set (spp_clients p)"
      "\<forall>c \<in> set (spp_clients p). ring_placed ?n (H1 c)"
      "\<forall>c \<in> set parted. sp_partition (H1 c) \<noteq> [] \<and> 0 < sum_list (sp_partition (H1 c))"
      "\<forall>c. c \<notin> set (spp_clients p) \<longrightarrow> H1 c = H c" by blast
  let ?p = "p\<lparr>spp_clients := cs, partitionedClients := parted, restClients := rest\<rparr>"
  have disj: "set (spp_clients p) \<inter> set (concat (map spp_clients ps)) = {}" using Cons.prems(1) by auto
  have "fresh_client (H1 c)" if "c \<in> set (concat (map spp_clients ps))" for c
  proof -
    have "c \<notin> set (spp_clients p)" using that disj by blast
    moreover have "fresh_client (H c)" using Cons.prems(2) that by simp
    ultimately show ?thesis using g(7) by simp
  qed
  with Cons.IH [of H1 "acc @ [?p]"] Cons.prems obtain H' ps' where
    IH: "foldR (assign_platform shuffle stats remapMode False) (H1, acc @ [?p]) ps = Inr (H', (acc @ [?p]) @ ps')"
      "list_all2 same_platform ps ps'" "\<forall>p \<in> set ps'. platform_placed H' p"
      "\<forall>c. c \<notin> set (concat (map spp_clients ps)) \<longrightarrow> H' c = H1 c" by auto
  have "H' c = H1 c" if c: "c \<in> set (spp_clients p)" for c
  proof -
    have "c \<notin> set (concat (map spp_clients ps))" using c disj by blast
    then show ?thesis using IH(4) by blast
  qed
  then have "platform_placed H' ?p" using g(2-6) n by (auto simp: platform_placed_def)
  moreover have "foldR (assign_platform shuffle stats remapMode False) (H, acc) (p # ps) = Inr (H', acc @ ?p # ps')"
    using g(1) IH(1) by (simp add: assign_platform_def)
  moreover have "same_platform p ?p" by (simp add: same_platform_def)
  moreover have "\<forall>c. c \<notin> set (concat (map spp_clients (p # ps))) \<longrightarrow> H' c = H c"
    using IH(4) g(7) by simp
  ultimately show ?case using IH(2,3) by (intro exI [of _ H'] exI [of _ "?p # ps'"]) auto
qed

section \<open>The text of flat rings\<close>

text \<open>Generating the text only adds ports to clients.\<close>

definition ports_added :: "sp_store \<Rightarrow> sp_store \<Rightarrow> bool" where
  "ports_added H H' \<longleftrightarrow> (\<forall>c. H' c\<lparr>matchingPorts := []\<rparr> = H c\<lparr>matchingPorts := []\<rparr>
     \<and> set (keys (matchingPorts (H c))) \<subseteq> set (keys (matchingPorts (H' c))))"

lemma ports_added_refl [simp]: "ports_added H H"
  by (simp add: ports_added_def)

lemma ports_added_trans: "ports_added H H1 \<Longrightarrow> ports_added H1 H2 \<Longrightarrow> ports_added H H2"
  unfolding ports_added_def by (metis subset_trans)

lemma ports_added_set: "ports_added H (set_port i c req rsp H)"
  by (auto simp: ports_added_def set_port_def)

lemma ports_added_fields:
  assumes "ports_added H H'"
  shows "controllerIdx (H' c) = controllerIdx (H c)" and "sp_partition (H' c) = sp_partition (H c)"
    and "level (H' c) = level (H c)" and "remappedIds (H' c) = remappedIds (H c)"
proof -
  have *: "H' c\<lparr>matchingPorts := []\<rparr> = H c\<lparr>matchingPorts := []\<rparr>" using assms by (simp add: ports_added_def)
  show "controllerIdx (H' c) = controllerIdx (H c)" "sp_partition (H' c) = sp_partition (H c)"
    "level (H' c) = level (H c)" "remappedIds (H' c) = remappedIds (H c)"
    using arg_cong [OF *, of controllerIdx] arg_cong [OF *, of sp_partition]
      arg_cong [OF *, of level] arg_cong [OF *, of remappedIds] by simp_all
qed

lemma ports_added_placed: "ports_added H H' \<Longrightarrow> platform_placed H p \<Longrightarrow> platform_placed H' p"
  by (simp add: platform_placed_def ring_placed_def ports_added_fields)

lemma ring_ports:
  "ports_added H (foldl (ring_port i) H jcs) \<and> (\<forall>jc \<in> set jcs. i \<in> set (keys (matchingPorts (foldl (ring_port i) H jcs (snd jc)))))"
proof (induction jcs rule: rev_induct)
  case (snoc jc jcs)
  obtain j c where jc: "jc = (j, c)" by (cases jc)
  let ?H = "foldl (ring_port i) H jcs"
  have step: "ports_added ?H (ring_port i ?H jc)" by (simp add: jc ring_port_def ports_added_set)
  have "i \<in> set (keys (matchingPorts (ring_port i ?H jc c)))" by (simp add: jc ring_port_def set_port_def)
  moreover have "i \<in> set (keys (matchingPorts (ring_port i ?H jc d)))"
    if "i \<in> set (keys (matchingPorts (?H d)))" for d
    using that step unfolding ports_added_def by blast
  ultimately show ?case using snoc step jc by (auto intro: ports_added_trans)
qed simp

lemma set_enumerate_snd: "snd ` set (enumerate n xs) = set xs"
  by (metis list.set_map map_snd_enumerate)

lemma ring_controller:
  assumes p: "platform_placed H p" "networkType p = ''ring''"
  shows "\<exists>H' ls. controller_network fast dyn p i H = Inr ((H', ls), []) \<and> ports_added H H'
    \<and> (\<forall>c \<in> set (clients_of H p i). i \<in> set (keys (matchingPorts (H' c))))"
proof (cases "length (clients_of H p i) = 1")
  case True
  then obtain c where c: "clients_of H p i = [c]" by (auto simp: length_Suc_conv)
  then have "c \<in> set (spp_clients p)" by (auto simp: clients_of_def filter_eq_Cons_iff)
  then have "remappedIds (H c) = []" "controllerIdx (H c) \<noteq> []" using p(1) by (auto simp: platform_placed_def ring_placed_def)
  then have "single_client H i c = Inr (set_port i c (''server'' @ num i @ ''.incoming'')
      (''resizeServiceConnectionOut('' @ (''server'' @ num i @ ''.outgoing'') @ '')'') H, [])"
    by (cases "controllerIdx (H c)") (simp_all add: single_client_def first_ctrl_def keys_def)
  with c ports_added_set show ?thesis
    unfolding controller_network_def Let_def by (auto simp: set_port_def)
next
  case False
  have "\<exists>j. (j, c) \<in> set (enumerate 0 (clients_of H p i))" if "c \<in> set (clients_of H p i)" for c
    using that set_enumerate_snd [of 0 "clients_of H p i"] by force
  then have "i \<in> set (keys (matchingPorts (foldl (ring_port i) H (enumerate 0 (clients_of H p i)) c)))"
    if "c \<in> set (clients_of H p i)" for c
    using that ring_ports [of H i "enumerate 0 (clients_of H p i)"] by force
  with False p(2) ring_ports [of H i "enumerate 0 (clients_of H p i)"] show ?thesis
    by (simp add: controller_network_def flat_ring_def Let_def)
qed

lemma ring_controllers:
  assumes p: "platform_placed H p" "networkType p = ''ring''"
  shows "\<exists>H' ls. foldR (controller_text fast dyn p) (H, [], []) [0..<m] = Inr (H', ls, []) \<and> ports_added H H'
    \<and> (\<forall>c \<in> set (spp_clients p). \<forall>k<m. k \<in> set (controllerIdx (H c)) \<longrightarrow> k \<in> set (keys (matchingPorts (H' c))))"
proof (induction m)
  case (Suc m)
  then obtain H1 ls where IH: "foldR (controller_text fast dyn p) (H, [], []) [0..<m] = Inr (H1, ls, [])" "ports_added H H1"
    "\<forall>c \<in> set (spp_clients p). \<forall>k<m. k \<in> set (controllerIdx (H c)) \<longrightarrow> k \<in> set (keys (matchingPorts (H1 c)))" by blast
  obtain H2 ls2 where 2: "controller_network fast dyn p m H1 = Inr ((H2, ls2), [])" "ports_added H1 H2"
    "\<forall>c \<in> set (clients_of H1 p m). m \<in> set (keys (matchingPorts (H2 c)))"
    using ring_controller [OF ports_added_placed [OF IH(2) p(1)] p(2)] by blast
  have "\<exists>l. foldR (controller_text fast dyn p) (H, [], []) [0..<Suc m] = Inr (H2, l, [])"
    using IH(1) 2(1) by (simp add: foldR_append controller_text_def)
  moreover have "k \<in> set (keys (matchingPorts (H2 c)))"
    if c: "c \<in> set (spp_clients p)" and k: "k < Suc m" "k \<in> set (controllerIdx (H c))" for c k
  proof (cases "k = m")
    case True
    then have "c \<in> set (clients_of H1 p m)" using c k by (simp add: clients_of_def ports_added_fields [OF IH(2)])
    with 2(3) True show ?thesis by blast
  next
    case False
    then have "k \<in> set (keys (matchingPorts (H1 c)))" using IH(3) c k by auto
    then show ?thesis using 2(2) unfolding ports_added_def by blast
  qed
  ultimately show ?case using ports_added_trans [OF IH(2) 2(2)] by blast
qed simp

text \<open>What the text of the clients needs of a controller's ports: every client has a port for each of its controllers.\<close>

definition ports_ready :: "sp_store \<Rightarrow> nat \<Rightarrow> bool" where
  "ports_ready H c \<longleftrightarrow> controllerIdx (H c) \<noteq> [] \<and> remappedIds (H c) = []
     \<and> (\<forall>i \<in> set (controllerIdx (H c)). \<exists>req rsp. map_of (matchingPorts (H c)) i = Some (req, rsp))"

lemma port_of_ready: "ports_ready H c \<Longrightarrow> i \<in> set (controllerIdx (H c)) \<Longrightarrow> \<exists>req rsp. port_of H c i = Inr (req, rsp)"
  unfolding ports_ready_def by (auto simp: port_of_def get_key_def)

lemma rest_client_ready:
  assumes "ports_ready H c"
  shows "\<exists>l. rest_client fast H (k, c) = Inr l"
proof -
  obtain i js where i: "controllerIdx (H c) = i # js" using assms by (cases "controllerIdx (H c)") (auto simp: ports_ready_def)
  obtain req rsp where "port_of H c i = Inr (req, rsp)" using port_of_ready [OF assms, of i] i by auto
  with i assms show ?thesis by (simp add: rest_client_def remapped_id_def first_ctrl_def ports_ready_def)
qed

lemma select_function_total:
  assumes "length portions = n"
  shows "\<exists>ls. select_function i bits n portions = Inr ls"
proof -
  have "\<exists>l. select_case n portions j = Inr l" if "j \<in> set [0..<n]" for j
    using that assms by (auto simp: select_case_def)
  from mapR_total [of "[0..<n]" "select_case n portions", OF this] obtain ls where "mapR (select_case n portions) [0..<n] = Inr ls" by blast
  then show ?thesis by (simp add: select_function_def)
qed

lemma ports_mapR:
  assumes "ports_ready H c"
  shows "\<exists>ls. mapR (\<lambda>(j, ctrl). bindR (port_of H c ctrl) (\<lambda>(req, rsp). Inr (g j req rsp)))
    (enumerate 0 (controllerIdx (H c))) = Inr ls"
proof (rule mapR_total)
  fix x
  assume "x \<in> set (enumerate 0 (controllerIdx (H c)))"
  then have "snd x \<in> set (controllerIdx (H c))" using set_enumerate_snd [of 0 "controllerIdx (H c)"] by blast
  from port_of_ready [OF assms this]
  show "\<exists>y. (case x of (j, ctrl) \<Rightarrow> bindR (port_of H c ctrl) (\<lambda>(req, rsp). Inr (g j req rsp))) = Inr y"
    by (cases x) auto
qed

lemma interleaved_client_ready:
  assumes "ports_ready H c"
  shows "\<exists>l. interleaved_client fast False H p bits (k, c) = Inr l"
proof -
  have "\<exists>ls. interleaved_ports H k c = Inr ls"
    using ports_mapR [OF assms, of "\<lambda>j req rsp.
      [''    controllerReqPortVec'' @ num k @ ''['' @ num j @ ''] = '' @ req @ '';'',
       ''    controllerRspPortVec'' @ num k @ ''['' @ num j @ ''] = '' @ rsp @ '';'']"]
    unfolding interleaved_ports_def Let_def by (elim exE) (simp only: bindR.simps, blast)
  moreover have "\<exists>ls. select_function k b (length (sp_partition (H c)))
      (map (\<lambda>j. str_of_int (threshold b (sp_partition (H c)) j)) [0..<length (sp_partition (H c))]) = Inr ls" for b
    by (rule select_function_total) simp
  ultimately obtain ports sel where "interleaved_ports H k c = Inr ports"
    "select_function k (bits ! k) (length (sp_partition (H c)))
      (map (\<lambda>j. str_of_int (threshold (bits ! k) (sp_partition (H c)) j)) [0..<length (sp_partition (H c))]) = Inr sel"
    by blast
  with assms show ?thesis
    by (simp add: interleaved_client_def interleave_portions_def remapped_id_def ports_ready_def Let_def)
qed

lemma ring_wrapper:
  assumes p: "platform_placed H p" "networkType p = ''ring''"
  shows "\<exists>H' out. genRemapWrapper H p remapIds fast dyn False = Inr (H', out) \<and> ports_added H H'"
proof -
  let ?n = "length (spp_controllers p)"
  obtain H' ls where c: "foldR (controller_text fast dyn p) (H, [], []) [0..<?n] = Inr (H', ls, [])" "ports_added H H'"
    "\<forall>c \<in> set (spp_clients p). \<forall>k<?n. k \<in> set (controllerIdx (H c)) \<longrightarrow> k \<in> set (keys (matchingPorts (H' c)))"
    using ring_controllers [OF p] by blast
  have pl: "spp_controllers p \<noteq> []" "\<forall>c \<in> set (spp_clients p). ring_placed ?n (H c)"
    "set (restClients p) \<subseteq> set (spp_clients p)" "set (partitionedClients p) \<subseteq> set (spp_clients p)"
    "\<forall>c \<in> set (partitionedClients p). sp_partition (H c) \<noteq> [] \<and> 0 < sum_list (sp_partition (H c))"
    using p(1) by (simp_all add: platform_placed_def)
  have ready: "ports_ready H' c" if "c \<in> set (spp_clients p)" for c
  proof -
    have "ring_placed ?n (H c)" using pl(2) that by blast
    moreover have "\<exists>req rsp. map_of (matchingPorts (H' c)) i = Some (req, rsp)" if "i \<in> set (controllerIdx (H c))" for i
    proof -
      have "i \<in> set (keys (matchingPorts (H' c)))"
        using c(3) \<open>c \<in> set (spp_clients p)\<close> that \<open>ring_placed ?n (H c)\<close> by (auto simp: ring_placed_def)
      then show ?thesis by (auto simp: keys_map_of)
    qed
    ultimately show ?thesis by (simp add: ports_ready_def ring_placed_def ports_added_fields [OF c(2)])
  qed
  have "\<exists>l. rest_client fast H' kc = Inr l" if "kc \<in> set (enumerate 0 (restClients p))" for kc
  proof -
    have "snd kc \<in> set (restClients p)" using that set_enumerate_snd [of 0 "restClients p"] by blast
    then show ?thesis using rest_client_ready [OF ready] pl(3) by (cases kc) auto
  qed
  from mapR_total [of "enumerate 0 (restClients p)" "rest_client fast H'", OF this] obtain rs where
    "mapR (rest_client fast H') (enumerate 0 (restClients p)) = Inr rs" by blast
  then have rest: "\<exists>ls. rest_text fast H' (restClients p) = Inr ls" by (simp add: rest_text_def)
  have "\<exists>l. interleaved_client fast False H' p bits kc = Inr l" if "kc \<in> set (enumerate 0 (partitionedClients p))" for bits kc
  proof -
    have "snd kc \<in> set (partitionedClients p)" using that set_enumerate_snd [of 0 "partitionedClients p"] by blast
    then show ?thesis using interleaved_client_ready [OF ready] pl(4) by (cases kc) auto
  qed
  then have inter: "\<exists>ls. interleaved_text fast False H' p bits = Inr ls" for bits
  proof -
    from mapR_total [of "enumerate 0 (partitionedClients p)" "interleaved_client fast False H' p bits"]
      \<open>\<And>kc bits. kc \<in> set (enumerate 0 (partitionedClients p)) \<Longrightarrow> \<exists>l. interleaved_client fast False H' p bits kc = Inr l\<close>
    obtain ls where "mapR (interleaved_client fast False H' p bits) (enumerate 0 (partitionedClients p)) = Inr ls" by blast
    then show ?thesis by (simp add: interleaved_text_def)
  qed
  have "\<exists>b. addr_bits False (H c) = Inr b" if "c \<in> set (partitionedClients p)" for c
    using pl(5) that by (auto simp: addr_bits_def)
  from mapR_total [of "partitionedClients p" "\<lambda>c. addr_bits False (H c)", OF this] obtain bits where
    bits: "mapR (\<lambda>c. addr_bits False (H c)) (partitionedClients p) = Inr bits" by blast
  have sizes: "\<exists>ls. wrapper_sizes p = Inr ls" using pl(1) by (simp add: wrapper_sizes_def)
  from rest inter [of bits] sizes obtain l1 l2 l3 where "rest_text fast H' (restClients p) = Inr l1"
    "interleaved_text fast False H' p bits = Inr l2" "wrapper_sizes p = Inr l3" by blast
  with c(1,2) bits show ?thesis by (simp add: genRemapWrapper_def)
qed

lemma ring_files:
  assumes "\<forall>p \<in> set ps. platform_placed H p \<and> networkType p = ''ring''"
  shows "\<exists>H' files. foldR (remap_file ids mode dyn False) (H, acc) ps = Inr (H', acc @ files)
    \<and> map fst files = map remapFile ps"
  using assms
proof (induction ps arbitrary: H acc)
  case (Cons p ps)
  have "\<exists>H1 out. remap_file ids mode dyn False (H, acc) p = Inr (H1, acc @ [(remapFile p, out)]) \<and> ports_added H H1"
    using ring_wrapper [of H p ids "mode = 3" dyn] Cons.prems by (cases "spp_clients p = []") (auto simp: remap_file_def)
  then obtain H1 out where 1: "remap_file ids mode dyn False (H, acc) p = Inr (H1, acc @ [(remapFile p, out)])" "ports_added H H1"
    by blast
  have "\<forall>p \<in> set ps. platform_placed H1 p \<and> networkType p = ''ring''"
    using Cons.prems ports_added_placed [OF 1(2)] by simp
  from Cons.IH [OF this, of "acc @ [(remapFile p, out)]"] obtain H' files where
    "foldR (remap_file ids mode dyn False) (H1, acc @ [(remapFile p, out)]) ps = Inr (H', (acc @ [(remapFile p, out)]) @ files)"
    "map fst files = map remapFile ps" by blast
  with 1(1) show ?case by (intro exI [of _ H'] exI [of _ "(remapFile p, out) # files"]) simp
qed simp

section \<open>From services to files with flat rings\<close>

lemma same_files: "list_all2 same_platform ps qs \<Longrightarrow> map remapFile qs = map remapFile ps"
  by (induction rule: list_all2_induct) (simp_all add: same_platform_def)

lemma starts_file: "foldR (remap_file ids mode dyn il) (H, acc) ps = Inr (H, acc @ map (\<lambda>p. (remapFile p, createDefaultRemapFile)) ps)"
  if "\<forall>p \<in> set ps. spp_clients p = []"
  using that by (induction ps arbitrary: acc) (simp_all add: remap_file_def)

text \<open>
  C31: With flat rings (\<open>SCRATCHPAD_REMAP_MODE\<close> zero, the default, or one, and no interleaving of all clients), whether
  statistics are enabled, as they are by default, or not, the services of the modules are taken to
  the generated files without failure: when the platforms are fresh, every scratchpad service is on a known platform and
  every platform has a scratchpad server, \<open>remapScratchpadConnections\<close> returns the file of every platform,
  in order.  The statistics that are in use (enabled, and not mode one) may give traffic, partitions, latencies,
  bandwidths and priorities, and clients with a partition are interleaved; every line must be readable,
  a partition must have at most as many parts as its platform has servers, not negative and not all zero, and
  no line may assign clients to rings of a hierarchy.
\<close>

theorem remapScratchpadConnections_rings:
  assumes "\<forall>p \<in> set platforms. spp_clients p = [] \<and> spp_controllers p = []" and "distinct (map spp_name platforms)"
    and "\<forall>s \<in> set (concat liModules). starts_with ''Scratchpad_'' (svc_name s) \<longrightarrow> svc_platform s \<in> spp_name ` set platforms"
    and "\<forall>p \<in> set platforms. 0 < servers_on (scratchpad_services False liModules) p"
    and "\<And>xs. mset (shuffle xs) = mset xs" and "remapMode < 2"
    and "statsEn = 0 \<or> (\<forall>p \<in> set platforms. stats_flat stats remapMode (servers_on (scratchpad_services False liModules) p))"
  shows "\<exists>H' files. remapScratchpadConnections gurobi shuffle (H, n) liModules platforms stats remapMode treeKary treeMode dyn 0 statsEn
      = Some (Inr (H', files)) \<and> map fst files = map remapFile platforms"
proof -
  let ?servers = "scratchpad_services False liModules"
  define used where "used = (if statsEn = 0 then [] else stats)"
  have "\<forall>s \<in> set (scratchpad_services True liModules) \<union> set ?servers. svc_platform s \<in> spp_name ` set platforms"
    using assms(3) by (auto simp: scratchpad_services_def)
  from separate_ok [OF assms(1) this assms(2), of H n] obtain H0 n0 ps where
    s: "separateScratchpadConnections (H, n) (scratchpad_services True liModules) ?servers platforms = Inr (H0, n0, ps)"
      "separated platforms n (H0, n0, ps)"
      "list_all2 (\<lambda>p q. length (spp_controllers q) = servers_on ?servers p) platforms ps" by blast
  note sep = s(2) [unfolded separated_def prod.case]
  have ctrl: "\<forall>q \<in> set ps. spp_controllers q \<noteq> [] \<and> stats_flat used remapMode (length (spp_controllers q))"
  proof
    fix q
    assume "q \<in> set ps"
    then obtain i where i: "i < length ps" "ps ! i = q" by (auto simp: in_set_conv_nth)
    with s(3) have p: "platforms ! i \<in> set platforms" "length (spp_controllers q) = servers_on ?servers (platforms ! i)"
      by (auto simp: list_all2_conv_all_nth)
    have "spp_controllers q \<noteq> []" using assms(4) p by (metis length_greater_0_conv)
    moreover have "stats_flat used remapMode (servers_on ?servers (platforms ! i))" using assms(7) p(1) by (auto simp: stats_flat_def used_def)
    ultimately show "spp_controllers q \<noteq> [] \<and> stats_flat used remapMode (length (spp_controllers q))" using p(2) by simp
  qed
  show ?thesis
  proof (cases "sum_list (map (\<lambda>p. length (spp_clients p)) ps) > 0")
    case False
    then have "\<forall>p \<in> set ps. spp_clients p = []" by auto
    moreover have z: "(0 < sum_list (map (\<lambda>p. length (spp_clients p)) ps)) = False" using False by blast
    ultimately show ?thesis
      using s(1) sep same_files by (simp add: remapScratchpadConnections_def Let_def starts_file comp_def z)
  next
    case True
    have "distinct (concat (map spp_clients ps))" "\<forall>c \<in> set (concat (map spp_clients ps)). fresh_client (H0 c)"
      using sep by blast+
    from assign_platforms [OF assms(5) this ctrl, of "[]"] obtain H1 ps1 where
      a: "foldR (assign_platform shuffle used remapMode False) (H0, []) ps = Inr (H1, [] @ ps1)" "list_all2 same_platform ps ps1"
        "\<forall>p \<in> set ps1. platform_placed H1 p" by blast
    let ?ps2 = "map (\<lambda>p. p\<lparr>networkType := ''ring''\<rparr>) ps1"
    have lvl: "sum_list (map (\<lambda>p. sum_list (map (\<lambda>c. level (H1 c)) (spp_clients p))) ps1) = 0"
      using a(3) by (auto simp: platform_placed_def ring_placed_def)
    then have ids: "remapClientIds gurobi shuffle H1 ps1 remapMode treeKary treeMode = Some (Inr (H1, [], ?ps2))"
      using assms(6) by (simp add: remapClientIds_def Let_def)
    have "\<forall>p \<in> set ?ps2. platform_placed H1 p \<and> networkType p = ''ring''"
      using a(3) by (auto simp: platform_placed_def)
    from ring_files [OF this, of "[]" remapMode "dyn = 1" "[]"] obtain H' files where
      f: "foldR (remap_file [] remapMode (dyn = 1) False) (H1, []) ?ps2 = Inr (H', files)" "map fst files = map remapFile ?ps2" by auto
    have "map remapFile ?ps2 = map remapFile platforms"
      using same_files [OF a(2)] sep same_files by (simp add: comp_def)
    with f(2) have names: "map fst files = map remapFile platforms" by simp
    have a1: "foldR (assign_platform shuffle used remapMode (0 = (1::nat))) (H0, []) ps = Inr (H1, ps1)" using a(1) by simp
    have f1: "foldR (remap_file [] remapMode (dyn = 1) (0 = (1::nat))) (H1, []) ?ps2 = Inr (H', files)" using f(1) by simp
    have "remapScratchpadConnections gurobi shuffle (H, n) liModules platforms stats remapMode treeKary treeMode dyn 0 statsEn
        = Some (Inr (H', files))"
      unfolding remapScratchpadConnections_def Let_def used_def [symmetric] s(1) bindO.simps prod.case if_P [OF True] a1 ids f1 by simp
    with names show ?thesis by blast
  qed
qed

section \<open>Examples\<close>

definition example_client :: li_service where
  "example_client = \<lparr>svc_name = ''Scratchpad_Client'', svc_platform = ''FPGA0'', svc_isClient = True,
     client_idx = ''1'', req_bitwidth = 64, resp_bitwidth = 64, idx_bitwidth = 8\<rparr>"

definition example_server :: "string \<Rightarrow> li_service" where
  "example_server plat = \<lparr>svc_name = ''Scratchpad_Server'', svc_platform = plat, svc_isClient = False,
     client_idx = [], req_bitwidth = 64, resp_bitwidth = 64, idx_bitwidth = 8\<rparr>"

definition example_readings :: "string list list" where
  "example_readings = [[''// statistics of an earlier run'', ''LEAP_SCRATCHPAD_1_PLATFORM_0_READ_REQUESTS,reads,70'',
     ''LEAP_SCRATCHPAD_1_PLATFORM_0_LATENCY,2.5 (1.0 2.0)'', ''Scratchpad bandwidth partition: ID: 1 Ratio: 3 : 4'']]"

lemma example_readings_flat:
  "stats_flat example_readings 0 (Suc 0)" "stats_flat example_readings 0 (Suc (Suc 0))"
  by code_simp+

theorem remapScratchpadConnections_rings_witness:
  "\<exists>H' files. remapScratchpadConnections None id (tree_example, 0)
      [ [example_client, example_server ''FPGA0'', example_server ''FPGA0'', example_server ''FPGA1''] ]
      [mk_ScratchpadPlatform ''FPGA0'' 0 ''f0.bsv'', mk_ScratchpadPlatform ''FPGA1'' 1 ''f1.bsv''] example_readings 0 6 0 0 0 1
    = Some (Inr (H', files)) \<and> map fst files = [''f0.bsv'', ''f1.bsv'']"
proof -
  have "\<exists>H' files. remapScratchpadConnections None id (tree_example, 0)
      [ [example_client, example_server ''FPGA0'', example_server ''FPGA0'', example_server ''FPGA1''] ]
      [mk_ScratchpadPlatform ''FPGA0'' 0 ''f0.bsv'', mk_ScratchpadPlatform ''FPGA1'' 1 ''f1.bsv''] example_readings 0 6 0 0 0 1
    = Some (Inr (H', files)) \<and> map fst files = map remapFile
      [mk_ScratchpadPlatform ''FPGA0'' 0 ''f0.bsv'', mk_ScratchpadPlatform ''FPGA1'' 1 ''f1.bsv'']"
    by (rule remapScratchpadConnections_rings)
      (simp_all add: mk_ScratchpadPlatform_def scratchpad_services_def starts_with_def example_client_def example_server_def
        servers_on_def example_readings_flat)
  then show ?thesis by (simp add: mk_ScratchpadPlatform_def)
qed

text \<open>
  A platform without scratchpad server makes the whole step fail as soon as any platform has a
  client, even when it has no client itself.
\<close>

lemma platform_without_server:
  assumes "spp_controllers p = []" and "spp_clients p = []"
  shows "assign_platform shuffle stats remapMode il (H, ps) p = Inl ZeroDivisionError"
  using assms by (simp add: assign_platform_def assignScratchpadClients_def)

end
