(* ===== verification/Activity.thy ===== *)
theory Activity
  imports Connections Patterns
begin

text \<open>
  \<^verbatim>\<open>lim_connect/activity.py\<close>: the traffic counts of a statistics file and the activity every
  channel and chain gets from them.  The lemmas show when the pass returns and that it leaves
  every channel with a positive load, which is what the lane allocation divides by.
\<close>

section \<open>Statistics\<close>

definition traffic_pat :: "pat list" where
  "traffic_pat = [Lit ''TRAFFIC_'', Cap 1 is_word, Lit ''_from_'', Cap 1 is_word, Lit '','', Rep 0 any_char,
     Lit '','', Cap 1 is_digit]"

type_synonym traffic = "(string \<times> int) list"

definition traffic_line :: "traffic \<Rightarrow> string \<Rightarrow> traffic res" where
  "traffic_line stats line =
     (case re_match [Lit ''TRAFFIC_''] line of
        None \<Rightarrow> Inr stats
      | Some _ \<Rightarrow>
          (case re_match traffic_pat line of
             Some [to, from_, amount] \<Rightarrow> bindR (py_int amount) (\<lambda>k. Inr (put to k stats))
           | _ \<Rightarrow> Inr stats))"

text \<open>A file that does not exist is \<open>None\<close>.\<close>

definition parseStats :: "string list option \<Rightarrow> traffic res" where
  "parseStats statsFile = (case statsFile of None \<Rightarrow> Inr [] | Some lines \<Rightarrow> foldR traffic_line [] lines)"

section \<open>Activities\<close>

text \<open>What the pass reads of a module: its channels and chains.\<close>

record graph_module =
  gm_name :: string
  gm_channels :: "nat list"
  gm_chains :: "nat list"

definition set_activity :: "nat \<Rightarrow> pynum \<Rightarrow> store \<Rightarrow> store" where
  "set_activity c a H = H(c := H c\<lparr>activity := a\<rparr>)"

definition chunk_pat :: "pat list" where
  "chunk_pat = [Cap 1 is_word, Lit ''_chunk_'', Cap 1 is_digit]"

text \<open>
  The inner function assigns \<open>totalTraffic\<close>, which makes the name local to it: the addition raises
  \<open>UnboundLocalError\<close>.
\<close>

definition chunkMatch :: "traffic \<Rightarrow> store \<Rightarrow> nat \<Rightarrow> store res" where
  "chunkMatch stats H c =
     (case re_search chunk_pat (conn_name (H c)) of
        Some (base # _) \<Rightarrow>
          if base \<in> set (keys stats) then Inl (UnboundLocalError ''totalTraffic'') else Inr H
      | _ \<Rightarrow> Inr H)"

type_synonym activity_state = "store \<times> nat \<times> int"

fun load_channel :: "traffic \<Rightarrow> activity_state \<Rightarrow> nat \<Rightarrow> activity_state res" where
  "load_channel stats (H, channels, sum_traffic) c =
     (if sc_type (H c) = ''Recv'' then
        (case map_of stats (conn_name (H c)) of
           Some k \<Rightarrow> Inr (set_activity (partnerChannel (H c)) (PyInt k) (set_activity c (PyInt k) H), channels + 1, sum_traffic + k)
         | None \<Rightarrow> bindR (chunkMatch stats H c) (\<lambda>H'. Inr (H', channels + 1, sum_traffic)))
      else Inr (H, channels, sum_traffic))"

text \<open>\<open>float(totalTraffic)/(2*channels)\<close>\<close>

definition default_activity :: "nat \<Rightarrow> int \<Rightarrow> rat res" where
  "default_activity channels sum_traffic =
     (if channels = 0 then Inl ZeroDivisionError else Inr (of_int sum_traffic / of_nat (2 * channels)))"

definition default_channel :: "nat \<Rightarrow> int \<Rightarrow> store \<Rightarrow> nat \<Rightarrow> store res" where
  "default_channel channels sum_traffic H c =
     (if num_val (activity (H c)) \<le> 1
      then bindR (default_activity channels sum_traffic) (\<lambda>q. Inr (set_activity c (PyFloat q) H))
      else Inr H)"

definition default_chain :: "nat \<Rightarrow> int \<Rightarrow> store \<Rightarrow> nat \<Rightarrow> store res" where
  "default_chain channels sum_traffic H c =
     (if num_val (activity (H c)) < 0
      then bindR (default_activity channels sum_traffic) (\<lambda>q. Inr (set_activity c (PyFloat (q * (1 / 10))) H))
      else Inr H)"

definition default_module :: "nat \<Rightarrow> int \<Rightarrow> store \<Rightarrow> graph_module \<Rightarrow> store res" where
  "default_module channels sum_traffic H m =
     bindR (foldR (default_channel channels sum_traffic) H (gm_channels m)) (\<lambda>H'.
       foldR (default_chain channels sum_traffic) H' (gm_chains m))"

definition assignActivity :: "string list option \<Rightarrow> store \<Rightarrow> graph_module list \<Rightarrow> store res" where
  "assignActivity statsFile H modules =
     bindR (parseStats statsFile) (\<lambda>stats.
     bindR (foldR (load_channel stats) (H, 0, 0) (concat (map gm_channels modules))) (\<lambda>(H1, channels, sum_traffic).
       let sum_traffic' = (if sum_traffic = 0 then 2 * int channels else sum_traffic)
       in foldR (default_module channels sum_traffic') H1 modules))"

section \<open>Reading statistics\<close>

text \<open>Every match captures one string per capturing group, taken from its class.\<close>

primrec caps :: "pat list \<Rightarrow> (nat \<times> (char \<Rightarrow> bool)) list" where
  "caps [] = []"
| "caps (p # ps) = (case p of Cap lo c \<Rightarrow> (lo, c) # caps ps | _ \<Rightarrow> caps ps)"

lemma first_some_mem: "first_some xs = Some x \<Longrightarrow> Some x \<in> set xs"
  by (induction xs rule: first_some.induct) auto

lemma re_match_caps:
  "re_match ps s = Some gs \<Longrightarrow>
     list_all2 (\<lambda>(lo, c) g. lo \<le> length g \<and> (\<forall>x \<in> set g. c x)) (caps ps) gs"
proof (induction ps arbitrary: s gs)
  case (Cons p ps)
  show ?case
  proof (cases p)
    case (Lit t)
    with Cons show ?thesis by (auto split: if_splits)
  next
    case (OneOf ts)
    with Cons.prems have "first_some (map (\<lambda>t. if starts_with t s then re_match ps (drop (length t) s) else None) ts) = Some gs" by simp
    from first_some_mem [OF this] obtain t where "Some gs = (if starts_with t s then re_match ps (drop (length t) s) else None)"
      by (auto simp only: set_map)
    then have "re_match ps (drop (length t) s) = Some gs" by (cases "starts_with t s") simp_all
    from Cons.IH [OF this] OneOf show ?thesis by simp
  next
    case (Rep lo c)
    with Cons.prems obtain k where "re_match ps (drop k s) = Some gs" by (auto dest: try_down_Some)
    from Cons.IH [OF this] Rep show ?thesis by simp
  next
    case (Cap lo c)
    with Cons.prems obtain k where k: "k \<le> run_of c s" "lo \<le> k"
      "map_option ((#) (take k s)) (re_match ps (drop k s)) = Some gs" by (auto dest!: try_down_Some)
    then obtain gs' where gs: "re_match ps (drop k s) = Some gs'" "gs = take k s # gs'" by auto
    have "lo \<le> length (take k s)"
      using k(1,2) length_takeWhile_le [of c s] by (simp add: run_of_def)
    moreover have "\<forall>x \<in> set (take k s). c x" using set_take_run k(1) by metis
    ultimately show ?thesis using Cons.IH [OF gs(1)] Cap gs(2) by simp
  next
    case Eol
    with Cons show ?thesis by (auto split: if_splits)
  qed
qed simp

lemma py_int_unsigned: "unsigned s \<Longrightarrow> py_int s = Inr (int (nat_of_str s))"
  by (auto simp: py_int_def strip_unsigned unsigned_def is_digit_def split: list.splits)

lemma traffic_line_ok:
  assumes "\<forall>(k, v) \<in> set stats. 0 \<le> v"
  shows "\<exists>stats'. traffic_line stats line = Inr stats' \<and> (\<forall>(k, v) \<in> set stats'. 0 \<le> v)"
proof (cases "re_match [Lit ''TRAFFIC_''] line")
  case None
  with assms show ?thesis by (simp add: traffic_line_def)
next
  case first: (Some x)
  show ?thesis
  proof (cases "re_match traffic_pat line")
    case None
    with first assms show ?thesis by (simp add: traffic_line_def)
  next
    case (Some gs)
    from re_match_caps [OF this] obtain a b d where
      gs: "gs = [a, b, d]" "1 \<le> length d" "\<forall>x \<in> set d. is_digit x"
      by (auto simp: traffic_pat_def list_all2_Cons1)
    then have "py_int d = Inr (int (nat_of_str d))" by (intro py_int_unsigned) (auto simp: unsigned_def)
    moreover have "\<forall>(k, v) \<in> set (put a (int (nat_of_str d)) stats). 0 \<le> v"
      using assms by (induction stats) auto
    ultimately show ?thesis using first Some gs(1) by (simp add: traffic_line_def)
  qed
qed

lemma parseStats_ok: "\<exists>stats. parseStats statsFile = Inr stats \<and> (\<forall>(k, v) \<in> set stats. 0 \<le> v)"
proof (cases statsFile)
  case None
  then show ?thesis by (simp add: parseStats_def)
next
  case (Some lines)
  have "\<exists>stats'. foldR traffic_line stats lines = Inr stats' \<and> (\<forall>(k, v) \<in> set stats'. 0 \<le> v)"
    if "\<forall>(k, v) \<in> set stats. 0 \<le> v" for stats
    using that
  proof (induction lines arbitrary: stats)
    case (Cons l lines)
    obtain s1 where "traffic_line stats l = Inr s1" "\<forall>(k, v) \<in> set s1. 0 \<le> v"
      using traffic_line_ok [OF Cons.prems] by blast
    with Cons.IH [of s1] show ?case by simp
  qed simp
  from this [of "[]"] Some show ?thesis by (simp add: parseStats_def)
qed

section \<open>Assigning activities\<close>

abbreviation channels_of :: "graph_module list \<Rightarrow> nat list" where
  "channels_of modules \<equiv> concat (map gm_channels modules)"

abbreviation chains_of :: "graph_module list \<Rightarrow> nat list" where
  "chains_of modules \<equiv> concat (map gm_chains modules)"

text \<open>Only activities change.\<close>

definition same_connections :: "store \<Rightarrow> store \<Rightarrow> bool" where
  "same_connections H H' \<longleftrightarrow> (\<forall>c. H' c\<lparr>activity := PyInt 0\<rparr> = H c\<lparr>activity := PyInt 0\<rparr>)"

lemma same_connections_refl [simp]: "same_connections H H"
  by (simp add: same_connections_def)

lemma same_connections_trans: "same_connections H H1 \<Longrightarrow> same_connections H1 H2 \<Longrightarrow> same_connections H H2"
  by (simp add: same_connections_def)

lemma same_connections_set: "same_connections H (set_activity c a H)"
  by (simp add: same_connections_def set_activity_def)

lemma same_connections_fields:
  assumes "same_connections H H'"
  shows "conn_name (H' c) = conn_name (H c)" and "sc_type (H' c) = sc_type (H c)"
    and "partnerChannel (H' c) = partnerChannel (H c)"
proof -
  have *: "H' c\<lparr>activity := PyInt 0\<rparr> = H c\<lparr>activity := PyInt 0\<rparr>" using assms by (simp add: same_connections_def)
  show "conn_name (H' c) = conn_name (H c)" "sc_type (H' c) = sc_type (H c)"
    "partnerChannel (H' c) = partnerChannel (H c)"
    using arg_cong [OF *, of conn_name] arg_cong [OF *, of sc_type] arg_cong [OF *, of partnerChannel] by simp_all
qed

text \<open>The receiving channels with a count, and a store in which both ends of them carry it.\<close>

definition counted :: "traffic \<Rightarrow> store \<Rightarrow> nat \<Rightarrow> int \<Rightarrow> bool" where
  "counted stats H c k \<longleftrightarrow> sc_type (H c) = ''Recv'' \<and> map_of stats (conn_name (H c)) = Some k"

definition loaded :: "traffic \<Rightarrow> store \<Rightarrow> store \<Rightarrow> nat list \<Rightarrow> bool" where
  "loaded stats H H' cs \<longleftrightarrow> (\<forall>c \<in> set cs. \<forall>k. counted stats H c k \<longrightarrow>
     activity (H' c) = PyInt k \<and> activity (H' (partnerChannel (H c))) = PyInt k)"

text \<open>Channels come in pairs of a sender and a receiver, and no name is chunked.\<close>

definition paired :: "store \<Rightarrow> nat list \<Rightarrow> bool" where
  "paired H cs \<longleftrightarrow> distinct cs
     \<and> (\<forall>c \<in> set cs. sc_type (H c) = ''Recv'' \<longrightarrow>
          sc_type (H (partnerChannel (H c))) \<noteq> ''Recv'' \<and> partnerChannel (H (partnerChannel (H c))) = c)
     \<and> (\<forall>c \<in> set cs. sc_type (H c) = ''Recv'' \<longrightarrow> re_search chunk_pat (conn_name (H c)) = None)"

lemma load_channels:
  assumes "paired H cs" and "\<forall>(k, v) \<in> set stats. 0 \<le> v"
  shows "\<exists>H' n t. foldR (load_channel stats) (H, 0, 0) cs = Inr (H', n, t) \<and> same_connections H H' \<and> 0 \<le> t
    \<and> n = length (filter (\<lambda>c. sc_type (H c) = ''Recv'') cs) \<and> loaded stats H H' cs"
  using assms(1)
proof (induction cs rule: rev_induct)
  case Nil
  then show ?case by (simp add: loaded_def)
next
  case (snoc c cs)
  then have "paired H cs" by (simp add: paired_def)
  with snoc.IH obtain H1 n t where
    IH: "foldR (load_channel stats) (H, 0, 0) cs = Inr (H1, n, t)" "same_connections H H1" "0 \<le> t"
      "n = length (filter (\<lambda>c. sc_type (H c) = ''Recv'') cs)" "loaded stats H H1 cs" by blast
  note f = same_connections_fields [OF IH(2)]
  consider (send) "sc_type (H c) \<noteq> ''Recv''" | (count) k where "counted stats H c k"
    | (none) "sc_type (H c) = ''Recv''" "map_of stats (conn_name (H c)) = None"
    by (auto simp: counted_def)
  then show ?case
  proof cases
    case send
    then have "\<not> counted stats H c k" for k by (simp add: counted_def)
    with send IH show ?thesis by (simp add: foldR_append f loaded_def)
  next
    case none
    have "re_search chunk_pat (conn_name (H c)) = None" using snoc.prems none(1) by (simp add: paired_def)
    then have "chunkMatch stats H1 c = Inr H1" by (simp add: chunkMatch_def f)
    moreover have "\<not> counted stats H c k" for k using none by (simp add: counted_def)
    ultimately show ?thesis using none IH by (simp add: foldR_append f loaded_def)
  next
    case (count k)
    let ?p = "partnerChannel (H c)"
    let ?H = "set_activity ?p (PyInt k) (set_activity c (PyInt k) H1)"
    have c: "sc_type (H c) = ''Recv''" "map_of stats (conn_name (H c)) = Some k"
      using count by (simp_all add: counted_def)
    have p: "sc_type (H ?p) \<noteq> ''Recv''" "partnerChannel (H ?p) = c" using snoc.prems c(1) by (simp_all add: paired_def)
    have k: "0 \<le> k" using map_of_SomeD [OF c(2)] assms(2) by auto
    have step: "foldR (load_channel stats) (H, 0, 0) (cs @ [c]) = Inr (?H, n + 1, t + k)"
      using IH(1) c by (simp add: foldR_append f)
    have old: "activity (?H d) = PyInt j \<and> activity (?H (partnerChannel (H d))) = PyInt j"
      if d: "d \<in> set cs" "counted stats H d j" for d j
    proof -
      have dr: "sc_type (H d) = ''Recv''" using d(2) by (simp add: counted_def)
      have dp: "sc_type (H (partnerChannel (H d))) \<noteq> ''Recv''" "partnerChannel (H (partnerChannel (H d))) = d"
        using snoc.prems d(1) dr by (simp_all add: paired_def)
      have "d \<noteq> c" using snoc.prems d(1) by (auto simp: paired_def)
      moreover have "d \<noteq> ?p" using dr p(1) by auto
      moreover have "partnerChannel (H d) \<noteq> c" using dp(1) c(1) by auto
      moreover have "partnerChannel (H d) \<noteq> ?p" using dp(2) p(2) \<open>d \<noteq> c\<close> by auto
      ultimately show ?thesis using IH(5) d by (simp add: loaded_def set_activity_def)
    qed
    have new: "activity (?H c) = PyInt k" "activity (?H ?p) = PyInt k" by (simp_all add: set_activity_def)
    have "counted stats H c j \<Longrightarrow> j = k" for j using c(2) by (simp add: counted_def)
    with old new have "loaded stats H ?H (cs @ [c])" by (auto simp: loaded_def)
    moreover have "same_connections H ?H"
      using IH(2) same_connections_set same_connections_trans by blast
    ultimately show ?thesis using step IH(3,4) k c(1) by simp
  qed
qed

text \<open>Defaults are positive and leave a load above one alone.\<close>

definition raised :: "store \<Rightarrow> store \<Rightarrow> bool" where
  "raised H H' \<longleftrightarrow> (\<forall>c. (1 < num_val (activity (H c)) \<longrightarrow> H' c = H c)
     \<and> (0 < num_val (activity (H c)) \<longrightarrow> 0 < num_val (activity (H' c)))
     \<and> (0 \<le> num_val (activity (H c)) \<longrightarrow> 0 \<le> num_val (activity (H' c))))"

lemma raised_refl [simp]: "raised H H"
  by (simp add: raised_def)

lemma raised_trans: "raised H H1 \<Longrightarrow> raised H1 H2 \<Longrightarrow> raised H H2"
  by (auto simp: raised_def)

lemma raised_set: "num_val (activity (H c)) \<le> 1 \<Longrightarrow> 0 < q \<Longrightarrow> raised H (set_activity c (PyFloat q) H)"
  by (auto simp: raised_def set_activity_def)

lemma raised_pos: "\<forall>H H' c. raised H H' \<longrightarrow> 0 < num_val (activity (H c)) \<longrightarrow> 0 < num_val (activity (H' c))"
  by (simp add: raised_def)

lemma raised_nonneg: "\<forall>H H' c. raised H H' \<longrightarrow> 0 \<le> num_val (activity (H c)) \<longrightarrow> 0 \<le> num_val (activity (H' c))"
  by (simp add: raised_def)

lemma default_fold:
  assumes "\<forall>H c. \<exists>H'. f H c = Inr H' \<and> same_connections H H' \<and> raised H H' \<and> P (activity (H' c))"
    and "\<forall>H H' c. raised H H' \<longrightarrow> P (activity (H c)) \<longrightarrow> P (activity (H' c))"
  shows "\<exists>H'. foldR f H cs = Inr H' \<and> same_connections H H' \<and> raised H H' \<and> (\<forall>c \<in> set cs. P (activity (H' c)))"
proof (induction cs arbitrary: H)
  case (Cons c cs)
  obtain H1 where 1: "f H c = Inr H1" "same_connections H H1" "raised H H1" "P (activity (H1 c))" using assms(1) by blast
  obtain H' where "foldR f H1 cs = Inr H'" "same_connections H1 H'" "raised H1 H'" "\<forall>c \<in> set cs. P (activity (H' c))"
    using Cons.IH by blast
  with 1 show ?case
    using assms(2) by (auto intro: same_connections_trans raised_trans)
qed simp

lemma default_modules:
  assumes n: "0 < n" and t: "0 < t"
  shows "\<exists>H'. foldR (default_module n t) H modules = Inr H' \<and> same_connections H H' \<and> raised H H'
    \<and> (\<forall>c \<in> set (channels_of modules). 0 < num_val (activity (H' c)))
    \<and> (\<forall>c \<in> set (chains_of modules). 0 \<le> num_val (activity (H' c)))"
proof (induction modules arbitrary: H)
  case (Cons m ms)
  define q :: rat where "q = of_int t / of_nat (2 * n)"
  have q: "default_activity n t = Inr q" "0 < q" using n t by (simp_all add: default_activity_def q_def)
  have "\<forall>H c. \<exists>H'. default_channel n t H c = Inr H' \<and> same_connections H H' \<and> raised H H' \<and> 0 < num_val (activity (H' c))"
    using q by (auto simp: default_channel_def same_connections_set raised_set intro!: raised_set) (simp add: set_activity_def)
  from default_fold [of "default_channel n t" "\<lambda>a. 0 < num_val a", OF this raised_pos] obtain H1 where
    1: "foldR (default_channel n t) H (gm_channels m) = Inr H1" "same_connections H H1" "raised H H1"
      "\<forall>c \<in> set (gm_channels m). 0 < num_val (activity (H1 c))" by blast
  have "\<forall>H c. \<exists>H'. default_chain n t H c = Inr H' \<and> same_connections H H' \<and> raised H H' \<and> 0 \<le> num_val (activity (H' c))"
    using q by (auto simp: default_chain_def same_connections_set intro!: raised_set) (simp add: set_activity_def)
  from default_fold [of "default_chain n t" "\<lambda>a. 0 \<le> num_val a", OF this raised_nonneg] obtain H2 where
    2: "foldR (default_chain n t) H1 (gm_chains m) = Inr H2" "same_connections H1 H2" "raised H1 H2"
      "\<forall>c \<in> set (gm_chains m). 0 \<le> num_val (activity (H2 c))" by blast
  obtain H3 where 3: "foldR (default_module n t) H2 ms = Inr H3" "same_connections H2 H3" "raised H2 H3"
    "\<forall>c \<in> set (channels_of ms). 0 < num_val (activity (H3 c))" "\<forall>c \<in> set (chains_of ms). 0 \<le> num_val (activity (H3 c))"
    using Cons.IH by blast
  have "foldR (default_module n t) H (m # ms) = Inr H3" using 1(1) 2(1) 3(1) by (simp add: default_module_def)
  moreover have "same_connections H H3" "raised H H3"
    using 1 2 3 by (blast intro: same_connections_trans raised_trans)+
  moreover have "raised H1 H3" "raised H2 H3" using 2 3 by (blast intro: raised_trans)+
  ultimately show ?case using 1(4) 2(4) 3(4,5) by (auto simp: raised_def)
qed simp

text \<open>
  C34: For channels in matched pairs, at least one of them receiving and none with a chunked name,
  \<open>assignActivity\<close> returns: every channel gets a positive activity and every chain one that is not
  negative, and both ends of a receiving channel carry its traffic count when it is above one.
\<close>

theorem assignActivity_loads:
  assumes "paired H (channels_of modules)" and "\<exists>c \<in> set (channels_of modules). sc_type (H c) = ''Recv''"
  shows "\<exists>H' stats. parseStats statsFile = Inr stats \<and> assignActivity statsFile H modules = Inr H'
    \<and> same_connections H H'
    \<and> (\<forall>c \<in> set (channels_of modules). 0 < num_val (activity (H' c)))
    \<and> (\<forall>c \<in> set (chains_of modules). 0 \<le> num_val (activity (H' c)))
    \<and> (\<forall>c \<in> set (channels_of modules). \<forall>k. counted stats H c k \<and> 1 < k \<longrightarrow>
         activity (H' c) = PyInt k \<and> activity (H' (partnerChannel (H c))) = PyInt k)"
proof -
  obtain stats where s: "parseStats statsFile = Inr stats" "\<forall>(k, v) \<in> set stats. 0 \<le> v" using parseStats_ok by blast
  from load_channels [OF assms(1) s(2)] obtain H1 n t where
    1: "foldR (load_channel stats) (H, 0, 0) (channels_of modules) = Inr (H1, n, t)" "same_connections H H1" "0 \<le> t"
      "n = length (filter (\<lambda>c. sc_type (H c) = ''Recv'') (channels_of modules))" "loaded stats H H1 (channels_of modules)"
    by blast
  have n: "0 < n" using assms(2) unfolding 1(4) by (auto simp: filter_empty_conv)
  let ?t = "if t = 0 then 2 * int n else t"
  have "0 < ?t" using n 1(3) by simp
  from default_modules [OF n this, of H1 modules] obtain H' where
    2: "foldR (default_module n ?t) H1 modules = Inr H'" "same_connections H1 H'" "raised H1 H'"
      "\<forall>c \<in> set (channels_of modules). 0 < num_val (activity (H' c))"
      "\<forall>c \<in> set (chains_of modules). 0 \<le> num_val (activity (H' c))" by blast
  have "assignActivity statsFile H modules = Inr H'"
    unfolding assignActivity_def s(1) bindR.simps 1(1) prod.case Let_def by (rule 2(1))
  moreover have "activity (H' c) = PyInt k \<and> activity (H' (partnerChannel (H c))) = PyInt k"
    if "c \<in> set (channels_of modules)" "counted stats H c k" "1 < k" for c k
  proof -
    have a: "activity (H1 c) = PyInt k" "activity (H1 (partnerChannel (H c))) = PyInt k"
      using 1(5) that(1,2) unfolding loaded_def by blast+
    then have "1 < num_val (activity (H1 c))" "1 < num_val (activity (H1 (partnerChannel (H c))))" using that(3) by simp_all
    with 2(3) a show ?thesis by (simp add: raised_def)
  qed
  ultimately show ?thesis
    using s(1) 2(4,5) same_connections_trans [OF 1(2) 2(2)] by blast
qed

text \<open>A chunked receiving channel whose base name has a count makes the pass fail.\<close>

lemma chunked_channel_fails:
  assumes "sc_type (H c) = ''Recv''" and "map_of stats (conn_name (H c)) = None"
    and "re_search chunk_pat (conn_name (H c)) = Some (base # rest)" and "base \<in> set (keys stats)"
  shows "load_channel stats (H, n, t) c = Inl (UnboundLocalError ''totalTraffic'')"
  using assms by (simp add: chunkMatch_def)

section \<open>Example\<close>

definition activity_example :: store where
  "activity_example c = \<lparr>conn_class = LIChannel, conn_name = ''req'', sc_type = (if c = 0 then ''Send'' else ''Recv''),
     bitwidth = 32, activity = PyInt (-1), conn_module = ''m'', partnerChannel = (if c = 0 then 1 else 0),
     sourcePartnerChain = 0, sinkPartnerChain = 0, via_idx_egress = 0, via_link_egress = 0,
     via_idx_ingress = 0, via_link_ingress = 0\<rparr>"

definition example_modules :: "graph_module list" where
  "example_modules = [\<lparr>gm_name = ''m'', gm_channels = [0, 1], gm_chains = []\<rparr>]"

theorem assignActivity_loads_witness:
  "\<exists>H' stats. parseStats (Some [''TRAFFIC_req_from_b,x,12'']) = Inr stats
    \<and> assignActivity (Some [''TRAFFIC_req_from_b,x,12'']) activity_example example_modules = Inr H'
    \<and> stats = [(''req'', 12)] \<and> activity (H' 0) = PyInt 12 \<and> activity (H' 1) = PyInt 12"
proof -
  have search: "re_search chunk_pat ''req'' = None" by code_simp
  have parse: "parseStats (Some [''TRAFFIC_req_from_b,x,12'']) = Inr [(''req'', 12)]" by code_simp
  have pre: "paired activity_example (channels_of example_modules)"
    "\<exists>c \<in> set (channels_of example_modules). sc_type (activity_example c) = ''Recv''"
    using search by (auto simp: paired_def activity_example_def example_modules_def)
  have "counted [(''req'', 12)] activity_example 1 12" "partnerChannel (activity_example 1) = 0"
    "1 \<in> set (channels_of example_modules)"
    by (simp_all add: counted_def activity_example_def example_modules_def)
  then show ?thesis
    using assignActivity_loads [OF pre, of "Some [''TRAFFIC_req_from_b,x,12'']"] parse by fastforce
qed

end
