(* ===== verification/MapParser.thy ===== *)
theory MapParser
  imports Patterns
begin

text \<open>
  \<^verbatim>\<open>parsers/map\<close>: the lexer and grammar of the file that maps synthesis boundaries to platforms, and
  the class \<open>FPGAMap\<close>.  The parser generator \<open>ply\<close> is not part of this repository; the model is the
  language of the grammar, with \<open>None\<close> for a text that is not in it (the parser then prints a message and
  what it returns is left open).  The lemmas show that printing a map and parsing it is the identity.
\<close>

section \<open>Lexer\<close>

datatype map_token = MRArrow | MSemicolon | MName string

definition name_start :: "char \<Rightarrow> bool" where
  "name_start c \<longleftrightarrow> is_alpha c \<or> c = CHR ''_''"

definition name_char :: "char \<Rightarrow> bool" where
  "name_char c \<longleftrightarrow> name_start c \<or> is_digit c \<or> c = CHR '']'' \<or> c = CHR ''[''"

text \<open>Blanks, newlines and illegal characters (\<open>t_error\<close> skips one) give no token.\<close>

function lex_map :: "string \<Rightarrow> map_token list" where
  "lex_map [] = []"
| "lex_map (c # s) =
     (if name_start c then MName (c # takeWhile name_char s) # lex_map (dropWhile name_char s)
      else if c = CHR ''-'' \<and> starts_with ''>'' s then MRArrow # lex_map (tl s)
      else if c = CHR '';'' then MSemicolon # lex_map s
      else lex_map s)"
  by pat_completeness auto
termination
  by (relation "measure length") (auto simp: le_imp_less_Suc length_dropWhile_le)

section \<open>Grammar\<close>

type_synonym fpga_mapping = "(string \<times> string) list"

fun mapping_list :: "map_token list \<Rightarrow> fpga_mapping option" where
  "mapping_list [] = Some []"
| "mapping_list (MName a # MRArrow # MName b # MSemicolon # ts) = map_option ((#) (a, b)) (mapping_list ts)"
| "mapping_list ts = None"

section \<open>The map\<close>

definition mk_FPGAMap :: "(string \<times> string) list \<Rightarrow> fpga_mapping" where
  "mk_FPGAMap mappings = foldl (\<lambda>m (k, v). put k v m) [] mappings"

definition addSynthesisBoundaryMapping :: "string \<Rightarrow> string \<Rightarrow> fpga_mapping \<Rightarrow> fpga_mapping" where
  "addSynthesisBoundaryMapping boundary plat m = put boundary plat m"

definition getSynthesisBoundaryPlatform :: "fpga_mapping \<Rightarrow> string \<Rightarrow> string option" where
  "getSynthesisBoundaryPlatform m boundary = map_of m boundary"

definition mapped_names :: "fpga_mapping \<Rightarrow> string list" where
  "mapped_names m = keys m"

text \<open>The method compares with a name that is not defined.\<close>

definition getPlatformSynthesisBoundaries :: "fpga_mapping \<Rightarrow> string list res" where
  "getPlatformSynthesisBoundaries m = (if keys m = [] then Inr [] else Inl (NameError ''platform''))"

definition parseFPGAMap :: "string \<Rightarrow> fpga_mapping option" where
  "parseFPGAMap txt = map_option mk_FPGAMap (mapping_list (lex_map txt))"

section \<open>Printing and parsing\<close>

definition print_entry :: "string \<times> string \<Rightarrow> string" where
  "print_entry e = fst e @ '' -> '' @ snd e @ '';'' @ [CHR 0x0A]"

definition print_map :: "fpga_mapping \<Rightarrow> string" where
  "print_map m = concat (map print_entry m)"

definition is_name :: "string \<Rightarrow> bool" where
  "is_name s \<longleftrightarrow> s \<noteq> [] \<and> name_start (hd s) \<and> (\<forall>c \<in> set (tl s). name_char c)"

lemma separators [simp]:
  "\<not> name_char (CHR '' '')" "\<not> name_char (CHR '';'')" "\<not> name_start (CHR '' '')" "\<not> name_start (CHR ''-'')"
  "\<not> name_start (CHR '';'')" "\<not> name_start (CHR 0x0A)"
  by (simp_all add: name_char_def name_start_def is_alpha_def char_range_def is_digit_def less_char_def)

lemma lex_name:
  assumes "is_name a" and "\<not> name_char c"
  shows "lex_map (a @ c # s) = MName a # lex_map (c # s)"
proof -
  obtain x t where a: "a = x # t" "name_start x" "\<forall>c \<in> set t. name_char c"
    using assms(1) by (cases a) (auto simp: is_name_def)
  have "takeWhile name_char (t @ c # s) = t" "dropWhile name_char (t @ c # s) = c # s"
    using a(3) assms(2) by (simp_all add: takeWhile_append dropWhile_append)
  with a(1,2) show ?thesis by simp
qed

lemma lex_entry:
  assumes "is_name (fst e)" and "is_name (snd e)"
  shows "lex_map (print_entry e @ s) = MName (fst e) # MRArrow # MName (snd e) # MSemicolon # lex_map s"
proof -
  have a: "lex_map (fst e @ CHR '' '' # r) = MName (fst e) # lex_map (CHR '' '' # r)" for r
    by (rule lex_name [OF assms(1)]) simp
  have b: "lex_map (snd e @ CHR '';'' # r) = MName (snd e) # lex_map (CHR '';'' # r)" for r
    by (rule lex_name [OF assms(2)]) simp
  show ?thesis by (simp add: print_entry_def a b starts_with_def)
qed

lemma lex_print: "\<forall>e \<in> set m. is_name (fst e) \<and> is_name (snd e) \<Longrightarrow> mapping_list (lex_map (print_map m)) = Some m"
  by (induction m) (auto simp: print_map_def lex_entry)

lemma mk_FPGAMap_distinct: "distinct (keys m) \<Longrightarrow> mk_FPGAMap m = m"
  using foldl_put_distinct [of "[]" m] by (simp add: mk_FPGAMap_def)

text \<open>
  C35: Parsing the text of a map gives the map back: a map with distinct boundaries, all names
  identifiers of the lexer, printed one entry per line, is read as itself, so every boundary is
  found on its platform.
\<close>

theorem parseFPGAMap_print:
  assumes "distinct (keys m)" and "\<forall>e \<in> set m. is_name (fst e) \<and> is_name (snd e)"
  shows "parseFPGAMap (print_map m) = Some m"
  using lex_print [OF assms(2)] mk_FPGAMap_distinct [OF assms(1)] by (simp add: parseFPGAMap_def)

theorem parseFPGAMap_print_witness:
  "parseFPGAMap (print_map [(''mod_a[0]'', ''FPGA0''), (''b'', ''CPU'')]) = Some [(''mod_a[0]'', ''FPGA0''), (''b'', ''CPU'')]"
proof (rule parseFPGAMap_print)
  show "distinct (keys [(''mod_a[0]'', ''FPGA0''), (''b'', ''CPU'')])" by (simp add: keys_def)
  show "\<forall>e \<in> set [(''mod_a[0]'', ''FPGA0''), (''b'', ''CPU'')]. is_name (fst e) \<and> is_name (snd e)" by code_simp
qed

end
