(* ===== verification/EnvParser.thy ===== *)
theory EnvParser
  imports MapParser FpgaEnvironment TextLines
begin

text \<open>
  \<^verbatim>\<open>parsers/environment/environment_lex.py\<close>, \<^verbatim>\<open>environment_parse.py\<close> and
  \<^verbatim>\<open>environment_parser.py\<close>: from the text of an environment to the environment.  The parser generator
  \<open>ply\<close> is not part of this repository; the model is the language of its rules.  A result is \<open>None\<close>
  where the outcome is left open: for a text outside the grammar (the parser prints a message and
  recovers by rules of its own) and for a literal whose evaluation needs more than the plain case.
\<close>

section \<open>Lexer\<close>

datatype env_token =
    TPlatform | TMaster | TEndMaster | TEndPlatform
  | TRArrow | TLArrow | TEqual | TSemicolon
  | TName string | TString string | TInt string

text \<open>\<open>reserved.get(t.value, 'NAME')\<close>\<close>

definition reserved_or_name :: "string \<Rightarrow> env_token" where
  "reserved_or_name v =
     (if v = ''platform'' then TPlatform else if v = ''master'' then TMaster
      else if v = ''endmaster'' then TEndMaster else if v = ''endplatform'' then TEndPlatform
      else TName v)"

abbreviation quote_char :: char where
  "quote_char \<equiv> CHR 0x22"

text \<open>
  The pattern of a string takes everything up to the last quote of the line.  The argument is
  what follows the opening quote.
\<close>

definition string_body :: "string \<Rightarrow> string option" where
  "string_body s =
     (let line = takeWhile any_char s
      in if quote_char \<in> set line then Some (rev (tl (dropWhile (\<lambda>c. c \<noteq> quote_char) (rev line)))) else None)"

definition is_punct :: "char \<Rightarrow> char \<Rightarrow> char \<Rightarrow> string \<Rightarrow> bool" where
  "is_punct a b c s \<longleftrightarrow> c = a \<and> starts_with [b] s"

text \<open>A step of the lexer: the token, if any, and the number of characters consumed after the first one.\<close>

definition lex_step :: "char \<Rightarrow> string \<Rightarrow> env_token option \<times> nat" where
  "lex_step c s =
     (if c = CHR ''#'' then (None, run_of any_char s)
      else if name_start c then (Some (reserved_or_name (c # takeWhile name_char s)), run_of name_char s)
      else if c = quote_char then
        (case string_body s of Some b \<Rightarrow> (Some (TString b), length b + 1) | None \<Rightarrow> (None, 0))
      else if is_digit c then (Some (TInt (c # takeWhile is_digit s)), run_of is_digit s)
      else if is_punct (CHR ''-'') (CHR ''>'') c s then (Some TRArrow, 1)
      else if is_punct (CHR ''<'') (CHR ''-'') c s then (Some TLArrow, 1)
      else if c = CHR ''='' then (Some TEqual, 0)
      else if c = CHR '';'' then (Some TSemicolon, 0)
      else (None, 0))"

function lex_env :: "string \<Rightarrow> env_token list" where
  "lex_env [] = []"
| "lex_env (c # s) =
     (case lex_step c s of
        (Some t, k) \<Rightarrow> t # lex_env (drop k s)
      | (None, k) \<Rightarrow> lex_env (drop k s))"
  by pat_completeness auto
termination
  by (relation "measure length") auto

section \<open>Literals\<close>

text \<open>
  \<open>eval\<close> of a string literal: its content, when that has no quote, backslash or line end.
\<close>

definition plain :: "string \<Rightarrow> bool" where
  "plain s \<longleftrightarrow> (\<forall>c \<in> set s. c \<noteq> quote_char \<and> c \<noteq> CHR 0x5C \<and> c \<noteq> CHR 0x0A \<and> c \<noteq> CHR 0x0D \<and> c \<noteq> CHR 0x00)"

definition eval_string :: "string \<Rightarrow> string run" where
  "eval_string s = (if plain s then Some (Inr s) else None)"

text \<open>\<open>eval\<close> of an integer literal: octal with a leading zero.\<close>

definition octal :: "string \<Rightarrow> int" where
  "octal s = foldl (\<lambda>n c. 8 * n + (of_char c - 48)) 0 s"

definition eval_int :: "string \<Rightarrow> int res" where
  "eval_int s =
     (if hd s = CHR ''0'' then
        if \<exists>c \<in> set s. c = CHR ''8'' \<or> c = CHR ''9'' then Inl (SyntaxError ''invalid token'') else Inr (octal s)
      else Inr (int (nat_of_str s)))"

section \<open>Grammar\<close>

definition via_descriptor :: "via_direction \<Rightarrow> string \<Rightarrow> string \<Rightarrow> descriptor run" where
  "via_descriptor d name str =
     bindO (eval_string str) (\<lambda>physical. Some (Inr (DescVia (mk_PhysicalVia d name physical))))"

definition int_param :: "string \<Rightarrow> string \<Rightarrow> descriptor run" where
  "int_param name k =
     bindO (Some (eval_int k)) (\<lambda>i.
       Some (Inr (DescParam \<lparr>param_name = name, param_value = IntValue i, param_type = ''INT''\<rparr>)))"

definition string_param :: "string \<Rightarrow> string \<Rightarrow> descriptor run" where
  "string_param name str =
     bindO (eval_string str) (\<lambda>v.
       Some (Inr (DescParam \<lparr>param_name = name, param_value = StrValue v, param_type = ''STR''\<rparr>)))"

text \<open>The descriptor that four tokens form, if they do.\<close>

definition descriptor_of :: "env_token \<Rightarrow> env_token \<Rightarrow> env_token \<Rightarrow> env_token \<Rightarrow> descriptor run option" where
  "descriptor_of a b c d =
     (case a of
        TName n \<Rightarrow>
          if d \<noteq> TSemicolon then None
          else (case c of
            TString s \<Rightarrow>
              if b = TRArrow then Some (via_descriptor Egress n s)
              else if b = TLArrow then Some (via_descriptor Ingress n s)
              else if b = TEqual then Some (string_param n s)
              else None
          | TInt k \<Rightarrow> if b = TEqual then Some (int_param n k) else None
          | _ \<Rightarrow> None)
      | _ \<Rightarrow> None)"

fun connection_list :: "env_token list \<Rightarrow> (descriptor list \<times> env_token list) run" where
  "connection_list (a # b # c # d # ts) =
     (case descriptor_of a b c d of
        None \<Rightarrow> Some (Inr ([], a # b # c # d # ts))
      | Some m \<Rightarrow>
          bindO m (\<lambda>x. bindO (connection_list ts) (\<lambda>(ds, r). Some (Inr (x # ds, r)))))"
| "connection_list ts = Some (Inr ([], ts))"

lemma connection_list_shrinks: "connection_list ts = Some (Inr (ds, r)) \<Longrightarrow> length r \<le> length ts"
  by (induction ts arbitrary: ds r rule: connection_list.induct) (fastforce simp: bindO_returns split: option.splits)+

text \<open>A block ends with the keyword that matches the one that opens it.\<close>

fun block_end :: "bool \<Rightarrow> env_token" where
  "block_end True = TEndMaster"
| "block_end False = TEndPlatform"

function platform_list :: "env_token list \<Rightarrow> platform list run"
  and platform_block :: "bool \<Rightarrow> env_token list \<Rightarrow> platform list run" where
  "platform_list ts =
     (case ts of
        [] \<Rightarrow> Some (Inr [])
      | TMaster # ts' \<Rightarrow> platform_block True ts'
      | TPlatform # ts' \<Rightarrow> platform_block False ts'
      | _ \<Rightarrow> None)"
| "platform_block isMaster ts =
     (case ts of
        TName ptype # TName name # TString path # TSemicolon # ts' \<Rightarrow>
          (case connection_list ts' of
             Some (Inr (ds, e # r)) \<Rightarrow>
               if e = block_end isMaster
               then bindO (platform_list r) (\<lambda>ps.
                      bindO (eval_string path) (\<lambda>p. Some (Inr (mk_platform ptype name isMaster p ds # ps))))
               else None
           | Some (Inl err) \<Rightarrow> Some (Inl err)
           | _ \<Rightarrow> None)
      | _ \<Rightarrow> None)"
  by pat_completeness auto
termination
  by (relation "measure (\<lambda>x. case x of Inl ts \<Rightarrow> length ts | Inr (_, ts) \<Rightarrow> length ts)")
    (auto dest!: connection_list_shrinks)

declare platform_list.simps [simp del] platform_block.simps [simp del]

definition parse_platforms :: "string \<Rightarrow> platform list run" where
  "parse_platforms txt = platform_list (lex_env txt)"

definition parseFPGAEnvironment :: "(graph \<Rightarrow> string \<Rightarrow> paths) \<Rightarrow> string \<Rightarrow> fpga_env run" where
  "parseFPGAEnvironment sp environmentDescription =
     bindO (parse_platforms environmentDescription) (mk_FPGAEnvironment sp)"

text \<open>Two strings on one line are read as one, and a number with a leading zero is octal.\<close>

lemma greedy_string:
  "lex_env (''a ='' @ quoted ''x'' @ ''; b ='' @ quoted ''y'' @ '';'') =
     [TName ''a'', TEqual, TString (''x'' @ [quote_char] @ ''; b ='' @ [quote_char] @ ''y''), TSemicolon]"
  by code_simp

lemma leading_zero: "eval_int ''010'' = Inr 8" "eval_int ''09'' = Inl (SyntaxError ''invalid token'')"
  by code_simp+

section \<open>Printing and parsing\<close>

text \<open>A block of the text: kind, type and name of the platform, its path and its lines.\<close>

type_synonym env_block = "bool \<times> string \<times> string \<times> string \<times> descriptor list"

fun print_descriptor :: "descriptor \<Rightarrow> string" where
  "print_descriptor (DescVia v) =
     endpointName v @ (if direction v = Ingress then '' <- '' else '' -> '') @ quoted (physicalName v) @ '';'' @ nl"
| "print_descriptor (DescParam p) =
     param_name p @ '' = '' @ getAWBRepresentation p @ '';'' @ nl"

fun print_block :: "env_block \<Rightarrow> string" where
  "print_block (isMaster, ptype, name, path, ds) =
     (if isMaster then ''master '' else ''platform '') @ ptype @ '' '' @ name @ '' '' @ quoted path @ '';'' @ nl @
     concat (map print_descriptor ds) @ (if isMaster then ''endmaster'' else ''endplatform'') @ nl"

definition print_env :: "env_block list \<Rightarrow> string" where
  "print_env bs = concat (map print_block bs)"

definition keywords_env :: "string list" where
  "keywords_env = [''platform'', ''master'', ''endmaster'', ''endplatform'']"

definition is_ident :: "string \<Rightarrow> bool" where
  "is_ident s \<longleftrightarrow> is_name s \<and> s \<notin> set keywords_env"

fun descriptor_ok :: "descriptor \<Rightarrow> bool" where
  "descriptor_ok (DescVia v) \<longleftrightarrow> is_ident (endpointName v) \<and> plain (physicalName v) \<and> pv_width v = None"
| "descriptor_ok (DescParam p) \<longleftrightarrow> is_ident (param_name p) \<and>
     (case param_value p of
        IntValue i \<Rightarrow> 0 \<le> i \<and> param_type p = ''INT''
      | StrValue s \<Rightarrow> plain s \<and> param_type p = ''STR'')"

fun block_ok :: "env_block \<Rightarrow> bool" where
  "block_ok (isMaster, ptype, name, path, ds) \<longleftrightarrow>
     is_ident ptype \<and> is_ident name \<and> plain path \<and> list_all descriptor_ok ds"

fun block_platform :: "env_block \<Rightarrow> platform" where
  "block_platform (isMaster, ptype, name, path, ds) = mk_platform ptype name isMaster path ds"

text \<open>The tokens of a descriptor and of a block.\<close>

fun descriptor_tokens :: "descriptor \<Rightarrow> env_token list" where
  "descriptor_tokens (DescVia v) =
     [TName (endpointName v), if direction v = Ingress then TLArrow else TRArrow, TString (physicalName v), TSemicolon]"
| "descriptor_tokens (DescParam p) =
     [TName (param_name p), TEqual,
      case param_value p of IntValue i \<Rightarrow> TInt (str_of_int i) | StrValue s \<Rightarrow> TString s, TSemicolon]"

fun block_tokens :: "env_block \<Rightarrow> env_token list" where
  "block_tokens (isMaster, ptype, name, path, ds) =
     [if isMaster then TMaster else TPlatform, TName ptype, TName name, TString path, TSemicolon] @
     concat (map descriptor_tokens ds) @ [block_end isMaster]"

declare lex_env.simps(2) [simp del]

lemma lex_word:
  assumes "is_name a" and "\<not> name_char c"
  shows "lex_env (a @ c # s) = reserved_or_name a # lex_env (c # s)"
proof -
  obtain x t where a: "a = x # t" "name_start x" "\<forall>c \<in> set t. name_char c"
    using assms(1) by (cases a) (auto simp: is_name_def)
  have "takeWhile name_char (t @ c # s) = t" using a(3) assms(2) by (simp add: takeWhile_append)
  moreover have "x \<noteq> CHR ''#''" using a(2) by (auto simp: name_start_def is_alpha_def char_range_def less_char_def)
  ultimately show ?thesis using a(1,2) by (simp add: lex_env.simps(2) [of x] lex_step_def run_of_def)
qed

lemma lex_ident:
  assumes "is_ident a" and "\<not> name_char c"
  shows "lex_env (a @ c # s) = TName a # lex_env (c # s)"
  using lex_word [of a c s] assms by (simp add: is_ident_def keywords_env_def reserved_or_name_def)

lemma string_body_line:
  assumes "plain b"
  shows "string_body (b @ quote_char # CHR '';'' # CHR 0x0A # s) = Some b"
proof -
  have b: "\<forall>c \<in> set b. any_char c" using assms by (auto simp: plain_def any_char_def)
  have "takeWhile any_char (b @ quote_char # CHR '';'' # CHR 0x0A # s) = b @ [quote_char, CHR '';'']"
    using b by (simp add: takeWhile_append any_char_def)
  then show ?thesis by (simp add: string_body_def)
qed

lemma lex_string:
  assumes "plain b"
  shows "lex_env (quoted b @ CHR '';'' # CHR 0x0A # s) = TString b # TSemicolon # lex_env s"
proof -
  have "\<not> name_start quote_char" by code_simp
  moreover have "\<not> name_start (CHR '';'')" "\<not> name_start (CHR 0x0A)" by code_simp+
  moreover have "\<not> is_digit (CHR '';'')" "\<not> is_digit (CHR 0x0A)" by code_simp+
  ultimately show ?thesis using string_body_line [OF assms, of s]
    by (simp add: quoted_def lex_env.simps(2) lex_step_def is_punct_def)
qed

lemma lex_plain [simp]:
  "lex_env (CHR '' '' # s) = lex_env s" "lex_env (CHR ''='' # s) = TEqual # lex_env s"
  "lex_env (CHR 0x0A # s) = lex_env s" "lex_env (CHR '';'' # s) = TSemicolon # lex_env s"
  "lex_env (CHR ''-'' # CHR ''>'' # s) = TRArrow # lex_env s"
  "lex_env (CHR ''<'' # CHR ''-'' # s) = TLArrow # lex_env s"
proof -
  have "\<not> name_start (CHR '' '')" "\<not> name_start (CHR ''='')" "\<not> name_start (CHR 0x0A)" "\<not> name_start (CHR '';'')"
    "\<not> name_start (CHR ''-'')" "\<not> name_start (CHR ''<'')" by code_simp+
  moreover have "\<not> is_digit (CHR '' '')" "\<not> is_digit (CHR ''='')" "\<not> is_digit (CHR 0x0A)" "\<not> is_digit (CHR '';'')"
    "\<not> is_digit (CHR ''-'')" "\<not> is_digit (CHR ''<'')" by code_simp+
  ultimately show "lex_env (CHR '' '' # s) = lex_env s" "lex_env (CHR ''='' # s) = TEqual # lex_env s"
    "lex_env (CHR 0x0A # s) = lex_env s" "lex_env (CHR '';'' # s) = TSemicolon # lex_env s"
    "lex_env (CHR ''-'' # CHR ''>'' # s) = TRArrow # lex_env s"
    "lex_env (CHR ''<'' # CHR ''-'' # s) = TLArrow # lex_env s"
    by (simp_all add: lex_env.simps(2) lex_step_def is_punct_def starts_with_def)
qed

lemma lex_int: "lex_env (num n @ CHR '';'' # s) = TInt (num n) # TSemicolon # lex_env s"
proof -
  obtain x t where n: "num n = x # t" using str_of_nat_not_Nil by (cases "num n") auto
  have d: "is_digit x" "\<forall>c \<in> set t. is_digit c" using str_of_nat_digits [of n] n by auto
  have "takeWhile is_digit (t @ CHR '';'' # s) = t"
    using d(2) by (simp add: takeWhile_append is_digit_def)
  moreover have "\<not> name_start x" "x \<noteq> quote_char" "x \<noteq> CHR ''#''"
    using d(1) by (auto simp: is_digit_def name_start_def is_alpha_def char_range_def less_char_def)
  ultimately show ?thesis using d(1) n by (simp add: lex_env.simps(2) [of x] lex_step_def run_of_def)
qed

lemma lex_descriptor: "descriptor_ok d \<Longrightarrow> lex_env (print_descriptor d @ s) = descriptor_tokens d @ lex_env s"
proof (cases d)
  case (DescVia v)
  assume "descriptor_ok d"
  with DescVia lex_ident [of "endpointName v" "CHR '' ''"] lex_string [of "physicalName v"]
  show ?thesis by (simp add: nl_def)
next
  case (DescParam p)
  assume "descriptor_ok d"
  with DescParam lex_ident [of "param_name p" "CHR '' ''"] lex_string lex_int show ?thesis
    by (auto simp: nl_def getAWBRepresentation_def str_of_int_def quoted_def split: param_value.splits)
qed

lemma lex_descriptors:
  "list_all descriptor_ok ds \<Longrightarrow>
     lex_env (concat (map print_descriptor ds) @ s) = concat (map descriptor_tokens ds) @ lex_env s"
  by (induction ds) (simp_all add: lex_descriptor)

lemma lex_keyword:
  "a \<in> set keywords_env \<Longrightarrow> \<not> name_char c \<Longrightarrow> lex_env (a @ c # s) = reserved_or_name a # lex_env (c # s)"
proof (rule lex_word)
  assume "a \<in> set keywords_env"
  moreover have "\<forall>a \<in> set keywords_env. is_name a" by code_simp
  ultimately show "is_name a" by blast
qed

lemma lex_block:
  assumes "block_ok b"
  shows "lex_env (print_block b @ s) = block_tokens b @ lex_env s"
proof -
  obtain isMaster ptype name path ds where b: "b = (isMaster, ptype, name, path, ds)" by (cases b)
  have newline: "\<not> name_char (CHR 0x0A)" by code_simp
  have k: "lex_env (''master'' @ CHR '' '' # r) = TMaster # lex_env (CHR '' '' # r)"
    "lex_env (''platform'' @ CHR '' '' # r) = TPlatform # lex_env (CHR '' '' # r)"
    "lex_env (''endmaster'' @ CHR 0x0A # r) = TEndMaster # lex_env (CHR 0x0A # r)"
    "lex_env (''endplatform'' @ CHR 0x0A # r) = TEndPlatform # lex_env (CHR 0x0A # r)" for r
    by (subst lex_keyword; simp add: keywords_env_def reserved_or_name_def newline)+
  have n: "lex_env (ptype @ CHR '' '' # r) = TName ptype # lex_env r" "lex_env (name @ CHR '' '' # r) = TName name # lex_env r" for r
    using assms b lex_ident [of ptype "CHR '' ''" r] lex_ident [of name "CHR '' ''" r] by simp_all
  have p: "lex_env (quoted path @ CHR '';'' # CHR 0x0A # r) = TString path # TSemicolon # lex_env r" for r
    using assms b lex_string by simp
  have d: "lex_env (concat (map print_descriptor ds) @ r) = concat (map descriptor_tokens ds) @ lex_env r" for r
    using assms b lex_descriptors by simp
  show ?thesis using k n p d by (cases isMaster) (simp_all add: b nl_def)
qed

lemma lex_blocks: "list_all block_ok bs \<Longrightarrow> lex_env (print_env bs) = concat (map block_tokens bs)"
proof (induction bs)
  case (Cons b bs)
  then show ?case using lex_block [of b "print_env bs"] by (simp add: print_env_def)
qed (simp add: print_env_def)

lemma octal_zero: "octal ''0'' = 0"
  by code_simp

lemma num_head: "hd (num n) = CHR ''0'' \<longleftrightarrow> n = 0"
proof (induction n rule: str_of_nat.induct)
  case (1 n)
  have c: "digit_char d = CHR ''0'' \<longleftrightarrow> d = 0" if "d < 10" for d
  proof -
    have "digit_char d = CHR ''0'' \<longleftrightarrow> of_char (digit_char d) = (of_char (CHR ''0'') :: nat)" by (simp only: of_char_eq_iff)
    with that show ?thesis by simp
  qed
  show ?case
  proof (cases "n < 10")
    case True
    then show ?thesis by (simp add: str_of_nat.simps [of n] c)
  next
    case False
    with 1 have "hd (num (n div 10)) = CHR ''0'' \<longleftrightarrow> n div 10 = 0" by blast
    with False show ?thesis by (simp add: str_of_nat.simps [of n])
  qed
qed

lemma eval_int_num [simp]: "eval_int (num n) = Inr (int n)"
proof (cases "n = 0")
  case True
  have "num 0 = ''0''" by code_simp
  with True show ?thesis by (simp add: eval_int_def octal_def)
next
  case False
  then show ?thesis by (simp add: eval_int_def num_head)
qed

lemma parse_descriptor:
  assumes "descriptor_ok d"
  shows "connection_list (descriptor_tokens d @ ts) =
    bindO (connection_list ts) (\<lambda>(ds, r). Some (Inr (d # ds, r)))"
proof (cases d)
  case (DescVia v)
  with assms show ?thesis
    by (cases v; cases "direction v")
      (simp_all add: descriptor_of_def via_descriptor_def eval_string_def mk_PhysicalVia_def)
next
  case (DescParam p)
  with assms show ?thesis
    by (cases p; cases "param_value p")
      (auto simp: descriptor_of_def int_param_def string_param_def eval_string_def str_of_int_def)
qed

lemma parse_descriptors:
  "list_all descriptor_ok ds \<Longrightarrow>
     connection_list (concat (map descriptor_tokens ds) @ block_end m # ts) = Some (Inr (ds, block_end m # ts))"
proof (induction ds)
  case Nil
  show ?case by (cases ts rule: connection_list.cases; cases m) (auto simp: descriptor_of_def neq_Nil_conv)
next
  case (Cons d ds)
  then show ?case by (simp add: parse_descriptor)
qed

lemma parse_block:
  assumes "block_ok b"
  shows "platform_list (block_tokens b @ ts) =
    bindO (platform_list ts) (\<lambda>ps. Some (Inr (block_platform b # ps)))"
proof -
  obtain isMaster ptype name path ds where b: "b = (isMaster, ptype, name, path, ds)" by (cases b)
  have "platform_list (block_tokens b @ ts) = platform_block isMaster (tl (block_tokens b @ ts))"
    by (cases isMaster) (simp_all add: b platform_list.simps)
  also have "\<dots> = bindO (platform_list ts) (\<lambda>ps. Some (Inr (block_platform b # ps)))"
    using assms by (simp add: b platform_block.simps parse_descriptors eval_string_def)
  finally show ?thesis .
qed

lemma parse_blocks:
  "list_all block_ok bs \<Longrightarrow> platform_list (concat (map block_tokens bs)) = Some (Inr (map block_platform bs))"
  by (induction bs) (simp_all add: parse_block platform_list.simps [of "[]"])

text \<open>
  C25: Parsing the text of an environment gives its platforms back: blocks whose names are
  identifiers other than the keywords and whose strings hold no quote, backslash or line end, printed one
  line per connection and parameter, are read as the platforms the constructor builds from
  exactly these types, names, paths, connections and parameters, in that order.
\<close>

theorem parse_platforms_print:
  assumes "list_all block_ok bs"
  shows "parse_platforms (print_env bs) = Some (Inr (map block_platform bs))"
  using lex_blocks [OF assms] parse_blocks [OF assms] by (simp add: parse_platforms_def)

definition sample_blocks :: "env_block list" where
  "sample_blocks =
     [(True, ''FPGA'', ''FPGA0'', ''config/apm/a.apm'',
       [DescVia (mk_PhysicalVia Egress ''FPGA1'' ''drive''), DescVia (mk_PhysicalVia Ingress ''FPGA1'' ''rcv''),
        DescParam \<lparr>param_name = ''CLOCK'', param_value = IntValue 100, param_type = ''INT''\<rparr>]),
      (False, ''FPGA'', ''FPGA1'', ''config/apm/b.apm'',
       [DescParam \<lparr>param_name = ''MODE'', param_value = StrValue ''fast # mode'', param_type = ''STR''\<rparr>])]"

theorem parse_platforms_print_witness:
  "parse_platforms (print_env sample_blocks) = Some (Inr (map block_platform sample_blocks))"
proof (rule parse_platforms_print)
  show "list_all block_ok sample_blocks" by code_simp
qed

end
