(* ===== verification/PlaceModules.thy ===== *)
theory PlaceModules
  imports MapParser FpgaEnvironment TextLines
begin

text \<open>
  \<^verbatim>\<open>lim_connect/map/placeModules.py\<close>: the placement of the modules of the program on the platforms,
  by a map or by an integer program, and the connections between platforms that follow from it.
  The module graph comes from the \<open>li_module\<close> package and the solver from \<open>glpk\<close>, which are not
  part of this repository: the records hold the attributes this code uses, \<open>egress\<close> stands for
  \<open>egressChannelsByPartner\<close>, \<open>assignResources\<close> for the resource estimate, \<open>mkGraph\<close> for the
  constructor \<open>LIGraph\<close>, and \<open>glpk\<close> takes the text of a program to the value of every variable.
\<close>

section \<open>The module graph\<close>

text \<open>\<open>ch_partner\<close> is the name of the module at the other end, \<open>None\<close> for an unassigned channel.\<close>

record li_channel =
  ch_name :: string
  ch_activity :: pynum
  ch_source :: bool
  ch_partner :: "string option"
  ch_module :: "string option"

record li_chain =
  cn_name :: string
  cn_module :: "string option"

record li_mod =
  lm_name :: string
  lm_attributes :: "(string \<times> string) list"
  lm_channels :: "li_channel list"
  lm_chains :: "li_chain list"

type_synonym module_graph = "(string \<times> li_mod) list"

definition mod_attribute :: "li_mod \<Rightarrow> string \<Rightarrow> string option" where
  "mod_attribute m k = map_of (lm_attributes m) k"

abbreviation mapping_of :: "li_mod \<Rightarrow> string option" where
  "mapping_of m \<equiv> mod_attribute m ''MAPPING''"

definition put_mapping :: "string \<Rightarrow> li_mod \<Rightarrow> li_mod" where
  "put_mapping p m = m\<lparr>lm_attributes := put ''MAPPING'' p (lm_attributes m)\<rparr>"

text \<open>\<open>moduleGraph.modules[n].putAttribute('MAPPING', p)\<close>\<close>

definition map_module :: "string \<Rightarrow> string \<Rightarrow> module_graph \<Rightarrow> module_graph" where
  "map_module n p G = map (\<lambda>(k, m). (k, if k = n then put_mapping p m else m)) G"

definition isModuleCompatibleWithPlatform :: "li_mod \<Rightarrow> platform \<Rightarrow> bool" where
  "isModuleCompatibleWithPlatform m p =
     (if platformType p = ''CPU'' then mod_attribute m ''EXECUTION_TYPE'' = Some ''SOFTWARE''
      else if platformType p = ''FPGA'' then mod_attribute m ''EXECUTION_TYPE'' = Some ''RTL''
      else if platformType p = ''BLUESIM'' then mod_attribute m ''EXECUTION_TYPE'' = Some ''RTL''
      else False)"

section \<open>Placement by a map\<close>

text \<open>
  \<open>read\<close> takes a path to the text of the file.  With any number of files but one the message
  names a variable that does not exist.
\<close>

definition decorate_module :: "(string \<times> platform) list \<Rightarrow> fpga_mapping \<Rightarrow> module_graph \<Rightarrow> string \<Rightarrow> module_graph" where
  "decorate_module ps mapping G n =
     (if n \<in> set (keys ps) then G
      else (case getSynthesisBoundaryPlatform mapping n of
              None \<Rightarrow> G
            | Some p \<Rightarrow> map_module n p G))"

definition decorateModulesWithMapFile ::
  "(string \<Rightarrow> string) \<Rightarrow> string \<Rightarrow> string list \<Rightarrow> (string \<times> platform) list \<Rightarrow> module_graph \<Rightarrow> module_graph run" where
  "decorateModulesWithMapFile read rootDir mappingFile ps G =
     (case mappingFile of
        [f] \<Rightarrow>
          (case parseFPGAMap (read (rootDir @ ''/'' @ f)) of
             None \<Rightarrow> None
           | Some mapping \<Rightarrow> Some (Inr (foldl (decorate_module ps mapping) G (keys G))))
      | _ \<Rightarrow> Some (Inl (NameError ''envFile'')))"

definition placeModulesWithMapFile ::
  "(string \<Rightarrow> string) \<Rightarrow> string \<Rightarrow> string list \<Rightarrow> (string \<times> platform) list \<Rightarrow> module_graph \<Rightarrow> module_graph run" where
  "placeModulesWithMapFile read rootDir mappingFile ps G =
     bindO (decorateModulesWithMapFile read rootDir mappingFile ps G) (\<lambda>G1.
       if \<exists>(n, m) \<in> set G1. n \<notin> set (keys ps) \<and> mapping_of m = None
       then Some (Inl (SystemExit 0))
       else Some (Inr G1))"

section \<open>The integer program\<close>

definition getColorModule :: "string \<Rightarrow> string \<Rightarrow> string" where
  "getColorModule moduleNameIn platformNameIn = ''color_'' @ moduleNameIn @ ''_is_'' @ platformNameIn"

definition getColorEdge :: "string \<Rightarrow> string \<Rightarrow> string \<Rightarrow> string" where
  "getColorEdge edgeName platformNameSrc platformNameDest =
     ''colorPair_'' @ edgeName @ ''_is_'' @ platformNameSrc @ ''_to_'' @ platformNameDest"

text \<open>The statements of the program the code writes.\<close>

datatype ilp_item =
    ModuleVar string
  | EdgeVar string
  | FixedVar string
  | Minimize "(pynum \<times> string) list"
  | ModuleOne string "string list"
  | EdgeOne string "string list"
  | EdgeColor string "string list" string
  | ResourceLimit string "(pynum \<times> string) list" pynum

text \<open>\<open>moduleColors[moduleName]\<close>\<close>

definition module_colors :: "(string \<times> platform) list \<Rightarrow> li_mod \<Rightarrow> string list" where
  "module_colors ps m =
     (case mapping_of m of
        None \<Rightarrow> map fst (filter (\<lambda>(n, p). isModuleCompatibleWithPlatform m p) ps)
      | Some p \<Rightarrow> [p])"

definition module_vars :: "(string \<times> platform) list \<Rightarrow> string \<times> li_mod \<Rightarrow> ilp_item list" where
  "module_vars ps = (\<lambda>(n, m).
     (case mapping_of m of
        None \<Rightarrow> map (\<lambda>p. ModuleVar (getColorModule n p)) (module_colors ps m)
      | Some p \<Rightarrow> [FixedVar (getColorModule n p)]))"

record ilp_edge =
  ie_src :: "string list"
  ie_dst :: "string list"
  ie_activity :: pynum

type_synonym egress_fn = "li_mod \<Rightarrow> string \<Rightarrow> li_channel list"

text \<open>The channels from a module to another, with both modules.\<close>

definition module_channels :: "egress_fn \<Rightarrow> module_graph \<Rightarrow> (string \<times> li_mod \<times> string \<times> li_mod \<times> li_channel) list" where
  "module_channels egress G =
     concat (map (\<lambda>(n, m). concat (map (\<lambda>(n', m').
       if n = n' then [] else map (\<lambda>c. (n, m, n', m', c)) (egress m n')) G)) G)"

definition mk_edge :: "(string \<times> platform) list \<Rightarrow> li_mod \<Rightarrow> li_mod \<Rightarrow> li_channel \<Rightarrow> ilp_edge" where
  "mk_edge ps m m' c = \<lparr>ie_src = module_colors ps m, ie_dst = module_colors ps m', ie_activity = ch_activity c\<rparr>"

definition edge_list :: "egress_fn \<Rightarrow> (string \<times> platform) list \<Rightarrow> module_graph \<Rightarrow> (string \<times> ilp_edge) list" where
  "edge_list egress ps G = map (\<lambda>(n, m, n', m', c). (ch_name c, mk_edge ps m m' c)) (module_channels egress G)"

text \<open>\<open>edgeColorPairs\<close> and \<open>edgesByName\<close>, which are filled together.\<close>

definition edge_dict :: "(string \<times> ilp_edge) list \<Rightarrow> (string \<times> ilp_edge) list" where
  "edge_dict es = foldl (\<lambda>d (n, e). put n e d) [] es"

definition edge_pairs :: "ilp_edge \<Rightarrow> (string \<times> string) list" where
  "edge_pairs e = List.product (ie_src e) (ie_dst e)"

definition edge_vars :: "string \<times> ilp_edge \<Rightarrow> ilp_item list" where
  "edge_vars = (\<lambda>(n, e).
     if length (ie_src e) = 1 \<and> length (ie_dst e) = 1
     then [FixedVar (getColorEdge n (hd (ie_src e)) (hd (ie_dst e)))]
     else map (\<lambda>(s, d). EdgeVar (getColorEdge n s d)) (edge_pairs e))"

definition pair_weight :: "(string \<Rightarrow> string \<Rightarrow> int) \<Rightarrow> ilp_edge \<Rightarrow> string \<times> string \<Rightarrow> pynum" where
  "pair_weight pathLength e = (\<lambda>(s, d). py_mul (PyInt (if s \<noteq> d then pathLength s d else 0)) (ie_activity e))"

definition communicationsCosts ::
  "(string \<Rightarrow> string \<Rightarrow> int) \<Rightarrow> (string \<times> ilp_edge) list \<Rightarrow> (pynum \<times> string) list" where
  "communicationsCosts pathLength edges =
     concat (map (\<lambda>(n, e). map (\<lambda>(s, d). (pair_weight pathLength e (s, d), getColorEdge n s d)) (edge_pairs e)) edges)"

definition module_one :: "(string \<times> platform) list \<Rightarrow> string \<times> li_mod \<Rightarrow> ilp_item" where
  "module_one ps = (\<lambda>(n, m). ModuleOne n (map (getColorModule n) (module_colors ps m)))"

definition edge_one :: "string \<times> ilp_edge \<Rightarrow> ilp_item" where
  "edge_one = (\<lambda>(n, e). EdgeOne n (map (\<lambda>(s, d). getColorEdge n s d) (edge_pairs e)))"

text \<open>A module of a colour colours each of its edges: a channel without an edge raises.\<close>

definition color_edge ::
  "(string \<times> ilp_edge) list \<Rightarrow> string \<Rightarrow> li_channel \<Rightarrow> string \<Rightarrow> ilp_item res" where
  "color_edge edges n c color =
     bindR (get_key edges (ch_name c) (KeyError (ch_name c))) (\<lambda>e.
       Inr (EdgeColor (''module_'' @ n @ ''must_color_edge_'' @ ch_name c @ ''_'' @ color)
              (if ch_source c then map (getColorEdge (ch_name c) color) (ie_dst e)
               else map (\<lambda>s. getColorEdge (ch_name c) s color) (ie_src e))
              (getColorModule n color)))"

definition color_edges ::
  "(string \<times> platform) list \<Rightarrow> (string \<times> ilp_edge) list \<Rightarrow> module_graph \<Rightarrow> ilp_item list res" where
  "color_edges ps edges G =
     mapR (\<lambda>(n, c, color). color_edge edges n c color)
       (concat (map (\<lambda>(n, m). concat (map (\<lambda>c. map (\<lambda>color. (n, c, color)) (module_colors ps m)) (lm_channels m))) G))"

type_synonym resources = "(string \<times> (string \<times> pynum) list) list"

definition resource_classes :: "string list" where
  "resource_classes = [''LUT'', ''Reg'', ''BRAM'']"

text \<open>\<open>re.match('^Total(.*)', resourceCandidate)\<close>\<close>

definition resource_class :: "string \<Rightarrow> string option" where
  "resource_class candidate =
     (if starts_with ''Total'' candidate then Some (takeWhile any_char (drop 5 candidate)) else None)"

definition resource_terms ::
  "(string \<times> platform) list \<Rightarrow> module_graph \<Rightarrow> resources \<Rightarrow> string \<Rightarrow> string \<Rightarrow> (pynum \<times> string) list" where
  "resource_terms ps G resources cls p =
     concat (map (\<lambda>(n, m).
       if p \<in> set (module_colors ps m) then
         (case map_of resources n of
            None \<Rightarrow> []
          | Some r \<Rightarrow> (case map_of r cls of None \<Rightarrow> [] | Some k \<Rightarrow> [(k, getColorModule n p)]))
       else []) G)"

definition resource_limits ::
  "(string \<times> platform) list \<Rightarrow> module_graph \<Rightarrow> resources \<Rightarrow> pynum \<Rightarrow> string \<Rightarrow> ilp_item list" where
  "resource_limits ps G resources resource_threshold p =
     (case map_of resources (p @ ''_platform'') of
        None \<Rightarrow> []
      | Some r \<Rightarrow>
          concat (map (\<lambda>(candidate, k).
            (case resource_class candidate of
               None \<Rightarrow> []
             | Some cls \<Rightarrow>
                 if cls \<in> set resource_classes \<and> resource_terms ps G resources cls p \<noteq> [] then
                   [ResourceLimit (''resource_'' @ cls @ ''_platform_'' @ p) (resource_terms ps G resources cls p)
                      (py_mul resource_threshold k)]
                 else [])) r))"

definition placer_program ::
  "egress_fn \<Rightarrow> (string \<Rightarrow> string \<Rightarrow> int) \<Rightarrow> (string \<times> platform) list \<Rightarrow> resources \<Rightarrow> pynum \<Rightarrow>
   module_graph \<Rightarrow> ilp_item list res" where
  "placer_program egress pathLength ps resources resource_threshold G =
     (let es = edge_list egress ps G; edges = edge_dict es
      in bindR (color_edges ps edges G) (\<lambda>cs.
           Inr (concat (map (module_vars ps) G) @ concat (map edge_vars es) @
             [Minimize (communicationsCosts pathLength edges)] @ map (module_one ps) G @ map edge_one edges @ cs @
             concat (map (resource_limits ps G resources resource_threshold) (keys ps)))))"

section \<open>Text of the program\<close>

text \<open>\<open>fstr\<close> is the text of a floating-point number.\<close>

fun str_of_pynum :: "(rat \<Rightarrow> string) \<Rightarrow> pynum \<Rightarrow> string" where
  "str_of_pynum fstr (PyInt i) = str_of_int i"
| "str_of_pynum fstr (PyFloat q) = fstr q"

fun item_text :: "(rat \<Rightarrow> string) \<Rightarrow> ilp_item \<Rightarrow> string list" where
  "item_text fstr (ModuleVar x) = [''var '' @ x @ '' binary;'']"
| "item_text fstr (EdgeVar x) = [''var '' @ x @ ''  binary;'']"
| "item_text fstr (FixedVar x) = [''var '' @ x @ '' = 1;'']"
| "item_text fstr (Minimize ts) =
     [[], [], ''minimize comms: '' @ join '' + '' (map (\<lambda>(k, x). str_of_pynum fstr k @ ''*'' @ x) ts) @ '';'', []]"
| "item_text fstr (ModuleOne n xs) =
     [''subject to module_one_color_'' @ n @ '':'', join '' + '' xs @ '' = 1;'']"
| "item_text fstr (EdgeOne n xs) =
     [''subject to edge_one_color_'' @ n @ '':'', tb @ join '' + '' xs @ '' = 1;'']"
| "item_text fstr (EdgeColor l xs x) =
     [''subject to '' @ l @ '':'', tb @ join '' + '' xs @ '' = '' @ x @ '';'']"
| "item_text fstr (ResourceLimit l ts k) =
     [''subject to '' @ l @ '':'',
      join '' + '' (map (\<lambda>(k, x). str_of_pynum fstr k @ '' * '' @ x) ts) @ '' <= '' @ str_of_pynum fstr k @ '';'']"

definition program_text :: "(rat \<Rightarrow> string) \<Rightarrow> ilp_item list \<Rightarrow> string list" where
  "program_text fstr items = concat (map (item_text fstr) items) @ [[], [], ''end;'']"

section \<open>Placement by the integer program\<close>

type_synonym valuation = "string \<Rightarrow> rat"

definition read_color :: "valuation \<Rightarrow> string \<Rightarrow> module_graph \<Rightarrow> string \<Rightarrow> module_graph" where
  "read_color val n G p = (if 0 < val (getColorModule n p) then map_module n p G else G)"

definition read_solution :: "valuation \<Rightarrow> (string \<times> string list) list \<Rightarrow> module_graph \<Rightarrow> module_graph" where
  "read_solution val moduleColors G =
     foldl (\<lambda>G (n, colors). foldl (read_color val n) G colors) G moduleColors"

definition solve_placement ::
  "(string list \<Rightarrow> valuation) \<Rightarrow> (rat \<Rightarrow> string) \<Rightarrow> egress_fn \<Rightarrow> (string \<Rightarrow> string \<Rightarrow> int) \<Rightarrow>
   (module_graph \<Rightarrow> resources) \<Rightarrow> pynum \<Rightarrow> (string \<times> platform) list \<Rightarrow> module_graph \<Rightarrow> module_graph res" where
  "solve_placement glpk fstr egress pathLength assignResources resource_threshold ps G =
     bindR (placer_program egress pathLength ps (assignResources G) resource_threshold G) (\<lambda>items.
       Inr (read_solution (glpk (program_text fstr items)) (map (\<lambda>(n, m). (n, module_colors ps m)) G) G))"

definition placeModulesILP ::
  "(string \<Rightarrow> string) \<Rightarrow> string \<Rightarrow> string list \<Rightarrow>
   (string list \<Rightarrow> valuation) \<Rightarrow> (rat \<Rightarrow> string) \<Rightarrow> egress_fn \<Rightarrow> (string \<Rightarrow> string \<Rightarrow> int) \<Rightarrow>
   (module_graph \<Rightarrow> resources) \<Rightarrow> pynum \<Rightarrow> (string \<times> platform) list \<Rightarrow> module_graph \<Rightarrow> module_graph run" where
  "placeModulesILP read rootDir mappingFile glpk fstr egress pathLength assignResources resource_threshold ps G =
     bindO (decorateModulesWithMapFile read rootDir mappingFile ps G) (\<lambda>G1.
       Some (solve_placement glpk fstr egress pathLength assignResources resource_threshold ps G1))"

section \<open>The platform graph\<close>

definition pin_platforms :: "string list \<Rightarrow> module_graph \<Rightarrow> module_graph" where
  "pin_platforms names G = foldl (\<lambda>G p. if p \<in> set (keys G) then map_module p p G else G) G names"

datatype platform_conn = ConnChannel li_channel | ConnChain li_chain

definition partner_mapping :: "module_graph \<Rightarrow> string \<Rightarrow> string option" where
  "partner_mapping G n = (case map_of G n of None \<Rightarrow> None | Some m \<Rightarrow> mapping_of m)"

definition crossing_channel :: "module_graph \<Rightarrow> string option \<Rightarrow> li_channel \<Rightarrow> platform_conn list" where
  "crossing_channel G platformMapping c =
     (case ch_partner c of
        None \<Rightarrow> []
      | Some n \<Rightarrow>
          if platformMapping = partner_mapping G n then []
          else [ConnChannel (c\<lparr>ch_module := platformMapping\<rparr>)])"

definition module_connections :: "module_graph \<Rightarrow> li_mod \<Rightarrow> platform_conn list" where
  "module_connections G m =
     concat (map (crossing_channel G (mapping_of m)) (lm_channels m)) @
     map (\<lambda>c. ConnChain (c\<lparr>cn_module := mapping_of m\<rparr>)) (lm_chains m)"

definition platformConnections :: "module_graph \<Rightarrow> platform_conn list" where
  "platformConnections G = concat (map (module_connections G \<circ> snd) G)"

text \<open>The function \<open>PLACER_ALGORITHM\<close> names, among the two of this file.\<close>

definition run_placer ::
  "string \<Rightarrow> (module_graph \<Rightarrow> module_graph run) \<Rightarrow> (module_graph \<Rightarrow> module_graph run) \<Rightarrow>
   module_graph \<Rightarrow> module_graph run" where
  "run_placer algorithm byMap byILP G =
     (if algorithm = ''placeModulesWithMapFile'' then byMap G
      else if algorithm = ''placeModulesILP'' then byILP G
      else Some (Inl (NameError algorithm)))"

definition placeModules ::
  "string \<Rightarrow> (module_graph \<Rightarrow> module_graph run) \<Rightarrow> (module_graph \<Rightarrow> module_graph run) \<Rightarrow>
   (platform_conn list \<Rightarrow> module_graph) \<Rightarrow> string list \<Rightarrow> module_graph \<Rightarrow> (module_graph \<times> module_graph) run" where
  "placeModules algorithm byMap byILP mkGraph names G =
     bindO (run_placer algorithm byMap byILP (pin_platforms names G)) (\<lambda>G1.
       let platformGraph = mkGraph (platformConnections G1)
       in Some (Inr (map (\<lambda>(n, m). (n, put_mapping (lm_name m) m)) platformGraph, G1)))"

section \<open>What a solution of the program says\<close>

fun holds :: "valuation \<Rightarrow> ilp_item \<Rightarrow> bool" where
  "holds val (ModuleVar x) \<longleftrightarrow> val x = 0 \<or> val x = 1"
| "holds val (EdgeVar x) \<longleftrightarrow> val x = 0 \<or> val x = 1"
| "holds val (FixedVar x) \<longleftrightarrow> val x = 1"
| "holds val (Minimize ts) \<longleftrightarrow> True"
| "holds val (ModuleOne n xs) \<longleftrightarrow> sum_list (map val xs) = 1"
| "holds val (EdgeOne n xs) \<longleftrightarrow> sum_list (map val xs) = 1"
| "holds val (EdgeColor l xs x) \<longleftrightarrow> sum_list (map val xs) = val x"
| "holds val (ResourceLimit l ts k) \<longleftrightarrow> sum_list (map (\<lambda>(c, x). num_val c * val x) ts) \<le> num_val k"

definition satisfies :: "valuation \<Rightarrow> ilp_item list \<Rightarrow> bool" where
  "satisfies val items \<longleftrightarrow> list_all (holds val) items"

definition objective :: "valuation \<Rightarrow> (pynum \<times> string) list \<Rightarrow> rat" where
  "objective val ts = sum_list (map (\<lambda>(k, x). num_val k * val x) ts)"

text \<open>What a placement should be, without the program: every module on one platform that can run it, and no platform over its limits.\<close>

definition usage :: "module_graph \<Rightarrow> resources \<Rightarrow> (string \<Rightarrow> string option) \<Rightarrow> string \<Rightarrow> string \<Rightarrow> rat" where
  "usage G resources place p cls =
     sum_list (map (\<lambda>(n, m).
       if place n = Some p then
         (case map_of resources n of
            None \<Rightarrow> 0
          | Some r \<Rightarrow> (case map_of r cls of None \<Rightarrow> 0 | Some k \<Rightarrow> num_val k))
       else 0) G)"

definition may_run :: "(string \<times> platform) list \<Rightarrow> li_mod \<Rightarrow> string \<Rightarrow> bool" where
  "may_run ps m p =
     (case mapping_of m of
        None \<Rightarrow> (case map_of ps p of None \<Rightarrow> False | Some pl \<Rightarrow> isModuleCompatibleWithPlatform m pl)
      | Some q \<Rightarrow> p = q)"

definition within_limits ::
  "(string \<times> platform) list \<Rightarrow> module_graph \<Rightarrow> resources \<Rightarrow> pynum \<Rightarrow> (string \<Rightarrow> string option) \<Rightarrow> bool" where
  "within_limits ps G resources resource_threshold place \<longleftrightarrow>
     (\<forall>p r candidate k cls. p \<in> set (keys ps) \<and> map_of resources (p @ ''_platform'') = Some r \<and>
        (candidate, k) \<in> set r \<and> resource_class candidate = Some cls \<and> cls \<in> set resource_classes \<longrightarrow>
        usage G resources place p cls \<le> max 0 (num_val resource_threshold * num_val k))"

definition valid_placement ::
  "(string \<times> platform) list \<Rightarrow> module_graph \<Rightarrow> resources \<Rightarrow> pynum \<Rightarrow> (string \<Rightarrow> string option) \<Rightarrow> bool" where
  "valid_placement ps G resources resource_threshold place \<longleftrightarrow>
     (\<forall>(n, m) \<in> set G. \<exists>p. place n = Some p \<and> may_run ps m p) \<and>
     within_limits ps G resources resource_threshold place"

section \<open>Lemmas on the graph\<close>

lemma keys_map_module [simp]: "keys (map_module n p G) = keys G"
  by (simp add: map_module_def keys_def case_prod_unfold)

lemma mapping_put_mapping [simp]: "mapping_of (put_mapping p m) = Some p"
  by (simp add: put_mapping_def mod_attribute_def update_conv')

lemma map_of_map_module: "map_of (map_module k p G) n = map_option (\<lambda>m. if n = k then put_mapping p m else m) (map_of G n)"
  by (induction G) (auto simp: map_module_def)

lemma partner_map_module:
  "partner_mapping (map_module k p G) n = (if k = n \<and> n \<in> set (keys G) then Some p else partner_mapping G n)"
  by (auto simp: partner_mapping_def map_of_map_module keys_map_of split: option.splits)

lemma keys_read_colors [simp]: "keys (foldl (read_color val n) G colors) = keys G"
  by (induction colors arbitrary: G) (simp_all add: read_color_def)

lemma keys_read_solution [simp]: "keys (read_solution val mc G) = keys G"
  by (induction mc arbitrary: G) (auto simp: read_solution_def)

lemma partner_read_colors:
  "partner_mapping (foldl (read_color val n) G colors) n' =
     (if n = n' \<and> n \<in> set (keys G) \<and> filter (\<lambda>p. 0 < val (getColorModule n p)) colors \<noteq> []
      then Some (last (filter (\<lambda>p. 0 < val (getColorModule n p)) colors))
      else partner_mapping G n')"
  by (induction colors arbitrary: G) (auto simp: read_color_def partner_map_module)

lemma partner_read_other:
  "n \<notin> set (map fst mc) \<Longrightarrow> partner_mapping (read_solution val mc G) n = partner_mapping G n"
  by (induction mc arbitrary: G) (auto simp: read_solution_def partner_read_colors)

lemma partner_read_solution:
  assumes "distinct (map fst mc)" and "(n, colors) \<in> set mc" and "n \<in> set (keys G)"
    and "filter (\<lambda>p. 0 < val (getColorModule n p)) colors = [p]"
  shows "partner_mapping (read_solution val mc G) n = Some p"
  using assms
proof (induction mc arbitrary: G)
  case (Cons x mc)
  obtain k cs where x: "x = (k, cs)" by (cases x)
  have step: "read_solution val (x # mc) G = read_solution val mc (foldl (read_color val k) G cs)"
    by (simp add: read_solution_def x)
  show ?case
  proof (cases "k = n")
    case True
    with Cons.prems x have "cs = colors" by (auto simp: image_iff)
    with True Cons.prems x show ?thesis unfolding step by (simp add: partner_read_other partner_read_colors)
  next
    case False
    with Cons.prems x show ?thesis unfolding step by (simp add: Cons.IH)
  qed
qed simp

lemma module_colors_distinct: "distinct (keys ps) \<Longrightarrow> distinct (module_colors ps m)"
  by (auto simp: module_colors_def keys_def distinct_map_filter split: option.splits)

lemma module_colors_may_run:
  assumes "distinct (keys ps)"
  shows "p \<in> set (module_colors ps m) \<longleftrightarrow> may_run ps m p"
proof (cases "mapping_of m")
  case None
  have m: "map_of ps q = Some pl \<longleftrightarrow> (q, pl) \<in> set ps" for q pl
    using assms by (simp add: keys_def)
  have "p \<in> set (module_colors ps m) \<longleftrightarrow> (\<exists>pl. (p, pl) \<in> set ps \<and> isModuleCompatibleWithPlatform m pl)"
    using None by (force simp: module_colors_def)
  also have "\<dots> \<longleftrightarrow> may_run ps m p"
    using None by (auto simp: may_run_def m [symmetric] split: option.splits)
  finally show ?thesis .
qed (simp add: module_colors_def may_run_def)

section \<open>The solution is a placement\<close>

lemma binary_one:
  fixes f :: "'a \<Rightarrow> rat"
  assumes "\<forall>x \<in> set xs. f x = 0 \<or> f x = 1" and "sum_list (map f xs) = 1" and "distinct xs"
  shows "\<exists>p \<in> set xs. f p = 1 \<and> (\<forall>q \<in> set xs. q \<noteq> p \<longrightarrow> f q = 0)"
  using assms
proof (induction xs)
  case (Cons x xs)
  show ?case
  proof (cases "f x = 0")
    case True
    with Cons have "\<exists>p \<in> set xs. f p = 1 \<and> (\<forall>q \<in> set xs. q \<noteq> p \<longrightarrow> f q = 0)" by simp
    with True show ?thesis by auto
  next
    case False
    with Cons.prems have "f x = 1" "sum_list (map f xs) = 0" by auto
    moreover have "\<forall>y \<in> set (map f xs). 0 \<le> y" using Cons.prems(1) by auto
    ultimately have "\<forall>y \<in> set xs. f y = 0" using sum_list_nonneg_eq_0_iff [of "map f xs"] by auto
    with \<open>f x = 1\<close> show ?thesis by auto
  qed
qed simp

lemma filter_only: "distinct xs \<Longrightarrow> p \<in> set xs \<Longrightarrow> (\<And>q. q \<in> set xs \<Longrightarrow> P q \<longleftrightarrow> q = p) \<Longrightarrow> filter P xs = [p]"
proof (induction xs)
  case (Cons x xs)
  show ?case
  proof (cases "x = p")
    case True
    with Cons.prems have "filter P xs = []" by (auto simp: filter_empty_conv)
    with True Cons.prems show ?thesis by simp
  qed (use Cons in simp)
qed simp

text \<open>Every module has exactly one colour of value 1.\<close>

definition colored :: "valuation \<Rightarrow> (string \<times> platform) list \<Rightarrow> string \<Rightarrow> li_mod \<Rightarrow> string \<Rightarrow> bool" where
  "colored val ps n m p \<longleftrightarrow>
     p \<in> set (module_colors ps m) \<and> val (getColorModule n p) = 1 \<and>
     (\<forall>q \<in> set (module_colors ps m). q \<noteq> p \<longrightarrow> val (getColorModule n q) = 0)"

lemma one_color:
  assumes "distinct (keys ps)" and "list_all (holds val) (module_vars ps (n, m))" and "holds val (module_one ps (n, m))"
  shows "\<exists>p. colored val ps n m p"
proof (cases "mapping_of m")
  case None
  have "\<forall>p \<in> set (module_colors ps m). val (getColorModule n p) = 0 \<or> val (getColorModule n p) = 1"
    using assms(2) None by (simp add: module_vars_def list_all_iff)
  moreover have "sum_list (map (\<lambda>p. val (getColorModule n p)) (module_colors ps m)) = 1"
    using assms(3) by (simp add: module_one_def comp_def)
  ultimately show ?thesis
    using binary_one [of "module_colors ps m" "\<lambda>p. val (getColorModule n p)"] module_colors_distinct [OF assms(1)]
    unfolding colored_def by blast
next
  case (Some q)
  then have "val (getColorModule n q) = 1" using assms(2) by (simp add: module_vars_def)
  with Some have "colored val ps n m q" by (simp add: colored_def module_colors_def)
  then show ?thesis ..
qed

lemma colored_place:
  assumes "distinct (keys ps)" and "distinct (keys G)" and "(n, m) \<in> set G" and "colored val ps n m p"
  shows "partner_mapping (read_solution val (map (\<lambda>(n, m). (n, module_colors ps m)) G) G) n = Some p"
proof (rule partner_read_solution)
  show "distinct (map fst (map (\<lambda>(n, m). (n, module_colors ps m)) G))"
    using assms(2) by (simp add: keys_def comp_def case_prod_unfold)
  show "(n, module_colors ps m) \<in> set (map (\<lambda>(n, m). (n, module_colors ps m)) G)" using assms(3) by force
  show "n \<in> set (keys G)" using assms(3) by (force simp: keys_def)
  show "filter (\<lambda>p. 0 < val (getColorModule n p)) (module_colors ps m) = [p]"
    using assms(4) by (intro filter_only module_colors_distinct [OF assms(1)]) (auto simp: colored_def)
qed

text \<open>What the program requires of a solution, by its parts.\<close>

lemma program_parts:
  assumes "placer_program egress pathLength ps resources thr G = Inr items" and "satisfies val items"
  shows "(n, m) \<in> set G \<Longrightarrow> list_all (holds val) (module_vars ps (n, m))"
    and "(n, m) \<in> set G \<Longrightarrow> holds val (module_one ps (n, m))"
    and "x \<in> set (edge_list egress ps G) \<Longrightarrow> list_all (holds val) (edge_vars x)"
    and "p \<in> set (keys ps) \<Longrightarrow> list_all (holds val) (resource_limits ps G resources thr p)"
    and "\<exists>cs. color_edges ps (edge_dict (edge_list egress ps G)) G = Inr cs \<and> list_all (holds val) cs"
proof -
  obtain cs where cs: "color_edges ps (edge_dict (edge_list egress ps G)) G = Inr cs"
    "items = concat (map (module_vars ps) G) @ concat (map edge_vars (edge_list egress ps G)) @
       [Minimize (communicationsCosts pathLength (edge_dict (edge_list egress ps G)))] @ map (module_one ps) G @
       map edge_one (edge_dict (edge_list egress ps G)) @ cs @ concat (map (resource_limits ps G resources thr) (keys ps))"
    using assms(1) by (auto simp: placer_program_def Let_def res_simps)
  have all: "\<forall>i \<in> set items. holds val i" using assms(2) by (simp add: satisfies_def list_all_iff)
  show "(n, m) \<in> set G \<Longrightarrow> list_all (holds val) (module_vars ps (n, m))"
    using all by (force simp: cs(2) list_all_iff)
  show "(n, m) \<in> set G \<Longrightarrow> holds val (module_one ps (n, m))"
    using all by (force simp: cs(2))
  show "x \<in> set (edge_list egress ps G) \<Longrightarrow> list_all (holds val) (edge_vars x)"
    using all by (force simp: cs(2) list_all_iff)
  show "p \<in> set (keys ps) \<Longrightarrow> list_all (holds val) (resource_limits ps G resources thr p)"
    using all by (force simp: cs(2) list_all_iff)
  show "\<exists>cs. color_edges ps (edge_dict (edge_list egress ps G)) G = Inr cs \<and> list_all (holds val) cs"
    using all cs by (simp add: list_all_iff)
qed

text \<open>A resource limit bounds the usage of the modules placed on the platform.\<close>

lemma usage_terms:
  assumes "\<And>n m. (n, m) \<in> set G \<Longrightarrow> \<exists>q. place n = Some q \<and> colored val ps n m q"
  shows "usage G resources place p cls =
    sum_list (map (\<lambda>(c, x). num_val c * val x) (resource_terms ps G resources cls p))"
  using assms
proof (induction G)
  case (Cons x G)
  obtain n m where x: "x = (n, m)" by (cases x)
  from Cons.prems [of n m] x obtain q where q: "place n = Some q" "colored val ps n m q" by auto
  have IH: "usage G resources place p cls = sum_list (map (\<lambda>(c, x). num_val c * val x) (resource_terms ps G resources cls p))"
    using Cons by simp
  have v: "val (getColorModule n p) = (if p = q then 1 else 0)" if "p \<in> set (module_colors ps m)"
    using q(2) that by (auto simp: colored_def)
  have "p = q \<Longrightarrow> p \<in> set (module_colors ps m)" using q(2) by (simp add: colored_def)
  with q(1) v IH show ?case
    by (auto simp: x usage_def resource_terms_def split: option.splits)
qed (simp add: usage_def resource_terms_def)

lemma limits_hold:
  assumes "\<And>p. p \<in> set (keys ps) \<Longrightarrow> list_all (holds val) (resource_limits ps G resources thr p)"
    and "\<And>n m. (n, m) \<in> set G \<Longrightarrow> \<exists>q. place n = Some q \<and> colored val ps n m q"
  shows "within_limits ps G resources thr place"
  unfolding within_limits_def
proof (intro allI impI, elim conjE)
  fix p r candidate k cls
  assume p: "p \<in> set (keys ps)" and r: "map_of resources (p @ ''_platform'') = Some r"
    and c: "(candidate, k) \<in> set r" "resource_class candidate = Some cls" "cls \<in> set resource_classes"
  let ?ts = "resource_terms ps G resources cls p"
  have u: "usage G resources place p cls = sum_list (map (\<lambda>(c, x). num_val c * val x) ?ts)"
    using assms(2) by (rule usage_terms)
  show "usage G resources place p cls \<le> max 0 (num_val thr * num_val k)"
  proof (cases "?ts = []")
    case True
    with u show ?thesis by simp
  next
    case False
    have "ResourceLimit (''resource_'' @ cls @ ''_platform_'' @ p) ?ts (py_mul thr k) \<in> set (resource_limits ps G resources thr p)"
      using c False by (force simp: resource_limits_def r)
    with assms(1) [OF p] have "sum_list (map (\<lambda>(c, x). num_val c * val x) ?ts) \<le> num_val (py_mul thr k)"
      by (auto simp: list_all_iff)
    moreover have "num_val (py_mul thr k) = num_val thr * num_val k" by (cases thr; cases k) simp_all
    ultimately show ?thesis using u by simp
  qed
qed

lemma solution_places:
  assumes "distinct (keys ps)" and "distinct (keys G)"
    and "placer_program egress pathLength ps resources thr G = Inr items" and "satisfies val items"
    and "(n, m) \<in> set G"
  shows "\<exists>q. partner_mapping (read_solution val (map (\<lambda>(n, m). (n, module_colors ps m)) G) G) n = Some q \<and> colored val ps n m q"
  using one_color [OF assms(1) program_parts(1,2) [OF assms(3,4,5)]] colored_place [OF assms(1,2,5)] by blast

text \<open>
  C22: Placement by the integer program refines "place every module on one platform that can run
  it, within the limits": when the modules are decorated by the map and the solver answers the
  text of the program with a valuation that satisfies it, the placer returns a graph with the same
  modules in which every module is mapped, to its given platform or to one compatible with it, and
  the modules on a platform use no more of a resource than the threshold allows.
\<close>

theorem placeModulesILP_valid:
  assumes "decorateModulesWithMapFile read rootDir mappingFile ps G0 = Some (Inr G)"
    and "distinct (keys ps)" and "distinct (keys G)"
    and "placer_program egress pathLength ps (assignResources G) thr G = Inr items"
    and "satisfies (glpk (program_text fstr items)) items"
  shows "\<exists>G'. placeModulesILP read rootDir mappingFile glpk fstr egress pathLength assignResources thr ps G0 = Some (Inr G') \<and>
    keys G' = keys G \<and> valid_placement ps G (assignResources G) thr (partner_mapping G')"
proof -
  let ?val = "glpk (program_text fstr items)"
  let ?G' = "read_solution ?val (map (\<lambda>(n, m). (n, module_colors ps m)) G) G"
  have places: "\<exists>q. partner_mapping ?G' n = Some q \<and> colored ?val ps n m q" if "(n, m) \<in> set G" for n m
    using assms(2-5) that by (rule solution_places)
  have "within_limits ps G (assignResources G) thr (partner_mapping ?G')"
    using program_parts(4) [OF assms(4,5)] places by (rule limits_hold)
  moreover have "\<forall>(n, m) \<in> set G. \<exists>p. partner_mapping ?G' n = Some p \<and> may_run ps m p"
    using places by (fastforce simp: colored_def module_colors_may_run [OF assms(2)])
  ultimately show ?thesis
    using assms(1,4) by (simp add: placeModulesILP_def solve_placement_def valid_placement_def)
qed

section \<open>The objective is the traffic of the placement\<close>

text \<open>
  A graph is matched when its channels have distinct names and the module at each end lists the
  channel, at one end as a source and at the other not.
\<close>

definition matched :: "egress_fn \<Rightarrow> module_graph \<Rightarrow> bool" where
  "matched egress G \<longleftrightarrow>
     distinct (map (\<lambda>(n, m, n', m', c). ch_name c) (module_channels egress G)) \<and>
     (\<forall>(n, m, n', m', c) \<in> set (module_channels egress G).
        (\<exists>c1 \<in> set (lm_channels m). ch_name c1 = ch_name c \<and> ch_source c1) \<and>
        (\<exists>c2 \<in> set (lm_channels m'). ch_name c2 = ch_name c \<and> \<not> ch_source c2))"

definition hop_cost :: "(string \<Rightarrow> string \<Rightarrow> int) \<Rightarrow> string option \<Rightarrow> string option \<Rightarrow> rat" where
  "hop_cost pathLength src dst =
     (case (src, dst) of
        (Some p, Some q) \<Rightarrow> if p = q then 0 else of_int (pathLength p q)
      | _ \<Rightarrow> 0)"

definition traffic_cost :: "egress_fn \<Rightarrow> (string \<Rightarrow> string \<Rightarrow> int) \<Rightarrow> module_graph \<Rightarrow> (string \<Rightarrow> string option) \<Rightarrow> rat" where
  "traffic_cost egress pathLength G place =
     sum_list (map (\<lambda>(n, m, n', m', c). hop_cost pathLength (place n) (place n') * num_val (ch_activity c))
       (module_channels egress G))"

lemma module_channels_mem:
  "(n, m, n', m', c) \<in> set (module_channels egress G) \<Longrightarrow> (n, m) \<in> set G \<and> (n', m') \<in> set G"
  by (auto simp: module_channels_def split: if_splits)

lemma edge_dict_matched: "matched egress G \<Longrightarrow> edge_dict (edge_list egress ps G) = edge_list egress ps G"
  using foldl_put_distinct [of "[]" "edge_list egress ps G"]
  by (simp add: edge_dict_def matched_def edge_list_def keys_def comp_def case_prod_unfold)

lemma edge_lookup:
  assumes "matched egress G" and "(n, m, n', m', c) \<in> set (module_channels egress G)"
  shows "map_of (edge_list egress ps G) (ch_name c) = Some (mk_edge ps m m' c)"
proof (rule map_of_is_SomeI)
  show "distinct (map fst (edge_list egress ps G))"
    using assms(1) by (simp add: matched_def edge_list_def comp_def case_prod_unfold)
  show "(ch_name c, mk_edge ps m m' c) \<in> set (edge_list egress ps G)"
    using assms(2) by (force simp: edge_list_def)
qed

lemma mapR_mem: "mapR f xs = Inr ys \<Longrightarrow> x \<in> set xs \<Longrightarrow> \<exists>y \<in> set ys. f x = Inr y"
  by (induction xs arbitrary: ys) (auto simp: res_simps)

lemma color_edge_holds:
  assumes "color_edges ps edges G = Inr cs" and "list_all (holds val) cs"
    and "(n, m) \<in> set G" and "c \<in> set (lm_channels m)" and "color \<in> set (module_colors ps m)"
    and "map_of edges (ch_name c) = Some e"
  shows "sum_list (map val (if ch_source c then map (getColorEdge (ch_name c) color) (ie_dst e)
            else map (\<lambda>s. getColorEdge (ch_name c) s color) (ie_src e))) = val (getColorModule n color)"
proof -
  let ?f = "\<lambda>(n, m). concat (map (\<lambda>c. map (\<lambda>color. (n, c, color)) (module_colors ps m)) (lm_channels m))"
  have "(n, c, color) \<in> set (?f (n, m))" using assms(4,5) by force
  then have "(n, c, color) \<in> set (concat (map ?f G))" using assms(3) unfolding set_concat set_map by blast
  from mapR_mem [OF assms(1) [unfolded color_edges_def] this]
  obtain i where i: "i \<in> set cs" "color_edge edges n c color = Inr i" by auto
  have "holds val i" using assms(2) i(1) by (simp add: list_all_iff)
  with i(2) assms(6) show ?thesis by (auto simp: color_edge_def get_key_def)
qed

text \<open>The variable of an edge says where its two modules are.\<close>

lemma edge_value:
  assumes sol: "distinct (keys ps)" "matched egress G"
      "placer_program egress pathLength ps resources thr G = Inr items" "satisfies val items"
    and mem: "(n, m, n', m', c) \<in> set (module_channels egress G)"
    and col: "colored val ps n m p" "colored val ps n' m' q"
    and sd: "s \<in> set (module_colors ps m)" "d \<in> set (module_colors ps m')"
  shows "val (getColorEdge (ch_name c) s d) = (if s = p \<and> d = q then 1 else 0)"
proof -
  let ?v = "\<lambda>s d. val (getColorEdge (ch_name c) s d)"
  let ?src = "module_colors ps m" and ?dst = "module_colors ps m'"
  have G: "(n, m) \<in> set G" "(n', m') \<in> set G" using module_channels_mem [OF mem] by auto
  obtain cs where cs: "color_edges ps (edge_list egress ps G) G = Inr cs" "list_all (holds val) cs"
    using program_parts(5) [OF sol(3,4)] edge_dict_matched [OF sol(2)] by auto
  note lookup = edge_lookup [OF sol(2) mem]
  obtain c1 c2 where c1: "c1 \<in> set (lm_channels m)" "ch_name c1 = ch_name c" "ch_source c1"
    and c2: "c2 \<in> set (lm_channels m')" "ch_name c2 = ch_name c" "\<not> ch_source c2"
    using sol(2) mem unfolding matched_def by fastforce
  have row: "sum_list (map (?v s) ?dst) = val (getColorModule n s)" if "s \<in> set ?src" for s
    using color_edge_holds [OF cs G(1) c1(1) that] lookup c1 by (simp add: mk_edge_def comp_def)
  have column: "sum_list (map (\<lambda>s. ?v s d) ?src) = val (getColorModule n' d)" if "d \<in> set ?dst" for d
    using color_edge_holds [OF cs G(2) c2(1) that] lookup c2 by (simp add: mk_edge_def comp_def)
  have "(ch_name c, mk_edge ps m m' c) \<in> set (edge_list egress ps G)" using mem by (force simp: edge_list_def)
  from program_parts(3) [OF sol(3,4) this]
  have "list_all (holds val) (edge_vars (ch_name c, mk_edge ps m m' c))" .
  then have nonneg: "0 \<le> ?v s d" if "s \<in> set ?src" "d \<in> set ?dst" for s d
  proof -
    have "?v s d = 0 \<or> ?v s d = 1"
      using \<open>list_all (holds val) (edge_vars (ch_name c, mk_edge ps m m' c))\<close> that
      by (auto simp: edge_vars_def mk_edge_def edge_pairs_def list_all_iff length_Suc_conv split: if_splits)
    then show ?thesis by auto
  qed
  have off: "?v s d = 0" if "s \<in> set ?src" "d \<in> set ?dst" "s \<noteq> p \<or> d \<noteq> q" for s d
  proof (cases "s = p")
    case False
    with that(1) col(1) have "val (getColorModule n s) = 0" by (simp add: colored_def)
    with row [OF that(1)] have "\<forall>x \<in> set (map (?v s) ?dst). x = 0"
      using sum_list_nonneg_eq_0_iff [of "map (?v s) ?dst"] nonneg that(1) by auto
    with that(2) show ?thesis by simp
  next
    case True
    with that(2,3) col(2) have "val (getColorModule n' d) = 0" by (simp add: colored_def)
    with column [OF that(2)] have "\<forall>x \<in> set (map (\<lambda>s. ?v s d) ?src). x = 0"
      using sum_list_nonneg_eq_0_iff [of "map (\<lambda>s. ?v s d) ?src"] nonneg that(2) by auto
    with that(1) show ?thesis by simp
  qed
  have "sum_list (map (?v p) ?dst) = ?v p q"
    using col off by (intro sum_list_single module_colors_distinct [OF sol(1)]) (auto simp: colored_def)
  with row [of p] col(1) have "?v p q = 1" by (simp add: colored_def)
  with off sd show ?thesis by auto
qed

lemma edge_cost:
  assumes sol: "distinct (keys ps)" "matched egress G"
      "placer_program egress pathLength ps resources thr G = Inr items" "satisfies val items"
    and mem: "(n, m, n', m', c) \<in> set (module_channels egress G)"
    and col: "colored val ps n m p" "colored val ps n' m' q"
  shows "sum_list (map (\<lambda>(s, d). num_val (pair_weight pathLength (mk_edge ps m m' c) (s, d)) * val (getColorEdge (ch_name c) s d))
            (edge_pairs (mk_edge ps m m' c))) =
    hop_cost pathLength (Some p) (Some q) * num_val (ch_activity c)" (is "sum_list (map ?f ?xs) = _")
proof -
  have v: "val (getColorEdge (ch_name c) s d) = (if s = p \<and> d = q then 1 else 0)"
    if "s \<in> set (module_colors ps m)" "d \<in> set (module_colors ps m')" for s d
    using that by (rule edge_value [OF sol mem col])
  have pq: "p \<in> set (module_colors ps m)" "q \<in> set (module_colors ps m')" using col by (simp_all add: colored_def)
  have "sum_list (map ?f ?xs) = ?f (p, q)"
  proof (rule sum_list_single)
    show "distinct ?xs"
      by (simp add: edge_pairs_def mk_edge_def distinct_product module_colors_distinct [OF sol(1)])
    show "(p, q) \<in> set ?xs" using pq by (simp add: edge_pairs_def mk_edge_def)
    show "?f x = 0" if "x \<in> set ?xs" "x \<noteq> (p, q)" for x
      using that v by (auto simp: edge_pairs_def mk_edge_def split: if_splits)
  qed
  also have "\<dots> = hop_cost pathLength (Some p) (Some q) * num_val (ch_activity c)"
    using v [OF pq] by (cases "ch_activity c") (simp_all add: pair_weight_def hop_cost_def mk_edge_def)
  finally show ?thesis .
qed

text \<open>
  C36: The objective of the integer program is the traffic of the placement it stands for: on a
  graph whose channels are matched, every solution gives \<open>minimize comms\<close> the sum, over the channels between
  modules, of the activity of the channel times the length of the path between the platforms the
  placer then maps its two modules to.
\<close>

theorem objective_is_traffic:
  assumes "distinct (keys ps)" and "distinct (keys G)" and "matched egress G"
    and "placer_program egress pathLength ps resources thr G = Inr items" and "satisfies val items"
  shows "objective val (communicationsCosts pathLength (edge_dict (edge_list egress ps G))) =
    traffic_cost egress pathLength G
      (partner_mapping (read_solution val (map (\<lambda>(n, m). (n, module_colors ps m)) G) G))"
proof -
  let ?place = "partner_mapping (read_solution val (map (\<lambda>(n, m). (n, module_colors ps m)) G) G)"
  let ?edgesum = "\<lambda>(n, m, n', m', c). sum_list (map (\<lambda>(s, d). num_val (pair_weight pathLength (mk_edge ps m m' c) (s, d)) *
      val (getColorEdge (ch_name c) s d)) (edge_pairs (mk_edge ps m m' c)))"
  have "?edgesum x = (\<lambda>(n, m, n', m', c). hop_cost pathLength (?place n) (?place n') * num_val (ch_activity c)) x"
    if mem: "x \<in> set (module_channels egress G)" for x
  proof -
    obtain n m n' m' c where x: "x = (n, m, n', m', c)" by (cases x)
    have G: "(n, m) \<in> set G" "(n', m') \<in> set G" using module_channels_mem mem x by auto
    obtain p q where "?place n = Some p" "colored val ps n m p" "?place n' = Some q" "colored val ps n' m' q"
      using solution_places [OF assms(1,2,4,5) G(1)] solution_places [OF assms(1,2,4,5) G(2)] by blast
    with edge_cost [OF assms(1,3,4,5)] mem x show ?thesis by simp
  qed
  then have "sum_list (map ?edgesum (module_channels egress G)) = traffic_cost egress pathLength G ?place"
    by (simp add: traffic_cost_def cong: map_cong)
  moreover have "sum_list (map f (concat xss)) = sum_list (map (\<lambda>xs. sum_list (map f xs)) xss)"
    for f :: "pynum \<times> string \<Rightarrow> rat" and xss by (induction xss) simp_all
  then have "objective val (communicationsCosts pathLength (edge_list egress ps G)) = sum_list (map ?edgesum (module_channels egress G))"
    by (simp add: objective_def communicationsCosts_def edge_list_def comp_def case_prod_unfold)
  ultimately show ?thesis using edge_dict_matched [OF assms(3)] by simp
qed

section \<open>A sample program\<close>

definition sample_places :: "(string \<times> platform) list" where
  "sample_places =
     [(''F0'', mk_platform ''FPGA'' ''F0'' True ''a.apm'' []), (''F1'', mk_platform ''FPGA'' ''F1'' False ''b.apm'' [])]"

definition sample_modules :: module_graph where
  "sample_modules =
     [(''F0'', \<lparr>lm_name = ''F0'', lm_attributes = [(''EXECUTION_TYPE'', ''RTL''), (''MAPPING'', ''F0'')],
        lm_channels = [\<lparr>ch_name = ''c'', ch_activity = PyInt 5, ch_source = True, ch_partner = Some ''alu'', ch_module = Some ''F0''\<rparr>],
        lm_chains = []\<rparr>),
      (''alu'', \<lparr>lm_name = ''alu'', lm_attributes = [(''EXECUTION_TYPE'', ''RTL'')],
        lm_channels = [\<lparr>ch_name = ''c'', ch_activity = PyInt 5, ch_source = False, ch_partner = Some ''F0'', ch_module = Some ''alu''\<rparr>],
        lm_chains = []\<rparr>)]"

definition sample_egress :: egress_fn where
  "sample_egress m n = filter (\<lambda>c. ch_source c \<and> ch_partner c = Some n) (lm_channels m)"

definition sample_resources :: resources where
  "sample_resources =
     [(''F0_platform'', [(''TotalLUT'', PyInt 20)]), (''F1_platform'', [(''TotalLUT'', PyInt 100)]), (''alu'', [(''LUT'', PyInt 40)])]"

text \<open>The module does not fit beside the first platform.\<close>

definition sample_solution :: valuation where
  "sample_solution x = (if x \<in> set [''color_F0_is_F0'', ''color_alu_is_F1'', ''colorPair_c_is_F0_to_F1''] then 1 else 0)"

definition sample_items :: "ilp_item list" where
  "sample_items =
     (case placer_program sample_egress (\<lambda>_ _. 1) sample_places sample_resources (PyFloat (4 / 5)) sample_modules of
        Inr items \<Rightarrow> items | Inl _ \<Rightarrow> [])"

lemma sample_items:
  "placer_program sample_egress (\<lambda>_ _. 1) sample_places sample_resources (PyFloat (4 / 5)) sample_modules = Inr sample_items"
  by code_simp

lemma sample_satisfied: "satisfies sample_solution sample_items"
  by code_simp

theorem placeModulesILP_valid_witness:
  "\<exists>G'. placeModulesILP (\<lambda>_. []) ''hw'' [''m.map''] (\<lambda>_. sample_solution) (\<lambda>_. []) sample_egress (\<lambda>_ _. 1)
      (\<lambda>_. sample_resources) (PyFloat (4 / 5)) sample_places sample_modules = Some (Inr G') \<and>
    keys G' = keys sample_modules \<and>
    valid_placement sample_places sample_modules sample_resources (PyFloat (4 / 5)) (partner_mapping G')"
proof (rule placeModulesILP_valid)
  show "decorateModulesWithMapFile (\<lambda>_. []) ''hw'' [''m.map''] sample_places sample_modules = Some (Inr sample_modules)"
    by code_simp
  show "distinct (keys sample_places)" "distinct (keys sample_modules)" by code_simp+
  show "placer_program sample_egress (\<lambda>_ _. 1) sample_places sample_resources (PyFloat (4 / 5)) sample_modules = Inr sample_items"
    by (rule sample_items)
  show "satisfies sample_solution sample_items" by (rule sample_satisfied)
qed

theorem objective_is_traffic_witness:
  "objective sample_solution (communicationsCosts (\<lambda>_ _. 1) (edge_dict (edge_list sample_egress sample_places sample_modules))) =
   traffic_cost sample_egress (\<lambda>_ _. 1) sample_modules
     (partner_mapping (read_solution sample_solution (map (\<lambda>(n, m). (n, module_colors sample_places m)) sample_modules) sample_modules))"
proof (rule objective_is_traffic)
  show "distinct (keys sample_places)" "distinct (keys sample_modules)" by code_simp+
  show "matched sample_egress sample_modules" by code_simp
  show "placer_program sample_egress (\<lambda>_ _. 1) sample_places sample_resources (PyFloat (4 / 5)) sample_modules = Inr sample_items"
    by (rule sample_items)
  show "satisfies sample_solution sample_items" by (rule sample_satisfied)
qed

text \<open>\<open>getPathLength\<close> answers -1 where there is no path: the program then gains from a pair of platforms without one.\<close>

lemma unreachable_pair_is_cheap:
  assumes "s \<noteq> d"
  shows "pair_weight (\<lambda>_ _. - 1) e (s, d) = py_mul (PyInt (- 1)) (ie_activity e)"
  using assms by (simp add: pair_weight_def)

text \<open>With two mapping files the message fails.\<close>

lemma two_mapping_files:
  "placeModulesWithMapFile read rootDir [f, g] ps G = Some (Inl (NameError ''envFile''))"
  by (simp add: placeModulesWithMapFile_def decorateModulesWithMapFile_def)

end
