(* ===== verification/LimConnect.thy ===== *)
theory LimConnect
  imports Connections FpgaEnvironment Patterns
begin

text \<open>
  \<^verbatim>\<open>lim_connect/LIMConnect.py\<close>: the widths of the physical connections read from the logs, and the
  routing of channels and chains, which replaces a connection between distant platforms by one hop per
  platform on the way.  The graph belongs to the \<open>li_module\<close> package, which is not part of this
  repository: its operations are the fields of a record, and what the routing relies on is the
  predicate \<open>ops_ok\<close>.  The lemmas show that every route leads from its source to its sink.
\<close>

section \<open>Connections and graph\<close>

text \<open>What routing writes beside the attributes of \<open>connection\<close>.\<close>

record li_conn = connection +
  raw_type :: string
  type_structure :: string
  route_through :: bool
  matched_flag :: bool
  partnerModule :: string
  sinkPartnerModule :: string
  sourcePartnerModule :: string

text \<open>\<open>modules\<close> maps a platform to the references of its channels and chains.\<close>

record route_state =
  conns :: "nat \<Rightarrow> li_conn"
  mod_names :: "string list"
  mod_channels :: "string \<Rightarrow> nat list"
  mod_chains :: "string \<Rightarrow> nat list"
  allocated :: nat

record li_ops =
  blank :: li_conn
  isSource :: "li_conn \<Rightarrow> bool"
  platform_of :: "li_conn \<Rightarrow> string"
  addChannel :: "string \<Rightarrow> li_conn \<Rightarrow> route_state \<Rightarrow> nat \<times> route_state"
  matchGraphChannels :: "route_state \<Rightarrow> route_state"
  checkUnmatchedChannels :: "route_state \<Rightarrow> bool"
  deleteChain :: "string \<Rightarrow> string \<Rightarrow> route_state \<Rightarrow> route_state"

section \<open>One path\<close>

definition hop_name :: "li_ops \<Rightarrow> li_conn \<Rightarrow> li_conn \<Rightarrow> string \<Rightarrow> string" where
  "hop_name ops src sink hop =
     conn_name src @ ''RoutethroughFrom_'' @ platform_of ops src @ ''_To_'' @ platform_of ops sink @ ''_Via'' @ hop"

definition hop_channel :: "li_ops \<Rightarrow> string \<Rightarrow> li_conn \<Rightarrow> li_conn \<Rightarrow> pynum \<Rightarrow> string \<Rightarrow> li_conn" where
  "hop_channel ops dir src sink act hop =
     (blank ops)\<lparr>conn_class := LIChannel, conn_name := hop_name ops src sink hop, sc_type := dir,
        bitwidth := bitwidth src, activity := act, conn_module := hop, raw_type := raw_type src,
        type_structure := type_structure src, route_through := True\<rparr>"

text \<open>One iteration of the loop over the path: the state, \<open>srcs\<close> and \<open>sinks\<close>.\<close>

definition add_hop ::
  "li_ops \<Rightarrow> nat \<Rightarrow> nat \<Rightarrow> route_state \<times> nat list \<times> nat list \<Rightarrow> string \<Rightarrow> (route_state \<times> nat list \<times> nat list) res" where
  "add_hop ops src sink = (\<lambda>(S, srcs, sinks) hop.
     bindR (raise_if (hop \<notin> set (mod_names S)) (KeyError hop)) (\<lambda>_.
       let (newSink, S1) = addChannel ops hop
             (hop_channel ops ''Recv'' (conns S src) (conns S sink) (activity (conns S sink)) hop) S;
           (newSrc, S2) = addChannel ops hop
             (hop_channel ops ''Send'' (conns S1 src) (conns S1 sink) (activity (conns S1 src)) hop) S1
       in Inr (S2, srcs @ [newSrc], sinks @ [newSink])))"

definition set_conn :: "nat \<Rightarrow> (li_conn \<Rightarrow> li_conn) \<Rightarrow> route_state \<Rightarrow> route_state" where
  "set_conn k f S = S\<lparr>conns := (conns S)(k := f (conns S k))\<rparr>"

definition link_source :: "nat \<Rightarrow> nat \<Rightarrow> route_state \<Rightarrow> route_state" where
  "link_source a b S =
     (case conn_class (conns S a) of
        LIChannel \<Rightarrow>
          set_conn a (\<lambda>c. c\<lparr>partnerChannel := b, partnerModule := conn_module (conns S b), matched_flag := True\<rparr>) S
      | LIChain \<Rightarrow> set_conn a (\<lambda>c. c\<lparr>sinkPartnerChain := b, sinkPartnerModule := conn_module (conns S b)\<rparr>) S)"

definition link_sink :: "nat \<Rightarrow> nat \<Rightarrow> route_state \<Rightarrow> route_state" where
  "link_sink a b S =
     (case conn_class (conns S b) of
        LIChannel \<Rightarrow>
          set_conn b (\<lambda>c. c\<lparr>partnerChannel := a, partnerModule := conn_module (conns S a), matched_flag := True\<rparr>) S
      | LIChain \<Rightarrow> set_conn b (\<lambda>c. c\<lparr>sourcePartnerChain := a, sourcePartnerModule := conn_module (conns S a)\<rparr>) S)"

definition link_pair :: "route_state \<Rightarrow> nat \<times> nat \<Rightarrow> route_state" where
  "link_pair S = (\<lambda>(a, b). link_sink a b (link_source a b S))"

type_synonym path_fn = "string \<Rightarrow> string \<Rightarrow> string list run"

definition connectPath :: "li_ops \<Rightarrow> path_fn \<Rightarrow> nat \<Rightarrow> nat \<Rightarrow> route_state \<Rightarrow> route_state run" where
  "connectPath ops path src sink S =
     bindO (path (platform_of ops (conns S src)) (platform_of ops (conns S sink))) (\<lambda>hops.
     bindO (Some (foldR (add_hop ops src sink) (S, [src], []) hops)) (\<lambda>(S1, srcs, sinks).
       Some (Inr (foldl link_pair (matchGraphChannels ops S1) (zip srcs (sinks @ [sink]))))))"

section \<open>All connections\<close>

text \<open>
  The loop over the channels of a platform reads the list the routes may append to, by position.
\<close>

partial_function (option) route_channels ::
  "li_ops \<Rightarrow> path_fn \<Rightarrow> string \<Rightarrow> nat \<Rightarrow> route_state \<Rightarrow> route_state run" where
  "route_channels ops path p i S =
     (if length (mod_channels S p) \<le> i then Some (Inr S)
      else (case (if isSource ops (conns S (mod_channels S p ! i))
                  then connectPath ops path (mod_channels S p ! i) (partnerChannel (conns S (mod_channels S p ! i))) S
                  else Some (Inr S)) of
              None \<Rightarrow> None
            | Some r \<Rightarrow> (case r of Inl e \<Rightarrow> Some (Inl e) | Inr S' \<Rightarrow> route_channels ops path p (Suc i) S')))"

text \<open>\<open>danglingChainIngresses\<close>; the egresses are filled in the same way.\<close>

definition add_dangling :: "route_state \<Rightarrow> (string \<times> nat list) list \<Rightarrow> nat \<Rightarrow> (string \<times> nat list) list" where
  "add_dangling S d c =
     (case map_of d (conn_name (conns S c)) of
        Some cs \<Rightarrow> put (conn_name (conns S c)) (cs @ [c]) d
      | None \<Rightarrow> put (conn_name (conns S c)) [c] d)"

definition route_platform ::
  "li_ops \<Rightarrow> path_fn \<Rightarrow> route_state \<times> (string \<times> nat list) list \<Rightarrow> string \<Rightarrow> (route_state \<times> (string \<times> nat list) list) run" where
  "route_platform ops path = (\<lambda>(S, d) p.
     bindO (Some (raise_if (p \<notin> set (mod_names S)) (KeyError p))) (\<lambda>_.
     bindO (route_channels ops path p 0 S) (\<lambda>S'.
       Some (Inr (S', foldl (add_dangling S') d (mod_chains S' p))))))"

definition drop_single ::
  "li_ops \<Rightarrow> route_state \<times> (string \<times> nat list) list \<Rightarrow> string \<times> nat list \<Rightarrow> route_state \<times> (string \<times> nat list) list" where
  "drop_single ops = (\<lambda>(S, d) (name, cs).
     if length cs < 2 then (deleteChain ops (conn_module (conns S (hd cs))) name S, filter (\<lambda>(n, _). n \<noteq> name) d)
     else (S, d))"

text \<open>The egresses are the chains rotated by one.\<close>

definition route_chain_pair :: "li_ops \<Rightarrow> path_fn \<Rightarrow> route_state \<Rightarrow> nat \<times> nat \<Rightarrow> route_state run" where
  "route_chain_pair ops path S = (\<lambda>(ingress, egress).
     if conn_module (conns S egress) = conn_module (conns S ingress) then Some (Inl (SystemExit 0))
     else connectPath ops path ingress egress S)"

definition route_chain :: "li_ops \<Rightarrow> path_fn \<Rightarrow> route_state \<Rightarrow> string \<times> nat list \<Rightarrow> route_state run" where
  "route_chain ops path S = (\<lambda>(name, cs). foldO (route_chain_pair ops path) S (zip cs (rotate1 cs)))"

definition routeConnections :: "li_ops \<Rightarrow> path_fn \<Rightarrow> string list \<Rightarrow> route_state \<Rightarrow> route_state run" where
  "routeConnections ops path names S =
     bindO (foldO (route_platform ops path) (S, []) names) (\<lambda>(S1, d).
       let (S2, d') = foldl (drop_single ops) (S1, d) d
       in bindO (foldO (route_chain ops path) S2 d') (\<lambda>S3.
            let S4 = matchGraphChannels ops S3
            in if checkUnmatchedChannels ops S4 then Some (Inl (NameError ''mergedGraph''))
               else Some (Inr S4)))"

section \<open>Widths of the physical connections\<close>

definition via_size_pat :: "pat list" where
  "via_size_pat = [Rep 0 any_char, Lit ''SizeOfVia:'', Cap 0 any_char, Eol]"

definition not_colon :: "char \<Rightarrow> bool" where
  "not_colon c \<longleftrightarrow> c \<noteq> CHR '':''"

definition via_width_pat :: "pat list" where
  "via_width_pat = [Cap 1 not_colon, Lit '':'', Cap 1 not_colon, Lit '':'', Cap 1 is_digit]"

text \<open>\<open>getIngressByPhysicalName(n).width = w\<close>; without such a connection the code warns.\<close>

definition set_width :: "via_direction \<Rightarrow> string \<Rightarrow> int \<Rightarrow> platform \<Rightarrow> platform" where
  "set_width d n w p =
     (case map_of (if d = Ingress then ingressesByPhysicalName p else egressesByPhysicalName p) n of
        None \<Rightarrow> p
      | Some i \<Rightarrow> p\<lparr>physicalVias := (physicalVias p)[i := (physicalVias p ! i)\<lparr>pv_width := Some w\<rparr>]\<rparr>)"

definition width_line :: "platform \<Rightarrow> string \<Rightarrow> platform res" where
  "width_line p line =
     (case re_match via_size_pat line of
        Some (via_text # _) \<Rightarrow>
          (case re_search via_width_pat via_text of
             Some [n, dir, w] \<Rightarrow>
               bindR (py_int w) (\<lambda>k. Inr (set_width (if dir = ''ingress'' then Ingress else Egress) n k p))
           | _ \<Rightarrow> Inr p)
      | _ \<Rightarrow> Inr p)"

text \<open>
  \<open>logs\<close> holds, for every module, its mapping and the lines of its log files.
\<close>

definition width_platform :: "(string option \<times> string list) list \<Rightarrow> (string \<times> platform) list \<Rightarrow> string \<Rightarrow> (string \<times> platform) list res" where
  "width_platform logs ps name =
     bindR (get_key ps name (KeyError name)) (\<lambda>p.
     bindR (foldR width_line p (concat (map snd (filter (\<lambda>(mapping, _). mapping = Some name) logs)))) (\<lambda>p'.
       Inr (put name p' ps)))"

definition parseWidth :: "(string option \<times> string list) list \<Rightarrow> fpga_env \<Rightarrow> fpga_env res" where
  "parseWidth logs env =
     bindR (foldR (width_platform logs) (platforms env) (getPlatformNames env)) (\<lambda>ps.
       Inr (env\<lparr>platforms := ps\<rparr>))"

section \<open>A route arrives\<close>

text \<open>
  What routing relies on: \<open>addChannel\<close> stores the channel under a new reference and changes
  nothing else of the connections, and matching changes no label.
\<close>

definition label :: "li_conn \<Rightarrow> conn_class \<times> string \<times> string \<times> string \<times> bool" where
  "label c = (conn_class c, conn_name c, sc_type c, conn_module c, route_through c)"

definition ops_ok :: "li_ops \<Rightarrow> bool" where
  "ops_ok ops \<longleftrightarrow>
     (\<forall>p c S k S'. addChannel ops p c S = (k, S') \<longrightarrow>
        allocated S \<le> k \<and> k < allocated S' \<and> label (conns S' k) = label c \<and> mod_names S' = mod_names S \<and>
        (\<forall>j. j \<noteq> k \<longrightarrow> conns S' j = conns S j)) \<and>
     (\<forall>S j. label (conns (matchGraphChannels ops S) j) = label (conns S j))"

definition sink_of :: "route_state \<Rightarrow> nat \<Rightarrow> nat" where
  "sink_of S a = (case conn_class (conns S a) of LIChannel \<Rightarrow> partnerChannel (conns S a) | LIChain \<Rightarrow> sinkPartnerChain (conns S a))"

definition source_of :: "route_state \<Rightarrow> nat \<Rightarrow> nat" where
  "source_of S b = (case conn_class (conns S b) of LIChannel \<Rightarrow> partnerChannel (conns S b) | LIChain \<Rightarrow> sourcePartnerChain (conns S b))"

definition linked :: "route_state \<Rightarrow> nat \<times> nat \<Rightarrow> bool" where
  "linked S = (\<lambda>(a, b). sink_of S a = b \<and> source_of S b = a)"

text \<open>A receiver and a sender of one name on one platform form the route-through of that platform.\<close>

definition bridge :: "route_state \<Rightarrow> string \<Rightarrow> nat \<Rightarrow> nat \<Rightarrow> bool" where
  "bridge S hop x y \<longleftrightarrow>
     (\<exists>n. label (conns S x) = (LIChannel, n, ''Recv'', hop, True) \<and> label (conns S y) = (LIChannel, n, ''Send'', hop, True))"

inductive delivers :: "route_state \<Rightarrow> nat \<Rightarrow> string list \<Rightarrow> nat \<Rightarrow> bool" for S where
  arrive: "linked S (a, b) \<Longrightarrow> delivers S a [] b"
| through: "linked S (a, x) \<Longrightarrow> bridge S hop x y \<Longrightarrow> delivers S y hops b \<Longrightarrow> delivers S a (hop # hops) b"

fun bridges :: "route_state \<Rightarrow> string list \<Rightarrow> nat list \<Rightarrow> nat list \<Rightarrow> bool" where
  "bridges S [] [] [] \<longleftrightarrow> True"
| "bridges S (h # hs) (x # xs) (y # ys) \<longleftrightarrow> bridge S h x y \<and> bridges S hs xs ys"
| "bridges S _ _ _ \<longleftrightarrow> False"

lemma delivers_list:
  "bridges S hops sinks srcs \<Longrightarrow> list_all (linked S) (zip (src # srcs) (sinks @ [sink])) \<Longrightarrow> delivers S src hops sink"
  by (induction S hops sinks srcs arbitrary: src rule: bridges.induct) (auto intro: delivers.intros)

lemma bridges_cong:
  assumes "\<And>j. label (conns S' j) = label (conns S j)"
  shows "bridges S' hops xs ys = bridges S hops xs ys"
  using assms by (induction S hops xs ys rule: bridges.induct) (simp_all add: bridge_def)

lemma bridges_update:
  assumes "bridges S hops xs ys" and "\<And>j. j \<in> set (xs @ ys) \<Longrightarrow> conns S' j = conns S j"
  shows "bridges S' hops xs ys"
  using assms by (induction S hops xs ys rule: bridges.induct) (simp_all add: bridge_def)

subsection \<open>The new channels\<close>

lemma add_hops:
  assumes "ops_ok ops" and "set hops \<subseteq> set (mod_names S)" and "src < allocated S" and "sink < allocated S"
  shows "\<exists>S' srcs sinks. foldR (add_hop ops src sink) (S, srcs0, sinks0) hops = Inr (S', srcs0 @ srcs, sinks0 @ sinks) \<and>
    bridges S' hops sinks srcs \<and> distinct (srcs @ sinks) \<and> (\<forall>k \<in> set (srcs @ sinks). allocated S \<le> k) \<and>
    (\<forall>j < allocated S. conns S' j = conns S j)"
  using assms(2-4)
proof (induction hops arbitrary: S srcs0 sinks0)
  case (Cons hop hops)
  obtain x S1 where x: "addChannel ops hop
      (hop_channel ops ''Recv'' (conns S src) (conns S sink) (activity (conns S sink)) hop) S = (x, S1)"
    by (cases "addChannel ops hop (hop_channel ops ''Recv'' (conns S src) (conns S sink) (activity (conns S sink)) hop) S")
  obtain y S2 where y: "addChannel ops hop
      (hop_channel ops ''Send'' (conns S1 src) (conns S1 sink) (activity (conns S1 src)) hop) S1 = (y, S2)"
    by (cases "addChannel ops hop (hop_channel ops ''Send'' (conns S1 src) (conns S1 sink) (activity (conns S1 src)) hop) S1")
  have px: "allocated S \<le> x" "x < allocated S1" "mod_names S1 = mod_names S" "\<forall>j. j \<noteq> x \<longrightarrow> conns S1 j = conns S j"
      "label (conns S1 x) = label (hop_channel ops ''Recv'' (conns S src) (conns S sink) (activity (conns S sink)) hop)"
    using assms(1) x unfolding ops_ok_def by blast+
  have py: "allocated S1 \<le> y" "y < allocated S2" "mod_names S2 = mod_names S1" "\<forall>j. j \<noteq> y \<longrightarrow> conns S2 j = conns S1 j"
      "label (conns S2 y) = label (hop_channel ops ''Send'' (conns S1 src) (conns S1 sink) (activity (conns S1 src)) hop)"
    using assms(1) y unfolding ops_ok_def by blast+
  have "src < allocated S2" "sink < allocated S2" "set hops \<subseteq> set (mod_names S2)"
    using Cons.prems px(1-3) py(1-3) by auto
  from Cons.IH [OF this(3,1,2), of "srcs0 @ [y]" "sinks0 @ [x]"] obtain S' srcs sinks where IH:
    "foldR (add_hop ops src sink) (S2, srcs0 @ [y], sinks0 @ [x]) hops = Inr (S', srcs0 @ y # srcs, sinks0 @ x # sinks)"
    "bridges S' hops sinks srcs" "distinct (srcs @ sinks)" "\<forall>k \<in> set (srcs @ sinks). allocated S2 \<le> k"
    "\<forall>j < allocated S2. conns S' j = conns S2 j" by auto
  have old: "conns S1 src = conns S src" "conns S1 sink = conns S sink" using px(1,4) Cons.prems by auto
  have "conns S' x = conns S1 x" "conns S' y = conns S2 y" using IH(5) px(2) py(1,2,4) by auto
  then have "bridge S' hop x y"
    using px(5) py(5) old by (simp add: bridge_def label_def hop_channel_def hop_name_def)
  moreover have "foldR (add_hop ops src sink) (S, srcs0, sinks0) (hop # hops) = Inr (S', srcs0 @ y # srcs, sinks0 @ x # sinks)"
    using Cons.prems(1) x y IH(1) by (simp add: add_hop_def raise_if_def)
  moreover have "k \<noteq> x \<and> k \<noteq> y" if "k \<in> set (srcs @ sinks)" for k
  proof -
    have "allocated S2 \<le> k" using IH(4) that by blast
    with px(2) py(1,2) show ?thesis by auto
  qed
  then have "distinct ((y # srcs) @ (x # sinks))" using IH(3) px(2) py(1) by fastforce
  moreover have "\<forall>k \<in> set ((y # srcs) @ (x # sinks)). allocated S \<le> k"
  proof
    fix k
    assume "k \<in> set ((y # srcs) @ (x # sinks))"
    then consider "k = y" | "k = x" | "k \<in> set (srcs @ sinks)" by auto
    then show "allocated S \<le> k"
      using IH(4) px(1,2) py(1,2) by cases (use IH(4) in \<open>fastforce+\<close>)
  qed
  moreover have "\<forall>j < allocated S. conns S' j = conns S j"
  proof (intro allI impI)
    fix j
    assume "j < allocated S"
    with px(1,2) py(1,2) have "j < allocated S2" "j \<noteq> x" "j \<noteq> y" by auto
    with IH(5) px(4) py(4) show "conns S' j = conns S j" by simp
  qed
  ultimately show ?case using IH(2) by (intro exI [of _ S'] exI [of _ "y # srcs"] exI [of _ "x # sinks"]) auto
qed simp

subsection \<open>The links\<close>

lemma label_link_pair [simp]: "label (conns (link_pair S x) j) = label (conns S j)"
  by (cases x) (auto simp: link_pair_def link_source_def link_sink_def set_conn_def label_def split: conn_class.splits)

lemma label_link_pairs [simp]: "label (conns (foldl link_pair S xs) j) = label (conns S j)"
  by (induction xs arbitrary: S) simp_all

lemma link_pair_links: "a \<noteq> b \<Longrightarrow> linked (link_pair S (a, b)) (a, b)"
  by (auto simp: linked_def sink_of_def source_of_def link_pair_def link_source_def link_sink_def set_conn_def
      split: conn_class.splits)

lemma link_pair_other: "j \<notin> {a, b} \<Longrightarrow> conns (link_pair S (a, b)) j = conns S j"
  by (auto simp: link_pair_def link_source_def link_sink_def set_conn_def split: conn_class.splits)

lemma link_pairs_other: "j \<notin> set (map fst xs @ map snd xs) \<Longrightarrow> conns (foldl link_pair S xs) j = conns S j"
  by (induction xs arbitrary: S) (auto simp: link_pair_other)

lemma link_pairs_link: "distinct (map fst xs @ map snd xs) \<Longrightarrow> list_all (linked (foldl link_pair S xs)) xs"
proof (induction xs arbitrary: S)
  case (Cons x xs)
  obtain a b where x: "x = (a, b)" by (cases x)
  have ab: "a \<noteq> b" "a \<notin> set (map fst xs @ map snd xs)" "b \<notin> set (map fst xs @ map snd xs)"
    and d: "distinct (map fst xs @ map snd xs)"
    using Cons.prems x by auto
  have "linked (link_pair S x) x" using ab(1) x by (simp add: link_pair_links)
  then have "linked (foldl link_pair (link_pair S x) xs) x"
    using link_pairs_other [OF ab(2)] link_pairs_other [OF ab(3)] x
    by (simp add: linked_def sink_of_def source_of_def split: conn_class.splits)
  with Cons.IH [OF d, of "link_pair S x"] show ?case by simp
qed simp

text \<open>
  A route arrives: when the path between the platforms of a source and a sink runs over
  platforms of the graph, routing returns and the links it sets lead from the source through a
  receiver and a sender of the same route-through on every platform of the path, in its order, to the
  sink, and back.
\<close>

theorem connectPath_delivers:
  assumes "ops_ok ops" and "src < allocated S" and "sink < allocated S" and "src \<noteq> sink"
    and "path (platform_of ops (conns S src)) (platform_of ops (conns S sink)) = Some (Inr hops)"
    and "set hops \<subseteq> set (mod_names S)"
  shows "\<exists>S'. connectPath ops path src sink S = Some (Inr S') \<and> delivers S' src hops sink"
proof -
  obtain S1 srcs sinks where add:
    "foldR (add_hop ops src sink) (S, [src], []) hops = Inr (S1, src # srcs, sinks)"
    "bridges S1 hops sinks srcs" "distinct (srcs @ sinks)" "\<forall>k \<in> set (srcs @ sinks). allocated S \<le> k"
    using add_hops [OF assms(1,6,2,3), of "[src]" "[]"] by auto
  let ?xs = "zip (src # srcs) (sinks @ [sink])"
  let ?S' = "foldl link_pair (matchGraphChannels ops S1) ?xs"
  have len: "length srcs = length sinks" using add(2) by (induction S1 hops sinks srcs rule: bridges.induct) simp_all
  then have "map fst ?xs = src # srcs" "map snd ?xs = sinks @ [sink]" by simp_all
  moreover have "k \<noteq> src \<and> k \<noteq> sink" if "k \<in> set (srcs @ sinks)" for k
    using add(4) assms(2,3) that by (meson leD)
  then have "distinct ((src # srcs) @ (sinks @ [sink]))" using add(3) assms(4) by fastforce
  ultimately have "list_all (linked ?S') ?xs" by (metis link_pairs_link)
  moreover have "bridges ?S' hops sinks srcs"
    using add(2) bridges_cong [of ?S' S1] assms(1) by (simp add: ops_ok_def)
  ultimately have "delivers ?S' src hops sink" by (rule delivers_list [rotated])
  moreover have "connectPath ops path src sink S = Some (Inr ?S')"
    using assms(5) add(1) by (simp add: connectPath_def)
  ultimately show ?thesis by blast
qed

text \<open>Operations that allocate references in order, and a channel over three platforms.\<close>

definition list_ops :: "li_conn \<Rightarrow> li_ops" where
  "list_ops c0 =
     \<lparr>blank = c0, isSource = \<lambda>c. sc_type c = ''Send'', platform_of = conn_module,
      addChannel = \<lambda>p c S. (allocated S, S\<lparr>conns := (conns S)(allocated S := c),
         mod_channels := (mod_channels S)(p := mod_channels S p @ [allocated S]), allocated := Suc (allocated S)\<rparr>),
      matchGraphChannels = \<lambda>S. S, checkUnmatchedChannels = \<lambda>S. False,
      deleteChain = \<lambda>p n S. S\<lparr>mod_chains := (mod_chains S)(p := filter (\<lambda>c. conn_name (conns S c) \<noteq> n) (mod_chains S p))\<rparr>\<rparr>"

lemma list_ops_ok: "ops_ok (list_ops c0)"
  by (auto simp: ops_ok_def list_ops_def)

definition sample_conn :: "string \<Rightarrow> string \<Rightarrow> nat \<Rightarrow> li_conn" where
  "sample_conn dir p partner =
     \<lparr>conn_class = LIChannel, conn_name = ''c'', sc_type = dir, bitwidth = 32, activity = PyInt 1, conn_module = p,
      partnerChannel = partner, sourcePartnerChain = 0, sinkPartnerChain = 0, via_idx_egress = 0, via_link_egress = 0,
      via_idx_ingress = 0, via_link_ingress = 0, raw_type = ''Bit#(32)'', type_structure = [], route_through = False,
      matched_flag = True, partnerModule = [], sinkPartnerModule = [], sourcePartnerModule = []\<rparr>"

definition sample_state :: route_state where
  "sample_state =
     \<lparr>conns = (\<lambda>_. sample_conn ''Send'' ''A'' 1)(1 := sample_conn ''Recv'' ''C'' 0), mod_names = [''A'', ''B'', ''C''],
      mod_channels = \<lambda>p. if p = ''A'' then [0] else if p = ''C'' then [1] else [], mod_chains = \<lambda>_. [], allocated = 2\<rparr>"

definition sample_ops :: li_ops where
  "sample_ops = list_ops (sample_conn [] [] 0)"

definition sample_path :: path_fn where
  "sample_path p q = Some (Inr (if p = ''A'' \<and> q = ''C'' then [''B''] else []))"

theorem connectPath_delivers_witness:
  "\<exists>S'. connectPath sample_ops sample_path 0 1 sample_state = Some (Inr S') \<and> delivers S' 0 [''B''] 1"
proof (rule connectPath_delivers)
  show "ops_ok sample_ops" by (simp add: sample_ops_def list_ops_ok)
  show "0 < allocated sample_state" "1 < allocated sample_state" "(0 :: nat) \<noteq> 1" by (simp_all add: sample_state_def)
  show "sample_path (platform_of sample_ops (conns sample_state 0)) (platform_of sample_ops (conns sample_state 1)) = Some (Inr [''B''])"
    by (simp add: sample_path_def sample_ops_def list_ops_def sample_state_def sample_conn_def)
  show "set [''B''] \<subseteq> set (mod_names sample_state)" by (simp add: sample_state_def)
qed

text \<open>An unmatched connection after routing is reported through a name that does not exist.\<close>

lemma unmatched_fails:
  assumes "\<forall>S. checkUnmatchedChannels ops S"
  shows "routeConnections ops path [] S = Some (Inl (NameError ''mergedGraph''))"
  using assms by (simp add: routeConnections_def Let_def)

text \<open>The width a log reports is the width of the connection.\<close>

lemma set_width_ingress:
  assumes "map_of (ingressesByPhysicalName p) n = Some i" and "i < length (physicalVias p)"
  shows "map_option pv_width (getIngressByPhysicalName (set_width Ingress n w p) n) = Some (Some w)"
  using assms by (simp add: set_width_def getIngressByPhysicalName_def via_at_def)

lemma width_line_sample:
  "width_line p ''xx SizeOfVia:rcv:ingress:64'' = Inr (set_width Ingress ''rcv'' 64 p)"
proof -
  have "re_match via_size_pat ''xx SizeOfVia:rcv:ingress:64'' = Some [''rcv:ingress:64'']" by code_simp
  moreover have "re_search via_width_pat ''rcv:ingress:64'' = Some [''rcv'', ''ingress'', ''64'']" by code_simp
  moreover have "py_int ''64'' = Inr 64" by code_simp
  ultimately show ?thesis by (simp add: width_line_def)
qed

end
