(* ===== verification/RouteHops.thy ===== *)
theory RouteHops
  imports LimConnect
begin

text \<open>
  One route of \<open>routeConnections\<close> (\<^verbatim>\<open>lim_connect/LIMConnect.py\<close>) and what it does to the graph: the channels it
  adds, the links it sets, the connections it leaves alone, and the invariant of the graph it keeps.  The
  statement \<open>carries\<close> follows a connection over its platforms; \<open>route_step\<close> is one turn of the loop over the
  channels of a platform.
\<close>

section \<open>What routing relies on\<close>

text \<open>
  The operations of the graph: a channel of type \<open>Send\<close> is a source, a connection belongs to the platform
  of its module, \<open>addChannel\<close> appends a new channel to the platform, \<open>matchGraphChannels\<close> only changes
  channels that are not matched, \<open>checkUnmatchedChannels\<close> looks for one, and \<open>deleteChain\<close> takes the chain of the
  name from the platform.
\<close>

locale routing_graph =
  fixes ops :: li_ops
  assumes isSource: "isSource ops c \<longleftrightarrow> sc_type c = ''Send''"
    and platform_of: "platform_of ops c = conn_module c"
    and addChannel: "addChannel ops p c S = (k, S') \<Longrightarrow>
      allocated S \<le> k \<and> k < allocated S' \<and> label (conns S' k) = label c \<and> bitwidth (conns S' k) = bitwidth c \<and>
      (\<forall>j. j \<noteq> k \<longrightarrow> conns S' j = conns S j) \<and>
      mod_names S' = mod_names S \<and> mod_chains S' = mod_chains S \<and>
      mod_channels S' = (mod_channels S)(p := mod_channels S p @ [k])"
    and match_label [simp]: "label (conns (matchGraphChannels ops S) j) = label (conns S j)"
      "bitwidth (conns (matchGraphChannels ops S) j) = bitwidth (conns S j)"
    and match_keeps: "matched_flag (conns S j) \<or> conn_class (conns S j) = LIChain \<Longrightarrow>
      conns (matchGraphChannels ops S) j = conns S j"
    and match_state [simp]: "mod_names (matchGraphChannels ops S) = mod_names S"
      "mod_chains (matchGraphChannels ops S) = mod_chains S" "mod_channels (matchGraphChannels ops S) = mod_channels S"
      "allocated (matchGraphChannels ops S) = allocated S"
    and unmatched: "checkUnmatchedChannels ops S \<Longrightarrow>
      \<exists>p \<in> set (mod_names S). \<exists>c \<in> set (mod_channels S p). \<not> matched_flag (conns S c)"
    and deleteChain [simp]: "conns (deleteChain ops p n S) = conns S" "mod_names (deleteChain ops p n S) = mod_names S"
      "mod_channels (deleteChain ops p n S) = mod_channels S" "allocated (deleteChain ops p n S) = allocated S"
      "mod_chains (deleteChain ops p n S) = (mod_chains S)(p := filter (\<lambda>c. conn_name (conns S c) \<noteq> n) (mod_chains S p))"
begin

lemma routing_ok: "ops_ok ops"
  unfolding ops_ok_def using addChannel match_label by blast

end

interpretation list_graph: routing_graph "list_ops c0" for c0
  by unfold_locales (auto simp: list_ops_def)

text \<open>
  Paths: between two platforms there is one, it does not visit its ends, and neighbours on it are joined
  without a hop.
\<close>

definition short_path :: "path_fn \<Rightarrow> string \<Rightarrow> string \<Rightarrow> bool" where
  "short_path path p q \<longleftrightarrow> p \<noteq> q \<and> path p q = Some (Inr [])"

definition routable :: "path_fn \<Rightarrow> string set \<Rightarrow> bool" where
  "routable path P \<longleftrightarrow> (\<forall>p \<in> P. \<forall>q \<in> P. p \<noteq> q \<longrightarrow> (\<exists>hops. path p q = Some (Inr hops) \<and> set hops \<subseteq> P \<and>
     p \<notin> set hops \<and> q \<notin> set hops \<and> distinct hops \<and> successively (short_path path) (p # hops @ [q])))"

section \<open>One route\<close>

text \<open>A source and a sink that point to each other, channels also marked as matched.\<close>

definition joined :: "route_state \<Rightarrow> nat \<times> nat \<Rightarrow> bool" where
  "joined S = (\<lambda>(a, b). linked S (a, b) \<and> (\<forall>k \<in> {a, b}. conn_class (conns S k) = LIChannel \<longrightarrow> matched_flag (conns S k)))"

lemma link_pair_joins: "a \<noteq> b \<Longrightarrow> joined (link_pair S (a, b)) (a, b)"
  by (auto simp: joined_def linked_def sink_of_def source_of_def link_pair_def link_source_def link_sink_def set_conn_def
      split: conn_class.splits)

lemma joined_cong: "conns S' a = conns S a \<Longrightarrow> conns S' b = conns S b \<Longrightarrow> joined S' (a, b) = joined S (a, b)"
  by (simp add: joined_def linked_def sink_of_def source_of_def split: conn_class.splits)

lemma link_pairs_join: "distinct (map fst xs @ map snd xs) \<Longrightarrow> list_all (joined (foldl link_pair S xs)) xs"
proof (induction xs arbitrary: S)
  case (Cons x xs)
  obtain a b where x: "x = (a, b)" by (cases x)
  have ab: "a \<noteq> b" "a \<notin> set (map fst xs @ map snd xs)" "b \<notin> set (map fst xs @ map snd xs)"
    and d: "distinct (map fst xs @ map snd xs)"
    using Cons.prems x by auto
  have "joined (foldl link_pair (link_pair S x) xs) x"
    using link_pair_joins [OF ab(1)] joined_cong [OF link_pairs_other [OF ab(2)] link_pairs_other [OF ab(3)]] x by simp
  with Cons.IH [OF d, of "link_pair S x"] show ?case by simp
qed simp

lemma link_pair_state [simp]:
  "mod_names (link_pair S x) = mod_names S" "mod_chains (link_pair S x) = mod_chains S"
  "mod_channels (link_pair S x) = mod_channels S" "allocated (link_pair S x) = allocated S"
  by (cases x; simp add: link_pair_def link_source_def link_sink_def set_conn_def split: conn_class.split)+

lemma link_pairs_state [simp]:
  "mod_names (foldl link_pair S xs) = mod_names S" "mod_chains (foldl link_pair S xs) = mod_chains S"
  "mod_channels (foldl link_pair S xs) = mod_channels S" "allocated (foldl link_pair S xs) = allocated S"
  by (induction xs arbitrary: S) simp_all

text \<open>The source of a pair keeps what it is the sink of, if it is a chain, and the other way round.\<close>

lemma link_pair_chain:
  assumes "conn_class (conns S j) = LIChain" and "a \<noteq> b"
  shows "j \<noteq> b \<Longrightarrow> sourcePartnerChain (conns (link_pair S (a, b)) j) = sourcePartnerChain (conns S j)"
    and "j \<noteq> a \<Longrightarrow> sinkPartnerChain (conns (link_pair S (a, b)) j) = sinkPartnerChain (conns S j)"
  using assms by (auto simp: link_pair_def link_source_def link_sink_def set_conn_def split: conn_class.splits)

lemma link_pairs_chain:
  assumes "conn_class (conns S j) = LIChain" and "\<forall>(a, b) \<in> set xs. a \<noteq> b"
  shows "j \<notin> set (map snd xs) \<Longrightarrow> sourcePartnerChain (conns (foldl link_pair S xs) j) = sourcePartnerChain (conns S j)"
    and "j \<notin> set (map fst xs) \<Longrightarrow> sinkPartnerChain (conns (foldl link_pair S xs) j) = sinkPartnerChain (conns S j)"
proof -
  have cls: "conn_class (conns (link_pair T x) j) = conn_class (conns T j)" for T x
    using label_link_pair [of T x j] by (simp add: label_def)
  show "j \<notin> set (map snd xs) \<Longrightarrow> sourcePartnerChain (conns (foldl link_pair S xs) j) = sourcePartnerChain (conns S j)"
    using assms
  proof (induction xs arbitrary: S)
    case (Cons x xs)
    then show ?case using cls link_pair_chain(1) [of S j "fst x" "snd x"] by (cases x) auto
  qed simp
  show "j \<notin> set (map fst xs) \<Longrightarrow> sinkPartnerChain (conns (foldl link_pair S xs) j) = sinkPartnerChain (conns S j)"
    using assms
  proof (induction xs arbitrary: S)
    case (Cons x xs)
    then show ?case using cls link_pair_chain(2) [of S j "fst x" "snd x"] by (cases x) auto
  qed simp
qed

text \<open>The channels a route adds to platform \<open>r\<close>.\<close>

fun hop_new :: "string \<Rightarrow> string list \<Rightarrow> nat list \<Rightarrow> nat list \<Rightarrow> nat list" where
  "hop_new r (h # hs) (x # xs) (y # ys) = (if h = r then [x, y] else []) @ hop_new r hs xs ys"
| "hop_new r _ _ _ = []"

lemma add_hops_prefix:
  "foldR (add_hop ops src sink) (S, srcs0, sinks0) hops = Inr (S', srcs, sinks) \<Longrightarrow>
     \<exists>srcs1 sinks1. srcs = srcs0 @ srcs1 \<and> sinks = sinks0 @ sinks1"
proof (induction hops arbitrary: S srcs0 sinks0)
  case (Cons hop hops)
  then obtain T x y where "foldR (add_hop ops src sink) (T, srcs0 @ [y], sinks0 @ [x]) hops = Inr (S', srcs, sinks)"
    by (auto simp: add_hop_def res_simps Let_def split: prod.splits)
  from Cons.IH [OF this] show ?case by auto
qed simp

context routing_graph
begin

lemma add_hops_state:
  assumes "foldR (add_hop ops src sink) (S, srcs0, sinks0) hops = Inr (S', srcs0 @ srcs, sinks0 @ sinks)"
  shows "mod_names S' = mod_names S \<and> mod_chains S' = mod_chains S \<and> allocated S \<le> allocated S' \<and>
    length srcs = length hops \<and> length sinks = length hops \<and> (\<forall>k \<in> set (srcs @ sinks). k < allocated S') \<and>
    (\<forall>r. mod_channels S' r = mod_channels S r @ hop_new r hops sinks srcs)"
  using assms
proof (induction hops arbitrary: S srcs0 sinks0 srcs sinks)
  case (Cons hop hops)
  let ?recv = "hop_channel ops ''Recv'' (conns S src) (conns S sink) (activity (conns S sink)) hop"
  obtain x S1 where x: "addChannel ops hop ?recv S = (x, S1)" by (cases "addChannel ops hop ?recv S")
  let ?send = "hop_channel ops ''Send'' (conns S1 src) (conns S1 sink) (activity (conns S1 src)) hop"
  obtain y S2 where y: "addChannel ops hop ?send S1 = (y, S2)" by (cases "addChannel ops hop ?send S1")
  have px: "allocated S \<le> x" "x < allocated S1" "mod_names S1 = mod_names S" "mod_chains S1 = mod_chains S"
      "mod_channels S1 = (mod_channels S)(hop := mod_channels S hop @ [x])"
    using addChannel [OF x] by simp_all
  have py: "allocated S1 \<le> y" "y < allocated S2" "mod_names S2 = mod_names S1" "mod_chains S2 = mod_chains S1"
      "mod_channels S2 = (mod_channels S1)(hop := mod_channels S1 hop @ [y])"
    using addChannel [OF y] by simp_all
  have rest: "foldR (add_hop ops src sink) (S2, srcs0 @ [y], sinks0 @ [x]) hops = Inr (S', srcs0 @ srcs, sinks0 @ sinks)"
    using Cons.prems x y by (auto simp: add_hop_def raise_if_def split: if_splits)
  obtain srcs1 sinks1 where lists: "srcs0 @ srcs = (srcs0 @ [y]) @ srcs1" "sinks0 @ sinks = (sinks0 @ [x]) @ sinks1"
    using add_hops_prefix [OF rest] by blast
  have IH: "mod_names S' = mod_names S2 \<and> mod_chains S' = mod_chains S2 \<and> allocated S2 \<le> allocated S' \<and>
      length srcs1 = length hops \<and> length sinks1 = length hops \<and> (\<forall>k \<in> set (srcs1 @ sinks1). k < allocated S') \<and>
      (\<forall>r. mod_channels S' r = mod_channels S2 r @ hop_new r hops sinks1 srcs1)"
    by (rule Cons.IH [of S2 "srcs0 @ [y]" "sinks0 @ [x]"]) (use rest lists in simp)
  have "srcs = y # srcs1" "sinks = x # sinks1" using lists by simp_all
  then show ?case using IH px py by auto
qed simp

end

text \<open>The name of the channels that carry a connection over a platform.\<close>

definition through_name :: "li_conn \<Rightarrow> li_conn \<Rightarrow> string \<Rightarrow> string" where
  "through_name src sink hop =
     conn_name src @ ''RoutethroughFrom_'' @ conn_module src @ ''_To_'' @ conn_module sink @ ''_Via'' @ hop"

definition through :: "route_state \<Rightarrow> li_conn \<Rightarrow> li_conn \<Rightarrow> string \<Rightarrow> nat \<Rightarrow> bool" where
  "through S src sink hop y \<longleftrightarrow> conn_name (conns S y) = through_name src sink hop \<and> bitwidth (conns S y) = bitwidth src"

lemma add_hops_old:
  assumes "ops_ok ops" and "foldR (add_hop ops src sink) (S, srcs0, sinks0) hops = Inr (S', srcs, sinks)" and "j < allocated S"
  shows "conns S' j = conns S j"
  using assms(2,3)
proof (induction hops arbitrary: S srcs0 sinks0)
  case (Cons hop hops)
  then obtain S1 S2 x y where step: "addChannel ops hop
        (hop_channel ops ''Recv'' (conns S src) (conns S sink) (activity (conns S sink)) hop) S = (x, S1)"
      "addChannel ops hop (hop_channel ops ''Send'' (conns S1 src) (conns S1 sink) (activity (conns S1 src)) hop) S1 = (y, S2)"
      "foldR (add_hop ops src sink) (S2, srcs0 @ [y], sinks0 @ [x]) hops = Inr (S', srcs, sinks)"
    by (auto simp: add_hop_def res_simps Let_def split: prod.splits)
  have "allocated S \<le> x" "x < allocated S1" "conns S1 j = conns S j" if "j \<noteq> x" for j
    using assms(1) step(1) that unfolding ops_ok_def by blast+
  moreover have "allocated S1 \<le> y" "y < allocated S2" "conns S2 j = conns S1 j" if "j \<noteq> y" for j
    using assms(1) step(2) that unfolding ops_ok_def by blast+
  ultimately show ?case
    using Cons.IH [OF step(3)] Cons.prems(2) by (metis leD le_less_trans less_or_eq_imp_le not_le)
qed simp

context routing_graph
begin

lemma hop_name: "hop_name ops = through_name"
  by (intro ext) (simp add: hop_name_def through_name_def platform_of)

lemma add_hops_names:
  assumes "foldR (add_hop ops src sink) (S, srcs0, sinks0) hops = Inr (S', srcs0 @ srcs, sinks0 @ sinks)"
    and "src < allocated S" and "sink < allocated S"
  shows "list_all2 (through S' (conns S src) (conns S sink)) hops srcs"
  using assms
proof (induction hops arbitrary: S srcs0 sinks0 srcs sinks)
  case (Cons hop hops)
  obtain S1 S2 x y where step: "addChannel ops hop
        (hop_channel ops ''Recv'' (conns S src) (conns S sink) (activity (conns S sink)) hop) S = (x, S1)"
      "addChannel ops hop (hop_channel ops ''Send'' (conns S1 src) (conns S1 sink) (activity (conns S1 src)) hop) S1 = (y, S2)"
      "foldR (add_hop ops src sink) (S2, srcs0 @ [y], sinks0 @ [x]) hops = Inr (S', srcs0 @ srcs, sinks0 @ sinks)"
    using Cons.prems(1) by (auto simp: add_hop_def res_simps Let_def split: prod.splits)
  note laws = addChannel [OF step(1)] addChannel [OF step(2)]
  obtain srcs1 sinks1 where lists: "srcs0 @ srcs = (srcs0 @ [y]) @ srcs1" "sinks0 @ sinks = (sinks0 @ [x]) @ sinks1"
    using add_hops_prefix [OF step(3)] by blast
  have old: "conns S2 j = conns S j" "j < allocated S2" if "j < allocated S" for j
  proof -
    have "j \<noteq> x" "j < allocated S1" using laws(1) that by auto
    moreover from this have "j \<noteq> y" using laws(2) by auto
    ultimately show "conns S2 j = conns S j" "j < allocated S2" using laws by auto
  qed
  have "list_all2 (through S' (conns S src) (conns S sink)) hops srcs1"
    using Cons.IH [of S2 "srcs0 @ [y]" "sinks0 @ [x]" srcs1 sinks1] step(3) lists old Cons.prems(2,3) by simp
  moreover have "conns S' y = conns S2 y" using add_hops_old [OF routing_ok step(3)] laws(2) by blast
  moreover have "conns S1 src = conns S src" "conns S1 sink = conns S sink" using laws(1) Cons.prems(2,3) by auto
  then have "through S2 (conns S src) (conns S sink) hop y"
    using laws(2) by (auto simp: through_def label_def hop_channel_def hop_name)
  ultimately have "through S' (conns S src) (conns S sink) hop y" by (simp add: through_def)
  with \<open>list_all2 _ hops srcs1\<close> show ?case using lists by simp
qed simp

end

lemma bitwidth_link_pair [simp]: "bitwidth (conns (link_pair S x) j) = bitwidth (conns S j)"
  by (cases x) (auto simp: link_pair_def link_source_def link_sink_def set_conn_def split: conn_class.splits)

lemma bitwidth_link_pairs [simp]: "bitwidth (conns (foldl link_pair S xs) j) = bitwidth (conns S j)"
  by (induction xs arbitrary: S) simp_all

text \<open>What one route does to the state.\<close>

definition routed :: "route_state \<Rightarrow> route_state \<Rightarrow> nat \<Rightarrow> nat \<Rightarrow> string list \<Rightarrow> nat list \<Rightarrow> nat list \<Rightarrow> bool" where
  "routed S S' src sink hops sinks srcs \<longleftrightarrow>
     list_all (joined S') (zip (src # srcs) (sinks @ [sink])) \<and> bridges S' hops sinks srcs \<and>
     length srcs = length hops \<and> length sinks = length hops \<and>
     (\<forall>k \<in> set (srcs @ sinks). allocated S \<le> k \<and> k < allocated S') \<and> distinct (srcs @ sinks) \<and>
     mod_names S' = mod_names S \<and> mod_chains S' = mod_chains S \<and> allocated S \<le> allocated S' \<and>
     (\<forall>r. mod_channels S' r = mod_channels S r @ hop_new r hops sinks srcs) \<and>
     list_all2 (through S' (conns S src) (conns S sink)) hops srcs \<and>
     (\<forall>j < allocated S. label (conns S' j) = label (conns S j) \<and> bitwidth (conns S' j) = bitwidth (conns S j)) \<and>
     (\<forall>j < allocated S. j \<notin> {src, sink} \<longrightarrow> matched_flag (conns S j) \<or> conn_class (conns S j) = LIChain \<longrightarrow> conns S' j = conns S j) \<and>
     (\<forall>j < allocated S. conn_class (conns S j) = LIChain \<longrightarrow>
        (j \<noteq> sink \<longrightarrow> sourcePartnerChain (conns S' j) = sourcePartnerChain (conns S j)) \<and>
        (j \<noteq> src \<longrightarrow> sinkPartnerChain (conns S' j) = sinkPartnerChain (conns S j)))"

lemma distinct_ends: "distinct (map fst xs @ map snd xs) \<Longrightarrow> \<forall>(a, b) \<in> set xs. a \<noteq> b"
  by force

lemma label_name: "label c = label d \<Longrightarrow> conn_name c = conn_name d"
  by (simp add: label_def)

lemma label_class: "label c = label d \<Longrightarrow> conn_class c = conn_class d"
  by (simp add: label_def)

context routing_graph
begin

lemma connectPath_routed:
  assumes "src < allocated S" and "sink < allocated S" and "src \<noteq> sink"
    and "path (conn_module (conns S src)) (conn_module (conns S sink)) = Some (Inr hops)"
    and "set hops \<subseteq> set (mod_names S)"
  shows "\<exists>S' srcs sinks. connectPath ops path src sink S = Some (Inr S') \<and> routed S S' src sink hops sinks srcs"
proof -
  obtain S1 srcs sinks where add:
    "foldR (add_hop ops src sink) (S, [src], []) hops = Inr (S1, src # srcs, sinks)"
    "bridges S1 hops sinks srcs" "distinct (srcs @ sinks)" "\<forall>k \<in> set (srcs @ sinks). allocated S \<le> k"
    "\<forall>j < allocated S. conns S1 j = conns S j"
    using add_hops [OF routing_ok assms(5,1,2), of "[src]" "[]"] by auto
  have st: "mod_names S1 = mod_names S" "mod_chains S1 = mod_chains S" "allocated S \<le> allocated S1"
      "length srcs = length hops" "length sinks = length hops" "\<forall>k \<in> set (srcs @ sinks). k < allocated S1"
      "\<forall>r. mod_channels S1 r = mod_channels S r @ hop_new r hops sinks srcs"
    using add_hops_state [of src sink S "[src]" "[]" hops S1 srcs sinks] add(1) by simp_all
  let ?xs = "zip (src # srcs) (sinks @ [sink])" and ?M = "matchGraphChannels ops S1"
  let ?S' = "foldl link_pair ?M ?xs"
  have ends: "map fst ?xs = src # srcs" "map snd ?xs = sinks @ [sink]" using st(4,5) by simp_all
  have new: "k \<noteq> src \<and> k \<noteq> sink" if "k \<in> set (srcs @ sinks)" for k
    using add(4) assms(1,2) that by (meson leD)
  then have dist: "distinct (map fst ?xs @ map snd ?xs)" unfolding ends using add(3) assms(3) by fastforce
  have joins: "list_all (joined ?S') ?xs" by (rule link_pairs_join [OF dist])
  have bridges: "bridges ?S' hops sinks srcs"
    using add(2) bridges_cong [of ?S' S1] by simp
  have labels: "label (conns ?S' j) = label (conns S j) \<and> bitwidth (conns ?S' j) = bitwidth (conns S j)" if "j < allocated S" for j
    using add(5) that by simp
  have "list_all2 (through S1 (conns S src) (conns S sink)) hops srcs"
    using add_hops_names [of src sink S "[src]" "[]" hops S1 srcs sinks] add(1) assms(1,2) by simp
  then have names: "list_all2 (through ?S' (conns S src) (conns S sink)) hops srcs"
    by (rule list_all2_mono) (use label_name [OF label_link_pairs] label_name [OF match_label(1)] in \<open>simp add: through_def\<close>)
  have old: "conns ?M j = conns S j" if "j < allocated S" "matched_flag (conns S j) \<or> conn_class (conns S j) = LIChain" for j
    using add(5) match_keeps [of S1 j] that by simp
  have away: "j \<notin> set (srcs @ sinks)" if "j < allocated S" for j using add(4) that by (meson leD)
  have kept: "conns ?S' j = conns S j"
    if "j < allocated S" "j \<notin> {src, sink}" "matched_flag (conns S j) \<or> conn_class (conns S j) = LIChain" for j
  proof -
    have "j \<notin> set (map fst ?xs @ map snd ?xs)" unfolding ends using that(2) away [OF that(1)] by auto
    then show ?thesis using link_pairs_other old that(1,3) by metis
  qed
  have pairs: "\<forall>(a, b) \<in> set ?xs. a \<noteq> b" by (rule distinct_ends [OF dist])
  have chains: "(j \<noteq> sink \<longrightarrow> sourcePartnerChain (conns ?S' j) = sourcePartnerChain (conns S j)) \<and>
      (j \<noteq> src \<longrightarrow> sinkPartnerChain (conns ?S' j) = sinkPartnerChain (conns S j))"
    if "j < allocated S" "conn_class (conns S j) = LIChain" for j
  proof -
    have same: "conns ?M j = conns S j" using old that by blast
    then have cls: "conn_class (conns ?M j) = LIChain" using that(2) by simp
    have "j \<noteq> sink \<Longrightarrow> j \<notin> set (map snd ?xs)" "j \<noteq> src \<Longrightarrow> j \<notin> set (map fst ?xs)"
      unfolding ends using away [OF that(1)] by auto
    then show ?thesis using link_pairs_chain [OF cls pairs] same by simp
  qed
  have "routed S ?S' src sink hops sinks srcs"
    unfolding routed_def using joins bridges st add(3,4) labels names kept chains by (simp add: less_imp_le)
  moreover have "connectPath ops path src sink S = Some (Inr ?S')"
    using assms(4) add(1) by (simp add: connectPath_def platform_of)
  ultimately show ?thesis by blast
qed

end

section \<open>The channels\<close>

text \<open>A channel that is a source, and what is known of the channels of a platform \<open>p\<close>.\<close>

definition sender :: "route_state \<Rightarrow> nat \<Rightarrow> bool" where
  "sender S c \<longleftrightarrow> c < allocated S \<and> conn_class (conns S c) = LIChannel \<and> sc_type (conns S c) = ''Send''"

definition receiver :: "route_state \<Rightarrow> nat \<Rightarrow> bool" where
  "receiver S c \<longleftrightarrow> c < allocated S \<and> conn_class (conns S c) = LIChannel \<and> sc_type (conns S c) \<noteq> ''Send''"

definition source_ok :: "route_state \<Rightarrow> nat \<Rightarrow> bool" where
  "source_ok S c \<longleftrightarrow> (\<exists>s. receiver S s \<and> joined S (c, s) \<and> conn_module (conns S s) \<in> set (mod_names S) \<and>
     conn_module (conns S s) \<noteq> conn_module (conns S c))"

definition channel_ok :: "route_state \<Rightarrow> string \<Rightarrow> nat \<Rightarrow> bool" where
  "channel_ok S p c \<longleftrightarrow> (sender S c \<or> receiver S c) \<and> conn_module (conns S c) = p \<and> matched_flag (conns S c) \<and>
     (sender S c \<longrightarrow> source_ok S c)"

definition net_ok :: "route_state \<Rightarrow> bool" where
  "net_ok S \<longleftrightarrow> (\<forall>p \<in> set (mod_names S). distinct (mod_channels S p) \<and> (\<forall>c \<in> set (mod_channels S p). channel_ok S p c))"

text \<open>
  A connection is carried over the platforms \<open>hops\<close>: as \<open>delivers\<close>, where moreover every sender on the way is
  next to its receiver.
\<close>

inductive carries :: "path_fn \<Rightarrow> route_state \<Rightarrow> nat \<Rightarrow> string list \<Rightarrow> nat \<Rightarrow> bool" for path S where
  last_hop: "joined S (a, b) \<Longrightarrow> b < allocated S \<Longrightarrow> carries path S a [] b"
| next_hop: "joined S (a, x) \<Longrightarrow> x < allocated S \<Longrightarrow> y < allocated S \<Longrightarrow> bridge S hop x y \<Longrightarrow>
    short_path path hop (conn_module (conns S (sink_of S y))) \<Longrightarrow> carries path S y hops b \<Longrightarrow> carries path S a (hop # hops) b"

lemma carries_delivers: "carries path S a hops b \<Longrightarrow> delivers S a hops b"
  by (induction rule: carries.induct) (auto simp: joined_def intro: delivers.intros)

lemma joined_partner:
  assumes "joined S (a, b)" and "conn_class (conns S a) = LIChannel" and "conn_class (conns S b) = LIChannel"
  shows "partnerChannel (conns S a) = b" and "partnerChannel (conns S b) = a"
  using assms by (simp_all add: joined_def linked_def sink_of_def source_of_def)

lemma bridge_ends:
  assumes "bridge S hop x y"
  shows "conn_class (conns S x) = LIChannel" and "sc_type (conns S x) = ''Recv''" and "conn_module (conns S x) = hop"
    and "conn_class (conns S y) = LIChannel" and "sc_type (conns S y) = ''Send''" and "conn_module (conns S y) = hop"
  using assms by (auto simp: bridge_def label_def)

text \<open>The channels of a route.\<close>

lemma route_carries:
  assumes "bridges S hops sinks srcs" and "list_all (joined S) (zip (src # srcs) (sinks @ [sink]))"
    and "successively (short_path path) (hops @ [conn_module (conns S sink)])"
    and "\<forall>k \<in> set (srcs @ sinks @ [sink]). k < allocated S"
  shows "carries path S src hops sink"
  using assms
proof (induction S hops sinks srcs arbitrary: src rule: bridges.induct)
  case (2 S h hs x xs y ys)
  have b: "bridge S h x y" "bridges S hs xs ys" using 2(2) by simp_all
  have next_link: "joined S (y, hd (xs @ [sink]))" using 2(3) by (cases xs) simp_all
  have "conn_module (conns S (hd (xs @ [sink]))) = hd (hs @ [conn_module (conns S sink)])"
    using b(2) bridge_ends(3) by (cases "(S, hs, xs, ys)" rule: bridges.cases) auto
  moreover have "sink_of S y = hd (xs @ [sink])" using next_link by (simp add: joined_def linked_def)
  moreover have "short_path path h (hd (hs @ [conn_module (conns S sink)]))" using 2(4) by (cases hs) auto
  ultimately have "short_path path h (conn_module (conns S (sink_of S y)))" by simp
  moreover have "carries path S y hs sink" using 2 by (cases hs) auto
  ultimately show ?case using 2(3,5) b(1) by (auto intro: carries.next_hop)
qed (auto intro: carries.last_hop)

lemma hop_new_set: "set (hop_new r hops sinks srcs) \<subseteq> set (srcs @ sinks)"
  by (induction r hops sinks srcs rule: hop_new.induct) auto

lemma hop_new_distinct: "distinct (srcs @ sinks) \<Longrightarrow> distinct (hop_new r hops sinks srcs)"
proof (induction r hops sinks srcs rule: hop_new.induct)
  case (1 r h hs x xs y ys)
  have "x \<notin> set (hop_new r hs xs ys)" "y \<notin> set (hop_new r hs xs ys)" "x \<noteq> y"
    using 1(2) hop_new_set [of r hs xs ys] by auto
  with 1 show ?case by auto
qed auto

lemma hop_new_none: "r \<notin> set hops \<Longrightarrow> hop_new r hops sinks srcs = []"
  by (induction r hops sinks srcs rule: hop_new.induct) auto

lemma hop_new_ok:
  assumes "bridges S hops sinks srcs" and "list_all (joined S) (zip (src # srcs) (sinks @ [sink]))"
    and "successively (\<noteq>) (hops @ [conn_module (conns S sink)])"
    and "\<forall>k \<in> set (srcs @ sinks). k < allocated S" and "set (hops @ [conn_module (conns S sink)]) \<subseteq> set (mod_names S)"
    and "k \<in> set (hop_new r hops sinks srcs)" and "receiver S sink"
  shows "channel_ok S r k"
  using assms
proof (induction S hops sinks srcs arbitrary: src rule: bridges.induct)
  case (2 S h hs x xs y ys)
  have b: "bridge S h x y" "bridges S hs xs ys" using 2(2) by simp_all
  have rest: "list_all (joined S) (zip (y # ys) (xs @ [sink]))" using 2(3) by simp
  have tail: "successively (\<noteq>) (hs @ [conn_module (conns S sink)])" using 2(4) by (cases hs) auto
  consider "k = x" "r = h" | "k = y" "r = h" | "k \<in> set (hop_new r hs xs ys)"
    using "2.prems"(6) by (auto split: if_splits)
  then show ?case
  proof cases
    case 1
    moreover have "matched_flag (conns S x)" using 2(3) bridge_ends(1) [OF b(1)] by (simp add: joined_def)
    ultimately show ?thesis using bridge_ends [OF b(1)] "2.prems"(4) by (simp add: channel_ok_def sender_def receiver_def)
  next
    case 2
    let ?n = "hd (xs @ [sink])"
    have n: "joined S (y, ?n)" using rest by (cases xs) simp_all
    have m: "conn_module (conns S ?n) = hd (hs @ [conn_module (conns S sink)])"
      using b(2) bridge_ends(3) by (cases "(S, hs, xs, ys)" rule: bridges.cases) auto
    have "receiver S ?n"
      using b(2) bridge_ends(1,2) "2.prems"(4,7) by (cases "(S, hs, xs, ys)" rule: bridges.cases) (auto simp: receiver_def)
    moreover have "hd (hs @ [conn_module (conns S sink)]) \<noteq> h" using "2.prems"(3) by (cases hs) auto
    moreover have "hd (hs @ [conn_module (conns S sink)]) \<in> set (mod_names S)" using "2.prems"(5) by (cases hs) auto
    ultimately have "source_ok S y" unfolding source_ok_def using n m bridge_ends(6) [OF b(1)] by metis
    moreover have "matched_flag (conns S y)" using n bridge_ends(4) [OF b(1)] by (simp add: joined_def)
    ultimately show ?thesis using 2 bridge_ends [OF b(1)] "2.prems"(4) by (simp add: channel_ok_def sender_def)
  next
    case 3
    then show ?thesis by (intro "2.IH" [OF b(2) rest tail]) (use "2.prems" in auto)
  qed
qed auto

section \<open>What a route leaves alone\<close>

lemma routed_labels:
  "routed S S' src sink hops sinks srcs \<Longrightarrow> j < allocated S \<Longrightarrow> label (conns S' j) = label (conns S j) \<and> j < allocated S'"
  by (auto simp: routed_def)

lemma routed_joined:
  assumes "routed S S' src sink hops sinks srcs" and "joined S (a, x)" and "a < allocated S" and "x < allocated S"
    and "a \<noteq> src" and "x \<noteq> sink"
    and "conn_class (conns S a) = LIChannel \<Longrightarrow> a \<noteq> sink" and "conn_class (conns S x) = LIChannel \<Longrightarrow> x \<noteq> src"
  shows "joined S' (a, x)"
proof -
  have eq: "conns S' j = conns S j"
    if "j \<in> {a, x}" "conn_class (conns S j) = LIChannel" for j
  proof -
    have "j \<notin> {src, sink}" "matched_flag (conns S j)" "j < allocated S" using assms that by (auto simp: joined_def)
    then show ?thesis using assms(1) unfolding routed_def by blast
  qed
  have cls: "conn_class (conns S' j) = conn_class (conns S j)" if "j \<in> {a, x}" for j
    using routed_labels [OF assms(1)] label_class assms(3,4) that by blast
  have "sink_of S' a = sink_of S a"
    using assms(1,3,5) eq cls by (cases "conn_class (conns S a)") (auto simp: sink_of_def routed_def)
  moreover have "source_of S' x = source_of S x"
    using assms(1,4,6) eq cls by (cases "conn_class (conns S x)") (auto simp: source_of_def routed_def)
  ultimately show ?thesis
    using assms(2) eq cls by (auto simp: joined_def linked_def)
qed

lemma carries_first:
  assumes "carries path S a hs b"
  shows "\<exists>z < allocated S. joined S (a, z) \<and> (z = b \<or> receiver S z)"
  using assms
proof cases
  case (next_hop x y hop hops)
  then show ?thesis using bridge_ends(1,2) by (auto simp: receiver_def)
qed auto

text \<open>The links of a carried connection, one by one: all but the first start at a sender next to its receiver.\<close>

lemma carries_mono:
  assumes "carries path S a hs b" and "P a"
    and keep: "\<And>a x. P a \<Longrightarrow> x < allocated S \<Longrightarrow> x = b \<or> receiver S x \<Longrightarrow> joined S (a, x) \<Longrightarrow> joined S' (a, x)"
    and inner: "\<And>y. sender S y \<Longrightarrow> short_path path (conn_module (conns S y)) (conn_module (conns S (sink_of S y))) \<Longrightarrow> P y"
    and same: "\<And>j. j < allocated S \<Longrightarrow> label (conns S' j) = label (conns S j) \<and> j < allocated S'"
  shows "carries path S' a hs b"
  using assms(1,2) keep
proof (induction rule: carries.induct)
  case (last_hop a b)
  then show ?case using same by (auto intro: carries.last_hop)
next
  case (next_hop a x y hop hs b)
  note ends = bridge_ends [OF next_hop(4)]
  have "receiver S x" "sender S y" using next_hop(2,3) ends by (simp_all add: receiver_def sender_def)
  then have first: "joined S' (a, x)" and Py: "P y" using next_hop inner ends(6) by auto
  have rest: "carries path S' y hs b" by (rule next_hop.IH [OF Py]) (use next_hop.prems(2) in blast)
  obtain z where z: "joined S (y, z)" "z < allocated S" "z = b \<or> receiver S z"
    using carries_first [OF next_hop(6)] by blast
  then have "joined S' (y, z)" using next_hop.prems(2) Py by blast
  then have "sink_of S' y = sink_of S y" using z(1) by (simp add: joined_def linked_def)
  moreover have "sink_of S y = z" using z(1) by (simp add: joined_def linked_def)
  ultimately have "conn_module (conns S' (sink_of S' y)) = conn_module (conns S (sink_of S y))"
    using same [OF z(2)] by (simp add: label_def)
  then have "short_path path hop (conn_module (conns S' (sink_of S' y)))" using next_hop(5) by simp
  moreover have "bridge S' hop x y" using next_hop(2-4) same by (simp add: bridge_def)
  ultimately show ?case
    using first rest same next_hop(2,3) by (blast intro: carries.next_hop)
qed

text \<open>The route of a channel leaves every other channel alone, and its own link, if the route has no hop.\<close>

lemma routed_channel_joined:
  assumes r: "routed S S' src sink hops sinks srcs" and "sender S src" and "receiver S sink" and "joined S (src, sink)"
    and "sender S a" and "receiver S x" and "joined S (a, x)" and "a \<noteq> src \<or> hops = []"
  shows "joined S' (a, x)"
proof (cases "a = src")
  case True
  have "x = sink" using assms(2-7) True joined_partner(1) by (metis receiver_def sender_def)
  moreover have "srcs = []" "sinks = []" "list_all (joined S') (zip (src # srcs) (sinks @ [sink]))"
    using r True assms(8) by (auto simp: routed_def)
  ultimately show ?thesis using True by simp
next
  case False
  have "x \<noteq> sink" using assms(2-7) False joined_partner(2) by (metis receiver_def sender_def)
  moreover have "a \<noteq> sink" "x \<noteq> src" using assms(2,3,5,6) by (auto simp: sender_def receiver_def)
  ultimately show ?thesis using routed_joined [OF r assms(7)] assms(5,6) False by (simp add: sender_def receiver_def)
qed

lemma routed_channel_carries:
  assumes r: "routed S S' src sink hops sinks srcs" and "sender S src" and "receiver S sink" and "joined S (src, sink)"
    and path: "path (conn_module (conns S src)) (conn_module (conns S sink)) = Some (Inr hops)"
    and "carries path S a hs b" and "sender S a" and "receiver S b" and "a \<noteq> src"
  shows "carries path S' a hs b"
proof (rule carries_mono [where P = "\<lambda>a. sender S a \<and> (a \<noteq> src \<or> hops = [])", OF assms(6)])
  show "sender S a \<and> (a \<noteq> src \<or> hops = [])" using assms(7,9) by simp
  show "joined S' (a, x)"
    if "sender S a \<and> (a \<noteq> src \<or> hops = [])" "x = b \<or> receiver S x" "joined S (a, x)" for a x
    using routed_channel_joined [OF r assms(2-4)] that assms(8) by blast
  show "sender S y \<and> (y \<noteq> src \<or> hops = [])"
    if "sender S y" "short_path path (conn_module (conns S y)) (conn_module (conns S (sink_of S y)))" for y
    using that path assms(4) by (auto simp: short_path_def joined_def linked_def)
qed (use routed_labels [OF r] in blast)

text \<open>The route of a chain leaves every connection alone that neither starts nor ends where it does.\<close>

lemma routed_chain_carries:
  assumes r: "routed S S' src sink hops sinks srcs"
    and "conn_class (conns S src) = LIChain" and "conn_class (conns S sink) = LIChain"
    and "carries path S a hs b" and "a < allocated S" and "a \<noteq> src" and "b \<noteq> sink"
  shows "carries path S' a hs b"
proof (rule carries_mono [where P = "\<lambda>a. a < allocated S \<and> a \<noteq> src", OF assms(4)])
  show "joined S' (a, x)"
    if "a < allocated S \<and> a \<noteq> src" "x < allocated S" "x = b \<or> receiver S x" "joined S (a, x)" for a x
  proof (rule routed_joined [OF r that(4)])
    show "x \<noteq> sink" using that(3) assms(3,7) by (auto simp: receiver_def)
  qed (use that assms(2,3) in auto)
qed (use routed_labels [OF r] assms(2,5,6) in \<open>auto simp: sender_def\<close>)

section \<open>One step of the loop over the channels\<close>

lemma short_path_neq: "successively (short_path path) ps \<Longrightarrow> successively (\<noteq>) ps"
  by (erule successively_mono) (simp add: short_path_def)

lemma routed_matched:
  assumes "routed S S' src sink hops sinks srcs" and "k \<in> set (src # srcs @ sinks @ [sink])" and "conn_class (conns S' k) = LIChannel"
  shows "matched_flag (conns S' k)"
proof -
  let ?xs = "zip (src # srcs) (sinks @ [sink])"
  have len: "length srcs = length sinks" and all: "list_all (joined S') ?xs" using assms(1) by (auto simp: routed_def)
  have "map fst ?xs = src # srcs" "map snd ?xs = sinks @ [sink]" using len by simp_all
  then have "k \<in> set (map fst ?xs @ map snd ?xs)" using assms(2) by auto
  then obtain a b where "(a, b) \<in> set ?xs" "k = a \<or> k = b" by fastforce
  then show ?thesis using all assms(3) by (auto simp: list_all_iff joined_def split: prod.splits)
qed

lemma routed_ends:
  assumes "routed S S' src sink hops sinks srcs"
  shows "sender S k \<Longrightarrow> sender S' k" and "receiver S k \<Longrightarrow> receiver S' k"
    and "k < allocated S \<Longrightarrow> conn_module (conns S' k) = conn_module (conns S k)"
  using routed_labels [OF assms, of k] by (auto simp: sender_def receiver_def label_def)

text \<open>A channel of the graph stays one while the channel \<open>src\<close> is routed.\<close>

lemma routed_channel_ok:
  assumes r: "routed S S' src sink hops sinks srcs" and src: "sender S src" "receiver S sink" "joined S (src, sink)"
    and names: "set (hops @ [conn_module (conns S sink)]) \<subseteq> set (mod_names S)" "conn_module (conns S src) \<notin> set hops"
    and ok: "channel_ok S q k" and src_ok: "channel_ok S (conn_module (conns S src)) src"
  shows "channel_ok S' q k"
proof -
  have k: "k < allocated S" "sender S k \<or> receiver S k" using ok by (auto simp: channel_ok_def sender_def receiver_def)
  have flag: "matched_flag (conns S' k)"
  proof (cases "k \<in> {src, sink}")
    case True
    then show ?thesis using routed_matched [OF r, of k] routed_ends(1,2) [OF r, of k] k(2) by (auto simp: sender_def receiver_def)
  next
    case False
    then have "conns S' k = conns S k" using r k(1) ok unfolding routed_def channel_ok_def by blast
    then show ?thesis using ok by (simp add: channel_ok_def)
  qed
  have next_ok: "source_ok S' k" if sends: "sender S k"
  proof (cases "k = src")
    case False
    obtain x where x: "receiver S x" "joined S (k, x)" "conn_module (conns S x) \<in> set (mod_names S)"
        "conn_module (conns S x) \<noteq> conn_module (conns S k)"
      using ok sends by (auto simp: channel_ok_def source_ok_def)
    have "joined S' (k, x)" using routed_channel_joined [OF r src sends x(1,2)] False by blast
    moreover have "x < allocated S" using x(1) by (simp add: receiver_def)
    ultimately show ?thesis
      using x routed_ends [OF r] r k(1) by (auto simp: source_ok_def routed_def intro!: exI [of _ x])
  next
    case True
    let ?n = "hd (sinks @ [sink])"
    have n: "joined S' (k, ?n)" using r True by (cases sinks) (auto simp: routed_def)
    have b: "bridges S' hops sinks srcs" "\<forall>j \<in> set sinks. j < allocated S'" using r by (auto simp: routed_def)
    have sink': "receiver S' sink" "conn_module (conns S' sink) = conn_module (conns S sink)"
      using routed_ends [OF r, of sink] src(2) by (auto simp: receiver_def)
    have "receiver S' ?n \<and> conn_module (conns S' ?n) = hd (hops @ [conn_module (conns S sink)])"
      using b sink' bridge_ends(1-3) by (cases "(S', hops, sinks, srcs)" rule: bridges.cases) (auto simp: receiver_def)
    moreover have "hd (hops @ [conn_module (conns S sink)]) \<in> set (mod_names S')"
      using names(1) r by (cases hops) (auto simp: routed_def)
    moreover have "hd (hops @ [conn_module (conns S sink)]) \<noteq> conn_module (conns S' k)"
    proof -
      obtain s where "joined S (src, s)" "conn_module (conns S s) \<noteq> conn_module (conns S src)" "receiver S s"
        using src_ok src(1) by (auto simp: channel_ok_def source_ok_def)
      then have "conn_module (conns S sink) \<noteq> conn_module (conns S src)" using src(3) by (auto simp: joined_def linked_def)
      then show ?thesis using names(2) routed_ends(3) [OF r k(1)] True by (cases hops) auto
    qed
    ultimately show ?thesis using n by (metis source_ok_def)
  qed
  show ?thesis using ok flag next_ok routed_ends [OF r, of k] k by (auto simp: channel_ok_def sender_def receiver_def)
qed

lemma routed_net_ok:
  assumes r: "routed S S' src sink hops sinks srcs" and net: "net_ok S"
    and src: "sender S src" "receiver S sink" "joined S (src, sink)" "channel_ok S (conn_module (conns S src)) src"
    and names: "set (hops @ [conn_module (conns S sink)]) \<subseteq> set (mod_names S)" "conn_module (conns S src) \<notin> set hops"
    and short: "successively (\<noteq>) (hops @ [conn_module (conns S sink)])"
  shows "net_ok S'"
proof -
  have st: "mod_names S' = mod_names S" "\<forall>q. mod_channels S' q = mod_channels S q @ hop_new q hops sinks srcs"
      "distinct (srcs @ sinks)" "\<forall>k \<in> set (srcs @ sinks). allocated S \<le> k \<and> k < allocated S'" "bridges S' hops sinks srcs"
      "list_all (joined S') (zip (src # srcs) (sinks @ [sink]))"
    using r by (simp_all add: routed_def)
  have sink': "receiver S' sink" "conn_module (conns S' sink) = conn_module (conns S sink)"
    using routed_ends [OF r, of sink] src(2) by (auto simp: receiver_def)
  have new: "channel_ok S' q k" if "k \<in> set (hop_new q hops sinks srcs)" for q k
    by (rule hop_new_ok [OF st(5,6) _ _ _ that sink'(1)]) (use short names(1) st(1,4) sink'(2) in auto)
  show ?thesis
    unfolding net_ok_def st(1)
  proof (intro ballI conjI)
    fix q
    assume q: "q \<in> set (mod_names S)"
    have old: "channel_ok S q k" if "k \<in> set (mod_channels S q)" for k using net q that by (simp add: net_ok_def)
    have "k < allocated S" if "k \<in> set (mod_channels S q)" for k
      using old [OF that] by (auto simp: channel_ok_def sender_def receiver_def)
    moreover have "allocated S \<le> k" if "k \<in> set (hop_new q hops sinks srcs)" for k
      using st(4) that hop_new_set [of q hops sinks srcs] by blast
    ultimately have "set (mod_channels S q) \<inter> set (hop_new q hops sinks srcs) = {}" by (meson disjoint_iff leD)
    then show "distinct (mod_channels S' q)"
      using net q st(2) hop_new_distinct [OF st(3)] by (simp add: net_ok_def)
    fix k
    assume "k \<in> set (mod_channels S' q)"
    then consider "k \<in> set (mod_channels S q)" | "k \<in> set (hop_new q hops sinks srcs)" using st(2) by auto
    then show "channel_ok S' q k"
      using routed_channel_ok [OF r src(1-3) names old src(4)] new by cases
  qed
qed

context routing_graph
begin

lemma route_step:
  assumes net: "net_ok S" and rt: "routable path (set (mod_names S))"
    and p: "p \<in> set (mod_names S)" and c: "c \<in> set (mod_channels S p)" "sender S c"
  shows "\<exists>S' srcs sinks hops s. partnerChannel (conns S c) = s \<and> connectPath ops path c s S = Some (Inr S') \<and>
     routed S S' c s hops sinks srcs \<and> path p (conn_module (conns S s)) = Some (Inr hops) \<and>
     receiver S s \<and> joined S (c, s) \<and> p \<notin> set hops \<and> distinct hops \<and> carries path S' c hops s \<and> net_ok S' \<and>
     successively (short_path path) (hops @ [conn_module (conns S s)]) \<and> set hops \<subseteq> set (mod_names S)"
proof -
  have cok: "channel_ok S p c" using net p c(1) by (simp add: net_ok_def)
  then have mod_c: "conn_module (conns S c) = p" by (simp add: channel_ok_def)
  obtain s where s: "receiver S s" "joined S (c, s)" "conn_module (conns S s) \<in> set (mod_names S)"
      "conn_module (conns S s) \<noteq> p"
    using cok c(2) mod_c by (auto simp: channel_ok_def source_ok_def)
  obtain hops where h: "path p (conn_module (conns S s)) = Some (Inr hops)" "set hops \<subseteq> set (mod_names S)" "p \<notin> set hops"
      "successively (short_path path) (p # hops @ [conn_module (conns S s)])" "distinct hops"
    using rt p s(3,4) unfolding routable_def by metis
  have tail: "successively (short_path path) (hops @ [conn_module (conns S s)])" using h(4) by (cases hops) auto
  have lt: "c < allocated S" "s < allocated S" "c \<noteq> s" using c(2) s(1) by (auto simp: sender_def receiver_def)
  obtain S' srcs sinks where r: "connectPath ops path c s S = Some (Inr S')" "routed S S' c s hops sinks srcs"
    using connectPath_routed [OF lt, of path hops] h(1,2) mod_c by blast
  have "carries path S' c hops s"
  proof (rule route_carries)
    show "successively (short_path path) (hops @ [conn_module (conns S' s)])" using tail routed_ends(3) [OF r(2) lt(2)] by simp
    show "\<forall>k \<in> set (srcs @ sinks @ [s]). k < allocated S'" using r(2) lt(2) by (auto simp: routed_def)
  qed (use r(2) in \<open>simp_all add: routed_def\<close>)
  moreover have "net_ok S'"
    by (rule routed_net_ok [OF r(2) net c(2) s(1,2)]) (use cok mod_c h(2,3) s(3) short_path_neq [OF tail] in auto)
  ultimately show ?thesis
    using r h(1,2,3,5) tail s(1,2) joined_partner(1) [OF s(2)] c(2) s(1) by (auto simp: sender_def receiver_def)
qed

end

end
