(* ===== verification/RouteNames.thy ===== *)
theory RouteNames
  imports RouteHops "HOL-Library.Sublist"
begin

text \<open>
  The names and the ends of the channels that routing adds (\<^verbatim>\<open>lim_connect/LIMConnect.py\<close>).  The network analysis
  finds the link of a connection by its name; the lemmas show that on every platform the channels that carry
  other connections keep names of their own, and that each of them leads to a neighbour.
\<close>

section \<open>Names\<close>

text \<open>A name that is not one of a channel on the way.\<close>

definition marker :: string where
  "marker = ''RoutethroughFrom_''"

definition plain :: "string \<Rightarrow> bool" where
  "plain n \<longleftrightarrow> \<not> sublist marker n"

lemma through_name_marker: "through_name a b p = conn_name a @ marker @ conn_module a @ ''_To_'' @ conn_module b @ ''_Via'' @ p"
  by (simp add: through_name_def marker_def)

lemma plain_not_through: "plain n \<Longrightarrow> n \<noteq> through_name a b p"
  by (auto simp: plain_def through_name_marker sublist_appendI)

text \<open>The marker begins with a letter that it does not contain again, so it does not overlap with itself.\<close>

lemma marker_ends: "marker ! 0 = CHR ''R''" "0 < length marker"
  "0 < k \<Longrightarrow> k < length marker \<Longrightarrow> marker ! k \<noteq> CHR ''R''"
  by (simp_all add: marker_def nth_Cons' split: if_splits)

lemma plain_prefix:
  assumes "plain (n' @ u)" and "u @ marker @ x = marker @ x'"
  shows "u = []"
proof (rule ccontr)
  assume ne: "u \<noteq> []"
  show False
  proof (cases "length u < length marker")
    case True
    have "(u @ marker @ x) ! length u = CHR ''R''" using marker_ends(1,2) by (simp add: nth_append)
    moreover have "(marker @ x') ! length u \<noteq> CHR ''R''" using True ne marker_ends(3) by (simp add: nth_append)
    ultimately show False using assms(2) by simp
  next
    case False
    then have "take (length marker) u = marker"
      using arg_cong [OF assms(2), of "take (length marker)"] by simp
    then have "u = marker @ drop (length marker) u" by (metis append_take_drop_id)
    then have "sublist marker (n' @ u)" by (metis sublist_appendI)
    with assms(1) show False by (simp add: plain_def)
  qed
qed

lemma plain_through:
  assumes "plain n" and "plain n'" and "n @ marker @ x = n' @ marker @ x'"
  shows "n = n' \<and> x = x'"
proof -
  obtain u where "n = n' @ u \<and> u @ marker @ x = marker @ x' \<or> n @ u = n' \<and> marker @ x = u @ marker @ x'"
    using iffD1 [OF append_eq_append_conv2 assms(3)] by blast
  then have "n = n'" using plain_prefix [of n' u x x'] plain_prefix [of n u x' x] assms(1,2) by auto
  with assms(3) show ?thesis by simp
qed

lemma through_name_label: "label a = label a' \<Longrightarrow> label b = label b' \<Longrightarrow> through_name a b = through_name a' b'"
  by (intro ext) (simp add: through_name_def label_def)

section \<open>The channels on the way\<close>

text \<open>The senders of the graph, and those of a platform.\<close>

definition senders :: "route_state \<Rightarrow> nat set" where
  "senders S = {c. sender S c \<and> (\<exists>p \<in> set (mod_names S). c \<in> set (mod_channels S p))}"

definition sends :: "route_state \<Rightarrow> string \<Rightarrow> nat list" where
  "sends S p = filter (\<lambda>c. sc_type (conns S c) = ''Send'') (mod_channels S p)"

text \<open>The sender that a route adds to a platform.\<close>

fun hop_send :: "string \<Rightarrow> string list \<Rightarrow> nat list \<Rightarrow> nat list" where
  "hop_send p (h # hs) (y # ys) = (if h = p then [y] else []) @ hop_send p hs ys"
| "hop_send p _ _ = []"

lemma new_sends:
  "bridges S hops sinks srcs \<Longrightarrow> filter (\<lambda>c. sc_type (conns S c) = ''Send'') (hop_new p hops sinks srcs) = hop_send p hops srcs"
proof (induction S hops sinks srcs rule: bridges.induct)
  case (2 S h hs x xs y ys)
  then show ?case using bridge_ends(2,5) [of S h x y] by simp
qed simp_all

lemma hop_send_none: "p \<notin> set hops \<Longrightarrow> hop_send p hops srcs = []"
  by (induction p hops srcs rule: hop_send.induct) auto

lemma hop_send_one: "distinct hops \<Longrightarrow> length (hop_send p hops srcs) \<le> 1"
  by (induction p hops srcs rule: hop_send.induct) (auto simp: hop_send_none)

lemma hop_send_set: "set (hop_send p hops srcs) \<subseteq> set srcs"
  by (induction p hops srcs rule: hop_send.induct) auto

lemma hop_send_all: "list_all2 P hops srcs \<Longrightarrow> y \<in> set (hop_send p hops srcs) \<Longrightarrow> P p y \<and> p \<in> set hops"
  by (induction p hops srcs rule: hop_send.induct) (auto split: if_splits)

lemma hop_send_near:
  assumes "bridges S hops sinks srcs" and "list_all (joined S) (zip (src # srcs) (sinks @ [sink]))"
    and "successively (short_path path) (hops @ [conn_module (conns S sink)])" and "y \<in> set (hop_send p hops srcs)"
  shows "conn_class (conns S y) = LIChannel \<and> conn_module (conns S y) = p \<and> (\<exists>x \<in> set (sinks @ [sink]). joined S (y, x)) \<and>
    short_path path p (conn_module (conns S (sink_of S y)))"
  using assms
proof (induction S hops sinks srcs arbitrary: src rule: bridges.induct)
  case (2 S h hs x xs z zs)
  have b: "bridge S h x z" "bridges S hs xs zs" using 2(2) by simp_all
  have rest: "list_all (joined S) (zip (z # zs) (xs @ [sink]))" using 2(3) by simp
  consider "y = z" "h = p" | "y \<in> set (hop_send p hs zs)" using 2(5) by (auto split: if_splits)
  then show ?case
  proof cases
    case 1
    let ?n = "hd (xs @ [sink])"
    have n: "joined S (z, ?n)" "?n \<in> set (xs @ [sink])" using rest by (cases xs; simp)+
    have "conn_module (conns S ?n) = hd (hs @ [conn_module (conns S sink)])"
      using b(2) bridge_ends(3) by (cases "(S, hs, xs, zs)" rule: bridges.cases) auto
    moreover have "short_path path h (hd (hs @ [conn_module (conns S sink)]))" using 2(4) by (cases hs) auto
    moreover have "sink_of S z = ?n" using n(1) by (simp add: joined_def linked_def)
    ultimately show ?thesis using 1 n bridge_ends(4,6) [OF b(1)] by auto
  next
    case 3: 2
    have "successively (short_path path) (hs @ [conn_module (conns S sink)])" using "2.prems"(3) by (cases hs) auto
    from "2.IH" [OF b(2) rest this 3] show ?thesis by auto
  qed
qed auto

section \<open>Every channel on the way is tidy\<close>

text \<open>
  The channels of a routed graph: the senders of a platform have different names and are joined with a
  receiver, and a sender that was not there before is next to its receiver and named after a routed pair.
\<close>

definition pair_name :: "route_state \<Rightarrow> nat \<times> nat \<Rightarrow> string \<Rightarrow> string" where
  "pair_name S = (\<lambda>(a, b). through_name (conns S a) (conns S b))"

definition tidy_sender :: "path_fn \<Rightarrow> route_state \<Rightarrow> (nat \<times> nat) set \<Rightarrow> route_state \<Rightarrow> string \<Rightarrow> nat \<Rightarrow> bool" where
  "tidy_sender path S0 R S p y \<longleftrightarrow> y < allocated S \<and> conn_class (conns S y) = LIChannel \<and> conn_module (conns S y) = p \<and>
     0 \<le> bitwidth (conns S y) \<and> (\<exists>x < allocated S. joined S (y, x)) \<and>
     (y \<notin> senders S0 \<longrightarrow> short_path path p (conn_module (conns S (sink_of S y))) \<and>
        (\<exists>l \<in> R. conn_name (conns S y) = pair_name S0 l p))"

definition tidy :: "path_fn \<Rightarrow> route_state \<Rightarrow> (nat \<times> nat) set \<Rightarrow> route_state \<Rightarrow> bool" where
  "tidy path S0 R S \<longleftrightarrow> (\<forall>p \<in> set (mod_names S).
     distinct (map (\<lambda>c. conn_name (conns S c)) (sends S p)) \<and> (\<forall>y \<in> set (sends S p). tidy_sender path S0 R S p y))"

lemma routed_sends:
  assumes r: "routed S S' src sink hops sinks srcs" and "\<forall>c \<in> set (mod_channels S p). c < allocated S"
  shows "sends S' p = sends S p @ hop_send p hops srcs"
proof -
  have "filter (\<lambda>c. sc_type (conns S' c) = ''Send'') (mod_channels S p) = sends S p"
    unfolding sends_def using assms by (intro filter_cong) (auto simp: routed_def label_def)
  moreover have "filter (\<lambda>c. sc_type (conns S' c) = ''Send'') (hop_new p hops sinks srcs) = hop_send p hops srcs"
    using r by (intro new_sends) (simp add: routed_def)
  ultimately show ?thesis using r by (simp add: sends_def routed_def)
qed

lemma tidy_kept:
  assumes r: "routed S S' src sink hops sinks srcs" and y: "tidy_sender path S0 R S p y" and "R \<subseteq> R'"
    and "y \<noteq> src" and "sink_of S y \<noteq> sink" and "y \<noteq> sink"
    and "\<And>x. joined S (y, x) \<Longrightarrow> conn_class (conns S x) = LIChannel \<Longrightarrow> x \<noteq> src"
  shows "tidy_sender path S0 R' S' p y" and "sink_of S' y = sink_of S y"
proof -
  obtain x where x: "x < allocated S" "joined S (y, x)" "y < allocated S" using y by (auto simp: tidy_sender_def)
  have xs: "sink_of S y = x" using x(2) by (simp add: joined_def linked_def)
  have j: "joined S' (y, x)"
    by (rule routed_joined [OF r x(2,3,1) assms(4)]) (use assms(5-7) x(2) xs in auto)
  then show same: "sink_of S' y = sink_of S y" using xs by (simp add: joined_def linked_def)
  have "label (conns S' k) = label (conns S k)" "bitwidth (conns S' k) = bitwidth (conns S k)" if "k \<in> {x, y}" for k
    using r x that by (auto simp: routed_def)
  then show "tidy_sender path S0 R' S' p y"
    using y assms(3) j x r same xs unfolding tidy_sender_def
    by (auto simp: label_def routed_def intro!: exI [of _ x])
qed

lemma tidy_routed:
  assumes T: "tidy path S0 R S" and r: "routed S S' src sink hops sinks srcs" and "R \<subseteq> R'" and lt: "sink < allocated S"
    and chan: "\<And>p c. p \<in> set (mod_names S) \<Longrightarrow> c \<in> set (mod_channels S p) \<Longrightarrow> c < allocated S"
    and hops: "successively (short_path path) (hops @ [conn_module (conns S sink)])" "distinct hops"
    and bw: "0 \<le> bitwidth (conns S src)"
    and others: "\<And>p y. p \<in> set (mod_names S) \<Longrightarrow> y \<in> set (sends S p) \<Longrightarrow> y \<noteq> src \<Longrightarrow> sink_of S y \<noteq> sink \<and> y \<noteq> sink \<and>
      (conn_class (conns S (sink_of S y)) = LIChannel \<longrightarrow> sink_of S y \<noteq> src)"
    and own: "\<And>p. p \<in> set (mod_names S) \<Longrightarrow> src \<in> set (sends S p) \<Longrightarrow> tidy_sender path S0 R' S' p src"
    and new: "\<And>p. p \<in> set hops \<Longrightarrow> (\<exists>l \<in> R'. through_name (conns S src) (conns S sink) p = pair_name S0 l p) \<and>
      (\<forall>y \<in> set (sends S p). conn_name (conns S y) \<noteq> through_name (conns S src) (conns S sink) p)"
  shows "tidy path S0 R' S'"
  unfolding tidy_def
proof (intro ballI conjI)
  fix p
  assume "p \<in> set (mod_names S')"
  then have p: "p \<in> set (mod_names S)" using r by (simp add: routed_def)
  have sends: "sends S' p = sends S p @ hop_send p hops srcs" using routed_sends [OF r] chan [OF p] by blast
  have parts: "bridges S' hops sinks srcs" "list_all (joined S') (zip (src # srcs) (sinks @ [sink]))"
      "list_all2 (through S' (conns S src) (conns S sink)) hops srcs" "\<forall>k \<in> set (srcs @ sinks). allocated S \<le> k \<and> k < allocated S'"
      "allocated S \<le> allocated S'"
    using r by (simp_all add: routed_def)
  have tail: "successively (short_path path) (hops @ [conn_module (conns S' sink)])"
    using hops(1) routed_ends(3) [OF r lt] by simp
  have added: "conn_name (conns S' y) = through_name (conns S src) (conns S sink) p \<and> tidy_sender path S0 R' S' p y \<and> p \<in> set hops"
    if y: "y \<in> set (hop_send p hops srcs)" for y
  proof -
    note near = hop_send_near [OF parts(1,2) tail y]
    have t: "through S' (conns S src) (conns S sink) p y" "p \<in> set hops" using hop_send_all [OF parts(3) y] by auto
    obtain x where x: "x \<in> set (sinks @ [sink])" "joined S' (y, x)" using near by blast
    then have "x < allocated S'" using parts(4,5) lt by auto
    moreover have "y < allocated S'" using y hop_send_set [of p hops srcs] parts(4) by auto
    ultimately have "tidy_sender path S0 R' S' p y"
      using near x(2) t(1) bw new [OF t(2)] by (auto simp: tidy_sender_def through_def)
    then show ?thesis using t by (simp add: through_def)
  qed
  have old_names: "map (\<lambda>c. conn_name (conns S' c)) (sends S p) = map (\<lambda>c. conn_name (conns S c)) (sends S p)"
    using routed_labels [OF r] chan [OF p] by (auto simp: sends_def label_def)
  have one: "length (hop_send p hops srcs) \<le> 1" by (rule hop_send_one [OF hops(2)])
  have dist: "distinct (map (\<lambda>c. conn_name (conns S c)) (sends S p))" using T p by (simp add: tidy_def)
  show "distinct (map (\<lambda>c. conn_name (conns S' c)) (sends S' p))"
  proof (cases "hop_send p hops srcs")
    case (Cons y ys)
    then have "hop_send p hops srcs = [y]" using one by simp
    moreover have "conn_name (conns S' y) \<notin> set (map (\<lambda>c. conn_name (conns S c)) (sends S p))"
      using added [of y] new [of p] Cons by auto
    ultimately show ?thesis using dist unfolding sends map_append old_names by simp
  qed (use dist in \<open>simp add: sends old_names\<close>)
  fix y
  assume "y \<in> set (sends S' p)"
  then consider "y \<in> set (sends S p)" "y = src" | "y \<in> set (sends S p)" "y \<noteq> src" | "y \<in> set (hop_send p hops srcs)"
    unfolding sends by auto
  then show "tidy_sender path S0 R' S' p y"
  proof cases
    case 1
    then show ?thesis using own [OF p] by simp
  next
    case 2
    have ts: "tidy_sender path S0 R S p y" using T p 2(1) by (simp add: tidy_def)
    have "x = sink_of S y" if "joined S (y, x)" for x using that by (simp add: joined_def linked_def)
    then show ?thesis using tidy_kept(1) [OF r ts assms(3) 2(2)] others [OF p 2] by blast
  next
    case 3
    then show ?thesis using added by blast
  qed
qed

text \<open>A sender that a route adds leads to a channel it adds, or to its end.\<close>

lemma routed_sinks:
  assumes "tidy path S0 R S" and r: "routed S S' src sink hops sinks srcs"
    and "\<And>p c. p \<in> set (mod_names S) \<Longrightarrow> c \<in> set (mod_channels S p) \<Longrightarrow> c < allocated S"
    and "successively (short_path path) (hops @ [conn_module (conns S sink)])" and "sink < allocated S"
    and "p \<in> set (mod_names S)" and "y \<in> set (sends S' p)"
  shows "y \<in> set (sends S p) \<or> sink_of S' y \<in> set (sinks @ [sink])"
proof -
  have "sends S' p = sends S p @ hop_send p hops srcs" using routed_sends [OF r] assms(3,6) by blast
  moreover have "sink_of S' y \<in> set (sinks @ [sink])" if "y \<in> set (hop_send p hops srcs)"
  proof -
    have "successively (short_path path) (hops @ [conn_module (conns S' sink)])"
      using assms(4) routed_ends(3) [OF r assms(5)] by simp
    from hop_send_near [OF _ _ this that] show ?thesis using r by (auto simp: routed_def joined_def linked_def)
  qed
  ultimately show ?thesis using assms(7) by auto
qed

section \<open>The names before routing\<close>

text \<open>The chains of a platform: references that are older than any route.\<close>

definition chains_ok :: "route_state \<Rightarrow> bool" where
  "chains_ok S \<longleftrightarrow> (\<forall>p \<in> set (mod_names S). distinct (map (conn_name \<circ> conns S) (mod_chains S p)) \<and>
     (\<forall>c \<in> set (mod_chains S p). c < allocated S \<and> conn_class (conns S c) = LIChain \<and> conn_module (conns S c) = p))"

definition chain_ends :: "route_state \<Rightarrow> nat set" where
  "chain_ends S = {c. \<exists>p \<in> set (mod_names S). c \<in> set (mod_chains S p)}"

text \<open>
  What a program must respect: the names of its channels and chains differ, and none is one that routing would
  give; a pair of platforms can be read off its text.
\<close>

definition names_ok :: "route_state \<Rightarrow> bool" where
  "names_ok S \<longleftrightarrow> inj_on (\<lambda>c. conn_name (conns S c)) (senders S) \<and>
     (\<forall>k \<in> chain_ends S. \<forall>c \<in> senders S. conn_name (conns S c) \<noteq> conn_name (conns S k)) \<and>
     (\<forall>c \<in> senders S \<union> chain_ends S. plain (conn_name (conns S c)) \<and> 0 \<le> bitwidth (conns S c)) \<and>
     inj_on (\<lambda>(p, q). p @ ''_To_'' @ q) (set (mod_names S) \<times> set (mod_names S))"

text \<open>The pairs that are routed: a sender and its partner, or two ends of one chain.\<close>

definition routed_pair :: "route_state \<Rightarrow> nat \<times> nat \<Rightarrow> bool" where
  "routed_pair S = (\<lambda>(a, b).
     conn_module (conns S a) \<in> set (mod_names S) \<and> conn_module (conns S b) \<in> set (mod_names S) \<and>
     (a \<in> senders S \<and> b = partnerChannel (conns S a) \<or>
      a \<in> chain_ends S \<and> b \<in> chain_ends S \<and> conn_name (conns S a) = conn_name (conns S b)))"

lemma chain_end_unique:
  assumes "chains_ok S" and "a \<in> chain_ends S" and "a' \<in> chain_ends S"
    and "conn_name (conns S a) = conn_name (conns S a')" and "conn_module (conns S a) = conn_module (conns S a')"
  shows "a = a'"
proof -
  obtain p q where pq: "p \<in> set (mod_names S)" "a \<in> set (mod_chains S p)" "q \<in> set (mod_names S)" "a' \<in> set (mod_chains S q)"
    using assms(2,3) by (auto simp: chain_ends_def)
  then have "p = q" using assms(1,5) by (auto simp: chains_ok_def)
  moreover have "inj_on (conn_name \<circ> conns S) (set (mod_chains S p))"
    using assms(1) pq(1) by (simp add: chains_ok_def distinct_map)
  ultimately show ?thesis using pq(2,4) assms(4) inj_onD [of "conn_name \<circ> conns S" _ a a'] by simp
qed

lemma pair_names_differ:
  assumes ok: "names_ok S" and chains: "chains_ok S" and l: "routed_pair S (a, b)" and l': "routed_pair S (a', b')"
    and same: "pair_name S (a, b) p = pair_name S (a', b') p"
  shows "a = a' \<and> b = b'"
proof -
  have orig: "a \<in> senders S \<union> chain_ends S" "a' \<in> senders S \<union> chain_ends S" using l l' by (auto simp: routed_pair_def)
  have plain: "plain (conn_name (conns S c))" if "c \<in> senders S \<union> chain_ends S" for c using ok that by (simp add: names_ok_def)
  have eq: "conn_name (conns S a) @ marker @ conn_module (conns S a) @ ''_To_'' @ conn_module (conns S b) @ ''_Via'' @ p =
      conn_name (conns S a') @ marker @ conn_module (conns S a') @ ''_To_'' @ conn_module (conns S b') @ ''_Via'' @ p"
    using same by (simp add: pair_name_def through_name_marker)
  have parts: "conn_name (conns S a) = conn_name (conns S a')"
      "conn_module (conns S a) @ ''_To_'' @ conn_module (conns S b) = conn_module (conns S a') @ ''_To_'' @ conn_module (conns S b')"
    using plain_through [OF plain [OF orig(1)] plain [OF orig(2)] eq] by simp_all
  have inj: "inj_on (\<lambda>(p, q). p @ ''_To_'' @ q) (set (mod_names S) \<times> set (mod_names S))" using ok by (simp add: names_ok_def)
  have "(conn_module (conns S a), conn_module (conns S b)) = (conn_module (conns S a'), conn_module (conns S b'))"
    by (rule inj_onD [OF inj]) (use parts(2) l l' in \<open>auto simp: routed_pair_def\<close>)
  then have mods: "conn_module (conns S a) = conn_module (conns S a')" "conn_module (conns S b) = conn_module (conns S b')" by simp_all
  have kinds: "conn_name (conns S c) \<noteq> conn_name (conns S k)" if "c \<in> senders S" "k \<in> chain_ends S" for c k
    using ok that by (simp add: names_ok_def)
  consider "a \<in> senders S" "a' \<in> senders S" "b = partnerChannel (conns S a)" "b' = partnerChannel (conns S a')"
    | "a \<in> chain_ends S" "a' \<in> chain_ends S" "b \<in> chain_ends S" "b' \<in> chain_ends S"
      "conn_name (conns S a) = conn_name (conns S b)" "conn_name (conns S a') = conn_name (conns S b')"
    using l l' kinds parts(1) by (fastforce simp: routed_pair_def)
  then show ?thesis
  proof cases
    case 1
    then have "a = a'" using ok parts(1) by (auto simp: names_ok_def dest: inj_onD)
    with 1 show ?thesis by simp
  next
    case 2
    then show ?thesis using chain_end_unique [OF chains] parts(1) mods by metis
  qed
qed

lemma original_not_through:
  "names_ok S \<Longrightarrow> c \<in> senders S \<union> chain_ends S \<Longrightarrow> conn_name (conns S c) \<noteq> pair_name S l p"
  using plain_not_through by (auto simp: names_ok_def pair_name_def split: prod.splits)

text \<open>The name of a pair that has not been routed yet is new on every platform.\<close>

lemma pair_name_new:
  assumes "names_ok S0" and "chains_ok S0" and T: "tidy path S0 R S" and "p \<in> set (mod_names S)" and "y \<in> set (sends S p)"
    and "routed_pair S0 l" and "l \<notin> R" and "\<And>l'. l' \<in> R \<Longrightarrow> routed_pair S0 l'"
    and "y \<in> senders S0 \<Longrightarrow> conn_name (conns S y) = conn_name (conns S0 y)"
  shows "conn_name (conns S y) \<noteq> pair_name S0 l p"
proof (cases "y \<in> senders S0")
  case True
  then show ?thesis using original_not_through [OF assms(1)] assms(9) by auto
next
  case False
  then obtain l' where l': "l' \<in> R" "conn_name (conns S y) = pair_name S0 l' p"
    using T assms(4,5) unfolding tidy_def tidy_sender_def by blast
  show ?thesis
  proof
    assume "conn_name (conns S y) = pair_name S0 l p"
    then have "pair_name S0 l p = pair_name S0 l' p" using l'(2) by simp
    moreover obtain a b a' b' where "l = (a, b)" "l' = (a', b')" by (metis surj_pair)
    ultimately have "l = l'"
      using pair_names_differ [OF assms(1,2), of a b a' b' p] assms(6) assms(8) [OF l'(1)] by simp
    then show False using l'(1) assms(7) by simp
  qed
qed

text \<open>So is the name that the route of a new pair gives, whose two ends are older than any route.\<close>

definition kept :: "route_state \<Rightarrow> route_state \<Rightarrow> bool" where
  "kept S0 S \<longleftrightarrow> allocated S0 \<le> allocated S \<and>
     (\<forall>j < allocated S0. label (conns S j) = label (conns S0 j) \<and> bitwidth (conns S j) = bitwidth (conns S0 j))"

lemma route_name_new:
  assumes named: "names_ok S0" "chains_ok S0" and T: "tidy path S0 R S" "kept S0 S" and p: "p \<in> set (mod_names S)"
    and ends: "a < allocated S0" "b < allocated S0" and pairs: "routed_pair S0 (a, b)" "(a, b) \<notin> R" "\<forall>l \<in> R. routed_pair S0 l"
    and R': "(a, b) \<in> R'"
  shows "(\<exists>l \<in> R'. through_name (conns S a) (conns S b) p = pair_name S0 l p) \<and>
    (\<forall>y \<in> set (sends S p). conn_name (conns S y) \<noteq> through_name (conns S a) (conns S b) p)"
proof -
  have "label (conns S a) = label (conns S0 a)" "label (conns S b) = label (conns S0 b)" using T(2) ends by (simp_all add: kept_def)
  from through_name_label [OF this] have name: "through_name (conns S a) (conns S b) p = pair_name S0 (a, b) p"
    by (simp add: pair_name_def)
  have "conn_name (conns S y) \<noteq> pair_name S0 (a, b) p" if y: "y \<in> set (sends S p)" for y
  proof (rule pair_name_new [OF named T(1) p y pairs(1,2)])
    show "conn_name (conns S y) = conn_name (conns S0 y)" if "y \<in> senders S0"
      using that T(2) by (auto simp: kept_def senders_def sender_def label_def)
  qed (use pairs(3) in blast)
  then show ?thesis using name R' by auto
qed

end
