(* ===== verification/RouteAll.thy ===== *)
theory RouteAll
  imports RouteNames
begin

text \<open>
  \<open>routeConnections\<close> of \<^verbatim>\<open>lim_connect/LIMConnect.py\<close> as a whole.  The channels a route adds to the platforms on
  its way are found by the same loop later and are routed again; the lemmas show that the loop ends all the
  same, that a second routing changes nothing, and that afterwards every channel leads to its partner.
\<close>

section \<open>The loop over the channels\<close>

text \<open>Every sender of \<open>S0\<close> outside \<open>T\<close> is carried to its partner, the others are still joined with it.\<close>

definition arrives :: "path_fn \<Rightarrow> route_state \<Rightarrow> route_state \<Rightarrow> nat \<Rightarrow> nat \<Rightarrow> bool" where
  "arrives path S0 S a b \<longleftrightarrow>
     (\<exists>hops. path (conn_module (conns S0 a)) (conn_module (conns S0 b)) = Some (Inr hops) \<and> carries path S a hops b)"

lemma carries_near:
  assumes "carries path S a hops b" and "successively (short_path path) (p # hops @ [conn_module (conns S b)])"
  shows "short_path path p (conn_module (conns S (sink_of S a)))"
  using assms
proof cases
  case (next_hop x y hop hs)
  then have "sink_of S a = x" "conn_module (conns S x) = hop" using bridge_ends(3) by (auto simp: joined_def linked_def)
  then show ?thesis using next_hop(1) assms(2) by simp
qed (auto simp: joined_def linked_def)

definition grown :: "route_state \<Rightarrow> route_state \<Rightarrow> bool" where
  "grown S0 S \<longleftrightarrow> mod_names S = mod_names S0 \<and> mod_chains S = mod_chains S0 \<and> allocated S0 \<le> allocated S \<and>
     (\<forall>j < allocated S0. label (conns S j) = label (conns S0 j) \<and> bitwidth (conns S j) = bitwidth (conns S0 j)) \<and>
     (\<forall>r. set (mod_channels S0 r) \<subseteq> set (mod_channels S r))"

text \<open>
  Delivery does not depend on names; that the channels on the way are tidy does.
\<close>

definition tidy_if_named :: "path_fn \<Rightarrow> route_state \<Rightarrow> (nat \<times> nat) set \<Rightarrow> route_state \<Rightarrow> bool" where
  "tidy_if_named path S0 R S \<longleftrightarrow> (names_ok S0 \<and> chains_ok S0 \<longrightarrow> tidy path S0 R S)"

definition sender_pairs :: "route_state \<Rightarrow> nat set \<Rightarrow> (nat \<times> nat) set" where
  "sender_pairs S C = (\<lambda>c. (c, partnerChannel (conns S c))) ` C"

definition progress :: "path_fn \<Rightarrow> route_state \<Rightarrow> nat set \<Rightarrow> route_state \<Rightarrow> bool" where
  "progress path S0 T S \<longleftrightarrow> net_ok S \<and> grown S0 S \<and> tidy_if_named path S0 (sender_pairs S0 (senders S0 - T)) S \<and>
     (\<forall>c \<in> senders S0. if c \<in> T then joined S (c, partnerChannel (conns S0 c))
        else arrives path S0 S c (partnerChannel (conns S0 c)))"

lemma grown_refl [simp]: "grown S S" by (simp add: grown_def)

lemma grown_ends:
  assumes "grown S0 S"
  shows "sender S0 k \<Longrightarrow> sender S k" and "receiver S0 k \<Longrightarrow> receiver S k"
    and "k < allocated S0 \<Longrightarrow> conn_module (conns S k) = conn_module (conns S0 k)"
  using assms by (auto simp: grown_def sender_def receiver_def label_def)

lemma grown_kept: "grown S0 S \<Longrightarrow> kept S0 S"
  by (simp add: grown_def kept_def)

lemma grown_routed: "grown S0 S \<Longrightarrow> routed S S' src sink hops sinks srcs \<Longrightarrow> grown S0 S'"
  by (auto simp: grown_def routed_def)

lemma sender_partner:
  assumes "net_ok S" and "c \<in> senders S"
  shows "receiver S (partnerChannel (conns S c)) \<and> joined S (c, partnerChannel (conns S c))"
proof -
  obtain p where "p \<in> set (mod_names S)" "c \<in> set (mod_channels S p)" "sender S c" using assms(2) by (auto simp: senders_def)
  then have "source_ok S c" using assms(1) by (auto simp: net_ok_def channel_ok_def)
  then obtain s where "receiver S s" "joined S (c, s)" by (auto simp: source_ok_def)
  then show ?thesis using joined_partner(1) [of S c s] \<open>sender S c\<close> by (auto simp: sender_def receiver_def)
qed

lemma sender_pairs_routed:
  assumes "net_ok S" and "l \<in> sender_pairs S C" and "C \<subseteq> senders S"
  shows "routed_pair S l"
proof -
  obtain c where c: "c \<in> senders S" "l = (c, partnerChannel (conns S c))" using assms(2,3) by (auto simp: sender_pairs_def)
  then obtain p where p: "p \<in> set (mod_names S)" "c \<in> set (mod_channels S p)" "sender S c" by (auto simp: senders_def)
  then have "channel_ok S p c" using assms(1) by (simp add: net_ok_def)
  then obtain s where "joined S (c, s)" "conn_module (conns S s) \<in> set (mod_names S)" "receiver S s" "conn_module (conns S c) = p"
    using p(3) by (auto simp: channel_ok_def source_ok_def)
  then show ?thesis
    using c p joined_partner(1) [of S c s] by (auto simp: routed_pair_def sender_def receiver_def)
qed

lemma tidy_start:
  assumes "net_ok S"
  shows "tidy_if_named path S {} S"
  unfolding tidy_if_named_def tidy_def
proof (intro impI ballI conjI)
  fix p
  assume named: "names_ok S \<and> chains_ok S" and p: "p \<in> set (mod_names S)"
  have ok: "channel_ok S p c" if "c \<in> set (mod_channels S p)" for c using assms p that by (simp add: net_ok_def)
  have sends: "c \<in> senders S \<and> channel_ok S p c" if "c \<in> set (sends S p)" for c
  proof -
    have c: "c \<in> set (mod_channels S p)" "sc_type (conns S c) = ''Send''" using that by (simp_all add: sends_def)
    then have "sender S c" using ok by (auto simp: channel_ok_def receiver_def)
    then show ?thesis using c(1) ok p by (auto simp: senders_def)
  qed
  have "inj_on (\<lambda>c. conn_name (conns S c)) (set (sends S p))"
    using named sends inj_on_subset [of _ "senders S" "set (sends S p)"] unfolding names_ok_def by blast
  then show "distinct (map (\<lambda>c. conn_name (conns S c)) (sends S p))"
    using assms p by (simp add: distinct_map net_ok_def sends_def)
  fix y
  assume y: "y \<in> set (sends S p)"
  note s = sends [OF y]
  have "0 \<le> bitwidth (conns S y)" using named s by (simp add: names_ok_def)
  moreover have "joined S (y, partnerChannel (conns S y))" "partnerChannel (conns S y) < allocated S"
    using sender_partner [OF assms, of y] s by (simp_all add: receiver_def)
  moreover have "sender S y" "conn_module (conns S y) = p" using s by (simp_all add: senders_def channel_ok_def)
  ultimately show "tidy_sender path S {} S p y"
    using s unfolding tidy_sender_def sender_def by blast
qed

text \<open>The sender of a route stays tidy: if it is not one of \<open>S0\<close>, the route does not move it.\<close>

lemma tidy_source:
  assumes tc: "tidy_sender path S0 R S p c" and r: "routed S S' c s hops sinks srcs" and s: "receiver S s" "joined S (c, s)"
    and "carries path S' c hops s" and no_hops: "c \<notin> senders S0 \<Longrightarrow> hops = []"
  shows "tidy_sender path S0 R S' p c"
proof -
  have "label (conns S' c) = label (conns S c)" "bitwidth (conns S' c) = bitwidth (conns S c)" "c < allocated S'"
    using r tc by (auto simp: routed_def tidy_sender_def)
  moreover obtain x where "x < allocated S'" "joined S' (c, x)" using carries_first [OF assms(5)] by blast
  moreover have "sink_of S' c = s \<and> sink_of S c = s" if "hops = []"
    using r s(2) that by (auto simp: routed_def joined_def linked_def)
  moreover have "conn_module (conns S' s) = conn_module (conns S s)"
    using routed_ends(3) [OF r] s(1) by (simp add: receiver_def)
  ultimately show ?thesis using tc no_hops unfolding tidy_sender_def by (auto simp: label_def)
qed

lemma progress_tidy:
  assumes start: "net_ok S0" and prog: "progress path S0 T S" and named: "names_ok S0" "chains_ok S0"
    and c: "sender S c" "c \<in> set (mod_channels S p)" "p \<in> set (mod_names S)" "c \<in> senders S0 \<Longrightarrow> c \<in> T"
    and r: "routed S S' c s hops sinks srcs" "path p (conn_module (conns S s)) = Some (Inr hops)" "receiver S s" "joined S (c, s)"
      "distinct hops" "carries path S' c hops s" "successively (short_path path) (hops @ [conn_module (conns S s)])" "net_ok S'"
      "set hops \<subseteq> set (mod_names S)"
  shows "tidy path S0 (sender_pairs S0 (senders S0 - (T - {c}))) S'"
proof -
  let ?R = "sender_pairs S0 (senders S0 - T)" and ?R' = "sender_pairs S0 (senders S0 - (T - {c}))"
  have net: "net_ok S" and g: "grown S0 S" and tidy: "tidy path S0 ?R S"
    using prog named by (simp_all add: progress_def tidy_if_named_def)
  have mod_c: "conn_module (conns S c) = p" using net c(2,3) by (simp add: net_ok_def channel_ok_def)
  have sends_c: "c \<in> set (sends S p)" using c(1,2) by (simp add: sends_def sender_def)
  then have tc: "tidy_sender path S0 ?R S p c" using tidy c(3) by (simp add: tidy_def)
  have sub: "?R \<subseteq> ?R'" by (auto simp: sender_pairs_def)
  have no_hops: "hops = []" if "c \<notin> senders S0"
    using tc that r(2,4) by (auto simp: tidy_sender_def short_path_def joined_def linked_def)
  show ?thesis
  proof (rule tidy_routed [OF tidy r(1) sub _ _ r(7,5)])
    show "s < allocated S" using r(3) by (simp add: receiver_def)
    show "a < allocated S" if "q \<in> set (mod_names S)" "a \<in> set (mod_channels S q)" for q a
      using net that by (auto simp: net_ok_def channel_ok_def sender_def receiver_def)
    show "0 \<le> bitwidth (conns S c)" using tc by (simp add: tidy_sender_def)
    show "sink_of S y \<noteq> s \<and> y \<noteq> s \<and> (conn_class (conns S (sink_of S y)) = LIChannel \<longrightarrow> sink_of S y \<noteq> c)"
      if "q \<in> set (mod_names S)" "y \<in> set (sends S q)" "y \<noteq> c" for q y
    proof -
      have "tidy_sender path S0 ?R S q y" using tidy that(1,2) by (simp add: tidy_def)
      then have y: "joined S (y, sink_of S y)" by (auto simp: tidy_sender_def joined_def linked_def)
      have "y \<noteq> s" using that(2) r(3) by (auto simp: sends_def receiver_def)
      moreover have "sink_of S y \<noteq> s" using y r(4) that(3) by (auto simp: joined_def linked_def)
      moreover have "sink_of S y \<noteq> c" if "conn_class (conns S (sink_of S y)) = LIChannel"
        using y r(4) c(1) \<open>y \<noteq> s\<close> by (auto simp: joined_def linked_def source_of_def sink_of_def sender_def)
      ultimately show ?thesis by blast
    qed
    show "tidy_sender path S0 ?R' S' q c" if "q \<in> set (mod_names S)" "c \<in> set (sends S q)" for q
    proof -
      have "q = p" using tidy that mod_c by (auto simp: tidy_def tidy_sender_def)
      then show ?thesis using tidy_source [OF tc r(1,3,4,6) no_hops] sub by (auto simp: tidy_sender_def)
    qed
    fix q
    assume q: "q \<in> set hops"
    then have orig: "c \<in> senders S0" using no_hops by (cases "c \<in> senders S0") auto
    then have cT: "c \<in> T" and ends: "c < allocated S0" using c(4) by (auto simp: senders_def sender_def)
    then have "joined S (c, partnerChannel (conns S0 c))" using prog orig by (simp add: progress_def)
    then have ps: "partnerChannel (conns S0 c) = s" using r(4) by (simp add: joined_def linked_def)
    then have s0: "s < allocated S0" using sender_partner [OF start orig] by (simp add: receiver_def)
    have pair: "routed_pair S0 (c, s)"
      by (rule sender_pairs_routed [OF start, of _ "senders S0"]) (use orig ps in \<open>auto simp: sender_pairs_def\<close>)
    have "(c, s) \<notin> ?R" using cT by (auto simp: sender_pairs_def)
    moreover have "(c, s) \<in> ?R'" using orig ps by (auto simp: sender_pairs_def)
    moreover have "\<forall>l \<in> ?R. routed_pair S0 l" using sender_pairs_routed [OF start] by blast
    moreover have "q \<in> set (mod_names S)" using q r(9) by blast
    ultimately show "(\<exists>l \<in> ?R'. through_name (conns S c) (conns S s) q = pair_name S0 l q) \<and>
        (\<forall>y \<in> set (sends S q). conn_name (conns S y) \<noteq> through_name (conns S c) (conns S s) q)"
      using route_name_new [OF named tidy grown_kept [OF g] _ ends s0 pair] by blast
  qed
qed

context routing_graph
begin

lemma progress_step:
  assumes start: "net_ok S0" and rt: "routable path (set (mod_names S0))"
    and prog: "progress path S0 T S"
    and p: "p \<in> set (mod_names S)" and c: "c \<in> set (mod_channels S p)" "sender S c" "c \<in> senders S0 \<Longrightarrow> c \<in> T"
  shows "\<exists>S'. connectPath ops path c (partnerChannel (conns S c)) S = Some (Inr S') \<and> progress path S0 (T - {c}) S' \<and>
    mod_channels S' p = mod_channels S p"
proof -
  have net: "net_ok S" and g: "grown S0 S" using prog by (simp_all add: progress_def)
  have "routable path (set (mod_names S))" using rt g by (simp add: grown_def)
  from route_step [OF net this p c(1,2)] obtain S' srcs sinks hops s where r:
    "partnerChannel (conns S c) = s" "connectPath ops path c s S = Some (Inr S')" "routed S S' c s hops sinks srcs"
    "path p (conn_module (conns S s)) = Some (Inr hops)" "receiver S s" "joined S (c, s)" "p \<notin> set hops"
    "carries path S' c hops s" "net_ok S'" "distinct hops" "successively (short_path path) (hops @ [conn_module (conns S s)])"
    "set hops \<subseteq> set (mod_names S)" by blast
  have mod_c: "conn_module (conns S c) = p" using net p c(1) by (simp add: net_ok_def channel_ok_def)
  have "if a \<in> T - {c} then joined S' (a, partnerChannel (conns S0 a)) else arrives path S0 S' a (partnerChannel (conns S0 a))"
    if a: "a \<in> senders S0" for a
  proof -
    let ?b = "partnerChannel (conns S0 a)"
    have ab: "receiver S ?b" "sender S a"
      using sender_partner [OF start a] grown_ends [OF g] a by (auto simp: senders_def)
    have st: "if a \<in> T then joined S (a, ?b) else arrives path S0 S a ?b" using prog a by (simp add: progress_def)
    show ?thesis
    proof (cases "a = c")
      case True
      then have "joined S (c, ?b)" using st c(3) a by simp
      then have b: "?b = s" using r(6) by (simp add: joined_def linked_def)
      have "a < allocated S0" "?b < allocated S0"
        using sender_partner [OF start a] a by (auto simp: receiver_def sender_def senders_def)
      then have "conn_module (conns S0 a) = p" "conn_module (conns S0 ?b) = conn_module (conns S s)"
        using grown_ends(3) [OF g] mod_c True b by auto
      then have "arrives path S0 S' a ?b" using r(4,8) b True by (simp add: arrives_def)
      then show ?thesis using True by simp
    next
      case False
      have "a \<in> T \<Longrightarrow> joined S' (a, ?b)"
        using routed_channel_joined [OF r(3) c(2) r(5,6) ab(2,1)] st False by simp
      moreover have "a \<notin> T \<Longrightarrow> arrives path S0 S' a ?b"
        using routed_channel_carries [where path = path, OF r(3) c(2) r(5,6)] r(4) mod_c st ab False by (auto simp: arrives_def)
      ultimately show ?thesis using False by simp
    qed
  qed
  moreover have "tidy_if_named path S0 (sender_pairs S0 (senders S0 - (T - {c}))) S'"
    unfolding tidy_if_named_def
    using progress_tidy [OF start prog _ _ c(2,1) p c(3) r(3-6,10,8,11,9,12)] by blast
  ultimately have "progress path S0 (T - {c}) S'"
    using r(9) grown_routed [OF g r(3)] by (simp add: progress_def)
  moreover have "mod_channels S' p = mod_channels S p" using r(3,7) hop_new_none by (simp add: routed_def)
  ultimately show ?thesis using r(1,2) by blast
qed

end

lemma progress_cong:
  assumes "progress path S0 T S" and "\<And>c. c \<in> senders S0 \<Longrightarrow> c \<in> T \<longleftrightarrow> c \<in> T'"
  shows "progress path S0 T' S"
proof -
  have "senders S0 - T = senders S0 - T'" using assms(2) by auto
  then show ?thesis using assms by (simp add: progress_def)
qed

context routing_graph
begin

lemma route_channels_ok:
  assumes start: "net_ok S0" and rt: "routable path (set (mod_names S0))"
    and p: "p \<in> set (mod_names S0)" and T: "\<And>c. c \<in> T \<Longrightarrow> c < allocated S0 \<Longrightarrow> conn_module (conns S0 c) \<noteq> p"
  shows "progress path S0 (set (drop i (mod_channels S p)) \<union> T) S \<Longrightarrow>
    \<exists>S'. route_channels ops path p i S = Some (Inr S') \<and> progress path S0 T S'"
proof (induction "length (mod_channels S p) - i" arbitrary: i S)
  case 0
  then show ?case by (subst route_channels.simps) simp
next
  case (Suc n)
  let ?c = "mod_channels S p ! i" and ?rest = "set (drop (Suc i) (mod_channels S p))"
  have i: "i < length (mod_channels S p)" using Suc(2) by simp
  then have cin: "?c \<in> set (mod_channels S p)" and drop_i: "drop i (mod_channels S p) = ?c # drop (Suc i) (mod_channels S p)"
    by (simp_all add: Cons_nth_drop_Suc)
  have set_i: "set (drop i (mod_channels S p)) = insert ?c ?rest" by (subst drop_i) simp
  have net: "net_ok S" and g: "grown S0 S" using Suc(3) by (simp_all add: progress_def)
  have pS: "p \<in> set (mod_names S)" using p g by (simp add: grown_def)
  then have dist: "distinct (mod_channels S p)" and cok: "channel_ok S p ?c" using net cin by (simp_all add: net_ok_def)
  then have c_rest: "?c \<notin> ?rest" by (metis distinct.simps(2) distinct_drop drop_i)
  have c_T: "?c \<notin> T" if "?c \<in> senders S0"
  proof -
    have "?c < allocated S0" using that by (simp add: senders_def sender_def)
    moreover have "conn_module (conns S0 ?c) = p" using grown_ends(3) [OF g calculation] cok by (simp add: channel_ok_def)
    ultimately show ?thesis using T by blast
  qed
  have len: "n = length (mod_channels S p) - Suc i" using Suc(2) by simp
  show ?case
  proof (cases "isSource ops (conns S ?c)")
    case True
    then have sc: "sender S ?c" using cok isSource by (auto simp: channel_ok_def receiver_def)
    obtain S' where S': "connectPath ops path ?c (partnerChannel (conns S ?c)) S = Some (Inr S')"
        "progress path S0 (set (drop i (mod_channels S p)) \<union> T - {?c}) S'" "mod_channels S' p = mod_channels S p"
      using progress_step [OF start rt Suc(3) pS cin sc] set_i by auto
    have "progress path S0 (set (drop (Suc i) (mod_channels S' p)) \<union> T) S'"
      by (rule progress_cong [OF S'(2)]) (use S'(3) set_i c_rest c_T in auto)
    from Suc(1) [OF _ this] len S'(3) obtain S'' where "route_channels ops path p (Suc i) S' = Some (Inr S'')" "progress path S0 T S''"
      by auto
    then show ?thesis using i True S'(1) by (subst route_channels.simps) simp
  next
    case False
    then have "\<not> sender S ?c" using isSource by (auto simp: sender_def)
    then have "?c \<notin> senders S0" using grown_ends(1) [OF g] by (auto simp: senders_def)
    then have "progress path S0 (set (drop (Suc i) (mod_channels S p)) \<union> T) S"
      by (intro progress_cong [OF Suc(3)]) (use set_i in auto)
    from Suc(1) [OF len this] show ?thesis using i False by (subst route_channels.simps) simp
  qed
qed

end

lemma dangling_cong:
  "(\<And>c. c \<in> set cs \<Longrightarrow> conn_name (conns S c) = conn_name (conns S' c)) \<Longrightarrow>
     foldl (add_dangling S) d cs = foldl (add_dangling S') d cs"
  by (induction cs arbitrary: d) (simp_all add: add_dangling_def cong: option.case_cong)

context routing_graph
begin

lemma route_platforms_ok:
  assumes start: "net_ok S0" and chains: "chains_ok S0" and rt: "routable path (set (mod_names S0))"
  shows "set names \<subseteq> set (mod_names S0) \<Longrightarrow> distinct names \<Longrightarrow>
    progress path S0 {c. conn_module (conns S0 c) \<in> set names} S \<Longrightarrow>
    \<exists>S'. foldO (route_platform ops path) (S, d) names = Some (Inr (S',
        foldl (add_dangling S0) d (concat (map (mod_chains S0) names)))) \<and> progress path S0 {} S'"
proof (induction names arbitrary: S d)
  case Nil
  then show ?case by simp
next
  case (Cons p names)
  let ?T = "{c. conn_module (conns S0 c) \<in> set names}"
  have g: "grown S0 S" using Cons.prems(3) by (simp add: progress_def)
  have p: "p \<in> set (mod_names S0)" using Cons.prems(1) by simp
  have "progress path S0 (set (drop 0 (mod_channels S p)) \<union> ?T) S"
  proof (rule progress_cong [OF Cons.prems(3)])
    fix c
    assume c: "c \<in> senders S0"
    then obtain q where q: "q \<in> set (mod_names S0)" "c \<in> set (mod_channels S0 q)" "conn_module (conns S0 c) = q" "c < allocated S0"
      using start by (auto simp: senders_def net_ok_def channel_ok_def sender_def)
    have "c \<in> set (mod_channels S p) \<longleftrightarrow> q = p"
    proof
      assume "c \<in> set (mod_channels S p)"
      then have "conn_module (conns S c) = p"
        using Cons.prems(3) p g by (auto simp: progress_def net_ok_def channel_ok_def grown_def)
      then show "q = p" using grown_ends(3) [OF g q(4)] q(3) by simp
    next
      assume "q = p"
      then show "c \<in> set (mod_channels S p)" using q(2) g by (auto simp: grown_def)
    qed
    then show "c \<in> {c. conn_module (conns S0 c) \<in> set (p # names)} \<longleftrightarrow> c \<in> set (drop 0 (mod_channels S p)) \<union> ?T"
      using q(3) by auto
  qed
  from route_channels_ok [OF start rt p _ this] Cons.prems(2)
  obtain S1 where S1: "route_channels ops path p 0 S = Some (Inr S1)" "progress path S0 ?T S1" by auto
  have g1: "grown S0 S1" using S1(2) by (simp add: progress_def)
  have "foldl (add_dangling S1) d (mod_chains S1 p) = foldl (add_dangling S0) d (mod_chains S0 p)"
  proof -
    have "mod_chains S1 p = mod_chains S0 p" using g1 by (simp add: grown_def)
    moreover have "conn_name (conns S1 c) = conn_name (conns S0 c)" if "c \<in> set (mod_chains S0 p)" for c
      using g1 chains p that by (auto simp: grown_def chains_ok_def label_def)
    ultimately show ?thesis using dangling_cong by metis
  qed
  moreover have "p \<in> set (mod_names S)" using p g by (simp add: grown_def)
  ultimately have "route_platform ops path (S, d) p = Some (Inr (S1, foldl (add_dangling S0) d (mod_chains S0 p)))"
    using S1(1) by (simp add: route_platform_def raise_if_def)
  then show ?case using Cons.IH [OF _ _ S1(2)] Cons.prems(1,2) by simp
qed

end

section \<open>The chains\<close>

definition all_matched :: "route_state \<Rightarrow> bool" where
  "all_matched S \<longleftrightarrow> (\<forall>p \<in> set (mod_names S). \<forall>c \<in> set (mod_channels S p).
     c < allocated S \<and> conn_class (conns S c) = LIChannel \<and> matched_flag (conns S c))"

lemma net_matched: "net_ok S \<Longrightarrow> all_matched S"
  by (auto simp: net_ok_def all_matched_def channel_ok_def sender_def receiver_def)

lemma bridges_channels:
  "bridges S hops sinks srcs \<Longrightarrow> k \<in> set (srcs @ sinks) \<Longrightarrow> conn_class (conns S k) = LIChannel"
  by (induction S hops sinks srcs rule: bridges.induct) (auto dest: bridge_ends(1,4))

lemma routed_all_matched:
  assumes r: "routed S S' src sink hops sinks srcs" and "all_matched S"
    and "conn_class (conns S src) = LIChain" and "conn_class (conns S sink) = LIChain"
  shows "all_matched S'"
  unfolding all_matched_def
proof (intro ballI)
  fix p c
  assume p: "p \<in> set (mod_names S')" and c: "c \<in> set (mod_channels S' p)"
  have bs: "bridges S' hops sinks srcs" and lt: "\<forall>k \<in> set (srcs @ sinks). k < allocated S'" using r by (simp_all add: routed_def)
  from c r consider "c \<in> set (mod_channels S p)" | "c \<in> set (hop_new p hops sinks srcs)" by (auto simp: routed_def)
  then show "c < allocated S' \<and> conn_class (conns S' c) = LIChannel \<and> matched_flag (conns S' c)"
  proof cases
    case 1
    then have old: "c < allocated S" "conn_class (conns S c) = LIChannel" "matched_flag (conns S c)"
      using assms(2) p r by (auto simp: all_matched_def routed_def)
    then have "c \<notin> {src, sink}" using assms(3,4) by auto
    then have "conns S' c = conns S c" using r old unfolding routed_def by blast
    then show ?thesis using old routed_labels [OF r old(1)] by simp
  next
    case 2
    then have "c \<in> set (srcs @ sinks)" using hop_new_set by fastforce
    then show ?thesis using bridges_channels [OF bs] routed_matched [OF r, of c] lt by auto
  qed
qed

text \<open>The routes of pairs of chains, where no reference starts two of them or ends two of them.\<close>

definition chain_pair_ok :: "route_state \<Rightarrow> nat \<times> nat \<Rightarrow> bool" where
  "chain_pair_ok S = (\<lambda>(a, b). a < allocated S \<and> b < allocated S \<and>
     conn_class (conns S a) = LIChain \<and> conn_class (conns S b) = LIChain \<and>
     conn_module (conns S a) \<noteq> conn_module (conns S b) \<and>
     conn_module (conns S a) \<in> set (mod_names S) \<and> conn_module (conns S b) \<in> set (mod_names S))"

context routing_graph
begin

lemma chain_pair_routed:
  assumes rt: "routable path (set (mod_names S))" and ok: "chain_pair_ok S (a, b)"
  shows "\<exists>S' srcs sinks hops. route_chain_pair ops path S (a, b) = Some (Inr S') \<and> routed S S' a b hops sinks srcs \<and>
    path (conn_module (conns S a)) (conn_module (conns S b)) = Some (Inr hops) \<and> carries path S' a hops b \<and>
    distinct hops \<and> successively (short_path path) (hops @ [conn_module (conns S b)]) \<and> set hops \<subseteq> set (mod_names S)"
proof -
  have ab: "a < allocated S" "b < allocated S" "conn_module (conns S a) \<noteq> conn_module (conns S b)"
      "conn_module (conns S a) \<in> set (mod_names S)" "conn_module (conns S b) \<in> set (mod_names S)" "a \<noteq> b"
    using ok by (auto simp: chain_pair_ok_def)
  obtain hops where h: "path (conn_module (conns S a)) (conn_module (conns S b)) = Some (Inr hops)" "set hops \<subseteq> set (mod_names S)"
      "successively (short_path path) (conn_module (conns S a) # hops @ [conn_module (conns S b)])" "distinct hops"
    using rt ab(3-5) unfolding routable_def by metis
  obtain S' srcs sinks where r: "connectPath ops path a b S = Some (Inr S')" "routed S S' a b hops sinks srcs"
    using connectPath_routed [where path = path, OF ab(1,2,6) h(1,2)] by blast
  have tail: "successively (short_path path) (hops @ [conn_module (conns S b)])" using h(3) by (cases hops) auto
  then have "carries path S' a hops b"
    by (intro route_carries) (use r(2) ab(2) routed_ends(3) [OF r(2) ab(2)] in \<open>auto simp: routed_def\<close>)
  moreover have "route_chain_pair ops path S (a, b) = Some (Inr S')" using r(1) ab(3) by (simp add: route_chain_pair_def)
  ultimately show ?thesis using r(2) h(1,2,4) tail by blast
qed

end

text \<open>While chains are routed, no channel on the way ends where a chain still has to arrive.\<close>

definition chain_tidy :: "path_fn \<Rightarrow> route_state \<Rightarrow> (nat \<times> nat) set \<Rightarrow> (nat \<times> nat) list \<Rightarrow> route_state \<Rightarrow> bool" where
  "chain_tidy path S0 R xs S \<longleftrightarrow> tidy path S0 R S \<and> kept S0 S \<and> (\<forall>l \<in> R. routed_pair S0 l) \<and>
     (\<forall>(a, b) \<in> set xs. a \<in> chain_ends S0 \<and> b \<in> chain_ends S0 \<and> routed_pair S0 (a, b) \<and> (a, b) \<notin> R) \<and>
     (\<forall>p \<in> set (mod_names S). \<forall>y \<in> set (sends S p). sink_of S y \<notin> snd ` set xs)"

definition chain_tidy_if_named :: "path_fn \<Rightarrow> route_state \<Rightarrow> (nat \<times> nat) set \<Rightarrow> (nat \<times> nat) list \<Rightarrow> route_state \<Rightarrow> bool" where
  "chain_tidy_if_named path S0 R xs S \<longleftrightarrow> (names_ok S0 \<and> chains_ok S0 \<longrightarrow> chain_tidy path S0 R xs S)"

lemma chain_tidy_step:
  assumes named: "names_ok S0" "chains_ok S0" and T: "chain_tidy path S0 R ((a, b) # xs) S" and match: "all_matched S"
    and ok: "list_all (chain_pair_ok S) ((a, b) # xs)" and dist: "distinct (map snd ((a, b) # xs))"
    and r: "routed S S' a b hops sinks srcs" "distinct hops" "successively (short_path path) (hops @ [conn_module (conns S b)])"
      "set hops \<subseteq> set (mod_names S)"
  shows "chain_tidy path S0 (insert (a, b) R) xs S'"
proof -
  let ?R = "insert (a, b) R"
  have tidy: "tidy path S0 R S" and kept: "kept S0 S" and pairs: "\<forall>l \<in> R. routed_pair S0 l"
    and ab: "a \<in> chain_ends S0" "b \<in> chain_ends S0" "routed_pair S0 (a, b)" "(a, b) \<notin> R"
    and away: "\<And>p y. p \<in> set (mod_names S) \<Longrightarrow> y \<in> set (sends S p) \<Longrightarrow> sink_of S y \<noteq> b \<and> sink_of S y \<notin> snd ` set xs"
    using T by (auto simp: chain_tidy_def)
  have cls: "conn_class (conns S a) = LIChain" "conn_class (conns S b) = LIChain" "b < allocated S"
    using ok by (auto simp: chain_pair_ok_def)
  have old: "a < allocated S0" "b < allocated S0" using ab(1,2) named(2) by (auto simp: chain_ends_def chains_ok_def)
  then have width: "bitwidth (conns S a) = bitwidth (conns S0 a)" using kept by (simp add: kept_def)
  have chan: "c < allocated S" if "p \<in> set (mod_names S)" "c \<in> set (mod_channels S p)" for p c
    using match that by (simp add: all_matched_def)
  have sender_class: "conn_class (conns S y) = LIChannel" if "p \<in> set (mod_names S)" "y \<in> set (sends S p)" for p y
    using tidy that by (simp add: tidy_def tidy_sender_def)
  have "tidy path S0 ?R S'"
  proof (rule tidy_routed [OF tidy r(1) _ cls(3) chan r(3,2)])
    show "0 \<le> bitwidth (conns S a)" using width ab(1) named(1) by (simp add: names_ok_def)
    show "sink_of S y \<noteq> b \<and> y \<noteq> b \<and> (conn_class (conns S (sink_of S y)) = LIChannel \<longrightarrow> sink_of S y \<noteq> a)"
      if "p \<in> set (mod_names S)" "y \<in> set (sends S p)" for p y
      using away [OF that] sender_class [OF that] cls(1,2) by auto
    show "tidy_sender path S0 ?R S' p a" if "p \<in> set (mod_names S)" "a \<in> set (sends S p)" for p
      using sender_class [OF that] cls(1) by simp
    show "(\<exists>l \<in> ?R. through_name (conns S a) (conns S b) p = pair_name S0 l p) \<and>
        (\<forall>y \<in> set (sends S p). conn_name (conns S y) \<noteq> through_name (conns S a) (conns S b) p)" if "p \<in> set hops" for p
      using route_name_new [OF named tidy kept _ old ab(3,4) pairs] r(4) that by blast
  qed auto
  moreover have "kept S0 S'" using kept r(1) by (auto simp: kept_def routed_def)
  moreover have "sink_of S' y \<notin> snd ` set xs" if p: "p \<in> set (mod_names S')" and y: "y \<in> set (sends S' p)" for p y
  proof -
    have pS: "p \<in> set (mod_names S)" using p r(1) by (simp add: routed_def)
    consider "y \<in> set (sends S p)" | "sink_of S' y \<in> set (sinks @ [b])"
      using routed_sinks [OF tidy r(1) _ r(3) cls(3) pS y] chan by blast
    then show ?thesis
    proof cases
      case 1
      have "tidy_sender path S0 R S p y" using tidy pS 1 by (simp add: tidy_def)
      then have "sink_of S' y = sink_of S y"
        by (rule tidy_kept(2) [OF r(1) _ order_refl]) (use away [OF pS 1] sender_class [OF pS 1] cls(1,2) in auto)
      then show ?thesis using away [OF pS 1] by simp
    next
      case 2
      have "snd x < allocated S \<and> snd x \<noteq> b" if "x \<in> set xs" for x
      proof (cases x)
        case (Pair c d)
        then have "chain_pair_ok S (c, d)" "d \<in> snd ` set xs"
          using ok that image_eqI [of d snd "(c, d)" "set xs"] by (auto simp: list_all_iff)
        then show ?thesis using dist Pair by (auto simp: chain_pair_ok_def)
      qed
      moreover have "\<forall>k \<in> set sinks. allocated S \<le> k" using r(1) by (simp add: routed_def)
      ultimately show ?thesis using 2 by fastforce
    qed
  qed
  moreover have "(a, b) \<notin> set xs" using dist by force
  ultimately show ?thesis using T by (auto simp: chain_tidy_def)
qed

lemma chain_pair_kept:
  assumes "routed S S' src sink hops sinks srcs" and "chain_pair_ok S x"
  shows "chain_pair_ok S' x"
proof (cases x)
  case (Pair a b)
  then have "a < allocated S" "b < allocated S" using assms(2) by (auto simp: chain_pair_ok_def)
  then show ?thesis
    using Pair assms(2) routed_labels [OF assms(1), of a] routed_labels [OF assms(1), of b] assms(1)
    by (auto simp: chain_pair_ok_def label_def routed_def)
qed

context routing_graph
begin

lemma chain_routes_ok:
  "routable path (set (mod_names S)) \<Longrightarrow> all_matched S \<Longrightarrow> list_all (chain_pair_ok S) xs \<Longrightarrow>
    distinct (map fst xs) \<Longrightarrow> distinct (map snd xs) \<Longrightarrow>
    (\<And>a hs b. (a, hs, b) \<in> K \<Longrightarrow> carries path S a hs b \<and> a < allocated S \<and> a \<notin> fst ` set xs \<and> b \<notin> snd ` set xs) \<Longrightarrow>
    chain_tidy_if_named path S0 R xs S \<Longrightarrow>
    \<exists>S'. foldO (route_chain_pair ops path) S xs = Some (Inr S') \<and> all_matched S' \<and>
      (\<forall>(a, hs, b) \<in> K. carries path S' a hs b) \<and>
      (\<forall>(a, b) \<in> set xs. arrives path S S' a b) \<and>
      mod_names S' = mod_names S \<and> mod_chains S' = mod_chains S \<and> chain_tidy_if_named path S0 (R \<union> set xs) [] S'"
proof (induction xs arbitrary: S K R)
  case Nil
  then show ?case by auto
next
  case (Cons x xs)
  obtain a b where x: "x = (a, b)" by (cases x)
  obtain S1 srcs sinks hops where r: "route_chain_pair ops path S (a, b) = Some (Inr S1)" "routed S S1 a b hops sinks srcs"
      "path (conn_module (conns S a)) (conn_module (conns S b)) = Some (Inr hops)" "carries path S1 a hops b"
      "distinct hops" "successively (short_path path) (hops @ [conn_module (conns S b)])" "set hops \<subseteq> set (mod_names S)"
    using chain_pair_routed [OF Cons.prems(1), of a b] Cons.prems(3) x by auto
  have ab: "a < allocated S" "conn_class (conns S a) = LIChain" "conn_class (conns S b) = LIChain"
    using Cons.prems(3) x by (auto simp: chain_pair_ok_def)
  let ?K = "insert (a, hops, b) K"
  have K: "carries path S1 a' hs b' \<and> a' < allocated S1 \<and> a' \<notin> fst ` set xs \<and> b' \<notin> snd ` set xs"
    if "(a', hs, b') \<in> ?K" for a' hs b'
  proof (cases "(a', hs, b') = (a, hops, b)")
    case True
    then show ?thesis using r(4) routed_labels [OF r(2) ab(1)] Cons.prems(4,5) x by auto
  next
    case False
    then have old: "carries path S a' hs b'" "a' < allocated S" "a' \<noteq> a" "b' \<noteq> b" "a' \<notin> fst ` set xs" "b' \<notin> snd ` set xs"
      using Cons.prems(6) [of a' hs b'] that x by auto
    then show ?thesis using routed_chain_carries [OF r(2) ab(2,3) old(1-4)] routed_labels [OF r(2) old(2)] by simp
  qed
  have "routable path (set (mod_names S1))" using Cons.prems(1) r(2) by (simp add: routed_def)
  moreover have "list_all (chain_pair_ok S1) xs"
    using Cons.prems(3) chain_pair_kept [OF r(2)] by (simp add: list_all_iff)
  moreover have tidy: "chain_tidy_if_named path S0 (insert (a, b) R) xs S1"
    using chain_tidy_step [OF _ _ _ Cons.prems(2) _ _ r(2,5-7), of S0 R xs] Cons.prems(3,5,7) x
    unfolding chain_tidy_if_named_def by blast
  moreover have "distinct (map fst xs)" "distinct (map snd xs)" using Cons.prems(4,5) by simp_all
  ultimately obtain S' where S': "foldO (route_chain_pair ops path) S1 xs = Some (Inr S')" "all_matched S'"
      "\<forall>(a, hs, b) \<in> ?K. carries path S' a hs b"
      "\<forall>(a, b) \<in> set xs. arrives path S1 S' a b"
      "mod_names S' = mod_names S1" "mod_chains S' = mod_chains S1" "chain_tidy_if_named path S0 (insert (a, b) R \<union> set xs) [] S'"
    using Cons.IH [of S1 ?K "insert (a, b) R"] routed_all_matched [OF r(2) Cons.prems(2) ab(2,3)] K by blast
  have "conn_module (conns S1 j) = conn_module (conns S j)" if "j \<in> fst ` set xs \<union> snd ` set xs" for j
    using Cons.prems(3) that routed_ends(3) [OF r(2)] by (auto simp: list_all_iff chain_pair_ok_def)
  then have same: "conn_module (conns S1 a') = conn_module (conns S a') \<and> conn_module (conns S1 b') = conn_module (conns S b')"
    if "(a', b') \<in> set xs" for a' b'
    using that image_eqI [of a' fst "(a', b')" "set xs"] image_eqI [of b' snd "(a', b')" "set xs"] by simp
  have "arrives path S S' a' b'" if "(a', b') \<in> set xs" for a' b'
  proof -
    have "arrives path S1 S' a' b'" using S'(4) that by blast
    then show ?thesis using same [OF that] by (simp add: arrives_def)
  qed
  moreover have "arrives path S S' a b" using S'(3) r(3) by (auto simp: arrives_def)
  ultimately have "\<forall>(a, b) \<in> set (x # xs). arrives path S S' a b" using x by auto
  moreover have "\<forall>(a, hs, b) \<in> K. carries path S' a hs b" using S'(3) by blast
  moreover have "foldO (route_chain_pair ops path) S (x # xs) = Some (Inr S')" using S'(1) r(1) x by simp
  moreover have "mod_names S' = mod_names S" "mod_chains S' = mod_chains S" using S'(5,6) r(2) by (simp_all add: routed_def)
  moreover have "chain_tidy_if_named path S0 (R \<union> set (x # xs)) [] S'" using S'(7) x by (simp add: insert_commute)
  ultimately show ?case using S'(2) by blast
qed

end

section \<open>The dangling ends\<close>

text \<open>The references of the chain \<open>n\<close>, in the order of the platforms.\<close>

definition chain_refs :: "route_state \<Rightarrow> string list \<Rightarrow> string \<Rightarrow> nat list" where
  "chain_refs S names n = filter (\<lambda>c. conn_name (conns S c) = n) (concat (map (mod_chains S) names))"

lemma add_dangling_put:
  "add_dangling S d c = put (conn_name (conns S c)) ((case map_of d (conn_name (conns S c)) of None \<Rightarrow> [] | Some cs \<Rightarrow> cs) @ [c]) d"
  by (simp add: add_dangling_def split: option.split)

lemma dangling_groups:
  "distinct (keys (foldl (add_dangling S) [] cs)) \<and>
   map_of (foldl (add_dangling S) [] cs) n =
     (let refs = filter (\<lambda>c. conn_name (conns S c) = n) cs in if refs = [] then None else Some refs)"
proof (induction cs arbitrary: n rule: rev_induct)
  case (snoc c cs)
  let ?d = "foldl (add_dangling S) [] cs"
  have "distinct (keys ?d)" "map_of ?d k = (let refs = filter (\<lambda>c. conn_name (conns S c) = k) cs
      in if refs = [] then None else Some refs)" for k
    using snoc.IH by blast+
  moreover have "foldl (add_dangling S) [] (cs @ [c]) =
      put (conn_name (conns S c)) ((case map_of ?d (conn_name (conns S c)) of None \<Rightarrow> [] | Some cs \<Rightarrow> cs) @ [c]) ?d"
    by (simp only: foldl_append foldl.simps add_dangling_put [of S ?d])
  ultimately show ?case by (simp add: map_of_put distinct_keys_put Let_def)
qed (simp add: keys_def)

lemma dangling_entry:
  "(n, cs) \<in> set (foldl (add_dangling S) [] (concat (map (mod_chains S) names))) \<longleftrightarrow> cs = chain_refs S names n \<and> cs \<noteq> []"
  using distinct_keys_map_of [of "foldl (add_dangling S) [] (concat (map (mod_chains S) names))" n cs]
    dangling_groups [of S "concat (map (mod_chains S) names)" n]
  by (auto simp: chain_refs_def Let_def split: if_splits)

context routing_graph
begin

lemma drop_singles:
  "\<exists>S'. foldl (drop_single ops) (S, d) xs =
      (S', filter (\<lambda>e. \<forall>x \<in> set xs. length (snd x) < 2 \<longrightarrow> fst e \<noteq> fst x) d) \<and>
    conns S' = conns S \<and> mod_names S' = mod_names S \<and> mod_channels S' = mod_channels S \<and> allocated S' = allocated S \<and>
    (\<forall>p. mod_chains S' p = filter (\<lambda>c. \<forall>x \<in> set xs. length (snd x) < 2 \<and> conn_module (conns S (hd (snd x))) = p \<longrightarrow>
       conn_name (conns S c) \<noteq> fst x) (mod_chains S p))"
proof (induction xs arbitrary: S d)
  case (Cons x xs)
  obtain n cs where x: "x = (n, cs)" by (cases x)
  obtain T where T: "drop_single ops (S, d) x = (T, filter (\<lambda>e. length (snd x) < 2 \<longrightarrow> fst e \<noteq> fst x) d)"
      "conns T = conns S" "mod_names T = mod_names S" "mod_channels T = mod_channels S" "allocated T = allocated S"
      "\<And>p. mod_chains T p = filter (\<lambda>c. length (snd x) < 2 \<and> conn_module (conns S (hd (snd x))) = p \<longrightarrow>
         conn_name (conns S c) \<noteq> fst x) (mod_chains S p)"
  proof (cases "length cs < 2")
    case True
    have "filter (\<lambda>(m, _). m \<noteq> n) d = filter (\<lambda>e. fst e \<noteq> n) d" by (simp add: split_def)
    then show ?thesis
      using that x True by (simp add: drop_single_def)
  qed (use x that in \<open>simp add: drop_single_def\<close>)
  show ?case using Cons.IH [of T "filter (\<lambda>e. length (snd x) < 2 \<longrightarrow> fst e \<noteq> fst x) d"] T
    by (auto simp: conj_commute intro!: exI)
qed simp

end

lemma kept_groups:
  assumes "distinct (keys d)"
  shows "filter (\<lambda>e. \<forall>x \<in> set d. length (snd x) < 2 \<longrightarrow> fst e \<noteq> fst x) d = filter (\<lambda>e. 2 \<le> length (snd e)) d"
proof (rule filter_cong [OF refl])
  fix e
  assume e: "e \<in> set d"
  have "x = e" if "x \<in> set d" "fst x = fst e" for x
    using assms e that by (metis eq_key_imp_eq_value keys_def prod.collapse)
  then show "(\<forall>x \<in> set d. length (snd x) < 2 \<longrightarrow> fst e \<noteq> fst x) \<longleftrightarrow> 2 \<le> length (snd e)"
    using e by (metis not_less)
qed

definition chain_links :: "(string \<times> nat list) list \<Rightarrow> (nat \<times> nat) list" where
  "chain_links d = concat (map (\<lambda>(n, cs). zip cs (rotate1 cs)) d)"

lemma route_chains_concat: "foldO (route_chain ops path) S d = foldO (route_chain_pair ops path) S (chain_links d)"
  by (induction d arbitrary: S) (auto simp: route_chain_def foldO_append chain_links_def)

lemma distinct_groups:
  "distinct (keys d) \<Longrightarrow> (\<And>n cs. (n, cs) \<in> set d \<Longrightarrow> distinct cs \<and> (\<forall>c \<in> set cs. f c = n)) \<Longrightarrow> distinct (concat (map snd d))"
proof (induction d)
  case (Cons e d)
  obtain n cs where e: "e = (n, cs)" by (cases e)
  have "n \<notin> set (keys d)" using Cons.prems(1) e by (simp add: keys_def)
  then have "c \<notin> set cs'" if "c \<in> set cs" "(m, cs') \<in> set d" for c m cs'
    using Cons.prems(2) [of n cs] Cons.prems(2) [of m cs'] that e by (force simp: keys_def)
  then have "set cs \<inter> \<Union> (set ` snd ` set d) = {}" by auto
  moreover have "distinct (concat (map snd d))" using Cons.IH Cons.prems by (auto simp: keys_def)
  ultimately show ?case using Cons.prems(2) [of n cs] e by (auto simp: keys_def)
qed simp

lemma chain_refs_modules:
  assumes "chains_ok S"
  shows "distinct names \<Longrightarrow> set names \<subseteq> set (mod_names S) \<Longrightarrow> distinct (map (\<lambda>c. conn_module (conns S c)) (chain_refs S names n))"
proof (induction names)
  case (Cons p names)
  let ?f = "filter (\<lambda>c. conn_name (conns S c) = n)"
  have p: "distinct (map (conn_name \<circ> conns S) (mod_chains S p))" "\<forall>c \<in> set (mod_chains S p). conn_module (conns S c) = p"
    using assms Cons.prems(2) by (auto simp: chains_ok_def)
  have one: "length (?f cs) \<le> 1" if "distinct (map (conn_name \<circ> conns S) cs)" for cs
    using that
  proof (induction cs)
    case (Cons c cs)
    then have "conn_name (conns S c') \<noteq> conn_name (conns S c)" if "c' \<in> set cs" for c'
      using image_eqI [OF _ that, of "conn_name (conns S c')" "conn_name \<circ> conns S"] by auto
    then have "?f cs = []" if "conn_name (conns S c) = n" using that by (simp add: filter_empty_conv)
    moreover have "length (?f cs) \<le> 1" using Cons by simp
    ultimately show ?case by simp
  qed simp
  have other: "conn_module (conns S c) \<noteq> p" if mem: "c \<in> set (chain_refs S names n)" for c
  proof -
    obtain q where "q \<in> set names" "c \<in> set (mod_chains S q)" using mem by (auto simp: chain_refs_def)
    moreover from this have "conn_module (conns S c) = q" using assms Cons.prems(2) by (simp add: chains_ok_def subset_iff)
    ultimately show ?thesis using Cons.prems(1) by auto
  qed
  have "distinct (map (\<lambda>c. conn_module (conns S c)) (?f (mod_chains S p)))"
    using one [OF p(1)] by (cases "?f (mod_chains S p)") simp_all
  moreover have "chain_refs S (p # names) n = ?f (mod_chains S p) @ chain_refs S names n" by (simp add: chain_refs_def)
  moreover have "distinct (map (\<lambda>c. conn_module (conns S c)) (chain_refs S names n))" using Cons by simp
  moreover have "(\<lambda>c. conn_module (conns S c)) ` set (?f (mod_chains S p)) \<inter>
      (\<lambda>c. conn_module (conns S c)) ` set (chain_refs S names n) = {}"
  proof (intro equals0I)
    fix m
    assume "m \<in> (\<lambda>c. conn_module (conns S c)) ` set (?f (mod_chains S p)) \<inter>
      (\<lambda>c. conn_module (conns S c)) ` set (chain_refs S names n)"
    then obtain b where "m = p" "m = conn_module (conns S b)" "b \<in> set (chain_refs S names n)" using p(2) by auto
    with other show False by simp
  qed
  ultimately show ?case by (simp only: map_append distinct_append set_map)
qed (simp add: chain_refs_def)

lemma rotate_pairs:
  assumes "distinct (map f cs)" and "2 \<le> length cs" and "(a, b) \<in> set (zip cs (rotate1 cs))"
  shows "f a \<noteq> f b"
proof -
  obtain i where i: "i < length cs" "a = cs ! i" "b = rotate1 cs ! i" using assms(3) by (auto simp: set_zip)
  have "b = cs ! (Suc i mod length cs)" using i by (simp add: nth_rotate1)
  moreover have "Suc i mod length cs \<noteq> i" using i(1) assms(2) by (cases "Suc i = length cs") auto
  moreover have "Suc i mod length cs < length cs" using i(1) by (intro mod_less_divisor) auto
  ultimately show ?thesis
    using assms(1) i(1,2) by (metis length_map nth_eq_iff_index_eq nth_map)
qed

lemma chain_links_ends:
  assumes "set names \<subseteq> set (mod_names S)" and "\<And>n cs. (n, cs) \<in> set d \<Longrightarrow> cs = chain_refs S names n \<and> 2 \<le> length cs"
    and "(a, b) \<in> set (chain_links d)"
  shows "a \<in> chain_ends S \<and> b \<in> chain_ends S \<and> conn_name (conns S a) = conn_name (conns S b)"
proof -
  obtain n cs where e: "(n, cs) \<in> set d" "(a, b) \<in> set (zip cs (rotate1 cs))" using assms(3) by (auto simp: chain_links_def)
  then have "a \<in> set (chain_refs S names n)" "b \<in> set (chain_refs S names n)"
    using assms(2) [OF e(1)] set_zip_leftD [OF e(2)] set_zip_rightD [OF e(2)] by simp_all
  then show ?thesis using assms(1) by (auto simp: chain_refs_def chain_ends_def subset_iff)
qed

section \<open>All connections\<close>

text \<open>The groups that are routed, and their pairs.\<close>

lemma chain_pairs_ok:
  assumes chains: "chains_ok S0" and g: "grown S0 S" and names: "distinct names" "set names \<subseteq> set (mod_names S0)"
    and d: "distinct (keys d)" "\<And>n cs. (n, cs) \<in> set d \<Longrightarrow> cs = chain_refs S0 names n \<and> 2 \<le> length cs"
  shows "list_all (chain_pair_ok S) (chain_links d)"
    and "distinct (map fst (chain_links d))" and "distinct (map snd (chain_links d))"
    and "\<And>a b. (a, b) \<in> set (chain_links d) \<Longrightarrow> a < allocated S0 \<and> b < allocated S0 \<and>
      conn_class (conns S a) = LIChain \<and> conn_class (conns S b) = LIChain"
proof -
  let ?xs = "chain_links d"
  have refs: "c < allocated S0 \<and> conn_class (conns S0 c) = LIChain \<and> conn_module (conns S0 c) \<in> set (mod_names S0) \<and> conn_name (conns S0 c) = n"
    if "c \<in> set (chain_refs S0 names n)" for c n
    using that chains names(2) by (auto simp: chain_refs_def chains_ok_def subset_iff)
  have mods: "distinct (map (\<lambda>c. conn_module (conns S0 c)) cs)" if "(n, cs) \<in> set d" for n cs
    using chain_refs_modules [OF chains names] d(2) [OF that] by simp
  have pair: "a < allocated S0 \<and> b < allocated S0 \<and> chain_pair_ok S (a, b)"
    if ab: "(a, b) \<in> set (zip cs (rotate1 cs))" and e: "(n, cs) \<in> set d" for a b n cs
  proof -
    have "a \<in> set cs" "b \<in> set cs" using set_zip_leftD [OF ab] set_zip_rightD [OF ab] by simp_all
    moreover have "conn_module (conns S0 a) \<noteq> conn_module (conns S0 b)"
      using rotate_pairs [OF mods [OF e] _ ab] d(2) [OF e] by blast
    ultimately show ?thesis
      using refs [of a n] refs [of b n] d(2) [OF e] g by (auto simp: chain_pair_ok_def grown_def label_def)
  qed
  then show "list_all (chain_pair_ok S) ?xs" by (auto simp: list_all_iff chain_links_def)
  show "a < allocated S0 \<and> b < allocated S0 \<and> conn_class (conns S a) = LIChain \<and> conn_class (conns S b) = LIChain"
    if "(a, b) \<in> set ?xs" for a b
    using that pair by (auto simp: chain_pair_ok_def chain_links_def)
  have groups: "distinct cs \<and> (\<forall>c \<in> set cs. conn_name (conns S0 c) = n)" if "(n, cs) \<in> set d" for n cs
    using mods [OF that] d(2) [OF that] refs by (auto simp: distinct_map)
  have "map fst ?xs = concat (map snd d)" by (simp add: map_concat comp_def split_def chain_links_def)
  then show "distinct (map fst ?xs)" using distinct_groups [OF d(1), of "\<lambda>c. conn_name (conns S0 c)"] groups by simp
  have snds: "map snd ?xs = concat (map snd (map (\<lambda>(n, cs). (n, rotate1 cs)) d))"
    by (simp add: map_concat comp_def split_def chain_links_def)
  have ks: "distinct (keys (map (\<lambda>(n, cs). (n, rotate1 cs)) d))" using d(1) by (simp add: keys_def comp_def split_def)
  have gs: "distinct cs \<and> (\<forall>c \<in> set cs. conn_name (conns S0 c) = n)"
    if "(n, cs) \<in> set (map (\<lambda>(n, cs). (n, rotate1 cs)) d)" for n cs
    using that groups by fastforce
  show "distinct (map snd ?xs)"
    unfolding snds by (rule distinct_groups [where f = "\<lambda>c. conn_name (conns S0 c)", OF ks gs])
qed

context routing_graph
begin

lemma match_joined:
  assumes "joined S l"
  shows "joined (matchGraphChannels ops S) l"
proof (cases l)
  case (Pair a x)
  have same: "conns (matchGraphChannels ops S) j = conns S j" if "matched_flag (conns S j) \<or> conn_class (conns S j) = LIChain" for j
    using match_keeps that by blast
  have "matched_flag (conns S j) \<or> conn_class (conns S j) = LIChain" if "j \<in> {a, x}" for j
    using assms Pair that by (cases "conn_class (conns S j)") (auto simp: joined_def)
  then show ?thesis using joined_cong [of "matchGraphChannels ops S" a S x] same assms Pair by simp
qed

lemma match_carries:
  assumes "carries path S a hs b"
  shows "carries path (matchGraphChannels ops S) a hs b"
  by (intro carries_mono [where P = "\<lambda>_. True", OF assms]) (simp_all add: match_joined)

end

lemma carries_conns:
  assumes "carries path S a hs b" and "conns S' = conns S" and "allocated S' = allocated S"
  shows "carries path S' a hs b"
proof -
  have "joined S' (a, x)" if "joined S (a, x)" for a x using joined_cong [of S' a S x] assms(2) that by simp
  then show ?thesis
    by (intro carries_mono [where P = "\<lambda>_. True", OF assms(1)]) (use assms(2,3) in simp_all)
qed

context routing_graph
begin

lemma match_leaves_none:
  assumes "all_matched S"
  shows "\<not> checkUnmatchedChannels ops (matchGraphChannels ops S)"
proof
  assume "checkUnmatchedChannels ops (matchGraphChannels ops S)"
  then obtain p c where "p \<in> set (mod_names (matchGraphChannels ops S))" "c \<in> set (mod_channels (matchGraphChannels ops S) p)"
      "\<not> matched_flag (conns (matchGraphChannels ops S) c)"
    using unmatched by blast
  moreover from this have "matched_flag (conns S c)" using assms by (simp add: all_matched_def)
  moreover from this have "conns (matchGraphChannels ops S) c = conns S c" using match_keeps by blast
  ultimately show False by simp
qed

end

text \<open>The path between the platforms of two connections, and the links of the routed graph that follow it.\<close>

definition route_leads :: "path_fn \<Rightarrow> route_state \<Rightarrow> route_state \<Rightarrow> nat \<Rightarrow> nat \<Rightarrow> bool" where
  "route_leads path S S' a b \<longleftrightarrow>
     (\<exists>hops. path (conn_module (conns S a)) (conn_module (conns S b)) = Some (Inr hops) \<and> delivers S' a hops b)"

context routing_graph
begin

lemma match_delivers:
  assumes "arrives path S0 S a b"
  shows "route_leads path S0 (matchGraphChannels ops S) a b"
  using assms match_carries carries_delivers unfolding arrives_def route_leads_def by blast

lemma sink_conns_same: "conns S' = conns S \<Longrightarrow> sink_of S' = sink_of S"
  by (intro ext) (simp add: sink_of_def split: conn_class.split)

lemma joined_conns_same:
  assumes "conns S' = conns S"
  shows "joined S' = joined S"
proof (rule ext)
  fix l
  show "joined S' l = joined S l" using joined_cong [of S' "fst l" S "snd l"] assms by simp
qed

lemma tidy_same:
  assumes "tidy path S0 R S" and "conns S' = conns S" and "mod_names S' = mod_names S"
    and "mod_channels S' = mod_channels S" and "allocated S' = allocated S"
  shows "tidy path S0 R S'"
  using assms(1) unfolding tidy_def tidy_sender_def sends_def assms(2-5) sink_conns_same [OF assms(2)] joined_conns_same [OF assms(2)] .

lemma chain_tidy_start:
  assumes ok: "net_ok S" "chains_ok S" and prog: "progress path S {} S1"
    and S2: "conns S2 = conns S1" "mod_names S2 = mod_names S1" "mod_channels S2 = mod_channels S1" "allocated S2 = allocated S1"
    and ends: "\<And>a b. (a, b) \<in> set xs \<Longrightarrow> a \<in> chain_ends S \<and> b \<in> chain_ends S \<and> conn_name (conns S a) = conn_name (conns S b)"
  shows "chain_tidy_if_named path S (sender_pairs S (senders S)) xs S2"
  unfolding chain_tidy_if_named_def
proof
  assume named: "names_ok S \<and> chains_ok S"
  let ?R = "sender_pairs S (senders S)"
  have g: "grown S S1" and net: "net_ok S1" and tidy: "tidy path S ?R S1"
    using prog named by (simp_all add: progress_def tidy_if_named_def)
  have chain: "c < allocated S \<and> conn_class (conns S c) = LIChain \<and> conn_module (conns S c) \<in> set (mod_names S)" if "c \<in> chain_ends S" for c
    using ok(2) that by (auto simp: chain_ends_def chains_ok_def)
  have "tidy path S ?R S2" by (rule tidy_same [OF tidy S2])
  moreover have "kept S S2" using g S2 by (simp add: kept_def grown_def)
  moreover have "\<forall>l \<in> ?R. routed_pair S l" using sender_pairs_routed [OF ok(1)] by blast
  moreover have "a \<in> chain_ends S \<and> b \<in> chain_ends S \<and> routed_pair S (a, b) \<and> (a, b) \<notin> ?R" if "(a, b) \<in> set xs" for a b
  proof -
    have "a \<notin> senders S" using chain ends [OF that] by (auto simp: senders_def sender_def)
    then show ?thesis using chain ends [OF that] by (auto simp: routed_pair_def sender_pairs_def)
  qed
  moreover have "sink_of S2 y \<notin> snd ` set xs" if p: "p \<in> set (mod_names S2)" and y: "y \<in> set (sends S2 p)" for p y
  proof
    have "y \<in> set (mod_channels S1 p)" "sc_type (conns S1 y) = ''Send''" "p \<in> set (mod_names S1)" using p y S2 by (auto simp: sends_def)
    then have "sender S1 y" "channel_ok S1 p y" using net by (auto simp: net_ok_def channel_ok_def receiver_def)
    then obtain s where s: "receiver S1 s" "joined S1 (y, s)" by (auto simp: channel_ok_def source_ok_def)
    then have "sink_of S2 y = s" using sink_conns_same [OF S2(1)] by (simp add: joined_def linked_def)
    assume "sink_of S2 y \<in> snd ` set xs"
    then have "s \<in> chain_ends S" using ends \<open>sink_of S2 y = s\<close> by auto
    then have c: "s < allocated S" "conn_class (conns S s) = LIChain" using chain by blast+
    then have "label (conns S1 s) = label (conns S s)" using g by (simp add: grown_def)
    then have "conn_class (conns S1 s) = LIChain" using label_class [of "conns S1 s" "conns S s"] c(2) by simp
    with s(1) show False by (simp add: receiver_def)
  qed
  ultimately show "chain_tidy path S ?R xs S2" by (auto simp: chain_tidy_def)
qed

text \<open>The state after the channels: the chains with at least two ends are routed, and the channels stay.\<close>

lemma chain_phase:
  assumes ok: "net_ok S" "chains_ok S" "routable path (set (mod_names S))"
    and names: "distinct names" "set names \<subseteq> set (mod_names S)"
    and prog: "progress path S {} S1"
    and S2: "conns S2 = conns S1" "mod_names S2 = mod_names S1" "mod_channels S2 = mod_channels S1" "allocated S2 = allocated S1"
    and d: "distinct (keys d)" "\<And>n cs. (n, cs) \<in> set d \<Longrightarrow> cs = chain_refs S names n \<and> 2 \<le> length cs"
  shows "\<exists>S3. foldO (route_chain ops path) S2 d = Some (Inr S3) \<and> all_matched S3 \<and>
    (\<forall>c \<in> senders S. arrives path S S3 c (partnerChannel (conns S c))) \<and>
    (\<forall>(a, b) \<in> set (chain_links d). arrives path S S3 a b) \<and>
    mod_names S3 = mod_names S2 \<and> mod_chains S3 = mod_chains S2 \<and>
    chain_tidy_if_named path S (sender_pairs S (senders S) \<union> set (chain_links d)) [] S3"
proof -
  let ?xs = "chain_links d"
  let ?K = "{(c, hops, s). c \<in> senders S \<and> s = partnerChannel (conns S c) \<and> carries path S1 c hops s}"
  have g1: "grown S S1" and net1: "net_ok S1" using prog by (simp_all add: progress_def)
  note pairs = chain_pairs_ok [OF ok(2) g1 names d]
  have K: "carries path S2 a hs b \<and> a < allocated S2 \<and> a \<notin> fst ` set ?xs \<and> b \<notin> snd ` set ?xs"
    if "(a, hs, b) \<in> ?K" for a hs b
  proof -
    have a: "a \<in> senders S" "b = partnerChannel (conns S a)" "carries path S1 a hs b" using that by auto
    then have "sender S1 a" "receiver S1 b"
      using sender_partner [OF ok(1)] grown_ends(1,2) [OF g1] by (auto simp: senders_def)
    moreover have "fst x \<noteq> a \<and> snd x \<noteq> b" if "x \<in> set ?xs" for x
      using pairs(4) [of "fst x" "snd x"] that calculation by (auto simp: sender_def receiver_def)
    ultimately show ?thesis using carries_conns [OF a(3) S2(1,4)] S2(4) by (auto simp: sender_def)
  qed
  have "list_all (chain_pair_ok S2) ?xs"
    using pairs(1) S2(1,2,4) by (simp add: list_all_iff chain_pair_ok_def)
  moreover have "all_matched S2" using net_matched [OF net1] S2 by (simp add: all_matched_def)
  moreover have "routable path (set (mod_names S2))" using ok(3) S2(2) g1 by (simp add: grown_def)
  moreover have "chain_tidy_if_named path S (sender_pairs S (senders S)) ?xs S2"
    by (rule chain_tidy_start [OF ok(1,2) prog S2 chain_links_ends [OF names(2) d(2)]])
  ultimately obtain S3 where S3: "foldO (route_chain_pair ops path) S2 ?xs = Some (Inr S3)" "all_matched S3"
      "\<forall>(a, hs, b) \<in> ?K. carries path S3 a hs b" "\<forall>(a, b) \<in> set ?xs. arrives path S2 S3 a b"
      "mod_names S3 = mod_names S2" "mod_chains S3 = mod_chains S2"
      "chain_tidy_if_named path S (sender_pairs S (senders S) \<union> set ?xs) [] S3"
    using chain_routes_ok [where ?S0.0 = S and R = "sender_pairs S (senders S)", OF _ _ _ pairs(2,3) K] by blast
  have old: "a < allocated S \<and> b < allocated S" if "(a, b) \<in> set ?xs" for a b
    using pairs(4) [of a b] that by auto
  have "arrives path S S3 c (partnerChannel (conns S c))" if "c \<in> senders S" for c
    using prog S3(3) that by (fastforce simp: progress_def arrives_def)
  moreover have "arrives path S S3 a b" if "(a, b) \<in> set ?xs" for a b
  proof -
    have "conn_module (conns S2 j) = conn_module (conns S j)" if "j \<in> {a, b}" for j
      using grown_ends(3) [OF g1] S2(1) old [OF \<open>(a, b) \<in> set ?xs\<close>] that by auto
    moreover have "arrives path S2 S3 a b" using S3(4) that by blast
    ultimately show ?thesis by (simp add: arrives_def)
  qed
  ultimately show ?thesis using S3(1,2,5-7) unfolding route_chains_concat by blast
qed

end

section \<open>The paths of the environment\<close>

lemma walk_append: "walk g m v w \<Longrightarrow> walk g n u v \<Longrightarrow> walk g (n + m) u w"
  by (induction m arbitrary: w) (auto simp: walk_0 walk_Suc)

lemma chain_walk:
  "successively (\<lambda>x y. (x, y) \<in> set g) xs \<Longrightarrow> i \<le> j \<Longrightarrow> j < length xs \<Longrightarrow> walk g (j - i) (xs ! i) (xs ! j)"
proof (induction j)
  case (Suc j)
  show ?case
  proof (cases "i = Suc j")
    case False
    then have "walk g (j - i) (xs ! i) (xs ! j)" using Suc by simp
    moreover have "(xs ! j, xs ! Suc j) \<in> set g" using Suc.prems(1,3) by (auto simp: successively_conv_nth)
    ultimately show ?thesis using walk_step False Suc.prems(2) by (fastforce simp: Suc_diff_le)
  qed (simp add: walk_0)
qed (simp add: walk_0)

context path_finder
begin

lemma shortest_chain_distinct:
  assumes "successively (\<lambda>x y. (x, y) \<in> set g) xs" and "length xs = Suc d" and "snd (sp g (hd xs)) (last xs) = Some d"
  shows "distinct xs"
proof -
  have False if ij: "i < j" "j < length xs" "xs ! i = xs ! j" for i j
  proof -
    have ends: "hd xs = xs ! 0" "last xs = xs ! d" using assms(2) by (simp_all add: hd_conv_nth last_conv_nth flip: length_greater_0_conv)
    have "walk g i (hd xs) (xs ! i)" using chain_walk [OF assms(1), of 0 i] ij ends by simp
    moreover have "walk g (d - j) (xs ! i) (last xs)" using chain_walk [OF assms(1), of j d] ij assms(2) ends by simp
    ultimately have "d \<le> i + (d - j)" using dist_Some(2) [OF assms(3)] walk_append by blast
    with ij assms(2) show False by simp
  qed
  then show ?thesis by (metis distinct_conv_nth linorder_neqE_nat)
qed

lemma getPath_chain:
  assumes "walk g n p q" and "p \<noteq> q"
  shows "\<exists>hops. getPath sp g p q = Some (Inr hops) \<and> distinct (p # hops @ [q]) \<and>
    successively (\<lambda>x y. (x, y) \<in> set g) (p # hops @ [q]) \<and> length hops < n"
proof -
  obtain d where d: "snd (sp g p) q = Some d" using dist_None [of g p q] assms(1) by blast
  obtain u where u: "fst (sp g p) q = Some (Some u)" "0 < d" by (rule prev_Some [OF d]) (use assms(2) in auto)
  obtain hops where h: "path_walk (sp g p) p (Some q) [] = Some (Inr hops)" "length hops = d - 1"
      "successively (\<lambda>x y. (x, y) \<in> set g) (p # rev hops @ [q])"
    using path_walk_chain [OF d, of "[]"] assms(2) by auto
  have "distinct (p # rev hops @ [q])"
    by (rule shortest_chain_distinct [OF h(3), of d]) (use h(2) u(2) d in simp_all)
  moreover have "getPath sp g p q = Some (Inr (rev hops))" using u(1) h(1) by (simp add: getPath_def prev_of_def Let_def)
  ultimately show ?thesis
    using h(2,3) u(2) dist_Some(2) [OF d assms(1)] by (intro exI [of _ "rev hops"]) simp
qed

lemma edge_short_path: "(x, y) \<in> set g \<Longrightarrow> x \<noteq> y \<Longrightarrow> short_path (getPath sp g) x y"
  using getPath_chain [of g 1 x y] by (auto simp: short_path_def walk_0 walk_Suc)

lemma getPath_routable:
  assumes edges: "\<forall>(x, y) \<in> set g. x \<in> P \<and> y \<in> P" and conn: "\<forall>p \<in> P. \<forall>q \<in> P. getPathLength sp g p q \<noteq> - 1"
  shows "routable (getPath sp g) P"
  unfolding routable_def
proof (intro ballI impI)
  fix p q
  assume pq: "p \<in> P" "q \<in> P" "p \<noteq> q"
  obtain d where "snd (sp g p) q = Some d" using conn pq by (auto simp: getPathLength_def split: option.splits)
  then have "walk g d p q" by (rule dist_Some(1))
  from getPath_chain [OF this pq(3)] obtain hops where h: "getPath sp g p q = Some (Inr hops)"
      "distinct (p # hops @ [q])" "successively (\<lambda>x y. (x, y) \<in> set g) (p # hops @ [q])" by blast
  let ?xs = "p # hops @ [q]"
  have step: "(?xs ! i, ?xs ! Suc i) \<in> set g" if "Suc i < length ?xs" for i
    using h(3) that unfolding successively_conv_nth by simp
  have "x \<in> P" if x: "x \<in> set hops" for x
  proof -
    obtain i where "i < length hops" "x = hops ! i" using x by (auto simp: in_set_conv_nth)
    then have "(?xs ! i, x) \<in> set g" using step [of i] by (simp add: nth_append)
    then show ?thesis using edges by auto
  qed
  moreover have "successively (short_path (getPath sp g)) ?xs"
    unfolding successively_conv_nth
  proof (intro allI impI)
    fix i
    assume i: "Suc i < length ?xs"
    have "?xs ! i \<noteq> ?xs ! Suc i" using nth_eq_iff_index_eq [OF h(2), of i "Suc i"] i by simp
    then show "short_path (getPath sp g) (?xs ! i) (?xs ! Suc i)" using edge_short_path step [OF i] by blast
  qed
  ultimately show "\<exists>hops. getPath sp g p q = Some (Inr hops) \<and> set hops \<subseteq> P \<and> p \<notin> set hops \<and> q \<notin> set hops \<and>
      distinct hops \<and> successively (short_path (getPath sp g)) (p # hops @ [q])"
    using h(1,2) by auto
qed

end

section \<open>The whole routing\<close>

text \<open>
  What the analysis of the network needs of the connections that leave a platform, channels and chains: names
  of their own, a width, and a partner on a neighbour.
\<close>

definition link_ready :: "path_fn \<Rightarrow> route_state \<Rightarrow> string \<Rightarrow> nat \<Rightarrow> bool" where
  "link_ready path S p y \<longleftrightarrow> conn_module (conns S y) = p \<and> 0 \<le> bitwidth (conns S y) \<and> joined S (y, sink_of S y) \<and>
     short_path path p (conn_module (conns S (sink_of S y)))"

definition links_ready :: "path_fn \<Rightarrow> route_state \<Rightarrow> bool" where
  "links_ready path S \<longleftrightarrow> (\<forall>p \<in> set (mod_names S).
     distinct (map (\<lambda>c. conn_name (conns S c)) (sends S p @ mod_chains S p)) \<and>
     (\<forall>y \<in> set (sends S p @ mod_chains S p). link_ready path S p y))"

lemma arrives_near:
  assumes "routable path P" and "arrives path S0 S a b" and "kept S0 S" and "b < allocated S0"
    and "conn_module (conns S0 a) \<in> P" and "conn_module (conns S0 b) \<in> P" and "conn_module (conns S0 a) \<noteq> conn_module (conns S0 b)"
  shows "joined S (a, sink_of S a) \<and> short_path path (conn_module (conns S0 a)) (conn_module (conns S (sink_of S a)))"
proof -
  obtain hops where h: "path (conn_module (conns S0 a)) (conn_module (conns S0 b)) = Some (Inr hops)" "carries path S a hops b"
    using assms(2) by (auto simp: arrives_def)
  then have "successively (short_path path) (conn_module (conns S0 a) # hops @ [conn_module (conns S0 b)])"
    using assms(1,5-7) unfolding routable_def by fastforce
  moreover have "conn_module (conns S b) = conn_module (conns S0 b)" using assms(3,4) by (auto simp: kept_def label_def)
  ultimately have "short_path path (conn_module (conns S0 a)) (conn_module (conns S (sink_of S a)))"
    using carries_near [OF h(2)] by simp
  moreover obtain z where "joined S (a, z)" using carries_first [OF h(2)] by blast
  ultimately show ?thesis by (auto simp: joined_def linked_def)
qed

text \<open>A channel of a tidy graph that leaves a platform, and a chain.\<close>

lemma sender_ready:
  assumes net: "net_ok S0" and rt: "routable path (set (mod_names S0))" and kept: "kept S0 S"
    and t: "tidy_sender path S0 R S p y" and p: "p \<in> set (mod_names S0)"
    and chan: "y \<in> senders S0 \<Longrightarrow> arrives path S0 S y (partnerChannel (conns S0 y))"
  shows "link_ready path S p y"
proof (cases "y \<in> senders S0")
  case True
  have lt: "y < allocated S0" and s: "receiver S0 (partnerChannel (conns S0 y))" "joined S0 (y, partnerChannel (conns S0 y))"
    using True sender_partner [OF net True] by (auto simp: senders_def sender_def)
  have mod: "conn_module (conns S0 y) = p" using t kept lt by (auto simp: tidy_sender_def kept_def label_def)
  have "source_ok S0 y" using True net by (auto simp: senders_def net_ok_def channel_ok_def)
  then have "conn_module (conns S0 (partnerChannel (conns S0 y))) \<in> set (mod_names S0)"
      "conn_module (conns S0 (partnerChannel (conns S0 y))) \<noteq> p"
    using s(2) mod by (auto simp: source_ok_def joined_def linked_def)
  then show ?thesis
    using arrives_near [OF rt chan [OF True] kept] s(1) mod p t by (auto simp: link_ready_def receiver_def tidy_sender_def)
next
  case False
  then show ?thesis using t by (auto simp: link_ready_def tidy_sender_def joined_def linked_def)
qed

lemma chain_ready:
  assumes named: "names_ok S0" "chains_ok S0" and rt: "routable path (set (mod_names S0))" and kept: "kept S0 S"
    and p: "p \<in> set (mod_names S0)" and c: "c \<in> set (mod_chains S0 p)"
    and b: "b \<in> chain_ends S0" "arrives path S0 S c b" "conn_module (conns S0 b) \<noteq> p"
  shows "link_ready path S p c"
proof -
  have c0: "c < allocated S0" "conn_module (conns S0 c) = p" "c \<in> chain_ends S0"
    using named(2) p c by (auto simp: chains_ok_def chain_ends_def)
  have "b < allocated S0" "conn_module (conns S0 b) \<in> set (mod_names S0)"
    using b(1) named(2) by (auto simp: chain_ends_def chains_ok_def)
  moreover have "0 \<le> bitwidth (conns S c)" "conn_module (conns S c) = p"
    using named(1) c0 kept by (auto simp: names_ok_def kept_def label_def)
  ultimately show ?thesis using arrives_near [OF rt b(2) kept] c0(2) b(3) p by (simp add: link_ready_def)
qed

text \<open>The names of what leaves a platform.\<close>

lemma kept_name: "kept S0 S \<Longrightarrow> c < allocated S0 \<Longrightarrow> conn_name (conns S c) = conn_name (conns S0 c)"
  using label_name [of "conns S c" "conns S0 c"] by (simp add: kept_def)

lemma leaving_names:
  assumes named: "names_ok S0" "chains_ok S0" and T: "tidy path S0 R S" "kept S0 S"
    and p: "p \<in> set (mod_names S0)" "p \<in> set (mod_names S)" and P: "mod_chains S p = filter P (mod_chains S0 p)"
  shows "distinct (map (\<lambda>c. conn_name (conns S c)) (sends S p @ mod_chains S p))"
proof -
  have old: "c < allocated S0 \<and> c \<in> chain_ends S0" if "c \<in> set (mod_chains S p)" for c
    using named(2) p(1) that P by (auto simp: chains_ok_def chain_ends_def)
  have name: "conn_name (conns S c) = conn_name (conns S0 c)" if "c \<in> set (mod_chains S p)" for c
    using kept_name [OF T(2)] old [OF that] by blast
  have "conn_name (conns S y) \<noteq> conn_name (conns S c)" if y: "y \<in> set (sends S p)" and c: "c \<in> set (mod_chains S p)" for y c
  proof (cases "y \<in> senders S0")
    case True
    then have "conn_name (conns S y) = conn_name (conns S0 y)" using kept_name [OF T(2)] by (auto simp: senders_def sender_def)
    then show ?thesis using True name [OF c] old [OF c] named(1) by (simp add: names_ok_def)
  next
    case False
    have "tidy_sender path S0 R S p y" using T(1) p(2) y by (simp add: tidy_def)
    then obtain l where "conn_name (conns S y) = pair_name S0 l p" using False by (auto simp: tidy_sender_def)
    then show ?thesis using original_not_through [OF named(1), of c l p] name [OF c] old [OF c] by simp
  qed
  moreover have "distinct (map (\<lambda>c. conn_name (conns S c)) (mod_chains S p))"
  proof -
    have "map (\<lambda>c. conn_name (conns S c)) (mod_chains S p) = map (conn_name \<circ> conns S0) (mod_chains S p)" using name by simp
    moreover have "distinct (map (conn_name \<circ> conns S0) (mod_chains S p))"
      using named(2) p(1) unfolding P by (simp add: chains_ok_def distinct_map_filter)
    ultimately show ?thesis by (simp only:)
  qed
  ultimately show ?thesis using T(1) p(2) by (auto simp: tidy_def)
qed

lemma ready_before_match:
  assumes net: "net_ok S0" and named: "names_ok S0" "chains_ok S0" and rt: "routable path (set (mod_names S0))"
    and T: "chain_tidy path S0 R [] S" and names: "mod_names S = mod_names S0"
    and chains: "\<And>p. \<exists>P. mod_chains S p = filter P (mod_chains S0 p)"
    and chan: "\<And>c. c \<in> senders S0 \<Longrightarrow> arrives path S0 S c (partnerChannel (conns S0 c))"
    and chain: "\<And>p c. p \<in> set (mod_names S0) \<Longrightarrow> c \<in> set (mod_chains S p) \<Longrightarrow>
      \<exists>b \<in> chain_ends S0. arrives path S0 S c b \<and> conn_module (conns S0 b) \<noteq> p"
  shows "links_ready path S"
  unfolding links_ready_def
proof (intro ballI conjI)
  fix p
  assume "p \<in> set (mod_names S)"
  then have p: "p \<in> set (mod_names S0)" "p \<in> set (mod_names S)" using names by simp_all
  have kept: "kept S0 S" and tidy: "tidy path S0 R S" using T by (simp_all add: chain_tidy_def)
  obtain P where P: "mod_chains S p = filter P (mod_chains S0 p)" using chains by blast
  show "distinct (map (\<lambda>c. conn_name (conns S c)) (sends S p @ mod_chains S p))"
    by (rule leaving_names [OF named tidy kept p P])
  fix y
  assume "y \<in> set (sends S p @ mod_chains S p)"
  then consider "y \<in> set (sends S p)" | "y \<in> set (mod_chains S p)" by auto
  then show "link_ready path S p y"
  proof cases
    case 1
    then have "tidy_sender path S0 R S p y" using tidy p(2) by (simp add: tidy_def)
    then show ?thesis using sender_ready [OF net rt kept _ p(1) chan] by blast
  next
    case 2
    then obtain b where "b \<in> chain_ends S0" "arrives path S0 S y b" "conn_module (conns S0 b) \<noteq> p" using chain [OF p(1)] by blast
    then show ?thesis using chain_ready [OF named rt kept p(1), of y b] 2 P by simp
  qed
qed

text \<open>A chain that is left after the single ones are deleted is the start of a pair.\<close>

lemma surviving_chain:
  assumes ok: "chains_ok S" and g: "grown S S1" and names: "distinct names" "set names \<subseteq> set (mod_names S)"
    and p: "p \<in> set (mod_names S)"
    and S2: "mod_chains S2 p = filter (\<lambda>c. \<forall>x \<in> set (foldl (add_dangling S) [] (concat (map (mod_chains S) names))).
       length (snd x) < 2 \<and> conn_module (conns S1 (hd (snd x))) = p \<longrightarrow> conn_name (conns S1 c) \<noteq> fst x) (mod_chains S1 p)"
    and c: "c \<in> set (mod_chains S2 p)" and all: "p \<in> set names"
  shows "\<exists>b \<in> chain_ends S. conn_module (conns S b) \<noteq> p \<and>
    (c, b) \<in> set (chain_links (filter (\<lambda>e. 2 \<le> length (snd e)) (foldl (add_dangling S) [] (concat (map (mod_chains S) names)))))"
proof -
  let ?n = "conn_name (conns S c)" and ?d = "foldl (add_dangling S) [] (concat (map (mod_chains S) names))"
  let ?cs = "chain_refs S names ?n" and ?d' = "filter (\<lambda>e. 2 \<le> length (snd e)) ?d"
  have entry: "(n, cs) \<in> set ?d' \<longleftrightarrow> cs = chain_refs S names n \<and> 2 \<le> length cs" for n cs
    using dangling_entry [of n cs S names] by auto
  have left: "c \<in> set (mod_chains S1 p)"
      "\<forall>x \<in> set ?d. length (snd x) < 2 \<and> conn_module (conns S1 (hd (snd x))) = p \<longrightarrow> conn_name (conns S1 c) \<noteq> fst x"
    using c unfolding S2 by simp_all
  have old: "c \<in> set (mod_chains S p)" using left(1) g by (simp add: grown_def)
  then have c0: "c < allocated S" "conn_module (conns S c) = p" using ok p by (auto simp: chains_ok_def)
  then have "label (conns S1 c) = label (conns S c)" using g by (simp add: grown_def)
  then have same: "conn_name (conns S1 c) = ?n" "conn_module (conns S1 c) = p" using c0(2) by (simp_all add: label_def)
  have mem: "c \<in> set ?cs" using old all by (auto simp: chain_refs_def)
  have len: "2 \<le> length ?cs"
  proof (rule ccontr)
    assume "\<not> 2 \<le> length ?cs"
    then have "?cs = [c]" using mem by (cases ?cs rule: remdups_adj.cases) auto
    then have "(?n, [c]) \<in> set ?d" using dangling_entry [of ?n "[c]" S names] by simp
    from bspec [OF left(2) this] show False using same by simp
  qed
  obtain b where b: "(c, b) \<in> set (zip ?cs (rotate1 ?cs))"
    using mem in_set_impl_in_set_zip1 [of ?cs "rotate1 ?cs" c] by auto
  have e: "(?n, ?cs) \<in> set ?d'" using entry len by blast
  then have link: "(c, b) \<in> set (chain_links ?d')" using b by (force simp: chain_links_def)
  have "conn_module (conns S c) \<noteq> conn_module (conns S b)"
    by (rule rotate_pairs [OF chain_refs_modules [OF ok names] len b])
  then have "conn_module (conns S b) \<noteq> p" using c0(2) by simp
  moreover have "b \<in> chain_ends S" using chain_links_ends [OF names(2) _ link] entry by blast
  ultimately show ?thesis using link by blast
qed

context routing_graph
begin

lemma match_ready:
  assumes "links_ready path S"
  shows "links_ready path (matchGraphChannels ops S)"
proof -
  let ?M = "matchGraphChannels ops S"
  have label: "conn_name (conns ?M c) = conn_name (conns S c)" "sc_type (conns ?M c) = sc_type (conns S c)"
      "conn_module (conns ?M c) = conn_module (conns S c)" for c
    using match_label(1) [of S c] by (simp_all add: label_def)
  have "link_ready path ?M p y" if "link_ready path S p y" for p y
  proof -
    have "joined ?M (y, sink_of S y)" using match_joined that by (simp add: link_ready_def)
    moreover from this have "sink_of ?M y = sink_of S y" by (simp add: joined_def linked_def)
    ultimately show ?thesis using that label by (simp add: link_ready_def)
  qed
  then show ?thesis using assms label by (simp add: links_ready_def sends_def)
qed

lemma routeConnections_routes:
  assumes "net_ok S" and "chains_ok S" and "routable path (set (mod_names S))"
    and "distinct names" and "set names = set (mod_names S)"
  shows "\<exists>S'. routeConnections ops path names S = Some (Inr S') \<and>
    (\<forall>p \<in> set names. \<forall>c \<in> set (mod_channels S p). isSource ops (conns S c) \<longrightarrow>
       route_leads path S S' c (partnerChannel (conns S c))) \<and>
    (\<forall>n. 2 \<le> length (chain_refs S names n) \<longrightarrow>
       (\<forall>(a, b) \<in> set (zip (chain_refs S names n) (rotate1 (chain_refs S names n))). route_leads path S S' a b)) \<and>
    mod_names S' = mod_names S \<and> (names_ok S \<longrightarrow> links_ready path S')"
proof -
  let ?d = "foldl (add_dangling S) [] (concat (map (mod_chains S) names))"
  let ?d' = "filter (\<lambda>e. 2 \<le> length (snd e)) ?d"
  have names: "set names \<subseteq> set (mod_names S)" using assms(5) by simp
  have mods: "senders S \<subseteq> {c. conn_module (conns S c) \<in> set names}"
    using assms(1,5) by (auto simp: senders_def net_ok_def channel_ok_def)
  then have "sender_pairs S (senders S - {c. conn_module (conns S c) \<in> set names}) = {}" by (auto simp: sender_pairs_def)
  then have "progress path S {c. conn_module (conns S c) \<in> set names} S"
    using mods sender_partner [OF assms(1)] tidy_start [OF assms(1)] assms(1) by (auto simp: progress_def)
  from route_platforms_ok [OF assms(1-3) names assms(4) this, of "[]"]
  obtain S1 where S1: "foldO (route_platform ops path) (S, []) names = Some (Inr (S1, ?d))" "progress path S {} S1" by auto
  have keys: "distinct (keys ?d)" "distinct (keys ?d')"
    using dangling_groups by (auto simp: keys_def distinct_map_filter)
  obtain S2 where S2: "foldl (drop_single ops) (S1, ?d) ?d = (S2, ?d')" "conns S2 = conns S1" "mod_names S2 = mod_names S1"
      "mod_channels S2 = mod_channels S1" "allocated S2 = allocated S1"
      "\<And>p. mod_chains S2 p = filter (\<lambda>c. \<forall>x \<in> set ?d. length (snd x) < 2 \<and> conn_module (conns S1 (hd (snd x))) = p \<longrightarrow>
         conn_name (conns S1 c) \<noteq> fst x) (mod_chains S1 p)"
    using drop_singles [of S1 ?d ?d] kept_groups [OF keys(1)] by auto
  have entry: "(n, cs) \<in> set ?d' \<longleftrightarrow> cs = chain_refs S names n \<and> 2 \<le> length cs" for n cs
    using dangling_entry [of n cs S names] by auto
  obtain S3 where S3: "foldO (route_chain ops path) S2 ?d' = Some (Inr S3)" "all_matched S3"
      "\<forall>c \<in> senders S. arrives path S S3 c (partnerChannel (conns S c))"
      "\<forall>(a, b) \<in> set (chain_links ?d'). arrives path S S3 a b" "mod_names S3 = mod_names S2" "mod_chains S3 = mod_chains S2"
      "chain_tidy_if_named path S (sender_pairs S (senders S) \<union> set (chain_links ?d')) [] S3"
    using chain_phase [OF assms(1-4) names S1(2) S2(2-5) keys(2)] entry by blast
  have g: "grown S S1" using S1(2) by (simp add: progress_def)
  have "links_ready path S3" if named: "names_ok S"
  proof (rule ready_before_match [OF assms(1) named assms(2,3)])
    show "chain_tidy path S (sender_pairs S (senders S) \<union> set (chain_links ?d')) [] S3"
      using S3(7) named assms(2) by (simp add: chain_tidy_if_named_def)
    show "mod_names S3 = mod_names S" using S3(5) S2(3) g by (simp add: grown_def)
    show "\<exists>P. mod_chains S3 p = filter P (mod_chains S p)" for p using S3(6) S2(6) g by (auto simp: grown_def)
    show "arrives path S S3 c (partnerChannel (conns S c))" if "c \<in> senders S" for c using S3(3) that by blast
    show "\<exists>b \<in> chain_ends S. arrives path S S3 c b \<and> conn_module (conns S b) \<noteq> p"
      if p: "p \<in> set (mod_names S)" and c: "c \<in> set (mod_chains S3 p)" for p c
      using surviving_chain [OF assms(2) g assms(4) names(1) p S2(6) c [unfolded S3(6)]] p assms(5) S3(4) by blast
  qed
  then have ready: "names_ok S \<longrightarrow> links_ready path (matchGraphChannels ops S3)" using match_ready by blast
  have state: "mod_names (matchGraphChannels ops S3) = mod_names S" using S3(5) S2(3) g by (simp add: grown_def)
  have "routeConnections ops path names S = Some (Inr (matchGraphChannels ops S3))"
    using S1(1) S2(1) S3(1) match_leaves_none [OF S3(2)] by (simp add: routeConnections_def)
  moreover have "c \<in> senders S" if "p \<in> set names" "c \<in> set (mod_channels S p)" "isSource ops (conns S c)" for p c
    using assms(1,5) that isSource by (auto simp: senders_def net_ok_def channel_ok_def receiver_def)
  moreover have "(a, b) \<in> set (chain_links ?d')"
    if "2 \<le> length (chain_refs S names n)" "(a, b) \<in> set (zip (chain_refs S names n) (rotate1 (chain_refs S names n)))" for n a b
    using that entry [of n "chain_refs S names n"] by (force simp: chain_links_def)
  ultimately show ?thesis using S3(3,4) match_delivers ready state by blast
qed

end

text \<open>
  C2: The routing of all connections ends and delivers: when, before it, every channel of the graph is matched
  with a partner on another platform and the platforms are connected, \<open>routeConnections\<close> returns, the channels
  it adds while it runs included, and then every source reaches its partner, and every dangling chain the next
  platform of the chain and the last one the first, over one route-through on each platform of the path that
  \<open>getPath\<close> returns.
\<close>

theorem routeConnections_delivers:
  assumes "path_finder sp" and "routing_graph ops" and "net_ok S" and "chains_ok S"
    and "distinct names" and "set names = set (mod_names S)"
    and "\<forall>(x, y) \<in> set g. x \<in> set names \<and> y \<in> set names"
    and "\<forall>p \<in> set names. \<forall>q \<in> set names. getPathLength sp g p q \<noteq> - 1"
  shows "\<exists>S'. routeConnections ops (getPath sp g) names S = Some (Inr S') \<and>
    (\<forall>p \<in> set names. \<forall>c \<in> set (mod_channels S p). isSource ops (conns S c) \<longrightarrow>
       route_leads (getPath sp g) S S' c (partnerChannel (conns S c))) \<and>
    (\<forall>n. 2 \<le> length (chain_refs S names n) \<longrightarrow>
       (\<forall>(a, b) \<in> set (zip (chain_refs S names n) (rotate1 (chain_refs S names n))).
          route_leads (getPath sp g) S S' a b))"
proof -
  have "routable (getPath sp g) (set (mod_names S))" using path_finder.getPath_routable [OF assms(1,7,8)] assms(6) by simp
  from routing_graph.routeConnections_routes [OF assms(2-4) this assms(5,6)] show ?thesis by blast
qed

text \<open>A line of three platforms, a channel from one end to the other, and a chain with an end on each.\<close>

definition line_graph :: graph where
  "line_graph = [(''A'', ''B''), (''B'', ''A''), (''B'', ''C''), (''C'', ''B'')]"

definition sample_net :: route_state where
  "sample_net = sample_state\<lparr>conns := (conns sample_state)
       (2 := (sample_conn [] ''A'' 0)\<lparr>conn_class := LIChain, conn_name := ''k''\<rparr>,
        3 := (sample_conn [] ''C'' 0)\<lparr>conn_class := LIChain, conn_name := ''k''\<rparr>),
     mod_chains := \<lambda>p. if p = ''A'' then [2] else if p = ''C'' then [3] else [], allocated := 4\<rparr>"

lemmas sample_defs = sample_net_def sample_state_def sample_conn_def sample_ops_def list_ops_def

lemma sample_net_ok: "net_ok sample_net" "chains_ok sample_net" "routing_graph sample_ops"
proof -
  have "receiver sample_net 1" "joined sample_net (0, 1)"
    by (simp_all add: receiver_def joined_def linked_def sink_of_def source_of_def sample_defs)
  then have "source_ok sample_net 0" by (auto simp: source_ok_def sample_defs intro!: exI [of _ "1 :: nat"])
  then show "net_ok sample_net" by (simp add: net_ok_def channel_ok_def sender_def receiver_def sample_defs)
  show "chains_ok sample_net" by (simp add: chains_ok_def sample_defs)
  show "routing_graph sample_ops" unfolding sample_ops_def by (rule list_graph.routing_graph_axioms)
qed

lemma line_lengths:
  "\<forall>p \<in> {''A'', ''B'', ''C''}. \<forall>q \<in> {''A'', ''B'', ''C''}. getPathLength bfs line_graph p q \<noteq> - 1"
  by code_simp

lemma line_prev:
  "prev_of (bfs line_graph ''A'') ''C'' = Inr (Some ''B'')" "prev_of (bfs line_graph ''A'') ''B'' = Inr (Some ''A'')"
  "prev_of (bfs line_graph ''C'') ''A'' = Inr (Some ''B'')" "prev_of (bfs line_graph ''C'') ''B'' = Inr (Some ''C'')"
  by code_simp+

lemma line_paths:
  "getPath bfs line_graph ''A'' ''C'' = Some (Inr [''B''])" "getPath bfs line_graph ''C'' ''A'' = Some (Inr [''B''])"
  by (simp_all add: getPath_def path_walk.simps [of _ _ "Some _"] line_prev)

theorem routeConnections_delivers_witness:
  "\<exists>S'. routeConnections sample_ops (getPath bfs line_graph) [''A'', ''B'', ''C''] sample_net = Some (Inr S') \<and>
     delivers S' 0 [''B''] 1 \<and> delivers S' 2 [''B''] 3 \<and> delivers S' 3 [''B''] 2"
proof -
  let ?names = "[''A'', ''B'', ''C'']" and ?path = "getPath bfs line_graph"
  have names: "distinct ?names" "set ?names = set (mod_names sample_net)" by (simp_all add: sample_defs)
  have edges: "\<forall>(x, y) \<in> set line_graph. x \<in> set ?names \<and> y \<in> set ?names" by (simp add: line_graph_def)
  have conn: "\<forall>p \<in> set ?names. \<forall>q \<in> set ?names. getPathLength bfs line_graph p q \<noteq> - 1" using line_lengths by simp
  have refs: "chain_refs sample_net ?names ''k'' = [2, 3]" by (simp add: chain_refs_def sample_defs)
  have ends: "mod_channels sample_net ''A'' = [0]" "isSource sample_ops (conns sample_net 0)" "partnerChannel (conns sample_net 0) = 1"
      "conn_module (conns sample_net 0) = ''A''" "conn_module (conns sample_net 1) = ''C''"
      "conn_module (conns sample_net 2) = ''A''" "conn_module (conns sample_net 3) = ''C''"
    by (simp_all add: sample_defs)
  obtain S' where S': "routeConnections sample_ops ?path ?names sample_net = Some (Inr S')"
      "\<forall>p \<in> set ?names. \<forall>c \<in> set (mod_channels sample_net p). isSource sample_ops (conns sample_net c) \<longrightarrow>
         route_leads ?path sample_net S' c (partnerChannel (conns sample_net c))"
      "\<forall>n. 2 \<le> length (chain_refs sample_net ?names n) \<longrightarrow>
         (\<forall>(a, b) \<in> set (zip (chain_refs sample_net ?names n) (rotate1 (chain_refs sample_net ?names n))).
            route_leads ?path sample_net S' a b)"
    using routeConnections_delivers [OF bfs_paths.path_finder_axioms sample_net_ok(3,1,2) names edges conn] by blast
  have "delivers S' 0 [''B''] 1" using S'(2) ends line_paths by (simp add: route_leads_def)
  moreover have "delivers S' 2 [''B''] 3 \<and> delivers S' 3 [''B''] 2"
    using spec [OF S'(3), of "''k''"] refs ends line_paths by (simp add: route_leads_def)
  ultimately show ?thesis using S'(1) by blast
qed

end
