(* ===== verification/BuildOps.thy ===== *)
theory BuildOps
  imports FpgaEnvironment Patterns TextLines "HOL-Library.List_Lexorder"
begin

text \<open>
  What the two build stages share: the operations of the operating system and of the build tools they call,
  the commands of the AWB shell, the paths of the build trees (\<^verbatim>\<open>generate_lim_graph/generateLIMGraph.py\<close>
  and \<^verbatim>\<open>generate_lim_executable/generateLIMExecutable.py\<close>), the distribution of dictionaries and the
  dynamic parameters.  The state of the file system is a type parameter \<open>'w\<close>; every operation that changes
  it, and every one that can fail, is applied in the order of the code and may end the build with its error.
\<close>

section \<open>The surroundings of a build\<close>

record 'w os_ops =
  os_cwd :: string
  os_isdir :: "string \<Rightarrow> 'w \<Rightarrow> bool"
  os_isfile :: "string \<Rightarrow> 'w \<Rightarrow> bool"
  os_exists :: "string \<Rightarrow> 'w \<Rightarrow> bool"
  os_lexists :: "string \<Rightarrow> 'w \<Rightarrow> bool"
  os_getmtime :: "string \<Rightarrow> 'w \<Rightarrow> nat res"
  os_stat :: "string \<Rightarrow> 'w \<Rightarrow> int list res"
  os_abspath :: "string \<Rightarrow> string"
  os_realpath :: "string \<Rightarrow> 'w \<Rightarrow> string"
  os_relpath :: "string \<Rightarrow> string \<Rightarrow> string"
  os_size :: "string \<Rightarrow> 'w \<Rightarrow> nat option"
  os_read :: "string \<Rightarrow> 'w \<Rightarrow> string list res"
  os_write :: "string \<Rightarrow> string \<Rightarrow> 'w \<Rightarrow> 'w res"
  os_makedirs :: "string \<Rightarrow> 'w \<Rightarrow> 'w res"
  os_rmtree :: "string \<Rightarrow> 'w \<Rightarrow> 'w res"
  os_symlink :: "string \<Rightarrow> string \<Rightarrow> 'w \<Rightarrow> 'w res"
  os_run :: "string \<Rightarrow> 'w \<Rightarrow> (int \<times> 'w) res"

text \<open>What \<open>leap-configure\<close> and \<open>ModuleList\<close> tell of a model: its dictionaries, RRRs and synthesis boundaries.\<close>

record build_hierarchy =
  bh_dicts :: "string list"
  bh_rrrs :: "string list"
  bh_boundaries :: nat

record 'w build_env =
  be_os :: "'w os_ops"
  pythonize :: "string \<Rightarrow> build_hierarchy"
  awb_resolver :: "string \<Rightarrow> string"
  top_hierarchy :: build_hierarchy
  DEFS :: "string \<Rightarrow> string"
  awb_param :: "string \<Rightarrow> string \<Rightarrow> string"
  awb_num :: "string \<Rightarrow> string \<Rightarrow> nat"
  awb_flag :: "string \<Rightarrow> string \<Rightarrow> bool"
  build_arguments :: "(string \<times> string) list"

section \<open>Commands of the AWB shell\<close>

datatype awb_command =
    CreateSubmodel string string string
  | RenameSubmodel string string
  | ReplaceModule string string
  | CopyModel string string
  | SetParameter string string string
  | ConfigureModel string string

fun awb_line :: "awb_command \<Rightarrow> string" where
  "awb_line (CreateSubmodel f t a) = ''create submodel '' @ f @ '' '' @ t @ '' '' @ a @ nl"
| "awb_line (RenameSubmodel a n) = ''rename submodel '' @ a @ '' '' @ n @ nl"
| "awb_line (ReplaceModule p a) = ''replace module '' @ p @ '' '' @ a @ nl"
| "awb_line (CopyModel p q) = ''cp '' @ p @ '' '' @ q @ nl"
| "awb_line (SetParameter p n v) = ''set parameter '' @ p @ '' '' @ n @ '' '' @ v @ nl"
| "awb_line (ConfigureModel p d) = ''configure model '' @ p @ '' --builddir '' @ d @ nl"

text \<open>A value between escaped double quotes.\<close>

definition escaped :: "string \<Rightarrow> string" where
  "escaped s = [CHR 0x5C, CHR 0x22] @ s @ [CHR 0x5C, CHR 0x22]"

definition run_tool :: "'w os_ops \<Rightarrow> string \<Rightarrow> 'w \<Rightarrow> 'w res" where
  "run_tool os c w = bindR (os_run os c w) (\<lambda>(_, w'). Inr w')"

definition awb_shell :: "'w os_ops \<Rightarrow> string \<Rightarrow> 'w \<Rightarrow> 'w res" where
  "awb_shell os f w = run_tool os (''awb-shell --file '' @ f) w"

section \<open>Paths\<close>

definition limBuildTree :: string where
  "limBuildTree = ''lim''"

definition makePlatformLogName :: "string \<Rightarrow> string \<Rightarrow> string" where
  "makePlatformLogName name apm = name @ ''_'' @ apm @ ''_lim_logs''"

definition makePlatformLogBuildDir :: "string \<Rightarrow> string \<Rightarrow> string" where
  "makePlatformLogBuildDir name apm = limBuildTree @ ''/'' @ makePlatformLogName name apm @ ''/pm''"

definition makePlatformBitfileName :: "string \<Rightarrow> string \<Rightarrow> string" where
  "makePlatformBitfileName name apm = name @ ''_'' @ apm @ ''_lim_bitfile''"

definition makePlatformBitfileBuildDir :: "string \<Rightarrow> string \<Rightarrow> string" where
  "makePlatformBitfileBuildDir name apm = ''lim/'' @ makePlatformBitfileName name apm @ ''/pm''"

definition config_dir :: string where
  "config_dir = limBuildTree @ ''/apm-local/''"

definition makePlatformConfigPath :: "'w os_ops \<Rightarrow> string \<Rightarrow> 'w \<Rightarrow> (string \<times> 'w) res" where
  "makePlatformConfigPath os name w =
     bindR (if os_exists os config_dir w then Inr w else os_makedirs os config_dir w) (\<lambda>w'. Inr (config_dir @ name, w'))"

definition dict_dir :: "string \<Rightarrow> string" where
  "dict_dir buildDir = buildDir @ ''/iface/src/dict''"

definition rrr_dir :: "string \<Rightarrow> string" where
  "rrr_dir buildDir = buildDir @ ''/iface/src/rrr''"

text \<open>\<open>os.path.dirname\<close>: up to the last slash, without it.\<close>

definition dirname :: "string \<Rightarrow> string" where
  "dirname p =
     (let head = rev (dropWhile (\<lambda>c. c \<noteq> CHR ''/'') (rev p)); dir = rev (dropWhile (\<lambda>c. c = CHR ''/'') (rev head))
      in if dir = [] then head else dir)"

section \<open>Dynamic parameters\<close>

definition params_file :: "'w os_ops \<Rightarrow> string \<Rightarrow> string" where
  "params_file os buildDir = os_cwd os @ ''/'' @ buildDir @ ''/iface/src/dict/dynamic_params.dic''"

definition canonicalizeDynamicParameters ::
  "'w os_ops \<Rightarrow> (string \<times> platform) list \<Rightarrow> (string \<Rightarrow> string) \<Rightarrow> 'w \<Rightarrow> string list res" where
  "canonicalizeDynamicParameters os ps buildDir w =
     foldR (\<lambda>params (_, p). bindR (os_read os (params_file os (buildDir (pl_name p))) w) (\<lambda>ls.
       Inr (fold List.insert ls params))) [] ps"

definition writeDynamicParameters ::
  "'w os_ops \<Rightarrow> (string \<times> platform) list \<Rightarrow> (string \<Rightarrow> string) \<Rightarrow> string list \<Rightarrow> 'w \<Rightarrow> 'w res" where
  "writeDynamicParameters os ps buildDir params w =
     foldR (\<lambda>w (_, p). os_write os (params_file os (buildDir (pl_name p))) (concat (sort params)) w) w ps"

section \<open>Dictionaries and RRRs\<close>

text \<open>Where every name is found first.\<close>

definition add_missing :: "string \<Rightarrow> (string \<times> string) list \<Rightarrow> string list \<Rightarrow> (string \<times> string) list" where
  "add_missing dir m ds = foldl (\<lambda>m d. if d \<in> set (keys m) then m else put d (dir @ ''/'' @ d) m) m ds"

definition missing_table ::
  "(string \<Rightarrow> string) \<Rightarrow> (string \<Rightarrow> string list) \<Rightarrow> string \<Rightarrow> string list \<Rightarrow> (string \<times> platform) list \<Rightarrow> (string \<times> string) list" where
  "missing_table dirOf namesOf userDir user ps =
     add_missing userDir (foldl (\<lambda>m (name, p). add_missing (dirOf (pl_name p)) m (namesOf name)) [] ps) user"

text \<open>The loop that joins the names with colons.\<close>

definition missing_text :: "string list \<Rightarrow> string list \<Rightarrow> string" where
  "missing_text have all =
     fst (foldl (\<lambda>(acc, firstPass) d. if d \<in> set have then (acc, firstPass)
                  else (acc @ (if firstPass then [] else '':'') @ d, False)) ([], True) all)"

definition missing_names :: "string list \<Rightarrow> string list \<Rightarrow> string list" where
  "missing_names have all = filter (\<lambda>d. d \<notin> set have) all"

text \<open>Links to the dictionaries and RRRs of the other platforms.\<close>

definition link_dict :: "'w os_ops \<Rightarrow> string \<Rightarrow> 'w \<Rightarrow> string \<times> string \<Rightarrow> 'w res" where
  "link_dict os linkDir w = (\<lambda>(d, path).
     let linkPath = linkDir @ ''/'' @ d
     in if os_lexists os linkPath w then Inr w
        else os_symlink os (os_relpath os (os_realpath os path w) linkDir) linkPath w)"

definition link_rrr :: "'w os_ops \<Rightarrow> string \<Rightarrow> 'w \<Rightarrow> string \<times> string \<Rightarrow> 'w res" where
  "link_rrr os dir w = (\<lambda>(r, path).
     let linkPath = dir @ ''/'' @ r; relPath = os_relpath os (os_realpath os path w) (dirname linkPath)
     in if os_lexists os linkPath w then Inr w
        else bindR (if os_isdir os (dirname linkPath) w then Inr w else os_makedirs os (dirname linkPath) w)
               (os_symlink os relPath linkPath))"

definition missing_entries :: "string list \<Rightarrow> (string \<times> string) list \<Rightarrow> (string \<times> string) list" where
  "missing_entries have m = filter (\<lambda>(d, _). d \<notin> set have) m"

definition link_missing ::
  "'w os_ops \<Rightarrow> string \<Rightarrow> build_hierarchy \<Rightarrow> (string \<times> string) list \<Rightarrow> (string \<times> string) list \<Rightarrow> 'w \<Rightarrow> 'w res" where
  "link_missing os buildDir h dicts rrrs w =
     bindR (foldR (link_dict os (dict_dir buildDir)) w (missing_entries (bh_dicts h) dicts)) (\<lambda>w1.
       foldR (link_rrr os (rrr_dir buildDir)) w1 (missing_entries (bh_rrrs h) rrrs))"

section \<open>Submodels\<close>

text \<open>An empty name is false.\<close>

definition submodel_commands :: "string \<Rightarrow> string \<times> string \<times> string \<Rightarrow> awb_command list" where
  "submodel_commands apm_file = (\<lambda>(mtype, apm, name).
     CreateSubmodel apm_file mtype apm # (if name = [] then [] else [RenameSubmodel apm name]))"

definition config_submodels :: "'w os_ops \<Rightarrow> string \<Rightarrow> (string \<times> string \<times> string) list \<Rightarrow> 'w \<Rightarrow> 'w res" where
  "config_submodels os apm_file submodels w =
     (if \<exists>s \<in> set submodels. \<not> os_isfile os (fst (snd s)) w then
        bindR (os_write os ''config/top.batch'' (text_for awb_line (concat (map (submodel_commands apm_file) submodels))) w)
          (awb_shell os ''config/top.batch'')
      else Inr w)"

text \<open>The include directories of the model, absolute.\<close>

definition inc_dirs :: "'w build_env \<Rightarrow> string" where
  "inc_dirs B =
     join '':'' (map (os_abspath (be_os B))
       (split_on (CHR '' '') (DEFS B ''ROOT_DIR_SW_INC'') @ split_on (CHR '' '') (DEFS B ''SW_INC_DIRS'')))"

section \<open>What the operations keep and raise\<close>

text \<open>The errors of a run all satisfy the predicate.\<close>

definition fails_with :: "(py_error \<Rightarrow> bool) \<Rightarrow> 'a res \<Rightarrow> bool" where
  "fails_with P m \<longleftrightarrow> (\<forall>e. m = Inl e \<longrightarrow> P e)"

lemma fails_with_Inr [simp]: "fails_with P (Inr x)"
  by (simp add: fails_with_def)

lemma fails_with_bindR: "fails_with P m \<Longrightarrow> (\<And>x. m = Inr x \<Longrightarrow> fails_with P (f x)) \<Longrightarrow> fails_with P (bindR m f)"
  by (cases m) (auto simp: fails_with_def)

lemma fails_with_raise_if: "(b \<Longrightarrow> P e) \<Longrightarrow> fails_with P (raise_if b e)"
  by (simp add: raise_if_def fails_with_def)

lemma fails_with_foldR: "(\<And>s x. x \<in> set xs \<Longrightarrow> fails_with P (f s x)) \<Longrightarrow> fails_with P (foldR f s xs)"
  by (induction xs arbitrary: s) (auto intro!: fails_with_bindR)

text \<open>An error that an operation of the system raises.\<close>

definition os_error :: "'w os_ops \<Rightarrow> py_error \<Rightarrow> bool" where
  "os_error os e \<longleftrightarrow>
     (\<exists>f w. os_getmtime os f w = Inl e \<or> os_stat os f w = Inl e \<or> os_read os f w = Inl e \<or>
        os_makedirs os f w = Inl e \<or> os_rmtree os f w = Inl e \<or> os_run os f w = Inl e) \<or>
     (\<exists>f s w. os_write os f s w = Inl e \<or> os_symlink os f s w = Inl e)"

abbreviation only_os :: "'w os_ops \<Rightarrow> 'a res \<Rightarrow> bool" where
  "only_os os \<equiv> fails_with (os_error os)"

lemma only_os_calls:
  "only_os os (os_getmtime os f w)" "only_os os (os_stat os f w)" "only_os os (os_read os f w)" "only_os os (os_makedirs os f w)"
  "only_os os (os_rmtree os f w)" "only_os os (os_run os f w)" "only_os os (os_write os f s w)" "only_os os (os_symlink os f s w)"
  unfolding fails_with_def os_error_def by blast+

lemma only_os_tools: "only_os os (run_tool os c w)" "only_os os (awb_shell os f w)"
  by (auto simp: run_tool_def awb_shell_def intro!: fails_with_bindR only_os_calls split: prod.split)

lemma only_os_config_path: "only_os os (makePlatformConfigPath os n w)"
  by (auto simp: makePlatformConfigPath_def intro!: fails_with_bindR only_os_calls)

lemma only_os_submodels: "only_os os (config_submodels os apm ss w)"
  by (auto simp: config_submodels_def intro!: fails_with_bindR only_os_calls only_os_tools)

lemma only_os_params:
  "only_os os (canonicalizeDynamicParameters os ps dir w)" "only_os os (writeDynamicParameters os ps dir params w)"
  by (auto simp: canonicalizeDynamicParameters_def writeDynamicParameters_def
      intro!: fails_with_foldR fails_with_bindR only_os_calls split: prod.split)

lemma only_os_links:
  "only_os os (link_dict os d w e)" "only_os os (link_rrr os d w e)" "only_os os (link_missing os d h dicts rrrs w)"
proof -
  show "only_os os (link_dict os d w e)" for d w e
    by (auto simp: link_dict_def Let_def intro!: only_os_calls split: prod.split)
  moreover show "only_os os (link_rrr os d w e)" for d w e
    by (auto simp: link_rrr_def Let_def intro!: fails_with_bindR only_os_calls split: prod.split)
  ultimately show "only_os os (link_missing os d h dicts rrrs w)"
    by (auto simp: link_missing_def intro!: fails_with_bindR fails_with_foldR)
qed

text \<open>
  What the distribution relies on: a link that was made is there, and neither writing, creating or linking
  files nor the two commands that configure a model remove one.
\<close>

definition keeps :: "'w os_ops \<Rightarrow> 'w \<Rightarrow> 'w \<Rightarrow> bool" where
  "keeps os w w' \<longleftrightarrow> (\<forall>q. os_lexists os q w \<longrightarrow> os_lexists os q w')"

definition keeps_files :: "'w os_ops \<Rightarrow> bool" where
  "keeps_files os \<longleftrightarrow>
     (\<forall>t l w w'. os_symlink os t l w = Inr w' \<longrightarrow> os_lexists os l w' \<and> keeps os w w') \<and>
     (\<forall>f s w w'. os_write os f s w = Inr w' \<longrightarrow> keeps os w w') \<and>
     (\<forall>f w w'. os_makedirs os f w = Inr w' \<longrightarrow> keeps os w w') \<and>
     (\<forall>f w k w'. os_run os (''awb-shell --file '' @ f) w = Inr (k, w') \<longrightarrow> keeps os w w') \<and>
     (\<forall>a b w k w'. os_run os (''asim-shell --batch cp '' @ a @ '' '' @ b) w = Inr (k, w') \<longrightarrow> keeps os w w')"

lemma keeps_refl [simp, intro]: "keeps os w w"
  by (simp add: keeps_def)

lemma keeps_trans [trans]: "keeps os w w' \<Longrightarrow> keeps os w' w'' \<Longrightarrow> keeps os w w''"
  by (simp add: keeps_def)

lemma keepsD: "keeps os w w' \<Longrightarrow> os_lexists os q w \<Longrightarrow> os_lexists os q w'"
  by (simp add: keeps_def)

lemma foldR_keeps:
  assumes "foldR f w es = Inr w'" and "\<And>w e w'. f w e = Inr w' \<Longrightarrow> keeps os w w'"
  shows "keeps os w w'"
  using assms(1)
proof (rule foldR_invariant)
  fix v x v' assume "keeps os w v" "f v x = Inr v'"
  then show "keeps os w v'" using assms(2) keeps_trans by metis
qed simp

text \<open>A fold of steps that keep files and each add one.\<close>

lemma foldR_adds:
  assumes "foldR f w es = Inr w'" and "\<And>w e w'. f w e = Inr w' \<Longrightarrow> keeps os w w' \<and> os_lexists os (key e) w'" and "e \<in> set es"
  shows "os_lexists os (key e) w'"
  using assms(1,3)
proof (induction es arbitrary: w)
  case (Cons a es)
  then obtain v where v: "f w a = Inr v" "foldR f v es = Inr w'" by (auto simp: bindR_eq_Inr)
  have "keeps os v w'" using foldR_keeps [OF v(2)] assms(2) by blast
  then show ?case using Cons.IH [OF v(2)] Cons.prems(2) assms(2) [OF v(1)] keepsD by fastforce
qed simp

lemma keeps_filesD:
  assumes "keeps_files os"
  shows "os_symlink os t l w = Inr w' \<Longrightarrow> os_lexists os l w'" and "os_symlink os t l w = Inr w' \<Longrightarrow> keeps os w w'"
    and "os_write os f s w = Inr w' \<Longrightarrow> keeps os w w'" and "os_makedirs os f w = Inr w' \<Longrightarrow> keeps os w w'"
    and "awb_shell os f w = Inr w' \<Longrightarrow> keeps os w w'"
    and "run_tool os (''asim-shell --batch cp '' @ a @ '' '' @ b) w = Inr w' \<Longrightarrow> keeps os w w'"
  using assms by (auto simp: keeps_files_def awb_shell_def run_tool_def bindR_eq_Inr)

lemma config_path_keeps:
  "keeps_files os \<Longrightarrow> makePlatformConfigPath os n w = Inr (q, w') \<Longrightarrow> q = config_dir @ n \<and> keeps os w w'"
  by (auto simp: makePlatformConfigPath_def bindR_eq_Inr keeps_filesD split: if_splits)

lemma writes_keep: "keeps_files os \<Longrightarrow> writeDynamicParameters os ps dir params w = Inr w' \<Longrightarrow> keeps os w w'"
  unfolding writeDynamicParameters_def by (rule foldR_keeps) (auto simp: keeps_filesD)

lemma link_dict_adds:
  "keeps_files os \<Longrightarrow> link_dict os dir w e = Inr w' \<Longrightarrow> keeps os w w' \<and> os_lexists os (dir @ ''/'' @ fst e) w'"
  by (cases e) (auto simp: link_dict_def Let_def keeps_filesD split: if_splits)

lemma link_rrr_adds:
  assumes "keeps_files os" and "link_rrr os dir w e = Inr w'"
  shows "keeps os w w' \<and> os_lexists os (dir @ ''/'' @ fst e) w'"
proof -
  define link where "link = dir @ ''/'' @ fst e"
  let ?dir = "if os_isdir os (dirname link) w then Inr w else os_makedirs os (dirname link) w"
  obtain t where step: "(if os_lexists os link w then Inr w else bindR ?dir (os_symlink os t link)) = Inr w'"
    using assms(2) by (cases e) (simp only: link_rrr_def Let_def prod.case link_def fst_conv)
  show ?thesis
    unfolding link_def [symmetric]
  proof (cases "os_lexists os link w")
    case True
    then show "keeps os w w' \<and> os_lexists os link w'" using step by simp
  next
    case False
    then obtain w1 where w1: "?dir = Inr w1" "os_symlink os t link w1 = Inr w'"
      using step by (auto simp: bindR_eq_Inr)
    have first: "keeps os w w1" using w1(1) keeps_filesD(4) [OF assms(1)] by (auto split: if_splits)
    show "keeps os w w' \<and> os_lexists os link w'"
      using keeps_filesD(1) [OF assms(1) w1(2)] keeps_trans [OF first keeps_filesD(2) [OF assms(1) w1(2)]] by simp
  qed
qed

lemma link_missing_links:
  assumes "keeps_files os" and "link_missing os dir h dicts rrrs w = Inr w'"
  shows "d \<in> set (keys dicts) \<Longrightarrow> d \<notin> set (bh_dicts h) \<Longrightarrow> os_lexists os (dict_dir dir @ ''/'' @ d) w'"
    and "d \<in> set (keys rrrs) \<Longrightarrow> d \<notin> set (bh_rrrs h) \<Longrightarrow> os_lexists os (rrr_dir dir @ ''/'' @ d) w'"
    and "keeps os w w'"
proof -
  obtain w1 where w1: "foldR (link_dict os (dict_dir dir)) w (missing_entries (bh_dicts h) dicts) = Inr w1"
      "foldR (link_rrr os (rrr_dir dir)) w1 (missing_entries (bh_rrrs h) rrrs) = Inr w'"
    using assms(2) by (auto simp: link_missing_def bindR_eq_Inr)
  have kept: "keeps os w1 w'" "keeps os w w1"
    by (rule foldR_keeps [OF w1(2)], erule conjunct1 [OF link_rrr_adds [OF assms(1)]])
      (rule foldR_keeps [OF w1(1)], erule conjunct1 [OF link_dict_adds [OF assms(1)]])
  show "keeps os w w'" by (rule keeps_trans [OF kept(2,1)])
  have entry: "\<exists>e \<in> set (missing_entries have m). fst e = d" if "d \<in> set (keys m)" "d \<notin> set have" for d m and "have" :: "string list"
    using that by (force simp: keys_def missing_entries_def)
  show "os_lexists os (dict_dir dir @ ''/'' @ d) w'" if d: "d \<in> set (keys dicts)" "d \<notin> set (bh_dicts h)"
  proof -
    obtain e where e: "e \<in> set (missing_entries (bh_dicts h) dicts)" "fst e = d" using entry [OF d] by blast
    have "os_lexists os (dict_dir dir @ ''/'' @ fst e) w1"
      by (rule foldR_adds [OF w1(1) link_dict_adds [OF assms(1)] e(1)])
    then show ?thesis using keepsD [OF kept(1)] e(2) by simp
  qed
  show "os_lexists os (rrr_dir dir @ ''/'' @ d) w'" if d: "d \<in> set (keys rrrs)" "d \<notin> set (bh_rrrs h)"
  proof -
    obtain e where e: "e \<in> set (missing_entries (bh_rrrs h) rrrs)" "fst e = d" using entry [OF d] by blast
    have "os_lexists os (rrr_dir dir @ ''/'' @ fst e) w'"
      by (rule foldR_adds [OF w1(2) link_rrr_adds [OF assms(1)] e(1)])
    then show ?thesis using e(2) by simp
  qed
qed

section \<open>What the tables hold\<close>

lemma keys_add_missing: "set (keys (add_missing dir m ds)) = set (keys m) \<union> set ds"
  unfolding add_missing_def
  by (induction ds arbitrary: m) (auto simp: set_keys_put)

lemma distinct_add_missing: "distinct (keys m) \<Longrightarrow> distinct (keys (add_missing dir m ds))"
  unfolding add_missing_def
  by (induction ds arbitrary: m) (auto simp: distinct_keys_put)

lemma missing_join: "missing_text have all = join '':'' (missing_names have all)"
proof -
  let ?f = "\<lambda>(acc, firstPass) d. if d \<in> set have then (acc, firstPass) else (acc @ (if firstPass then [] else '':'') @ d, False)"
  have later: "fst (foldl ?f (acc, False) all) = acc @ concat (map (\<lambda>d. '':'' @ d) (missing_names have all))" for acc all
    by (induction all arbitrary: acc) (simp_all add: missing_names_def)
  have join: "join '':'' (d # ds) = d @ concat (map (\<lambda>d. '':'' @ d) ds)" for d ds
    by (induction ds arbitrary: d) simp_all
  show ?thesis
    unfolding missing_text_def
  proof (induction all)
    case (Cons d all)
    then show ?case
      using later [of d all] by (simp add: missing_names_def join)
  qed (simp add: missing_names_def)
qed

end
