(* ===== verification/LimGraph.thy ===== *)
theory LimGraph
  imports BuildOps
begin

text \<open>
  \<^verbatim>\<open>generate_lim_graph/generateLIMGraph.py\<close>: the first pass of the build.  It configures one build tree per
  platform, tells every tree about the dictionaries of all the others, numbers the modules, binds the user
  program to one platform of each type and writes a router that reports the widths of the physical
  connections.  At the end it compares the dictionaries and RRRs of every platform with the collected ones.
\<close>

section \<open>Binding and configuration\<close>

text \<open>\<open>platformBindings\<close> before the loop: the master of a type, the last one where there are several.\<close>

definition master_bindings :: "(string \<times> platform) list \<Rightarrow> (string \<times> string) list" where
  "master_bindings ps = foldl (\<lambda>b (name, p). if master p then put (platformType p) name b else b) [] ps"

definition doCache :: "(string \<times> string) list \<Rightarrow> string \<Rightarrow> platform \<Rightarrow> bool" where
  "doCache b name p \<longleftrightarrow> platformType p \<notin> set (keys b) \<or> map_of b (platformType p) = Some name"

definition graph_commands ::
  "'w build_env \<Rightarrow> (string \<times> platform) list \<Rightarrow> string \<Rightarrow> string \<Rightarrow> string \<Rightarrow> platform \<Rightarrow> bool \<Rightarrow> nat
     \<Rightarrow> (string \<times> string) list \<Rightarrow> (string \<times> string) list \<Rightarrow> build_hierarchy \<Rightarrow> awb_command list res" where
  "graph_commands B ps applicationPath platformPath buildDir p bound uid dicts rrrs h =
     bindR (getSynthesisBoundaryPlatformID ps (pl_name p)) (\<lambda>ident.
       let cwidth = awb_param B ''lim_graph_generator'' ''SOFT_CONN_CWIDTH''
       in Inr (
         (if bound then [ReplaceModule platformPath applicationPath] else []) @
         (if master p then [SetParameter platformPath ''BUILD_FIRST_PASS_SOFTWARE'' ''1''] else []) @
         [SetParameter platformPath ''FPGA_PLATFORM_ID'' (num ident),
          SetParameter platformPath ''CON_CWIDTH'' cwidth,
          SetParameter platformPath ''CON_CHAIN_CWIDTH'' cwidth,
          SetParameter platformPath ''FPGA_PLATFORM_NAME'' (escaped (pl_name p)),
          SetParameter platformPath ''FPGA_NUM_PLATFORMS'' (num (length ps)),
          SetParameter platformPath ''EXPOSE_ALL_CONNECTIONS'' ''1 '',
          SetParameter platformPath ''BUILD_LOGS_ONLY'' ''1 '',
          SetParameter platformPath ''MODULE_UID_OFFSET'' (num uid),
          SetParameter platformPath ''USE_ROUTING_KNOWN'' ''0 '',
          SetParameter platformPath ''SOFT_CONNECTION_REMAP'' ''0 ''] @
         map (\<lambda>(n, v). SetParameter platformPath n (getAWBRepresentation v)) (parameters p) @
         [SetParameter platformPath ''EXTRA_INC_DIRS'' (escaped (inc_dirs B)),
          SetParameter platformPath ''EXTRA_DICTS'' (escaped (missing_text (bh_dicts h) (keys dicts))),
          SetParameter platformPath ''EXTRA_RRRS'' (escaped (missing_text (bh_rrrs h) (keys rrrs))),
          ConfigureModel platformPath buildDir]))"

section \<open>The router that reports the widths\<close>

text \<open>\<open>physicalName.replace(".","_").replace("[","_").replace("]","_")\<close>\<close>

definition via_identifier :: "string \<Rightarrow> string" where
  "via_identifier n =
     replace_char (CHR '']'') ''_'' (replace_char (CHR ''['') ''_'' (replace_char (CHR ''.'') ''_'' n))"

definition write_function :: "string \<Rightarrow> string" where
  "write_function n =
     (let via = via_identifier n @ ''_write''
      in '', function Action write_'' @ via @ ''_egress(Bit#(p'' @ via @ ''_egress_SZ) data)'')"

definition read_function :: "string \<Rightarrow> string" where
  "read_function n =
     (let via = via_identifier n @ ''_read''
      in '', function Bit#(p'' @ via @ ''_ingress_SZ) read_'' @ via @ ''_ingress()'')"

text \<open>The message without the width, and the statement that prints it when the router is compiled.\<close>

definition size_message :: "string \<Rightarrow> string \<Rightarrow> string" where
  "size_message dir n = ''SizeOfVia:'' @ n @ '':'' @ dir @ '':''"

definition egress_message :: "string \<Rightarrow> string" where
  "egress_message n =
     ''messageM('' @ quoted (size_message ''egress'' n) @ '' + integerToString(valueof(p'' @ via_identifier n @ ''_write'' @
     ''_egress_SZ)));'' @ nl"

definition ingress_message :: "string \<Rightarrow> string" where
  "ingress_message n =
     ''messageM('' @ quoted (size_message ''ingress'' n) @ '' + integerToString(valueof(p'' @ via_identifier n @ ''_read'' @
     ''_ingress_SZ)));'' @ nl"

definition egress_names :: "platform \<Rightarrow> string list" where
  "egress_names p = map (physicalName \<circ> snd) (getEgresses p)"

definition ingress_names :: "platform \<Rightarrow> string list" where
  "ingress_names p = map (physicalName \<circ> snd) (getIngresses p)"

definition router_bsh :: "'w build_env \<Rightarrow> platform \<Rightarrow> string" where
  "router_bsh B p =
     text_for (\<lambda>f. [CHR 0x60] @ ''include '' @ quoted (''awb/provides/'' @ f @ ''.bsh'') @ nl)
       [''stats_service'', ''debug_scan_service'', ''physical_platform''] @
     ''// we need to pick up the module sizes'' @ nl @
     ''module [CONNECTED_MODULE] mkCommunicationModule#(PHYSICAL_DRIVERS physicalDrivers) (Empty);'' @ nl @
     ''let m <- mkCommunicationModuleIfaces(physicalDrivers '' @
     text_for (\<lambda>n. '', '' @ n @ ''.write'') (egress_names p) @
     text_for (\<lambda>n. '', '' @ n @ ''.first'') (ingress_names p) @ '');'' @ nl @
     text_if (awb_flag B ''lim_graph_generator'' ''GENERATE_ROUTER_STATS'')
       (''let stat <- mkStatCounter(statName('' @ quoted (''DUMMY_'' @ pl_name p) @ '', '' @ quoted ''Dummy stat'' @ ''));'' @ nl) @
     text_if (awb_flag B ''lim_graph_generator'' ''GENERATE_ROUTER_DEBUG'')
       (''mkDebugScanNode('' @ quoted ''dummy'' @ '',List::nil);'' @ nl) @
     ''endmodule'' @ nl @
     ''module [CONNECTED_MODULE] mkCommunicationModuleIfaces#(PHYSICAL_DRIVERS physicalDrivers '' @
     text_for write_function (egress_names p) @ text_for read_function (ingress_names p) @ '') (Empty);'' @ nl @
     text_for egress_message (egress_names p) @ text_for ingress_message (ingress_names p) @
     ''endmodule'' @ nl"

definition router_h :: string where
  "router_h =
     ''// Generated by build pipeline'' @ nl @ nl @ ''#ifndef __SW_ROUTING__'' @ nl @ ''#define __SW_ROUTING__'' @ nl @
     text_for (\<lambda>f. ''#include '' @ quoted (''awb/provides/'' @ f @ ''.h'') @ nl)
       [''physical_channel'', ''channelio'', ''multifpga_switch'', ''umf''] @
     ''#include <pthread.h>'' @ nl @ ''#include <vector>'' @ nl @ ''#include '' @ quoted ''tbb/concurrent_queue.h'' @ nl @
     ''using namespace std;'' @ nl @ ''typedef class CHANNELIO_CLASS* CHANNELIO;'' @ nl @
     ''class CHANNELIO_CLASS:  public CHANNELIO_BASE_CLASS'' @ nl @ ''{'' @ nl @ ''  public:'' @ nl @
     tb @ ''CHANNELIO_CLASS(PLATFORMS_MODULE module, PHYSICAL_DEVICES physicalDevicesInit):'' @ nl @
     tb @ tb @ ''CHANNELIO_BASE_CLASS(module, physicalDevicesInit)'' @ nl @ nl @
     tb @ ''{'' @ nl @ tb @ ''};'' @ nl @ ''};'' @ nl @ ''#endif'' @ nl"

section \<open>Compilation of a platform\<close>

text \<open>The command of the closure \<open>compile_platform_log\<close>; the calls of \<open>makePlatformConfigPath\<close> in it also create its directory.\<close>

definition scons_argument :: "string \<times> string \<Rightarrow> string" where
  "scons_argument = (\<lambda>(key, value). key @ ''='' @ quoted value)"

definition log_command :: "'w build_env \<Rightarrow> string \<Rightarrow> string" where
  "log_command B name =
     (let buildDir = makePlatformLogBuildDir name (DEFS B ''APM_NAME'');
          flag = awb_flag B ''lim_graph_generator''; path = (\<lambda>n. os_abspath (be_os B) (config_dir @ n))
      in ''cd '' @ buildDir @ ''; scons'' @
         text_if (flag ''ENABLE_SCONS_CACHING_DEBUG_GRAPH'') ('' --cache-show --cache-debug='' @ path (''debug_frontend_'' @ name)) @
         '' '' @ awb_param B ''lim_graph_generator'' ''BUILD_PARAMETERS'' @ '' '' @
         text_if (flag ''ENABLE_SCONS_PROFILING_GRAPH'') ('' --profile='' @ path (''profile_frontend_'' @ name)) @
         '' '' @ join '' '' (map scons_argument (build_arguments B)) @ '' LIM_BUILD_DIR='' @ buildDir @
         text_if (flag ''ENABLE_SCONS_CACHING_GRAPH'') ('' LEAP_BUILD_CACHE_DIR='' @ path (''codeCache'' @ name)))"

text \<open>The status is the one of the command.\<close>

definition compile_platform_log :: "'w build_env \<Rightarrow> string \<Rightarrow> 'w \<Rightarrow> (int \<times> 'w) res" where
  "compile_platform_log B name w =
     bindR (makePlatformConfigPath (be_os B) [] w) (\<lambda>(_, w1). os_run (be_os B) (log_command B name) w1)"

text \<open>A step registered with SCons: its targets, its sources and the platform its action compiles.\<close>

record subbuild =
  sb_targets :: "string list"
  sb_sources :: "string list"
  sb_platform :: string

section \<open>The loop over the platforms\<close>

record 'w graph_state =
  gs_world :: 'w
  platformBindings :: "(string \<times> string) list"
  MODULE_UID_OFFSET :: nat
  PLATFORM_LI :: "string list"
  gs_subbuilds :: "subbuild list"
  batches :: "(string \<times> awb_command list) list"

definition router_file :: "'w build_env \<Rightarrow> string \<Rightarrow> platform \<Rightarrow> (string \<times> string) option" where
  "router_file B buildDir p =
     (if platformType p = ''FPGA'' \<or> platformType p = ''BLUESIM'' then
        Some (buildDir @ ''/'' @ DEFS B ''ROOT_DIR_HW'' @ ''/'' @ DEFS B ''ROOT_DIR_MODEL'' @ ''/multifpga_routing.bsh'', router_bsh B p)
      else if platformType p = ''CPU'' then
        Some (buildDir @ ''/'' @ DEFS B ''ROOT_DIR_SW'' @ ''/'' @ DEFS B ''ROOT_DIR_MODEL'' @ ''/software_routing.h'', router_h)
      else None)"

text \<open>The batch file is opened first, and what is written to it is there when it is closed.\<close>

definition open_batch :: "'w os_ops \<Rightarrow> bool \<Rightarrow> string \<Rightarrow> 'w \<Rightarrow> 'w res" where
  "open_batch os need_config batchFile w = (if need_config then os_write os batchFile [] w else Inr w)"

text \<open>\<open>os.path.relpath\<close> raises on an empty path.\<close>

definition prepare_model :: "'w build_env \<Rightarrow> platform \<Rightarrow> string \<Rightarrow> 'w \<Rightarrow> 'w res" where
  "prepare_model B p platformPath w =
     (let os = be_os B; platformAPMPath = strip (awb_resolver B (pl_path p))
      in bindR (makePlatformConfigPath os [] w) (\<lambda>(start, w1).
         bindR (raise_if (platformAPMPath = []) ValueError) (\<lambda>_.
         bindR (makePlatformConfigPath os (getAPMName p) w1) (\<lambda>(linkAPMPath, w2).
         bindR (if os_exists os linkAPMPath w2 then Inr w2
                else os_symlink os (os_relpath os platformAPMPath start) linkAPMPath w2) (\<lambda>w3.
           if os_isfile os platformPath w3 then Inr w3
           else run_tool os (''asim-shell --batch cp '' @ pl_path p @ '' '' @ platformPath) w3)))))"

definition configure_tree :: "'w os_ops \<Rightarrow> bool \<Rightarrow> string \<Rightarrow> string \<Rightarrow> string \<Rightarrow> 'w \<Rightarrow> 'w res" where
  "configure_tree os need_config batchFile text1 buildDir w =
     (if need_config then
        bindR (os_write os batchFile text1 w) (\<lambda>w1. bindR (os_makedirs os buildDir w1) (awb_shell os batchFile))
      else Inr w)"

text \<open>A router file, where the platform has one.\<close>

definition write_router :: "'w os_ops \<Rightarrow> (string \<times> string) option \<Rightarrow> 'w \<Rightarrow> 'w res" where
  "write_router os router w = (case router of None \<Rightarrow> Inr w | Some (path, header) \<Rightarrow> os_write os path header w)"

definition graph_platform ::
  "'w build_env \<Rightarrow> (string \<times> platform) list \<Rightarrow> string \<Rightarrow> (string \<Rightarrow> build_hierarchy) \<Rightarrow> (string \<times> string) list
     \<Rightarrow> (string \<times> string) list \<Rightarrow> 'w graph_state \<Rightarrow> string \<times> platform \<Rightarrow> 'w graph_state res" where
  "graph_platform B ps applicationPath hier dicts rrrs S = (\<lambda>(name, p).
     let os = be_os B; APM_NAME = DEFS B ''APM_NAME''; h = hier name;
         platformAPM = makePlatformLogName (pl_name p) APM_NAME;
         buildDir = makePlatformLogBuildDir name APM_NAME;
         batchFile = ''config/'' @ pl_name p @ ''.logs.batch'';
         bound = doCache (platformBindings S) name p;
         uid = MODULE_UID_OFFSET S;
         platformLI = buildDir @ ''/'' @ platformAPM @ ''.li'';
         router = router_file B buildDir p
     in bindR (makePlatformConfigPath os (platformAPM @ ''.apm'') (gs_world S)) (\<lambda>(platformPath, w1).
       let need_config = (\<not> os_isdir os buildDir w1)
       in bindR (open_batch os need_config batchFile w1) (\<lambda>w2.
       bindR (prepare_model B p platformPath w2) (\<lambda>w3.
       bindR (graph_commands B ps applicationPath platformPath buildDir p bound uid dicts rrrs h) (\<lambda>cs.
       bindR (configure_tree os need_config batchFile (text_for awb_line cs) buildDir w3) (\<lambda>w4.
       bindR (link_missing os (makePlatformLogBuildDir (pl_name p) APM_NAME) h dicts rrrs w4) (\<lambda>w5.
       bindR (write_router os router w5) (\<lambda>w6. Inr (S\<lparr>
         gs_world := w6,
         platformBindings := (if bound then put (platformType p) name (platformBindings S) else platformBindings S),
         MODULE_UID_OFFSET := uid + bh_boundaries h + (if bound then bh_boundaries (top_hierarchy B) else 0),
         PLATFORM_LI := PLATFORM_LI S @ [platformLI],
         gs_subbuilds := gs_subbuilds S @
           (case router of None \<Rightarrow> []
            | Some (file, _) \<Rightarrow> [\<lparr>sb_targets = [platformLI], sb_sources = [file], sb_platform = pl_name p\<rparr>]),
         batches := batches S @ [(name, cs)]\<rparr>)))))))))"

section \<open>The pass\<close>

definition remove_stale :: "'w os_ops \<Rightarrow> 'w \<Rightarrow> 'w res" where
  "remove_stale os w =
     (if os_isdir os limBuildTree w then
        bindR (os_getmtime os ''SConstruct'' w) (\<lambda>sconstruct. bindR (os_getmtime os limBuildTree w) (\<lambda>tree.
          if tree < sconstruct then os_rmtree os limBuildTree w else Inr w))
      else Inr w)"

record 'w graph_result =
  gr_state :: "'w graph_state"
  MISSING_DICTS :: "(string \<times> string) list"
  MISSING_RRRS :: "(string \<times> string) list"
  CANONICAL_PARAMS :: "string list"
  mismatched :: "(string \<times> string) list"

definition platform_hierarchy :: "'w build_env \<Rightarrow> (string \<times> platform) list \<Rightarrow> string \<Rightarrow> build_hierarchy" where
  "platform_hierarchy B ps name =
     (case map_of ps name of Some p \<Rightarrow> pythonize B (pl_path p) | None \<Rightarrow> top_hierarchy B)"

definition graph_dicts :: "'w build_env \<Rightarrow> (string \<times> platform) list \<Rightarrow> (string \<times> string) list" where
  "graph_dicts B ps =
     missing_table (\<lambda>n. dict_dir (makePlatformLogBuildDir n (DEFS B ''APM_NAME''))) (bh_dicts \<circ> platform_hierarchy B ps)
       ''iface/src/dict'' (bh_dicts (top_hierarchy B)) ps"

definition graph_rrrs :: "'w build_env \<Rightarrow> (string \<times> platform) list \<Rightarrow> (string \<times> string) list" where
  "graph_rrrs B ps =
     missing_table (\<lambda>n. rrr_dir (makePlatformLogBuildDir n (DEFS B ''APM_NAME''))) (bh_rrrs \<circ> platform_hierarchy B ps)
       ''iface/src/rrr'' (bh_rrrs (top_hierarchy B)) ps"

definition application_path :: "'w build_env \<Rightarrow> string" where
  "application_path B = config_dir @ DEFS B ''APM_NAME'' @ ''_lim_connected_application'' @ ''.apm''"

text \<open>The directory of the configurations is there after the first of the three calls that make it.\<close>

definition graph_start :: "'w build_env \<Rightarrow> (string \<times> platform) list \<Rightarrow> 'w \<Rightarrow> 'w graph_state res" where
  "graph_start B ps w0 =
     (let os = be_os B; APM_NAME = DEFS B ''APM_NAME''
      in bindR (remove_stale os w0) (\<lambda>w1.
         bindR (makePlatformConfigPath os [] w1) (\<lambda>(_, w2).
         bindR (config_submodels os (DEFS B ''APM_FILE'')
             [(''connected_application'', application_path B, APM_NAME @ ''_lim_connected_application''),
              (''fpga_mapping'', config_dir @ APM_NAME @ ''_lim_mapping'' @ ''.apm'', APM_NAME @ ''_lim_mapping''),
              (''environment_description'', config_dir @ APM_NAME @ ''_lim_environment'' @ ''.apm'', [])] w2) (\<lambda>w3.
           Inr \<lparr>gs_world = w3, platformBindings = master_bindings ps, MODULE_UID_OFFSET = 0, PLATFORM_LI = [],
                gs_subbuilds = [], batches = []\<rparr>))))"

text \<open>
  The comparison of the dictionaries and RRRs of a platform with the files they were collected from.  A file
  that is not there ends the build; one that differs is named in a warning.
\<close>

definition check_entry ::
  "'w os_ops \<Rightarrow> 'w \<Rightarrow> string \<Rightarrow> (string \<times> string) list \<Rightarrow> string \<Rightarrow> (string \<times> string) list \<Rightarrow> string
     \<Rightarrow> (string \<times> string) list res" where
  "check_entry os w dir m name warnings d =
     bindR (os_stat os (os_abspath os (dir @ ''/'' @ d)) w) (\<lambda>platStat.
     bindR (get_key m d (KeyError d)) (\<lambda>path.
     bindR (os_stat os (os_abspath os path) w) (\<lambda>globalStat.
       Inr (if platStat \<noteq> globalStat then warnings @ [(d, name)] else warnings))))"

definition check_platform ::
  "'w build_env \<Rightarrow> (string \<Rightarrow> build_hierarchy) \<Rightarrow> (string \<times> string) list \<Rightarrow> (string \<times> string) list \<Rightarrow> 'w
     \<Rightarrow> (string \<times> string) list \<Rightarrow> string \<times> platform \<Rightarrow> (string \<times> string) list res" where
  "check_platform B hier dicts rrrs w warnings = (\<lambda>(name, _).
     let os = be_os B; buildDir = makePlatformLogBuildDir name (DEFS B ''APM_NAME'')
     in bindR (foldR (check_entry os w (dict_dir buildDir) dicts name) warnings (bh_dicts (hier name))) (\<lambda>warnings1.
        foldR (check_entry os w (rrr_dir buildDir) rrrs name) warnings1 (bh_rrrs (hier name))))"

definition GenerateLIMGraph :: "'w build_env \<Rightarrow> (string \<times> platform) list \<Rightarrow> 'w \<Rightarrow> 'w graph_result res" where
  "GenerateLIMGraph B ps w0 =
     (let os = be_os B; buildDir = (\<lambda>n. makePlatformLogBuildDir n (DEFS B ''APM_NAME''));
          dicts = graph_dicts B ps; rrrs = graph_rrrs B ps
      in bindR (graph_start B ps w0) (\<lambda>S0.
         bindR (foldR (graph_platform B ps (application_path B) (platform_hierarchy B ps) dicts rrrs) S0 ps) (\<lambda>S.
         bindR (canonicalizeDynamicParameters os ps buildDir (gs_world S)) (\<lambda>params.
         bindR (writeDynamicParameters os ps buildDir params (gs_world S)) (\<lambda>w1.
         bindR (foldR (check_platform B (platform_hierarchy B ps) dicts rrrs w1) [] ps) (\<lambda>warnings.
           Inr \<lparr>gr_state = S\<lparr>gs_world := w1\<rparr>, MISSING_DICTS = dicts, MISSING_RRRS = rrrs,
                CANONICAL_PARAMS = params, mismatched = warnings\<rparr>))))))"

section \<open>Binding and numbering\<close>

fun is_replace :: "awb_command \<Rightarrow> bool" where
  "is_replace (ReplaceModule p a) = True"
| "is_replace c = False"

text \<open>The user program is built for the platform.\<close>

definition binds :: "awb_command list \<Rightarrow> bool" where
  "binds cs \<longleftrightarrow> (\<exists>c \<in> set cs. is_replace c)"

definition module_count :: "'w build_env \<Rightarrow> (string \<Rightarrow> build_hierarchy) \<Rightarrow> string \<times> awb_command list \<Rightarrow> nat" where
  "module_count B hier = (\<lambda>(name, cs). bh_boundaries (hier name) + (if binds cs then bh_boundaries (top_hierarchy B) else 0))"

definition uid_base :: "'w build_env \<Rightarrow> (string \<Rightarrow> build_hierarchy) \<Rightarrow> (string \<times> awb_command list) list \<Rightarrow> nat \<Rightarrow> nat" where
  "uid_base B hier bs i = sum_list (map (module_count B hier) (take i bs))"

definition binding_inv :: "(string \<times> platform) list \<Rightarrow> (string \<times> platform) list \<Rightarrow> 'w graph_state \<Rightarrow> bool" where
  "binding_inv ps pre S \<longleftrightarrow>
     (\<forall>t n. map_of (platformBindings S) t = Some n \<longrightarrow> (\<exists>p. (n, p) \<in> set ps \<and> platformType p = t)) \<and>
     (\<forall>(n, p) \<in> set pre. map_of (platformBindings S) (platformType p) \<noteq> None) \<and>
     list_all2 (\<lambda>(n, p) (n', cs). n' = n \<and> (binds cs \<longleftrightarrow> map_of (platformBindings S) (platformType p) = Some n)) pre (batches S)"

definition uid_inv :: "'w build_env \<Rightarrow> (string \<Rightarrow> build_hierarchy) \<Rightarrow> 'w graph_state \<Rightarrow> bool" where
  "uid_inv B hier S \<longleftrightarrow>
     MODULE_UID_OFFSET S = uid_base B hier (batches S) (length (batches S)) \<and>
     (\<forall>i < length (batches S). \<exists>q. SetParameter q ''MODULE_UID_OFFSET'' (num (uid_base B hier (batches S) i)) \<in> set (snd (batches S ! i)))"

lemma graph_commands_binds: "graph_commands B ps a q d p bound uid dicts rrrs h = Inr cs \<Longrightarrow> binds cs \<longleftrightarrow> bound"
  by (auto simp: graph_commands_def binds_def Let_def res_simps)

lemma graph_commands_uid:
  "graph_commands B ps a q d p bound uid dicts rrrs h = Inr cs \<Longrightarrow> SetParameter q ''MODULE_UID_OFFSET'' (num uid) \<in> set cs"
  by (auto simp: graph_commands_def Let_def res_simps)

text \<open>What a platform adds to the state.\<close>

lemma graph_platform_Inr:
  assumes "graph_platform B ps a hier dicts rrrs S (name, p) = Inr S'"
  shows "\<exists>cs q. batches S' = batches S @ [(name, cs)] \<and> (binds cs \<longleftrightarrow> doCache (platformBindings S) name p) \<and>
    SetParameter q ''MODULE_UID_OFFSET'' (num (MODULE_UID_OFFSET S)) \<in> set cs \<and>
    platformBindings S' = (if binds cs then put (platformType p) name (platformBindings S) else platformBindings S) \<and>
    MODULE_UID_OFFSET S' = MODULE_UID_OFFSET S + module_count B hier (name, cs)"
proof -
  obtain q cs where cs: "graph_commands B ps a q (makePlatformLogBuildDir name (DEFS B ''APM_NAME'')) p
      (doCache (platformBindings S) name p) (MODULE_UID_OFFSET S) dicts rrrs (hier name) = Inr cs"
    and S': "batches S' = batches S @ [(name, cs)]"
      "platformBindings S' = (if doCache (platformBindings S) name p then put (platformType p) name (platformBindings S) else platformBindings S)"
      "MODULE_UID_OFFSET S' = MODULE_UID_OFFSET S + bh_boundaries (hier name) +
         (if doCache (platformBindings S) name p then bh_boundaries (top_hierarchy B) else 0)"
    using assms by (auto simp: graph_platform_def Let_def res_simps split: prod.splits)
  then show ?thesis
    using graph_commands_binds [OF cs] graph_commands_uid [OF cs] by (auto simp: module_count_def)
qed

lemma binding_step:
  assumes "binding_inv ps pre S" and "graph_platform B ps a hier dicts rrrs S (name, p) = Inr S'" and "(name, p) \<in> set ps"
  shows "binding_inv ps (pre @ [(name, p)]) S'"
proof -
  obtain cs where S': "batches S' = batches S @ [(name, cs)]" "binds cs \<longleftrightarrow> doCache (platformBindings S) name p"
    "platformBindings S' = (if binds cs then put (platformType p) name (platformBindings S) else platformBindings S)"
    using graph_platform_Inr [OF assms(2)] by blast
  have inv: "\<forall>t n. map_of (platformBindings S) t = Some n \<longrightarrow> (\<exists>p. (n, p) \<in> set ps \<and> platformType p = t)"
    "\<forall>(n, p) \<in> set pre. map_of (platformBindings S) (platformType p) \<noteq> None"
    "list_all2 (\<lambda>(n, p) (n', cs). n' = n \<and> (binds cs \<longleftrightarrow> map_of (platformBindings S) (platformType p) = Some n)) pre (batches S)"
    using assms(1) by (simp_all add: binding_inv_def)
  have same: "map_of (platformBindings S') t = map_of (platformBindings S) t" if "map_of (platformBindings S) t \<noteq> None" for t
    using S'(2,3) that by (auto simp: doCache_def map_of_put keys_map_of)
  have "\<forall>t n. map_of (platformBindings S') t = Some n \<longrightarrow> (\<exists>p. (n, p) \<in> set ps \<and> platformType p = t)"
    using inv(1) assms(3) S'(3) by (auto simp: map_of_put)
  moreover have "map_of (platformBindings S') (platformType p) \<noteq> None"
    using S'(2,3) by (auto simp: doCache_def map_of_put keys_map_of)
  moreover have "binds cs \<longleftrightarrow> map_of (platformBindings S') (platformType p) = Some name"
    using S'(2,3) by (auto simp: doCache_def map_of_put keys_map_of)
  moreover have "list_all2 (\<lambda>(n, p) (n', cs). n' = n \<and> (binds cs \<longleftrightarrow> map_of (platformBindings S') (platformType p) = Some n)) pre (batches S)"
    using inv(2,3) same by (fastforce simp: list_all2_iff dest: set_zip_leftD)
  ultimately show ?thesis using inv(2) same by (auto simp: binding_inv_def S'(1) list_all2_appendI)
qed

lemma uid_step:
  assumes "uid_inv B hier S" and "graph_platform B ps a hier dicts rrrs S (name, p) = Inr S'"
  shows "uid_inv B hier S'"
proof -
  obtain cs q where S': "batches S' = batches S @ [(name, cs)]"
    "SetParameter q ''MODULE_UID_OFFSET'' (num (MODULE_UID_OFFSET S)) \<in> set cs"
    "MODULE_UID_OFFSET S' = MODULE_UID_OFFSET S + module_count B hier (name, cs)"
    using graph_platform_Inr [OF assms(2)] by blast
  then show ?thesis
    using assms(1) by (auto simp: uid_inv_def uid_base_def nth_append less_Suc_eq)
qed

lemma graph_platforms_inv:
  "foldR (graph_platform B ps a hier dicts rrrs) S0 pre = Inr S \<Longrightarrow> set pre \<subseteq> set ps \<Longrightarrow> binding_inv ps [] S0 \<Longrightarrow>
     uid_inv B hier S0 \<Longrightarrow> binding_inv ps pre S \<and> uid_inv B hier S"
proof (induction pre arbitrary: S rule: rev_induct)
  case (snoc x pre)
  obtain name p where x: "x = (name, p)" by (cases x)
  obtain S1 where S1: "foldR (graph_platform B ps a hier dicts rrrs) S0 pre = Inr S1"
    "graph_platform B ps a hier dicts rrrs S1 (name, p) = Inr S"
    using snoc.prems(1) by (auto simp: foldR_append res_simps x)
  then show ?case
    using snoc.IH [OF S1(1)] snoc.prems(2-4) binding_step [OF _ S1(2)] uid_step [OF _ S1(2)] by (auto simp: x)
qed simp

lemma master_bindings_types: "map_of (master_bindings ps) t = Some n \<Longrightarrow> \<exists>p. (n, p) \<in> set ps \<and> platformType p = t"
  unfolding master_bindings_def
  by (induction ps arbitrary: n rule: rev_induct) (fastforce simp: map_of_put split: if_splits)+

lemma GenerateLIMGraph_state:
  assumes "GenerateLIMGraph B ps w = Inr r"
  shows "binding_inv ps ps (gr_state r) \<and> uid_inv B (platform_hierarchy B ps) (gr_state r)"
proof -
  obtain S0 S where S0: "graph_start B ps w = Inr S0"
    and S: "foldR (graph_platform B ps (application_path B) (platform_hierarchy B ps) (graph_dicts B ps) (graph_rrrs B ps)) S0 ps = Inr S"
    and r: "batches (gr_state r) = batches S" "platformBindings (gr_state r) = platformBindings S"
      "MODULE_UID_OFFSET (gr_state r) = MODULE_UID_OFFSET S"
    using assms by (auto simp: GenerateLIMGraph_def Let_def res_simps)
  have "binding_inv ps [] S0"
    using S0 master_bindings_types by (auto simp: binding_inv_def graph_start_def Let_def res_simps split: prod.splits)
  moreover have "uid_inv B (platform_hierarchy B ps) S0"
    using S0 by (auto simp: uid_inv_def uid_base_def graph_start_def Let_def res_simps split: prod.splits)
  ultimately show ?thesis
    using graph_platforms_inv [OF S(1)] r by (simp add: binding_inv_def uid_inv_def)
qed

abbreviation named_batch :: "'w graph_state \<Rightarrow> string \<times> platform \<Rightarrow> string \<times> awb_command list \<Rightarrow> bool" where
  "named_batch S \<equiv> (\<lambda>(n, p) (n', cs). n' = n \<and> (binds cs \<longleftrightarrow> map_of (platformBindings S) (platformType p) = Some n))"

lemma named_batches_names: "list_all2 (named_batch S) ps bs \<Longrightarrow> map fst bs = keys ps"
  by (induction ps bs rule: list_all2_induct) (auto simp: keys_def)

lemma named_batches_binds:
  assumes "list_all2 (named_batch S) ps bs" and "distinct (keys ps)" and "(n, p) \<in> set ps" and "(n, cs) \<in> set bs"
  shows "binds cs \<longleftrightarrow> map_of (platformBindings S) (platformType p) = Some n"
proof -
  obtain x where x: "x \<in> set ps" "named_batch S x (n, cs)"
    using assms(1,4) by (induction ps bs rule: list_all2_induct) auto
  have "(n, snd x) \<in> set ps" using x by (cases x) auto
  then have "snd x = p" using assms(2,3) by (metis eq_key_imp_eq_value keys_def)
  with x(2) show ?thesis by (cases x) auto
qed

text \<open>
  C12: the first pass builds the user program exactly once per type of platform: for every type there is
  one platform of that type, and only one, whose configuration replaces the application.
\<close>

theorem application_bound_once:
  assumes "GenerateLIMGraph B ps w = Inr r" and "distinct (keys ps)" and "(n0, p0) \<in> set ps"
  shows "\<exists>!n. \<exists>p cs. (n, p) \<in> set ps \<and> platformType p = platformType p0 \<and> (n, cs) \<in> set (batches (gr_state r)) \<and> binds cs"
proof -
  let ?b = "map_of (platformBindings (gr_state r)) (platformType p0)"
  have inv: "\<forall>t n. map_of (platformBindings (gr_state r)) t = Some n \<longrightarrow> (\<exists>p. (n, p) \<in> set ps \<and> platformType p = t)"
      "\<forall>(n, p) \<in> set ps. map_of (platformBindings (gr_state r)) (platformType p) \<noteq> None"
      "list_all2 (named_batch (gr_state r)) ps (batches (gr_state r))"
    using GenerateLIMGraph_state [OF assms(1)] by (simp_all add: binding_inv_def)
  note binds = named_batches_binds [OF inv(3) assms(2)]
  obtain n where n: "?b = Some n" using inv(2) assms(3) by fastforce
  obtain p where p: "(n, p) \<in> set ps" "platformType p = platformType p0" using inv(1) n by blast
  have "n \<in> set (map fst (batches (gr_state r)))"
    using p(1) unfolding named_batches_names [OF inv(3)] by (force simp: keys_def)
  then obtain cs where cs: "(n, cs) \<in> set (batches (gr_state r))" by auto
  then have "binds cs" using binds [OF p(1) cs] p(2) n by simp
  moreover have "n' = n" if "(n', p') \<in> set ps" "platformType p' = platformType p0" "(n', cs') \<in> set (batches (gr_state r))" "binds cs'"
    for n' p' cs' using binds [OF that(1,3)] that(2,4) n by simp
  ultimately show ?thesis using p cs by blast
qed

text \<open>
  the modules of the platforms are numbered from disjoint ranges: the offset in the configuration of a
  platform is the number of modules of all platforms before it, with those of the user program for
  the platforms it is built for, and the offset that is passed on to the second pass lies above all of them.
\<close>

theorem module_uids_disjoint:
  assumes "GenerateLIMGraph B ps w = Inr r" and "bs = batches (gr_state r)" and "hier = platform_hierarchy B ps"
  shows "map fst bs = keys ps \<and>
    (\<forall>i < length bs. \<exists>q. SetParameter q ''MODULE_UID_OFFSET'' (num (uid_base B hier bs i)) \<in> set (snd (bs ! i)) \<and>
       uid_base B hier bs i + module_count B hier (bs ! i) \<le> MODULE_UID_OFFSET (gr_state r) \<and>
       (\<forall>j < i. uid_base B hier bs j + module_count B hier (bs ! j) \<le> uid_base B hier bs i))"
proof -
  have inv: "list_all2 (named_batch (gr_state r)) ps bs"
    "MODULE_UID_OFFSET (gr_state r) = uid_base B hier bs (length bs)"
    "\<forall>i < length bs. \<exists>q. SetParameter q ''MODULE_UID_OFFSET'' (num (uid_base B hier bs i)) \<in> set (snd (bs ! i))"
    using GenerateLIMGraph_state [OF assms(1)] by (simp_all add: binding_inv_def uid_inv_def assms(2,3))
  have "map fst bs = keys ps"
    by (rule named_batches_names [OF inv(1)])
  moreover have "uid_base B hier bs j + module_count B hier (bs ! j) \<le> uid_base B hier bs i" if "j < i" "i \<le> length bs" for i j
  proof -
    have "take i bs = take (Suc j) bs @ drop (Suc j) (take i bs)"
      using append_take_drop_id [of "Suc j" "take i bs"] that by (simp add: min_def)
    then have "map (module_count B hier) (take i bs) =
        map (module_count B hier) (take (Suc j) bs) @ map (module_count B hier) (drop (Suc j) (take i bs))"
      by (metis map_append)
    then have "uid_base B hier bs (Suc j) \<le> uid_base B hier bs i" by (simp add: uid_base_def)
    then show ?thesis using that by (simp add: uid_base_def take_Suc_conv_app_nth)
  qed
  ultimately show ?thesis using inv(2,3) by auto
qed

section \<open>Dictionaries\<close>

text \<open>The links of a platform after its step.\<close>

definition context_linked ::
  "'w build_env \<Rightarrow> build_hierarchy \<Rightarrow> (string \<times> string) list \<Rightarrow> (string \<times> string) list \<Rightarrow> string \<Rightarrow> 'w \<Rightarrow> bool" where
  "context_linked B h dicts rrrs buildDir w \<longleftrightarrow>
     (\<forall>d \<in> set (keys dicts). d \<in> set (bh_dicts h) \<or> os_lexists (be_os B) (dict_dir buildDir @ ''/'' @ d) w) \<and>
     (\<forall>d \<in> set (keys rrrs). d \<in> set (bh_rrrs h) \<or> os_lexists (be_os B) (rrr_dir buildDir @ ''/'' @ d) w)"

abbreviation log_dir :: "'w build_env \<Rightarrow> string \<Rightarrow> string" where
  "log_dir B name \<equiv> makePlatformLogBuildDir name (DEFS B ''APM_NAME'')"

lemma open_batch_keeps: "keeps_files os \<Longrightarrow> open_batch os b f w = Inr w' \<Longrightarrow> keeps os w w'"
  by (auto simp: open_batch_def keeps_filesD split: if_splits)

lemma write_router_keeps: "keeps_files os \<Longrightarrow> write_router os r w = Inr w' \<Longrightarrow> keeps os w w'"
  by (auto simp: write_router_def keeps_filesD split: option.splits)

lemma configure_tree_keeps:
  assumes "keeps_files os" and "configure_tree os b f t d w = Inr w'"
  shows "keeps os w w'"
proof (cases b)
  case True
  then obtain w1 w2 where "os_write os f t w = Inr w1" "os_makedirs os d w1 = Inr w2" "awb_shell os f w2 = Inr w'"
    using assms(2) by (auto simp: configure_tree_def bindR_eq_Inr)
  then show ?thesis using keeps_filesD(3-5) [OF assms(1)] by (meson keeps_trans)
qed (use assms(2) in \<open>simp add: configure_tree_def\<close>)

lemma prepare_model_keeps:
  assumes "keeps_files (be_os B)" and "prepare_model B p path w = Inr w'"
  shows "keeps (be_os B) w w'"
proof -
  let ?os = "be_os B"
  obtain dir w1 lnk w2 w3 t where w: "makePlatformConfigPath ?os [] w = Inr (dir, w1)"
      "makePlatformConfigPath ?os (getAPMName p) w1 = Inr (lnk, w2)"
      "(if os_exists ?os lnk w2 then Inr w2 else os_symlink ?os t lnk w2) = Inr w3"
      "(if os_isfile ?os path w3 then Inr w3 else run_tool ?os (''asim-shell --batch cp '' @ pl_path p @ '' '' @ path) w3) = Inr w'"
    using assms(2) unfolding prepare_model_def Let_def bindR_eq_Inr split_def by (metis prod.collapse)
  have "keeps ?os w w1" "keeps ?os w1 w2" using config_path_keeps [OF assms(1)] w(1,2) by blast+
  moreover have "keeps ?os w2 w3" using w(3) keeps_filesD(2) [OF assms(1)] by (auto split: if_splits)
  moreover have "keeps ?os w3 w'" using w(4) keeps_filesD(6) [OF assms(1)] by (auto split: if_splits)
  ultimately show ?thesis by (meson keeps_trans)
qed

lemma context_linked_keeps:
  "context_linked B h dicts rrrs dir w \<Longrightarrow> keeps (be_os B) w w' \<Longrightarrow> context_linked B h dicts rrrs dir w'"
  unfolding context_linked_def keeps_def by blast

lemma graph_platform_links:
  assumes "keeps_files (be_os B)" and "graph_platform B ps a hier dicts rrrs S (pl_name p, p) = Inr S'"
  shows "context_linked B (hier (pl_name p)) dicts rrrs (log_dir B (pl_name p)) (gs_world S')" and "keeps (be_os B) (gs_world S) (gs_world S')"
proof -
  let ?os = "be_os B" and ?dir = "log_dir B (pl_name p)" and ?batch = "''config/'' @ pl_name p @ ''.logs.batch''"
  obtain q w1 w2 w3 cs w4 w5 where
    w: "makePlatformConfigPath ?os (makePlatformLogName (pl_name p) (DEFS B ''APM_NAME'') @ ''.apm'') (gs_world S) = Inr (q, w1)"
      "open_batch ?os (\<not> os_isdir ?os ?dir w1) ?batch w1 = Inr w2" "prepare_model B p q w2 = Inr w3"
      "configure_tree ?os (\<not> os_isdir ?os ?dir w1) ?batch (text_for awb_line cs) ?dir w3 = Inr w4"
      "link_missing ?os ?dir (hier (pl_name p)) dicts rrrs w4 = Inr w5" "write_router ?os (router_file B ?dir p) w5 = Inr (gs_world S')"
    using assms(2) unfolding graph_platform_def Let_def prod.case by (auto simp: bindR_eq_Inr split: prod.splits)
  have "keeps ?os (gs_world S) w4"
    using config_path_keeps [OF assms(1) w(1)] open_batch_keeps [OF assms(1) w(2)] prepare_model_keeps [OF assms(1) w(3)]
      configure_tree_keeps [OF assms(1) w(4)] by (meson keeps_trans)
  moreover have last: "keeps ?os w5 (gs_world S')" by (rule write_router_keeps [OF assms(1) w(6)])
  ultimately show "keeps ?os (gs_world S) (gs_world S')"
    using link_missing_links(3) [OF assms(1) w(5)] by (meson keeps_trans)
  have "context_linked B (hier (pl_name p)) dicts rrrs ?dir w5"
    using link_missing_links(1,2) [OF assms(1) w(5)] unfolding context_linked_def by blast
  then show "context_linked B (hier (pl_name p)) dicts rrrs ?dir (gs_world S')"
    by (rule context_linked_keeps [OF _ last])
qed

lemma graph_platforms_links:
  assumes "keeps_files (be_os B)" and "foldR (graph_platform B ps a hier dicts rrrs) S0 pre = Inr S" and "\<forall>(n, p) \<in> set pre. pl_name p = n"
  shows "\<forall>(n, p) \<in> set pre. context_linked B (hier n) dicts rrrs (log_dir B n) (gs_world S)"
  using assms(2,3)
proof (induction pre arbitrary: S rule: rev_induct)
  case (snoc x pre)
  obtain name p where x: "x = (name, p)" "pl_name p = name" using snoc.prems(2) by (cases x) auto
  obtain S1 where S1: "foldR (graph_platform B ps a hier dicts rrrs) S0 pre = Inr S1" "graph_platform B ps a hier dicts rrrs S1 (pl_name p, p) = Inr S"
    using snoc.prems(1) by (auto simp: foldR_append bindR_eq_Inr x)
  have "context_linked B (hier n) dicts rrrs (log_dir B n) (gs_world S)" if "(n, p') \<in> set pre" for n p'
    using snoc.IH [OF S1(1)] snoc.prems(2) that context_linked_keeps graph_platform_links(2) [OF assms(1) S1(2)] by fastforce
  then show ?case using graph_platform_links(1) [OF assms(1) S1(2)] x by auto
qed simp

lemma missing_table_keys:
  "set (keys (missing_table dirOf namesOf userDir user ps)) = (\<Union>(n, p) \<in> set ps. set (namesOf n)) \<union> set user"
proof -
  have "set (keys (foldl (\<lambda>m (name, p). add_missing (dirOf (pl_name p)) m (namesOf name)) m ps)) = set (keys m) \<union> (\<Union>(n, p) \<in> set ps. set (namesOf n))" for m
    by (induction ps arbitrary: m) (auto simp: keys_add_missing)
  then show ?thesis by (simp add: missing_table_def keys_add_missing) (simp add: keys_def)
qed

lemma platform_ids_total: "n \<in> set (keys ps) \<Longrightarrow> \<exists>k. getSynthesisBoundaryPlatformID ps n = Inr k"
  unfolding getSynthesisBoundaryPlatformID_def Let_def by (rule index_of_total) (force simp: keys_def)

text \<open>The comparison at the end of the pass, as conditions on the files.\<close>

definition present :: "'w os_ops \<Rightarrow> 'w \<Rightarrow> string \<Rightarrow> bool" where
  "present os w f \<longleftrightarrow> (\<exists>s. os_stat os (os_abspath os f) w = Inr s)"

definition differs :: "'w os_ops \<Rightarrow> 'w \<Rightarrow> string \<Rightarrow> (string \<times> string) list \<Rightarrow> string \<Rightarrow> bool" where
  "differs os w dir m d \<longleftrightarrow> os_stat os (os_abspath os (dir @ ''/'' @ d)) w \<noteq> os_stat os (os_abspath os (the (map_of m d))) w"

definition entry_present :: "'w os_ops \<Rightarrow> 'w \<Rightarrow> string \<Rightarrow> (string \<times> string) list \<Rightarrow> string \<Rightarrow> bool" where
  "entry_present os w dir m d \<longleftrightarrow> present os w (dir @ ''/'' @ d) \<and> present os w (the (map_of m d))"

lemma check_entry_Inr:
  assumes "d \<in> set (keys m)"
  shows "check_entry os w dir m n ws d = Inr ws' \<longleftrightarrow>
    entry_present os w dir m d \<and> ws' = ws @ (if differs os w dir m d then [(d, n)] else [])"
proof -
  obtain path where "map_of m d = Some path" using assms by (auto simp: keys_map_of)
  then show ?thesis by (auto simp: check_entry_def entry_present_def present_def differs_def get_key_def bindR_eq_Inr)
qed

lemma check_entries_Inr:
  assumes "set ds \<subseteq> set (keys m)"
  shows "foldR (check_entry os w dir m n) ws ds = Inr ws' \<longleftrightarrow>
    (\<forall>d \<in> set ds. entry_present os w dir m d) \<and> ws' = ws @ map (\<lambda>d. (d, n)) (filter (differs os w dir m) ds)"
proof -
  have "concat (map (\<lambda>d. if differs os w dir m d then [(d, n)] else []) ds) = map (\<lambda>d. (d, n)) (filter (differs os w dir m) ds)"
    by (induction ds) auto
  moreover have "check_entry os w dir m n us d = Inr us' \<longleftrightarrow>
      entry_present os w dir m d \<and> us' = us @ (if differs os w dir m d then [(d, n)] else [])" if "d \<in> set ds" for us us' d
    by (rule check_entry_Inr) (use assms that in auto)
  then have "foldR (check_entry os w dir m n) ws ds = Inr ws' \<longleftrightarrow>
      (\<forall>d \<in> set ds. entry_present os w dir m d) \<and> ws' = ws @ concat (map (\<lambda>d. if differs os w dir m d then [(d, n)] else []) ds)"
    by (rule foldR_checked)
  ultimately show ?thesis by simp
qed

text \<open>What a platform must have, and the warnings about it.\<close>

definition context_present ::
  "'w build_env \<Rightarrow> build_hierarchy \<Rightarrow> (string \<times> string) list \<Rightarrow> (string \<times> string) list \<Rightarrow> string \<Rightarrow> 'w \<Rightarrow> bool" where
  "context_present B h dicts rrrs buildDir w \<longleftrightarrow>
     (\<forall>d \<in> set (bh_dicts h). entry_present (be_os B) w (dict_dir buildDir) dicts d) \<and>
     (\<forall>d \<in> set (bh_rrrs h). entry_present (be_os B) w (rrr_dir buildDir) rrrs d)"

definition context_warnings ::
  "'w build_env \<Rightarrow> build_hierarchy \<Rightarrow> (string \<times> string) list \<Rightarrow> (string \<times> string) list \<Rightarrow> string \<Rightarrow> 'w \<Rightarrow> string list" where
  "context_warnings B h dicts rrrs buildDir w =
     filter (differs (be_os B) w (dict_dir buildDir) dicts) (bh_dicts h) @ filter (differs (be_os B) w (rrr_dir buildDir) rrrs) (bh_rrrs h)"

lemma check_platforms_Inr:
  assumes "\<forall>(n, p) \<in> set ps. set (bh_dicts (hier n)) \<subseteq> set (keys dicts) \<and> set (bh_rrrs (hier n)) \<subseteq> set (keys rrrs)"
  shows "foldR (check_platform B hier dicts rrrs w) [] ps = Inr ws \<longleftrightarrow>
    (\<forall>(n, p) \<in> set ps. context_present B (hier n) dicts rrrs (log_dir B n) w) \<and>
    ws = concat (map (\<lambda>(n, p). map (\<lambda>d. (d, n)) (context_warnings B (hier n) dicts rrrs (log_dir B n) w)) ps)"
proof -
  have "check_platform B hier dicts rrrs w us (n, p) = Inr us' \<longleftrightarrow> context_present B (hier n) dicts rrrs (log_dir B n) w \<and>
      us' = us @ map (\<lambda>d. (d, n)) (context_warnings B (hier n) dicts rrrs (log_dir B n) w)" if "(n, p) \<in> set ps" for us us' n p
    using bspec [OF assms that]
    by (auto simp: check_platform_def Let_def bindR_eq_Inr check_entries_Inr context_present_def context_warnings_def)
  then have "foldR (check_platform B hier dicts rrrs w) [] ps = Inr ws \<longleftrightarrow>
      (\<forall>x \<in> set ps. case x of (n, p) \<Rightarrow> context_present B (hier n) dicts rrrs (log_dir B n) w) \<and>
      ws = [] @ concat (map (\<lambda>(n, p). map (\<lambda>d. (d, n)) (context_warnings B (hier n) dicts rrrs (log_dir B n) w)) ps)"
    by (intro foldR_checked) (auto split: prod.splits)
  then show ?thesis by simp
qed

lemma graph_tables_complete:
  "set (keys (graph_dicts B ps)) = (\<Union>(n, p) \<in> set ps. set (bh_dicts (platform_hierarchy B ps n))) \<union> set (bh_dicts (top_hierarchy B))"
  "set (keys (graph_rrrs B ps)) = (\<Union>(n, p) \<in> set ps. set (bh_rrrs (platform_hierarchy B ps n))) \<union> set (bh_rrrs (top_hierarchy B))"
  by (auto simp: graph_dicts_def graph_rrrs_def missing_table_keys)

text \<open>The errors of the pass.\<close>

definition pass_error :: "'w build_env \<Rightarrow> (string \<times> platform) list \<Rightarrow> py_error \<Rightarrow> bool" where
  "pass_error B ps e \<longleftrightarrow>
     os_error (be_os B) e \<or> e = ValueError \<and> (\<exists>(n, p) \<in> set ps. strip (awb_resolver B (pl_path p)) = [])"

lemma pass_error_os: "only_os (be_os B) m \<Longrightarrow> fails_with (pass_error B ps) m"
  by (auto simp: fails_with_def pass_error_def)

lemmas pass_calls =
  only_os_calls [THEN pass_error_os] only_os_tools [THEN pass_error_os] only_os_config_path [THEN pass_error_os]
  only_os_params [THEN pass_error_os] only_os_links [THEN pass_error_os]

lemma prepare_model_fails: "(n, p) \<in> set ps \<Longrightarrow> fails_with (pass_error B ps) (prepare_model B p q w)"
  unfolding prepare_model_def Let_def
  by (auto intro!: fails_with_bindR fails_with_raise_if pass_calls split: prod.split) (auto simp: pass_error_def)

lemma graph_platform_fails:
  assumes "(n, p) \<in> set ps" and "pl_name p = n"
  shows "fails_with (pass_error B ps) (graph_platform B ps a hier dicts rrrs S (n, p))"
proof -
  obtain k where "getSynthesisBoundaryPlatformID ps (pl_name p) = Inr k"
    using platform_ids_total [of n ps] assms by (force simp: keys_def)
  then have "fails_with (pass_error B ps) (graph_commands B ps a q d p b u dicts rrrs h)" for q d b u h
    by (simp add: graph_commands_def Let_def)
  moreover have "fails_with (pass_error B ps) (open_batch (be_os B) b f w)"
      "fails_with (pass_error B ps) (configure_tree (be_os B) b f t d w)" "fails_with (pass_error B ps) (write_router (be_os B) r w)" for b f w t d r
    by (auto simp: open_batch_def configure_tree_def write_router_def intro!: fails_with_bindR pass_calls split: option.splits)
  ultimately show ?thesis
    unfolding graph_platform_def Let_def prod.case
    by (auto intro!: fails_with_bindR prepare_model_fails [OF assms(1)] pass_calls split: prod.split)
qed

lemma check_platforms_fail:
  assumes "\<forall>(n, p) \<in> set ps. set (bh_dicts (hier n)) \<subseteq> set (keys dicts) \<and> set (bh_rrrs (hier n)) \<subseteq> set (keys rrrs)"
  shows "only_os (be_os B) (foldR (check_platform B hier dicts rrrs w) ws ps)"
proof (rule fails_with_foldR)
  fix ws x assume x: "x \<in> set ps"
  have entry: "only_os os (check_entry os w dir m n us d)" if "d \<in> set (keys m)" for os dir m n us d
    using that by (auto simp: check_entry_def get_key_def keys_map_of intro!: fails_with_bindR only_os_calls)
  show "only_os (be_os B) (check_platform B hier dicts rrrs w ws x)"
    using bspec [OF assms x]
    by (cases x) (auto simp: check_platform_def Let_def intro!: fails_with_bindR fails_with_foldR entry)
qed

lemma own_names_collected:
  "\<forall>(n, p) \<in> set ps. set (bh_dicts (platform_hierarchy B ps n)) \<subseteq> set (keys (graph_dicts B ps)) \<and>
     set (bh_rrrs (platform_hierarchy B ps n)) \<subseteq> set (keys (graph_rrrs B ps))"
  unfolding graph_tables_complete by auto

lemma GenerateLIMGraph_fails:
  assumes "\<forall>(n, p) \<in> set ps. pl_name p = n"
  shows "fails_with (pass_error B ps) (GenerateLIMGraph B ps w)"
proof -
  have "only_os (be_os B) (graph_start B ps w)"
    by (auto simp: graph_start_def remove_stale_def Let_def intro!: fails_with_bindR only_os_calls only_os_config_path only_os_submodels
        split: prod.split)
  moreover have "fails_with (pass_error B ps) (foldR (graph_platform B ps a hier dicts rrrs) S ps)" for a hier dicts rrrs S
    using assms by (intro fails_with_foldR) (auto intro!: graph_platform_fails)
  ultimately show ?thesis
    unfolding GenerateLIMGraph_def Let_def
    by (intro fails_with_bindR fails_with_Inr) (auto intro!: pass_calls pass_error_os [OF check_platforms_fail] own_names_collected intro: pass_error_os)
qed

text \<open>
  C10: after the first pass every platform sees all dictionaries and all RRRs of the system: those of its own
  model, which are in its build tree together with the files they are compared with, and for every other one
  a link.  The warnings name exactly the files that differ from the collected one of the same name.  The pass
  ends otherwise only with an error that the operating system raises at one of its operations (a file that is
  not there, for one), or because a model is not resolved to a path; so it returns where neither happens.
\<close>

theorem GenerateLIMGraph_context:
  assumes "keeps_files (be_os B)" and "\<forall>(n, p) \<in> set ps. pl_name p = n" and "hier = platform_hierarchy B ps"
  shows "case GenerateLIMGraph B ps w of
      Inl e \<Rightarrow> os_error (be_os B) e \<or> e = ValueError \<and> (\<exists>(n, p) \<in> set ps. strip (awb_resolver B (pl_path p)) = [])
    | Inr r \<Rightarrow>
        set (keys (MISSING_DICTS r)) = (\<Union>(n, p) \<in> set ps. set (bh_dicts (hier n))) \<union> set (bh_dicts (top_hierarchy B)) \<and>
        set (keys (MISSING_RRRS r)) = (\<Union>(n, p) \<in> set ps. set (bh_rrrs (hier n))) \<union> set (bh_rrrs (top_hierarchy B)) \<and>
        (\<forall>(n, p) \<in> set ps.
           context_linked B (hier n) (MISSING_DICTS r) (MISSING_RRRS r) (log_dir B n) (gs_world (gr_state r)) \<and>
           context_present B (hier n) (MISSING_DICTS r) (MISSING_RRRS r) (log_dir B n) (gs_world (gr_state r))) \<and>
        mismatched r = concat (map (\<lambda>(n, p). map (\<lambda>d. (d, n))
          (context_warnings B (hier n) (MISSING_DICTS r) (MISSING_RRRS r) (log_dir B n) (gs_world (gr_state r)))) ps)"
proof (cases "GenerateLIMGraph B ps w")
  case (Inl e)
  then show ?thesis using GenerateLIMGraph_fails [OF assms(2), of B w] by (simp add: fails_with_def pass_error_def)
next
  case (Inr r)
  let ?dicts = "graph_dicts B ps" and ?rrrs = "graph_rrrs B ps"
  obtain S0 S params where S: "foldR (graph_platform B ps (application_path B) hier ?dicts ?rrrs) S0 ps = Inr S"
      "writeDynamicParameters (be_os B) ps (log_dir B) params (gs_world S) = Inr (gs_world (gr_state r))"
      "foldR (check_platform B hier ?dicts ?rrrs (gs_world (gr_state r))) [] ps = Inr (mismatched r)"
      "MISSING_DICTS r = ?dicts" "MISSING_RRRS r = ?rrrs"
    using Inr unfolding GenerateLIMGraph_def Let_def assms(3) by (auto simp: bindR_eq_Inr)
  have "\<forall>(n, p) \<in> set ps. context_linked B (hier n) ?dicts ?rrrs (log_dir B n) (gs_world (gr_state r))"
    using graph_platforms_links [OF assms(1) S(1) assms(2)] context_linked_keeps [OF _ writes_keep [OF assms(1) S(2)]] by fastforce
  moreover note check_platforms_Inr [THEN iffD1, OF _ S(3)] own_names_collected [of ps B]
  ultimately show ?thesis
    unfolding Inr sum.case S(4,5) graph_tables_complete assms(3) by auto
qed

section \<open>A small system\<close>

text \<open>Two boards of one type, a master and a board of another, over a file system that is a list of paths.\<close>

definition sample_os :: "string list os_ops" where
  "sample_os =
     \<lparr>os_cwd = ''/w'', os_isdir = \<lambda>p w. p \<in> set w, os_isfile = \<lambda>p w. p \<in> set w, os_exists = \<lambda>p w. p \<in> set w,
      os_lexists = \<lambda>p w. p \<in> set w, os_getmtime = \<lambda>f w. Inr 0, os_stat = \<lambda>f w. Inr [int (length f)],
      os_abspath = \<lambda>p. p, os_realpath = \<lambda>p w. p,
      os_relpath = \<lambda>p d. p, os_size = \<lambda>f w. None, os_read = \<lambda>f w. Inr [''P 1'' @ nl], os_write = \<lambda>f s w. Inr (f # w),
      os_makedirs = \<lambda>f w. Inr (f # w), os_rmtree = \<lambda>f w. Inr [], os_symlink = \<lambda>t l w. Inr (l # w), os_run = \<lambda>c w. Inr (0, w)\<rparr>"

definition sample_build :: "string list build_env" where
  "sample_build =
     \<lparr>be_os = sample_os,
      pythonize = \<lambda>path. \<lparr>bh_dicts = [path @ ''.dic''], bh_rrrs = [path @ ''.rrr''], bh_boundaries = 3\<rparr>,
      awb_resolver = \<lambda>path. path, top_hierarchy = \<lparr>bh_dicts = [''user.dic''], bh_rrrs = [], bh_boundaries = 5\<rparr>,
      DEFS = \<lambda>d. d, awb_param = \<lambda>m p. p, awb_num = \<lambda>m p. 0, awb_flag = \<lambda>m p. False, build_arguments = []\<rparr>"

definition sample_platforms :: "(string \<times> platform) list" where
  "sample_platforms =
     [(''A'', mk_platform ''FPGA'' ''A'' False ''a'' []), (''B'', mk_platform ''FPGA'' ''B'' True ''b'' []),
      (''S'', mk_platform ''BLUESIM'' ''S'' False ''s'' [])]"

lemma sample_system:
  "keeps_files (be_os sample_build)" "\<not> pass_error sample_build sample_platforms e"
  "\<forall>(n, p) \<in> set sample_platforms. pl_name p = n" "distinct (keys sample_platforms)"
  by (auto simp: sample_build_def sample_os_def keeps_files_def keeps_def pass_error_def os_error_def sample_platforms_def mk_platform_def
      keys_def strip_def is_space_def)

lemma sample_pass: "\<exists>r. GenerateLIMGraph sample_build sample_platforms [] = Inr r"
  using GenerateLIMGraph_fails [OF sample_system(3), of sample_build "[]"] sample_system(2)
  by (cases "GenerateLIMGraph sample_build sample_platforms []") (auto simp: fails_with_def)

lemma GenerateLIMGraph_context_witness:
  "\<exists>r. GenerateLIMGraph sample_build sample_platforms [] = Inr r \<and>
    set (keys (MISSING_DICTS r)) =
      (\<Union>(n, p) \<in> set sample_platforms. set (bh_dicts (platform_hierarchy sample_build sample_platforms n))) \<union>
      set (bh_dicts (top_hierarchy sample_build)) \<and>
    (\<forall>(n, p) \<in> set sample_platforms. context_linked sample_build (platform_hierarchy sample_build sample_platforms n)
       (MISSING_DICTS r) (MISSING_RRRS r) (log_dir sample_build n) (gs_world (gr_state r)))"
proof -
  obtain r where r: "GenerateLIMGraph sample_build sample_platforms [] = Inr r" using sample_pass by blast
  then show ?thesis
    using GenerateLIMGraph_context [OF sample_system(1,3) refl, of "[]"] by auto
qed

lemma application_bound_once_witness:
  "\<exists>r. GenerateLIMGraph sample_build sample_platforms [] = Inr r \<and>
    (\<exists>!n. \<exists>p cs. (n, p) \<in> set sample_platforms \<and> platformType p = ''FPGA'' \<and> (n, cs) \<in> set (batches (gr_state r)) \<and> binds cs)"
proof -
  obtain r where r: "GenerateLIMGraph sample_build sample_platforms [] = Inr r"
    using sample_pass by blast
  have p: "(''A'', mk_platform ''FPGA'' ''A'' False ''a'' []) \<in> set sample_platforms" by (simp add: sample_platforms_def)
  have "platformType (mk_platform ''FPGA'' ''A'' False ''a'' []) = ''FPGA''" by (simp add: mk_platform_def)
  then show ?thesis using r application_bound_once [OF r sample_system(4) p] by auto
qed

lemma module_uids_disjoint_witness:
  "\<exists>r. GenerateLIMGraph sample_build sample_platforms [] = Inr r \<and> map fst (batches (gr_state r)) = [''A'', ''B'', ''S'']"
proof -
  obtain r where r: "GenerateLIMGraph sample_build sample_platforms [] = Inr r"
    using sample_pass by blast
  then show ?thesis using module_uids_disjoint [OF r refl refl] by (simp add: sample_platforms_def keys_def)
qed

end
