(* ===== verification/ModuleGraphs.thy ===== *)
theory ModuleGraphs
  imports LimGraph LimConnect
begin

text \<open>
  \<open>parseModuleGraph\<close> of \<^verbatim>\<open>lim_connect/LIMConnect.py\<close>: the graphs that the builds of the first pass have pickled
  are read and merged to the graph of the program.  Graphs belong to the \<open>li_module\<close> package, which is not
  part of this repository: they are a type parameter \<open>'g\<close>, and their operations are the fields of a record.
  The lemmas show that what is opened is what the first pass builds.
\<close>

section \<open>Reading and merging\<close>

record 'g graph_ops =
  g_merge :: "'g \<Rightarrow> 'g list \<Rightarrow> 'g"
  g_trimOptionalChannels :: "'g \<Rightarrow> 'g"
  g_checkUnmatchedChannels :: "'g \<Rightarrow> bool"

definition picklePath :: "'w build_env \<Rightarrow> string \<Rightarrow> string" where
  "picklePath B name =
     makePlatformLogBuildDir name (DEFS B ''APM_NAME'') @ ''/'' @ makePlatformLogName name (DEFS B ''APM_NAME'') @ ''.li''"

text \<open>
  \<open>unpickle\<close> opens a file and reads the graph in it.  The last graph is taken from the list (\<open>pop\<close>), and
  the others are merged into it.
\<close>

definition parseModuleGraph :: "'w build_env \<Rightarrow> 'g graph_ops \<Rightarrow> (string \<Rightarrow> 'g res) \<Rightarrow> fpga_env \<Rightarrow> 'g res" where
  "parseModuleGraph B ops unpickle env =
     bindR (mapR (\<lambda>name. unpickle (picklePath B name)) (getPlatformNames env)) (\<lambda>subordinateGraphs.
     bindR (raise_if (subordinateGraphs = []) IndexError) (\<lambda>_.
       let mergedGraph = g_trimOptionalChannels ops (g_merge ops (last subordinateGraphs) (butlast subordinateGraphs))
       in if g_checkUnmatchedChannels ops mergedGraph then Inl (SystemExit 1) else Inr mergedGraph))"

section \<open>What the first pass builds is what is read\<close>

lemma graph_platform_li:
  assumes "graph_platform B ps a hier dicts rrrs S (name, p) = Inr S'" and "pl_name p = name"
  shows "PLATFORM_LI S' = PLATFORM_LI S @ [picklePath B name]"
  using assms by (auto simp: graph_platform_def Let_def picklePath_def res_simps split: prod.splits)

lemma graph_platforms_li:
  "foldR (graph_platform B ps a hier dicts rrrs) S xs = Inr S' \<Longrightarrow> \<forall>(n, p) \<in> set xs. pl_name p = n \<Longrightarrow>
     PLATFORM_LI S' = PLATFORM_LI S @ map (picklePath B) (keys xs)"
proof (induction xs arbitrary: S)
  case Nil
  then show ?case by (simp add: keys_def)
next
  case (Cons x xs)
  obtain name p where x: "x = (name, p)" by (cases x)
  obtain S1 where S1: "graph_platform B ps a hier dicts rrrs S (name, p) = Inr S1" "foldR (graph_platform B ps a hier dicts rrrs) S1 xs = Inr S'"
    using Cons.prems(1) by (auto simp: x res_simps)
  have "PLATFORM_LI S1 = PLATFORM_LI S @ [picklePath B name]" using graph_platform_li [OF S1(1)] Cons.prems(2) x by simp
  then show ?case using Cons.IH [OF S1(2)] Cons.prems(2) by (simp add: x keys_def)
qed

lemma first_pass_li:
  assumes "GenerateLIMGraph B ps w = Inr r" and "\<forall>(n, p) \<in> set ps. pl_name p = n"
  shows "PLATFORM_LI (gr_state r) = map (picklePath B) (keys ps)"
proof -
  obtain S0 S where S: "foldR (graph_platform B ps (application_path B) (platform_hierarchy B ps) (graph_dicts B ps) (graph_rrrs B ps)) S0 ps = Inr S"
      "graph_start B ps w = Inr S0" "PLATFORM_LI (gr_state r) = PLATFORM_LI S"
    using assms by (auto simp: GenerateLIMGraph_def Let_def res_simps)
  have "PLATFORM_LI S0 = []" using S(2) by (auto simp: graph_start_def Let_def res_simps split: prod.splits)
  then show ?thesis using graph_platforms_li [OF S(1) assms(2)] S(3) by simp
qed

text \<open>
  What merging relies on: the modules of a merged graph are those of all its parts, and trimming removes
  channels only.
\<close>

locale graph_merging =
  fixes ops :: "'g graph_ops" and mods :: "'g \<Rightarrow> string set"
  assumes merge: "mods (g_merge ops g gs) = mods g \<union> (\<Union>h \<in> set gs. mods h)"
    and trim: "mods (g_trimOptionalChannels ops g) = mods g"
begin

lemma merged_mods:
  assumes "gs \<noteq> []"
  shows "mods (g_trimOptionalChannels ops (g_merge ops (last gs) (butlast gs))) = (\<Union>g \<in> set gs. mods g)"
proof -
  have "set gs = insert (last gs) (set (butlast gs))"
    using append_butlast_last_id [OF assms] by (metis Un_insert_right list.simps(15) set_append sup_bot_right list.set(1))
  then show ?thesis by (simp add: merge trim)
qed

end

text \<open>Graphs that are lists of modules.\<close>

definition name_ops :: "string list graph_ops" where
  "name_ops = \<lparr>g_merge = \<lambda>g gs. g @ concat gs, g_trimOptionalChannels = \<lambda>g. g, g_checkUnmatchedChannels = \<lambda>g. False\<rparr>"

interpretation name_graphs: graph_merging name_ops set
  by unfold_locales (auto simp: name_ops_def)

text \<open>
  C13: the two passes agree on the graphs.  When the builds of the first pass have left a graph in each of
  their targets, the second pass finds every one of them: either channels are unmatched and the build ends,
  or the program's graph has exactly the modules of all the graphs the first pass has built.
\<close>

theorem first_pass_graphs_merged:
  assumes "GenerateLIMGraph B ps w = Inr r" and "\<forall>(n, p) \<in> set ps. pl_name p = n" and "ps \<noteq> []"
    and "platforms env = ps" and "\<forall>f \<in> set (PLATFORM_LI (gr_state r)). unpickle f = Inr (built f)"
    and "graph_merging ops mods"
  shows "case parseModuleGraph B ops unpickle env of
      Inl e \<Rightarrow> e = SystemExit 1
    | Inr g \<Rightarrow> \<not> g_checkUnmatchedChannels ops g \<and> mods g = (\<Union>f \<in> set (PLATFORM_LI (gr_state r)). mods (built f))"
proof -
  let ?fs = "PLATFORM_LI (gr_state r)"
  have fs: "?fs = map (picklePath B) (getPlatformNames env)"
    using first_pass_li [OF assms(1,2)] assms(4) by (simp add: getPlatformNames_def)
  have "mapR (\<lambda>name. unpickle (picklePath B name)) (getPlatformNames env) = Inr (map (\<lambda>name. built (picklePath B name)) (getPlatformNames env))"
    using assms(5) by (intro mapR_Inr_map) (simp add: fs)
  then have read: "mapR (\<lambda>name. unpickle (picklePath B name)) (getPlatformNames env) = Inr (map built ?fs)"
    by (simp add: fs comp_def)
  have ne: "map built ?fs \<noteq> []" using fs assms(3,4) by (simp add: getPlatformNames_def keys_def)
  let ?m = "g_trimOptionalChannels ops (g_merge ops (last (map built ?fs)) (butlast (map built ?fs)))"
  have "mods ?m = (\<Union>f \<in> set ?fs. mods (built f))"
    using graph_merging.merged_mods [OF assms(6) ne] by simp
  then show ?thesis
    using ne by (simp add: parseModuleGraph_def read Let_def raise_if_def del: last_map map_butlast)
qed

lemma first_pass_graphs_merged_witness:
  "\<exists>r. GenerateLIMGraph sample_build sample_platforms [] = Inr r \<and>
    (case parseModuleGraph sample_build name_ops (\<lambda>f. Inr [f])
       \<lparr>platforms = sample_platforms, env_graph = [], transitTablesOutgoing = [], transitTablesIncoming = []\<rparr> of
       Inl e \<Rightarrow> e = SystemExit 1
     | Inr g \<Rightarrow> set g = set (PLATFORM_LI (gr_state r)))"
proof -
  let ?env = "\<lparr>platforms = sample_platforms, env_graph = [], transitTablesOutgoing = [], transitTablesIncoming = []\<rparr>"
  obtain r where r: "GenerateLIMGraph sample_build sample_platforms [] = Inr r"
    using sample_pass by blast
  have "sample_platforms \<noteq> []" by (simp add: sample_platforms_def)
  moreover have "\<forall>f \<in> set (PLATFORM_LI (gr_state r)). (\<lambda>f. Inr [f]) f = (Inr [f] :: string list res)" by simp
  ultimately show ?thesis
    using first_pass_graphs_merged [OF r sample_system(3), of ?env "\<lambda>f. Inr [f]" "\<lambda>f. [f]" name_ops set] r name_graphs.graph_merging_axioms
    by (auto split: sum.splits)
qed

end
