(* ===== verification/RouterText.thy ===== *)
theory RouterText
  imports FlowControl TextLines
begin

text \<open>
  \<^verbatim>\<open>lim_connect/generate-code/routerStats.py\<close> and \<^verbatim>\<open>generateMultiplexors.py\<close>: the statistics node of a
  router and the modules that merge the lanes of a physical connection and split them again.  The
  text is built as the code builds it, piece by piece.
\<close>

section \<open>Statistics\<close>

text \<open>A counter is its name, tag and description.\<close>

record router_stats =
  rs_name :: string
  rs_counters :: "(string \<times> string \<times> string) list"

definition mk_RouterStats :: "string \<Rightarrow> router_stats" where
  "mk_RouterStats name = \<lparr>rs_name = name, rs_counters = []\<rparr>"

definition addCounter :: "string \<Rightarrow> string \<Rightarrow> string \<Rightarrow> router_stats \<Rightarrow> router_stats" where
  "addCounter name tag descr rs = rs\<lparr>rs_counters := rs_counters rs @ [(name, tag, descr)]\<rparr>"

definition stat_ids :: "(string \<times> string \<times> string) list \<Rightarrow> string" where
  "stat_ids cs =
     text_for (\<lambda>(idx, name, tag, descr).
       tb @ tb @ ''statName('' @ quoted tag @ '', '' @ quoted descr @ '')'' @
       text_if (idx + 1 \<noteq> length cs) '','' @ nl) (List.enumerate 0 cs)"

definition stat_names :: "(string \<times> string \<times> string) list \<Rightarrow> string" where
  "stat_names cs = text_for (\<lambda>(idx, name, _). tb @ ''let '' @ name @ '' = '' @ num idx @ '';'' @ nl) (List.enumerate 0 cs)"

definition genStats :: "router_stats \<Rightarrow> string" where
  "genStats rs =
     (let n = num (length (rs_counters rs))
      in if rs_counters rs = [] then []
         else nl @ tb @ ''STAT_ID '' @ rs_name rs @ ''statIDs['' @ n @ ''] = {'' @ nl @
           stat_ids (rs_counters rs) @ tb @ ''};'' @ nl @ stat_names (rs_counters rs) @
           nl @ tb @ ''STAT_VECTOR#('' @ n @ '') '' @ rs_name rs @ ''stats <- mkStatCounter_Vector('' @ rs_name rs @
           ''statIDs);'' @ nl @ nl)"

text \<open>The statistics object is used only through its name here.\<close>

definition incrCounter :: "string \<Rightarrow> string \<Rightarrow> string" where
  "incrCounter rs name = rs @ ''stats.incr_NB('' @ name @ '')''"

section \<open>What a multiplexor is built from\<close>

text \<open>
  \<open>mux_at\<close> is the lanes between two platforms, the physical name of the transit table and the width
  of the connection, read in the order of the code.  Lanes that are not assigned are a string in the code,
  whose characters have no attributes.
\<close>

definition transit :: "(string \<times> (string \<times> string) list) list \<Rightarrow> string \<Rightarrow> string \<Rightarrow> string res" where
  "transit tables p t = bindR (get_key tables p (KeyError p)) (\<lambda>row. get_key row t (KeyError t))"

definition str_width :: "int option \<Rightarrow> string" where
  "str_width w = (case w of None \<Rightarrow> ''unassigned'' | Some k \<Rightarrow> str_of_int k)"

definition lanes_of :: "via list pairmap \<Rightarrow> string \<Rightarrow> string \<Rightarrow> via list res" where
  "lanes_of m p t = (case m (p, t) of None \<Rightarrow> Inl (AttributeError ''logicalVias'') | Some vs \<Rightarrow> Inr vs)"

definition egress_lanes :: "fpga_env \<Rightarrow> network \<Rightarrow> string \<Rightarrow> string \<Rightarrow> via list res" where
  "egress_lanes env net p t =
     bindR (get_key (platforms env) p (KeyError p)) (\<lambda>pl.
     bindR (getEgress pl t) (\<lambda>_. lanes_of (logicalEgress net) p t))"

definition ingress_lanes :: "fpga_env \<Rightarrow> network \<Rightarrow> string \<Rightarrow> string \<Rightarrow> via list res" where
  "ingress_lanes env net p t =
     bindR (get_key (platforms env) p (KeyError p)) (\<lambda>pl.
     bindR (getIngress pl t) (\<lambda>_. lanes_of (logicalIngress net) p t))"

definition egress_width :: "fpga_env \<Rightarrow> string \<Rightarrow> string \<Rightarrow> string res" where
  "egress_width env p t =
     bindR (get_key (platforms env) p (KeyError p)) (\<lambda>pl. bindR (getEgress pl t) (\<lambda>v. Inr (str_width (pv_width v))))"

definition ingress_width :: "fpga_env \<Rightarrow> string \<Rightarrow> string \<Rightarrow> string res" where
  "ingress_width env p t =
     bindR (get_key (platforms env) p (KeyError p)) (\<lambda>pl. bindR (getIngress pl t) (\<lambda>v. Inr (str_width (pv_width v))))"

definition egress_module :: "string \<Rightarrow> string \<Rightarrow> string" where
  "egress_module p t = ''egressMultiplexor_'' @ p @ ''_to_'' @ t"

definition egress_interface :: "string \<Rightarrow> string \<Rightarrow> string" where
  "egress_interface p t = ''EgressMultiplexor_'' @ p @ ''_to_'' @ t"

definition ingress_module :: "string \<Rightarrow> string \<Rightarrow> string" where
  "ingress_module p t = ''ingressMultiplexor_'' @ p @ ''_to_'' @ t"

definition ingress_interface :: "string \<Rightarrow> string \<Rightarrow> string" where
  "ingress_interface p t = ''IngressMultiplexor_'' @ p @ ''_to_'' @ t"

section \<open>Egress\<close>

text \<open>The type and the interface.\<close>

definition egress_field :: "bool \<Rightarrow> via \<Rightarrow> string" where
  "egress_field packPulseWires v =
     text_if packPulseWires (nl @ ''Bit#(1)  '' @ via_method v @ ''_pulse;'' @ nl) @
     nl @ ''Bit#('' @ str_of_int (via_width v) @ '')  '' @ via_method v @ ''_data;'' @ nl"

definition egress_types :: "bool \<Rightarrow> string \<Rightarrow> via list \<Rightarrow> string" where
  "egress_types packPulseWires interface vias =
     ''typedef struct { '' @ nl @ text_for (egress_field packPulseWires) vias @
     ''} '' @ interface @ ''Aggregate deriving (Bits,Eq);'' @ nl @ nl @
     ''interface '' @ interface @ '';'' @ nl @
     text_for (\<lambda>v. tb @ ''method Action '' @ via_method v @ ''(Bit#('' @ str_of_int (via_width v) @ '') data);'' @ nl) vias @
     nl @ ''endinterface'' @ nl @ nl"

definition egress_stats :: "string \<Rightarrow> via list \<Rightarrow> router_stats" where
  "egress_stats m vias =
     (let rs1 = foldl (\<lambda>rs v. addCounter (''enqueued_'' @ m @ ''_'' @ via_method v)
                  (''ROUTER_'' @ m @ ''_'' @ via_method v @ ''_ENQUEUED'') (via_method v @ '' cycles enqueued'') rs)
                  (mk_RouterStats ''egressMultiplexor'') vias;
          rs2 = foldl (\<lambda>rs enqs. addCounter (''enqueued_'' @ m @ ''_'' @ num enqs)
                  (''ROUTER_'' @ m @ ''_'' @ num enqs @ ''_ENQUEUED'')
                  (via_method (last vias) @ '' cycles that lanes enqueued'') rs) rs1 [0..<1 + length vias]
      in addCounter (''merged_'' @ m) (''ROUTER_'' @ m @ ''_MERGED'') (m @ '' cycles enqueued'') rs2)"

definition egress_wires :: "via list \<Rightarrow> string" where
  "egress_wires vias =
     text_for (\<lambda>v. tb @ ''let '' @ via_method v @ ''_wire <- mkDWire(0);'' @ nl @
                   tb @ ''let '' @ via_method v @ ''_pulse <- mkPulseWire();'' @ nl) vias @
     tb @ ''Bit#(TLog#('' @ num (1 + length vias) @ '')) totalEnqs = '' @
     join '' + '' (map (\<lambda>v. ''zeroExtend(pack('' @ via_method v @ ''_pulse))'') vias) @ '';'' @ nl"

definition merge_condition :: "via list \<Rightarrow> string" where
  "merge_condition vias =
     text_for (\<lambda>(i, v). (if i = 0 then '' '' else '' || '') @ nl @ tb @ tb @ via_method v @ ''_pulse'')
       (List.enumerate 0 vias)"

definition merge_fields :: "bool \<Rightarrow> via \<Rightarrow> string list" where
  "merge_fields packPulseWires v =
     (if packPulseWires then [tb @ tb @ tb @ via_method v @ ''_pulse:pack('' @ via_method v @ ''_pulse)'' @ nl] else []) @
     [tb @ tb @ tb @ via_method v @ ''_data:'' @ via_method v @ ''_wire'' @ nl]"

definition merge_rule :: "bool \<Rightarrow> bool \<Rightarrow> string \<Rightarrow> string \<Rightarrow> via list \<Rightarrow> string" where
  "merge_rule packPulseWires stats interface m vias =
     nl @ tb @ ''rule mergeData('' @ nl @ merge_condition vias @ '');//Only if there'' @ [CHR 0x27] @ ''s data...'' @ nl @
     text_if stats (tb @ tb @ incrCounter ''egressMultiplexor'' (''merged_'' @ m) @ '';'' @ nl) @
     tb @ tb @ ''write(zeroExtendNP(pack('' @ interface @ ''Aggregate{'' @ nl @
     join '','' (concat (map (merge_fields packPulseWires) vias)) @
     tb @ tb @ ''})));'' @ nl @ tb @ ''endrule'' @ nl @ nl"

definition count_rules :: "string \<Rightarrow> nat \<Rightarrow> string" where
  "count_rules m n =
     text_for (\<lambda>enqs.
       nl @ tb @ ''rule countMerges'' @ num enqs @ ''(totalEnqs == '' @ num enqs @ '');'' @ nl @
       tb @ tb @ incrCounter ''egressMultiplexor'' (''enqueued_'' @ m @ ''_'' @ num enqs) @ '';'' @ nl @
       tb @ ''endrule'' @ nl @ nl) [0..<1 + n]"

definition egress_method :: "bool \<Rightarrow> string \<Rightarrow> via \<Rightarrow> string" where
  "egress_method stats m v =
     tb @ ''method Action '' @ via_method v @ ''(Bit#('' @ str_of_int (via_width v) @ '') data) if(write_ready);'' @ nl @
     tb @ tb @ via_method v @ ''_wire <= data;'' @ nl @
     tb @ tb @ via_method v @ ''_pulse.send;'' @ nl @
     text_if stats (tb @ tb @ incrCounter ''egressMultiplexor'' (''enqueued_'' @ m @ ''_'' @ via_method v) @ '';'' @ nl) @
     tb @ ''endmethod'' @ nl @ nl"

text \<open>
  With statistics and no lane the loop variable is read before it is set.  The result is the
  definition, the instantiation and the name of the instance.
\<close>

definition generateEgressMultiplexorMultiple ::
  "fpga_env \<Rightarrow> network \<Rightarrow> int \<Rightarrow> string \<Rightarrow> string \<Rightarrow> bool \<Rightarrow> (string \<times> string \<times> string) res" where
  "generateEgressMultiplexorMultiple env net stats p t packPulseWires =
     bindR (egress_lanes env net p t) (\<lambda>vias.
     bindR (transit (transitTablesIncoming env) p t) (\<lambda>hop.
     bindR (egress_width env p t) (\<lambda>width.
     bindR (raise_if (stats \<noteq> 0 \<and> vias = []) (UnboundLocalError ''via'')) (\<lambda>_.
       let m = egress_module p t; interface = egress_interface p t; inst = ''inst_'' @ m
       in Inr
         (egress_types packPulseWires interface vias @
          ''module [CONNECTED_MODULE] '' @ m @ ''#(function Action write(Bit#('' @ width @ '') goSteelers),'' @ nl @
          ''                           function Bool write_ready() ) ('' @ interface @ '');'' @ nl @
          egress_wires vias @ text_if (stats \<noteq> 0) (genStats (egress_stats m vias)) @
          merge_rule packPulseWires (stats \<noteq> 0) interface m vias @
          text_if (stats \<noteq> 0) (count_rules m (length vias)) @
          text_for (egress_method (stats \<noteq> 0) m) vias @ ''endmodule'' @ nl @ nl,
          ''let '' @ inst @ '' <- '' @ m @ ''('' @ hop @ ''.write,'' @ nl @ ''    '' @ hop @ ''.write_ready);'' @ nl,
          inst)))))"

definition generateEgressMultiplexor :: "fpga_env \<Rightarrow> network \<Rightarrow> int \<Rightarrow> string \<Rightarrow> string \<Rightarrow> (string \<times> string \<times> string) res" where
  "generateEgressMultiplexor env net stats p t =
     bindR (egress_lanes env net p t) (\<lambda>vias.
       generateEgressMultiplexorMultiple env net stats p t (length vias \<noteq> 1))"

section \<open>Ingress\<close>

definition ingress_field :: "bool \<Rightarrow> via \<Rightarrow> string" where
  "ingress_field packPulseWires v =
     (if packPulseWires then tb @ ''Maybe#(Bit#('' @ str_of_int (via_width v) @ ''))  '' @ via_method v @ ''_data;'' @ nl
      else tb @ ''Bit#('' @ str_of_int (via_width v) @ '')  '' @ via_method v @ ''_data;'' @ nl)"

definition ingress_types :: "bool \<Rightarrow> string \<Rightarrow> via list \<Rightarrow> string" where
  "ingress_types packPulseWires interface vias =
     nl @ nl @ ''typedef struct { '' @ nl @ text_for (ingress_field packPulseWires) vias @
     ''} '' @ interface @ ''Aggregate deriving (Bits,Eq); '' @ nl @
     ''interface '' @ interface @ nl @ '';'' @
     text_for (\<lambda>v. tb @ ''method Bit#('' @ str_of_int (via_width v) @ '') '' @ via_method v @ ''_first();'' @ nl @
                   tb @ ''method Action '' @ via_method v @ ''_deq();'' @ nl @ nl) vias @
     ''endinterface'' @ nl @ nl"

definition ingress_stats :: "string \<Rightarrow> via list \<Rightarrow> router_stats" where
  "ingress_stats m vias =
     foldl (\<lambda>rs v. addCounter (''dequeued_'' @ via_method v) (''ROUTER_'' @ m @ ''_'' @ via_method v @ ''_DEQUEUED'')
       (via_method v @ '' cycles dequeued'') rs) (mk_RouterStats ''ingressMultiplexor'') vias"

definition ingress_debug :: "via list \<Rightarrow> string" where
  "ingress_debug vias =
     nl @ tb @ ''DEBUG_SCAN_FIELD_LIST via_dbg_list = List::nil;'' @ nl @
     text_for (\<lambda>v.
       tb @ ''via_dbg_list <- addDebugScanField(via_dbg_list, '' @ quoted (via_method v @ '' notFull'') @ '', '' @
       via_method v @ ''_fifo.notFull);'' @ nl @
       tb @ ''via_dbg_list <- addDebugScanField(via_dbg_list, '' @ quoted (via_method v @ '' notEmpty'') @ '', '' @
       via_method v @ ''_fifo.notEmpty);'' @ nl) vias @
     tb @ ''let viaDbg <- mkDebugScanNode('' @ quoted ''multi-FPGA vias'' @ '', via_dbg_list);'' @ nl"

definition send_rule :: "string \<Rightarrow> string \<Rightarrow> via list \<Rightarrow> string" where
  "send_rule interface width vias =
     nl @ tb @ ''rule sendData;'' @ nl @ nl @
     tb @ tb @ ''Bit#('' @ width @ '') data_uncut = first();'' @ nl @
     tb @ tb @ ''deq();'' @ nl @
     tb @ tb @ interface @ ''Aggregate  data_tuple = unpack(truncateNP(data_uncut));'' @ nl @
     text_for (\<lambda>v. tb @ tb @ via_method v @ ''_fifo.enq(data_tuple.'' @ via_method v @ ''_data);'' @ nl @ nl) vias @
     tb @ ''endrule'' @ nl @ nl"

definition drop_rule :: "via \<Rightarrow> string" where
  "drop_rule v =
     tb @ ''rule deq_'' @ via_method v @ ''('' @ via_method v @ ''_fifo.first() matches tagged Invalid);'' @ nl @ nl @
     tb @ tb @ via_method v @ ''_fifo.deq();'' @ nl @ nl @ tb @ ''endrule'' @ nl @ nl"

definition ingress_methods :: "bool \<Rightarrow> bool \<Rightarrow> via \<Rightarrow> string" where
  "ingress_methods packPulseWires stats v =
     (if packPulseWires then
        tb @ ''method Bit#('' @ str_of_int (via_width v) @ '') '' @ via_method v @ ''_first() if ('' @ via_method v @
        ''_fifo.first() matches tagged Valid .data );'' @ nl @ nl @ tb @ tb @ ''return data;'' @ nl @ nl
      else
        tb @ ''method Bit#('' @ str_of_int (via_width v) @ '') '' @ via_method v @ ''_first();'' @ nl @ nl @
        tb @ tb @ ''return '' @ via_method v @ ''_fifo.first();'' @ nl) @
     tb @ ''endmethod'' @ nl @ nl @
     (if packPulseWires then
        tb @ ''method Action '' @ via_method v @ ''_deq() if ('' @ via_method v @
        ''_fifo.first() matches tagged Valid .data );'' @ nl @ nl
      else tb @ ''method Action '' @ via_method v @ ''_deq();'' @ nl @ nl) @
     text_if stats (tb @ tb @ incrCounter ''ingressMultiplexor'' (''dequeued_'' @ via_method v) @ '';'' @ nl) @
     tb @ tb @ via_method v @ ''_fifo.deq();'' @ nl @ tb @ ''endmethod'' @ nl @ nl"

definition generateIngressMultiplexorMultiple ::
  "fpga_env \<Rightarrow> network \<Rightarrow> int \<Rightarrow> bool \<Rightarrow> string \<Rightarrow> string \<Rightarrow> bool \<Rightarrow> (string \<times> string \<times> string) res" where
  "generateIngressMultiplexorMultiple env net stats debug p t packPulseWires =
     bindR (ingress_lanes env net p t) (\<lambda>vias.
     bindR (transit (transitTablesOutgoing env) p t) (\<lambda>hop.
     bindR (ingress_width env p t) (\<lambda>width.
       let m = ingress_module p t; interface = ingress_interface p t; inst = ''inst_'' @ m
       in Inr
         (ingress_types packPulseWires interface vias @
          ''module [CONNECTED_MODULE] '' @ m @ ''#(function Bit#('' @ width @ '') first(), function Action deq()) ('' @
          interface @ '');'' @ nl @
          text_for (\<lambda>v. tb @ ''let '' @ via_method v @ ''_fifo <- mkBypassFIFOF();'' @ nl) vias @
          text_if debug (ingress_debug vias) @
          text_if (stats \<noteq> 0) (genStats (ingress_stats m vias)) @
          send_rule interface width vias @
          text_if packPulseWires (text_for drop_rule vias) @
          text_for (ingress_methods packPulseWires (stats \<noteq> 0)) vias @ ''endmodule'' @ nl @ nl,
          ''let '' @ inst @ '' <- '' @ m @ ''('' @ hop @ ''.first,'' @ hop @ ''.deq);'' @ nl,
          inst))))"

definition generateIngressMultiplexor ::
  "fpga_env \<Rightarrow> network \<Rightarrow> int \<Rightarrow> bool \<Rightarrow> string \<Rightarrow> string \<Rightarrow> (string \<times> string \<times> string) res" where
  "generateIngressMultiplexor env net stats debug p t =
     bindR (ingress_lanes env net p t) (\<lambda>vias.
       generateIngressMultiplexorMultiple env net stats debug p t (length vias \<noteq> 1))"

section \<open>Earlier multiplexors\<close>

text \<open>Three functions kept from an earlier class read \<open>self\<close>, which is not defined, before anything else.\<close>

definition generateEgressMultiplexorParSerial :: "string \<Rightarrow> (string \<times> string \<times> string) res" where
  "generateEgressMultiplexorParSerial p = Inl (NameError ''self'')"

definition generateEgressMultiplexorSerial :: "string \<Rightarrow> (string \<times> string \<times> string) res" where
  "generateEgressMultiplexorSerial p = Inl (NameError ''self'')"

definition generateIngressMultiplexorSerial :: "string \<Rightarrow> (string \<times> string \<times> string) res" where
  "generateIngressMultiplexorSerial p = Inl (NameError ''self'')"

end
