(* ===== verification/RouterBSV.thy ===== *)
theory RouterBSV
  imports RouterText
begin

text \<open>
  \<^verbatim>\<open>lim_connect/generate-code/generateCode.py: generateCodeBSV\<close>: the router of a hardware platform.
  The lists of connections of a pair of platforms come from the \<open>li_module\<close> package, which is not part
  of this repository, and are parameters, as are the attributes the analysis does not use.
  The lemmas show that the analysed network fills every link of every switch.
\<close>

section \<open>What the router is generated from\<close>

record conn_info =
  ci_raw_type :: string
  ci_compressable :: bool
  ci_source :: bool
  ci_cpp_type :: string
  ci_route_through :: bool

record gen_env =
  ge_env :: fpga_env
  ge_net :: network
  ge_info :: "nat \<Rightarrow> conn_info"
  mod_conns :: "string \<Rightarrow> nat list"
  mod_chain_conns :: "string \<Rightarrow> nat list"
  channelsByPartner :: "string \<Rightarrow> string \<Rightarrow> nat list"
  egressChannels :: "string \<Rightarrow> string \<Rightarrow> nat list"
  ingressChannels :: "string \<Rightarrow> string \<Rightarrow> nat list"
  egressChains :: "string \<Rightarrow> string \<Rightarrow> nat list"
  ingressChains :: "string \<Rightarrow> string \<Rightarrow> nat list"
  type_compression :: bool
  stats_level :: int
  router_debug :: bool

abbreviation conn_at :: "gen_env \<Rightarrow> nat \<Rightarrow> connection" where
  "conn_at G c \<equiv> net_store (ge_net G) c"

abbreviation name_of :: "gen_env \<Rightarrow> nat \<Rightarrow> string" where
  "name_of G c \<equiv> conn_name (conn_at G c)"

abbreviation int_str :: "int \<Rightarrow> string" where
  "int_str \<equiv> str_of_int"

text \<open>A set in the code; the order of the list stands for its iteration order.\<close>

definition getTargetPlatforms :: "gen_env \<Rightarrow> string \<Rightarrow> string list" where
  "getTargetPlatforms G p =
     remdups (map (\<lambda>c. conn_module (conn_at G (partnerChannel (conn_at G c)))) (mod_conns G p) @
       concat (map (\<lambda>c. [conn_module (conn_at G (sourcePartnerChain (conn_at G c))),
                         conn_module (conn_at G (sinkPartnerChain (conn_at G c)))]) (mod_chain_conns G p)))"

text \<open>Indexing counts from the end for a negative index.\<close>

definition py_pos :: "'a list \<Rightarrow> int \<Rightarrow> nat res" where
  "py_pos xs i =
     (if 0 \<le> i \<and> i < int (length xs) then Inr (nat i)
      else if - int (length xs) \<le> i \<and> i < 0 then Inr (nat (i + int (length xs)))
      else Inl IndexError)"

definition py_nth :: "'a list \<Rightarrow> int \<Rightarrow> 'a res" where
  "py_nth xs i = bindR (py_pos xs i) (\<lambda>k. Inr (xs ! k))"

definition py_set :: "'a list \<Rightarrow> int \<Rightarrow> 'a \<Rightarrow> 'a list res" where
  "py_set xs i x = bindR (py_pos xs i) (\<lambda>k. Inr (xs[k := x]))"

section \<open>Connections and their statistics\<close>

definition compressed :: "gen_env \<Rightarrow> nat \<Rightarrow> bool" where
  "compressed G c \<longleftrightarrow> type_compression G \<and> ci_compressable (ge_info G c)"

definition recv_text :: "gen_env \<Rightarrow> nat \<Rightarrow> string" where
  "recv_text G c =
     (let n = name_of G c; ty = ci_raw_type (ge_info G c);
          tail = '' <- mkPhysicalConnectionRecv('' @ quoted n @ '', tagged Invalid, '' @ quoted ty @ '', defaultValue);'' @ nl
      in if compressed G c then
           nl @ ''CONNECTION_RECV#('' @ ty @ '') recv_uncompressed_'' @ n @ tail @
           ''let recv_'' @ n @ ''_compressed <- mkCompressor();'' @ nl @
           ''Put#('' @ ty @ '') put_'' @ n @ ''_compressed = toPut(recv_'' @ n @ ''_compressed);'' @ nl @
           ''mkConnection(put_'' @ n @ ''_compressed, toGet(recv_uncompressed_'' @ n @ ''));'' @ nl @
           ''let recv_'' @ n @ '' = toConnectionRecv(recv_'' @ n @ ''_compressed);'' @ nl @ nl
         else nl @ ''CONNECTION_RECV#(Bit#(PHYSICAL_CONNECTION_SIZE)) recv_'' @ n @ tail)"

definition send_text :: "gen_env \<Rightarrow> nat \<Rightarrow> string" where
  "send_text G c =
     (let n = name_of G c; ty = ci_raw_type (ge_info G c);
          tail = '' <- mkPhysicalConnectionSend('' @ quoted n @ '', tagged Invalid, '' @ quoted ty @ '', defaultValue);'' @ nl
      in if compressed G c then
           ''PHYSICAL_SEND#('' @ ty @ '') send_uncompressed_'' @ n @ tail @
           ''let send_'' @ n @ ''_decompressed <- mkDecompressor();'' @ nl @
           ''Get#('' @ ty @ '') get_'' @ n @ ''_decompressed = toGet(send_'' @ n @ ''_decompressed);'' @ nl @
           ''mkConnection(get_'' @ n @ ''_decompressed, toPut(send_uncompressed_'' @ n @ ''));'' @ nl @
           ''let send_'' @ n @ '' <- mkPhysicalSend(send_'' @ n @ ''_decompressed);'' @ nl @ nl
         else ''PHYSICAL_SEND#(Bit#(PHYSICAL_CONNECTION_SIZE)) send_'' @ n @ tail)"

definition on_egress :: "gen_env \<Rightarrow> nat \<Rightarrow> string" where
  "on_egress G c = name_of G c @ '' on egress'' @ int_str (via_idx_egress (conn_at G c)) @ '' link '' @
     int_str (via_link_egress (conn_at G c))"

definition on_ingress :: "gen_env \<Rightarrow> nat \<Rightarrow> string" where
  "on_ingress G c = name_of G c @ '' on ingress'' @ int_str (via_idx_ingress (conn_at G c)) @ '' link '' @
     int_str (via_link_ingress (conn_at G c))"

definition channel_counters :: "gen_env \<Rightarrow> nat \<Rightarrow> router_stats \<Rightarrow> router_stats" where
  "channel_counters G c rs =
     (let n = name_of G c
      in if ci_source (ge_info G c) then
           if stats_level G \<noteq> 0 then
             addCounter (''sent_'' @ n) (''ROUTER_'' @ n @ ''_SENT'') (on_egress G c @ '' cycles sent'')
               (addCounter (''blocked_'' @ n) (''ROUTER_'' @ n @ ''_BLOCKED'') (on_egress G c @ ''cycles blocked'') rs)
           else rs
         else if 1 < stats_level G then
           addCounter (''received_'' @ n) (''ROUTER_'' @ n @ ''_RECEIVED'') (on_ingress G c @ '' received cycles'') rs
         else rs)"

definition channel_text :: "gen_env \<Rightarrow> nat \<Rightarrow> string" where
  "channel_text G c = (if ci_source (ge_info G c) then recv_text G c else send_text G c)"

definition ingress_chain_counters :: "gen_env \<Rightarrow> string \<Rightarrow> string \<Rightarrow> nat \<Rightarrow> router_stats \<Rightarrow> router_stats" where
  "ingress_chain_counters G p t c rs =
     (if 1 < stats_level G then
        addCounter (''received_'' @ name_of G c)
          (''ROUTER_'' @ p @ ''_'' @ t @ ''_'' @ name_of G c @ ''_RECEIVED'') (on_ingress G c @ '' received cycles'') rs
      else rs)"

definition egress_chain_counters :: "gen_env \<Rightarrow> string \<Rightarrow> string \<Rightarrow> nat \<Rightarrow> router_stats \<Rightarrow> router_stats" where
  "egress_chain_counters G p t c rs =
     (let n = name_of G c; tag = ''ROUTER_'' @ p @ ''_'' @ t @ ''_'' @ n
      in if stats_level G \<noteq> 0 then
           addCounter (''sent_chain_'' @ n) (tag @ ''_SENT'') (on_egress G c @ '' cycles sent'')
             (addCounter (''blocked_chain_'' @ n) (tag @ ''_BLOCKED'') (on_egress G c @ '' cycles blocked'') rs)
         else rs)"

definition stats_name :: "string \<Rightarrow> string \<Rightarrow> string" where
  "stats_name p t = ''router'' @ p @ ''_'' @ t"

definition pair_stats :: "gen_env \<Rightarrow> string \<Rightarrow> string \<Rightarrow> router_stats" where
  "pair_stats G p t =
     fold (egress_chain_counters G p t) (egressChains G p t)
       (fold (ingress_chain_counters G p t) (ingressChains G p t)
         (fold (channel_counters G) (channelsByPartner G p t) (mk_RouterStats (stats_name p t))))"

definition chain_info :: "gen_env \<Rightarrow> nat \<Rightarrow> string" where
  "chain_info G c =
     (let n = name_of G c
      in ''let chain_'' @ n @ '' = LOGICAL_CHAIN_INFO{logicalName: '' @ quoted n @ '', logicalType: '' @
         quoted (ci_raw_type (ge_info G c)) @ '', incoming: tpl_2(pack_chain_'' @ n @ ''), outgoing: unpack_chain_'' @ n @
         '', bitWidth: '' @ int_str (bitwidth (conn_at G c)) @ '', moduleNameIncoming: '' @ quoted ''router'' @
         '', moduleNameOutgoing: '' @ quoted ''router'' @ ''};'' @ nl @ ''registerChain(chain_'' @ n @ '');'' @ nl)"

section \<open>Ingress switches\<close>

definition ingress_inst :: "string \<Rightarrow> string \<Rightarrow> string" where
  "ingress_inst p t = ''inst_'' @ ingress_module p t"

definition egress_inst :: "string \<Rightarrow> string \<Rightarrow> string" where
  "egress_inst p t = ''inst_'' @ egress_module p t"

definition ingress_switch :: "string \<Rightarrow> string \<Rightarrow> via list \<Rightarrow> via \<Rightarrow> string res" where
  "ingress_switch p t eg v =
     (if 0 < via_links v then
        bindR (py_nth eg (via_outgoing_flowcontrol_via v)) (\<lambda>e.
          Inr (''INGRESS_SWITCH#('' @ int_str (via_links v) @ '','' @ typeBSV (via_umfType v) @ '','' @
            headerTypeBSV (via_umfType e) @ '','' @ bodyTypeBSV (via_umfType e) @ '') '' @ via_switch v @
            ''<- mkIngressSwitch('' @ quoted (via_switch v) @ '','' @ int_str (via_outgoing_flowcontrol_link v) @ '','' @
            ingress_inst p t @ ''.'' @ via_method v @ ''_first, '' @ ingress_inst p t @ ''.'' @ via_method v @ ''_deq);'' @ nl @ nl))
      else Inr [])"

section \<open>Egress links\<close>

text \<open>The links of every lane, unused ones marked with a question mark.\<close>

type_synonym link_rows = "string list list"

definition unused :: string where
  "unused = ''?''"

definition empty_rows :: "via list \<Rightarrow> link_rows" where
  "empty_rows eg = map (\<lambda>v. replicate (nat (via_links v)) unused) eg"

definition set_link :: "link_rows \<Rightarrow> int \<Rightarrow> int \<Rightarrow> string \<Rightarrow> link_rows res" where
  "set_link rows i l x =
     bindR (py_pos rows i) (\<lambda>k. bindR (py_set (rows ! k) l x) (\<lambda>row. Inr (rows[k := row])))"

definition egress_port :: "gen_env \<Rightarrow> bool \<Rightarrow> nat \<Rightarrow> string" where
  "egress_port G isChain c =
     (if isChain then ''tpl_1(pack_chain_'' @ name_of G c @ '')'' else ''pack_recv_'' @ name_of G c)"

text \<open>Only hardware platforms take marshalled packets.\<close>

definition is_hardware :: "gen_env \<Rightarrow> string \<Rightarrow> bool res" where
  "is_hardware G t =
     bindR (getPlatform (ge_env G) t) (\<lambda>pl. Inr (platformType pl = ''FPGA'' \<or> platformType pl = ''BLUESIM''))"

definition egress_packetizer :: "bool \<Rightarrow> via \<Rightarrow> int \<Rightarrow> string" where
  "egress_packetizer hardware v w =
     (if \<not> hardware then ''NoPack'' else if w \<le> via_filler_width v then ''Unmarshalled'' else ''Marshalled'')"

definition ingress_packetizer :: "bool \<Rightarrow> via \<Rightarrow> int \<Rightarrow> string" where
  "ingress_packetizer hardware v w =
     (if \<not> hardware then ''NoPack''
      else if w \<le> via_filler_width v then ''Unmarshalled''
      else if w \<le> via_width v + via_filler_width v then ''PartialMarshalled'' else ''Marshalled'')"

definition via_comment :: "via \<Rightarrow> connection \<Rightarrow> string" where
  "via_comment v c = ''// Via'' @ int_str (via_width v) @ '' mine:'' @ int_str (bitwidth c) @ nl"

definition param_text :: "string \<Rightarrow> gen_env \<Rightarrow> nat \<Rightarrow> string" where
  "param_text kind G c =
     ''NumTypeParam#('' @ int_str (bitwidth (conn_at G c)) @ '') width_'' @ kind @ ''_'' @ name_of G c @ '' = ?;'' @ nl"

definition egress_channel_text :: "gen_env \<Rightarrow> string \<Rightarrow> string \<Rightarrow> bool \<Rightarrow> via \<Rightarrow> nat \<Rightarrow> string" where
  "egress_channel_text G p t hardware v c =
     (let n = name_of G c
      in param_text ''recv'' G c @ via_comment v (conn_at G c) @
         ''let pack_recv_'' @ n @ '' <- mkPacketizeConnectionReceive'' @ egress_packetizer hardware v (bitwidth (conn_at G c)) @
         ''('' @ nl @ tb @ quoted n @ '','' @ nl @ tb @ int_str (via_link_egress (conn_at G c)) @ '','' @ nl @
         tb @ ''width_recv_'' @ n @ '','' @ nl @
         (if stats_level G \<noteq> 0 then
            tb @ incrCounter (stats_name p t) (''blocked_'' @ n) @ '','' @ nl @
            tb @ incrCounter (stats_name p t) (''sent_'' @ n) @ '','' @ nl
          else tb @ ''?, ?,'' @ nl) @
         tb @ ''recv_'' @ n @ '');'' @ nl @ nl)"

definition egress_chain_text :: "gen_env \<Rightarrow> string \<Rightarrow> string \<Rightarrow> bool \<Rightarrow> via \<Rightarrow> nat \<Rightarrow> string" where
  "egress_chain_text G p t hardware v c =
     (let n = name_of G c
      in via_comment v (conn_at G c) @ param_text ''chain'' G c @
         ''let pack_chain_'' @ n @ '' <- mkPacketizeIncomingChain'' @ egress_packetizer hardware v (bitwidth (conn_at G c)) @
         ''('' @ nl @ tb @ quoted n @ '','' @ nl @ tb @ int_str (via_link_egress (conn_at G c)) @ '','' @ nl @
         tb @ ''width_chain_'' @ n @ '','' @ nl @
         (if stats_level G \<noteq> 0 then
            tb @ incrCounter (stats_name p t) (''blocked_chain_'' @ n) @ '','' @ nl @
            tb @ incrCounter (stats_name p t) (''sent_chain_'' @ n) @ '');'' @ nl @ nl
          else tb @ ''?, ?);'' @ nl @ nl))"

text \<open>A connection takes its link and adds its packetizer to the text.\<close>

definition egress_link :: "gen_env \<Rightarrow> string \<Rightarrow> string \<Rightarrow> bool \<Rightarrow> via list \<Rightarrow> link_rows \<times> string \<Rightarrow> nat \<Rightarrow> (link_rows \<times> string) res" where
  "egress_link G p t isChain eg = (\<lambda>(rows, txt) c.
     bindR (set_link rows (via_idx_egress (conn_at G c)) (via_link_egress (conn_at G c)) (egress_port G isChain c)) (\<lambda>rows'.
     bindR (is_hardware G t) (\<lambda>hardware.
     bindR (py_nth eg (via_idx_egress (conn_at G c))) (\<lambda>v.
       Inr (rows', txt @ (if isChain then egress_chain_text G p t hardware v c else egress_channel_text G p t hardware v c))))))"

definition data_links :: "gen_env \<Rightarrow> string \<Rightarrow> string \<Rightarrow> via list \<Rightarrow> (link_rows \<times> string) res" where
  "data_links G p t eg =
     bindR (foldR (egress_link G p t False eg) (empty_rows eg, []) (egressChannels G p t)) (\<lambda>st.
       foldR (egress_link G p t True eg) st (egressChains G p t))"

section \<open>Egress switches\<close>

definition flow_link :: "nat \<Rightarrow> link_rows \<Rightarrow> via \<Rightarrow> link_rows res" where
  "flow_link i rows v =
     (if via_outgoing_flowcontrol_via v = int i
      then set_link rows (int i) (via_outgoing_flowcontrol_link v) (via_switch v @ ''.flowcontrol_response'')
      else Inr rows)"

definition link_array :: "string list \<Rightarrow> string" where
  "link_array row =
     ''{'' @ text_for (\<lambda>(l, x). (if l = 0 then nl @ tb else '',// link idx:'' @ int_str (int l - 1) @ nl @ tb) @ x)
       (List.enumerate 0 row) @ ''}// link idx: '' @ int_str (int (length row) - 1) @ nl"

definition debug_list :: "string \<Rightarrow> string \<Rightarrow> string" where
  "debug_list p t = ''via_'' @ p @ ''_'' @ t @ ''_dbg_list''"

definition egress_switch :: "gen_env \<Rightarrow> string \<Rightarrow> string \<Rightarrow> via list \<Rightarrow> via \<Rightarrow> string list \<Rightarrow> string res" where
  "egress_switch G p t ing v row =
     bindR (py_nth ing (via_outgoing_flowcontrol_via v)) (\<lambda>i.
       let sw = via_switch v; dbg = debug_list p t
       in Inr
         (''EGRESS_PACKET_GENERATOR#('' @ headerTypeBSV (via_umfType v) @ '', '' @ bodyTypeBSV (via_umfType v) @ '') links_'' @
          sw @ ''['' @ int_str (via_links v) @ ''] = '' @ link_array row @ '';'' @ nl @
          ''EGRESS_SWITCH#('' @ int_str (via_links v) @ '') '' @ sw @ ''<- mkEgressSwitch( links_'' @ sw @ '', '' @
          via_switch i @ ''.ingressPorts['' @ int_str (via_outgoing_flowcontrol_link v) @ ''], compose('' @ egress_inst p t @ ''.'' @
          via_method v @ '',pack), '' @ quoted sw @ '', '' @ (if 10 < via_links v then ''False'' else ''True'') @ '');'' @ nl @
          text_if (router_debug G)
            (dbg @ '' <- addDebugScanField('' @ dbg @ '', '' @ quoted (sw @ '' buffer status'') @ '', '' @ sw @ ''.bufferStatus);'' @ nl @
             dbg @ '' <- addDebugScanField('' @ dbg @ '', '' @ quoted (sw @ '' fifo status'') @ '', '' @ sw @ ''.fifoStatus);'' @ nl)))"

text \<open>One lane: the flow-control links of the ingress lanes it answers, then its switch.\<close>

definition egress_lane ::
  "gen_env \<Rightarrow> string \<Rightarrow> string \<Rightarrow> via list \<Rightarrow> link_rows \<times> string \<Rightarrow> nat \<times> via \<Rightarrow> (link_rows \<times> string) res" where
  "egress_lane G p t ing = (\<lambda>(rows, txt) (i, v).
     if 0 < via_links v then
       bindR (foldR (flow_link i) rows ing) (\<lambda>rows'.
       bindR (egress_switch G p t ing v (rows' ! i)) (\<lambda>s. Inr (rows', txt @ s)))
     else Inr (rows, txt))"

definition egress_lanes_text ::
  "gen_env \<Rightarrow> string \<Rightarrow> string \<Rightarrow> via list \<Rightarrow> via list \<Rightarrow> link_rows \<Rightarrow> (link_rows \<times> string) res" where
  "egress_lanes_text G p t eg ing rows =
     bindR (foldR (egress_lane G p t ing)
       (rows, text_if (router_debug G) (nl @ ''DEBUG_SCAN_FIELD_LIST '' @ debug_list p t @ '' = List::nil;'' @ nl))
       (List.enumerate 0 eg)) (\<lambda>(rows', txt).
         Inr (rows', txt @ text_if (router_debug G)
           (''let '' @ debug_list p t @ ''_Node <- mkDebugScanNode('' @ quoted ''Multi-FPGA Router Egress VIAs'' @ '', '' @
            debug_list p t @ '' );'' @ nl)))"

section \<open>Ingress links\<close>

text \<open>The manifest of the links, in the order of their assignment.\<close>

definition manifest_text :: "gen_env \<Rightarrow> string \<Rightarrow> nat \<Rightarrow> string" where
  "manifest_text G t c =
     (let x = conn_at G c
      in ''// ingress from '' @ t @ '' '' @ conn_name x @ '' via_idx: '' @ int_str (via_idx_ingress x) @ '' link_idx: '' @
         int_str (via_link_ingress x) @ nl @
         ''// egress '' @ conn_name x @ '' via_idx: '' @ int_str (via_idx_egress x) @ '' link_idx: '' @
         int_str (via_link_egress x) @ nl)"

definition link_manifest :: "gen_env \<Rightarrow> string \<Rightarrow> string \<Rightarrow> via list \<Rightarrow> string res" where
  "link_manifest G p t ing =
     (if ing = [] then Inl ValueError
      else (let maximumLinks = Max (set (map via_links ing))
            in Inr (text_for (manifest_text G t)
                 (sort_key (\<lambda>c. via_link_ingress (conn_at G c) + maximumLinks * via_idx_ingress (conn_at G c))
                   (ingressChains G p t @ ingressChannels G p t)))))"

definition ingress_port :: "via \<Rightarrow> connection \<Rightarrow> string" where
  "ingress_port v c =
     tb @ via_switch v @ ''.ingressPorts['' @ int_str (via_link_ingress c) @ ''],'' @ nl @
     tb @ int_str (via_link_ingress c) @ '','' @ nl"

definition ingress_channel_text :: "gen_env \<Rightarrow> string \<Rightarrow> string \<Rightarrow> nat \<Rightarrow> via \<Rightarrow> bool \<Rightarrow> string" where
  "ingress_channel_text G p t c v hardware =
     (let n = name_of G c
      in param_text ''send'' G c @ nl @ via_comment v (conn_at G c) @
         ''Empty unpack_send_'' @ n @ '' <- mkPacketizeConnectionSend'' @ ingress_packetizer hardware v (bitwidth (conn_at G c)) @
         ''('' @ nl @ tb @ quoted n @ '','' @ nl @ ingress_port v (conn_at G c) @ tb @ ''width_send_'' @ n @ '','' @ nl @
         (if 1 < stats_level G then tb @ incrCounter (stats_name p t) (''received_'' @ n) @ '','' @ nl
          else tb @ ''?,'' @ nl) @
         tb @ ''send_'' @ n @ '');'' @ nl @ nl)"

definition ingress_chain_text :: "gen_env \<Rightarrow> string \<Rightarrow> string \<Rightarrow> nat \<Rightarrow> via \<Rightarrow> bool \<Rightarrow> string" where
  "ingress_chain_text G p t c v hardware =
     (let n = name_of G c
      in param_text ''sink'' G c @ via_comment v (conn_at G c) @
         ''PHYSICAL_CHAIN_OUT unpack_chain_'' @ n @ '' <- mkPacketizeOutgoingChain'' @
         ingress_packetizer hardware v (bitwidth (conn_at G c)) @
         ''('' @ nl @ tb @ quoted n @ '','' @ nl @ ingress_port v (conn_at G c) @ tb @ ''width_sink_'' @ n @ '','' @ nl @
         (if 1 < stats_level G then tb @ incrCounter (stats_name p t) (''received_'' @ n) @ '');'' @ nl @ nl
          else tb @ ''?);'' @ nl @ nl))"

definition ingress_link ::
  "(nat \<Rightarrow> via \<Rightarrow> bool \<Rightarrow> string) \<Rightarrow> gen_env \<Rightarrow> string \<Rightarrow> via list \<Rightarrow> nat \<Rightarrow> string res" where
  "ingress_link txt G t ing c =
     bindR (is_hardware G t) (\<lambda>hardware.
     bindR (py_nth ing (via_idx_ingress (conn_at G c))) (\<lambda>v. Inr (txt c v hardware)))"

section \<open>The router of a pair of platforms\<close>

text \<open>The text of the pair and the chains it adds at the end of the module.\<close>

definition pair_router :: "gen_env \<Rightarrow> string \<Rightarrow> string \<Rightarrow> (string \<times> string) res" where
  "pair_router G p t =
     bindR (egress_lanes (ge_env G) (ge_net G) p t) (\<lambda>eg.
     bindR (ingress_lanes (ge_env G) (ge_net G) p t) (\<lambda>ing.
     bindR (mapR (ingress_switch p t eg) ing) (\<lambda>switches.
     bindR (data_links G p t eg) (\<lambda>(rows, links).
     bindR (egress_lanes_text G p t eg ing rows) (\<lambda>(_, lanes).
     bindR (link_manifest G p t ing) (\<lambda>manifest.
     bindR (mapR (ingress_link (ingress_channel_text G p t) G t ing) (ingressChannels G p t)) (\<lambda>channels.
     bindR (mapR (ingress_link (ingress_chain_text G p t) G t ing) (ingressChains G p t)) (\<lambda>chains.
       Inr (''// Connection to '' @ t @ '' '' @ nl @ text_for (channel_text G) (channelsByPartner G p t) @
            genStats (pair_stats G p t) @ concat switches @ links @ lanes @ manifest @ concat channels @ concat chains,
            text_for (chain_info G) (ingressChains G p t))))))))))"

section \<open>The file\<close>

definition bsv_include :: "string \<Rightarrow> string" where
  "bsv_include f = ''`include '' @ quoted (''awb/provides/'' @ f @ ''.bsh'') @ nl"

definition bsv_head :: string where
  "bsv_head =
     ''// Generated by build pipeline'' @ nl @ nl @
     text_for bsv_include [''common_services'', ''soft_connections'', ''librl_bsv_base'', ''librl_bsv_storage'',
       ''multifpga_switch'', ''physical_platform'', ''multifpga_router_service''] @
     text_for (\<lambda>m. ''import '' @ m @ ''::*;'' @ nl) [''GetPut'', ''FIFO'', ''FIFOF'', ''SpecialFIFOs'', ''Connectable'', ''DefaultValue'']"

definition pair_multiplexors :: "gen_env \<Rightarrow> string \<Rightarrow> string \<Rightarrow> ((string \<times> string) \<times> (string \<times> string)) res" where
  "pair_multiplexors G p t =
     bindR (generateEgressMultiplexor (ge_env G) (ge_net G) (stats_level G) p t) (\<lambda>(ed, ei, _).
     bindR (generateIngressMultiplexor (ge_env G) (ge_net G) (stats_level G) (router_debug G) p t) (\<lambda>(id, ii, _).
       Inr ((ed, ei), (id, ii))))"

text \<open>The name of the file and its text.\<close>

definition generateCodeBSV :: "gen_env \<Rightarrow> string \<Rightarrow> (string \<times> string) res" where
  "generateCodeBSV G p =
     (let ts = getTargetPlatforms G p
      in bindR (getPlatform (ge_env G) p) (\<lambda>pl.
         bindR (getAttribute pl ''HEADER'') (\<lambda>headerFile.
         bindR (mapR (pair_multiplexors G p) ts) (\<lambda>ms.
         bindR (mapR (pair_router G p) ts) (\<lambda>routers.
           Inr (headerFile,
             bsv_head @ text_for (fst \<circ> fst) ms @ text_for (fst \<circ> snd) ms @
             ''module [CONNECTED_MODULE] mkCommunicationModule#(PHYSICAL_DRIVERS physicalDrivers) (Empty);'' @ nl @
             ''String platformName <- getSynthesisBoundaryPlatform();'' @ nl @
             ''messageM('' @ quoted ''Instantiating Custom Router on '' @ '' + platformName); '' @ nl @
             text_for (\<lambda>t. text_for (\<lambda>_. ''// Compression code has been removed.'' @ nl) (channelsByPartner G p t)) ts @
             text_for (snd \<circ> fst) ms @ text_for (snd \<circ> snd) ms @
             text_for fst routers @ text_for snd routers @ nl @ ''endmodule'' @ nl))))))"

end
