(* ===== verification/RouterLinks.thy ===== *)
theory RouterLinks
  imports RouterBSV
begin

text \<open>
  The link arrays of the generated egress switches, on an analysed network: the positions the
  analysis gives the data links and the flow-control links fill them exactly, each connection on the link
  it was assigned.
\<close>

section \<open>Writing cells\<close>

type_synonym cell = "nat \<times> nat \<times> string"

definition write_cell :: "link_rows \<Rightarrow> cell \<Rightarrow> link_rows" where
  "write_cell rows = (\<lambda>(i, l, x). rows[i := (rows ! i)[l := x]])"

definition write_cells :: "link_rows \<Rightarrow> cell list \<Rightarrow> link_rows" where
  "write_cells rows ws = foldl write_cell rows ws"

definition position :: "cell \<Rightarrow> nat \<times> nat" where
  "position = (\<lambda>(i, l, x). (i, l))"

text \<open>The positions of rows of given lengths.\<close>

definition cells :: "nat list \<Rightarrow> (nat \<times> nat) set" where
  "cells ns = {(i, l). i < length ns \<and> l < ns ! i}"

lemma shape_write_cell [simp]: "map length (write_cell rows w) = map length rows"
  by (cases w; cases "fst w < length rows") (simp_all add: write_cell_def map_update list_update_same_conv list_update_beyond)

lemma length_write_cell [simp]: "length (write_cell rows w) = length rows"
  by (cases w) (simp add: write_cell_def)

lemma shape_write_cells [simp]: "map length (write_cells rows ws) = map length rows"
  unfolding write_cells_def by (induction ws arbitrary: rows) simp_all

lemma length_write_cells [simp]: "length (write_cells rows ws) = length rows"
  unfolding write_cells_def by (induction ws arbitrary: rows) simp_all

lemma write_cells_Nil [simp]: "write_cells rows [] = rows"
  by (simp add: write_cells_def)

lemma write_cells_append: "write_cells rows (ws @ vs) = write_cells (write_cells rows ws) vs"
  by (simp add: write_cells_def)

lemma write_cell_nth:
  assumes "(i, l) \<in> cells (map length rows)"
  shows "write_cell rows (i, l, x) ! i ! l = x"
    and "(j, k) \<noteq> (i, l) \<Longrightarrow> write_cell rows (i, l, x) ! j ! k = rows ! j ! k"
  using assms by (auto simp: write_cell_def cells_def nth_list_update)

lemma write_cells_other:
  "\<forall>w \<in> set ws. position w \<in> cells (map length rows) \<Longrightarrow> (i, l) \<notin> position ` set ws \<Longrightarrow>
     write_cells rows ws ! i ! l = rows ! i ! l"
proof (induction ws arbitrary: rows)
  case (Cons w ws)
  obtain j k x where w: "w = (j, k, x)" by (cases w)
  have "write_cells rows (w # ws) ! i ! l = write_cells (write_cell rows w) ws ! i ! l"
    by (simp add: write_cells_def)
  also have "\<dots> = write_cell rows w ! i ! l" using Cons by simp
  also have "\<dots> = rows ! i ! l" using Cons.prems unfolding w by (intro write_cell_nth(2)) (auto simp: position_def)
  finally show ?case .
qed simp

lemma write_cells_nth:
  "\<forall>w \<in> set ws. position w \<in> cells (map length rows) \<Longrightarrow> distinct (map position ws) \<Longrightarrow> (i, l, x) \<in> set ws \<Longrightarrow>
     write_cells rows ws ! i ! l = x"
proof (induction ws arbitrary: rows)
  case (Cons w ws)
  have step: "write_cells rows (w # ws) = write_cells (write_cell rows w) ws" by (simp add: write_cells_def)
  show ?case
  proof (cases "w = (i, l, x)")
    case True
    with Cons.prems have "write_cells (write_cell rows w) ws ! i ! l = write_cell rows w ! i ! l"
      by (intro write_cells_other) (auto simp: position_def)
    with True Cons.prems(1) show ?thesis unfolding step by (simp add: position_def write_cell_nth(1))
  next
    case False
    with Cons show ?thesis unfolding step by simp
  qed
qed simp

lemma py_pos_nat: "k < length xs \<Longrightarrow> py_pos xs (int k) = Inr k"
  by (simp add: py_pos_def)

lemma set_link_cell:
  assumes "(i, l) \<in> cells (map length rows)"
  shows "set_link rows (int i) (int l) x = Inr (write_cell rows (i, l, x))"
  using assms by (auto simp: set_link_def py_set_def py_pos_nat cells_def write_cell_def)

section \<open>The data links\<close>

definition link_cell :: "gen_env \<Rightarrow> bool \<Rightarrow> nat \<Rightarrow> cell" where
  "link_cell G isChain c =
     (nat (via_idx_egress (conn_at G c)), nat (via_link_egress (conn_at G c)), egress_port G isChain c)"

definition in_rows :: "gen_env \<Rightarrow> nat list \<Rightarrow> nat \<Rightarrow> bool" where
  "in_rows G ns c \<longleftrightarrow> (\<exists>i l. egress_slot (net_store (ge_net G)) c = (int i, int l) \<and> (i, l) \<in> cells ns)"

lemma egress_links_cells:
  assumes "is_hardware G t = Inr hw" and "length eg = length rows" and "\<forall>c \<in> set cs. in_rows G (map length rows) c"
  shows "\<exists>out'. foldR (egress_link G p t b eg) (rows, out) cs = Inr (write_cells rows (map (link_cell G b) cs), out')"
  using assms(2,3)
proof (induction cs arbitrary: rows out)
  case (Cons c cs)
  obtain i l where il: "via_idx_egress (conn_at G c) = int i" "via_link_egress (conn_at G c) = int l"
    "(i, l) \<in> cells (map length rows)" using Cons.prems(2) by (auto simp: in_rows_def egress_slot_def)
  let ?rows = "write_cell rows (i, l, egress_port G b c)"
  have "i < length eg" using il(3) Cons.prems(1) by (simp add: cells_def)
  then have "py_nth eg (int i) = Inr (eg ! i)" by (simp add: py_nth_def py_pos_nat)
  then obtain out1 where step: "egress_link G p t b eg (rows, out) c = Inr (?rows, out1)"
    using assms(1) il set_link_cell [OF il(3)] by (simp add: egress_link_def)
  have "length eg = length ?rows" using Cons.prems(1) by simp
  moreover have "\<forall>c \<in> set cs. in_rows G (map length ?rows) c" using Cons.prems(2) by simp
  ultimately obtain out2 where "foldR (egress_link G p t b eg) (?rows, out1) cs = Inr (write_cells ?rows (map (link_cell G b) cs), out2)"
    using Cons.IH by blast
  with step il show ?case by (simp add: write_cells_def link_cell_def [of G b c])
qed simp

section \<open>The flow-control links\<close>

definition flow_cells :: "via list \<Rightarrow> nat \<Rightarrow> cell list" where
  "flow_cells ing i =
     map (\<lambda>v. (i, nat (via_outgoing_flowcontrol_link v), via_switch v @ ''.flowcontrol_response''))
       (filter (\<lambda>v. via_outgoing_flowcontrol_via v = int i) ing)"

lemma flow_links_cells:
  assumes "\<forall>v \<in> set ing. \<exists>j l. fc_slot v = (int j, int l) \<and> (j, l) \<in> cells (map length rows)"
  shows "foldR (flow_link i) rows ing = Inr (write_cells rows (flow_cells ing i))"
  using assms
proof (induction ing arbitrary: rows)
  case Nil
  show ?case by (simp add: flow_cells_def)
next
  case (Cons v ing)
  obtain j l where jl: "via_outgoing_flowcontrol_via v = int j" "via_outgoing_flowcontrol_link v = int l"
    "(j, l) \<in> cells (map length rows)" using Cons.prems by (auto simp: fc_slot_def)
  show ?case
  proof (cases "j = i")
    case True
    let ?rows = "write_cell rows (i, l, via_switch v @ ''.flowcontrol_response'')"
    have "flow_link i rows v = Inr ?rows" using jl True set_link_cell [OF jl(3)] by (simp add: flow_link_def)
    moreover have "foldR (flow_link i) ?rows ing = Inr (write_cells ?rows (flow_cells ing i))"
      using Cons by simp
    ultimately show ?thesis using jl True by (simp add: flow_cells_def write_cells_def)
  next
    case False
    with jl have "flow_link i rows v = Inr rows" by (simp add: flow_link_def)
    with Cons jl False show ?thesis by (simp add: flow_cells_def)
  qed
qed

lemma egress_lanes_cells:
  assumes "\<forall>v \<in> set ing. \<exists>j l. fc_slot v = (int j, int l) \<and> (j, l) \<in> cells (map length rows)"
    and "\<forall>(i, e) \<in> set ies. 0 < via_links e \<longrightarrow> (\<exists>k < length ing. via_outgoing_flowcontrol_via e = int k)"
    and "\<forall>(i, e) \<in> set ies. via_links e \<le> 0 \<longrightarrow> flow_cells ing i = []"
  shows "\<exists>out'. foldR (egress_lane G p t ing) (rows, out) ies =
    Inr (write_cells rows (concat (map (\<lambda>x. flow_cells ing (fst x)) ies)), out')"
  using assms
proof (induction ies arbitrary: rows out)
  case (Cons x ies)
  obtain i e where x: "x = (i, e)" by (cases x)
  show ?case
  proof (cases "0 < via_links e")
    case True
    then obtain k where "k < length ing" "via_outgoing_flowcontrol_via e = int k" using Cons.prems(2) x by auto
    then have "py_nth ing (via_outgoing_flowcontrol_via e) = Inr (ing ! k)" by (simp add: py_nth_def py_pos_nat)
    then obtain out1 where "egress_lane G p t ing (rows, out) x = Inr (write_cells rows (flow_cells ing i), out1)"
      using True flow_links_cells [OF Cons.prems(1), of i] by (simp add: x egress_lane_def egress_switch_def Let_def)
    moreover obtain out2 where "foldR (egress_lane G p t ing) (write_cells rows (flow_cells ing i), out1) ies =
        Inr (write_cells (write_cells rows (flow_cells ing i)) (concat (map (\<lambda>x. flow_cells ing (fst x)) ies)), out2)"
      using Cons.IH [of "write_cells rows (flow_cells ing i)" out1] Cons.prems by auto
    ultimately show ?thesis by (simp add: x write_cells_append)
  next
    case False
    then have "egress_lane G p t ing (rows, out) x = Inr (rows, out)" by (simp add: x egress_lane_def)
    moreover have "flow_cells ing i = []" using Cons.prems(3) False x by auto
    ultimately show ?thesis using Cons.IH [of rows out] Cons.prems by (auto simp: x)
  qed
qed simp

section \<open>Every link has its user\<close>

definition cell_at :: "link_rows \<Rightarrow> int \<times> int \<Rightarrow> string" where
  "cell_at rows = (\<lambda>(i, l). rows ! nat i ! nat l)"

definition link_counts :: "via list \<Rightarrow> nat list" where
  "link_counts eg = map (\<lambda>v. nat (via_links v)) eg"

text \<open>The positions of the users of a router: data links first, then flow-control links.\<close>

definition users_ok :: "gen_env \<Rightarrow> string \<Rightarrow> string \<Rightarrow> via list \<Rightarrow> via list \<Rightarrow> bool" where
  "users_ok G p t eg ing \<longleftrightarrow>
     (let H = net_store (ge_net G); cs = egressChannels G p t @ egressChains G p t
      in distinct cs \<and> slots_agree H cs (map via_io_links eg) \<and> distinct (map fc_slot ing) \<and>
         set (map fc_slot ing) = {(int i, l) |i l. i < length eg \<and> via_io_links (eg ! i) \<le> l \<and> l < via_links (eg ! i)} \<and>
         (\<forall>e \<in> set eg. via_io_links e \<le> via_links e \<and> (\<exists>k < length ing. via_outgoing_flowcontrol_via e = int k)))"

lemma users_data:
  assumes "users_ok G p t eg ing" and "c \<in> set (egressChannels G p t @ egressChains G p t)"
  obtains i l where "egress_slot (net_store (ge_net G)) c = (int i, int l)" "i < length eg" "int l < via_io_links (eg ! i)"
    "(i, l) \<in> cells (link_counts eg)"
proof -
  have "slots_agree (net_store (ge_net G)) (egressChannels G p t @ egressChains G p t) (map via_io_links eg)"
    using assms(1) by (simp add: users_ok_def Let_def)
  then have "\<exists>i l. egress_slot (net_store (ge_net G)) c = (int i, l) \<and> i < length (map via_io_links eg) \<and> 0 \<le> l \<and>
      l < map via_io_links eg ! i"
    using assms(2) unfolding slots_agree_def by blast
  then obtain i l where il: "egress_slot (net_store (ge_net G)) c = (int i, l)" "i < length eg" "0 \<le> l"
    "l < via_io_links (eg ! i)" by auto
  moreover have "via_io_links (eg ! i) \<le> via_links (eg ! i)" using assms(1) il(2) by (simp add: users_ok_def Let_def)
  ultimately show thesis using that [of i "nat l"] by (simp add: cells_def link_counts_def)
qed

lemma users_flow:
  assumes "users_ok G p t eg ing" and "v \<in> set ing"
  obtains i l where "fc_slot v = (int i, int l)" "i < length eg" "via_io_links (eg ! i) \<le> int l" "(i, l) \<in> cells (link_counts eg)"
proof -
  have "fc_slot v \<in> set (map fc_slot ing)" using assms(2) by simp
  with assms(1) obtain i l where il: "fc_slot v = (int i, l)" "i < length eg" "via_io_links (eg ! i) \<le> l" "l < via_links (eg ! i)"
    by (auto simp: users_ok_def Let_def)
  moreover have "0 \<le> via_io_links (eg ! i)" using assms(1) il(2) by (simp add: users_ok_def Let_def slots_agree_def)
  ultimately show thesis using that [of i "nat l"] by (simp add: cells_def link_counts_def)
qed

lemma empty_rows_counts [simp]: "map length (empty_rows eg) = link_counts eg" "length (empty_rows eg) = length eg"
  by (simp_all add: empty_rows_def link_counts_def)

text \<open>The cells written for a pair of platforms, and that no two of them coincide.\<close>

definition flow_list :: "via list \<Rightarrow> via list \<Rightarrow> cell list" where
  "flow_list eg ing = concat (map (flow_cells ing) [0..<length eg])"

definition all_cells :: "gen_env \<Rightarrow> string \<Rightarrow> string \<Rightarrow> via list \<Rightarrow> via list \<Rightarrow> cell list" where
  "all_cells G p t eg ing =
     map (link_cell G False) (egressChannels G p t) @ map (link_cell G True) (egressChains G p t) @ flow_list eg ing"

lemma position_link_cell: "map position (map (link_cell G b) cs) = map (\<lambda>c. map_prod nat nat (egress_slot (net_store (ge_net G)) c)) cs"
  by (simp add: link_cell_def position_def egress_slot_def)

lemma flow_cell_mem:
  "w \<in> set (flow_list eg ing) \<longleftrightarrow> (\<exists>v \<in> set ing. \<exists>i < length eg. via_outgoing_flowcontrol_via v = int i \<and>
     w = (i, nat (via_outgoing_flowcontrol_link v), via_switch v @ ''.flowcontrol_response''))"
  by (auto simp: flow_list_def flow_cells_def)

lemma flow_positions_distinct:
  assumes "users_ok G p t eg ing"
  shows "distinct (map position (flow_list eg ing))"
proof -
  have d: "distinct (map fc_slot ing)" using assms by (simp add: users_ok_def Let_def)
  have nonneg: "\<forall>v \<in> set ing. 0 \<le> via_outgoing_flowcontrol_link v"
    using users_flow [OF assms] by (metis fc_slot_def of_nat_0_le_iff prod.inject)
  have row: "map position (flow_cells ing i) =
      map (\<lambda>v. (i, nat (via_outgoing_flowcontrol_link v))) (filter (\<lambda>v. via_outgoing_flowcontrol_via v = int i) ing)" for i
    by (simp add: flow_cells_def position_def)
  have "distinct (map position (flow_cells ing i))" for i
    unfolding row distinct_map
  proof
    show "distinct (filter (\<lambda>v. via_outgoing_flowcontrol_via v = int i) ing)" using d by (simp add: distinct_map)
    show "inj_on (\<lambda>v. (i, nat (via_outgoing_flowcontrol_link v))) (set (filter (\<lambda>v. via_outgoing_flowcontrol_via v = int i) ing))"
    proof (rule inj_onI)
      fix x y
      assume xy: "x \<in> set (filter (\<lambda>v. via_outgoing_flowcontrol_via v = int i) ing)"
        "y \<in> set (filter (\<lambda>v. via_outgoing_flowcontrol_via v = int i) ing)"
        "(i, nat (via_outgoing_flowcontrol_link x)) = (i, nat (via_outgoing_flowcontrol_link y))"
      then have "via_outgoing_flowcontrol_link x = via_outgoing_flowcontrol_link y"
        using nonneg by (simp add: eq_nat_nat_iff)
      with xy(1,2) have "fc_slot x = fc_slot y" by (simp add: fc_slot_def)
      with d xy(1,2) show "x = y" by (simp add: distinct_map inj_on_def)
    qed
  qed
  note rows_distinct = this
  have "distinct (map position (concat (map (flow_cells ing) [0..<n])))" for n
  proof (induction n)
    case (Suc n)
    have "fst x < n" if "x \<in> set (map position (concat (map (flow_cells ing) [0..<n])))" for x
      using that by (auto simp: flow_cells_def position_def)
    moreover have "fst x = n" if "x \<in> set (map position (flow_cells ing n))" for x
      using that by (auto simp: flow_cells_def position_def)
    ultimately have "set (map position (concat (map (flow_cells ing) [0..<n]))) \<inter> set (map position (flow_cells ing n)) = {}"
      by (metis disjoint_iff less_irrefl)
    with Suc rows_distinct show ?case by simp
  qed simp
  then show ?thesis by (simp add: flow_list_def)
qed

lemma cells_disjoint:
  assumes "users_ok G p t eg ing" and "c \<in> set (egressChannels G p t @ egressChains G p t)" and "w \<in> set (flow_list eg ing)"
  shows "map_prod nat nat (egress_slot (net_store (ge_net G)) c) \<noteq> position w"
proof -
  obtain i l where c: "egress_slot (net_store (ge_net G)) c = (int i, int l)" "int l < via_io_links (eg ! i)"
    by (rule users_data [OF assms(1,2)])
  from assms(3) obtain v j where v: "v \<in> set ing" "via_outgoing_flowcontrol_via v = int j"
    "w = (j, nat (via_outgoing_flowcontrol_link v), via_switch v @ ''.flowcontrol_response'')"
    by (auto simp: flow_cell_mem)
  obtain i' l' where "fc_slot v = (int i', int l')" "via_io_links (eg ! i') \<le> int l'" by (rule users_flow [OF assms(1) v(1)])
  with c v show ?thesis by (auto simp: position_def fc_slot_def)
qed

lemma all_cells_ok:
  assumes "users_ok G p t eg ing"
  shows "distinct (map position (all_cells G p t eg ing))"
    and "\<forall>w \<in> set (all_cells G p t eg ing). position w \<in> cells (link_counts eg)"
proof -
  let ?cs = "egressChannels G p t @ egressChains G p t"
  let ?slot = "\<lambda>c. map_prod nat nat (egress_slot (net_store (ge_net G)) c)"
  have inj: "inj_on (egress_slot (net_store (ge_net G))) (set ?cs)" "distinct ?cs"
    using assms by (simp_all add: users_ok_def Let_def slots_agree_def)
  have "inj_on ?slot (set ?cs)"
  proof (rule inj_onI)
    fix c d
    assume cd: "c \<in> set ?cs" "d \<in> set ?cs" "?slot c = ?slot d"
    obtain i l where "egress_slot (net_store (ge_net G)) c = (int i, int l)" by (rule users_data [OF assms cd(1)])
    moreover obtain j k where "egress_slot (net_store (ge_net G)) d = (int j, int k)" by (rule users_data [OF assms cd(2)])
    ultimately have "egress_slot (net_store (ge_net G)) c = egress_slot (net_store (ge_net G)) d" using cd(3) by simp
    from inj_onD [OF inj(1) this cd(1,2)] show "c = d" .
  qed
  with inj(2) have data: "distinct (map ?slot ?cs)" by (simp only: distinct_map simp_thms)
  have pos: "map position (all_cells G p t eg ing) = map ?slot ?cs @ map position (flow_list eg ing)"
    by (simp add: all_cells_def link_cell_def position_def egress_slot_def)
  have "set (map ?slot ?cs) \<inter> set (map position (flow_list eg ing)) = {}"
    using cells_disjoint [OF assms] by auto
  with data flow_positions_distinct [OF assms] show "distinct (map position (all_cells G p t eg ing))"
    by (simp only: pos distinct_append simp_thms)
  have "?slot c \<in> cells (link_counts eg)" if "c \<in> set ?cs" for c
    by (rule users_data [OF assms that]) simp
  moreover have "position w \<in> cells (link_counts eg)" if "w \<in> set (flow_list eg ing)" for w
  proof -
    from that obtain v j where v: "v \<in> set ing" "via_outgoing_flowcontrol_via v = int j"
      "w = (j, nat (via_outgoing_flowcontrol_link v), via_switch v @ ''.flowcontrol_response'')"
      by (auto simp: flow_cell_mem)
    obtain i l where "fc_slot v = (int i, int l)" "(i, l) \<in> cells (link_counts eg)" by (rule users_flow [OF assms v(1)])
    with v show ?thesis by (simp add: position_def fc_slot_def)
  qed
  ultimately have "set (map position (all_cells G p t eg ing)) \<subseteq> cells (link_counts eg)" unfolding pos by auto
  then show "\<forall>w \<in> set (all_cells G p t eg ing). position w \<in> cells (link_counts eg)" by auto
qed

lemma router_cells:
  assumes "users_ok G p t eg ing" and "is_hardware G t = Inr hw"
  shows "\<exists>rows links rows' lanes. data_links G p t eg = Inr (rows, links) \<and>
    egress_lanes_text G p t eg ing rows = Inr (rows', lanes) \<and>
    rows' = write_cells (empty_rows eg) (all_cells G p t eg ing)"
proof -
  have data: "in_rows G (link_counts eg) c" if "c \<in> set (egressChannels G p t @ egressChains G p t)" for c
    by (rule users_data [OF assms(1) that]) (auto simp: in_rows_def)
  let ?rows1 = "write_cells (empty_rows eg) (map (link_cell G False) (egressChannels G p t))"
  let ?rows2 = "write_cells ?rows1 (map (link_cell G True) (egressChains G p t))"
  have shape: "map length ?rows1 = link_counts eg" "map length ?rows2 = link_counts eg" by simp_all
  have len: "length eg = length ?rows1" by simp
  obtain l1 where l1: "foldR (egress_link G p t False eg) (empty_rows eg, []) (egressChannels G p t) = Inr (?rows1, l1)"
    using egress_links_cells [OF assms(2), of eg "empty_rows eg" "egressChannels G p t" p False "[]"] data by auto
  obtain l2 where l2: "foldR (egress_link G p t True eg) (?rows1, l1) (egressChains G p t) = Inr (?rows2, l2)"
    using egress_links_cells [OF assms(2) len, of "egressChains G p t" p True l1] data shape(1) by auto
  have "\<forall>v \<in> set ing. \<exists>j l. fc_slot v = (int j, int l) \<and> (j, l) \<in> cells (map length ?rows2)"
    unfolding shape(2) by (meson users_flow [OF assms(1)])
  moreover have "\<forall>(i, e) \<in> set (List.enumerate 0 eg). 0 < via_links e \<longrightarrow> (\<exists>k < length ing. via_outgoing_flowcontrol_via e = int k)"
    using assms(1) by (auto simp: users_ok_def Let_def in_set_enumerate_eq)
  moreover have "\<forall>(i, e) \<in> set (List.enumerate 0 eg). via_links e \<le> 0 \<longrightarrow> flow_cells ing i = []"
  proof (clarify, rule ccontr)
    fix i e
    assume e: "(i, e) \<in> set (List.enumerate 0 eg)" "via_links e \<le> 0" and "flow_cells ing i \<noteq> []"
    then obtain v where v: "v \<in> set ing" "via_outgoing_flowcontrol_via v = int i"
      by (auto simp: flow_cells_def filter_empty_conv)
    obtain j l where "fc_slot v = (int j, int l)" "(j, l) \<in> cells (link_counts eg)" by (rule users_flow [OF assms(1) v(1)])
    with v e show False by (simp add: fc_slot_def cells_def link_counts_def in_set_enumerate_eq)
  qed
  ultimately obtain l3 where l3: "foldR (egress_lane G p t ing) (?rows2,
        text_if (router_debug G) (nl @ ''DEBUG_SCAN_FIELD_LIST '' @ debug_list p t @ '' = List::nil;'' @ nl)) (List.enumerate 0 eg) =
      Inr (write_cells ?rows2 (concat (map (\<lambda>x. flow_cells ing (fst x)) (List.enumerate 0 eg))), l3)"
    using egress_lanes_cells by blast
  have "map (\<lambda>x. flow_cells ing (fst x)) (List.enumerate 0 eg) = map (flow_cells ing) (map fst (List.enumerate 0 eg))"
    by (simp del: map_fst_enumerate)
  then have "concat (map (\<lambda>x. flow_cells ing (fst x)) (List.enumerate 0 eg)) = flow_list eg ing"
    by (simp add: flow_list_def)
  with l1 l2 l3 show ?thesis
    by (simp add: data_links_def egress_lanes_text_def all_cells_def write_cells_append)
qed

section \<open>The router of an analysed pair\<close>

lemma sink_of_same: "same_links H H' \<Longrightarrow> GenerateVias.sink_of H' = GenerateVias.sink_of H"
  by (rule ext) (rule same_linksD(3))

text \<open>What the analysis gives the two directions of a pair.\<close>

lemma analysed_pair:
  assumes "network_wired env linksOf H"
    and "\<forall>(p, t) \<in> set (egressPlatforms env). ljf_ready awb env linksOf H p t"
    and "analyzeNetworkLJF awb env linksOf H = Some (Inr net)" and "(p, t) \<in> set (egressPlatforms env)"
  shows "same_links H (net_store net)" and "pair_routed (lane_bound awb env) linksOf net p t" and "pair_routed (lane_bound awb env) linksOf net t p"
    and "has_connection env p t = Inr ()" and "has_connection env t p = Inr ()" and "links_wf H (linksOf p t)"
proof -
  have tp: "(t, p) \<in> set (egressPlatforms env)" using assms(1,4) by (auto simp: network_wired_def)
  obtain net' where net': "analyzeNetworkLJF awb env linksOf H = Some (Inr net')" "same_links H (net_store net')"
    "\<forall>(p, t) \<in> set (egressPlatforms env). pair_routed (lane_bound awb env) linksOf net' p t"
    using ljf.analysis_routes [OF assms(1,2)] by (auto simp: analyzeNetworkLJF_def)
  with assms(3) have "net' = net" by simp
  with net' assms(4) tp show "same_links H (net_store net)" "pair_routed (lane_bound awb env) linksOf net p t" "pair_routed (lane_bound awb env) linksOf net t p"
    by auto
  show "has_connection env p t = Inr ()" "has_connection env t p = Inr ()"
    using assms(1,4) tp by (auto simp: network_wired_def pair_wired_def)
  show "links_wf H (linksOf p t)" using assms(2,4) by (auto simp: ljf_ready_def)
qed

lemma connection_lanes:
  assumes "has_connection env p t = Inr ()" and "has_connection env t p = Inr ()"
    and "logicalEgress net (p, t) = Some eg" and "logicalIngress net (p, t) = Some ing"
  shows "egress_lanes env net p t = Inr eg" and "ingress_lanes env net p t = Inr ing"
    and "\<exists>pl. getPlatform env t = Inr pl"
  using assms by (auto simp: has_connection_def egress_lanes_def ingress_lanes_def lanes_of_def getPlatform_def res_simps)

lemma pair_routed_users:
  assumes "pair_routed most linksOf (ge_net G) p t" and "pair_routed most linksOf (ge_net G) t p" and "distinct (linksOf p t)"
    and "linksOf p t = egressChannels G p t @ egressChains G p t"
    and "logicalEgress (ge_net G) (p, t) = Some eg" and "logicalIngress (ge_net G) (p, t) = Some ing"
  shows "users_ok G p t eg ing"
proof -
  from assms(1,5,6) obtain ing' where r:
    "slots_agree (net_store (ge_net G)) (linksOf p t) (map via_io_links eg)" "distinct (map fc_slot ing)"
    "set (map fc_slot ing) = {(int i, l) |i l. i < length eg \<and> via_io_links (eg ! i) \<le> l \<and> l < via_links (eg ! i)}"
    "\<forall>e \<in> set eg. via_links e = via_io_links e + via_flowcontrol_links e \<and> 0 \<le> via_flowcontrol_links e"
    "logicalIngress (ge_net G) (t, p) = Some ing'"
    "map (\<lambda>v. (via_umfType v, via_width v, via_links v, via_io_links v, fc_slot v)) ing'
       = map (\<lambda>v. (via_umfType v, via_width v, via_links v, via_io_links v, fc_slot v)) eg"
    unfolding pair_routed_def by auto
  from assms(2,6) r(5) obtain eg' where q:
    "set (map fc_slot ing') = {(int i, l) |i l. i < length eg' \<and> via_io_links (eg' ! i) \<le> l \<and> l < via_links (eg' ! i)}"
    "map (\<lambda>v. (via_umfType v, via_width v, via_links v, via_io_links v, fc_slot v)) ing
       = map (\<lambda>v. (via_umfType v, via_width v, via_links v, via_io_links v, fc_slot v)) eg'"
    unfolding pair_routed_def by auto
  have len: "length ing = length eg'" using arg_cong [OF q(2), of length] by simp
  have "map fc_slot ing' = map fc_slot eg"
    using arg_cong [OF r(6), of "map (\<lambda>(_, _, _, _, s). s)"] by (simp add: comp_def)
  then have "fc_slot e \<in> set (map fc_slot ing')" if "e \<in> set eg" for e using that by simp
  then have "\<exists>k < length ing. via_outgoing_flowcontrol_via e = int k" if "e \<in> set eg" for e
    using that unfolding q(1) len by (auto simp: fc_slot_def)
  with r assms(3,4) show ?thesis by (simp add: users_ok_def Let_def)
qed

text \<open>The rest of the pair's text needs no more than valid positions.\<close>

lemma py_nth_valid: "0 \<le> i \<Longrightarrow> i < int (length xs) \<Longrightarrow> py_nth xs i = Inr (xs ! nat i)"
  by (simp add: py_nth_def py_pos_def)

lemma pair_router_returns:
  assumes "egress_lanes (ge_env G) (ge_net G) p t = Inr eg" and "ingress_lanes (ge_env G) (ge_net G) p t = Inr ing"
    and "users_ok G p t eg ing" and "is_hardware G t = Inr hw" and "ing \<noteq> []"
    and "\<forall>c \<in> set (ingressChannels G p t @ ingressChains G p t).
      0 \<le> via_idx_ingress (conn_at G c) \<and> via_idx_ingress (conn_at G c) < int (length ing)"
  shows "\<exists>code. pair_router G p t = Inr code"
proof -
  have "\<exists>s. ingress_switch p t eg v = Inr s" if v: "v \<in> set ing" for v
  proof -
    obtain i l where "fc_slot v = (int i, int l)" "i < length eg" by (rule users_flow [OF assms(3) v])
    then have "py_nth eg (via_outgoing_flowcontrol_via v) = Inr (eg ! i)" by (simp add: fc_slot_def py_nth_valid)
    then show ?thesis by (simp add: ingress_switch_def)
  qed
  then have "\<exists>sw. mapR (ingress_switch p t eg) ing = Inr sw" by (intro mapR_total ballI)
  then obtain sw where sw: "mapR (ingress_switch p t eg) ing = Inr sw" ..
  obtain rows links rows' lanes where rl: "data_links G p t eg = Inr (rows, links)"
    "egress_lanes_text G p t eg ing rows = Inr (rows', lanes)"
    using router_cells [OF assms(3,4)] by blast
  have "\<exists>ys. mapR (ingress_link g G t ing) cs = Inr ys" if "set cs \<subseteq> set (ingressChannels G p t @ ingressChains G p t)" for g cs
  proof (intro mapR_total ballI)
    fix c
    assume "c \<in> set cs"
    with that assms(6) show "\<exists>y. ingress_link g G t ing c = Inr y"
      by (auto simp: ingress_link_def assms(4) py_nth_valid)
  qed
  from this [of "ingressChannels G p t" "ingress_channel_text G p t"] this [of "ingressChains G p t" "ingress_chain_text G p t"]
  obtain ys zs where "mapR (ingress_link (ingress_channel_text G p t) G t ing) (ingressChannels G p t) = Inr ys"
    "mapR (ingress_link (ingress_chain_text G p t) G t ing) (ingressChains G p t) = Inr zs"
    by auto
  with assms(1,2,5) sw rl show ?thesis by (simp add: pair_router_def link_manifest_def Let_def)
qed

lemma written_cells:
  assumes "users_ok G p t eg ing" and "w = (i, l, x)" and "w \<in> set (all_cells G p t eg ing)"
  shows "cell_at (write_cells (empty_rows eg) (all_cells G p t eg ing)) (int i, int l) = x"
  using write_cells_nth [of "all_cells G p t eg ing" "empty_rows eg" i l x] all_cells_ok [OF assms(1)] assms(2,3)
  by (simp add: cell_at_def)

lemma link_cell_written:
  assumes "users_ok G p t eg ing" and "c \<in> set (if b then egressChains G p t else egressChannels G p t)"
  shows "cell_at (write_cells (empty_rows eg) (all_cells G p t eg ing)) (egress_slot (net_store (ge_net G)) c) = egress_port G b c"
proof -
  have c: "c \<in> set (egressChannels G p t @ egressChains G p t)" using assms(2) by (cases b) auto
  obtain i l where il: "egress_slot (net_store (ge_net G)) c = (int i, int l)" by (rule users_data [OF assms(1) c])
  have "link_cell G b c \<in> set (all_cells G p t eg ing)" using assms(2) by (cases b) (auto simp: all_cells_def)
  with il show ?thesis using written_cells [OF assms(1), of "link_cell G b c" i l] by (simp add: link_cell_def egress_slot_def)
qed

lemma flow_cell_written:
  assumes "users_ok G p t eg ing" and "v \<in> set ing"
  shows "cell_at (write_cells (empty_rows eg) (all_cells G p t eg ing)) (fc_slot v) = via_switch v @ ''.flowcontrol_response''"
proof -
  obtain i l where il: "fc_slot v = (int i, int l)" "i < length eg" by (rule users_flow [OF assms])
  then have "(i, l, via_switch v @ ''.flowcontrol_response'') \<in> set (flow_list eg ing)"
    using assms(2) by (auto simp: flow_cell_mem fc_slot_def)
  then show ?thesis using il written_cells [OF assms(1) refl, of i l] by (simp add: all_cells_def)
qed

lemma every_link_used:
  assumes "users_ok G p t eg ing" and "i < length eg" and "l < nat (via_links (eg ! i))"
  shows "(int i, int l) \<in> egress_slot (net_store (ge_net G)) ` set (egressChannels G p t @ egressChains G p t) \<union> fc_slot ` set ing"
proof (cases "int l < via_io_links (eg ! i)")
  case True
  then have "(int i, int l) \<in> egress_slot (net_store (ge_net G)) ` set (egressChannels G p t @ egressChains G p t)"
    using assms(1,2) by (simp add: users_ok_def Let_def slots_agree_def)
  then show ?thesis by blast
next
  case False
  then have "(int i, int l) \<in> {(int i, l) |i l. i < length eg \<and> via_io_links (eg ! i) \<le> l \<and> l < via_links (eg ! i)}"
    using assms(2,3) by auto
  moreover have "fc_slot ` set ing = {(int i, l) |i l. i < length eg \<and> via_io_links (eg ! i) \<le> l \<and> l < via_links (eg ! i)}"
    using assms(1) by (simp add: users_ok_def Let_def)
  ultimately show ?thesis by blast
qed

text \<open>The positions of the ingress links are those of the links at the other end.\<close>

lemma ingress_positions:
  assumes "same_links H (net_store net)" and "pair_routed most linksOf net t p" and "logicalIngress net (p, t) = Some ing"
    and "set cs \<subseteq> GenerateVias.sink_of H ` set (linksOf t p)"
  shows "ing \<noteq> []" and "\<forall>c \<in> set cs. 0 \<le> via_idx_ingress (net_store net c) \<and> via_idx_ingress (net_store net c) < int (length ing)"
proof -
  from assms(2,3) obtain eg where r: "eg \<noteq> []" "slots_agree (net_store net) (linksOf t p) (map via_io_links eg)"
    "map (\<lambda>v. (via_umfType v, via_width v, via_links v, via_io_links v, fc_slot v)) ing
       = map (\<lambda>v. (via_umfType v, via_width v, via_links v, via_io_links v, fc_slot v)) eg"
    unfolding pair_routed_def by auto
  have len: "length ing = length eg" using arg_cong [OF r(3), of length] by simp
  with r(1) show "ing \<noteq> []" by auto
  have "0 \<le> via_idx_ingress (net_store net c) \<and> via_idx_ingress (net_store net c) < int (length ing)" if "c \<in> set cs" for c
  proof -
    from that assms(4) obtain d where d: "d \<in> set (linksOf t p)" "c = GenerateVias.sink_of (net_store net) d"
      by (auto simp: sink_of_same [OF assms(1)])
    with r(2) have "ingress_slot (net_store net) c = egress_slot (net_store net) d"
      "\<exists>i l. egress_slot (net_store net) d = (int i, l) \<and> i < length (map via_io_links eg)"
      unfolding slots_agree_def by blast+
    then show ?thesis by (auto simp: ingress_slot_def len)
  qed
  then show "\<forall>c \<in> set cs. 0 \<le> via_idx_ingress (net_store net c) \<and> via_idx_ingress (net_store net c) < int (length ing)" by blast
qed

section \<open>Properties\<close>

text \<open>Two platforms with two channels each way.\<close>

definition wired_gen :: "network \<Rightarrow> gen_env" where
  "wired_gen net = \<lparr>ge_env = wired_env, ge_net = net,
     ge_info = (\<lambda>c. \<lparr>ci_raw_type = ''Bit#(20)'', ci_compressable = False, ci_source = (c = 0 \<or> c = 1 \<or> c = 4 \<or> c = 5),
       ci_cpp_type = ''UMF_MESSAGE'', ci_route_through = False\<rparr>),
     mod_conns = (\<lambda>p. []), mod_chain_conns = (\<lambda>p. []),
     channelsByPartner = (\<lambda>p t. wired_links p t @ map (\<lambda>c. c + 2) (wired_links t p)),
     egressChannels = wired_links, ingressChannels = (\<lambda>p t. map (\<lambda>c. c + 2) (wired_links t p)),
     egressChains = (\<lambda>p t. []), ingressChains = (\<lambda>p t. []),
     type_compression = False, stats_level = 1, router_debug = False\<rparr>"

text \<open>
  C23: The generated router puts every user of a physical connection on the link the analysis gave it.  For
  platforms \<open>p\<close> and \<open>t\<close> of an analysed network the router code is generated without an exception; in the
  arrays of the egress switches towards \<open>t\<close>, of the sizes of the lanes, the link of every channel and
  every chain holds its port, the link of every ingress lane from \<open>t\<close> holds that lane's flow-control
  response, and no link is left without a user.
\<close>

theorem pair_router_links:
  assumes "network_wired env linksOf H"
    and "\<forall>(p, t) \<in> set (egressPlatforms env). ljf_ready awb env linksOf H p t"
    and "analyzeNetworkLJF awb env linksOf H = Some (Inr net)" and "(p, t) \<in> set (egressPlatforms env)"
    and "ge_env G = env" and "ge_net G = net"
    and "linksOf p t = egressChannels G p t @ egressChains G p t"
    and "set (ingressChannels G p t @ ingressChains G p t) \<subseteq> GenerateVias.sink_of H ` set (linksOf t p)"
  shows "\<exists>eg ing rows links rows' lanes code.
      egress_lanes env net p t = Inr eg \<and> ingress_lanes env net p t = Inr ing
    \<and> data_links G p t eg = Inr (rows, links) \<and> egress_lanes_text G p t eg ing rows = Inr (rows', lanes)
    \<and> pair_router G p t = Inr code
    \<and> map length rows' = map (\<lambda>v. nat (via_links v)) eg
    \<and> (\<forall>c \<in> set (egressChannels G p t). cell_at rows' (egress_slot (net_store net) c) = egress_port G False c)
    \<and> (\<forall>c \<in> set (egressChains G p t). cell_at rows' (egress_slot (net_store net) c) = egress_port G True c)
    \<and> (\<forall>v \<in> set ing. cell_at rows' (fc_slot v) = via_switch v @ ''.flowcontrol_response'')
    \<and> (\<forall>i < length rows'. \<forall>l < length (rows' ! i). (int i, int l) \<in> egress_slot (net_store net) ` set (linksOf p t) \<union> fc_slot ` set ing)"
proof -
  note A = analysed_pair [OF assms(1-4)]
  obtain eg ing where r: "logicalEgress net (p, t) = Some eg" "logicalIngress net (p, t) = Some ing"
    using A(2) by (auto simp: pair_routed_def)
  have "links_wf (net_store net) (linksOf p t)" by (rule links_wf_same [OF A(1,6)])
  then have "distinct (linksOf p t)" by (auto simp: links_wf_def distinct_map)
  with A(2,3) r assms(6,7) have users: "users_ok G p t eg ing" by (intro pair_routed_users [of _ linksOf]) simp_all
  note L = connection_lanes [OF A(4,5) r]
  obtain hw where hw: "is_hardware G t = Inr hw" using L(3) assms(5) by (auto simp: is_hardware_def)
  obtain rows links rows' lanes where rows: "data_links G p t eg = Inr (rows, links)"
    "egress_lanes_text G p t eg ing rows = Inr (rows', lanes)"
    "rows' = write_cells (empty_rows eg) (all_cells G p t eg ing)"
    using router_cells [OF users hw] by blast
  have shape: "map length rows' = map (\<lambda>v. nat (via_links v)) eg" by (simp add: rows(3) link_counts_def)
  obtain code where code: "pair_router G p t = Inr code"
    using ingress_positions [OF A(1,3) r(2) assms(8)] pair_router_returns [OF _ _ users hw] L(1,2) assms(5,6) by auto
  have "cell_at rows' (egress_slot (net_store net) c) = egress_port G b c"
    if "c \<in> set (if b then egressChains G p t else egressChannels G p t)" for b c
    using link_cell_written [OF users that] by (simp add: rows(3) assms(6))
  note ports = this [of _ False] this [of _ True]
  have flow: "cell_at rows' (fc_slot v) = via_switch v @ ''.flowcontrol_response''" if "v \<in> set ing" for v
    using flow_cell_written [OF users that] by (simp add: rows(3))
  have used: "(int i, int l) \<in> egress_slot (net_store net) ` set (linksOf p t) \<union> fc_slot ` set ing"
    if il: "i < length rows'" "l < length (rows' ! i)" for i l
  proof -
    have i: "i < length eg" using il(1) arg_cong [OF shape, of length] by simp
    have "length (rows' ! i) = nat (via_links (eg ! i))"
      using arg_cong [OF shape, of "\<lambda>ns. ns ! i"] il(1) i by simp
    with il(2) have "l < nat (via_links (eg ! i))" by simp
    from every_link_used [OF users i this] show ?thesis by (simp only: assms(6,7))
  qed
  from L(1,2) rows(1,2) code shape ports flow used show ?thesis by auto
qed

theorem pair_router_links_witness:
  "\<exists>net eg ing rows links rows' lanes code. analyzeNetworkLJF small_net wired_env wired_links two_links = Some (Inr net)
     \<and> egress_lanes wired_env net ''A'' ''B'' = Inr eg \<and> data_links (wired_gen net) ''A'' ''B'' eg = Inr (rows, links)
     \<and> egress_lanes_text (wired_gen net) ''A'' ''B'' eg ing rows = Inr (rows', lanes)
     \<and> pair_router (wired_gen net) ''A'' ''B'' = Inr code
     \<and> cell_at rows' (egress_slot (net_store net) 1) = egress_port (wired_gen net) False 1"
proof -
  obtain net where net: "analyzeNetworkLJF small_net wired_env wired_links two_links = Some (Inr net)"
    using ljf.analysis_routes [OF wired_network wired_ljf_ready] by (auto simp: analyzeNetworkLJF_def)
  have pt: "(''A'', ''B'') \<in> set (egressPlatforms wired_env)" by (simp add: wired_pairs)
  have "set (ingressChannels (wired_gen net) ''A'' ''B'' @ ingressChains (wired_gen net) ''A'' ''B'')
      \<subseteq> GenerateVias.sink_of two_links ` set (wired_links ''B'' ''A'')"
    by (simp add: wired_gen_def wired_links_def GenerateVias.sink_of_def two_links_def)
  from pair_router_links [OF wired_network wired_ljf_ready net pt _ _ _ this]
  show ?thesis using net by (force simp: wired_gen_def wired_links_def)
qed

end
