(* ===== verification/RouterCPP.thy ===== *)
theory RouterCPP
  imports RouterLinks "HOL-Library.Multiset"
begin

text \<open>
  \<^verbatim>\<open>lim_connect/generate-code/generateCode.py: generateCodeCPP, generateCode\<close>: the router of a software
  platform, and the choice between the two generators.  The channels of a pair of platforms are two vectors, of
  incoming and of outgoing channels; the generated constructor fills each with as many null pointers as there
  are channels and then assigns every channel by its link number.
\<close>

section \<open>The physical connections\<close>

text \<open>What the first loop finds out about a target platform.\<close>

record cpp_pair =
  cp_target :: string
  hopFromTarget :: string
  hopToTarget :: string
  egressVias :: "via list"
  ingressVias :: "via list"

definition egressFactoryName :: "cpp_pair \<Rightarrow> string" where
  "egressFactoryName P = factoryClassNameCPP (hopToTarget P @ ''_OUTGOING'')"

definition ingressFactoryName :: "cpp_pair \<Rightarrow> string" where
  "ingressFactoryName P = factoryClassNameCPP (hopFromTarget P @ ''_INCOMING'')"

text \<open>A list of one name, indexed by a lane.\<close>

definition egressFactory :: "cpp_pair \<Rightarrow> int \<Rightarrow> string res" where
  "egressFactory P i = py_nth [egressFactoryName P] i"

definition cpp_pair_of :: "gen_env \<Rightarrow> string \<Rightarrow> string \<Rightarrow> cpp_pair res" where
  "cpp_pair_of G p t =
     bindR (transit (transitTablesIncoming (ge_env G)) p t) (\<lambda>from.
     bindR (transit (transitTablesOutgoing (ge_env G)) p t) (\<lambda>to.
     bindR (egress_lanes (ge_env G) (ge_net G) p t) (\<lambda>eg.
     bindR (ingress_lanes (ge_env G) (ge_net G) p t) (\<lambda>ing.
     bindR (raise_if (eg = [] \<or> ing = []) IndexError) (\<lambda>_.
     bindR (raise_if (length eg \<noteq> 1 \<or> length ing \<noteq> 1) (SystemExit (-1))) (\<lambda>_.
       Inr \<lparr>cp_target = t, hopFromTarget = from, hopToTarget = to, egressVias = eg, ingressVias = ing\<rparr>))))))"

definition factory_classes :: "cpp_pair \<Rightarrow> string" where
  "factory_classes P =
     factoryClassCPP (via_umfType (hd (egressVias P))) (hopToTarget P @ ''_OUTGOING'') @ nl @ nl @
     factoryClassCPP (via_umfType (hd (ingressVias P))) (hopFromTarget P @ ''_INCOMING'') @ nl @ nl"

definition factoryInitializers :: "cpp_pair \<Rightarrow> string" where
  "factoryInitializers P =
     tb @ tb @ hopFromTarget P @ ''->SetUMFFactory(new '' @ ingressFactoryName P @ ''());'' @ nl @
     tb @ tb @ hopToTarget P @ ''->SetUMFFactory(new '' @ egressFactoryName P @ ''()); '' @ nl"

section \<open>The channels of the vectors\<close>

text \<open>A channel is its position in the vector and the object assigned there.\<close>

type_synonym cpp_channel = "int \<times> string"

definition vector_at :: "string \<Rightarrow> string \<Rightarrow> int \<Rightarrow> string" where
  "vector_at vec t k = vec @ ''['' @ quoted t @ '']->at('' @ int_str k @ '')''"

definition cpp_channel_text :: "string \<Rightarrow> string \<Rightarrow> cpp_channel \<Rightarrow> string" where
  "cpp_channel_text vec t = (\<lambda>(k, object). tb @ tb @ vector_at vec t k @ '' = '' @ object)"

definition mergedOutQ :: "string \<Rightarrow> string" where
  "mergedOutQ t = ''mergedOutQ['' @ quoted t @ '']''"

definition flow_out :: "cpp_pair \<Rightarrow> via \<Rightarrow> cpp_channel" where
  "flow_out P v =
     (via_outgoing_flowcontrol_link v,
      ''new  FLOWCONTROL_OUT_CLASS(incomingChannels['' @ quoted (cp_target P) @ ''],'' @ mergedOutQ (cp_target P) @ '');'' @ nl)"

definition flow_in :: "cpp_pair \<Rightarrow> via \<Rightarrow> cpp_channel res" where
  "flow_in P v =
     bindR (egressFactory P (via_outgoing_flowcontrol_via v)) (\<lambda>factory.
       Inr (via_outgoing_flowcontrol_link v,
         ''new FLOWCONTROL_IN_CLASS(outgoingChannels['' @ quoted (cp_target P) @ ''],'' @ mergedOutQ (cp_target P) @
         '',(UMF_FACTORY) new '' @ factory @ ''(),'' @ int_str (via_outgoing_flowcontrol_link v) @ '');'' @ nl))"

definition flow_init :: "string \<Rightarrow> string \<Rightarrow> string \<Rightarrow> via \<Rightarrow> string" where
  "flow_init cls vec t v =
     tb @ tb @ ''(('' @ cls @ ''*)'' @ vector_at vec t (via_outgoing_flowcontrol_link v) @ '')->Init();'' @ nl"

definition flowcontrolInit :: "cpp_pair \<Rightarrow> string" where
  "flowcontrolInit P =
     text_for (flow_init ''FLOWCONTROL_OUT_CLASS'' ''outgoingChannels'' (cp_target P)) (ingressVias P) @
     text_for (flow_init ''FLOWCONTROL_IN_CLASS'' ''incomingChannels'' (cp_target P)) (egressVias P)"

text \<open>The types software knows.\<close>

definition magicTypeTable :: "(string \<times> string) list" where
  "magicTypeTable =
     [(''umf_cn__cn_GENERIC_UMF_PACKET_po__lp_umf_cn__cn_GENERIC_UMF_PACKET_HEADER_po__lp_4_cm__s_8_cm__s_4_cm__s_10_cm__s_6_cm__s_96_rp__cm__s_Bit_po__lp_128_rp__rp_'',
       ''UMF_MESSAGE''),
      (''Bit_po__lp_128_rp_'', ''UINT128'')]"

definition magic_type :: "gen_env \<Rightarrow> nat \<Rightarrow> string res" where
  "magic_type G c = (let ty = ci_cpp_type (ge_info G c) in get_key magicTypeTable ty (KeyError ty))"

text \<open>The class of a channel; its type is looked up only when the channel ends in software.\<close>

definition channel_class :: "gen_env \<Rightarrow> string \<Rightarrow> nat \<Rightarrow> string res" where
  "channel_class G dir c =
     (if ci_route_through (ge_info G c) then Inr (''ROUTE_THROUGH_LI_CHANNEL_'' @ dir @ ''_CLASS'')
      else bindR (magic_type G c) (\<lambda>ty. Inr (''MARSHALLED_LI_CHANNEL_'' @ dir @ ''_CLASS<'' @ ty @ ''>'')))"

definition recv_channel :: "gen_env \<Rightarrow> cpp_pair \<Rightarrow> nat \<Rightarrow> cpp_channel res" where
  "recv_channel G P c =
     bindR (channel_class G ''IN'' c) (\<lambda>cls.
     bindR (py_nth (ingressVias P) (via_idx_ingress (conn_at G c))) (\<lambda>v.
     bindR (egressFactory P (via_outgoing_flowcontrol_via v)) (\<lambda>factory.
       Inr (via_link_ingress (conn_at G c),
         ''new '' @ cls @ ''('' @ mergedOutQ (cp_target P) @ '', '' @ quoted (name_of G c) @ '', (UMF_FACTORY) new '' @
         factory @ ''(), '' @ int_str (via_outgoing_flowcontrol_link (hd (ingressVias P))) @ '');//'' @
         int_str (via_link_ingress (conn_at G c)) @ nl @ nl))))"

definition send_channel :: "gen_env \<Rightarrow> cpp_pair \<Rightarrow> nat \<Rightarrow> cpp_channel res" where
  "send_channel G P c =
     bindR (channel_class G ''OUT'' c) (\<lambda>cls.
     bindR (py_nth (egressVias P) (via_idx_egress (conn_at G c))) (\<lambda>v.
     bindR (egressFactory P (via_outgoing_flowcontrol_via v)) (\<lambda>factory.
       Inr (via_link_egress (conn_at G c),
         ''new '' @ cls @ ''('' @ mergedOutQ (cp_target P) @ '',(UMF_FACTORY) new '' @ factory @ ''(),'' @ nl @ tb @ tb @
         quoted (name_of G c) @ '','' @ int_str (via_link_egress (conn_at G c)) @ '');'' @ nl @ nl))))"

text \<open>The incoming and the outgoing channels of a pair: flow control first, then the connections in their order.\<close>

definition add_channel ::
  "gen_env \<Rightarrow> cpp_pair \<Rightarrow> cpp_channel list \<times> cpp_channel list \<Rightarrow> nat \<Rightarrow> (cpp_channel list \<times> cpp_channel list) res" where
  "add_channel G P = (\<lambda>(incoming, outgoing) c.
     if sc_type (conn_at G c) = ''Recv'' then bindR (recv_channel G P c) (\<lambda>x. Inr (incoming @ [x], outgoing))
     else if sc_type (conn_at G c) = ''Send'' then bindR (send_channel G P c) (\<lambda>x. Inr (incoming, outgoing @ [x]))
     else Inl (SystemExit 1))"

definition flow_channels :: "cpp_pair \<Rightarrow> (cpp_channel list \<times> cpp_channel list) res" where
  "flow_channels P = bindR (mapR (flow_in P) (egressVias P)) (\<lambda>incoming. Inr (incoming, map (flow_out P) (ingressVias P)))"

definition pair_channels ::
  "gen_env \<Rightarrow> string \<Rightarrow> cpp_pair \<Rightarrow> cpp_channel list \<times> cpp_channel list \<Rightarrow> (cpp_channel list \<times> cpp_channel list) res" where
  "pair_channels G p P flow = foldR (add_channel G P) flow (channelsByPartner G p (cp_target P))"

text \<open>Chains cannot end in software; the counts that this pass computes are not used.\<close>

definition only_channels :: "gen_env \<Rightarrow> string \<Rightarrow> string \<Rightarrow> unit res" where
  "only_channels G p t =
     foldR (\<lambda>_ c. raise_if (sc_type (conn_at G c) \<noteq> ''Recv'' \<and> sc_type (conn_at G c) \<noteq> ''Send'') (SystemExit (-1)))
       () (channelsByPartner G p t)"

section \<open>The file\<close>

definition cpp_include :: "string \<Rightarrow> string" where
  "cpp_include f = ''#include '' @ quoted f @ nl"

definition cpp_head :: string where
  "cpp_head =
     ''// Generated by build pipeline'' @ nl @ nl @ ''#ifndef __SW_ROUTING__'' @ nl @ ''#define __SW_ROUTING__'' @ nl @
     text_for cpp_include [''awb/provides/physical_channel.h'', ''awb/provides/channelio.h'',
       ''awb/provides/multifpga_switch.h'', ''awb/provides/umf.h''] @
     ''#include <pthread.h>'' @ nl @ ''#include <vector>'' @ nl @ cpp_include ''tbb/concurrent_queue.h'' @
     ''using namespace std;'' @ nl"

definition class_head :: "nat \<Rightarrow> string" where
  "class_head n =
     ''typedef class CHANNELIO_CLASS* CHANNELIO;'' @ nl @ ''class CHANNELIO_CLASS:  public CHANNELIO_BASE_CLASS'' @ nl @
     ''{'' @ nl @ ''  private:'' @ nl @ tb @ ''// Build up physical channels for this platform'' @ nl @ nl @
     tb @ ''pthread_t       ReaderThreads['' @ num n @ ''];'' @ nl @
     tb @ ''pthread_t       WriterThreads['' @ num n @ ''];'' @ nl @ nl @ nl @
     tb @ ''map<string, tbb::concurrent_bounded_queue<UMF_MESSAGE>*> mergedOutQ;'' @ nl @
     ''  public:'' @ nl @ tb @ ''CHANNELIO_CLASS(PLATFORMS_MODULE module, PHYSICAL_DEVICES physicalDevicesInit):'' @ nl @
     tb @ tb @ ''CHANNELIO_BASE_CLASS(module, physicalDevicesInit)'' @ nl @ nl @ tb @ ''{'' @ nl @
     tb @ tb @ ''//Set up allocators'' @ nl @ nl"

definition null_pointer :: "string \<Rightarrow> string \<Rightarrow> cpp_channel \<Rightarrow> string" where
  "null_pointer vec t x =
     tb @ tb @ vec @ ''['' @ quoted t @ '']->push_back(NULL);/*'' @ cpp_channel_text vec t x @ ''*/'' @ nl"

definition vectors_text :: "cpp_pair \<times> cpp_channel list \<times> cpp_channel list \<Rightarrow> string" where
  "vectors_text = (\<lambda>(P, incoming, outgoing).
     let t = cp_target P
     in tb @ tb @ ''incomingChannels['' @ quoted t @ ''] = (new vector<LI_CHANNEL_IN>());'' @ nl @
        tb @ tb @ ''outgoingChannels['' @ quoted t @ ''] = (new vector<LI_CHANNEL_OUT>());'' @ nl @
        tb @ tb @ mergedOutQ t @ '' = ('' @ hopFromTarget P @ ''->GetWriteQ());'' @ nl @
        tb @ tb @ hopFromTarget P @ ''->RegisterLogicalDeviceName('' @ quoted t @ '');'' @ nl @
        text_for (null_pointer ''incomingChannels'' t) incoming @ text_for (null_pointer ''outgoingChannels'' t) outgoing)"

definition channels_text :: "cpp_pair \<times> cpp_channel list \<times> cpp_channel list \<Rightarrow> string" where
  "channels_text = (\<lambda>(P, incoming, outgoing).
     text_for (cpp_channel_text ''incomingChannels'' (cp_target P)) incoming @
     text_for (cpp_channel_text ''outgoingChannels'' (cp_target P)) outgoing)"

text \<open>
  The code takes the number of the thread from the front of a list and removes it at the end, so the number is
  0 for every connection.
\<close>

definition incomingThreadFuncName :: "string \<Rightarrow> string" where
  "incomingThreadFuncName t = ''inFrom'' @ t @ ''Thread''"

definition reader_text :: "nat list \<Rightarrow> cpp_pair \<Rightarrow> string" where
  "reader_text connections P =
     tb @ tb @ ''readerArgs = (void**) malloc(2*sizeof(void*));'' @ nl @
     tb @ tb @ ''readerArgs[0] = '' @ hopFromTarget P @ '';'' @ nl @
     tb @ tb @ ''readerArgs[1] = incomingChannels['' @ quoted (cp_target P) @ ''];'' @ nl @
     tb @ tb @ ''if (pthread_create(&ReaderThreads['' @ num (hd connections) @ ''],'' @ nl @
     tb @ tb @ ''                   NULL,'' @ nl @
     tb @ tb @ ''                   handleIncomingMessages,'' @ nl @
     tb @ tb @ ''                   readerArgs))'' @ nl @ tb @ tb @ ''{'' @ nl @
     tb @ tb @ tb @ ''perror('' @ quoted (''pthread_create, '' @ incomingThreadFuncName (cp_target P) @ '':'') @ '');'' @ nl @
     tb @ tb @ tb @ ''exit(1);'' @ nl @ tb @ tb @ ''}'' @ nl @ tb @ nl"

fun readers_text :: "nat list \<Rightarrow> cpp_pair list \<Rightarrow> string" where
  "readers_text connections [] = []"
| "readers_text connections (P # Ps) = reader_text connections P @ readers_text (butlast connections) Ps"

definition init_text :: "cpp_pair list \<Rightarrow> string" where
  "init_text Ps =
     tb @ ''void Init()'' @ nl @ tb @ ''{'' @ nl @ tb @ tb @ ''//Instantiate Threads'' @ nl @ nl @
     tb @ tb @ ''void ** readerArgs = NULL;'' @ nl @ tb @ tb @ ''void ** writerArgs = NULL;'' @ nl @
     readers_text [0..<length Ps] Ps @ tb @ ''};//End of class Init'' @ nl @ nl"

text \<open>Without a target platform a number is taken from an empty list.\<close>

definition generateCodeCPP :: "gen_env \<Rightarrow> string \<Rightarrow> (string \<times> string) res" where
  "generateCodeCPP G p =
     (let ts = getTargetPlatforms G p
      in bindR (getPlatform (ge_env G) p) (\<lambda>pl.
         bindR (getAttribute pl ''HEADER'') (\<lambda>headerFile.
         bindR (mapR (\<lambda>t. bindR (cpp_pair_of G p t) (\<lambda>P. bindR (flow_channels P) (\<lambda>flow. Inr (P, flow)))) ts) (\<lambda>Fs.
         bindR (mapR (only_channels G p) ts) (\<lambda>_.
         bindR (raise_if (ts = []) IndexError) (\<lambda>_.
         bindR (mapR (\<lambda>(P, flow). bindR (pair_channels G p P flow) (\<lambda>chs. Inr (P, chs))) Fs) (\<lambda>Cs.
           let Ps = map fst Fs
           in Inr (headerFile,
             cpp_head @ text_for factory_classes Ps @ class_head (length ts) @ text_for factoryInitializers Ps @
             tb @ tb @ ''//Plumb connections'' @ nl @ nl @ text_for vectors_text Cs @ text_for channels_text Cs @
             text_for flowcontrolInit Ps @ tb @ ''};//End of class constructor'' @ nl @ nl @ init_text Ps @
             tb @ ''~CHANNELIO_CLASS(){};'' @ nl @ ''};'' @ nl @ nl @ ''#endif'' @ nl))))))))"

section \<open>Both generators\<close>

text \<open>The files written, in the order of the platforms; a platform of another type gets none.\<close>

definition generate_platform :: "gen_env \<Rightarrow> string \<Rightarrow> (string \<times> string) list res" where
  "generate_platform G p =
     bindR (getPlatform (ge_env G) p) (\<lambda>pl.
     bindR (if platformType pl = ''CPU'' then bindR (generateCodeCPP G p) (\<lambda>f. Inr [f]) else Inr []) (\<lambda>software.
     bindR (if platformType pl = ''FPGA'' \<or> platformType pl = ''BLUESIM'' then bindR (generateCodeBSV G p) (\<lambda>f. Inr [f]) else Inr [])
       (\<lambda>hardware. Inr (software @ hardware))))"

definition generateCode :: "gen_env \<Rightarrow> (string \<times> string) list res" where
  "generateCode G = bindR (mapR (generate_platform G) (getPlatformNames (ge_env G))) (\<lambda>files. Inr (concat files))"

section \<open>Positions of the channels\<close>

lemma one_lane_positions:
  assumes "slots_agree H cs (map via_io_links eg)" and "distinct cs" and "distinct (map fc_slot vs)"
    and "set (map fc_slot vs) = {(int i, l) |i l. i < length eg \<and> via_io_links (eg ! i) \<le> l \<and> l < via_links (eg ! i)}"
    and "eg = [e]" and "via_io_links e \<le> via_links e"
  shows "distinct (map via_outgoing_flowcontrol_link vs @ map (\<lambda>c. snd (egress_slot H c)) cs)"
    and "set (map via_outgoing_flowcontrol_link vs @ map (\<lambda>c. snd (egress_slot H c)) cs) = {0..<via_links e}"
proof -
  have flow: "set (map fc_slot vs) = Pair 0 ` {via_io_links e..<via_links e}" unfolding assms(4) by (auto simp: assms(5))
  have fst_flow: "fc_slot v = (0, via_outgoing_flowcontrol_link v)" if "v \<in> set vs" for v
  proof -
    have "fc_slot v \<in> Pair 0 ` {via_io_links e..<via_links e}" using that flow by (metis image_eqI set_map)
    then show ?thesis by (auto simp: fc_slot_def)
  qed
  have data: "egress_slot H c = (0, snd (egress_slot H c)) \<and> 0 \<le> snd (egress_slot H c) \<and> snd (egress_slot H c) < via_io_links e"
    if "c \<in> set cs" for c
    using assms(1,5) that by (fastforce simp: slots_agree_def)
  have "map fc_slot vs = map (Pair 0) (map via_outgoing_flowcontrol_link vs)" using fst_flow by simp
  with assms(3) flow have pairs: "distinct (map (Pair (0 :: int)) (map via_outgoing_flowcontrol_link vs))"
    "Pair (0 :: int) ` set (map via_outgoing_flowcontrol_link vs) = Pair 0 ` {via_io_links e..<via_links e}"
    by (simp_all only: set_map)
  have inj: "inj (Pair (0 :: int) :: int \<Rightarrow> int \<times> int)" by (simp add: inj_def)
  have "distinct (map via_outgoing_flowcontrol_link vs)" using pairs(1) by (simp only: distinct_map)
  moreover have "set (map via_outgoing_flowcontrol_link vs) = {via_io_links e..<via_links e}"
    using pairs(2) by (simp only: inj_image_eq_iff [OF inj])
  ultimately have links: "distinct (map via_outgoing_flowcontrol_link vs)"
    "set (map via_outgoing_flowcontrol_link vs) = {via_io_links e..<via_links e}" by blast+
  have "inj_on (\<lambda>c. snd (egress_slot H c)) (set cs)"
  proof (rule inj_onI)
    fix c d
    assume cd: "c \<in> set cs" "d \<in> set cs" "snd (egress_slot H c) = snd (egress_slot H d)"
    then have "egress_slot H c = egress_slot H d" using data by metis
    with assms(1) cd show "c = d" by (auto simp: slots_agree_def dest: inj_onD)
  qed
  with assms(2) have dist: "distinct (map (\<lambda>c. snd (egress_slot H c)) cs)" by (simp add: distinct_map)
  have "set (map (\<lambda>c. snd (egress_slot H c)) cs) = {0..<via_io_links e}"
  proof
    show "set (map (\<lambda>c. snd (egress_slot H c)) cs) \<subseteq> {0..<via_io_links e}" using data by auto
    show "{0..<via_io_links e} \<subseteq> set (map (\<lambda>c. snd (egress_slot H c)) cs)"
    proof
      fix l
      assume "l \<in> {0..<via_io_links e}"
      with assms(1,5) have "(int 0, l) \<in> egress_slot H ` set cs" by (fastforce simp: slots_agree_def)
      then obtain c where c: "c \<in> set cs" "(int 0, l) = egress_slot H c" by blast
      then have "snd (egress_slot H c) = l" by (simp flip: c(2))
      with c(1) show "l \<in> set (map (\<lambda>c. snd (egress_slot H c)) cs)" by auto
    qed
  qed
  moreover have "0 \<le> via_io_links e" using assms(1,5) by (simp add: slots_agree_def)
  ultimately show "set (map via_outgoing_flowcontrol_link vs @ map (\<lambda>c. snd (egress_slot H c)) cs) = {0..<via_links e}"
    "distinct (map via_outgoing_flowcontrol_link vs @ map (\<lambda>c. snd (egress_slot H c)) cs)"
    using links dist assms(6) by auto
qed

text \<open>Every channel of a pair, in order, when its type and its lanes are known.\<close>

definition channel_ready :: "gen_env \<Rightarrow> nat \<Rightarrow> bool" where
  "channel_ready G c \<longleftrightarrow> ci_route_through (ge_info G c) \<or> ci_cpp_type (ge_info G c) \<in> set (keys magicTypeTable)"

lemma channel_class_ready: "channel_ready G c \<Longrightarrow> \<exists>cls. channel_class G dir c = Inr cls"
  by (auto simp: channel_ready_def channel_class_def magic_type_def get_key_def keys_map_of Let_def)

lemma pair_channels_positions:
  assumes "ingressVias P = [i]" and "egressVias P = [e]"
    and "via_outgoing_flowcontrol_via i = 0" and "via_outgoing_flowcontrol_via e = 0"
    and "\<forall>c \<in> set cs. channel_ready G c \<and>
      (sc_type (conn_at G c) = ''Recv'' \<and> via_idx_ingress (conn_at G c) = 0 \<or>
       sc_type (conn_at G c) = ''Send'' \<and> via_idx_egress (conn_at G c) = 0)"
  shows "\<exists>inc' out'. foldR (add_channel G P) (inc, out) cs = Inr (inc', out') \<and>
    map fst inc' = map fst inc @ map (\<lambda>c. via_link_ingress (conn_at G c)) (filter (\<lambda>c. sc_type (conn_at G c) = ''Recv'') cs) \<and>
    map fst out' = map fst out @ map (\<lambda>c. via_link_egress (conn_at G c)) (filter (\<lambda>c. sc_type (conn_at G c) = ''Send'') cs)"
  using assms(5)
proof (induction cs arbitrary: inc out)
  case (Cons c cs)
  then obtain cls cls' where "channel_class G ''IN'' c = Inr cls" "channel_class G ''OUT'' c = Inr cls'"
    using channel_class_ready by (metis list.set_intros(1))
  note ready = this assms(1-4)
  have rest: "\<forall>c \<in> set cs. channel_ready G c \<and>
      (sc_type (conn_at G c) = ''Recv'' \<and> via_idx_ingress (conn_at G c) = 0 \<or>
       sc_type (conn_at G c) = ''Send'' \<and> via_idx_egress (conn_at G c) = 0)" using Cons.prems by simp
  from Cons.prems consider (recv) "sc_type (conn_at G c) = ''Recv''" "via_idx_ingress (conn_at G c) = 0"
    | (send) "sc_type (conn_at G c) = ''Send''" "via_idx_egress (conn_at G c) = 0" by auto
  then show ?case
  proof cases
    case recv
    then obtain object where "recv_channel G P c = Inr (via_link_ingress (conn_at G c), object)"
      using ready by (simp add: recv_channel_def egressFactory_def py_nth_def py_pos_def)
    with recv Cons.IH [OF rest, of "inc @ [(via_link_ingress (conn_at G c), object)]" out] show ?thesis
      by (auto simp: add_channel_def)
  next
    case send
    then obtain object where "send_channel G P c = Inr (via_link_egress (conn_at G c), object)"
      using ready by (simp add: send_channel_def egressFactory_def py_nth_def py_pos_def)
    with send Cons.IH [OF rest, of inc "out @ [(via_link_egress (conn_at G c), object)]"] show ?thesis
      by (auto simp: add_channel_def)
  qed
qed simp

lemma flow_channels_positions:
  assumes "egressVias P = [e]" and "via_outgoing_flowcontrol_via e = 0"
  shows "\<exists>inc out. flow_channels P = Inr (inc, out) \<and> map fst inc = map via_outgoing_flowcontrol_link (egressVias P) \<and>
    map fst out = map via_outgoing_flowcontrol_link (ingressVias P)"
  using assms by (auto simp: flow_channels_def flow_in_def flow_out_def egressFactory_def py_nth_def py_pos_def)

text \<open>A pair of platforms with one lane in each direction.\<close>

lemma pair_routed_one_lane:
  assumes "pair_routed most linksOf net p t" and "pair_routed most linksOf net t p" and "distinct (linksOf p t)"
    and "logicalEgress net (p, t) = Some [e]" and "logicalIngress net (p, t) = Some [i]"
  shows "via_outgoing_flowcontrol_via i = 0" and "via_outgoing_flowcontrol_via e = 0"
    and "distinct (via_outgoing_flowcontrol_link i # map (\<lambda>c. snd (egress_slot (net_store net) c)) (linksOf p t))"
    and "set (via_outgoing_flowcontrol_link i # map (\<lambda>c. snd (egress_slot (net_store net) c)) (linksOf p t)) = {0..<via_links e}"
    and "\<forall>c \<in> set (linksOf p t). via_idx_egress (net_store net c) = 0"
    and "\<exists>e' i'. logicalEgress net (t, p) = Some [e'] \<and> logicalIngress net (t, p) = Some [i'] \<and>
      via_outgoing_flowcontrol_link i' = via_outgoing_flowcontrol_link e"
    and "\<forall>c \<in> set (linksOf p t). ingress_slot (net_store net) (GenerateVias.sink_of (net_store net) c) = egress_slot (net_store net) c"
proof -
  from assms(1,4,5) obtain ing' where r:
    "slots_agree (net_store net) (linksOf p t) (map via_io_links [e])" "distinct (map fc_slot [i])"
    "set (map fc_slot [i]) = {(int k, l) |k l. k < length [e] \<and> via_io_links ([e] ! k) \<le> l \<and> l < via_links ([e] ! k)}"
    "via_links e = via_io_links e + via_flowcontrol_links e \<and> 0 \<le> via_flowcontrol_links e"
    "logicalIngress net (t, p) = Some ing'"
    "map (\<lambda>v. (via_umfType v, via_width v, via_links v, via_io_links v, fc_slot v)) ing'
       = map (\<lambda>v. (via_umfType v, via_width v, via_links v, via_io_links v, fc_slot v)) [e]"
    unfolding pair_routed_def by auto
  from assms(2,5) r(5) obtain eg' where q: "logicalEgress net (t, p) = Some eg'"
    "set (map fc_slot ing') = {(int k, l) |k l. k < length eg' \<and> via_io_links (eg' ! k) \<le> l \<and> l < via_links (eg' ! k)}"
    "map (\<lambda>v. (via_umfType v, via_width v, via_links v, via_io_links v, fc_slot v)) [i]
       = map (\<lambda>v. (via_umfType v, via_width v, via_links v, via_io_links v, fc_slot v)) eg'"
    unfolding pair_routed_def by auto
  obtain i' where i': "ing' = [i']" "fc_slot i' = fc_slot e" using r(6) by auto
  obtain e' where e': "eg' = [e']" using q(3) by auto
  have "fc_slot i \<in> {(int k, l) |k l. k < length [e] \<and> via_io_links ([e] ! k) \<le> l \<and> l < via_links ([e] ! k)}"
    unfolding r(3) [symmetric] by simp
  then show "via_outgoing_flowcontrol_via i = 0" by (auto simp: fc_slot_def)
  have "fc_slot i' \<in> set (map fc_slot ing')" by (simp add: i')
  then show "via_outgoing_flowcontrol_via e = 0" unfolding q(2) e' i'(2) by (auto simp: fc_slot_def)
  from one_lane_positions [OF r(1) assms(3) r(2,3) refl] r(4)
  show "distinct (via_outgoing_flowcontrol_link i # map (\<lambda>c. snd (egress_slot (net_store net) c)) (linksOf p t))"
    and "set (via_outgoing_flowcontrol_link i # map (\<lambda>c. snd (egress_slot (net_store net) c)) (linksOf p t)) = {0..<via_links e}"
    by simp_all
  show "\<forall>c \<in> set (linksOf p t). via_idx_egress (net_store net c) = 0"
    using r(1) by (fastforce simp: slots_agree_def egress_slot_def)
  show "\<exists>e' i'. logicalEgress net (t, p) = Some [e'] \<and> logicalIngress net (t, p) = Some [i'] \<and>
      via_outgoing_flowcontrol_link i' = via_outgoing_flowcontrol_link e"
    using q(1) e' r(5) i' by (simp add: fc_slot_def)
  show "\<forall>c \<in> set (linksOf p t). ingress_slot (net_store net) (GenerateVias.sink_of (net_store net) c) = egress_slot (net_store net) c"
    using r(1) by (simp add: slots_agree_def)
qed

text \<open>A list of positions that is a permutation of an initial segment has as many entries as the segment.\<close>

lemma positions_fill:
  assumes "distinct ks" and "set ks = {0..<n}" and "0 \<le> n" and "mset (map fst xs) = mset ks"
  shows "distinct (map fst xs)" and "set (map fst xs) = {0..<int (length xs)}"
proof -
  have "length xs = length ks" using assms(4) by (metis length_map size_mset)
  moreover have "length ks = nat n" using distinct_card [OF assms(1)] assms(2) by simp
  ultimately show "set (map fst xs) = {0..<int (length xs)}"
    using assms(2,3) mset_eq_setD [OF assms(4)] by simp
  show "distinct (map fst xs)" using assms(1) mset_eq_imp_distinct_iff [OF assms(4)] by blast
qed

text \<open>At most one lane each way is one lane each way.\<close>

lemma pair_routed_single:
  assumes "pair_routed most linksOf net p t" and "pair_routed most linksOf net t p"
    and "logicalEgress net (p, t) = Some eg" and "logicalIngress net (p, t) = Some ing"
    and "most p t \<le> 1" and "most t p \<le> 1"
  shows "\<exists>e i. eg = [e] \<and> ing = [i]"
proof -
  have "eg \<noteq> [] \<and> length eg \<le> most p t" using assms(1,3) by (auto simp: pair_routed_def)
  then have "0 < length eg" "length eg \<le> 1" using assms(5) by simp_all
  then have "length eg = 1" by linarith
  moreover have "length ing = 1"
  proof -
    from assms(2,4) obtain eg' where eg': "eg' \<noteq> []" "length eg' \<le> most t p"
      "map (\<lambda>v. (via_umfType v, via_width v, via_links v, via_io_links v, fc_slot v)) ing
         = map (\<lambda>v. (via_umfType v, via_width v, via_links v, via_io_links v, fc_slot v)) eg'"
      unfolding pair_routed_def by auto
    have "length ing = length eg'" using arg_cong [OF eg'(3), of length] by simp
    moreover have "0 < length eg'" "length eg' \<le> 1" using eg'(1,2) assms(6) by simp_all
    ultimately show ?thesis by linarith
  qed
  ultimately show ?thesis by (simp add: length_Suc_conv)
qed

lemma pair_wired_transit:
  assumes "network_wired env linksOf H" and "(p, t) \<in> set (egressPlatforms env)"
  shows "\<exists>x y. transit (transitTablesIncoming env) p t = Inr x \<and> transit (transitTablesOutgoing env) p t = Inr y"
proof -
  have "pair_wired env p t" "pair_wired env t p" using assms by (auto simp: network_wired_def)
  then show ?thesis by (simp add: pair_wired_def table_entry_def transit_def)
qed

section \<open>Properties\<close>

text \<open>The two platforms with two links each way, one of them a software platform.\<close>

definition soft_env :: fpga_env where
  "soft_env = wired_env\<lparr>platforms := map (\<lambda>(k, pl). (k, pl\<lparr>platformType := if k = ''A'' then ''CPU'' else ''FPGA''\<rparr>)) (platforms wired_env)\<rparr>"

text \<open>Their connections, told apart by their direction.\<close>

definition soft_links :: store where
  "soft_links = (\<lambda>c. (two_links c)\<lparr>sc_type := (if c \<in> {2, 3, 6, 7} then ''Recv'' else ''Send'')\<rparr>)"

lemma soft_pairs: "egressPlatforms soft_env = [(''A'', ''B''), (''B'', ''A'')]"
  by (simp add: soft_env_def egressPlatforms_def wired_env_def chain_platforms_def platform_eval)

lemma soft_network: "network_wired soft_env wired_links soft_links"
  unfolding network_wired_def soft_pairs
  by (simp add: soft_env_def pair_wired_def has_connection_def getPlatform_def getPlatformNames_def get_key_def
      wired_env_def chain_platforms_def platform_eval getEgress_def getIngress_def via_at_def
      table_entry_def links_apart_def wired_links_def GenerateVias.sink_of_def two_links_def soft_links_def)

lemma soft_ready: "\<forall>(p, t) \<in> set (egressPlatforms soft_env). ljf_ready small_net soft_env wired_links soft_links p t"
proof -
  have "pair_ready soft_env ''A'' ''B'' 128" "pair_ready soft_env ''B'' ''A'' 128"
    by (simp_all add: soft_env_def pair_ready_def wired_env_def chain_platforms_def platform_eval getEgress_def via_at_def
      table_entry_def get_key_def)
  then have "\<exists>width>0. pair_ready soft_env ''A'' ''B'' width" "\<exists>width>0. pair_ready soft_env ''B'' ''A'' width"
    by (intro exI [of _ 128]; simp)+
  moreover have "links_wf soft_links [0, 1]" "links_wf soft_links [4, 5]" by (simp_all add: links_wf_def two_links_def soft_links_def GenerateVias.sink_of_def)
  ultimately show ?thesis
    unfolding soft_pairs by (simp add: ljf_ready_def wired_links_def small_net_def)
qed

definition soft_gen :: "network \<Rightarrow> gen_env" where
  "soft_gen net = (wired_gen net)\<lparr>ge_env := soft_env,
     ge_info := (\<lambda>c. (ge_info (wired_gen net) c)\<lparr>ci_cpp_type := ''Bit_po__lp_128_rp_''\<rparr>)\<rparr>"

text \<open>
  C37: The generated software router leaves no hole in its channel vectors.  For a software platform \<open>p\<close> (or one
  that talks to a software platform \<open>t\<close>) of an analysed network, when the channels of the pair are the
  links from \<open>p\<close> and the sinks of the links to \<open>p\<close>, of known types: the check for a single lane succeeds,
  the incoming and the outgoing channels are generated without an exception, every position that is assigned
  exists in its vector, no position is assigned twice, and every null pointer is replaced.
\<close>

theorem cpp_channels_fill:
  assumes "network_wired env linksOf H"
    and "\<forall>(p, t) \<in> set (egressPlatforms env). ljf_ready awb env linksOf H p t"
    and "analyzeNetworkLJF awb env linksOf H = Some (Inr net)" and "(p, t) \<in> set (egressPlatforms env)"
    and "ge_env G = env" and "ge_net G = net" and "cpu_pair env p t = Inr True"
    and "mset (filter (\<lambda>c. sc_type (H c) = ''Send'') (channelsByPartner G p t)) = mset (linksOf p t)"
    and "mset (filter (\<lambda>c. sc_type (H c) = ''Recv'') (channelsByPartner G p t)) = mset (map (GenerateVias.sink_of H) (linksOf t p))"
    and "\<forall>c \<in> set (channelsByPartner G p t). sc_type (H c) \<in> {''Send'', ''Recv''} \<and> channel_ready G c"
  shows "\<exists>P flow incoming outgoing. cpp_pair_of G p t = Inr P \<and> flow_channels P = Inr flow \<and> pair_channels G p P flow = Inr (incoming, outgoing)
    \<and> distinct (map fst incoming) \<and> set (map fst incoming) = {0..<int (length incoming)}
    \<and> distinct (map fst outgoing) \<and> set (map fst outgoing) = {0..<int (length outgoing)}"
proof -
  note A = analysed_pair [OF assms(1-4)]
  have tp: "(t, p) \<in> set (egressPlatforms env)" using assms(1,4) by (auto simp: network_wired_def)
  note B = analysed_pair [OF assms(1-3) tp]
  have kind: "sc_type (net_store net c) = sc_type (H c)" for c using A(1) by (simp add: same_links_def)
  have sink: "GenerateVias.sink_of (net_store net) = GenerateVias.sink_of H" by (rule sink_of_same [OF A(1)])
  have dist: "distinct (linksOf p t)" "distinct (linksOf t p)"
    using A(6) B(6) by (auto simp: links_wf_def distinct_map)
  obtain eg ing where r: "logicalEgress net (p, t) = Some eg" "logicalIngress net (p, t) = Some ing"
    using A(2) by (auto simp: pair_routed_def)
  note L = connection_lanes [OF A(4,5) r]
  have "cpu_pair env t p = Inr True" using assms(7) L(3) by (auto simp: cpu_pair_def getPlatform_def res_simps split: if_splits)
  then have "lane_bound awb env p t = 1" "lane_bound awb env t p = 1"
    using assms(7) by (simp_all add: lane_bound_def getMaxViasPair_def)
  with A(2,3) r obtain e i where one: "eg = [e]" "ing = [i]"
    using pair_routed_single [of "lane_bound awb env" linksOf net p t eg ing] by auto
  obtain P where pair: "cpp_pair_of G p t = Inr P"
    and P: "egressVias P = [e]" "ingressVias P = [i]" "cp_target P = t"
    using pair_wired_transit [OF assms(1,4)] L(1,2) one assms(5,6) by (auto simp: cpp_pair_of_def raise_if_def)
  note D = pair_routed_one_lane [OF A(2,3) dist(1) r [unfolded one]]
  from D(6) obtain e' i' where twin: "logicalEgress net (t, p) = Some [e']" "logicalIngress net (t, p) = Some [i']"
    "via_outgoing_flowcontrol_link i' = via_outgoing_flowcontrol_link e" by blast
  note E = pair_routed_one_lane [OF B(2,3) dist(2) twin(1,2)]
  let ?cs = "channelsByPartner G p t"
  let ?sends = "filter (\<lambda>c. sc_type (H c) = ''Send'') ?cs" and ?recvs = "filter (\<lambda>c. sc_type (H c) = ''Recv'') ?cs"
  have sends: "set ?sends = set (linksOf p t)" by (rule mset_eq_setD [OF assms(8)])
  have recvs: "set ?recvs = GenerateVias.sink_of H ` set (linksOf t p)" using mset_eq_setD [OF assms(9)] by simp
  have slot: "ingress_slot (net_store net) (GenerateVias.sink_of H d) = (0, snd (egress_slot (net_store net) d))"
    if "d \<in> set (linksOf t p)" for d
    using E(5,7) that by (simp add: sink egress_slot_def)
  then have link: "via_link_ingress (net_store net (GenerateVias.sink_of H d)) = snd (egress_slot (net_store net) d)"
    if "d \<in> set (linksOf t p)" for d
    using that by (auto simp: ingress_slot_def)
  have idx: "\<forall>c \<in> set ?cs. channel_ready G c \<and>
      (sc_type (conn_at G c) = ''Recv'' \<and> via_idx_ingress (conn_at G c) = 0 \<or>
       sc_type (conn_at G c) = ''Send'' \<and> via_idx_egress (conn_at G c) = 0)"
  proof
    fix c
    assume c: "c \<in> set ?cs"
    from assms(10) c consider "sc_type (H c) = ''Send''" | "sc_type (H c) = ''Recv''" by auto
    then show "channel_ready G c \<and> (sc_type (conn_at G c) = ''Recv'' \<and> via_idx_ingress (conn_at G c) = 0 \<or>
       sc_type (conn_at G c) = ''Send'' \<and> via_idx_egress (conn_at G c) = 0)"
    proof cases
      case 1
      with c have "c \<in> set (linksOf p t)" using sends by auto
      with 1 c D(5) assms(6,10) kind show ?thesis by simp
    next
      case 2
      with c have "c \<in> GenerateVias.sink_of H ` set (linksOf t p)" unfolding recvs [symmetric] by simp
      then have "via_idx_ingress (net_store net c) = 0" using slot by (auto simp: ingress_slot_def)
      with 2 c assms(6,10) kind show ?thesis by simp
    qed
  qed
  obtain inc out where flow: "flow_channels P = Inr (inc, out)" "map fst inc = [via_outgoing_flowcontrol_link e]"
    "map fst out = [via_outgoing_flowcontrol_link i]"
    using flow_channels_positions [OF P(1) D(2)] by (auto simp: P)
  obtain inc' out' where all: "pair_channels G p P (inc, out) = Inr (inc', out')"
    "map fst inc' = via_outgoing_flowcontrol_link e # map (\<lambda>c. via_link_ingress (net_store net c)) ?recvs"
    "map fst out' = via_outgoing_flowcontrol_link i # map (\<lambda>c. via_link_egress (net_store net c)) ?sends"
    using pair_channels_positions [OF P(2,1) D(1,2) idx, of inc out] flow(2,3) by (auto simp: pair_channels_def P(3) assms(6) kind)
  have out: "mset (map fst out') = mset (via_outgoing_flowcontrol_link i # map (\<lambda>c. snd (egress_slot (net_store net) c)) (linksOf p t))"
    using assms(8) by (simp add: all(3) egress_slot_def del: mset_filter)
  have "image_mset (\<lambda>c. via_link_ingress (net_store net c)) (mset ?recvs)
      = image_mset (\<lambda>d. via_link_ingress (net_store net (GenerateVias.sink_of H d))) (mset (linksOf t p))"
    unfolding assms(9) by (simp add: image_mset.compositionality comp_def)
  also have "\<dots> = image_mset (\<lambda>d. snd (egress_slot (net_store net) d)) (mset (linksOf t p))"
    by (rule image_mset_cong) (simp add: link)
  finally have inc: "mset (map fst inc') = mset (via_outgoing_flowcontrol_link i' # map (\<lambda>c. snd (egress_slot (net_store net) c)) (linksOf t p))"
    by (simp add: all(2) twin(3))
  have "0 \<le> via_links e" "0 \<le> via_links e'"
    using arg_cong [OF D(4), of "(=) {}"] arg_cong [OF E(4), of "(=) {}"] by simp_all
  with positions_fill [OF E(3,4) _ inc] positions_fill [OF D(3,4) _ out] pair flow(1) all(1) show ?thesis by blast
qed

theorem cpp_channels_fill_witness:
  "\<exists>net P flow incoming outgoing. analyzeNetworkLJF small_net soft_env wired_links soft_links = Some (Inr net)
     \<and> cpp_pair_of (soft_gen net) ''A'' ''B'' = Inr P \<and> flow_channels P = Inr flow
     \<and> pair_channels (soft_gen net) ''A'' P flow = Inr (incoming, outgoing)
     \<and> set (map fst outgoing) = {0..<int (length outgoing)}"
proof -
  obtain net where net: "analyzeNetworkLJF small_net soft_env wired_links soft_links = Some (Inr net)"
    using ljf.analysis_routes [OF soft_network soft_ready] by (auto simp: analyzeNetworkLJF_def)
  have pt: "(''A'', ''B'') \<in> set (egressPlatforms soft_env)" by (simp add: soft_pairs)
  have cpu: "cpu_pair soft_env ''A'' ''B'' = Inr True"
    by (simp add: cpu_pair_def soft_env_def wired_env_def get_key_def)
  have chans: "channelsByPartner (soft_gen net) ''A'' ''B'' = [0, 1, 6, 7]"
    by (simp add: soft_gen_def wired_gen_def wired_links_def)
  have kinds: "sc_type (soft_links 0) = ''Send''" "sc_type (soft_links (Suc 0)) = ''Send''"
    "sc_type (soft_links 6) = ''Recv''" "sc_type (soft_links 7) = ''Recv''"
    by (simp_all add: soft_links_def)
  have sinks: "GenerateVias.sink_of soft_links 4 = 6" "GenerateVias.sink_of soft_links 5 = 7"
    by (simp_all add: GenerateVias.sink_of_def soft_links_def two_links_def)
  have "channel_ready (soft_gen net) c" for c
    by (simp add: channel_ready_def soft_gen_def wired_gen_def magicTypeTable_def keys_def)
  then have "\<forall>c \<in> set (channelsByPartner (soft_gen net) ''A'' ''B'').
      sc_type (soft_links c) \<in> {''Send'', ''Recv''} \<and> channel_ready (soft_gen net) c"
    by (simp add: chans kinds)
  from cpp_channels_fill [OF soft_network soft_ready net pt _ _ cpu _ _ this]
  obtain P flow incoming outgoing where "cpp_pair_of (soft_gen net) ''A'' ''B'' = Inr P" "flow_channels P = Inr flow"
    "pair_channels (soft_gen net) ''A'' P flow = Inr (incoming, outgoing)"
    "set (map fst outgoing) = {0..<int (length outgoing)}"
    by (auto simp: soft_gen_def wired_gen_def chans kinds sinks wired_links_def [of "''A''"] wired_links_def [of "''B''"])
  with net show ?thesis by blast
qed

end
