(* ===== verification/BsvType.thy ===== *)
theory BsvType
  imports TextLines
begin

text \<open>
  \<^verbatim>\<open>parsers/bsv-types/type.py\<close>, \<^verbatim>\<open>struct.py\<close>, \<^verbatim>\<open>taggedUnion.py\<close>, \<^verbatim>\<open>member.py\<close> and
  \<^verbatim>\<open>typeclass.py\<close>: the types of Bluespec as objects, with their texts, their equality and their
  references to other types.  The equality is an operation that can raise an exception.
\<close>

section \<open>Types\<close>

text \<open>The terms of a type function are texts (names and numbers) or type functions.\<close>

datatype bsv_term = Word string | Fn string "bsv_term list"

datatype bsv_type =
    Type string "bsv_type list"
  | Function string bsv_type "bsv_type list"
  | NumericType int
  | PolyType string
  | PolyNumericType string
  | TypeRef string string "bsv_type list"
  | Proviso string "bsv_term list"
  | TypeAlias bsv_type bsv_type
  | TypeFunction string "bsv_term list"
  | Struct bsv_type "bsv_member list" int
  | PolyStruct bsv_type "bsv_member list"
  | TaggedUnion bsv_type "bsv_member list" int
  | PolyTaggedUnion bsv_type "bsv_member list"
  | Typeclass bsv_type "bsv_type list"
and bsv_member =
    Member bsv_type string int int
  | PolyMember bsv_type string int

fun member_type :: "bsv_member \<Rightarrow> bsv_type" where
  "member_type (Member t name width index) = t"
| "member_type (PolyMember t name index) = t"

fun member_name :: "bsv_member \<Rightarrow> string" where
  "member_name (Member t name width index) = name"
| "member_name (PolyMember t name index) = name"

fun member_index :: "bsv_member \<Rightarrow> int" where
  "member_index (Member t name width index) = index"
| "member_index (PolyMember t name index) = index"

fun member_width :: "bsv_member \<Rightarrow> int res" where
  "member_width (Member t name width index) = Inr width"
| "member_width (PolyMember t name index) = Inl (AttributeError ''width'')"

text \<open>\<open>TaggedUnion.__init__\<close> takes the greatest width of the members.\<close>

definition payloadwidth :: "bsv_member list \<Rightarrow> int res" where
  "payloadwidth ms = bindR (mapR member_width ms) (\<lambda>ws. Inr (if ws = [] then 0 else Max (set ws)))"

definition tagwidth :: "bsv_member list \<Rightarrow> int \<Rightarrow> int res" where
  "tagwidth ms width = bindR (payloadwidth ms) (\<lambda>w. Inr (width - w))"

definition mk_TaggedUnion :: "bsv_type \<Rightarrow> bsv_member list \<Rightarrow> int \<Rightarrow> bsv_type res" where
  "mk_TaggedUnion t ms width = bindR (payloadwidth ms) (\<lambda>_. Inr (TaggedUnion t ms width))"

section \<open>Texts\<close>

definition params_text :: "string list \<Rightarrow> string" where
  "params_text ps = (if ps = [] then [] else ''#('' @ join '','' ps @ '')'')"

fun term_repr :: "bsv_term \<Rightarrow> string" where
  "term_repr (Word w) = w"
| "term_repr (Fn f ts) = f @ params_text (map term_repr ts)"

text \<open>The texts of the compound types, from the texts of the type and the members.\<close>

definition struct_text :: "string \<Rightarrow> string list \<Rightarrow> int \<Rightarrow> string" where
  [simp]: "struct_text t ms w = ''Struct '' @ t @ '' {members {'' @ join '' '' ms @ ''}} {width '' @ str_of_int w @ ''}''"

definition poly_struct_text :: "string \<Rightarrow> string list \<Rightarrow> string" where
  [simp]: "poly_struct_text t ms = ''Struct {'' @ t @ ''} polymorphic {members {'' @ join '' '' ms @ ''}} ''"

definition union_text :: "string \<Rightarrow> string list \<Rightarrow> int \<Rightarrow> string" where
  [simp]: "union_text t ms w = ''TaggedUnion '' @ t @ '' {members {'' @ join '' '' ms @ ''}} {width '' @ str_of_int w @ ''}''"

definition poly_union_text :: "string \<Rightarrow> string list \<Rightarrow> string" where
  [simp]: "poly_union_text t ms = ''TaggedUnion {'' @ t @ ''} polymorphic {members {'' @ join '' '' ms @ ''}} ''"

definition typeclass_text :: "string \<Rightarrow> string list \<Rightarrow> string" where
  [simp]: "typeclass_text t ts = ''Typeclass {'' @ t @ ''} {instances {'' @ join '' '' ts @ ''}} ''"

definition member_text :: "string \<Rightarrow> string \<Rightarrow> int \<Rightarrow> int \<Rightarrow> string" where
  [simp]: "member_text t n w k = ''{'' @ t @ '' '' @ n @ '' {width '' @ str_of_int w @ ''} '' @ str_of_int k @ '' }''"

definition poly_member_text :: "string \<Rightarrow> string \<Rightarrow> int \<Rightarrow> string" where
  [simp]: "poly_member_text t n k = ''{'' @ t @ '' '' @ n @ '' '' @ str_of_int k @ '' }''"

fun type_repr :: "bsv_type \<Rightarrow> string" and member_repr :: "bsv_member \<Rightarrow> string" where
  "type_repr (Type n ps) = n @ params_text (map type_repr ps)"
| "type_repr (Function n r ps) = ''function '' @ type_repr r @ '' '' @ n @ ''('' @ join '','' (map type_repr ps) @ '')''"
| "type_repr (NumericType k) = str_of_int k"
| "type_repr (PolyType n) = ''{ type '' @ n @ '' }''"
| "type_repr (PolyNumericType n) = ''{numeric type '' @ n @ '' }''"
| "type_repr (TypeRef ns n ps) = ns @ ''::'' @ n @ params_text (map type_repr ps)"
| "type_repr (Proviso n ts) = n @ params_text (map term_repr ts)"
| "type_repr (TypeAlias b a) = ''Alias {'' @ type_repr b @ ''} -> {'' @ type_repr a @ ''}''"
| "type_repr (TypeFunction f ts) = f @ params_text (map term_repr ts)"
| "type_repr (Struct t ms w) = struct_text (type_repr t) (map member_repr ms) w"
| "type_repr (PolyStruct t ms) = poly_struct_text (type_repr t) (map member_repr ms)"
| "type_repr (TaggedUnion t ms w) = union_text (type_repr t) (map member_repr ms) w"
| "type_repr (PolyTaggedUnion t ms) = poly_union_text (type_repr t) (map member_repr ms)"
| "type_repr (Typeclass t ts) = typeclass_text (type_repr t) (map type_repr ts)"
| "member_repr (Member t n w k) = member_text (type_repr t) n w k"
| "member_repr (PolyMember t n k) = poly_member_text (type_repr t) n k"

section \<open>Attributes\<close>

text \<open>The attribute \<open>name\<close> is a text, or the number of a numeric type.\<close>

datatype name_value = SName string | IName int

fun name_attr :: "bsv_type \<Rightarrow> name_value res" where
  "name_attr (Type n ps) = Inr (SName n)"
| "name_attr (Function n r ps) = Inr (SName n)"
| "name_attr (NumericType k) = Inr (IName k)"
| "name_attr (PolyType n) = Inr (SName n)"
| "name_attr (PolyNumericType n) = Inr (SName n)"
| "name_attr (TypeRef ns n ps) = Inr (SName n)"
| "name_attr (Proviso n ts) = Inr (SName n)"
| "name_attr (TypeFunction n ts) = Inr (SName n)"
| "name_attr t = Inl (AttributeError ''name'')"

fun params_attr :: "bsv_type \<Rightarrow> bsv_type list res" where
  "params_attr (Type n ps) = Inr ps"
| "params_attr (Function n r ps) = Inr ps"
| "params_attr (TypeRef ns n ps) = Inr ps"
| "params_attr t = Inl (AttributeError ''params'')"

fun is_CompoundType :: "bsv_type \<Rightarrow> bool" where
  "is_CompoundType (Struct t ms w) = True"
| "is_CompoundType (PolyStruct t ms) = True"
| "is_CompoundType (TaggedUnion t ms w) = True"
| "is_CompoundType (PolyTaggedUnion t ms) = True"
| "is_CompoundType t = False"

text \<open>A polymorphic numeric type is a polymorphic type.\<close>

fun is_PolyType :: "bsv_type \<Rightarrow> bool" where
  "is_PolyType (PolyType n) = True"
| "is_PolyType (PolyNumericType n) = True"
| "is_PolyType t = False"

fun is_numeric :: "bsv_type \<Rightarrow> bool" where
  "is_numeric (NumericType k) = True"
| "is_numeric (PolyNumericType n) = True"
| "is_numeric t = False"

section \<open>Equality\<close>

abbreviation andR :: "bool res \<Rightarrow> bool res \<Rightarrow> bool res" where
  "andR a b \<equiv> bindR a (\<lambda>x. if x then b else Inr False)"

abbreviation orR :: "bool res \<Rightarrow> bool res \<Rightarrow> bool res" where
  "orR a b \<equiv> bindR a (\<lambda>x. if x then Inr True else b)"

text \<open>
  \<open>Type.__eq__\<close>, with the comparison of the parameters as an argument.  A type without parameters asks a
  polymorphic type for its parameters, which it has not.
\<close>

definition type_eq_with :: "string \<Rightarrow> nat \<Rightarrow> (bsv_type list \<Rightarrow> bool res) \<Rightarrow> bsv_type \<Rightarrow> bool res" where
  "type_eq_with n k params_eq other =
     (if is_CompoundType other \<or> is_numeric other then Inr False
      else if is_PolyType other \<and> k = 0 then Inl (AttributeError ''params'')
      else bindR (name_attr other) (\<lambda>m.
        if m \<noteq> SName n then Inr False
        else bindR (params_attr other) (\<lambda>qs. if k = length qs then params_eq qs else Inr False)))"

text \<open>The terms of two type functions are compared up to the length of the first list.\<close>

fun term_eq :: "bsv_term \<Rightarrow> bsv_term \<Rightarrow> bool res" and terms_eq :: "bsv_term list \<Rightarrow> bsv_term list \<Rightarrow> bool res" where
  "term_eq (Word v) (Word w) = Inr (v = w)"
| "term_eq (Word v) (Fn g us) = Inr False"
| "term_eq (Fn f ts) (Word w) = Inr False"
| "term_eq (Fn f ts) (Fn g us) = (if f = g then terms_eq ts us else Inr False)"
| "terms_eq [] us = Inr True"
| "terms_eq (t # ts) [] = Inl IndexError"
| "terms_eq (t # ts) (u # us) = andR (term_eq t u) (terms_eq ts us)"

text \<open>
  \<open>__eq__\<close> of the structs, polymorphic or not, and of the unions, with the comparisons of the type and of the
  \<open>k\<close> members as arguments; and of the members.
\<close>

definition struct_eq_with ::
  "(bsv_type \<Rightarrow> bool res) \<Rightarrow> nat \<Rightarrow> (bsv_member list \<Rightarrow> bool res) \<Rightarrow> bsv_type \<Rightarrow> bool res" where
  [simp]: "struct_eq_with base_eq k ms_eq other =
     (case other of
        PolyType n \<Rightarrow> Inr True
      | PolyNumericType n \<Rightarrow> Inr True
      | PolyStruct u ns \<Rightarrow> andR (base_eq u) (if k = length ns then ms_eq ns else Inr False)
      | Struct u ns v \<Rightarrow> andR (base_eq u) (if k = length ns then ms_eq ns else Inr False)
      | _ \<Rightarrow> Inr False)"

definition union_eq_with ::
  "(bsv_type \<Rightarrow> bool res) \<Rightarrow> nat \<Rightarrow> (bsv_member list \<Rightarrow> bool res) \<Rightarrow> bsv_type \<Rightarrow> bool res" where
  [simp]: "union_eq_with base_eq k ms_eq other =
     (case other of
        PolyType n \<Rightarrow> Inr True
      | PolyNumericType n \<Rightarrow> Inr True
      | PolyTaggedUnion u ns \<Rightarrow> andR (base_eq u) (if k = length ns then ms_eq ns else Inr False)
      | TaggedUnion u ns v \<Rightarrow> andR (base_eq u) (if k = length ns then ms_eq ns else Inr False)
      | _ \<Rightarrow> Inr False)"

definition member_eq_with :: "(bsv_type \<Rightarrow> bool res) \<Rightarrow> string \<Rightarrow> bsv_member \<Rightarrow> bool res" where
  [simp]: "member_eq_with base_eq n other = (if n = member_name other then base_eq (member_type other) else Inr False)"

fun type_eq :: "bsv_type \<Rightarrow> bsv_type \<Rightarrow> bool res"
  and types_eq :: "bsv_type list \<Rightarrow> bsv_type list \<Rightarrow> bool res"
  and member_eq :: "bsv_member \<Rightarrow> bsv_member \<Rightarrow> bool res"
  and members_eq :: "bsv_member list \<Rightarrow> bsv_member list \<Rightarrow> bool res" where
  "type_eq (Type n ps) other = type_eq_with n (length ps) (\<lambda>qs. types_eq ps qs) other"
| "type_eq (Function n r ps) other = type_eq_with n (length ps) (\<lambda>qs. types_eq ps qs) other"
| "type_eq (NumericType k) other = (if is_PolyType other then Inr True else bindR (name_attr other) (\<lambda>m. Inr (m = IName k)))"
| "type_eq (PolyType n) other = Inr (\<not> is_numeric other)"
| "type_eq (PolyNumericType n) other = Inr (is_numeric other)"
| "type_eq (TypeRef ns n ps) other =
     (if (case other of TypeRef ns' m qs \<Rightarrow> ns \<noteq> ns' | _ \<Rightarrow> False) then Inr False
      else type_eq_with n (length ps) (\<lambda>qs. types_eq ps qs) other)"
| "type_eq (Proviso n ts) other = Inr False"
| "type_eq (TypeAlias b a) other = orR (type_eq b other) (type_eq a other)"
| "type_eq (TypeFunction f ts) other =
     (case other of
        TypeFunction g us \<Rightarrow> if f = g then terms_eq ts us else Inr False
      | _ \<Rightarrow> Inr (is_numeric other))"
| "type_eq (Struct t ms w) other = struct_eq_with (\<lambda>u. type_eq t u) (length ms) (\<lambda>ns. members_eq ms ns) other"
| "type_eq (PolyStruct t ms) other = struct_eq_with (\<lambda>u. type_eq t u) (length ms) (\<lambda>ns. members_eq ms ns) other"
| "type_eq (TaggedUnion t ms w) other = union_eq_with (\<lambda>u. type_eq t u) (length ms) (\<lambda>ns. members_eq ms ns) other"
| "type_eq (PolyTaggedUnion t ms) other = union_eq_with (\<lambda>u. type_eq t u) (length ms) (\<lambda>ns. members_eq ms ns) other"
| "type_eq (Typeclass t ts) other =
     (if is_CompoundType other \<or> is_numeric other then Inr False
      else if is_PolyType other then Inl (AttributeError ''params'') else Inl (AttributeError ''name''))"
| "types_eq [] us = Inr True"
| "types_eq (t # ts) [] = Inl IndexError"
| "types_eq (t # ts) (u # us) = andR (type_eq t u) (types_eq ts us)"
| "member_eq (Member t n w k) other = member_eq_with (\<lambda>u. type_eq t u) n other"
| "member_eq (PolyMember t n k) other = member_eq_with (\<lambda>u. type_eq t u) n other"
| "members_eq [] ns = Inr True"
| "members_eq (m # ms) [] = Inl IndexError"
| "members_eq (m # ms) (n # ns) = andR (member_eq m n) (members_eq ms ns)"

section \<open>References\<close>

text \<open>\<open>getTypeRefs\<close> returns nested lists, and the reference itself in the list it starts.\<close>

datatype refs = Ref bsv_type | Refs "refs list"

fun refs_list :: "refs res list \<Rightarrow> refs list res" where
  "refs_list [] = Inr []"
| "refs_list (x # xs) = bindR x (\<lambda>y. bindR (refs_list xs) (\<lambda>ys. Inr (y # ys)))"

text \<open>
  A struct and a tagged union ask the builtin \<open>type\<close> for its references instead of their own type, a
  function reads the undefined \<open>returnType\<close>, and a type class has no parameters.
\<close>

fun getTypeRefs :: "bsv_type \<Rightarrow> refs res" and member_refs :: "bsv_member \<Rightarrow> refs res" where
  "getTypeRefs (Type n ps) = bindR (refs_list (map getTypeRefs ps)) (\<lambda>rs. Inr (Refs rs))"
| "getTypeRefs (Function n r ps) = Inl (NameError ''returnType'')"
| "getTypeRefs (NumericType k) = Inr (Refs [])"
| "getTypeRefs (PolyType n) = Inr (Refs [])"
| "getTypeRefs (PolyNumericType n) = Inr (Refs [])"
| "getTypeRefs (TypeRef ns n ps) = bindR (refs_list (map getTypeRefs ps)) (\<lambda>rs. Inr (Refs (Ref (TypeRef ns n ps) # rs)))"
| "getTypeRefs (Proviso n ts) = Inr (Refs [])"
| "getTypeRefs (TypeAlias b a) = getTypeRefs a"
| "getTypeRefs (TypeFunction f ts) = Inr (Refs [])"
| "getTypeRefs (Struct t ms w) = Inl (AttributeError ''getTypeRefs'')"
| "getTypeRefs (PolyStruct t ms) = bindR (refs_list (map member_refs ms)) (\<lambda>rs. Inr (Refs rs))"
| "getTypeRefs (TaggedUnion t ms w) = Inl (AttributeError ''getTypeRefs'')"
| "getTypeRefs (PolyTaggedUnion t ms) = bindR (refs_list (map member_refs ms)) (\<lambda>rs. Inr (Refs rs))"
| "getTypeRefs (Typeclass t ts) = Inl (AttributeError ''params'')"
| "member_refs (Member t n w k) = bindR (getTypeRefs t) (\<lambda>r. Inr (Refs [r]))"
| "member_refs (PolyMember t n k) = Inr (Refs [])"

text \<open>\<^verbatim>\<open>parse_type.py: flatten\<close>, the references of nested lists in order.\<close>

fun flatten :: "refs \<Rightarrow> bsv_type list" where
  "flatten (Ref t) = [t]"
| "flatten (Refs rs) = concat (map flatten rs)"

section \<open>Equality is identity for closed types\<close>

text \<open>
  A closed type is built from named types, references and numbers.  In a program a name stands for one
  type, of one package (\<open>scope n = Some ns\<close>) or of none.
\<close>

fun closed :: "(string \<Rightarrow> string option) \<Rightarrow> bsv_type \<Rightarrow> bool" where
  "closed scope (Type n ps) = (scope n = None \<and> list_all (closed scope) ps)"
| "closed scope (TypeRef ns n ps) = (scope n = Some ns \<and> list_all (closed scope) ps)"
| "closed scope (NumericType k) = True"
| "closed scope t = False"

text \<open>The types that occur in a type, and the ones a type has to be resolved for.\<close>

fun occurring :: "bsv_type \<Rightarrow> bsv_type list" where
  "occurring (Type n ps) = Type n ps # concat (map occurring ps)"
| "occurring (TypeRef ns n ps) = TypeRef ns n ps # concat (map occurring ps)"
| "occurring t = [t]"

fun is_TypeRef :: "bsv_type \<Rightarrow> bool" where
  "is_TypeRef (TypeRef ns n ps) = True"
| "is_TypeRef t = False"

lemma type_eq_with_closed:
  assumes "closed scope u" and "\<And>qs. list_all (closed scope) qs \<Longrightarrow> length qs = k \<Longrightarrow> params_eq qs = Inr (qs = ps)" and "length ps = k"
  shows "type_eq_with n k params_eq u = Inr (u = (case scope n of None \<Rightarrow> Type n ps | Some ns \<Rightarrow> TypeRef ns n ps))"
proof (cases "is_numeric u")
  case True
  then show ?thesis using assms(1) by (cases u) (auto simp: type_eq_with_def split: option.split)
next
  case False
  with assms show ?thesis by (cases u) (auto simp: type_eq_with_def split: option.split)
qed

lemma types_eq_all:
  "\<forall>t \<in> set ts. \<forall>u. closed scope u \<longrightarrow> type_eq t u = Inr (t = u) \<Longrightarrow> list_all (closed scope) us \<Longrightarrow>
     length us = length ts \<Longrightarrow> types_eq ts us = Inr (us = ts)"
proof (induction ts arbitrary: us)
  case (Cons t ts)
  then obtain u vs where us: "us = u # vs" by (cases us) auto
  with Cons.prems Cons.IH [of vs] show ?case by auto
qed simp

lemma type_eq_closed: "closed scope t \<Longrightarrow> closed scope u \<Longrightarrow> type_eq t u = Inr (t = u)"
proof (induction scope t arbitrary: u rule: closed.induct)
  case (1 scope n ps)
  then have "\<forall>t \<in> set ps. \<forall>u. closed scope u \<longrightarrow> type_eq t u = Inr (t = u)" by (auto simp: list_all_iff)
  then have "type_eq_with n (length ps) (\<lambda>qs. types_eq ps qs) u = Inr (u = (case scope n of None \<Rightarrow> Type n ps | Some ns \<Rightarrow> TypeRef ns n ps))"
    by (intro type_eq_with_closed [OF 1(3)] types_eq_all) auto
  with 1(2) show ?case by auto
next
  case (2 scope ns n ps)
  then have "\<forall>t \<in> set ps. \<forall>u. closed scope u \<longrightarrow> type_eq t u = Inr (t = u)" by (auto simp: list_all_iff)
  then have eq: "type_eq_with n (length ps) (\<lambda>qs. types_eq ps qs) u = Inr (u = (case scope n of None \<Rightarrow> Type n ps | Some ns \<Rightarrow> TypeRef ns n ps))"
    by (intro type_eq_with_closed [OF 2(3)] types_eq_all) auto
  show ?case
  proof (cases "case u of TypeRef ns' m qs \<Rightarrow> ns \<noteq> ns' | _ \<Rightarrow> False")
    case True
    then show ?thesis by (cases u) auto
  next
    case False
    with eq 2(2) show ?thesis by auto
  qed
next
  case (3 scope k)
  then show ?case by (cases u) auto
qed simp_all

lemma refs_list_Inr: "\<forall>x \<in> set xs. f x = Inr (g x) \<Longrightarrow> refs_list (map f xs) = Inr (map g xs)"
  by (induction xs) auto

text \<open>The references of a closed type, in the order in which they occur.\<close>

lemma closed_refs: "closed scope t \<Longrightarrow> \<exists>r. getTypeRefs t = Inr r \<and> flatten r = filter is_TypeRef (occurring t)"
proof (induction scope t rule: closed.induct)
  case (1 scope n ps)
  then have "\<forall>t \<in> set ps. \<exists>r. getTypeRefs t = Inr r \<and> flatten r = filter is_TypeRef (occurring t)" by (auto simp: list_all_iff)
  then obtain g where g: "\<forall>t \<in> set ps. getTypeRefs t = Inr (g t) \<and> flatten (g t) = filter is_TypeRef (occurring t)" by metis
  then have "refs_list (map getTypeRefs ps) = Inr (map g ps)" by (intro refs_list_Inr) simp
  with g show ?case by (simp add: filter_concat comp_def cong: map_cong)
next
  case (2 scope ns n ps)
  then have "\<forall>t \<in> set ps. \<exists>r. getTypeRefs t = Inr r \<and> flatten r = filter is_TypeRef (occurring t)" by (auto simp: list_all_iff)
  then obtain g where g: "\<forall>t \<in> set ps. getTypeRefs t = Inr (g t) \<and> flatten (g t) = filter is_TypeRef (occurring t)" by metis
  then have "refs_list (map getTypeRefs ps) = Inr (map g ps)" by (intro refs_list_Inr) simp
  with g show ?case by (simp add: filter_concat comp_def cong: map_cong)
qed simp_all

section \<open>Where the equality fails\<close>

text \<open>A type without parameters cannot be compared with a polymorphic one, though the converse comparison holds.\<close>

lemma type_poly_fails: "type_eq (Type n []) (PolyType v) = Inl (AttributeError ''params'')"
  and poly_type_equal: "type_eq (PolyType v) (Type n []) = Inr True"
  by (simp_all add: type_eq_with_def)

text \<open>Functions are equal whatever they return, and a type equals a reference of its name to any package.\<close>

lemma function_result_ignored: "type_eq (Function f r []) (Function f r' []) = Inr True"
  and package_ignored: "type_eq (Type n []) (TypeRef ns n []) = Inr True"
  by (simp_all add: type_eq_with_def)

text \<open>Type functions are equal when the terms of the first begin those of the second, and fail the other way round.\<close>

lemma terms_prefix: "type_eq (TypeFunction ''TAdd'' [Word ''a'']) (TypeFunction ''TAdd'' [Word ''a'', Word ''1'']) = Inr True"
  and terms_prefix_fails: "type_eq (TypeFunction ''TAdd'' [Word ''a'', Word ''1'']) (TypeFunction ''TAdd'' [Word ''a'']) = Inl IndexError"
  by simp_all

section \<open>Properties\<close>

text \<open>
  C38: On the types of a program the comparison never fails and is identity, and the references collected
  are the ones that occur: for types built from named types, references and numbers, each name standing for
  one package or none, \<open>==\<close> returns whether the two types are the same, and the flattened references are
  the references inside the type in the order of its text.
\<close>

theorem type_eq_identity:
  assumes "closed scope t" and "closed scope u"
  shows "type_eq t u = Inr (t = u) \<and> (\<exists>r. getTypeRefs t = Inr r \<and> flatten r = filter is_TypeRef (occurring t))"
  using type_eq_closed [OF assms] closed_refs [OF assms(1)] by blast

theorem type_eq_identity_witness:
  "type_eq (TypeRef ''Vector'' ''Vector'' [NumericType 4, Type ''Bit'' [NumericType 32]])
     (TypeRef ''Vector'' ''Vector'' [NumericType 4, Type ''Bit'' [NumericType 8]]) = Inr False"
  using type_eq_identity [of "\<lambda>n. if n = ''Vector'' then Some ''Vector'' else None"
      "TypeRef ''Vector'' ''Vector'' [NumericType 4, Type ''Bit'' [NumericType 32]]"
      "TypeRef ''Vector'' ''Vector'' [NumericType 4, Type ''Bit'' [NumericType 8]]"]
  by simp

end
