(* ===== verification/BsvParser.thy ===== *)
theory BsvParser
  imports BsvType Patterns
begin

text \<open>
  \<^verbatim>\<open>parsers/bsv-types/typelex.py\<close>, \<^verbatim>\<open>typeparse.py\<close> and \<^verbatim>\<open>parse_type.py\<close>: from the text of a
  Bluespec type or declaration to its object.  The parser generator \<open>ply\<close> is not part of this repository; the
  grammar is read with one token of lookahead, and a text outside it raises the \<open>TypeError\<close> of
  \<open>p_error\<close>.  When a rule's action fails, the model reports that at the end of the rule; the code does so too
  unless the next token is already wrong, which raises \<open>TypeError\<close> instead.

  The functions that call each other take a bound on the depth of their calls, and \<open>None\<close> is a depth
  beyond it; \<open>fuel\<close> is always enough (\<open>parseType_returns\<close>).
\<close>

section \<open>Lexer\<close>

datatype bsv_token = NAME string | NUMBER string | Key string | Sym string

definition reserved :: "string list" where
  "reserved = [''TaggedUnion'', ''Struct'', ''Alias'', ''Typeclass'', ''TMax'', ''TSub'', ''TAdd'', ''TLog'',
     ''members'', ''dependencies'', ''determines'', ''instances'', ''function'', ''position'', ''polymorphic'',
     ''type'', ''numeric'', ''width'', ''provisos'']"

definition type_functions :: "string list" where
  "type_functions = [''TAdd'', ''TSub'', ''TMax'', ''TLog'']"

definition word_token :: "string \<Rightarrow> bsv_token" where
  "word_token v = (if v \<in> set reserved then Key v else NAME v)"

definition word_char :: "char \<Rightarrow> bool" where
  "word_char c \<longleftrightarrow> is_alpha c \<or> is_digit c \<or> c = CHR ''$'' \<or> c = CHR ''_''"

definition sym_chars :: string where
  "sym_chars = ''.}{)(/-,#''"

text \<open>Blanks and illegal characters give no token.\<close>

function lex_type :: "string \<Rightarrow> bsv_token list" where
  "lex_type [] = []"
| "lex_type (c # s) =
     (if is_digit c then NUMBER (c # takeWhile is_digit s) # lex_type (dropWhile is_digit s)
      else if word_char c then word_token (c # takeWhile word_char s) # lex_type (dropWhile word_char s)
      else if c = CHR '':'' \<and> starts_with '':'' s then Sym ''::'' # lex_type (tl s)
      else if c \<in> set sym_chars then Sym [c] # lex_type s
      else lex_type s)"
  by pat_completeness auto
termination
  by (relation "measure length") (auto simp: le_imp_less_Suc length_dropWhile_le)

section \<open>Pieces of the grammar\<close>

type_synonym 'a parse = "('a \<times> bsv_token list) run"

abbreviation syntax_error :: "'a run" where
  "syntax_error \<equiv> Some (Inl TypeError)"

abbreviation ok :: "'a \<Rightarrow> 'a run" where
  "ok x \<equiv> Some (Inr x)"

fun expect :: "bsv_token list \<Rightarrow> bsv_token list \<Rightarrow> bsv_token list run" where
  "expect [] ts = ok ts"
| "expect (k # ks) ts = (case ts of [] \<Rightarrow> syntax_error | t # r \<Rightarrow> if t = k then expect ks r else syntax_error)"

definition head_is :: "bsv_token \<Rightarrow> bsv_token list \<Rightarrow> bool" where
  "head_is k ts \<longleftrightarrow> ts \<noteq> [] \<and> hd ts = k"

definition p_name :: "bsv_token list \<Rightarrow> string parse" where
  "p_name ts = (case ts of NAME a # r \<Rightarrow> ok (a, r) | _ \<Rightarrow> syntax_error)"

definition p_int :: "bsv_token list \<Rightarrow> int parse" where
  "p_int ts = (case ts of NUMBER v # r \<Rightarrow> ok (int (nat_of_str v), r) | _ \<Rightarrow> syntax_error)"

section \<open>Terms and provisos\<close>

fun p_term :: "nat \<Rightarrow> bsv_token list \<Rightarrow> bsv_term parse"
  and p_term_list :: "nat \<Rightarrow> bsv_token list \<Rightarrow> bsv_term list parse" where
  "p_term 0 ts = None"
| "p_term (Suc n) ts =
     (case ts of
        NUMBER v # r \<Rightarrow> ok (Word v, r)
      | NAME v # r \<Rightarrow> ok (Word v, r)
      | Key f # r \<Rightarrow>
          if f \<in> set type_functions then
            bindO (expect [Sym ''#'', Sym ''(''] r) (\<lambda>r. bindO (p_term_list n r) (\<lambda>(us, r).
              bindO (expect [Sym '')''] r) (\<lambda>r. ok (Fn f us, r))))
          else syntax_error
      | _ \<Rightarrow> syntax_error)"
| "p_term_list 0 ts = None"
| "p_term_list (Suc n) ts =
     bindO (p_term n ts) (\<lambda>(u, r).
       if head_is (Sym '','') r then bindO (p_term_list n (tl r)) (\<lambda>(us, r). ok (u # us, r)) else ok ([u], r))"

definition p_type_function :: "nat \<Rightarrow> bsv_token list \<Rightarrow> bsv_type parse" where
  "p_type_function n ts =
     bindO (p_term n ts) (\<lambda>(u, r). case u of Fn f us \<Rightarrow> ok (TypeFunction f us, r) | Word w \<Rightarrow> syntax_error)"

definition p_proviso :: "nat \<Rightarrow> bsv_token list \<Rightarrow> bsv_type parse" where
  "p_proviso n ts =
     bindO (p_name ts) (\<lambda>(name, r). bindO (expect [Sym ''#'', Sym ''(''] r) (\<lambda>r. bindO (p_term_list n r) (\<lambda>(us, r).
       bindO (expect [Sym '')''] r) (\<lambda>r. ok (Proviso name us, r)))))"

fun p_proviso_list :: "nat \<Rightarrow> bsv_token list \<Rightarrow> bsv_type list parse" where
  "p_proviso_list 0 ts = None"
| "p_proviso_list (Suc n) ts =
     bindO (p_proviso n ts) (\<lambda>(t, r).
       if head_is (Sym '','') r then bindO (p_proviso_list n (tl r)) (\<lambda>(us, r). ok (t # us, r)) else ok ([t], r))"

text \<open>Provisos after a type are read and dropped.\<close>

fun p_provisos :: "nat \<Rightarrow> bsv_type \<Rightarrow> bsv_token list \<Rightarrow> bsv_type parse" where
  "p_provisos 0 t ts = None"
| "p_provisos (Suc n) t ts =
     (if head_is (Key ''provisos'') ts then
        bindO (expect [Sym ''(''] (tl ts)) (\<lambda>r. bindO (p_proviso_list n r) (\<lambda>(_, r).
          bindO (expect [Sym '')''] r) (\<lambda>r. p_provisos n t r)))
      else ok (t, ts))"

section \<open>Types\<close>

text \<open>A name that does not begin with a capital is a type variable.\<close>

definition name_type :: "string \<Rightarrow> bsv_type" where
  "name_type a = (if char_range (CHR ''A'') (CHR ''Z'') (hd a) then Type a [] else PolyType a)"

text \<open>A reference takes the name and the parameters of the type after the package.\<close>

definition mk_TypeRef :: "string \<Rightarrow> bsv_type \<Rightarrow> bsv_type res" where
  "mk_TypeRef ns t =
     bindR (name_attr t) (\<lambda>m. bindR (params_attr t) (\<lambda>ps.
       case m of SName n \<Rightarrow> Inr (TypeRef ns n ps) | IName k \<Rightarrow> Inl TypeError))"

definition p_poly_type :: "bsv_token list \<Rightarrow> bsv_type parse" where
  "p_poly_type ts =
     (if head_is (Key ''type'') ts then bindO (p_name (tl ts)) (\<lambda>(a, r). ok (PolyType a, r))
      else bindO (expect [Key ''numeric'', Key ''type''] ts) (\<lambda>r. bindO (p_name r) (\<lambda>(a, r). ok (PolyNumericType a, r))))"

text \<open>
  The rules take the function that reads a type inside as an argument.
\<close>

type_synonym type_parser = "bsv_token list \<Rightarrow> bsv_type parse"

definition p_param :: "nat \<Rightarrow> type_parser \<Rightarrow> bsv_token list \<Rightarrow> bsv_type parse" where
  "p_param n P ts =
     (case ts of
        NUMBER v # r \<Rightarrow> ok (NumericType (int (nat_of_str v)), r)
      | Key f # r \<Rightarrow> if f \<in> set type_functions then p_type_function n ts else P ts
      | _ \<Rightarrow> P ts)"

fun p_comma_list :: "nat \<Rightarrow> type_parser \<Rightarrow> bsv_token list \<Rightarrow> bsv_type list parse" where
  "p_comma_list 0 P ts = None"
| "p_comma_list (Suc n) P ts =
     (if head_is (Sym '','') ts then
        bindO (p_param n P (tl ts)) (\<lambda>(t, r). bindO (p_comma_list n P r) (\<lambda>(us, r). ok (t # us, r)))
      else ok ([], ts))"

definition p_param_list :: "nat \<Rightarrow> type_parser \<Rightarrow> bsv_token list \<Rightarrow> bsv_type list parse" where
  "p_param_list n P ts =
     bindO (expect [Sym ''(''] ts) (\<lambda>r. bindO (p_param n P r) (\<lambda>(t, r). bindO (p_comma_list n P r) (\<lambda>(us, r).
       bindO (expect [Sym '')''] r) (\<lambda>r. ok (t # us, r)))))"

text \<open>
  Both rules for the arguments of a function end in an index that is out of range: an argument list
  is never read.
\<close>

definition p_argument :: "type_parser \<Rightarrow> bsv_token list \<Rightarrow> bsv_type parse" where
  "p_argument P ts = bindO (P ts) (\<lambda>(t, r). bindO (p_name r) (\<lambda>(_, r). ok (t, r)))"

fun p_argument_comma_list :: "nat \<Rightarrow> type_parser \<Rightarrow> bsv_token list \<Rightarrow> bsv_type list parse" where
  "p_argument_comma_list 0 P ts = None"
| "p_argument_comma_list (Suc n) P ts =
     bindO (expect [Sym '',''] ts) (\<lambda>r. bindO (p_argument P r) (\<lambda>(_, r).
       if head_is (Sym '','') r then p_argument_comma_list n P r
       else if head_is (Sym '')'') r then Some (Inl IndexError) else syntax_error))"

definition p_argument_list :: "nat \<Rightarrow> type_parser \<Rightarrow> bsv_token list \<Rightarrow> bsv_type list parse" where
  "p_argument_list n P ts =
     bindO (expect [Sym ''(''] ts) (\<lambda>r.
       if head_is (Sym '')'') r then (if head_is (Sym '')'') (tl r) then Some (Inl IndexError) else syntax_error)
       else bindO (p_argument P r) (\<lambda>(_, r). p_argument_comma_list n P r))"

definition p_function :: "nat \<Rightarrow> type_parser \<Rightarrow> bsv_token list \<Rightarrow> bsv_type parse" where
  "p_function n P ts =
     bindO (P ts) (\<lambda>(t, r). bindO (p_name r) (\<lambda>(f, r). bindO (expect [Sym ''(''] r) (\<lambda>r.
       bindO (p_argument_list n P r) (\<lambda>(args, r). bindO (expect [Sym '')''] r) (\<lambda>r. ok (Function f t args, r))))))"

definition p_named :: "nat \<Rightarrow> type_parser \<Rightarrow> string \<Rightarrow> bsv_token list \<Rightarrow> bsv_type parse" where
  "p_named n P a ts =
     (if head_is (Sym ''::'') ts then bindO (P (tl ts)) (\<lambda>(t, r). bindO (Some (mk_TypeRef a t)) (\<lambda>x. ok (x, r)))
      else if head_is (Sym ''#'') ts then bindO (p_param_list n P (tl ts)) (\<lambda>(ps, r). ok (Type a ps, r))
      else ok (name_type a, ts))"

definition p_base :: "nat \<Rightarrow> type_parser \<Rightarrow> bsv_token list \<Rightarrow> bsv_type parse" where
  "p_base n P ts =
     (case ts of
        NAME a # r \<Rightarrow> p_named n P a r
      | Sym s # r \<Rightarrow>
          if s = ''{'' then bindO (P r) (\<lambda>(t, r). bindO (expect [Sym ''}''] r) (\<lambda>r. ok (t, r))) else syntax_error
      | Key k # r \<Rightarrow> if k = ''function'' then p_function n P r else p_poly_type ts
      | _ \<Rightarrow> syntax_error)"

fun p_type :: "nat \<Rightarrow> bsv_token list \<Rightarrow> bsv_type parse" where
  "p_type 0 ts = None"
| "p_type (Suc n) ts = bindO (p_base n (p_type n) ts) (\<lambda>(t, r). p_provisos n t r)"

definition fuel :: "bsv_token list \<Rightarrow> nat" where
  "fuel ts = 2 * length ts + 4"

definition parse_type :: "bsv_token list \<Rightarrow> bsv_type parse" where
  "parse_type ts = p_type (fuel ts) ts"

section \<open>Declarations\<close>

definition p_width :: "bsv_token list \<Rightarrow> int parse" where
  "p_width ts =
     bindO (expect [Sym ''{'', Key ''width''] ts) (\<lambda>r. bindO (p_int r) (\<lambda>(w, r).
       bindO (expect [Sym ''}''] r) (\<lambda>r. ok (w, r))))"

fun p_path :: "bsv_token list \<Rightarrow> bsv_token list run" where
  "p_path [] = syntax_error"
| "p_path (t # ts) =
     (case t of
        NAME a \<Rightarrow> (case ts of Sym s # r \<Rightarrow> if s = ''.'' \<or> s = ''-'' then p_path r else ok ts | _ \<Rightarrow> ok ts)
      | _ \<Rightarrow> syntax_error)"

fun p_file :: "bsv_token list \<Rightarrow> bsv_token list run" where
  "p_file [] = syntax_error"
| "p_file (t # ts) =
     (case t of
        NAME a \<Rightarrow> (case ts of Sym s # r \<Rightarrow> if s = ''/'' then p_file r else p_path (t # ts) | _ \<Rightarrow> ok ts)
      | _ \<Rightarrow> syntax_error)"

definition p_position :: "bsv_token list \<Rightarrow> bsv_token list run" where
  "p_position ts =
     bindO (expect [Sym ''{'', Key ''position'', Sym ''{''] ts) (\<lambda>r. bindO (p_file r) (\<lambda>r.
       bindO (p_int r) (\<lambda>(_, r). bindO (p_int r) (\<lambda>(_, r). expect [Sym ''}'', Sym ''}''] r))))"

text \<open>A member gets the index of its place in the list.\<close>

definition p_member :: "int \<Rightarrow> bsv_token list \<Rightarrow> bsv_member parse" where
  "p_member k ts =
     bindO (expect [Sym ''{''] ts) (\<lambda>r. bindO (parse_type r) (\<lambda>(t, r). bindO (p_name r) (\<lambda>(m, r).
       if head_is (Sym ''}'') r then ok (PolyMember t m k, tl r)
       else bindO (p_width r) (\<lambda>(w, r). bindO (expect [Sym ''}''] r) (\<lambda>r. ok (Member t m w k, r))))))"

fun p_member_list :: "nat \<Rightarrow> int \<Rightarrow> bsv_token list \<Rightarrow> bsv_member list parse" where
  "p_member_list 0 k ts = None"
| "p_member_list (Suc n) k ts =
     bindO (p_member k ts) (\<lambda>(m, r).
       if head_is (Sym ''{'') r then bindO (p_member_list n (k + 1) r) (\<lambda>(ms, r). ok (m # ms, r)) else ok ([m], r))"

definition p_member_decl :: "bsv_token list \<Rightarrow> bsv_member list parse" where
  "p_member_decl ts =
     bindO (expect [Sym ''{'', Key ''members'', Sym ''{''] ts) (\<lambda>r. bindO (p_member_list (Suc (length r)) 0 r) (\<lambda>(ms, r).
       bindO (expect [Sym ''}'', Sym ''}''] r) (\<lambda>r. ok (ms, r))))"

text \<open>Dependences are read and dropped.\<close>

definition p_dependence :: "bsv_token list \<Rightarrow> bsv_token list run" where
  "p_dependence ts =
     bindO (expect [Sym ''{''] ts) (\<lambda>r. bindO (parse_type r) (\<lambda>(_, r). bindO (expect [Key ''determines''] r) (\<lambda>r.
       bindO (if head_is (Sym ''('') r then bindO (p_param_list (fuel r) (p_type (fuel r)) r) (\<lambda>(_, r). ok r)
              else bindO (parse_type r) (\<lambda>(_, r). ok r)) (\<lambda>r. expect [Sym ''}''] r))))"

fun p_dependence_list :: "nat \<Rightarrow> bsv_token list \<Rightarrow> bsv_token list run" where
  "p_dependence_list 0 ts = None"
| "p_dependence_list (Suc n) ts =
     bindO (p_dependence ts) (\<lambda>r. if head_is (Sym ''{'') r then p_dependence_list n r else ok r)"

fun p_instance_list :: "nat \<Rightarrow> bsv_token list \<Rightarrow> bsv_type list parse" where
  "p_instance_list 0 ts = None"
| "p_instance_list (Suc n) ts =
     bindO (expect [Sym ''{''] ts) (\<lambda>r. bindO (parse_type r) (\<lambda>(t, r). bindO (expect [Sym ''}''] r) (\<lambda>r.
       if head_is (Sym ''{'') r then bindO (p_instance_list n r) (\<lambda>(us, r). ok (t # us, r)) else ok ([t], r))))"

definition p_typeclass :: "bsv_token list \<Rightarrow> bsv_type parse" where
  "p_typeclass ts =
     bindO (parse_type ts) (\<lambda>(t, r).
     bindO (expect [Sym ''{'', Key ''dependencies'', Sym ''{''] r) (\<lambda>r. bindO (p_dependence_list (Suc (length r)) r) (\<lambda>r.
     bindO (expect [Sym ''}'', Sym ''}''] r) (\<lambda>r. bindO (p_member_decl r) (\<lambda>(_, r).
     bindO (expect [Sym ''{'', Key ''instances'', Sym ''{''] r) (\<lambda>r. bindO (p_instance_list (Suc (length r)) r) (\<lambda>(us, r).
     bindO (expect [Sym ''}'', Sym ''}''] r) (\<lambda>r. bindO (p_position r) (\<lambda>r. ok (Typeclass t us, r))))))))))"

text \<open>What a struct or a union declares: a type, polymorphic if it stands in braces before that word.\<close>

definition p_subject :: "bsv_token list \<Rightarrow> (bool \<times> bsv_type) parse" where
  "p_subject ts =
     (if head_is (Sym ''{'') ts then
        bindO (parse_type (tl ts)) (\<lambda>(t, r). bindO (expect [Sym ''}''] r) (\<lambda>r.
          if head_is (Key ''polymorphic'') r then ok ((True, t), tl r)
          else bindO (p_provisos (fuel r) t r) (\<lambda>(t, r). ok ((False, t), r))))
      else bindO (parse_type ts) (\<lambda>(t, r). ok ((False, t), r)))"

definition p_poly_tagged_union :: "bsv_type \<Rightarrow> bsv_member list \<Rightarrow> bsv_token list \<Rightarrow> bsv_type parse" where [simp]:
  "p_poly_tagged_union t ms r = bindO (p_position r) (\<lambda>r. ok (PolyTaggedUnion t ms, r))"

definition p_poly_struct :: "bsv_type \<Rightarrow> bsv_member list \<Rightarrow> bsv_token list \<Rightarrow> bsv_type parse" where [simp]:
  "p_poly_struct t ms r = bindO (p_position r) (\<lambda>r. ok (PolyStruct t ms, r))"

text \<open>Both rules for unions share what they begin with: the word \<open>polymorphic\<close> decides between them.\<close>

definition p_tagged_union :: "bsv_token list \<Rightarrow> bsv_type parse" where
  "p_tagged_union ts =
     bindO (p_subject ts) (\<lambda>((poly, t), r). bindO (p_member_decl r) (\<lambda>(ms, r).
       if poly then p_poly_tagged_union t ms r
       else bindO (p_width r) (\<lambda>(w, r). bindO (p_position r) (\<lambda>r.
         bindO (Some (mk_TaggedUnion t ms w)) (\<lambda>u. ok (u, r))))))"

definition p_struct :: "bsv_token list \<Rightarrow> bsv_type parse" where
  "p_struct ts =
     bindO (p_subject ts) (\<lambda>((poly, t), r). bindO (p_member_decl r) (\<lambda>(ms, r).
       if poly then p_poly_struct t ms r
       else bindO (p_width r) (\<lambda>(w, r). bindO (p_position r) (\<lambda>r. ok (Struct t ms w, r)))))"

definition p_alias :: "bsv_token list \<Rightarrow> bsv_type parse" where
  "p_alias ts =
     bindO (parse_type ts) (\<lambda>(b, r). bindO (parse_type r) (\<lambda>(a, r). bindO (p_position r) (\<lambda>r. ok (TypeAlias b a, r))))"

definition type_decl :: "bsv_token list \<Rightarrow> bsv_type parse" where
  "type_decl ts =
     (if head_is (Key ''TaggedUnion'') ts then p_tagged_union (tl ts)
      else if head_is (Key ''Alias'') ts then p_alias (tl ts)
      else if head_is (Key ''Struct'') ts then p_struct (tl ts)
      else if head_is (Key ''Typeclass'') ts then p_typeclass (tl ts)
      else parse_type ts)"

definition parseType :: "string \<Rightarrow> bsv_type run" where
  "parseType s = bindO (type_decl (lex_type s)) (\<lambda>(t, r). if r = [] then ok t else syntax_error)"

section \<open>What the rules return\<close>

text \<open>A step of the parser that stays within its bound, and whose result, if it has one, has a property.\<close>

definition returns :: "('a \<Rightarrow> bool) \<Rightarrow> 'a run \<Rightarrow> bool" where
  "returns P m \<longleftrightarrow> m \<noteq> None \<and> (\<forall>x. m = Some (Inr x) \<longrightarrow> P x)"

lemma returns_simps [simp]:
  "returns P (Some (Inr x)) \<longleftrightarrow> P x" "returns P (Some (Inl e))" "\<not> returns P None"
  by (simp_all add: returns_def)

lemma returns_bindO: "returns Q (bindO m f) \<longleftrightarrow> returns (\<lambda>x. returns Q (f x)) m"
  by (cases "(m, f)" rule: bindO.cases) simp_all

lemma returns_mono: "returns P m \<Longrightarrow> (\<And>x. P x \<Longrightarrow> Q x) \<Longrightarrow> returns Q m"
  by (simp add: returns_def)

text \<open>The rule for a step followed by others.\<close>

lemma returns_bind: "returns P m \<Longrightarrow> (\<And>x. P x \<Longrightarrow> returns Q (f x)) \<Longrightarrow> returns Q (bindO m f)"
  by (simp add: returns_bindO) (rule returns_mono)

definition valid_name :: "string \<Rightarrow> bool" where
  "valid_name a \<longleftrightarrow> a \<noteq> [] \<and> \<not> is_digit (hd a) \<and> (\<forall>c \<in> set a. word_char c) \<and> a \<notin> set reserved"

fun valid_token :: "bsv_token \<Rightarrow> bool" where
  "valid_token (NAME a) = valid_name a"
| "valid_token (NUMBER v) = unsigned v"
| "valid_token (Key k) = (k \<in> set reserved)"
| "valid_token (Sym s) = True"

abbreviation valid_tokens :: "bsv_token list \<Rightarrow> bool" where
  "valid_tokens ts \<equiv> list_all valid_token ts"

text \<open>The tokens that are left when at least \<open>k\<close> are taken.\<close>

abbreviation rest :: "nat \<Rightarrow> bsv_token list \<Rightarrow> bsv_token list \<Rightarrow> bool" where
  "rest k r ts \<equiv> valid_tokens r \<and> length r + k \<le> length ts"

lemma head_is_rest: "head_is k ts \<Longrightarrow> valid_tokens ts \<Longrightarrow> rest 1 (tl ts) ts"
  by (cases ts) (auto simp: head_is_def)

lemma lex_valid: "valid_tokens (lex_type s)"
proof (induction s rule: lex_type.induct)
  case (2 c s)
  have "valid_token (word_token (c # takeWhile word_char s))" if "\<not> is_digit c" "word_char c"
    using that by (auto simp: word_token_def valid_name_def dest: set_takeWhileD)
  moreover have "unsigned (c # takeWhile is_digit s)" if "is_digit c"
    using that by (auto simp: unsigned_def dest: set_takeWhileD)
  ultimately show ?case using 2 by simp
qed simp

lemma expect_returns: "valid_tokens ts \<Longrightarrow> returns (\<lambda>r. rest (length ks) r ts) (expect ks ts)"
proof (induction ks arbitrary: ts)
  case (Cons k ks)
  then show ?case by (cases ts) (auto intro: returns_mono)
qed simp

declare expect.simps(2) [simp del]

lemma p_name_returns: "valid_tokens ts \<Longrightarrow> returns (\<lambda>(a, r). valid_name a \<and> rest 1 r ts) (p_name ts)"
  by (auto simp: p_name_def split: list.split bsv_token.split)

lemma p_int_returns: "valid_tokens ts \<Longrightarrow> returns (\<lambda>(k, r). 0 \<le> k \<and> rest 1 r ts) (p_int ts)"
  by (auto simp: p_int_def split: list.split bsv_token.split)

lemmas read = returns_bind [OF expect_returns] returns_bind [OF p_name_returns] returns_bind [OF p_int_returns]

section \<open>Well-formed types\<close>

fun wf_term :: "bsv_term \<Rightarrow> bool" where
  "wf_term (Word w) \<longleftrightarrow> valid_name w \<or> unsigned w"
| "wf_term (Fn f ts) \<longleftrightarrow> f \<in> set type_functions \<and> ts \<noteq> [] \<and> list_all wf_term ts"

definition capital :: "string \<Rightarrow> bool" where
  "capital a \<longleftrightarrow> char_range (CHR ''A'') (CHR ''Z'') (hd a)"

text \<open>A type as the parser builds it, or a parameter: a number or a type function.\<close>

fun wf_param :: "bsv_type \<Rightarrow> bool" where
  "wf_param (Type n ps) \<longleftrightarrow> valid_name n \<and> (ps = [] \<longrightarrow> capital n) \<and> list_all wf_param ps"
| "wf_param (TypeRef ns n ps) \<longleftrightarrow> valid_name ns \<and> valid_name n \<and> (ps = [] \<longrightarrow> capital n) \<and> list_all wf_param ps"
| "wf_param (PolyType n) \<longleftrightarrow> valid_name n"
| "wf_param (PolyNumericType n) \<longleftrightarrow> valid_name n"
| "wf_param (NumericType k) \<longleftrightarrow> 0 \<le> k"
| "wf_param (TypeFunction f ts) \<longleftrightarrow> f \<in> set type_functions \<and> ts \<noteq> [] \<and> list_all wf_term ts"
| "wf_param t \<longleftrightarrow> False"

fun only_param :: "bsv_type \<Rightarrow> bool" where
  "only_param (NumericType k) = True"
| "only_param (TypeFunction f ts) = True"
| "only_param t = False"

definition wf_type :: "bsv_type \<Rightarrow> bool" where
  "wf_type t \<longleftrightarrow> wf_param t \<and> \<not> only_param t"

lemma p_term_returns:
  "valid_tokens ts \<Longrightarrow> 2 * length ts < n \<Longrightarrow> returns (\<lambda>(u, r). wf_term u \<and> rest 1 r ts) (p_term n ts)"
  "valid_tokens ts \<Longrightarrow> 2 * length ts + 1 < n \<Longrightarrow>
     returns (\<lambda>(us, r). us \<noteq> [] \<and> list_all wf_term us \<and> rest 1 r ts) (p_term_list n ts)"
proof (induction n arbitrary: ts)
  case (Suc n)
  {
    case 1
    then show ?case
      by (cases ts; cases "hd ts") (auto intro!: read returns_bind [OF Suc.IH(2)])
  next
    case 2
    then show ?case
      by (auto intro!: returns_bind [OF Suc.IH(1)] returns_bind [OF Suc.IH(2)] dest: head_is_rest)
  }
qed simp_all

lemma p_type_function_returns:
  "valid_tokens ts \<Longrightarrow> 2 * length ts < n \<Longrightarrow> returns (\<lambda>(t, r). wf_param t \<and> rest 1 r ts) (p_type_function n ts)"
  unfolding p_type_function_def by (auto intro!: returns_bind [OF p_term_returns(1)] split: bsv_term.split)

lemma p_proviso_returns:
  "valid_tokens ts \<Longrightarrow> 2 * length ts < n \<Longrightarrow> returns (\<lambda>(t, r). rest 1 r ts) (p_proviso n ts)"
  unfolding p_proviso_def by (auto intro!: read returns_bind [OF p_term_returns(2)])

lemma p_proviso_list_returns:
  "valid_tokens ts \<Longrightarrow> 2 * length ts + 1 < n \<Longrightarrow> returns (\<lambda>(us, r). rest 1 r ts) (p_proviso_list n ts)"
proof (induction n arbitrary: ts)
  case (Suc n)
  then show ?case
    by (auto intro!: returns_bind [OF p_proviso_returns] returns_bind [OF Suc.IH] dest: head_is_rest)
qed simp

lemma p_provisos_returns:
  "valid_tokens ts \<Longrightarrow> 2 * length ts < n \<Longrightarrow> returns (\<lambda>(u, r). u = t \<and> rest 0 r ts) (p_provisos n t ts)"
proof (induction n arbitrary: ts)
  case (Suc n)
  show ?case
  proof (cases "head_is (Key ''provisos'') ts")
    case True
    with Suc.prems have "rest 1 (tl ts) ts" by (intro head_is_rest)
    with True Suc.prems show ?thesis
      by (auto intro!: read returns_bind [OF p_proviso_list_returns] returns_mono [OF Suc.IH])
  qed (use Suc.prems in simp)
qed simp

text \<open>A function that reads types from fewer than \<open>k\<close> tokens.\<close>

definition parses_below :: "nat \<Rightarrow> type_parser \<Rightarrow> bool" where
  "parses_below k P \<longleftrightarrow>
     (\<forall>ts. valid_tokens ts \<and> length ts < k \<longrightarrow> returns (\<lambda>(t, r). wf_type t \<and> rest 1 r ts) (P ts))"

lemma parses_belowD:
  "parses_below k P \<Longrightarrow> valid_tokens ts \<Longrightarrow> length ts < k \<Longrightarrow> returns (\<lambda>(t, r). wf_type t \<and> rest 1 r ts) (P ts)"
  by (simp add: parses_below_def)

lemma wf_type_param: "wf_type t \<Longrightarrow> wf_param t"
  by (simp add: wf_type_def)

lemma p_param_returns:
  assumes "parses_below k P" and "valid_tokens ts" and "length ts < k" and "2 * length ts < n"
  shows "returns (\<lambda>(t, r). wf_param t \<and> rest 1 r ts) (p_param n P ts)"
proof -
  have "returns (\<lambda>(t, r). wf_param t \<and> rest 1 r ts) (P ts)"
    by (rule returns_mono [OF parses_belowD [OF assms(1-3)]]) (auto intro: wf_type_param)
  with p_type_function_returns [OF assms(2,4)] assms(2) show ?thesis
    by (auto simp: p_param_def split: list.split bsv_token.split)
qed

lemma p_comma_list_returns:
  assumes "parses_below k P"
  shows "valid_tokens ts \<Longrightarrow> length ts \<le> k \<Longrightarrow> 2 * length ts < n \<Longrightarrow>
    returns (\<lambda>(us, r). list_all wf_param us \<and> rest 0 r ts) (p_comma_list n P ts)"
proof (induction n arbitrary: ts)
  case (Suc n)
  show ?case
  proof (cases "head_is (Sym '','') ts")
    case True
    with Suc.prems have "rest 1 (tl ts) ts" by (intro head_is_rest)
    with True Suc.prems show ?thesis
      by (auto intro!: returns_bind [OF p_param_returns [OF assms]] returns_bind [OF Suc.IH])
  qed (use Suc.prems in simp)
qed simp

lemma p_param_list_returns:
  assumes "parses_below k P" and "valid_tokens ts" and "length ts \<le> k" and "2 * length ts < n + 2"
  shows "returns (\<lambda>(us, r). us \<noteq> [] \<and> list_all wf_param us \<and> rest 1 r ts) (p_param_list n P ts)"
  unfolding p_param_list_def using assms(2-4)
  by (auto intro!: read returns_bind [OF p_param_returns [OF assms(1)]] returns_bind [OF p_comma_list_returns [OF assms(1)]])

text \<open>The arguments of a function are never read.\<close>

lemma p_argument_returns:
  assumes "parses_below k P" and "valid_tokens ts" and "length ts < k"
  shows "returns (\<lambda>(t, r). rest 1 r ts) (p_argument P ts)"
  unfolding p_argument_def using assms(2,3) by (auto intro!: read returns_bind [OF parses_belowD [OF assms(1)]])

lemma p_argument_comma_list_returns:
  assumes "parses_below k P"
  shows "valid_tokens ts \<Longrightarrow> length ts \<le> k \<Longrightarrow> 2 * length ts < n \<Longrightarrow> returns (\<lambda>_. False) (p_argument_comma_list n P ts)"
proof (induction n arbitrary: ts)
  case (Suc n)
  then show ?case
    by (auto intro!: read returns_bind [OF p_argument_returns [OF assms]] returns_bind [OF Suc.IH] Suc.IH)
qed simp

lemma p_argument_list_returns:
  assumes "parses_below k P" and "valid_tokens ts" and "length ts \<le> k" and "2 * length ts < n + 2"
  shows "returns (\<lambda>_. False) (p_argument_list n P ts)"
  unfolding p_argument_list_def using assms(2-4)
  by (auto intro!: read returns_bind [OF p_argument_returns [OF assms(1)]] p_argument_comma_list_returns [OF assms(1)])

lemma p_function_returns:
  assumes "parses_below k P" and "valid_tokens ts" and "length ts < k" and "2 * length ts < n"
  shows "returns (\<lambda>_. False) (p_function n P ts)"
  unfolding p_function_def using assms(2-4)
  by (auto intro!: read returns_bind [OF parses_belowD [OF assms(1)]] returns_bind [OF p_argument_list_returns [OF assms(1)]])

lemma mk_TypeRef_wf: "valid_name a \<Longrightarrow> wf_type t \<Longrightarrow> mk_TypeRef a t = Inr u \<Longrightarrow> wf_type u"
  by (cases t) (auto simp: mk_TypeRef_def wf_type_def)

lemma p_named_returns:
  assumes "parses_below k P" and "valid_tokens ts" and "length ts \<le> k" and "2 * length ts < n + 2" and "valid_name a"
  shows "returns (\<lambda>(t, r). wf_type t \<and> rest 0 r ts) (p_named n P a ts)"
proof -
  have name: "wf_type (name_type a)" using assms(5) by (simp add: name_type_def wf_type_def capital_def)
  have ref: "returns wf_type (Some (mk_TypeRef a t))" if "wf_type t" for t
    using that assms(5) mk_TypeRef_wf by (auto simp: returns_def)
  have tl: "rest 1 (tl ts) ts" if "head_is s ts" for s using that assms(2) by (rule head_is_rest)
  have "returns (\<lambda>(t, r). wf_type t \<and> rest 0 r ts) (bindO (P (tl ts)) (\<lambda>(t, r). bindO (Some (mk_TypeRef a t)) (\<lambda>x. ok (x, r))))"
    if h: "head_is (Sym ''::'') ts"
    using tl [OF h] assms(3) by (auto intro!: returns_bind [OF parses_belowD [OF assms(1)]] returns_bind [OF ref])
  moreover have "returns (\<lambda>(t, r). wf_type t \<and> rest 0 r ts) (bindO (p_param_list n P (tl ts)) (\<lambda>(ps, r). ok (Type a ps, r)))"
    if h: "head_is (Sym ''#'') ts"
    using tl [OF h] assms(3-5) by (auto intro!: returns_bind [OF p_param_list_returns [OF assms(1)]] simp: wf_type_def)
  ultimately show ?thesis using name assms(2) by (simp add: p_named_def)
qed

lemma p_poly_type_returns: "valid_tokens ts \<Longrightarrow> returns (\<lambda>(t, r). wf_type t \<and> rest 1 r ts) (p_poly_type ts)"
proof (cases "head_is (Key ''type'') ts")
  case True
  moreover assume "valid_tokens ts"
  moreover have "rest 1 (tl ts) ts" using calculation by (intro head_is_rest)
  ultimately show ?thesis by (auto intro!: read simp: p_poly_type_def wf_type_def)
next
  case False
  assume "valid_tokens ts"
  with False show ?thesis by (auto intro!: read simp: p_poly_type_def wf_type_def)
qed

lemma p_base_returns:
  assumes "parses_below k P" and "valid_tokens ts" and "length ts \<le> k" and "2 * length ts < n + 2"
  shows "returns (\<lambda>(t, r). wf_type t \<and> rest 1 r ts) (p_base n P ts)"
proof (cases ts)
  case (Cons t r)
  show ?thesis
  proof (cases t)
    case (NAME a)
    have "returns (\<lambda>(t, r'). wf_type t \<and> rest 0 r' r) (p_named n P a r)"
      using assms by (intro p_named_returns) (auto simp: Cons NAME)
    then show ?thesis by (auto simp: p_base_def Cons NAME intro: returns_mono)
  next
    case (Key f)
    have "returns (\<lambda>_. False) (p_function n P r)"
      using assms by (intro p_function_returns) (auto simp: Cons)
    then have "returns (\<lambda>(t, r). wf_type t \<and> rest 1 r ts) (p_function n P r)" by (rule returns_mono) simp
    with p_poly_type_returns [OF assms(2)] show ?thesis by (simp add: p_base_def Cons Key)
  next
    case (Sym x)
    have "returns (\<lambda>(t, r). wf_type t \<and> rest 1 r ts) (bindO (P r) (\<lambda>(t, r). bindO (expect [Sym ''}''] r) (\<lambda>r. ok (t, r))))"
      using assms by (auto intro!: read returns_bind [OF parses_belowD [OF assms(1)]] simp: Cons)
    then show ?thesis by (simp add: p_base_def Cons Sym)
  qed (simp add: p_base_def Cons)
qed (simp add: p_base_def)

text \<open>The depth of the calls is bounded by the tokens, and what is read is well-formed.\<close>

lemma p_type_returns:
  "valid_tokens ts \<Longrightarrow> 2 * length ts < n \<Longrightarrow> returns (\<lambda>(t, r). wf_type t \<and> rest 1 r ts) (p_type n ts)"
proof (induction n arbitrary: ts)
  case (Suc n)
  have "parses_below (length ts) (p_type n)"
    unfolding parses_below_def using Suc.IH Suc.prems(2) by auto
  then have "returns (\<lambda>(t, r). wf_type t \<and> rest 1 r ts) (p_base n (p_type n) ts)"
    using Suc.prems by (intro p_base_returns) auto
  then show ?case unfolding p_type.simps
    using Suc.prems(2) by (auto elim!: returns_bind intro!: returns_mono [OF p_provisos_returns])
qed simp

lemma parse_type_returns: "valid_tokens ts \<Longrightarrow> returns (\<lambda>(t, r). wf_type t \<and> rest 1 r ts) (parse_type ts)"
  unfolding parse_type_def fuel_def by (rule p_type_returns) simp_all

section \<open>Well-formed declarations\<close>

fun wf_member :: "bsv_member \<Rightarrow> bool" where
  "wf_member (Member t n w k) \<longleftrightarrow> wf_type t \<and> valid_name n \<and> 0 \<le> w"
| "wf_member (PolyMember t n k) \<longleftrightarrow> wf_type t \<and> valid_name n"

text \<open>Members are numbered by their places.\<close>

definition wf_members :: "bsv_member list \<Rightarrow> bool" where
  "wf_members ms \<longleftrightarrow> ms \<noteq> [] \<and> list_all wf_member ms \<and> map member_index ms = map int [0..<length ms]"

text \<open>A declaration: its types are well-formed and the sizes of a tagged union are defined.\<close>

fun wf_decl :: "bsv_type \<Rightarrow> bool" where
  "wf_decl (Struct t ms w) \<longleftrightarrow> wf_type t \<and> wf_members ms \<and> 0 \<le> w"
| "wf_decl (PolyStruct t ms) \<longleftrightarrow> wf_type t \<and> wf_members ms"
| "wf_decl (TaggedUnion t ms w) \<longleftrightarrow> wf_type t \<and> wf_members ms \<and> 0 \<le> w \<and> (\<exists>tag. tagwidth ms w = Inr tag)"
| "wf_decl (PolyTaggedUnion t ms) \<longleftrightarrow> wf_type t \<and> wf_members ms"
| "wf_decl (TypeAlias b a) \<longleftrightarrow> wf_type b \<and> wf_type a"
| "wf_decl (Typeclass t us) \<longleftrightarrow> wf_type t \<and> us \<noteq> [] \<and> list_all wf_type us"
| "wf_decl t \<longleftrightarrow> wf_type t"

lemma p_width_returns: "valid_tokens ts \<Longrightarrow> returns (\<lambda>(w, r). 0 \<le> w \<and> rest 1 r ts) (p_width ts)"
  unfolding p_width_def by (auto intro!: read)

lemma p_path_returns: "valid_tokens ts \<Longrightarrow> returns (\<lambda>r. rest 1 r ts) (p_path ts)"
proof (induction ts rule: p_path.induct)
  case (2 t ts)
  then show ?case
    by (cases t; cases ts; cases "hd ts") (auto intro!: returns_mono [OF 2(1)])
qed simp

lemma p_file_returns: "valid_tokens ts \<Longrightarrow> returns (\<lambda>r. rest 1 r ts) (p_file ts)"
proof (induction ts rule: p_file.induct)
  case (2 t ts)
  have "returns (\<lambda>r. rest 1 r (t # ts)) (p_path (t # ts))" by (rule p_path_returns [OF 2(2)])
  with 2(2) show ?case
    by (cases t; cases ts; cases "hd ts") (auto intro!: returns_mono [OF 2(1)] simp del: p_path.simps)
qed simp

lemma p_position_returns: "valid_tokens ts \<Longrightarrow> returns (\<lambda>r. rest 1 r ts) (p_position ts)"
  unfolding p_position_def
  by (auto intro!: read returns_bind [OF p_file_returns] returns_mono [OF expect_returns])

lemma p_member_returns:
  assumes "valid_tokens ts"
  shows "returns (\<lambda>(m, r). wf_member m \<and> member_index m = k \<and> rest 1 r ts) (p_member k ts)"
  unfolding p_member_def using assms
  by (auto intro!: read returns_bind [OF parse_type_returns] returns_bind [OF p_width_returns] dest: head_is_rest)

lemma p_member_list_returns:
  "valid_tokens ts \<Longrightarrow> length ts < n \<Longrightarrow>
     returns (\<lambda>(ms, r). ms \<noteq> [] \<and> list_all wf_member ms \<and> map member_index ms = map (\<lambda>i. k + int i) [0..<length ms] \<and> rest 1 r ts)
       (p_member_list n k ts)"
proof (induction n arbitrary: k ts)
  case (Suc n)
  have step: "map (\<lambda>i. j + int i) [0..<Suc m] = j # map (\<lambda>i. j + 1 + int i) [0..<m]" for j m
    by (simp add: upt_conv_Cons map_Suc_upt [symmetric] comp_def algebra_simps del: upt_Suc)
  show ?case unfolding p_member_list.simps using Suc.prems
    by (auto intro!: returns_bind [OF p_member_returns] returns_bind [OF Suc.IH] simp: step simp del: upt_Suc)
qed simp

lemma p_member_decl_returns: "valid_tokens ts \<Longrightarrow> returns (\<lambda>(ms, r). wf_members ms \<and> rest 1 r ts) (p_member_decl ts)"
  unfolding p_member_decl_def wf_members_def
  by (auto intro!: read returns_bind [OF p_member_list_returns] simp del: p_member_list.simps)

lemma p_dependence_returns:
  assumes "valid_tokens ts"
  shows "returns (\<lambda>r. rest 1 r ts) (p_dependence ts)"
proof -
  have params: "returns (\<lambda>r'. rest 0 r' r) (bindO (p_param_list (fuel r) (p_type (fuel r)) r) (\<lambda>(_, r). ok r))" if r: "valid_tokens r" for r
  proof -
    have "parses_below (length r) (p_type (fuel r))"
      unfolding parses_below_def
    proof (intro allI impI)
      fix ts
      assume "valid_tokens ts \<and> length ts < length r"
      then show "returns (\<lambda>(t, r). wf_type t \<and> rest 1 r ts) (p_type (fuel r) ts)"
        by (intro p_type_returns) (auto simp: fuel_def)
    qed
    then show ?thesis using r by (auto intro!: returns_bind [OF p_param_list_returns] simp: fuel_def)
  qed
  have types: "returns (\<lambda>r'. rest 0 r' r) (bindO (parse_type r) (\<lambda>(_, r). ok r))" if r: "valid_tokens r" for r
    using r by (auto intro!: returns_bind [OF parse_type_returns])
  have both: "valid_tokens r \<Longrightarrow> returns (\<lambda>r'. rest 0 r' r) (if b then bindO (p_param_list (fuel r) (p_type (fuel r)) r) (\<lambda>(_, r). ok r)
      else bindO (parse_type r) (\<lambda>(_, r). ok r))" for b r
    using params types by simp
  show ?thesis unfolding p_dependence_def using assms
    by (auto intro!: read returns_bind [OF parse_type_returns] returns_bind [OF both] returns_mono [OF expect_returns])
qed

lemma p_dependence_list_returns: "valid_tokens ts \<Longrightarrow> length ts < n \<Longrightarrow> returns (\<lambda>r. rest 1 r ts) (p_dependence_list n ts)"
proof (induction n arbitrary: ts)
  case (Suc n)
  then show ?case by (auto intro!: returns_bind [OF p_dependence_returns] returns_mono [OF Suc.IH])
qed simp

lemma p_instance_list_returns:
  "valid_tokens ts \<Longrightarrow> length ts < n \<Longrightarrow> returns (\<lambda>(us, r). us \<noteq> [] \<and> list_all wf_type us \<and> rest 1 r ts) (p_instance_list n ts)"
proof (induction n arbitrary: ts)
  case (Suc n)
  then show ?case by (auto intro!: read returns_bind [OF parse_type_returns] returns_bind [OF Suc.IH])
qed simp

lemma p_typeclass_returns: "valid_tokens ts \<Longrightarrow> returns (\<lambda>(t, r). wf_decl t \<and> rest 1 r ts) (p_typeclass ts)"
  unfolding p_typeclass_def
  by (auto intro!: read returns_bind [OF parse_type_returns] returns_bind [OF p_dependence_list_returns]
      returns_bind [OF p_member_decl_returns] returns_bind [OF p_instance_list_returns] returns_bind [OF p_position_returns]
      simp del: p_dependence_list.simps p_instance_list.simps)

lemma p_subject_returns: "valid_tokens ts \<Longrightarrow> returns (\<lambda>((poly, t), r). wf_type t \<and> rest 1 r ts) (p_subject ts)"
proof (cases "head_is (Sym ''{'') ts")
  case True
  moreover assume "valid_tokens ts"
  moreover have "rest 1 (tl ts) ts" using calculation by (intro head_is_rest)
  ultimately show ?thesis unfolding p_subject_def
    by (auto intro!: read returns_bind [OF parse_type_returns] returns_bind [OF p_provisos_returns] simp: fuel_def dest: head_is_rest)
next
  case False
  assume "valid_tokens ts"
  with False show ?thesis unfolding p_subject_def by (auto intro!: returns_bind [OF parse_type_returns])
qed

lemma mk_TaggedUnion_wf:
  "wf_type t \<Longrightarrow> wf_members ms \<Longrightarrow> 0 \<le> w \<Longrightarrow> returns wf_decl (Some (mk_TaggedUnion t ms w))"
  by (cases "payloadwidth ms") (auto simp: mk_TaggedUnion_def tagwidth_def)

lemma p_tagged_union_returns: "valid_tokens ts \<Longrightarrow> returns (\<lambda>(t, r). wf_decl t \<and> rest 1 r ts) (p_tagged_union ts)"
  unfolding p_tagged_union_def
  by (auto intro!: returns_bind [OF p_subject_returns] returns_bind [OF p_member_decl_returns]
      returns_bind [OF p_width_returns] returns_bind [OF p_position_returns] returns_bind [OF mk_TaggedUnion_wf])

lemma p_struct_returns: "valid_tokens ts \<Longrightarrow> returns (\<lambda>(t, r). wf_decl t \<and> rest 1 r ts) (p_struct ts)"
  unfolding p_struct_def
  by (auto intro!: returns_bind [OF p_subject_returns] returns_bind [OF p_member_decl_returns]
      returns_bind [OF p_width_returns] returns_bind [OF p_position_returns])

lemma p_alias_returns: "valid_tokens ts \<Longrightarrow> returns (\<lambda>(t, r). wf_decl t \<and> rest 1 r ts) (p_alias ts)"
  unfolding p_alias_def by (auto intro!: returns_bind [OF parse_type_returns] returns_bind [OF p_position_returns])

lemma wf_type_decl: "wf_type t \<Longrightarrow> wf_decl t"
  by (cases t) (auto simp: wf_type_def)

lemma type_decl_returns:
  assumes "valid_tokens ts"
  shows "returns (\<lambda>(t, r). wf_decl t) (type_decl ts)"
proof -
  have tl: "valid_tokens (tl ts)" using assms by (cases ts) simp_all
  have "returns (\<lambda>(t, r). wf_decl t) (parse_type ts)"
    by (rule returns_mono [OF parse_type_returns [OF assms]]) (auto intro: wf_type_decl)
  moreover have "returns (\<lambda>(t, r). wf_decl t) (p_tagged_union (tl ts))"
    by (rule returns_mono [OF p_tagged_union_returns [OF tl]]) auto
  moreover have "returns (\<lambda>(t, r). wf_decl t) (p_alias (tl ts))"
    by (rule returns_mono [OF p_alias_returns [OF tl]]) auto
  moreover have "returns (\<lambda>(t, r). wf_decl t) (p_struct (tl ts))"
    by (rule returns_mono [OF p_struct_returns [OF tl]]) auto
  moreover have "returns (\<lambda>(t, r). wf_decl t) (p_typeclass (tl ts))"
    by (rule returns_mono [OF p_typeclass_returns [OF tl]]) auto
  ultimately show ?thesis by (simp add: type_decl_def)
qed

lemma parseType_wf: "returns wf_decl (parseType s)"
  unfolding parseType_def by (rule returns_bind [OF type_decl_returns [OF lex_valid]]) auto

section \<open>Printing and lexing\<close>

definition word_tok :: "string \<Rightarrow> bsv_token" where
  "word_tok w = (if unsigned w then NUMBER w else NAME w)"

fun commas :: "bsv_token list list \<Rightarrow> bsv_token list" where
  "commas [] = []"
| "commas [x] = x"
| "commas (x # y # zs) = x @ Sym '','' # commas (y # zs)"

definition params_toks :: "bsv_token list list \<Rightarrow> bsv_token list" where
  "params_toks ps = (if ps = [] then [] else Sym ''#'' # Sym ''('' # commas ps @ [Sym '')''])"

fun term_toks :: "bsv_term \<Rightarrow> bsv_token list" where
  "term_toks (Word w) = [word_tok w]"
| "term_toks (Fn f ts) = Key f # params_toks (map term_toks ts)"

fun type_toks :: "bsv_type \<Rightarrow> bsv_token list" where
  "type_toks (Type n ps) = NAME n # params_toks (map type_toks ps)"
| "type_toks (TypeRef ns n ps) = NAME ns # Sym ''::'' # NAME n # params_toks (map type_toks ps)"
| "type_toks (PolyType n) = [Sym ''{'', Key ''type'', NAME n, Sym ''}'']"
| "type_toks (PolyNumericType n) = [Sym ''{'', Key ''numeric'', Key ''type'', NAME n, Sym ''}'']"
| "type_toks (NumericType k) = [NUMBER (str_of_int k)]"
| "type_toks (TypeFunction f ts) = Key f # params_toks (map term_toks ts)"
| "type_toks t = []"

text \<open>A text that does not go on with a letter or a digit.\<close>

definition stop :: "string \<Rightarrow> bool" where
  "stop s \<longleftrightarrow> s = [] \<or> \<not> word_char (hd s)"

lemma is_digit_word: "is_digit c \<Longrightarrow> word_char c"
  by (simp add: word_char_def)

lemma stop_symbols [simp]:
  "stop []" "stop (CHR ''#'' # s)" "stop (CHR '','' # s)" "stop (CHR '')'' # s)" "stop (CHR '':'' # s)" "stop (CHR '' '' # s)"
  by (simp_all add: stop_def word_char_def is_alpha_def is_digit_def char_range_def less_char_def)

lemma takeWhile_stop:
  "\<forall>c \<in> set a. word_char c \<Longrightarrow> stop s \<Longrightarrow> takeWhile word_char (a @ s) = a \<and> dropWhile word_char (a @ s) = s"
  by (cases s) (auto simp: stop_def)

lemma takeWhile_digits:
  "\<forall>c \<in> set a. is_digit c \<Longrightarrow> stop s \<Longrightarrow> takeWhile is_digit (a @ s) = a \<and> dropWhile is_digit (a @ s) = s"
  by (cases s) (auto simp: stop_def dest: is_digit_word)

lemma lex_type_word:
  assumes "a \<noteq> []" and "\<not> is_digit (hd a)" and "\<forall>c \<in> set a. word_char c" and "stop s"
  shows "lex_type (a @ s) = word_token a # lex_type s"
proof -
  obtain x t where a: "a = x # t" using assms(1) by (cases a) auto
  with assms takeWhile_stop [of t s] show ?thesis by simp
qed

lemma lex_type_name: "valid_name a \<Longrightarrow> stop s \<Longrightarrow> lex_type (a @ s) = NAME a # lex_type s"
  by (simp add: valid_name_def lex_type_word word_token_def)

lemma reserved_words: "\<forall>k \<in> set reserved. k \<noteq> [] \<and> \<not> is_digit (hd k) \<and> (\<forall>c \<in> set k. word_char c)"
  by code_simp

lemma lex_key: "k \<in> set reserved \<Longrightarrow> stop s \<Longrightarrow> lex_type (k @ s) = Key k # lex_type s"
  using reserved_words by (simp add: lex_type_word word_token_def)

lemma lex_number:
  assumes "unsigned v" and "stop s"
  shows "lex_type (v @ s) = NUMBER v # lex_type s"
proof -
  obtain x t where v: "v = x # t" using assms(1) by (cases v) (auto simp: unsigned_def)
  with assms takeWhile_digits [of t s] show ?thesis by (simp add: unsigned_def)
qed

lemma lex_sym: "c \<in> set sym_chars \<Longrightarrow> lex_type (c # s) = Sym [c] # lex_type s"
proof -
  have "\<forall>c \<in> set sym_chars. \<not> is_digit c \<and> \<not> word_char c \<and> c \<noteq> CHR '':''" by code_simp
  moreover assume "c \<in> set sym_chars"
  ultimately show ?thesis by simp
qed

lemma lex_symbols [simp]:
  "lex_type (CHR ''#'' # s) = Sym ''#'' # lex_type s" "lex_type (CHR ''('' # s) = Sym ''('' # lex_type s"
  "lex_type (CHR '')'' # s) = Sym '')'' # lex_type s" "lex_type (CHR '','' # s) = Sym '','' # lex_type s"
  "lex_type (CHR ''{'' # s) = Sym ''{'' # lex_type s" "lex_type (CHR ''}'' # s) = Sym ''}'' # lex_type s"
  by (simp_all add: lex_sym sym_chars_def del: lex_type.simps)

lemma lex_colons [simp]: "lex_type (CHR '':'' # CHR '':'' # s) = Sym ''::'' # lex_type s"
  by (simp add: word_char_def is_alpha_def is_digit_def char_range_def less_char_def starts_with_def)

lemma lex_blank [simp]: "lex_type (CHR '' '' # s) = lex_type s"
  by (simp add: word_char_def is_alpha_def is_digit_def char_range_def less_char_def sym_chars_def)

declare lex_type.simps(2) [simp del]

lemma lex_join:
  "\<forall>x \<in> set xs. \<forall>s. stop s \<longrightarrow> lex_type (f x @ s) = g x @ lex_type s \<Longrightarrow> stop s \<Longrightarrow>
     lex_type (join '','' (map f xs) @ s) = commas (map g xs) @ lex_type s"
proof (induction xs)
  case (Cons x xs)
  then show ?case by (cases xs) simp_all
qed simp

lemma lex_params:
  "\<forall>x \<in> set xs. \<forall>s. stop s \<longrightarrow> lex_type (f x @ s) = g x @ lex_type s \<Longrightarrow> stop s \<Longrightarrow>
     lex_type (params_text (map f xs) @ s) = params_toks (map g xs) @ lex_type s"
  using lex_join [of xs f g "CHR '')'' # s"] by (simp add: params_text_def params_toks_def)

lemma stop_params: "stop s \<Longrightarrow> stop (params_text ps @ s)"
  by (simp add: params_text_def)

lemma type_functions_reserved: "f \<in> set type_functions \<Longrightarrow> f \<in> set reserved"
  by (auto simp: type_functions_def reserved_def)

lemma lex_term: "wf_term u \<Longrightarrow> stop s \<Longrightarrow> lex_type (term_repr u @ s) = term_toks u @ lex_type s"
proof (induction u arbitrary: s rule: term_repr.induct)
  case (1 w)
  have "\<not> unsigned w" if "valid_name w" using that by (cases w) (auto simp: valid_name_def unsigned_def)
  with 1 show ?case by (auto simp: word_tok_def lex_type_name lex_number)
next
  case (2 f ts)
  then have "\<forall>x \<in> set ts. \<forall>s. stop s \<longrightarrow> lex_type (term_repr x @ s) = term_toks x @ lex_type s" by (auto simp: list_all_iff)
  with 2 lex_params [OF this] show ?case by (simp add: lex_key type_functions_reserved stop_params)
qed

lemma key_words: "''type'' \<in> set reserved" "''numeric'' \<in> set reserved"
  by (simp_all add: reserved_def)

lemma lex_repr: "wf_param t \<Longrightarrow> stop s \<Longrightarrow> lex_type (type_repr t @ s) = type_toks t @ lex_type s"
proof (induction t arbitrary: s rule: wf_param.induct)
  case (1 n ps)
  then have "\<forall>x \<in> set ps. \<forall>s. stop s \<longrightarrow> lex_type (type_repr x @ s) = type_toks x @ lex_type s" by (auto simp: list_all_iff)
  with 1 lex_params [OF this] show ?case by (simp add: lex_type_name stop_params)
next
  case (2 ns n ps)
  then have "\<forall>x \<in> set ps. \<forall>s. stop s \<longrightarrow> lex_type (type_repr x @ s) = type_toks x @ lex_type s" by (auto simp: list_all_iff)
  with 2 lex_params [OF this] show ?case by (simp add: lex_type_name stop_params)
next
  case (3 n)
  then show ?case using lex_key [OF key_words(1), of "CHR '' '' # n @ CHR '' '' # CHR ''}'' # s"] by (simp add: lex_type_name)
next
  case (4 n)
  then show ?case
    using lex_key [OF key_words(1), of "CHR '' '' # n @ CHR '' '' # CHR ''}'' # s"]
      lex_key [OF key_words(2), of "'' type '' @ n @ CHR '' '' # CHR ''}'' # s"]
    by (simp add: lex_type_name)
next
  case (5 k)
  then show ?case by (simp add: lex_number str_of_int_def)
next
  case (6 f ts)
  then have "\<forall>x \<in> set ts. \<forall>s. stop s \<longrightarrow> lex_type (term_repr x @ s) = term_toks x @ lex_type s"
    by (auto simp: list_all_iff lex_term)
  with 6 lex_params [OF this] show ?case by (simp add: lex_key type_functions_reserved stop_params)
qed simp_all

section \<open>Parsing what was printed\<close>

text \<open>What may follow a type: nothing, the next parameter or the end of the parameters.\<close>

definition closing :: "bsv_token list \<Rightarrow> bool" where
  "closing r \<longleftrightarrow> r = [] \<or> hd r = Sym '','' \<or> hd r = Sym '')''"

lemma closing_simps [simp]: "closing []" "closing (Sym '','' # r)" "closing (Sym '')'' # r)"
  by (simp_all add: closing_def)

lemma closing_head:
  "closing r \<Longrightarrow> \<not> head_is (Sym ''::'') r \<and> \<not> head_is (Sym ''#'') r \<and> \<not> head_is (Key ''provisos'') r"
  by (auto simp: closing_def head_is_def)

lemma head_is_Cons [simp]: "head_is k (t # r) \<longleftrightarrow> t = k"
  by (simp add: head_is_def)

lemma length_commas: "xs \<noteq> [] \<Longrightarrow> length x + length (commas xs) + 1 \<le> length (commas (x # xs))"
  by (cases xs) simp_all

lemma commas_Cons: "xs \<noteq> [] \<Longrightarrow> commas (x # xs) = x @ Sym '','' # commas xs"
  by (cases xs) simp_all

lemma p_term_list_toks:
  "\<forall>u \<in> set us. \<forall>n r. 2 * length (term_toks u) < n \<longrightarrow> p_term n (term_toks u @ r) = ok (u, r) \<Longrightarrow> us \<noteq> [] \<Longrightarrow>
     2 * length (commas (map term_toks us)) + 1 < n \<Longrightarrow>
     p_term_list n (commas (map term_toks us) @ Sym '')'' # r) = ok (us, Sym '')'' # r)"
proof (induction us arbitrary: n)
  case (Cons u us)
  then obtain m where n: "n = Suc m" by (cases n) auto
  show ?case
  proof (cases "us = []")
    case True
    with Cons.prems n show ?thesis by simp
  next
    case False
    then have "map term_toks us \<noteq> []" by simp
    note C = commas_Cons [OF this, of "term_toks u"]
    from Cons.prems(3) have "2 * length (term_toks u) < m" "2 * length (commas (map term_toks us)) + 1 < m"
      by (simp_all add: n C)
    with Cons.IH [OF _ False] Cons.prems(1) show ?thesis by (simp add: n C)
  qed
qed simp

lemma p_term_toks: "wf_term u \<Longrightarrow> 2 * length (term_toks u) < n \<Longrightarrow> p_term n (term_toks u @ r) = ok (u, r)"
proof (induction u arbitrary: n r rule: term_repr.induct)
  case (1 w)
  then show ?case by (cases n) (simp_all add: word_tok_def)
next
  case (2 f ts)
  then obtain m where n: "n = Suc m" by (cases n) auto
  have "\<forall>u \<in> set ts. \<forall>n r. 2 * length (term_toks u) < n \<longrightarrow> p_term n (term_toks u @ r) = ok (u, r)"
    using 2 by (auto simp: list_all_iff)
  then have "p_term_list m (commas (map term_toks ts) @ Sym '')'' # r) = ok (ts, Sym '')'' # r)"
    using 2 n by (intro p_term_list_toks) (simp_all add: params_toks_def)
  with 2 n show ?case by (simp add: params_toks_def expect.simps(2))
qed

lemma length_param: "t \<in> set ps \<Longrightarrow> length (type_toks t) + 3 \<le> length (params_toks (map type_toks ps))"
proof -
  have "length (type_toks t) \<le> length (commas (map type_toks ps))" if "t \<in> set ps" for ps
    using that
  proof (induction ps)
    case (Cons p ps)
    then show ?case by (cases ps) auto
  qed simp
  moreover assume "t \<in> set ps"
  ultimately show ?thesis by (auto simp: params_toks_def)
qed

text \<open>The parameters, when each of them can be read.\<close>

definition readable :: "type_parser \<Rightarrow> bsv_type \<Rightarrow> bool" where
  "readable P t \<longleftrightarrow> (\<forall>n r. 2 * length (type_toks t) < n \<longrightarrow> closing r \<longrightarrow> p_param n P (type_toks t @ r) = ok (t, r))"

abbreviation comma_toks :: "bsv_type list \<Rightarrow> bsv_token list" where
  "comma_toks us \<equiv> concat (map (\<lambda>t. Sym '','' # type_toks t) us)"

lemma commas_comma_toks: "commas (map type_toks (t # us)) = type_toks t @ comma_toks us"
  by (induction us arbitrary: t) simp_all

lemma p_comma_list_toks:
  "\<forall>t \<in> set us. readable P t \<Longrightarrow> 2 * length (comma_toks us) < n \<Longrightarrow>
     p_comma_list n P (comma_toks us @ Sym '')'' # r) = ok (us, Sym '')'' # r)"
proof (induction us arbitrary: n)
  case Nil
  then show ?case by (cases n) simp_all
next
  case (Cons t us)
  then obtain m where n: "n = Suc m" by (cases n) auto
  have "closing (comma_toks us @ Sym '')'' # r)" by (cases us) simp_all
  with Cons.prems have "p_param m P (type_toks t @ comma_toks us @ Sym '')'' # r) = ok (t, comma_toks us @ Sym '')'' # r)"
    by (simp add: readable_def n)
  moreover have "p_comma_list m P (comma_toks us @ Sym '')'' # r) = ok (us, Sym '')'' # r)"
    using Cons by (simp add: n)
  ultimately show ?case by (simp add: n)
qed

lemma p_param_list_toks:
  assumes "\<forall>t \<in> set ps. readable P t" and "ps \<noteq> []" and "2 * length (commas (map type_toks ps)) < n"
  shows "p_param_list n P (Sym ''('' # commas (map type_toks ps) @ Sym '')'' # r) = ok (ps, r)"
proof -
  obtain t us where ps: "ps = t # us" using assms(2) by (cases ps) auto
  have n: "2 * length (type_toks t) < n" "2 * length (comma_toks us) < n"
    using assms(3) unfolding ps commas_comma_toks by simp_all
  have "closing (comma_toks us @ Sym '')'' # r)" by (cases us) simp_all
  with assms(1) n(1) have "p_param n P (type_toks t @ comma_toks us @ Sym '')'' # r) = ok (t, comma_toks us @ Sym '')'' # r)"
    by (simp add: readable_def ps)
  moreover have "p_comma_list n P (comma_toks us @ Sym '')'' # r) = ok (us, Sym '')'' # r)"
    using assms(1) n(2) by (intro p_comma_list_toks) (simp_all add: ps)
  ultimately show ?thesis unfolding ps commas_comma_toks by (simp add: p_param_list_def expect.simps(2))
qed

lemma p_provisos_closing: "closing r \<Longrightarrow> 0 < n \<Longrightarrow> p_provisos n t r = ok (t, r)"
  by (cases n) (simp_all add: closing_head)

lemma p_type_named:
  assumes "\<forall>t \<in> set ps. readable (p_type m) t" and "ps = [] \<longrightarrow> capital a" and "closing r"
    and "2 * length (params_toks (map type_toks ps)) < Suc m" and "0 < m"
  shows "p_type (Suc m) (NAME a # params_toks (map type_toks ps) @ r) = ok (Type a ps, r)"
proof (cases "ps = []")
  case True
  with assms show ?thesis
    by (simp add: p_base_def p_named_def name_type_def params_toks_def capital_def closing_head p_provisos_closing)
next
  case False
  then have toks: "params_toks (map type_toks ps) @ r = Sym ''#'' # Sym ''('' # commas (map type_toks ps) @ Sym '')'' # r"
    by (simp add: params_toks_def)
  have "p_param_list m (p_type m) (Sym ''('' # commas (map type_toks ps) @ Sym '')'' # r) = ok (ps, r)"
    using assms(4) False by (intro p_param_list_toks [OF assms(1)]) (simp_all add: params_toks_def)
  with assms(3,5) show ?thesis unfolding toks
    by (simp add: p_base_def p_named_def p_provisos_closing)
qed

lemma readable_param:
  assumes "wf_param t" and "\<not> only_param t \<Longrightarrow> \<forall>r. closing r \<longrightarrow> P (type_toks t @ r) = ok (t, r)"
  shows "readable P t"
proof (cases t)
  case (TypeFunction f ts)
  have "p_param n P (type_toks t @ r) = ok (t, r)" if n: "2 * length (type_toks t) < n" for n r
  proof -
    have "wf_term (Fn f ts)" "2 * length (term_toks (Fn f ts)) < n" using assms(1) n by (simp_all add: TypeFunction)
    from p_term_toks [OF this] have "p_term n (Key f # params_toks (map term_toks ts) @ r) = ok (Fn f ts, r)" by simp
    with assms(1) show ?thesis by (simp add: TypeFunction p_param_def p_type_function_def)
  qed
  then show ?thesis by (simp add: readable_def)
next
  case (NumericType k)
  with assms(1) show ?thesis by (simp add: readable_def p_param_def str_of_int_def)
qed (use assms in \<open>auto simp: readable_def p_param_def params_toks_def\<close>)

lemma p_type_toks:
  "wf_param t \<Longrightarrow> \<not> only_param t \<Longrightarrow> 2 * length (type_toks t) < n \<Longrightarrow> closing r \<Longrightarrow> p_type n (type_toks t @ r) = ok (t, r)"
proof (induction t arbitrary: n r rule: wf_param.induct)
  case (1 a ps)
  then obtain m where n: "n = Suc m" by (cases n) auto
  have "readable (p_type m) t" if t: "t \<in> set ps" for t
  proof (rule readable_param)
    show "wf_param t" using 1(2) t by (simp add: list_all_iff)
    have "2 * length (type_toks t) < m" using 1(4) length_param [OF t] by (simp add: n)
    then show "\<forall>r. closing r \<longrightarrow> p_type m (type_toks t @ r) = ok (t, r)" if "\<not> only_param t"
      using 1(1) [OF t] that \<open>wf_param t\<close> by blast
  qed
  then show ?case using 1 by (simp add: n del: p_type.simps) (intro p_type_named; simp)
next
  case (2 ns a ps)
  then obtain m where n: "n = Suc (Suc m)" by (cases n; cases "n - 1") auto
  have "readable (p_type m) t" if t: "t \<in> set ps" for t
  proof (rule readable_param)
    show "wf_param t" using 2(2) t by (simp add: list_all_iff)
    have "2 * length (type_toks t) < m" using 2(4) length_param [OF t] by (simp add: n)
    then show "\<forall>r. closing r \<longrightarrow> p_type m (type_toks t @ r) = ok (t, r)" if "\<not> only_param t"
      using 2(1) [OF t] that \<open>wf_param t\<close> by blast
  qed
  then have "p_type (Suc m) (NAME a # params_toks (map type_toks ps) @ r) = ok (Type a ps, r)"
    using 2 by (intro p_type_named) (simp_all add: n)
  moreover have "p_type (Suc (Suc m)) ts = bindO (p_base (Suc m) (p_type (Suc m)) ts) (\<lambda>(t, r). p_provisos (Suc m) t r)" for ts
    by (simp only: p_type.simps)
  ultimately show ?case using closing_head [OF 2(5)]
    by (simp add: n p_base_def p_named_def mk_TypeRef_def del: p_type.simps)
next
  case (3 a)
  then obtain m where n: "n = Suc (Suc (Suc m))" by (cases n; cases "n - 1"; cases "n - 2") auto
  show ?case using 3(4) closing_head [OF 3(4)]
    by (simp add: n p_base_def p_poly_type_def p_name_def expect.simps(2) p_provisos_closing)
next
  case (4 a)
  then obtain m where n: "n = Suc (Suc (Suc m))" by (cases n; cases "n - 1"; cases "n - 2") auto
  show ?case using 4(4) closing_head [OF 4(4)]
    by (simp add: n p_base_def p_poly_type_def p_name_def expect.simps(2) p_provisos_closing)
qed simp_all

fun is_declaration :: "bsv_type \<Rightarrow> bool" where
  "is_declaration (TypeAlias b a) = True"
| "is_declaration (Typeclass t us) = True"
| "is_declaration t = is_CompoundType t"

lemma parse_repr:
  assumes "wf_type t"
  shows "parseType (type_repr t) = Some (Inr t)"
proof -
  have wf: "wf_param t" "\<not> only_param t" using assms by (simp_all add: wf_type_def)
  have lexed: "lex_type (type_repr t) = type_toks t" using lex_repr [OF wf(1), of "[]"] by simp
  have "p_type (fuel (type_toks t)) (type_toks t) = ok (t, [])"
    using p_type_toks [OF wf, of "fuel (type_toks t)" "[]"] by (simp add: fuel_def)
  moreover have "type_decl (type_toks t) = parse_type (type_toks t)"
    using wf by (cases t) (simp_all add: type_decl_def)
  ultimately show ?thesis by (simp add: parseType_def lexed parse_type_def)
qed

text \<open>A function type is never read, whatever its arguments, and a reference to a type variable fails.\<close>

lemma function_types_fail:
  "parseType ''function Bool f((Bool x, Bool y))'' = Some (Inl IndexError)"
  "parseType ''function Bool f(())'' = Some (Inl IndexError)"
  "parseType ''function Bool f((Bool x))'' = Some (Inl TypeError)"
  by code_simp+

lemma reference_to_variable_fails: "parseType ''Pkg::thing'' = Some (Inl (AttributeError ''params''))"
  by code_simp

section \<open>Properties\<close>

text \<open>
  C39: The parser always returns, and what it returns is well-formed.  Whatever the text, the bound on the depth
  of the calls is enough; the parser gives an exception or a declaration whose types are built from names
  the lexer accepts, with capitals for types without parameters, whose members are numbered
  by their places, and, for a tagged union, with a width of its own for every member.
\<close>

theorem parseType_wf_decl:
  "\<exists>r. parseType s = Some r \<and> (case r of Inl e \<Rightarrow> True | Inr t \<Rightarrow> wf_decl t)"
  using parseType_wf [of s] by (auto simp: returns_def split: sum.splits)

text \<open>
  C24: Printing a type and parsing the text gives the type back, for every type the parser returns for
  some text (a type is not a declaration); so the text of a type is a canonical form of the texts that
  are read as that type.
\<close>

theorem parseType_reprint:
  assumes "parseType s = Some (Inr t)" and "\<not> is_declaration t"
  shows "parseType (type_repr t) = Some (Inr t)"
proof -
  have "wf_decl t" using parseType_wf [of s] assms(1) by (simp add: returns_def)
  with assms(2) have "wf_type t" by (cases t) simp_all
  then show ?thesis by (rule parse_repr)
qed

theorem parseType_reprint_witness:
  "parseType (type_repr (TypeRef ''FIFO'' ''FIFO'' [Type ''Bit'' [NumericType 8], PolyType ''a''])) =
     Some (Inr (TypeRef ''FIFO'' ''FIFO'' [Type ''Bit'' [NumericType 8], PolyType ''a'']))"
proof (rule parseType_reprint)
  show "parseType ''FIFO :: FIFO#( Bit#(008), a)'' = Some (Inr (TypeRef ''FIFO'' ''FIFO'' [Type ''Bit'' [NumericType 8], PolyType ''a'']))"
    by code_simp
qed simp

end
