(* ===== verification/TypeCompress.thy ===== *)
theory TypeCompress
  imports BsvType "HOL-Library.Multiset"
begin

text \<open>
  \<^verbatim>\<open>lim_connect/type-compression/taggedUnionCompress.py\<close>: a link that carries a tagged union is split
  into a channel for the index and a channel per step in the sizes of the members, so that a small member uses
  only the first ones.  The code generates the module that splits the link and the one that joins it again; the
  objects for the new channels are built by \<open>li_module\<close>, which is not part of this repository, and are
  modelled by the arguments that depend on the channel.
\<close>

section \<open>The channels\<close>

record union_link =
  ul_name :: string
  ul_sc_type :: string
  ul_raw_type :: string
  ul_type :: bsv_type

record compress_channel =
  cc_name :: string
  cc_sc_type :: string
  cc_type :: string
  cc_width :: int
  cc_declaration :: string

definition bit_type :: "int \<Rightarrow> string" where
  "bit_type w = ''Bit#('' @ str_of_int w @ '')''"

definition CompressChannel :: "union_link \<Rightarrow> int \<Rightarrow> string \<Rightarrow> compress_channel" where
  "CompressChannel link width uniquifier =
     (let recv = ul_sc_type link = ''Recv'';
          polarityType = (if recv then ''CONNECTION_SEND'' else ''CONNECTION_RECV'');
          polarityInst = (if recv then ''Send'' else ''Recv'');
          polarityDangling = (if recv then ''Recv'' else ''Send'');
          name = ''c__'' @ ul_name link @ uniquifier @ ''__''
      in \<lparr>cc_name = name, cc_sc_type = polarityDangling, cc_type = bit_type width, cc_width = width,
          cc_declaration = polarityType @ ''#('' @ bit_type width @ '') '' @ name @ '' <- mkConnection'' @ polarityInst @
            ''('' @ quoted name @ '');'' @ nl\<rparr>)"

section \<open>The index function\<close>

text \<open>
  The members in the order of their widths; every width that is new opens a lane for the bits above the previous
  one, and a member uses the lanes opened so far.
\<close>

record index_state =
  bitsThusFar :: int
  enableIdx :: nat
  enables :: "nat list"
  splits :: "int list"
  rows :: "(int \<times> nat list) list"

definition index_step :: "index_state \<Rightarrow> int \<times> int \<Rightarrow> index_state" where
  "index_step st = (\<lambda>(width, index).
     let st' = (if width \<noteq> bitsThusFar st then
         st\<lparr>splits := splits st @ [width - bitsThusFar st], enables := (enables st)[enableIdx st := 1],
            enableIdx := enableIdx st + 1\<rparr> else st)
     in st'\<lparr>rows := rows st' @ [(index, enables st')], bitsThusFar := width\<rparr>)"

definition sized_members :: "bsv_member list \<Rightarrow> (int \<times> int) list res" where
  "sized_members ms = mapR (\<lambda>m. bindR (member_width m) (\<lambda>w. Inr (w, member_index m))) ms"

definition IndexFunction :: "bsv_member list \<Rightarrow> index_state res" where
  "IndexFunction ms =
     bindR (sized_members ms) (\<lambda>ws.
       Inr (foldl index_step
         \<lparr>bitsThusFar = 0, enableIdx = 0, enables = replicate (length ms) 0, splits = [], rows = []\<rparr>
         (sort_key fst ws)))"

text \<open>The most significant enable is written first.\<close>

definition index_row :: "int \<times> nat list \<Rightarrow> string" where
  "index_row = (\<lambda>(index, es).
     tb @ tb @ tb @ str_of_int index @ '':  result = {1'' @ [CHR 0x27] @ ''b'' @
       join ('',1'' @ [CHR 0x27] @ ''b'') (map num (rev es)) @ ''};'' @ nl)"

definition index_definition :: "nat \<Rightarrow> index_state \<Rightarrow> string" where
  "index_definition n st =
     tb @ ''function Bit#('' @ num n @ '')  indexer(idx);'' @ nl @
     tb @ tb @ ''Bit#('' @ num n @ '') result = ?;'' @ nl @ tb @ tb @ ''case(idx)'' @ nl @
     text_for index_row (rows st) @
     tb @ tb @ tb @ ''default: result = ?;'' @ nl @ tb @ tb @ ''endcase'' @ nl @ tb @ tb @ ''return result;'' @ nl @
     tb @ ''endfunction'' @ nl"

section \<open>The two modules\<close>

record union_code =
  uc_channels :: "compress_channel list"
  uc_declaration :: string
  uc_definition :: string

text \<open>\<open>int(math.ceil(math.log(len(type.members), 2)))\<close>\<close>

definition index_width :: "bsv_member list \<Rightarrow> int res" where
  "index_width ms = (if ms = [] then Inl ValueError else Inr (int (clog2 (length ms))))"

definition split_channels :: "union_link \<Rightarrow> int list \<Rightarrow> compress_channel list" where
  "split_channels link ss = map (\<lambda>(k, s). CompressChannel link s (num k)) (List.enumerate 0 ss)"

definition recv_guard :: "nat \<times> compress_channel \<Rightarrow> string" where
  "recv_guard = (\<lambda>(k, ch). ''('' @ cc_name ch @ ''.notEmpty() || index['' @ num k @ ''] == 0)'')"

definition wire_text :: "nat \<times> compress_channel \<Rightarrow> string" where
  "wire_text = (\<lambda>(k, ch).
     tb @ cc_declaration ch @
     tb @ ''Wire#(Bit#('' @ str_of_int (cc_width ch) @ '')) inputConnectionWire'' @ num k @ '' <- mkDWire(0);'' @ nl @
     tb @ ''PulseWire attemptInput'' @ num k @ '' <- mkPulseWire;'' @ nl)"

definition attempt_text :: "nat \<Rightarrow> string" where
  "attempt_text k =
     tb @ tb @ tb @ ''if(index['' @ num k @ ''] == 1)'' @ nl @ tb @ tb @ tb @ ''begin'' @ nl @
     tb @ tb @ tb @ tb @ ''attemptInput'' @ num k @ ''.send();'' @ nl @ tb @ tb @ tb @ ''end'' @ nl"

definition deq_text :: "nat \<times> compress_channel \<Rightarrow> string" where
  "deq_text = (\<lambda>(k, ch).
     tb @ ''rule indexDeq'' @ num k @ ''(attemptInput'' @ num k @ '');'' @ nl @
     tb @ tb @ ''inputConnectionWire'' @ num k @ '' <= '' @ cc_name ch @ ''.receive();'' @ nl @
     tb @ tb @ cc_name ch @ ''.deq();'' @ nl @ tb @ ''endrule'' @ nl @ nl)"

definition decompressor_code :: "union_link \<Rightarrow> bsv_member list \<Rightarrow> int \<Rightarrow> union_code res" where
  "decompressor_code link ms unionWidth =
     bindR (index_width ms) (\<lambda>width. bindR (IndexFunction ms) (\<lambda>fn.
       let name = ul_name link; idx = CompressChannel link width ''Idx''; chs = split_channels link (splits fn);
           ks = List.enumerate 0 chs
       in Inr \<lparr>uc_channels = idx # chs,
            uc_declaration = nl @ ''let decompressor'' @ name @ '' <- mkDecompressor'' @ name @ ''();'' @ nl,
            uc_definition =
              nl @ nl @ ''module [CONNECTED_MODULE] mkDecompressor'' @ name @ ''(Empty);'' @ nl @
              tb @ cc_declaration idx @
              tb @ ''PHYSICAL_SEND#(Bit#('' @ str_of_int unionWidth @ '')) outputConnection <- mkPhysicalConnectionSend('' @
              quoted name @ '', tagged Invalid, '' @ quoted (ul_raw_type link) @ '', defaultValue);'' @ nl @
              tb @ ''Wire#(Maybe#(Bit#('' @ str_of_int width @ ''))) attemptInput <- mkDWire(tagged Invalid);'' @ nl @
              index_definition (length ms) fn @ text_for wire_text ks @
              tb @ ''rule indexDeq(outputConnection.notFull());'' @ nl @
              tb @ tb @ ''let index = indexer('' @ cc_name idx @ ''.receive());'' @ nl @
              tb @ tb @ ''if('' @ join ''&&'' (map recv_guard ks) @ '')'' @ nl @ tb @ tb @ ''begin'' @ nl @
              tb @ tb @ tb @ ''attemptInput <= tagged Valid ('' @ cc_name idx @ ''.receive());'' @ nl @
              tb @ tb @ tb @ cc_name idx @ ''.deq();'' @ nl @ text_for attempt_text [0..<length chs] @
              tb @ tb @ ''end'' @ nl @ tb @ ''endrule'' @ nl @ nl @
              tb @ ''rule mixResults(attemptInput matches tagged Valid .idx);'' @ nl @
              tb @ tb @ ''outputConnection.send({idx,'' @
              join '' , '' (rev (map (\<lambda>k. ''inputConnectionWire'' @ num k) [0..<length chs])) @ ''});'' @ nl @
              tb @ ''endrule'' @ nl @ nl @ text_for deq_text ks @ ''endmodule'' @ nl @ nl\<rparr>))"

text \<open>The slice of the payload that a lane carries, from its least to its greatest bit.\<close>

fun lane_slices :: "int \<Rightarrow> int list \<Rightarrow> (int \<times> int) list" where
  "lane_slices offset [] = []"
| "lane_slices offset (s # ss) = (offset, offset + s - 1) # lane_slices (offset + s) ss"

definition send_text :: "(nat \<times> compress_channel) \<times> (int \<times> int) \<Rightarrow> string" where
  "send_text = (\<lambda>((k, ch), (lo, hi)).
     tb @ tb @ ''if(index['' @ num k @ ''] == 1)'' @ nl @ tb @ tb @ ''begin'' @ nl @
     tb @ tb @ tb @ cc_name ch @ ''.send(tpl_2(indexSplit)['' @ str_of_int hi @ '':'' @ str_of_int lo @ '']);'' @ nl @
     tb @ tb @ ''end'' @ nl)"

definition compressor_code :: "union_link \<Rightarrow> bsv_member list \<Rightarrow> int \<Rightarrow> union_code res" where
  "compressor_code link ms unionWidth =
     bindR (index_width ms) (\<lambda>width. bindR (IndexFunction ms) (\<lambda>fn.
       let name = ul_name link; idx = CompressChannel link width ''Idx''; chs = split_channels link (splits fn);
           ks = List.enumerate 0 chs
       in Inr \<lparr>uc_channels = idx # chs,
            uc_declaration = nl @ ''let compressor'' @ name @ '' <- mkCompressor'' @ name @ ''();'' @ nl,
            uc_definition =
              nl @ nl @ ''module [CONNECTED_MODULE] mkCompressor'' @ name @ '' (Empty);'' @ nl @
              tb @ ''CONNECTION_RECV#(Bit#('' @ str_of_int unionWidth @ '')) inputConnection <- mkPhysicalConnectionRecv('' @
              quoted name @ '', tagged Invalid, '' @ quoted (ul_raw_type link) @ '', defaultValue);'' @ nl @
              tb @ cc_declaration idx @ index_definition (length ms) fn @
              text_for (\<lambda>ch. tb @ cc_declaration ch) chs @
              tb @ ''rule indexEnq(inputConnection.notEmpty());'' @ nl @
              tb @ tb @ ''Tuple2#(Bit#('' @ str_of_int width @ ''), Bit#('' @ str_of_int (unionWidth - width) @
              '')) indexSplit = split(inputConnection.receive());'' @ nl @
              tb @ tb @ ''let index = indexer(tpl_1(indexSplit));'' @ nl @ tb @ tb @ ''inputConnection.deq();'' @ nl @
              tb @ tb @ cc_name idx @ ''.send(tpl_1(indexSplit));'' @ nl @
              text_for send_text (zip ks (lane_slices 0 (splits fn))) @
              tb @ ''endrule'' @ nl @ nl @ ''endmodule'' @ nl @ nl\<rparr>))"

text \<open>A link of another type gets no code.\<close>

definition TaggedUnionDecompressor :: "union_link \<Rightarrow> union_code option res" where
  "TaggedUnionDecompressor link =
     (case ul_type link of
        TaggedUnion t ms w \<Rightarrow> bindR (decompressor_code link ms w) (\<lambda>c. Inr (Some c))
      | _ \<Rightarrow> Inr None)"

definition TaggedUnionCompressor :: "union_link \<Rightarrow> union_code option res" where
  "TaggedUnionCompressor link =
     (case ul_type link of
        TaggedUnion t ms w \<Rightarrow> bindR (compressor_code link ms w) (\<lambda>c. Inr (Some c))
      | _ \<Rightarrow> Inr None)"

section \<open>What the generated modules do\<close>

text \<open>
  The payload is a list of bits from the least significant one.  The compressor sends the slices of the enabled
  lanes; the decompressor puts a wire for every lane, zero where nothing arrived, the last lane in front.
\<close>

definition slice :: "bool list \<Rightarrow> int \<times> int \<Rightarrow> bool list" where
  "slice bits = (\<lambda>(lo, hi). take (nat (hi + 1 - lo)) (drop (nat lo) bits))"

definition compress_payload :: "int list \<Rightarrow> nat list \<Rightarrow> bool list \<Rightarrow> bool list option list" where
  "compress_payload ss es bits = map (\<lambda>(e, sl). if e = 1 then Some (slice bits sl) else None) (zip es (lane_slices 0 ss))"

definition decompress_payload :: "int list \<Rightarrow> bool list option list \<Rightarrow> bool list" where
  "decompress_payload ss lanes =
     concat (map (\<lambda>(s, l). case l of None \<Rightarrow> replicate (nat s) False | Some bits \<Rightarrow> bits) (zip ss lanes))"

section \<open>The lanes of a member\<close>

definition lanes_row :: "nat \<Rightarrow> int list \<Rightarrow> int \<times> int \<Rightarrow> int \<times> nat list \<Rightarrow> bool" where
  "lanes_row n ss = (\<lambda>(width, index) (i, es).
     i = index \<and> (\<exists>k \<le> length ss. es = replicate k 1 @ replicate (n - k) 0 \<and> sum_list (take k ss) = width))"

definition index_inv :: "nat \<Rightarrow> (int \<times> int) list \<Rightarrow> index_state \<Rightarrow> bool" where
  "index_inv n pre st \<longleftrightarrow>
     sum_list (splits st) = bitsThusFar st \<and> (\<forall>s \<in> set (splits st). 0 < s) \<and> enableIdx st = length (splits st) \<and>
     length (splits st) \<le> length pre \<and>
     enables st = replicate (length (splits st)) 1 @ replicate (n - length (splits st)) 0 \<and>
     list_all2 (lanes_row n (splits st)) pre (rows st)"

lemma lanes_row_append:
  assumes "lanes_row n ss x r"
  shows "lanes_row n (ss @ [s]) x r"
proof -
  obtain k where "fst r = snd x" "k \<le> length ss" "snd r = replicate k 1 @ replicate (n - k) 0" "sum_list (take k ss) = fst x"
    using assms by (auto simp: lanes_row_def split: prod.splits)
  then show ?thesis by (auto simp: lanes_row_def intro!: exI [of _ k] split: prod.splits)
qed

lemma enable_next:
  assumes "j < n"
  shows "(replicate j 1 @ replicate (n - j) 0)[j := 1] = replicate (Suc j) (1 :: nat) @ replicate (n - Suc j) 0"
proof -
  have "replicate (n - j) (0 :: nat) = 0 # replicate (n - Suc j) 0"
    using assms by (simp add: Suc_diff_Suc flip: replicate_Suc)
  then have "(replicate j 1 @ replicate (n - j) 0)[j := 1] = replicate j (1 :: nat) @ 1 # replicate (n - Suc j) 0"
    using list_update_length [of "replicate j (1 :: nat)" 0 "replicate (n - Suc j) 0" 1] by simp
  then show ?thesis by (simp add: replicate_app_Cons_same)
qed

lemma index_step_inv:
  assumes "index_inv n pre st" and "length pre < n" and "bitsThusFar st \<le> width"
  shows "index_inv n (pre @ [(width, index)]) (index_step st (width, index)) \<and> bitsThusFar (index_step st (width, index)) = width"
proof (cases "width = bitsThusFar st")
  case True
  have "lanes_row n (splits st) (width, index) (index, enables st)"
    using assms(1) True unfolding lanes_row_def index_inv_def by (auto intro!: exI [of _ "length (splits st)"])
  with assms(1) True show ?thesis by (simp add: index_inv_def index_step_def Let_def list_all2_appendI)
next
  case False
  let ?s = "width - bitsThusFar st"
  have row: "lanes_row n (splits st @ [?s]) (width, index) (index, replicate (Suc (length (splits st))) 1 @ replicate (n - Suc (length (splits st))) 0)"
    using assms(1) unfolding lanes_row_def index_inv_def by (auto intro!: exI [of _ "Suc (length (splits st))"])
  have old: "list_all2 (lanes_row n (splits st @ [?s])) pre (rows st)"
    using assms(1) unfolding index_inv_def by (auto elim: list_all2_mono intro: lanes_row_append)
  have "length (splits st) < n" using assms(1,2) by (simp add: index_inv_def)
  with assms False row old enable_next [OF this] show ?thesis
    by (simp add: index_inv_def index_step_def Let_def list_all2_appendI del: replicate_Suc)
qed

lemma index_steps_inv:
  "index_inv n pre st \<Longrightarrow> sorted (map fst ws) \<Longrightarrow> \<forall>w \<in> set ws. bitsThusFar st \<le> fst w \<Longrightarrow> length pre + length ws \<le> n \<Longrightarrow>
     index_inv n (pre @ ws) (foldl index_step st ws) \<and>
     bitsThusFar (foldl index_step st ws) = (if ws = [] then bitsThusFar st else fst (last ws))"
proof (induction ws arbitrary: pre st)
  case (Cons w ws)
  obtain width index where w: "w = (width, index)" by (cases w)
  have step: "index_inv n (pre @ [w]) (index_step st w)" "bitsThusFar (index_step st w) = width"
    using index_step_inv [OF Cons.prems(1), of width index] Cons.prems(3,4) by (simp_all add: w)
  have "\<forall>v \<in> set ws. bitsThusFar (index_step st w) \<le> fst v" using Cons.prems(2) step(2) by (auto simp: w)
  with Cons.IH [OF step(1)] Cons.prems(2,4) step(2) show ?case by (auto simp: w)
qed simp

section \<open>Payloads\<close>

lemma slices_length: "length (lane_slices o1 ss) = length ss"
  by (induction ss arbitrary: o1) simp_all

text \<open>The slices of the lanes, joined, are the bits from the first offset on.\<close>

lemma slices_join:
  "0 \<le> o1 \<Longrightarrow> \<forall>s \<in> set ss. 0 \<le> s \<Longrightarrow> concat (map (slice bits) (lane_slices o1 ss)) = take (nat (sum_list ss)) (drop (nat o1) bits)"
proof (induction ss arbitrary: o1)
  case (Cons s ss)
  have pos: "0 \<le> sum_list ss" using Cons.prems(2) by (intro sum_list_nonneg) auto
  have "concat (map (slice bits) (lane_slices (o1 + s) ss)) = take (nat (sum_list ss)) (drop (nat (o1 + s)) bits)"
    using Cons by (intro Cons.IH) simp_all
  moreover have "nat (o1 + s) = nat s + nat o1" "nat (s + sum_list ss) = nat s + nat (sum_list ss)"
    using Cons.prems pos by (simp_all add: nat_add_distrib)
  ultimately show ?case by (simp add: slice_def take_add)
qed simp

lemma lane_slices_append: "lane_slices o1 (xs @ ys) = lane_slices o1 xs @ lane_slices (o1 + sum_list xs) ys"
  by (induction xs arbitrary: o1) (simp_all add: add.assoc)

lemma zip_enabled: "zip (replicate (length xs) a) xs = map (Pair a) xs"
  by (induction xs) simp_all

lemma zip_disabled: "length xs \<le> m \<Longrightarrow> zip (replicate m a) xs = map (Pair a) xs"
proof (induction xs arbitrary: m)
  case (Cons x xs)
  then show ?case by (cases m) simp_all
qed simp

lemma compress_lanes:
  assumes "k \<le> length ss" and "length ss \<le> n"
  shows "compress_payload ss (replicate k 1 @ replicate (n - k) 0) bits =
    map (\<lambda>sl. Some (slice bits sl)) (lane_slices 0 (take k ss)) @ replicate (length ss - k) None"
proof -
  let ?l1 = "lane_slices 0 (take k ss)" and ?l2 = "lane_slices (sum_list (take k ss)) (drop k ss)"
  have lanes: "lane_slices 0 ss = ?l1 @ ?l2"
    using lane_slices_append [of 0 "take k ss" "drop k ss"] by simp
  have len: "length ?l1 = k" "length ?l2 = length ss - k" using assms(1) by (simp_all add: slices_length)
  have "zip (replicate k (1 :: nat)) ?l1 = map (Pair 1) ?l1" using zip_enabled [of ?l1 "1 :: nat"] unfolding len(1) .
  moreover have "zip (replicate (n - k) (0 :: nat)) ?l2 = map (Pair 0) ?l2"
    using assms len(2) by (intro zip_disabled) simp
  ultimately have "zip (replicate k 1 @ replicate (n - k) 0) (lane_slices 0 ss) = map (Pair 1) ?l1 @ map (Pair (0 :: nat)) ?l2"
    unfolding lanes using len(1) by (subst zip_append) simp_all
  moreover have "map (\<lambda>sl. None) ?l2 = replicate (length ss - k) None" using len(2) by (simp add: map_replicate_const)
  ultimately show ?thesis by (simp add: compress_payload_def comp_def)
qed

lemma joined_zeros: "\<forall>s \<in> set ss. 0 \<le> s \<Longrightarrow>
  concat (map (\<lambda>(s, l). case l of None \<Rightarrow> replicate (nat s) False | Some bits \<Rightarrow> bits) (zip ss (replicate (length ss) None)))
    = replicate (nat (sum_list ss)) False"
proof (induction ss)
  case (Cons s ss)
  moreover have "0 \<le> sum_list ss" using Cons.prems by (intro sum_list_nonneg) auto
  ultimately show ?case by (simp add: nat_add_distrib replicate_add)
qed simp

lemma joined_slices:
  "length ls = length ss \<Longrightarrow>
     concat (map (\<lambda>(s, l). case l of None \<Rightarrow> replicate (nat s) False | Some bits \<Rightarrow> bits) (zip ss (map (\<lambda>sl. Some (slice bits sl)) ls)))
       = concat (map (slice bits) ls)"
  by (induction ls arbitrary: ss) (auto simp: length_Suc_conv Suc_length_conv)

text \<open>The bits of the enabled lanes arrive in their places, and the others are zero.\<close>

lemma decompress_compress:
  assumes "k \<le> length ss" and "length ss \<le> n" and "\<forall>s \<in> set ss. 0 \<le> s"
  shows "decompress_payload ss (compress_payload ss (replicate k 1 @ replicate (n - k) 0) bits) =
    take (nat (sum_list (take k ss))) bits @ replicate (nat (sum_list (drop k ss))) False"
proof -
  let ?f = "\<lambda>(s, l). case l of None \<Rightarrow> replicate (nat s) False | Some bits \<Rightarrow> bits"
  let ?l1 = "lane_slices 0 (take k ss)"
  have len: "length ?l1 = k" using assms(1) by (simp add: slices_length)
  have "zip ss (map (\<lambda>sl. Some (slice bits sl)) ?l1 @ replicate (length ss - k) None) =
      zip (take k ss) (map (\<lambda>sl. Some (slice bits sl)) ?l1) @ zip (drop k ss) (replicate (length ss - k) None)"
    using len assms(1) zip_append [of "take k ss" "map (\<lambda>sl. Some (slice bits sl)) ?l1" "drop k ss" "replicate (length ss - k) None"]
    by simp
  moreover have "concat (map ?f (zip (take k ss) (map (\<lambda>sl. Some (slice bits sl)) ?l1))) = concat (map (slice bits) ?l1)"
    using len assms(1) by (intro joined_slices) simp
  moreover have "concat (map (slice bits) ?l1) = take (nat (sum_list (take k ss))) bits"
    using slices_join [of 0 "take k ss" bits] assms(3) by (auto dest: in_set_takeD)
  moreover have "concat (map ?f (zip (drop k ss) (replicate (length ss - k) None))) = replicate (nat (sum_list (drop k ss))) False"
    using joined_zeros [of "drop k ss"] assms(3) by (auto dest: in_set_dropD)
  ultimately show ?thesis unfolding decompress_payload_def compress_lanes [OF assms(1,2)] by simp
qed

lemma sized_members_all:
  "sized_members ms = Inr ws \<Longrightarrow> list_all2 (\<lambda>m w. member_width m = Inr (fst w) \<and> snd w = member_index m) ms ws"
  by (induction ms arbitrary: ws) (auto simp: sized_members_def res_simps)

lemma sized_members_Inr:
  assumes "sized_members ms = Inr ws"
  shows "map snd ws = map member_index ms" and "\<forall>m \<in> set ms. \<exists>w. member_width m = Inr w \<and> (w, member_index m) \<in> set ws"
    and "\<forall>x \<in> set ws. \<exists>m \<in> set ms. member_width m = Inr (fst x)"
  using sized_members_all [OF assms] by (induction ms ws rule: list_all2_induct) auto

text \<open>The rows and lanes of a tagged union.\<close>

lemma IndexFunction_lanes:
  assumes "IndexFunction ms = Inr fn" and "\<forall>m \<in> set ms. \<forall>w. member_width m = Inr w \<longrightarrow> 0 \<le> w"
  shows "\<exists>ws. sized_members ms = Inr ws \<and> index_inv (length ms) (sort_key fst ws) fn"
proof -
  obtain ws where ws: "sized_members ms = Inr ws"
    "fn = foldl index_step \<lparr>bitsThusFar = 0, enableIdx = 0, enables = replicate (length ms) 0, splits = [], rows = []\<rparr> (sort_key fst ws)"
    using assms(1) by (auto simp: IndexFunction_def res_simps)
  let ?st = "\<lparr>bitsThusFar = 0, enableIdx = 0, enables = replicate (length ms) 0, splits = [], rows = []\<rparr>"
  have "index_inv (length ms) [] ?st" by (simp add: index_inv_def)
  moreover have "\<forall>w \<in> set (sort_key fst ws). bitsThusFar ?st \<le> fst w"
    using sized_members_Inr(3) [OF ws(1)] assms(2) by force
  moreover have "length ws = length ms" using arg_cong [OF sized_members_Inr(1) [OF ws(1)], of length] by simp
  ultimately have "index_inv (length ms) (sort_key fst ws) fn"
    unfolding ws(2) using index_steps_inv [of "length ms" "[]" ?st "sort_key fst ws"] by simp
  with ws(1) show ?thesis by blast
qed

lemma list_all2_left: "list_all2 P xs ys \<Longrightarrow> x \<in> set xs \<Longrightarrow> \<exists>y \<in> set ys. P x y"
  by (induction xs ys rule: list_all2_induct) auto

lemma lanes_indices: "list_all2 (lanes_row n ss) xs rs \<Longrightarrow> map fst rs = map snd xs"
  by (induction xs rs rule: list_all2_induct) (auto simp: lanes_row_def)

text \<open>A payload whose row enables its lanes comes back up to the width of its member.\<close>

lemma lanes_row_lossless:
  assumes "lanes_row n ss (w, i) (j, es)" and "length ss \<le> n" and "\<forall>s \<in> set ss. 0 < s" and "int (length bits) = sum_list ss"
  shows "take (nat w) (decompress_payload ss (compress_payload ss es bits)) = take (nat w) bits"
proof -
  obtain k where k: "k \<le> length ss" "es = replicate k 1 @ replicate (n - k) 0" "sum_list (take k ss) = w"
    using assms(1) by (auto simp: lanes_row_def)
  have pos: "\<forall>s \<in> set ss. 0 \<le> s" using assms(3) by auto
  have "0 \<le> sum_list (drop k ss)" using pos by (intro sum_list_nonneg) (auto dest: in_set_dropD)
  then have "sum_list (take k ss) \<le> sum_list ss" using sum_list_append [of "take k ss" "drop k ss"] by simp
  then have "nat w \<le> length bits" using assms(4) k(3) by linarith
  then show ?thesis using decompress_compress [OF k(1) assms(2) pos, of bits] k(3) unfolding k(2) by simp
qed

lemma index_inv_greatest:
  assumes "index_inv n xs st" and "x \<in> set xs"
  shows "fst x \<le> sum_list (splits st)"
proof -
  have inv: "list_all2 (lanes_row n (splits st)) xs (rows st)" "\<forall>s \<in> set (splits st). 0 < s"
    using assms(1) by (simp_all add: index_inv_def)
  obtain r where "lanes_row n (splits st) x r" using list_all2_left [OF inv(1) assms(2)] by blast
  then obtain k where k: "sum_list (take k (splits st)) = fst x" unfolding lanes_row_def by (cases x) auto
  have "\<forall>s \<in> set (drop k (splits st)). 0 \<le> s" using inv(2) by (auto dest!: in_set_dropD)
  then have "0 \<le> sum_list (drop k (splits st))" by (intro sum_list_nonneg) simp
  then show ?thesis using k sum_list_append [of "take k (splits st)" "drop k (splits st)"] by simp
qed

text \<open>
  C8: the split of a tagged union loses nothing.  Every lane is at least a bit wide, the lanes together are as
  wide as the widest member, every member has its row in the index function, and a payload that is taken apart
  by the compressor and put together by the decompressor under the row of a member has its bits up to the
  width of that member.
\<close>

theorem compress_lossless:
  assumes "IndexFunction ms = Inr fn" and "\<forall>m \<in> set ms. \<forall>w. member_width m = Inr w \<longrightarrow> 0 \<le> w"
  shows "(\<forall>s \<in> set (splits fn). 0 < s) \<and> mset (map fst (rows fn)) = mset (map member_index ms) \<and>
    (\<forall>m \<in> set ms. \<exists>w es. member_width m = Inr w \<and> w \<le> sum_list (splits fn) \<and> (member_index m, es) \<in> set (rows fn) \<and>
       (\<forall>bits. int (length bits) = sum_list (splits fn) \<longrightarrow>
          take (nat w) (decompress_payload (splits fn) (compress_payload (splits fn) es bits)) = take (nat w) bits))"
proof -
  obtain ws where ws: "sized_members ms = Inr ws" and inv: "index_inv (length ms) (sort_key fst ws) fn"
    using IndexFunction_lanes [OF assms] by blast
  have n: "length ws = length ms" using arg_cong [OF sized_members_Inr(1) [OF ws], of length] by simp
  have all: "list_all2 (lanes_row (length ms) (splits fn)) (sort_key fst ws) (rows fn)" "\<forall>s \<in> set (splits fn). 0 < s"
    "length (splits fn) \<le> length ms" using inv n by (simp_all add: index_inv_def)
  have "mset (map fst (rows fn)) = mset (map snd ws)" unfolding lanes_indices [OF all(1)] by simp
  moreover have "\<exists>w es. member_width m = Inr w \<and> w \<le> sum_list (splits fn) \<and> (member_index m, es) \<in> set (rows fn) \<and>
      (\<forall>bits. int (length bits) = sum_list (splits fn) \<longrightarrow>
         take (nat w) (decompress_payload (splits fn) (compress_payload (splits fn) es bits)) = take (nat w) bits)"
    if m: "m \<in> set ms" for m
  proof -
    obtain w where w: "member_width m = Inr w" "(w, member_index m) \<in> set (sort_key fst ws)"
      using sized_members_Inr(2) [OF ws] m by auto
    obtain j es where r: "(j, es) \<in> set (rows fn)" "lanes_row (length ms) (splits fn) (w, member_index m) (j, es)"
      using list_all2_left [OF all(1) w(2)] by auto
    have "j = member_index m" using r(2) by (simp add: lanes_row_def)
    with w r index_inv_greatest [OF inv w(2)] lanes_row_lossless [OF r(2) all(3,2)] show ?thesis by auto
  qed
  ultimately show ?thesis using all(2) sized_members_Inr(1) [OF ws] by simp
qed

lemma compress_lossless_witness:
  "let ms = [Member (Type ''Bit'' [NumericType 32]) ''w'' 32 2, Member (Type ''Bit'' []) ''none'' 0 0,
             Member (Type ''Bool'' []) ''b'' 1 1];
       fn = \<lparr>bitsThusFar = 32, enableIdx = 2, enables = [1, 1, 0], splits = [1, 31],
             rows = [(0, [0, 0, 0]), (1, [1, 0, 0]), (2, [1, 1, 0])]\<rparr>
   in IndexFunction ms = Inr fn \<and> (\<forall>s \<in> set (splits fn). 0 < s) \<and>
      mset (map fst (rows fn)) = mset (map member_index ms) \<and>
      (\<forall>m \<in> set ms. \<exists>w es. member_width m = Inr w \<and> w \<le> sum_list (splits fn) \<and> (member_index m, es) \<in> set (rows fn) \<and>
        (\<forall>bits. int (length bits) = sum_list (splits fn) \<longrightarrow>
           take (nat w) (decompress_payload (splits fn) (compress_payload (splits fn) es bits)) = take (nat w) bits))"
proof -
  let ?ms = "[Member (Type ''Bit'' [NumericType 32]) ''w'' 32 2, Member (Type ''Bit'' []) ''none'' 0 0,
              Member (Type ''Bool'' []) ''b'' 1 1]"
  let ?fn = "\<lparr>bitsThusFar = 32, enableIdx = 2, enables = [1, 1, 0], splits = [1, 31],
             rows = [(0, [0, 0, 0]), (1, [1, 0, 0]), (2, [1, 1, 0])]\<rparr>"
  have fn: "IndexFunction ?ms = Inr ?fn" by code_simp
  show ?thesis unfolding Let_def using fn compress_lossless [OF fn] by simp
qed

end
