(* ===== verification/WidthReport.thy ===== *)
theory WidthReport
  imports LimConnect LimGraph "HOL-Library.Sublist"
begin

text \<open>
  The first pass and the second one talk through a log: the router that \<^verbatim>\<open>generateLIMGraph.py\<close> writes
  prints the width of every physical connection while it is compiled, and \<open>parseWidth\<close> of \<^verbatim>\<open>LIMConnect.py\<close>
  reads the widths from the log with two regular expressions.  The lemmas show that it reads what was printed.
\<close>

section \<open>Matching\<close>

lemma try_down_at: "f k = Some r \<Longrightarrow> lo \<le> k \<Longrightarrow> k \<le> n \<Longrightarrow> \<forall>j. k < j \<and> j \<le> n \<longrightarrow> f j = None \<Longrightarrow> try_down f lo n = Some r"
proof (induction n)
  case (Suc n)
  then show ?case
  proof (cases "k = Suc n")
    case False
    with Suc.prems have "try_down f lo n = Some r" "f (Suc n) = None" by (auto intro: Suc.IH)
    with Suc.prems(2,3) False show ?thesis by simp
  qed simp
qed simp

lemma run_of_append: "\<forall>c \<in> set a. p c \<Longrightarrow> b = [] \<or> \<not> p (hd b) \<Longrightarrow> run_of p (a @ b) = length a"
  by (cases b) (auto simp: run_of_def takeWhile_append2 takeWhile_eq_all_conv [THEN iffD2])

text \<open>A greedy group takes the whole run when the rest matches.\<close>

lemma cap_run:
  assumes "\<forall>c \<in> set a. p c" and "lo \<le> length a" and "b = [] \<or> \<not> p (hd b)" and "re_match ps b = Some r"
  shows "re_match (Cap lo p # ps) (a @ b) = Some (a # r)"
  using assms run_of_append [OF assms(1,3)] by (auto intro!: try_down_at [of _ "length a"])

text \<open>Where a text ends before a separator it is the end of one of the parts.\<close>

lemma part_before_separator:
  "starts_with (u @ [c]) (drop i s) \<Longrightarrow> c \<notin> set u \<Longrightarrow> \<exists>q \<in> set (butlast (split_on c s)). suffix u q"
proof (induction s arbitrary: i)
  case (Cons x s)
  show ?case
  proof (cases i)
    case 0
    with Cons.prems have "x # s = u @ c # drop (Suc (length u)) (x # s)"
      by (metis append_eq_conv_conj append_take_drop_id drop0 length_append_singleton starts_with_def append.assoc append_Cons append_Nil)
    then have "split_on c (x # s) = u # split_on c (drop (Suc (length u)) (x # s))"
      using split_on_append [OF Cons.prems(2)] by metis
    then show ?thesis by auto
  next
    case (Suc j)
    then obtain q where q: "q \<in> set (butlast (split_on c s))" "suffix u q" using Cons by auto
    then show ?thesis
      by (cases "split_on c s") (auto simp: suffix_Cons split: if_splits)
  qed
qed (simp add: starts_with_def)

section \<open>One line\<close>

fun direction_word :: "via_direction \<Rightarrow> string" where
  "direction_word Ingress = ''ingress''"
| "direction_word Egress = ''egress''"

text \<open>The line of the log: what the compiler prints before the message, the message, the width.\<close>

definition report_line :: "string \<Rightarrow> via_direction \<Rightarrow> string \<Rightarrow> nat \<Rightarrow> string" where
  "report_line pre d n w = pre @ size_message (direction_word d) n @ num w @ nl"

text \<open>Names that the expressions can read.\<close>

definition readable_name :: "string \<Rightarrow> bool" where
  "readable_name n \<longleftrightarrow> n \<noteq> [] \<and> CHR '':'' \<notin> set n \<and> CHR 0x0A \<notin> set n \<and> \<not> suffix ''SizeOfVia'' n"

lemma digits_plain: "c \<in> set (num w) \<Longrightarrow> is_digit c \<and> c \<noteq> CHR '':'' \<and> c \<noteq> CHR 0x0A"
  using str_of_nat_digits [of w] by (auto simp: is_digit_def)

lemma report_no_later:
  assumes "readable_name n" and "0 < i"
  shows "\<not> starts_with ''SizeOfVia:'' (drop i (size_message (direction_word d) n @ num w @ nl))"
proof
  let ?rest = "''izeOfVia:'' @ n @ '':'' @ direction_word d @ '':'' @ num w @ nl"
  assume "starts_with ''SizeOfVia:'' (drop i (size_message (direction_word d) n @ num w @ nl))"
  then have "starts_with (''SizeOfVia'' @ [CHR '':'']) (drop (i - 1) ?rest)"
    using assms(2) by (cases i) (simp_all add: size_message_def)
  then have part: "\<exists>q \<in> set (butlast (split_on (CHR '':'') ?rest)). suffix ''SizeOfVia'' q"
    by (rule part_before_separator) simp
  have dir: "CHR '':'' \<notin> set (direction_word d)" by (cases d) simp_all
  have last: "CHR '':'' \<notin> set (num w @ nl)" using digits_plain by (auto simp: nl_def)
  have "split_on (CHR '':'') ?rest = [''izeOfVia'', n, direction_word d, num w @ nl]"
    using split_on_append [of "CHR '':''" "''izeOfVia''"] split_on_append [of "CHR '':''" n] split_on_append [OF dir] last assms(1)
    by (simp add: readable_name_def)
  with part have "\<exists>q \<in> {''izeOfVia'', n, direction_word d}. suffix ''SizeOfVia'' q" by simp
  then show False
    using assms(1) by (cases d) (auto simp: readable_name_def dest: suffix_length_le)
qed

lemma report_size_match:
  assumes "readable_name n" and "CHR 0x0A \<notin> set pre"
  shows "re_match via_size_pat (report_line pre d n w) = Some [n @ '':'' @ direction_word d @ '':'' @ num w]"
proof -
  let ?tail = "n @ '':'' @ direction_word d @ '':'' @ num w" and ?msg = "size_message (direction_word d) n @ num w"
  let ?f = "\<lambda>k. re_match [Lit ''SizeOfVia:'', Cap 0 any_char, Eol] (drop k (report_line pre d n w))"
  have dir: "CHR 0x0A \<notin> set (direction_word d)" by (cases d) simp_all
  have plain: "\<forall>c \<in> set ?tail. any_char c" "\<forall>c \<in> set (pre @ ?msg). any_char c"
    using assms digits_plain dir by (auto simp: readable_name_def any_char_def size_message_def)
  have line_end: "\<not> any_char (hd nl)" by (simp add: nl_def any_char_def)
  have "re_match (Cap 0 any_char # [Eol]) (?tail @ nl) = Some (?tail # [])"
    by (rule cap_run [OF plain(1)]) (simp_all add: nl_def any_char_def)
  then have here: "?f (length pre) = Some [?tail]"
    by (simp add: report_line_def size_message_def starts_with_def)
  have run: "run_of any_char (report_line pre d n w) = length (pre @ ?msg)"
    using run_of_append [OF plain(2) disjI2 [OF line_end]] by (simp add: report_line_def)
  have later: "?f j = None" if "length pre < j" for j
    using that report_no_later [OF assms(1), of "j - length pre" d w] by (simp add: report_line_def)
  have "re_match via_size_pat (report_line pre d n w) = try_down ?f 0 (length (pre @ ?msg))"
    by (simp only: via_size_pat_def re_match.simps(2) [of "Rep 0 any_char"] pat.case run)
  then show ?thesis using try_down_at [of ?f, OF here, of 0 "length (pre @ ?msg)"] later by simp
qed

lemma report_width_match:
  assumes "readable_name n"
  shows "re_search via_width_pat (n @ '':'' @ direction_word d @ '':'' @ num w) = Some [n, direction_word d, num w]"
proof -
  have "re_match (Cap 1 is_digit # []) (num w @ []) = Some [num w]"
    using digits_plain str_of_nat_not_Nil [of w] by (intro cap_run) (auto simp: Suc_le_eq)
  then have 1: "re_match [Lit '':'', Cap 1 is_digit] ('':'' @ num w) = Some [num w]"
    by (simp add: starts_with_def)
  have "re_match (Cap 1 not_colon # [Lit '':'', Cap 1 is_digit]) (direction_word d @ '':'' @ num w) = Some [direction_word d, num w]"
    by (rule cap_run [OF _ _ _ 1]) (cases d; simp add: not_colon_def)+
  then have 2: "re_match [Lit '':'', Cap 1 not_colon, Lit '':'', Cap 1 is_digit] ('':'' @ direction_word d @ '':'' @ num w) =
      Some [direction_word d, num w]"
    by (simp add: starts_with_def)
  have "re_match (Cap 1 not_colon # [Lit '':'', Cap 1 not_colon, Lit '':'', Cap 1 is_digit]) (n @ '':'' @ direction_word d @ '':'' @ num w) =
      Some [n, direction_word d, num w]"
    using assms by (intro cap_run [OF _ _ _ 2]) (auto simp: not_colon_def readable_name_def Suc_le_eq)
  then show ?thesis by (cases n) (simp_all add: via_width_pat_def assms)
qed

lemma width_line_report:
  assumes "readable_name n" and "CHR 0x0A \<notin> set pre"
  shows "width_line p (report_line pre d n w) = Inr (set_width d n (int w) p)"
  unfolding width_line_def report_size_match [OF assms] option.case list.case report_width_match [OF assms(1)]
  by (cases d) simp_all

section \<open>The platforms\<close>

text \<open>A line of a log: a report, with what is printed before it, or a line without the message.\<close>

type_synonym log_item = "string + string \<times> via_direction \<times> string"

fun log_line :: "(via_direction \<Rightarrow> string \<Rightarrow> nat) \<Rightarrow> log_item \<Rightarrow> string" where
  "log_line W (Inl other) = other"
| "log_line W (Inr (pre, d, n)) = report_line pre d n (W d n)"

fun log_item_ok :: "log_item \<Rightarrow> bool" where
  "log_item_ok (Inl other) \<longleftrightarrow> re_match via_size_pat other = None"
| "log_item_ok (Inr (pre, d, n)) \<longleftrightarrow> readable_name n \<and> CHR 0x0A \<notin> set pre"

definition reported :: "log_item list \<Rightarrow> (via_direction \<times> string) set" where
  "reported items = {(d, n). \<exists>pre. Inr (pre, d, n) \<in> set items}"

text \<open>Connections of a platform are told apart by their direction and their physical name.\<close>

definition unique_vias :: "platform \<Rightarrow> bool" where
  "unique_vias p \<longleftrightarrow> inj_on (\<lambda>i. (direction (physicalVias p ! i), physicalName (physicalVias p ! i))) {..<length (physicalVias p)}"

definition widen :: "(via_direction \<Rightarrow> string \<Rightarrow> nat) \<Rightarrow> (via_direction \<times> string) set \<Rightarrow> physical_via \<Rightarrow> physical_via" where
  "widen W D v = (if (direction v, physicalName v) \<in> D then v\<lparr>pv_width := Some (int (W (direction v) (physicalName v)))\<rparr> else v)"

definition widen_platform :: "(via_direction \<Rightarrow> string \<Rightarrow> nat) \<Rightarrow> (via_direction \<times> string) set \<Rightarrow> platform \<Rightarrow> platform" where
  "widen_platform W D p = p\<lparr>physicalVias := map (widen W D) (physicalVias p)\<rparr>"

lemma widen_keeps [simp]:
  "direction (widen W D v) = direction v" "physicalName (widen W D v) = physicalName v" "endpointName (widen W D v) = endpointName v"
  by (simp_all add: widen_def)

lemma dict_ok_widen: "dict_ok (map (widen W D) vs) d key m \<longleftrightarrow> dict_ok vs d key m" if "\<And>v. key (widen W D v) = key v"
  unfolding dict_ok_def by (simp add: that cong: conj_cong)

lemma platform_ok_widen: "platform_ok (widen_platform W D p) \<longleftrightarrow> platform_ok p"
  by (simp add: platform_ok_def widen_platform_def dict_ok_widen)

lemma unique_vias_widen: "unique_vias (widen_platform W D p) \<longleftrightarrow> unique_vias p"
  unfolding unique_vias_def widen_platform_def by (auto simp: inj_on_def)

lemma set_width_widens:
  assumes "platform_ok p" and "unique_vias p"
  shows "set_width d n (int (W d n)) p = widen_platform W {(d, n)} p"
proof -
  let ?m = "if d = Ingress then ingressesByPhysicalName p else egressesByPhysicalName p"
  have ok: "dict_ok (physicalVias p) d physicalName ?m"
    using assms(1) by (cases d) (simp_all add: platform_ok_def)
  show ?thesis
  proof (cases "map_of ?m n")
    case None
    then have "\<forall>v \<in> set (physicalVias p). \<not> (direction v = d \<and> physicalName v = n)" using ok by (auto simp: dict_ok_def)
    then have "map (widen W {(d, n)}) (physicalVias p) = physicalVias p" by (intro map_idI) (auto simp: widen_def)
    with None show ?thesis by (simp add: set_width_def widen_platform_def)
  next
    case (Some i)
    then have i: "i < length (physicalVias p)" "direction (physicalVias p ! i) = d" "physicalName (physicalVias p ! i) = n"
      using ok by (auto simp: dict_ok_def)
    have "(physicalVias p)[i := (physicalVias p ! i)\<lparr>pv_width := Some (int (W d n))\<rparr>] = map (widen W {(d, n)}) (physicalVias p)"
    proof (rule nth_equalityI)
      fix j assume "j < length ((physicalVias p)[i := (physicalVias p ! i)\<lparr>pv_width := Some (int (W d n))\<rparr>])"
      then show "(physicalVias p)[i := (physicalVias p ! i)\<lparr>pv_width := Some (int (W d n))\<rparr>] ! j = map (widen W {(d, n)}) (physicalVias p) ! j"
        using i assms(2) by (cases "j = i") (auto simp: widen_def unique_vias_def inj_on_def)
    qed simp
    with Some show ?thesis by (simp add: set_width_def widen_platform_def)
  qed
qed

lemma widen_more: "widen W D2 (widen W D1 v) = widen W (D1 \<union> D2) v"
  by (auto simp: widen_def)

lemma widen_platform_more: "widen_platform W D2 (widen_platform W D1 p) = widen_platform W (D1 \<union> D2) p"
  by (simp add: widen_platform_def widen_more comp_def)

text \<open>A items with reports gives every reported connection its width.\<close>

lemma log_widens:
  assumes "platform_ok p" and "unique_vias p" and "\<forall>x \<in> set items. log_item_ok x"
  shows "foldR width_line p (map (log_line W) items) = Inr (widen_platform W (reported items) p)"
  using assms(3)
proof (induction items rule: rev_induct)
  case Nil
  have "map (widen W {}) (physicalVias p) = physicalVias p" by (intro map_idI) (simp add: widen_def)
  then show ?case by (simp add: reported_def widen_platform_def)
next
  case (snoc x items)
  let ?q = "widen_platform W (reported items) p"
  have IH: "foldR width_line p (map (log_line W) items) = Inr ?q" using snoc by simp
  show ?case
  proof (cases x)
    case (Inl other)
    then have "reported (items @ [x]) = reported items" "width_line ?q (log_line W x) = Inr ?q"
      using snoc.prems by (auto simp: reported_def width_line_def)
    with IH show ?thesis by (simp add: foldR_append)
  next
    case (Inr y)
    obtain pre d n where y: "y = (pre, d, n)" by (cases y)
    have "reported (items @ [x]) = reported items \<union> {(d, n)}" by (auto simp: reported_def Inr y)
    moreover have "width_line ?q (log_line W x) = Inr (set_width d n (int (W d n)) ?q)"
      using width_line_report snoc.prems by (simp add: Inr y)
    moreover have "set_width d n (int (W d n)) ?q = widen_platform W {(d, n)} ?q"
      by (rule set_width_widens) (simp_all add: platform_ok_widen unique_vias_widen assms(1,2))
    ultimately show ?thesis using IH by (simp add: foldR_append widen_platform_more)
  qed
qed

lemma put_middle: "k \<notin> set (keys a) \<Longrightarrow> put k v (a @ (k, u) # b) = a @ (k, v) # b"
  by (induction a) (auto simp: keys_def)

lemma widened_connections:
  assumes "platform_ok p" and "Pair Egress ` set (egress_names p) \<union> Pair Ingress ` set (ingress_names p) \<subseteq> D"
  shows "getEgresses (widen_platform W D p) = map (\<lambda>(t, v). (t, v\<lparr>pv_width := Some (int (W Egress (physicalName v)))\<rparr>)) (getEgresses p)"
    and "getIngresses (widen_platform W D p) = map (\<lambda>(t, v). (t, v\<lparr>pv_width := Some (int (W Ingress (physicalName v)))\<rparr>)) (getIngresses p)"
proof -
  have at: "i < length (physicalVias p) \<and> direction (physicalVias p ! i) = d"
    if "(t, i) \<in> set m" "dict_ok (physicalVias p) d endpointName m" for t i d m
    using that by (auto simp: dict_ok_def keys_def dest!: map_of_is_SomeI)
  have dicts: "dict_ok (physicalVias p) Egress endpointName (egresses p)" "dict_ok (physicalVias p) Ingress endpointName (ingresses p)"
    using assms(1) by (simp_all add: platform_ok_def)
  show "getEgresses (widen_platform W D p) = map (\<lambda>(t, v). (t, v\<lparr>pv_width := Some (int (W Egress (physicalName v)))\<rparr>)) (getEgresses p)"
    using assms(2) at [OF _ dicts(1)] by (force simp: getEgresses_def widen_platform_def widen_def egress_names_def)
  show "getIngresses (widen_platform W D p) = map (\<lambda>(t, v). (t, v\<lparr>pv_width := Some (int (W Ingress (physicalName v)))\<rparr>)) (getIngresses p)"
    using assms(2) at [OF _ dicts(2)] by (force simp: getIngresses_def widen_platform_def widen_def ingress_names_def)
qed

text \<open>
  The logs of the platforms have, between lines of other kinds, the report of each connection that the
  generated router prints.
\<close>

definition logs_report ::
  "fpga_env \<Rightarrow> (string option \<times> string list) list \<Rightarrow> (string \<Rightarrow> log_item list) \<Rightarrow> (string \<Rightarrow> via_direction \<Rightarrow> string \<Rightarrow> nat) \<Rightarrow> bool" where
  "logs_report env logs items W \<longleftrightarrow> (\<forall>(name, p) \<in> set (platforms env).
     unique_vias p \<and> (\<forall>x \<in> set (items name). log_item_ok x) \<and>
     concat (map snd (filter (\<lambda>(mapping, _). mapping = Some name) logs)) = map (log_line (W name)) (items name) \<and>
     Pair Egress ` set (egress_names p) \<union> Pair Ingress ` set (ingress_names p) \<subseteq> reported (items name))"

definition widen_env :: "(string \<Rightarrow> log_item list) \<Rightarrow> (string \<Rightarrow> via_direction \<Rightarrow> string \<Rightarrow> nat) \<Rightarrow> fpga_env \<Rightarrow> fpga_env" where
  "widen_env items W env =
     env\<lparr>platforms := map (\<lambda>(name, p). (name, widen_platform (W name) (reported (items name)) p)) (platforms env)\<rparr>"

lemma logs_reportD:
  assumes "logs_report env logs items W" and "(name, p) \<in> set (platforms env)"
  shows "unique_vias p" and "\<forall>x \<in> set (items name). log_item_ok x"
    and "concat (map snd (filter (\<lambda>(mapping, _). mapping = Some name) logs)) = map (log_line (W name)) (items name)"
    and "Pair Egress ` set (egress_names p) \<union> Pair Ingress ` set (ingress_names p) \<subseteq> reported (items name)"
  using assms unfolding logs_report_def by blast+

lemma parseWidth_runs:
  assumes "env_ok (platforms env)" and "logs_report env logs items W"
  shows "parseWidth logs env = Inr (widen_env items W env)"
proof -
  let ?wide = "\<lambda>(name, p). (name, widen_platform (W name) (reported (items name)) p)"
  have names: "distinct (keys (platforms env))" using assms(1) by (simp add: env_ok_def)
  have "foldR (width_platform logs) (map ?wide pre @ rest) (keys rest) = Inr (map ?wide (pre @ rest))"
    if "platforms env = pre @ rest" for pre rest
    using that
  proof (induction rest arbitrary: pre)
    case (Cons x rest)
    obtain name p where x: "x = (name, p)" by (cases x)
    have mem: "(name, p) \<in> set (platforms env)" using Cons.prems by (simp add: x)
    have fresh: "name \<notin> set (keys (map ?wide pre))" using names Cons.prems by (force simp: x keys_def)
    have ok: "platform_ok p" using assms(1) mem by (auto simp: env_ok_def)
    have log: "foldR width_line p (concat (map snd (filter (\<lambda>(mapping, _). mapping = Some name) logs))) =
        Inr (widen_platform (W name) (reported (items name)) p)"
      unfolding logs_reportD(3) [OF assms(2) mem] by (rule log_widens [OF ok logs_reportD(1,2) [OF assms(2) mem]])
    have "get_key (map ?wide pre @ (name, p) # rest) name (KeyError name) = Inr p"
      using fresh by (simp add: get_key_def keys_map_of map_add_def)
    moreover have "put name p' (map ?wide pre @ (name, p) # rest) = map ?wide pre @ (name, p') # rest" for p'
      using fresh by (rule put_middle)
    ultimately have "width_platform logs (map ?wide pre @ x # rest) name = Inr (map ?wide (pre @ [x]) @ rest)"
      by (simp add: width_platform_def log x)
    then show ?case using Cons.IH [of "pre @ [x]"] Cons.prems by (simp add: x keys_def)
  qed (simp add: keys_def)
  from this [of "[]" "platforms env"] show ?thesis
    by (simp add: parseWidth_def getPlatformNames_def widen_env_def)
qed

lemma widen_env_names: "keys (platforms (widen_env items W env)) = keys (platforms env)"
  by (simp add: widen_env_def keys_def comp_def case_prod_beta)

lemma widen_env_lookup:
  "map_of (platforms (widen_env items W env)) name = map_option (widen_platform (W name) (reported (items name))) (map_of (platforms env) name)"
proof -
  have "map_of (map (\<lambda>(name, p). (name, widen_platform (W name) (reported (items name)) p)) ps) name =
      map_option (widen_platform (W name) (reported (items name))) (map_of ps name)" for ps
    by (induction ps) auto
  then show ?thesis by (simp add: widen_env_def)
qed

text \<open>
  C11: the widths the first pass reports are the widths the second pass works with.  When the log of every
  platform, between lines of other kinds, has the report of each connection that its generated router
  prints, \<open>parseWidth\<close> succeeds, and afterwards every connection of every platform has its width.
\<close>

theorem parseWidth_reported:
  assumes "env_ok (platforms env)" and "logs_report env logs items W"
  shows "\<exists>env'. parseWidth logs env = Inr env' \<and> keys (platforms env') = keys (platforms env) \<and>
    (\<forall>(name, p) \<in> set (platforms env). \<exists>p'. map_of (platforms env') name = Some p' \<and>
       getEgresses p' = map (\<lambda>(t, v). (t, v\<lparr>pv_width := Some (int (W name Egress (physicalName v)))\<rparr>)) (getEgresses p) \<and>
       getIngresses p' = map (\<lambda>(t, v). (t, v\<lparr>pv_width := Some (int (W name Ingress (physicalName v)))\<rparr>)) (getIngresses p))"
proof -
  have "\<exists>p'. map_of (platforms (widen_env items W env)) name = Some p' \<and>
       getEgresses p' = map (\<lambda>(t, v). (t, v\<lparr>pv_width := Some (int (W name Egress (physicalName v)))\<rparr>)) (getEgresses p) \<and>
       getIngresses p' = map (\<lambda>(t, v). (t, v\<lparr>pv_width := Some (int (W name Ingress (physicalName v)))\<rparr>)) (getIngresses p)"
    if mem: "(name, p) \<in> set (platforms env)" for name p
  proof -
    have ok: "platform_ok p" "map_of (platforms env) name = Some p"
      using assms(1) mem by (auto simp: env_ok_def distinct_keys_map_of)
    then show ?thesis
      using widened_connections [OF ok(1) logs_reportD(4) [OF assms(2) mem], of "W name"] by (simp add: widen_env_lookup)
  qed
  then show ?thesis using parseWidth_runs [OF assms] widen_env_names by blast
qed

definition logged_platform :: platform where
  "logged_platform = mk_platform ''FPGA'' ''A'' False ''a''
     [DescVia (mk_PhysicalVia Egress ''B'' ''drv.snd''), DescVia (mk_PhysicalVia Ingress ''B'' ''drv.rcv'')]"

definition logged_env :: fpga_env where
  "logged_env = \<lparr>platforms = [(''A'', logged_platform)], env_graph = [], transitTablesOutgoing = [], transitTablesIncoming = []\<rparr>"

definition logged_items :: "log_item list" where
  "logged_items = [Inl ''compiling'', Inr (''message: '', Egress, ''drv.snd''), Inr ([], Ingress, ''drv.rcv'')]"

lemma logged_platform_vias:
  "physicalVias logged_platform = [mk_PhysicalVia Egress ''B'' ''drv.snd'', mk_PhysicalVia Ingress ''B'' ''drv.rcv'']"
  "getEgresses logged_platform = [(''B'', mk_PhysicalVia Egress ''B'' ''drv.snd'')]"
  "egress_names logged_platform = [''drv.snd'']" "ingress_names logged_platform = [''drv.rcv'']"
  by (simp_all add: logged_platform_def mk_platform_def mk_PhysicalVia_def Let_def insertEgress_def insertIngress_def
    egress_names_def ingress_names_def getEgresses_def getIngresses_def)

lemma parseWidth_reported_witness:
  "\<exists>env'. parseWidth [(Some ''A'', map (log_line (\<lambda>d n. 128)) logged_items), (None, [])] logged_env = Inr env' \<and>
    (\<exists>p'. map_of (platforms env') ''A'' = Some p' \<and> getEgresses p' = [(''B'', (mk_PhysicalVia Egress ''B'' ''drv.snd'')\<lparr>pv_width := Some 128\<rparr>)])"
proof -
  have unique: "unique_vias logged_platform"
    by (auto simp: unique_vias_def logged_platform_vias mk_PhysicalVia_def inj_on_def less_Suc_eq)
  have ok: "platform_ok logged_platform" by (simp add: logged_platform_def mk_platform_ok)
  have items: "\<forall>x \<in> set logged_items. log_item_ok x"
    by (auto simp: logged_items_def readable_name_def suffix_def) code_simp
  have rep: "Pair Egress ` set (egress_names logged_platform) \<union> Pair Ingress ` set (ingress_names logged_platform) \<subseteq> reported logged_items"
    by (auto simp: logged_platform_vias reported_def logged_items_def)
  let ?logs = "[(Some ''A'', map (log_line (\<lambda>d n. 128)) logged_items), (None, [])]"
  have env: "env_ok (platforms logged_env)"
    using ok by (simp add: logged_env_def env_ok_def keys_def logged_platform_def)
  have logs: "logs_report logged_env ?logs (\<lambda>_. logged_items) (\<lambda>_ d n. 128)"
    using unique items rep by (simp add: logs_report_def logged_env_def)
  obtain env' where env': "parseWidth ?logs logged_env = Inr env'"
    and widths: "\<forall>(name, p) \<in> set (platforms logged_env). \<exists>p'. map_of (platforms env') name = Some p' \<and>
       getEgresses p' = map (\<lambda>(t, v). (t, v\<lparr>pv_width := Some (int 128)\<rparr>)) (getEgresses p) \<and>
       getIngresses p' = map (\<lambda>(t, v). (t, v\<lparr>pv_width := Some (int 128)\<rparr>)) (getIngresses p)"
    using parseWidth_reported [OF env logs] by blast
  have "(''A'', logged_platform) \<in> set (platforms logged_env)" by (simp add: logged_env_def)
  from bspec [OF widths this] show ?thesis using env' logged_platform_vias(2) by auto
qed

end
