(* ===== verification/LimExecutable.thy ===== *)
theory LimExecutable
  imports LimGraph RemapTop
begin

text \<open>
  \<^verbatim>\<open>lim_memory/LIMMemory.py\<close> and \<^verbatim>\<open>generate_lim_executable/generateLIMExecutable.py\<close>: the second pass.
  \<open>LIMMemory\<close> prepares the files of the scratchpad networks and calls the remapping;
  \<open>GenerateLIMExecutable\<close> configures a second build tree per platform, with the dictionaries of the first
  pass, and describes the platforms for the run scripts.
\<close>

section \<open>Scratchpad files\<close>

definition is_hardware_type :: "platform \<Rightarrow> bool" where
  "is_hardware_type p \<longleftrightarrow> platformType p = ''FPGA'' \<or> platformType p = ''BLUESIM''"

definition remap_path :: "'w build_env \<Rightarrow> string" where
  "remap_path B = DEFS B ''ROOT_DIR_HW'' @ ''/'' @ DEFS B ''ROOT_DIR_MODEL'' @ ''/soft_connection_remap.bsh''"

record 'w memory_state =
  ms_world :: 'w
  FPGA_MEMORY_PARAMETERS :: "string list"
  hwPlatforms :: "scratchpad_platform list"

definition memory_platform ::
  "'w build_env \<Rightarrow> (string \<times> platform) list \<Rightarrow> 'w memory_state \<Rightarrow> string \<times> platform \<Rightarrow> 'w memory_state res" where
  "memory_platform B ps S = (\<lambda>(_, p).
     let os = be_os B; name = pl_name p
     in bindR (makePlatformConfigPath os [] (ms_world S)) (\<lambda>(_, w1).
        if is_hardware_type p then
          let logFile = ''lim/'' @ makePlatformLogName name (DEFS B ''APM_NAME'') @ ''/pm'' @ ''/'' @ remap_path B;
              parameterFile = makePlatformBitfileBuildDir name (DEFS B ''APM_NAME'') @ ''/'' @ ''/'' @ remap_path B
          in bindR (os_write os logFile (text_for (\<lambda>l. l @ nl) createDefaultRemapFile) w1) (\<lambda>w2.
             bindR (getSynthesisBoundaryPlatformID ps name) (\<lambda>ident.
             Inr (S\<lparr>ms_world := w2,
               FPGA_MEMORY_PARAMETERS := FPGA_MEMORY_PARAMETERS S @ [parameterFile],
               hwPlatforms := hwPlatforms S @ [mk_ScratchpadPlatform name ident parameterFile]\<rparr>)))
        else Inr (S\<lparr>ms_world := w1\<rparr>)))"

definition LIMMemory :: "'w build_env \<Rightarrow> (string \<times> platform) list \<Rightarrow> 'w \<Rightarrow> 'w memory_state res" where
  "LIMMemory B ps w =
     foldR (memory_platform B ps) \<lparr>ms_world = w, FPGA_MEMORY_PARAMETERS = [], hwPlatforms = []\<rparr> ps"

text \<open>The action of the build step: the statistics files are given by their contents.\<close>

definition optimizeMemory ::
  "'w build_env \<Rightarrow> gurobi \<Rightarrow> (nat list \<Rightarrow> nat list) \<Rightarrow> sp_store \<times> nat \<Rightarrow> li_service list list \<Rightarrow> string list list
     \<Rightarrow> 'w memory_state \<Rightarrow> (sp_store \<times> (string \<times> string list) list) run" where
  "optimizeMemory B gurobi shuffle Hn services stats S =
     (let param = awb_num B ''lim_memory''
      in remapScratchpadConnections gurobi shuffle Hn services (hwPlatforms S) stats
           (param ''SCRATCHPAD_REMAP_MODE'') (param ''SCRATCHPAD_REMAP_TREE_K_ARY'') (param ''SCRATCHPAD_REMAP_TREE_MODE'')
           (param ''SCRATCHPAD_DYN_BANDWIDTH_ALLOC_EN'') (param ''SCRATCHPAD_REMAP_ALL_INTERLEAVE'')
           (param ''SCRATCHPAD_REMAP_STATS_EN''))"

section \<open>Configuration of the second pass\<close>

text \<open>A line of the batch file: most of them start with a blank.\<close>

definition exec_line :: "bool \<times> awb_command \<Rightarrow> string" where
  "exec_line = (\<lambda>(blank, c). text_if blank '' '' @ awb_line c)"

definition exec_commands ::
  "'w build_env \<Rightarrow> (string \<times> platform) list \<Rightarrow> string \<Rightarrow> string \<Rightarrow> string \<Rightarrow> platform \<Rightarrow> nat
     \<Rightarrow> (string \<times> string) list \<Rightarrow> (string \<times> string) list \<Rightarrow> build_hierarchy \<Rightarrow> (bool \<times> awb_command) list res" where
  "exec_commands B ps applicationPath platformPath buildDir p uid dicts rrrs h =
     bindR (getSynthesisBoundaryPlatformID ps (pl_name p)) (\<lambda>ident.
       let cwidth = awb_param B ''lim_graph_generator'' ''SOFT_CONN_CWIDTH'';
           set_blank = (\<lambda>n v. (True, SetParameter platformPath n v))
       in Inr (
         [(False, CopyModel (pl_path p) platformPath)] @
         (if platformType p = ''CPU'' then [(False, ReplaceModule platformPath applicationPath)] else []) @
         [set_blank ''FPGA_PLATFORM_ID'' (num ident),
          set_blank ''FPGA_PLATFORM_NAME'' (escaped (pl_name p)),
          set_blank ''FPGA_NUM_PLATFORMS'' (num (length ps)),
          set_blank ''CON_CWIDTH'' cwidth,
          set_blank ''CON_CHAIN_CWIDTH'' cwidth,
          set_blank ''EXPOSE_ALL_CONNECTIONS'' ''0 '',
          set_blank ''BUILD_PLATFORM_MODULES'' ''0 '',
          set_blank ''BUILD_LOGS_ONLY'' ''0 '',
          set_blank ''USE_BVI'' ''1 '',
          set_blank ''USE_ROUTING_KNOWN'' ''1 '',
          set_blank ''MODULE_UID_OFFSET'' (num uid),
          set_blank ''SOFT_CONNECTION_REMAP'' ''1 ''] @
         map (\<lambda>(n, v). (False, SetParameter platformPath n (getAWBRepresentation v))) (parameters p) @
         [set_blank ''EXTRA_INC_DIRS'' (escaped (inc_dirs B)),
          set_blank ''EXTRA_INC_DIRS'' (escaped (inc_dirs B)),
          set_blank ''EXTRA_DICTS'' (escaped (join '':'' (missing_names (bh_dicts h) (keys dicts)))),
          set_blank ''EXTRA_RRRS'' (escaped (join '':'' (missing_names (bh_rrrs h) (keys rrrs)))),
          set_blank ''CLOSE_CHAINS'' ''1 '',
          (True, ConfigureModel platformPath buildDir)]))"

text \<open>The entries of \<open>platform_env.sh\<close>: a master has a second one, for the software the first pass builds.\<close>

definition platform_metadata :: "'w build_env \<Rightarrow> platform \<Rightarrow> string list" where
  "platform_metadata B p =
     (let APM_NAME = DEFS B ''APM_NAME''; name = pl_name p
      in (if master p then
            [''{'' @ quoted ''name'' @ '' =>'' @ quoted (makePlatformLogName name APM_NAME) @ '', '' @ quoted ''type'' @ '' => '' @
             quoted ''CPU'' @ '', '' @ quoted ''directory'' @ '' => '' @ quoted (makePlatformLogBuildDir name APM_NAME) @ '', '' @
             quoted ''master'' @ '' => '' @ quoted ''0'' @ '' , '' @ quoted ''logicalName'' @ '' => '' @ quoted ''CPU0'' @ ''}'']
          else []) @
         [''{'' @ quoted ''name'' @ '' =>'' @ quoted (makePlatformBitfileName name APM_NAME) @ '', '' @ quoted ''type'' @ '' => '' @
          quoted (platformType p) @ '', '' @ quoted ''directory'' @ '' => '' @ quoted (makePlatformBitfileBuildDir name APM_NAME) @
          '', '' @ quoted ''master'' @ '' => '' @ quoted (if master p then ''True'' else ''False'') @ '', '' @
          quoted ''logicalName'' @ '' => '' @ quoted name @ ''}''])"

section \<open>Compilation of a platform\<close>

definition exec_command :: "'w build_env \<Rightarrow> string \<Rightarrow> string" where
  "exec_command B name =
     (let buildDir = makePlatformBitfileBuildDir name (DEFS B ''APM_NAME''); flag = awb_flag B ''lim_executable_generator'';
          path = (\<lambda>n. os_abspath (be_os B) (config_dir @ n));
          cmd = (case map_of (build_arguments B) ''MULTIFPGA_BITFILE_COMPILE_CMD'' of
                   Some c \<Rightarrow> c
                 | None \<Rightarrow>
                     ''scons'' @
                     text_if (flag ''ENABLE_SCONS_CACHING_DEBUG_EXECUTABLE'') ('' --cache-show --cache-debug='' @ path (''debug_'' @ name)) @
                     '' '' @ awb_param B ''lim_graph_generator'' ''BUILD_PARAMETERS'' @ '' '' @
                     text_if (flag ''ENABLE_SCONS_PROFILING_EXECUTABLE'') ('' --profile='' @ path (''profile_backend_'' @ name)) @
                     '' '' @ join '' '' (map scons_argument (build_arguments B)))
      in ''cd '' @ buildDir @ ''; '' @ cmd @ '' LIM_BUILD_DIR='' @ buildDir @
         text_if (flag ''ENABLE_SCONS_CACHING_EXECUTABLE'') ('' LEAP_BUILD_CACHE_DIR='' @ path (''codeCache'' @ name)))"

text \<open>The status and \<open>model.nonFatalFailures\<close>: a missing error file means no error.\<close>

definition compile_platform_executable :: "'w build_env \<Rightarrow> string \<Rightarrow> 'w \<Rightarrow> string list \<Rightarrow> (int \<times> string list \<times> 'w) res" where
  "compile_platform_executable B name w failures =
     (let os = be_os B; APM_NAME = DEFS B ''APM_NAME'';
          errinfo = makePlatformBitfileBuildDir name APM_NAME @ ''/'' @ makePlatformBitfileName name APM_NAME @ ''_hw.errinfo''
      in bindR (makePlatformConfigPath os [] w) (\<lambda>(_, w1).
         bindR (os_run os (exec_command B name) w1) (\<lambda>(sts, w2).
           Inr (sts, if sts = 0 \<and> (\<exists>n \<in> set_option (os_size os errinfo w2). 0 < n) then failures @ [errinfo] else failures, w2))))"

section \<open>The loop over the platforms\<close>

record 'w exec_state =
  es_world :: 'w
  es_uid_offset :: nat
  platformMetadata :: "string list"
  FPGA_PLATFORM_BITFILES :: "subbuild list"
  es_batches :: "(string \<times> (bool \<times> awb_command) list) list"

definition exec_platform ::
  "'w build_env \<Rightarrow> (string \<times> platform) list \<Rightarrow> (string \<Rightarrow> build_hierarchy) \<Rightarrow> (string \<times> string) list
     \<Rightarrow> (string \<times> string) list \<Rightarrow> string list \<Rightarrow> 'w exec_state \<Rightarrow> string \<times> platform \<Rightarrow> 'w exec_state res" where
  "exec_platform B ps hier dicts rrrs memory_params S = (\<lambda>(name, p).
     let os = be_os B; APM_NAME = DEFS B ''APM_NAME''; h = hier name;
         platformAPM = makePlatformBitfileName (pl_name p) APM_NAME;
         buildDir = makePlatformBitfileBuildDir (pl_name p) APM_NAME;
         bitfile = buildDir @ ''/'' @ DEFS B ''ROOT_DIR_HW'' @ ''/'' @ DEFS B ''ROOT_DIR_MODEL'' @ ''/'' @ DEFS B ''TMP_FPGA_DIR'' @
                   ''/'' @ DEFS B ''ROOT_DIR_MODEL'' @ ''_'';
         strfile = os_cwd os @ ''/'' @ buildDir @ ''/.bsc/'' @ platformAPM @ ''.str'';
         batchFile = ''config/'' @ name @ ''.exec.batch''
     in bindR (makePlatformConfigPath os (platformAPM @ ''.apm'') (es_world S)) (\<lambda>(platformPath, w1).
       let need_config = (\<not> os_isdir os buildDir w1)
       in bindR (open_batch os need_config batchFile w1) (\<lambda>w2.
       bindR (exec_commands B ps (application_path B) platformPath buildDir p (es_uid_offset S) dicts rrrs h) (\<lambda>cs.
       bindR (configure_tree os need_config batchFile (text_for exec_line cs) buildDir w2) (\<lambda>w3.
       bindR (link_missing os buildDir h dicts rrrs w3) (\<lambda>w4. Inr (S\<lparr>
         es_world := w4,
         es_uid_offset := es_uid_offset S + bh_boundaries h,
         platformMetadata := platformMetadata S @ platform_metadata B p,
         FPGA_PLATFORM_BITFILES := FPGA_PLATFORM_BITFILES S @
           [\<lparr>sb_targets = [bitfile, strfile], sb_sources = memory_params, sb_platform = pl_name p\<rparr>],
         es_batches := es_batches S @ [(name, cs)]\<rparr>)))))))"

text \<open>The pass starts from the result of the first one.\<close>

definition GenerateLIMExecutable ::
  "'w build_env \<Rightarrow> (string \<times> platform) list \<Rightarrow> 'w graph_result \<Rightarrow> string list \<Rightarrow> 'w \<Rightarrow> 'w exec_state res" where
  "GenerateLIMExecutable B ps r memory_params w =
     (let os = be_os B; configFile = ''config/platform_env.sh''
      in bindR (makePlatformConfigPath os [] w) (\<lambda>(_, w1).
         bindR (os_write os configFile [] w1) (\<lambda>w2.
         bindR (foldR (exec_platform B ps (platform_hierarchy B ps) (MISSING_DICTS r) (MISSING_RRRS r) memory_params)
           \<lparr>es_world = w2, es_uid_offset = MODULE_UID_OFFSET (gr_state r),
            platformMetadata = [], FPGA_PLATFORM_BITFILES = [], es_batches = []\<rparr> ps) (\<lambda>S.
         bindR (writeDynamicParameters os ps (\<lambda>n. makePlatformBitfileBuildDir n (DEFS B ''APM_NAME'')) (CANONICAL_PARAMS r) (es_world S)) (\<lambda>w3.
         bindR (os_write os configFile (''platforms=['' @ join '','' (platformMetadata S) @ '']'' @ nl) w3) (\<lambda>w4.
           Inr (S\<lparr>es_world := w4\<rparr>)))))))"

section \<open>Dictionaries and numbers of the second pass\<close>

abbreviation bit_dir :: "'w build_env \<Rightarrow> string \<Rightarrow> string" where
  "bit_dir B name \<equiv> makePlatformBitfileBuildDir name (DEFS B ''APM_NAME'')"

text \<open>The first number of a platform.\<close>

definition exec_base :: "(string \<Rightarrow> build_hierarchy) \<Rightarrow> nat \<Rightarrow> (string \<times> platform) list \<Rightarrow> nat" where
  "exec_base hier start pre = start + sum_list (map (bh_boundaries \<circ> hier \<circ> fst) pre)"

lemma exec_base_snoc: "exec_base hier start (pre @ [x]) = exec_base hier start pre + bh_boundaries (hier (fst x))"
  by (simp add: exec_base_def)

lemma exec_platform_step:
  assumes "keeps_files (be_os B)" and "exec_platform B ps hier dicts rrrs mem S (pl_name p, p) = Inr S'"
  shows "\<exists>cs q. context_linked B (hier (pl_name p)) dicts rrrs (bit_dir B (pl_name p)) (es_world S') \<and>
    keeps (be_os B) (es_world S) (es_world S') \<and>
    es_uid_offset S' = es_uid_offset S + bh_boundaries (hier (pl_name p)) \<and>
    es_batches S' = es_batches S @ [(pl_name p, cs)] \<and>
    (True, SetParameter q ''MODULE_UID_OFFSET'' (num (es_uid_offset S))) \<in> set cs"
proof -
  let ?os = "be_os B" and ?dir = "bit_dir B (pl_name p)" and ?batch = "''config/'' @ pl_name p @ ''.exec.batch''"
  obtain q w1 w2 cs w3 where
    w: "makePlatformConfigPath ?os (makePlatformBitfileName (pl_name p) (DEFS B ''APM_NAME'') @ ''.apm'') (es_world S) = Inr (q, w1)"
      "open_batch ?os (\<not> os_isdir ?os ?dir w1) ?batch w1 = Inr w2"
      "exec_commands B ps (application_path B) q ?dir p (es_uid_offset S) dicts rrrs (hier (pl_name p)) = Inr cs"
      "configure_tree ?os (\<not> os_isdir ?os ?dir w1) ?batch (text_for exec_line cs) ?dir w2 = Inr w3"
      "link_missing ?os ?dir (hier (pl_name p)) dicts rrrs w3 = Inr (es_world S')"
      and S': "es_uid_offset S' = es_uid_offset S + bh_boundaries (hier (pl_name p))" "es_batches S' = es_batches S @ [(pl_name p, cs)]"
    using assms(2) unfolding exec_platform_def Let_def prod.case by (auto simp: bindR_eq_Inr split: prod.splits)
  have "keeps ?os (es_world S) w3"
    using config_path_keeps [OF assms(1) w(1)] open_batch_keeps [OF assms(1) w(2)] configure_tree_keeps [OF assms(1) w(4)]
    by (meson keeps_trans)
  then have "keeps ?os (es_world S) (es_world S')" using link_missing_links(3) [OF assms(1) w(5)] by (rule keeps_trans)
  moreover have "context_linked B (hier (pl_name p)) dicts rrrs ?dir (es_world S')"
    using link_missing_links(1,2) [OF assms(1) w(5)] unfolding context_linked_def by blast
  moreover have "(True, SetParameter q ''MODULE_UID_OFFSET'' (num (es_uid_offset S))) \<in> set cs"
    using w(3) by (auto simp: exec_commands_def Let_def bindR_eq_Inr)
  ultimately show ?thesis using S' by blast
qed

definition exec_inv ::
  "'w build_env \<Rightarrow> (string \<Rightarrow> build_hierarchy) \<Rightarrow> (string \<times> string) list \<Rightarrow> (string \<times> string) list \<Rightarrow> nat
     \<Rightarrow> (string \<times> platform) list \<Rightarrow> 'w exec_state \<Rightarrow> bool" where
  "exec_inv B hier dicts rrrs start pre S \<longleftrightarrow>
     (\<forall>(n, p) \<in> set pre. context_linked B (hier n) dicts rrrs (bit_dir B n) (es_world S)) \<and>
     es_uid_offset S = exec_base hier start pre \<and> map fst (es_batches S) = keys pre \<and>
     (\<forall>i < length pre. \<exists>q. (True, SetParameter q ''MODULE_UID_OFFSET'' (num (exec_base hier start (take i pre)))) \<in> set (snd (es_batches S ! i)))"

lemma exec_platforms_inv:
  assumes "keeps_files (be_os B)" and "exec_inv B hier dicts rrrs start [] S0"
    and "foldR (exec_platform B ps hier dicts rrrs mem) S0 pre = Inr S" and "\<forall>(n, p) \<in> set pre. pl_name p = n"
  shows "exec_inv B hier dicts rrrs start pre S"
  using assms(3,4)
proof (induction pre arbitrary: S rule: rev_induct)
  case (snoc x pre)
  obtain name p where x: "x = (name, p)" "pl_name p = name" using snoc.prems(2) by (cases x) auto
  obtain S1 where S1: "foldR (exec_platform B ps hier dicts rrrs mem) S0 pre = Inr S1"
      "exec_platform B ps hier dicts rrrs mem S1 (pl_name p, p) = Inr S"
    using snoc.prems(1) by (auto simp: foldR_append bindR_eq_Inr x)
  have IH: "exec_inv B hier dicts rrrs start pre S1" using snoc.IH [OF S1(1)] snoc.prems(2) by simp
  obtain cs q where S': "context_linked B (hier name) dicts rrrs (bit_dir B name) (es_world S)" "keeps (be_os B) (es_world S1) (es_world S)"
      "es_uid_offset S = es_uid_offset S1 + bh_boundaries (hier name)" "es_batches S = es_batches S1 @ [(name, cs)]"
      "(True, SetParameter q ''MODULE_UID_OFFSET'' (num (es_uid_offset S1))) \<in> set cs"
    using exec_platform_step [OF assms(1) S1(2)] x(2) by blast
  have inv: "\<forall>(n, p) \<in> set pre. context_linked B (hier n) dicts rrrs (bit_dir B n) (es_world S1)"
      "es_uid_offset S1 = exec_base hier start pre" "map fst (es_batches S1) = keys pre"
      "\<forall>i < length pre. \<exists>q. (True, SetParameter q ''MODULE_UID_OFFSET'' (num (exec_base hier start (take i pre)))) \<in> set (snd (es_batches S1 ! i))"
    using IH by (simp_all add: exec_inv_def)
  have len: "length (es_batches S1) = length pre" using arg_cong [OF inv(3), of length] by (simp add: keys_def)
  have "\<forall>(n, p) \<in> set pre. context_linked B (hier n) dicts rrrs (bit_dir B n) (es_world S)"
    using inv(1) context_linked_keeps [OF _ S'(2)] by fastforce
  moreover have "\<forall>i < Suc (length pre). \<exists>q. (True, SetParameter q ''MODULE_UID_OFFSET'' (num (exec_base hier start (take i (pre @ [x]))))) \<in>
      set (snd (es_batches S ! i))"
    using inv(2,4) S'(4,5) len by (auto simp: less_Suc_eq nth_append)
  ultimately show ?case
    using S'(1,3,4) inv(2,3) by (simp add: exec_inv_def exec_base_snoc x keys_def)
qed (use assms(2) in simp)

lemma exec_platform_fails:
  assumes "(n, p) \<in> set ps" and "pl_name p = n"
  shows "only_os (be_os B) (exec_platform B ps hier dicts rrrs mem S (n, p))"
proof -
  obtain k where "getSynthesisBoundaryPlatformID ps (pl_name p) = Inr k"
    using platform_ids_total [of n ps] assms by (force simp: keys_def)
  then have "only_os (be_os B) (exec_commands B ps a q d p u dicts rrrs h)" for a q d u h
    by (simp add: exec_commands_def Let_def)
  moreover have "only_os (be_os B) (open_batch (be_os B) b f w)" "only_os (be_os B) (configure_tree (be_os B) b f t d w)" for b f w t d
    by (auto simp: open_batch_def configure_tree_def intro!: fails_with_bindR only_os_calls only_os_tools)
  ultimately show ?thesis
    unfolding exec_platform_def Let_def prod.case
    by (auto intro!: fails_with_bindR only_os_config_path only_os_links split: prod.split)
qed

lemma GenerateLIMExecutable_fails:
  assumes "\<forall>(n, p) \<in> set ps. pl_name p = n"
  shows "only_os (be_os B) (GenerateLIMExecutable B ps r mem w)"
proof -
  have "only_os (be_os B) (foldR (exec_platform B ps hier dicts rrrs mem) S ps)" for hier dicts rrrs S
    using assms by (intro fails_with_foldR) (auto intro!: exec_platform_fails)
  then show ?thesis
    unfolding GenerateLIMExecutable_def Let_def
    by (auto intro!: fails_with_bindR only_os_config_path only_os_params only_os_calls split: prod.split)
qed

text \<open>
  C40: the second pass continues the first one.  Every platform sees the dictionaries and RRRs the first pass
  collected, and its modules are numbered from a range of their own, above all numbers of the first pass.
  The pass ends otherwise only with an error that the operating system raises at one of its operations; so
  it returns where none fails.
\<close>

theorem GenerateLIMExecutable_continues:
  assumes "keeps_files (be_os B)" and "\<forall>(n, p) \<in> set ps. pl_name p = n"
  shows "\<exists>base. base = (\<lambda>i. exec_base (platform_hierarchy B ps) (MODULE_UID_OFFSET (gr_state r)) (take i ps)) \<and>
    (case GenerateLIMExecutable B ps r mem w of
       Inl e \<Rightarrow> os_error (be_os B) e
     | Inr S \<Rightarrow> map fst (es_batches S) = keys ps \<and>
         (\<forall>(n, p) \<in> set ps. context_linked B (platform_hierarchy B ps n) (MISSING_DICTS r) (MISSING_RRRS r) (bit_dir B n) (es_world S)) \<and>
         (\<forall>i < length ps. \<exists>q. (True, SetParameter q ''MODULE_UID_OFFSET'' (num (base i))) \<in> set (snd (es_batches S ! i)) \<and>
            MODULE_UID_OFFSET (gr_state r) \<le> base i \<and> base i + bh_boundaries (platform_hierarchy B ps (fst (ps ! i))) = base (Suc i)))"
proof (cases "GenerateLIMExecutable B ps r mem w")
  case (Inl e)
  then show ?thesis using GenerateLIMExecutable_fails [OF assms(2), of B r mem w] by (simp add: fails_with_def)
next
  case (Inr S')
  let ?os = "be_os B" and ?hier = "platform_hierarchy B ps"
  define base where "base = (\<lambda>i. exec_base ?hier (MODULE_UID_OFFSET (gr_state r)) (take i ps))"
  obtain S0 S w3 f t where S: "foldR (exec_platform B ps ?hier (MISSING_DICTS r) (MISSING_RRRS r) mem) S0 ps = Inr S"
    and S0: "es_batches S0 = []" "es_uid_offset S0 = MODULE_UID_OFFSET (gr_state r)"
    and w3: "writeDynamicParameters ?os ps (bit_dir B) (CANONICAL_PARAMS r) (es_world S) = Inr w3"
      "os_write ?os f t w3 = Inr (es_world S')" "es_batches S' = es_batches S"
    using Inr unfolding GenerateLIMExecutable_def Let_def by (auto simp: bindR_eq_Inr split: prod.splits)
  have "exec_inv B ?hier (MISSING_DICTS r) (MISSING_RRRS r) (MODULE_UID_OFFSET (gr_state r)) [] S0"
    by (simp add: exec_inv_def S0 exec_base_def keys_def)
  from exec_platforms_inv [OF assms(1) this S assms(2)]
  have inv: "exec_inv B ?hier (MISSING_DICTS r) (MISSING_RRRS r) (MODULE_UID_OFFSET (gr_state r)) ps S" .
  have "keeps ?os (es_world S) (es_world S')"
    by (rule keeps_trans [OF writes_keep [OF assms(1) w3(1)] keeps_filesD(3) [OF assms(1) w3(2)]])
  then have "\<forall>(n, p) \<in> set ps. context_linked B (?hier n) (MISSING_DICTS r) (MISSING_RRRS r) (bit_dir B n) (es_world S')"
    using inv context_linked_keeps unfolding exec_inv_def by fastforce
  moreover have "base i + bh_boundaries (?hier (fst (ps ! i))) = base (Suc i)" if "i < length ps" for i
    using that by (simp add: base_def take_Suc_conv_app_nth exec_base_snoc)
  moreover have "MODULE_UID_OFFSET (gr_state r) \<le> base i" for i by (simp add: base_def exec_base_def)
  ultimately show ?thesis
    using inv Inr w3(3) by (intro exI [of _ base]) (simp add: exec_inv_def base_def)
qed

lemma GenerateLIMExecutable_continues_witness:
  "\<exists>r S. GenerateLIMGraph sample_build sample_platforms [] = Inr r \<and>
     GenerateLIMExecutable sample_build sample_platforms r [] (gs_world (gr_state r)) = Inr S \<and>
     map fst (es_batches S) = [''A'', ''B'', ''S'']"
proof -
  obtain r where r: "GenerateLIMGraph sample_build sample_platforms [] = Inr r"
    using sample_pass by blast
  have "\<not> os_error (be_os sample_build) e" for e using sample_system(2) by (simp add: pass_error_def)
  moreover have "keys sample_platforms = [''A'', ''B'', ''S'']" by (simp add: sample_platforms_def keys_def)
  ultimately show ?thesis
    using GenerateLIMExecutable_continues [OF sample_system(1,3), of r "[]" "gs_world (gr_state r)"] r
    by (auto split: sum.splits)
qed

end
