(* ===== verification/BackendFiles.thy ===== *)
theory BackendFiles
  imports LimGraph PlaceModules
begin

text \<open>
  The constructor of \<open>LIMConnect\<close> (\<^verbatim>\<open>lim_connect/LIMConnect.py\<close>), which gives every platform the file its
  router is generated into, and \<^verbatim>\<open>construct-backend-builds/constructBackendBuilds.py\<close>, which hands the placed
  modules to the second pass.
\<close>

section \<open>Where the routers go\<close>

definition backend_dir :: "'w build_env \<Rightarrow> string \<Rightarrow> string" where
  "backend_dir B name = ''lim/'' @ makePlatformBitfileName name (DEFS B ''APM_NAME'') @ ''/pm/''"

definition li_file :: "'w build_env \<Rightarrow> string \<Rightarrow> string" where
  "li_file B name = backend_dir B name @ ''/lim.li''"

definition parameter_file :: "'w build_env \<Rightarrow> platform \<Rightarrow> string" where
  "parameter_file B p =
     (if platformType p = ''FPGA'' \<or> platformType p = ''BLUESIM'' then
        backend_dir B (pl_name p) @ ''/'' @ DEFS B ''ROOT_DIR_HW'' @ ''/'' @ DEFS B ''ROOT_DIR_MODEL'' @ ''/multifpga_routing.bsh''
      else if platformType p = ''CPU'' then
        backend_dir B (pl_name p) @ ''/'' @ DEFS B ''ROOT_DIR_SW'' @ ''/'' @ DEFS B ''ROOT_DIR_MODEL'' @ ''/software_routing.h''
      else ''?'')"

record 'w connect_state =
  cs_world :: 'w
  cs_platforms :: "(string \<times> platform) list"
  FPGA_CONNECTION_PARAMETERS :: "string list"

text \<open>The directories for \<open>bluetcl\<close> are collected and not used.\<close>

definition connect_platform :: "'w build_env \<Rightarrow> 'w connect_state \<Rightarrow> string \<times> platform \<Rightarrow> 'w connect_state res" where
  "connect_platform B S = (\<lambda>(name, p).
     bindR (makePlatformConfigPath (be_os B) [] (cs_world S)) (\<lambda>(_, w). Inr (S\<lparr>cs_world := w,
       cs_platforms := put name (putAttribute ''HEADER'' (parameter_file B p) p) (cs_platforms S),
       FPGA_CONNECTION_PARAMETERS := FPGA_CONNECTION_PARAMETERS S @ [parameter_file B p, li_file B (pl_name p)]\<rparr>)))"

text \<open>The step that synthesizes the routers depends on the graphs of the first pass and on the descriptions.\<close>

definition LIMConnect ::
  "'w build_env \<Rightarrow> (string \<times> platform) list \<Rightarrow> string list \<Rightarrow> string list \<Rightarrow> string list \<Rightarrow> 'w
     \<Rightarrow> ('w connect_state \<times> string list \<times> string list) res" where
  "LIMConnect B ps platform_li envFile mappingFile w =
     bindR (foldR (connect_platform B) \<lparr>cs_world = w, cs_platforms = ps, FPGA_CONNECTION_PARAMETERS = []\<rparr> ps) (\<lambda>S.
       bindR (nth_res envFile 0) (\<lambda>e. bindR (nth_res mappingFile 0) (\<lambda>m.
         Inr (S, FPGA_CONNECTION_PARAMETERS S,
              platform_li @ [DEFS B ''ROOT_DIR_HW'' @ ''/'' @ e] @ [DEFS B ''ROOT_DIR_HW'' @ ''/'' @ m]))))"

section \<open>What the second pass compiles\<close>

text \<open>A platform module is compiled again and left out; \<open>dump\<close> copies, merges and pickles.\<close>

definition backend_modules :: "module_graph \<Rightarrow> string \<Rightarrow> module_graph" where
  "backend_modules G name = filter (\<lambda>(n, m). mapping_of m = Some name \<and> n \<noteq> name) G"

definition constructBackendBuilds ::
  "'w build_env \<Rightarrow> (li_mod list \<Rightarrow> string) \<Rightarrow> string list \<Rightarrow> module_graph \<Rightarrow> 'w \<Rightarrow> 'w res" where
  "constructBackendBuilds B dump names G w =
     foldR (\<lambda>w name. os_write (be_os B) (li_file B name) (dump (map snd (backend_modules G name))) w) w names"

section \<open>Every platform has its own files\<close>

definition has_router :: "platform \<Rightarrow> bool" where
  "has_router p \<longleftrightarrow> platformType p \<in> {''FPGA'', ''BLUESIM'', ''CPU''}"

lemma other_ends: "x @ ''/multifpga_routing.bsh'' \<noteq> y @ ''/software_routing.h''"
proof
  assume "x @ ''/multifpga_routing.bsh'' = y @ ''/software_routing.h''"
  from arg_cong [OF this, of rev] show False by simp
qed

lemma parameter_file_inj:
  assumes "has_router p" and "has_router q" and "parameter_file B p = parameter_file B q"
  shows "pl_name p = pl_name q"
proof -
  let ?hw = "\<lambda>p. platformType p = ''FPGA'' \<or> platformType p = ''BLUESIM''"
  let ?hs = "''/'' @ DEFS B ''ROOT_DIR_HW'' @ ''/'' @ DEFS B ''ROOT_DIR_MODEL''"
  let ?ss = "''/'' @ DEFS B ''ROOT_DIR_SW'' @ ''/'' @ DEFS B ''ROOT_DIR_MODEL''"
  have paths: "parameter_file B p = (if ?hw p then (backend_dir B (pl_name p) @ ?hs) @ ''/multifpga_routing.bsh''
      else (backend_dir B (pl_name p) @ ?ss) @ ''/software_routing.h'')" if "has_router p" for p
    using that by (auto simp: parameter_file_def has_router_def)
  have dirs: "backend_dir B (pl_name p) = backend_dir B (pl_name q)"
  proof (cases "?hw p = ?hw q")
    case True
    then show ?thesis using assms(3) unfolding paths [OF assms(1)] paths [OF assms(2)] by (auto split: if_splits)
  next
    case False
    then show ?thesis using assms(3) other_ends unfolding paths [OF assms(1)] paths [OF assms(2)] by metis
  qed
  then show ?thesis by (simp add: backend_dir_def makePlatformBitfileName_def)
qed

lemma connect_platforms:
  "foldR (connect_platform B) S rest = Inr S' \<Longrightarrow>
     cs_platforms S' = foldl (\<lambda>ps (n, p). put n (putAttribute ''HEADER'' (parameter_file B p) p) ps) (cs_platforms S) rest \<and>
     FPGA_CONNECTION_PARAMETERS S' = FPGA_CONNECTION_PARAMETERS S @
       concat (map (\<lambda>(n, p). [parameter_file B p, li_file B (pl_name p)]) rest)"
proof (induction rest arbitrary: S)
  case (Cons x rest)
  obtain n p where x: "x = (n, p)" by (cases x)
  obtain S1 where S1: "connect_platform B S x = Inr S1" "foldR (connect_platform B) S1 rest = Inr S'"
    using Cons.prems by (auto simp: bindR_eq_Inr)
  have "cs_platforms S1 = put n (putAttribute ''HEADER'' (parameter_file B p) p) (cs_platforms S)"
      "FPGA_CONNECTION_PARAMETERS S1 = FPGA_CONNECTION_PARAMETERS S @ [parameter_file B p, li_file B (pl_name p)]"
    using S1(1) by (auto simp: connect_platform_def x bindR_eq_Inr split: prod.splits)
  then show ?case using Cons.IH [OF S1(2)] by (simp add: x)
qed simp

lemma put_each:
  assumes "distinct (keys (pre @ rest))"
  shows "foldl (\<lambda>ps (n, p). put n (f p) ps) (map (\<lambda>(n, p). (n, f p)) pre @ rest) rest = map (\<lambda>(n, p). (n, f p)) (pre @ rest)"
  using assms
proof (induction rest arbitrary: pre)
  case (Cons x rest)
  obtain n p where x: "x = (n, p)" by (cases x)
  have "n \<notin> set (keys (map (\<lambda>(n, p). (n, f p)) pre))" using Cons.prems by (force simp: x keys_def)
  then have "put n (f p) (map (\<lambda>(n, p). (n, f p)) pre @ x # rest) = map (\<lambda>(n, p). (n, f p)) (pre @ [x]) @ rest"
    unfolding x by (induction pre) (auto simp: keys_def)
  then show ?case using Cons.IH [of "pre @ [x]"] Cons.prems by (simp add: x keys_def)
qed simp

text \<open>
  after the constructor every platform that gets a router knows the file for it, no two platforms share a
  file, and every file is a target of the build step.
\<close>

theorem LIMConnect_headers:
  assumes "distinct (keys ps)" and "\<forall>(n, p) \<in> set ps. pl_name p = n"
    and "LIMConnect B ps li envFile mappingFile w = Inr (S, targets, deps)"
  shows "keys (cs_platforms S) = keys ps \<and>
    (\<forall>(n, p) \<in> set (cs_platforms S). getAttribute p ''HEADER'' = Inr (parameter_file B p) \<and> parameter_file B p \<in> set targets \<and>
      (\<forall>(n', p') \<in> set (cs_platforms S). has_router p \<and> has_router p' \<and> parameter_file B p = parameter_file B p' \<longrightarrow> n = n'))"
proof -
  let ?head = "\<lambda>p. putAttribute ''HEADER'' (parameter_file B p) p"
  have run: "foldR (connect_platform B) \<lparr>cs_world = w, cs_platforms = ps, FPGA_CONNECTION_PARAMETERS = []\<rparr> ps = Inr S"
      "targets = FPGA_CONNECTION_PARAMETERS S"
    using assms(3) by (auto simp: LIMConnect_def bindR_eq_Inr)
  have S: "cs_platforms S = map (\<lambda>(n, p). (n, ?head p)) ps"
      "FPGA_CONNECTION_PARAMETERS S = concat (map (\<lambda>(n, p). [parameter_file B p, li_file B (pl_name p)]) ps)"
    using put_each [of "[]" ps ?head] assms(1) connect_platforms [OF run(1)] by simp_all
  have same: "parameter_file B (?head p) = parameter_file B p" "pl_name (?head p) = pl_name p" "has_router (?head p) = has_router p" for p
    by (simp_all add: parameter_file_def putAttribute_def has_router_def)
  have attribute: "getAttribute (?head p) ''HEADER'' = Inr (parameter_file B p)" for p
    by (simp add: getAttribute_def putAttribute_def get_key_def map_of_put)
  have target: "parameter_file B p \<in> set (FPGA_CONNECTION_PARAMETERS S)" if "(n, p) \<in> set ps" for n p
    using that by (force simp: S(2))
  have own: "n = n'" if "(n, p) \<in> set ps" "(n', p') \<in> set ps" "has_router p" "has_router p'" "parameter_file B p = parameter_file B p'" for n p n' p'
    using parameter_file_inj [OF that(3-5)] bspec [OF assms(2) that(1)] bspec [OF assms(2) that(2)] by simp
  have all: "\<forall>(n, p) \<in> set (cs_platforms S). getAttribute p ''HEADER'' = Inr (parameter_file B p) \<and>
      parameter_file B p \<in> set (FPGA_CONNECTION_PARAMETERS S) \<and>
      (\<forall>(n', p') \<in> set (cs_platforms S). has_router p \<and> has_router p' \<and> parameter_file B p = parameter_file B p' \<longrightarrow> n = n')"
    unfolding S(1) set_map by (auto simp: same attribute intro: target own)
  have "keys (cs_platforms S) = keys ps" by (simp add: S(1) keys_def comp_def case_prod_beta)
  then show ?thesis using all run(2) by simp
qed

lemma LIMConnect_headers_witness:
  "\<exists>S targets deps. LIMConnect sample_build sample_platforms [] [''e.env''] [''m.map''] [] = Inr (S, targets, deps) \<and>
    keys (cs_platforms S) = [''A'', ''B'', ''S'']"
proof -
  have step: "\<exists>S'. connect_platform sample_build S x = Inr S'" for S x
    by (cases x) (simp add: connect_platform_def makePlatformConfigPath_def sample_build_def sample_os_def)
  have "\<exists>S. foldR (connect_platform sample_build) \<lparr>cs_world = [], cs_platforms = sample_platforms, FPGA_CONNECTION_PARAMETERS = []\<rparr>
      sample_platforms = Inr S \<and> True"
    by (rule foldR_total) (use step in auto)
  then obtain S targets deps where S: "LIMConnect sample_build sample_platforms [] [''e.env''] [''m.map''] [] = Inr (S, targets, deps)"
    by (auto simp: LIMConnect_def nth_res_def)
  have "keys sample_platforms = [''A'', ''B'', ''S'']" by (simp add: sample_platforms_def keys_def)
  then show ?thesis using LIMConnect_headers [OF sample_system(4,3) S] S by auto
qed

text \<open>Every module that is placed goes to one platform.\<close>

lemma backend_partition:
  assumes "distinct names" and "a \<in> set names" and "b \<in> set names" and "x \<in> set (backend_modules G a)" and "x \<in> set (backend_modules G b)"
  shows "a = b"
  using assms(4,5) by (auto simp: backend_modules_def)

lemma backend_complete:
  "(n, m) \<in> set G \<Longrightarrow> mapping_of m = Some a \<Longrightarrow> n \<noteq> a \<Longrightarrow> (n, m) \<in> set (backend_modules G a)"
  by (simp add: backend_modules_def)

end

