(* ===== verification/FrontEnd.thy ===== *)
theory FrontEnd
  imports WidthReport FlowControl
begin

text \<open>
  From the description of the environment to the analysed network: what \<open>synthesizeRouters\<close> does with the
  physical platform.  The environment is built from the parsed platforms (\<^verbatim>\<open>environment.py\<close>), \<open>parseWidth\<close> adds the
  widths (\<^verbatim>\<open>LIMConnect.py\<close>), and the network analysis allocates lanes and links on it
  (\<^verbatim>\<open>analyzeNetwork.py\<close>).  The lemmas show that what one stage leaves behind is what the next one relies on.
\<close>

section \<open>The edges of an environment\<close>

lemma environment_built:
  assumes "\<forall>p \<in> set pl. platform_ok p" and "mk_FPGAEnvironment sp pl = Some (Inr env)"
  shows "env_ok (platforms env)" and "all_paired (platforms env)" and "env_graph env = egress_edges (platforms env)"
    and "buildTransitTables sp (platforms env) (env_graph env) = Some (Inr (transitTablesOutgoing env, transitTablesIncoming env))"
  using assms(2) env_ok_build [OF assms(1)]
  by (auto simp: mk_FPGAEnvironment_def Let_def bindO_returns graphize_iff)

lemma egressPlatforms_edges: "egressPlatforms env = egress_edges (platforms env)"
  unfolding egressPlatforms_def egress_edges_def by (intro arg_cong [of _ _ concat] map_cong) auto

lemma distinct_egress_ends:
  assumes "platform_ok p"
  shows "distinct (map (\<lambda>e. endpointName (snd e)) (getEgresses p))"
proof -
  have "map (\<lambda>e. endpointName (snd e)) (getEgresses p) = map fst (getEgresses p)"
    using egress_key [OF assms] by (intro map_cong) auto
  also have "\<dots> = keys (egresses p)" by (simp add: getEgresses_def keys_def comp_def case_prod_beta)
  finally show ?thesis using assms by (simp add: platform_ok_def dict_ok_def)
qed

lemma distinct_edges: "env_ok ps \<Longrightarrow> distinct (egress_edges ps)"
proof (induction ps)
  case Nil
  then show ?case by (simp add: egress_edges_def)
next
  case (Cons x ps)
  obtain n p where x: "x = (n, p)" by (cases x)
  have ok: "platform_ok p" "n \<notin> set (keys ps)" "env_ok ps" using Cons.prems by (auto simp: env_ok_def x keys_def)
  have "distinct (map (\<lambda>e. (n, endpointName (snd e))) (getEgresses p))"
    using distinct_egress_ends [OF ok(1)] by (simp add: distinct_map inj_on_def)
  moreover have "n \<notin> fst ` set (egress_edges ps)" using ok(2) by (force simp: egress_edges_def keys_def)
  then have "set (map (\<lambda>e. (n, endpointName (snd e))) (getEgresses p)) \<inter> set (egress_edges ps) = {}" by force
  moreover have "egress_edges (x # ps) = map (\<lambda>e. (n, endpointName (snd e))) (getEgresses p) @ egress_edges ps"
    by (simp add: egress_edges_def x)
  ultimately show ?case using Cons.IH [OF ok(3)] by (simp only: distinct_append simp_thms)
qed

text \<open>Neighbours are in each other's transit tables.\<close>

lemma edge_tables:
  assumes "path_finder sp" and "\<forall>p \<in> set pl. platform_ok p" and "mk_FPGAEnvironment sp pl = Some (Inr env)"
    and "(t, p) \<in> set (egress_edges (platforms env))" and "t \<noteq> p"
  shows "\<exists>x. table_entry (transitTablesIncoming env) p t = Inr x" and "\<exists>y. table_entry (transitTablesOutgoing env) t p = Inr y"
proof -
  note env = environment_built [OF assms(2,3)]
  have names: "t \<in> set (keys (platforms env))" "p \<in> set (keys (platforms env))"
    using egress_edge_names [OF env(1,2) assms(4)] by auto
  have "walk (env_graph env) (Suc 0) t p" using assms(4) env(3) by (auto simp: walk_Suc walk_0)
  then obtain d where d: "snd (sp (env_graph env) t) p = Some d"
    using path_finder.dist_None [OF assms(1)] by (metis option.exhaust)
  have "walk (env_graph env) d t p" using path_finder.dist_eq_Some [OF assms(1)] d by blast
  then have pos: "0 < d" using assms(5) by (cases d) (auto simp: walk_0)
  obtain out inc where t: "buildTransitTables sp (platforms env) (env_graph env) = Some (Inr (out, inc))"
    and cells: "\<forall>p \<in> set (keys (platforms env)). \<exists>orow irow. map_of out p = Some orow \<and> map_of inc p = Some irow \<and>
      (\<forall>t \<in> set (keys (platforms env)). outgoing_cell sp (platforms env) (env_graph env) p t = Some (Inr (map_of orow t))
         \<and> incoming_cell sp (platforms env) (env_graph env) p t = Some (Inr (map_of irow t)))"
    using path_finder.buildTransitTables_returns [OF assms(1) env(1-3)] by blast
  have same: "out = transitTablesOutgoing env" "inc = transitTablesIncoming env" using t env(4) by simp_all
  obtain orow where orow: "map_of (transitTablesOutgoing env) t = Some orow"
      "outgoing_cell sp (platforms env) (env_graph env) t p = Some (Inr (map_of orow p))"
    using cells names unfolding same by blast
  obtain irow where irow: "map_of (transitTablesIncoming env) p = Some irow"
      "incoming_cell sp (platforms env) (env_graph env) p t = Some (Inr (map_of irow t))"
    using cells names unfolding same by blast
  obtain x where "map_of irow t = Some x"
    using path_finder.incoming_cell_returns [OF assms(1) env(1-3), of p t] irow(2) d pos by auto
  then show "\<exists>x. table_entry (transitTablesIncoming env) p t = Inr x" using irow(1) by (simp add: table_entry_def get_key_def)
  obtain y where "map_of orow p = Some y"
    using path_finder.outgoing_cell_returns [OF assms(1) env(1-3), of t p] orow(2) d pos by auto
  then show "\<exists>y. table_entry (transitTablesOutgoing env) t p = Inr y" using orow(1) by (simp add: table_entry_def get_key_def)
qed

section \<open>The widths\<close>

lemma widen_env_simps [simp]:
  "transitTablesOutgoing (widen_env items W env) = transitTablesOutgoing env"
  "transitTablesIncoming (widen_env items W env) = transitTablesIncoming env"
  by (simp_all add: widen_env_def)

lemma connection_index:
  assumes "platform_ok p"
  shows "map_of (egresses p) k = Some i \<Longrightarrow> i < length (physicalVias p)"
    and "map_of (ingresses p) k = Some i \<Longrightarrow> i < length (physicalVias p)"
  using assms by (auto simp: platform_ok_def dict_ok_def)

lemma widened_lookup:
  assumes "platform_ok p"
  shows "getEgress p t = Inr v \<Longrightarrow> getEgress (widen_platform V D p) t = Inr (widen V D v)"
    and "getIngress p t = Inr v \<Longrightarrow> getIngress (widen_platform V D p) t = Inr (widen V D v)"
  using connection_index [OF assms]
  by (auto simp: getEgress_def getIngress_def via_at_def widen_platform_def split: option.splits)

lemma egress_direction: "platform_ok p \<Longrightarrow> (k, v) \<in> set (getEgresses p) \<Longrightarrow> direction v = Egress"
  by (auto simp: getEgresses_def platform_ok_def dict_ok_def distinct_keys_map_of)

lemma widened_ends:
  assumes "platform_ok p"
  shows "map (\<lambda>e. (n :: string, endpointName (snd e))) (getEgresses (widen_platform V D p)) =
    map (\<lambda>e. (n, endpointName (snd e))) (getEgresses p)"
proof -
  have "distinct (keys (egresses p))" using assms by (simp add: platform_ok_def dict_ok_def)
  then have "i < length (physicalVias p)" if "(k, i) \<in> set (egresses p)" for k i
    using that connection_index(1) [OF assms] distinct_keys_map_of by metis
  then show ?thesis by (auto simp: getEgresses_def widen_platform_def)
qed

lemma widen_env_edges:
  assumes "env_ok (platforms env)"
  shows "egressPlatforms (widen_env items W env) = egressPlatforms env"
proof -
  have "map (\<lambda>e. (n, endpointName (snd e))) (getEgresses (widen_platform (W n) (reported (items n)) p)) =
      map (\<lambda>e. (n, endpointName (snd e))) (getEgresses p)" if "(n, p) \<in> set (platforms env)" for n p
    using that assms by (intro widened_ends) (auto simp: env_ok_def)
  then show ?thesis
    unfolding egressPlatforms_edges egress_edges_def widen_env_def
    by (auto intro!: arg_cong [of _ _ concat])
qed

text \<open>
  What the description must say of the connections (every platform can answer its neighbours) and what
  routing leaves behind (the links of two pairs are not shared), with widths that are positive.
\<close>

definition two_way :: "fpga_env \<Rightarrow> bool" where
  "two_way env \<longleftrightarrow> (\<forall>(p, t) \<in> set (egressPlatforms env). p \<noteq> t \<and> (t, p) \<in> set (egressPlatforms env))"

definition links_routed :: "fpga_env \<Rightarrow> (string \<Rightarrow> string \<Rightarrow> nat list) \<Rightarrow> store \<Rightarrow> bool" where
  "links_routed env linksOf H \<longleftrightarrow> (\<forall>(p, t) \<in> set (egressPlatforms env). links_wf H (linksOf p t) \<and>
     (\<forall>(q, u) \<in> set (egressPlatforms env). (q, u) \<noteq> (p, t) \<longrightarrow> links_apart H (linksOf p t) (linksOf q u)))"

definition widths_positive :: "(string \<Rightarrow> log_item list) \<Rightarrow> (string \<Rightarrow> via_direction \<Rightarrow> string \<Rightarrow> nat) \<Rightarrow> bool" where
  "widths_positive items W \<longleftrightarrow> (\<forall>name. \<forall>(d, n) \<in> reported (items name). 0 < W name d n)"

lemma frontend_pair:
  assumes "path_finder sp" and "\<forall>p \<in> set pl. platform_ok p" and "mk_FPGAEnvironment sp pl = Some (Inr env)"
    and "logs_report env logs items W" and "widths_positive items W" and "two_way env"
    and "(p, t) \<in> set (egressPlatforms env)"
  shows "pair_wired (widen_env items W env) p t" and "\<exists>width > 0. pair_ready (widen_env items W env) p t width"
    and "p \<in> set (getPlatformNames env)" and "t \<in> set (getPlatformNames env)"
proof -
  let ?env = "widen_env items W env"
  note env = environment_built [OF assms(2,3)]
  have edges: "(p, t) \<in> set (egress_edges (platforms env))" "(t, p) \<in> set (egress_edges (platforms env))" "t \<noteq> p"
    using assms(6,7) unfolding two_way_def egressPlatforms_edges by blast+
  note tables = edge_tables [OF assms(1-3) edges(2,3)]
  obtain a b v w where ends: "map_of (platforms env) p = Some a" "map_of (platforms env) t = Some b"
      "getEgress a t = Inr v" "getIngress b p = Inr w"
    by (rule egress_edge_ends [OF env(1,2) edges(1)])
  have mem: "(p, a) \<in> set (platforms env)" "(t, b) \<in> set (platforms env)" using ends(1,2) by (auto dest: map_of_SomeD)
  have ok: "platform_ok a" "platform_ok b" using env(1) mem by (auto simp: env_ok_def)
  show names: "p \<in> set (getPlatformNames env)" "t \<in> set (getPlatformNames env)"
    using ends(1,2) by (auto simp: getPlatformNames_def map_of_key_mem)
  let ?a = "widen_platform (W p) (reported (items p)) a" and ?b = "widen_platform (W t) (reported (items t)) b"
  have wide: "map_of (platforms ?env) p = Some ?a" "map_of (platforms ?env) t = Some ?b"
      "getEgress ?a t = Inr (widen (W p) (reported (items p)) v)" "getIngress ?b p = Inr (widen (W t) (reported (items t)) w)"
    using ends(1,2) widened_lookup(1) [OF ok(1) ends(3)] widened_lookup(2) [OF ok(2) ends(4)] by (simp_all add: widen_env_lookup)
  show "pair_wired ?env p t"
    using wide tables by (simp add: pair_wired_def has_connection_def getPlatform_def get_key_def)
  have v: "(t, v) \<in> set (getEgresses a)" using ends(3) getEgresses_lookup(1) [OF ok(1)] by blast
  have "physicalName v \<in> set (egress_names a)" using imageI [OF v, of "physicalName \<circ> snd"] by (simp add: egress_names_def)
  then have "(Egress, physicalName v) \<in> reported (items p)" using logs_reportD(4) [OF assms(4) mem(1)] by blast
  moreover have "direction v = Egress" by (rule egress_direction [OF ok(1) v])
  ultimately have "pv_width (widen (W p) (reported (items p)) v) = Some (int (W p Egress (physicalName v)))"
      "0 < W p Egress (physicalName v)"
    using assms(5) by (auto simp: widen_def widths_positive_def)
  moreover have "t \<in> set (keys (platforms ?env))" using wide(2) by (simp add: map_of_key_mem)
  ultimately show "\<exists>width > 0. pair_ready ?env p t width"
    using wide tables by (intro exI [of _ "int (W p Egress (physicalName v))"]) (auto simp: pair_ready_def)
qed

lemma frontend_wired:
  assumes "path_finder sp" and "\<forall>p \<in> set pl. platform_ok p" and "mk_FPGAEnvironment sp pl = Some (Inr env)"
    and "logs_report env logs items W" and "widths_positive items W" and "two_way env" and "links_routed env linksOf H"
  shows "network_wired (widen_env items W env) linksOf H"
proof -
  let ?env = "widen_env items W env"
  note env = environment_built [OF assms(2,3)]
  have edges: "egressPlatforms ?env = egressPlatforms env" by (rule widen_env_edges [OF env(1)])
  have names: "getPlatformNames ?env = getPlatformNames env" by (simp add: getPlatformNames_def widen_env_names)
  have "distinct (egressPlatforms env)" unfolding egressPlatforms_edges by (rule distinct_edges [OF env(1)])
  moreover have "pair_wired ?env p t \<and> p \<in> set (getPlatformNames env) \<and> t \<in> set (getPlatformNames env)
      \<and> (t, p) \<in> set (egressPlatforms env)
      \<and> (\<forall>(q, u) \<in> set (egressPlatforms env). (q, u) \<noteq> (p, t) \<longrightarrow> links_apart H (linksOf p t) (linksOf q u))"
    if "(p, t) \<in> set (egressPlatforms env)" for p t
    using frontend_pair [OF assms(1-6) that] assms(6,7) that unfolding two_way_def links_routed_def by blast
  ultimately show ?thesis unfolding network_wired_def edges names by blast
qed

lemma frontend_ready:
  assumes "path_finder sp" and "\<forall>p \<in> set pl. platform_ok p" and "mk_FPGAEnvironment sp pl = Some (Inr env)"
    and "logs_report env logs items W" and "widths_positive items W" and "two_way env" and "links_routed env linksOf H"
    and "MIN_NUMBER_OF_VIAS awb = 1" and "1 \<le> MAX_NUMBER_OF_VIAS awb"
  shows "\<forall>(p, t) \<in> set (egressPlatforms (widen_env items W env)). ljf_ready awb (widen_env items W env) linksOf H p t"
proof -
  have "ljf_ready awb (widen_env items W env) linksOf H p t" if "(p, t) \<in> set (egressPlatforms env)" for p t
    using frontend_pair(2) [OF assms(1-6) that] assms(7-9) that unfolding ljf_ready_def links_routed_def by blast
  then show ?thesis unfolding widen_env_edges [OF environment_built(1) [OF assms(2,3)]] by blast
qed

text \<open>
  From the description of the environment to the analysed network.  When the platforms are described
  with two-way connections, the environment is built, and the logs report a positive width of every
  connection the generated routers print, then \<open>parseWidth\<close> and the network analysis both succeed, and every
  platform gets router lanes of positive width to each of its neighbours, the same at both ends.
\<close>

theorem environment_to_network:
  assumes "path_finder sp" and "\<forall>p \<in> set pl. platform_ok p" and "mk_FPGAEnvironment sp pl = Some (Inr env)"
    and "logs_report env logs items W" and "widths_positive items W" and "two_way env" and "links_routed env linksOf H"
    and "MIN_NUMBER_OF_VIAS awb = 1" and "1 \<le> MAX_NUMBER_OF_VIAS awb"
  shows "\<exists>env' net. parseWidth logs env = Inr env' \<and> analyzeNetworkLJF awb env' linksOf H = Some (Inr net) \<and>
    (\<forall>(p, t) \<in> set (env_graph env). \<exists>eg ing. logicalEgress net (p, t) = Some eg \<and> logicalIngress net (t, p) = Some ing \<and>
       eg \<noteq> [] \<and> (\<forall>e \<in> set eg. 0 < via_width e) \<and> map via_width ing = map via_width eg)"
proof -
  let ?env = "widen_env items W env"
  note env = environment_built [OF assms(2,3)]
  have edges: "egressPlatforms ?env = env_graph env"
    using widen_env_edges [OF env(1)] egressPlatforms_edges env(3) by simp
  obtain net where net: "analyzeNetworkLJF awb ?env linksOf H = Some (Inr net)"
    "\<forall>(p, t) \<in> set (egressPlatforms ?env). pair_routed (lane_bound awb ?env) linksOf net p t"
    using ljf.analysis_routes [OF frontend_wired [OF assms(1-7)] frontend_ready [OF assms]] by (auto simp: analyzeNetworkLJF_def)
  have "\<exists>eg ing. logicalEgress net (p, t) = Some eg \<and> logicalIngress net (t, p) = Some ing \<and>
       eg \<noteq> [] \<and> (\<forall>e \<in> set eg. 0 < via_width e) \<and> map via_width ing = map via_width eg"
    if edge: "(p, t) \<in> set (env_graph env)" for p t
  proof -
    have "pair_routed (lane_bound awb ?env) linksOf net p t" using net(2) edge unfolding edges by blast
    then obtain eg ing where r: "logicalEgress net (p, t) = Some eg" "logicalIngress net (t, p) = Some ing" "eg \<noteq> []"
      "\<forall>e \<in> set eg. 0 < via_width e"
      "map (\<lambda>v. (via_umfType v, via_width v, via_links v, via_io_links v, fc_slot v)) ing =
        map (\<lambda>v. (via_umfType v, via_width v, via_links v, via_io_links v, fc_slot v)) eg"
      by (auto simp: pair_routed_def)
    from arg_cong [OF r(5), of "map (fst \<circ> snd)"] have "map via_width ing = map via_width eg" by (simp add: comp_def)
    with r show ?thesis by blast
  qed
  then show ?thesis using parseWidth_runs [OF env(1) assms(4)] net(1) by blast
qed

text \<open>The logs of the two platforms of the description, for the concrete instance.\<close>

definition chain_items :: "string \<Rightarrow> log_item list" where
  "chain_items name = (if name = ''A''
     then [Inl ''compiling'', Inr ([], Egress, ''ab''), Inr ([], Ingress, ''ba'')]
     else [Inr (''message: '', Ingress, ''ab''), Inr ([], Egress, ''ba'')])"

definition chain_logs :: "(string option \<times> string list) list" where
  "chain_logs = [(Some ''A'', map (log_line (\<lambda>d n. 128)) (chain_items ''A'')), (None, [''linking'']),
     (Some ''B'', map (log_line (\<lambda>d n. 128)) (chain_items ''B''))]"

lemma chain_vias:
  "physicalVias (chain_platforms ! 0) = [mk_PhysicalVia Egress ''B'' ''ab'', mk_PhysicalVia Ingress ''B'' ''ba'']"
  "physicalVias (chain_platforms ! Suc 0) = [mk_PhysicalVia Egress ''A'' ''ba'', mk_PhysicalVia Ingress ''A'' ''ab'']"
  "egress_names (chain_platforms ! 0) = [''ab'']" "ingress_names (chain_platforms ! 0) = [''ba'']"
  "egress_names (chain_platforms ! Suc 0) = [''ba'']" "ingress_names (chain_platforms ! Suc 0) = [''ab'']"
  by (simp_all add: chain_platforms_def platform_eval egress_names_def ingress_names_def)

lemma chain_unique: "unique_vias (chain_platforms ! 0)" "unique_vias (chain_platforms ! Suc 0)"
  by (auto simp: unique_vias_def chain_vias mk_PhysicalVia_def inj_on_def less_Suc_eq)

lemma other_line: "re_match via_size_pat ''compiling'' = None"
  by code_simp

lemma chain_items_ok: "\<forall>x \<in> set (chain_items n). log_item_ok x"
  using other_line by (simp add: chain_items_def readable_name_def suffix_def)

lemma chain_reported:
  "reported (chain_items n) = {(Egress, if n = ''A'' then ''ab'' else ''ba''), (Ingress, if n = ''A'' then ''ba'' else ''ab'')}"
  by (auto simp: reported_def chain_items_def)

lemma chain_logged:
  assumes "platforms env = fold addPlatform chain_platforms []"
  shows "logs_report env chain_logs chain_items (\<lambda>_ d n. 128)"
  using chain_unique chain_items_ok
  by (simp add: logs_report_def assms chain_built chain_vias chain_reported chain_logs_def)

lemma environment_to_network_witness:
  "\<exists>env env' net. mk_FPGAEnvironment bfs chain_platforms = Some (Inr env) \<and> parseWidth chain_logs env = Inr env' \<and>
     analyzeNetworkLJF small_net env' wired_links two_links = Some (Inr net) \<and>
     (\<exists>eg. logicalEgress net (''A'', ''B'') = Some eg \<and> eg \<noteq> [])"
proof -
  obtain env where env: "mk_FPGAEnvironment bfs chain_platforms = Some (Inr env)"
    "platforms env = fold addPlatform chain_platforms []" "env_graph env = [(''A'', ''B''), (''B'', ''A'')]"
    by (rule chain_env)
  have edges: "egressPlatforms env = [(''A'', ''B''), (''B'', ''A'')]"
    using environment_built(3) [OF chain_ok env(1)] env(3) by (simp add: egressPlatforms_edges)
  have "links_wf two_links [4, 5]" by (simp add: links_wf_def two_links_def sink_of_def)
  then have routed: "links_routed env wired_links two_links"
    using two_links_wf unfolding links_routed_def edges
    by (simp add: wired_links_def links_apart_def sink_of_def two_links_def)
  have "widths_positive chain_items (\<lambda>_ d n. 128)" by (simp add: widths_positive_def)
  moreover have "two_way env" by (simp add: two_way_def edges)
  moreover have "MIN_NUMBER_OF_VIAS small_net = 1" "1 \<le> MAX_NUMBER_OF_VIAS small_net" by (simp_all add: small_net_def)
  ultimately obtain env' net where "parseWidth chain_logs env = Inr env'"
    "analyzeNetworkLJF small_net env' wired_links two_links = Some (Inr net)"
    "\<forall>(p, t) \<in> set (env_graph env). \<exists>eg ing. logicalEgress net (p, t) = Some eg \<and> logicalIngress net (t, p) = Some ing \<and>
       eg \<noteq> [] \<and> (\<forall>e \<in> set eg. 0 < via_width e) \<and> map via_width ing = map via_width eg"
    using environment_to_network [OF bfs_paths.path_finder_axioms chain_ok env(1) chain_logged [OF env(2)] _ _ routed] by blast
  then show ?thesis using env(1) unfolding env(3) by auto
qed

end
