(* ===== verification/RouteNetwork.thy ===== *)
theory RouteNetwork
  imports RouteAll FrontEnd "HOL-Library.Multiset"
begin

text \<open>
  From the description of the platforms and the graph of the program to the analysed network: \<open>routeConnections\<close>
  and \<open>parseWidth\<close> of \<^verbatim>\<open>lim_connect/LIMConnect.py\<close> followed by the network analysis (\<^verbatim>\<open>analyzeNetwork.py\<close>).  The
  lemmas show that the links routing leaves behind are the ones that the analysis relies on.
\<close>

section \<open>The connections as the analysis reads them\<close>

definition store_of :: "route_state \<Rightarrow> store" where
  "store_of S k = connection.truncate (conns S k)"

lemma store_of_fields [simp]:
  "conn_class (store_of S k) = conn_class (conns S k)" "conn_name (store_of S k) = conn_name (conns S k)"
  "bitwidth (store_of S k) = bitwidth (conns S k)"
  "GenerateVias.sink_of (store_of S) k = LimConnect.sink_of S k"
  by (simp_all add: store_of_def connection.truncate_def GenerateVias.sink_of_def LimConnect.sink_of_def split: conn_class.split)

text \<open>
  The links of a pair of platforms: \<open>egressChannelsByPartner\<close> and \<open>egressChainsByPartner\<close> of \<open>li_module\<close> list
  the channels and chains that leave a platform for another, in some order.
\<close>

definition leaving :: "route_state \<Rightarrow> string \<Rightarrow> nat list" where
  "leaving S p = sends S p @ mod_chains S p"

definition next_platform :: "route_state \<Rightarrow> nat \<Rightarrow> string" where
  "next_platform S y = conn_module (conns S (LimConnect.sink_of S y))"

definition lists_links :: "(route_state \<Rightarrow> string \<Rightarrow> string \<Rightarrow> nat list) \<Rightarrow> bool" where
  "lists_links linksOf \<longleftrightarrow> (\<forall>S p t. mset (linksOf S p t) = mset (filter (\<lambda>y. next_platform S y = t) (leaving S p)))"

lemma links_listed: "lists_links linksOf \<Longrightarrow> set (linksOf S p t) = {y \<in> set (leaving S p). next_platform S y = t}"
  using mset_eq_setD [of "linksOf S p t" "filter (\<lambda>y. next_platform S y = t) (leaving S p)"] by (auto simp: lists_links_def)

lemma ready_links_wf:
  assumes ready: "links_ready path S" and links: "lists_links linksOf" and "p \<in> set (mod_names S)"
  shows "links_wf (store_of S) (linksOf S p t)"
proof -
  let ?ls = "filter (\<lambda>y. next_platform S y = t) (leaving S p)"
  have ok: "link_ready path S p y" if "y \<in> set (leaving S p)" for y
    using ready assms(3) that by (simp add: links_ready_def leaving_def)
  have set_ls: "set (linksOf S p t) \<subseteq> set (leaving S p)" using links_listed [OF links] by blast
  have "mset (map (\<lambda>c. conn_name (conns S c)) (linksOf S p t)) = mset (map (\<lambda>c. conn_name (conns S c)) ?ls)"
    using links by (simp add: lists_links_def)
  moreover have "distinct (map (\<lambda>c. conn_name (conns S c)) (leaving S p))"
    using ready assms(3) unfolding links_ready_def leaving_def by blast
  then have "distinct (map (\<lambda>c. conn_name (conns S c)) ?ls)" by (rule distinct_map_filter)
  ultimately have "distinct (map (\<lambda>c. conn_name (conns S c)) (linksOf S p t))" by (metis mset_eq_imp_distinct_iff)
  moreover have "source_of S (LimConnect.sink_of S y) = y" if "y \<in> set (leaving S p)" for y
    using ok [OF that] by (simp add: link_ready_def joined_def linked_def)
  then have "inj_on (LimConnect.sink_of S) (set (leaving S p))" by (rule inj_on_inverseI)
  then have "inj_on (LimConnect.sink_of S) (set (linksOf S p t))" by (rule inj_on_subset [OF _ set_ls])
  moreover have "0 \<le> bitwidth (conns S c)" if "c \<in> set (linksOf S p t)" for c
    using ok set_ls that by (auto simp: link_ready_def)
  ultimately show ?thesis by (simp add: links_wf_def inj_on_def)
qed

lemma ready_links_apart:
  assumes ready: "links_ready path S" and links: "lists_links linksOf"
    and "p \<in> set (mod_names S)" and "q \<in> set (mod_names S)" and "(q, u) \<noteq> (p, t)"
  shows "links_apart (store_of S) (linksOf S p t) (linksOf S q u)"
proof -
  have ok: "conn_module (conns S y) = r \<and> joined S (y, LimConnect.sink_of S y)"
    if "y \<in> set (leaving S r)" "r \<in> {p, q}" for y r
    using ready assms(3,4) that by (auto simp: links_ready_def leaving_def link_ready_def)
  have mem: "y \<in> set (leaving S r) \<and> next_platform S y = s" if "y \<in> set (linksOf S r s)" for y r s
    using links_listed [OF links] that by blast
  have differ: "y \<noteq> z" if "y \<in> set (linksOf S p t)" "z \<in> set (linksOf S q u)" for y z
    using mem [OF that(1)] mem [OF that(2)] ok assms(5) by auto
  moreover have "LimConnect.sink_of S y \<noteq> LimConnect.sink_of S z"
    if "y \<in> set (linksOf S p t)" "z \<in> set (linksOf S q u)" for y z
    using ok [of y p] ok [of z q] mem [OF that(1)] mem [OF that(2)] differ [OF that]
    by (auto simp: joined_def linked_def)
  ultimately show ?thesis by (auto simp: links_apart_def)
qed

lemma ready_links_routed:
  assumes "links_ready path S" and "lists_links linksOf" and "\<forall>(p, t) \<in> set (egressPlatforms env). p \<in> set (mod_names S)"
  shows "links_routed env (linksOf S) (store_of S)"
proof -
  have "links_wf (store_of S) (linksOf S p t) \<and> (\<forall>(q, u) \<in> set (egressPlatforms env). (q, u) \<noteq> (p, t) \<longrightarrow>
      links_apart (store_of S) (linksOf S p t) (linksOf S q u))" if edge: "(p, t) \<in> set (egressPlatforms env)" for p t
  proof -
    have p: "p \<in> set (mod_names S)" using assms(3) edge by blast
    have "links_apart (store_of S) (linksOf S p t) (linksOf S q u)"
      if "(q, u) \<in> set (egressPlatforms env)" "(q, u) \<noteq> (p, t)" for q u
      using ready_links_apart [OF assms(1,2) p _ that(2)] assms(3) that(1) by blast
    then show ?thesis using ready_links_wf [OF assms(1,2) p] by blast
  qed
  then show ?thesis unfolding links_routed_def by blast
qed

context path_finder
begin

lemma short_path_edge:
  assumes "short_path (getPath sp g) p q"
  shows "(p, q) \<in> set g"
proof (cases "snd (sp g p) q")
  case None
  then show ?thesis using assms by (simp add: short_path_def getPath_def prev_of_def prev_None)
next
  case (Some d)
  from getPath_chain [OF dist_Some(1) [OF this]] assms show ?thesis by (auto simp: short_path_def)
qed

end

section \<open>From the program to the network\<close>

text \<open>A link has a slot of a lane between its two platforms, and its two ends agree on it.\<close>

definition link_served :: "network \<Rightarrow> route_state \<Rightarrow> string \<Rightarrow> nat \<Rightarrow> bool" where
  "link_served net S p y \<longleftrightarrow> (\<exists>eg ing i l.
     logicalEgress net (p, next_platform S y) = Some eg \<and> logicalIngress net (next_platform S y, p) = Some ing \<and>
     map via_width ing = map via_width eg \<and> i < length eg \<and> 0 < via_width (eg ! i) \<and>
     egress_slot (net_store net) y = (int i, l) \<and> 0 \<le> l \<and> l < via_io_links (eg ! i) \<and>
     ingress_slot (net_store net) (LimConnect.sink_of S y) = (int i, l))"

lemma pair_served:
  assumes routed: "pair_routed most linksOf net p (next_platform S y)" and y: "y \<in> set (linksOf p (next_platform S y))"
    and same: "same_links (store_of S) (net_store net)"
  shows "link_served net S p y"
proof -
  let ?t = "next_platform S y"
  obtain eg ing where r: "logicalEgress net (p, ?t) = Some eg" "\<forall>e \<in> set eg. 0 < via_width e"
      "slots_agree (net_store net) (linksOf p ?t) (map via_io_links eg)" "logicalIngress net (?t, p) = Some ing"
      "map (\<lambda>v. (via_umfType v, via_width v, via_links v, via_io_links v, fc_slot v)) ing =
        map (\<lambda>v. (via_umfType v, via_width v, via_links v, via_io_links v, fc_slot v)) eg"
    using routed by (auto simp: pair_routed_def)
  from arg_cong [OF r(5), of "map (fst \<circ> snd)"] have widths: "map via_width ing = map via_width eg" by (simp add: comp_def)
  have "GenerateVias.sink_of (net_store net) y = LimConnect.sink_of S y" using same_linksD(3) [OF same] by simp
  then have "ingress_slot (net_store net) (LimConnect.sink_of S y) = egress_slot (net_store net) y \<and>
      (\<exists>i l. egress_slot (net_store net) y = (int i, l) \<and> i < length eg \<and> 0 \<le> l \<and> l < map via_io_links eg ! i)"
    using r(3) y by (auto simp: slots_agree_def)
  then obtain i l where "i < length eg" "egress_slot (net_store net) y = (int i, l)" "0 \<le> l" "l < via_io_links (eg ! i)"
      "ingress_slot (net_store net) (LimConnect.sink_of S y) = (int i, l)"
    by auto
  then show ?thesis using r(1,2,4) widths unfolding link_served_def by fastforce
qed

text \<open>All that leaves a platform.\<close>

lemma leaving_served:
  assumes paths: "path_finder sp" and ready: "links_ready (getPath sp g) S" and p: "p \<in> set (mod_names S)"
    and links: "lists_links linksOf" and same: "same_links (store_of S) (net_store net)"
    and routed: "\<forall>(p, t) \<in> set g. pair_routed most (linksOf S) net p t"
  shows "(\<forall>y \<in> set (leaving S p). (p, next_platform S y) \<in> set g \<and> link_served net S p y) \<and>
    inj_on (\<lambda>y. (next_platform S y, egress_slot (net_store net) y)) (set (leaving S p))"
proof (intro conjI ballI inj_onI)
  have edge: "(p, next_platform S y) \<in> set g" if y: "y \<in> set (leaving S p)" for y
    by (rule path_finder.short_path_edge [OF paths])
      (use ready p y in \<open>auto simp: links_ready_def leaving_def link_ready_def next_platform_def\<close>)
  have listed: "y \<in> set (linksOf S p (next_platform S y))" if "y \<in> set (leaving S p)" for y
    using links_listed [OF links] that by blast
  fix y
  assume y: "y \<in> set (leaving S p)"
  show "(p, next_platform S y) \<in> set g" by (rule edge [OF y])
  have r: "pair_routed most (linksOf S) net p (next_platform S y)" using routed edge [OF y] by blast
  show "link_served net S p y" by (rule pair_served [OF r listed [OF y] same])
  fix z
  assume z: "z \<in> set (leaving S p)"
    and eq: "(next_platform S y, egress_slot (net_store net) y) = (next_platform S z, egress_slot (net_store net) z)"
  have "inj_on (egress_slot (net_store net)) (set (linksOf S p (next_platform S y)))"
    using r by (auto simp: pair_routed_def slots_agree_def)
  moreover have "z \<in> set (linksOf S p (next_platform S y))" using listed [OF z] eq by simp
  ultimately show "y = z" using listed [OF y] eq by (auto dest: inj_onD)
qed

text \<open>
  C1: from the program to the analysed network.  The platforms are described with two-way connections and are
  connected, and the logs report a positive width of every connection; every channel and chain of the program
  that leaves a platform is matched with a partner on another one, and their names differ and do not look like
  the names that routing makes.  Then routing, \<open>parseWidth\<close> and the network analysis all succeed, every channel
  is delivered to its partner, and every channel and chain that then leaves a platform, those that routing has
  added included, leads to a neighbour and has a slot of a lane of positive width to it, the same slot at both
  ends and a slot that no other one on this pair of platforms has.
\<close>

theorem program_to_network:
  assumes "path_finder sp" and "\<forall>p \<in> set pl. platform_ok p" and "mk_FPGAEnvironment sp pl = Some (Inr env)"
    and "logs_report env logs items W" and "widths_positive items W" and "two_way env"
    and "MIN_NUMBER_OF_VIAS awb = 1" and "1 \<le> MAX_NUMBER_OF_VIAS awb"
    and "routing_graph ops" and "lists_links linksOf"
    and "net_ok S" and "chains_ok S" and "names_ok S" and "set (mod_names S) = set (getPlatformNames env)"
    and "\<forall>p \<in> set (getPlatformNames env). \<forall>q \<in> set (getPlatformNames env). getPathLength sp (env_graph env) p q \<noteq> - 1"
  shows "\<exists>S' env' net. routeConnections ops (getPath sp (env_graph env)) (getPlatformNames env) S = Some (Inr S') \<and>
    parseWidth logs env = Inr env' \<and> analyzeNetworkLJF awb env' (linksOf S') (store_of S') = Some (Inr net) \<and>
    (\<forall>p \<in> set (getPlatformNames env).
       (\<forall>c \<in> set (mod_channels S p). isSource ops (conns S c) \<longrightarrow>
          route_leads (getPath sp (env_graph env)) S S' c (partnerChannel (conns S c))) \<and>
       (\<forall>y \<in> set (leaving S' p). (p, next_platform S' y) \<in> set (env_graph env) \<and> link_served net S' p y) \<and>
       inj_on (\<lambda>y. (next_platform S' y, egress_slot (net_store net) y)) (set (leaving S' p)))"
proof -
  let ?g = "env_graph env" and ?path = "getPath sp (env_graph env)" and ?names = "getPlatformNames env"
  let ?env = "widen_env items W env"
  note env = environment_built [OF assms(2,3)]
  have names: "distinct ?names" "set ?names = set (keys (platforms env))"
    using env(1) by (simp_all add: getPlatformNames_def env_ok_def)
  have edges: "\<forall>(x, y) \<in> set ?g. x \<in> set ?names \<and> y \<in> set ?names"
    using egress_edge_names [OF env(1,2)] unfolding env(3) names(2) by blast
  have "routable ?path (set (mod_names S))"
    using path_finder.getPath_routable [OF assms(1) edges assms(15)] assms(14) by simp
  from routing_graph.routeConnections_routes [OF assms(9,11,12) this names(1) assms(14) [symmetric]]
  obtain S' where S': "routeConnections ops ?path ?names S = Some (Inr S')" "mod_names S' = mod_names S" "links_ready ?path S'"
      "\<forall>p \<in> set ?names. \<forall>c \<in> set (mod_channels S p). isSource ops (conns S c) \<longrightarrow>
         route_leads ?path S S' c (partnerChannel (conns S c))"
    using assms(13) by blast
  have egress: "egressPlatforms ?env = egressPlatforms env" "set (egressPlatforms env) = set ?g"
    using widen_env_edges [OF env(1)] env(3) by (simp_all add: egressPlatforms_edges)
  have "\<forall>(p, t) \<in> set (egressPlatforms env). p \<in> set (mod_names S')"
    using edges S'(2) assms(14) unfolding egress(2) by auto
  note routed = ready_links_routed [OF S'(3) assms(10) this]
  from ljf.analysis_routes [OF frontend_wired [OF assms(1-6) routed] frontend_ready [OF assms(1-6) routed assms(7,8)]]
  obtain net where net: "analyzeNetworkLJF awb ?env (linksOf S') (store_of S') = Some (Inr net)"
      "same_links (store_of S') (net_store net)"
      "\<forall>(p, t) \<in> set ?g. pair_routed (lane_bound awb ?env) (linksOf S') net p t"
    unfolding egress by (auto simp: analyzeNetworkLJF_def)
  have served: "(\<forall>y \<in> set (leaving S' p). (p, next_platform S' y) \<in> set ?g \<and> link_served net S' p y) \<and>
      inj_on (\<lambda>y. (next_platform S' y, egress_slot (net_store net) y)) (set (leaving S' p))"
    if p: "p \<in> set ?names" for p
    by (rule leaving_served [OF assms(1) S'(3) _ assms(10) net(2,3)]) (use p assms(14) S'(2) in simp)
  then show ?thesis using S'(1,4) net(1) parseWidth_runs [OF env(1) assms(4)] by blast
qed

text \<open>The two platforms of the description, with a channel from one to the other and a chain on both.\<close>

definition pair_net :: route_state where
  "pair_net = sample_net\<lparr>conns := (conns sample_net)
       (1 := sample_conn ''Recv'' ''B'' 0, 3 := (sample_conn [] ''B'' 0)\<lparr>conn_class := LIChain, conn_name := ''k''\<rparr>),
     mod_names := [''A'', ''B''],
     mod_channels := \<lambda>p. if p = ''A'' then [0] else if p = ''B'' then [1] else [],
     mod_chains := \<lambda>p. if p = ''A'' then [2] else if p = ''B'' then [3] else []\<rparr>"

lemmas pair_net_defs = pair_net_def sample_net_def sample_state_def sample_conn_def

lemma short_plain: "length n < length marker \<Longrightarrow> plain n"
  using sublist_length_le [of marker n] by (auto simp: plain_def)

lemma pair_net_ok: "net_ok pair_net" "chains_ok pair_net" "names_ok pair_net"
proof -
  have "receiver pair_net 1" "joined pair_net (0, 1)"
    by (simp_all add: receiver_def joined_def linked_def LimConnect.sink_of_def source_of_def pair_net_defs)
  then have "source_ok pair_net 0" by (auto simp: source_ok_def pair_net_defs intro!: exI [of _ "1 :: nat"])
  then show "net_ok pair_net" by (simp add: net_ok_def channel_ok_def sender_def receiver_def pair_net_defs)
  show "chains_ok pair_net" by (simp add: chains_ok_def pair_net_defs)
  have ends: "senders pair_net = {0}" "chain_ends pair_net = {2, 3}"
    by (auto simp: senders_def chain_ends_def sender_def pair_net_defs)
  have "plain (conn_name (conns pair_net c)) \<and> 0 \<le> bitwidth (conns pair_net c)" for c
    by (auto simp: pair_net_defs marker_def intro!: short_plain)
  moreover have "inj_on (\<lambda>(p, q). p @ ''_To_'' @ q) ({''A'', ''B''} \<times> {''A'', ''B''})" by (auto simp: inj_on_def)
  ultimately show "names_ok pair_net" unfolding names_ok_def ends by (simp add: pair_net_defs)
qed

theorem program_to_network_witness:
  "\<exists>env S' env' net. mk_FPGAEnvironment bfs chain_platforms = Some (Inr env) \<and>
     routeConnections sample_ops (getPath bfs (env_graph env)) (getPlatformNames env) pair_net = Some (Inr S') \<and>
     parseWidth chain_logs env = Inr env' \<and>
     analyzeNetworkLJF small_net env' (\<lambda>p t. filter (\<lambda>y. next_platform S' y = t) (leaving S' p)) (store_of S') = Some (Inr net) \<and>
     (\<forall>p \<in> {''A'', ''B''}. \<forall>y \<in> set (leaving S' p). link_served net S' p y)"
proof -
  let ?links = "\<lambda>S p t. filter (\<lambda>y. next_platform S y = t) (leaving S p)"
  obtain env where env: "mk_FPGAEnvironment bfs chain_platforms = Some (Inr env)"
    "platforms env = fold addPlatform chain_platforms []" "env_graph env = [(''A'', ''B''), (''B'', ''A'')]"
    by (rule chain_env)
  have names: "getPlatformNames env = [''A'', ''B'']" by (simp add: getPlatformNames_def env(2) chain_built keys_def)
  have mods: "set (mod_names pair_net) = set (getPlatformNames env)" by (simp add: names pair_net_defs)
  have widths: "widths_positive chain_items (\<lambda>_ d n. 128)" by (simp add: widths_positive_def)
  have "egressPlatforms env = [(''A'', ''B''), (''B'', ''A'')]"
    using environment_built(3) [OF chain_ok env(1)] env(3) by (simp add: egressPlatforms_edges)
  then have two: "two_way env" by (simp add: two_way_def)
  have bounds: "MIN_NUMBER_OF_VIAS small_net = 1" "1 \<le> MAX_NUMBER_OF_VIAS small_net" by (simp_all add: small_net_def)
  have links: "lists_links ?links" by (simp add: lists_links_def)
  have "\<forall>p \<in> set (getPlatformNames env). \<forall>q \<in> set (getPlatformNames env). getPathLength bfs (env_graph env) p q \<noteq> - 1"
    unfolding names env(3) by code_simp
  from program_to_network [OF bfs_paths.path_finder_axioms chain_ok env(1) chain_logged [OF env(2)] widths two bounds
      sample_net_ok(3) links pair_net_ok mods this]
  obtain S' env' net where run:
    "routeConnections sample_ops (getPath bfs (env_graph env)) (getPlatformNames env) pair_net = Some (Inr S')"
    "parseWidth chain_logs env = Inr env'" "analyzeNetworkLJF small_net env' (?links S') (store_of S') = Some (Inr net)"
    "\<forall>p \<in> set (getPlatformNames env). \<forall>y \<in> set (leaving S' p). link_served net S' p y"
    by blast
  then have "\<forall>p \<in> {''A'', ''B''}. \<forall>y \<in> set (leaving S' p). link_served net S' p y" by (simp only: names set_simps)
  with env(1) run(1-3) show ?thesis by blast
qed

end
