(* ===== verification/Spec2Isabelle.thy ===== *)
theory Spec2Isabelle
  imports Prelude UmfType Slots Connections ViaAllocation PlatformDesc FpgaEnvironment
    GenerateVias FlowControl Scratchpads TreeTopology TreeSolver SolverTrees TreeBuild Patterns ScratchpadStats
    ScratchpadPartition RingBuild TextLines RemapPorts RemapRings RemapWrapper RemapTop
    Activity MapParser EnvParser PlaceModules LimConnect RouteHops RouteNames RouteAll ModuleGraphs RouterText RouterBSV RouterLinks RouterCPP BsvType BsvParser TypeCompress BuildOps LimGraph WidthReport
    LimExecutable BackendFiles FrontEnd RouteNetwork
begin

text \<open>
  A verification library for the build tools of LEAP's multi-FPGA support
  (\<^verbatim>\<open>modules/leap/build-support/build-pipelines/stages\<close>; all paths below are relative to that directory).


  THE PROGRAM

  A latency-insensitive program is a graph of modules that talk over channels and chains.  The tools put the
  modules on the platforms of an environment (FPGAs, simulations, processes) and connect them over the physical
  links between the platforms.  The build has two passes:

    1. \<^verbatim>\<open>GenerateLIMGraph\<close> reads the environment and configures one build tree per platform.  These builds leave
       their graphs (\<^verbatim>\<open>.li\<close> files) and logs that report the widths of the physical links.
    2. \<^verbatim>\<open>LIMConnect.synthesizeRouters\<close> merges the graphs (\<open>parseModuleGraph\<close>), reads the widths (\<open>parseWidth\<close>) and the
       traffic (\<open>assignActivity\<close>), places the modules (\<open>placeModules\<close>), routes the connections over platforms on the
       way (\<open>routeConnections\<close>), divides every physical link into lanes and assigns the connections to them
       (\<open>analyzeNetwork\<close>), and generates the routers (\<open>generateCode\<close>).  \<^verbatim>\<open>LIMMemory\<close> remaps the scratchpad memories onto
       their controllers (rings or trees).  \<^verbatim>\<open>GenerateLIMExecutable\<close> configures the second build of every platform.


  WHICH THEORY MODELS WHAT

  Prelude, Slots, TextLines, Patterns: the shared vocabulary: exceptions as values, results and loops over
  them, Python's numbers, dictionaries, the discipline of handing out link numbers, generated files, and the
  regular expressions of the program with Python's order of matching.

  The environment.
    EnvParser         \<^verbatim>\<open>parsers/environment/environment_lex.py, environment_parse.py, environment_parser.py\<close>
    PlatformDesc      \<^verbatim>\<open>parsers/environment/platform.py, physical_via.py, parameter.py\<close>
    FpgaEnvironment   \<^verbatim>\<open>parsers/environment/environment.py\<close>: the graph, shortest paths, transit tables, numbering
    MapParser         \<^verbatim>\<open>parsers/map\<close>

  The connection stage, \<^verbatim>\<open>lim_connect\<close>.
    BackendFiles      the constructor of \<open>LIMConnect\<close>, and \<^verbatim>\<open>construct-backend-builds\<close>
    ModuleGraphs      \<open>parseModuleGraph\<close>
    LimConnect        \<open>connectPath\<close>, \<open>routeConnections\<close>, \<open>parseWidth\<close>
    RouteHops, RouteNames, RouteAll   what routing does to the graph: one route, the names and ends of the
                      channels it adds, and that all of it arrives
    Activity          \<^verbatim>\<open>activity.py\<close>
    PlaceModules      \<^verbatim>\<open>map/placeModules.py\<close>
    Connections       the connections as the network analysis sees them
    UmfType           \<^verbatim>\<open>common/umfType.py\<close>: the packet header of a lane
    ViaAllocation     \<open>allocateLJF\<close> of \<^verbatim>\<open>analyze-network/analyzeNetwork.py\<close>: longest job first
    GenerateVias      \<open>generateViaLJF\<close>: the partitions of one physical link
    FlowControl       \<open>analyzeNetworkNonuniform\<close>, \<open>analyzeNetworkLJF\<close>, \<open>analyzeNetwork\<close>
    FrontEnd          environment, widths and network analysis together
    RouteNetwork      the same with routing: from the graph of the program to the analysed network
    RouterText        \<^verbatim>\<open>generate-code/routerStats.py, generateMultiplexors.py\<close>
    RouterBSV, RouterLinks, RouterCPP   \<^verbatim>\<open>generate-code/generateCode.py\<close>: hardware and software routers

  Bluespec types.
    BsvType           \<^verbatim>\<open>parsers/bsv-types/type.py, struct.py, taggedUnion.py, member.py, typeclass.py\<close>
    BsvParser         \<^verbatim>\<open>parsers/bsv-types/typelex.py, typeparse.py, parse_type.py\<close>
    TypeCompress      \<^verbatim>\<open>lim_connect/type-compression/taggedUnionCompress.py\<close>

  The memory stage, \<^verbatim>\<open>lim_memory\<close>.
    Scratchpads       \<^verbatim>\<open>remap-scratchpad/scratchpadModules.py\<close>
    ScratchpadStats, ScratchpadPartition, RingBuild, RemapPorts, RemapRings, RemapWrapper, RemapTop
                      \<^verbatim>\<open>remap-scratchpad/remapScratchpad.py\<close>: statistics, assignment of clients to controllers, rings,
                      the generated wrapper and rings, and the whole remapping
    TreeTopology, TreeSolver, SolverTrees, TreeBuild
                      \<^verbatim>\<open>remap-scratchpad/scratchpadTree.py\<close>: the dynamic program, the balanced tree, the integer
                      program and the trees built from a topology

  The two passes.
    BuildOps, LimGraph, WidthReport    \<^verbatim>\<open>generate_lim_graph/generateLIMGraph.py\<close>
    LimExecutable     \<^verbatim>\<open>lim_memory/LIMMemory.py, generate_lim_executable/generateLIMExecutable.py\<close>


  HOW THE CODE IS MODELLED

  A class is a record or a datatype with the attributes of the code, a function or method is a definition of the
  same name, and a loop body with a name of its own is a definition that the loop folds over.  Exceptions,
  \<open>exit\<close> and failed reads are values: \<open>'a res\<close> is \<open>error + 'a\<close>, and a function whose loop need not stop has the
  type \<open>'a run\<close>, which is \<open>'a res option\<close>, where \<open>None\<close> is a run that does not stop.  Objects that the code shares
  and updates in place (connections, scratchpad clients, physical links under two names) live in a store and
  are named by references.  Python's unbounded integers are \<open>int\<close> or \<open>nat\<close>, its two kinds of number are
  \<open>pynum\<close> where the difference matters (division), and a floating-point number is the rational it stands for.
  A dictionary is an association list in the order of insertion.  Debugging output is left out.

  Code that is not part of this repository is a parameter: the operating system and the tools of the build
  (a record of operations on a state \<open>'w\<close>), the graphs of \<open>li_module\<close>, the shortest paths of \<open>pygraph\<close>, the
  solvers \<open>glpk\<close> and \<open>gurobipy\<close>, \<open>random.shuffle\<close>.  What the code relies on is the locale of the interface
  (\<open>path_finder\<close>, \<open>routing_graph\<close>, \<open>graph_merging\<close>) or a predicate (\<open>solver_ok\<close>, \<open>ops_ok\<close> and the like), and each has an
  instance: breadth-first search, graphs as lists, concrete solvers.  Between components of the program the
  locales \<open>header_sizing\<close> (the sizing of a header, which link allocation repeats) and \<open>lane_allocator\<close> (the
  allocation of a pair, which the network analysis is given as a function) are interpreted on the code's models.
  The generators of \<open>ply\<close> are replaced by the language of their grammars: a text outside the grammar is \<open>None\<close> or
  the exception of \<open>p_error\<close>, because what \<open>ply\<close> does then is not in the source.


  WHAT THE THEOREMS SHOW

  Routing.  \<open>routeConnections_delivers\<close>: the loop over the channels, which appends to the lists it iterates over,
  ends; afterwards every channel and every chain leads to its partner, through one route-through on each platform
  of the path.  The invariant is \<open>net_ok\<close>, progress is \<open>progress\<close>, and \<open>carries\<close> follows a connection.
  \<open>getPath_correct\<close> and \<open>transit_forwarding\<close>: paths are shortest, and following the tables reaches the target.
  \<open>graphize_legal\<close>: the environment is accepted exactly when its links are declared at both ends.

  Lanes.  \<open>generateRouterTypes\<close> stops, because a header only grows and is bounded; so does \<open>allocateLJF\<close>, whose
  repetitions only widen the reservations.  Links get distinct, gap-free numbers (\<open>take_slots\<close>), the same at both
  ends; in the pass the repetition ends with, every link goes to a lane on which it finishes first, which bounds
  the loads (\<open>allocateLJF_load_bound\<close>).  The analysis of the whole network returns and
  its two sides agree on every lane (\<open>analyzeNetworkLJF_symmetric\<close>).  The generated routers use every link once
  (\<open>pair_router_links\<close>, \<open>cpp_channels_fill\<close>).

  The stages together.  \<open>environment_to_network\<close> composes the environment, the widths and the analysis, and
  \<open>program_to_network\<close> adds routing: what leaves a platform after routing has names of its own and leads to a neighbour
  (\<open>links_ready\<close>, with \<open>tidy\<close> as the invariant of the loops), which is what the analysis, which finds a link by its
  name, relies on.  The program has to keep its names apart from the ones routing makes (\<open>names_ok\<close>): those are
  plain concatenations, and a name with \<open>RoutethroughFrom_\<close> or a platform with \<open>_To_\<close> in it could be read in two ways.

  Placement.  Every solution of the integer program is a valid placement and its objective is the traffic
  between platforms.

  Memory.  Every mode of assignment gives every client its controllers, under the conditions of
  \<open>assignScratchpadClients_assigns\<close>, and the balanced one is as even as its busiest client allows.  Trees: the tables of
  the dynamic program are those of the recursion \<open>best\<close>, which finds the cheapest leaf counts for the clients in
  their order; since the clients are sorted by descending latency, no tree of the arity with these clients is
  cheaper, wherever it has them (\<open>rearrangement\<close>).  The solutions of the integer program are exactly the
  full trees (the Kraft equality), so its optimum is a lightest tree.  The trees that are built hold exactly the
  clients, with consecutive ids below every node, where the levels of the topology fit (\<open>trees_fit\<close>): always with the
  dynamic program, and with the balanced trees up to \<open>treeKary ^ 3\<close> clients, beyond which they lose clients
  (\<open>buildScratchpadTrees_balanced_loses_clients\<close>); the trees built from a solution of the solver are not covered.  Rings
  hold exactly the clients of their level.  The remapping with flat rings, with statistics as by default or without,
  does not fail on fresh platforms that have a server each and on statistics it can read, and writes every file.

  Types.  Parsing inverts printing, parsed declarations are well formed, equality is identity on the types the
  parser yields, and the compressed form of a tagged union loses nothing: \<open>decompress_payload\<close> is written after the
  join that is generated (the same lane order, zeros for the lanes that are not enabled), as the meaning of that text.

  Builds.  Every operation of the system (reading, writing, linking, creating directories, comparing files, running
  a tool) may fail with an error of its own, and an error ends the pass.  The passes end by no other error, but
  for a model that is not resolved to a path.  When the first pass returns, every platform has its own
  dictionaries and RRRs and links to those of all others, and the warnings are the files that differ; the user
  program is built once per platform type.  The second pass continues the numbering of the first, finds the graphs
  the first pass leaves, and reads back the widths its routers print.  Both rely on \<open>keeps_files\<close>: writing, creating
  and linking files and the two commands that configure a model (\<open>awb-shell\<close>, \<open>asim-shell\<close>) do not remove any.


  BOUNDS AND FUEL

  Loops that are not structural are \<open>partial_function (option)\<close>: \<open>router_loop\<close>, \<open>allocateLJFWithHeaders\<close>, \<open>path_walk\<close>,
  \<open>first_hop\<close>, \<open>balance_loop\<close> and \<open>route_channels\<close>.  Each has a theorem that it returns (for \<open>balance_loop\<close> with more than
  one child per node; with one it need not).  The parser of types recurses on \<open>fuel ts = 2 * length ts + 4\<close>, which
  \<open>p_type_returns\<close> shows to be enough: every call consumes a token, or is followed by one that does.


  NOT MODELLED

  \<open>synthesizeRouters\<close>: it calls the stages above in order, each of which reads and writes other attributes of one
  graph object of \<open>li_module\<close>; the stages are composed where their data are in this repository (RouteNetwork,
  ModuleGraphs, WidthReport, LimExecutable).
  The pipelines, which only instantiate the stages; \<^verbatim>\<open>software_null.py\<close>, \<^verbatim>\<open>linkType.py\<close>, \<^verbatim>\<open>code.py\<close>, \<^verbatim>\<open>viaType.py\<close>, which have no
  operations; \<^verbatim>\<open>multitest.py\<close>, a script for modules that are not in the repository; \<^verbatim>\<open>compression.py\<close>, an indented
  fragment that is not a valid module.
  Code that cannot be reached: the bodies of the three deprecated serial multiplexors and of
  \<open>generateViaCombinational\<close> and \<open>analyzeNetworkUniform\<close> behind the statement that fails on the undefined name
  \<open>self\<close> or an unbound variable (they are modelled up to it).
  Texts for debugging (\<open>__repr__\<close> and \<open>__str__\<close> where nothing else uses them, \<open>printNetwork\<close>, \<open>printRemapTable\<close>).
\<close>

end
